(* ===== verification/Prelude.thy ===== *)
theory Prelude
  imports Main "HOL-Library.Word" "HOL-Library.AList"
begin

text \<open>
  Shared vocabulary of the development: the names of the machine types the
  repository uses, the collections of simplification and introduction rules that
  the component theories fill, and the generic facts on lists and association
  lists (the model of \<^verbatim>\<open>std::unordered_map\<close>) that more than one component needs.
\<close>

section \<open>Machine types\<close>

text \<open>
  \<^verbatim>\<open>req_id_t\<close> is \<^verbatim>\<open>std::uint64_t\<close> and \<^verbatim>\<open>SymbolId\<close> is \<^verbatim>\<open>uint32_t\<close>; a symbol name is a byte
  string (\<^verbatim>\<open>lcr::local::string<16>\<close>).
\<close>

type_synonym u16 = "16 word"
type_synonym u32 = "32 word"
type_synonym u64 = "64 word"
type_synonym req_id = u64
type_synonym symbol_id = u32
type_synonym symbol = string

text \<open>The subscription types of the Kraken model (kraken/subscriptions/set.hpp): trade and book.\<close>

datatype domain = TradeDomain | BookDomain

section \<open>Rule collections\<close>

named_theorems op_simps \<open>defining equations of the operations of the components\<close>
named_theorems inv_intros \<open>preservation of the components' invariants\<close>

section \<open>Lists\<close>

lemma set_remove1_distinct [simp]: "distinct xs \<Longrightarrow> set (remove1 x xs) = set xs - {x}"
  by (rule set_remove1_eq)

lemma remove1_Nil_iff: "x \<in> set xs \<Longrightarrow> remove1 x xs = [] \<longleftrightarrow> xs = [x]"
  by (cases xs) auto

lemma sum_list_length_concat: "sum_list (map length xss) = length (concat xss)"
  by (simp add: length_concat)

section \<open>Association lists\<close>

text \<open>
  An \<^verbatim>\<open>unordered_map\<close> is an association list with distinct keys. The order of the
  entries stands for the unspecified iteration order of the container: no theorem of
  the development depends on it.
\<close>

lemma map_of_delete_if: "map_of (AList.delete k al) k' = (if k' = k then None else map_of al k')"
  by (simp add: delete_conv)

lemma map_of_update_if: "map_of (AList.update k v al) k' = (if k' = k then Some v else map_of al k')"
  by (simp add: update_conv)

lemmas alist_simps = map_of_delete_if map_of_update_if

lemma map_of_in_set: "map_of al k = Some v \<Longrightarrow> (k, v) \<in> set al"
  by (rule map_of_SomeD)

lemma map_of_empty_iff: "(\<forall>k. map_of al k = None) \<longleftrightarrow> al = []"
  by (cases al) (auto split: if_splits)

end
