(* ===== verification/Pending_Requests.thy ===== *)
theory Pending_Requests
  imports Prelude
begin

text \<open>
  \<^verbatim>\<open>subscription::PendingRequests\<close> (pending_requests.hpp): the requests that wait for an
  acknowledgement, indexed by request id, and the set of the symbols they hold. The
  locale \<open>owner_index\<close> states what the structure promises to its client, the
  subscription manager: it is a finite map from a symbol to the request that owns it.
\<close>

section \<open>State and operations\<close>

record pending_requests =
  requests :: "(req_id \<times> symbol_id list) list"
  pending_symbols :: "symbol_id set"

definition PendingRequests_init :: pending_requests where
  "PendingRequests_init = \<lparr>requests = [], pending_symbols = {}\<rparr>"

text \<open>The loop of \<^verbatim>\<open>add\<close>: symbols that are already pending anywhere are skipped.\<close>

fun pending_add_loop ::
  "symbol_id list \<Rightarrow> symbol_id list \<Rightarrow> symbol_id set \<Rightarrow> symbol_id list \<times> symbol_id set" where
  "pending_add_loop [] vec ps = (vec, ps)"
| "pending_add_loop (sid # sids) vec ps =
     (if sid \<in> ps then pending_add_loop sids vec ps
      else pending_add_loop sids (vec @ [sid]) (insert sid ps))"

text \<open>
  Both \<^verbatim>\<open>add\<close> and \<^verbatim>\<open>remove\<close> end with \<^verbatim>\<open>if (vec.empty()) requests_.erase(...)\<close>: the vector is
  stored back under its request, and an empty one is erased with its request.
\<close>

definition pending_store ::
  "(req_id \<times> symbol_id list) list \<Rightarrow> req_id \<Rightarrow> symbol_id list \<Rightarrow> (req_id \<times> symbol_id list) list" where
  "pending_store al r vec = (if vec = [] then AList.delete r al else AList.update r vec al)"

definition pending_add :: "pending_requests \<Rightarrow> req_id \<Rightarrow> symbol_id list \<Rightarrow> pending_requests" where
  "pending_add p r sids =
     (let vec0 = (case map_of (requests p) r of None \<Rightarrow> [] | Some v \<Rightarrow> v);
          (vec, ps) = pending_add_loop sids vec0 (pending_symbols p)
      in \<lparr>requests = pending_store (requests p) r vec, pending_symbols = ps\<rparr>)"

definition pending_erase :: "pending_requests \<Rightarrow> req_id \<Rightarrow> symbol_id list \<Rightarrow> symbol_id \<Rightarrow> pending_requests" where
  "pending_erase p r vec sid =
     \<lparr>requests = pending_store (requests p) r (remove1 sid vec),
      pending_symbols = pending_symbols p - {sid}\<rparr>"

definition pending_remove ::
  "pending_requests \<Rightarrow> req_id \<Rightarrow> symbol_id \<Rightarrow> pending_requests \<times> bool" where
  "pending_remove p r sid =
     (case map_of (requests p) r of
        None \<Rightarrow> (p, False)
      | Some vec \<Rightarrow>
          if sid \<notin> set vec then (p, False) else (pending_erase p r vec sid, True))"

fun pending_find :: "(req_id \<times> symbol_id list) list \<Rightarrow> symbol_id \<Rightarrow> (req_id \<times> symbol_id list) option" where
  "pending_find [] sid = None"
| "pending_find ((r, vec) # al) sid = (if sid \<in> set vec then Some (r, vec) else pending_find al sid)"

text \<open>
  \<^verbatim>\<open>remove(sid)\<close> searches every request. \<open>None\<close> is the \<^verbatim>\<open>LCR_UNREACHABLE()\<close> behind the
  loop: a trap in a debug build, undefined behaviour in a release build.
\<close>

definition pending_remove_sid ::
  "pending_requests \<Rightarrow> symbol_id \<Rightarrow> (pending_requests \<times> bool) option" where
  "pending_remove_sid p sid =
     (if sid \<notin> pending_symbols p then Some (p, False)
      else case pending_find (requests p) sid of
             None \<Rightarrow> None
           | Some (r, vec) \<Rightarrow> Some (pending_erase p r vec sid, True))"

definition pending_contains :: "pending_requests \<Rightarrow> symbol_id \<Rightarrow> bool" where
  "pending_contains p sid \<longleftrightarrow> sid \<in> pending_symbols p"

definition pending_empty :: "pending_requests \<Rightarrow> bool" where
  "pending_empty p \<longleftrightarrow> requests p = []"

definition pending_count :: "pending_requests \<Rightarrow> nat" where
  "pending_count p = length (requests p)"

definition pending_symbol_count :: "pending_requests \<Rightarrow> nat" where
  "pending_symbol_count p = card (pending_symbols p)"

definition pending_clear :: "pending_requests \<Rightarrow> pending_requests" where
  "pending_clear p = PendingRequests_init"

text \<open>The condition of the debug build's \<^verbatim>\<open>assert_consistency\<close>.\<close>

definition pending_assert_consistency :: "pending_requests \<Rightarrow> bool" where
  "pending_assert_consistency p \<longleftrightarrow>
     sum_list (map (\<lambda>(_, vec). length vec) (requests p)) = card (pending_symbols p)"

section \<open>Invariant and abstraction\<close>

text \<open>The core invariants of the header comment, and the owner of a symbol.\<close>

definition pending_ok :: "pending_requests \<Rightarrow> bool" where
  "pending_ok p \<longleftrightarrow>
     distinct (map fst (requests p)) \<and>
     (\<forall>r vec. map_of (requests p) r = Some vec \<longrightarrow> vec \<noteq> [] \<and> distinct vec) \<and>
     (\<forall>r1 r2 v1 v2 s. map_of (requests p) r1 = Some v1 \<and> map_of (requests p) r2 = Some v2 \<and>
        s \<in> set v1 \<and> s \<in> set v2 \<longrightarrow> r1 = r2) \<and>
     (\<forall>s. s \<in> pending_symbols p \<longleftrightarrow> (\<exists>r vec. map_of (requests p) r = Some vec \<and> s \<in> set vec))"

definition pending_owner :: "pending_requests \<Rightarrow> symbol_id \<Rightarrow> req_id option" where
  "pending_owner p s = map_option fst (pending_find (requests p) s)"

lemma pending_find_SomeD:
  "pending_find al s = Some (r, vec) \<Longrightarrow> (r, vec) \<in> set al \<and> s \<in> set vec"
  by (induction al s rule: pending_find.induct) (auto split: if_splits)

lemma pending_find_None_iff: "pending_find al s = None \<longleftrightarrow> (\<forall>(r, vec) \<in> set al. s \<notin> set vec)"
  by (induction al s rule: pending_find.induct) auto

lemma pending_okD:
  assumes "pending_ok p"
  shows "distinct (map fst (requests p))"
    and "map_of (requests p) r = Some vec \<Longrightarrow> vec \<noteq> []"
    and "map_of (requests p) r = Some vec \<Longrightarrow> distinct vec"
    and "map_of (requests p) r1 = Some v1 \<Longrightarrow> map_of (requests p) r2 = Some v2 \<Longrightarrow>
           s \<in> set v1 \<Longrightarrow> s \<in> set v2 \<Longrightarrow> r1 = r2"
    and "s \<in> pending_symbols p \<longleftrightarrow> (\<exists>r vec. map_of (requests p) r = Some vec \<and> s \<in> set vec)"
  using assms unfolding pending_ok_def by blast+

lemma pending_find_ok:
  assumes "pending_ok p"
  shows "pending_find (requests p) s = Some (r, vec) \<longleftrightarrow>
           map_of (requests p) r = Some vec \<and> s \<in> set vec"
proof
  assume "pending_find (requests p) s = Some (r, vec)"
  from pending_find_SomeD [OF this] show "map_of (requests p) r = Some vec \<and> s \<in> set vec"
    using pending_okD(1) [OF assms] by simp
next
  assume r: "map_of (requests p) r = Some vec \<and> s \<in> set vec"
  then have "pending_find (requests p) s \<noteq> None"
    by (auto simp: pending_find_None_iff dest: map_of_in_set)
  then obtain r' vec' where f: "pending_find (requests p) s = Some (r', vec')"
    by auto
  from pending_find_SomeD [OF this] have r': "map_of (requests p) r' = Some vec' \<and> s \<in> set vec'"
    using pending_okD(1) [OF assms] by simp
  with r have "r' = r"
    using pending_okD(4) [OF assms] by blast
  with f r r' show "pending_find (requests p) s = Some (r, vec)" by simp
qed

lemma pending_owner_Some_iff:
  "pending_ok p \<Longrightarrow>
   pending_owner p s = Some r \<longleftrightarrow> (\<exists>vec. map_of (requests p) r = Some vec \<and> s \<in> set vec)"
  by (auto simp: pending_owner_def pending_find_ok)

lemma pending_symbols_owner:
  "pending_ok p \<Longrightarrow> s \<in> pending_symbols p \<longleftrightarrow> pending_owner p s \<noteq> None"
  by (auto simp: pending_okD(5) pending_owner_Some_iff)

section \<open>The invariant is kept\<close>

lemma pending_ok_init [inv_intros]: "pending_ok PendingRequests_init"
  by (simp add: pending_ok_def PendingRequests_init_def)

lemma pending_add_loop_spec:
  "\<exists>new. pending_add_loop sids vec ps = (vec @ new, ps \<union> set sids) \<and>
     set new = set sids - ps \<and> distinct new"
proof (induction sids vec ps rule: pending_add_loop.induct)
  case (2 sid sids vec ps)
  show ?case
  proof (cases "sid \<in> ps")
    case True
    with 2 show ?thesis by (auto simp: insert_absorb)
  next
    case False
    with 2 obtain new where
      "pending_add_loop sids (vec @ [sid]) (insert sid ps) = ((vec @ [sid]) @ new, insert sid ps \<union> set sids)"
      "set new = set sids - insert sid ps" "distinct new" by auto
    with False show ?thesis by (intro exI [of _ "sid # new"]) auto
  qed
qed simp

text \<open>
  One lemma covers every write: storing \<open>vec\<close> under \<open>r\<close> keeps the invariant when the
  symbols of \<open>vec\<close> are pending nowhere else and the symbol set is adjusted to it.
\<close>

lemma map_of_pending_store:
  "map_of (pending_store al r vec) r' =
     (if r' = r then (if vec = [] then None else Some vec) else map_of al r')"
  by (simp add: pending_store_def alist_simps)

lemma ex_pending_store:
  "(\<exists>r' v. map_of (pending_store al r vec) r' = Some v \<and> s \<in> set v) \<longleftrightarrow>
     s \<in> set vec \<or> (\<exists>r' v. r' \<noteq> r \<and> map_of al r' = Some v \<and> s \<in> set v)"
  by (auto simp: map_of_pending_store split: if_splits)

lemma distinct_pending_store:
  "distinct (map fst al) \<Longrightarrow> distinct (map fst (pending_store al r vec))"
  by (simp add: pending_store_def distinct_delete distinct_update)

lemma pending_ok_store:
  assumes ok: "pending_ok p" and d: "distinct vec"
    and fresh: "\<And>s. s \<in> set vec \<Longrightarrow> pending_owner p s \<in> {None, Some r}"
  shows "pending_ok \<lparr>requests = pending_store (requests p) r vec,
           pending_symbols = {s. pending_owner p s \<notin> {None, Some r}} \<union> set vec\<rparr>"
    (is "pending_ok ?q")
proof -
  have other: "r' = r" if "map_of (requests p) r' = Some v" "s \<in> set v" "s \<in> set vec" for r' v s
    using fresh [OF that(3)] that(1,2) pending_owner_Some_iff [OF ok, of s r'] by auto
  have "s \<in> pending_symbols ?q \<longleftrightarrow> (\<exists>r' v. map_of (requests ?q) r' = Some v \<and> s \<in> set v)" for s
  proof -
    have "pending_owner p s \<notin> {None, Some r} \<longleftrightarrow>
        (\<exists>r' v. r' \<noteq> r \<and> map_of (requests p) r' = Some v \<and> s \<in> set v)"
      using pending_owner_Some_iff [OF ok, of s]
      by (metis insert_iff option.exhaust option.inject option.simps(3) singletonD)
    then show ?thesis by (simp only: pending_requests.simps ex_pending_store) auto
  qed
  moreover have "r1 = r2" if "map_of (requests ?q) r1 = Some v1" "map_of (requests ?q) r2 = Some v2"
    "s \<in> set v1" "s \<in> set v2" for r1 r2 v1 v2 s
    using that other pending_okD(4) [OF ok, of r1 v1 r2 v2 s]
    by (auto simp: map_of_pending_store split: if_splits)
  moreover have "v \<noteq> [] \<and> distinct v" if "map_of (requests ?q) r' = Some v" for r' v
    using that d pending_okD(2,3) [OF ok] by (auto simp: map_of_pending_store split: if_splits)
  ultimately show ?thesis
    using distinct_pending_store [OF pending_okD(1) [OF ok]]
    unfolding pending_ok_def by simp blast
qed

lemma pending_owner_store:
  assumes ok: "pending_ok p" and d: "distinct vec"
    and fresh: "\<And>s. s \<in> set vec \<Longrightarrow> pending_owner p s \<in> {None, Some r}"
    and ps: "ps = {s. pending_owner p s \<notin> {None, Some r}} \<union> set vec"
  shows "pending_owner \<lparr>requests = pending_store (requests p) r vec, pending_symbols = ps\<rparr> s =
           (if s \<in> set vec then Some r else if pending_owner p s = Some r then None
            else pending_owner p s)" (is "pending_owner ?q s = ?o")
proof -
  note okq = pending_ok_store [OF ok d fresh, folded ps]
  have "pending_owner ?q s = Some r' \<longleftrightarrow> ?o = Some r'" for r'
    using fresh [of s] pending_owner_Some_iff [OF ok, of s r'] pending_owner_Some_iff [OF okq, of s r']
    by (auto simp: map_of_pending_store)
  then show ?thesis by (metis not_None_eq)
qed

lemma finite_pending_symbols:
  assumes "pending_ok p" shows "finite (pending_symbols p)"
proof (rule finite_subset)
  show "pending_symbols p \<subseteq> (\<Union>(r, vec) \<in> set (requests p). set vec)"
    using pending_okD(5) [OF assms] by (fastforce dest: map_of_in_set)
qed auto

lemma pending_vec_owner:
  "pending_ok p \<Longrightarrow>
   set (case map_of (requests p) r of None \<Rightarrow> [] | Some v \<Rightarrow> v) = {s. pending_owner p s = Some r}"
  by (cases "map_of (requests p) r") (auto simp: pending_owner_Some_iff)

lemma pending_add_facts:
  assumes ok: "pending_ok p"
  shows "pending_ok (pending_add p r sids) \<and>
    pending_owner (pending_add p r sids) =
      (\<lambda>s. if pending_owner p s = None \<and> s \<in> set sids then Some r else pending_owner p s)"
proof -
  define vec0 where "vec0 = (case map_of (requests p) r of None \<Rightarrow> [] | Some v \<Rightarrow> v)"
  have v0: "set vec0 = {s. pending_owner p s = Some r}" and d0: "distinct vec0"
    using pending_vec_owner [OF ok, of r] pending_okD(3) [OF ok, of r]
    by (auto simp: vec0_def split: option.splits)
  obtain new where l: "pending_add_loop sids vec0 (pending_symbols p) =
      (vec0 @ new, pending_symbols p \<union> set sids)"
    and new: "set new = set sids - pending_symbols p" "distinct new"
    using pending_add_loop_spec by blast
  have fresh: "pending_owner p s \<in> {None, Some r}" if "s \<in> set (vec0 @ new)" for s
    using that v0 new pending_symbols_owner [OF ok, of s] by auto
  have d: "distinct (vec0 @ new)"
    using d0 new v0 pending_symbols_owner [OF ok] by auto
  have ps: "pending_symbols p \<union> set sids =
      {s. pending_owner p s \<notin> {None, Some r}} \<union> set (vec0 @ new)"
    using v0 new pending_symbols_owner [OF ok] by auto
  have eq: "pending_add p r sids = \<lparr>requests = pending_store (requests p) r (vec0 @ new),
      pending_symbols = pending_symbols p \<union> set sids\<rparr>"
    using l by (simp add: pending_add_def vec0_def [symmetric])
  have "pending_owner (pending_add p r sids) s =
      (if pending_owner p s = None \<and> s \<in> set sids then Some r else pending_owner p s)" for s
    using v0 new pending_symbols_owner [OF ok, of s] pending_owner_store [OF ok d fresh ps, of s]
    by (auto simp: eq)
  then show ?thesis
    using pending_ok_store [OF ok d fresh, folded ps] by (auto simp: eq)
qed

lemma pending_erase_facts:
  assumes ok: "pending_ok p" and vec: "map_of (requests p) r = Some vec" and s: "sid \<in> set vec"
  shows "pending_ok (pending_erase p r vec sid) \<and>
    pending_owner (pending_erase p r vec sid) = (pending_owner p)(sid := None)"
proof -
  have v: "set vec = {s. pending_owner p s = Some r}" and d: "distinct vec"
    using pending_vec_owner [OF ok, of r] pending_okD(3) [OF ok, of r] vec by auto
  have fresh: "pending_owner p x \<in> {None, Some r}" if "x \<in> set (remove1 sid vec)" for x
    using that v d by auto
  have ps: "pending_symbols p - {sid} =
      {s. pending_owner p s \<notin> {None, Some r}} \<union> set (remove1 sid vec)"
    using v d s pending_symbols_owner [OF ok] by auto
  have d': "distinct (remove1 sid vec)" using d by simp
  have "pending_owner (pending_erase p r vec sid) x = ((pending_owner p)(sid := None)) x" for x
    using v d s pending_owner_store [OF ok d' fresh ps, of x] by (auto simp: pending_erase_def)
  then show ?thesis
    using pending_ok_store [OF ok d' fresh, folded ps] by (auto simp: pending_erase_def)
qed

lemma pending_remove_facts:
  assumes ok: "pending_ok p"
  shows "pending_remove p r sid =
           (if pending_owner p sid = Some r then (fst (pending_remove p r sid), True) else (p, False)) \<and>
         pending_ok (fst (pending_remove p r sid)) \<and>
         pending_owner (fst (pending_remove p r sid)) =
           (if pending_owner p sid = Some r then (pending_owner p)(sid := None) else pending_owner p)"
  using ok pending_erase_facts [OF ok, of r] pending_owner_Some_iff [OF ok, of sid r]
  by (auto simp: pending_remove_def split: option.splits)

lemma pending_remove_sid_facts:
  assumes ok: "pending_ok p"
  shows "\<exists>q. pending_remove_sid p sid = Some (q, pending_owner p sid \<noteq> None) \<and> pending_ok q \<and>
           pending_owner q = (pending_owner p)(sid := None)"
proof (cases "pending_find (requests p) sid")
  case None
  then have "pending_owner p sid = None" by (simp add: pending_owner_def)
  with ok show ?thesis
    by (simp add: pending_remove_sid_def pending_symbols_owner fun_upd_idem)
next
  case (Some rv)
  obtain r vec where rv: "rv = (r, vec)" by fastforce
  with Some pending_find_ok [OF ok] have "map_of (requests p) r = Some vec" "sid \<in> set vec" by auto
  from pending_erase_facts [OF ok this] Some rv ok show ?thesis
    by (simp add: pending_remove_sid_def pending_symbols_owner pending_owner_def)
qed

section \<open>The contract with the subscription manager\<close>

locale owner_index =
  fixes inv :: "'p \<Rightarrow> bool"
    and owner :: "'p \<Rightarrow> 's \<Rightarrow> 'r option"
    and fresh :: 'p
    and insert_all :: "'p \<Rightarrow> 'r \<Rightarrow> 's list \<Rightarrow> 'p"
    and take_from :: "'p \<Rightarrow> 'r \<Rightarrow> 's \<Rightarrow> 'p \<times> bool"
    and take_any :: "'p \<Rightarrow> 's \<Rightarrow> ('p \<times> bool) option"
    and holds :: "'p \<Rightarrow> 's \<Rightarrow> bool"
    and vacant :: "'p \<Rightarrow> bool"
    and size_of :: "'p \<Rightarrow> nat"
  assumes fresh_ok: "inv fresh" and owner_fresh: "owner fresh = Map.empty"
    and insert_ok: "inv p \<Longrightarrow> inv (insert_all p r ss)"
    and owner_insert: "inv p \<Longrightarrow> owner (insert_all p r ss) =
          (\<lambda>s. if owner p s = None \<and> s \<in> set ss then Some r else owner p s)"
    and take_from_ok: "inv p \<Longrightarrow> inv (fst (take_from p r s))"
    and take_from_hit: "inv p \<Longrightarrow> snd (take_from p r s) \<longleftrightarrow> owner p s = Some r"
    and take_from_miss: "inv p \<Longrightarrow> owner p s \<noteq> Some r \<Longrightarrow> fst (take_from p r s) = p"
    and owner_take_from: "inv p \<Longrightarrow> owner p s = Some r \<Longrightarrow>
          owner (fst (take_from p r s)) = (owner p)(s := None)"
    and take_any_spec: "inv p \<Longrightarrow> \<exists>q. take_any p s = Some (q, owner p s \<noteq> None) \<and> inv q \<and>
          owner q = (owner p)(s := None)"
    and holds_iff: "inv p \<Longrightarrow> holds p s \<longleftrightarrow> owner p s \<noteq> None"
    and vacant_iff: "inv p \<Longrightarrow> vacant p \<longleftrightarrow> owner p = Map.empty"
    and size_spec: "inv p \<Longrightarrow> size_of p = card (dom (owner p))"
    and finite_owner: "inv p \<Longrightarrow> finite (dom (owner p))"
begin

lemma insert_idem: "inv p \<Longrightarrow> owner (insert_all (insert_all p r ss) r' ss) = owner (insert_all p r ss)"
  by (auto simp: owner_insert insert_ok fun_eq_iff)

lemma take_any_total: "inv p \<Longrightarrow> take_any p s \<noteq> None"
  using take_any_spec [of p s] by auto

lemma dom_insert: "inv p \<Longrightarrow> dom (owner (insert_all p r ss)) = dom (owner p) \<union> set ss"
  by (auto simp: owner_insert split: if_splits)

lemma size_insert: "inv p \<Longrightarrow> size_of (insert_all p r ss) = size_of p + card (set ss - dom (owner p))"
  using card_Un_disjoint [of "dom (owner p)" "set ss - dom (owner p)"]
  by (simp add: size_spec insert_ok dom_insert finite_owner)

lemma take_from_insert:
  assumes "inv p" and "owner p s = None" and "s \<in> set ss"
  shows "snd (take_from (insert_all p r ss) r s)"
    and "owner (fst (take_from (insert_all p r ss) r s)) = (owner (insert_all p r ss))(s := None)"
  using assms by (simp_all add: take_from_hit owner_take_from insert_ok owner_insert)

lemma vacant_size: "inv p \<Longrightarrow> vacant p \<longleftrightarrow> size_of p = 0"
  by (simp add: vacant_iff size_spec finite_owner)

end

lemma pending_vacant_iff: "pending_ok p \<Longrightarrow> pending_empty p \<longleftrightarrow> pending_owner p = Map.empty"
proof -
  assume ok: "pending_ok p"
  have "requests p = []" if "pending_owner p = Map.empty"
  proof (rule ccontr)
    assume "requests p \<noteq> []"
    then obtain r vec where "map_of (requests p) r = Some vec"
      by (metis map_of_empty_iff not_None_eq)
    with ok that show False
      using pending_okD(2) [OF ok] pending_owner_Some_iff [OF ok, of "hd vec" r]
      by (metis hd_in_set option.simps(3))
  qed
  then show ?thesis by (auto simp: pending_empty_def pending_owner_def)
qed

lemma pending_symbols_dom: "pending_ok p \<Longrightarrow> pending_symbols p = dom (pending_owner p)"
  by (auto simp: pending_symbols_owner)

interpretation pending: owner_index pending_ok pending_owner PendingRequests_init pending_add
  pending_remove pending_remove_sid pending_contains pending_empty pending_symbol_count
proof unfold_locales
  show "pending_ok PendingRequests_init" by (rule pending_ok_init)
  show "pending_owner PendingRequests_init = Map.empty"
    by (simp add: PendingRequests_init_def pending_owner_def fun_eq_iff)
next
  fix p r ss assume "pending_ok p"
  then show "pending_ok (pending_add p r ss)"
    and "pending_owner (pending_add p r ss) =
      (\<lambda>s. if pending_owner p s = None \<and> s \<in> set ss then Some r else pending_owner p s)"
    using pending_add_facts by blast+
next
  fix p r s assume "pending_ok p"
  then show "pending_ok (fst (pending_remove p r s))"
    and "snd (pending_remove p r s) \<longleftrightarrow> pending_owner p s = Some r"
    using pending_remove_facts [of p r s] by (auto split: if_splits dest: arg_cong [where f = snd])
next
  fix p s r assume "pending_ok p" "pending_owner p s \<noteq> Some r"
  then show "fst (pending_remove p r s) = p"
    using pending_remove_facts [of p r s] by (auto dest: arg_cong [where f = fst])
next
  fix p s r assume "pending_ok p" "pending_owner p s = Some r"
  then show "pending_owner (fst (pending_remove p r s)) = (pending_owner p)(s := None)"
    using pending_remove_facts [of p r s] by simp
next
  fix p s assume "pending_ok p"
  then show "\<exists>q. pending_remove_sid p s = Some (q, pending_owner p s \<noteq> None) \<and> pending_ok q \<and>
      pending_owner q = (pending_owner p)(s := None)"
    by (rule pending_remove_sid_facts)
qed (simp_all add: pending_contains_def pending_symbols_owner
    pending_vacant_iff pending_symbol_count_def finite_pending_symbols flip: pending_symbols_dom)

section \<open>Properties\<close>

lemma distinct_concat_vectors:
  assumes "distinct (map fst al)" and "\<And>r v. (r, v) \<in> set al \<Longrightarrow> distinct v"
    and "\<And>r1 v1 r2 v2 s. (r1, v1) \<in> set al \<Longrightarrow> (r2, v2) \<in> set al \<Longrightarrow>
           s \<in> set v1 \<Longrightarrow> s \<in> set v2 \<Longrightarrow> r1 = r2"
  shows "distinct (concat (map snd al))"
  using assms
proof (induction al)
  case (Cons a al)
  obtain r v where a: "a = (r, v)" by fastforce
  have "set v \<inter> set v' = {}" if "(r', v') \<in> set al" for r' v'
  proof -
    have "r \<noteq> r'" using Cons.prems(1) that a by force
    then show ?thesis using Cons.prems(3) [of r v r' v'] that a by auto
  qed
  moreover have "distinct (concat (map snd al))"
  proof (rule Cons.IH)
    show "r1 = r2" if "(r1, v1) \<in> set al" "(r2, v2) \<in> set al" "s \<in> set v1" "s \<in> set v2"
      for r1 v1 r2 v2 s
      using Cons.prems(3) [of r1 v1 r2 v2 s] that by simp
  qed (use Cons.prems(1,2) in auto)
  moreover have "distinct v" using Cons.prems(2) [of r v] a by simp
  ultimately show ?case using a by fastforce
qed simp

lemma pending_entries:
  assumes "pending_ok p"
  shows "(r, v) \<in> set (requests p) \<longleftrightarrow> map_of (requests p) r = Some v"
  using pending_okD(1) [OF assms] by simp

lemma distinct_pending_vectors:
  assumes "pending_ok p" shows "distinct (concat (map snd (requests p)))"
  using pending_okD(1) [OF assms]
proof (rule distinct_concat_vectors)
  show "\<And>r v. (r, v) \<in> set (requests p) \<Longrightarrow> distinct v"
    unfolding pending_entries [OF assms] by (rule pending_okD(3) [OF assms])
  show "\<And>r1 v1 r2 v2 s. (r1, v1) \<in> set (requests p) \<Longrightarrow> (r2, v2) \<in> set (requests p) \<Longrightarrow>
           s \<in> set v1 \<Longrightarrow> s \<in> set v2 \<Longrightarrow> r1 = r2"
    unfolding pending_entries [OF assms] by (rule pending_okD(4) [OF assms])
qed

lemma set_concat_pending_vectors:
  assumes "pending_ok p" shows "set (concat (map snd (requests p))) = pending_symbols p"
proof -
  have "s \<in> set (concat (map snd (requests p))) \<longleftrightarrow> (\<exists>r v. (r, v) \<in> set (requests p) \<and> s \<in> set v)" for s
    by (auto simp: Bex_def)
  then show ?thesis
    by (simp add: set_eq_iff pending_okD(5) [OF assms] pending_entries [OF assms])
qed

lemma pending_ok_consistent:
  assumes "pending_ok p"
  shows "pending_assert_consistency p"
proof -
  have "sum_list (map (\<lambda>(_, vec). length vec) al) = length (concat (map snd al))"
    for al :: "(req_id \<times> symbol_id list) list"
    by (induction al) auto
  then show ?thesis
    using distinct_card [OF distinct_pending_vectors [OF assms]] set_concat_pending_vectors [OF assms]
    by (simp add: pending_assert_consistency_def)
qed

lemma pending_ok_example: "pending_ok (pending_add PendingRequests_init 10 [1, 2, 1])"
  by (intro pending.insert_ok pending.fresh_ok)

text \<open>The three mutations of \<^verbatim>\<open>PendingRequests\<close> implement a finite map from a symbol to the
  request that owns it: \<^verbatim>\<open>add\<close> gives the request exactly the symbols nobody owns,
  \<^verbatim>\<open>remove(req_id, sid)\<close> succeeds only for the owner and then frees the symbol, and
  \<^verbatim>\<open>remove(sid)\<close> frees the symbol whoever owns it and never reaches \<^verbatim>\<open>LCR_UNREACHABLE\<close>.
  Each keeps the invariant.\<close>

theorem pending_refines_owner_map:
  assumes "pending_ok p"
  shows "pending_ok (pending_add p r sids) \<and>
    pending_owner (pending_add p r sids) =
      (\<lambda>s. if pending_owner p s = None \<and> s \<in> set sids then Some r else pending_owner p s) \<and>
    pending_ok (fst (pending_remove p r sid)) \<and>
    snd (pending_remove p r sid) = (pending_owner p sid = Some r) \<and>
    pending_owner (fst (pending_remove p r sid)) =
      (if pending_owner p sid = Some r then (pending_owner p)(sid := None) else pending_owner p) \<and>
    (\<exists>q. pending_remove_sid p sid = Some (q, pending_contains p sid) \<and> pending_ok q \<and>
      pending_owner q = (pending_owner p)(sid := None))"
  using pending.insert_ok [OF assms] pending.owner_insert [OF assms]
    pending_remove_facts [OF assms, of r sid] pending.take_from_hit [OF assms, of r sid]
    pending.take_any_spec [OF assms, of sid] pending.holds_iff [OF assms, of sid]
  by simp

theorem pending_refines_owner_map_witness:
  "pending_owner (pending_add (pending_add PendingRequests_init 10 [1, 2, 1]) 11 [2, 3]) 3 = Some 11 \<and>
   snd (pending_remove (pending_add PendingRequests_init 10 [1, 2, 1]) 10 2)"
  using pending_refines_owner_map [OF pending_ok_example, of 11 "[2, 3]" 0]
    pending_refines_owner_map [OF pending_ok_example, of 10 "[]" 2]
  by (simp add: pending_add_def PendingRequests_init_def pending_store_def pending_owner_def)

end
