(* ===== verification/Subscription_Manager.thy ===== *)
theory Subscription_Manager
  imports Pending_Requests
begin

text \<open>
  \<^verbatim>\<open>subscription::Manager\<close> (manager.hpp): the symbol-level state machine of one
  subscription type. Every operation that takes symbol names has the interning function
  as its first argument: \<^verbatim>\<open>intern_symbol\<close> of the process-wide symbol table, whose ids
  never change once given (theory \<open>Symbol_Intern\<close>). An operation returns \<open>None\<close> exactly
  where \<^verbatim>\<open>PendingRequests::remove(sid)\<close> would reach \<^verbatim>\<open>LCR_UNREACHABLE\<close>.

  The abstract specification is one four-state machine per symbol; the operations
  are shown to act on it pointwise.
\<close>

section \<open>State and operations\<close>

record manager =
  pending_subscriptions :: pending_requests
  pending_unsubscriptions :: pending_requests
  active_symbols :: "symbol_id set"

definition Manager_init :: manager where
  "Manager_init = \<lparr>pending_subscriptions = PendingRequests_init,
     pending_unsubscriptions = PendingRequests_init, active_symbols = {}\<rparr>"

text \<open>
  The filtering loop of \<^verbatim>\<open>register_subscription\<close>. The source compacts \<^verbatim>\<open>symbols\<close> in place with
  a read and a write index; the kept symbols and their ids are the second and third
  component here.
\<close>

fun register_subscription_loop ::
  "(symbol \<Rightarrow> symbol_id) \<Rightarrow> manager \<Rightarrow> symbol list \<Rightarrow> (manager \<times> symbol list \<times> symbol_id list) option" where
  "register_subscription_loop intern m [] = Some (m, [], [])"
| "register_subscription_loop intern m (symbol # symbols) =
     (let sid = intern symbol in
      if sid \<in> active_symbols m then register_subscription_loop intern m symbols
      else if pending_contains (pending_subscriptions m) sid
      then register_subscription_loop intern m symbols
      else if pending_contains (pending_unsubscriptions m) sid then
        (case pending_remove_sid (pending_unsubscriptions m) sid of
           None \<Rightarrow> None
         | Some (q, removed) \<Rightarrow>
             register_subscription_loop intern
               (m\<lparr>pending_unsubscriptions := q,
                  active_symbols := (if removed then insert sid (active_symbols m)
                                     else active_symbols m)\<rparr>) symbols)
      else
        (case register_subscription_loop intern m symbols of
           None \<Rightarrow> None
         | Some (m', kept, accepted) \<Rightarrow> Some (m', symbol # kept, sid # accepted)))"

definition register_subscription ::
  "(symbol \<Rightarrow> symbol_id) \<Rightarrow> manager \<Rightarrow> symbol list \<Rightarrow> req_id \<Rightarrow> (manager \<times> symbol list) option" where
  "register_subscription intern m symbols r =
     (case register_subscription_loop intern m symbols of
        None \<Rightarrow> None
      | Some (m', kept, accepted) \<Rightarrow>
          Some (if kept \<noteq> []
                then m'\<lparr>pending_subscriptions := pending_add (pending_subscriptions m') r accepted\<rparr>
                else m', kept))"

fun register_unsubscription_loop ::
  "(symbol \<Rightarrow> symbol_id) \<Rightarrow> manager \<Rightarrow> symbol list \<Rightarrow> (manager \<times> symbol list \<times> symbol_id list) option" where
  "register_unsubscription_loop intern m [] = Some (m, [], [])"
| "register_unsubscription_loop intern m (symbol # symbols) =
     (let sid = intern symbol in
      if pending_contains (pending_subscriptions m) sid then
        (case pending_remove_sid (pending_subscriptions m) sid of
           None \<Rightarrow> None
         | Some (q, removed) \<Rightarrow>
             (case register_unsubscription_loop intern (m\<lparr>pending_subscriptions := q\<rparr>) symbols of
                None \<Rightarrow> None
              | Some (m', cancelled, filtered) \<Rightarrow>
                  Some (m', if removed then symbol # cancelled else cancelled, filtered)))
      else if sid \<notin> active_symbols m then register_unsubscription_loop intern m symbols
      else if pending_contains (pending_unsubscriptions m) sid
      then register_unsubscription_loop intern m symbols
      else
        (case register_unsubscription_loop intern m symbols of
           None \<Rightarrow> None
         | Some (m', cancelled, filtered) \<Rightarrow> Some (m', cancelled, sid # filtered)))"

definition register_unsubscription ::
  "(symbol \<Rightarrow> symbol_id) \<Rightarrow> manager \<Rightarrow> symbol list \<Rightarrow> req_id \<Rightarrow> (manager \<times> symbol list) option" where
  "register_unsubscription intern m symbols r =
     (case register_unsubscription_loop intern m symbols of
        None \<Rightarrow> None
      | Some (m', cancelled, filtered) \<Rightarrow>
          Some (if filtered \<noteq> []
                then m'\<lparr>pending_unsubscriptions := pending_add (pending_unsubscriptions m') r filtered\<rparr>
                else m', cancelled))"

definition confirm_subscription :: "manager \<Rightarrow> req_id \<Rightarrow> symbol_id \<Rightarrow> manager" where
  "confirm_subscription m r sid =
     (let (q, removed) = pending_remove (pending_subscriptions m) r sid in
      if \<not> removed then m\<lparr>pending_subscriptions := q\<rparr>
      else m\<lparr>pending_subscriptions := q, active_symbols := insert sid (active_symbols m)\<rparr>)"

definition reject_subscription :: "manager \<Rightarrow> req_id \<Rightarrow> symbol_id \<Rightarrow> manager" where
  "reject_subscription m r sid =
     m\<lparr>pending_subscriptions := fst (pending_remove (pending_subscriptions m) r sid)\<rparr>"

definition confirm_unsubscription :: "manager \<Rightarrow> req_id \<Rightarrow> symbol_id \<Rightarrow> manager" where
  "confirm_unsubscription m r sid =
     (let (q, removed) = pending_remove (pending_unsubscriptions m) r sid in
      if \<not> removed then m\<lparr>pending_unsubscriptions := q\<rparr>
      else m\<lparr>pending_unsubscriptions := q, active_symbols := active_symbols m - {sid}\<rparr>)"

definition reject_unsubscription :: "manager \<Rightarrow> req_id \<Rightarrow> symbol_id \<Rightarrow> manager" where
  "reject_unsubscription m r sid =
     m\<lparr>pending_unsubscriptions := fst (pending_remove (pending_unsubscriptions m) r sid)\<rparr>"

definition process_subscribe_ack ::
  "(symbol \<Rightarrow> symbol_id) \<Rightarrow> manager \<Rightarrow> req_id \<Rightarrow> symbol \<Rightarrow> bool \<Rightarrow> manager \<times> bool" where
  "process_subscribe_ack intern m r symbol success =
     (let sid = intern symbol in
      if \<not> pending_contains (pending_subscriptions m) sid then (m, False)
      else (if success then confirm_subscription m r sid else reject_subscription m r sid, True))"

definition process_unsubscribe_ack ::
  "(symbol \<Rightarrow> symbol_id) \<Rightarrow> manager \<Rightarrow> req_id \<Rightarrow> symbol \<Rightarrow> bool \<Rightarrow> manager \<times> bool" where
  "process_unsubscribe_ack intern m r symbol success =
     (let sid = intern symbol in
      if \<not> pending_contains (pending_unsubscriptions m) sid then (m, False)
      else (if success then confirm_unsubscription m r sid else reject_unsubscription m r sid, True))"

definition try_process_rejection ::
  "(symbol \<Rightarrow> symbol_id) \<Rightarrow> manager \<Rightarrow> req_id \<Rightarrow> symbol \<Rightarrow> manager \<times> bool" where
  "try_process_rejection intern m r symbol =
     (let sid = intern symbol; (q, removed) = pending_remove (pending_subscriptions m) r sid in
      if removed then (m\<lparr>pending_subscriptions := q\<rparr>, True)
      else let (q', removed') = pending_remove (pending_unsubscriptions m) r sid in
           if removed' then (m\<lparr>pending_unsubscriptions := q'\<rparr>, True) else (m, False))"

definition has_pending_requests :: "manager \<Rightarrow> bool" where
  "has_pending_requests m \<longleftrightarrow>
     \<not> pending_empty (pending_subscriptions m) \<or> \<not> pending_empty (pending_unsubscriptions m)"

definition manager_pending_requests :: "manager \<Rightarrow> nat" where
  "manager_pending_requests m =
     pending_count (pending_subscriptions m) + pending_count (pending_unsubscriptions m)"

definition has_active_symbols :: "manager \<Rightarrow> bool" where
  "has_active_symbols m \<longleftrightarrow> active_symbols m \<noteq> {}"

definition manager_total_symbols :: "manager \<Rightarrow> nat" where
  "manager_total_symbols m = card (active_symbols m) + pending_symbol_count (pending_subscriptions m)"

definition manager_pending_symbols :: "manager \<Rightarrow> nat" where
  "manager_pending_symbols m =
     pending_symbol_count (pending_subscriptions m) + pending_symbol_count (pending_unsubscriptions m)"

definition manager_clear_all :: "manager \<Rightarrow> manager" where
  "manager_clear_all m = m\<lparr>pending_subscriptions := pending_clear (pending_subscriptions m),
     pending_unsubscriptions := pending_clear (pending_unsubscriptions m), active_symbols := {}\<rparr>"

text \<open>The conditions that the debug build's \<^verbatim>\<open>Manager::assert_consistency\<close> asserts.\<close>

definition manager_assert_consistency :: "manager \<Rightarrow> bool" where
  "manager_assert_consistency m \<longleftrightarrow>
     (\<forall>sid \<in> active_symbols m. \<not> pending_contains (pending_subscriptions m) sid \<and>
        \<not> pending_contains (pending_unsubscriptions m) sid) \<and>
     pending_assert_consistency (pending_subscriptions m) \<and>
     pending_assert_consistency (pending_unsubscriptions m)"

section \<open>Abstract specification: one state machine per symbol\<close>

datatype sub_state = Inactive | Subscribing req_id | Active | Unsubscribing req_id

definition sub_state_of :: "manager \<Rightarrow> symbol_id \<Rightarrow> sub_state" where
  "sub_state_of m s =
     (case pending_owner (pending_subscriptions m) s of
        Some r \<Rightarrow> Subscribing r
      | None \<Rightarrow> if s \<notin> active_symbols m then Inactive
          else (case pending_owner (pending_unsubscriptions m) s of
                  None \<Rightarrow> Active | Some r \<Rightarrow> Unsubscribing r))"

fun on_subscribe :: "req_id \<Rightarrow> sub_state \<Rightarrow> sub_state" where
  "on_subscribe r Inactive = Subscribing r"
| "on_subscribe r st = st"

fun on_unsubscribe :: "req_id \<Rightarrow> sub_state \<Rightarrow> sub_state" where
  "on_unsubscribe r (Subscribing r') = Inactive"
| "on_unsubscribe r Active = Unsubscribing r"
| "on_unsubscribe r st = st"

fun on_subscribe_ack :: "req_id \<Rightarrow> bool \<Rightarrow> sub_state \<Rightarrow> sub_state" where
  "on_subscribe_ack r success (Subscribing r') =
     (if r' = r then (if success then Active else Inactive) else Subscribing r')"
| "on_subscribe_ack r success st = st"

fun on_unsubscribe_ack :: "req_id \<Rightarrow> bool \<Rightarrow> sub_state \<Rightarrow> sub_state" where
  "on_unsubscribe_ack r success (Unsubscribing r') =
     (if r' = r then (if success then Inactive else Active) else Unsubscribing r')"
| "on_unsubscribe_ack r success st = st"

fun on_rejection :: "req_id \<Rightarrow> sub_state \<Rightarrow> sub_state" where
  "on_rejection r (Subscribing r') = (if r' = r then Inactive else Subscribing r')"
| "on_rejection r (Unsubscribing r') = (if r' = r then Active else Unsubscribing r')"
| "on_rejection r st = st"

text \<open>
  The invariant the operations keep. A symbol whose unsubscription is pending stays in
  \<^verbatim>\<open>active_symbols_\<close> until the acknowledgement.
\<close>

definition manager_ok :: "manager \<Rightarrow> bool" where
  "manager_ok m \<longleftrightarrow> pending_ok (pending_subscriptions m) \<and> pending_ok (pending_unsubscriptions m) \<and>
     finite (active_symbols m) \<and>
     active_symbols m \<inter> dom (pending_owner (pending_subscriptions m)) = {} \<and>
     dom (pending_owner (pending_unsubscriptions m)) \<subseteq> active_symbols m"

lemma manager_okD:
  assumes "manager_ok m"
  shows "pending_ok (pending_subscriptions m)" "pending_ok (pending_unsubscriptions m)"
    "finite (active_symbols m)"
    "s \<in> active_symbols m \<Longrightarrow> pending_owner (pending_subscriptions m) s = None"
    "pending_owner (pending_unsubscriptions m) s = Some r \<Longrightarrow> s \<in> active_symbols m"
  using assms unfolding manager_ok_def by blast+

lemma pending_contains_manager:
  assumes "manager_ok m"
  shows "pending_contains (pending_subscriptions m) s \<longleftrightarrow> (\<exists>r. sub_state_of m s = Subscribing r)"
    and "pending_contains (pending_unsubscriptions m) s \<longleftrightarrow> (\<exists>r. sub_state_of m s = Unsubscribing r)"
    and "s \<in> active_symbols m \<longleftrightarrow> sub_state_of m s = Active \<or> (\<exists>r. sub_state_of m s = Unsubscribing r)"
  using manager_okD(1,2) [OF assms] manager_okD(4,5) [OF assms, of s]
  by (auto simp: pending.holds_iff sub_state_of_def split: option.splits if_splits)

section \<open>The operations act pointwise on the symbol states\<close>

lemma manager_ok_init [inv_intros]: "manager_ok Manager_init"
  by (simp add: manager_ok_def Manager_init_def pending_ok_init pending.owner_fresh)

lemma sub_state_init: "sub_state_of Manager_init s = Inactive"
  by (simp add: sub_state_of_def Manager_init_def pending.owner_fresh)

text \<open>
  Under the invariant the loop changes nothing and keeps exactly the inactive symbols:
  the branch that would cancel a pending unsubscription is never taken.
\<close>

lemma register_subscription_loop_eq:
  assumes "manager_ok m"
  shows "register_subscription_loop intern m symbols =
    Some (m, filter (\<lambda>x. sub_state_of m (intern x) = Inactive) symbols,
          map intern (filter (\<lambda>x. sub_state_of m (intern x) = Inactive) symbols))"
proof (induction symbols)
  case (Cons x xs)
  then show ?case
    by (cases "sub_state_of m (intern x)") (simp_all add: pending_contains_manager [OF assms] Let_def)
qed simp

lemma manager_ok_add_pending:
  fixes r :: req_id
  assumes ok: "manager_ok m" and S: "\<And>s. s \<in> set sids \<Longrightarrow> sub_state_of m s = Inactive"
  defines "m' \<equiv> m\<lparr>pending_subscriptions := pending_add (pending_subscriptions m) r sids\<rparr>"
  shows "manager_ok m'"
    and "sub_state_of m' s = (if s \<in> set sids then on_subscribe r (sub_state_of m s) else sub_state_of m s)"
proof -
  have o: "pending_owner (pending_subscriptions m') = (\<lambda>s. if
      pending_owner (pending_subscriptions m) s = None \<and> s \<in> set sids then Some r
      else pending_owner (pending_subscriptions m) s)"
    by (simp add: m'_def pending.owner_insert manager_okD(1) [OF ok])
  have na: "s \<notin> active_symbols m \<and> pending_owner (pending_subscriptions m) s = None" if "s \<in> set sids" for s
    using S [OF that] by (auto simp: sub_state_of_def split: option.splits if_splits)
  show "sub_state_of m' s = (if s \<in> set sids then on_subscribe r (sub_state_of m s) else sub_state_of m s)"
    using na [of s] unfolding sub_state_of_def o by (auto simp: m'_def split: option.split)
  have "pending_ok (pending_subscriptions m')"
    by (simp add: m'_def pending.insert_ok manager_okD(1) [OF ok])
  moreover have "active_symbols m' \<inter> dom (pending_owner (pending_subscriptions m')) = {}"
    using manager_okD(4) [OF ok] na unfolding o by (auto simp: m'_def split: if_splits)
  ultimately show "manager_ok m'"
    using ok by (simp add: manager_ok_def m'_def)
qed

lemma register_subscription_facts:
  assumes ok: "manager_ok m"
  shows "\<exists>m'. register_subscription intern m symbols r =
      Some (m', filter (\<lambda>x. sub_state_of m (intern x) = Inactive) symbols) \<and> manager_ok m' \<and>
    (\<forall>s. sub_state_of m' s =
       (if s \<in> intern ` set symbols then on_subscribe r (sub_state_of m s) else sub_state_of m s))"
proof -
  let ?kept = "filter (\<lambda>x. sub_state_of m (intern x) = Inactive) symbols"
  let ?m' = "m\<lparr>pending_subscriptions := pending_add (pending_subscriptions m) r (map intern ?kept)\<rparr>"
  have keep: "on_subscribe r (sub_state_of m s) = sub_state_of m s"
    if "s \<in> intern ` set symbols" "s \<notin> intern ` set ?kept" for s
    using that by (cases "sub_state_of m s") auto
  have S: "sub_state_of m s = Inactive" if "s \<in> set (map intern ?kept)" for s
    using that by auto
  note add = manager_ok_add_pending [OF ok S, of "map intern ?kept", simplified]
  have "sub_state_of ?m' s =
      (if s \<in> intern ` set symbols then on_subscribe r (sub_state_of m s) else sub_state_of m s)" for s
  proof (cases "s \<in> intern ` set ?kept")
    case True
    then show ?thesis using add(2) [of r s] by auto
  next
    case False
    then show ?thesis using add(2) [of r s] keep [of s] by auto
  qed
  moreover have "manager_ok ?m'" using add(1) [of r] by simp
  ultimately have n: "manager_ok ?m' \<and> (\<forall>s. sub_state_of ?m' s =
      (if s \<in> intern ` set symbols then on_subscribe r (sub_state_of m s) else sub_state_of m s))"
    by blast
  show ?thesis
  proof (cases "?kept = []")
    case True
    then have "register_subscription intern m symbols r = Some (m, ?kept)"
      by (simp add: register_subscription_def register_subscription_loop_eq [OF ok])
    with ok keep True show ?thesis by simp
  next
    case False
    then have "register_subscription intern m symbols r = Some (?m', ?kept)"
      by (simp add: register_subscription_def register_subscription_loop_eq [OF ok])
    with n show ?thesis by blast
  qed
qed

lemma manager_ok_drop_pending:
  assumes ok: "manager_ok m" and q: "pending_ok q"
    and o: "pending_owner q = (pending_owner (pending_subscriptions m))(sid := None)"
  shows "manager_ok (m\<lparr>pending_subscriptions := q\<rparr>)"
    and "sub_state_of (m\<lparr>pending_subscriptions := q\<rparr>) s =
      (if s = sid \<and> (\<exists>r. sub_state_of m s = Subscribing r) then Inactive else sub_state_of m s)"
proof -
  show "manager_ok (m\<lparr>pending_subscriptions := q\<rparr>)"
    using ok q by (auto simp: manager_ok_def o)
  show "sub_state_of (m\<lparr>pending_subscriptions := q\<rparr>) s =
      (if s = sid \<and> (\<exists>r. sub_state_of m s = Subscribing r) then Inactive else sub_state_of m s)"
    using manager_okD(4) [OF ok, of s] by (auto simp: o sub_state_of_def split: option.split)
qed

lemma register_unsubscription_loop_facts:
  assumes "manager_ok m"
  shows "\<exists>m' cancelled filtered. register_unsubscription_loop intern m symbols = Some (m', cancelled, filtered) \<and>
    manager_ok m' \<and>
    (\<forall>s. sub_state_of m' s = (if s \<in> intern ` set symbols \<and> (\<exists>r. sub_state_of m s = Subscribing r)
                             then Inactive else sub_state_of m s)) \<and>
    set filtered = {s \<in> intern ` set symbols. sub_state_of m s = Active} \<and>
    set cancelled \<subseteq> set symbols \<and>
    intern ` set cancelled = {s \<in> intern ` set symbols. \<exists>r. sub_state_of m s = Subscribing r} \<and>
    distinct (map intern cancelled)"
  using assms
proof (induction symbols arbitrary: m)
  case (Cons x xs)
  note contains = pending_contains_manager [OF Cons.prems, of "intern x"]
  show ?case
  proof (cases "\<exists>r. sub_state_of m (intern x) = Subscribing r")
    case True
    then have c: "pending_contains (pending_subscriptions m) (intern x)" using contains by simp
    with pending.take_any_spec [OF manager_okD(1) [OF Cons.prems], of "intern x"]
    obtain q where q: "pending_remove_sid (pending_subscriptions m) (intern x) = Some (q, True)"
      "pending_ok q" "pending_owner q = (pending_owner (pending_subscriptions m))(intern x := None)"
      by (auto simp: pending.holds_iff [OF manager_okD(1) [OF Cons.prems]])
    note m' = manager_ok_drop_pending [OF Cons.prems q(2,3)]
    from Cons.IH [OF m'(1)] c q(1) show ?thesis
      using True by (clarsimp simp: m'(2) Let_def) fastforce
  next
    case False
    with Cons.IH [OF Cons.prems] show ?thesis
      using contains by (cases "sub_state_of m (intern x)") (clarsimp simp: Let_def, fastforce)+
  qed
qed simp

lemma manager_ok_add_unsub:
  fixes r :: req_id
  assumes ok: "manager_ok m" and S: "\<And>s. s \<in> set sids \<Longrightarrow> sub_state_of m s = Active"
  defines "m' \<equiv> m\<lparr>pending_unsubscriptions := pending_add (pending_unsubscriptions m) r sids\<rparr>"
  shows "manager_ok m'"
    and "sub_state_of m' s = (if s \<in> set sids then Unsubscribing r else sub_state_of m s)"
proof -
  have o: "pending_owner (pending_unsubscriptions m') = (\<lambda>s. if
      pending_owner (pending_unsubscriptions m) s = None \<and> s \<in> set sids then Some r
      else pending_owner (pending_unsubscriptions m) s)"
    by (simp add: m'_def pending.owner_insert manager_okD(2) [OF ok])
  have a: "s \<in> active_symbols m \<and> pending_owner (pending_unsubscriptions m) s = None \<and>
      pending_owner (pending_subscriptions m) s = None" if "s \<in> set sids" for s
    using S [OF that] by (auto simp: sub_state_of_def split: option.splits if_splits)
  show "sub_state_of m' s = (if s \<in> set sids then Unsubscribing r else sub_state_of m s)"
    using a [of s] unfolding sub_state_of_def o by (auto simp: m'_def split: option.split)
  have "pending_ok (pending_unsubscriptions m')"
    by (simp add: m'_def pending.insert_ok manager_okD(2) [OF ok])
  moreover have "dom (pending_owner (pending_unsubscriptions m')) \<subseteq> active_symbols m'"
    using manager_okD(5) [OF ok] a unfolding o by (auto simp: m'_def split: if_splits)
  ultimately show "manager_ok m'"
    using ok by (simp add: manager_ok_def m'_def)
qed

lemma register_unsubscription_facts:
  assumes ok: "manager_ok m"
  shows "\<exists>m' cancelled. register_unsubscription intern m symbols r = Some (m', cancelled) \<and>
    manager_ok m' \<and>
    (\<forall>s. sub_state_of m' s =
       (if s \<in> intern ` set symbols then on_unsubscribe r (sub_state_of m s) else sub_state_of m s)) \<and>
    set cancelled \<subseteq> set symbols \<and>
    intern ` set cancelled = {s \<in> intern ` set symbols. \<exists>r. sub_state_of m s = Subscribing r} \<and>
    distinct (map intern cancelled)"
proof -
  obtain m1 cancelled filtered where l:
    "register_unsubscription_loop intern m symbols = Some (m1, cancelled, filtered)" "manager_ok m1"
    and st: "\<And>s. sub_state_of m1 s = (if s \<in> intern ` set symbols \<and> (\<exists>r. sub_state_of m s = Subscribing r)
                             then Inactive else sub_state_of m s)"
    and filt: "set filtered = {s \<in> intern ` set symbols. sub_state_of m s = Active}"
    and canc: "set cancelled \<subseteq> set symbols" "distinct (map intern cancelled)"
      "intern ` set cancelled = {s \<in> intern ` set symbols. \<exists>r. sub_state_of m s = Subscribing r}"
    using register_unsubscription_loop_facts [OF ok, of intern symbols] by (elim exE conjE) simp
  define m' where "m' = (if filtered \<noteq> []
    then m1\<lparr>pending_unsubscriptions := pending_add (pending_unsubscriptions m1) r filtered\<rparr> else m1)"
  have S: "sub_state_of m1 s = Active" if "s \<in> set filtered" for s
    using that filt st [of s] by auto
  have "manager_ok m'"
    unfolding m'_def using l(2) manager_ok_add_unsub(1) [OF l(2) S, of filtered r] by simp
  moreover have upd: "sub_state_of m' s = (if s \<in> set filtered then Unsubscribing r else sub_state_of m1 s)" for s
    unfolding m'_def using manager_ok_add_unsub(2) [OF l(2) S, of filtered r s] by simp
  have "sub_state_of m' s =
      (if s \<in> intern ` set symbols then on_unsubscribe r (sub_state_of m s) else sub_state_of m s)" for s
    unfolding upd filt st by (cases "sub_state_of m s") auto
  moreover have "register_unsubscription intern m symbols r = Some (m', cancelled)"
    using l(1) by (simp add: register_unsubscription_def m'_def)
  ultimately show ?thesis using canc by (intro exI [of _ m'] exI [of _ cancelled]) simp
qed

lemma sub_state_remove_sub:
  fixes r :: req_id and sid :: symbol_id
  assumes ok: "manager_ok m"
  defines "q \<equiv> fst (pending_remove (pending_subscriptions m) r sid)"
  shows "snd (pending_remove (pending_subscriptions m) r sid) \<longleftrightarrow> sub_state_of m sid = Subscribing r"
    and "manager_ok (m\<lparr>pending_subscriptions := q\<rparr>)"
    and "sub_state_of m sid = Subscribing r \<Longrightarrow>
      manager_ok (m\<lparr>pending_subscriptions := q, active_symbols := insert sid (active_symbols m)\<rparr>)"
    and "sub_state_of (m\<lparr>pending_subscriptions := q\<rparr>) =
      (if sub_state_of m sid = Subscribing r then (sub_state_of m)(sid := Inactive) else sub_state_of m)"
    and "sub_state_of m sid = Subscribing r \<Longrightarrow>
      sub_state_of (m\<lparr>pending_subscriptions := q, active_symbols := insert sid (active_symbols m)\<rparr>) =
      (sub_state_of m)(sid := Active)"
proof -
  note pok = manager_okD(1) [OF ok]
  have own: "sub_state_of m sid = Subscribing r \<longleftrightarrow> pending_owner (pending_subscriptions m) sid = Some r"
    by (auto simp: sub_state_of_def split: option.splits if_splits)
  have q: "pending_ok q" "pending_owner q = (if pending_owner (pending_subscriptions m) sid = Some r
      then (pending_owner (pending_subscriptions m))(sid := None) else pending_owner (pending_subscriptions m))"
    using pending_remove_facts [OF pok, of r sid] by (auto simp: q_def)
  show "snd (pending_remove (pending_subscriptions m) r sid) \<longleftrightarrow> sub_state_of m sid = Subscribing r"
    using pending.take_from_hit [OF pok] own by simp
  show "manager_ok (m\<lparr>pending_subscriptions := q\<rparr>)"
    using ok q by (auto simp: manager_ok_def split: if_splits)
  have na: "sid \<notin> active_symbols m \<and> pending_owner (pending_unsubscriptions m) sid = None"
    if "sub_state_of m sid = Subscribing r"
    using that own manager_okD(4,5) [OF ok, of sid] by (cases "pending_owner (pending_unsubscriptions m) sid") auto
  show "manager_ok (m\<lparr>pending_subscriptions := q, active_symbols := insert sid (active_symbols m)\<rparr>)"
    if "sub_state_of m sid = Subscribing r"
    using ok q that own by (auto simp: manager_ok_def split: if_splits)
  show "sub_state_of (m\<lparr>pending_subscriptions := q\<rparr>) =
      (if sub_state_of m sid = Subscribing r then (sub_state_of m)(sid := Inactive) else sub_state_of m)"
    using na own by (auto simp: fun_eq_iff sub_state_of_def q(2) split: option.split)
  show "sub_state_of (m\<lparr>pending_subscriptions := q, active_symbols := insert sid (active_symbols m)\<rparr>) =
      (sub_state_of m)(sid := Active)" if "sub_state_of m sid = Subscribing r"
    using na own that by (auto simp: fun_eq_iff sub_state_of_def q(2) split: option.split)
qed

lemma sub_state_remove_unsub:
  fixes r :: req_id and sid :: symbol_id
  assumes ok: "manager_ok m"
  defines "q \<equiv> fst (pending_remove (pending_unsubscriptions m) r sid)"
  shows "snd (pending_remove (pending_unsubscriptions m) r sid) \<longleftrightarrow> sub_state_of m sid = Unsubscribing r"
    and "manager_ok (m\<lparr>pending_unsubscriptions := q\<rparr>)"
    and "sub_state_of m sid = Unsubscribing r \<Longrightarrow>
      manager_ok (m\<lparr>pending_unsubscriptions := q, active_symbols := active_symbols m - {sid}\<rparr>)"
    and "sub_state_of (m\<lparr>pending_unsubscriptions := q\<rparr>) =
      (if sub_state_of m sid = Unsubscribing r then (sub_state_of m)(sid := Active) else sub_state_of m)"
    and "sub_state_of m sid = Unsubscribing r \<Longrightarrow>
      sub_state_of (m\<lparr>pending_unsubscriptions := q, active_symbols := active_symbols m - {sid}\<rparr>) =
      (sub_state_of m)(sid := Inactive)"
proof -
  note pok = manager_okD(2) [OF ok]
  have own: "sub_state_of m sid = Unsubscribing r \<longleftrightarrow> pending_owner (pending_unsubscriptions m) sid = Some r"
    using manager_okD(4,5) [OF ok, of sid] by (auto simp: sub_state_of_def split: option.splits if_splits)
  have q: "pending_ok q" "pending_owner q = (if pending_owner (pending_unsubscriptions m) sid = Some r
      then (pending_owner (pending_unsubscriptions m))(sid := None) else pending_owner (pending_unsubscriptions m))"
    using pending_remove_facts [OF pok, of r sid] by (auto simp: q_def)
  show "snd (pending_remove (pending_unsubscriptions m) r sid) \<longleftrightarrow> sub_state_of m sid = Unsubscribing r"
    using pending.take_from_hit [OF pok] own by simp
  show "manager_ok (m\<lparr>pending_unsubscriptions := q\<rparr>)"
    using ok q by (auto simp: manager_ok_def split: if_splits)
  have a: "sid \<in> active_symbols m \<and> pending_owner (pending_subscriptions m) sid = None"
    if "sub_state_of m sid = Unsubscribing r"
    using that own manager_okD(4,5) [OF ok, of sid] by auto
  show "manager_ok (m\<lparr>pending_unsubscriptions := q, active_symbols := active_symbols m - {sid}\<rparr>)"
    if "sub_state_of m sid = Unsubscribing r"
    using ok q that own by (auto simp: manager_ok_def split: if_splits)
  show "sub_state_of (m\<lparr>pending_unsubscriptions := q\<rparr>) =
      (if sub_state_of m sid = Unsubscribing r then (sub_state_of m)(sid := Active) else sub_state_of m)"
    using a own by (auto simp: fun_eq_iff sub_state_of_def q(2) split: option.split)
  show "sub_state_of (m\<lparr>pending_unsubscriptions := q, active_symbols := active_symbols m - {sid}\<rparr>) =
      (sub_state_of m)(sid := Inactive)" if "sub_state_of m sid = Unsubscribing r"
    using a own that by (auto simp: fun_eq_iff sub_state_of_def q(2) split: option.split)
qed

lemma process_subscribe_ack_facts:
  assumes ok: "manager_ok m"
  shows "manager_ok (fst (process_subscribe_ack intern m r x success)) \<and>
    sub_state_of (fst (process_subscribe_ack intern m r x success)) =
      (sub_state_of m)(intern x := on_subscribe_ack r success (sub_state_of m (intern x))) \<and>
    snd (process_subscribe_ack intern m r x success) = (\<exists>r'. sub_state_of m (intern x) = Subscribing r')"
proof -
  note rm = sub_state_remove_sub [OF ok, where r = r and sid = "intern x"]
  show ?thesis
  proof (cases "sub_state_of m (intern x) = Subscribing r")
    case True
    then show ?thesis
      using rm by (auto simp: process_subscribe_ack_def pending_contains_manager [OF ok]
          confirm_subscription_def reject_subscription_def split_beta Let_def)
  next
    case False
    then have "on_subscribe_ack r success (sub_state_of m (intern x)) = sub_state_of m (intern x)"
      by (cases "sub_state_of m (intern x)") auto
    with False show ?thesis
      using rm ok by (auto simp: process_subscribe_ack_def confirm_subscription_def
          reject_subscription_def split_beta Let_def pending_contains_manager [OF ok])
  qed
qed

lemma process_unsubscribe_ack_facts:
  assumes ok: "manager_ok m"
  shows "manager_ok (fst (process_unsubscribe_ack intern m r x success)) \<and>
    sub_state_of (fst (process_unsubscribe_ack intern m r x success)) =
      (sub_state_of m)(intern x := on_unsubscribe_ack r success (sub_state_of m (intern x))) \<and>
    snd (process_unsubscribe_ack intern m r x success) = (\<exists>r'. sub_state_of m (intern x) = Unsubscribing r')"
proof -
  note rm = sub_state_remove_unsub [OF ok, where r = r and sid = "intern x"]
  show ?thesis
  proof (cases "sub_state_of m (intern x) = Unsubscribing r")
    case True
    then show ?thesis
      using rm by (auto simp: process_unsubscribe_ack_def pending_contains_manager [OF ok]
          confirm_unsubscription_def reject_unsubscription_def split_beta Let_def)
  next
    case False
    then have "on_unsubscribe_ack r success (sub_state_of m (intern x)) = sub_state_of m (intern x)"
      by (cases "sub_state_of m (intern x)") auto
    with False show ?thesis
      using rm ok by (auto simp: process_unsubscribe_ack_def confirm_unsubscription_def
          reject_unsubscription_def split_beta Let_def pending_contains_manager [OF ok])
  qed
qed

lemma try_process_rejection_facts:
  assumes ok: "manager_ok m"
  shows "manager_ok (fst (try_process_rejection intern m r x)) \<and>
    sub_state_of (fst (try_process_rejection intern m r x)) =
      (sub_state_of m)(intern x := on_rejection r (sub_state_of m (intern x))) \<and>
    snd (try_process_rejection intern m r x) =
      (sub_state_of m (intern x) \<in> {Subscribing r, Unsubscribing r})"
  using sub_state_remove_sub [OF ok, where r = r and sid = "intern x"] sub_state_remove_unsub [OF ok, where r = r and sid = "intern x"] ok
  by (cases "sub_state_of m (intern x)") (auto simp: try_process_rejection_def Let_def split_beta)

lemma manager_clear_all_init: "manager_clear_all m = Manager_init"
  by (simp add: manager_clear_all_def Manager_init_def pending_clear_def)

section \<open>Runs of the manager\<close>

datatype manager_op =
    Subscribe "symbol list" req_id
  | Unsubscribe "symbol list" req_id
  | SubscribeAck req_id symbol bool
  | UnsubscribeAck req_id symbol bool
  | Rejection req_id symbol
  | ClearAll

inductive manager_step :: "(symbol \<Rightarrow> symbol_id) \<Rightarrow> manager \<Rightarrow> manager_op \<Rightarrow> manager \<Rightarrow> bool"
  for intern where
  subscribe: "register_subscription intern m xs r = Some (m', kept) \<Longrightarrow>
     manager_step intern m (Subscribe xs r) m'"
| unsubscribe: "register_unsubscription intern m xs r = Some (m', cancelled) \<Longrightarrow>
     manager_step intern m (Unsubscribe xs r) m'"
| subscribe_ack: "process_subscribe_ack intern m r x success = (m', known) \<Longrightarrow>
     manager_step intern m (SubscribeAck r x success) m'"
| unsubscribe_ack: "process_unsubscribe_ack intern m r x success = (m', known) \<Longrightarrow>
     manager_step intern m (UnsubscribeAck r x success) m'"
| rejection: "try_process_rejection intern m r x = (m', done) \<Longrightarrow>
     manager_step intern m (Rejection r x) m'"
| clear_all: "manager_step intern m ClearAll (manager_clear_all m)"

inductive_cases manager_stepE: "manager_step intern m op m'"

inductive manager_reachable :: "(symbol \<Rightarrow> symbol_id) \<Rightarrow> manager \<Rightarrow> bool" for intern where
  init: "manager_reachable intern Manager_init"
| step: "manager_reachable intern m \<Longrightarrow> manager_step intern m op m' \<Longrightarrow> manager_reachable intern m'"

text \<open>The same operations on the state of one symbol.\<close>

fun sym_step :: "(symbol \<Rightarrow> symbol_id) \<Rightarrow> manager_op \<Rightarrow> symbol_id \<Rightarrow> sub_state \<Rightarrow> sub_state" where
  "sym_step intern (Subscribe xs r) s st = (if s \<in> intern ` set xs then on_subscribe r st else st)"
| "sym_step intern (Unsubscribe xs r) s st = (if s \<in> intern ` set xs then on_unsubscribe r st else st)"
| "sym_step intern (SubscribeAck r x success) s st =
     (if s = intern x then on_subscribe_ack r success st else st)"
| "sym_step intern (UnsubscribeAck r x success) s st =
     (if s = intern x then on_unsubscribe_ack r success st else st)"
| "sym_step intern (Rejection r x) s st = (if s = intern x then on_rejection r st else st)"
| "sym_step intern ClearAll s st = Inactive"

lemma manager_step_facts:
  assumes "manager_step intern m op m'" and ok: "manager_ok m"
  shows "manager_ok m' \<and> (\<forall>s. sub_state_of m' s = sym_step intern op s (sub_state_of m s))"
  using assms(1)
proof cases
  case (subscribe xs r kept)
  with register_subscription_facts [OF ok, of intern xs r] show ?thesis by auto
next
  case (unsubscribe xs r cancelled)
  with register_unsubscription_facts [OF ok, of intern xs r] show ?thesis by (elim exE conjE) simp
next
  case (subscribe_ack r x success known)
  with process_subscribe_ack_facts [OF ok, of intern r x success] show ?thesis by simp
next
  case (unsubscribe_ack r x success known)
  with process_unsubscribe_ack_facts [OF ok, of intern r x success] show ?thesis by simp
next
  case (rejection r x b)
  with try_process_rejection_facts [OF ok, of intern r x] show ?thesis by simp
next
  case clear_all
  then show ?thesis by (simp add: manager_clear_all_init manager_ok_init sub_state_init)
qed

lemma manager_reachable_ok: "manager_reachable intern m \<Longrightarrow> manager_ok m"
proof (induction rule: manager_reachable.induct)
  case init
  show ?case by (rule manager_ok_init)
next
  case (step m op m')
  then show ?case using manager_step_facts by blast
qed

section \<open>The contract with the session\<close>

locale subscription_machine =
  fixes intern :: "'x \<Rightarrow> 's"
    and ok :: "'m \<Rightarrow> bool"
    and st :: "'m \<Rightarrow> 's \<Rightarrow> sub_state"
    and sub :: "'m \<Rightarrow> 'x list \<Rightarrow> req_id \<Rightarrow> ('m \<times> 'x list) option"
    and unsub :: "'m \<Rightarrow> 'x list \<Rightarrow> req_id \<Rightarrow> ('m \<times> 'x list) option"
    and sub_ack :: "'m \<Rightarrow> req_id \<Rightarrow> 'x \<Rightarrow> bool \<Rightarrow> 'm \<times> bool"
    and unsub_ack :: "'m \<Rightarrow> req_id \<Rightarrow> 'x \<Rightarrow> bool \<Rightarrow> 'm \<times> bool"
    and reset :: "'m \<Rightarrow> 'm"
  assumes sub_law: "ok m \<Longrightarrow> \<exists>m'. sub m xs r = Some (m', filter (\<lambda>x. st m (intern x) = Inactive) xs) \<and>
      ok m' \<and> (\<forall>s. st m' s = (if s \<in> intern ` set xs then on_subscribe r (st m s) else st m s))"
    and unsub_law: "ok m \<Longrightarrow> \<exists>m' c. unsub m xs r = Some (m', c) \<and> ok m' \<and>
      (\<forall>s. st m' s = (if s \<in> intern ` set xs then on_unsubscribe r (st m s) else st m s))"
    and sub_ack_law: "ok m \<Longrightarrow> ok (fst (sub_ack m r x success)) \<and>
      st (fst (sub_ack m r x success)) = (st m)(intern x := on_subscribe_ack r success (st m (intern x)))"
    and unsub_ack_law: "ok m \<Longrightarrow> ok (fst (unsub_ack m r x success)) \<and>
      st (fst (unsub_ack m r x success)) = (st m)(intern x := on_unsubscribe_ack r success (st m (intern x)))"
    and reset_law: "ok m \<Longrightarrow> ok (reset m) \<and> st (reset m) = (\<lambda>_. Inactive)"
begin

lemma sub_again_filtered:
  assumes "ok m" and "sub m xs r = Some (m', kept)"
  shows "\<exists>m''. sub m' xs r' = Some (m'', []) \<and> st m'' = st m'"
proof -
  have m': "ok m'" and busy: "st m' s \<noteq> Inactive" if "s \<in> intern ` set xs" for s
    using sub_law [OF assms(1), of xs r] assms(2) that by (auto, cases "st m s") auto
  have m'ok: "ok m'" using sub_law [OF assms(1), of xs r] assms(2) by auto
  then obtain m'' where "sub m' xs r' = Some (m'', filter (\<lambda>x. st m' (intern x) = Inactive) xs)"
    and "\<And>s. st m'' s = (if s \<in> intern ` set xs then on_subscribe r' (st m' s) else st m' s)"
    using sub_law by blast
  moreover have "on_subscribe r' (st m' s) = st m' s" if "s \<in> intern ` set xs" for s
    using busy [OF that] by (cases "st m' s") auto
  ultimately show ?thesis using busy by (fastforce simp: fun_eq_iff filter_empty_conv)
qed

lemma sub_ack_activates:
  assumes "ok m" and "st m (intern x) = Inactive" and "x \<in> set xs" and "sub m xs r = Some (m', kept)"
  shows "st (fst (sub_ack m' r x True)) (intern x) = Active"
  using sub_law [OF assms(1), of xs r] assms(2-4) sub_ack_law [of m' r x True] by auto

lemma stale_acks_ignored:
  assumes "ok m"
  shows "st (fst (sub_ack (reset m) r x success)) = (\<lambda>_. Inactive)"
    and "st (fst (unsub_ack (reset m) r x success)) = (\<lambda>_. Inactive)"
  using reset_law [OF assms] sub_ack_law [of "reset m" r x success]
    unsub_ack_law [of "reset m" r x success] by (simp_all add: fun_eq_iff)

lemma full_cycle:
  assumes "ok m" and "st m (intern x) = Inactive"
    and "sub m [x] r = Some (m1, k)" and "m2 = fst (sub_ack m1 r x True)"
    and "unsub m2 [x] r' = Some (m3, c)"
  shows "st (fst (unsub_ack m3 r' x True)) = st m"
proof -
  have 1: "ok m1" "st m1 = (st m)(intern x := Subscribing r)"
    using sub_law [OF assms(1), of "[x]" r] assms(2,3) by (auto simp: fun_eq_iff)
  have 2: "ok m2" "st m2 = (st m)(intern x := Active)"
    using sub_ack_law [OF 1(1), of r x True] 1(2) assms(4) by auto
  have 3: "ok m3" "st m3 = (st m)(intern x := Unsubscribing r')"
    using unsub_law [OF 2(1), of "[x]" r'] 2(2) assms(5) by (auto simp: fun_eq_iff)
  then show ?thesis
    using unsub_ack_law [OF 3(1), of r' x True] assms(2) by (auto simp: fun_eq_iff)
qed

end

interpretation mgr: subscription_machine intern manager_ok sub_state_of "register_subscription intern"
  "register_unsubscription intern" "process_subscribe_ack intern" "process_unsubscribe_ack intern"
  manager_clear_all for intern
proof unfold_locales
  fix m xs r assume ok: "manager_ok m"
  show "\<exists>m' c. register_unsubscription intern m xs r = Some (m', c) \<and> manager_ok m' \<and>
      (\<forall>s. sub_state_of m' s =
         (if s \<in> intern ` set xs then on_unsubscribe r (sub_state_of m s) else sub_state_of m s))"
    using register_unsubscription_facts [OF ok, of intern xs r] by (elim exE conjE) simp
qed (use register_subscription_facts process_subscribe_ack_facts process_unsubscribe_ack_facts in
    \<open>simp_all add: manager_clear_all_init manager_ok_init sub_state_init fun_eq_iff\<close>)

section \<open>Properties\<close>

text \<open>A run used by the witnesses: two symbols subscribed, one acknowledged, then unsubscribed.\<close>

definition demo_intern :: "symbol \<Rightarrow> symbol_id" where
  "demo_intern x = of_nat (length x)"

definition demo_manager :: manager where
  "demo_manager = \<lparr>pending_subscriptions = \<lparr>requests = [(10, [2])], pending_symbols = {2}\<rparr>,
     pending_unsubscriptions = \<lparr>requests = [(11, [1])], pending_symbols = {1}\<rparr>, active_symbols = {1}\<rparr>"

lemmas manager_eval_simps = register_subscription_def register_unsubscription_def
  process_subscribe_ack_def process_unsubscribe_ack_def confirm_subscription_def
  confirm_unsubscription_def pending_contains_def pending_add_def pending_remove_def
  pending_remove_sid_def pending_erase_def pending_store_def Manager_init_def
  PendingRequests_init_def demo_intern_def

lemma demo_manager_reachable: "manager_reachable demo_intern demo_manager"
proof -
  define m1 where "m1 = \<lparr>pending_subscriptions = \<lparr>requests = [(10, [1, 2])], pending_symbols = {1, 2}\<rparr>,
     pending_unsubscriptions = PendingRequests_init, active_symbols = {}\<rparr>"
  define m2 where "m2 = \<lparr>pending_subscriptions = \<lparr>requests = [(10, [2])], pending_symbols = {2}\<rparr>,
     pending_unsubscriptions = PendingRequests_init, active_symbols = {1}\<rparr>"
  have "register_subscription demo_intern Manager_init [''A'', ''BB''] 10 = Some (m1, [''A'', ''BB''])"
    by (simp add: m1_def manager_eval_simps insert_commute)
  then have "manager_reachable demo_intern m1"
    by (rule manager_reachable.step [OF manager_reachable.init manager_step.subscribe])
  moreover have "process_subscribe_ack demo_intern m1 10 ''A'' True = (m2, True)"
    by (simp add: m1_def m2_def manager_eval_simps insert_Diff_if)
  ultimately have "manager_reachable demo_intern m2"
    by (blast intro: manager_reachable.step manager_step.subscribe_ack)
  moreover have "register_unsubscription demo_intern m2 [''A''] 11 = Some (demo_manager, [])"
    by (simp add: m2_def demo_manager_def manager_eval_simps)
  ultimately show ?thesis
    by (blast intro: manager_reachable.step manager_step.unsubscribe)
qed

text \<open>In every state a run of the manager can reach, no symbol is at once active and
  waiting for a subscribe acknowledgement, a symbol that waits for an unsubscribe
  acknowledgement is still active, the two pending indexes are consistent, and neither
  registration can reach \<^verbatim>\<open>LCR_UNREACHABLE\<close>.\<close>

theorem manager_invariant:
  assumes "manager_reachable intern m"
  shows "manager_ok m \<and> pending_assert_consistency (pending_subscriptions m) \<and>
    pending_assert_consistency (pending_unsubscriptions m) \<and>
    register_subscription intern m xs r \<noteq> None \<and> register_unsubscription intern m xs r \<noteq> None"
proof -
  have ok: "manager_ok m" by (rule manager_reachable_ok [OF assms])
  then show ?thesis
    using manager_okD(1,2) [OF ok] mgr.sub_law [OF ok, of intern xs r]
      mgr.unsub_law [OF ok, of intern xs r] pending_ok_consistent by auto
qed

theorem manager_invariant_witness:
  "manager_ok demo_manager \<and> register_unsubscription demo_intern demo_manager [''A'', ''BB''] 12 \<noteq> None"
  using manager_invariant [OF demo_manager_reachable] by blast

text \<open>C3: the manager implements one four-state machine per symbol. Each operation changes the
  state of every symbol exactly as the machine of that symbol prescribes, whatever the
  other symbols are doing; in particular acknowledgements and rejections that name another
  request id change nothing.\<close>

theorem manager_refines_symbol_machine:
  assumes "manager_reachable intern m" and "manager_step intern m op m'"
  shows "sub_state_of m' s = sym_step intern op s (sub_state_of m s)"
  using manager_step_facts [OF assms(2) manager_reachable_ok [OF assms(1)]] by blast

theorem manager_refines_symbol_machine_witness:
  "sub_state_of demo_manager 1 = Unsubscribing 11 \<and>
   sub_state_of (fst (process_unsubscribe_ack demo_intern demo_manager 11 ''A'' True)) 1 = Inactive"
proof -
  have "manager_step demo_intern demo_manager (UnsubscribeAck 11 ''A'' True)
      (fst (process_unsubscribe_ack demo_intern demo_manager 11 ''A'' True))"
    by (rule manager_step.unsubscribe_ack) (rule prod.collapse [symmetric])
  from manager_refines_symbol_machine [OF demo_manager_reachable this, of 1] show ?thesis
    by (simp add: demo_intern_def demo_manager_def sub_state_of_def pending_owner_def)
qed

text \<open>\<^verbatim>\<open>register_subscription\<close> returns exactly the symbols that are inactive, in the order of
  the request, and is idempotent: registering the same symbols again, under any request
  id, accepts nothing and changes no symbol's state.\<close>

theorem register_subscription_idempotent:
  assumes "manager_reachable intern m" and "register_subscription intern m xs r = Some (m', kept)"
  shows "kept = filter (\<lambda>x. sub_state_of m (intern x) = Inactive) xs \<and>
    (\<exists>m''. register_subscription intern m' xs r' = Some (m'', []) \<and> sub_state_of m'' = sub_state_of m')"
  using mgr.sub_law [OF manager_reachable_ok [OF assms(1)], of intern xs r] assms(2)
    mgr.sub_again_filtered [OF manager_reachable_ok [OF assms(1)] assms(2), of r'] by simp

theorem register_subscription_idempotent_witness:
  "\<exists>m'. register_subscription demo_intern demo_manager [''A'', ''CCC''] 12 = Some (m', [''CCC'']) \<and>
     (\<exists>m''. register_subscription demo_intern m' [''A'', ''CCC''] 13 = Some (m'', []))"
proof -
  obtain m' kept where m': "register_subscription demo_intern demo_manager [''A'', ''CCC''] 12 = Some (m', kept)"
    using mgr.sub_law [OF manager_reachable_ok [OF demo_manager_reachable]] by blast
  from register_subscription_idempotent [OF demo_manager_reachable m', of 13] m' show ?thesis
    by (auto simp: demo_manager_def sub_state_of_def pending_owner_def demo_intern_def)
qed

text \<open>\<^verbatim>\<open>total_symbols()\<close> is the number of symbols the manager owns (every state but
  inactive), and \<^verbatim>\<open>has_pending_requests()\<close> is false exactly when no symbol waits for an
  acknowledgement.\<close>

theorem manager_counts:
  assumes "manager_reachable intern m"
  shows "manager_total_symbols m = card {s. sub_state_of m s \<noteq> Inactive} \<and>
    (\<not> has_pending_requests m \<longleftrightarrow> (\<forall>s. sub_state_of m s \<in> {Inactive, Active}))"
proof -
  note ok = manager_reachable_ok [OF assms]
  note oks = manager_okD(1,2) [OF ok]
  have "{s. sub_state_of m s \<noteq> Inactive} = active_symbols m \<union> dom (pending_owner (pending_subscriptions m))"
    by (auto simp: sub_state_of_def split: option.splits if_splits)
  moreover have "\<not> has_pending_requests m \<longleftrightarrow> (\<forall>s. sub_state_of m s \<in> {Inactive, Active})"
  proof -
    have "\<not> has_pending_requests m \<longleftrightarrow> (\<forall>s. \<not> pending_contains (pending_subscriptions m) s \<and>
        \<not> pending_contains (pending_unsubscriptions m) s)"
      by (auto simp: has_pending_requests_def pending.vacant_iff pending.holds_iff oks fun_eq_iff)
    also have "\<dots> \<longleftrightarrow> (\<forall>s. sub_state_of m s \<in> {Inactive, Active})"
      unfolding pending_contains_manager [OF ok] by (metis insert_iff singletonD sub_state.distinct sub_state.exhaust)
    finally show ?thesis .
  qed
  ultimately show ?thesis
    using ok by (simp add: manager_total_symbols_def pending.size_spec oks manager_ok_def
        card_Un_disjoint pending.finite_owner)
qed

theorem manager_counts_witness:
  "manager_total_symbols demo_manager = 2 \<and> has_pending_requests demo_manager \<and>
   card {s. sub_state_of demo_manager s \<noteq> Inactive} = 2"
  using manager_counts [OF demo_manager_reachable]
  by (simp add: manager_total_symbols_def demo_manager_def pending_symbol_count_def
      has_pending_requests_def pending_empty_def)

text \<open>A subscription that arrives while the unsubscription of the same symbol waits for its
  acknowledgement is dropped: the symbol is filtered out, the manager is unchanged, and
  the acknowledgement of the unsubscription then leaves the symbol inactive. The branch of
  \<^verbatim>\<open>register_subscription\<close> that cancels a pending unsubscription is never taken.\<close>

theorem resubscribe_while_unsubscribing_dropped:
  assumes "manager_reachable intern m" and "sub_state_of m (intern x) = Unsubscribing r"
  shows "register_subscription intern m [x] r' = Some (m, []) \<and>
    sub_state_of (fst (process_unsubscribe_ack intern m r x True)) (intern x) = Inactive"
  using mgr.unsub_ack_law [OF manager_reachable_ok [OF assms(1)], of intern r x True] assms(2)
    register_subscription_loop_eq [OF manager_reachable_ok [OF assms(1)], of intern "[x]"]
  by (simp add: register_subscription_def del: register_subscription_loop.simps)

theorem resubscribe_while_unsubscribing_dropped_witness:
  "register_subscription demo_intern demo_manager [''A''] 12 = Some (demo_manager, [])"
proof -
  have "sub_state_of demo_manager (demo_intern ''A'') = Unsubscribing 11"
    by (simp add: demo_manager_def sub_state_of_def pending_owner_def demo_intern_def)
  from resubscribe_while_unsubscribing_dropped [OF demo_manager_reachable this] show ?thesis by blast
qed

text \<open>The debug check \<^verbatim>\<open>Manager::assert_consistency\<close>, which demands that an active symbol is
  in neither pending index, holds in a reachable state exactly when no unsubscription is
  pending: the state after \<^verbatim>\<open>register_unsubscription\<close> of an active symbol violates it.\<close>

theorem manager_assert_consistency_iff:
  assumes "manager_reachable intern m"
  shows "manager_assert_consistency m \<longleftrightarrow> (\<forall>s r. sub_state_of m s \<noteq> Unsubscribing r)"
proof -
  note ok = manager_reachable_ok [OF assms]
  have "s \<in> active_symbols m" if "sub_state_of m s = Unsubscribing r" for s r
    using that pending_contains_manager(3) [OF ok, of s] by blast
  then show ?thesis
    using pending_contains_manager [OF ok] manager_okD(1,2) [OF ok]
    by (auto simp: manager_assert_consistency_def pending_ok_consistent)
qed

theorem manager_assert_consistency_iff_witness:
  "\<not> manager_assert_consistency demo_manager"
  using manager_assert_consistency_iff [OF demo_manager_reachable]
  by (auto simp: demo_manager_def sub_state_of_def pending_owner_def split: if_splits)

end
