(* ===== verification/Subscription_Controller.thy ===== *)
theory Subscription_Controller
  imports Subscription_Manager
begin

text \<open>
  \<^verbatim>\<open>subscription::Controller\<close> (controller.hpp): one subscription manager per subscription
  type and the time of the last protocol progress, from which idleness is derived.
  \<^verbatim>\<open>now_ns()\<close> readings are arguments, 64-bit nanoseconds whose difference wraps as in the
  source; the progress policy is a record.
\<close>

section \<open>State and operations\<close>

record progress_policy =
  pp_enabled :: bool
  pp_timeout_ns :: u64

definition progress_strict :: progress_policy where
  "progress_strict = \<lparr>pp_enabled = False, pp_timeout_ns = 0\<rparr>"

definition progress_timeout :: "u64 \<Rightarrow> progress_policy" where
  "progress_timeout t = \<lparr>pp_enabled = True, pp_timeout_ns = t\<rparr>"

record controller =
  trade_manager :: manager
  book_manager :: manager
  last_progress_ns :: u64

definition Controller_init :: "u64 \<Rightarrow> controller" where
  "Controller_init now = \<lparr>trade_manager = Manager_init, book_manager = Manager_init, last_progress_ns = now\<rparr>"

fun manager_for :: "domain \<Rightarrow> controller \<Rightarrow> manager" where
  "manager_for TradeDomain c = trade_manager c"
| "manager_for BookDomain c = book_manager c"

fun set_manager :: "domain \<Rightarrow> controller \<Rightarrow> manager \<Rightarrow> controller" where
  "set_manager TradeDomain c m = c\<lparr>trade_manager := m\<rparr>"
| "set_manager BookDomain c m = c\<lparr>book_manager := m\<rparr>"

definition mark_progress :: "u64 \<Rightarrow> controller \<Rightarrow> controller" where
  "mark_progress now c = c\<lparr>last_progress_ns := now\<rparr>"

definition ctl_register_subscription ::
  "(symbol \<Rightarrow> symbol_id) \<Rightarrow> u64 \<Rightarrow> domain \<Rightarrow> controller \<Rightarrow> symbol list \<Rightarrow> req_id \<Rightarrow> (controller \<times> symbol list) option" where
  "ctl_register_subscription intern now d c symbols r =
     (let c1 = mark_progress now c in
      case register_subscription intern (manager_for d c1) symbols r of
        None \<Rightarrow> None
      | Some (m, accepted) \<Rightarrow> Some (set_manager d c1 m, accepted))"

definition ctl_register_unsubscription ::
  "(symbol \<Rightarrow> symbol_id) \<Rightarrow> u64 \<Rightarrow> domain \<Rightarrow> controller \<Rightarrow> symbol list \<Rightarrow> req_id \<Rightarrow> (controller \<times> symbol list) option" where
  "ctl_register_unsubscription intern now d c symbols r =
     (let c1 = mark_progress now c in
      case register_unsubscription intern (manager_for d c1) symbols r of
        None \<Rightarrow> None
      | Some (m, cancelled) \<Rightarrow> Some (set_manager d c1 m, cancelled))"

definition ctl_process_subscribe_ack ::
  "(symbol \<Rightarrow> symbol_id) \<Rightarrow> u64 \<Rightarrow> domain \<Rightarrow> controller \<Rightarrow> req_id \<Rightarrow> symbol \<Rightarrow> bool \<Rightarrow> controller" where
  "ctl_process_subscribe_ack intern now d c r symbol success =
     (let (m, progress) = process_subscribe_ack intern (manager_for d c) r symbol success;
          c1 = set_manager d c m in
      if progress then mark_progress now c1 else c1)"

definition ctl_process_unsubscribe_ack ::
  "(symbol \<Rightarrow> symbol_id) \<Rightarrow> u64 \<Rightarrow> domain \<Rightarrow> controller \<Rightarrow> req_id \<Rightarrow> symbol \<Rightarrow> bool \<Rightarrow> controller" where
  "ctl_process_unsubscribe_ack intern now d c r symbol success =
     (let (m, progress) = process_unsubscribe_ack intern (manager_for d c) r symbol success;
          c1 = set_manager d c m in
      if progress then mark_progress now c1 else c1)"

text \<open>The fold over the managers stops at the first one that knows the request.\<close>

definition ctl_try_process_rejection ::
  "(symbol \<Rightarrow> symbol_id) \<Rightarrow> u64 \<Rightarrow> controller \<Rightarrow> req_id \<Rightarrow> symbol \<Rightarrow> controller \<times> bool" where
  "ctl_try_process_rejection intern now c r symbol =
     (let (m1, done1) = try_process_rejection intern (trade_manager c) r symbol;
          c1 = c\<lparr>trade_manager := m1\<rparr>;
          (c2, done) = (if done1 then (c1, True)
            else let (m2, done2) = try_process_rejection intern (book_manager c1) r symbol
                 in (c1\<lparr>book_manager := m2\<rparr>, done2)) in
      (if done then mark_progress now c2 else c2, done))"

definition ctl_clear_all :: "u64 \<Rightarrow> controller \<Rightarrow> controller" where
  "ctl_clear_all now c = mark_progress now
     (c\<lparr>trade_manager := manager_clear_all (trade_manager c), book_manager := manager_clear_all (book_manager c)\<rparr>)"

definition ctl_is_quiescent :: "controller \<Rightarrow> bool" where
  "ctl_is_quiescent c \<longleftrightarrow> \<not> has_pending_requests (trade_manager c) \<and> \<not> has_pending_requests (book_manager c)"

definition ctl_is_idle :: "progress_policy \<Rightarrow> u64 \<Rightarrow> controller \<Rightarrow> bool" where
  "ctl_is_idle pol now c \<longleftrightarrow>
     (if ctl_is_quiescent c then True
      else if \<not> pp_enabled pol then False
      else now - last_progress_ns c > pp_timeout_ns pol)"

definition ctl_pending_requests :: "controller \<Rightarrow> nat" where
  "ctl_pending_requests c = manager_pending_requests (trade_manager c) + manager_pending_requests (book_manager c)"

definition ctl_pending_symbols :: "controller \<Rightarrow> nat" where
  "ctl_pending_symbols c = manager_pending_symbols (trade_manager c) + manager_pending_symbols (book_manager c)"

definition ctl_total_symbols :: "controller \<Rightarrow> nat" where
  "ctl_total_symbols c = manager_total_symbols (trade_manager c) + manager_total_symbols (book_manager c)"

section \<open>The state of every symbol in every domain\<close>

definition ctl_state :: "controller \<Rightarrow> domain \<Rightarrow> symbol_id \<Rightarrow> sub_state" where
  "ctl_state c d = sub_state_of (manager_for d c)"

definition ctl_ok :: "controller \<Rightarrow> bool" where
  "ctl_ok c \<longleftrightarrow> (\<forall>d. manager_ok (manager_for d c))"

lemma all_domains: "(\<forall>d. P d) \<longleftrightarrow> P TradeDomain \<and> P BookDomain"
  by (metis domain.exhaust)

lemma manager_for_set [simp]: "manager_for d (set_manager d' c m) = (if d = d' then m else manager_for d c)"
  by (cases d; cases d') simp_all

lemma manager_for_mark [simp]: "manager_for d (mark_progress now c) = manager_for d c"
  by (cases d) (simp_all add: mark_progress_def)

lemma last_progress_set [simp]: "last_progress_ns (set_manager d c m) = last_progress_ns c"
  by (cases d) simp_all

lemma last_progress_mark [simp]: "last_progress_ns (mark_progress now c) = now"
  by (simp add: mark_progress_def)

lemma ctl_ok_init [inv_intros]: "ctl_ok (Controller_init now)"
  by (simp add: ctl_ok_def all_domains Controller_init_def manager_ok_init)

lemma ctl_state_init: "ctl_state (Controller_init now) d s = Inactive"
  by (cases d) (simp_all add: ctl_state_def Controller_init_def sub_state_init)

lemma ctl_register_subscription_facts:
  assumes "ctl_ok c"
  shows "\<exists>c'. ctl_register_subscription intern now d c symbols r =
      Some (c', filter (\<lambda>x. ctl_state c d (intern x) = Inactive) symbols) \<and> ctl_ok c' \<and>
    ctl_state c' = (ctl_state c)(d := \<lambda>s. if s \<in> intern ` set symbols
      then on_subscribe r (ctl_state c d s) else ctl_state c d s) \<and> last_progress_ns c' = now"
proof -
  have ok: "manager_ok (manager_for d c)" using assms by (simp add: ctl_ok_def)
  obtain m' where m: "register_subscription intern (manager_for d c) symbols r =
      Some (m', filter (\<lambda>x. sub_state_of (manager_for d c) (intern x) = Inactive) symbols)" "manager_ok m'"
    "\<forall>s. sub_state_of m' s = (if s \<in> intern ` set symbols
      then on_subscribe r (sub_state_of (manager_for d c) s) else sub_state_of (manager_for d c) s)"
    using register_subscription_facts [OF ok, of intern symbols r] by blast
  then show ?thesis using assms
    by (auto simp: ctl_register_subscription_def ctl_state_def ctl_ok_def fun_eq_iff)
qed

lemma ctl_register_unsubscription_facts:
  assumes "ctl_ok c"
  shows "\<exists>c' cancelled. ctl_register_unsubscription intern now d c symbols r = Some (c', cancelled) \<and> ctl_ok c' \<and>
    ctl_state c' = (ctl_state c)(d := \<lambda>s. if s \<in> intern ` set symbols
      then on_unsubscribe r (ctl_state c d s) else ctl_state c d s) \<and>
    set cancelled \<subseteq> set symbols \<and>
    intern ` set cancelled = {s \<in> intern ` set symbols. \<exists>r. ctl_state c d s = Subscribing r} \<and>
    last_progress_ns c' = now"
proof -
  have ok: "manager_ok (manager_for d c)" using assms by (simp add: ctl_ok_def)
  obtain m' cancelled where m: "register_unsubscription intern (manager_for d c) symbols r = Some (m', cancelled)"
    "manager_ok m'"
    "\<forall>s. sub_state_of m' s = (if s \<in> intern ` set symbols
      then on_unsubscribe r (sub_state_of (manager_for d c) s) else sub_state_of (manager_for d c) s)"
    "set cancelled \<subseteq> set symbols"
    "intern ` set cancelled = {s \<in> intern ` set symbols. \<exists>r. sub_state_of (manager_for d c) s = Subscribing r}"
    using register_unsubscription_facts [OF ok, of intern symbols r] by (elim exE conjE) simp
  have "ctl_register_unsubscription intern now d c symbols r =
      Some (set_manager d (mark_progress now c) m', cancelled)"
    by (simp add: ctl_register_unsubscription_def m(1))
  moreover have "ctl_ok (set_manager d (mark_progress now c) m')"
    using assms m(2) by (simp add: ctl_ok_def)
  moreover have "ctl_state (set_manager d (mark_progress now c) m') = (ctl_state c)(d := \<lambda>s.
      if s \<in> intern ` set symbols then on_unsubscribe r (ctl_state c d s) else ctl_state c d s)"
    using m(3) by (simp add: ctl_state_def fun_eq_iff)
  ultimately show ?thesis using m(4,5) by (simp add: ctl_state_def)
qed

lemma ctl_subscribe_ack_facts:
  assumes "ctl_ok c"
  shows "ctl_ok (ctl_process_subscribe_ack intern now d c r x success)"
    and "ctl_state (ctl_process_subscribe_ack intern now d c r x success) =
      (ctl_state c)(d := (ctl_state c d)(intern x := on_subscribe_ack r success (ctl_state c d (intern x))))"
  using process_subscribe_ack_facts [of "manager_for d c" intern r x success] assms
  by (auto simp: ctl_process_subscribe_ack_def ctl_ok_def ctl_state_def fun_eq_iff Let_def split: prod.split)

lemma ctl_unsubscribe_ack_facts:
  assumes "ctl_ok c"
  shows "ctl_ok (ctl_process_unsubscribe_ack intern now d c r x success)"
    and "ctl_state (ctl_process_unsubscribe_ack intern now d c r x success) =
      (ctl_state c)(d := (ctl_state c d)(intern x := on_unsubscribe_ack r success (ctl_state c d (intern x))))"
  using process_unsubscribe_ack_facts [of "manager_for d c" intern r x success] assms
  by (auto simp: ctl_process_unsubscribe_ack_def ctl_ok_def ctl_state_def fun_eq_iff Let_def split: prod.split)

lemma ctl_clear_facts:
  "ctl_ok (ctl_clear_all now c)" "ctl_state (ctl_clear_all now c) d s = Inactive"
  by (simp_all add: ctl_clear_all_def ctl_ok_def all_domains mark_progress_def manager_clear_all_init
      manager_ok_init) (cases d; simp add: ctl_state_def sub_state_init)

lemma ctl_rejection_facts:
  assumes "ctl_ok c"
  shows "ctl_ok (fst (ctl_try_process_rejection intern now c r x))"
    and "ctl_state (fst (ctl_try_process_rejection intern now c r x)) d s =
      (if s = intern x \<and> (d = TradeDomain \<or>
           ctl_state c TradeDomain s \<notin> {Subscribing r, Unsubscribing r})
       then on_rejection r (ctl_state c d s) else ctl_state c d s)"
proof -
  have ok: "manager_ok (trade_manager c)" "manager_ok (book_manager c)"
    using assms by (simp_all add: ctl_ok_def all_domains)
  obtain m1 d1 m2 d2 where p: "try_process_rejection intern (trade_manager c) r x = (m1, d1)"
    "try_process_rejection intern (book_manager c) r x = (m2, d2)" by fastforce
  note F = try_process_rejection_facts [OF ok(1), of intern r x, unfolded p fst_conv snd_conv]
  note G = try_process_rejection_facts [OF ok(2), of intern r x, unfolded p fst_conv snd_conv]
  show "ctl_ok (fst (ctl_try_process_rejection intern now c r x))"
    using ok F G by (auto simp: ctl_try_process_rejection_def p ctl_ok_def all_domains mark_progress_def Let_def)
  show "ctl_state (fst (ctl_try_process_rejection intern now c r x)) d s =
      (if s = intern x \<and> (d = TradeDomain \<or>
           ctl_state c TradeDomain s \<notin> {Subscribing r, Unsubscribing r})
       then on_rejection r (ctl_state c d s) else ctl_state c d s)"
    using F G by (cases d)
      (auto simp: ctl_try_process_rejection_def p ctl_state_def mark_progress_def Let_def fun_upd_apply)
qed

section \<open>Properties\<close>

lemma has_pending_iff:
  assumes "manager_ok m"
  shows "has_pending_requests m \<longleftrightarrow> (\<exists>s. sub_state_of m s \<notin> {Inactive, Active})"
proof -
  have "has_pending_requests m \<longleftrightarrow> (\<exists>s. pending_contains (pending_subscriptions m) s \<or>
      pending_contains (pending_unsubscriptions m) s)"
    using manager_okD(1,2) [OF assms]
    by (auto simp: has_pending_requests_def pending.vacant_iff pending.holds_iff fun_eq_iff)
  also have "\<dots> \<longleftrightarrow> (\<exists>s. sub_state_of m s \<notin> {Inactive, Active})"
    unfolding pending_contains_manager(1,2) [OF assms]
    by (metis insert_iff singletonD sub_state.distinct sub_state.exhaust)
  finally show ?thesis .
qed

text \<open>The controller is quiescent exactly when no symbol of any subscription type waits for an
  acknowledgement. With the strict progress policy idle means quiescent; with a timeout
  policy a controller with pending work is idle exactly when more than the timeout has
  passed since the last registration, acknowledgement, rejection or reset.\<close>

theorem controller_idle_iff:
  assumes "ctl_ok c"
  shows "(ctl_is_quiescent c \<longleftrightarrow> (\<forall>d s. ctl_state c d s \<in> {Inactive, Active})) \<and>
    ctl_is_idle progress_strict now c = ctl_is_quiescent c \<and>
    ctl_is_idle (progress_timeout T) now c =
      ((\<forall>d s. ctl_state c d s \<in> {Inactive, Active}) \<or> now - last_progress_ns c > T)"
proof -
  have ok: "manager_ok (trade_manager c)" "manager_ok (book_manager c)"
    using assms by (simp_all add: ctl_ok_def all_domains)
  have "ctl_is_quiescent c \<longleftrightarrow> (\<forall>d s. ctl_state c d s \<in> {Inactive, Active})"
    by (simp add: ctl_is_quiescent_def has_pending_iff [OF ok(1)] has_pending_iff [OF ok(2)] all_domains ctl_state_def)
  then show ?thesis by (auto simp: ctl_is_idle_def progress_strict_def progress_timeout_def)
qed

definition demo_controller :: controller where
  "demo_controller = \<lparr>trade_manager = demo_manager, book_manager = Manager_init, last_progress_ns = 100\<rparr>"

lemma demo_controller_ok: "ctl_ok demo_controller"
  using manager_reachable_ok [OF demo_manager_reachable]
  by (simp add: ctl_ok_def all_domains demo_controller_def manager_ok_init)

theorem controller_idle_iff_witness:
  "\<not> ctl_is_quiescent demo_controller \<and> ctl_is_idle (progress_timeout 50) 151 demo_controller"
proof
  show q: "\<not> ctl_is_quiescent demo_controller"
    by (simp add: ctl_is_quiescent_def demo_controller_def demo_manager_def has_pending_requests_def pending_empty_def)
  show "ctl_is_idle (progress_timeout 50) 151 demo_controller"
    using controller_idle_iff [OF demo_controller_ok, where now = 151 and T = 50]
    by (simp add: demo_controller_def)
qed

end
