(* ===== verification/Control.thy ===== *)
theory Control
  imports Prelude "HOL-Library.Sublist"
begin

text \<open>
  The control primitives of \<^verbatim>\<open>lcr\<close>: the sequence generator that hands out request ids
  (sequence.hpp), the two-threshold hysteresis that stabilises the backpressure signal
  of the transport (binary_hysteresis.hpp) and the counters of consecutive frames that
  drive escalation in the session (consecutive_state.hpp). Counters are 32-bit and
  64-bit words: they wrap where the source's do.
\<close>

section \<open>Sequence generator\<close>

record sequence =
  next_seq :: u64

definition sequence_init :: "u64 \<Rightarrow> sequence" where
  "sequence_init start = \<lparr>next_seq = start\<rparr>"

definition sequence_next :: "sequence \<Rightarrow> sequence \<times> u64" where
  "sequence_next s = (s\<lparr>next_seq := next_seq s + 1\<rparr>, next_seq s)"

definition sequence_current :: "sequence \<Rightarrow> u64" where
  "sequence_current s = next_seq s"

definition sequence_reset :: "sequence \<Rightarrow> u64 \<Rightarrow> sequence" where
  "sequence_reset s start = s\<lparr>next_seq := start\<rparr>"

text \<open>The reserved request ids (req_id.hpp).\<close>

definition INVALID_REQ_ID :: req_id where "INVALID_REQ_ID = 0"
definition PING_ID :: req_id where "PING_ID = 1"
definition PROTOCOL_BASE :: req_id where "PROTOCOL_BASE = 10"

fun sequence_take :: "nat \<Rightarrow> sequence \<Rightarrow> u64 list" where
  "sequence_take 0 s = []"
| "sequence_take (Suc n) s = (let (s', v) = sequence_next s in v # sequence_take n s')"

lemma sequence_take_nth:
  "i < n \<Longrightarrow> sequence_take n s ! i = next_seq s + of_nat i"
proof (induction n s arbitrary: i rule: sequence_take.induct)
  case (2 n s)
  then show ?case by (cases i) (simp_all add: sequence_next_def algebra_simps)
qed simp

lemma length_sequence_take [simp]: "length (sequence_take n s) = n"
  by (induction n s rule: sequence_take.induct) (simp_all add: sequence_next_def)

section \<open>Hysteresis\<close>

datatype hysteresis_state = HInactive | HActive

datatype hysteresis_transition = HNone | Activated | Deactivated

record binary_hysteresis =
  h_state :: hysteresis_state
  activate_streak :: u32
  deactivate_streak :: u32

definition BinaryHysteresis_init :: binary_hysteresis where
  "BinaryHysteresis_init = \<lparr>h_state = HInactive, activate_streak = 0, deactivate_streak = 0\<rparr>"

text \<open>The thresholds are template arguments; the \<^verbatim>\<open>static_assert\<close>s of the class bound them.\<close>

definition thresholds_ok :: "u32 \<Rightarrow> u32 \<Rightarrow> bool" where
  "thresholds_ok A D \<longleftrightarrow> 0 < A \<and> A < 4294967295 \<and> 0 < D \<and> D < 4294967295"

definition on_active_signal ::
  "u32 \<Rightarrow> binary_hysteresis \<Rightarrow> binary_hysteresis \<times> hysteresis_transition" where
  "on_active_signal A h0 =
     (let h = h0\<lparr>deactivate_streak := 0\<rparr> in
      if h_state h = HInactive then
        (let h1 = h\<lparr>activate_streak := activate_streak h + 1\<rparr> in
         if activate_streak h1 \<ge> A
         then (h1\<lparr>h_state := HActive, activate_streak := 0\<rparr>, Activated)
         else (h1, HNone))
      else (h\<lparr>activate_streak := 0\<rparr>, HNone))"

definition on_inactive_signal ::
  "u32 \<Rightarrow> binary_hysteresis \<Rightarrow> binary_hysteresis \<times> hysteresis_transition" where
  "on_inactive_signal D h0 =
     (let h = h0\<lparr>activate_streak := 0\<rparr> in
      if h_state h = HActive then
        (let h1 = h\<lparr>deactivate_streak := deactivate_streak h + 1\<rparr> in
         if deactivate_streak h1 \<ge> D
         then (h1\<lparr>h_state := HInactive, deactivate_streak := 0\<rparr>, Deactivated)
         else (h1, HNone))
      else (h\<lparr>deactivate_streak := 0\<rparr>, HNone))"

definition hysteresis_is_active :: "binary_hysteresis \<Rightarrow> bool" where
  "hysteresis_is_active h \<longleftrightarrow> h_state h = HActive"

definition hysteresis_reset :: "binary_hysteresis \<Rightarrow> binary_hysteresis" where
  "hysteresis_reset h = h\<lparr>h_state := HInactive, activate_streak := 0, deactivate_streak := 0\<rparr>"

text \<open>A run: \<open>True\<close> is an active signal (ring full), \<open>False\<close> an inactive one.\<close>

definition hysteresis_signal ::
  "u32 \<Rightarrow> u32 \<Rightarrow> bool \<Rightarrow> binary_hysteresis \<Rightarrow> binary_hysteresis \<times> hysteresis_transition" where
  "hysteresis_signal A D b h = (if b then on_active_signal A h else on_inactive_signal D h)"

fun hysteresis_run ::
  "u32 \<Rightarrow> u32 \<Rightarrow> bool list \<Rightarrow> binary_hysteresis \<Rightarrow> binary_hysteresis \<times> hysteresis_transition list" where
  "hysteresis_run A D [] h = (h, [])"
| "hysteresis_run A D (b # bs) h =
     (let (h1, t) = hysteresis_signal A D b h; (h2, ts) = hysteresis_run A D bs h1 in (h2, t # ts))"

section \<open>Consecutive-frame counters\<close>

record consecutive_state_counter =
  csc_active :: bool
  csc_consecutive :: u32

definition csc_set_active :: "consecutive_state_counter \<Rightarrow> bool \<Rightarrow> consecutive_state_counter" where
  "csc_set_active c v = c\<lparr>csc_active := v\<rparr>"

definition csc_next_frame :: "consecutive_state_counter \<Rightarrow> consecutive_state_counter" where
  "csc_next_frame c = (if csc_active c then c\<lparr>csc_consecutive := csc_consecutive c + 1\<rparr>
                       else c\<lparr>csc_consecutive := 0\<rparr>)"

definition csc_count :: "consecutive_state_counter \<Rightarrow> u32" where
  "csc_count c = csc_consecutive c"

definition csc_reset :: "consecutive_state_counter \<Rightarrow> consecutive_state_counter" where
  "csc_reset c = c\<lparr>csc_active := False, csc_consecutive := 0\<rparr>"

record frame_consecutive_state_counter =
  active_this_frame :: bool
  fcsc_consecutive :: u32

definition fcsc_mark_active :: "frame_consecutive_state_counter \<Rightarrow> frame_consecutive_state_counter" where
  "fcsc_mark_active c = c\<lparr>active_this_frame := True\<rparr>"

definition fcsc_next_frame :: "frame_consecutive_state_counter \<Rightarrow> frame_consecutive_state_counter" where
  "fcsc_next_frame c =
     (let c1 = (if active_this_frame c then c\<lparr>fcsc_consecutive := fcsc_consecutive c + 1\<rparr>
                else c\<lparr>fcsc_consecutive := 0\<rparr>)
      in c1\<lparr>active_this_frame := False\<rparr>)"

definition fcsc_is_active :: "frame_consecutive_state_counter \<Rightarrow> bool" where
  "fcsc_is_active c \<longleftrightarrow> fcsc_consecutive c > 0"

definition fcsc_count :: "frame_consecutive_state_counter \<Rightarrow> u32" where
  "fcsc_count c = fcsc_consecutive c"

definition fcsc_reset :: "frame_consecutive_state_counter \<Rightarrow> frame_consecutive_state_counter" where
  "fcsc_reset c = c\<lparr>active_this_frame := False, fcsc_consecutive := 0\<rparr>"

section \<open>The hysteresis as a machine with one streak\<close>

text \<open>
  The abstract machine keeps the stable side and the length of the current run of
  opposing signals; both directions of the source are the same machine.
\<close>

definition hyst_step :: "nat \<Rightarrow> nat \<Rightarrow> bool \<Rightarrow> bool \<times> nat \<Rightarrow> (bool \<times> nat) \<times> bool" where
  "hyst_step A D b st = (let (a, n) = st in
     if b = a then ((a, 0), False)
     else if n + 1 \<ge> (if a then D else A) then ((\<not> a, 0), True) else ((a, n + 1), False))"

definition hyst_ok :: "u32 \<Rightarrow> u32 \<Rightarrow> binary_hysteresis \<Rightarrow> bool" where
  "hyst_ok A D h \<longleftrightarrow> (case h_state h of
     HInactive \<Rightarrow> deactivate_streak h = 0 \<and> activate_streak h < A
   | HActive \<Rightarrow> activate_streak h = 0 \<and> deactivate_streak h < D)"

definition hyst_abs :: "binary_hysteresis \<Rightarrow> bool \<times> nat" where
  "hyst_abs h = (hysteresis_is_active h,
     unat (if hysteresis_is_active h then deactivate_streak h else activate_streak h))"

lemma hyst_ok_init [inv_intros]: "thresholds_ok A D \<Longrightarrow> hyst_ok A D BinaryHysteresis_init"
  by (simp add: hyst_ok_def BinaryHysteresis_init_def thresholds_ok_def)

lemma unat_inc_below:
  fixes x y :: "'a::len word"
  assumes "x < y" shows "unat (x + 1) = unat x + 1"
proof -
  have "unat y < 2 ^ LENGTH('a)" by (rule unsigned_less)
  then have "unat x + 1 < 2 ^ LENGTH('a)"
    using assms unfolding word_less_nat_alt by linarith
  then show ?thesis by (simp add: unat_word_ariths)
qed

lemma hysteresis_signal_facts:
  assumes ok: "hyst_ok A D h" and t: "thresholds_ok A D"
    and s: "hysteresis_signal A D b h = (h', tr)"
  shows "hyst_ok A D h'"
    and "hyst_step (unat A) (unat D) b (hyst_abs h) = (hyst_abs h', tr \<noteq> HNone)"
    and "tr \<noteq> HNone \<Longrightarrow> tr = (if b then Activated else Deactivated)"
proof -
  note defs = hysteresis_signal_def on_active_signal_def on_inactive_signal_def hyst_ok_def
    hyst_abs_def hyst_step_def hysteresis_is_active_def Let_def
  have 1: "activate_streak h + 1 \<ge> A \<longleftrightarrow> unat (activate_streak h) + 1 \<ge> unat A" if "activate_streak h < A"
    using unat_inc_below [OF that] by (simp add: word_le_nat_alt)
  have 2: "deactivate_streak h + 1 \<ge> D \<longleftrightarrow> unat (deactivate_streak h) + 1 \<ge> unat D"
    if "deactivate_streak h < D"
    using unat_inc_below [OF that] by (simp add: word_le_nat_alt)
  show "hyst_ok A D h'"
    using s ok t by (cases "h_state h") (auto simp: defs thresholds_ok_def not_le split: if_splits)
  show "hyst_step (unat A) (unat D) b (hyst_abs h) = (hyst_abs h', tr \<noteq> HNone)"
    using s ok 1 2 unat_inc_below [of "activate_streak h" A] unat_inc_below [of "deactivate_streak h" D]
    by (cases "h_state h") (auto simp: defs split: if_splits)
  show "tr \<noteq> HNone \<Longrightarrow> tr = (if b then Activated else Deactivated)"
    using s by (cases "h_state h") (auto simp: defs split: if_splits)
qed

fun alternates :: "bool \<Rightarrow> hysteresis_transition list \<Rightarrow> bool" where
  "alternates a [] = True"
| "alternates a (HNone # ts) = alternates a ts"
| "alternates a (Activated # ts) = (\<not> a \<and> alternates True ts)"
| "alternates a (Deactivated # ts) = (a \<and> alternates False ts)"

lemma hysteresis_run_alternates:
  "hyst_ok A D h \<Longrightarrow> thresholds_ok A D \<Longrightarrow> hysteresis_run A D bs h = (h', ts) \<Longrightarrow>
   hyst_ok A D h' \<and> alternates (hysteresis_is_active h) ts"
proof (induction A D bs h arbitrary: h' ts rule: hysteresis_run.induct)
  case (2 A D b bs h)
  obtain h1 t where 1: "hysteresis_signal A D b h = (h1, t)" by fastforce
  obtain h2 ts' where r: "hysteresis_run A D bs h1 = (h2, ts')" by fastforce
  note f = hysteresis_signal_facts [OF 2(2,3) 1]
  have ih: "hyst_ok A D h2 \<and> alternates (hysteresis_is_active h1) ts'"
    using "2.IH" [OF 1 [symmetric] refl f(1) "2.prems"(2) r] .
  have "alternates (hysteresis_is_active h) (t # ts')"
    using f(2,3) ih by (cases t) (auto simp: hyst_step_def hyst_abs_def split: if_splits)
  with 2(4) 1 r ih show ?case by auto
qed simp

lemma sublist_replicate_block:
  assumes "n < T" and "x \<noteq> y"
  shows "sublist (replicate T x) (replicate n x @ y # ys) \<longleftrightarrow> sublist (replicate T x) ys"
proof -
  have "\<not> sublist (replicate T x) (replicate n x)"
    using assms(1) sublist_length_le [of "replicate T x" "replicate n x"] by auto
  moreover have "vs = []" if "replicate T x = us @ vs" "prefix vs (y # ys)" for us vs
  proof -
    have "set vs \<subseteq> set (replicate T x)" using that(1) by simp
    with that(2) assms(2) show ?thesis by (cases vs) (auto split: if_splits)
  qed
  moreover have "\<not> prefix (replicate T x) (y # ys)"
    using assms by (cases T) auto
  ultimately show ?thesis
    using assms by (fastforce simp: sublist_append sublist_Cons_right)
qed

lemma hysteresis_run_quiet:
  "hyst_ok A D h \<Longrightarrow> thresholds_ok A D \<Longrightarrow> hysteresis_run A D bs h = (h', ts) \<Longrightarrow>
   hyst_abs h = (a, n) \<Longrightarrow>
   set ts \<subseteq> {HNone} \<longleftrightarrow>
     \<not> sublist (replicate (unat (if a then D else A)) (\<not> a)) (replicate n (\<not> a) @ bs)"
proof (induction A D bs h arbitrary: h' ts n rule: hysteresis_run.induct)
  case (1 A D h)
  let ?T = "unat (if a then D else A)"
  have "n < ?T"
    using 1 by (auto simp: hyst_ok_def hyst_abs_def hysteresis_is_active_def word_less_nat_alt
        split: hysteresis_state.splits if_splits)
  with 1 show ?case using sublist_length_le [of "replicate ?T (\<not> a)" "replicate n (\<not> a)"] by auto
next
  case (2 A D b bs h)
  let ?T = "unat (if a then D else A)"
  obtain h1 t where 1: "hysteresis_signal A D b h = (h1, t)" by fastforce
  obtain h2 ts' where r: "hysteresis_run A D bs h1 = (h2, ts')" by fastforce
  have ts: "ts = t # ts'" using 2(4) 1 r by simp
  note f = hysteresis_signal_facts [OF 2(2,3) 1]
  have n: "n < ?T"
    using 2(2,5) by (auto simp: hyst_ok_def hyst_abs_def hysteresis_is_active_def word_less_nat_alt
        split: hysteresis_state.splits if_splits)
  note ih = "2.IH" [OF 1 [symmetric] refl f(1) "2.prems"(2) r]
  show ?case
  proof (cases "b = a")
    case True
    then have "hyst_abs h1 = (a, 0)" "t = HNone" using f(2) 2(5) by (auto simp: hyst_step_def)
    then show ?thesis using ih [of 0] ts True n sublist_replicate_block [OF n, of "\<not> a" a bs] by simp
  next
    case b: False
    then have app: "replicate n (\<not> a) @ b # bs = replicate (Suc n) (\<not> a) @ bs"
      by (simp add: replicate_app_Cons_same)
    show ?thesis
    proof (cases "n + 1 \<ge> ?T")
      case True
      then have "?T = Suc n" using n by simp
      then have "sublist (replicate ?T (\<not> a)) (replicate n (\<not> a) @ b # bs)"
        unfolding app by (metis sublist_appendI append_Nil)
      then show ?thesis using f(2) 2(5) b True ts by (auto simp: hyst_step_def split: if_splits)
    next
      case False
      then have "hyst_abs h1 = (a, Suc n)" "t = HNone"
        using f(2) 2(5) b by (auto simp: hyst_step_def split: if_splits)
      then show ?thesis unfolding app using ih [of "Suc n"] ts by simp
    qed
  qed
qed

section \<open>Properties\<close>

text \<open>The hysteresis changes sides only after an unbroken run of opposing signals of the
  full threshold length. Started fresh, a sequence of signals produces no transition
  exactly when it contains no \<^verbatim>\<open>ActivateThreshold\<close> consecutive active signals, and
  whatever the signals are, the transitions alternate, starting with \<^verbatim>\<open>Activated\<close>; the
  32-bit streak counters never wrap.\<close>

theorem hysteresis_exact:
  assumes "thresholds_ok A D" and "hysteresis_run A D sigs BinaryHysteresis_init = (h, ts)"
  shows "(set ts \<subseteq> {HNone} \<longleftrightarrow> \<not> sublist (replicate (unat A) True) sigs) \<and>
    alternates False ts \<and> hyst_ok A D h"
proof -
  have a: "hyst_abs BinaryHysteresis_init = (False, 0)"
    by (simp add: hyst_abs_def hysteresis_is_active_def BinaryHysteresis_init_def)
  have "\<not> hysteresis_is_active BinaryHysteresis_init"
    by (simp add: hysteresis_is_active_def BinaryHysteresis_init_def)
  with hysteresis_run_alternates [OF hyst_ok_init [OF assms(1)] assms]
    hysteresis_run_quiet [OF hyst_ok_init [OF assms(1)] assms a]
  show ?thesis by simp
qed

theorem hysteresis_exact_witness:
  "snd (hysteresis_run 2 3 [True, False, True, True, False, True] BinaryHysteresis_init) =
     [HNone, HNone, HNone, Activated, HNone, HNone] \<and>
   sublist (replicate (unat (2 :: u32)) True) [True, False, True, True, False, True]"
proof -
  let ?bs = "[True, False, True, True, False, True]"
  have 1: "snd (hysteresis_run 2 3 ?bs BinaryHysteresis_init) =
      [HNone, HNone, HNone, Activated, HNone, HNone]"
    by code_simp
  have "thresholds_ok 2 3" by (simp add: thresholds_ok_def)
  from hysteresis_exact [OF this prod.collapse [symmetric], of ?bs] 1 show ?thesis by simp
qed

text \<open>After any sequence of frames (with or without activity) both consecutive-state
  counters hold the length of the run of active frames that ends at the last frame,
  modulo the 32 bits of the counter.\<close>

theorem consecutive_counters_count:
  "fcsc_count (fold (\<lambda>b c. fcsc_next_frame (if b then fcsc_mark_active c else c)) frames
     \<lparr>active_this_frame = False, fcsc_consecutive = 0\<rparr>) =
       of_nat (length (takeWhile id (rev frames))) \<and>
   csc_count (fold (\<lambda>b c. csc_next_frame (csc_set_active c b)) frames
     \<lparr>csc_active = False, csc_consecutive = 0\<rparr>) =
       of_nat (length (takeWhile id (rev frames)))"
proof (induction frames rule: rev_induct)
  case (snoc b frames)
  have "\<not> active_this_frame (fold (\<lambda>b c. fcsc_next_frame (if b then fcsc_mark_active c else c)) frames
     \<lparr>active_this_frame = False, fcsc_consecutive = 0\<rparr>)"
    by (induction frames rule: rev_induct) (simp_all add: fcsc_next_frame_def Let_def)
  with snoc show ?case
    by (simp add: fcsc_next_frame_def csc_next_frame_def csc_set_active_def fcsc_count_def
        csc_count_def fcsc_mark_active_def Let_def)
qed (simp add: fcsc_count_def csc_count_def)

text \<open>The request ids drawn from a sequence that starts at \<^verbatim>\<open>PROTOCOL_BASE\<close> are pairwise
  distinct and outside the reserved range (never \<^verbatim>\<open>INVALID_REQ_ID\<close> or \<^verbatim>\<open>PING_ID\<close>), for as
  many draws as fit in 64 bits.\<close>

theorem request_ids_unique:
  assumes "n \<le> 2 ^ 64 - 10"
  shows "distinct (sequence_take n (sequence_init PROTOCOL_BASE)) \<and>
    INVALID_REQ_ID \<notin> set (sequence_take n (sequence_init PROTOCOL_BASE)) \<and>
    PING_ID \<notin> set (sequence_take n (sequence_init PROTOCOL_BASE))"
proof -
  have nth: "unat (sequence_take n (sequence_init PROTOCOL_BASE) ! i) = i + 10" if "i < n" for i
  proof -
    have "i + 10 < 2 ^ 64" using that assms by simp
    then show ?thesis
      using that by (simp add: sequence_take_nth sequence_init_def PROTOCOL_BASE_def
          unat_word_ariths unsigned_of_nat take_bit_nat_eq_self)
  qed
  then have "unat v \<ge> 10" if "v \<in> set (sequence_take n (sequence_init PROTOCOL_BASE))" for v
    using that by (auto simp: in_set_conv_nth)
  moreover have "distinct (sequence_take n (sequence_init PROTOCOL_BASE))"
    unfolding distinct_conv_nth using nth by (metis length_sequence_take add_right_cancel)
  ultimately show ?thesis by (fastforce simp: INVALID_REQ_ID_def PING_ID_def)
qed

theorem request_ids_unique_witness:
  "sequence_take 3 (sequence_init PROTOCOL_BASE) = [10, 11, 12] \<and>
   PING_ID \<notin> set (sequence_take 3 (sequence_init PROTOCOL_BASE))"
proof
  show "sequence_take 3 (sequence_init PROTOCOL_BASE) = [10, 11, 12]" by code_simp
  show "PING_ID \<notin> set (sequence_take 3 (sequence_init PROTOCOL_BASE))"
    using request_ids_unique [of 3] by simp
qed

end
