(* ===== verification/Bounded_Queue.thy ===== *)
theory Bounded_Queue
  imports Prelude
begin

unbundle bit_operations_syntax

text \<open>
  What the ring buffers of \<^verbatim>\<open>lcr\<close> share: the arithmetic of masked 64-bit indices, the
  sequence of elements between two indices, and the contract of a bounded FIFO queue
  that the control ring, the signal ring, the request queue and the message queues of
  the program rely on.
\<close>

section \<open>Masked indices\<close>

text \<open>
  The \<^verbatim>\<open>static_assert\<close> of every ring: the capacity is a power of two and at least 2. An
  index is advanced with \<^verbatim>\<open>(i + n) & MASK\<close>, a distance is \<^verbatim>\<open>(head - tail) & MASK\<close>, both in
  unsigned 64-bit arithmetic.
\<close>

definition cap_ok :: "u64 \<Rightarrow> bool" where
  "cap_ok cap \<longleftrightarrow> (\<exists>k. 1 \<le> k \<and> k < 64 \<and> cap = 2 ^ k)"

definition ring_next :: "u64 \<Rightarrow> u64 \<Rightarrow> u64" where
  "ring_next cap v = (v + 1) AND (cap - 1)"

definition ring_used :: "u64 \<Rightarrow> u64 \<Rightarrow> u64 \<Rightarrow> u64" where
  "ring_used cap h t = (h - t) AND (cap - 1)"

text \<open>The distance from \<open>t\<close> to \<open>h\<close> on a circle of \<open>n\<close> slots, on natural numbers.\<close>

definition circ :: "nat \<Rightarrow> nat \<Rightarrow> nat \<Rightarrow> nat" where
  "circ n t h = (if t \<le> h then h - t else h + n - t)"

lemma cap_ok_cases:
  assumes "cap_ok cap"
  obtains k where "1 \<le> k" and "k < 64" and "cap = 2 ^ k" and "unat cap = 2 ^ k"
proof -
  obtain k where k: "1 \<le> k" "k < 64" "cap = 2 ^ k" using assms by (auto simp: cap_ok_def)
  have "(2 :: nat) ^ k < 2 ^ 64" using k(2) by (intro power_strict_increasing) simp_all
  then have "unat (of_nat (2 ^ k) :: u64) = 2 ^ k" by (simp only: unat_of_nat) simp
  with k show ?thesis by (intro that) simp_all
qed

lemma cap_ok_ge2: "cap_ok cap \<Longrightarrow> 2 \<le> unat cap"
proof (erule cap_ok_cases)
  fix k assume "1 \<le> (k :: nat)" "unat cap = 2 ^ k"
  then show "2 \<le> unat cap" using power_increasing [of 1 k "2 :: nat"] by simp
qed

lemma unat_masked:
  assumes "cap_ok cap"
  shows "unat (x AND (cap - 1)) = unat x mod unat cap"
proof -
  obtain k where k: "cap = 2 ^ k" "unat cap = 2 ^ k" using assms by (rule cap_ok_cases)
  have "x AND (cap - 1) = take_bit k x"
    by (simp add: k(1) take_bit_eq_mask mask_eq_exp_minus_1)
  then show ?thesis by (simp only: unsigned_take_bit_eq) (simp add: take_bit_eq_mod k(2))
qed

lemma cap_dvd: "cap_ok cap \<Longrightarrow> unat cap dvd 2 ^ 64"
  by (erule cap_ok_cases) (metis le_imp_power_dvd less_imp_le)

lemma unat_advance:
  assumes "cap_ok cap"
  shows "unat ((v + n) AND (cap - 1)) = (unat v + unat n) mod unat cap"
  using cap_dvd [OF assms] by (simp add: unat_masked [OF assms] unat_word_ariths mod_mod_cancel)

lemma unat_distance:
  assumes "cap_ok cap" and "h < cap" and "t < cap"
  shows "unat ((h - t) AND (cap - 1)) = circ (unat cap) (unat t) (unat h)"
proof -
  have b: "unat h < unat cap" "unat t < unat cap" using assms(2,3) by (simp_all add: word_less_nat_alt)
  show ?thesis
  proof (cases "t \<le> h")
    case True
    then show ?thesis using b by (simp add: unat_masked [OF assms(1)] unat_sub_if' circ_def word_le_nat_alt)
  next
    case False
    obtain q where q: "2 ^ 64 = unat cap * q" using cap_dvd [OF assms(1)] by (rule dvdE)
    then have "q \<noteq> 0" by (metis mult_0_right power_not_zero zero_neq_numeral)
    then obtain q' where "q = Suc q'" by (cases q) auto
    then have "unat h + 2 ^ 64 - unat t = (unat h + unat cap - unat t) + unat cap * q'"
      using b q by (simp add: algebra_simps)
    moreover have "unat (h - t) = unat h + 2 ^ 64 - unat t"
      using False by (simp add: unat_sub_if' word_le_nat_alt)
    ultimately have "unat (h - t) mod unat cap = (unat h + unat cap - unat t) mod unat cap"
      by simp
    then show ?thesis
      using False b by (simp add: unat_masked [OF assms(1)] circ_def word_le_nat_alt)
  qed
qed

lemma ring_next_less: "cap_ok cap \<Longrightarrow> ring_next cap v < cap"
  using cap_ok_ge2 [of cap] by (simp add: ring_next_def word_less_nat_alt unat_masked)

lemma unat_ring_next:
  "cap_ok cap \<Longrightarrow> v < cap \<Longrightarrow>
   unat (ring_next cap v) = (if unat v + 1 = unat cap then 0 else unat v + 1)"
  using unat_advance [of cap v 1] by (auto simp: ring_next_def word_less_nat_alt)

lemma unat_ring_used:
  "cap_ok cap \<Longrightarrow> h < cap \<Longrightarrow> t < cap \<Longrightarrow> unat (ring_used cap h t) = circ (unat cap) (unat t) (unat h)"
  by (simp add: ring_used_def unat_distance)

text \<open>The facts on \<open>circ\<close> that the rings use, over word indices.\<close>

definition span :: "u64 \<Rightarrow> u64 \<Rightarrow> u64 \<Rightarrow> nat" where
  "span cap t h = circ (unat cap) (unat t) (unat h)"

lemma span_less: "h < cap \<Longrightarrow> t < cap \<Longrightarrow> span cap t h < unat cap"
  by (auto simp: span_def circ_def word_less_nat_alt)

lemma span_zero_iff: "h < cap \<Longrightarrow> t < cap \<Longrightarrow> span cap t h = 0 \<longleftrightarrow> h = t"
  by (auto simp: span_def circ_def word_less_nat_alt word_unat_eq_iff)

lemma span_full_iff:
  "cap_ok cap \<Longrightarrow> h < cap \<Longrightarrow> t < cap \<Longrightarrow> ring_next cap h = t \<longleftrightarrow> span cap t h = unat cap - 1"
  by (auto simp: span_def circ_def word_less_nat_alt word_unat_eq_iff [of "ring_next cap h"] unat_ring_next)

lemma span_next_head:
  "cap_ok cap \<Longrightarrow> h < cap \<Longrightarrow> t < cap \<Longrightarrow> ring_next cap h \<noteq> t \<Longrightarrow>
   span cap t (ring_next cap h) = Suc (span cap t h)"
  by (auto simp: span_def circ_def word_less_nat_alt word_unat_eq_iff [of "ring_next cap h"] unat_ring_next
      split: if_splits)

lemma span_next_tail:
  "cap_ok cap \<Longrightarrow> h < cap \<Longrightarrow> t < cap \<Longrightarrow> h \<noteq> t \<Longrightarrow> Suc (span cap (ring_next cap t) h) = span cap t h"
  by (auto simp: span_def circ_def word_less_nat_alt word_unat_eq_iff unat_ring_next split: if_splits)

lemma span_unat: "cap_ok cap \<Longrightarrow> h < cap \<Longrightarrow> t < cap \<Longrightarrow> unat (ring_used cap h t) = span cap t h"
  by (simp add: span_def unat_ring_used)

lemma span_head: "cap_ok cap \<Longrightarrow> h < cap \<Longrightarrow> t < cap \<Longrightarrow> (unat t + span cap t h) mod unat cap = unat h"
  by (auto simp: span_def circ_def word_less_nat_alt)

section \<open>The elements between two indices\<close>

definition ring_seq :: "u64 \<Rightarrow> 'a list \<Rightarrow> u64 \<Rightarrow> u64 \<Rightarrow> 'a list" where
  "ring_seq cap buf t h = map (\<lambda>i. buf ! ((unat t + i) mod unat cap)) [0..<span cap t h]"

lemma length_ring_seq [simp]: "length (ring_seq cap buf t h) = span cap t h"
  by (simp add: ring_seq_def)

lemma ring_seq_write:
  assumes "cap_ok cap" "h < cap" "t < cap" "length buf = unat cap" "ring_next cap h \<noteq> t"
  shows "ring_seq cap (buf[unat h := x]) t (ring_next cap h) = ring_seq cap buf t h @ [x]"
proof -
  have h: "(unat t + span cap t h) mod unat cap = unat h" using assms by (intro span_head)
  have ne: "(unat t + i) mod unat cap \<noteq> unat h" if "i < span cap t h" for i
  proof
    assume eq: "(unat t + i) mod unat cap = unat h"
    have "unat t < unat cap" "i < unat cap" "span cap t h < unat cap"
      using that span_less [OF assms(2,3)] assms(3) by (simp_all add: word_less_nat_alt)
    with eq h that show False by (auto simp: mod_if split: if_splits)
  qed
  have "buf[unat h := x] ! ((unat t + i) mod unat cap) = buf ! ((unat t + i) mod unat cap)"
    if "i < span cap t h" for i
    using ne [OF that] by (metis nth_list_update_neq)
  with assms h show ?thesis by (simp add: ring_seq_def span_next_head word_less_nat_alt)
qed

lemma ring_seq_read:
  assumes "cap_ok cap" "h < cap" "t < cap" "h \<noteq> t"
  shows "ring_seq cap buf t h = buf ! unat t # ring_seq cap buf (ring_next cap t) h"
proof -
  have n: "span cap t h = Suc (span cap (ring_next cap t) h)" using assms by (simp add: span_next_tail)
  have "unat (ring_next cap t) = (unat t + 1) mod unat cap"
    using unat_advance [OF assms(1), of t 1] by (simp add: ring_next_def)
  then have "(unat (ring_next cap t) + i) mod unat cap = (unat t + Suc i) mod unat cap" for i
    by (simp add: mod_add_left_eq)
  then show ?thesis
    using assms(3) unfolding ring_seq_def n
    by (simp add: upt_conv_Cons map_Suc_upt [symmetric] word_less_nat_alt o_def del: upt_Suc)
qed

lemma ring_seq_empty: "h < cap \<Longrightarrow> t < cap \<Longrightarrow> ring_seq cap buf t h = [] \<longleftrightarrow> h = t"
  by (simp add: span_zero_iff flip: length_0_conv)

section \<open>The contract of a bounded queue\<close>

text \<open>
  The specification is a list with a bound: an insertion into a full queue fails and
  changes nothing, a removal takes the oldest element.
\<close>

fun bq_push :: "nat \<Rightarrow> 'a list \<Rightarrow> 'a \<Rightarrow> 'a list \<times> bool" where
  "bq_push n xs x = (if length xs < n then (xs @ [x], True) else (xs, False))"

fun bq_pop :: "'a list \<Rightarrow> 'a list \<times> 'a option" where
  "bq_pop [] = ([], None)"
| "bq_pop (x # xs) = (xs, Some x)"

locale fifo_queue =
  fixes inv :: "'q \<Rightarrow> bool"
    and contents :: "'q \<Rightarrow> 'a list"
    and bound :: nat
    and enq :: "'q \<Rightarrow> 'a \<Rightarrow> 'q \<times> bool"
    and deq :: "'q \<Rightarrow> 'q \<times> 'a option"
    and is_empty :: "'q \<Rightarrow> bool"
    and is_full :: "'q \<Rightarrow> bool"
  assumes bounded: "inv q \<Longrightarrow> length (contents q) \<le> bound"
    and enq_inv: "inv q \<Longrightarrow> inv (fst (enq q x))"
    and enq_spec: "inv q \<Longrightarrow> (contents (fst (enq q x)), snd (enq q x)) = bq_push bound (contents q) x"
    and deq_inv: "inv q \<Longrightarrow> inv (fst (deq q))"
    and deq_spec: "inv q \<Longrightarrow> (contents (fst (deq q)), snd (deq q)) = bq_pop (contents q)"
    and empty_iff: "inv q \<Longrightarrow> is_empty q \<longleftrightarrow> contents q = []"
    and full_iff: "inv q \<Longrightarrow> is_full q \<longleftrightarrow> length (contents q) = bound"
begin

text \<open>A client's run: enqueue requests and dequeue requests in any order.\<close>

fun run :: "'a option list \<Rightarrow> 'q \<Rightarrow> 'q \<times> 'a list \<times> 'a list" where
  "run [] q = (q, [], [])"
| "run (Some x # ops) q =
     (let (q1, ok) = enq q x; (q2, ins, outs) = run ops q1 in (q2, if ok then x # ins else ins, outs))"
| "run (None # ops) q =
     (let (q1, r) = deq q; (q2, ins, outs) = run ops q1 in
      (q2, ins, case r of None \<Rightarrow> outs | Some y \<Rightarrow> y # outs))"

lemma run_fifo:
  "inv q \<Longrightarrow> run ops q = (q', ins, outs) \<Longrightarrow> inv q' \<and> contents q @ ins = outs @ contents q'"
proof (induction ops q arbitrary: q' ins outs rule: run.induct)
  case (2 x ops q)
  obtain q1 ok where 1: "enq q x = (q1, ok)" by fastforce
  obtain q2 i2 o2 where r: "run ops q1 = (q2, i2, o2)" by (metis prod.exhaust)
  have i: "inv q1" using enq_inv [OF 2(2), of x] 1 by simp
  have c: "contents q1 @ i2 = o2 @ contents q2 \<and> inv q2" using "2.IH" [OF 1 [symmetric] refl i r] by blast
  have "contents q1 = (if ok then contents q @ [x] else contents q)"
    using enq_spec [OF 2(2), of x] 1 by (auto split: if_splits)
  with c 2(3) 1 r show ?case by (auto split: if_splits)
next
  case (3 ops q)
  obtain q1 r1 where 1: "deq q = (q1, r1)" by fastforce
  obtain q2 i2 o2 where r: "run ops q1 = (q2, i2, o2)" by (metis prod.exhaust)
  have i: "inv q1" using deq_inv [OF 3(2)] 1 by simp
  have c: "contents q1 @ i2 = o2 @ contents q2 \<and> inv q2" using "3.IH" [OF 1 [symmetric] refl i r] by blast
  have "contents q = (case r1 of None \<Rightarrow> contents q1 | Some y \<Rightarrow> y # contents q1)"
    using deq_spec [OF 3(2)] 1 by (cases "contents q") (auto split: option.splits)
  with c 3(3) 1 r show ?case by (auto split: option.splits)
qed simp

lemma enq_deq_single:
  assumes "inv q" and "contents q = []" and "0 < bound"
  shows "snd (enq q x) \<and> snd (deq (fst (enq q x))) = Some x \<and> contents (fst (deq (fst (enq q x)))) = []"
proof -
  have "contents (fst (enq q x)) = [x]" "snd (enq q x)"
    using enq_spec [OF assms(1), of x] assms(2,3) by simp_all
  with deq_spec [OF enq_inv [OF assms(1)], of x] show ?thesis by simp
qed

end

text \<open>A queue that can also be cleared.\<close>

locale bounded_fifo = fifo_queue +
  fixes erase :: "'a \<Rightarrow> 'a"
  assumes erase_inv: "inv q \<Longrightarrow> inv (erase q)"
    and erase_spec: "inv q \<Longrightarrow> contents (erase q) = []"
begin

lemma erase_run: "inv q \<Longrightarrow> run ops (erase q) = (q', ins, outs) \<Longrightarrow> ins = outs @ contents q'"
  using run_fifo [OF erase_inv] by (simp add: erase_spec)

end

end
