(* ===== verification/Spsc_Queue.thy ===== *)
theory Spsc_Queue
  imports Bounded_Queue
begin

text \<open>
  The single-producer single-consumer queue (spsc_core.hpp, spsc_queue.hpp) that carries
  the events of the receive thread to the connection and the connection's signals to
  the session. Each side caches the other side's index and rereads it only when
  the queue looks full or empty. The sequential operations are shown to implement the
  bounded FIFO contract; then producer and consumer are split into their shared-memory
  actions and run in any interleaving. Memory accesses interleave atomically: the
  release stores and acquire loads of the source are what makes that view of the two
  threads adequate.
\<close>

section \<open>State and sequential operations\<close>

record 'a spsc_core =
  buffer :: "'a list"
  head_index :: u64
  head_cached :: u64
  tail_index :: u64
  tail_cached :: u64

definition spsc_init :: "'a list \<Rightarrow> 'a spsc_core" where
  "spsc_init buf = \<lparr>buffer = buf, head_index = 0, head_cached = 0, tail_index = 0, tail_cached = 0\<rparr>"

definition spsc_next :: "u64 \<Rightarrow> u64 \<Rightarrow> u64" where
  "spsc_next cap v = ring_next cap v"

definition spsc_is_full :: "u64 \<Rightarrow> 'a spsc_core \<Rightarrow> u64 \<Rightarrow> 'a spsc_core \<times> bool" where
  "spsc_is_full cap q head =
     (let next_val = spsc_next cap head in
      if next_val = head_cached q then
        (let q1 = q\<lparr>head_cached := tail_index q\<rparr> in (q1, next_val = head_cached q1))
      else (q, False))"

definition spsc_is_empty :: "'a spsc_core \<Rightarrow> u64 \<Rightarrow> 'a spsc_core \<times> bool" where
  "spsc_is_empty q tail =
     (if tail = tail_cached q then
        (let q1 = q\<lparr>tail_cached := head_index q\<rparr> in (q1, tail = tail_cached q1))
      else (q, False))"

definition spsc_empty :: "'a spsc_core \<Rightarrow> bool" where
  "spsc_empty q \<longleftrightarrow> tail_index q = head_index q"

definition spsc_full :: "u64 \<Rightarrow> 'a spsc_core \<Rightarrow> bool" where
  "spsc_full cap q \<longleftrightarrow> spsc_next cap (head_index q) = tail_index q"

definition spsc_capacity :: "u64 \<Rightarrow> u64" where
  "spsc_capacity cap = cap - 1"

definition spsc_used :: "u64 \<Rightarrow> 'a spsc_core \<Rightarrow> u64" where
  "spsc_used cap q = ring_used cap (head_index q) (tail_index q)"

definition spsc_free_slots :: "u64 \<Rightarrow> 'a spsc_core \<Rightarrow> u64" where
  "spsc_free_slots cap q = cap - 1 - spsc_used cap q"

definition spsc_clear :: "'a spsc_core \<Rightarrow> 'a spsc_core" where
  "spsc_clear q = q\<lparr>tail_index := 0, tail_cached := 0, head_index := 0, head_cached := 0\<rparr>"

text \<open>\<^verbatim>\<open>push\<close> by copy and by move and \<^verbatim>\<open>emplace_push\<close> differ only in how the element is built.\<close>

definition spsc_push :: "u64 \<Rightarrow> 'a spsc_core \<Rightarrow> 'a \<Rightarrow> 'a spsc_core \<times> bool" where
  "spsc_push cap q item =
     (let head = head_index q; (q1, full) = spsc_is_full cap q head in
      if full then (q1, False)
      else (q1\<lparr>buffer := (buffer q1)[unat head := item], head_index := spsc_next cap head\<rparr>, True))"

definition spsc_pop :: "u64 \<Rightarrow> 'a spsc_core \<Rightarrow> 'a spsc_core \<times> 'a option" where
  "spsc_pop cap q =
     (let tail = tail_index q; (q1, empty) = spsc_is_empty q tail in
      if empty then (q1, None)
      else (q1\<lparr>tail_index := spsc_next cap tail\<rparr>, Some (buffer q1 ! unat tail)))"

section \<open>Invariant\<close>

text \<open>
  A cached index is a past value of the opposite index: the producer's cached tail is at
  least as far from the head as the tail, the consumer's cached head at most as far from the
  tail as the head.
\<close>

definition spsc_ok :: "u64 \<Rightarrow> 'a spsc_core \<Rightarrow> bool" where
  "spsc_ok cap q \<longleftrightarrow> cap_ok cap \<and> length (buffer q) = unat cap \<and>
     head_index q < cap \<and> tail_index q < cap \<and> head_cached q < cap \<and> tail_cached q < cap \<and>
     span cap (tail_index q) (head_index q) \<le> span cap (head_cached q) (head_index q) \<and>
     span cap (tail_index q) (tail_cached q) \<le> span cap (tail_index q) (head_index q)"

definition spsc_contents :: "u64 \<Rightarrow> 'a spsc_core \<Rightarrow> 'a list" where
  "spsc_contents cap q = ring_seq cap (buffer q) (tail_index q) (head_index q)"

lemma spsc_okD:
  assumes "spsc_ok cap q"
  shows "cap_ok cap" "length (buffer q) = unat cap" "head_index q < cap" "tail_index q < cap"
    "head_cached q < cap" "tail_cached q < cap"
    "span cap (tail_index q) (head_index q) \<le> span cap (head_cached q) (head_index q)"
    "span cap (tail_index q) (tail_cached q) \<le> span cap (tail_index q) (head_index q)"
  using assms by (simp_all add: spsc_ok_def)

lemma spsc_ok_init: "cap_ok cap \<Longrightarrow> length buf = unat cap \<Longrightarrow> spsc_ok cap (spsc_init buf)"
  using cap_ok_ge2 [of cap] by (simp add: spsc_ok_def spsc_init_def word_less_nat_alt)

lemma span_self [simp]: "span cap t t = 0"
  by (simp add: span_def circ_def)

lemma spsc_is_full_facts:
  assumes ok: "spsc_ok cap q" and f: "spsc_is_full cap q (head_index q) = (q1, b)"
  shows "spsc_ok cap q1" and "spsc_contents cap q1 = spsc_contents cap q"
    and "b \<longleftrightarrow> length (spsc_contents cap q) = unat cap - 1"
    and "\<not> b \<Longrightarrow> ring_next cap (head_index q) \<noteq> head_cached q1"
    and "buffer q1 = buffer q" "head_index q1 = head_index q" "tail_index q1 = tail_index q"
proof -
  note d = spsc_okD [OF ok]
  have full: "ring_next cap (head_index q) = t \<longleftrightarrow> span cap t (head_index q) = unat cap - 1"
    if "t < cap" for t using span_full_iff [OF d(1) d(3) that] .
  have le: "span cap t (head_index q) \<le> unat cap - 1" if "t < cap" for t
    using span_less [OF d(3) that] by simp
  show "b \<longleftrightarrow> length (spsc_contents cap q) = unat cap - 1"
    using f d full [OF d(4)] full [OF d(5)] le [OF d(5)]
    by (auto simp: spsc_is_full_def spsc_next_def spsc_contents_def Let_def split: if_splits)
  show "spsc_ok cap q1" using f d by (auto simp: spsc_is_full_def spsc_ok_def Let_def split: if_splits)
qed (use f in \<open>auto simp: spsc_is_full_def spsc_next_def spsc_contents_def Let_def split: if_splits\<close>)

lemma spsc_is_empty_facts:
  assumes ok: "spsc_ok cap q" and f: "spsc_is_empty q (tail_index q) = (q1, b)"
  shows "spsc_ok cap q1" and "spsc_contents cap q1 = spsc_contents cap q"
    and "b \<longleftrightarrow> spsc_contents cap q = []"
    and "\<not> b \<Longrightarrow> tail_index q \<noteq> tail_cached q1"
    and "buffer q1 = buffer q" "head_index q1 = head_index q" "tail_index q1 = tail_index q"
proof -
  note d = spsc_okD [OF ok]
  show "b \<longleftrightarrow> spsc_contents cap q = []"
    using f d(8) span_zero_iff [OF d(6) d(4)] ring_seq_empty [OF d(3,4), of "buffer q"]
    by (auto simp: spsc_is_empty_def spsc_contents_def Let_def split: if_splits)
  show "spsc_ok cap q1" using f d by (auto simp: spsc_is_empty_def spsc_ok_def Let_def split: if_splits)
qed (use f in \<open>auto simp: spsc_is_empty_def spsc_contents_def Let_def split: if_splits\<close>)

text \<open>Publishing at the head and releasing at the tail, after the check has succeeded.\<close>

lemma spsc_publish:
  fixes x :: 'a
  assumes ok: "spsc_ok cap q" and n: "ring_next cap (head_index q) \<noteq> head_cached q"
  defines "q' \<equiv> q\<lparr>buffer := (buffer q)[unat (head_index q) := x], head_index := ring_next cap (head_index q)\<rparr>"
  shows "spsc_ok cap q'" and "spsc_contents cap q' = spsc_contents cap q @ [x]"
proof -
  note d = spsc_okD [OF ok]
  have "span cap (head_cached q) (head_index q) \<noteq> unat cap - 1"
    using span_full_iff [OF d(1,3,5)] n by simp
  with d(7) span_less [OF d(3,5)] have "ring_next cap (head_index q) \<noteq> tail_index q"
    using span_full_iff [OF d(1,3,4)] by auto
  then show "spsc_ok cap q'" "spsc_contents cap q' = spsc_contents cap q @ [x]"
    using d n by (simp_all add: q'_def spsc_ok_def ring_next_less span_next_head spsc_contents_def
        ring_seq_write)
qed

lemma spsc_release:
  assumes ok: "spsc_ok cap q" and n: "tail_index q \<noteq> tail_cached q"
  defines "q' \<equiv> q\<lparr>tail_index := ring_next cap (tail_index q)\<rparr>"
  shows "spsc_ok cap q'"
    and "spsc_contents cap q = buffer q ! unat (tail_index q) # spsc_contents cap q'"
proof -
  note d = spsc_okD [OF ok]
  have ne: "head_index q \<noteq> tail_index q"
    using n d(8) span_zero_iff [OF d(6,4)] span_zero_iff [OF d(3,4)] by auto
  have "span cap (ring_next cap (tail_index q)) (head_index q) \<le> span cap (tail_index q) (head_index q)"
    using span_next_tail [OF d(1,3,4) ne] by simp
  moreover have "span cap (ring_next cap (tail_index q)) (tail_cached q)
      \<le> span cap (ring_next cap (tail_index q)) (head_index q)"
    using span_next_tail [OF d(1,3,4) ne] span_next_tail [OF d(1,6,4)] n d(8) by auto
  ultimately show "spsc_ok cap q'"
    using d by (simp add: q'_def spsc_ok_def ring_next_less)
  show "spsc_contents cap q = buffer q ! unat (tail_index q) # spsc_contents cap q'"
    using ring_seq_read [OF d(1,3,4) ne] by (simp add: spsc_contents_def q'_def)
qed

lemma spsc_push_facts:
  assumes ok: "spsc_ok cap q"
  shows "spsc_ok cap (fst (spsc_push cap q x))"
    and "(spsc_contents cap (fst (spsc_push cap q x)), snd (spsc_push cap q x)) =
           bq_push (unat (spsc_capacity cap)) (spsc_contents cap q) x"
proof -
  obtain q1 b where f: "spsc_is_full cap q (head_index q) = (q1, b)" by fastforce
  note F = spsc_is_full_facts [OF ok f]
  have c: "unat (spsc_capacity cap) = unat cap - 1"
    using cap_ok_ge2 [OF spsc_okD(1) [OF ok]] by (simp add: spsc_capacity_def unat_sub_if' word_le_nat_alt)
  have le: "length (spsc_contents cap q) \<le> unat cap - 1"
    using span_less [OF spsc_okD(3,4) [OF ok]] by (simp add: spsc_contents_def)
  have "spsc_push cap q x = (if b then (q1, False)
      else (q1\<lparr>buffer := (buffer q1)[unat (head_index q1) := x], head_index := ring_next cap (head_index q1)\<rparr>, True))"
    by (simp add: spsc_push_def f F(6) spsc_next_def Let_def)
  then show "spsc_ok cap (fst (spsc_push cap q x))"
    and "(spsc_contents cap (fst (spsc_push cap q x)), snd (spsc_push cap q x)) =
           bq_push (unat (spsc_capacity cap)) (spsc_contents cap q) x"
    using F spsc_publish [OF F(1), of x] c le by (auto simp: le_less)
qed

lemma spsc_pop_facts:
  assumes ok: "spsc_ok cap q"
  shows "spsc_ok cap (fst (spsc_pop cap q))"
    and "(spsc_contents cap (fst (spsc_pop cap q)), snd (spsc_pop cap q)) = bq_pop (spsc_contents cap q)"
proof -
  obtain q1 b where f: "spsc_is_empty q (tail_index q) = (q1, b)" by fastforce
  note F = spsc_is_empty_facts [OF ok f]
  have "spsc_pop cap q = (if b then (q1, None)
      else (q1\<lparr>tail_index := ring_next cap (tail_index q1)\<rparr>, Some (buffer q1 ! unat (tail_index q1))))"
    by (simp add: spsc_pop_def f F(7) spsc_next_def Let_def)
  then show "spsc_ok cap (fst (spsc_pop cap q))"
    and "(spsc_contents cap (fst (spsc_pop cap q)), snd (spsc_pop cap q)) = bq_pop (spsc_contents cap q)"
    using F spsc_release [OF F(1)] by (auto split: if_splits)
qed

interpretation spsc: bounded_fifo "spsc_ok cap" "spsc_contents cap" "unat (spsc_capacity cap)"
  "spsc_push cap" "spsc_pop cap" spsc_empty "spsc_full cap" spsc_clear for cap
proof unfold_locales
  fix q :: "'a spsc_core" assume ok: "spsc_ok cap q"
  note d = spsc_okD [OF ok]
  have c: "unat (spsc_capacity cap) = unat cap - 1"
    using cap_ok_ge2 [OF d(1)] by (simp add: spsc_capacity_def unat_sub_if' word_le_nat_alt)
  show "length (spsc_contents cap q) \<le> unat (spsc_capacity cap)"
    using span_less [OF d(3,4)] by (simp add: spsc_contents_def c)
  show "spsc_empty q \<longleftrightarrow> spsc_contents cap q = []"
    unfolding spsc_empty_def spsc_contents_def ring_seq_empty [OF d(3,4)] by (rule eq_commute)
  show "spsc_full cap q \<longleftrightarrow> length (spsc_contents cap q) = unat (spsc_capacity cap)"
    using span_full_iff [OF d(1,3,4)] by (simp add: spsc_full_def spsc_next_def spsc_contents_def c)
  show "spsc_ok cap (spsc_clear q)"
    using d cap_ok_ge2 [OF d(1)] by (simp add: spsc_ok_def spsc_clear_def word_less_nat_alt)
  show "spsc_contents cap (spsc_clear q) = []"
    by (simp add: spsc_contents_def spsc_clear_def ring_seq_def)
qed (rule spsc_push_facts spsc_pop_facts; assumption)+

section \<open>Two threads\<close>

text \<open>
  The producer's \<^verbatim>\<open>push\<close> and the consumer's \<^verbatim>\<open>pop\<close> as sequences of shared-memory actions:
  the first test only reads thread-local fields and the thread's own index; then the
  opposite index is loaded when needed, the slot is written (read) and the own
  index is stored. The ghost fields record what has been published and consumed.
\<close>

datatype 'a producer_pc = PIdle | PLoad 'a | PWrite 'a | PStore 'a

datatype 'a consumer_pc = CIdle | CLoad | CRead | CStore 'a

record 'a spsc_system =
  core :: "'a spsc_core"
  ppc :: "'a producer_pc"
  cpc :: "'a consumer_pc"
  pushed :: "'a list"
  popped :: "'a list"

definition spsc_system_init :: "'a list \<Rightarrow> 'a spsc_system" where
  "spsc_system_init buf = \<lparr>core = spsc_init buf, ppc = PIdle, cpc = CIdle, pushed = [], popped = []\<rparr>"

fun producer_action :: "u64 \<Rightarrow> 'a \<Rightarrow> 'a spsc_system \<Rightarrow> 'a spsc_system" where
  "producer_action cap x s =
     (case ppc s of
        PIdle \<Rightarrow> s\<lparr>ppc := if spsc_next cap (head_index (core s)) = head_cached (core s) then PLoad x else PWrite x\<rparr>
      | PLoad y \<Rightarrow>
          (let q1 = (core s)\<lparr>head_cached := tail_index (core s)\<rparr> in
           s\<lparr>core := q1, ppc := if spsc_next cap (head_index q1) = head_cached q1 then PIdle else PWrite y\<rparr>)
      | PWrite y \<Rightarrow>
          s\<lparr>core := (core s)\<lparr>buffer := (buffer (core s))[unat (head_index (core s)) := y]\<rparr>, ppc := PStore y\<rparr>
      | PStore y \<Rightarrow>
          s\<lparr>core := (core s)\<lparr>head_index := spsc_next cap (head_index (core s))\<rparr>, ppc := PIdle,
            pushed := pushed s @ [y]\<rparr>)"

fun consumer_action :: "u64 \<Rightarrow> 'a spsc_system \<Rightarrow> 'a spsc_system" where
  "consumer_action cap s =
     (case cpc s of
        CIdle \<Rightarrow> s\<lparr>cpc := if tail_index (core s) = tail_cached (core s) then CLoad else CRead\<rparr>
      | CLoad \<Rightarrow>
          (let q1 = (core s)\<lparr>tail_cached := head_index (core s)\<rparr> in
           s\<lparr>core := q1, cpc := if tail_index q1 = tail_cached q1 then CIdle else CRead\<rparr>)
      | CRead \<Rightarrow> s\<lparr>cpc := CStore (buffer (core s) ! unat (tail_index (core s)))\<rparr>
      | CStore y \<Rightarrow>
          s\<lparr>core := (core s)\<lparr>tail_index := spsc_next cap (tail_index (core s))\<rparr>, cpc := CIdle,
            popped := popped s @ [y]\<rparr>)"

inductive spsc_reachable :: "u64 \<Rightarrow> 'a list \<Rightarrow> 'a spsc_system \<Rightarrow> bool" for cap buf where
  init: "spsc_reachable cap buf (spsc_system_init buf)"
| producer: "spsc_reachable cap buf s \<Longrightarrow> spsc_reachable cap buf (producer_action cap x s)"
| consumer: "spsc_reachable cap buf s \<Longrightarrow> spsc_reachable cap buf (consumer_action cap s)"

text \<open>
  The invariant of the two threads: past the check a thread's cached index shows room
  (an element), a written slot holds the element about to be published, and a value
  that has been read is the oldest element.
\<close>

definition spsc_system_ok :: "u64 \<Rightarrow> 'a spsc_system \<Rightarrow> bool" where
  "spsc_system_ok cap s \<longleftrightarrow> spsc_ok cap (core s) \<and>
     pushed s = popped s @ spsc_contents cap (core s) \<and>
     (case ppc s of PIdle \<Rightarrow> True | PLoad y \<Rightarrow> True
        | PWrite y \<Rightarrow> ring_next cap (head_index (core s)) \<noteq> head_cached (core s)
        | PStore y \<Rightarrow> ring_next cap (head_index (core s)) \<noteq> head_cached (core s) \<and>
            buffer (core s) ! unat (head_index (core s)) = y) \<and>
     (case cpc s of CIdle \<Rightarrow> True | CLoad \<Rightarrow> True
        | CRead \<Rightarrow> tail_index (core s) \<noteq> tail_cached (core s)
        | CStore y \<Rightarrow> tail_index (core s) \<noteq> tail_cached (core s) \<and> y = buffer (core s) ! unat (tail_index (core s)))"

lemma spsc_slot_disjoint:
  assumes ok: "spsc_ok cap c" and n: "ring_next cap (head_index c) \<noteq> head_cached c"
  shows "ring_seq cap ((buffer c)[unat (head_index c) := x]) (tail_index c) (head_index c) =
           ring_seq cap (buffer c) (tail_index c) (head_index c)"
    and "tail_index c \<noteq> tail_cached c \<Longrightarrow> head_index c \<noteq> tail_index c"
proof -
  note d = spsc_okD [OF ok]
  have ne: "ring_next cap (head_index c) \<noteq> tail_index c"
    using span_full_iff [OF d(1,3,4)] span_full_iff [OF d(1,3,5)] n d(7) span_less [OF d(3,5)] by auto
  have "ring_seq cap ((buffer c)[unat (head_index c) := x]) (tail_index c) (ring_next cap (head_index c))
      = ring_seq cap (buffer c) (tail_index c) (head_index c) @ [x]"
    using ring_seq_write [OF d(1,3,4,2) ne] .
  then have "butlast (ring_seq cap ((buffer c)[unat (head_index c) := x]) (tail_index c)
      (ring_next cap (head_index c))) = ring_seq cap (buffer c) (tail_index c) (head_index c)"
    by simp
  moreover have "butlast (ring_seq cap b (tail_index c) (ring_next cap (head_index c))) =
      ring_seq cap b (tail_index c) (head_index c)" for b :: "'a list"
    by (simp add: ring_seq_def span_next_head [OF d(1,3,4) ne])
  ultimately show "ring_seq cap ((buffer c)[unat (head_index c) := x]) (tail_index c) (head_index c) =
           ring_seq cap (buffer c) (tail_index c) (head_index c)" by simp
  show "head_index c \<noteq> tail_index c" if "tail_index c \<noteq> tail_cached c"
    using that d(8) span_zero_iff [OF d(6,4)] span_zero_iff [OF d(3,4)] by auto
qed

lemma producer_action_ok:
  assumes "spsc_system_ok cap s" shows "spsc_system_ok cap (producer_action cap x s)"
proof (cases "ppc s")
  case PIdle
  with assms show ?thesis by (auto simp: spsc_system_ok_def spsc_next_def split: consumer_pc.splits)
next
  case (PLoad y)
  have "spsc_ok cap (core s)" using assms by (simp add: spsc_system_ok_def)
  then have "spsc_ok cap ((core s)\<lparr>head_cached := tail_index (core s)\<rparr>)" by (simp add: spsc_ok_def)
  with PLoad assms show ?thesis
    by (auto simp: spsc_system_ok_def spsc_next_def spsc_contents_def Let_def split: consumer_pc.splits)
next
  case (PWrite y)
  then have ok: "spsc_ok cap (core s)" and n: "ring_next cap (head_index (core s)) \<noteq> head_cached (core s)"
    using assms by (simp_all add: spsc_system_ok_def)
  note d = spsc_okD [OF ok]
  have ne: "unat (head_index (core s)) \<noteq> unat (tail_index (core s))" if "tail_index (core s) \<noteq> tail_cached (core s)"
    using spsc_slot_disjoint(2) [OF ok n that] by (simp add: word_unat_eq_iff)
  have "spsc_ok cap ((core s)\<lparr>buffer := (buffer (core s))[unat (head_index (core s)) := y]\<rparr>)"
    using d by (simp add: spsc_ok_def)
  with PWrite assms n show ?thesis
    using spsc_slot_disjoint(1) [OF ok n, of y] ne d(2,3)
    by (auto simp: spsc_system_ok_def spsc_contents_def word_less_nat_alt split: consumer_pc.splits)
next
  case (PStore y)
  then have ok: "spsc_ok cap (core s)" and n: "ring_next cap (head_index (core s)) \<noteq> head_cached (core s)"
    and y: "buffer (core s) ! unat (head_index (core s)) = y"
    using assms by (simp_all add: spsc_system_ok_def)
  have w: "(buffer (core s))[unat (head_index (core s)) := y] = buffer (core s)"
    using y by (metis list_update_id)
  show ?thesis
    using PStore assms spsc_publish [OF ok n, of y] unfolding w
    by (auto simp: spsc_system_ok_def spsc_next_def split: consumer_pc.splits)
qed

lemma consumer_action_ok:
  assumes "spsc_system_ok cap s" shows "spsc_system_ok cap (consumer_action cap s)"
proof (cases "cpc s")
  case CIdle
  with assms show ?thesis by (auto simp: spsc_system_ok_def split: producer_pc.splits)
next
  case CLoad
  have "spsc_ok cap (core s)" using assms by (simp add: spsc_system_ok_def)
  then have "spsc_ok cap ((core s)\<lparr>tail_cached := head_index (core s)\<rparr>)" by (simp add: spsc_ok_def)
  with CLoad assms show ?thesis
    by (auto simp: spsc_system_ok_def spsc_contents_def Let_def split: producer_pc.splits)
next
  case CRead
  with assms show ?thesis by (auto simp: spsc_system_ok_def split: producer_pc.splits)
next
  case (CStore y)
  then have ok: "spsc_ok cap (core s)" and n: "tail_index (core s) \<noteq> tail_cached (core s)"
    and y: "y = buffer (core s) ! unat (tail_index (core s))"
    using assms by (simp_all add: spsc_system_ok_def)
  show ?thesis
    using CStore assms spsc_release [OF ok n] y
    by (auto simp: spsc_system_ok_def spsc_next_def split: producer_pc.splits)
qed

text \<open>Run without interference, the producer's (consumer's) actions are \<^verbatim>\<open>push\<close> (\<^verbatim>\<open>pop\<close>).\<close>

lemma producer_actions_push:
  assumes "ppc s = PIdle" and "spsc_push cap (core s) x = (q', ok)"
  shows "\<exists>n. (producer_action cap x ^^ n) s =
    s\<lparr>core := q', pushed := if ok then pushed s @ [x] else pushed s\<rparr>"
proof -
  note defs = spsc_push_def spsc_is_full_def Let_def numeral_2_eq_2 numeral_3_eq_3 eval_nat_numeral(2)
  consider "spsc_next cap (head_index (core s)) \<noteq> head_cached (core s)"
    | "spsc_next cap (head_index (core s)) = head_cached (core s)" "\<not> ok"
    | "spsc_next cap (head_index (core s)) = head_cached (core s)" "ok" by blast
  then show ?thesis
  proof cases
    case 1 with assms show ?thesis by (intro exI [of _ 3]) (auto simp: defs)
  next
    case 2 with assms show ?thesis by (intro exI [of _ 2]) (auto simp: defs split: if_splits)
  next
    case 3 with assms show ?thesis
      by (intro exI [of _ "Suc (Suc (Suc (Suc 0)))"]) (auto simp: defs split: if_splits)
  qed
qed

lemma consumer_actions_pop:
  assumes "cpc s = CIdle" and "spsc_pop cap (core s) = (q', r)"
  shows "\<exists>n. (consumer_action cap ^^ n) s =
    s\<lparr>core := q', popped := case r of None \<Rightarrow> popped s | Some y \<Rightarrow> popped s @ [y]\<rparr>"
proof -
  note defs = spsc_pop_def spsc_is_empty_def Let_def numeral_2_eq_2 numeral_3_eq_3
  consider "tail_index (core s) \<noteq> tail_cached (core s)"
    | "tail_index (core s) = tail_cached (core s)" "r = None"
    | "tail_index (core s) = tail_cached (core s)" "r \<noteq> None" by blast
  then show ?thesis
  proof cases
    case 1 with assms show ?thesis by (intro exI [of _ 3]) (auto simp: defs)
  next
    case 2 with assms show ?thesis by (intro exI [of _ 2]) (auto simp: defs split: if_splits)
  next
    case 3 with assms show ?thesis
      by (intro exI [of _ "Suc (Suc (Suc (Suc 0)))"]) (auto simp: defs split: if_splits)
  qed
qed

lemma spsc_reachable_ok:
  assumes "spsc_reachable cap buf s" and "cap_ok cap" and "length buf = unat cap"
  shows "spsc_system_ok cap s"
  using assms(1)
proof (induction rule: spsc_reachable.induct)
  case init
  show ?case using spsc_ok_init [OF assms(2,3)]
    by (simp add: spsc_system_ok_def spsc_system_init_def spsc_contents_def ring_seq_def spsc_init_def)
qed (blast intro: producer_action_ok consumer_action_ok)+

section \<open>Properties\<close>

text \<open>The queue operations implement a bounded FIFO list of \<^verbatim>\<open>Capacity - 1\<close> elements: a push
  appends or, when the list is full, fails and changes nothing; a pop removes the oldest
  element; \<^verbatim>\<open>used()\<close> and \<^verbatim>\<open>free_slots()\<close> are exact. The cached opposite indices never
  make a push fail while there is room or a pop fail while there is an element.\<close>

theorem spsc_refines_bounded_fifo:
  assumes "spsc_ok cap q"
  shows "(spsc_contents cap (fst (spsc_push cap q x)), snd (spsc_push cap q x)) =
      bq_push (unat cap - 1) (spsc_contents cap q) x \<and>
    (spsc_contents cap (fst (spsc_pop cap q)), snd (spsc_pop cap q)) = bq_pop (spsc_contents cap q) \<and>
    spsc_ok cap (fst (spsc_push cap q x)) \<and> spsc_ok cap (fst (spsc_pop cap q)) \<and>
    unat (spsc_used cap q) = length (spsc_contents cap q) \<and>
    unat (spsc_free_slots cap q) = unat cap - 1 - length (spsc_contents cap q)"
proof -
  note d = spsc_okD [OF assms]
  have c: "unat (cap - 1) = unat cap - 1"
    using cap_ok_ge2 [OF d(1)] by (simp add: unat_sub_if' word_le_nat_alt)
  have u: "unat (spsc_used cap q) = length (spsc_contents cap q)"
    using span_unat [OF d(1,3,4)] by (simp add: spsc_used_def spsc_contents_def)
  moreover have "unat (spsc_free_slots cap q) = unat cap - 1 - length (spsc_contents cap q)"
    using u c span_less [OF d(3,4)]
    by (simp add: spsc_free_slots_def unat_sub_if' word_le_nat_alt spsc_contents_def)
  ultimately show ?thesis
    using spsc.enq_spec [OF assms, of x] spsc.deq_spec [OF assms] spsc.enq_inv [OF assms, of x]
      spsc.deq_inv [OF assms] c by (simp add: spsc_capacity_def)
qed

definition demo_spsc :: "nat spsc_core" where
  "demo_spsc = fst (spsc_push 4 (spsc_init [0, 0, 0, 0]) 7)"

lemma cap_ok_4: "cap_ok 4"
  by (auto simp: cap_ok_def intro!: exI [of _ 2])

lemma demo_spsc_ok: "spsc_ok 4 demo_spsc"
  unfolding demo_spsc_def by (intro spsc.enq_inv spsc_ok_init cap_ok_4) simp

theorem spsc_refines_bounded_fifo_witness:
  "snd (spsc_pop 4 (fst (spsc_push 4 demo_spsc 8))) = Some 7 \<and> unat (spsc_used 4 demo_spsc) = 1"
proof -
  have "spsc_contents 4 demo_spsc = [7]" by code_simp
  with spsc_refines_bounded_fifo [OF demo_spsc_ok, of 8]
    spsc_refines_bounded_fifo [OF spsc.enq_inv [OF demo_spsc_ok], of 8 0]
  show ?thesis by simp
qed

text \<open>C13: with one producer thread and one consumer thread interleaved in any way at the
  granularity of their shared-memory accesses, the elements consumed and the elements in
  the queue are together exactly the elements published, in order (nothing is lost,
  duplicated or reordered); the queue never overflows; and a slot the producer is about to
  write is never one the consumer is about to read.\<close>

theorem spsc_threads_fifo:
  assumes "cap_ok cap" and "length buf = unat cap" and "spsc_reachable cap buf s"
  shows "pushed s = popped s @ spsc_contents cap (core s) \<and>
    length (spsc_contents cap (core s)) \<le> unat cap - 1 \<and>
    (\<forall>y. ppc s = PWrite y \<and> cpc s = CRead \<longrightarrow> head_index (core s) \<noteq> tail_index (core s))"
proof -
  have ok: "spsc_system_ok cap s" using spsc_reachable_ok [OF assms(3,1,2)] .
  then have ok': "spsc_ok cap (core s)" by (simp add: spsc_system_ok_def)
  have "head_index (core s) \<noteq> tail_index (core s)" if "ppc s = PWrite y" "cpc s = CRead" for y
    using ok that spsc_slot_disjoint(2) [OF ok'] by (simp add: spsc_system_ok_def)
  then show ?thesis
    using ok span_less [OF spsc_okD(3,4) [OF ok']] by (auto simp: spsc_system_ok_def spsc_contents_def)
qed

definition demo_spsc_system :: "nat spsc_system" where
  "demo_spsc_system = (consumer_action 4 \<circ> producer_action 4 9 \<circ> consumer_action 4 \<circ> consumer_action 4 \<circ>
     producer_action 4 8 \<circ> producer_action 4 8 \<circ> producer_action 4 8) (spsc_system_init [0, 0, 0, 0])"

theorem spsc_threads_fifo_witness:
  "pushed demo_spsc_system = [8] \<and> popped demo_spsc_system @ spsc_contents 4 (core demo_spsc_system) = [8]"
proof -
  have "spsc_reachable 4 [0, 0, 0, 0] demo_spsc_system"
    unfolding demo_spsc_system_def o_apply
    by (intro spsc_reachable.init spsc_reachable.producer spsc_reachable.consumer)
  moreover have "pushed demo_spsc_system = [8]" by code_simp
  moreover have "length [0 :: nat, 0, 0, 0] = unat (4 :: u64)" by simp
  ultimately show ?thesis using spsc_threads_fifo [OF cap_ok_4] by metis
qed

end
