(* ===== verification/Spsc_Ring.thy ===== *)
theory Spsc_Ring
  imports Spsc_Queue
begin

text \<open>
  The zero-copy interface of the same core (spsc_ring.hpp): a slot is acquired, written in
  place, then committed or discarded; a slot is peeked, read in place, then released; and
  the batch variants. The debug build's flags are part of the model: \<open>None\<close> is a failed
  \<^verbatim>\<open>LCR_ASSERT\<close>. A slot pointer is its index.
\<close>

section \<open>Operations\<close>

record 'a spsc_ring =
  ring_core :: "'a spsc_core"
  producer_slot_acquired :: bool
  consumer_slot_acquired :: bool

definition spsc_advance_head :: "u64 \<Rightarrow> 'a spsc_core \<Rightarrow> u64 \<Rightarrow> 'a spsc_core" where
  "spsc_advance_head cap q n = q\<lparr>head_index := (head_index q + n) AND (cap - 1)\<rparr>"

definition spsc_advance_tail :: "u64 \<Rightarrow> 'a spsc_core \<Rightarrow> u64 \<Rightarrow> 'a spsc_core" where
  "spsc_advance_tail cap q n = q\<lparr>tail_index := (tail_index q + n) AND (cap - 1)\<rparr>"

definition spsc_has_free_slots :: "u64 \<Rightarrow> 'a spsc_core \<Rightarrow> u64 \<Rightarrow> u64 \<Rightarrow> 'a spsc_core \<times> bool" where
  "spsc_has_free_slots cap q head n =
     (let available = (head_cached q - head - 1) AND (cap - 1) in
      if available < n then
        (let q1 = q\<lparr>head_cached := tail_index q\<rparr>; available1 = (head_cached q1 - head - 1) AND (cap - 1)
         in (q1, available1 \<ge> n))
      else (q, available \<ge> n))"

definition spsc_has_available :: "u64 \<Rightarrow> 'a spsc_core \<Rightarrow> u64 \<Rightarrow> u64 \<Rightarrow> 'a spsc_core \<times> bool" where
  "spsc_has_available cap q tail n =
     (let available = (tail_cached q - tail) AND (cap - 1) in
      if available < n then
        (let q1 = q\<lparr>tail_cached := head_index q\<rparr>; available1 = (tail_cached q1 - tail) AND (cap - 1)
         in (q1, available1 \<ge> n))
      else (q, available \<ge> n))"

definition acquire_producer_slot :: "u64 \<Rightarrow> 'a spsc_ring \<Rightarrow> ('a spsc_ring \<times> u64 option) option" where
  "acquire_producer_slot cap r =
     (let head = head_index (ring_core r); (q1, full) = spsc_is_full cap (ring_core r) head;
          r1 = r\<lparr>ring_core := q1\<rparr> in
      if full then Some (r1, None)
      else if producer_slot_acquired r1 then None
      else Some (r1\<lparr>producer_slot_acquired := True\<rparr>, Some head))"

definition commit_producer_slot :: "u64 \<Rightarrow> 'a spsc_ring \<Rightarrow> 'a spsc_ring option" where
  "commit_producer_slot cap r =
     (if \<not> producer_slot_acquired r then None
      else Some (r\<lparr>producer_slot_acquired := False,
        ring_core := (ring_core r)\<lparr>head_index := spsc_next cap (head_index (ring_core r))\<rparr>\<rparr>))"

definition discard_producer_slot :: "'a spsc_ring \<Rightarrow> 'a spsc_ring option" where
  "discard_producer_slot r =
     (if \<not> producer_slot_acquired r then None else Some (r\<lparr>producer_slot_acquired := False\<rparr>))"

definition peek_consumer_slot :: "'a spsc_ring \<Rightarrow> ('a spsc_ring \<times> u64 option) option" where
  "peek_consumer_slot r =
     (let tail = tail_index (ring_core r); (q1, empty) = spsc_is_empty (ring_core r) tail;
          r1 = r\<lparr>ring_core := q1\<rparr> in
      if empty then Some (r1, None)
      else if consumer_slot_acquired r1 then None
      else Some (r1\<lparr>consumer_slot_acquired := True\<rparr>, Some tail))"

definition release_consumer_slot :: "u64 \<Rightarrow> 'a spsc_ring \<Rightarrow> 'a spsc_ring option" where
  "release_consumer_slot cap r =
     (if \<not> consumer_slot_acquired r then None
      else Some (r\<lparr>consumer_slot_acquired := False,
        ring_core := (ring_core r)\<lparr>tail_index := spsc_next cap (tail_index (ring_core r))\<rparr>\<rparr>))"

definition try_acquire_producer_batch ::
  "u64 \<Rightarrow> 'a spsc_ring \<Rightarrow> u64 \<Rightarrow> ('a spsc_ring \<times> u64 option) option" where
  "try_acquire_producer_batch cap r n =
     (let h = head_index (ring_core r); (q1, ok) = spsc_has_free_slots cap (ring_core r) h n;
          r1 = r\<lparr>ring_core := q1\<rparr> in
      if \<not> ok then Some (r1, None)
      else if producer_slot_acquired r1 then None
      else Some (r1\<lparr>producer_slot_acquired := True\<rparr>, Some h))"

definition batch_slot :: "u64 \<Rightarrow> u64 \<Rightarrow> u64 \<Rightarrow> u64" where
  "batch_slot cap start offset = (start + offset) AND (cap - 1)"

definition commit_producer_batch :: "u64 \<Rightarrow> 'a spsc_ring \<Rightarrow> u64 \<Rightarrow> 'a spsc_ring option" where
  "commit_producer_batch cap r n =
     (if \<not> producer_slot_acquired r then None
      else Some (r\<lparr>producer_slot_acquired := False, ring_core := spsc_advance_head cap (ring_core r) n\<rparr>))"

definition try_acquire_consumer_batch ::
  "u64 \<Rightarrow> 'a spsc_ring \<Rightarrow> u64 \<Rightarrow> ('a spsc_ring \<times> u64 option) option" where
  "try_acquire_consumer_batch cap r n =
     (let t = tail_index (ring_core r); (q1, ok) = spsc_has_available cap (ring_core r) t n;
          r1 = r\<lparr>ring_core := q1\<rparr> in
      if \<not> ok then Some (r1, None)
      else if consumer_slot_acquired r1 then None
      else Some (r1\<lparr>consumer_slot_acquired := True\<rparr>, Some t))"

definition release_consumer_batch :: "u64 \<Rightarrow> 'a spsc_ring \<Rightarrow> u64 \<Rightarrow> 'a spsc_ring option" where
  "release_consumer_batch cap r n =
     (if \<not> consumer_slot_acquired r then None
      else Some (r\<lparr>consumer_slot_acquired := False, ring_core := spsc_advance_tail cap (ring_core r) n\<rparr>))"

definition spsc_ring_clear :: "'a spsc_ring \<Rightarrow> 'a spsc_ring" where
  "spsc_ring_clear r = r\<lparr>ring_core := spsc_clear (ring_core r), producer_slot_acquired := False,
     consumer_slot_acquired := False\<rparr>"

text \<open>The client's write through a slot pointer, and its two-phase transactions.\<close>

definition slot_write :: "'a spsc_ring \<Rightarrow> u64 \<Rightarrow> 'a \<Rightarrow> 'a spsc_ring" where
  "slot_write r i x = r\<lparr>ring_core := (ring_core r)\<lparr>buffer := (buffer (ring_core r))[unat i := x]\<rparr>\<rparr>"

fun slot_write_batch :: "u64 \<Rightarrow> 'a spsc_ring \<Rightarrow> u64 \<Rightarrow> u64 \<Rightarrow> 'a list \<Rightarrow> 'a spsc_ring" where
  "slot_write_batch cap r start offset [] = r"
| "slot_write_batch cap r start offset (x # xs) =
     slot_write_batch cap (slot_write r (batch_slot cap start offset) x) start (offset + 1) xs"

definition produce_one :: "u64 \<Rightarrow> 'a spsc_ring \<Rightarrow> 'a \<Rightarrow> ('a spsc_ring \<times> bool) option" where
  "produce_one cap r x = (case acquire_producer_slot cap r of
      None \<Rightarrow> None
    | Some (r1, None) \<Rightarrow> Some (r1, False)
    | Some (r1, Some i) \<Rightarrow> map_option (\<lambda>r2. (r2, True)) (commit_producer_slot cap (slot_write r1 i x)))"

definition consume_one :: "u64 \<Rightarrow> 'a spsc_ring \<Rightarrow> ('a spsc_ring \<times> 'a option) option" where
  "consume_one cap r = (case peek_consumer_slot r of
      None \<Rightarrow> None
    | Some (r1, None) \<Rightarrow> Some (r1, None)
    | Some (r1, Some i) \<Rightarrow>
        map_option (\<lambda>r2. (r2, Some (buffer (ring_core r1) ! unat i))) (release_consumer_slot cap r1))"

definition produce_batch :: "u64 \<Rightarrow> 'a spsc_ring \<Rightarrow> 'a list \<Rightarrow> ('a spsc_ring \<times> bool) option" where
  "produce_batch cap r xs = (case try_acquire_producer_batch cap r (of_nat (length xs)) of
      None \<Rightarrow> None
    | Some (r1, None) \<Rightarrow> Some (r1, False)
    | Some (r1, Some i) \<Rightarrow> map_option (\<lambda>r2. (r2, True))
        (commit_producer_batch cap (slot_write_batch cap r1 i 0 xs) (of_nat (length xs))))"

definition consume_batch :: "u64 \<Rightarrow> 'a spsc_ring \<Rightarrow> nat \<Rightarrow> ('a spsc_ring \<times> 'a list option) option" where
  "consume_batch cap r n = (case try_acquire_consumer_batch cap r (of_nat n) of
      None \<Rightarrow> None
    | Some (r1, None) \<Rightarrow> Some (r1, None)
    | Some (r1, Some i) \<Rightarrow> map_option
        (\<lambda>r2. (r2, Some (map (\<lambda>j. buffer (ring_core r1) ! unat (batch_slot cap i (of_nat j))) [0..<n])))
        (release_consumer_batch cap r1 (of_nat n)))"

section \<open>Batches of slots\<close>

text \<open>Between transactions no slot is held.\<close>

definition spsc_ring_ok :: "u64 \<Rightarrow> 'a spsc_ring \<Rightarrow> bool" where
  "spsc_ring_ok cap r \<longleftrightarrow> spsc_ok cap (ring_core r) \<and> \<not> producer_slot_acquired r \<and> \<not> consumer_slot_acquired r"

lemma batch_slot_Suc:
  assumes "cap_ok cap"
  shows "batch_slot cap v (n + 1) = ring_next cap (batch_slot cap v n)"
proof (rule word_unat_eq_iff [THEN iffD2])
  have "unat (ring_next cap (batch_slot cap v n)) = ((unat v + unat n) mod unat cap + 1) mod unat cap"
    using unat_advance [OF assms, of "batch_slot cap v n" 1]
    by (simp add: ring_next_def batch_slot_def unat_advance [OF assms])
  also have "\<dots> = (unat v + unat n + 1) mod unat cap" by (simp add: mod_Suc_eq)
  also have "\<dots> = unat (batch_slot cap v (n + 1))"
    using unat_masked [OF assms, of "v + (n + 1)"] cap_dvd [OF assms]
    by (simp add: batch_slot_def unat_word_ariths mod_mod_cancel mod_add_right_eq add.assoc)
  finally show "unat (batch_slot cap v (n + 1)) = unat (ring_next cap (batch_slot cap v n))" ..
qed

lemma batch_slot_0: "cap_ok cap \<Longrightarrow> v < cap \<Longrightarrow> batch_slot cap v 0 = v"
  using unat_advance [of cap v 0] by (simp add: batch_slot_def word_unat_eq_iff word_less_nat_alt)

lemma batch_slot_less: "cap_ok cap \<Longrightarrow> batch_slot cap v n < cap"
  using cap_ok_ge2 [of cap] by (simp add: batch_slot_def word_less_nat_alt unat_masked)

lemma batch_slot_of_nat_Suc:
  "cap_ok cap \<Longrightarrow> batch_slot cap v (of_nat (Suc n)) = ring_next cap (batch_slot cap v (of_nat n))"
  using batch_slot_Suc [of cap v "of_nat n"] by (simp add: add.commute)

lemma span_advance:
  assumes "cap_ok cap" "h < cap" "t < cap" "span cap t h + n < unat cap"
  shows "span cap t (batch_slot cap h (of_nat n)) = span cap t h + n"
  using assms(4)
proof (induction n)
  case 0
  then show ?case using assms by (simp add: batch_slot_0)
next
  case (Suc n)
  note b = batch_slot_less [OF assms(1), of h "of_nat n"]
  have ih: "span cap t (batch_slot cap h (of_nat n)) = span cap t h + n" using Suc by simp
  then have "ring_next cap (batch_slot cap h (of_nat n)) \<noteq> t"
    using Suc.prems span_full_iff [OF assms(1) b assms(3)] by simp
  then show ?case
    using span_next_head [OF assms(1) b assms(3)] ih batch_slot_of_nat_Suc [OF assms(1)] by simp
qed

lemma ring_seq_advance_tail:
  assumes "cap_ok cap" "h < cap" "t < cap" "n \<le> span cap t h"
  shows "span cap (batch_slot cap t (of_nat n)) h = span cap t h - n \<and>
    ring_seq cap buf t h = map (\<lambda>j. buf ! unat (batch_slot cap t (of_nat j))) [0..<n] @
      ring_seq cap buf (batch_slot cap t (of_nat n)) h"
  using assms(4)
proof (induction n)
  case 0
  then show ?case using assms by (simp add: batch_slot_0)
next
  case (Suc n)
  note b = batch_slot_less [OF assms(1), of t "of_nat n"]
  have ih: "span cap (batch_slot cap t (of_nat n)) h = span cap t h - n"
    "ring_seq cap buf t h = map (\<lambda>j. buf ! unat (batch_slot cap t (of_nat j))) [0..<n] @
      ring_seq cap buf (batch_slot cap t (of_nat n)) h" using Suc by simp_all
  have ne: "h \<noteq> batch_slot cap t (of_nat n)"
    using ih(1) Suc.prems span_zero_iff [OF assms(2) b] by simp
  show ?case
    using ring_seq_read [OF assms(1,2) b ne, of buf] span_next_tail [OF assms(1,2) b ne] ih
      batch_slot_of_nat_Suc [OF assms(1), of t n] Suc.prems
    by (simp del: of_nat_Suc)
qed

lemma slot_write_batch_facts:
  assumes "cap_ok cap" "t < cap" "length (buffer (ring_core r)) = unat cap"
    "span cap t (batch_slot cap start off) + length xs < unat cap"
  shows "\<exists>buf. slot_write_batch cap r start off xs = r\<lparr>ring_core := (ring_core r)\<lparr>buffer := buf\<rparr>\<rparr> \<and>
    length buf = unat cap \<and>
    ring_seq cap buf t (batch_slot cap start (off + of_nat (length xs))) =
      ring_seq cap (buffer (ring_core r)) t (batch_slot cap start off) @ xs"
  using assms(3,4)
proof (induction xs arbitrary: r off)
  case Nil
  then show ?case by (intro exI [of _ "buffer (ring_core r)"]) simp
next
  case (Cons x xs)
  let ?h = "batch_slot cap start off"
  let ?r = "slot_write r ?h x"
  note b = batch_slot_less [OF assms(1), of start off]
  have ne: "ring_next cap ?h \<noteq> t"
    using Cons.prems(2) span_full_iff [OF assms(1) b assms(2)] by simp
  have h: "batch_slot cap start (off + 1) = ring_next cap ?h" using batch_slot_Suc [OF assms(1)] .
  have w: "ring_seq cap (buffer (ring_core ?r)) t (ring_next cap ?h) =
      ring_seq cap (buffer (ring_core r)) t ?h @ [x]"
    using ring_seq_write [OF assms(1) b assms(2) Cons.prems(1) ne] by (simp add: slot_write_def)
  have l: "length (buffer (ring_core ?r)) = unat cap" using Cons.prems(1) by (simp add: slot_write_def)
  have sp: "span cap t (batch_slot cap start (off + 1)) + length xs < unat cap"
    using Cons.prems(2) span_next_head [OF assms(1) b assms(2) ne] h by simp
  from Cons.IH [OF l sp] w h show ?case by (auto simp: slot_write_def add.assoc)
qed

lemma unat_available:
  assumes "cap_ok cap" "a < cap" "b < cap"
  shows "unat ((a - b - 1) AND (cap - 1)) = unat cap - 1 - span cap a b"
proof -
  obtain k where k: "cap = 2 ^ k" "unat cap = 2 ^ k" "k < 64" using assms(1) by (rule cap_ok_cases)
  have m: "x AND (cap - 1) = take_bit k x" for x
    by (simp add: k(1) take_bit_eq_mask mask_eq_exp_minus_1)
  have "a - b - 1 = NOT (b - a)" by (simp add: not_eq_complement)
  then have "(a - b - 1) AND (cap - 1) = mask k - ((b - a) AND (cap - 1))"
    unfolding m by (simp add: take_bit_not_eq_mask_diff)
  moreover have "(b - a) AND (cap - 1) \<le> mask k"
    unfolding m by (simp add: take_bit_eq_mask word_and_le1)
  moreover have "unat (mask k :: u64) = unat cap - 1"
    using k unat_sub_if' [of cap 1] cap_ok_ge2 [OF assms(1)]
    by (simp add: mask_eq_exp_minus_1 word_le_nat_alt)
  moreover have "unat ((b - a) AND (cap - 1)) = span cap a b"
    using unat_distance [OF assms(1,3,2)] by (simp add: span_def)
  ultimately show ?thesis by (simp add: unat_sub_if' word_le_nat_alt)
qed

section \<open>The transactions\<close>

definition ring_contents :: "u64 \<Rightarrow> 'a spsc_ring \<Rightarrow> 'a list" where
  "ring_contents cap r = spsc_contents cap (ring_core r)"

lemma produce_one_facts:
  assumes "spsc_ring_ok cap r"
  shows "\<exists>r'. produce_one cap r x = Some (r', length (ring_contents cap r) < unat cap - 1) \<and>
    spsc_ring_ok cap r' \<and> ring_contents cap r' = fst (bq_push (unat cap - 1) (ring_contents cap r) x)"
proof -
  have ok: "spsc_ok cap (ring_core r)" using assms by (simp add: spsc_ring_ok_def)
  obtain q1 b where f: "spsc_is_full cap (ring_core r) (head_index (ring_core r)) = (q1, b)" by fastforce
  note F = spsc_is_full_facts [OF ok f]
  have le: "length (spsc_contents cap (ring_core r)) \<le> unat cap - 1"
    using span_less [OF spsc_okD(3,4) [OF ok]] by (simp add: spsc_contents_def)
  show ?thesis
  proof (cases b)
    case True
    then show ?thesis using assms F
      by (simp add: produce_one_def acquire_producer_slot_def f Let_def spsc_ring_ok_def ring_contents_def)
  next
    case False
    then have "ring_next cap (head_index q1) \<noteq> head_cached q1" using F(4,6) by simp
    from spsc_publish [OF F(1) this, of x] False F assms le show ?thesis
      by (simp add: produce_one_def acquire_producer_slot_def commit_producer_slot_def slot_write_def f
          Let_def spsc_ring_ok_def ring_contents_def spsc_next_def le_less)
  qed
qed

lemma consume_one_facts:
  assumes "spsc_ring_ok cap r"
  shows "\<exists>r'. consume_one cap r = Some (r', snd (bq_pop (ring_contents cap r))) \<and>
    spsc_ring_ok cap r' \<and> ring_contents cap r' = fst (bq_pop (ring_contents cap r))"
proof -
  have ok: "spsc_ok cap (ring_core r)" using assms by (simp add: spsc_ring_ok_def)
  obtain q1 b where f: "spsc_is_empty (ring_core r) (tail_index (ring_core r)) = (q1, b)" by fastforce
  note F = spsc_is_empty_facts [OF ok f]
  show ?thesis
  proof (cases b)
    case True
    then show ?thesis using assms F
      by (simp add: consume_one_def peek_consumer_slot_def f Let_def spsc_ring_ok_def ring_contents_def)
  next
    case False
    then have "tail_index q1 \<noteq> tail_cached q1" using F(4,7) by simp
    from spsc_release [OF F(1) this] False F assms show ?thesis
      by (simp add: consume_one_def peek_consumer_slot_def release_consumer_slot_def f
          Let_def spsc_ring_ok_def ring_contents_def spsc_next_def)
  qed
qed

lemma spsc_has_free_slots_facts:
  assumes ok: "spsc_ok cap q" and f: "spsc_has_free_slots cap q (head_index q) n = (q1, b)"
  shows "spsc_ok cap q1" "buffer q1 = buffer q" "head_index q1 = head_index q" "tail_index q1 = tail_index q"
    and "b \<longleftrightarrow> span cap (tail_index q) (head_index q) + unat n \<le> unat cap - 1"
    and "b \<Longrightarrow> span cap (head_cached q1) (head_index q) + unat n \<le> unat cap - 1"
proof -
  note d = spsc_okD [OF ok]
  note a = unat_available [OF d(1) _ d(3)]
  have l: "span cap t (head_index q) \<le> unat cap - 1" if "t < cap" for t
    using span_less [OF d(3) that] by simp
  show "spsc_ok cap q1" using f d by (auto simp: spsc_has_free_slots_def spsc_ok_def Let_def split: if_splits)
  show "b \<longleftrightarrow> span cap (tail_index q) (head_index q) + unat n \<le> unat cap - 1"
    and "b \<Longrightarrow> span cap (head_cached q1) (head_index q) + unat n \<le> unat cap - 1"
    using f d(7) a [OF d(4)] a [OF d(5)] l [OF d(4)] l [OF d(5)]
    by (auto simp: spsc_has_free_slots_def Let_def word_less_nat_alt word_le_nat_alt split: if_splits)
qed (use f in \<open>auto simp: spsc_has_free_slots_def Let_def split: if_splits\<close>)

lemma spsc_has_available_facts:
  assumes ok: "spsc_ok cap q" and f: "spsc_has_available cap q (tail_index q) n = (q1, b)"
  shows "spsc_ok cap q1" "buffer q1 = buffer q" "head_index q1 = head_index q" "tail_index q1 = tail_index q"
    and "b \<longleftrightarrow> unat n \<le> span cap (tail_index q) (head_index q)"
    and "b \<Longrightarrow> unat n \<le> span cap (tail_index q) (tail_cached q1)"
proof -
  note d = spsc_okD [OF ok]
  note a = span_unat [OF d(1) _ d(4), unfolded ring_used_def]
  show "spsc_ok cap q1" using f d by (auto simp: spsc_has_available_def spsc_ok_def Let_def split: if_splits)
  show "b \<longleftrightarrow> unat n \<le> span cap (tail_index q) (head_index q)"
    and "b \<Longrightarrow> unat n \<le> span cap (tail_index q) (tail_cached q1)"
    using f d(8) a [OF d(3)] a [OF d(6)]
    by (auto simp: spsc_has_available_def Let_def word_less_nat_alt word_le_nat_alt split: if_splits)
qed (use f in \<open>auto simp: spsc_has_available_def Let_def split: if_splits\<close>)

lemma produce_batch_facts:
  assumes rok: "spsc_ring_ok cap r" and n: "length xs < 2 ^ 64"
  shows "\<exists>r'. produce_batch cap r xs =
      Some (r', length (ring_contents cap r) + length xs \<le> unat cap - 1) \<and> spsc_ring_ok cap r' \<and>
    ring_contents cap r' = (if length (ring_contents cap r) + length xs \<le> unat cap - 1
      then ring_contents cap r @ xs else ring_contents cap r)"
proof -
  have ok: "spsc_ok cap (ring_core r)" using rok by (simp add: spsc_ring_ok_def)
  let ?n = "of_nat (length xs) :: u64"
  have un: "unat ?n = length xs" using n by (simp add: unsigned_of_nat take_bit_nat_eq_self)
  obtain q1 b where f: "spsc_has_free_slots cap (ring_core r) (head_index (ring_core r)) ?n = (q1, b)"
    by fastforce
  note F = spsc_has_free_slots_facts [OF ok f, unfolded un]
  note d = spsc_okD [OF F(1)]
  have c: "spsc_contents cap q1 = ring_contents cap r" using F by (simp add: spsc_contents_def ring_contents_def)
  show ?thesis
  proof (cases b)
    case False
    then show ?thesis using rok F c
      by (auto simp: produce_batch_def try_acquire_producer_batch_def f Let_def spsc_ring_ok_def
          ring_contents_def spsc_contents_def)
  next
    case True
    let ?r1 = "r\<lparr>ring_core := q1, producer_slot_acquired := True\<rparr>"
    have z: "batch_slot cap (head_index q1) 0 = head_index q1" using batch_slot_0 [OF d(1,3)] .
    have room: "span cap (tail_index q1) (head_index q1) + length xs < unat cap"
      "span cap (head_cached q1) (head_index q1) + length xs < unat cap"
      using F(3-6) True cap_ok_ge2 [OF d(1)] by auto
    obtain buf where w: "slot_write_batch cap ?r1 (head_index q1) 0 xs =
        ?r1\<lparr>ring_core := (ring_core ?r1)\<lparr>buffer := buf\<rparr>\<rparr>" "length buf = unat cap"
      "ring_seq cap buf (tail_index q1) (batch_slot cap (head_index q1) ?n) =
        ring_seq cap (buffer q1) (tail_index q1) (head_index q1) @ xs"
      using slot_write_batch_facts [OF d(1,4), of ?r1 "head_index q1" 0 xs] d(2) room(1) z by auto
    let ?q2 = "q1\<lparr>buffer := buf, head_index := batch_slot cap (head_index q1) ?n\<rparr>"
    have "spsc_ok cap ?q2"
      using d w(2) batch_slot_less [OF d(1)] span_advance [OF d(1,3,4) room(1)]
        span_advance [OF d(1,3,5) room(2)] by (simp add: spsc_ok_def)
    with True w F c rok show ?thesis
      by (simp add: produce_batch_def try_acquire_producer_batch_def commit_producer_batch_def
          spsc_advance_head_def batch_slot_def f Let_def spsc_ring_ok_def ring_contents_def spsc_contents_def)
  qed
qed

lemma consume_batch_facts:
  assumes rok: "spsc_ring_ok cap r" and n: "n < 2 ^ 64"
  shows "\<exists>r'. consume_batch cap r n = Some (r', if n \<le> length (ring_contents cap r)
      then Some (take n (ring_contents cap r)) else None) \<and> spsc_ring_ok cap r' \<and>
    ring_contents cap r' = (if n \<le> length (ring_contents cap r)
      then drop n (ring_contents cap r) else ring_contents cap r)"
proof -
  have ok: "spsc_ok cap (ring_core r)" using rok by (simp add: spsc_ring_ok_def)
  let ?n = "of_nat n :: u64"
  have un: "unat ?n = n" using n by (simp add: unsigned_of_nat take_bit_nat_eq_self)
  obtain q1 b where f: "spsc_has_available cap (ring_core r) (tail_index (ring_core r)) ?n = (q1, b)"
    by fastforce
  note F = spsc_has_available_facts [OF ok f, unfolded un]
  note d = spsc_okD [OF F(1)]
  have c: "spsc_contents cap q1 = ring_contents cap r" using F by (simp add: spsc_contents_def ring_contents_def)
  show ?thesis
  proof (cases b)
    case False
    then show ?thesis using rok F c
      by (auto simp: consume_batch_def try_acquire_consumer_batch_def f Let_def spsc_ring_ok_def
          ring_contents_def spsc_contents_def)
  next
    case True
    let ?t = "batch_slot cap (tail_index q1) ?n"
    have m: "n \<le> span cap (tail_index q1) (head_index q1)" "n \<le> span cap (tail_index q1) (tail_cached q1)"
      using F(3-6) True by simp_all
    note R = ring_seq_advance_tail [OF d(1,3,4) m(1), of "buffer q1"]
    note C = ring_seq_advance_tail [OF d(1,6,4) m(2), of "buffer q1"]
    have hc: "span cap ?t (head_index q1) \<le> span cap (head_cached q1) (head_index q1)"
      using R d(7) by simp
    have "spsc_ok cap (q1\<lparr>tail_index := ?t\<rparr>)"
      using d batch_slot_less [OF d(1)] R C hc by (auto simp: spsc_ok_def)
    moreover have "take n (spsc_contents cap q1) =
        map (\<lambda>j. buffer q1 ! unat (batch_slot cap (tail_index q1) (of_nat j))) [0..<n]"
      "drop n (spsc_contents cap q1) = ring_seq cap (buffer q1) ?t (head_index q1)"
      using R by (simp_all add: spsc_contents_def)
    ultimately show ?thesis using True F c rok
      by (simp add: consume_batch_def try_acquire_consumer_batch_def release_consumer_batch_def
          spsc_advance_tail_def batch_slot_def f Let_def spsc_ring_ok_def ring_contents_def spsc_contents_def)
  qed
qed

section \<open>Properties\<close>

text \<open>The zero-copy transactions are atomic queue operations. Acquire-write-commit is a
  bounded FIFO push and peek-read-release a pop; a batch of any length is published as a
  whole, in order, or not at all, and a batch of \<open>n\<close> elements is consumed as a whole or not
  at all. No transaction that starts with no slot held fails a debug assertion, and
  each one ends with no slot held.\<close>

theorem spsc_ring_transactions:
  assumes "spsc_ring_ok cap r" and "length xs < 2 ^ 64" and "n < 2 ^ 64"
  shows "(\<exists>r'. produce_one cap r x = Some (r', length (ring_contents cap r) < unat cap - 1) \<and>
      spsc_ring_ok cap r' \<and> ring_contents cap r' = fst (bq_push (unat cap - 1) (ring_contents cap r) x)) \<and>
    (\<exists>r'. consume_one cap r = Some (r', snd (bq_pop (ring_contents cap r))) \<and>
      spsc_ring_ok cap r' \<and> ring_contents cap r' = fst (bq_pop (ring_contents cap r))) \<and>
    (\<exists>r'. produce_batch cap r xs = Some (r', length (ring_contents cap r) + length xs \<le> unat cap - 1) \<and>
      spsc_ring_ok cap r' \<and> ring_contents cap r' =
        (if length (ring_contents cap r) + length xs \<le> unat cap - 1
         then ring_contents cap r @ xs else ring_contents cap r)) \<and>
    (\<exists>r'. consume_batch cap r n = Some (r', if n \<le> length (ring_contents cap r)
        then Some (take n (ring_contents cap r)) else None) \<and>
      spsc_ring_ok cap r' \<and> ring_contents cap r' =
        (if n \<le> length (ring_contents cap r) then drop n (ring_contents cap r) else ring_contents cap r))"
  using produce_one_facts [OF assms(1)] consume_one_facts [OF assms(1)]
    produce_batch_facts [OF assms(1,2)] consume_batch_facts [OF assms(1,3)] by blast

definition demo_ring :: "nat spsc_ring" where
  "demo_ring = \<lparr>ring_core = spsc_init [0, 0, 0, 0], producer_slot_acquired = False,
     consumer_slot_acquired = False\<rparr>"

theorem spsc_ring_transactions_witness:
  "\<exists>r'. produce_batch 4 demo_ring [5, 6, 7] = Some (r', True) \<and> ring_contents 4 r' = [5, 6, 7]"
proof -
  have ok: "spsc_ring_ok 4 demo_ring"
    using spsc_ok_init [OF cap_ok_4, of "[0 :: nat, 0, 0, 0]"] by (simp add: spsc_ring_ok_def demo_ring_def)
  have "ring_contents 4 demo_ring = []"
    by (simp add: demo_ring_def ring_contents_def spsc_contents_def spsc_init_def ring_seq_def)
  with spsc_ring_transactions [OF ok, of "[5, 6, 7]" 2 0] show ?thesis by auto
qed

end
