(* ===== verification/Local_Queue.thy ===== *)
theory Local_Queue
  imports Bounded_Queue
begin

text \<open>
  The single-threaded containers of \<^verbatim>\<open>lcr::local\<close>: \<^verbatim>\<open>queue\<close> (queue.hpp) with values and
  \<^verbatim>\<open>ring\<close> (ring.hpp) with the acquire-commit protocol, the container of the request
  scheduler. \<open>None\<close> is a failed \<^verbatim>\<open>LCR_ASSERT\<close> of the debug build.
\<close>

section \<open>lcr::local::queue\<close>

record 'a local_queue =
  lq_buffer :: "'a list"
  lq_head :: u64
  lq_tail :: u64

definition lq_push :: "u64 \<Rightarrow> 'a local_queue \<Rightarrow> 'a \<Rightarrow> 'a local_queue \<times> bool" where
  "lq_push cap q item =
     (let next_val = ring_next cap (lq_head q) in
      if next_val = lq_tail q then (q, False)
      else (q\<lparr>lq_buffer := (lq_buffer q)[unat (lq_head q) := item], lq_head := next_val\<rparr>, True))"

definition lq_pop :: "u64 \<Rightarrow> 'a local_queue \<Rightarrow> 'a local_queue \<times> 'a option" where
  "lq_pop cap q =
     (if lq_tail q = lq_head q then (q, None)
      else (q\<lparr>lq_tail := ring_next cap (lq_tail q)\<rparr>, Some (lq_buffer q ! unat (lq_tail q))))"

definition lq_empty :: "'a local_queue \<Rightarrow> bool" where
  "lq_empty q \<longleftrightarrow> lq_head q = lq_tail q"

definition lq_full :: "u64 \<Rightarrow> 'a local_queue \<Rightarrow> bool" where
  "lq_full cap q \<longleftrightarrow> ring_next cap (lq_head q) = lq_tail q"

definition lq_capacity :: "u64 \<Rightarrow> u64" where
  "lq_capacity cap = cap - 1"

definition lq_size :: "u64 \<Rightarrow> 'a local_queue \<Rightarrow> u64" where
  "lq_size cap q = ring_used cap (lq_head q) (lq_tail q)"

definition lq_clear :: "'a local_queue \<Rightarrow> 'a local_queue" where
  "lq_clear q = q\<lparr>lq_head := 0, lq_tail := 0\<rparr>"

definition lq_ok :: "u64 \<Rightarrow> 'a local_queue \<Rightarrow> bool" where
  "lq_ok cap q \<longleftrightarrow> cap_ok cap \<and> length (lq_buffer q) = unat cap \<and> lq_head q < cap \<and> lq_tail q < cap"

definition lq_contents :: "u64 \<Rightarrow> 'a local_queue \<Rightarrow> 'a list" where
  "lq_contents cap q = ring_seq cap (lq_buffer q) (lq_tail q) (lq_head q)"

lemma unat_cap_minus_1: "cap_ok cap \<Longrightarrow> unat (cap - 1) = unat cap - 1"
  using cap_ok_ge2 [of cap] by (simp add: unat_sub_if' word_le_nat_alt)

lemma lq_push_facts:
  assumes "lq_ok cap q"
  shows "lq_ok cap (fst (lq_push cap q x))"
    and "(lq_contents cap (fst (lq_push cap q x)), snd (lq_push cap q x)) =
           bq_push (unat (lq_capacity cap)) (lq_contents cap q) x"
proof -
  have d: "cap_ok cap" "length (lq_buffer q) = unat cap" "lq_head q < cap" "lq_tail q < cap"
    using assms by (simp_all add: lq_ok_def)
  have "span cap (lq_tail q) (lq_head q) < unat cap - 1" if "ring_next cap (lq_head q) \<noteq> lq_tail q"
    using that span_full_iff [OF d(1,3,4)] span_less [OF d(3,4)] by auto
  then show "lq_ok cap (fst (lq_push cap q x))"
    and "(lq_contents cap (fst (lq_push cap q x)), snd (lq_push cap q x)) =
           bq_push (unat (lq_capacity cap)) (lq_contents cap q) x"
    using d ring_seq_write [OF d(1,3,4,2), of x] span_full_iff [OF d(1,3,4)] unat_cap_minus_1 [OF d(1)]
    by (auto simp: lq_push_def lq_ok_def lq_contents_def lq_capacity_def ring_next_less Let_def)
qed

lemma lq_pop_facts:
  assumes "lq_ok cap q"
  shows "lq_ok cap (fst (lq_pop cap q))"
    and "(lq_contents cap (fst (lq_pop cap q)), snd (lq_pop cap q)) = bq_pop (lq_contents cap q)"
proof -
  have d: "cap_ok cap" "length (lq_buffer q) = unat cap" "lq_head q < cap" "lq_tail q < cap"
    using assms by (simp_all add: lq_ok_def)
  show "lq_ok cap (fst (lq_pop cap q))"
    using d by (simp add: lq_pop_def lq_ok_def ring_next_less)
  show "(lq_contents cap (fst (lq_pop cap q)), snd (lq_pop cap q)) = bq_pop (lq_contents cap q)"
  proof (cases "lq_tail q = lq_head q")
    case True
    then have "lq_contents cap q = []" using ring_seq_empty [OF d(3,4)] by (simp add: lq_contents_def)
    with True show ?thesis by (simp add: lq_pop_def)
  next
    case False
    with ring_seq_read [OF d(1,3,4), of "lq_buffer q"] show ?thesis
      by (simp add: lq_pop_def lq_contents_def)
  qed
qed

interpretation lq: bounded_fifo "lq_ok cap" "lq_contents cap" "unat (lq_capacity cap)"
  "lq_push cap" "lq_pop cap" lq_empty "lq_full cap" lq_clear for cap
proof unfold_locales
  fix q :: "'a local_queue" assume ok: "lq_ok cap q"
  have d: "cap_ok cap" "length (lq_buffer q) = unat cap" "lq_head q < cap" "lq_tail q < cap"
    using ok by (simp_all add: lq_ok_def)
  note c = unat_cap_minus_1 [OF d(1)]
  show "length (lq_contents cap q) \<le> unat (lq_capacity cap)"
    using span_less [OF d(3,4)] by (simp add: lq_contents_def lq_capacity_def c)
  show "lq_empty q \<longleftrightarrow> lq_contents cap q = []"
    unfolding lq_empty_def lq_contents_def ring_seq_empty [OF d(3,4)] ..
  show "lq_full cap q \<longleftrightarrow> length (lq_contents cap q) = unat (lq_capacity cap)"
    using span_full_iff [OF d(1,3,4)] by (simp add: lq_full_def lq_contents_def lq_capacity_def c)
  show "lq_ok cap (lq_clear q)"
    using d cap_ok_ge2 [OF d(1)] by (simp add: lq_ok_def lq_clear_def word_less_nat_alt)
  show "lq_contents cap (lq_clear q) = []"
    using ring_seq_empty [of 0 cap 0] cap_ok_ge2 [OF d(1)]
    by (simp add: lq_contents_def lq_clear_def word_less_nat_alt)
qed (rule lq_push_facts lq_pop_facts; assumption)+

section \<open>lcr::local::ring\<close>

record 'a local_ring =
  lr_buffer :: "'a list"
  lr_head :: u64
  lr_tail :: u64
  lr_producer_slot_acquired :: bool
  lr_consumer_slot_acquired :: bool

definition lr_acquire_producer_slot :: "u64 \<Rightarrow> 'a local_ring \<Rightarrow> ('a local_ring \<times> u64 option) option" where
  "lr_acquire_producer_slot cap r =
     (if ring_next cap (lr_head r) = lr_tail r then Some (r, None)
      else if lr_producer_slot_acquired r then None
      else Some (r\<lparr>lr_producer_slot_acquired := True\<rparr>, Some (lr_head r)))"

definition lr_commit_producer_slot :: "u64 \<Rightarrow> 'a local_ring \<Rightarrow> 'a local_ring option" where
  "lr_commit_producer_slot cap r =
     (if \<not> lr_producer_slot_acquired r then None
      else Some (r\<lparr>lr_producer_slot_acquired := False, lr_head := ring_next cap (lr_head r)\<rparr>))"

definition lr_discard_producer_slot :: "'a local_ring \<Rightarrow> 'a local_ring option" where
  "lr_discard_producer_slot r =
     (if \<not> lr_producer_slot_acquired r then None else Some (r\<lparr>lr_producer_slot_acquired := False\<rparr>))"

definition lr_peek_consumer_slot :: "'a local_ring \<Rightarrow> ('a local_ring \<times> u64 option) option" where
  "lr_peek_consumer_slot r =
     (if lr_tail r = lr_head r then Some (r, None)
      else if lr_consumer_slot_acquired r then None
      else Some (r\<lparr>lr_consumer_slot_acquired := True\<rparr>, Some (lr_tail r)))"

definition lr_release_consumer_slot :: "u64 \<Rightarrow> 'a local_ring \<Rightarrow> 'a local_ring option" where
  "lr_release_consumer_slot cap r =
     (if \<not> lr_consumer_slot_acquired r then None
      else Some (r\<lparr>lr_consumer_slot_acquired := False, lr_tail := ring_next cap (lr_tail r)\<rparr>))"

definition lr_empty :: "'a local_ring \<Rightarrow> bool" where
  "lr_empty r \<longleftrightarrow> lr_head r = lr_tail r"

definition lr_full :: "u64 \<Rightarrow> 'a local_ring \<Rightarrow> bool" where
  "lr_full cap r \<longleftrightarrow> ring_next cap (lr_head r) = lr_tail r"

definition lr_size :: "u64 \<Rightarrow> 'a local_ring \<Rightarrow> u64" where
  "lr_size cap r = ring_used cap (lr_head r) (lr_tail r)"

definition lr_clear :: "'a local_ring \<Rightarrow> 'a local_ring" where
  "lr_clear r = r\<lparr>lr_head := 0, lr_tail := 0, lr_producer_slot_acquired := False,
     lr_consumer_slot_acquired := False\<rparr>"

definition lr_write :: "'a local_ring \<Rightarrow> u64 \<Rightarrow> 'a \<Rightarrow> 'a local_ring" where
  "lr_write r i x = r\<lparr>lr_buffer := (lr_buffer r)[unat i := x]\<rparr>"

text \<open>The whole transactions; a failed assertion leaves the ring and reports nothing done.\<close>

definition lr_produce :: "u64 \<Rightarrow> 'a local_ring \<Rightarrow> 'a \<Rightarrow> 'a local_ring \<times> bool" where
  "lr_produce cap r x = (case lr_acquire_producer_slot cap r of
      Some (r1, Some i) \<Rightarrow> (case lr_commit_producer_slot cap (lr_write r1 i x) of
          Some r2 \<Rightarrow> (r2, True) | None \<Rightarrow> (r, False))
    | _ \<Rightarrow> (r, False))"

definition lr_consume :: "u64 \<Rightarrow> 'a local_ring \<Rightarrow> 'a local_ring \<times> 'a option" where
  "lr_consume cap r = (case lr_peek_consumer_slot r of
      Some (r1, Some i) \<Rightarrow> (case lr_release_consumer_slot cap r1 of
          Some r2 \<Rightarrow> (r2, Some (lr_buffer r1 ! unat i)) | None \<Rightarrow> (r, None))
    | _ \<Rightarrow> (r, None))"

definition lr_ok :: "u64 \<Rightarrow> 'a local_ring \<Rightarrow> bool" where
  "lr_ok cap r \<longleftrightarrow> cap_ok cap \<and> length (lr_buffer r) = unat cap \<and> lr_head r < cap \<and> lr_tail r < cap \<and>
     \<not> lr_producer_slot_acquired r \<and> \<not> lr_consumer_slot_acquired r"

text \<open>The ring between transactions is the queue over the same buffer and indices.\<close>

definition lr_queue :: "'a local_ring \<Rightarrow> 'a local_queue" where
  "lr_queue r = \<lparr>lq_buffer = lr_buffer r, lq_head = lr_head r, lq_tail = lr_tail r\<rparr>"

definition lr_contents :: "u64 \<Rightarrow> 'a local_ring \<Rightarrow> 'a list" where
  "lr_contents cap r = lq_contents cap (lr_queue r)"

lemma lr_ok_queue: "lr_ok cap r \<Longrightarrow> lq_ok cap (lr_queue r)"
  by (simp add: lr_ok_def lq_ok_def lr_queue_def)

lemma lr_produce_queue:
  assumes "lr_ok cap r"
  shows "lr_ok cap (fst (lr_produce cap r x))"
    and "lr_queue (fst (lr_produce cap r x)) = fst (lq_push cap (lr_queue r) x)"
    and "snd (lr_produce cap r x) = snd (lq_push cap (lr_queue r) x)"
    and "lr_acquire_producer_slot cap r \<noteq> None"
  using assms by (auto simp: lr_produce_def lr_acquire_producer_slot_def lr_commit_producer_slot_def
      lr_write_def lr_ok_def lr_queue_def lq_push_def ring_next_less Let_def)

lemma lr_consume_queue:
  assumes "lr_ok cap r"
  shows "lr_ok cap (fst (lr_consume cap r))"
    and "lr_queue (fst (lr_consume cap r)) = fst (lq_pop cap (lr_queue r))"
    and "snd (lr_consume cap r) = snd (lq_pop cap (lr_queue r))"
    and "lr_peek_consumer_slot r \<noteq> None"
  using assms by (auto simp: lr_consume_def lr_peek_consumer_slot_def lr_release_consumer_slot_def
      lr_ok_def lr_queue_def lq_pop_def ring_next_less Let_def)

interpretation lr: bounded_fifo "lr_ok cap" "lr_contents cap" "unat (lq_capacity cap)"
  "lr_produce cap" "lr_consume cap" lr_empty "lr_full cap" lr_clear for cap
proof unfold_locales
  fix r :: "'a local_ring" and x assume ok: "lr_ok cap r"
  note q = lr_ok_queue [OF ok]
  show "length (lr_contents cap r) \<le> unat (lq_capacity cap)"
    using lq.bounded [OF q] by (simp add: lr_contents_def)
  show "(lr_contents cap (fst (lr_produce cap r x)), snd (lr_produce cap r x)) =
      bq_push (unat (lq_capacity cap)) (lr_contents cap r) x"
    using lq.enq_spec [OF q, of x] by (simp add: lr_contents_def lr_produce_queue [OF ok])
  show "(lr_contents cap (fst (lr_consume cap r)), snd (lr_consume cap r)) = bq_pop (lr_contents cap r)"
    using lq.deq_spec [OF q] by (simp add: lr_contents_def lr_consume_queue [OF ok])
  show "lr_empty r \<longleftrightarrow> lr_contents cap r = []"
    using lq.empty_iff [OF q] by (simp add: lr_contents_def lr_empty_def lq_empty_def lr_queue_def)
  show "lr_full cap r \<longleftrightarrow> length (lr_contents cap r) = unat (lq_capacity cap)"
    using lq.full_iff [OF q] by (simp add: lr_contents_def lr_full_def lq_full_def lr_queue_def)
  show "lr_ok cap (lr_clear r)"
    using lq.erase_inv [OF q] ok by (simp add: lr_ok_def lr_clear_def lq_ok_def lq_clear_def)
  show "lr_contents cap (lr_clear r) = []"
    using lq.erase_spec [OF q] by (simp add: lr_contents_def lr_clear_def lq_clear_def lr_queue_def)
qed (rule lr_produce_queue lr_consume_queue; assumption)+

end
