(* ===== verification/Symbol_Intern.thy ===== *)
theory Symbol_Intern
  imports Prelude
begin

text \<open>
  The process-wide symbol table (symbol/intern.hpp): symbol names get consecutive ids
  that never change. The table is bounded; interning one name too many, or a name longer than
  a \<^verbatim>\<open>Symbol\<close> can hold, traps (\<open>None\<close>). The other components see the table as the
  function from names to ids of its final state: \<open>intern_stable\<close> is what justifies
  that view.
\<close>

section \<open>State and operations\<close>

definition MAX_SYMBOL_LENGTH :: nat where "MAX_SYMBOL_LENGTH = 16"

definition MAX_SYMBOLS :: nat where "MAX_SYMBOLS = 4096"

text \<open>The content hash of the table's \<^verbatim>\<open>unordered_map\<close>; \<^verbatim>\<open>size_t\<close> arithmetic wraps.\<close>

definition sv_hash :: "symbol \<Rightarrow> u64" where
  "sv_hash sv = fold (\<lambda>c h. xor (h * 16777619) (of_nat (of_char c))) sv 146527"

record intern_table =
  sym_names :: "symbol list"
  imap :: "(symbol \<times> symbol_id) list"

definition InternTable_init :: intern_table where
  "InternTable_init = \<lparr>sym_names = [], imap = []\<rparr>"

text \<open>The fast path runs under the shared lock, the slow path under the exclusive lock.\<close>

definition intern_fast :: "intern_table \<Rightarrow> symbol \<Rightarrow> symbol_id option" where
  "intern_fast t sv = map_of (imap t) sv"

definition intern_slow :: "intern_table \<Rightarrow> symbol \<Rightarrow> (intern_table \<times> symbol_id) option" where
  "intern_slow t sv =
     (case map_of (imap t) sv of
        Some i \<Rightarrow> Some (t, i)
      | None \<Rightarrow>
          if length (sym_names t) \<ge> MAX_SYMBOLS then None
          else if length sv > MAX_SYMBOL_LENGTH then None
          else let i = of_nat (length (sym_names t)) in
               Some (\<lparr>sym_names = sym_names t @ [sv], imap = AList.update sv i (imap t)\<rparr>, i))"

definition intern_symbol :: "intern_table \<Rightarrow> symbol \<Rightarrow> (intern_table \<times> symbol_id) option" where
  "intern_symbol t sv = (case intern_fast t sv of Some i \<Rightarrow> Some (t, i) | None \<Rightarrow> intern_slow t sv)"

definition symbol_name :: "intern_table \<Rightarrow> symbol_id \<Rightarrow> symbol" where
  "symbol_name t i = (if unat i \<ge> length (sym_names t) then [] else sym_names t ! unat i)"

definition intern_count :: "intern_table \<Rightarrow> nat" where
  "intern_count t = length (sym_names t)"

section \<open>Invariant\<close>

definition intern_ok :: "intern_table \<Rightarrow> bool" where
  "intern_ok t \<longleftrightarrow> length (sym_names t) \<le> MAX_SYMBOLS \<and> distinct (sym_names t) \<and>
     (\<forall>sv i. map_of (imap t) sv = Some i \<longleftrightarrow> unat i < length (sym_names t) \<and> sym_names t ! unat i = sv)"

text \<open>A table extends another when it keeps all its names in place.\<close>

definition extends :: "intern_table \<Rightarrow> intern_table \<Rightarrow> bool" where
  "extends t t' \<longleftrightarrow> (\<exists>xs. sym_names t' = sym_names t @ xs)"

lemma extends_refl [simp]: "extends t t" by (simp add: extends_def)

lemma extends_trans [trans]: "extends t1 t2 \<Longrightarrow> extends t2 t3 \<Longrightarrow> extends t1 t3"
  by (auto simp: extends_def)

lemma intern_ok_init [inv_intros]: "intern_ok InternTable_init"
  by (simp add: intern_ok_def InternTable_init_def)

lemma intern_okD:
  assumes "intern_ok t"
  shows "map_of (imap t) sv = Some i \<longleftrightarrow> unat i < length (sym_names t) \<and> sym_names t ! unat i = sv"
    and "map_of (imap t) sv = None \<longleftrightarrow> sv \<notin> set (sym_names t)"
proof -
  show 1: "map_of (imap t) sv = Some i \<longleftrightarrow> unat i < length (sym_names t) \<and> sym_names t ! unat i = sv" for i
    using assms by (simp add: intern_ok_def)
  have "\<exists>i. map_of (imap t) sv = Some i" if s: "sv \<in> set (sym_names t)"
  proof -
    obtain n where n: "n < length (sym_names t)" "sym_names t ! n = sv" using s by (auto simp: in_set_conv_nth)
    have "n < 2 ^ 32" using n(1) assms by (simp add: intern_ok_def MAX_SYMBOLS_def)
    then have "unat (of_nat n :: symbol_id) = n" by (simp add: unsigned_of_nat take_bit_nat_eq_self)
    with n show ?thesis unfolding 1 by (intro exI [of _ "of_nat n"]) simp
  qed
  then show "map_of (imap t) sv = None \<longleftrightarrow> sv \<notin> set (sym_names t)"
    using 1 by (metis nth_mem option.distinct(1) option.exhaust)
qed

lemma intern_slow_facts:
  assumes ok: "intern_ok t" and s: "intern_slow t sv = Some (t', i)"
  shows "intern_ok t'" and "extends t t'" and "unat i < length (sym_names t')" and "sym_names t' ! unat i = sv"
proof -
  have "intern_ok t' \<and> extends t t' \<and> unat i < length (sym_names t') \<and> sym_names t' ! unat i = sv"
  proof (cases "map_of (imap t) sv")
    case (Some j)
    then show ?thesis using s ok intern_okD(1) [OF ok, of sv j] by (simp add: intern_slow_def)
  next
    case None
    let ?n = "length (sym_names t)"
    have t': "t' = \<lparr>sym_names = sym_names t @ [sv], imap = AList.update sv i (imap t)\<rparr>" and i: "i = of_nat ?n"
      and n: "?n < MAX_SYMBOLS"
      using None s by (auto simp: intern_slow_def Let_def split: if_splits)
    have ui: "unat i = ?n" using n i
      by (simp add: MAX_SYMBOLS_def unsigned_of_nat take_bit_nat_eq_self)
    have new: "sv \<notin> set (sym_names t)" using None intern_okD(2) [OF ok] by simp
    have "map_of (imap t') x = Some j \<longleftrightarrow> unat j < length (sym_names t') \<and> sym_names t' ! unat j = x" for x j
      using intern_okD(1) [OF ok, of x j] ui new
      by (auto simp: t' map_of_update_if nth_append less_Suc_eq word_unat_eq_iff)
    then have "intern_ok t'" using n new ok by (simp add: intern_ok_def t')
    then show ?thesis by (simp add: t' ui extends_def)
  qed
  then show "intern_ok t'" and "extends t t'" and "unat i < length (sym_names t')" and "sym_names t' ! unat i = sv"
    by auto
qed

lemma intern_slow_total:
  "intern_ok t \<Longrightarrow> intern_slow t sv = None \<longleftrightarrow>
     sv \<notin> set (sym_names t) \<and> (length (sym_names t) = MAX_SYMBOLS \<or> length sv > MAX_SYMBOL_LENGTH)"
  using intern_okD(2) [of t sv] by (auto simp: intern_slow_def intern_ok_def Let_def split: option.splits)

text \<open>Without interference the double check makes the fast path an optimisation only.\<close>

lemma intern_eq_slow: "intern_symbol t sv = intern_slow t sv"
  by (simp add: intern_symbol_def intern_fast_def intern_slow_def split: option.split)

lemma intern_facts:
  assumes ok: "intern_ok t" and s: "intern_symbol t sv = Some (t', i)"
  shows "intern_ok t'" and "extends t t'" and "map_of (imap t') sv = Some i"
proof -
  have "intern_slow t sv = Some (t', i)" using s by (simp add: intern_eq_slow)
  note F = intern_slow_facts [OF ok this]
  show "intern_ok t'" and "extends t t'" by (rule F)+
  show "map_of (imap t') sv = Some i" using F intern_okD(1) [OF F(1)] by simp
qed

lemma extends_lookup:
  "intern_ok t \<Longrightarrow> intern_ok t' \<Longrightarrow> extends t t' \<Longrightarrow> map_of (imap t) sv = Some i \<Longrightarrow> map_of (imap t') sv = Some i"
  by (auto simp: intern_okD(1) extends_def nth_append)

text \<open>
  A history of the table under concurrent interning: each thread's exclusive section
  runs on whatever table it finds.
\<close>

inductive intern_history :: "intern_table \<Rightarrow> intern_table \<Rightarrow> bool" where
  none: "intern_history t t"
| slow: "intern_history t t' \<Longrightarrow> intern_slow t' sv = Some (t'', i) \<Longrightarrow> intern_history t t''"

lemma intern_history_facts: "intern_history t t' \<Longrightarrow> intern_ok t \<Longrightarrow> intern_ok t' \<and> extends t t'"
proof (induction rule: intern_history.induct)
  case (slow t t' sv t'' i)
  then show ?case using intern_slow_facts(1,2) [of t' sv t'' i] extends_trans by blast
qed simp

section \<open>The table as a function from names to ids\<close>

text \<open>The id a name has in a table; a name that is not there is given no meaning beyond the default.\<close>

definition id_of :: "intern_table \<Rightarrow> symbol \<Rightarrow> symbol_id" where
  "id_of t sv = (case map_of (imap t) sv of Some i \<Rightarrow> i | None \<Rightarrow> of_nat (length (sym_names t)))"

lemma inj_on_id_of:
  assumes "intern_ok t" shows "inj_on (id_of t) (set (sym_names t))"
proof (rule inj_onI)
  fix x y assume xy: "x \<in> set (sym_names t)" "y \<in> set (sym_names t)" and eq: "id_of t x = id_of t y"
  have "map_of (imap t) x \<noteq> None" "map_of (imap t) y \<noteq> None"
    using xy by (simp_all add: intern_okD(2) [OF assms])
  then obtain i j where ij: "map_of (imap t) x = Some i" "map_of (imap t) y = Some j" by blast
  moreover from ij have "i = j" using eq by (simp add: id_of_def)
  ultimately show "x = y" using assms by (simp add: intern_ok_def)
qed

section \<open>Properties\<close>

text \<open>Symbol ids are stable, injective and invertible. Whatever other threads intern between
  the shared-lock lookup and the exclusive section and afterwards, the id returned for a
  name is the one every later lookup returns, \<^verbatim>\<open>symbol_name\<close> maps it back to the name, and two
  names with the same id are equal.\<close>

theorem intern_stable:
  assumes "intern_ok t" and "intern_history t t1" and "intern_slow t1 sv = Some (t2, i)"
    and "intern_history t2 t3"
  shows "intern_symbol t3 sv = Some (t3, i) \<and> symbol_name t3 i = sv \<and>
    (\<forall>sv'. intern_fast t3 sv' = Some i \<longrightarrow> sv' = sv)"
proof -
  have ok1: "intern_ok t1" using intern_history_facts [OF assms(2,1)] by simp
  note F = intern_slow_facts [OF ok1 assms(3)]
  have ok3: "intern_ok t3" and e: "extends t2 t3" using intern_history_facts [OF assms(4) F(1)] by simp_all
  have "map_of (imap t2) sv = Some i" using intern_okD(1) [OF F(1)] F(3,4) by simp
  note l = extends_lookup [OF F(1) ok3 e this]
  then have n: "unat i < length (sym_names t3) \<and> sym_names t3 ! unat i = sv"
    by (rule intern_okD(1) [OF ok3, THEN iffD1])
  have "sv' = sv" if "intern_fast t3 sv' = Some i" for sv'
    using intern_okD(1) [OF ok3, THEN iffD1, OF that [unfolded intern_fast_def]] n by blast
  moreover have "intern_symbol t3 sv = Some (t3, i)" unfolding intern_symbol_def intern_fast_def l by simp
  moreover have "symbol_name t3 i = sv" using n by (simp add: symbol_name_def)
  ultimately show ?thesis by blast
qed

theorem intern_stable_witness:
  "\<exists>t. intern_slow InternTable_init ''BTC/USD'' = Some (t, 0) \<and> intern_symbol t ''BTC/USD'' = Some (t, 0) \<and>
     symbol_name t 0 = ''BTC/USD''"
proof -
  obtain t i where s: "intern_slow InternTable_init ''BTC/USD'' = Some (t, i)"
    by (simp add: intern_slow_def InternTable_init_def MAX_SYMBOLS_def MAX_SYMBOL_LENGTH_def Let_def)
  then have "i = 0" by (auto simp: intern_slow_def InternTable_init_def Let_def split: if_splits)
  with s intern_stable [OF intern_ok_init intern_history.none s intern_history.none] show ?thesis
    by blast
qed

text \<open>Interning a new name traps exactly when the table holds \<^verbatim>\<open>MaxSymbols\<close> names or the name
  is longer than a \<^verbatim>\<open>Symbol\<close>; a name that is already in the table never traps.\<close>

theorem intern_traps_iff:
  assumes "intern_ok t"
  shows "intern_symbol t sv = None \<longleftrightarrow>
    sv \<notin> set (sym_names t) \<and> (intern_count t = MAX_SYMBOLS \<or> length sv > MAX_SYMBOL_LENGTH)"
proof -
  show ?thesis using intern_slow_total [OF assms] by (simp add: intern_count_def intern_eq_slow)
qed

theorem intern_traps_iff_witness:
  "intern_symbol InternTable_init ''A/SYMBOL/THAT/IS/TOO/LONG'' = None \<and>
   intern_symbol InternTable_init ''BTC/USD'' \<noteq> None"
  using intern_traps_iff [OF intern_ok_init]
  by (simp add: InternTable_init_def intern_count_def MAX_SYMBOLS_def MAX_SYMBOL_LENGTH_def)

end
