(* ===== verification/Replay.thy ===== *)
theory Replay
  imports Prelude
begin

text \<open>
  The replay database (replay/subscription.hpp, replay/table.hpp, replay/database.hpp): the
  subscription requests that are sent again after a reconnect, with an index from a
  symbol to the request that owns it. \<^verbatim>\<open>RequestT\<close> is a record with the symbols, the
  optional request id and the channel's own settings. As in the subscription
  manager, the first argument is the id function of the symbol table; it is injective
  on the set \<open>K\<close> of names that have been interned.
\<close>

section \<open>Requests and per-request operations\<close>

record 'p request =
  req_symbols :: "symbol list"
  req_req_id :: "req_id option"
  req_params :: 'p

definition sub_erase_symbol :: "'p request \<Rightarrow> symbol \<Rightarrow> 'p request \<times> bool" where
  "sub_erase_symbol req symbol =
     (let kept = filter (\<lambda>s. s \<noteq> symbol) (req_symbols req);
          erased = (length kept \<noteq> length (req_symbols req)) in
      (if erased then req\<lparr>req_symbols := kept\<rparr> else req, erased))"

definition sub_try_process_rejection :: "'p request \<Rightarrow> req_id \<Rightarrow> symbol \<Rightarrow> 'p request \<times> bool" where
  "sub_try_process_rejection req r symbol =
     (if req_req_id req = Some r then sub_erase_symbol req symbol else (req, False))"

definition sub_empty :: "'p request \<Rightarrow> bool" where
  "sub_empty req \<longleftrightarrow> req_symbols req = []"

definition sub_req_id :: "'p request \<Rightarrow> req_id" where
  "sub_req_id req = (case req_req_id req of Some r \<Rightarrow> r | None \<Rightarrow> 0)"

section \<open>Table\<close>

record 'p replay_table =
  subscriptions :: "(req_id \<times> 'p request) list"
  symbol_owner :: "(symbol_id \<times> req_id) list"

definition Table_init :: "'p replay_table" where
  "Table_init = \<lparr>subscriptions = [], symbol_owner = []\<rparr>"

text \<open>\<^verbatim>\<open>unordered_map::emplace\<close>: an existing entry is kept.\<close>

definition owner_emplace :: "(symbol_id \<times> req_id) list \<Rightarrow> symbol_id \<Rightarrow> req_id \<Rightarrow> (symbol_id \<times> req_id) list" where
  "owner_emplace al sid r = (case map_of al sid of None \<Rightarrow> AList.update sid r al | Some _ \<Rightarrow> al)"

definition table_add ::
  "(symbol \<Rightarrow> symbol_id) \<Rightarrow> 'p replay_table \<Rightarrow> 'p request \<Rightarrow> 'p replay_table \<times> bool" where
  "table_add intern t req =
     (case req_req_id req of
        None \<Rightarrow> (t, False)
      | Some r \<Rightarrow>
          let kept = filter (\<lambda>s. map_of (symbol_owner t) (intern s) = None) (req_symbols req) in
          if kept = [] then (t, False)
          else if map_of (subscriptions t) r \<noteq> None then (t, False)
          else (\<lparr>subscriptions = AList.update r (req\<lparr>req_symbols := kept\<rparr>) (subscriptions t),
                 symbol_owner = fold (\<lambda>s al. owner_emplace al (intern s) r) kept (symbol_owner t)\<rparr>, True))"

definition table_store :: "'p replay_table \<Rightarrow> req_id \<Rightarrow> 'p request \<Rightarrow> symbol_id \<Rightarrow> 'p replay_table" where
  "table_store t r req sid =
     \<lparr>subscriptions = (if sub_empty req then AList.delete r (subscriptions t)
                       else AList.update r req (subscriptions t)),
      symbol_owner = AList.delete sid (symbol_owner t)\<rparr>"

definition table_try_process_rejection ::
  "(symbol \<Rightarrow> symbol_id) \<Rightarrow> 'p replay_table \<Rightarrow> req_id \<Rightarrow> symbol \<Rightarrow> 'p replay_table \<times> bool" where
  "table_try_process_rejection intern t r symbol =
     (case map_of (subscriptions t) r of
        None \<Rightarrow> (t, False)
      | Some req \<Rightarrow>
          let (req', done) = sub_try_process_rejection req r symbol in
          if \<not> done then (t, False) else (table_store t r req' (intern symbol), True))"

definition table_erase_symbol :: "(symbol \<Rightarrow> symbol_id) \<Rightarrow> 'p replay_table \<Rightarrow> symbol \<Rightarrow> 'p replay_table" where
  "table_erase_symbol intern t symbol =
     (let sid = intern symbol in
      case map_of (symbol_owner t) sid of
        None \<Rightarrow> t
      | Some r \<Rightarrow>
          (case map_of (subscriptions t) r of
             None \<Rightarrow> t\<lparr>symbol_owner := AList.delete sid (symbol_owner t)\<rparr>
           | Some req \<Rightarrow>
               let (req', removed) = sub_erase_symbol req symbol in
               if removed then table_store t r req' sid else t))"

definition table_contains_symbol :: "(symbol \<Rightarrow> symbol_id) \<Rightarrow> 'p replay_table \<Rightarrow> symbol \<Rightarrow> bool" where
  "table_contains_symbol intern t symbol \<longleftrightarrow> map_of (symbol_owner t) (intern symbol) \<noteq> None"

definition table_empty :: "'p replay_table \<Rightarrow> bool" where
  "table_empty t \<longleftrightarrow> subscriptions t = []"

definition table_clear :: "'p replay_table \<Rightarrow> 'p replay_table" where
  "table_clear t = t\<lparr>subscriptions := [], symbol_owner := []\<rparr>"

definition table_total_requests :: "'p replay_table \<Rightarrow> nat" where
  "table_total_requests t = length (subscriptions t)"

definition table_total_symbols :: "'p replay_table \<Rightarrow> nat" where
  "table_total_symbols t = length (symbol_owner t)"

definition table_take_subscriptions :: "'p replay_table \<Rightarrow> 'p replay_table \<times> 'p request list" where
  "table_take_subscriptions t = (table_clear t, map snd (subscriptions t))"

definition table_assert_consistency :: "'p replay_table \<Rightarrow> bool" where
  "table_assert_consistency t \<longleftrightarrow>
     sum_list (map (\<lambda>(_, req). length (req_symbols req)) (subscriptions t)) = length (symbol_owner t)"

section \<open>Invariant and abstraction\<close>

text \<open>
  The owner map is exactly the inverse of the stored requests; every stored request is
  filed under its own id and has at least one symbol.
\<close>

definition table_owner :: "'p replay_table \<Rightarrow> symbol_id \<Rightarrow> req_id option" where
  "table_owner t = map_of (symbol_owner t)"

definition table_ok :: "symbol set \<Rightarrow> (symbol \<Rightarrow> symbol_id) \<Rightarrow> 'p replay_table \<Rightarrow> bool" where
  "table_ok K intern t \<longleftrightarrow>
     distinct (map fst (subscriptions t)) \<and> distinct (map fst (symbol_owner t)) \<and>
     (\<forall>r req. map_of (subscriptions t) r = Some req \<longrightarrow>
        req_req_id req = Some r \<and> req_symbols req \<noteq> [] \<and> set (req_symbols req) \<subseteq> K) \<and>
     (\<forall>sid r. table_owner t sid = Some r \<longleftrightarrow>
        (\<exists>req. map_of (subscriptions t) r = Some req \<and> sid \<in> intern ` set (req_symbols req)))"

lemma table_okD:
  assumes "table_ok K intern t"
  shows "distinct (map fst (subscriptions t))" and "distinct (map fst (symbol_owner t))"
    and "map_of (subscriptions t) r = Some req \<Longrightarrow> req_req_id req = Some r"
    and "map_of (subscriptions t) r = Some req \<Longrightarrow> req_symbols req \<noteq> []"
    and "map_of (subscriptions t) r = Some req \<Longrightarrow> set (req_symbols req) \<subseteq> K"
    and "table_owner t sid = Some r \<longleftrightarrow>
      (\<exists>req. map_of (subscriptions t) r = Some req \<and> sid \<in> intern ` set (req_symbols req))"
  using assms unfolding table_ok_def by blast+

lemma table_ok_init [inv_intros]: "table_ok K intern Table_init"
  by (simp add: table_ok_def Table_init_def table_owner_def)

lemma map_of_owner_fold:
  "map_of (fold (\<lambda>s al. owner_emplace al (intern s) r) xs al) sid =
     (case map_of al sid of Some r' \<Rightarrow> Some r' | None \<Rightarrow> if sid \<in> intern ` set xs then Some r else None)"
proof (induction xs arbitrary: al)
  case (Cons x xs)
  show ?case
    unfolding fold_simps Cons.IH
    by (simp add: owner_emplace_def map_of_update_if split: option.split)
qed (simp split: option.split)

lemma distinct_owner_fold:
  "distinct (map fst al) \<Longrightarrow> distinct (map fst (fold (\<lambda>s al. owner_emplace al (intern s) r) xs al))"
  by (induction xs arbitrary: al) (simp_all add: owner_emplace_def distinct_update split: option.split)

definition table_accepts :: "(symbol \<Rightarrow> symbol_id) \<Rightarrow> 'p replay_table \<Rightarrow> 'p request \<Rightarrow> bool" where
  "table_accepts intern t req \<longleftrightarrow> (\<exists>r. req_req_id req = Some r \<and> map_of (subscriptions t) r = None) \<and>
     (\<exists>s \<in> set (req_symbols req). table_owner t (intern s) = None)"

lemma table_add_reject: "\<not> table_accepts intern t req \<Longrightarrow> table_add intern t req = (t, False)"
  by (auto simp: table_add_def table_accepts_def table_owner_def filter_empty_conv Let_def
      split: option.splits)

lemma table_add_accept:
  assumes "table_accepts intern t req" and "req_req_id req = Some r"
  shows "table_add intern t req =
    (\<lparr>subscriptions = AList.update r
        (req\<lparr>req_symbols := filter (\<lambda>s. table_owner t (intern s) = None) (req_symbols req)\<rparr>) (subscriptions t),
      symbol_owner = fold (\<lambda>s al. owner_emplace al (intern s) r)
        (filter (\<lambda>s. table_owner t (intern s) = None) (req_symbols req)) (symbol_owner t)\<rparr>, True)"
  using assms by (auto simp: table_add_def table_accepts_def table_owner_def filter_empty_conv Let_def)

lemma table_add_facts:
  assumes ok: "table_ok K intern t" and K: "set (req_symbols req) \<subseteq> K"
    and acc: "table_accepts intern t req" and r: "req_req_id req = Some r"
  shows "table_ok K intern (fst (table_add intern t req))"
    and "table_owner (fst (table_add intern t req)) sid =
      (if table_owner t sid = None \<and> sid \<in> intern ` set (req_symbols req) then Some r else table_owner t sid)"
proof -
  let ?kept = "filter (\<lambda>s. table_owner t (intern s) = None) (req_symbols req)"
  let ?t = "fst (table_add intern t req)"
  note eq = table_add_accept [OF acc r]
  have new: "map_of (subscriptions t) r = None" using acc r by (auto simp: table_accepts_def)
  have own: "table_owner ?t sid =
      (if table_owner t sid = None \<and> sid \<in> intern ` set (req_symbols req) then Some r else table_owner t sid)" for sid
    unfolding eq table_owner_def
    by (simp add: map_of_owner_fold split: option.split) (auto simp: image_iff)
  have "table_owner ?t sid = Some r' \<longleftrightarrow>
      (\<exists>q. map_of (subscriptions ?t) r' = Some q \<and> sid \<in> intern ` set (req_symbols q))" for sid r'
  proof (cases "r' = r")
    case True
    have "table_owner t sid \<noteq> Some r" using table_okD(6) [OF ok, of sid r] new by simp
    moreover have "sid \<in> intern ` set ?kept \<longleftrightarrow> table_owner t sid = None \<and> sid \<in> intern ` set (req_symbols req)"
      by auto
    ultimately show ?thesis
      unfolding own by (simp add: True eq map_of_update_if del: set_filter)
  next
    case False
    then show ?thesis
      unfolding own using table_okD(6) [OF ok, of sid r'] by (auto simp: eq map_of_update_if)
  qed
  moreover have "req_req_id q = Some r' \<and> req_symbols q \<noteq> [] \<and> set (req_symbols q) \<subseteq> K"
    if "map_of (subscriptions ?t) r' = Some q" for r' q
  proof (cases "r' = r")
    case True
    moreover have "?kept \<noteq> []" using acc by (auto simp: table_accepts_def filter_empty_conv)
    ultimately show ?thesis using that r K by (auto simp: eq map_of_update_if)
  next
    case False
    then show ?thesis using that table_okD(3-5) [OF ok, of r' q] by (simp add: eq map_of_update_if)
  qed
  ultimately show "table_ok K intern ?t"
    using table_okD(1,2) [OF ok] unfolding table_ok_def
    by (simp add: eq distinct_update distinct_owner_fold)
  show "table_owner ?t sid =
      (if table_owner t sid = None \<and> sid \<in> intern ` set (req_symbols req) then Some r else table_owner t sid)"
    by (rule own)
qed

lemma table_store_facts:
  assumes ok: "table_ok K intern t" and inj: "inj_on intern K"
    and req: "map_of (subscriptions t) r = Some req" and s: "symbol \<in> set (req_symbols req)"
    and req': "req' = req\<lparr>req_symbols := filter (\<lambda>x. x \<noteq> symbol) (req_symbols req)\<rparr>"
  shows "table_ok K intern (table_store t r req' (intern symbol))"
    and "table_owner (table_store t r req' (intern symbol)) = (table_owner t)(intern symbol := None)"
proof -
  let ?t = "table_store t r req' (intern symbol)"
  have subs: "map_of (subscriptions ?t) r' =
      (if r' = r then (if req_symbols req' = [] then None else Some req') else map_of (subscriptions t) r')" for r'
    by (simp add: table_store_def sub_empty_def alist_simps)
  show own: "table_owner ?t = (table_owner t)(intern symbol := None)"
    by (auto simp: table_store_def table_owner_def alist_simps)
  have sK: "set (req_symbols req) \<subseteq> K" using table_okD(5) [OF ok req] .
  have ids: "intern ` set (req_symbols req') = intern ` set (req_symbols req) - {intern symbol}"
    using inj s sK by (auto simp: req' dest: inj_onD)
  have mine: "table_owner t (intern symbol) = Some r"
    using table_okD(6) [OF ok, of "intern symbol" r] req s by blast
  have "table_owner ?t sid = Some r' \<longleftrightarrow>
      (\<exists>q. map_of (subscriptions ?t) r' = Some q \<and> sid \<in> intern ` set (req_symbols q))" for sid r'
  proof (cases "r' = r")
    case True
    have "(\<exists>q. map_of (subscriptions ?t) r = Some q \<and> sid \<in> intern ` set (req_symbols q)) \<longleftrightarrow>
        sid \<in> intern ` set (req_symbols req')" by (auto simp: subs)
    then show ?thesis
      using True table_okD(6) [OF ok, of sid r] req by (simp add: own ids)
  next
    case False
    then show ?thesis
      using table_okD(6) [OF ok, of sid r'] mine by (auto simp: own subs)
  qed
  moreover have "req_req_id q = Some r' \<and> req_symbols q \<noteq> [] \<and> set (req_symbols q) \<subseteq> K"
    if "map_of (subscriptions ?t) r' = Some q" for r' q
    using that [unfolded subs] sK table_okD(3-5) [OF ok, of r' q] table_okD(3) [OF ok req]
    by (auto simp: req' split: if_splits)
  ultimately show "table_ok K intern ?t"
    using table_okD(1,2) [OF ok] unfolding table_ok_def
    by (simp add: table_store_def distinct_update distinct_delete)
qed

lemma sub_erase_symbol_eq:
  "sub_erase_symbol req symbol =
    (if symbol \<in> set (req_symbols req)
     then (req\<lparr>req_symbols := filter (\<lambda>s. s \<noteq> symbol) (req_symbols req)\<rparr>, True) else (req, False))"
proof -
  have "length (filter (\<lambda>s. s \<noteq> symbol) (req_symbols req)) \<noteq> length (req_symbols req) \<longleftrightarrow>
      symbol \<in> set (req_symbols req)"
    by (metis (mono_tags, lifting) filter_True length_filter_less less_irrefl)
  then show ?thesis by (simp add: sub_erase_symbol_def Let_def)
qed

lemma table_owner_in:
  assumes ok: "table_ok K intern t" and inj: "inj_on intern K" and K: "symbol \<in> K"
    and o: "table_owner t (intern symbol) = Some r"
  shows "\<exists>req. map_of (subscriptions t) r = Some req \<and> symbol \<in> set (req_symbols req)"
proof -
  obtain req x where req: "map_of (subscriptions t) r = Some req" "x \<in> set (req_symbols req)"
    "intern symbol = intern x" using table_okD(6) [OF ok] o by auto
  then have "x \<in> K" using table_okD(5) [OF ok req(1)] by blast
  with inj K req(3) have "symbol = x" by (auto dest: inj_onD)
  with req show ?thesis by blast
qed

lemma table_erase_facts:
  assumes ok: "table_ok K intern t" and inj: "inj_on intern K" and K: "symbol \<in> K"
  shows "table_ok K intern (table_erase_symbol intern t symbol)"
    and "table_owner (table_erase_symbol intern t symbol) = (table_owner t)(intern symbol := None)"
proof -
  have "table_ok K intern (table_erase_symbol intern t symbol) \<and>
    table_owner (table_erase_symbol intern t symbol) = (table_owner t)(intern symbol := None)"
  proof (cases "table_owner t (intern symbol)")
    case None
    then show ?thesis using ok by (simp add: table_erase_symbol_def table_owner_def fun_upd_idem)
  next
    case (Some r)
    obtain req where req: "map_of (subscriptions t) r = Some req" "symbol \<in> set (req_symbols req)"
      using table_owner_in [OF ok inj K Some] by blast
    with Some table_store_facts [OF ok inj req refl] show ?thesis
      by (simp add: table_erase_symbol_def table_owner_def sub_erase_symbol_eq Let_def)
  qed
  then show "table_ok K intern (table_erase_symbol intern t symbol)"
    and "table_owner (table_erase_symbol intern t symbol) = (table_owner t)(intern symbol := None)" by auto
qed

lemma table_rejection_facts:
  assumes ok: "table_ok K intern t" and inj: "inj_on intern K" and K: "symbol \<in> K"
  shows "table_ok K intern (fst (table_try_process_rejection intern t r symbol))"
    and "snd (table_try_process_rejection intern t r symbol) \<longleftrightarrow> table_owner t (intern symbol) = Some r"
    and "table_owner (fst (table_try_process_rejection intern t r symbol)) =
      (if table_owner t (intern symbol) = Some r then (table_owner t)(intern symbol := None) else table_owner t)"
    and "table_owner t (intern symbol) \<noteq> Some r \<Longrightarrow> fst (table_try_process_rejection intern t r symbol) = t"
proof -
  let ?p = "table_try_process_rejection intern t r symbol"
  have "table_ok K intern (fst ?p) \<and> (snd ?p \<longleftrightarrow> table_owner t (intern symbol) = Some r) \<and>
    table_owner (fst ?p) = (if table_owner t (intern symbol) = Some r
      then (table_owner t)(intern symbol := None) else table_owner t) \<and>
    (table_owner t (intern symbol) \<noteq> Some r \<longrightarrow> fst ?p = t)"
  proof (cases "table_owner t (intern symbol) = Some r")
    case True
    obtain req where req: "map_of (subscriptions t) r = Some req" "symbol \<in> set (req_symbols req)"
      using table_owner_in [OF ok inj K True] by blast
    with True table_store_facts [OF ok inj req refl] table_okD(3) [OF ok req(1)] show ?thesis
      by (simp add: table_try_process_rejection_def sub_try_process_rejection_def sub_erase_symbol_eq)
  next
    case False
    have "symbol \<notin> set (req_symbols req)" if "map_of (subscriptions t) r = Some req" for req
      using False table_okD(6) [OF ok, of "intern symbol" r] that by blast
    then show ?thesis using False ok
      by (simp add: table_try_process_rejection_def sub_try_process_rejection_def sub_erase_symbol_eq
          split: option.split)
  qed
  then show "table_ok K intern (fst ?p)" and "snd ?p \<longleftrightarrow> table_owner t (intern symbol) = Some r"
    and "table_owner (fst ?p) =
      (if table_owner t (intern symbol) = Some r then (table_owner t)(intern symbol := None) else table_owner t)"
    and "table_owner t (intern symbol) \<noteq> Some r \<Longrightarrow> fst ?p = t" by blast+
qed

section \<open>Replaying a table\<close>

text \<open>Adding requests one after another, as the replay after a reconnect does.\<close>

definition table_add_all :: "(symbol \<Rightarrow> symbol_id) \<Rightarrow> 'p request list \<Rightarrow> 'p replay_table \<Rightarrow> 'p replay_table" where
  "table_add_all intern reqs t = fold (\<lambda>req t. fst (table_add intern t req)) reqs t"

lemma table_add_fresh:
  assumes "table_ok K intern t" and "map_of (subscriptions t) r = None" and "req_req_id req = Some r"
    and "req_symbols req \<noteq> []" and "\<forall>s \<in> set (req_symbols req). table_owner t (intern s) = None"
  shows "table_accepts intern t req"
    and "map_of (subscriptions (fst (table_add intern t req))) = (map_of (subscriptions t))(r \<mapsto> req)"
proof -
  show acc: "table_accepts intern t req"
    using assms by (auto simp: table_accepts_def dest: hd_in_set)
  have "filter (\<lambda>s. table_owner t (intern s) = None) (req_symbols req) = req_symbols req"
    using assms(5) by (simp add: filter_id_conv)
  then show "map_of (subscriptions (fst (table_add intern t req))) = (map_of (subscriptions t))(r \<mapsto> req)"
    by (simp add: table_add_accept [OF acc assms(3)] update_conv')
qed

lemma table_add_all_fresh:
  assumes "table_ok K intern t" and "distinct (map fst al)"
    and "\<And>r q. (r, q) \<in> set al \<Longrightarrow> req_req_id q = Some r \<and> req_symbols q \<noteq> [] \<and> set (req_symbols q) \<subseteq> K \<and>
      map_of (subscriptions t) r = None \<and> (\<forall>s \<in> set (req_symbols q). table_owner t (intern s) = None)"
    and "\<And>r q r' q' s s'. (r, q) \<in> set al \<Longrightarrow> (r', q') \<in> set al \<Longrightarrow> s \<in> set (req_symbols q) \<Longrightarrow>
      s' \<in> set (req_symbols q') \<Longrightarrow> intern s = intern s' \<Longrightarrow> r = r'"
  shows "table_ok K intern (table_add_all intern (map snd al) t) \<and>
    map_of (subscriptions (table_add_all intern (map snd al) t)) = map_of (subscriptions t) ++ map_of al"
  using assms
proof (induction al arbitrary: t)
  case Nil
  then show ?case by (simp add: table_add_all_def)
next
  case (Cons a al)
  obtain r q where a: "a = (r, q)" by fastforce
  have q: "req_req_id q = Some r" "req_symbols q \<noteq> []" "set (req_symbols q) \<subseteq> K"
    "map_of (subscriptions t) r = None" "\<forall>s \<in> set (req_symbols q). table_owner t (intern s) = None"
    using Cons.prems(3) [of r q] a by simp_all
  note fresh = table_add_fresh [OF Cons.prems(1) q(4,1,2,5)]
  let ?t = "fst (table_add intern t q)"
  note F = table_add_facts [OF Cons.prems(1) q(3) fresh(1) q(1)]
  have new: "r \<noteq> r'" if "(r', q') \<in> set al" for r' q'
    using that Cons.prems(2) a by force
  have IH: "table_ok K intern (table_add_all intern (map snd al) ?t) \<and>
    map_of (subscriptions (table_add_all intern (map snd al) ?t)) = map_of (subscriptions ?t) ++ map_of al"
  proof (rule Cons.IH [OF F(1)])
    show "distinct (map fst al)" using Cons.prems(2) by simp
    show "req_req_id q' = Some r' \<and> req_symbols q' \<noteq> [] \<and> set (req_symbols q') \<subseteq> K \<and>
      map_of (subscriptions ?t) r' = None \<and> (\<forall>s \<in> set (req_symbols q'). table_owner ?t (intern s) = None)"
      if m: "(r', q') \<in> set al" for r' q'
    proof -
      have "intern s \<notin> intern ` set (req_symbols q)" if "s \<in> set (req_symbols q')" for s
        using Cons.prems(4) [of r q r' q' _ s] m a that new [OF m] by fastforce
      then show ?thesis
        using Cons.prems(3) [of r' q'] m a new [OF m] by (auto simp: F(2) fresh(2))
    qed
    show "r' = r''" if "(r', q') \<in> set al" "(r'', q'') \<in> set al" "s \<in> set (req_symbols q')"
      "s' \<in> set (req_symbols q'')" "intern s = intern s'" for r' q' r'' q'' s s'
      using Cons.prems(4) [of r' q' r'' q'' s s'] that by simp
  qed
  have m: "(map_of (subscriptions t))(r \<mapsto> q) ++ map_of al = map_of (subscriptions t) ++ map_of (a # al)"
  proof -
    have "map_of al r = None" using Cons.prems(2) a by (simp add: map_of_eq_None_iff)
    then show ?thesis unfolding a by (simp add: map_add_def fun_eq_iff split: option.split)
  qed
  have "table_add_all intern (map snd (a # al)) t = table_add_all intern (map snd al) ?t"
    by (simp add: table_add_all_def a)
  with IH show ?case by (simp only: fresh(2) m)
qed

lemma table_replay:
  assumes ok: "table_ok K intern t"
  defines "t' \<equiv> table_add_all intern (snd (table_take_subscriptions t)) (fst (table_take_subscriptions t))"
  shows "table_ok K intern t'" and "map_of (subscriptions t') = map_of (subscriptions t)"
    and "table_owner t' = table_owner t"
proof -
  have e: "fst (table_take_subscriptions t) = Table_init"
    by (simp add: table_take_subscriptions_def table_clear_def Table_init_def)
  note entry = map_of_eq_Some_iff [OF table_okD(1) [OF ok], symmetric]
  have "table_ok K intern t' \<and> map_of (subscriptions t') = map_of (subscriptions Table_init) ++ map_of (subscriptions t)"
    unfolding t'_def e unfolding table_take_subscriptions_def snd_conv
  proof (rule table_add_all_fresh [OF table_ok_init table_okD(1) [OF ok]])
    show "r = r'" if "(r, q) \<in> set (subscriptions t)" "(r', q') \<in> set (subscriptions t)"
      "s \<in> set (req_symbols q)" "s' \<in> set (req_symbols q')" "intern s = intern s'" for r q r' q' s s'
      using that table_okD(6) [OF ok, of "intern s" r] table_okD(6) [OF ok, of "intern s" r']
      unfolding entry by (metis imageI option.inject)
  qed (use table_okD(3-5) [OF ok] in \<open>auto simp: entry Table_init_def table_owner_def\<close>)
  then show 1: "table_ok K intern t'" and 2: "map_of (subscriptions t') = map_of (subscriptions t)"
    by (simp_all add: Table_init_def)
  have "table_owner t' sid = Some r \<longleftrightarrow> table_owner t sid = Some r" for sid r
    unfolding table_okD(6) [OF 1] table_okD(6) [OF ok] 2 ..
  then show "table_owner t' = table_owner t" by (metis ext not_None_eq)
qed

section \<open>The contract of a store of subscription intent\<close>

locale intent_store =
  fixes ok :: "'t \<Rightarrow> bool"
    and known :: "'x \<Rightarrow> bool"
    and ident :: "'x \<Rightarrow> 's"
    and owner :: "'t \<Rightarrow> 's \<Rightarrow> 'r option"
    and drop :: "'t \<Rightarrow> 'x \<Rightarrow> 't"
    and reject :: "'t \<Rightarrow> 'r \<Rightarrow> 'x \<Rightarrow> 't \<times> bool"
  assumes drop_ok: "ok t \<Longrightarrow> known x \<Longrightarrow> ok (drop t x)"
    and owner_drop: "ok t \<Longrightarrow> known x \<Longrightarrow> owner (drop t x) = (owner t)(ident x := None)"
    and reject_ok: "ok t \<Longrightarrow> known x \<Longrightarrow> ok (fst (reject t r x))"
    and reject_hit: "ok t \<Longrightarrow> known x \<Longrightarrow> snd (reject t r x) \<longleftrightarrow> owner t (ident x) = Some r"
    and owner_reject: "ok t \<Longrightarrow> known x \<Longrightarrow> owner (fst (reject t r x)) =
      (if owner t (ident x) = Some r then (owner t)(ident x := None) else owner t)"
begin

lemma drop_all:
  "ok t \<Longrightarrow> \<forall>x \<in> set xs. known x \<Longrightarrow>
   ok (fold (\<lambda>x t. drop t x) xs t) \<and>
   owner (fold (\<lambda>x t. drop t x) xs t) = (\<lambda>s. if s \<in> ident ` set xs then None else owner t s)"
  by (induction xs arbitrary: t) (auto simp: drop_ok owner_drop fun_eq_iff)

lemma drop_stays: "ok t \<Longrightarrow> known x \<Longrightarrow> known y \<Longrightarrow> owner (drop (drop t x) y) (ident x) = None"
  by (simp add: owner_drop drop_ok)

lemma reject_stays:
  "ok t \<Longrightarrow> known x \<Longrightarrow> owner t (ident x) = Some r \<Longrightarrow> \<not> snd (reject (fst (reject t r x)) r x)"
  by (simp add: reject_hit reject_ok owner_reject)

end

definition interned :: "symbol set \<Rightarrow> (symbol \<Rightarrow> symbol_id) \<Rightarrow> symbol \<Rightarrow> bool" where
  "interned K intern x \<longleftrightarrow> x \<in> K \<and> inj_on intern K"

interpretation table: intent_store "table_ok K intern" "interned K intern" intern table_owner
  "table_erase_symbol intern" "table_try_process_rejection intern" for K intern
  by unfold_locales (simp_all add: interned_def table_erase_facts table_rejection_facts)

section \<open>Database\<close>

text \<open>One table per subscription type.\<close>

datatype sub_params =
    TradeParams (tp_snapshot: "bool option")
  | BookParams (bp_depth: "u32 option") (bp_snapshot: "bool option")

type_synonym sub_request = "sub_params request"
type_synonym sub_table = "sub_params replay_table"

record database =
  trade_table :: sub_table
  book_table :: sub_table

definition Database_init :: database where
  "Database_init = \<lparr>trade_table = Table_init, book_table = Table_init\<rparr>"

fun db_table :: "domain \<Rightarrow> database \<Rightarrow> sub_table" where
  "db_table TradeDomain db = trade_table db"
| "db_table BookDomain db = book_table db"

fun db_set_table :: "domain \<Rightarrow> database \<Rightarrow> sub_table \<Rightarrow> database" where
  "db_set_table TradeDomain db t = db\<lparr>trade_table := t\<rparr>"
| "db_set_table BookDomain db t = db\<lparr>book_table := t\<rparr>"

lemma db_table_set [simp]:
  "db_table d (db_set_table d' db t) = (if d = d' then t else db_table d db)"
  by (cases d; cases d') simp_all

definition db_add :: "(symbol \<Rightarrow> symbol_id) \<Rightarrow> domain \<Rightarrow> database \<Rightarrow> sub_request \<Rightarrow> database" where
  "db_add intern d db req = db_set_table d db (fst (table_add intern (db_table d db) req))"

definition db_remove :: "(symbol \<Rightarrow> symbol_id) \<Rightarrow> domain \<Rightarrow> database \<Rightarrow> sub_request \<Rightarrow> database" where
  "db_remove intern d db req =
     db_set_table d db (fold (\<lambda>symbol t. table_erase_symbol intern t symbol) (req_symbols req) (db_table d db))"

definition db_remove_symbol :: "(symbol \<Rightarrow> symbol_id) \<Rightarrow> domain \<Rightarrow> database \<Rightarrow> symbol \<Rightarrow> database" where
  "db_remove_symbol intern d db symbol =
     db_set_table d db (table_erase_symbol intern (db_table d db) symbol)"

definition db_try_process_rejection ::
  "(symbol \<Rightarrow> symbol_id) \<Rightarrow> database \<Rightarrow> req_id \<Rightarrow> symbol \<Rightarrow> database \<times> bool" where
  "db_try_process_rejection intern db r symbol =
     (let (t1, done1) = table_try_process_rejection intern (trade_table db) r symbol;
          db1 = db\<lparr>trade_table := t1\<rparr> in
      if done1 then (db1, True)
      else let (t2, done2) = table_try_process_rejection intern (book_table db1) r symbol in
           (db1\<lparr>book_table := t2\<rparr>, done2))"

definition db_take_subscriptions :: "domain \<Rightarrow> database \<Rightarrow> database \<times> sub_request list" where
  "db_take_subscriptions d db =
     (let (t, subs) = table_take_subscriptions (db_table d db) in (db_set_table d db t, subs))"

definition db_clear_all :: "database \<Rightarrow> database" where
  "db_clear_all db = db\<lparr>trade_table := table_clear (trade_table db), book_table := table_clear (book_table db)\<rparr>"

definition db_total_requests :: "database \<Rightarrow> nat" where
  "db_total_requests db = table_total_requests (trade_table db) + table_total_requests (book_table db)"

definition db_total_symbols :: "database \<Rightarrow> nat" where
  "db_total_symbols db = table_total_symbols (trade_table db) + table_total_symbols (book_table db)"

definition db_ok :: "symbol set \<Rightarrow> (symbol \<Rightarrow> symbol_id) \<Rightarrow> database \<Rightarrow> bool" where
  "db_ok K intern db \<longleftrightarrow> (\<forall>d. table_ok K intern (db_table d db))"

lemma db_ok_init [inv_intros]: "db_ok K intern Database_init"
  unfolding db_ok_def
proof
  fix d show "table_ok K intern (db_table d Database_init)"
    by (cases d) (simp_all add: Database_init_def table_ok_init)
qed

lemma table_ok_add:
  assumes "table_ok K intern t" and "set (req_symbols req) \<subseteq> K"
  shows "table_ok K intern (fst (table_add intern t req))"
proof (cases "table_accepts intern t req")
  case True
  then obtain r where "req_req_id req = Some r" by (auto simp: table_accepts_def)
  with table_add_facts(1) [OF assms True] show ?thesis by blast
qed (simp add: table_add_reject assms(1))

lemma db_ok_add:
  "db_ok K intern db \<Longrightarrow> set (req_symbols req) \<subseteq> K \<Longrightarrow> db_ok K intern (db_add intern d db req)"
  by (simp add: db_ok_def db_add_def table_ok_add)

lemma db_ok_remove_symbol:
  "db_ok K intern db \<Longrightarrow> interned K intern symbol \<Longrightarrow> db_ok K intern (db_remove_symbol intern d db symbol)"
  by (simp add: db_ok_def db_remove_symbol_def table.drop_ok)

lemma db_ok_domains: "db_ok K intern db \<longleftrightarrow> table_ok K intern (trade_table db) \<and> table_ok K intern (book_table db)"
  unfolding db_ok_def by (metis db_table.simps domain.exhaust)

lemma db_rejection_facts:
  assumes "db_ok K intern db" and "interned K intern symbol"
  shows "db_ok K intern (fst (db_try_process_rejection intern db r symbol))"
    and "\<forall>d. snd (table_try_process_rejection intern (db_table d db) r symbol) \<longrightarrow>
      snd (db_try_process_rejection intern db r symbol)"
proof -
  have t: "table_ok K intern (trade_table db)" "table_ok K intern (book_table db)"
    using assms(1) by (simp_all add: db_ok_domains)
  note r = table.reject_ok [OF _ assms(2), of _ r]
  show "db_ok K intern (fst (db_try_process_rejection intern db r symbol))"
    using r [OF t(1)] r [OF t(2)] t
    by (auto simp: db_try_process_rejection_def db_ok_domains Let_def split: prod.split)
  show "\<forall>d. snd (table_try_process_rejection intern (db_table d db) r symbol) \<longrightarrow>
      snd (db_try_process_rejection intern db r symbol)"
  proof (intro allI impI)
    fix d assume "snd (table_try_process_rejection intern (db_table d db) r symbol)"
    then show "snd (db_try_process_rejection intern db r symbol)"
      by (cases d) (auto simp: db_try_process_rejection_def Let_def split: prod.split)
  qed
qed

section \<open>Properties\<close>

lemma distinct_owner_count:
  assumes "table_ok K intern t"
  shows "length (symbol_owner t) = card (dom (table_owner t))"
  using table_okD(2) [OF assms] distinct_card [of "map fst (symbol_owner t)"]
  by (simp add: table_owner_def dom_map_of_conv_image_fst)

lemma sum_list_le_imp_eq:
  fixes f g :: "'a \<Rightarrow> nat"
  assumes "\<And>x. x \<in> set xs \<Longrightarrow> f x \<le> g x"
  shows "sum_list (map g xs) = sum_list (map f xs) \<longleftrightarrow> (\<forall>x \<in> set xs. f x = g x)"
  using assms
proof (induction xs)
  case (Cons a xs)
  have le: "f a \<le> g a" "sum_list (map f xs) \<le> sum_list (map g xs)"
    using Cons.prems by (auto intro: sum_list_mono)
  then have "sum_list (map g (a # xs)) = sum_list (map f (a # xs)) \<longleftrightarrow>
      g a = f a \<and> sum_list (map g xs) = sum_list (map f xs)" by simp linarith
  with Cons show ?case by auto
qed simp

text \<open>The number of owned symbols, summed over the stored requests.\<close>

lemma owned_sum:
  assumes ok: "table_ok K intern t" and inj: "inj_on intern K"
  shows "card (dom (table_owner t)) =
    sum_list (map (\<lambda>(_, req). card (set (req_symbols req))) (subscriptions t))"
proof -
  let ?I = "\<lambda>req. intern ` set (req_symbols req)"
  note d = table_okD(1) [OF ok]
  have dom: "dom (table_owner t) = (\<Union>p \<in> set (subscriptions t). ?I (snd p))"
  proof (rule set_eqI)
    fix sid
    have "sid \<in> dom (table_owner t) \<longleftrightarrow>
        (\<exists>r req. map_of (subscriptions t) r = Some req \<and> sid \<in> ?I req)"
      unfolding domIff not_None_eq table_okD(6) [OF ok] ..
    then show "sid \<in> dom (table_owner t) \<longleftrightarrow> sid \<in> (\<Union>p \<in> set (subscriptions t). ?I (snd p))"
      using d by force
  qed
  have disj: "?I (snd p) \<inter> ?I (snd p') = {}"
    if "p \<in> set (subscriptions t)" "p' \<in> set (subscriptions t)" "p \<noteq> p'" for p p'
  proof -
    have m: "map_of (subscriptions t) (fst p) = Some (snd p)" "map_of (subscriptions t) (fst p') = Some (snd p')"
      using that d by simp_all
    then have "fst p \<noteq> fst p'" using that(3) by (metis option.inject prod_eqI)
    then show ?thesis
      using m table_okD(6) [OF ok, of _ "fst p"] table_okD(6) [OF ok, of _ "fst p'"]
      by (metis disjoint_iff option.inject)
  qed
  have c: "card (?I (snd p)) = card (set (req_symbols (snd p)))" if "p \<in> set (subscriptions t)" for p
    using that table_okD(5) [OF ok, of "fst p" "snd p"] inj d
    by (intro card_image) (simp add: inj_on_subset)
  have "card (dom (table_owner t)) = (\<Sum>p \<in> set (subscriptions t). card (?I (snd p)))"
    unfolding dom by (rule card_UN_disjoint) (use disj in auto)
  also have "\<dots> = (\<Sum>p \<in> set (subscriptions t). card (set (req_symbols (snd p))))" by (simp add: c)
  also have "\<dots> = sum_list (map (\<lambda>p. card (set (req_symbols (snd p)))) (subscriptions t))"
    using d by (simp add: sum_list_distinct_conv_sum_set distinct_map)
  finally show ?thesis by (simp add: case_prod_unfold)
qed

text \<open>C24: the replay table implements a finite map from a symbol to the request that will be
  replayed for it. \<^verbatim>\<open>add\<close> is first-write-wins: it files the request with exactly the symbols
  nobody owns, and refuses it when none is left, when it has no id or when its id is
  taken; \<^verbatim>\<open>erase_symbol\<close> frees the symbol whoever owns it; a rejection frees it only
  for the owning request. Each operation keeps the owner index the exact inverse of the
  stored requests.\<close>

theorem replay_refines_owner_map:
  assumes "table_ok K intern t" and "inj_on intern K" and "set (req_symbols req) \<subseteq> K" and "symbol \<in> K"
  shows "snd (table_add intern t req) = table_accepts intern t req \<and>
    table_ok K intern (fst (table_add intern t req)) \<and>
    table_owner (fst (table_add intern t req)) = (\<lambda>sid.
      if table_accepts intern t req \<and> table_owner t sid = None \<and> sid \<in> intern ` set (req_symbols req)
      then req_req_id req else table_owner t sid) \<and>
    table_ok K intern (table_erase_symbol intern t symbol) \<and>
    table_owner (table_erase_symbol intern t symbol) = (table_owner t)(intern symbol := None) \<and>
    table_ok K intern (fst (table_try_process_rejection intern t r symbol)) \<and>
    table_owner (fst (table_try_process_rejection intern t r symbol)) =
      (if table_owner t (intern symbol) = Some r then (table_owner t)(intern symbol := None) else table_owner t)"
proof -
  have "snd (table_add intern t req) = table_accepts intern t req \<and>
    table_ok K intern (fst (table_add intern t req)) \<and>
    table_owner (fst (table_add intern t req)) = (\<lambda>sid.
      if table_accepts intern t req \<and> table_owner t sid = None \<and> sid \<in> intern ` set (req_symbols req)
      then req_req_id req else table_owner t sid)"
  proof (cases "table_accepts intern t req")
    case True
    then obtain r where r: "req_req_id req = Some r" by (auto simp: table_accepts_def)
    show ?thesis
      using True r table_add_facts [OF assms(1,3) True r] table_add_accept [OF True r] by (simp add: fun_eq_iff)
  qed (simp add: table_add_reject assms(1))
  moreover have "interned K intern symbol" using assms by (simp add: interned_def)
  ultimately show ?thesis
    using table.drop_ok [OF assms(1)] table.owner_drop [OF assms(1)] table.reject_ok [OF assms(1)]
      table.owner_reject [OF assms(1)] by simp
qed

definition demo_table :: sub_table where
  "demo_table = \<lparr>subscriptions = [(10, \<lparr>req_symbols = [''A'', ''BB''], req_req_id = Some 10,
     req_params = TradeParams None\<rparr>)], symbol_owner = [(1, 10), (2, 10)]\<rparr>"

definition name_length :: "symbol \<Rightarrow> symbol_id" where
  "name_length x = of_nat (length x)"

lemma demo_table_ok: "table_ok {''A'', ''BB'', ''CCC''} name_length demo_table"
  by (auto simp: table_ok_def demo_table_def table_owner_def name_length_def split: if_splits)

lemma name_length_inj: "inj_on name_length {''A'', ''BB'', ''CCC''}"
  by (simp add: inj_on_def name_length_def)

theorem replay_refines_owner_map_witness:
  "snd (table_add name_length demo_table
      \<lparr>req_symbols = [''A'', ''CCC''], req_req_id = Some 11, req_params = TradeParams None\<rparr>) \<and>
   table_owner (table_erase_symbol name_length demo_table ''BB'') 2 = None"
  using replay_refines_owner_map [OF demo_table_ok name_length_inj, of
      "\<lparr>req_symbols = [''A'', ''CCC''], req_req_id = Some 11, req_params = TradeParams None\<rparr>" "''BB''" 10]
  by (simp add: table_accepts_def demo_table_def table_owner_def name_length_def)

text \<open>Taking all subscriptions out of a table and adding them back, as the replay after a
  reconnect does, restores it: every request is accepted with all its symbols, filed
  under its original id with its original settings, and every symbol has its old owner.\<close>

theorem replay_roundtrip:
  assumes "table_ok K intern t"
  shows "table_ok K intern (table_add_all intern (snd (table_take_subscriptions t)) (fst (table_take_subscriptions t))) \<and>
    map_of (subscriptions (table_add_all intern (snd (table_take_subscriptions t)) (fst (table_take_subscriptions t))))
      = map_of (subscriptions t) \<and>
    table_owner (table_add_all intern (snd (table_take_subscriptions t)) (fst (table_take_subscriptions t)))
      = table_owner t \<and>
    table_empty (fst (table_take_subscriptions t))"
  using table_replay [OF assms]
  by (simp add: table_empty_def table_take_subscriptions_def table_clear_def)

theorem replay_roundtrip_witness:
  "table_owner (table_add_all name_length (snd (table_take_subscriptions demo_table))
     (fst (table_take_subscriptions demo_table))) 2 = Some 10"
  using replay_roundtrip [OF demo_table_ok] by (simp add: demo_table_def table_owner_def)

text \<open>The debug check of the table, that the stored symbols are as many as the owners, holds
  exactly when no stored request names a symbol twice: \<^verbatim>\<open>add\<close> does not remove duplicates
  within one request.\<close>

theorem replay_consistency_iff:
  assumes "table_ok K intern t" and "inj_on intern K"
  shows "table_assert_consistency t \<longleftrightarrow>
    (\<forall>(r, req) \<in> set (subscriptions t). distinct (req_symbols req))"
proof -
  have "table_assert_consistency t \<longleftrightarrow>
      sum_list (map (\<lambda>p. length (req_symbols (snd p))) (subscriptions t)) =
      sum_list (map (\<lambda>p. card (set (req_symbols (snd p)))) (subscriptions t))"
    using owned_sum [OF assms] distinct_owner_count [OF assms(1)]
    by (simp add: table_assert_consistency_def case_prod_unfold)
  also have "\<dots> \<longleftrightarrow> (\<forall>p \<in> set (subscriptions t). card (set (req_symbols (snd p))) = length (req_symbols (snd p)))"
    by (rule sum_list_le_imp_eq) (rule card_length)
  also have "\<dots> \<longleftrightarrow> (\<forall>(r, req) \<in> set (subscriptions t). distinct (req_symbols req))"
    using card_distinct distinct_card by (auto simp: case_prod_unfold)
  finally show ?thesis .
qed

lemma duplicate_request_ok:
  "table_ok {''A'', ''BB'', ''CCC''} name_length (fst (table_add name_length Table_init
     \<lparr>req_symbols = [''A'', ''A''], req_req_id = Some 10, req_params = TradeParams None\<rparr>))"
  by (rule table_add_facts(1) [OF table_ok_init, of _ _ _ 10])
     (simp_all add: table_accepts_def Table_init_def table_owner_def)

theorem replay_consistency_iff_witness:
  "\<not> table_assert_consistency (fst (table_add name_length Table_init
     \<lparr>req_symbols = [''A'', ''A''], req_req_id = Some 10, req_params = TradeParams None\<rparr>))"
  using replay_consistency_iff [OF duplicate_request_ok name_length_inj]
  by (simp add: table_add_def Table_init_def)

end
