(* ===== verification/Parse_Url.thy ===== *)
theory Parse_Url
  imports Prelude
begin

text \<open>
  The transport's error codes (transport/error.hpp) and the WebSocket URL parser
  (transport/parse_url.hpp). A \<^verbatim>\<open>string_view\<close> is a string; \<^verbatim>\<open>find\<close> returns an optional
  position.
\<close>

section \<open>Error codes\<close>

datatype transport_error =
    NoError | InvalidUrl | InvalidState | Cancelled | LocalShutdown | RemoteClosed | Timeout
  | ConnectionFailed | HandshakeFailed | ProtocolError | TransportFailure | Backpressure

fun error_to_string :: "transport_error \<Rightarrow> string" where
  "error_to_string NoError = ''None''"
| "error_to_string InvalidUrl = ''InvalidUrl''"
| "error_to_string InvalidState = ''InvalidState''"
| "error_to_string Cancelled = ''Cancelled''"
| "error_to_string LocalShutdown = ''LocalShutdown''"
| "error_to_string RemoteClosed = ''RemoteClosed''"
| "error_to_string Timeout = ''Timeout''"
| "error_to_string ConnectionFailed = ''ConnectionFailed''"
| "error_to_string HandshakeFailed = ''HandshakeFailed''"
| "error_to_string ProtocolError = ''ProtocolError''"
| "error_to_string TransportFailure = ''TransportFailure''"
| "error_to_string Backpressure = ''Backpressure''"

section \<open>Parser\<close>

record parsed_url =
  secure :: bool
  host :: string
  port :: u16
  path :: string

fun find_char :: "char \<Rightarrow> string \<Rightarrow> nat option" where
  "find_char c [] = None"
| "find_char c (x # xs) = (if x = c then Some 0 else map_option Suc (find_char c xs))"

definition starts_with :: "string \<Rightarrow> string \<Rightarrow> bool" where
  "starts_with s p \<longleftrightarrow> take (length p) s = p"

definition digit_value :: "char \<Rightarrow> nat" where
  "digit_value c = of_char c - 48"

definition is_digit :: "char \<Rightarrow> bool" where
  "is_digit c \<longleftrightarrow> 48 \<le> (of_char c :: nat) \<and> (of_char c :: nat) \<le> 57"

text \<open>The port loop, in 32-bit arithmetic; \<open>None\<close> is the early \<^verbatim>\<open>return Error::InvalidUrl\<close>.\<close>

fun parse_port :: "u32 \<Rightarrow> string \<Rightarrow> u32 option" where
  "parse_port p [] = Some p"
| "parse_port p (c # cs) =
     (if \<not> is_digit c then None
      else let p' = p * 10 + of_nat (digit_value c) in
           if p' \<ge> 65535 then None else parse_port p' cs)"

definition split_hostport :: "bool \<Rightarrow> string \<Rightarrow> (string \<times> u16) option" where
  "split_hostport sec hostport =
     (case find_char (CHR '':'') hostport of
        None \<Rightarrow> Some (hostport, if sec then 443 else 80)
      | Some colon \<Rightarrow>
          let h = take colon hostport; port_str = drop (colon + 1) hostport in
          if port_str = [] then None
          else case parse_port 0 port_str of
                 None \<Rightarrow> None
               | Some p \<Rightarrow> if p = 0 then None else Some (h, ucast p))"

definition parse_url :: "string \<Rightarrow> transport_error + parsed_url" where
  "parse_url url =
     (let scheme = (if starts_with url ''ws://'' then Some (False, 5)
                    else if starts_with url ''wss://'' then Some (True, 6) else None) in
      case scheme of
        None \<Rightarrow> Inl InvalidUrl
      | Some (sec, pos) \<Rightarrow>
          let rest = drop pos url; slash = find_char (CHR ''/'') rest;
              hostport = (case slash of None \<Rightarrow> rest | Some i \<Rightarrow> take i rest) in
          if hostport = [] then Inl InvalidUrl
          else case split_hostport sec hostport of
                 None \<Rightarrow> Inl InvalidUrl
               | Some (h, p) \<Rightarrow>
                   let pth = (case slash of None \<Rightarrow> ''/'' | Some i \<Rightarrow> drop i rest) in
                   if pth = [] \<or> hd pth \<noteq> CHR ''/'' then Inl InvalidUrl
                   else Inr \<lparr>secure = sec, host = h, port = p, path = pth\<rparr>)"

section \<open>Facts\<close>

lemma find_char_Some_iff:
  "find_char c s = Some i \<longleftrightarrow> i < length s \<and> s ! i = c \<and> c \<notin> set (take i s)"
proof (induction s arbitrary: i)
  case (Cons x xs)
  show ?case by (cases i) (auto simp: Cons.IH)
qed simp

lemma find_char_None_iff: "find_char c s = None \<longleftrightarrow> c \<notin> set s"
  by (induction s) auto

lemma find_char_append: "c \<notin> set xs \<Longrightarrow> find_char c (xs @ c # ys) = Some (length xs)"
  by (simp add: find_char_Some_iff)

text \<open>The value a digit string denotes.\<close>

definition dec_value :: "nat \<Rightarrow> string \<Rightarrow> nat" where
  "dec_value n s = fold (\<lambda>c n. n * 10 + digit_value c) s n"

lemma dec_value_mono: "n \<le> dec_value n s"
proof (induction s arbitrary: n)
  case (Cons c s)
  have "n \<le> n * 10 + digit_value c" by simp
  also have "\<dots> \<le> dec_value (n * 10 + digit_value c) s" by (rule Cons)
  finally show ?case by (simp add: dec_value_def)
qed (simp add: dec_value_def)

lemma digit_value_le: "is_digit c \<Longrightarrow> digit_value c \<le> 9"
  unfolding is_digit_def digit_value_def by linarith

lemma parse_port_spec:
  "unat p < 65535 \<Longrightarrow>
   parse_port p s = (if (\<forall>c \<in> set s. is_digit c) \<and> dec_value (unat p) s < 65535
     then Some (of_nat (dec_value (unat p) s)) else None)"
proof (induction p s rule: parse_port.induct)
  case (1 p)
  then show ?case by (simp add: dec_value_def)
next
  case (2 p c cs)
  show ?case
  proof (cases "is_digit c")
    case True
    let ?p = "p * 10 + of_nat (digit_value c) :: u32"
    have "unat p * 10 + digit_value c < 2 ^ 32" using 2(2) digit_value_le [OF True] by simp
    then have u: "unat ?p = unat p * 10 + digit_value c"
      by (simp add: unat_word_ariths unsigned_of_nat take_bit_nat_eq_self)
    have step: "dec_value (unat p) (c # cs) = dec_value (unat ?p) cs" by (simp add: dec_value_def u)
    show ?thesis
    proof (cases "?p \<ge> 65535")
      case big: True
      then have "65535 \<le> unat ?p" by (simp add: word_le_nat_alt)
      then have "\<not> dec_value (unat p) (c # cs) < 65535"
        using dec_value_mono [of "unat ?p" cs] step by simp
      then show ?thesis using True big by (simp add: Let_def)
    next
      case False
      then have lt: "unat ?p < 65535" by (simp add: word_le_nat_alt)
      from 2(1) [OF _ refl False lt] True False step show ?thesis by (simp add: Let_def)
    qed
  qed simp
qed

text \<open>The decimal numeral of a number, and the URL of an endpoint, whose port and path may be left out.\<close>

fun dec_digits :: "nat \<Rightarrow> string" where
  "dec_digits n = (if n < 10 then [char_of (48 + n)] else dec_digits (n div 10) @ [char_of (48 + n mod 10)])"

declare dec_digits.simps [simp del]

lemma digit_char: "n < 10 \<Longrightarrow> is_digit (char_of (48 + n)) \<and> digit_value (char_of (48 + n)) = n"
  by (simp add: is_digit_def digit_value_def)

lemma dec_digits_facts:
  "dec_digits n \<noteq> [] \<and> (\<forall>c \<in> set (dec_digits n). is_digit c) \<and> dec_value 0 (dec_digits n) = n"
proof (induction n rule: dec_digits.induct)
  case (1 n)
  show ?case
  proof (cases "n < 10")
    case True
    then show ?thesis using digit_char [OF True] by (subst (1 2 3) dec_digits.simps) (simp add: dec_value_def)
  next
    case False
    have m: "n mod 10 < 10" by simp
    note ih = 1 [OF False]
    show ?thesis
      using False ih digit_char [OF m] by (subst (1 2 3) dec_digits.simps) (simp add: dec_value_def)
  qed
qed

definition render_url :: "bool \<Rightarrow> string \<Rightarrow> nat option \<Rightarrow> string option \<Rightarrow> string" where
  "render_url sec h pt p =
     (if sec then ''wss://'' else ''ws://'') @ h @ (case pt of None \<Rightarrow> [] | Some n \<Rightarrow> CHR '':'' # dec_digits n) @ (case p of None \<Rightarrow> [] | Some q \<Rightarrow> q)"

lemma digits_no_delimiter: "\<forall>c \<in> set s. is_digit c \<Longrightarrow> CHR ''/'' \<notin> set s \<and> CHR '':'' \<notin> set s"
  by (auto simp: is_digit_def)

lemma split_hostport_explicit:
  assumes "CHR '':'' \<notin> set h"
  shows "split_hostport sec (h @ CHR '':'' # dec_digits n) =
    (if 0 < n \<and> n < 65535 then Some (h, of_nat n) else None)"
proof -
  have "parse_port 0 (dec_digits n) = (if n < 65535 then Some (of_nat n) else None)"
    using parse_port_spec [of 0 "dec_digits n"] dec_digits_facts [of n] by simp
  moreover have "(of_nat n :: u32) = 0 \<longleftrightarrow> n = 0" if "n < 65535"
    using that by (simp add: word_unat_eq_iff unsigned_of_nat take_bit_nat_eq_self)
  moreover have "(ucast (of_nat n :: u32) :: u16) = of_nat n" if "n < 65535"
    using that by (simp add: word_unat_eq_iff unsigned_ucast_eq unsigned_of_nat take_bit_nat_eq_self)
  ultimately show ?thesis
    using dec_digits_facts [of n] find_char_append [OF assms]
    by (simp add: split_hostport_def Let_def)
qed

lemma split_hostport_default:
  assumes "CHR '':'' \<notin> set h"
  shows "split_hostport sec h = Some (h, if sec then 443 else 80)"
  using assms by (simp add: split_hostport_def find_char_None_iff [THEN iffD2])

section \<open>Properties\<close>

text \<open>C39: parsing is the inverse of printing. A host without delimiters, followed by a port or not and by a path that starts with a slash or not, is
  parsed back exactly: an explicit port is the one printed and has to be between 1 and 65534, so that the valid port 65535 is rejected; without one the port is 443 for
  \<^verbatim>\<open>wss\<close> and 80 for \<^verbatim>\<open>ws\<close>, and the host must not be empty; without a path it is a slash.\<close>

theorem parse_url_roundtrip:
  assumes "CHR ''/'' \<notin> set h" and "CHR '':'' \<notin> set h" and "\<forall>q. p = Some q \<longrightarrow> q \<noteq> [] \<and> hd q = CHR ''/''"
  shows "parse_url (render_url sec h pt p) =
    (if (case pt of None \<Rightarrow> h \<noteq> [] | Some n \<Rightarrow> 0 < n \<and> n < 65535)
     then Inr \<lparr>secure = sec, host = h, port = (case pt of None \<Rightarrow> if sec then 443 else 80 | Some n \<Rightarrow> of_nat n),
       path = (case p of None \<Rightarrow> ''/'' | Some q \<Rightarrow> q)\<rparr>
     else Inl InvalidUrl)"
proof -
  define hp where "hp = h @ (case pt of None \<Rightarrow> [] | Some n \<Rightarrow> CHR '':'' # dec_digits n)"
  have hp: "CHR ''/'' \<notin> set hp" using assms(1) digits_no_delimiter dec_digits_facts by (auto simp: hp_def split: option.splits)
  have split: "hp \<noteq> [] \<Longrightarrow> split_hostport sec hp =
    (case pt of None \<Rightarrow> Some (h, if sec then 443 else 80) | Some n \<Rightarrow> if 0 < n \<and> n < 65535 then Some (h, of_nat n) else None)"
    using split_hostport_explicit [OF assms(2)] split_hostport_default [OF assms(2)] by (simp add: hp_def split: option.splits)
  have rest: "render_url sec h pt p = (if sec then ''wss://'' else ''ws://'') @ (hp @ (case p of None \<Rightarrow> [] | Some q \<Rightarrow> q))"
    by (simp add: render_url_def hp_def)
  have ne: "hp = [] \<longleftrightarrow> pt = None \<and> h = []" by (simp add: hp_def split: option.splits)
  show ?thesis
  proof (cases p)
    case None
    then show ?thesis using split hp ne unfolding rest
      by (cases sec; cases pt) (auto simp: parse_url_def starts_with_def Let_def find_char_None_iff [THEN iffD2] split: option.splits if_splits)
  next
    case (Some q)
    then obtain q' where q: "q = CHR ''/'' # q'" using assms(3) by (cases q) auto
    have "find_char (CHR ''/'') (hp @ q) = Some (length hp)" unfolding q using hp by (rule find_char_append)
    then show ?thesis using split ne Some q unfolding rest
      by (cases sec; cases pt) (auto simp: parse_url_def starts_with_def Let_def split: option.splits if_splits)
  qed
qed

theorem parse_url_roundtrip_witness:
  "parse_url ''wss://ws.kraken.com/v2'' = Inr \<lparr>secure = True, host = ''ws.kraken.com'', port = 443, path = ''/v2''\<rparr> \<and>
   parse_url ''ws://h:8080'' = Inr \<lparr>secure = False, host = ''h'', port = 8080, path = ''/''\<rparr> \<and> parse_url ''ws://h:65535/'' = Inl InvalidUrl"
proof -
  have 1: "render_url True ''ws.kraken.com'' None (Some ''/v2'') = ''wss://ws.kraken.com/v2''"
    and 2: "render_url False ''h'' (Some 8080) None = ''ws://h:8080''"
    and 3: "render_url False ''h'' (Some 65535) (Some ''/'') = ''ws://h:65535/''"
    by (simp_all add: render_url_def dec_digits.simps char_of_def bit_0)
  show ?thesis
    using parse_url_roundtrip [of "''ws.kraken.com''" "Some ''/v2''" True None] parse_url_roundtrip [of "''h''" None False "Some 8080"]
      parse_url_roundtrip [of "''h''" "Some ''/''" False "Some 65535"] unfolding 1 2 3 by simp
qed

text \<open>Whatever the input, an accepted URL yields a usable endpoint: the scheme is \<^verbatim>\<open>ws\<close> or
  \<^verbatim>\<open>wss\<close> as the URL says, the port is neither 0 nor 65535, the host contains no delimiter and
  the path starts with a slash; every other input is rejected with \<^verbatim>\<open>InvalidUrl\<close>.\<close>

theorem parse_url_sound:
  "case parse_url url of
     Inl e \<Rightarrow> e = InvalidUrl
   | Inr u \<Rightarrow> starts_with url (if secure u then ''wss://'' else ''ws://'') \<and>
       0 < port u \<and> port u < 65535 \<and> CHR ''/'' \<notin> set (host u) \<and> CHR '':'' \<notin> set (host u) \<and>
       path u \<noteq> [] \<and> hd (path u) = CHR ''/''"
proof (cases "parse_url url")
  case (Inl e)
  then show ?thesis
    by (auto simp: parse_url_def Let_def split: if_splits option.splits prod.splits)
next
  case (Inr u)
  have port: "0 < pt \<and> pt < 65535 \<and> set h \<subseteq> set hp \<and> CHR '':'' \<notin> set h"
    if sh: "split_hostport sec hp = Some (h, pt)" for sec hp h pt
  proof (cases "find_char (CHR '':'') hp")
    case None
    then have "h = hp" "pt = (if sec then 443 else 80)" using that by (simp_all add: split_hostport_def)
    with None show ?thesis by (simp add: find_char_None_iff)
  next
    case (Some i)
    obtain q where q: "parse_port 0 (drop (i + 1) hp) = Some q" "q \<noteq> 0" "pt = ucast q" "h = take i hp"
      using sh unfolding split_hostport_def Some option.case Let_def
      by (cases "parse_port 0 (drop (i + 1) hp)") (auto split: if_splits)
    have "unat q < 65535"
      using q(1) parse_port_spec [of 0 "drop (i + 1) hp"]
      by (auto simp: unsigned_of_nat take_bit_nat_eq_self split: if_splits)
    moreover have "0 < unat q" using q(2) by (simp add: unat_gt_0)
    ultimately have "unat pt = unat q" "unat pt < 65535" "0 < unat pt"
      unfolding q(3) by (simp_all add: unsigned_ucast_eq take_bit_nat_eq_self)
    then show ?thesis
      using q(4) Some by (auto simp: word_less_nat_alt find_char_Some_iff dest: in_set_takeD)
  qed
  have no_slash: "CHR ''/'' \<notin> set (case find_char (CHR ''/'') r of None \<Rightarrow> r | Some i \<Rightarrow> take i r)" for r
    by (auto simp: find_char_None_iff find_char_Some_iff split: option.splits)
  have body: "0 < port u \<and> port u < 65535 \<and> CHR ''/'' \<notin> set (host u) \<and> CHR '':'' \<notin> set (host u) \<and>
      path u \<noteq> [] \<and> hd (path u) = CHR ''/''"
    if "(case split_hostport sec (case find_char (CHR ''/'') r of None \<Rightarrow> r | Some i \<Rightarrow> take i r) of
           None \<Rightarrow> Inl InvalidUrl
         | Some (h, p) \<Rightarrow>
             let pth = (case find_char (CHR ''/'') r of None \<Rightarrow> ''/'' | Some i \<Rightarrow> drop i r) in
             if pth = [] \<or> hd pth \<noteq> CHR ''/'' then Inl InvalidUrl
             else Inr \<lparr>secure = sec, host = h, port = p, path = pth\<rparr>) = Inr u" for sec r
  proof (cases "split_hostport sec (case find_char (CHR ''/'') r of None \<Rightarrow> r | Some i \<Rightarrow> take i r)")
    case (Some hp)
    obtain h pt where hp: "hp = (h, pt)" by fastforce
    show ?thesis
      using that port [OF Some [unfolded hp]] no_slash [of r]
      unfolding Some hp by (auto simp: Let_def split: if_splits)
  qed (use that in simp)
  have scheme: "starts_with url (if secure u then ''wss://'' else ''ws://'')"
    using Inr by (auto simp: parse_url_def Let_def split: if_splits option.splits)
  show ?thesis
    using Inr scheme body [of "drop 5 url" False] body [of "drop 6 url" True]
    by (auto simp: parse_url_def Let_def split: if_splits)
qed

end
