(* ===== verification/Retry_Policy.thy ===== *)
theory Retry_Policy
  imports Parse_Url
begin

text \<open>
  The retry and liveness policies of a connection (policy/transport/retry.hpp, policy/transport/liveness.hpp,
  policy/retry_mode.hpp). A policy is a set of compile-time constants: a record here.
  Durations in milliseconds are integers; \<open>MS_MAX\<close> is \<^verbatim>\<open>std::chrono::milliseconds::max()\<close>.
\<close>

datatype retry_mode = RetryNever | RetryableOnly | RetryAlways

record retry_policy =
  rp_mode :: retry_mode
  rp_max_attempts :: nat
  rp_max_exponent :: nat
  fast_base :: int
  normal_base :: int
  slow_base :: int
  fast_cap :: int
  normal_cap :: int
  slow_cap :: int

definition retry_disabled :: retry_policy where
  "retry_disabled = \<lparr>rp_mode = RetryNever, rp_max_attempts = 0, rp_max_exponent = 1,
     fast_base = 0, normal_base = 0, slow_base = 0, fast_cap = 0, normal_cap = 0, slow_cap = 0\<rparr>"

definition retry_exponential :: "retry_mode \<Rightarrow> nat \<Rightarrow> nat \<Rightarrow> retry_policy" where
  "retry_exponential mode max_exponent max_attempts =
     \<lparr>rp_mode = mode, rp_max_attempts = max_attempts, rp_max_exponent = max_exponent,
      fast_base = 50, normal_base = 100, slow_base = 250,
      fast_cap = 1000, normal_cap = 5000, slow_cap = 10000\<rparr>"

definition MS_MAX :: int where "MS_MAX = 2 ^ 63 - 1"

text \<open>\<^verbatim>\<open>base * (1u << attempt)\<close>: the shift is on 32 bits. C++ leaves it undefined from an exponent of 32 on, which \<^verbatim>\<open>RetryConcept\<close> does not exclude; here it is then 0.\<close>

definition compute_backoff :: "retry_policy \<Rightarrow> int \<Rightarrow> int \<Rightarrow> nat \<Rightarrow> int" where
  "compute_backoff pol base cap attempt =
     (let attempt' = (if attempt > rp_max_exponent pol then rp_max_exponent pol else attempt);
          delay = base * uint (push_bit attempt' (1 :: u32)) in
      if delay > cap then cap else delay)"

definition backoff :: "retry_policy \<Rightarrow> transport_error \<Rightarrow> nat \<Rightarrow> int" where
  "backoff pol e attempt0 =
     (if rp_mode pol = RetryNever then MS_MAX
      else let attempt = min attempt0 (rp_max_exponent pol) in
        case e of
          RemoteClosed \<Rightarrow> compute_backoff pol (fast_base pol) (fast_cap pol) attempt
        | Timeout \<Rightarrow> compute_backoff pol (fast_base pol) (fast_cap pol) attempt
        | Backpressure \<Rightarrow> compute_backoff pol (fast_base pol) (fast_cap pol) attempt
        | ConnectionFailed \<Rightarrow> compute_backoff pol (normal_base pol) (normal_cap pol) attempt
        | HandshakeFailed \<Rightarrow> compute_backoff pol (normal_base pol) (normal_cap pol) attempt
        | TransportFailure \<Rightarrow> compute_backoff pol (slow_base pol) (slow_cap pol) attempt
        | _ \<Rightarrow> MS_MAX)"

definition should_retry :: "retry_policy \<Rightarrow> transport_error \<Rightarrow> bool" where
  "should_retry pol e =
     (if rp_mode pol = RetryNever then False
      else if rp_mode pol = RetryAlways then True
      else case e of
          ConnectionFailed \<Rightarrow> True | HandshakeFailed \<Rightarrow> True | Timeout \<Rightarrow> True
        | RemoteClosed \<Rightarrow> True | TransportFailure \<Rightarrow> True | _ \<Rightarrow> False)"

record liveness_policy =
  lp_enabled :: bool
  lp_timeout :: int
  lp_warning_percent :: int

definition liveness_disabled :: liveness_policy where
  "liveness_disabled = \<lparr>lp_enabled = False, lp_timeout = 0, lp_warning_percent = 0\<rparr>"

definition liveness_enabled :: "int \<Rightarrow> int \<Rightarrow> liveness_policy" where
  "liveness_enabled t w = \<lparr>lp_enabled = True, lp_timeout = t, lp_warning_percent = w\<rparr>"

text \<open>The semantic part of \<^verbatim>\<open>LivenessConcept\<close>.\<close>

definition liveness_valid :: "liveness_policy \<Rightarrow> bool" where
  "liveness_valid l \<longleftrightarrow> lp_enabled l \<longrightarrow>
     lp_timeout l > 0 \<and> 0 < lp_warning_percent l \<and> lp_warning_percent l < 100"

section \<open>Facts\<close>

lemma shift_is_power: "n < 32 \<Longrightarrow> uint ((2 :: u32) ^ n) = 2 ^ n"
  by (simp add: uint_nat unsigned_of_nat [of "2 ^ n", simplified] take_bit_nat_eq_self)

lemma compute_backoff_power:
  "rp_max_exponent pol < 32 \<Longrightarrow> compute_backoff pol base cap a = min cap (base * 2 ^ min a (rp_max_exponent pol))"
  by (auto simp: compute_backoff_def Let_def shift_is_power min_def)

lemma compute_backoff_mono:
  assumes "0 \<le> base" and "a \<le> b" and "rp_max_exponent pol < 32"
  shows "compute_backoff pol base cap a \<le> compute_backoff pol base cap b"
proof -
  have "(2 :: int) ^ min a (rp_max_exponent pol) \<le> 2 ^ min b (rp_max_exponent pol)" using assms(2) by (intro power_increasing) auto
  then have "base * 2 ^ min a (rp_max_exponent pol) \<le> base * 2 ^ min b (rp_max_exponent pol)" using assms(1) by (rule mult_left_mono)
  then show ?thesis by (simp add: compute_backoff_power [OF assms(3)] min.coboundedI2)
qed

lemma compute_backoff_bounds:
  assumes "0 \<le> base" and "base \<le> cap" and "rp_max_exponent pol < 32"
  shows "base \<le> compute_backoff pol base cap a \<and> compute_backoff pol base cap a \<le> cap"
proof -
  have "base * 1 \<le> base * 2 ^ min a (rp_max_exponent pol)" using assms(1) by (intro mult_left_mono) auto
  then show ?thesis using assms by (simp add: compute_backoff_power)
qed

lemma backoff_le:
  assumes "should_retry (retry_exponential RetryableOnly me ma) e" and "me < 32"
  shows "0 \<le> backoff (retry_exponential RetryableOnly me ma) e a \<and>
    backoff (retry_exponential RetryableOnly me ma) e a \<le> 10000"
proof -
  let ?p = "retry_exponential RetryableOnly me ma"
  have "rp_max_exponent ?p < 32" using assms(2) by (simp add: retry_exponential_def)
  then have "0 \<le> compute_backoff ?p base cap n \<and> compute_backoff ?p base cap n \<le> 10000"
    if "0 \<le> base" "base \<le> cap" "cap \<le> 10000" for base cap n
    using that compute_backoff_bounds [of base cap ?p n] by force
  with assms(1) show ?thesis
    by (cases e) (simp_all add: should_retry_def backoff_def retry_exponential_def Let_def)
qed

section \<open>Properties\<close>

text \<open>With the exponential policy and an exponent below 32 every error that the retryable-only mode retries has a
  delay between 50 ms and 10 s that never decreases with the attempt number, and an error
  that is not retried in that mode, except backpressure, has the delay
  \<^verbatim>\<open>milliseconds::max()\<close>.\<close>

theorem backoff_retryable_bounds:
  assumes "mode \<noteq> RetryNever" and "a \<le> b" and "me < 32"
  shows "(should_retry (retry_exponential RetryableOnly me ma) e \<longrightarrow>
      50 \<le> backoff (retry_exponential mode me ma) e a \<and>
      backoff (retry_exponential mode me ma) e a \<le> backoff (retry_exponential mode me ma) e b \<and>
      backoff (retry_exponential mode me ma) e b \<le> 10000) \<and>
    (\<not> should_retry (retry_exponential RetryableOnly me ma) e \<and> e \<noteq> Backpressure \<longrightarrow>
      backoff (retry_exponential mode me ma) e a = MS_MAX)"
proof -
  let ?p = "retry_exponential mode me ma"
  have le: "min a me \<le> min b me" using assms(2) by simp
  have e: "rp_max_exponent ?p < 32" using assms(3) by (simp add: retry_exponential_def)
  have c: "50 \<le> compute_backoff ?p base cap (min a me) \<and>
      compute_backoff ?p base cap (min a me) \<le> compute_backoff ?p base cap (min b me) \<and>
      compute_backoff ?p base cap (min b me) \<le> 10000" if "50 \<le> base" "base \<le> cap" "cap \<le> 10000" for base cap
    using that e compute_backoff_bounds [of base cap ?p "min a me"] compute_backoff_bounds [of base cap ?p "min b me"]
      compute_backoff_mono [OF _ le e, of base cap] by force
  show ?thesis
    using assms(1) c [of 50 1000] c [of 100 5000] c [of 250 10000]
    by (cases e) (simp_all add: should_retry_def backoff_def retry_exponential_def Let_def)
qed

theorem backoff_retryable_bounds_witness:
  "backoff (retry_exponential RetryableOnly 6 0) RemoteClosed 1 = 100 \<and>
   backoff (retry_exponential RetryableOnly 6 0) RemoteClosed 9 \<le> 10000"
  using backoff_retryable_bounds [of RetryableOnly 1 9 6 0 RemoteClosed]
  by (simp add: should_retry_def retry_exponential_def backoff_def compute_backoff_def)

end
