(* ===== verification/Connection.thy ===== *)
theory Connection
  imports Retry_Policy Bounded_Queue
begin

text \<open>
  \<^verbatim>\<open>transport::Connection\<close> (transport/connection.hpp): the state machine of one logical
  connection over a sequence of short-lived transports, with retries, liveness and a
  bounded ring of signals. The three rings are bounded lists, the specification that the
  ring buffers are proved to implement (theories \<open>Spsc_Queue\<close> and \<open>Spsc_Ring\<close>).

  The transport is the \<^verbatim>\<open>WebSocketConcept\<close> template argument. What the connection sees of it is
  its handle: whether its receive thread still runs, and the events that thread
  will push when \<^verbatim>\<open>close()\<close> stops and joins it. The results of \<^verbatim>\<open>connect\<close> and \<^verbatim>\<open>send\<close>,
  those events and the clock readings come from the environment record of a call.
  Time is in nanoseconds. The field \<open>fault\<close> records a dereference of a null transport and
  an overflow of the retry deadline; it is not part of the program.
\<close>

section \<open>Types\<close>

datatype conn_state = Connecting | Connected | Disconnecting | WaitingReconnect | Disconnected

datatype fsm_event =
    OpenRequested | CloseRequested | TransportConnected | TransportConnectFailed
  | TransportReconnectFailed | TransportClosed | LivenessOutdated | LivenessExpired | RetryTimerExpired

datatype disconnect_reason = NoReason | LocalClose | TransportErrorReason | LivenessTimeout

datatype signal =
    SigNone | SigConnected | SigDisconnected | SigRetryImmediate | SigRetryScheduled
  | SigLivenessThreatened | SigBackpressureDetected | SigBackpressureCleared

datatype ws_event = WsClose | WsError transport_error | WsBackpressureDetected | WsBackpressureCleared

definition CONTROL_RING_CAPACITY :: nat where "CONTROL_RING_CAPACITY = 256"
definition SIGNAL_RING_CAPACITY :: nat where "SIGNAL_RING_CAPACITY = 64"

record ws_handle =
  ws_open :: bool
  ws_shutdown_events :: "ws_event list"

record conn_policy =
  cp_retry :: retry_policy
  cp_liveness :: liveness_policy

record conn_env =
  env_connect :: transport_error
  env_shutdown :: "ws_event list"
  env_send :: bool
  env_now_poll :: int
  env_now_connected :: int
  env_now_schedule :: int
  env_now_remaining :: int
  env_now_stale :: int

record connection =
  last_url :: string
  parsed_url_of :: "parsed_url option"
  control_ring :: "ws_event list"
  message_ring :: "string list"
  ws :: "ws_handle option"
  epoch :: u64
  rx_messages :: u64
  tx_messages :: u64
  last_message_ts :: int
  liveness_warning_emitted :: bool
  liveness_timeout_emitted :: bool
  last_error :: transport_error
  retry_root_error :: transport_error
  disconnect_reason_of :: disconnect_reason
  state :: conn_state
  next_retry :: int
  retry_attempts :: nat
  signals :: "signal list"
  control_ring_failures :: nat
  fault :: bool

definition Connection_init :: "int \<Rightarrow> connection" where
  "Connection_init now = \<lparr>last_url = [], parsed_url_of = None, control_ring = [], message_ring = [],
     ws = None, epoch = 0, rx_messages = 0, tx_messages = 0, last_message_ts = now,
     liveness_warning_emitted = False, liveness_timeout_emitted = False, last_error = NoError,
     retry_root_error = NoError, disconnect_reason_of = NoReason, state = Disconnected,
     next_retry = 0, retry_attempts = 0, signals = [], control_ring_failures = 0, fault = False\<rparr>"

section \<open>The transport handle\<close>

definition push_control :: "ws_event \<Rightarrow> connection \<Rightarrow> connection" where
  "push_control ev c = c\<lparr>control_ring := fst (bq_push (CONTROL_RING_CAPACITY - 1) (control_ring c) ev)\<rparr>"

definition ws_close :: "connection \<Rightarrow> connection" where
  "ws_close c =
     (case ws c of
        None \<Rightarrow> c\<lparr>fault := True\<rparr>
      | Some h \<Rightarrow>
          if ws_open h then fold push_control (ws_shutdown_events h) (c\<lparr>ws := Some (h\<lparr>ws_open := False\<rparr>)\<rparr>)
          else c)"

definition create_transport :: "conn_env \<Rightarrow> connection \<Rightarrow> connection" where
  "create_transport env c = c\<lparr>control_ring := [], message_ring := [],
     ws := Some \<lparr>ws_open = False, ws_shutdown_events = env_shutdown env\<rparr>\<rparr>"

definition destroy_transport_if_needed :: "connection \<Rightarrow> connection" where
  "destroy_transport_if_needed c = (if ws c = None then c else (ws_close c)\<lparr>ws := None\<rparr>)"

text \<open>\<^verbatim>\<open>ws_->connect(...)\<close>: on success the receive thread runs.\<close>

definition ws_connect :: "conn_env \<Rightarrow> connection \<Rightarrow> connection \<times> transport_error" where
  "ws_connect env c =
     (case ws c of
        None \<Rightarrow> (c\<lparr>fault := True\<rparr>, env_connect env)
      | Some h \<Rightarrow> (if env_connect env = NoError then c\<lparr>ws := Some (h\<lparr>ws_open := True\<rparr>)\<rparr> else c, env_connect env))"

section \<open>Closing and signalling\<close>

text \<open>The \<^verbatim>\<open>CloseRequested\<close> rows of the transition table; they emit no signal.\<close>

definition transition_close :: "connection \<Rightarrow> connection" where
  "transition_close c =
     (case state c of
        Connecting \<Rightarrow> destroy_transport_if_needed (c\<lparr>state := Disconnected\<rparr>)
      | Connected \<Rightarrow> ws_close (c\<lparr>disconnect_reason_of := LocalClose, state := Disconnecting\<rparr>)
      | WaitingReconnect \<Rightarrow> destroy_transport_if_needed (c\<lparr>state := Disconnected\<rparr>)
      | Disconnecting \<Rightarrow> c
      | Disconnected \<Rightarrow> c)"

definition conn_close :: "connection \<Rightarrow> connection" where
  "conn_close c =
     (if state c = Disconnected then c
      else if state c = Disconnecting then c
      else transition_close c)"

text \<open>\<^verbatim>\<open>emit_\<close>: a signal that does not fit in the ring is lost and the connection is closed.\<close>

definition emit :: "signal \<Rightarrow> connection \<Rightarrow> connection" where
  "emit sig c =
     (let (sigs, pushed) = bq_push (SIGNAL_RING_CAPACITY - 1) (signals c) sig in
      if pushed then c\<lparr>signals := sigs\<rparr>
      else conn_close (c\<lparr>control_ring_failures := control_ring_failures c + 1\<rparr>))"

section \<open>Retry scheduling\<close>

definition arm_immediate_reconnect :: "transport_error \<Rightarrow> connection \<Rightarrow> connection" where
  "arm_immediate_reconnect e c =
     (emit SigRetryImmediate c)\<lparr>retry_root_error := e, retry_attempts := 1, next_retry := 0\<rparr>"

text \<open>
  \<^verbatim>\<open>next_retry_ = now + delay\<close> converts the delay to nanoseconds in 64 bits; the fault records
  an overflow there, which is undefined behaviour of the source.
\<close>

definition schedule_next_retry :: "conn_policy \<Rightarrow> conn_env \<Rightarrow> connection \<Rightarrow> connection" where
  "schedule_next_retry pol env c =
     (let rp = cp_retry pol in
      if rp_mode rp = RetryNever then c\<lparr>state := Disconnected\<rparr>
      else if rp_max_attempts rp > 0 \<and> retry_attempts c \<ge> rp_max_attempts rp then c\<lparr>state := Disconnected\<rparr>
      else
        let c1 = emit SigRetryScheduled c; now = env_now_schedule env;
            delay = backoff rp (retry_root_error c1) (retry_attempts c1);
            deadline = now + delay * 1000000 in
        c1\<lparr>retry_attempts := retry_attempts c1 + 1, next_retry := deadline,
           fault := (fault c1 \<or> deadline \<ge> 2 ^ 63)\<rparr>)"

section \<open>The transition function\<close>

definition resolve_closed :: "conn_policy \<Rightarrow> connection \<Rightarrow> connection" where
  "resolve_closed pol c =
     (if disconnect_reason_of c \<noteq> LocalClose \<and> should_retry (cp_retry pol) (last_error c)
      then arm_immediate_reconnect (last_error c) (destroy_transport_if_needed (c\<lparr>state := WaitingReconnect\<rparr>))
      else destroy_transport_if_needed (c\<lparr>state := Disconnected\<rparr>))"

definition on_connected :: "conn_policy \<Rightarrow> conn_env \<Rightarrow> connection \<Rightarrow> connection" where
  "on_connected pol env c =
     (let c1 = emit SigConnected (c\<lparr>state := Connected\<rparr>);
          c2 = c1\<lparr>retry_attempts := 0, retry_root_error := NoError, last_message_ts := env_now_connected env\<rparr>;
          c3 = (if lp_enabled (cp_liveness pol)
                then c2\<lparr>liveness_warning_emitted := False, liveness_timeout_emitted := False\<rparr> else c2) in
      c3\<lparr>disconnect_reason_of := NoReason, epoch := epoch c3 + 1\<rparr>)"

definition on_connect_failed :: "conn_policy \<Rightarrow> transport_error \<Rightarrow> connection \<Rightarrow> connection" where
  "on_connect_failed pol e c =
     (if should_retry (cp_retry pol) e
      then arm_immediate_reconnect e (destroy_transport_if_needed (c\<lparr>state := WaitingReconnect\<rparr>))
      else (destroy_transport_if_needed (c\<lparr>state := Disconnected\<rparr>))\<lparr>disconnect_reason_of := TransportErrorReason\<rparr>)"

definition on_reconnect_failed :: "conn_policy \<Rightarrow> conn_env \<Rightarrow> transport_error \<Rightarrow> connection \<Rightarrow> connection" where
  "on_reconnect_failed pol env e c0 =
     (let c = c0\<lparr>disconnect_reason_of := TransportErrorReason\<rparr> in
      if should_retry (cp_retry pol) e
      then schedule_next_retry pol env (destroy_transport_if_needed (c\<lparr>state := WaitingReconnect\<rparr>))
      else destroy_transport_if_needed (c\<lparr>state := Disconnected\<rparr>))"

fun transition :: "conn_policy \<Rightarrow> conn_env \<Rightarrow> fsm_event \<Rightarrow> transport_error \<Rightarrow> connection \<Rightarrow> connection" where
  "transition pol env ev e c =
     (case state c of
        Disconnected \<Rightarrow> (case ev of OpenRequested \<Rightarrow> c\<lparr>state := Connecting\<rparr> | _ \<Rightarrow> c)
      | Connecting \<Rightarrow>
          (case ev of
             TransportConnected \<Rightarrow> on_connected pol env c
           | TransportConnectFailed \<Rightarrow> on_connect_failed pol e c
           | TransportReconnectFailed \<Rightarrow> on_reconnect_failed pol env e c
           | TransportClosed \<Rightarrow> destroy_transport_if_needed (c\<lparr>state := Disconnected\<rparr>)
           | CloseRequested \<Rightarrow> transition_close c
           | _ \<Rightarrow> c)
      | Connected \<Rightarrow>
          (case ev of
             LivenessOutdated \<Rightarrow> emit SigLivenessThreatened c
           | LivenessExpired \<Rightarrow>
               ws_close (c\<lparr>last_error := e, disconnect_reason_of := LivenessTimeout, state := Disconnecting\<rparr>)
           | CloseRequested \<Rightarrow> transition_close c
           | TransportClosed \<Rightarrow> resolve_closed pol c
           | _ \<Rightarrow> c)
      | Disconnecting \<Rightarrow> (case ev of TransportClosed \<Rightarrow> resolve_closed pol c | _ \<Rightarrow> c)
      | WaitingReconnect \<Rightarrow>
          (case ev of
             RetryTimerExpired \<Rightarrow> c\<lparr>state := Connecting\<rparr>
           | OpenRequested \<Rightarrow> c\<lparr>state := Connecting\<rparr>
           | CloseRequested \<Rightarrow> transition_close c
           | _ \<Rightarrow> c))"

section \<open>Operations\<close>

definition conn_open :: "conn_policy \<Rightarrow> conn_env \<Rightarrow> string \<Rightarrow> connection \<Rightarrow> connection \<times> transport_error" where
  "conn_open pol env url c =
     (if state c \<noteq> Disconnected \<and> state c \<noteq> WaitingReconnect then (c, InvalidState)
      else
        let c1 = c\<lparr>last_url := url\<rparr> in
        case parse_url url of
          Inl e \<Rightarrow> (c1\<lparr>last_error := e\<rparr>, e)
        | Inr u \<Rightarrow>
            let c2 = transition pol env OpenRequested NoError (c1\<lparr>last_error := NoError, parsed_url_of := Some u\<rparr>);
                (c3, e) = ws_connect env (create_transport env c2);
                c4 = c3\<lparr>last_error := e\<rparr> in
            if e \<noteq> NoError then (transition pol env TransportConnectFailed e c4, e)
            else (transition pol env TransportConnected NoError c4, NoError))"

definition conn_send :: "conn_env \<Rightarrow> connection \<Rightarrow> connection \<times> bool" where
  "conn_send env c =
     (if state c \<noteq> Connected then (c, False)
      else if ws c = None then (c\<lparr>fault := True\<rparr>, False)
      else if env_send env
      then (c\<lparr>tx_messages := tx_messages c + 1, last_message_ts := env_now_poll env\<rparr>, True)
      else (c, False))"

definition on_transport_error :: "transport_error \<Rightarrow> connection \<Rightarrow> connection" where
  "on_transport_error e c =
     (if disconnect_reason_of c = LivenessTimeout \<or> disconnect_reason_of c = LocalClose then c
      else c\<lparr>last_error := e, disconnect_reason_of := TransportErrorReason\<rparr>)"

definition on_transport_closed :: "conn_policy \<Rightarrow> conn_env \<Rightarrow> connection \<Rightarrow> connection" where
  "on_transport_closed pol env c =
     (if state c = Disconnected then c
      else if state c = Connecting then c
      else let c1 = emit SigDisconnected c in transition pol env TransportClosed (last_error c1) c1)"

definition on_ws_event :: "conn_policy \<Rightarrow> conn_env \<Rightarrow> ws_event \<Rightarrow> connection \<Rightarrow> connection" where
  "on_ws_event pol env ev c =
     (case ev of
        WsClose \<Rightarrow> on_transport_closed pol env c
      | WsError e \<Rightarrow> on_transport_error e c
      | WsBackpressureDetected \<Rightarrow> emit SigBackpressureDetected c
      | WsBackpressureCleared \<Rightarrow> emit SigBackpressureCleared c)"

definition reconnect :: "conn_policy \<Rightarrow> conn_env \<Rightarrow> connection \<Rightarrow> connection \<times> bool" where
  "reconnect pol env c =
     (if state c \<noteq> WaitingReconnect then (c, False)
      else
        let c1 = transition pol env RetryTimerExpired NoError
                   (if parsed_url_of c = None then c\<lparr>fault := True\<rparr> else c);
            (c2, e) = ws_connect env (create_transport env c1);
            c3 = c2\<lparr>last_error := e\<rparr> in
        if e \<noteq> NoError then (transition pol env TransportReconnectFailed e c3, False)
        else (transition pol env TransportConnected NoError c3, True))"

text \<open>\<^verbatim>\<open>duration_cast<milliseconds>\<close> truncates towards zero.\<close>

definition ms_of_ns :: "int \<Rightarrow> int" where
  "ms_of_ns d = (if d \<ge> 0 then d div 1000000 else - ((- d) div 1000000))"

definition liveness_remaining :: "conn_policy \<Rightarrow> int \<Rightarrow> connection \<Rightarrow> int" where
  "liveness_remaining pol now c = lp_timeout (cp_liveness pol) - ms_of_ns (now - last_message_ts c)"

definition is_liveness_stale :: "conn_policy \<Rightarrow> int \<Rightarrow> connection \<Rightarrow> bool" where
  "is_liveness_stale pol now c \<longleftrightarrow> now - last_message_ts c > lp_timeout (cp_liveness pol) * 1000000"

definition warning_remaining_threshold :: "conn_policy \<Rightarrow> int" where
  "warning_remaining_threshold pol =
     (lp_timeout (cp_liveness pol) * (100 - lp_warning_percent (cp_liveness pol))) div 100"

definition enforce_liveness_policy :: "conn_policy \<Rightarrow> conn_env \<Rightarrow> connection \<Rightarrow> connection" where
  "enforce_liveness_policy pol env c =
     (if state c \<noteq> Connected then c
      else
        let remaining = liveness_remaining pol (env_now_remaining env) c;
            c1 = (if \<not> liveness_warning_emitted c
                  then if remaining \<le> warning_remaining_threshold pol
                       then transition pol env LivenessOutdated NoError (c\<lparr>liveness_warning_emitted := True\<rparr>)
                       else c
                  else if remaining > warning_remaining_threshold pol
                       then c\<lparr>liveness_warning_emitted := False\<rparr> else c) in
        if \<not> liveness_timeout_emitted c1 \<and> is_liveness_stale pol (env_now_stale env) c1
        then transition pol env LivenessExpired Timeout (c1\<lparr>liveness_timeout_emitted := True\<rparr>)
        else c1)"

definition conn_is_connected :: "connection \<Rightarrow> bool" where
  "conn_is_connected c \<longleftrightarrow> state c = Connected"

definition conn_is_active :: "connection \<Rightarrow> bool" where
  "conn_is_active c \<longleftrightarrow> state c = Connected \<or> state c = Connecting \<or> state c = Disconnecting \<or>
     state c = WaitingReconnect"

definition conn_is_idle :: "int \<Rightarrow> connection \<Rightarrow> bool" where
  "conn_is_idle now c \<longleftrightarrow>
     (if signals c \<noteq> [] then False
      else if state c = WaitingReconnect \<and> next_retry c \<noteq> 0 \<and> now \<ge> next_retry c then False
      else True)"

definition poll_signal :: "connection \<Rightarrow> connection \<times> signal option" where
  "poll_signal c = (let (sigs, r) = bq_pop (signals c) in (c\<lparr>signals := sigs\<rparr>, r))"

definition peek_message :: "int \<Rightarrow> connection \<Rightarrow> connection \<times> string option" where
  "peek_message now c =
     (case message_ring c of
        [] \<Rightarrow> (c, None)
      | m # _ \<Rightarrow> (c\<lparr>rx_messages := rx_messages c + 1, last_message_ts := now\<rparr>, Some m))"

definition release_message :: "connection \<Rightarrow> connection" where
  "release_message c = c\<lparr>message_ring := tl (message_ring c)\<rparr>"

section \<open>Closed forms\<close>

text \<open>The bound of the control ring and of the signal ring.\<close>

abbreviation ctl_bound :: nat where "ctl_bound \<equiv> CONTROL_RING_CAPACITY - 1"
abbreviation sig_bound :: nat where "sig_bound \<equiv> SIGNAL_RING_CAPACITY - 1"

definition push_all :: "ws_event list \<Rightarrow> ws_event list \<Rightarrow> ws_event list" where
  "push_all r evs = r @ take (ctl_bound - length r) evs"

lemma fold_push_control: "fold push_control evs c = c\<lparr>control_ring := push_all (control_ring c) evs\<rparr>"
proof (induction evs arbitrary: c)
  case (Cons ev evs)
  then show ?case
    by (cases "length (control_ring c) < ctl_bound")
       (simp_all add: push_control_def push_all_def take_Cons' Suc_diff_Suc)
qed (simp add: push_all_def)

lemma ws_close_eq:
  "ws_close c = (case ws c of None \<Rightarrow> c\<lparr>fault := True\<rparr>
     | Some h \<Rightarrow> if ws_open h then c\<lparr>control_ring := push_all (control_ring c) (ws_shutdown_events h),
                   ws := Some (h\<lparr>ws_open := False\<rparr>)\<rparr> else c)"
  by (simp add: ws_close_def fold_push_control split: option.split)

lemma destroy_eq:
  "destroy_transport_if_needed c = (case ws c of None \<Rightarrow> c
     | Some h \<Rightarrow> c\<lparr>control_ring := if ws_open h then push_all (control_ring c) (ws_shutdown_events h)
                   else control_ring c, ws := None\<rparr>)"
  by (simp add: destroy_transport_if_needed_def ws_close_eq split: option.split)

lemma emit_eq:
  "emit sig c = (if length (signals c) < sig_bound then c\<lparr>signals := signals c @ [sig]\<rparr>
     else conn_close (c\<lparr>control_ring_failures := control_ring_failures c + 1\<rparr>))"
  by (simp add: emit_def Let_def)

section \<open>The drain loop of poll\<close>

text \<open>
  Handling an event may close the transport, which pushes its shutdown events: the
  measure counts those as already in the ring.
\<close>

definition pending_events :: "connection \<Rightarrow> nat" where
  "pending_events c = length (control_ring c) +
     (case ws c of None \<Rightarrow> 0 | Some h \<Rightarrow> if ws_open h then length (ws_shutdown_events h) else 0)"

lemma pending_ws_close: "pending_events (ws_close c) \<le> pending_events c"
  by (auto simp: pending_events_def ws_close_eq push_all_def split: option.split)

lemma pending_destroy: "pending_events (destroy_transport_if_needed c) \<le> pending_events c"
  by (auto simp: pending_events_def destroy_eq push_all_def split: option.split)

lemma pending_transition_close: "pending_events (transition_close c) \<le> pending_events c"
proof (cases "state c")
  case Connected
  have "pending_events (ws_close (c\<lparr>disconnect_reason_of := LocalClose, state := Disconnecting\<rparr>)) \<le>
      pending_events (c\<lparr>disconnect_reason_of := LocalClose, state := Disconnecting\<rparr>)"
    by (rule pending_ws_close)
  with Connected show ?thesis by (simp add: transition_close_def pending_events_def)
qed (use pending_destroy [of "c\<lparr>state := Disconnected\<rparr>"] in
    \<open>simp_all add: transition_close_def pending_events_def\<close>)

lemma pending_emit: "pending_events (emit sig c) \<le> pending_events c"
  using pending_transition_close [of "c\<lparr>control_ring_failures := Suc (control_ring_failures c)\<rparr>"]
  by (auto simp: emit_eq conn_close_def pending_events_def)

lemma pending_arm: "pending_events (arm_immediate_reconnect e c) \<le> pending_events c"
  using pending_emit [of SigRetryImmediate c] by (simp add: arm_immediate_reconnect_def pending_events_def)

lemma pending_resolve: "pending_events (resolve_closed pol c) \<le> pending_events c"
proof -
  have d: "pending_events (destroy_transport_if_needed (c\<lparr>state := st\<rparr>)) \<le> pending_events c" for st
    using pending_destroy [of "c\<lparr>state := st\<rparr>"] by (simp add: pending_events_def)
  then show ?thesis
    by (auto simp: resolve_closed_def intro: order.trans [OF pending_arm])
qed

lemma pending_closed: "pending_events (transition pol env TransportClosed e c) \<le> pending_events c"
  using pending_resolve [of pol c] pending_destroy [of "c\<lparr>state := Disconnected\<rparr>"]
  by (simp add: pending_events_def split: conn_state.split)

lemma pending_on_ws_event: "pending_events (on_ws_event pol env ev c) \<le> pending_events c"
proof (cases ev)
  case WsClose
  then show ?thesis
    using order.trans [OF pending_closed pending_emit]
    by (auto simp: on_ws_event_def on_transport_closed_def Let_def simp del: transition.simps)
qed (use pending_emit in \<open>auto simp: on_ws_event_def on_transport_error_def pending_events_def\<close>)

function drain_control :: "conn_policy \<Rightarrow> conn_env \<Rightarrow> connection \<Rightarrow> connection" where
  "drain_control pol env c =
     (case control_ring c of
        [] \<Rightarrow> c
      | ev # evs \<Rightarrow> drain_control pol env (on_ws_event pol env ev (c\<lparr>control_ring := evs\<rparr>)))"
  by auto

termination
proof (relation "measure (\<lambda>(_, _, c). pending_events c)")
  fix pol :: conn_policy and env :: conn_env and c :: connection and ev evs
  assume "control_ring c = ev # evs"
  then have "pending_events (c\<lparr>control_ring := evs\<rparr>) < pending_events c"
    by (simp add: pending_events_def)
  then show "((pol, env, on_ws_event pol env ev (c\<lparr>control_ring := evs\<rparr>)), pol, env, c)
      \<in> measure (\<lambda>(_, _, c). pending_events c)"
    using le_less_trans [OF pending_on_ws_event] by simp
qed simp

declare drain_control.simps [simp del] transition.simps [simp del]

definition conn_poll :: "conn_policy \<Rightarrow> conn_env \<Rightarrow> connection \<Rightarrow> connection" where
  "conn_poll pol env c =
     (if state c = Disconnected then c
      else
        let c1 = drain_control pol env c;
            c2 = (if state c1 = WaitingReconnect \<and> env_now_poll env \<ge> next_retry c1
                  then fst (reconnect pol env c1) else c1) in
        if lp_enabled (cp_liveness pol) then enforce_liveness_policy pol env c2 else c2)"

section \<open>The receive thread as the connection sees it\<close>

text \<open>
  While the receive thread runs it may push control events and messages; the close event is the
  last thing it pushes.
\<close>

definition ws_receive :: "ws_event \<Rightarrow> connection \<Rightarrow> connection" where
  "ws_receive ev c =
     (case ws c of
        Some h \<Rightarrow> if ws_open h
          then push_control ev (if ev = WsClose then c\<lparr>ws := Some (h\<lparr>ws_open := False\<rparr>)\<rparr> else c) else c
      | None \<Rightarrow> c)"

definition ws_deliver :: "string \<Rightarrow> connection \<Rightarrow> connection" where
  "ws_deliver m c =
     (case ws c of
        Some h \<Rightarrow> if ws_open h then c\<lparr>message_ring := message_ring c @ [m]\<rparr> else c
      | None \<Rightarrow> c)"

section \<open>Invariant\<close>

definition shutdown_ok :: "ws_event list \<Rightarrow> bool" where
  "shutdown_ok evs \<longleftrightarrow> evs \<noteq> [] \<and> last evs = WsClose \<and> WsClose \<notin> set (butlast evs)"

definition env_ok :: "conn_env \<Rightarrow> bool" where
  "env_ok env \<longleftrightarrow> shutdown_ok (env_shutdown env) \<and> env_now_schedule env < 2 ^ 62"

text \<open>The disabled policy, or the exponential one that retries only retryable errors, with an exponent that the 32-bit shift of the backoff can take. In the mode that retries every
  error a deadline can overflow.\<close>

definition policy_ok :: "conn_policy \<Rightarrow> bool" where
  "policy_ok pol \<longleftrightarrow> cp_retry pol = retry_disabled \<or>
     (\<exists>me ma. me < 32 \<and> cp_retry pol = retry_exponential RetryableOnly me ma)"

definition conn_ok :: "conn_policy \<Rightarrow> connection \<Rightarrow> bool" where
  "conn_ok pol c \<longleftrightarrow>
     \<not> fault c \<and> state c \<noteq> Connecting \<and>
     (ws c = None \<longleftrightarrow> state c = Disconnected \<or> state c = WaitingReconnect) \<and>
     (\<forall>h. ws c = Some h \<longrightarrow> shutdown_ok (ws_shutdown_events h) \<and> (state c = Disconnecting \<longrightarrow> \<not> ws_open h)) \<and>
     (WsClose \<in> set (control_ring c) \<longrightarrow> (\<exists>h. ws c = Some h \<and> \<not> ws_open h)) \<and>
     count_list (control_ring c) WsClose \<le> 1 \<and>
     length (control_ring c) \<le> ctl_bound \<and> length (signals c) \<le> sig_bound \<and>
     (state c \<noteq> Disconnected \<longrightarrow> parsed_url_of c \<noteq> None) \<and>
     (state c = WaitingReconnect \<longrightarrow> should_retry (cp_retry pol) (retry_root_error c))"

lemma count_list_take_le: "count_list (take n xs) x \<le> count_list xs x"
  by (metis append_take_drop_id count_list_append le_add1)

lemma count_shutdown: "shutdown_ok evs \<Longrightarrow> count_list evs WsClose = 1"
proof -
  assume s: "shutdown_ok evs"
  then have "evs = butlast evs @ [WsClose]" by (metis append_butlast_last_id shutdown_ok_def)
  then have "count_list evs WsClose = count_list (butlast evs) WsClose + 1"
    by (metis count_list.simps(1) count_list.simps(2) count_list_append add_0)
  moreover have "count_list (butlast evs) WsClose = 0"
    using s by (simp add: shutdown_ok_def count_list_0_iff)
  ultimately show ?thesis by simp
qed

lemma push_all_facts:
  assumes "shutdown_ok evs" and "WsClose \<notin> set r" and "length r \<le> ctl_bound"
  shows "count_list (push_all r evs) WsClose \<le> 1" and "length (push_all r evs) \<le> ctl_bound"
  using assms count_list_take_le [of "ctl_bound - length r" evs WsClose] count_shutdown [OF assms(1)]
  by (simp_all add: push_all_def count_list_0_iff)

lemma conn_close_ok: "conn_ok pol c \<Longrightarrow> conn_ok pol (conn_close c)"
  using push_all_facts [of _ "control_ring c"]
  by (cases "state c")
     (auto simp: conn_ok_def conn_close_def transition_close_def ws_close_eq destroy_eq split: option.splits)

lemma conn_close_state: "conn_ok pol c \<Longrightarrow> state (conn_close c) \<in> {Disconnected, Disconnecting}"
  by (cases "state c") (auto simp: conn_ok_def conn_close_def transition_close_def ws_close_eq destroy_eq
      split: option.splits)

lemma conn_ok_failures [simp]: "conn_ok pol (c\<lparr>control_ring_failures := n\<rparr>) = conn_ok pol c"
  by (simp add: conn_ok_def)

lemma emit_ok [inv_intros]: "conn_ok pol c \<Longrightarrow> conn_ok pol (emit sig c)"
  using conn_close_ok [of pol "c\<lparr>control_ring_failures := control_ring_failures c + 1\<rparr>"]
  by (auto simp: emit_eq conn_ok_def)

text \<open>What \<^verbatim>\<open>emit_\<close> does to the fields the handlers test, when the transport is already down.\<close>

lemma emit_down:
  assumes "ws c = None \<or> (\<exists>h. ws c = Some h \<and> \<not> ws_open h)"
  shows "control_ring (emit sig c) = control_ring c" and "last_error (emit sig c) = last_error c"
    and "parsed_url_of (emit sig c) = parsed_url_of c"
    and "retry_root_error (emit sig c) = retry_root_error c" and "retry_attempts (emit sig c) = retry_attempts c"
    and "epoch (emit sig c) = epoch c"
    and "state c \<in> {Connected, Disconnecting} \<Longrightarrow> ws (emit sig c) = ws c"
    and "state c = Disconnecting \<Longrightarrow> state (emit sig c) = Disconnecting"
    and "state c = Connected \<Longrightarrow> state (emit sig c) \<in> {Connected, Disconnecting}"
    and "state c = WaitingReconnect \<Longrightarrow> state (emit sig c) \<in> {WaitingReconnect, Disconnected}"
  using assms by (cases "state c"; auto simp: emit_eq conn_close_def transition_close_def ws_close_eq destroy_eq
      split: option.splits)+

lemma on_transport_error_ok [inv_intros]: "conn_ok pol c \<Longrightarrow> conn_ok pol (on_transport_error e c)"
  by (simp add: on_transport_error_def conn_ok_def)

lemma arm_ok:
  assumes "conn_ok pol (c\<lparr>retry_root_error := e\<rparr>)" and "state c = WaitingReconnect" and "ws c = None"
  shows "conn_ok pol (arm_immediate_reconnect e c)"
proof -
  have "emit SigRetryImmediate (c\<lparr>retry_root_error := e\<rparr>) = (emit SigRetryImmediate c)\<lparr>retry_root_error := e\<rparr>"
    using assms(2,3) by (simp add: emit_eq conn_close_def transition_close_def destroy_eq)
  with emit_ok [OF assms(1), of SigRetryImmediate] show ?thesis
    by (simp add: arm_immediate_reconnect_def conn_ok_def)
qed

text \<open>Resolution of a closed transport: the close event has been taken from the ring.\<close>

definition closing :: "conn_policy \<Rightarrow> connection \<Rightarrow> bool" where
  "closing pol c \<longleftrightarrow> conn_ok pol c \<and> WsClose \<notin> set (control_ring c) \<and> (\<exists>h. ws c = Some h \<and> \<not> ws_open h)"

lemma closing_state: "closing pol c \<Longrightarrow> state c \<in> {Connected, Disconnecting}"
  by (cases "state c") (auto simp: closing_def conn_ok_def)

lemma closing_emit: "closing pol c \<Longrightarrow> closing pol (emit sig c)"
  using emit_ok [of pol c sig] emit_down(1,7) [of c sig] closing_state [of pol c] by (auto simp: closing_def)

lemma resolve_closed_facts:
  assumes "closing pol c"
  shows "conn_ok pol (resolve_closed pol c)" and "state (resolve_closed pol c) \<in> {WaitingReconnect, Disconnected}"
    and "WsClose \<notin> set (control_ring (resolve_closed pol c))"
    and "ws (resolve_closed pol c) = None" and "epoch (resolve_closed pol c) = epoch c"
proof -
  obtain h where h: "ws c = Some h" "\<not> ws_open h" using assms by (auto simp: closing_def)
  let ?r = "destroy_transport_if_needed (c\<lparr>state := WaitingReconnect\<rparr>)"
  have r: "?r = c\<lparr>state := WaitingReconnect, control_ring := control_ring c, ws := None\<rparr>"
    using h by (simp add: destroy_eq)
  have "conn_ok pol (?r\<lparr>retry_root_error := last_error c\<rparr>)" if "should_retry (cp_retry pol) (last_error c)"
    using assms that closing_state [OF assms] by (auto simp: r closing_def conn_ok_def)
  then have arm: "conn_ok pol (arm_immediate_reconnect (last_error c) ?r)"
    if "should_retry (cp_retry pol) (last_error c)"
    using that by (intro arm_ok) (simp_all add: r)
  have dis: "conn_ok pol (destroy_transport_if_needed (c\<lparr>state := Disconnected\<rparr>))"
    using assms h closing_state [OF assms] by (auto simp: destroy_eq closing_def conn_ok_def)
  show "conn_ok pol (resolve_closed pol c)" using arm dis by (simp add: resolve_closed_def)
  note e = emit_down [of ?r SigRetryImmediate]
  show "state (resolve_closed pol c) \<in> {WaitingReconnect, Disconnected}"
    "WsClose \<notin> set (control_ring (resolve_closed pol c))" "epoch (resolve_closed pol c) = epoch c"
    using h assms e by (auto simp: resolve_closed_def arm_immediate_reconnect_def r destroy_eq closing_def)
  then show "ws (resolve_closed pol c) = None"
    using \<open>conn_ok pol (resolve_closed pol c)\<close> by (auto simp: conn_ok_def)
qed

lemma on_transport_closed_eq:
  assumes "closing pol c"
  shows "on_transport_closed pol env c = resolve_closed pol (emit SigDisconnected c)"
  using closing_state [OF assms] closing_state [OF closing_emit [OF assms, of SigDisconnected]]
  by (auto simp: on_transport_closed_def transition.simps Let_def)

lemma on_ws_event_ok:
  assumes ok: "conn_ok pol c" and r: "control_ring c = ev # evs"
  shows "conn_ok pol (on_ws_event pol env ev (c\<lparr>control_ring := evs\<rparr>))"
proof (cases "ev = WsClose")
  case True
  then have "closing pol (c\<lparr>control_ring := evs\<rparr>)"
    using ok r by (auto simp: closing_def conn_ok_def count_list_0_iff)
  then show ?thesis
    using True resolve_closed_facts(1) [OF closing_emit]
    by (simp add: on_ws_event_def on_transport_closed_eq)
next
  case False
  have "conn_ok pol (c\<lparr>control_ring := evs\<rparr>)"
    using ok r False by (auto simp: conn_ok_def)
  with False show ?thesis
    by (cases ev) (simp_all add: on_ws_event_def emit_ok on_transport_error_ok)
qed

lemma drain_ok [inv_intros]: "conn_ok pol c \<Longrightarrow> conn_ok pol (drain_control pol env c)"
proof (induction pol env c rule: drain_control.induct)
  case (1 pol env c)
  show ?case
  proof (cases "control_ring c")
    case Nil
    then show ?thesis using "1.prems" by (simp add: drain_control.simps)
  next
    case (Cons ev evs)
    from "1.IH" [OF Cons] on_ws_event_ok [OF "1.prems" Cons] Cons show ?thesis
      by (subst drain_control.simps) simp
  qed
qed

lemma drain_empty: "control_ring (drain_control pol env c) = []"
proof (induction pol env c rule: drain_control.induct)
  case (1 pol env c)
  then show ?case by (subst drain_control.simps) (simp split: list.split)
qed

text \<open>Connecting: a fresh transport is created and its \<^verbatim>\<open>connect\<close> succeeds or fails.\<close>

definition connecting :: "connection \<Rightarrow> bool" where
  "connecting c \<longleftrightarrow> \<not> fault c \<and> state c = Connecting \<and> control_ring c = [] \<and> parsed_url_of c \<noteq> None \<and>
     length (signals c) \<le> sig_bound \<and> (\<exists>h. ws c = Some h \<and> shutdown_ok (ws_shutdown_events h))"

lemma on_connected_ok:
  assumes "connecting c"
  shows "conn_ok pol (on_connected pol env c)" and "epoch (on_connected pol env c) = epoch c + 1"
    and "state (on_connected pol env c) \<in> {Connected, Disconnecting}"
proof -
  have "conn_ok pol (c\<lparr>state := Connected\<rparr>)" using assms by (auto simp: connecting_def conn_ok_def)
  then have ok: "conn_ok pol (emit SigConnected (c\<lparr>state := Connected\<rparr>))" by (rule emit_ok)
  have st: "state (emit SigConnected (c\<lparr>state := Connected\<rparr>)) \<in> {Connected, Disconnecting}"
    "epoch (emit SigConnected (c\<lparr>state := Connected\<rparr>)) = epoch c"
    using assms by (auto simp: connecting_def emit_eq conn_close_def transition_close_def ws_close_eq split: option.splits)
  show "conn_ok pol (on_connected pol env c)"
    using ok st by (auto simp: on_connected_def conn_ok_def Let_def)
  show "epoch (on_connected pol env c) = epoch c + 1" "state (on_connected pol env c) \<in> {Connected, Disconnecting}"
    using st by (auto simp: on_connected_def Let_def)
qed

lemma on_connect_failed_ok:
  assumes "connecting c" and "\<exists>h. ws c = Some h \<and> \<not> ws_open h"
  shows "conn_ok pol (on_connect_failed pol e c)" and "epoch (on_connect_failed pol e c) = epoch c"
    and "state (on_connect_failed pol e c) \<in> {WaitingReconnect, Disconnected}"
proof -
  obtain h where h: "ws c = Some h" "\<not> ws_open h" using assms(2) by blast
  let ?r = "destroy_transport_if_needed (c\<lparr>state := WaitingReconnect\<rparr>)"
  have r: "?r = c\<lparr>state := WaitingReconnect, control_ring := control_ring c, ws := None\<rparr>"
    using h by (simp add: destroy_eq)
  have arm: "conn_ok pol (arm_immediate_reconnect e ?r)" if "should_retry (cp_retry pol) e"
    using that assms(1) by (intro arm_ok) (simp_all add: r connecting_def conn_ok_def)
  have dis: "conn_ok pol ((destroy_transport_if_needed (c\<lparr>state := Disconnected\<rparr>))\<lparr>disconnect_reason_of := TransportErrorReason\<rparr>)"
    using assms h by (auto simp: destroy_eq connecting_def conn_ok_def)
  show "conn_ok pol (on_connect_failed pol e c)" using arm dis by (simp add: on_connect_failed_def)
  show "epoch (on_connect_failed pol e c) = epoch c"
    "state (on_connect_failed pol e c) \<in> {WaitingReconnect, Disconnected}"
    using h emit_down(6,10) [of ?r SigRetryImmediate]
    by (auto simp: on_connect_failed_def arm_immediate_reconnect_def r destroy_eq)
qed

lemma schedule_ok:
  assumes ok: "conn_ok pol c" and st: "state c = WaitingReconnect" and pol: "policy_ok pol" and env: "env_ok env"
  shows "conn_ok pol (schedule_next_retry pol env c)" and "epoch (schedule_next_retry pol env c) = epoch c"
    and "state (schedule_next_retry pol env c) \<in> {WaitingReconnect, Disconnected}"
proof -
  have w: "ws c = None" and root: "should_retry (cp_retry pol) (retry_root_error c)"
    using ok st by (auto simp: conn_ok_def)
  obtain me ma where p: "cp_retry pol = retry_exponential RetryableOnly me ma" and me: "me < 32"
    using pol root by (auto simp: policy_ok_def should_retry_def retry_disabled_def)
  have "env_now_schedule env + backoff (cp_retry pol) (retry_root_error c) n * 1000000 < 2 ^ 63" for n
    using backoff_le [of me ma "retry_root_error c" n] root env me by (simp add: p env_ok_def)
  then have d: "\<not> 2 ^ 63 \<le> env_now_schedule env + backoff (cp_retry pol) (retry_root_error c) n * 1000000" for n
    by (simp add: not_le)
  note e = emit_down [of c SigRetryScheduled, simplified w st]
  note k = emit_ok [OF ok, of SigRetryScheduled]
  show "conn_ok pol (schedule_next_retry pol env c)"
    using ok k e(4,5) d st w by (auto simp: schedule_next_retry_def conn_ok_def Let_def)
  show "epoch (schedule_next_retry pol env c) = epoch c"
    "state (schedule_next_retry pol env c) \<in> {WaitingReconnect, Disconnected}"
    using e(6,10) by (auto simp: schedule_next_retry_def Let_def)
qed

lemma on_reconnect_failed_ok:
  assumes c: "connecting c" and h: "\<exists>h. ws c = Some h \<and> \<not> ws_open h"
    and root: "should_retry (cp_retry pol) (retry_root_error c)" and pol: "policy_ok pol" and env: "env_ok env"
  shows "conn_ok pol (on_reconnect_failed pol env e c)" and "epoch (on_reconnect_failed pol env e c) = epoch c"
    and "state (on_reconnect_failed pol env e c) \<in> {WaitingReconnect, Disconnected}"
proof -
  obtain h where h: "ws c = Some h" "\<not> ws_open h" using h by blast
  let ?r = "c\<lparr>disconnect_reason_of := TransportErrorReason, state := WaitingReconnect, control_ring := control_ring c, ws := None\<rparr>"
  have r: "destroy_transport_if_needed (c\<lparr>disconnect_reason_of := TransportErrorReason, state := WaitingReconnect\<rparr>) = ?r"
    using h by (simp add: destroy_eq)
  have okr: "conn_ok pol ?r" using c root by (simp add: connecting_def conn_ok_def)
  have dis: "conn_ok pol (destroy_transport_if_needed (c\<lparr>disconnect_reason_of := TransportErrorReason, state := Disconnected\<rparr>))"
    using c h by (auto simp: destroy_eq connecting_def conn_ok_def)
  note s = schedule_ok [OF okr _ pol env]
  show "conn_ok pol (on_reconnect_failed pol env e c)" "epoch (on_reconnect_failed pol env e c) = epoch c"
    "state (on_reconnect_failed pol env e c) \<in> {WaitingReconnect, Disconnected}"
    using s dis h by (auto simp: on_reconnect_failed_def r destroy_eq Let_def)
qed

text \<open>Creating a transport and connecting it, from a state just set to \<^verbatim>\<open>Connecting\<close>.\<close>

lemma connect_phase:
  assumes "\<not> fault c" and "state c = Connecting" and "parsed_url_of c \<noteq> None"
    and "length (signals c) \<le> sig_bound" and "shutdown_ok (env_shutdown env)"
    and "ws_connect env (create_transport env c) = (c', e)"
  shows "e = env_connect env" and "connecting (c'\<lparr>last_error := e\<rparr>)"
    and "e \<noteq> NoError \<Longrightarrow> \<exists>h. ws c' = Some h \<and> \<not> ws_open h"
    and "retry_root_error c' = retry_root_error c" and "epoch c' = epoch c"
    and "state c' = Connecting"
  using assms by (auto simp: ws_connect_def create_transport_def connecting_def split: if_splits)

lemma connect_phase_keep:
  assumes "ws_connect env (create_transport env c) = (c', e)"
  shows "control_ring_failures c' = control_ring_failures c" and "signals c' = signals c"
    and "epoch c' = epoch c" and "state c' = state c"
  using assms by (auto simp: ws_connect_def create_transport_def split: if_splits)

lemma conn_open_eq:
  assumes ok: "conn_ok pol c" and env: "env_ok env" and st: "state c = Disconnected \<or> state c = WaitingReconnect"
    and u: "parse_url url = Inr u"
  shows "\<exists>c3. connecting c3 \<and> (env_connect env \<noteq> NoError \<longrightarrow> (\<exists>h. ws c3 = Some h \<and> \<not> ws_open h)) \<and>
    control_ring_failures c3 = control_ring_failures c \<and> signals c3 = signals c \<and> epoch c3 = epoch c \<and>
    conn_open pol env url c = (if env_connect env \<noteq> NoError
      then (on_connect_failed pol (env_connect env) c3, env_connect env) else (on_connected pol env c3, NoError))"
proof -
  let ?c2 = "c\<lparr>last_url := url, last_error := NoError, parsed_url_of := Some u, state := Connecting\<rparr>"
  have t: "transition pol env OpenRequested NoError
      (c\<lparr>last_url := url, last_error := NoError, parsed_url_of := Some u\<rparr>) = ?c2"
    using st by (auto simp: transition.simps)
  obtain c3 e where c3: "ws_connect env (create_transport env ?c2) = (c3, e)" by fastforce
  have f: "\<not> fault ?c2" "state ?c2 = Connecting" "parsed_url_of ?c2 \<noteq> None" "length (signals ?c2) \<le> sig_bound"
    "shutdown_ok (env_shutdown env)" using ok env by (simp_all add: conn_ok_def env_ok_def)
  note P = connect_phase [OF f c3]
  show ?thesis
    using st u t c3 P connect_phase_keep [OF c3]
    by (intro exI [of _ "c3\<lparr>last_error := e\<rparr>"]) (auto simp: conn_open_def Let_def transition.simps)
qed

lemma conn_open_rejected:
  assumes "\<not> (state c = Disconnected \<or> state c = WaitingReconnect) \<or> parse_url url = Inl e"
  shows "\<exists>u l. fst (conn_open pol env url c) = c\<lparr>last_url := u, last_error := l\<rparr>"
proof (cases "state c = Disconnected \<or> state c = WaitingReconnect")
  case False
  then show ?thesis by (intro exI [of _ "last_url c"] exI [of _ "last_error c"]) (simp add: conn_open_def)
next
  case True
  then show ?thesis using assms by (auto simp: conn_open_def Let_def)
qed

lemma conn_open_ok:
  assumes ok: "conn_ok pol c" and env: "env_ok env"
  shows "conn_ok pol (fst (conn_open pol env url c))"
proof (cases "(state c = Disconnected \<or> state c = WaitingReconnect) \<and> (\<exists>u. parse_url url = Inr u)")
  case True
  then obtain u where "parse_url url = Inr u" by blast
  from conn_open_eq [OF ok env _ this] True obtain c3 where c3: "connecting c3"
    "env_connect env \<noteq> NoError \<longrightarrow> (\<exists>h. ws c3 = Some h \<and> \<not> ws_open h)"
    "conn_open pol env url c = (if env_connect env \<noteq> NoError
      then (on_connect_failed pol (env_connect env) c3, env_connect env) else (on_connected pol env c3, NoError))"
    by auto
  show ?thesis
    using c3 on_connected_ok(1) [OF c3(1), of pol env] on_connect_failed_ok(1) [OF c3(1)]
    by (cases "env_connect env = NoError") simp_all
next
  case False
  then obtain e where "\<not> (state c = Disconnected \<or> state c = WaitingReconnect) \<or> parse_url url = Inl e"
    by (cases "parse_url url") auto
  from conn_open_rejected [OF this, of pol env] ok show ?thesis by (auto simp: conn_ok_def)
qed

lemma reconnect_eq:
  assumes ok: "conn_ok pol c" and env: "env_ok env" and st: "state c = WaitingReconnect"
  shows "\<exists>c3. connecting c3 \<and> (env_connect env \<noteq> NoError \<longrightarrow> (\<exists>h. ws c3 = Some h \<and> \<not> ws_open h)) \<and>
    should_retry (cp_retry pol) (retry_root_error c3) \<and>
    control_ring_failures c3 = control_ring_failures c \<and> signals c3 = signals c \<and> epoch c3 = epoch c \<and>
    reconnect pol env c = (if env_connect env \<noteq> NoError
      then (on_reconnect_failed pol env (env_connect env) c3, False) else (on_connected pol env c3, True))"
proof -
  let ?c1 = "c\<lparr>state := Connecting\<rparr>"
  have u: "parsed_url_of c \<noteq> None" "should_retry (cp_retry pol) (retry_root_error c)"
    using ok st by (auto simp: conn_ok_def)
  have t: "transition pol env RetryTimerExpired NoError c = ?c1" using st by (simp add: transition.simps)
  obtain c2 e where c2: "ws_connect env (create_transport env ?c1) = (c2, e)" by fastforce
  have f: "\<not> fault ?c1" "state ?c1 = Connecting" "parsed_url_of ?c1 \<noteq> None" "length (signals ?c1) \<le> sig_bound"
    "shutdown_ok (env_shutdown env)" using u ok env by (simp_all add: conn_ok_def env_ok_def)
  note P = connect_phase [OF f c2]
  show ?thesis
    using st u t c2 P connect_phase_keep [OF c2]
    by (intro exI [of _ "c2\<lparr>last_error := e\<rparr>"]) (auto simp: reconnect_def Let_def transition.simps)
qed

lemma reconnect_facts:
  assumes ok: "conn_ok pol c" and env: "env_ok env" and pol: "policy_ok pol" and st: "state c = WaitingReconnect"
  shows "conn_ok pol (fst (reconnect pol env c))"
    and "snd (reconnect pol env c) \<longleftrightarrow> env_connect env = NoError"
    and "epoch (fst (reconnect pol env c)) = (if env_connect env = NoError then epoch c + 1 else epoch c)"
proof -
  obtain c3 where c3: "connecting c3" "should_retry (cp_retry pol) (retry_root_error c3)" "epoch c3 = epoch c"
    "env_connect env \<noteq> NoError \<longrightarrow> (\<exists>h. ws c3 = Some h \<and> \<not> ws_open h)"
    "reconnect pol env c = (if env_connect env \<noteq> NoError
      then (on_reconnect_failed pol env (env_connect env) c3, False) else (on_connected pol env c3, True))"
    using reconnect_eq [OF ok env st] by blast
  note C = on_connected_ok [OF c3(1), of pol env]
  note F = on_reconnect_failed_ok [OF c3(1) _ c3(2) pol env, of "env_connect env"]
  show "conn_ok pol (fst (reconnect pol env c))" "snd (reconnect pol env c) \<longleftrightarrow> env_connect env = NoError"
    "epoch (fst (reconnect pol env c)) = (if env_connect env = NoError then epoch c + 1 else epoch c)"
    using c3(3-5) C F by (cases "env_connect env = NoError"; simp)+
qed

lemma conn_ok_flags [simp]:
  "conn_ok pol (c\<lparr>liveness_warning_emitted := b\<rparr>) = conn_ok pol c"
  "conn_ok pol (c\<lparr>liveness_timeout_emitted := b\<rparr>) = conn_ok pol c"
  by (simp_all add: conn_ok_def)

lemma liveness_expired_ok:
  "conn_ok pol c \<Longrightarrow> conn_ok pol (transition pol env LivenessExpired e c)"
  using push_all_facts [of _ "control_ring c"]
  by (cases "state c") (auto simp: conn_ok_def transition.simps ws_close_eq split: option.splits)

lemma liveness_outdated_ok:
  "conn_ok pol c \<Longrightarrow> conn_ok pol (transition pol env LivenessOutdated e c)"
  by (cases "state c") (simp_all add: transition.simps emit_ok)

lemma enforce_ok [inv_intros]:
  assumes "conn_ok pol c" shows "conn_ok pol (enforce_liveness_policy pol env c)"
  using assms liveness_outdated_ok [of pol "c\<lparr>liveness_warning_emitted := True\<rparr>" env NoError] liveness_expired_ok
  by (simp add: enforce_liveness_policy_def Let_def)

lemma conn_poll_ok [inv_intros]:
  assumes "conn_ok pol c" and "env_ok env" and "policy_ok pol"
  shows "conn_ok pol (conn_poll pol env c)"
  using assms drain_ok [OF assms(1), of env] reconnect_facts(1) [OF drain_ok [OF assms(1)] assms(2,3)]
  by (auto simp: conn_poll_def Let_def intro: enforce_ok)

lemma conn_send_ok [inv_intros]: "conn_ok pol c \<Longrightarrow> conn_ok pol (fst (conn_send env c))"
  by (auto simp: conn_send_def conn_ok_def)

lemma ws_receive_ok [inv_intros]: "conn_ok pol c \<Longrightarrow> conn_ok pol (ws_receive ev c)"
  by (auto simp: conn_ok_def ws_receive_def push_control_def count_list_0_iff split: option.splits)

lemma ws_deliver_ok [inv_intros]: "conn_ok pol c \<Longrightarrow> conn_ok pol (ws_deliver m c)"
  by (auto simp: conn_ok_def ws_deliver_def split: option.split)

lemma peek_message_ok [inv_intros]: "conn_ok pol c \<Longrightarrow> conn_ok pol (fst (peek_message now c))"
  by (simp add: conn_ok_def peek_message_def split: list.split)

lemma release_message_ok [inv_intros]: "conn_ok pol c \<Longrightarrow> conn_ok pol (release_message c)"
  by (simp add: conn_ok_def release_message_def)

lemma poll_signal_ok [inv_intros]: "conn_ok pol c \<Longrightarrow> conn_ok pol (fst (poll_signal c))"
  by (cases "signals c") (auto simp: conn_ok_def poll_signal_def Let_def)

section \<open>The signals as a record of the link\<close>

definition link_up :: "connection \<Rightarrow> bool" where
  "link_up c \<longleftrightarrow> state c = Connected \<or> state c = Disconnecting"

text \<open>Reading the edges of a signal sequence; \<open>None\<close> is a repeated edge.\<close>

fun link_run :: "bool \<Rightarrow> signal list \<Rightarrow> bool option" where
  "link_run b [] = Some b"
| "link_run b (SigConnected # ss) = (if b then None else link_run True ss)"
| "link_run b (SigDisconnected # ss) = (if b then link_run False ss else None)"
| "link_run b (_ # ss) = link_run b ss"

lemma link_run_append: "link_run b (xs @ ys) = Option.bind (link_run b xs) (\<lambda>b'. link_run b' ys)"
  by (induction b xs rule: link_run.induct) simp_all

text \<open>
  One connection state follows another when the signals were only appended to, the
  appended ones take the link from its old to its new status, and the epoch grew by the
  number of connections announced; nothing is said once a signal has been lost.
\<close>

definition follows :: "connection \<Rightarrow> connection \<Rightarrow> bool" where
  "follows c c' \<longleftrightarrow> control_ring_failures c \<le> control_ring_failures c' \<and>
     (control_ring_failures c' = control_ring_failures c \<longrightarrow>
        (\<exists>new. signals c' = signals c @ new \<and> link_run (link_up c) new = Some (link_up c') \<and>
           epoch c' = epoch c + of_nat (count_list new SigConnected)))"

lemma follows_refl [simp]: "follows c c"
  by (auto simp: follows_def intro!: exI [of _ "[]"])

lemma follows_trans [trans]:
  assumes "follows a b" and "follows b c" shows "follows a c"
proof -
  have le: "control_ring_failures a \<le> control_ring_failures b" "control_ring_failures b \<le> control_ring_failures c"
    using assms by (simp_all add: follows_def)
  have "\<exists>new. signals c = signals a @ new \<and> link_run (link_up a) new = Some (link_up c) \<and>
      epoch c = epoch a + of_nat (count_list new SigConnected)"
    if eq: "control_ring_failures c = control_ring_failures a"
  proof -
    have "control_ring_failures b = control_ring_failures a" "control_ring_failures c = control_ring_failures b"
      using le eq by simp_all
    with assms obtain x y where
      "signals b = signals a @ x" "link_run (link_up a) x = Some (link_up b)"
      "epoch b = epoch a + of_nat (count_list x SigConnected)"
      "signals c = signals b @ y" "link_run (link_up b) y = Some (link_up c)"
      "epoch c = epoch b + of_nat (count_list y SigConnected)" by (auto simp: follows_def)
    then show ?thesis by (intro exI [of _ "x @ y"]) (simp add: link_run_append)
  qed
  with le show ?thesis by (simp add: follows_def)
qed

lemma follows_same:
  "control_ring_failures c' = control_ring_failures c \<Longrightarrow> signals c' = signals c \<Longrightarrow>
   link_up c' = link_up c \<Longrightarrow> epoch c' = epoch c \<Longrightarrow> follows c c'"
  by (auto simp: follows_def intro!: exI [of _ "[]"])

lemma follows_lost: "control_ring_failures c < control_ring_failures c' \<Longrightarrow> follows c c'"
  by (simp add: follows_def)

lemma follows_new:
  "control_ring_failures c' = control_ring_failures c \<Longrightarrow> signals c' = signals c @ new \<Longrightarrow>
   link_run (link_up c) new = Some (link_up c') \<Longrightarrow>
   epoch c' = epoch c + of_nat (count_list new SigConnected) \<Longrightarrow> follows c c'"
  by (auto simp: follows_def)

lemma closes_keep [simp]:
  "control_ring_failures (ws_close c) = control_ring_failures c" "signals (ws_close c) = signals c"
  "epoch (ws_close c) = epoch c" "state (ws_close c) = state c"
  "control_ring_failures (destroy_transport_if_needed c) = control_ring_failures c"
  "signals (destroy_transport_if_needed c) = signals c"
  "epoch (destroy_transport_if_needed c) = epoch c" "state (destroy_transport_if_needed c) = state c"
  by (simp_all add: ws_close_eq destroy_eq split: option.split)

lemma conn_close_keep [simp]:
  "control_ring_failures (conn_close c) = control_ring_failures c" "signals (conn_close c) = signals c"
  "epoch (conn_close c) = epoch c"
  by (cases "state c"; simp add: conn_close_def transition_close_def)+

lemma conn_close_link: "state c \<noteq> Connecting \<Longrightarrow> link_up (conn_close c) = link_up c"
  by (cases "state c") (simp_all add: conn_close_def transition_close_def link_up_def)

text \<open>An emission either is appended or is counted as lost.\<close>

lemma emit_cases:
  obtains (sent) "emit sig c = c\<lparr>signals := signals c @ [sig]\<rparr>"
  | (lost) "control_ring_failures (emit sig c) = control_ring_failures c + 1"
  by (cases "length (signals c) < sig_bound") (simp_all add: emit_eq)

lemma follows_emit:
  assumes "sig \<notin> {SigConnected, SigDisconnected}" and "state c \<noteq> Connecting"
  shows "follows c (emit sig c)"
proof (cases sig c rule: emit_cases)
  case sent
  have "link_run b [sig] = Some b" for b using assms(1) by (cases sig) auto
  with sent assms(1) show ?thesis
    by (intro follows_new [where new = "[sig]"]) (auto simp: link_up_def)
qed (simp add: follows_lost)

lemma failures_mono_emit: "control_ring_failures c \<le> control_ring_failures (emit sig c)"
  by (cases sig c rule: emit_cases) simp_all

lemma failures_arm:
  "control_ring_failures c \<le> control_ring_failures (arm_immediate_reconnect e c)"
  by (simp add: arm_immediate_reconnect_def failures_mono_emit)

lemma failures_resolve: "control_ring_failures c \<le> control_ring_failures (resolve_closed pol c)"
  using failures_arm [of "destroy_transport_if_needed (c\<lparr>state := WaitingReconnect\<rparr>)" "last_error c"]
  by (simp add: resolve_closed_def)

lemma follows_arm:
  assumes "state c = WaitingReconnect" shows "follows c (arm_immediate_reconnect e c)"
proof -
  have "follows c (emit SigRetryImmediate c)" using assms by (intro follows_emit) simp_all
  also have "follows (emit SigRetryImmediate c) (arm_immediate_reconnect e c)"
    by (rule follows_same) (simp_all add: arm_immediate_reconnect_def link_up_def)
  finally show ?thesis .
qed

lemma follows_closed:
  assumes "closing pol c" shows "follows c (on_transport_closed pol env c)"
  unfolding on_transport_closed_eq [OF assms]
proof (cases SigDisconnected c rule: emit_cases)
  case lost
  then show "follows c (resolve_closed pol (emit SigDisconnected c))"
    using failures_resolve [of "emit SigDisconnected c" pol] by (intro follows_lost) simp
next
  case sent
  let ?c1 = "c\<lparr>signals := signals c @ [SigDisconnected]\<rparr>"
  have up: "link_up c" using closing_state [OF assms] by (auto simp: link_up_def)
  have down: "follows c (destroy_transport_if_needed (?c1\<lparr>state := st\<rparr>))"
    if "st \<in> {WaitingReconnect, Disconnected}" for st
    using that up by (intro follows_new [where new = "[SigDisconnected]"]) (auto simp: link_up_def)
  note arm = follows_arm [of "destroy_transport_if_needed (?c1\<lparr>state := WaitingReconnect\<rparr>)" "last_error ?c1"]
  show "follows c (resolve_closed pol (emit SigDisconnected c))"
    unfolding sent resolve_closed_def
    using down [of Disconnected] follows_trans [OF down [of WaitingReconnect] arm] by simp
qed

lemma follows_on_ws_event:
  assumes ok: "conn_ok pol c" and r: "control_ring c = ev # evs"
  shows "follows c (on_ws_event pol env ev (c\<lparr>control_ring := evs\<rparr>))"
proof -
  have 1: "follows c (c\<lparr>control_ring := evs\<rparr>)" by (rule follows_same) (simp_all add: link_up_def)
  have st: "state c \<noteq> Connecting" using ok by (simp add: conn_ok_def)
  have "follows (c\<lparr>control_ring := evs\<rparr>) (on_ws_event pol env ev (c\<lparr>control_ring := evs\<rparr>))"
  proof (cases ev)
    case WsClose
    then have "closing pol (c\<lparr>control_ring := evs\<rparr>)"
      using ok r by (auto simp: closing_def conn_ok_def count_list_0_iff)
    with follows_closed WsClose show ?thesis by (simp add: on_ws_event_def)
  next
    case (WsError e)
    then show ?thesis
      by (simp add: on_ws_event_def on_transport_error_def) (intro impI follows_same; simp add: link_up_def)
  qed (use st in \<open>simp_all add: on_ws_event_def follows_emit\<close>)
  with 1 show ?thesis by (rule follows_trans)
qed

lemma follows_drain: "conn_ok pol c \<Longrightarrow> follows c (drain_control pol env c)"
proof (induction pol env c rule: drain_control.induct)
  case (1 pol env c)
  show ?case
  proof (cases "control_ring c")
    case Nil
    then show ?thesis by (simp add: drain_control.simps)
  next
    case (Cons ev evs)
    note s = follows_on_ws_event [OF "1.prems" Cons, of env]
    from follows_trans [OF s "1.IH" [OF Cons on_ws_event_ok [OF "1.prems" Cons]]] Cons show ?thesis
      by (subst drain_control.simps) simp
  qed
qed

lemma follows_on_connected:
  assumes "connecting c" shows "follows c (on_connected pol env c)"
proof (cases SigConnected "c\<lparr>state := Connected\<rparr>" rule: emit_cases)
  case lost
  then show ?thesis by (intro follows_lost) (simp add: on_connected_def Let_def)
next
  case sent
  have "\<not> link_up c" using assms by (simp add: connecting_def link_up_def)
  with sent show ?thesis
    by (intro follows_new [where new = "[SigConnected]"]) (simp_all add: on_connected_def Let_def link_up_def)
qed

lemma follows_schedule:
  assumes "state c = WaitingReconnect" shows "follows c (schedule_next_retry pol env c)"
proof -
  have dis: "follows c (c\<lparr>state := Disconnected\<rparr>)" by (rule follows_same) (simp_all add: link_up_def assms)
  have "follows c (emit SigRetryScheduled c)" using assms by (intro follows_emit) simp_all
  also have "follows (emit SigRetryScheduled c) ((emit SigRetryScheduled c)\<lparr>retry_attempts := n, next_retry := t, fault := b\<rparr>)"
    for n t b by (rule follows_same) (simp_all add: link_up_def)
  finally show ?thesis using dis by (simp add: schedule_next_retry_def Let_def)
qed

lemma follows_failed:
  assumes "connecting c"
  shows "follows c (on_connect_failed pol e c)" and "follows c (on_reconnect_failed pol env e c)"
proof -
  have "state c = Connecting" using assms by (simp add: connecting_def)
  then have d: "follows c (destroy_transport_if_needed (c\<lparr>disconnect_reason_of := x, state := st\<rparr>))"
    if "st \<in> {WaitingReconnect, Disconnected}" for st x
    using that by (intro follows_same) (auto simp: link_up_def)
  have d': "follows c (destroy_transport_if_needed (c\<lparr>state := WaitingReconnect\<rparr>))"
    and d'': "follows c ((destroy_transport_if_needed (c\<lparr>state := Disconnected\<rparr>))\<lparr>disconnect_reason_of := TransportErrorReason\<rparr>)"
    using \<open>state c = Connecting\<close> by (intro follows_same; simp add: link_up_def)+
  show "follows c (on_connect_failed pol e c)"
    using d'' follows_trans [OF d' follows_arm] by (simp add: on_connect_failed_def)
  show "follows c (on_reconnect_failed pol env e c)"
    using d [of Disconnected] follows_trans [OF d [of WaitingReconnect] follows_schedule]
    by (simp add: on_reconnect_failed_def Let_def)
qed

lemma follows_open:
  assumes ok: "conn_ok pol c" and env: "env_ok env"
  shows "follows c (fst (conn_open pol env url c))"
proof (cases "(state c = Disconnected \<or> state c = WaitingReconnect) \<and> (\<exists>u. parse_url url = Inr u)")
  case True
  then obtain u where "parse_url url = Inr u" by blast
  from conn_open_eq [OF ok env _ this] True obtain c3 where c3: "connecting c3"
    "control_ring_failures c3 = control_ring_failures c" "signals c3 = signals c" "epoch c3 = epoch c"
    "conn_open pol env url c = (if env_connect env \<noteq> NoError
      then (on_connect_failed pol (env_connect env) c3, env_connect env) else (on_connected pol env c3, NoError))"
    by auto
  have "follows c c3" using c3 True by (intro follows_same) (auto simp: link_up_def connecting_def)
  then show ?thesis
    using c3(5) follows_trans [OF _ follows_failed(1) [OF c3(1)], of c]
      follows_trans [OF _ follows_on_connected [OF c3(1)], of c]
    by (cases "env_connect env = NoError") simp_all
next
  case False
  then obtain e where "\<not> (state c = Disconnected \<or> state c = WaitingReconnect) \<or> parse_url url = Inl e"
    by (cases "parse_url url") auto
  from conn_open_rejected [OF this, of pol env] show ?thesis
    by (auto intro!: follows_same simp: link_up_def)
qed

lemma follows_reconnect:
  assumes ok: "conn_ok pol c" and env: "env_ok env" and st: "state c = WaitingReconnect"
  shows "follows c (fst (reconnect pol env c))"
proof -
  obtain c3 where c3: "connecting c3"
    "control_ring_failures c3 = control_ring_failures c" "signals c3 = signals c" "epoch c3 = epoch c"
    "reconnect pol env c = (if env_connect env \<noteq> NoError
      then (on_reconnect_failed pol env (env_connect env) c3, False) else (on_connected pol env c3, True))"
    using reconnect_eq [OF ok env st] by blast
  have "follows c c3" using c3 st by (intro follows_same) (auto simp: link_up_def connecting_def)
  then show ?thesis
    using c3(5) follows_trans [OF _ follows_failed(2) [OF c3(1)], of c]
      follows_trans [OF _ follows_on_connected [OF c3(1)], of c]
    by (cases "env_connect env = NoError") simp_all
qed

lemma follows_enforce:
  assumes "conn_ok pol c" shows "follows c (enforce_liveness_policy pol env c)"
proof (cases "state c = Connected")
  case st: True
  define c1 where "c1 = (if \<not> liveness_warning_emitted c
    then if liveness_remaining pol (env_now_remaining env) c \<le> warning_remaining_threshold pol
         then transition pol env LivenessOutdated NoError (c\<lparr>liveness_warning_emitted := True\<rparr>) else c
    else if liveness_remaining pol (env_now_remaining env) c > warning_remaining_threshold pol
         then c\<lparr>liveness_warning_emitted := False\<rparr> else c)"
  have w: "follows c (c\<lparr>liveness_warning_emitted := b\<rparr>)" for b
    by (rule follows_same) (simp_all add: link_up_def)
  have "follows (c\<lparr>liveness_warning_emitted := True\<rparr>) (emit SigLivenessThreatened (c\<lparr>liveness_warning_emitted := True\<rparr>))"
    using st by (intro follows_emit) simp_all
  then have 1: "follows c c1" using st w follows_trans [OF w] by (simp add: c1_def transition.simps)
  have 2: "follows c1 (transition pol env LivenessExpired Timeout (c1\<lparr>liveness_timeout_emitted := True\<rparr>))"
    by (cases "state c1"; intro follows_same; simp add: transition.simps link_up_def)
  show ?thesis
    using st 1 follows_trans [OF 1 2] by (simp add: enforce_liveness_policy_def c1_def [symmetric] Let_def)
qed (simp add: enforce_liveness_policy_def)

lemma follows_poll:
  assumes ok: "conn_ok pol c" and env: "env_ok env" and pol: "policy_ok pol"
  shows "follows c (conn_poll pol env c)"
proof -
  let ?c1 = "drain_control pol env c"
  let ?c2 = "if state ?c1 = WaitingReconnect \<and> env_now_poll env \<ge> next_retry ?c1 then fst (reconnect pol env ?c1) else ?c1"
  have 1: "conn_ok pol ?c1" "follows c ?c1" using drain_ok [OF ok] follows_drain [OF ok] by simp_all
  have 2: "conn_ok pol ?c2" "follows ?c1 ?c2"
    using 1(1) reconnect_facts(1) [OF 1(1) env pol] follows_reconnect [OF 1(1) env] by simp_all
  from follows_trans [OF 1(2) 2(2)] have "follows c ?c2" .
  with follows_trans [OF this follows_enforce [OF 2(1)]] show ?thesis
    by (simp add: conn_poll_def Let_def)
qed

end
