(* ===== verification/Connection_Run.thy ===== *)
theory Connection_Run
  imports Connection
begin

text \<open>
  Runs of a connection: any sequence of the client's calls and of the receive thread's
  pushes, from a fresh connection. The properties of \<^verbatim>\<open>transport::Connection\<close> are stated over
  these runs and over single calls in a reachable state.
\<close>

section \<open>Runs\<close>

text \<open>\<open>conn_run pol out c\<close>: the connection \<open>c\<close> is reachable and the client has popped the signals \<open>out\<close>.\<close>

inductive conn_run :: "conn_policy \<Rightarrow> signal list \<Rightarrow> connection \<Rightarrow> bool" for pol :: conn_policy where
  run_init: "conn_run pol [] (Connection_init now)"
| run_open: "conn_run pol out c \<Longrightarrow> env_ok env \<Longrightarrow> conn_run pol out (fst (conn_open pol env url c))"
| run_close: "conn_run pol out c \<Longrightarrow> conn_run pol out (conn_close c)"
| run_send: "conn_run pol out c \<Longrightarrow> conn_run pol out (fst (conn_send env c))"
| run_poll: "conn_run pol out c \<Longrightarrow> env_ok env \<Longrightarrow> conn_run pol out (conn_poll pol env c)"
| run_receive: "conn_run pol out c \<Longrightarrow> conn_run pol out (ws_receive ev c)"
| run_deliver: "conn_run pol out c \<Longrightarrow> conn_run pol out (ws_deliver m c)"
| run_peek: "conn_run pol out c \<Longrightarrow> conn_run pol out (fst (peek_message now c))"
| run_release: "conn_run pol out c \<Longrightarrow> conn_run pol out (release_message c)"
| run_signal: "conn_run pol out c \<Longrightarrow> poll_signal c = (c', Some sig) \<Longrightarrow> conn_run pol (out @ [sig]) c'"

lemma conn_ok_init: "conn_ok pol (Connection_init now)"
  by (simp add: conn_ok_def Connection_init_def)

lemma conn_run_ok:
  assumes "conn_run pol out c" and "policy_ok pol" shows "conn_ok pol c"
  using assms
proof induction
  case (run_signal out c c' sig)
  then show ?case using poll_signal_ok [of pol c] by simp
qed (simp_all add: conn_ok_init conn_open_ok conn_close_ok conn_send_ok conn_poll_ok ws_receive_ok
    ws_deliver_ok peek_message_ok release_message_ok)

section \<open>The signals of a run\<close>

lemma follows_close: "state c \<noteq> Connecting \<Longrightarrow> follows c (conn_close c)"
  by (rule follows_same) (simp_all add: conn_close_link)

lemma follows_send: "follows c (fst (conn_send env c))"
  by (rule follows_same) (auto simp: conn_send_def link_up_def)

lemma follows_receive: "follows c (ws_receive ev c)"
  by (rule follows_same) (auto simp: ws_receive_def push_control_def link_up_def split: option.split)

lemma follows_deliver: "follows c (ws_deliver m c)"
  by (rule follows_same) (auto simp: ws_deliver_def link_up_def split: option.split)

lemma follows_peek: "follows c (fst (peek_message now c))"
  by (rule follows_same) (auto simp: peek_message_def link_up_def split: list.split)

lemma follows_release: "follows c (release_message c)"
  by (rule follows_same) (auto simp: release_message_def link_up_def)

text \<open>The signals popped so far, followed by those in the ring, record the link's edges.\<close>

definition recorded :: "signal list \<Rightarrow> connection \<Rightarrow> bool" where
  "recorded out c \<longleftrightarrow> link_run False (out @ signals c) = Some (link_up c) \<and>
     epoch c = of_nat (count_list (out @ signals c) SigConnected)"

lemma recorded_follows:
  assumes "control_ring_failures c = 0 \<Longrightarrow> recorded out c" and "follows c c'"
    and "control_ring_failures c' = 0"
  shows "recorded out c'"
proof -
  have z: "control_ring_failures c = 0" using assms(2,3) by (simp add: follows_def)
  then obtain new where "signals c' = signals c @ new" "link_run (link_up c) new = Some (link_up c')"
    "epoch c' = epoch c + of_nat (count_list new SigConnected)"
    using assms(2,3) by (auto simp: follows_def)
  with assms(1) [OF z] show ?thesis
    by (auto simp: recorded_def link_run_append bind_eq_Some_conv)
qed

lemma conn_run_recorded:
  assumes "conn_run pol out c" and "policy_ok pol" and "control_ring_failures c = 0"
  shows "recorded out c"
  using assms
proof induction
  case (run_init now)
  show ?case by (simp add: recorded_def Connection_init_def link_up_def)
next
  case (run_signal out c c' sig)
  then obtain sigs where s: "signals c = sig # sigs" "c' = c\<lparr>signals := sigs\<rparr>"
    by (cases "signals c") (auto simp: poll_signal_def)
  with run_signal show ?case by (simp add: recorded_def link_up_def)
next
  case (run_close out c)
  then show ?case
    using recorded_follows follows_close conn_run_ok by (metis conn_ok_def)
qed (metis recorded_follows conn_run_ok follows_open follows_send follows_poll follows_receive follows_deliver
    follows_peek follows_release)+

section \<open>Closing for good\<close>

text \<open>A connection that the client has closed, while its close event is still in the ring.\<close>

definition shutting_down :: "conn_policy \<Rightarrow> connection \<Rightarrow> bool" where
  "shutting_down pol c \<longleftrightarrow> conn_ok pol c \<and> state c = Disconnecting \<and> disconnect_reason_of c = LocalClose \<and>
     WsClose \<in> set (control_ring c)"

lemma emit_disconnecting:
  assumes "state c = Disconnecting"
  shows "state (emit sig c) = Disconnecting" and "disconnect_reason_of (emit sig c) = disconnect_reason_of c"
    and "control_ring (emit sig c) = control_ring c" and "last_error (emit sig c) = last_error c"
  using assms by (simp_all add: emit_eq conn_close_def)

lemma emit_disconnected: "state c = Disconnected \<Longrightarrow> state (emit sig c) = Disconnected"
  by (auto simp: emit_eq conn_close_def)

lemma on_ws_event_disconnected:
  "state c = Disconnected \<Longrightarrow> state (on_ws_event pol env ev c) = Disconnected"
  by (cases ev) (simp_all add: on_ws_event_def on_transport_closed_def on_transport_error_def emit_disconnected)

lemma drain_disconnected: "state c = Disconnected \<Longrightarrow> state (drain_control pol env c) = Disconnected"
proof (induction pol env c rule: drain_control.induct)
  case (1 pol env c)
  then show ?case
    by (subst drain_control.simps) (simp add: on_ws_event_disconnected split: list.split)
qed

lemma shutting_down_step:
  assumes "shutting_down pol c" and r: "control_ring c = ev # evs"
  shows "shutting_down pol (on_ws_event pol env ev (c\<lparr>control_ring := evs\<rparr>)) \<or>
    state (on_ws_event pol env ev (c\<lparr>control_ring := evs\<rparr>)) = Disconnected"
proof (cases "ev = WsClose")
  case True
  let ?c = "c\<lparr>control_ring := evs\<rparr>"
  have st: "state ?c = Disconnecting" "disconnect_reason_of ?c = LocalClose"
    using assms(1) by (simp_all add: shutting_down_def)
  with True emit_disconnecting [OF st(1), of SigDisconnected] show ?thesis
    by (simp add: on_ws_event_def on_transport_closed_def transition.simps resolve_closed_def)
next
  case False
  let ?c = "c\<lparr>control_ring := evs\<rparr>"
  have ok: "conn_ok pol (on_ws_event pol env ev ?c)"
    using on_ws_event_ok [OF _ r] assms(1) by (simp add: shutting_down_def)
  have st: "state ?c = Disconnecting" "disconnect_reason_of ?c = LocalClose" "WsClose \<in> set evs"
    using assms(1) False r by (auto simp: shutting_down_def)
  have "shutting_down pol (on_ws_event pol env ev ?c)"
    using ok st False emit_disconnecting [OF st(1)]
    by (cases ev) (simp_all add: shutting_down_def on_ws_event_def on_transport_error_def)
  then show ?thesis ..
qed

lemma drain_shutting_down:
  "shutting_down pol c \<Longrightarrow> state (drain_control pol env c) = Disconnected"
proof (induction pol env c rule: drain_control.induct)
  case (1 pol env c)
  then obtain ev evs where r: "control_ring c = ev # evs"
    by (cases "control_ring c") (auto simp: shutting_down_def)
  from shutting_down_step [OF "1.prems" r, of env] "1.IH" [OF r] drain_disconnected r show ?case
    by (subst drain_control.simps) auto
qed

text \<open>The close event reaches the ring: either it is there already or the ring has room for it.\<close>

definition close_deliverable :: "connection \<Rightarrow> bool" where
  "close_deliverable c \<longleftrightarrow> WsClose \<in> set (control_ring c) \<or>
     (\<exists>h. ws c = Some h \<and> ws_open h \<and> length (control_ring c) + length (ws_shutdown_events h) \<le> ctl_bound)"

lemma push_all_delivers:
  "shutdown_ok evs \<Longrightarrow> length r + length evs \<le> ctl_bound \<Longrightarrow> WsClose \<in> set (push_all r evs)"
  by (metis (no_types, lifting) Un_iff add.commute last_in_set le_diff_conv2 add_leD1 push_all_def set_append
      shutdown_ok_def take_all)

lemma close_shutting_down:
  assumes "conn_ok pol c" and "state c = Connected" and "close_deliverable c"
  shows "shutting_down pol (conn_close c)"
proof -
  obtain h where h: "ws c = Some h" "shutdown_ok (ws_shutdown_events h)"
    using assms(1,2) by (auto simp: conn_ok_def)
  have "WsClose \<in> set (control_ring (conn_close c))"
    using assms h push_all_delivers [OF h(2), of "control_ring c"]
    by (auto simp: close_deliverable_def conn_close_def transition_close_def ws_close_eq push_all_def)
  moreover have "state (conn_close c) = Disconnecting" "disconnect_reason_of (conn_close c) = LocalClose"
    using assms(2) h by (simp_all add: conn_close_def transition_close_def ws_close_eq)
  ultimately show ?thesis using conn_close_ok [OF assms(1)] by (simp add: shutting_down_def)
qed

lemma poll_drained:
  assumes "state c \<noteq> Disconnected" and "state (drain_control pol env c) = Disconnected"
  shows "conn_poll pol env c = drain_control pol env c"
  using assms by (simp add: conn_poll_def Let_def enforce_liveness_policy_def)

lemma polls_disconnected: "state c = Disconnected \<Longrightarrow> fold (conn_poll pol) envs c = c"
  by (induction envs) (simp_all add: conn_poll_def)

lemma close_then_poll:
  assumes ok: "conn_ok pol c" and st: "state c \<noteq> Disconnecting"
    and "state c = Connected \<Longrightarrow> close_deliverable c"
  shows "conn_ok pol (conn_poll pol env (conn_close c)) \<and> state (conn_poll pol env (conn_close c)) = Disconnected"
proof (cases "state c = Connected")
  case True
  then have s: "shutting_down pol (conn_close c)" using assms by (intro close_shutting_down) simp_all
  then have "state (conn_close c) \<noteq> Disconnected" by (simp add: shutting_down_def)
  then show ?thesis
    using poll_drained drain_shutting_down [OF s] drain_ok [OF conn_close_ok [OF ok]] by simp
next
  case False
  then have "state (conn_close c) = Disconnected"
    using ok st by (cases "state c") (auto simp: conn_ok_def conn_close_def transition_close_def)
  then show ?thesis using conn_close_ok [OF ok] by (simp add: conn_poll_def)
qed

section \<open>Failed reconnections\<close>

text \<open>The reconnection of a waiting connection, when its \<^verbatim>\<open>connect\<close> fails.\<close>

lemma reconnect_failed:
  assumes ok: "conn_ok pol c" and st: "state c = WaitingReconnect" and e: "env_connect env \<noteq> NoError"
  shows "fst (reconnect pol env c) = on_reconnect_failed pol env (env_connect env)
    (c\<lparr>state := Connecting, control_ring := [], message_ring := [],
       ws := Some \<lparr>ws_open = False, ws_shutdown_events = env_shutdown env\<rparr>, last_error := env_connect env\<rparr>)"
  using assms by (auto simp: conn_ok_def reconnect_def transition.simps Let_def ws_connect_def create_transport_def)

lemma emit_waiting:
  assumes "state c = WaitingReconnect" and "ws c = None"
  shows "state (emit sig c) = (if length (signals c) < sig_bound then WaitingReconnect else Disconnected)"
    and "length (signals c) < sig_bound \<Longrightarrow> signals (emit sig c) = signals c @ [sig]"
    and "retry_root_error (emit sig c) = retry_root_error c" and "retry_attempts (emit sig c) = retry_attempts c"
    and "control_ring (emit sig c) = control_ring c"
  using assms by (simp_all add: emit_eq conn_close_def transition_close_def destroy_eq)

text \<open>When a failed reconnection ends the retries.\<close>

definition gives_up :: "conn_policy \<Rightarrow> transport_error \<Rightarrow> connection \<Rightarrow> bool" where
  "gives_up pol e c \<longleftrightarrow> \<not> should_retry (cp_retry pol) e \<or>
     (rp_max_attempts (cp_retry pol) > 0 \<and> retry_attempts c \<ge> rp_max_attempts (cp_retry pol)) \<or>
     length (signals c) \<ge> sig_bound"

lemma on_reconnect_failed_eq:
  assumes "ws c = Some h" and "\<not> ws_open h" and "control_ring c = []"
  shows "control_ring (on_reconnect_failed pol env e c) = []" and
    "gives_up pol e c \<Longrightarrow> state (on_reconnect_failed pol env e c) = Disconnected" and
    "\<not> gives_up pol e c \<Longrightarrow> state (on_reconnect_failed pol env e c) = WaitingReconnect \<and>
       next_retry (on_reconnect_failed pol env e c) = env_now_schedule env +
         backoff (cp_retry pol) (retry_root_error c) (retry_attempts c) * 1000000 \<and>
       retry_attempts (on_reconnect_failed pol env e c) = retry_attempts c + 1 \<and>
       retry_root_error (on_reconnect_failed pol env e c) = retry_root_error c \<and>
       signals (on_reconnect_failed pol env e c) = signals c @ [SigRetryScheduled]"
proof -
  let ?r = "c\<lparr>disconnect_reason_of := TransportErrorReason, state := WaitingReconnect, control_ring := [], ws := None\<rparr>"
  have r: "destroy_transport_if_needed (c\<lparr>disconnect_reason_of := TransportErrorReason, state := WaitingReconnect\<rparr>) = ?r"
    "destroy_transport_if_needed (c\<lparr>disconnect_reason_of := TransportErrorReason, state := Disconnected\<rparr>) =
       ?r\<lparr>state := Disconnected\<rparr>" using assms by (simp_all add: destroy_eq)
  note w = emit_waiting [of ?r SigRetryScheduled, simplified]
  have n: "rp_mode (cp_retry pol) \<noteq> RetryNever" if "should_retry (cp_retry pol) e"
    using that by (auto simp: should_retry_def)
  show "control_ring (on_reconnect_failed pol env e c) = []"
    using w by (simp add: on_reconnect_failed_def r schedule_next_retry_def Let_def)
  show "state (on_reconnect_failed pol env e c) = Disconnected" if "gives_up pol e c"
    using that w n by (auto simp: gives_up_def on_reconnect_failed_def r schedule_next_retry_def Let_def)
  show "state (on_reconnect_failed pol env e c) = WaitingReconnect \<and>
       next_retry (on_reconnect_failed pol env e c) = env_now_schedule env +
         backoff (cp_retry pol) (retry_root_error c) (retry_attempts c) * 1000000 \<and>
       retry_attempts (on_reconnect_failed pol env e c) = retry_attempts c + 1 \<and>
       retry_root_error (on_reconnect_failed pol env e c) = retry_root_error c \<and>
       signals (on_reconnect_failed pol env e c) = signals c @ [SigRetryScheduled]" if "\<not> gives_up pol e c"
    using that w n by (auto simp: gives_up_def on_reconnect_failed_def r schedule_next_retry_def Let_def)
qed

lemma drain_nil: "control_ring c = [] \<Longrightarrow> drain_control pol env c = c"
  by (simp add: drain_control.simps)

text \<open>A poll of a waiting connection before its deadline, and one whose reconnection fails.\<close>

lemma poll_waiting_early:
  "state c = WaitingReconnect \<Longrightarrow> control_ring c = [] \<Longrightarrow> env_now_poll env < next_retry c \<Longrightarrow> conn_poll pol env c = c"
  by (simp add: conn_poll_def drain_nil enforce_liveness_policy_def)

lemma poll_waiting_failed:
  assumes ok: "conn_ok pol c" and st: "state c = WaitingReconnect" and r: "control_ring c = []"
    and due: "next_retry c \<le> env_now_poll env" and e: "env_connect env \<noteq> NoError"
  shows "control_ring (conn_poll pol env c) = []" and
    "gives_up pol (env_connect env) c \<Longrightarrow> state (conn_poll pol env c) = Disconnected" and
    "\<not> gives_up pol (env_connect env) c \<Longrightarrow> state (conn_poll pol env c) = WaitingReconnect \<and>
       next_retry (conn_poll pol env c) = env_now_schedule env +
         backoff (cp_retry pol) (retry_root_error c) (retry_attempts c) * 1000000 \<and>
       retry_attempts (conn_poll pol env c) = retry_attempts c + 1 \<and>
       retry_root_error (conn_poll pol env c) = retry_root_error c \<and>
       signals (conn_poll pol env c) = signals c @ [SigRetryScheduled]"
proof -
  let ?c3 = "c\<lparr>state := Connecting, control_ring := [], message_ring := [],
       ws := Some \<lparr>ws_open = False, ws_shutdown_events = env_shutdown env\<rparr>, last_error := env_connect env\<rparr>"
  note F = on_reconnect_failed_eq [where c = ?c3 and e = "env_connect env" and env = env and pol = pol, simplified]
  have g: "gives_up pol (env_connect env) ?c3 = gives_up pol (env_connect env) c" by (simp add: gives_up_def)
  have st': "state (on_reconnect_failed pol env (env_connect env) ?c3) \<noteq> Connected"
    using F(2,3) by (cases "gives_up pol (env_connect env) ?c3") simp_all
  then have p: "conn_poll pol env c = on_reconnect_failed pol env (env_connect env) ?c3"
    using st r due by (simp add: conn_poll_def drain_nil reconnect_failed [OF ok st e] enforce_liveness_policy_def Let_def)
  show "control_ring (conn_poll pol env c) = []" using F(1) by (simp add: p)
  show "state (conn_poll pol env c) = Disconnected" if "gives_up pol (env_connect env) c"
    using F(2) that by (simp add: p g)
  show "state (conn_poll pol env c) = WaitingReconnect \<and>
       next_retry (conn_poll pol env c) = env_now_schedule env +
         backoff (cp_retry pol) (retry_root_error c) (retry_attempts c) * 1000000 \<and>
       retry_attempts (conn_poll pol env c) = retry_attempts c + 1 \<and>
       retry_root_error (conn_poll pol env c) = retry_root_error c \<and>
       signals (conn_poll pol env c) = signals c @ [SigRetryScheduled]"
    if "\<not> gives_up pol (env_connect env) c"
    using F(3) that by (simp add: p g)
qed

text \<open>A sequence of polls, each at or after the deadline of the attempt before it and with a failing connect.\<close>

fun failing_polls :: "conn_policy \<Rightarrow> conn_env list \<Rightarrow> connection \<Rightarrow> bool" where
  "failing_polls pol [] c = True"
| "failing_polls pol (env # envs) c =
     (env_ok env \<and> env_connect env \<noteq> NoError \<and> next_retry c \<le> env_now_poll env \<and>
      failing_polls pol envs (conn_poll pol env c))"

lemma failing_polls_give_up:
  assumes "conn_ok pol c" and "policy_ok pol" and "state c \<in> {WaitingReconnect, Disconnected}" and "control_ring c = []"
    and "0 < rp_max_attempts (cp_retry pol)" and "failing_polls pol envs c"
    and "rp_max_attempts (cp_retry pol) < retry_attempts c + length envs \<or> state c = Disconnected"
  shows "state (fold (conn_poll pol) envs c) = Disconnected \<or> envs = []"
  using assms
proof (induction envs arbitrary: c)
  case (Cons env envs)
  show ?case
  proof (cases "state c = Disconnected")
    case True
    then show ?thesis using polls_disconnected [of c pol "env # envs"] by simp
  next
    case False
    then have st: "state c = WaitingReconnect" using Cons.prems(3) by simp
    note P = poll_waiting_failed [OF Cons.prems(1) st Cons.prems(4), of env]
    have ok: "conn_ok pol (conn_poll pol env c)" using Cons.prems(1,2,6) by (simp add: conn_poll_ok)
    show ?thesis
    proof (cases "gives_up pol (env_connect env) c")
      case True
      then have "state (conn_poll pol env c) = Disconnected" using P(2) Cons.prems(6) by simp
      then show ?thesis by (simp add: polls_disconnected)
    next
      case g: False
      have n: "state (conn_poll pol env c) = WaitingReconnect" "retry_attempts (conn_poll pol env c) = retry_attempts c + 1"
        "control_ring (conn_poll pol env c) = []" using P(1,3) g Cons.prems(6) by simp_all
      have "envs \<noteq> []" using g Cons.prems(5,7) False by (auto simp: gives_up_def)
      then show ?thesis
        using Cons.IH [OF ok Cons.prems(2)] n Cons.prems(5-7) False by simp
    qed
  qed
qed simp

section \<open>Liveness\<close>

lemma enforce_expires:
  assumes st: "state c = Connected" and w: "ws c = Some h" and h: "ws_open h"
    and ring: "control_ring c = []" and room: "length (signals c) < sig_bound"
    and stale: "\<not> liveness_timeout_emitted c" "is_liveness_stale pol (env_now_stale env) c"
  shows "\<exists>b sigs. length sigs \<le> length (signals c) + 1 \<and> enforce_liveness_policy pol env c =
    c\<lparr>liveness_warning_emitted := b, signals := sigs, liveness_timeout_emitted := True, last_error := Timeout,
      disconnect_reason_of := LivenessTimeout, state := Disconnecting,
      control_ring := push_all [] (ws_shutdown_events h), ws := Some (h\<lparr>ws_open := False\<rparr>)\<rparr>"
proof -
  have "is_liveness_stale pol t (c\<lparr>liveness_warning_emitted := b, signals := x\<rparr>) = is_liveness_stale pol t c"
    "is_liveness_stale pol t (c\<lparr>liveness_warning_emitted := b\<rparr>) = is_liveness_stale pol t c" for t b x
    by (simp_all add: is_liveness_stale_def)
  note e = this
  let ?low = "liveness_remaining pol (env_now_remaining env) c \<le> warning_remaining_threshold pol"
  consider (emit) "\<not> liveness_warning_emitted c" ?low | (quiet) "\<not> liveness_warning_emitted c" "\<not> ?low"
    | (reset) "liveness_warning_emitted c" "\<not> ?low" | (kept) "liveness_warning_emitted c" ?low by blast
  then show ?thesis
  proof cases
    case emit
    with assms e show ?thesis
      by (intro exI [of _ True] exI [of _ "signals c @ [SigLivenessThreatened]"])
         (simp add: enforce_liveness_policy_def transition.simps emit_eq ws_close_eq)
  next
    case quiet
    with assms e show ?thesis
      by (intro exI [of _ False] exI [of _ "signals c"])
         (simp add: enforce_liveness_policy_def transition.simps ws_close_eq)
  next
    case reset
    with assms e show ?thesis
      by (intro exI [of _ False] exI [of _ "signals c"])
         (simp add: enforce_liveness_policy_def transition.simps ws_close_eq)
  next
    case kept
    with assms e show ?thesis
      by (intro exI [of _ True] exI [of _ "signals c"])
         (simp add: enforce_liveness_policy_def transition.simps ws_close_eq)
  qed
qed

lemma enforce_fresh:
  assumes "state c = Connected" and "length (signals c) < sig_bound" and "\<not> is_liveness_stale pol (env_now_stale env) c"
  shows "state (enforce_liveness_policy pol env c) = Connected" and "epoch (enforce_liveness_policy pol env c) = epoch c"
  using assms by (simp_all add: enforce_liveness_policy_def transition.simps emit_eq is_liveness_stale_def Let_def)

text \<open>The close event of a transport that failed: the connection is re-established by the same poll.\<close>

lemma drain_closed_retry:
  assumes st: "state c = Disconnecting" and why: "disconnect_reason_of c \<noteq> LocalClose"
    and w: "ws c = Some h" "\<not> ws_open h" and ring: "control_ring c = [WsClose]"
    and retry: "should_retry (cp_retry pol) (last_error c)" and room: "length (signals c) + 2 \<le> sig_bound"
  shows "drain_control pol env c = c\<lparr>control_ring := [], signals := signals c @ [SigDisconnected, SigRetryImmediate],
    state := WaitingReconnect, ws := None, retry_root_error := last_error c, retry_attempts := 1, next_retry := 0\<rparr>"
proof -
  have "on_ws_event pol env WsClose (c\<lparr>control_ring := []\<rparr>) = c\<lparr>control_ring := [],
      signals := signals c @ [SigDisconnected, SigRetryImmediate], state := WaitingReconnect, ws := None,
      retry_root_error := last_error c, retry_attempts := 1, next_retry := 0\<rparr>"
    using assms by (simp add: on_ws_event_def on_transport_closed_def emit_eq transition.simps resolve_closed_def
        destroy_eq arm_immediate_reconnect_def)
  then show ?thesis using ring by (subst drain_control.simps) (simp add: drain_nil)
qed

lemma reconnect_succeeds:
  assumes "state c = WaitingReconnect" and "parsed_url_of c \<noteq> None" and "env_connect env = NoError"
    and "length (signals c) < sig_bound"
  shows "state (fst (reconnect pol env c)) = Connected" and "epoch (fst (reconnect pol env c)) = epoch c + 1"
    and "signals (fst (reconnect pol env c)) = signals c @ [SigConnected]"
    and "last_message_ts (fst (reconnect pol env c)) = env_now_connected env"
  using assms by (simp_all add: reconnect_def transition.simps ws_connect_def create_transport_def on_connected_def
      emit_eq Let_def)

lemma poll_closed_reconnects:
  assumes c: "state c = Disconnecting" "disconnect_reason_of c \<noteq> LocalClose" "ws c = Some h" "\<not> ws_open h"
      "control_ring c = [WsClose]" "should_retry (cp_retry pol) (last_error c)" "parsed_url_of c \<noteq> None"
    and room: "length (signals c) + 4 \<le> sig_bound"
    and env: "env_connect env = NoError" "0 \<le> env_now_poll env"
      "env_now_stale env - env_now_connected env \<le> lp_timeout (cp_liveness pol) * 1000000"
  shows "state (conn_poll pol env c) = Connected" and "epoch (conn_poll pol env c) = epoch c + 1"
proof -
  let ?d = "drain_control pol env c"
  have room2: "length (signals c) + 2 \<le> sig_bound" using room by simp
  note D = drain_closed_retry [OF c(1-6) room2, of env]
  have d: "state ?d = WaitingReconnect" "parsed_url_of ?d \<noteq> None" "length (signals ?d) < sig_bound"
    "next_retry ?d = 0" "epoch ?d = epoch c" "length (signals ?d) + 1 < sig_bound"
    using c(7) room by (simp_all add: D)
  note R = reconnect_succeeds [OF d(1,2) env(1) d(3), of pol]
  have ns: "\<not> is_liveness_stale pol (env_now_stale env) (fst (reconnect pol env ?d))"
    using env(3) R(4) by (simp add: is_liveness_stale_def)
  have p: "conn_poll pol env c = (if lp_enabled (cp_liveness pol)
      then enforce_liveness_policy pol env (fst (reconnect pol env ?d)) else fst (reconnect pol env ?d))"
    using c(1) d(1,4) env(2) by (simp add: conn_poll_def Let_def)
  note E = enforce_fresh [OF R(1) _ ns]
  show "state (conn_poll pol env c) = Connected" "epoch (conn_poll pol env c) = epoch c + 1"
    using E R d(5,6) by (simp_all add: p)
qed

section \<open>Properties\<close>

definition demo_policy :: "nat \<Rightarrow> conn_policy" where
  "demo_policy n = \<lparr>cp_retry = retry_exponential RetryableOnly 6 n, cp_liveness = liveness_enabled 1000 80\<rparr>"

definition demo_env :: "transport_error \<Rightarrow> int \<Rightarrow> conn_env" where
  "demo_env e now = \<lparr>env_connect = e, env_shutdown = [WsClose], env_send = True, env_now_poll = now,
     env_now_connected = now, env_now_schedule = now, env_now_remaining = now, env_now_stale = now\<rparr>"

definition demo_open :: "nat \<Rightarrow> transport_error \<Rightarrow> connection" where
  "demo_open n e = fst (conn_open (demo_policy n) (demo_env e 7) ''ws://a'' (Connection_init 0))"

lemma demo_env_ok: "now < 2 ^ 62 \<Longrightarrow> env_ok (demo_env e now)"
  by (simp add: env_ok_def demo_env_def shutdown_ok_def)

lemma demo_policy_ok: "policy_ok (demo_policy n)"
proof -
  have "\<exists>me ma. me < 32 \<and> cp_retry (demo_policy n) = retry_exponential RetryableOnly me ma"
    by (rule exI [of _ 6], rule exI [of _ n]) (simp add: demo_policy_def)
  then show ?thesis unfolding policy_ok_def by blast
qed

lemma demo_open_run: "conn_run (demo_policy n) [] (demo_open n e)"
  unfolding demo_open_def by (intro run_open run_init demo_env_ok) simp



text \<open>C5: as long as no signal was lost, the signals the client has popped followed
  by those still in the ring alternate between connected and disconnected, starting with connected; the
  last of them agrees with the state of the connection, and the transport epoch is the number of
  connections announced.\<close>

theorem conn_signals_alternate:
  assumes "policy_ok pol" and "conn_run pol out c" and "control_ring_failures c = 0"
  shows "link_run False (out @ signals c) = Some (state c = Connected \<or> state c = Disconnecting) \<and>
    epoch c = of_nat (count_list (out @ signals c) SigConnected)"
  using conn_run_recorded [OF assms(2,1,3)] by (simp add: recorded_def link_up_def)

theorem conn_signals_alternate_witness:
  "signals (demo_open 3 NoError) = [SigConnected] \<and> epoch (demo_open 3 NoError) = 1"
proof -
  have "control_ring_failures (demo_open 3 NoError) = 0" "signals (demo_open 3 NoError) = [SigConnected]" by code_simp+
  with conn_signals_alternate [OF demo_policy_ok demo_open_run, of 3 NoError] show ?thesis by simp
qed

text \<open>\<^verbatim>\<open>close()\<close> in any state but \<^verbatim>\<open>Disconnecting\<close> is final: the next poll, and
  any number of polls after it, leave the connection disconnected without a transport, whatever errors,
  backpressure events and signal overflows that poll meets. When connected this needs room in the
  control ring for the transport's shutdown events.\<close>

theorem close_is_final:
  assumes "policy_ok pol" and "conn_run pol out c" and "state c \<noteq> Disconnecting"
    and "state c = Connected \<Longrightarrow> close_deliverable c"
  shows "state (fold (conn_poll pol) (env # envs) (conn_close c)) = Disconnected \<and>
    ws (fold (conn_poll pol) (env # envs) (conn_close c)) = None"
proof -
  have "conn_ok pol (conn_poll pol env (conn_close c)) \<and> state (conn_poll pol env (conn_close c)) = Disconnected"
    using close_then_poll [OF conn_run_ok [OF assms(2,1)] assms(3,4)] .
  then show ?thesis by (simp add: polls_disconnected conn_ok_def)
qed

theorem close_is_final_witness:
  "state (fold (conn_poll (demo_policy 3)) [demo_env NoError 9, demo_env NoError 10] (conn_close (demo_open 3 NoError))) = Disconnected"
proof -
  have "state (demo_open 3 NoError) = Connected" "ws (demo_open 3 NoError) = Some \<lparr>ws_open = True, ws_shutdown_events = [WsClose]\<rparr>"
    "control_ring (demo_open 3 NoError) = []" by code_simp+
  with close_is_final [OF demo_policy_ok demo_open_run, of 3 NoError "demo_env NoError 9" "[demo_env NoError 10]"]
  show ?thesis by (simp add: close_deliverable_def CONTROL_RING_CAPACITY_def)
qed

text \<open>A poll of a waiting connection does nothing before the deadline. At the
  deadline it tries once; when that fails it gives up (error not retried, attempts
  exhausted, or no room for the signal) or announces a retry whose deadline is the current time plus
  the backoff of the error that started the cycle at the current attempt number, and counts the attempt.\<close>

theorem poll_while_waiting:
  assumes "policy_ok pol" and "conn_run pol out c" and "state c = WaitingReconnect" and "control_ring c = []"
    and "env_connect env \<noteq> NoError"
  shows "(if env_now_poll env < next_retry c then conn_poll pol env c = c
     else if gives_up pol (env_connect env) c then state (conn_poll pol env c) = Disconnected
     else state (conn_poll pol env c) = WaitingReconnect \<and>
       next_retry (conn_poll pol env c) = env_now_schedule env +
         backoff (cp_retry pol) (retry_root_error c) (retry_attempts c) * 1000000 \<and>
       retry_attempts (conn_poll pol env c) = retry_attempts c + 1 \<and>
       retry_root_error (conn_poll pol env c) = retry_root_error c \<and>
       signals (conn_poll pol env c) = signals c @ [SigRetryScheduled])"
  using poll_waiting_early [OF assms(3,4)] poll_waiting_failed(2,3) [OF conn_run_ok [OF assms(2,1)] assms(3,4) _ assms(5)]
  by simp

theorem poll_while_waiting_witness:
  "next_retry (conn_poll (demo_policy 3) (demo_env ConnectionFailed 9) (demo_open 3 ConnectionFailed)) = 200000009"
proof -
  have "state (demo_open 3 ConnectionFailed) = WaitingReconnect" "control_ring (demo_open 3 ConnectionFailed) = []"
    "next_retry (demo_open 3 ConnectionFailed) = 0" "retry_root_error (demo_open 3 ConnectionFailed) = ConnectionFailed"
    "retry_attempts (demo_open 3 ConnectionFailed) = 1" "signals (demo_open 3 ConnectionFailed) = [SigRetryImmediate]"
    by code_simp+
  with poll_while_waiting [OF demo_policy_ok demo_open_run, of 3 ConnectionFailed "demo_env ConnectionFailed 9"]
  show ?thesis
    by (simp add: demo_env_def demo_policy_def gives_up_def should_retry_def retry_exponential_def backoff_def
        compute_backoff_def SIGNAL_RING_CAPACITY_def)
qed

text \<open>C37: with a bounded number of attempts a connection whose reconnections all fail
  ends disconnected after at most \<^verbatim>\<open>max_attempts\<close> further polls at or after their deadlines, counted
  from the attempts already made.\<close>

theorem retries_give_up:
  assumes "policy_ok pol" and "conn_run pol out c" and "state c = WaitingReconnect" and "control_ring c = []"
    and "0 < rp_max_attempts (cp_retry pol)" and "failing_polls pol envs c"
    and "rp_max_attempts (cp_retry pol) < retry_attempts c + length envs" and "envs \<noteq> []"
  shows "state (fold (conn_poll pol) envs c) = Disconnected"
  using failing_polls_give_up [OF conn_run_ok [OF assms(2,1)] assms(1)] assms(3-8) by auto

theorem retries_give_up_witness:
  "state (fold (conn_poll (demo_policy 2)) [demo_env ConnectionFailed 9, demo_env Timeout 300000000]
     (demo_open 2 ConnectionFailed)) = Disconnected"
proof -
  have "state (demo_open 2 ConnectionFailed) = WaitingReconnect" "control_ring (demo_open 2 ConnectionFailed) = []"
    "retry_attempts (demo_open 2 ConnectionFailed) = 1" "next_retry (demo_open 2 ConnectionFailed) = 0"
    by code_simp+
  moreover have "next_retry (conn_poll (demo_policy 2) (demo_env ConnectionFailed 9) (demo_open 2 ConnectionFailed)) = 200000009"
    by code_simp
  ultimately have "failing_polls (demo_policy 2) [demo_env ConnectionFailed 9, demo_env Timeout 300000000]
      (demo_open 2 ConnectionFailed)"
    by (simp add: demo_env_ok) (simp add: demo_env_def)
  from retries_give_up [OF demo_policy_ok demo_open_run _ _ _ this]
    \<open>state (demo_open 2 ConnectionFailed) = WaitingReconnect\<close> \<open>control_ring (demo_open 2 ConnectionFailed) = []\<close>
    \<open>retry_attempts (demo_open 2 ConnectionFailed) = 1\<close>
  show ?thesis by (simp add: demo_policy_def retry_exponential_def)
qed

text \<open>C38: a stale connection is closed for a liveness timeout by the next poll, and the
  poll after that re-establishes it with the next epoch; a \<^verbatim>\<open>close()\<close> between the two polls changes nothing,
  so it does not cancel that reconnection.\<close>

theorem liveness_timeout_reconnects:
  assumes "policy_ok pol" and "conn_run pol out c" and "state c = Connected" and "control_ring c = []"
    and "ws c = Some \<lparr>ws_open = True, ws_shutdown_events = [WsClose]\<rparr>" and "length (signals c) + 5 \<le> sig_bound"
    and "lp_enabled (cp_liveness pol)" and "\<not> liveness_timeout_emitted c"
    and "is_liveness_stale pol (env_now_stale env) c" and "should_retry (cp_retry pol) Timeout"
    and "env_connect env' = NoError" and "0 \<le> env_now_poll env'"
    and "env_now_stale env' - env_now_connected env' \<le> lp_timeout (cp_liveness pol) * 1000000"
  shows "state (conn_poll pol env c) = Disconnecting \<and> disconnect_reason_of (conn_poll pol env c) = LivenessTimeout \<and>
    conn_close (conn_poll pol env c) = conn_poll pol env c \<and>
    state (conn_poll pol env' (conn_close (conn_poll pol env c))) = Connected \<and>
    epoch (conn_poll pol env' (conn_close (conn_poll pol env c))) = epoch c + 1"
proof -
  have url: "parsed_url_of c \<noteq> None" using conn_run_ok [OF assms(2,1)] assms(3) by (simp add: conn_ok_def)
  have p: "conn_poll pol env c = enforce_liveness_policy pol env c"
    using assms(3,4,7) by (simp add: conn_poll_def drain_nil)
  have ring: "push_all [] [WsClose] = [WsClose]" by (simp add: push_all_def CONTROL_RING_CAPACITY_def)
  have "length (signals c) < sig_bound" using assms(6) by simp
  from enforce_expires [OF assms(3,5) _ assms(4) this assms(8,9)] obtain b sigs where
    c1: "length sigs \<le> length (signals c) + 1" "conn_poll pol env c = c\<lparr>liveness_warning_emitted := b, signals := sigs,
      liveness_timeout_emitted := True, last_error := Timeout, disconnect_reason_of := LivenessTimeout, state := Disconnecting,
      control_ring := [WsClose], ws := Some \<lparr>ws_open = False, ws_shutdown_events = [WsClose]\<rparr>\<rparr>"
    by (auto simp: p ring)
  have close: "conn_close (conn_poll pol env c) = conn_poll pol env c" by (simp add: c1(2) conn_close_def)
  have room: "length sigs + 4 \<le> sig_bound" using c1(1) assms(6) by simp
  from poll_closed_reconnects [where c = "conn_poll pol env c" and pol = pol and env = env', OF _ _ _ _ _ _ _ _ assms(11-13)]
  show ?thesis unfolding close using url assms(10) room by (simp add: c1(2))
qed

theorem liveness_timeout_reconnects_witness:
  "epoch (conn_poll (demo_policy 3) (demo_env NoError 2000000000) (conn_close
     (conn_poll (demo_policy 3) (demo_env NoError 1900000000) (demo_open 3 NoError)))) = 2"
proof -
  have "state (demo_open 3 NoError) = Connected" "control_ring (demo_open 3 NoError) = []"
    "ws (demo_open 3 NoError) = Some \<lparr>ws_open = True, ws_shutdown_events = [WsClose]\<rparr>"
    "signals (demo_open 3 NoError) = [SigConnected]" "\<not> liveness_timeout_emitted (demo_open 3 NoError)"
    "last_message_ts (demo_open 3 NoError) = 7" "epoch (demo_open 3 NoError) = 1" by code_simp+
  moreover have "is_liveness_stale (demo_policy 3) (env_now_stale (demo_env NoError 1900000000)) (demo_open 3 NoError)"
    "should_retry (cp_retry (demo_policy 3)) Timeout" "lp_enabled (cp_liveness (demo_policy 3))"
    "env_connect (demo_env NoError 2000000000) = NoError" "0 \<le> env_now_poll (demo_env NoError 2000000000)"
    "env_now_stale (demo_env NoError 2000000000) - env_now_connected (demo_env NoError 2000000000)
       \<le> lp_timeout (cp_liveness (demo_policy 3)) * 1000000"
    using \<open>last_message_ts (demo_open 3 NoError) = 7\<close>
    by (simp_all add: demo_env_def demo_policy_def liveness_enabled_def is_liveness_stale_def should_retry_def
        retry_exponential_def)
  ultimately show ?thesis
    using liveness_timeout_reconnects [OF demo_policy_ok demo_open_run, of 3 NoError "demo_env NoError 1900000000"
      "demo_env NoError 2000000000"] by (auto simp: SIGNAL_RING_CAPACITY_def)
qed

text \<open>In the mode \<^verbatim>\<open>RetryMode::Always\<close> an error without a backoff delay, such as a remote
  protocol error or a local shutdown, makes the first failed reconnection compute a deadline from
  \<^verbatim>\<open>milliseconds::max()\<close>, which overflows the 64-bit clock.\<close>

theorem retry_always_deadline_overflows:
  assumes "cp_retry pol = retry_exponential RetryAlways me ma" and "conn_ok pol c" and "state c = WaitingReconnect"
    and "control_ring c = []" and "\<not> should_retry (retry_exponential RetryableOnly me ma) (retry_root_error c)"
    and "retry_root_error c \<noteq> Backpressure" and "next_retry c \<le> env_now_poll env" and "env_connect env \<noteq> NoError"
    and "\<not> gives_up pol (env_connect env) c" and "0 \<le> env_now_schedule env"
  shows "2 ^ 63 \<le> next_retry (conn_poll pol env c)"
proof -
  have "backoff (cp_retry pol) (retry_root_error c) n = MS_MAX" for n
    using assms(1,5,6) by (cases "retry_root_error c")
      (simp_all add: backoff_def should_retry_def retry_exponential_def Let_def)
  with poll_waiting_failed(3) [OF assms(2-4,7-9)] assms(10) show ?thesis by (simp add: MS_MAX_def)
qed

theorem retry_always_deadline_overflows_witness:
  "2 ^ 63 \<le> next_retry (conn_poll
     \<lparr>cp_retry = retry_exponential RetryAlways 6 0, cp_liveness = liveness_disabled\<rparr> (demo_env Timeout 9)
     (fst (conn_open \<lparr>cp_retry = retry_exponential RetryAlways 6 0, cp_liveness = liveness_disabled\<rparr>
        (demo_env ProtocolError 7) ''ws://a'' (Connection_init 0))))"
proof -
  let ?pol = "\<lparr>cp_retry = retry_exponential RetryAlways 6 0, cp_liveness = liveness_disabled\<rparr>"
  let ?c = "fst (conn_open ?pol (demo_env ProtocolError 7) ''ws://a'' (Connection_init 0))"
  have "conn_ok ?pol ?c" by (intro conn_open_ok conn_ok_init demo_env_ok) simp
  moreover have "state ?c = WaitingReconnect" "control_ring ?c = []" "retry_root_error ?c = ProtocolError"
    "next_retry ?c = 0" "signals ?c = [SigRetryImmediate]" by code_simp+
  ultimately show ?thesis
    using retry_always_deadline_overflows [of ?pol 6 0 ?c "demo_env Timeout 9"]
    by (simp add: should_retry_def retry_exponential_def demo_env_def gives_up_def SIGNAL_RING_CAPACITY_def)
qed

text \<open>When the signal ring is full, \<^verbatim>\<open>open()\<close> reports success and counts a new epoch, but
  the connected signal is lost, the transport is already closing, and the reason of that local close has been
  overwritten.\<close>

theorem open_with_full_signal_ring:
  assumes "conn_ok pol c" and "state c = Disconnected" and "length (signals c) = sig_bound"
    and "parse_url url = Inr u" and "env_connect env = NoError"
  shows "snd (conn_open pol env url c) = NoError \<and> epoch (fst (conn_open pol env url c)) = epoch c + 1 \<and>
    signals (fst (conn_open pol env url c)) = signals c \<and> state (fst (conn_open pol env url c)) = Disconnecting \<and>
    disconnect_reason_of (fst (conn_open pol env url c)) = NoReason"
  using assms
  by (simp add: conn_open_def transition.simps Let_def ws_connect_def create_transport_def on_connected_def emit_eq
      conn_close_def transition_close_def ws_close_eq)

theorem open_with_full_signal_ring_witness:
  "state (fst (conn_open (demo_policy 3) (demo_env NoError 7) ''ws://a''
     ((Connection_init 0)\<lparr>signals := replicate 63 SigNone\<rparr>))) = Disconnecting"
proof -
  let ?c = "(Connection_init 0)\<lparr>signals := replicate 63 SigNone\<rparr>"
  have "conn_ok (demo_policy 3) ?c" "state ?c = Disconnected" "length (signals ?c) = sig_bound"
    by (simp_all add: conn_ok_def Connection_init_def SIGNAL_RING_CAPACITY_def)
  moreover have "parse_url ''ws://a'' = Inr \<lparr>secure = False, host = ''a'', port = 80, path = ''/''\<rparr>" by code_simp
  ultimately show ?thesis
    using open_with_full_signal_ring [of "demo_policy 3" ?c "''ws://a''" _ "demo_env NoError 7"] by (simp add: demo_env_def)
qed

end
