(* ===== verification/Block_Pool.thy ===== *)
theory Block_Pool
  imports Prelude
begin

text \<open>
  \<^verbatim>\<open>lcr::memory::block_t\<close> and \<^verbatim>\<open>lcr::memory::block_pool\<close> (memory/block.hpp, memory/block_pool.hpp):
  a fixed set of blocks and a free list of them, a Treiber stack. A block pointer is the
  index of its node. First the operations as one thread runs them, then the stack at
  the level of its shared-memory accesses, with any number of threads.
\<close>

section \<open>Blocks\<close>

record block_t =
  blk_capacity :: nat
  blk_size :: nat
  blk_data :: string

definition block_init :: "nat \<Rightarrow> block_t" where
  "block_init c = \<lparr>blk_capacity = c, blk_size = 0, blk_data = []\<rparr>"

text \<open>\<open>None\<close> is the failed assertion of the debug build.\<close>

definition block_set_size :: "nat \<Rightarrow> block_t \<Rightarrow> block_t option" where
  "block_set_size s b = (if s \<le> blk_capacity b then Some (b\<lparr>blk_size := s\<rparr>) else None)"

definition block_remaining :: "block_t \<Rightarrow> nat" where
  "block_remaining b = blk_capacity b - blk_size b"

definition block_reset :: "block_t \<Rightarrow> block_t" where
  "block_reset b = b\<lparr>blk_size := 0\<rparr>"

section \<open>The pool, as one thread uses it\<close>

record block_pool =
  pool_head :: "nat option"
  pool_next :: "nat \<Rightarrow> nat option"
  pool_blocks :: "nat \<Rightarrow> block_t"
  pool_block_size :: nat
  pool_block_count :: nat
  pool_free_count :: u64

definition push_node :: "nat \<Rightarrow> block_pool \<Rightarrow> block_pool" where
  "push_node n p = p\<lparr>pool_next := (pool_next p)(n := pool_head p), pool_head := Some n\<rparr>"

definition pop_node :: "block_pool \<Rightarrow> block_pool \<times> nat option" where
  "pop_node p = (case pool_head p of
      None \<Rightarrow> (p, None)
    | Some n \<Rightarrow> (p\<lparr>pool_head := pool_next p n\<rparr>, Some n))"

definition block_pool_init :: "nat \<Rightarrow> nat \<Rightarrow> block_pool" where
  "block_pool_init bytes count =
     (fold push_node [0..<count]
       \<lparr>pool_head = None, pool_next = (\<lambda>_. None), pool_blocks = (\<lambda>_. block_init bytes),
        pool_block_size = bytes, pool_block_count = count, pool_free_count = 0\<rparr>)
     \<lparr>pool_free_count := of_nat count\<rparr>"

definition pool_acquire :: "block_pool \<Rightarrow> block_pool \<times> nat option" where
  "pool_acquire p = (case pop_node p of
      (p1, None) \<Rightarrow> (p1, None)
    | (p1, Some n) \<Rightarrow>
        (p1\<lparr>pool_free_count := pool_free_count p1 - 1,
            pool_blocks := (pool_blocks p1)(n := block_reset (pool_blocks p1 n))\<rparr>, Some n))"

definition pool_release :: "nat \<Rightarrow> block_pool \<Rightarrow> block_pool" where
  "pool_release n p = (let p1 = push_node n p in p1\<lparr>pool_free_count := pool_free_count p1 + 1\<rparr>)"

definition pool_used :: "block_pool \<Rightarrow> u64" where
  "pool_used p = of_nat (pool_block_count p) - pool_free_count p"

definition pool_capacity :: "block_pool \<Rightarrow> nat" where
  "pool_capacity p = pool_block_count p"

section \<open>The pool, as several threads use it\<close>

text \<open>
  The program counter of a thread inside \<^verbatim>\<open>push_node_\<close> or \<^verbatim>\<open>pop_node_\<close>: about to link the node to
  the head it loaded, about to compare and swap, about to read the successor of the head it
  loaded, about to compare and swap to that successor. \<^verbatim>\<open>compare_exchange_weak\<close> may fail spuriously.
\<close>

datatype pool_pc =
    PoolIdle
  | PushLink nat "nat option"
  | PushCas nat "nat option"
  | PopRead nat
  | PopCas nat "nat option"

text \<open>\<open>sys_held\<close> lists the blocks that \<^verbatim>\<open>acquire()\<close> has returned and nobody has started to release.\<close>

record pool_sys =
  sys_head :: "nat option"
  sys_next :: "nat \<Rightarrow> nat option"
  sys_pc :: "nat \<Rightarrow> pool_pc"
  sys_held :: "nat list"

datatype pool_action = BeginAcquire nat | BeginRelease nat nat | PoolStep nat | SpuriousFail nat

definition pop_load :: "pool_sys \<Rightarrow> pool_pc" where
  "pop_load s = (case sys_head s of None \<Rightarrow> PoolIdle | Some old \<Rightarrow> PopRead old)"

fun pool_thread_step :: "nat \<Rightarrow> pool_pc \<Rightarrow> pool_sys \<Rightarrow> pool_sys option" where
  "pool_thread_step t PoolIdle s = None"
| "pool_thread_step t (PushLink n old) s =
     Some (s\<lparr>sys_next := (sys_next s)(n := old), sys_pc := (sys_pc s)(t := PushCas n old)\<rparr>)"
| "pool_thread_step t (PushCas n old) s =
     (if sys_head s = old then Some (s\<lparr>sys_head := Some n, sys_pc := (sys_pc s)(t := PoolIdle)\<rparr>)
      else Some (s\<lparr>sys_pc := (sys_pc s)(t := PushLink n (sys_head s))\<rparr>))"
| "pool_thread_step t (PopRead old) s = Some (s\<lparr>sys_pc := (sys_pc s)(t := PopCas old (sys_next s old))\<rparr>)"
| "pool_thread_step t (PopCas old nx) s =
     (if sys_head s = Some old
      then Some (s\<lparr>sys_head := nx, sys_held := old # sys_held s, sys_pc := (sys_pc s)(t := PoolIdle)\<rparr>)
      else Some (s\<lparr>sys_pc := (sys_pc s)(t := pop_load s)\<rparr>))"

fun pool_spurious_fail :: "nat \<Rightarrow> pool_pc \<Rightarrow> pool_sys \<Rightarrow> pool_sys option" where
  "pool_spurious_fail t (PushCas n old) s = Some (s\<lparr>sys_pc := (sys_pc s)(t := PushLink n (sys_head s))\<rparr>)"
| "pool_spurious_fail t (PopCas old nx) s = Some (s\<lparr>sys_pc := (sys_pc s)(t := pop_load s)\<rparr>)"
| "pool_spurious_fail t _ s = None"

fun pool_act :: "pool_action \<Rightarrow> pool_sys \<Rightarrow> pool_sys option" where
  "pool_act (BeginAcquire t) s =
     (if sys_pc s t = PoolIdle then Some (s\<lparr>sys_pc := (sys_pc s)(t := pop_load s)\<rparr>) else None)"
| "pool_act (BeginRelease t n) s =
     (if sys_pc s t = PoolIdle \<and> n \<in> set (sys_held s)
      then Some (s\<lparr>sys_held := remove1 n (sys_held s), sys_pc := (sys_pc s)(t := PushLink n (sys_head s))\<rparr>)
      else None)"
| "pool_act (PoolStep t) s = pool_thread_step t (sys_pc s t) s"
| "pool_act (SpuriousFail t) s = pool_spurious_fail t (sys_pc s t) s"

fun pool_run :: "pool_action list \<Rightarrow> pool_sys \<Rightarrow> pool_sys option" where
  "pool_run [] s = Some s"
| "pool_run (a # as) s = (case pool_act a s of None \<Rightarrow> None | Some s' \<Rightarrow> pool_run as s')"

definition pool_start :: "nat \<Rightarrow> pool_sys" where
  "pool_start count = (let p = block_pool_init 0 count in
     \<lparr>sys_head = pool_head p, sys_next = pool_next p, sys_pc = (\<lambda>_. PoolIdle), sys_held = []\<rparr>)"

section \<open>The free list\<close>

fun chain :: "(nat \<Rightarrow> nat option) \<Rightarrow> nat option \<Rightarrow> nat list \<Rightarrow> bool" where
  "chain nx h [] = (h = None)"
| "chain nx h (x # xs) = (h = Some x \<and> chain nx (nx x) xs)"

lemma chain_upd: "n \<notin> set fl \<Longrightarrow> chain (nx(n := v)) h fl = chain nx h fl"
  by (induction fl arbitrary: h) auto

lemma chain_unique: "chain nx h xs \<Longrightarrow> chain nx h ys \<Longrightarrow> xs = ys"
proof (induction xs arbitrary: h ys)
  case Nil
  then show ?case by (cases ys) simp_all
next
  case (Cons x xs)
  then show ?case by (cases ys) auto
qed

lemma chain_head: "chain nx (Some x) fl \<longleftrightarrow> (\<exists>fl'. fl = x # fl' \<and> chain nx (nx x) fl')"
  by (cases fl) auto

lemma chain_head_in: "chain nx h fl \<Longrightarrow> h = Some x \<Longrightarrow> x \<in> set fl"
  by (cases fl) auto

text \<open>A pool is well formed when its free list is a duplicate-free list of its blocks, counted.\<close>

definition pool_ok :: "block_pool \<Rightarrow> nat list \<Rightarrow> bool" where
  "pool_ok p fl \<longleftrightarrow> chain (pool_next p) (pool_head p) fl \<and> distinct fl \<and> set fl \<subseteq> {..<pool_block_count p} \<and>
     pool_free_count p = of_nat (length fl) \<and> (\<forall>n. blk_capacity (pool_blocks p n) = pool_block_size p)"

lemma push_all_nodes:
  "chain (pool_next p) (pool_head p) fl \<Longrightarrow> distinct (rev ns @ fl) \<Longrightarrow>
   chain (pool_next (fold push_node ns p)) (pool_head (fold push_node ns p)) (rev ns @ fl)"
proof (induction ns arbitrary: p fl)
  case (Cons n ns)
  have "chain (pool_next (push_node n p)) (pool_head (push_node n p)) (n # fl)"
    using Cons.prems by (simp add: push_node_def chain_upd)
  from Cons.IH [OF this] Cons.prems(2) show ?case by simp
qed simp

lemma push_all_keep:
  "pool_block_count (fold push_node ns p) = pool_block_count p"
  "pool_block_size (fold push_node ns p) = pool_block_size p"
  "pool_blocks (fold push_node ns p) = pool_blocks p"
  by (induction ns arbitrary: p) (simp_all add: push_node_def)

lemma pool_init_ok: "pool_ok (block_pool_init bytes count) (rev [0..<count])"
  using push_all_nodes [of "\<lparr>pool_head = None, pool_next = (\<lambda>_. None), pool_blocks = (\<lambda>_. block_init bytes),
      pool_block_size = bytes, pool_block_count = count, pool_free_count = 0\<rparr>" "[]" "[0..<count]"]
  by (auto simp: pool_ok_def block_pool_init_def push_all_keep block_init_def)

lemma pool_acquire_facts:
  assumes "pool_ok p fl"
  shows "fl = [] \<Longrightarrow> pool_acquire p = (p, None)"
    and "fl = n # fl' \<Longrightarrow> \<exists>p'. pool_acquire p = (p', Some n) \<and> pool_ok p' fl' \<and>
      pool_block_count p' = pool_block_count p \<and> pool_block_size p' = pool_block_size p \<and>
      pool_blocks p' = (pool_blocks p)(n := block_reset (pool_blocks p n))"
  using assms by (auto simp: pool_ok_def pool_acquire_def pop_node_def block_reset_def)

lemma pool_release_facts:
  assumes "pool_ok p fl" and "n \<notin> set fl" and "n < pool_block_count p"
  shows "pool_ok (pool_release n p) (n # fl)" and "pool_blocks (pool_release n p) = pool_blocks p"
    and "pool_block_count (pool_release n p) = pool_block_count p"
    and "pool_block_size (pool_release n p) = pool_block_size p"
  using assms by (auto simp: pool_ok_def pool_release_def push_node_def chain_upd Let_def)

lemma pool_used_eq: "pool_ok p fl \<Longrightarrow> pool_used p = of_nat (pool_block_count p - length fl)"
proof -
  assume ok: "pool_ok p fl"
  then have "card (set fl) \<le> card {..<pool_block_count p}" by (intro card_mono) (auto simp: pool_ok_def)
  then have "length fl \<le> pool_block_count p" using ok by (simp add: pool_ok_def distinct_card)
  then show ?thesis using ok by (simp add: pool_used_def pool_ok_def of_nat_diff)
qed

section \<open>One acquiring thread\<close>

text \<open>The node a thread is pushing.\<close>

fun in_flight :: "pool_pc \<Rightarrow> nat option" where
  "in_flight (PushLink n _) = Some n"
| "in_flight (PushCas n _) = Some n"
| "in_flight _ = None"

text \<open>
  The invariant under one acquirer \<open>a\<close>. A node that \<open>a\<close> has read stays in the free list, and
  nobody rewrites its successor there, so a successful compare and swap installs the
  true successor.
\<close>

fun pc_ok :: "(nat \<Rightarrow> nat option) \<Rightarrow> nat list \<Rightarrow> pool_pc \<Rightarrow> bool" where
  "pc_ok nx fl (PushCas n old) = (nx n = old)"
| "pc_ok nx fl (PopRead old) = (old \<in> set fl)"
| "pc_ok nx fl (PopCas old x) = (old \<in> set fl \<and> nx old = x)"
| "pc_ok nx fl _ = True"

fun popping :: "pool_pc \<Rightarrow> bool" where
  "popping (PopRead _) = True"
| "popping (PopCas _ _) = True"
| "popping _ = False"

definition pool_core ::
  "nat \<Rightarrow> nat \<Rightarrow> (nat \<Rightarrow> nat option) \<Rightarrow> nat option \<Rightarrow> (nat \<Rightarrow> pool_pc) \<Rightarrow> nat list \<Rightarrow> nat list \<Rightarrow> bool" where
  "pool_core count a nx h pcs held fl \<longleftrightarrow> chain nx h fl \<and> distinct (held @ fl) \<and>
     (\<forall>t. pc_ok nx fl (pcs t)) \<and> (\<forall>t. popping (pcs t) \<longrightarrow> t = a) \<and>
     (\<forall>t n. in_flight (pcs t) = Some n \<longrightarrow> n \<notin> set held \<and> n \<notin> set fl) \<and>
     (\<forall>t t' n. in_flight (pcs t) = Some n \<longrightarrow> in_flight (pcs t') = Some n \<longrightarrow> t = t') \<and>
     (\<forall>n. n < count \<longleftrightarrow> n \<in> set held \<or> n \<in> set fl \<or> (\<exists>t. in_flight (pcs t) = Some n))"

definition pool_inv :: "nat \<Rightarrow> nat \<Rightarrow> pool_sys \<Rightarrow> nat list \<Rightarrow> bool" where
  "pool_inv count a s fl \<longleftrightarrow> pool_core count a (sys_next s) (sys_head s) (sys_pc s) (sys_held s) fl"

lemma pool_invD:
  assumes "pool_inv count a s fl"
  shows "chain (sys_next s) (sys_head s) fl" and "distinct (sys_held s @ fl)"
    and "pc_ok (sys_next s) fl (sys_pc s t)" and "popping (sys_pc s t) \<Longrightarrow> t = a"
    and "in_flight (sys_pc s t) = Some n \<Longrightarrow> n \<notin> set (sys_held s) \<and> n \<notin> set fl"
    and "in_flight (sys_pc s t) = Some n \<Longrightarrow> in_flight (sys_pc s t') = Some n \<Longrightarrow> t = t'"
    and "n < count \<longleftrightarrow> n \<in> set (sys_held s) \<or> n \<in> set fl \<or> (\<exists>t. in_flight (sys_pc s t) = Some n)"
  using assms unfolding pool_inv_def pool_core_def by (simp, simp, simp, simp, simp, blast, blast)

lemma pool_coreI:
  assumes "chain nx h fl" and "distinct (held @ fl)"
    and "\<And>t. pc_ok nx fl (pcs t)" and "\<And>t. popping (pcs t) \<Longrightarrow> t = a"
    and "\<And>t n. in_flight (pcs t) = Some n \<Longrightarrow> n \<notin> set held \<and> n \<notin> set fl"
    and "\<And>t t' n. in_flight (pcs t) = Some n \<Longrightarrow> in_flight (pcs t') = Some n \<Longrightarrow> t = t'"
    and "\<And>n. n < count \<longleftrightarrow> n \<in> set held \<or> n \<in> set fl \<or> (\<exists>t. in_flight (pcs t) = Some n)"
  shows "pool_core count a nx h pcs held fl"
  using assms unfolding pool_core_def by blast

lemma pool_start_inv: "pool_inv count a (pool_start count) (rev [0..<count])"
  using pool_init_ok [of 0 count]
  by (auto simp: pool_inv_def pool_core_def pool_start_def Let_def pool_ok_def)

lemma pc_ok_link:
  assumes "pc_ok nx fl pc" and "n \<notin> set fl" and "in_flight pc \<noteq> Some n"
  shows "pc_ok (nx(n := v)) fl pc"
  using assms by (cases pc) auto

lemma pc_ok_cons: "pc_ok nx fl pc \<Longrightarrow> pc_ok nx (n # fl) pc"
  by (cases pc) auto

lemma pop_load_ok: "chain (sys_next s) (sys_head s) fl \<Longrightarrow> pc_ok (sys_next s) fl (pop_load s)"
  by (cases fl) (auto simp: pop_load_def)

lemma in_flight_pop_load [simp]: "in_flight (pop_load s) = None"
  by (simp add: pop_load_def split: option.split)

text \<open>Steps that only move a program counter whose node in flight stays the same.\<close>

lemma pool_inv_pc:
  assumes inv: "pool_inv count a s fl" and "pc_ok (sys_next s) fl pc" and "in_flight pc = in_flight (sys_pc s t)"
    and "popping pc \<longrightarrow> t = a"
  shows "pool_inv count a (s\<lparr>sys_pc := (sys_pc s)(t := pc)\<rparr>) fl"
proof -
  have f: "in_flight (((sys_pc s)(t := pc)) t') = in_flight (sys_pc s t')" for t' using assms(3) by simp
  note I = pool_invD [OF inv]
  have "pool_core count a (sys_next s) (sys_head s) ((sys_pc s)(t := pc)) (sys_held s) fl"
  proof (rule pool_coreI, unfold f)
    show "pc_ok (sys_next s) fl (((sys_pc s)(t := pc)) t')" for t' using I(3) assms(2) by simp
    show "popping (((sys_pc s)(t := pc)) t') \<Longrightarrow> t' = a" for t' using I(4) assms(4) by (auto split: if_splits)
  qed (fact I)+
  then show ?thesis by (simp add: pool_inv_def)
qed

lemma pool_inv_link:
  assumes inv: "pool_inv count a s fl" and pc: "sys_pc s t = PushLink n old"
  shows "pool_inv count a (s\<lparr>sys_next := (sys_next s)(n := old), sys_pc := (sys_pc s)(t := PushCas n old)\<rparr>) fl"
proof -
  note I = pool_invD [OF inv]
  have fl: "n \<notin> set fl" using I(5) [of t n] pc by simp
  have f: "in_flight (((sys_pc s)(t := PushCas n old)) t') = in_flight (sys_pc s t')" for t' using pc by simp
  have "pool_core count a ((sys_next s)(n := old)) (sys_head s) ((sys_pc s)(t := PushCas n old)) (sys_held s) fl"
  proof (rule pool_coreI, unfold f)
    show "chain ((sys_next s)(n := old)) (sys_head s) fl" using fl I(1) by (simp add: chain_upd)
    show "pc_ok ((sys_next s)(n := old)) fl (((sys_pc s)(t := PushCas n old)) t')" for t'
    proof (cases "t' = t")
      case False
      then have "in_flight (sys_pc s t') \<noteq> Some n" using I(6) [of t n t'] pc by auto
      then show ?thesis using False fl I(3) [of t'] by (simp add: pc_ok_link)
    qed simp
    show "popping (((sys_pc s)(t := PushCas n old)) t') \<Longrightarrow> t' = a" for t' using I(4) by (auto split: if_splits)
  qed (fact I)+
  then show ?thesis by (simp add: pool_inv_def)
qed

lemma pool_inv_push:
  assumes inv: "pool_inv count a s fl" and pc: "sys_pc s t = PushCas n old" and h: "sys_head s = old"
  shows "pool_inv count a (s\<lparr>sys_head := Some n, sys_pc := (sys_pc s)(t := PoolIdle)\<rparr>) (n # fl)"
proof -
  note I = pool_invD [OF inv]
  have n: "n \<notin> set (sys_held s)" "n \<notin> set fl" "sys_next s n = old" using I(5) [of t n] I(3) [of t] pc by simp_all
  have f: "in_flight (((sys_pc s)(t := PoolIdle)) t') = Some m \<longleftrightarrow> m \<noteq> n \<and> in_flight (sys_pc s t') = Some m" for t' m
    using I(6) [of t n t'] pc by (cases "t' = t") auto
  have "pool_core count a (sys_next s) (Some n) ((sys_pc s)(t := PoolIdle)) (sys_held s) (n # fl)"
  proof (rule pool_coreI, unfold f)
    show "chain (sys_next s) (Some n) (n # fl)" using I(1) n h by simp
    show "distinct (sys_held s @ n # fl)" using I(2) n by simp
    show "pc_ok (sys_next s) (n # fl) (((sys_pc s)(t := PoolIdle)) t')" for t' using I(3) by (simp add: pc_ok_cons)
    show "popping (((sys_pc s)(t := PoolIdle)) t') \<Longrightarrow> t' = a" for t' using I(4) by (auto split: if_splits)
    show "m \<noteq> n \<and> in_flight (sys_pc s t') = Some m \<Longrightarrow> m \<notin> set (sys_held s) \<and> m \<notin> set (n # fl)" for t' m
      using I(5) by auto
    show "m \<noteq> n \<and> in_flight (sys_pc s t') = Some m \<Longrightarrow> m \<noteq> n \<and> in_flight (sys_pc s t'') = Some m \<Longrightarrow> t' = t''" for t' t'' m
      using I(6) by blast
    show "(m < count) = (m \<in> set (sys_held s) \<or> m \<in> set (n # fl) \<or> (\<exists>t. m \<noteq> n \<and> in_flight (sys_pc s t) = Some m))" for m
      unfolding I(7) using arg_cong [OF pc, of in_flight] by auto
  qed
  then show ?thesis by (simp add: pool_inv_def)
qed

lemma pool_inv_pop:
  assumes inv: "pool_inv count a s fl" and pc: "sys_pc s t = PopCas old nx" and h: "sys_head s = Some old"
  shows "pool_inv count a (s\<lparr>sys_head := nx, sys_held := old # sys_held s, sys_pc := (sys_pc s)(t := PoolIdle)\<rparr>) (tl fl)"
proof -
  note I = pool_invD [OF inv]
  obtain fl' where fl: "fl = old # fl'" "chain (sys_next s) (sys_next s old) fl'" using I(1) h by (auto simp: chain_head)
  have nx: "sys_next s old = nx" using I(3) [of t] pc by simp
  have f: "in_flight (((sys_pc s)(t := PoolIdle)) t') = in_flight (sys_pc s t')" for t' using pc by simp
  have t: "t = a" using I(4) [of t] pc by simp
  have "pool_core count a (sys_next s) nx ((sys_pc s)(t := PoolIdle)) (old # sys_held s) (tl fl)"
  proof (rule pool_coreI, unfold f)
    show "chain (sys_next s) nx (tl fl)" using fl nx by simp
    show "distinct ((old # sys_held s) @ tl fl)" using I(2) fl by auto
    show "pc_ok (sys_next s) (tl fl) (((sys_pc s)(t := PoolIdle)) t')" for t'
      using I(3) [of t'] I(4) [of t'] t by (cases "sys_pc s t'") auto
    show "popping (((sys_pc s)(t := PoolIdle)) t') \<Longrightarrow> t' = a" for t' using I(4) by (auto split: if_splits)
    show "in_flight (sys_pc s t') = Some m \<Longrightarrow> m \<notin> set (old # sys_held s) \<and> m \<notin> set (tl fl)" for t' m
      using I(5) [of t' m] fl by auto
    show "(m < count) = (m \<in> set (old # sys_held s) \<or> m \<in> set (tl fl) \<or> (\<exists>t. in_flight (sys_pc s t) = Some m))" for m
      unfolding I(7) using fl by auto
  qed (fact I(6))
  then show ?thesis by (simp add: pool_inv_def)
qed

lemma pool_inv_release:
  assumes inv: "pool_inv count a s fl" and pc: "sys_pc s t = PoolIdle" and n: "n \<in> set (sys_held s)"
  shows "pool_inv count a (s\<lparr>sys_held := remove1 n (sys_held s), sys_pc := (sys_pc s)(t := PushLink n (sys_head s))\<rparr>) fl"
proof -
  note I = pool_invD [OF inv]
  let ?pc = "(sys_pc s)(t := PushLink n (sys_head s))"
  have d: "distinct (sys_held s)" "distinct fl" "set (sys_held s) \<inter> set fl = {}" using I(2) by auto
  then have held: "set (remove1 n (sys_held s)) = set (sys_held s) - {n}" by simp
  have f: "in_flight (?pc t') = Some m \<longleftrightarrow> (t' = t \<and> m = n) \<or> in_flight (sys_pc s t') = Some m" for t' m
    using pc by auto
  have "pool_core count a (sys_next s) (sys_head s) ?pc (remove1 n (sys_held s)) fl"
  proof (rule pool_coreI, unfold f)
    show "chain (sys_next s) (sys_head s) fl" by (fact I(1))
    show "distinct (remove1 n (sys_held s) @ fl)" using d by (auto simp: held)
    show "pc_ok (sys_next s) fl (?pc t')" for t' using I(3) by simp
    show "popping (?pc t') \<Longrightarrow> t' = a" for t' using I(4) by (auto split: if_splits)
    show "(t' = t \<and> m = n) \<or> in_flight (sys_pc s t') = Some m \<Longrightarrow>
        m \<notin> set (remove1 n (sys_held s)) \<and> m \<notin> set fl" for t' m
      using I(5) [of t' m] d n by (auto simp: held)
    show "(t' = t \<and> m = n) \<or> in_flight (sys_pc s t') = Some m \<Longrightarrow>
        (t'' = t \<and> m = n) \<or> in_flight (sys_pc s t'') = Some m \<Longrightarrow> t' = t''" for t' t'' m
      using I(5) [of t' n] I(5) [of t'' n] I(6) [of t' m t''] n by auto
    show "(m < count) = (m \<in> set (remove1 n (sys_held s)) \<or> m \<in> set fl \<or>
        (\<exists>t'. (t' = t \<and> m = n) \<or> in_flight (sys_pc s t') = Some m))" for m
      unfolding I(7) held using n by auto
  qed
  then show ?thesis by (simp add: pool_inv_def)
qed

lemma pool_act_inv:
  assumes inv: "pool_inv count a s fl" and step: "pool_act act s = Some s'" and "\<forall>t. act = BeginAcquire t \<longrightarrow> t = a"
  shows "\<exists>fl'. pool_inv count a s' fl'"
proof -
  note I = pool_invD [OF inv] and P = pool_inv_pc [OF inv]
  have load: "pool_inv count a (s\<lparr>sys_pc := (sys_pc s)(t := pop_load s)\<rparr>) fl"
    if "in_flight (sys_pc s t) = None" "t = a" for t
    using P [OF pop_load_ok [OF I(1)]] that by simp
  have link: "pool_inv count a (s\<lparr>sys_pc := (sys_pc s)(t := PushLink n (sys_head s))\<rparr>) fl"
    if "sys_pc s t = PushCas n old" for t n old using P [of "PushLink n (sys_head s)" t] that by simp
  show ?thesis
  proof (cases act)
    case (BeginAcquire t)
    then show ?thesis using assms(2,3) load by (auto split: if_splits)
  next
    case (BeginRelease t n)
    then show ?thesis using step pool_inv_release [OF inv] by (auto split: if_splits)
  next
    case (PoolStep t)
    show ?thesis
    proof (cases "sys_pc s t")
      case (PushCas n old)
      then show ?thesis using PoolStep step pool_inv_push [OF inv PushCas] link by (auto split: if_splits)
    next
      case (PopCas old nx)
      have "t = a" using I(4) [of t] PopCas by simp
      with PopCas show ?thesis using PoolStep step pool_inv_pop [OF inv PopCas] load [of t] by (auto split: if_splits)
    next
      case (PopRead old)
      have "t = a" "old \<in> set fl" using I(3,4) [of t] PopRead by simp_all
      with PopRead show ?thesis using PoolStep step P [of "PopCas old (sys_next s old)" t] by auto
    next
      case (PushLink n old)
      then show ?thesis using PoolStep step pool_inv_link [OF inv PushLink] by auto
    qed (use PoolStep step in simp)
  next
    case (SpuriousFail t)
    show ?thesis
    proof (cases "sys_pc s t")
      case (PopCas old nx)
      have "t = a" using I(4) [of t] PopCas by simp
      with PopCas show ?thesis using SpuriousFail step load [of t] by auto
    qed (use SpuriousFail step link in auto)
  qed
qed

lemma pool_run_inv:
  assumes "pool_inv count a s fl" and "pool_run acts s = Some s'" and "\<forall>t. BeginAcquire t \<in> set acts \<longrightarrow> t = a"
  shows "\<exists>fl'. pool_inv count a s' fl'"
  using assms
proof (induction acts arbitrary: s fl)
  case (Cons act acts)
  then obtain s1 where s1: "pool_act act s = Some s1" "pool_run acts s1 = Some s'" by (auto split: option.splits)
  obtain fl1 where "pool_inv count a s1 fl1" using pool_act_inv [OF Cons.prems(1) s1(1)] Cons.prems(3) by auto
  with Cons.IH s1(2) Cons.prems(3) show ?case by auto
qed auto

section \<open>Properties\<close>

text \<open>C23: with one acquiring thread and any number of releasing threads the lock-free free
  list is safe under every interleaving of its shared-memory accesses, spurious failures included: the free list
  is never cyclic and no block is at once free, held and being released; every block is in exactly one of
  these places, so none is handed out twice and none is lost.\<close>

theorem pool_single_acquirer_safe:
  assumes "pool_run acts (pool_start count) = Some s" and "\<forall>t. BeginAcquire t \<in> set acts \<longrightarrow> t = a"
  shows "\<exists>fl. chain (sys_next s) (sys_head s) fl \<and> distinct (sys_held s @ fl) \<and>
    (\<forall>t n. in_flight (sys_pc s t) = Some n \<longrightarrow> n \<notin> set (sys_held s) \<and> n \<notin> set fl) \<and>
    (\<forall>n. n < count \<longleftrightarrow> n \<in> set (sys_held s) \<or> n \<in> set fl \<or> (\<exists>t. in_flight (sys_pc s t) = Some n))"
  using pool_run_inv [OF pool_start_inv assms] by (auto simp: pool_inv_def pool_core_def)

theorem pool_single_acquirer_safe_witness:
  "\<exists>s fl. pool_run [BeginAcquire 0, PoolStep 0, PoolStep 0, BeginRelease 1 1, PoolStep 1, SpuriousFail 1] (pool_start 2) = Some s \<and>
     sys_held s = [] \<and> chain (sys_next s) (sys_head s) fl"
proof -
  let ?r = "pool_run [BeginAcquire 0, PoolStep 0, PoolStep 0, BeginRelease 1 1, PoolStep 1, SpuriousFail 1] (pool_start 2)"
  have "map_option sys_held ?r = Some []" by code_simp
  then obtain s where s: "?r = Some s" "sys_held s = []" by auto
  with pool_single_acquirer_safe [OF s(1), of 0] show ?thesis by auto
qed

definition aba_actions :: "pool_action list" where
  "aba_actions =
     [BeginAcquire 0, PoolStep 0] @
     [BeginAcquire 1, PoolStep 1, PoolStep 1, BeginAcquire 1, PoolStep 1, PoolStep 1] @
     [BeginRelease 1 2, PoolStep 1, PoolStep 1] @
     [PoolStep 0] @
     [BeginAcquire 0, PoolStep 0, PoolStep 0]"

text \<open>With two acquiring threads the free list has the ABA problem, although nodes
  are never destroyed: a thread that has read the head and its successor and is then overtaken by
  another one, which takes both and returns the first, installs a successor that is already in use, and the
  same block is handed out twice.\<close>

theorem pool_two_acquirers_aba:
  "map_option sys_held (pool_run aba_actions (pool_start 3)) = Some [1, 2, 1]"
  by code_simp

end
