(* ===== verification/Managed_Ring.thy ===== *)
theory Managed_Ring
  imports Block_Pool "HOL-Library.Multiset"
begin

text \<open>
  \<^verbatim>\<open>lcr::buffer::managed_slot\<close> and \<^verbatim>\<open>lcr::buffer::managed_spsc_ring\<close> (buffer/managed_slot.hpp,
  buffer/managed_spsc_ring.hpp): message slots with an inline buffer that is promoted to a pooled block when a
  message outgrows it. The slots of the ring are its storage, in the order in which they will be
  handed out: the free ones, the one the producer holds, the committed ones. The queue
  discipline is the one that \<open>Spsc_Ring\<close> proves for the lock-free ring. Slot contents
  are read through the pool, so two slots sharing a block would be visible here.
  Sizes are naturals with the 64-bit wrap written out where the code guards against it.
\<close>

section \<open>Slots\<close>

datatype promotion_result = PromotionNone | PromotionSuccess | PoolExhausted | TooLarge

record managed_slot =
  slot_external :: "nat option"
  slot_size :: nat
  slot_create_ts :: u64
  slot_delivery_ts :: u64
  slot_inline :: string

definition slot_init :: managed_slot where
  "slot_init = \<lparr>slot_external = None, slot_size = 0, slot_create_ts = 0, slot_delivery_ts = 0, slot_inline = []\<rparr>"

definition slot_data :: "block_pool \<Rightarrow> managed_slot \<Rightarrow> string" where
  "slot_data p s = (case slot_external s of Some n \<Rightarrow> blk_data (pool_blocks p n) | None \<Rightarrow> slot_inline s)"

definition slot_capacity :: "nat \<Rightarrow> block_pool \<Rightarrow> managed_slot \<Rightarrow> nat" where
  "slot_capacity inl p s = (case slot_external s of Some n \<Rightarrow> blk_capacity (pool_blocks p n) | None \<Rightarrow> inl)"

definition slot_is_external :: "managed_slot \<Rightarrow> bool" where
  "slot_is_external s \<longleftrightarrow> slot_external s \<noteq> None"

definition slot_remaining :: "nat \<Rightarrow> block_pool \<Rightarrow> managed_slot \<Rightarrow> nat" where
  "slot_remaining inl p s = slot_capacity inl p s - slot_size s"

text \<open>A store of bytes at an offset, as through \<^verbatim>\<open>write_ptr()\<close>.\<close>

definition mem_write :: "nat \<Rightarrow> string \<Rightarrow> string \<Rightarrow> string" where
  "mem_write off bs mem = take off mem @ bs @ drop (off + length bs) mem"

definition slot_write_bytes :: "string \<Rightarrow> block_pool \<Rightarrow> managed_slot \<Rightarrow> block_pool \<times> managed_slot" where
  "slot_write_bytes bs p s = (case slot_external s of
      Some n \<Rightarrow> (p\<lparr>pool_blocks := (pool_blocks p)
                    (n := (pool_blocks p n)\<lparr>blk_data := mem_write (slot_size s) bs (blk_data (pool_blocks p n))\<rparr>)\<rparr>, s)
    | None \<Rightarrow> (p, s\<lparr>slot_inline := mem_write (slot_size s) bs (slot_inline s)\<rparr>))"

definition promote_if_needed ::
  "nat \<Rightarrow> nat \<Rightarrow> block_pool \<Rightarrow> managed_slot \<Rightarrow> block_pool \<times> managed_slot \<times> promotion_result" where
  "promote_if_needed inl required p s =
     (if required \<le> inl then (p, s, PromotionNone)
      else case (case slot_external s of
          Some _ \<Rightarrow> Some (p, s)
        | None \<Rightarrow> (case pool_acquire p of
              (_, None) \<Rightarrow> None
            | (p1, Some n) \<Rightarrow>
                Some (p1\<lparr>pool_blocks := (pool_blocks p1)(n := (pool_blocks p1 n)
                       \<lparr>blk_data := mem_write 0 (take (slot_size s) (slot_inline s)) (blk_data (pool_blocks p1 n)),
                        blk_size := slot_size s\<rparr>)\<rparr>, s\<lparr>slot_external := Some n\<rparr>))) of
        None \<Rightarrow> (p, s, PoolExhausted)
      | Some (p', s') \<Rightarrow>
          (p', s', if required \<le> slot_capacity inl p' s' then PromotionSuccess else TooLarge))"

definition slot_reserve ::
  "nat \<Rightarrow> nat \<Rightarrow> nat \<Rightarrow> block_pool \<Rightarrow> managed_slot \<Rightarrow> block_pool \<times> managed_slot \<times> promotion_result" where
  "slot_reserve inl max_reserve len p s =
     (if len > max_reserve then (p, s, TooLarge)
      else let required = (slot_size s + len) mod 2 ^ 64 in
        if required < slot_size s \<or> required > max_reserve then (p, s, TooLarge)
        else if required \<le> slot_capacity inl p s then (p, s, PromotionNone)
        else promote_if_needed inl required p s)"

definition slot_commit :: "nat \<Rightarrow> block_pool \<Rightarrow> managed_slot \<Rightarrow> block_pool \<times> managed_slot" where
  "slot_commit len p s =
     (let s1 = s\<lparr>slot_size := slot_size s + len\<rparr> in
      case slot_external s1 of
        Some n \<Rightarrow> (p\<lparr>pool_blocks := (pool_blocks p)(n := (pool_blocks p n)\<lparr>blk_size := slot_size s1\<rparr>)\<rparr>, s1)
      | None \<Rightarrow> (p, s1))"

definition slot_reset :: "block_pool \<Rightarrow> managed_slot \<Rightarrow> block_pool \<times> managed_slot" where
  "slot_reset p s =
     (let (p1, s1) = (case slot_external s of Some n \<Rightarrow> (pool_release n p, s\<lparr>slot_external := None\<rparr>) | None \<Rightarrow> (p, s))
      in (p1, s1\<lparr>slot_size := 0, slot_create_ts := 0, slot_delivery_ts := 0\<rparr>))"

section \<open>The ring\<close>

record managed_ring =
  mr_free :: "managed_slot list"
  mr_held :: "managed_slot option"
  mr_ready :: "managed_slot list"
  mr_pool :: block_pool

definition managed_ring_init :: "nat \<Rightarrow> block_pool \<Rightarrow> managed_ring" where
  "managed_ring_init cap p = \<lparr>mr_free = replicate cap slot_init, mr_held = None, mr_ready = [], mr_pool = p\<rparr>"

definition mr_full :: "nat \<Rightarrow> managed_ring \<Rightarrow> bool" where
  "mr_full cap r \<longleftrightarrow> length (mr_ready r) \<ge> cap - 1"

definition mr_empty :: "managed_ring \<Rightarrow> bool" where
  "mr_empty r \<longleftrightarrow> mr_ready r = []"

definition mr_acquire_producer_slot :: "nat \<Rightarrow> managed_ring \<Rightarrow> managed_ring \<times> bool" where
  "mr_acquire_producer_slot cap r =
     (if mr_full cap r then (r, False)
      else case mr_free r of [] \<Rightarrow> (r, False) | s # fs \<Rightarrow> (r\<lparr>mr_free := fs, mr_held := Some s\<rparr>, True))"

definition mr_commit_producer_slot :: "managed_ring \<Rightarrow> managed_ring" where
  "mr_commit_producer_slot r = (case mr_held r of
      None \<Rightarrow> r
    | Some s \<Rightarrow> r\<lparr>mr_held := None, mr_ready := mr_ready r @ [s]\<rparr>)"

definition mr_reserve :: "nat \<Rightarrow> nat \<Rightarrow> nat \<Rightarrow> managed_ring \<Rightarrow> managed_ring \<times> promotion_result" where
  "mr_reserve inl max_reserve len r = (case mr_held r of
      None \<Rightarrow> (r, TooLarge)
    | Some s \<Rightarrow> let (p, s', res) = slot_reserve inl max_reserve len (mr_pool r) s in
        (r\<lparr>mr_pool := p, mr_held := Some s'\<rparr>, res))"

definition mr_discard_producer_slot :: "managed_ring \<Rightarrow> managed_ring" where
  "mr_discard_producer_slot r = (case mr_held r of
      None \<Rightarrow> r
    | Some s \<Rightarrow> let (p, s') = slot_reset (mr_pool r) s in
        r\<lparr>mr_pool := p, mr_held := None, mr_free := s' # mr_free r\<rparr>)"

definition mr_peek_consumer_slot :: "managed_ring \<Rightarrow> managed_slot option" where
  "mr_peek_consumer_slot r = (case mr_ready r of [] \<Rightarrow> None | s # _ \<Rightarrow> Some s)"

definition mr_release_consumer_slot :: "managed_ring \<Rightarrow> managed_ring" where
  "mr_release_consumer_slot r = (case mr_ready r of
      [] \<Rightarrow> r
    | s # ss \<Rightarrow> let (p, s') = slot_reset (mr_pool r) s in
        r\<lparr>mr_pool := p, mr_ready := ss, mr_free := mr_free r @ [s']\<rparr>)"

definition mr_clear :: "managed_ring \<Rightarrow> managed_ring" where
  "mr_clear r = (mr_release_consumer_slot ^^ length (mr_ready r)) r"

text \<open>Writing \<open>bs\<close> at the write position of the held slot and committing them, as \<^verbatim>\<open>read_some\<close> and \<^verbatim>\<open>commit\<close> do.\<close>

definition mr_append :: "string \<Rightarrow> managed_ring \<Rightarrow> managed_ring" where
  "mr_append bs r = (case mr_held r of
      None \<Rightarrow> r
    | Some s \<Rightarrow> let (p, s1) = slot_write_bytes bs (mr_pool r) s; (p2, s2) = slot_commit (length bs) p s1 in
        r\<lparr>mr_pool := p2, mr_held := Some s2\<rparr>)"

section \<open>Invariant\<close>

definition slot_view :: "block_pool \<Rightarrow> managed_slot \<Rightarrow> string" where
  "slot_view p s = take (slot_size s) (slot_data p s)"

definition slot_empty :: "managed_slot \<Rightarrow> bool" where
  "slot_empty s \<longleftrightarrow> slot_external s = None \<and> slot_size s = 0"

definition slot_ok :: "nat \<Rightarrow> block_pool \<Rightarrow> managed_slot \<Rightarrow> bool" where
  "slot_ok inl p s \<longleftrightarrow> slot_size s \<le> slot_capacity inl p s \<and> slot_size s \<le> length (slot_data p s)"

definition held_list :: "managed_ring \<Rightarrow> managed_slot list" where
  "held_list r = (case mr_held r of None \<Rightarrow> [] | Some s \<Rightarrow> [s])"

abbreviation blocks_of :: "managed_slot list \<Rightarrow> nat list" where
  "blocks_of ss \<equiv> List.map_filter slot_external ss"

definition ring_ok :: "nat \<Rightarrow> nat \<Rightarrow> managed_ring \<Rightarrow> nat list \<Rightarrow> bool" where
  "ring_ok inl cap r fl \<longleftrightarrow> 2 \<le> cap \<and> inl \<le> pool_block_size (mr_pool r) \<and> pool_block_size (mr_pool r) < 2 ^ 63 \<and>
     length (mr_free r) + length (held_list r) + length (mr_ready r) = cap \<and>
     (\<forall>s \<in> set (mr_free r). slot_empty s) \<and>
     (\<forall>s \<in> set (held_list r @ mr_ready r). slot_ok inl (mr_pool r) s) \<and>
     pool_ok (mr_pool r) fl \<and>
     mset (fl @ blocks_of (held_list r @ mr_ready r)) = mset [0..<pool_block_count (mr_pool r)]"

lemma ring_okD:
  assumes "ring_ok inl cap r fl"
  shows "distinct (fl @ blocks_of (held_list r @ mr_ready r))"
    and "set (fl @ blocks_of (held_list r @ mr_ready r)) = {..<pool_block_count (mr_pool r)}"
    and "pool_ok (mr_pool r) fl"
proof -
  have m: "mset (fl @ blocks_of (held_list r @ mr_ready r)) = mset [0..<pool_block_count (mr_pool r)]"
    using assms by (simp add: ring_ok_def)
  show "distinct (fl @ blocks_of (held_list r @ mr_ready r))" using mset_eq_imp_distinct_iff [OF m] by simp
  show "set (fl @ blocks_of (held_list r @ mr_ready r)) = {..<pool_block_count (mr_pool r)}"
    using mset_eq_setD [OF m] by (simp add: atLeast0LessThan)
  show "pool_ok (mr_pool r) fl" using assms by (simp add: ring_ok_def)
qed

lemma in_blocks_of: "n \<in> set (blocks_of ss) \<longleftrightarrow> (\<exists>s \<in> set ss. slot_external s = Some n)"
  by (auto simp: List.map_filter_def image_iff intro!: bexI)

lemma blocks_of_simps [simp]:
  "blocks_of [] = []" "blocks_of (s # ss) = (case slot_external s of None \<Rightarrow> [] | Some n \<Rightarrow> [n]) @ blocks_of ss"
  "blocks_of (xs @ ys) = blocks_of xs @ blocks_of ys"
  by (simp_all add: List.map_filter_def split: option.split)

text \<open>Slots read the same from two pools that agree on their blocks.\<close>

definition same_blocks :: "managed_slot list \<Rightarrow> block_pool \<Rightarrow> block_pool \<Rightarrow> bool" where
  "same_blocks ss p p' \<longleftrightarrow> (\<forall>n \<in> set (blocks_of ss). pool_blocks p' n = pool_blocks p n)"

lemma same_blocks_slot:
  assumes "same_blocks ss p p'" and "s \<in> set ss"
  shows "slot_data p' s = slot_data p s" and "slot_capacity inl p' s = slot_capacity inl p s"
    and "slot_view p' s = slot_view p s" and "slot_ok inl p' s = slot_ok inl p s"
proof -
  have "pool_blocks p' n = pool_blocks p n" if "slot_external s = Some n" for n
    using assms that by (auto simp: same_blocks_def in_blocks_of)
  then show d: "slot_data p' s = slot_data p s" and c: "slot_capacity inl p' s = slot_capacity inl p s"
    by (simp_all add: slot_data_def slot_capacity_def split: option.split)
  show "slot_view p' s = slot_view p s" using d by (simp add: slot_view_def)
  show "slot_ok inl p' s = slot_ok inl p s" using d c by (simp add: slot_ok_def)
qed

lemma same_blocks_views:
  assumes "same_blocks ss p p'"
  shows "map (slot_view p') ss = map (slot_view p) ss"
    and "(\<forall>s \<in> set ss. slot_ok inl p' s) = (\<forall>s \<in> set ss. slot_ok inl p s)"
  using same_blocks_slot [OF assms] by simp_all

lemma ring_init_ok:
  "2 \<le> cap \<Longrightarrow> inl \<le> bytes \<Longrightarrow> bytes < 2 ^ 63 \<Longrightarrow>
   ring_ok inl cap (managed_ring_init cap (block_pool_init bytes blocks)) (rev [0..<blocks])"
  using pool_init_ok [of bytes blocks]
  by (auto simp: ring_ok_def managed_ring_init_def held_list_def slot_init_def slot_empty_def
      block_pool_init_def push_all_keep)

section \<open>What the operations do\<close>

lemma mr_acquire_facts:
  assumes ok: "ring_ok inl cap r fl" and h: "mr_held r = None"
  shows "mr_full cap r \<Longrightarrow> mr_acquire_producer_slot cap r = (r, False)"
    and "\<not> mr_full cap r \<Longrightarrow> \<exists>s fs. slot_empty s \<and> mr_free r = s # fs \<and>
      mr_acquire_producer_slot cap r = (r\<lparr>mr_free := fs, mr_held := Some s\<rparr>, True) \<and>
      ring_ok inl cap (r\<lparr>mr_free := fs, mr_held := Some s\<rparr>) fl"
proof -
  show "mr_full cap r \<Longrightarrow> mr_acquire_producer_slot cap r = (r, False)" by (simp add: mr_acquire_producer_slot_def)
  assume nf: "\<not> mr_full cap r"
  then have "mr_free r \<noteq> []" using ok h by (auto simp: ring_ok_def mr_full_def held_list_def)
  then obtain s fs where f: "mr_free r = s # fs" by (cases "mr_free r") auto
  have e: "slot_empty s" using ok f by (simp add: ring_ok_def)
  then have "slot_ok inl (mr_pool r) s" by (simp add: slot_empty_def slot_ok_def)
  then have "ring_ok inl cap (r\<lparr>mr_free := fs, mr_held := Some s\<rparr>) fl"
    using ok h f e by (auto simp: ring_ok_def held_list_def slot_empty_def)
  then show "\<exists>s fs. slot_empty s \<and> mr_free r = s # fs \<and>
      mr_acquire_producer_slot cap r = (r\<lparr>mr_free := fs, mr_held := Some s\<rparr>, True) \<and>
      ring_ok inl cap (r\<lparr>mr_free := fs, mr_held := Some s\<rparr>) fl"
    using f e nf by (auto simp: mr_acquire_producer_slot_def)
qed

lemma mr_commit_facts:
  assumes ok: "ring_ok inl cap r fl" and h: "mr_held r = Some s"
  shows "ring_ok inl cap (mr_commit_producer_slot r) fl" and "mr_held (mr_commit_producer_slot r) = None"
    and "mr_ready (mr_commit_producer_slot r) = mr_ready r @ [s]" and "mr_pool (mr_commit_producer_slot r) = mr_pool r"
  using ok h by (auto simp: mr_commit_producer_slot_def ring_ok_def held_list_def split: option.splits)

text \<open>Changing the contents of the held slot's own block or inline buffer.\<close>

lemma held_block_private:
  assumes ok: "ring_ok inl cap r fl" and h: "mr_held r = Some s" and e: "slot_external s = Some n"
  shows "n \<notin> set fl" and "n \<notin> set (blocks_of (mr_ready r))" and "n < pool_block_count (mr_pool r)"
  using ring_okD(1,2) [OF ok] h e by (auto simp: held_list_def)

lemma ring_ok_held_update:
  assumes ok: "ring_ok inl cap r fl" and h: "mr_held r = Some s" and b: "slot_external s' = slot_external s"
    and p: "pool_next p' = pool_next (mr_pool r)" "pool_head p' = pool_head (mr_pool r)"
      "pool_block_size p' = pool_block_size (mr_pool r)" "pool_block_count p' = pool_block_count (mr_pool r)"
      "pool_free_count p' = pool_free_count (mr_pool r)"
      "\<And>n. blk_capacity (pool_blocks p' n) = blk_capacity (pool_blocks (mr_pool r) n)"
    and same: "same_blocks (mr_ready r) (mr_pool r) p'" and s': "slot_ok inl p' s'"
  shows "ring_ok inl cap (r\<lparr>mr_pool := p', mr_held := Some s'\<rparr>) fl"
proof -
  have "pool_ok p' fl" using ring_okD(3) [OF ok] p by (simp add: pool_ok_def)
  then show ?thesis
    using ok h b p s' same_blocks_views(2) [OF same, of inl] by (auto simp: ring_ok_def held_list_def)
qed

lemma length_mem_write: "off \<le> length mem \<Longrightarrow> off + length bs \<le> length (mem_write off bs mem)"
  by (simp add: mem_write_def)

lemma take_mem_write: "off \<le> length mem \<Longrightarrow> take (off + length bs) (mem_write off bs mem) = take off mem @ bs"
  by (simp add: mem_write_def)

lemma mr_append_facts:
  assumes ok: "ring_ok inl cap r fl" and h: "mr_held r = Some s"
    and fits: "length bs \<le> slot_remaining inl (mr_pool r) s"
  shows "\<exists>p' s'. mr_append bs r = r\<lparr>mr_pool := p', mr_held := Some s'\<rparr> \<and> ring_ok inl cap (mr_append bs r) fl \<and>
    slot_view p' s' = slot_view (mr_pool r) s @ bs \<and> same_blocks (mr_ready r) (mr_pool r) p' \<and>
    slot_external s' = slot_external s \<and> slot_size s' = slot_size s + length bs"
proof -
  have s: "slot_size s \<le> slot_capacity inl (mr_pool r) s" "slot_size s \<le> length (slot_data (mr_pool r) s)"
    using ok h by (auto simp: ring_ok_def held_list_def slot_ok_def)
  have fits': "slot_size s + length bs \<le> slot_capacity inl (mr_pool r) s"
    using fits s(1) by (simp add: slot_remaining_def)
  show ?thesis
  proof (cases "slot_external s")
    case None
    let ?s' = "s\<lparr>slot_inline := mem_write (slot_size s) bs (slot_inline s), slot_size := slot_size s + length bs\<rparr>"
    have eq: "mr_append bs r = r\<lparr>mr_pool := mr_pool r, mr_held := Some ?s'\<rparr>"
      using None h by (simp add: mr_append_def slot_write_bytes_def slot_commit_def Let_def)
    have "slot_ok inl (mr_pool r) ?s'" using None s fits' length_mem_write [of "slot_size s" "slot_inline s" bs]
      by (simp add: slot_ok_def slot_data_def slot_capacity_def)
    then have "ring_ok inl cap (mr_append bs r) fl"
      unfolding eq using None by (intro ring_ok_held_update [OF ok h]) (simp_all add: same_blocks_def)
    moreover have "slot_view (mr_pool r) ?s' = slot_view (mr_pool r) s @ bs"
      using None s(2) take_mem_write [of "slot_size s" "slot_inline s" bs] by (simp add: slot_view_def slot_data_def)
    ultimately show ?thesis using None
      by (intro exI [of _ "mr_pool r"] exI [of _ ?s']) (simp add: eq same_blocks_def)
  next
    case (Some n)
    let ?b = "pool_blocks (mr_pool r) n"
    let ?b' = "?b\<lparr>blk_data := mem_write (slot_size s) bs (blk_data ?b), blk_size := slot_size s + length bs\<rparr>"
    let ?p' = "(mr_pool r)\<lparr>pool_blocks := (pool_blocks (mr_pool r))(n := ?b')\<rparr>"
    let ?s' = "s\<lparr>slot_size := slot_size s + length bs\<rparr>"
    have eq: "mr_append bs r = r\<lparr>mr_pool := ?p', mr_held := Some ?s'\<rparr>"
      using Some h by (simp add: mr_append_def slot_write_bytes_def slot_commit_def Let_def)
    have same: "same_blocks (mr_ready r) (mr_pool r) ?p'"
      using held_block_private(2) [OF ok h Some] by (auto simp: same_blocks_def)
    have "slot_ok inl ?p' ?s'" using Some s fits' length_mem_write [of "slot_size s" "blk_data ?b" bs]
      by (simp add: slot_ok_def slot_data_def slot_capacity_def)
    then have "ring_ok inl cap (mr_append bs r) fl"
      unfolding eq using same by (intro ring_ok_held_update [OF ok h]) simp_all
    moreover have "slot_view ?p' ?s' = slot_view (mr_pool r) s @ bs"
      using Some s(2) take_mem_write [of "slot_size s" "blk_data ?b" bs] by (simp add: slot_view_def slot_data_def)
    ultimately show ?thesis using same by (intro exI [of _ ?p'] exI [of _ ?s']) (simp add: eq)
  qed
qed

lemma slot_capacity_le:
  assumes "ring_ok inl cap r fl" shows "slot_capacity inl (mr_pool r) s \<le> pool_block_size (mr_pool r)"
  using assms by (simp add: ring_ok_def pool_ok_def slot_capacity_def split: option.split)

lemma held_size_bound:
  assumes "ring_ok inl cap r fl" and "mr_held r = Some s" shows "slot_size s < 2 ^ 63"
proof -
  have "slot_size s \<le> slot_capacity inl (mr_pool r) s" "pool_block_size (mr_pool r) < 2 ^ 63"
    using assms by (auto simp: ring_ok_def held_list_def slot_ok_def)
  then show ?thesis using slot_capacity_le [OF assms(1), of s] by linarith
qed

text \<open>A reservation: the message is kept, room is guaranteed on success, and a failure for lack of blocks means the pool is empty.\<close>

definition reserve_spec ::
  "nat \<Rightarrow> nat \<Rightarrow> managed_ring \<Rightarrow> managed_slot \<Rightarrow> block_pool \<Rightarrow> managed_slot \<Rightarrow> promotion_result \<Rightarrow> bool" where
  "reserve_spec inl len r s p' s' res \<longleftrightarrow>
     slot_view p' s' = slot_view (mr_pool r) s \<and> slot_size s' = slot_size s \<and>
     same_blocks (mr_ready r) (mr_pool r) p' \<and>
     (res \<in> {PromotionNone, PromotionSuccess} \<longrightarrow> len \<le> slot_remaining inl p' s') \<and>
     (res = PoolExhausted \<longrightarrow> pool_head (mr_pool r) = None \<and> p' = mr_pool r \<and> s' = s)"

lemma held_unchanged: "mr_held r = Some s \<Longrightarrow> r\<lparr>mr_pool := mr_pool r, mr_held := Some s\<rparr> = r"
  by simp

lemma promote_facts:
  assumes ok: "ring_ok inl cap r fl" and h: "mr_held r = Some s" and req: "required = slot_size s + len"
    and big: "slot_capacity inl (mr_pool r) s < required"
    and pr: "promote_if_needed inl required (mr_pool r) s = (p', s', res)"
  shows "reserve_spec inl len r s p' s' res \<and>
    (\<exists>fl'. ring_ok inl cap (r\<lparr>mr_pool := p', mr_held := Some s'\<rparr>) fl')"
proof (cases "slot_external s")
  case (Some n)
  have "inl \<le> blk_capacity (pool_blocks (mr_pool r) n)" using ok by (simp add: ring_ok_def pool_ok_def)
  then have "p' = mr_pool r" "s' = s" "res = TooLarge"
    using pr Some big by (auto simp: promote_if_needed_def slot_capacity_def split: if_splits)
  then show ?thesis using ok held_unchanged [OF h] by (auto simp: reserve_spec_def same_blocks_def)
next
  case None
  have big': "\<not> required \<le> inl" using big None by (simp add: slot_capacity_def)
  have so: "slot_size s \<le> length (slot_inline s)" "slot_size s \<le> inl"
    using ok h None by (auto simp: ring_ok_def held_list_def slot_ok_def slot_data_def slot_capacity_def)
  note pok = ring_okD(3) [OF ok]
  show ?thesis
  proof (cases fl)
    case Nil
    then have "p' = mr_pool r" "s' = s" "res = PoolExhausted" "pool_head (mr_pool r) = None"
      using pr None big' pool_acquire_facts(1) [OF pok] pok by (auto simp: promote_if_needed_def pool_ok_def)
    then show ?thesis using ok held_unchanged [OF h] by (auto simp: reserve_spec_def same_blocks_def)
  next
    case (Cons n fl')
    obtain p1 where p1: "pool_acquire (mr_pool r) = (p1, Some n)" "pool_ok p1 fl'"
      "pool_block_count p1 = pool_block_count (mr_pool r)" "pool_block_size p1 = pool_block_size (mr_pool r)"
      "pool_blocks p1 = (pool_blocks (mr_pool r))(n := block_reset (pool_blocks (mr_pool r) n))"
      using pool_acquire_facts(2) [OF pok Cons] by blast
    let ?b = "(pool_blocks p1 n)\<lparr>blk_data := mem_write 0 (take (slot_size s) (slot_inline s)) (blk_data (pool_blocks p1 n)),
        blk_size := slot_size s\<rparr>"
    have p': "p' = p1\<lparr>pool_blocks := (pool_blocks p1)(n := ?b)\<rparr>" "s' = s\<lparr>slot_external := Some n\<rparr>"
      and res: "res = (if required \<le> slot_capacity inl p' s' then PromotionSuccess else TooLarge)"
      using pr None big' p1(1) by (auto simp: promote_if_needed_def)
    have c: "slot_capacity inl p' s' = pool_block_size (mr_pool r)"
      using p1(2,4) by (simp add: p' slot_capacity_def pool_ok_def)
    have nr: "n \<notin> set (blocks_of (mr_ready r))" using ring_okD(1) [OF ok] Cons by auto
    then have same: "same_blocks (mr_ready r) (mr_pool r) p'" by (auto simp: same_blocks_def p' p1(5))
    have view: "slot_view p' s' = slot_view (mr_pool r) s"
      using None so(1) by (simp add: slot_view_def slot_data_def p' mem_write_def)
    have "inl \<le> pool_block_size (mr_pool r)" using ok by (simp add: ring_ok_def)
    then have "slot_ok inl p' s'" using so c by (simp add: slot_ok_def slot_data_def p' mem_write_def)
    moreover have "pool_ok p' fl'" using p1(2) by (simp add: p' pool_ok_def)
    moreover have "mset (fl' @ n # blocks_of (mr_ready r)) = mset [0..<pool_block_count (mr_pool r)]"
      using ok h None Cons by (simp add: ring_ok_def held_list_def)
    ultimately have "ring_ok inl cap (r\<lparr>mr_pool := p', mr_held := Some s'\<rparr>) fl'"
      using ok h p1(3,4) same_blocks_views(2) [OF same, of inl]
      by (auto simp: ring_ok_def held_list_def p')
    moreover have "reserve_spec inl len r s p' s' res"
      using view same res c req by (auto simp: reserve_spec_def slot_remaining_def p' split: if_splits)
    ultimately show ?thesis by blast
  qed
qed

lemma mr_reserve_facts:
  assumes ok: "ring_ok inl cap r fl" and h: "mr_held r = Some s" and m: "mr < 2 ^ 63"
  shows "\<exists>p' s' res. mr_reserve inl mr len r = (r\<lparr>mr_pool := p', mr_held := Some s'\<rparr>, res) \<and>
    reserve_spec inl len r s p' s' res \<and> (\<exists>fl'. ring_ok inl cap (r\<lparr>mr_pool := p', mr_held := Some s'\<rparr>) fl')"
proof -
  obtain p' s' res where sr: "slot_reserve inl mr len (mr_pool r) s = (p', s', res)" by (metis prod_cases3)
  have z: "slot_size s < 2 ^ 63" using held_size_bound [OF ok h] .
  have eq: "mr_reserve inl mr len r = (r\<lparr>mr_pool := p', mr_held := Some s'\<rparr>, res)"
    using h sr by (simp add: mr_reserve_def)
  note same = held_unchanged [OF h]
  have "reserve_spec inl len r s p' s' res \<and> (\<exists>fl'. ring_ok inl cap (r\<lparr>mr_pool := p', mr_held := Some s'\<rparr>) fl')"
  proof (cases "len > mr")
    case True
    then have "p' = mr_pool r" "s' = s" "res = TooLarge" using sr by (simp_all add: slot_reserve_def)
    then show ?thesis using ok same by (auto simp: reserve_spec_def same_blocks_def)
  next
    case False
    then have w: "(slot_size s + len) mod 2 ^ 64 = slot_size s + len" using m z by simp
    consider (large) "slot_size s + len > mr" | (fits) "slot_size s + len \<le> mr" "slot_size s + len \<le> slot_capacity inl (mr_pool r) s"
      | (promote) "slot_size s + len \<le> mr" "slot_capacity inl (mr_pool r) s < slot_size s + len" by linarith
    then show ?thesis
    proof cases
      case large
      then have "p' = mr_pool r" "s' = s" "res = TooLarge" using sr False w by (simp_all add: slot_reserve_def)
      then show ?thesis using ok same by (auto simp: reserve_spec_def same_blocks_def)
    next
      case fits
      then have "p' = mr_pool r" "s' = s" "res = PromotionNone" using sr False w by (simp_all add: slot_reserve_def)
      then show ?thesis using ok same fits by (auto simp: reserve_spec_def same_blocks_def slot_remaining_def)
    next
      case promote
      then have "promote_if_needed inl (slot_size s + len) (mr_pool r) s = (p', s', res)"
        using sr False w by (simp add: slot_reserve_def)
      from promote_facts [OF ok h refl promote(2) this] show ?thesis by blast
    qed
  qed
  with eq show ?thesis by blast
qed

text \<open>Resetting a slot whose block nobody else has returns the block to the pool.\<close>

lemma slot_reset_facts:
  assumes pok: "pool_ok p fl" and n: "\<And>n. slot_external s = Some n \<Longrightarrow> n \<notin> set fl \<and> n < pool_block_count p"
    and sr: "slot_reset p s = (p', s')"
  shows "slot_empty s'" and "pool_ok p' ((case slot_external s of None \<Rightarrow> [] | Some n \<Rightarrow> [n]) @ fl)"
    and "pool_blocks p' = pool_blocks p" and "pool_block_count p' = pool_block_count p"
    and "pool_block_size p' = pool_block_size p"
  using assms pool_release_facts [OF pok] by (auto simp: slot_reset_def slot_empty_def split: option.splits)

lemma mr_discard_facts:
  assumes ok: "ring_ok inl cap r fl" and h: "mr_held r = Some s"
  shows "\<exists>p' s'. mr_discard_producer_slot r = r\<lparr>mr_pool := p', mr_held := None, mr_free := s' # mr_free r\<rparr> \<and>
    pool_blocks p' = pool_blocks (mr_pool r) \<and> (\<exists>fl'. ring_ok inl cap (mr_discard_producer_slot r) fl')"
proof -
  obtain p' s' where sr: "slot_reset (mr_pool r) s = (p', s')" by fastforce
  note R = slot_reset_facts [OF ring_okD(3) [OF ok] _ sr]
  have n: "n \<notin> set fl \<and> n < pool_block_count (mr_pool r)" if "slot_external s = Some n" for n
    using held_block_private [OF ok h that] by simp
  have eq: "mr_discard_producer_slot r = r\<lparr>mr_pool := p', mr_held := None, mr_free := s' # mr_free r\<rparr>"
    using h sr by (simp add: mr_discard_producer_slot_def)
  have same: "same_blocks (mr_ready r) (mr_pool r) p'" using R(3) n by (simp add: same_blocks_def)
  have "ring_ok inl cap (mr_discard_producer_slot r) ((case slot_external s of None \<Rightarrow> [] | Some n \<Rightarrow> [n]) @ fl)"
    using ok h R n same_blocks_views(2) [OF same, of inl]
    by (auto simp: eq ring_ok_def held_list_def ac_simps split: option.splits)
  then show ?thesis using eq R(3) n by auto
qed

lemma mr_release_facts:
  assumes ok: "ring_ok inl cap r fl" and r: "mr_ready r = s # ss"
  shows "\<exists>p' s'. mr_release_consumer_slot r = r\<lparr>mr_pool := p', mr_ready := ss, mr_free := mr_free r @ [s']\<rparr> \<and>
    pool_blocks p' = pool_blocks (mr_pool r) \<and> (\<exists>fl'. ring_ok inl cap (mr_release_consumer_slot r) fl')"
proof -
  obtain p' s' where sr: "slot_reset (mr_pool r) s = (p', s')" by fastforce
  note R = slot_reset_facts [OF ring_okD(3) [OF ok] _ sr]
  have n: "n \<notin> set fl \<and> n < pool_block_count (mr_pool r)" if "slot_external s = Some n" for n
    using ring_okD(1,2) [OF ok] r that by auto
  have eq: "mr_release_consumer_slot r = r\<lparr>mr_pool := p', mr_ready := ss, mr_free := mr_free r @ [s']\<rparr>"
    using r sr by (simp add: mr_release_consumer_slot_def)
  have same: "same_blocks (held_list r @ ss) (mr_pool r) p'" using R(3) n by (simp add: same_blocks_def)
  have "ring_ok inl cap (mr_release_consumer_slot r) ((case slot_external s of None \<Rightarrow> [] | Some n \<Rightarrow> [n]) @ fl)"
    using ok r R n same_blocks_views(2) [OF same, of inl]
    by (auto simp: eq ring_ok_def held_list_def ac_simps split: option.splits)
  then show ?thesis using eq R(3) n by auto
qed

section \<open>The ring as a queue of messages\<close>

definition mr_messages :: "managed_ring \<Rightarrow> string list" where
  "mr_messages r = map (slot_view (mr_pool r)) (mr_ready r)"

definition mr_partial :: "managed_ring \<Rightarrow> string option" where
  "mr_partial r = map_option (slot_view (mr_pool r)) (mr_held r)"

definition mr_good :: "nat \<Rightarrow> nat \<Rightarrow> managed_ring \<Rightarrow> bool" where
  "mr_good inl cap r \<longleftrightarrow> (\<exists>fl. ring_ok inl cap r fl)"

definition held_room :: "nat \<Rightarrow> managed_ring \<Rightarrow> nat" where
  "held_room inl r = (case mr_held r of None \<Rightarrow> 0 | Some s \<Rightarrow> slot_remaining inl (mr_pool r) s)"

lemma messages_same:
  "same_blocks (mr_ready r) (mr_pool r) p' \<Longrightarrow> map (slot_view p') (mr_ready r) = mr_messages r"
  by (simp add: mr_messages_def same_blocks_views(1))

lemma slot_view_blocks: "pool_blocks p' = pool_blocks p \<Longrightarrow> slot_view p' = slot_view p"
  by (rule ext) (simp add: slot_view_def slot_data_def split: option.split)

lemma acquire_messages:
  assumes "mr_good inl cap r" and "mr_held r = None" and "mr_acquire_producer_slot cap r = (r', b)"
  shows "mr_good inl cap r'" and "b \<longleftrightarrow> length (mr_messages r) < cap - 1" and "mr_messages r' = mr_messages r"
    and "mr_partial r' = (if b then Some [] else None)" and "\<not> b \<Longrightarrow> r' = r" and "b \<Longrightarrow> held_room inl r' = inl"
proof -
  obtain fl where ok: "ring_ok inl cap r fl" using assms(1) by (auto simp: mr_good_def)
  note A = mr_acquire_facts [OF ok assms(2)]
  have "mr_good inl cap r' \<and> (b \<longleftrightarrow> length (mr_messages r) < cap - 1) \<and> mr_messages r' = mr_messages r \<and>
    mr_partial r' = (if b then Some [] else None) \<and> (\<not> b \<longrightarrow> r' = r) \<and> (b \<longrightarrow> held_room inl r' = inl)"
  proof (cases "mr_full cap r")
    case True
    then show ?thesis using A(1) assms by (auto simp: mr_good_def mr_full_def mr_messages_def mr_partial_def)
  next
    case False
    then obtain s fs where s: "slot_empty s" "r' = r\<lparr>mr_free := fs, mr_held := Some s\<rparr>" "b"
      "ring_ok inl cap (r\<lparr>mr_free := fs, mr_held := Some s\<rparr>) fl" using A(2) assms(3) by auto
    then show ?thesis using False
      by (auto simp: mr_good_def mr_full_def mr_messages_def mr_partial_def slot_view_def slot_empty_def
          held_room_def slot_remaining_def slot_capacity_def)
  qed
  then show "mr_good inl cap r'" "b \<longleftrightarrow> length (mr_messages r) < cap - 1" "mr_messages r' = mr_messages r"
    "mr_partial r' = (if b then Some [] else None)" "\<not> b \<Longrightarrow> r' = r" "b \<Longrightarrow> held_room inl r' = inl" by blast+
qed

lemma append_messages:
  assumes "mr_good inl cap r" and "mr_partial r = Some m" and "length bs \<le> held_room inl r"
  shows "mr_good inl cap (mr_append bs r)" and "mr_messages (mr_append bs r) = mr_messages r"
    and "mr_partial (mr_append bs r) = Some (m @ bs)"
proof -
  obtain fl s where ok: "ring_ok inl cap r fl" and h: "mr_held r = Some s" and m: "m = slot_view (mr_pool r) s"
    using assms(1,2) by (auto simp: mr_good_def mr_partial_def)
  have "length bs \<le> slot_remaining inl (mr_pool r) s" using assms(3) h by (simp add: held_room_def)
  from mr_append_facts [OF ok h this] obtain p' s' where
    eq: "mr_append bs r = r\<lparr>mr_pool := p', mr_held := Some s'\<rparr>" and ok': "ring_ok inl cap (mr_append bs r) fl"
    and v: "slot_view p' s' = slot_view (mr_pool r) s @ bs" and same: "same_blocks (mr_ready r) (mr_pool r) p'"
    by blast
  show "mr_good inl cap (mr_append bs r)" using ok' by (auto simp: mr_good_def)
  show "mr_messages (mr_append bs r) = mr_messages r" using messages_same [OF same] by (simp add: eq mr_messages_def)
  show "mr_partial (mr_append bs r) = Some (m @ bs)" using v m by (simp add: eq mr_partial_def)
qed

lemma commit_messages:
  assumes "mr_good inl cap r" and "mr_partial r = Some m"
  shows "mr_good inl cap (mr_commit_producer_slot r)" and "mr_messages (mr_commit_producer_slot r) = mr_messages r @ [m]"
    and "mr_partial (mr_commit_producer_slot r) = None"
proof -
  obtain fl s where ok: "ring_ok inl cap r fl" and h: "mr_held r = Some s" and m: "m = slot_view (mr_pool r) s"
    using assms by (auto simp: mr_good_def mr_partial_def)
  note C = mr_commit_facts [OF ok h]
  show "mr_good inl cap (mr_commit_producer_slot r)" "mr_messages (mr_commit_producer_slot r) = mr_messages r @ [m]"
    "mr_partial (mr_commit_producer_slot r) = None" using C m by (auto simp: mr_good_def mr_messages_def mr_partial_def)
qed

lemma discard_messages:
  assumes "mr_good inl cap r" and "mr_partial r = Some m"
  shows "mr_good inl cap (mr_discard_producer_slot r)" and "mr_messages (mr_discard_producer_slot r) = mr_messages r"
    and "mr_partial (mr_discard_producer_slot r) = None"
proof -
  obtain fl s where ok: "ring_ok inl cap r fl" and h: "mr_held r = Some s"
    using assms by (auto simp: mr_good_def mr_partial_def)
  from mr_discard_facts [OF ok h] obtain p' s' where
    d: "mr_discard_producer_slot r = r\<lparr>mr_pool := p', mr_held := None, mr_free := s' # mr_free r\<rparr>"
    "pool_blocks p' = pool_blocks (mr_pool r)" "\<exists>fl'. ring_ok inl cap (mr_discard_producer_slot r) fl'" by blast
  show "mr_good inl cap (mr_discard_producer_slot r)" using d(3) by (simp add: mr_good_def)
  show "mr_messages (mr_discard_producer_slot r) = mr_messages r" "mr_partial (mr_discard_producer_slot r) = None"
    by (simp_all add: d(1) mr_messages_def mr_partial_def slot_view_blocks [OF d(2)])
qed

lemma release_messages:
  assumes "mr_good inl cap r"
  shows "mr_good inl cap (mr_release_consumer_slot r)" and "mr_messages (mr_release_consumer_slot r) = tl (mr_messages r)"
    and "mr_partial (mr_release_consumer_slot r) = mr_partial r"
proof -
  have "mr_good inl cap (mr_release_consumer_slot r) \<and> mr_messages (mr_release_consumer_slot r) = tl (mr_messages r) \<and>
    mr_partial (mr_release_consumer_slot r) = mr_partial r"
  proof (cases "mr_ready r")
    case Nil
    then show ?thesis using assms by (simp add: mr_release_consumer_slot_def mr_messages_def)
  next
    case (Cons s ss)
    obtain fl where ok: "ring_ok inl cap r fl" using assms by (auto simp: mr_good_def)
    from mr_release_facts [OF ok Cons] obtain p' s' where
      d: "mr_release_consumer_slot r = r\<lparr>mr_pool := p', mr_ready := ss, mr_free := mr_free r @ [s']\<rparr>"
      "pool_blocks p' = pool_blocks (mr_pool r)" "\<exists>fl'. ring_ok inl cap (mr_release_consumer_slot r) fl'" by blast
    have "mr_good inl cap (mr_release_consumer_slot r)" using d(3) by (simp add: mr_good_def)
    then show ?thesis by (simp add: d(1) Cons mr_messages_def mr_partial_def slot_view_blocks [OF d(2)])
  qed
  then show "mr_good inl cap (mr_release_consumer_slot r)" "mr_messages (mr_release_consumer_slot r) = tl (mr_messages r)"
    "mr_partial (mr_release_consumer_slot r) = mr_partial r" by blast+
qed

lemma reserve_messages:
  assumes "mr_good inl cap r" and "mr_partial r = Some m" and "mr < 2 ^ 63" and "mr_reserve inl mr len r = (r', res)"
  shows "mr_good inl cap r'" and "mr_messages r' = mr_messages r" and "mr_partial r' = Some m"
    and "res \<in> {PromotionNone, PromotionSuccess} \<Longrightarrow> len \<le> held_room inl r'"
proof -
  obtain fl s where ok: "ring_ok inl cap r fl" and h: "mr_held r = Some s" and m: "m = slot_view (mr_pool r) s"
    using assms by (auto simp: mr_good_def mr_partial_def)
  from mr_reserve_facts [OF ok h assms(3), of len] assms(4) obtain p' s' where
    eq: "r' = r\<lparr>mr_pool := p', mr_held := Some s'\<rparr>" and R: "reserve_spec inl len r s p' s' res"
    and ok': "\<exists>fl'. ring_ok inl cap r' fl'" by auto
  show "mr_good inl cap r'" using ok' by (simp add: mr_good_def)
  show "mr_messages r' = mr_messages r" using R messages_same by (simp add: eq mr_messages_def reserve_spec_def)
  show "mr_partial r' = Some m" using R m by (simp add: eq mr_partial_def reserve_spec_def)
  show "res \<in> {PromotionNone, PromotionSuccess} \<Longrightarrow> len \<le> held_room inl r'"
    using R by (simp add: eq held_room_def reserve_spec_def)
qed

lemma pool_usage:
  assumes "mr_good inl cap r"
  shows "pool_used (mr_pool r) = of_nat (length (blocks_of (held_list r @ mr_ready r)))"
proof -
  obtain fl where ok: "ring_ok inl cap r fl" using assms by (auto simp: mr_good_def)
  have "length (fl @ blocks_of (held_list r @ mr_ready r)) = length [0..<pool_block_count (mr_pool r)]"
    using ok by (intro mset_eq_length) (simp add: ring_ok_def)
  then have "pool_block_count (mr_pool r) - length fl = length (blocks_of (held_list r @ mr_ready r))" by simp
  with pool_used_eq [OF ring_okD(3) [OF ok]] show ?thesis by simp
qed

section \<open>The interface to the producer\<close>

text \<open>
  What a producer of messages relies on: a held slot collects a message piece by piece, a commit
  publishes it after the messages published before it, a discard forgets it.
\<close>

locale message_store =
  fixes good :: "'r \<Rightarrow> bool" and msgs :: "'r \<Rightarrow> string list" and part :: "'r \<Rightarrow> string option"
    and room :: "'r \<Rightarrow> nat" and put :: "string \<Rightarrow> 'r \<Rightarrow> 'r" and publish :: "'r \<Rightarrow> 'r" and forget :: "'r \<Rightarrow> 'r"
  assumes put_laws: "good r \<Longrightarrow> part r = Some m \<Longrightarrow> length bs \<le> room r \<Longrightarrow>
      good (put bs r) \<and> msgs (put bs r) = msgs r \<and> part (put bs r) = Some (m @ bs)"
    and publish_laws: "good r \<Longrightarrow> part r = Some m \<Longrightarrow>
      good (publish r) \<and> msgs (publish r) = msgs r @ [m] \<and> part (publish r) = None"
    and forget_laws: "good r \<Longrightarrow> part r = Some m \<Longrightarrow>
      good (forget r) \<and> msgs (forget r) = msgs r \<and> part (forget r) = None"
begin

text \<open>The pieces of one message, each written where there is room for it.\<close>

fun put_all :: "string list \<Rightarrow> 'r \<Rightarrow> 'r" where
  "put_all [] r = r"
| "put_all (bs # bss) r = put_all bss (put bs r)"

fun fits_all :: "string list \<Rightarrow> 'r \<Rightarrow> bool" where
  "fits_all [] r = True"
| "fits_all (bs # bss) r = (length bs \<le> room r \<and> fits_all bss (put bs r))"

lemma put_all_laws:
  "good r \<Longrightarrow> part r = Some m \<Longrightarrow> fits_all bss r \<Longrightarrow>
   good (put_all bss r) \<and> msgs (put_all bss r) = msgs r \<and> part (put_all bss r) = Some (m @ concat bss)"
proof (induction bss arbitrary: r m)
  case (Cons bs bss)
  then show ?case using put_laws [of r m bs] by simp
qed simp

lemma assemble:
  assumes "good r" and "part r = Some m" and "fits_all bss r"
  shows "msgs (publish (put_all bss r)) = msgs r @ [m @ concat bss] \<and> good (publish (put_all bss r))"
  using put_all_laws [OF assms] publish_laws by simp

end

interpretation ring_store: message_store "mr_good inl cap" mr_messages mr_partial "held_room inl" mr_append
    mr_commit_producer_slot mr_discard_producer_slot
  for inl cap
  by unfold_locales (simp_all add: append_messages commit_messages discard_messages)

section \<open>Properties\<close>

text \<open>C22: the managed ring is a bounded FIFO of messages with one message under
  construction. Every operation acts on the byte contents as specified and leaves the other messages alone, although
  inline buffers are promoted to pooled blocks on the way; a successful reservation guarantees the room
  asked for; and the pool's usage count is the number of promoted messages in the ring, so no
  block leaks.\<close>

theorem managed_ring_is_message_queue:
  assumes "mr_good inl cap r" and "mr < 2 ^ 63"
  shows "pool_used (mr_pool r) = of_nat (length (blocks_of (held_list r @ mr_ready r))) \<and>
    (mr_partial r = None \<longrightarrow> (case mr_acquire_producer_slot cap r of (r', b) \<Rightarrow> mr_good inl cap r' \<and>
       (b \<longleftrightarrow> length (mr_messages r) < cap - 1) \<and> mr_messages r' = mr_messages r \<and>
       mr_partial r' = (if b then Some [] else None))) \<and>
    (\<forall>m. mr_partial r = Some m \<longrightarrow>
       (case mr_reserve inl mr len r of (r', res) \<Rightarrow> mr_good inl cap r' \<and> mr_messages r' = mr_messages r \<and>
          mr_partial r' = Some m \<and> (res \<in> {PromotionNone, PromotionSuccess} \<longrightarrow> len \<le> held_room inl r')) \<and>
       (length bs \<le> held_room inl r \<longrightarrow> mr_good inl cap (mr_append bs r) \<and>
          mr_messages (mr_append bs r) = mr_messages r \<and> mr_partial (mr_append bs r) = Some (m @ bs)) \<and>
       (mr_messages (mr_commit_producer_slot r) = mr_messages r @ [m] \<and> mr_good inl cap (mr_commit_producer_slot r)) \<and>
       (mr_messages (mr_discard_producer_slot r) = mr_messages r \<and> mr_partial (mr_discard_producer_slot r) = None \<and>
          mr_good inl cap (mr_discard_producer_slot r))) \<and>
    mr_good inl cap (mr_release_consumer_slot r) \<and> mr_messages (mr_release_consumer_slot r) = tl (mr_messages r) \<and>
    mr_partial (mr_release_consumer_slot r) = mr_partial r"
proof (intro conjI allI impI)
  show "pool_used (mr_pool r) = of_nat (length (blocks_of (held_list r @ mr_ready r)))" by (rule pool_usage [OF assms(1)])
  assume "mr_partial r = None"
  then have h: "mr_held r = None" by (simp add: mr_partial_def)
  obtain r' b where e: "mr_acquire_producer_slot cap r = (r', b)" by fastforce
  from acquire_messages(1-4) [OF assms(1) h e] show "case mr_acquire_producer_slot cap r of (r', b) \<Rightarrow> mr_good inl cap r' \<and>
      (b \<longleftrightarrow> length (mr_messages r) < cap - 1) \<and> mr_messages r' = mr_messages r \<and>
      mr_partial r' = (if b then Some [] else None)" unfolding e by blast
next
  fix m assume m: "mr_partial r = Some m"
  obtain r' res where e: "mr_reserve inl mr len r = (r', res)" by fastforce
  from reserve_messages [OF assms(1) m assms(2) e] show "case mr_reserve inl mr len r of (r', res) \<Rightarrow>
      mr_good inl cap r' \<and> mr_messages r' = mr_messages r \<and> mr_partial r' = Some m \<and>
      (res \<in> {PromotionNone, PromotionSuccess} \<longrightarrow> len \<le> held_room inl r')" unfolding e by blast
qed (simp_all only: append_messages [OF assms(1)] commit_messages [OF assms(1)] discard_messages [OF assms(1)]
    release_messages [OF assms(1)])

theorem managed_ring_is_message_queue_witness:
  "mr_messages (mr_commit_producer_slot (mr_append ''cd'' (fst (mr_reserve 2 100 2 (mr_append ''ab''
     (fst (mr_acquire_producer_slot 4 (managed_ring_init 4 (block_pool_init 8 1))))))))) = [''abcd'']"
proof -
  let ?r0 = "managed_ring_init 4 (block_pool_init 8 1)"
  let ?r1 = "fst (mr_acquire_producer_slot 4 ?r0)"
  let ?r2 = "mr_append ''ab'' ?r1"
  let ?r3 = "fst (mr_reserve 2 100 2 ?r2)"
  let ?r4 = "mr_append ''cd'' ?r3"
  have four: "replicate 4 x = [x, x, x, x]" for x :: managed_slot by (simp add: numeral_eq_Suc)
  have g0: "mr_good 2 4 ?r0" using ring_init_ok [of 4 2 8 1] by (auto simp: mr_good_def)
  have p: "mr_partial ?r0 = None" "mr_partial ?r1 = Some []" "mr_partial ?r2 = Some ''ab''" "mr_partial ?r3 = Some ''ab''"
    "mr_partial ?r4 = Some ''abcd''" "held_room 2 ?r1 = 2" "held_room 2 ?r3 = 6" "mr_messages ?r4 = []"
    by (simp_all add: managed_ring_init_def block_pool_init_def push_node_def mr_acquire_producer_slot_def mr_full_def
        mr_append_def slot_write_bytes_def slot_commit_def mr_reserve_def slot_reserve_def slot_capacity_def
        promote_if_needed_def pool_acquire_def pop_node_def block_reset_def block_init_def slot_init_def mem_write_def
        mr_partial_def slot_view_def slot_data_def held_room_def slot_remaining_def mr_messages_def four)
  have "mr_held ?r0 = None" using p(1) by (simp add: mr_partial_def)
  from acquire_messages(1) [OF g0 this surjective_pairing] have g1: "mr_good 2 4 ?r1" .
  have g2: "mr_good 2 4 ?r2" using append_messages(1) [OF g1 p(2)] p(6) by simp
  from reserve_messages(1) [OF g2 p(3) _ surjective_pairing, of 100] have g3: "mr_good 2 4 ?r3" by simp
  have g4: "mr_good 2 4 ?r4" using append_messages(1) [OF g3 p(4)] p(7) by simp
  show ?thesis using managed_ring_is_message_queue [OF g4, of 100] p(5,8) by simp
qed

end
