(* ===== verification/Ws_Engine.thy ===== *)
theory Ws_Engine
  imports Managed_Ring Control Connection
begin

text \<open>
  \<^verbatim>\<open>transport::websocket::Engine\<close> (websocket/engine.hpp): the receive loop that turns the reads
  of a socket backend into messages in the managed ring and control events in the control ring, with the
  backpressure policy. The backend is the template argument; its reads come
  from the environment, as do the consumer's releases of messages while the loop spins, the control events
  the session takes, and the moment another thread calls \<^verbatim>\<open>close()\<close>.
  Ghost fields record every event the engine tried to emit, every read it used and every message it
  published.
\<close>

section \<open>Types\<close>

datatype backpressure_mode = ZeroTolerance | StrictMode | RelaxedMode | CustomMode

record bp_policy =
  bp_mode :: backpressure_mode
  bp_spins :: nat
  bp_activate :: u32
  bp_deactivate :: u32

definition bp_zero_tolerance :: bp_policy where
  "bp_zero_tolerance = \<lparr>bp_mode = ZeroTolerance, bp_spins = 1, bp_activate = 0, bp_deactivate = 0\<rparr>"

definition bp_strict :: bp_policy where
  "bp_strict = \<lparr>bp_mode = StrictMode, bp_spins = 32, bp_activate = 1, bp_deactivate = 1024\<rparr>"

definition bp_relaxed :: bp_policy where
  "bp_relaxed = \<lparr>bp_mode = RelaxedMode, bp_spins = 32, bp_activate = 1024, bp_deactivate = 1024\<rparr>"

definition bp_custom :: "nat \<Rightarrow> u32 \<Rightarrow> u32 \<Rightarrow> bp_policy" where
  "bp_custom spins a d = \<lparr>bp_mode = CustomMode, bp_spins = spins, bp_activate = a, bp_deactivate = d\<rparr>"

record engine_cfg =
  cfg_policy :: bp_policy
  cfg_inline :: nat
  cfg_max_reserve :: nat
  cfg_hint :: nat
  cfg_capacity :: nat

datatype receive_status = RsOk | RsTimeout | RsProtocolError | RsTransportError

datatype frame_type = Fragment | Message | CloseFrame

datatype backend_error =
    BeNone | BeLocalShutdown | BeRemoteClosed | BeTimeout | BeConnectionFailed | BeProtocolError | BeTransportFailure

record read_result =
  rr_status :: receive_status
  rr_bytes :: string
  rr_frame :: frame_type
  rr_error :: backend_error

record engine =
  e_ring_bp :: binary_hysteresis
  e_pool_bp :: binary_hysteresis
  e_bp_active :: bool
  e_running :: bool
  e_closed :: bool
  e_close_signaled :: bool
  e_control :: "ws_event list"
  e_ring :: managed_ring
  e_log :: "ws_event list"
  e_reads :: "read_result list"
  e_published :: "string list"

definition Engine_init :: "ws_event list \<Rightarrow> managed_ring \<Rightarrow> engine" where
  "Engine_init ctrl ring = \<lparr>e_ring_bp = BinaryHysteresis_init, e_pool_bp = BinaryHysteresis_init, e_bp_active = False,
     e_running = False, e_closed = False, e_close_signaled = False, e_control = ctrl, e_ring = ring,
     e_log = [], e_reads = [], e_published = []\<rparr>"

section \<open>Events\<close>

definition emit_event :: "ws_event \<Rightarrow> engine \<Rightarrow> engine \<times> bool" where
  "emit_event ev e =
     (let (ctrl, pushed) = bq_push (CONTROL_RING_CAPACITY - 1) (e_control e) ev in
      (e\<lparr>e_control := ctrl, e_log := e_log e @ [ev]\<rparr>, pushed))"

definition signal_close :: "engine \<Rightarrow> engine" where
  "signal_close e = (if e_close_signaled e then e else fst (emit_event WsClose (e\<lparr>e_close_signaled := True\<rparr>)))"

definition handle_fatal_error :: "transport_error \<Rightarrow> engine \<Rightarrow> engine" where
  "handle_fatal_error err e =
     (if \<not> e_running e then e
      else signal_close (fst (emit_event (WsError err) (e\<lparr>e_running := False\<rparr>))))"

definition emit_backpressure_detected :: "engine \<Rightarrow> engine" where
  "emit_backpressure_detected e =
     (let (e1, pushed) = emit_event WsBackpressureDetected e in
      if pushed then e1 else handle_fatal_error Backpressure e1)"

definition emit_backpressure_cleared :: "engine \<Rightarrow> engine" where
  "emit_backpressure_cleared e = fst (emit_event WsBackpressureCleared e)"

definition update_backpressure_state :: "engine \<Rightarrow> engine" where
  "update_backpressure_state e =
     (let active = (hysteresis_is_active (e_ring_bp e) \<or> hysteresis_is_active (e_pool_bp e)) in
      if active = e_bp_active e then e
      else let e1 = e\<lparr>e_bp_active := active\<rparr> in
        if active then emit_backpressure_detected e1 else emit_backpressure_cleared e1)"

section \<open>Slots\<close>

text \<open>
  The spin loops. Before each attempt the consumer may have released some messages: their numbers are
  the environment's list.
\<close>

definition releases :: "nat list \<Rightarrow> managed_ring \<Rightarrow> managed_ring" where
  "releases rel r = (case rel of [] \<Rightarrow> r | n # _ \<Rightarrow> (mr_release_consumer_slot ^^ n) r)"

fun spin_acquire :: "nat \<Rightarrow> nat \<Rightarrow> nat list \<Rightarrow> managed_ring \<Rightarrow> managed_ring \<times> bool" where
  "spin_acquire cap 0 rel r = (r, False)"
| "spin_acquire cap (Suc n) rel r =
     (let (r1, ok) = mr_acquire_producer_slot cap (releases rel r) in
      if ok then (r1, True) else spin_acquire cap n (tl rel) r1)"

fun spin_reserve :: "engine_cfg \<Rightarrow> nat \<Rightarrow> nat list \<Rightarrow> promotion_result \<Rightarrow> managed_ring \<Rightarrow> managed_ring \<times> promotion_result" where
  "spin_reserve cfg 0 rel res r = (r, res)"
| "spin_reserve cfg (Suc n) rel res r =
     (let (r1, res1) = mr_reserve (cfg_inline cfg) (cfg_max_reserve cfg) (cfg_hint cfg) (releases rel r) in
      if res1 \<in> {PromotionNone, PromotionSuccess} then (r1, res1) else spin_reserve cfg n (tl rel) res1 r1)"

definition acquire_slot :: "engine_cfg \<Rightarrow> nat list \<Rightarrow> engine \<Rightarrow> engine \<times> bool" where
  "acquire_slot cfg rel e =
     (let pol = cfg_policy cfg;
          (r, ok) = spin_acquire (cfg_capacity cfg) (bp_spins pol) rel (e_ring e);
          e1 = e\<lparr>e_ring := r\<rparr> in
      if \<not> ok then
        if bp_mode pol = ZeroTolerance then (handle_fatal_error Backpressure e1, False)
        else let (h, tr) = on_active_signal (bp_activate pol) (e_ring_bp e1);
                 e2 = e1\<lparr>e_ring_bp := h\<rparr> in
          (if tr = Activated then update_backpressure_state e2 else e2, False)
      else if bp_mode pol = ZeroTolerance then (e1, True)
      else let (h, tr) = on_inactive_signal (bp_deactivate pol) (e_ring_bp e1);
               e2 = e1\<lparr>e_ring_bp := h\<rparr> in
        (if tr = Deactivated then update_backpressure_state e2 else e2, True))"

definition promote_slot :: "engine_cfg \<Rightarrow> nat list \<Rightarrow> engine \<Rightarrow> engine \<times> bool" where
  "promote_slot cfg rel e =
     (let pol = cfg_policy cfg;
          (r, res) = spin_reserve cfg (bp_spins pol) rel PoolExhausted (e_ring e);
          e1 = e\<lparr>e_ring := r\<rparr> in
      if res \<notin> {PromotionNone, PromotionSuccess} then
        if bp_mode pol = ZeroTolerance then
          (let e2 = handle_fatal_error Backpressure e1 in
           (e2\<lparr>e_ring := mr_discard_producer_slot (e_ring e2)\<rparr>, False))
        else let (h, tr) = on_active_signal (bp_activate pol) (e_pool_bp e1);
                 e2 = e1\<lparr>e_pool_bp := h\<rparr> in
          (if tr = Activated then update_backpressure_state e2 else e2, False)
      else if bp_mode pol = ZeroTolerance then (e1, True)
      else let (h, tr) = on_inactive_signal (bp_deactivate pol) (e_pool_bp e1);
               e2 = e1\<lparr>e_pool_bp := h\<rparr> in
        (if tr = Deactivated then update_backpressure_state e2 else e2, True))"

section \<open>The receive loop\<close>

definition map_backend_error :: "read_result \<Rightarrow> transport_error" where
  "map_backend_error rr = (case rr_error rr of
      BeNone \<Rightarrow> (case rr_status rr of RsTimeout \<Rightarrow> Timeout | RsProtocolError \<Rightarrow> ProtocolError | _ \<Rightarrow> TransportFailure)
    | BeLocalShutdown \<Rightarrow> LocalShutdown
    | BeRemoteClosed \<Rightarrow> RemoteClosed
    | BeTimeout \<Rightarrow> Timeout
    | BeConnectionFailed \<Rightarrow> ConnectionFailed
    | BeProtocolError \<Rightarrow> ProtocolError
    | BeTransportFailure \<Rightarrow> TransportFailure)"

definition stop_with :: "transport_error \<Rightarrow> engine \<Rightarrow> engine" where
  "stop_with err e = (fst (emit_event (WsError err) e))\<lparr>e_running := False\<rparr>"

text \<open>The part of an iteration after \<^verbatim>\<open>read_some\<close> has returned.\<close>

definition handle_read :: "read_result \<Rightarrow> engine \<Rightarrow> engine" where
  "handle_read rr e0 =
     (let e = e0\<lparr>e_reads := e_reads e0 @ [rr]\<rparr> in
      if rr_status rr \<noteq> RsOk then stop_with (map_backend_error rr) e
      else if rr_frame rr = CloseFrame then
        (if rr_error rr \<noteq> BeNone \<and> rr_error rr \<noteq> BeLocalShutdown then stop_with (map_backend_error rr) e
         else e\<lparr>e_running := False\<rparr>)
      else if rr_bytes rr = [] then stop_with ProtocolError e
      else
        let e1 = e\<lparr>e_ring := mr_append (rr_bytes rr) (e_ring e)\<rparr> in
        if rr_frame rr = Message then
          e1\<lparr>e_ring := mr_commit_producer_slot (e_ring e1),
             e_published := e_published e1 @ [the (mr_partial (e_ring e1))]\<rparr>
        else e1)"

text \<open>\<open>True\<close> when the iteration gets as far as reading.\<close>

definition prepare_slot :: "engine_cfg \<Rightarrow> nat list \<Rightarrow> engine \<Rightarrow> engine \<times> bool" where
  "prepare_slot cfg rel e =
     (if mr_held (e_ring e) = None then acquire_slot cfg rel e
      else if held_room (cfg_inline cfg) (e_ring e) = 0 then promote_slot cfg rel e
      else (e, True))"

text \<open>
  What happens around one iteration: the control events the session takes, whether another thread
  stops the engine after the loop condition was tested, the releases during the spins and what the
  backend returns if it is asked.
\<close>

record iter_env =
  it_drain :: nat
  it_stop :: bool
  it_release :: "nat list"
  it_result :: read_result

definition receive_iteration :: "engine_cfg \<Rightarrow> iter_env \<Rightarrow> engine \<Rightarrow> engine" where
  "receive_iteration cfg it e0 =
     (let e = e0\<lparr>e_control := drop (it_drain it) (e_control e0), e_running := (e_running e0 \<and> \<not> it_stop it)\<rparr>;
          (e1, ready) = prepare_slot cfg (it_release it) e in
      if ready then handle_read (it_result it) e1 else e1)"

fun receive_loop :: "engine_cfg \<Rightarrow> iter_env list \<Rightarrow> engine \<Rightarrow> engine" where
  "receive_loop cfg [] e = e"
| "receive_loop cfg (it # its) e = (if e_running e then receive_loop cfg its (receive_iteration cfg it e) else e)"

definition receive_exit :: "engine \<Rightarrow> engine" where
  "receive_exit e = signal_close (e\<lparr>e_ring := mr_discard_producer_slot (e_ring e)\<rparr>)"

section \<open>The calls of the connection\<close>

definition engine_connect :: "bool \<Rightarrow> engine \<Rightarrow> engine \<times> transport_error" where
  "engine_connect backend_ok e = (if \<not> backend_ok then (e, ConnectionFailed) else (e\<lparr>e_running := True\<rparr>, NoError))"

definition engine_send :: "bool \<Rightarrow> bool \<Rightarrow> bool" where
  "engine_send backend_open backend_sent = (if \<not> backend_open then False else backend_sent)"

text \<open>\<^verbatim>\<open>close()\<close> joins the receive thread, which finishes the iteration it is in and leaves the loop.\<close>

definition engine_close :: "engine_cfg \<Rightarrow> iter_env option \<Rightarrow> engine \<Rightarrow> engine" where
  "engine_close cfg current e =
     (if e_closed e then e
      else let e1 = e\<lparr>e_closed := True\<rparr> in
        case current of
          None \<Rightarrow> e1\<lparr>e_running := False\<rparr>
        | Some it \<Rightarrow> receive_exit (if e_running e1 then receive_iteration cfg (it\<lparr>it_stop := True\<rparr>) e1 else e1))"

section \<open>The events of the engine\<close>

text \<open>Reading the backpressure edges of an event sequence; \<open>None\<close> is a repeated edge.\<close>

fun bp_run :: "bool \<Rightarrow> ws_event list \<Rightarrow> bool option" where
  "bp_run b [] = Some b"
| "bp_run b (WsBackpressureDetected # evs) = (if b then None else bp_run True evs)"
| "bp_run b (WsBackpressureCleared # evs) = (if b then bp_run False evs else None)"
| "bp_run b (_ # evs) = bp_run b evs"

lemma bp_run_snoc: "bp_run b (evs @ [ev]) = Option.bind (bp_run b evs) (\<lambda>b'. bp_run b' [ev])"
  by (induction b evs rule: bp_run.induct) simp_all

definition bp_signalled :: "engine \<Rightarrow> bool" where
  "bp_signalled e \<longleftrightarrow> hysteresis_is_active (e_ring_bp e) \<or> hysteresis_is_active (e_pool_bp e)"

definition eng_live :: "engine \<Rightarrow> bool" where
  "eng_live e \<longleftrightarrow> \<not> e_close_signaled e \<and> WsClose \<notin> set (e_log e) \<and> bp_run False (e_log e) = Some (e_bp_active e)"

definition eng_done :: "engine \<Rightarrow> bool" where
  "eng_done e \<longleftrightarrow> e_close_signaled e \<and> bp_run False (e_log e) = Some (e_bp_active e) \<and>
     (\<exists>evs. e_log e = evs @ [WsClose] \<and> WsClose \<notin> set evs)"

lemma emit_event_eq:
  "emit_event ev e = (e\<lparr>e_control := fst (bq_push (CONTROL_RING_CAPACITY - 1) (e_control e) ev), e_log := e_log e @ [ev]\<rparr>,
     length (e_control e) < CONTROL_RING_CAPACITY - 1)"
  by (simp add: emit_event_def)

declare bq_push.simps [simp del]

lemma signal_close_done: "eng_live e \<or> eng_done e \<Longrightarrow> eng_done (signal_close e)"
  by (auto simp: signal_close_def emit_event_eq eng_live_def eng_done_def bp_run_snoc)

lemma signal_close_keep [simp]:
  "e_ring (signal_close e) = e_ring e" "e_running (signal_close e) = e_running e"
  "e_reads (signal_close e) = e_reads e" "e_published (signal_close e) = e_published e"
  "e_ring_bp (signal_close e) = e_ring_bp e" "e_pool_bp (signal_close e) = e_pool_bp e"
  "e_bp_active (signal_close e) = e_bp_active e"
  by (simp_all add: signal_close_def emit_event_eq)

lemma handle_fatal_keep [simp]:
  "e_ring (handle_fatal_error err e) = e_ring e" "\<not> e_running (handle_fatal_error err e)"
  "e_reads (handle_fatal_error err e) = e_reads e" "e_published (handle_fatal_error err e) = e_published e"
  "e_ring_bp (handle_fatal_error err e) = e_ring_bp e" "e_pool_bp (handle_fatal_error err e) = e_pool_bp e"
  "e_bp_active (handle_fatal_error err e) = e_bp_active e"
  by (simp_all add: handle_fatal_error_def emit_event_eq)

lemma handle_fatal_live:
  assumes "eng_live e"
  shows "eng_live (handle_fatal_error err e) \<or> eng_done (handle_fatal_error err e)"
proof (cases "e_running e")
  case True
  have "eng_live (fst (emit_event (WsError err) (e\<lparr>e_running := False\<rparr>)))"
    using assms by (simp add: emit_event_eq eng_live_def bp_run_snoc)
  then show ?thesis using True signal_close_done by (simp add: handle_fatal_error_def)
qed (use assms in \<open>simp add: handle_fatal_error_def\<close>)

text \<open>Updating the backpressure state after a hysteresis has changed.\<close>

lemma update_keep [simp]:
  "e_ring (update_backpressure_state e) = e_ring e" "e_reads (update_backpressure_state e) = e_reads e"
  "e_published (update_backpressure_state e) = e_published e"
  "e_ring_bp (update_backpressure_state e) = e_ring_bp e" "e_pool_bp (update_backpressure_state e) = e_pool_bp e"
  "bp_signalled (update_backpressure_state e) = bp_signalled e"
  by (simp_all add: update_backpressure_state_def emit_backpressure_detected_def emit_backpressure_cleared_def
      emit_event_eq bp_signalled_def Let_def)

lemma update_active: "e_bp_active (update_backpressure_state e) = bp_signalled e"
  by (auto simp: update_backpressure_state_def emit_backpressure_detected_def emit_backpressure_cleared_def
      emit_event_eq bp_signalled_def Let_def)

lemma update_running: "e_running (update_backpressure_state e) \<Longrightarrow> e_running e"
  by (auto simp: update_backpressure_state_def emit_backpressure_detected_def emit_backpressure_cleared_def
      emit_event_eq Let_def split: if_splits)

lemma update_live:
  assumes "eng_live e"
  shows "eng_live (update_backpressure_state e) \<or>
      eng_done (update_backpressure_state e) \<and> \<not> e_running (update_backpressure_state e)"
    and "bp_signalled e \<longrightarrow> e_bp_active e \<Longrightarrow> eng_live (update_backpressure_state e) \<and>
      e_running (update_backpressure_state e) = e_running e"
proof -
  let ?e1 = "e\<lparr>e_bp_active := bp_signalled e\<rparr>"
  have det: "eng_live (fst (emit_event WsBackpressureDetected ?e1))" if "bp_signalled e" "\<not> e_bp_active e"
    using assms that by (simp add: eng_live_def emit_event_eq bp_run_snoc)
  have clr: "eng_live (fst (emit_event WsBackpressureCleared ?e1))" if "\<not> bp_signalled e" "e_bp_active e"
    using assms that by (simp add: eng_live_def emit_event_eq bp_run_snoc)
  have u: "update_backpressure_state e = (if bp_signalled e = e_bp_active e then e
     else if bp_signalled e then emit_backpressure_detected ?e1 else emit_backpressure_cleared ?e1)"
    by (simp add: update_backpressure_state_def bp_signalled_def Let_def)
  show "eng_live (update_backpressure_state e) \<or>
      eng_done (update_backpressure_state e) \<and> \<not> e_running (update_backpressure_state e)"
    using assms det clr handle_fatal_live [OF det, of Backpressure]
    by (auto simp: u emit_backpressure_detected_def emit_backpressure_cleared_def split: prod.splits)
  show "bp_signalled e \<longrightarrow> e_bp_active e \<Longrightarrow> eng_live (update_backpressure_state e) \<and>
      e_running (update_backpressure_state e) = e_running e"
    using assms clr by (auto simp: u emit_backpressure_cleared_def emit_event_eq)
qed

lemma on_active_facts:
  assumes "on_active_signal A h = (h', tr)"
  shows "tr = Activated \<Longrightarrow> hysteresis_is_active h' \<and> \<not> hysteresis_is_active h"
    and "tr \<noteq> Activated \<Longrightarrow> hysteresis_is_active h' = hysteresis_is_active h"
  using assms by (cases "h_state h"; auto simp: on_active_signal_def hysteresis_is_active_def Let_def split: if_splits)+

lemma on_inactive_facts:
  assumes "on_inactive_signal D h = (h', tr)"
  shows "tr = Deactivated \<Longrightarrow> \<not> hysteresis_is_active h' \<and> hysteresis_is_active h"
    and "tr \<noteq> Deactivated \<Longrightarrow> hysteresis_is_active h' = hysteresis_is_active h"
  using assms by (cases "h_state h"; auto simp: on_inactive_signal_def hysteresis_is_active_def Let_def split: if_splits)+

text \<open>The engine between iterations: no close event yet, and the announced backpressure is the signalled one.\<close>

definition eng_sync :: "engine \<Rightarrow> bool" where
  "eng_sync e \<longleftrightarrow> eng_live e \<and> e_bp_active e = bp_signalled e"

definition eng_over :: "engine \<Rightarrow> bool" where
  "eng_over e \<longleftrightarrow> eng_done e \<and> \<not> e_running e"

lemma eng_live_keep [simp]:
  "eng_live (e\<lparr>e_ring := r\<rparr>) = eng_live e" "eng_live (e\<lparr>e_ring_bp := h\<rparr>) = eng_live e"
  "eng_live (e\<lparr>e_pool_bp := h\<rparr>) = eng_live e" "eng_live (e\<lparr>e_running := b\<rparr>) = eng_live e"
  "eng_live (e\<lparr>e_control := c\<rparr>) = eng_live e" "eng_live (e\<lparr>e_reads := x\<rparr>) = eng_live e"
  "eng_live (e\<lparr>e_published := y\<rparr>) = eng_live e" "eng_live (e\<lparr>e_closed := b\<rparr>) = eng_live e"
  "bp_signalled (e\<lparr>e_ring := r\<rparr>) = bp_signalled e" "bp_signalled (e\<lparr>e_running := b\<rparr>) = bp_signalled e"
  "bp_signalled (e\<lparr>e_control := c\<rparr>) = bp_signalled e" "bp_signalled (e\<lparr>e_reads := x\<rparr>) = bp_signalled e"
  "bp_signalled (e\<lparr>e_published := y\<rparr>) = bp_signalled e" "bp_signalled (e\<lparr>e_closed := b\<rparr>) = bp_signalled e"
  "eng_done (e\<lparr>e_ring := r\<rparr>) = eng_done e"
  by (simp_all add: eng_live_def bp_signalled_def eng_done_def)

lemma fatal_sync:
  "eng_sync e \<Longrightarrow> eng_sync (handle_fatal_error err e) \<or> eng_over (handle_fatal_error err e)"
  using handle_fatal_live [of e err] by (auto simp: eng_sync_def eng_over_def bp_signalled_def)

text \<open>A signal to one of the hystereses and the update it may cause.\<close>

definition signalled_from :: "engine \<Rightarrow> engine \<Rightarrow> bool" where
  "signalled_from e e1 \<longleftrightarrow> eng_live e1 \<and> e_bp_active e1 = bp_signalled e"

lemma pressure_sync:
  assumes "signalled_from e e1" and "tr = Activated \<Longrightarrow> bp_signalled e1"
    and "tr \<noteq> Activated \<Longrightarrow> bp_signalled e1 = bp_signalled e"
  shows "eng_sync (if tr = Activated then update_backpressure_state e1 else e1) \<or>
    eng_over (if tr = Activated then update_backpressure_state e1 else e1)"
  using assms update_live(1) [of e1] update_active [of e1] by (auto simp: signalled_from_def eng_sync_def eng_over_def)

lemma relief_sync:
  assumes "signalled_from e e1" and "tr = Deactivated \<Longrightarrow> bp_signalled e"
    and "tr \<noteq> Deactivated \<Longrightarrow> bp_signalled e1 = bp_signalled e"
  shows "eng_sync (if tr = Deactivated then update_backpressure_state e1 else e1) \<and>
    e_running (if tr = Deactivated then update_backpressure_state e1 else e1) = e_running e1"
  using assms update_live(2) [of e1] update_active [of e1] by (auto simp: signalled_from_def eng_sync_def)

text \<open>What an attempt to get a slot leaves of the engine.\<close>

definition slot_outcome :: "engine \<Rightarrow> engine \<Rightarrow> bool \<Rightarrow> bool" where
  "slot_outcome e e' ok \<longleftrightarrow> e_reads e' = e_reads e \<and> e_published e' = e_published e \<and>
     (if ok then eng_sync e' \<and> e_running e' = e_running e
      else (eng_sync e' \<or> eng_over e') \<and> (e_running e' \<longrightarrow> e_running e))"

lemma acquire_slot_outcome:
  assumes "eng_sync e" and a: "acquire_slot cfg rel e = (e', ok)"
  shows "slot_outcome e e' ok \<and> (e_ring e', ok) = spin_acquire (cfg_capacity cfg) (bp_spins (cfg_policy cfg)) rel (e_ring e)"
proof -
  obtain r b where sp: "spin_acquire (cfg_capacity cfg) (bp_spins (cfg_policy cfg)) rel (e_ring e) = (r, b)" by fastforce
  obtain ha ta where on: "on_active_signal (bp_activate (cfg_policy cfg)) (e_ring_bp e) = (ha, ta)" by fastforce
  obtain hi ti where off: "on_inactive_signal (bp_deactivate (cfg_policy cfg)) (e_ring_bp e) = (hi, ti)" by fastforce
  have A: "signalled_from e (e\<lparr>e_ring := r, e_ring_bp := h\<rparr>)" for h
    using assms(1) by (simp add: signalled_from_def eng_sync_def)
  note P = pressure_sync [OF A, of ta ha] and R = relief_sync [OF A, of ti hi]
  have S: "eng_sync (e\<lparr>e_ring := r\<rparr>)" using assms(1) by (simp add: eng_sync_def)
  note fs = fatal_sync [OF S, of Backpressure]
  note ru = update_running [of "e\<lparr>e_ring := r, e_ring_bp := ha\<rparr>"]
  show ?thesis
    using a on_active_facts [OF on] on_inactive_facts [OF off] P R fs ru S
    by (auto simp: acquire_slot_def sp on off slot_outcome_def bp_signalled_def Let_def split: if_splits)
qed

lemma promote_slot_outcome:
  assumes "eng_sync e" and a: "promote_slot cfg rel e = (e', ok)"
  shows "slot_outcome e e' ok \<and> (\<exists>res. spin_reserve cfg (bp_spins (cfg_policy cfg)) rel PoolExhausted (e_ring e) =
      (if ok \<or> bp_mode (cfg_policy cfg) \<noteq> ZeroTolerance then e_ring e' else
         fst (spin_reserve cfg (bp_spins (cfg_policy cfg)) rel PoolExhausted (e_ring e)), res) \<and>
      (ok \<longleftrightarrow> res \<in> {PromotionNone, PromotionSuccess})) \<and>
    (\<not> ok \<longrightarrow> bp_mode (cfg_policy cfg) = ZeroTolerance \<longrightarrow> \<not> e_running e' \<and>
      e_ring e' = mr_discard_producer_slot (fst (spin_reserve cfg (bp_spins (cfg_policy cfg)) rel PoolExhausted (e_ring e))))"
proof -
  obtain r res where sp: "spin_reserve cfg (bp_spins (cfg_policy cfg)) rel PoolExhausted (e_ring e) = (r, res)" by fastforce
  obtain ha ta where on: "on_active_signal (bp_activate (cfg_policy cfg)) (e_pool_bp e) = (ha, ta)" by fastforce
  obtain hi ti where off: "on_inactive_signal (bp_deactivate (cfg_policy cfg)) (e_pool_bp e) = (hi, ti)" by fastforce
  have A: "signalled_from e (e\<lparr>e_ring := r, e_pool_bp := h\<rparr>)" for h
    using assms(1) by (simp add: signalled_from_def eng_sync_def)
  note P = pressure_sync [OF A, of ta ha] and R = relief_sync [OF A, of ti hi]
  have S: "eng_sync (e\<lparr>e_ring := r\<rparr>)" using assms(1) by (simp add: eng_sync_def)
  have "eng_sync ((handle_fatal_error Backpressure (e\<lparr>e_ring := r\<rparr>))\<lparr>e_ring := x\<rparr>) \<or>
      eng_over ((handle_fatal_error Backpressure (e\<lparr>e_ring := r\<rparr>))\<lparr>e_ring := x\<rparr>)" for x
    using fatal_sync [OF S, of Backpressure] by (simp add: eng_sync_def eng_over_def)
  note fs = this
  note ru = update_running [of "e\<lparr>e_ring := r, e_pool_bp := ha\<rparr>"]
  show ?thesis
    using a on_active_facts [OF on] on_inactive_facts [OF off] P R fs ru S
    by (auto simp: promote_slot_def sp on off slot_outcome_def bp_signalled_def Let_def split: if_splits)
qed

lemma prepare_slot_outcome:
  assumes "eng_sync e" and "prepare_slot cfg rel e = (e', ok)" shows "slot_outcome e e' ok"
  using assms acquire_slot_outcome [OF assms(1), of cfg rel e' ok] promote_slot_outcome [OF assms(1), of cfg rel e' ok]
  by (simp add: prepare_slot_def slot_outcome_def split: if_splits)

lemma stop_with_sync: "eng_sync e \<Longrightarrow> eng_sync (stop_with err e)"
  by (simp add: stop_with_def eng_sync_def emit_event_eq eng_live_def bp_signalled_def bp_run_snoc)

lemma handle_read_sync:
  assumes "eng_sync e" shows "eng_sync (handle_read rr e)"
proof -
  have "eng_sync (e\<lparr>e_reads := x\<rparr>)" for x using assms by (simp add: eng_sync_def)
  then show ?thesis using stop_with_sync by (simp add: handle_read_def eng_sync_def Let_def)
qed

lemma receive_iteration_outcome:
  assumes "eng_sync e" shows "eng_sync (receive_iteration cfg it e) \<or> eng_over (receive_iteration cfg it e)"
proof -
  let ?e = "e\<lparr>e_control := drop (it_drain it) (e_control e), e_running := (e_running e \<and> \<not> it_stop it)\<rparr>"
  obtain e1 ok where p: "prepare_slot cfg (it_release it) ?e = (e1, ok)" by fastforce
  have "eng_sync ?e" using assms by (simp add: eng_sync_def)
  from prepare_slot_outcome [OF this p] handle_read_sync [of e1 "it_result it"] show ?thesis
    by (auto simp: receive_iteration_def p slot_outcome_def split: if_splits)
qed

lemma receive_loop_outcome:
  "eng_sync e \<or> eng_over e \<Longrightarrow> eng_sync (receive_loop cfg its e) \<or> eng_over (receive_loop cfg its e)"
proof (induction its arbitrary: e)
  case (Cons it its)
  then show ?case
    using receive_iteration_outcome [of e cfg it] by (auto simp: eng_over_def)
qed simp

lemma start_sync: "eng_sync ((Engine_init ctrl r)\<lparr>e_running := True\<rparr>)"
  by (simp add: eng_sync_def eng_live_def Engine_init_def bp_signalled_def BinaryHysteresis_init_def
      hysteresis_is_active_def)

section \<open>The messages of the engine\<close>

text \<open>
  The messages that a sequence of reads carries: the data of its fragments up to each final frame, and what
  is left of an unfinished message.
\<close>

definition carries_data :: "read_result \<Rightarrow> bool" where
  "carries_data rr \<longleftrightarrow> rr_status rr = RsOk \<and> rr_frame rr \<noteq> CloseFrame \<and> rr_bytes rr \<noteq> []"

definition assemble_step :: "string list \<times> string \<Rightarrow> read_result \<Rightarrow> string list \<times> string" where
  "assemble_step st rr =
     (let (out, acc) = st in
      if \<not> carries_data rr then (out, acc)
      else if rr_frame rr = Message then (out @ [acc @ rr_bytes rr], [])
      else (out, acc @ rr_bytes rr))"

definition assembled :: "read_result list \<Rightarrow> string list \<times> string" where
  "assembled rrs = foldl assemble_step ([], []) rrs"

lemma assembled_snoc: "assembled (rrs @ [rr]) = assemble_step (assembled rrs) rr"
  by (simp add: assembled_def)

definition pending_bytes :: "engine \<Rightarrow> string" where
  "pending_bytes e = (case mr_partial (e_ring e) of None \<Rightarrow> [] | Some m \<Rightarrow> m)"

definition data_ok :: "engine_cfg \<Rightarrow> engine \<Rightarrow> bool" where
  "data_ok cfg e \<longleftrightarrow> mr_good (cfg_inline cfg) (cfg_capacity cfg) (e_ring e) \<and>
     e_published e = fst (assembled (e_reads e)) \<and> (\<exists>k. mr_messages (e_ring e) = drop k (e_published e))"

definition data_sync :: "engine_cfg \<Rightarrow> engine \<Rightarrow> bool" where
  "data_sync cfg e \<longleftrightarrow> data_ok cfg e \<and> pending_bytes e = snd (assembled (e_reads e))"

text \<open>Attempts to get a slot change neither the messages, up to releases, nor the pending bytes.\<close>

definition ring_kept :: "engine_cfg \<Rightarrow> managed_ring \<Rightarrow> managed_ring \<Rightarrow> bool" where
  "ring_kept cfg r r' \<longleftrightarrow> mr_good (cfg_inline cfg) (cfg_capacity cfg) r' \<and>
     (\<exists>k. mr_messages r' = drop k (mr_messages r)) \<and>
     (case mr_partial r' of None \<Rightarrow> [] | Some m \<Rightarrow> m) = (case mr_partial r of None \<Rightarrow> [] | Some m \<Rightarrow> m)"

lemma ring_kept_refl: "mr_good (cfg_inline cfg) (cfg_capacity cfg) r \<Longrightarrow> ring_kept cfg r r"
  by (auto simp: ring_kept_def intro: exI [of _ 0])

lemma ring_kept_trans: "ring_kept cfg a b \<Longrightarrow> ring_kept cfg b c \<Longrightarrow> ring_kept cfg a c"
  by (auto simp: ring_kept_def)

lemma releases_n:
  assumes "mr_good inl cap r"
  shows "mr_good inl cap ((mr_release_consumer_slot ^^ n) r) \<and>
    mr_messages ((mr_release_consumer_slot ^^ n) r) = drop n (mr_messages r) \<and>
    mr_partial ((mr_release_consumer_slot ^^ n) r) = mr_partial r"
proof (induction n)
  case (Suc n)
  then show ?case
    using release_messages [of inl cap "(mr_release_consumer_slot ^^ n) r"] by (simp add: drop_Suc tl_drop)
qed (simp add: assms)

lemma releases_facts:
  assumes "mr_good (cfg_inline cfg) (cfg_capacity cfg) r"
  shows "ring_kept cfg r (releases rel r)" and "mr_partial (releases rel r) = mr_partial r"
  using releases_n [OF assms] by (auto simp: releases_def ring_kept_def assms intro: exI [of _ 0] split: list.split)

lemma held_None_iff: "mr_held r = None \<longleftrightarrow> mr_partial r = None"
  by (simp add: mr_partial_def)

lemma spin_acquire_facts:
  assumes "mr_good (cfg_inline cfg) (cfg_capacity cfg) r" and "mr_partial r = None"
    and "spin_acquire (cfg_capacity cfg) n rel r = (r', ok)"
  shows "ring_kept cfg r r' \<and> mr_partial r' = (if ok then Some [] else None) \<and>
    (ok \<longrightarrow> held_room (cfg_inline cfg) r' = cfg_inline cfg)"
  using assms
proof (induction n arbitrary: r rel)
  case 0
  then show ?case by (simp add: ring_kept_refl)
next
  case (Suc n)
  note R = releases_facts [OF Suc.prems(1), of rel]
  have g: "mr_good (cfg_inline cfg) (cfg_capacity cfg) (releases rel r)" using R(1) by (simp add: ring_kept_def)
  obtain r1 b where a: "mr_acquire_producer_slot (cfg_capacity cfg) (releases rel r) = (r1, b)" by fastforce
  have h: "mr_held (releases rel r) = None" using R(2) Suc.prems(2) by (simp add: held_None_iff)
  note A = acquire_messages [OF g h a]
  have k: "ring_kept cfg (releases rel r) r1"
    using A(1,3,4) R(2) Suc.prems(2) by (auto simp: ring_kept_def intro: exI [of _ 0])
  show ?case
  proof (cases b)
    case True
    then show ?thesis using Suc.prems(3) a A(4,6) ring_kept_trans [OF R(1) k] by simp
  next
    case False
    then have "spin_acquire (cfg_capacity cfg) n (tl rel) r1 = (r', ok)" using Suc.prems(3) a by simp
    from Suc.IH [OF A(1) _ this] A(4) False ring_kept_trans [OF ring_kept_trans [OF R(1) k]] show ?thesis by simp
  qed
qed

lemma spin_reserve_facts:
  assumes "mr_good (cfg_inline cfg) (cfg_capacity cfg) r" and "mr_partial r = Some m" and "cfg_max_reserve cfg < 2 ^ 63"
    and "spin_reserve cfg n rel res r = (r', res')" and "res \<notin> {PromotionNone, PromotionSuccess}"
  shows "ring_kept cfg r r' \<and> mr_partial r' = Some m \<and>
    (res' \<in> {PromotionNone, PromotionSuccess} \<longrightarrow> cfg_hint cfg \<le> held_room (cfg_inline cfg) r')"
  using assms
proof (induction n arbitrary: r rel res)
  case 0
  then show ?case by (auto simp: ring_kept_refl)
next
  case (Suc n)
  note R = releases_facts [OF Suc.prems(1), of rel]
  have g: "mr_good (cfg_inline cfg) (cfg_capacity cfg) (releases rel r)" using R(1) by (simp add: ring_kept_def)
  obtain r1 res1 where a: "mr_reserve (cfg_inline cfg) (cfg_max_reserve cfg) (cfg_hint cfg) (releases rel r) = (r1, res1)"
    by fastforce
  have h: "mr_partial (releases rel r) = Some m" using R(2) Suc.prems(2) by simp
  note A = reserve_messages [OF g h Suc.prems(3) a]
  have k: "ring_kept cfg (releases rel r) r1" using A(1-3) h by (auto simp: ring_kept_def intro: exI [of _ 0])
  show ?case
  proof (cases "res1 \<in> {PromotionNone, PromotionSuccess}")
    case True
    then show ?thesis using Suc.prems(4) a A(3,4) ring_kept_trans [OF R(1) k] by auto
  next
    case False
    then have "spin_reserve cfg n (tl rel) res1 r1 = (r', res')" using Suc.prems(4) a by auto
    from Suc.IH [OF A(1,3) Suc.prems(3) this False] ring_kept_trans [OF ring_kept_trans [OF R(1) k]] show ?thesis by blast
  qed
qed

definition cfg_ok :: "engine_cfg \<Rightarrow> bool" where
  "cfg_ok cfg \<longleftrightarrow> 0 < cfg_inline cfg \<and> 0 < cfg_hint cfg \<and> cfg_max_reserve cfg < 2 ^ 63"

lemma data_kept:
  assumes "data_ok cfg e" and "ring_kept cfg (e_ring e) (e_ring e')" and "slot_outcome e e' ok"
  shows "data_ok cfg e'" and "pending_bytes e = snd (assembled (e_reads e)) \<Longrightarrow> data_sync cfg e'"
  using assms by (auto simp: data_ok_def data_sync_def ring_kept_def slot_outcome_def pending_bytes_def)

text \<open>The data invariant where the iteration left off: it only ends without the pending bytes when the loop stops.\<close>

definition data_left :: "engine_cfg \<Rightarrow> engine \<Rightarrow> bool" where
  "data_left cfg e \<longleftrightarrow> data_ok cfg e \<and> (e_running e \<longrightarrow> data_sync cfg e)"

lemma prepare_slot_data:
  assumes sync: "eng_sync e" and d: "data_sync cfg e" and c: "cfg_ok cfg" and p: "prepare_slot cfg rel e = (e', ok)"
  shows "if ok then data_sync cfg e' \<and> mr_partial (e_ring e') \<noteq> None \<and> 0 < held_room (cfg_inline cfg) (e_ring e')
    else data_left cfg e'"
proof -
  have g: "mr_good (cfg_inline cfg) (cfg_capacity cfg) (e_ring e)" and dok: "data_ok cfg e"
    and pb: "pending_bytes e = snd (assembled (e_reads e))" using d by (auto simp: data_sync_def data_ok_def)
  consider (acquire) "mr_partial (e_ring e) = None" | (promote) m where "mr_partial (e_ring e) = Some m" "held_room (cfg_inline cfg) (e_ring e) = 0"
    | (keep) m where "mr_partial (e_ring e) = Some m" "held_room (cfg_inline cfg) (e_ring e) \<noteq> 0" by fastforce
  then show ?thesis
  proof cases
    case acquire
    then have a: "acquire_slot cfg rel e = (e', ok)" using p by (simp add: prepare_slot_def held_None_iff)
    note O = acquire_slot_outcome [OF sync a]
    have sp: "spin_acquire (cfg_capacity cfg) (bp_spins (cfg_policy cfg)) rel (e_ring e) = (e_ring e', ok)" using O by simp
    note S = spin_acquire_facts [OF g acquire sp]
    show ?thesis using S c data_kept [OF dok conjunct1 [OF S] conjunct1 [OF O]] pb by (auto simp: cfg_ok_def data_left_def)
  next
    case (promote m)
    then have a: "promote_slot cfg rel e = (e', ok)" using p by (simp add: prepare_slot_def held_None_iff)
    obtain r res where sp: "spin_reserve cfg (bp_spins (cfg_policy cfg)) rel PoolExhausted (e_ring e) = (r, res)" by fastforce
    note O = promote_slot_outcome [OF sync a, unfolded sp]
    have S: "ring_kept cfg (e_ring e) r" "mr_partial r = Some m"
      "res \<in> {PromotionNone, PromotionSuccess} \<Longrightarrow> cfg_hint cfg \<le> held_room (cfg_inline cfg) r"
      using spin_reserve_facts [OF g promote(1) _ sp] c by (auto simp: cfg_ok_def)
    show ?thesis
    proof (cases "ok \<or> bp_mode (cfg_policy cfg) \<noteq> ZeroTolerance")
      case True
      then have r: "e_ring e' = r" "ok \<longleftrightarrow> res \<in> {PromotionNone, PromotionSuccess}" using O by auto
      show ?thesis using S c r data_kept [OF dok _ conjunct1 [OF O]] pb by (auto simp: cfg_ok_def data_left_def)
    next
      case False
      then have r: "e_ring e' = mr_discard_producer_slot r" "\<not> e_running e'" using O by auto
      have gr: "mr_good (cfg_inline cfg) (cfg_capacity cfg) r" using S(1) by (simp add: ring_kept_def)
      have "data_ok cfg e'" using dok S(1) O discard_messages [OF gr S(2)]
        by (auto simp: data_ok_def ring_kept_def slot_outcome_def r(1))
      then show ?thesis using False r(2) by (simp add: data_left_def)
    qed
  next
    case (keep m)
    then show ?thesis using p d by (auto simp: prepare_slot_def held_None_iff)
  qed
qed

lemma handle_read_data:
  assumes d: "data_sync cfg e" and m: "mr_partial (e_ring e) = Some m"
    and fits: "length (rr_bytes rr) \<le> held_room (cfg_inline cfg) (e_ring e)"
  shows "data_sync cfg (handle_read rr e)"
proof -
  have g: "mr_good (cfg_inline cfg) (cfg_capacity cfg) (e_ring e)" and pub: "e_published e = fst (assembled (e_reads e))"
    and pb: "m = snd (assembled (e_reads e))" and k: "\<exists>k. mr_messages (e_ring e) = drop k (e_published e)"
    using d m by (auto simp: data_sync_def data_ok_def pending_bytes_def)
  obtain out acc where as: "assembled (e_reads e) = (out, acc)" by fastforce
  show ?thesis
  proof (cases "carries_data rr")
    case False
    then have "e_ring (handle_read rr e) = e_ring e" "e_published (handle_read rr e) = e_published e"
      "e_reads (handle_read rr e) = e_reads e @ [rr]"
      by (auto simp: handle_read_def carries_data_def stop_with_def emit_event_eq Let_def)
    then show ?thesis using d False by (auto simp: data_sync_def data_ok_def pending_bytes_def assembled_snoc assemble_step_def split: prod.split)
  next
    case True
    let ?r1 = "mr_append (rr_bytes rr) (e_ring e)"
    note A = append_messages [OF g m fits]
    note C = commit_messages [OF A(1) A(3)]
    have step: "handle_read rr e = (if rr_frame rr = Message
        then e\<lparr>e_reads := e_reads e @ [rr], e_ring := mr_commit_producer_slot ?r1, e_published := e_published e @ [m @ rr_bytes rr]\<rparr>
        else e\<lparr>e_reads := e_reads e @ [rr], e_ring := ?r1\<rparr>)"
      using True A(3) by (simp add: handle_read_def carries_data_def Let_def)
    obtain k where k: "mr_messages (e_ring e) = drop k (e_published e)" using k by blast
    have "mr_messages (e_ring e) @ [x] = drop (min k (length (e_published e))) (e_published e @ [x])" for x
      using k by (cases "k \<le> length (e_published e)") simp_all
    then have k': "\<exists>k. mr_messages (e_ring e) @ [x] = drop k (e_published e @ [x])" for x by blast
    show ?thesis
      using True A C pub pb as k' k
      by (auto simp: step data_sync_def data_ok_def pending_bytes_def assembled_snoc assemble_step_def)
  qed
qed

text \<open>The contract of the backend: a read returns at most as many bytes as it was given room for.\<close>

definition iter_start :: "iter_env \<Rightarrow> engine \<Rightarrow> engine" where
  "iter_start it e = e\<lparr>e_control := drop (it_drain it) (e_control e), e_running := (e_running e \<and> \<not> it_stop it)\<rparr>"

fun backend_fits :: "engine_cfg \<Rightarrow> iter_env list \<Rightarrow> engine \<Rightarrow> bool" where
  "backend_fits cfg [] e = True"
| "backend_fits cfg (it # its) e =
     (case prepare_slot cfg (it_release it) (iter_start it e) of (e1, ready) \<Rightarrow>
        (ready \<longrightarrow> length (rr_bytes (it_result it)) \<le> held_room (cfg_inline cfg) (e_ring e1)) \<and>
        backend_fits cfg its (receive_iteration cfg it e))"

lemma receive_iteration_data:
  assumes sync: "eng_sync e" and d: "data_sync cfg e" and c: "cfg_ok cfg" and f: "backend_fits cfg (it # its) e"
  shows "data_left cfg (receive_iteration cfg it e)"
proof -
  obtain e1 ok where p: "prepare_slot cfg (it_release it) (iter_start it e) = (e1, ok)" by fastforce
  have s: "eng_sync (iter_start it e)" "data_sync cfg (iter_start it e)"
    using sync d by (auto simp: iter_start_def eng_sync_def data_sync_def data_ok_def pending_bytes_def)
  note P = prepare_slot_data [OF s c p]
  have "receive_iteration cfg it e = (if ok then handle_read (it_result it) e1 else e1)"
    using p by (simp add: receive_iteration_def iter_start_def)
  then show ?thesis
    using P f p handle_read_data [of cfg e1 _ "it_result it"] by (auto simp: data_left_def data_sync_def split: if_splits)
qed

lemma receive_loop_data:
  assumes "eng_sync e \<or> eng_over e" and "data_left cfg e" and "cfg_ok cfg" and "backend_fits cfg its e"
  shows "data_left cfg (receive_loop cfg its e)"
  using assms
proof (induction its arbitrary: e)
  case (Cons it its)
  show ?case
  proof (cases "e_running e")
    case True
    then have s: "eng_sync e" "data_sync cfg e" using Cons.prems(1,2) by (auto simp: eng_over_def data_left_def)
    have "backend_fits cfg its (receive_iteration cfg it e)" using Cons.prems(4) by (simp split: prod.splits)
    with Cons.IH [OF receive_iteration_outcome [OF s(1)] receive_iteration_data [OF s Cons.prems(3,4)] Cons.prems(3)] True
    show ?thesis by simp
  qed (use Cons.prems in simp)
qed simp

lemma receive_exit_data:
  assumes "data_ok cfg e"
  shows "data_ok cfg (receive_exit e)" and "mr_partial (e_ring (receive_exit e)) = None"
proof -
  have g: "mr_good (cfg_inline cfg) (cfg_capacity cfg) (e_ring e)" using assms by (simp add: data_ok_def)
  have "mr_discard_producer_slot (e_ring e) = e_ring e" if "mr_partial (e_ring e) = None"
    using that by (simp add: mr_discard_producer_slot_def mr_partial_def)
  then show "data_ok cfg (receive_exit e)" "mr_partial (e_ring (receive_exit e)) = None"
    using assms discard_messages [OF g] by (cases "mr_partial (e_ring e)"; simp add: receive_exit_def data_ok_def)+
qed

section \<open>A message larger than a block\<close>

definition block_full :: "engine_cfg \<Rightarrow> managed_ring \<Rightarrow> bool" where
  "block_full cfg r \<longleftrightarrow> mr_good (cfg_inline cfg) (cfg_capacity cfg) r \<and>
     (\<exists>s n. mr_held r = Some s \<and> slot_external s = Some n \<and> slot_remaining (cfg_inline cfg) (mr_pool r) s = 0)"

lemma release_block_full:
  assumes "block_full cfg r" shows "block_full cfg (mr_release_consumer_slot r)"
proof -
  have g: "mr_good (cfg_inline cfg) (cfg_capacity cfg) r" using assms by (simp add: block_full_def)
  then obtain fl where ok: "ring_ok (cfg_inline cfg) (cfg_capacity cfg) r fl" by (auto simp: mr_good_def)
  have "mr_held (mr_release_consumer_slot r) = mr_held r \<and>
      pool_blocks (mr_pool (mr_release_consumer_slot r)) = pool_blocks (mr_pool r)"
  proof (cases "mr_ready r")
    case Nil
    then show ?thesis by (simp add: mr_release_consumer_slot_def)
  next
    case (Cons s ss)
    with mr_release_facts [OF ok Cons] show ?thesis by auto
  qed
  then show ?thesis
    using assms release_messages(1) [OF g] by (auto simp: block_full_def slot_remaining_def slot_capacity_def split: option.splits)
qed

lemma releases_block_full: "block_full cfg r \<Longrightarrow> block_full cfg (releases rel r)"
proof -
  assume b: "block_full cfg r"
  have "block_full cfg ((mr_release_consumer_slot ^^ n) r)" for n
    by (induction n) (simp_all add: b release_block_full)
  then show ?thesis using b by (simp add: releases_def split: list.split)
qed

lemma reserve_block_full:
  assumes b: "block_full cfg r" and c: "cfg_ok cfg"
  shows "mr_reserve (cfg_inline cfg) (cfg_max_reserve cfg) (cfg_hint cfg) r = (r, TooLarge)"
proof -
  obtain s n fl where s: "mr_held r = Some s" "slot_external s = Some n" "slot_remaining (cfg_inline cfg) (mr_pool r) s = 0"
    and ok: "ring_ok (cfg_inline cfg) (cfg_capacity cfg) r fl" using b by (auto simp: block_full_def mr_good_def)
  have cap: "slot_capacity (cfg_inline cfg) (mr_pool r) s = pool_block_size (mr_pool r)"
    "cfg_inline cfg \<le> pool_block_size (mr_pool r)" "slot_size s \<le> slot_capacity (cfg_inline cfg) (mr_pool r) s"
    using ok s by (auto simp: ring_ok_def pool_ok_def slot_capacity_def held_list_def slot_ok_def)
  then have size: "slot_size s = pool_block_size (mr_pool r)" using s(3) by (simp add: slot_remaining_def)
  have "slot_size s < 2 ^ 63" using held_size_bound [OF ok s(1)] .
  then have w: "(slot_size s + cfg_hint cfg) mod 2 ^ 64 = slot_size s + cfg_hint cfg" if "cfg_hint cfg \<le> cfg_max_reserve cfg"
    using that c by (simp add: cfg_ok_def)
  have big: "\<not> slot_size s + cfg_hint cfg \<le> slot_capacity (cfg_inline cfg) (mr_pool r) s"
    "\<not> slot_size s + cfg_hint cfg \<le> cfg_inline cfg" using size cap c by (simp_all add: cfg_ok_def)
  have "slot_reserve (cfg_inline cfg) (cfg_max_reserve cfg) (cfg_hint cfg) (mr_pool r) s = (mr_pool r, s, TooLarge)"
    using w big s(2) by (auto simp: slot_reserve_def promote_if_needed_def Let_def)
  then show ?thesis using s(1) by (simp add: mr_reserve_def)
qed

lemma spin_block_full:
  assumes "block_full cfg r" and "cfg_ok cfg" and "res \<in> {PoolExhausted, TooLarge}"
  shows "block_full cfg (fst (spin_reserve cfg n rel res r)) \<and> snd (spin_reserve cfg n rel res r) \<in> {PoolExhausted, TooLarge}"
  using assms
proof (induction n arbitrary: rel res r)
  case (Suc n)
  then show ?case using reserve_block_full [OF releases_block_full [OF Suc.prems(1)] assms(2), of rel]
      releases_block_full [OF Suc.prems(1), of rel] by simp
qed simp

lemma iteration_block_full:
  assumes sync: "eng_sync e" and b: "block_full cfg (e_ring e)" and c: "cfg_ok cfg"
    and pol: "bp_mode (cfg_policy cfg) \<noteq> ZeroTolerance"
  shows "block_full cfg (e_ring (receive_iteration cfg it e)) \<and> e_reads (receive_iteration cfg it e) = e_reads e \<and>
    e_published (receive_iteration cfg it e) = e_published e"
proof -
  let ?e = "iter_start it e"
  have s: "eng_sync ?e" using sync by (simp add: iter_start_def eng_sync_def)
  have full: "mr_held (e_ring ?e) \<noteq> None" "held_room (cfg_inline cfg) (e_ring ?e) = 0"
    using b by (auto simp: block_full_def iter_start_def held_room_def)
  obtain e1 ok where p: "promote_slot cfg (it_release it) ?e = (e1, ok)" by fastforce
  obtain r res where sp: "spin_reserve cfg (bp_spins (cfg_policy cfg)) (it_release it) PoolExhausted (e_ring ?e) = (r, res)" by fastforce
  have F: "block_full cfg r" "res \<in> {PoolExhausted, TooLarge}"
    using spin_block_full [of cfg "e_ring ?e" PoolExhausted "bp_spins (cfg_policy cfg)" "it_release it"] b c sp
    by (simp_all add: iter_start_def)
  note O = promote_slot_outcome [OF s p, unfolded sp]
  have o: "\<not> ok" "e_ring e1 = r" using O F(2) pol by auto
  have "receive_iteration cfg it e = e1"
    using p full o by (auto simp: receive_iteration_def iter_start_def [symmetric] prepare_slot_def Let_def)
  then show ?thesis using F(1) o O by (simp add: slot_outcome_def iter_start_def)
qed

lemma loop_block_full:
  assumes "eng_sync e \<or> eng_over e" and "block_full cfg (e_ring e)" and "cfg_ok cfg"
    and "bp_mode (cfg_policy cfg) \<noteq> ZeroTolerance"
  shows "e_reads (receive_loop cfg its e) = e_reads e \<and> e_published (receive_loop cfg its e) = e_published e"
  using assms(1,2)
proof (induction its arbitrary: e)
  case (Cons it its)
  show ?case
  proof (cases "e_running e")
    case True
    then have s: "eng_sync e" using Cons.prems(1) by (auto simp: eng_over_def)
    note I = iteration_block_full [OF s Cons.prems(2) assms(3,4), of it]
    from Cons.IH [OF receive_iteration_outcome [OF s] conjunct1 [OF I]] I True show ?thesis by simp
  qed simp
qed simp

section \<open>Properties\<close>

definition engine_started :: "ws_event list \<Rightarrow> managed_ring \<Rightarrow> engine" where
  "engine_started ctrl r = fst (engine_connect True (Engine_init ctrl r))"

lemma engine_started_sync: "eng_sync (engine_started ctrl r)"
  using start_sync by (simp add: engine_started_def engine_connect_def)


text \<open>C12: the receive loop publishes exactly the messages that its reads carry, in
  order and complete, although slots are acquired, promoted and retried under backpressure on the way; what the
  ring still holds is the part not yet consumed, and an unfinished message is discarded at the end.\<close>

theorem engine_publishes_what_it_reads:
  assumes "cfg_ok cfg" and "2 \<le> cfg_capacity cfg" and "cfg_inline cfg \<le> bytes" and "bytes < 2 ^ 63"
    and "r = managed_ring_init (cfg_capacity cfg) (block_pool_init bytes blocks)"
    and "backend_fits cfg its (engine_started ctrl r)"
    and "e = receive_exit (receive_loop cfg its (engine_started ctrl r))"
  shows "e_published e = fst (assembled (e_reads e)) \<and> (\<exists>k. mr_messages (e_ring e) = drop k (e_published e)) \<and>
    mr_partial (e_ring e) = None \<and> mr_good (cfg_inline cfg) (cfg_capacity cfg) (e_ring e)"
proof -
  have "mr_good (cfg_inline cfg) (cfg_capacity cfg) r"
    using ring_init_ok [OF assms(2-4), of blocks] by (auto simp: mr_good_def assms(5))
  then have "data_left cfg (engine_started ctrl r)"
    by (simp add: data_left_def data_sync_def data_ok_def engine_started_def engine_connect_def Engine_init_def assembled_def
        pending_bytes_def assms(5) managed_ring_init_def mr_messages_def mr_partial_def)
  then have "data_ok cfg (receive_loop cfg its (engine_started ctrl r))"
    using receive_loop_data [OF disjI1 [OF engine_started_sync]] assms(1,6) by (simp add: data_left_def)
  from receive_exit_data [OF this] show ?thesis unfolding assms(7) by (auto simp: data_ok_def)
qed

definition demo_cfg :: engine_cfg where
  "demo_cfg = \<lparr>cfg_policy = bp_custom 1 1 1, cfg_inline = 2, cfg_max_reserve = 100, cfg_hint = 4, cfg_capacity = 4\<rparr>"

definition demo_iter :: "frame_type \<Rightarrow> string \<Rightarrow> iter_env" where
  "demo_iter f bs = \<lparr>it_drain = 0, it_stop = False, it_release = [],
     it_result = \<lparr>rr_status = RsOk, rr_bytes = bs, rr_frame = f, rr_error = BeNone\<rparr>\<rparr>"

definition demo_engine :: engine where
  "demo_engine = engine_started [] (managed_ring_init 4 (block_pool_init 8 1))"

theorem engine_publishes_what_it_reads_witness:
  "e_published (receive_exit (receive_loop demo_cfg [demo_iter Fragment ''a'', demo_iter Message ''b'', demo_iter Fragment ''c''] demo_engine)) = [''ab'']"
proof -
  let ?its = "[demo_iter Fragment ''a'', demo_iter Message ''b'', demo_iter Fragment ''c'']"
  have fits: "backend_fits demo_cfg ?its demo_engine" by code_simp
  have reads: "e_reads (receive_exit (receive_loop demo_cfg ?its demo_engine)) = map it_result ?its" by code_simp
  have "fst (assembled (map it_result ?its)) = [''ab'']" by code_simp
  moreover have "cfg_ok demo_cfg" "2 \<le> cfg_capacity demo_cfg" "cfg_inline demo_cfg \<le> 8"
    "managed_ring_init 4 (block_pool_init 8 1) = managed_ring_init (cfg_capacity demo_cfg) (block_pool_init 8 1)"
    by (simp_all add: cfg_ok_def demo_cfg_def)
  note engine_publishes_what_it_reads [OF this(1-3) _ this(4) fits [unfolded demo_engine_def] refl]
  ultimately show ?thesis by (simp only: demo_engine_def [symmetric] reads) simp
qed

text \<open>Once a message has filled a pooled block, no iteration of the receive loop reads again, whatever
  the consumer releases: the failed reservation is taken for backpressure, so under a policy that does not force
  a close a message larger than a block stalls the loop until another thread stops it.\<close>

theorem oversized_message_stalls:
  assumes "cfg_ok cfg" and "bp_mode (cfg_policy cfg) \<noteq> ZeroTolerance"
    and "block_full cfg (e_ring (receive_loop cfg its (engine_started ctrl r)))"
  shows "e_reads (receive_loop cfg its' (receive_loop cfg its (engine_started ctrl r))) =
      e_reads (receive_loop cfg its (engine_started ctrl r)) \<and>
    e_published (receive_loop cfg its' (receive_loop cfg its (engine_started ctrl r))) =
      e_published (receive_loop cfg its (engine_started ctrl r))"
  using loop_block_full [OF receive_loop_outcome [OF disjI1 [OF engine_started_sync]] assms(3,1,2)] .

definition demo_full_ring :: managed_ring where
  "demo_full_ring = \<lparr>mr_free = replicate 3 slot_init,
     mr_held = Some \<lparr>slot_external = Some 0, slot_size = 2, slot_create_ts = 0, slot_delivery_ts = 0, slot_inline = []\<rparr>,
     mr_ready = [],
     mr_pool = \<lparr>pool_head = None, pool_next = (\<lambda>_. None), pool_blocks = (\<lambda>_. \<lparr>blk_capacity = 2, blk_size = 2, blk_data = ''ab''\<rparr>),
       pool_block_size = 2, pool_block_count = 1, pool_free_count = 0\<rparr>\<rparr>"

theorem oversized_message_stalls_witness:
  "e_reads (receive_loop demo_cfg [demo_iter Fragment ''c''] (engine_started [] demo_full_ring)) = []"
proof -
  have "ring_ok 2 4 demo_full_ring []"
    by (auto simp: ring_ok_def demo_full_ring_def held_list_def slot_init_def slot_empty_def slot_ok_def slot_capacity_def
        slot_data_def pool_ok_def)
  then have "block_full demo_cfg (e_ring (receive_loop demo_cfg [] (engine_started [] demo_full_ring)))"
    by (auto simp: block_full_def mr_good_def demo_cfg_def engine_started_def engine_connect_def Engine_init_def
        demo_full_ring_def slot_remaining_def slot_capacity_def)
  with oversized_message_stalls [of demo_cfg "[]" "[]" demo_full_ring "[demo_iter Fragment ''c'']"] show ?thesis
    by (simp add: cfg_ok_def demo_cfg_def bp_custom_def engine_started_def engine_connect_def Engine_init_def)
qed

end
