(* ===== verification/Kraken_Json.thy ===== *)
theory Kraken_Json
  imports Replay Parse_Url
begin

text \<open>
  The allocation-free JSON writers: number and string formatting (lcr/json.hpp) and the Kraken requests
  (protocol/kraken/schema). A writer fills a caller's buffer and returns its length; here it
  returns the bytes it writes, so that its length can be compared with the size the
  caller was told to provide.
\<close>

section \<open>Numbers and strings\<close>

fun append_loop :: "nat \<Rightarrow> string \<Rightarrow> string" where
  "append_loop value acc =
     (let acc' = char_of (48 + value mod 10) # acc in
      if value div 10 > 0 then append_loop (value div 10) acc' else acc')"

declare append_loop.simps [simp del]

definition json_append :: "u64 \<Rightarrow> string" where
  "json_append value = append_loop (unat value) []"

definition hex_digit :: "nat \<Rightarrow> char" where
  "hex_digit n = ''0123456789ABCDEF'' ! n"

definition escape_char :: "char \<Rightarrow> string" where
  "escape_char ch =
     (let c = (of_char ch :: nat) in
      if c = 34 then [CHR 0x5C, CHR 0x22]
      else if c = 92 then [CHR 0x5C, CHR 0x5C]
      else if c = 8 then [CHR 0x5C, CHR ''b'']
      else if c = 12 then [CHR 0x5C, CHR ''f'']
      else if c = 10 then [CHR 0x5C, CHR ''n'']
      else if c = 13 then [CHR 0x5C, CHR ''r'']
      else if c = 9 then [CHR 0x5C, CHR ''t'']
      else if c \<le> 31 then [CHR 0x5C, CHR ''u'', CHR ''0'', CHR ''0'', hex_digit (c div 16 mod 16), hex_digit (c mod 16)]
      else [ch])"

primrec json_escape :: "string \<Rightarrow> string" where
  "json_escape [] = []"
| "json_escape (c # cs) = escape_char c @ json_escape cs"

section \<open>Requests\<close>

definition quote :: string where "quote = [CHR 0x22]"

definition quoted :: "string \<Rightarrow> string" where
  "quoted s = quote @ s @ quote"

text \<open>The loop over the symbols, which are separated by commas.\<close>

fun symbols_json :: "symbol list \<Rightarrow> string" where
  "symbols_json [] = []"
| "symbols_json [s] = quoted (json_escape s)"
| "symbols_json (s # ss) = quoted (json_escape s) @ '','' @ symbols_json ss"

definition request_prefix :: "string \<Rightarrow> string \<Rightarrow> string" where
  "request_prefix method_name channel_name =
     ''{'' @ quoted ''method'' @ '':'' @ quoted method_name @ '','' @ quoted ''params'' @ '':{'' @
     quoted ''channel'' @ '':'' @ quoted channel_name @ '','' @ quoted ''symbol'' @ '':[''"

definition req_id_field :: "req_id option \<Rightarrow> string" where
  "req_id_field r = (case r of None \<Rightarrow> [] | Some n \<Rightarrow> '','' @ quoted ''req_id'' @ '':'' @ json_append n)"

definition snapshot_field :: "bool option \<Rightarrow> string" where
  "snapshot_field s = (case s of None \<Rightarrow> [] | Some b \<Rightarrow> '','' @ quoted ''snapshot'' @ '':'' @ (if b then ''true'' else ''false''))"

definition depth_field :: "u32 option \<Rightarrow> string" where
  "depth_field d = (case d of None \<Rightarrow> [] | Some n \<Rightarrow> '','' @ quoted ''depth'' @ '':'' @ json_append (ucast n))"

definition symbols_size :: "symbol list \<Rightarrow> nat" where
  "symbols_size ss = sum_list (map (\<lambda>s. 2 + 6 * length s + 1) ss)"

definition trade_subscribe_json :: "symbol list \<Rightarrow> bool option \<Rightarrow> req_id option \<Rightarrow> string" where
  "trade_subscribe_json ss snap r =
     request_prefix ''subscribe'' ''trade'' @ symbols_json ss @ '']'' @ snapshot_field snap @ ''}'' @ req_id_field r @ ''}''"

definition trade_subscribe_max :: "symbol list \<Rightarrow> bool option \<Rightarrow> req_id option \<Rightarrow> nat" where
  "trade_subscribe_max ss snap r =
     length (request_prefix ''subscribe'' ''trade'') + 1 + 1 + 1 + symbols_size ss - (if ss \<noteq> [] then 1 else 0)
     + (if snap \<noteq> None then length ('','' @ quoted ''snapshot'' @ '':true'') else 0)
     + (if r \<noteq> None then length ('','' @ quoted ''req_id'' @ '':'') + 20 else 0)"

definition trade_unsubscribe_json :: "symbol list \<Rightarrow> req_id option \<Rightarrow> string" where
  "trade_unsubscribe_json ss r =
     request_prefix ''unsubscribe'' ''trade'' @ symbols_json ss @ '']'' @ ''}'' @ req_id_field r @ ''}''"

definition trade_unsubscribe_max :: "symbol list \<Rightarrow> req_id option \<Rightarrow> nat" where
  "trade_unsubscribe_max ss r = 88 + symbols_size ss + (if r \<noteq> None then 24 else 0) + 4"

definition book_subscribe_json :: "symbol list \<Rightarrow> u32 option \<Rightarrow> bool option \<Rightarrow> req_id option \<Rightarrow> string" where
  "book_subscribe_json ss d snap r =
     request_prefix ''subscribe'' ''book'' @ symbols_json ss @ '']'' @ depth_field d @ snapshot_field snap @ ''}'' @
     req_id_field r @ ''}''"

definition book_subscribe_max :: "symbol list \<Rightarrow> u32 option \<Rightarrow> bool option \<Rightarrow> req_id option \<Rightarrow> nat" where
  "book_subscribe_max ss d snap r = 96 + symbols_size ss + (if d \<noteq> None then 16 else 0) + (if snap \<noteq> None then 20 else 0)
     + (if r \<noteq> None then 24 else 0) + 4"

definition book_unsubscribe_json :: "symbol list \<Rightarrow> u32 option \<Rightarrow> req_id option \<Rightarrow> string" where
  "book_unsubscribe_json ss d r =
     request_prefix ''unsubscribe'' ''book'' @ symbols_json ss @ '']'' @ depth_field d @ ''}'' @ req_id_field r @ ''}''"

definition book_unsubscribe_max :: "symbol list \<Rightarrow> u32 option \<Rightarrow> req_id option \<Rightarrow> nat" where
  "book_unsubscribe_max ss d r = 88 + symbols_size ss + (if d \<noteq> None then 16 else 0) + (if r \<noteq> None then 24 else 0) + 4"

definition ping_json :: "req_id option \<Rightarrow> string" where
  "ping_json r = ''{'' @ quoted ''method'' @ '':'' @ quoted ''ping'' @ req_id_field r @ ''}''"

definition ping_max :: nat where "ping_max = 64"

definition is_valid_depth :: "u32 \<Rightarrow> bool" where
  "is_valid_depth d \<longleftrightarrow> d = 10 \<or> d = 25 \<or> d = 100 \<or> d = 500 \<or> d = 1000"

text \<open>The debug build's validation of a request.\<close>

definition validate_symbols :: "symbol list \<Rightarrow> bool" where
  "validate_symbols ss \<longleftrightarrow> ss \<noteq> [] \<and> (\<forall>s \<in> set ss. s \<noteq> [])"

definition validate_req_id :: "req_id option \<Rightarrow> bool" where
  "validate_req_id r = (case r of None \<Rightarrow> True | Some n \<Rightarrow> n \<noteq> 0)"

definition sub_write_json :: "sub_request \<Rightarrow> string" where
  "sub_write_json req = (case req_params req of
      TradeParams snap \<Rightarrow> trade_subscribe_json (req_symbols req) snap (req_req_id req)
    | BookParams d snap \<Rightarrow> book_subscribe_json (req_symbols req) d snap (req_req_id req))"

definition sub_max_json_size :: "sub_request \<Rightarrow> nat" where
  "sub_max_json_size req = (case req_params req of
      TradeParams snap \<Rightarrow> trade_subscribe_max (req_symbols req) snap (req_req_id req)
    | BookParams d snap \<Rightarrow> book_subscribe_max (req_symbols req) d snap (req_req_id req))"

text \<open>
  The \<^verbatim>\<open>write_json\<close> of a debug build: \<open>None\<close> is a failed assertion. The validation comes first; the
  writers of the trade subscription and of the ping also compare what they wrote with their bound.
\<close>

definition validate_depth :: "u32 option \<Rightarrow> bool" where
  "validate_depth d = (case d of None \<Rightarrow> True | Some n \<Rightarrow> is_valid_depth n)"

definition trade_subscribe_write :: "symbol list \<Rightarrow> bool option \<Rightarrow> req_id option \<Rightarrow> string option" where
  "trade_subscribe_write ss snap r =
     (if \<not> validate_symbols ss \<or> \<not> validate_req_id r then None
      else let json = trade_subscribe_json ss snap r in
        if length json \<le> trade_subscribe_max ss snap r then Some json else None)"

definition trade_unsubscribe_write :: "symbol list \<Rightarrow> req_id option \<Rightarrow> string option" where
  "trade_unsubscribe_write ss r =
     (if \<not> validate_symbols ss \<or> \<not> validate_req_id r then None else Some (trade_unsubscribe_json ss r))"

definition book_subscribe_write :: "symbol list \<Rightarrow> u32 option \<Rightarrow> bool option \<Rightarrow> req_id option \<Rightarrow> string option" where
  "book_subscribe_write ss d snap r =
     (if \<not> validate_symbols ss \<or> \<not> validate_req_id r \<or> \<not> validate_depth d then None
      else Some (book_subscribe_json ss d snap r))"

definition book_unsubscribe_write :: "symbol list \<Rightarrow> u32 option \<Rightarrow> req_id option \<Rightarrow> string option" where
  "book_unsubscribe_write ss d r =
     (if \<not> validate_symbols ss \<or> \<not> validate_req_id r \<or> \<not> validate_depth d then None
      else Some (book_unsubscribe_json ss d r))"

definition ping_write :: "req_id option \<Rightarrow> string option" where
  "ping_write r =
     (if \<not> validate_req_id r then None
      else let json = ping_json r in if length json \<le> ping_max then Some json else None)"

definition sub_write :: "sub_request \<Rightarrow> string option" where
  "sub_write req = (case req_params req of
      TradeParams snap \<Rightarrow> trade_subscribe_write (req_symbols req) snap (req_req_id req)
    | BookParams d snap \<Rightarrow> book_subscribe_write (req_symbols req) d snap (req_req_id req))"

text \<open>The two unsubscription requests, by the settings they have beside symbols and id.\<close>

datatype unsub_params = TradeUnsub | BookUnsub "u32 option"

definition unsub_write :: "unsub_params \<Rightarrow> req_id \<Rightarrow> symbol list \<Rightarrow> string option" where
  "unsub_write u r ss = (case u of
      TradeUnsub \<Rightarrow> trade_unsubscribe_write ss (Some r)
    | BookUnsub d \<Rightarrow> book_unsubscribe_write ss d (Some r))"

definition unsub_max_json_size :: "unsub_params \<Rightarrow> req_id \<Rightarrow> symbol list \<Rightarrow> nat" where
  "unsub_max_json_size u r ss = (case u of
      TradeUnsub \<Rightarrow> trade_unsubscribe_max ss (Some r)
    | BookUnsub d \<Rightarrow> book_unsubscribe_max ss d (Some r))"

section \<open>Sizes\<close>

lemma append_loop_length: "v < 10 ^ Suc n \<Longrightarrow> length (append_loop v acc) \<le> length acc + Suc n"
proof (induction v acc arbitrary: n rule: append_loop.induct)
  case (1 v acc)
  show ?case
  proof (cases "v div 10 > 0")
    case True
    then obtain m where m: "n = Suc m" using "1.prems" by (cases n) auto
    have "v div 10 < 10 ^ Suc m" using "1.prems" m by (simp add: div_less_iff_less_mult)
    from "1.IH" [OF refl True this] show ?thesis using True m by (subst append_loop.simps) simp
  qed (subst append_loop.simps, simp)
qed

lemma json_append_length: "length (json_append v) \<le> 20"
proof -
  have "unat v < 2 ^ 64" using unsigned_less [of v] by simp
  then have "unat v < 10 ^ Suc 19" by simp
  from append_loop_length [OF this, of "[]"] show ?thesis by (simp add: json_append_def)
qed

lemma json_append_u32_length: "length (json_append (ucast (d :: u32))) \<le> 10"
proof -
  have "unat d < 2 ^ 32" using unsigned_less [of d] by simp
  then have "unat (ucast d :: u64) < 10 ^ Suc 9" by (simp add: unsigned_ucast_eq take_bit_nat_eq_self)
  from append_loop_length [OF this, of "[]"] show ?thesis by (simp add: json_append_def)
qed

lemma json_escape_length: "length (json_escape s) \<le> 6 * length s"
  by (induction s) (simp_all add: escape_char_def Let_def)

lemma symbols_json_length: "length (symbols_json ss) \<le> symbols_size ss - (if ss = [] then 0 else 1)"
proof (induction ss rule: symbols_json.induct)
  case (2 s)
  then show ?case using json_escape_length [of s] by (simp add: symbols_size_def quoted_def quote_def)
next
  case (3 s s' ss)
  then show ?case using json_escape_length [of s] by (simp add: symbols_size_def quoted_def quote_def)
qed (simp add: symbols_size_def)

lemma field_lengths:
  "length (req_id_field r) \<le> (if r \<noteq> None then 30 else 0)" "length (snapshot_field b) \<le> (if b \<noteq> None then 17 else 0)"
  "length (depth_field d) \<le> (if d \<noteq> None then 19 else 0)"
  using json_append_length json_append_u32_length
  by (auto simp: req_id_field_def snapshot_field_def depth_field_def quoted_def quote_def split: option.split)

lemma symbols_json_le: "length (symbols_json ss) \<le> symbols_size ss"
  using symbols_json_length [of ss] by simp

lemma prefix_lengths:
  "length (request_prefix ''subscribe'' ''trade'') = 60" "length (request_prefix ''unsubscribe'' ''trade'') = 62"
  "length (request_prefix ''subscribe'' ''book'') = 59" "length (request_prefix ''unsubscribe'' ''book'') = 61"
  by (simp_all add: request_prefix_def quoted_def quote_def)

section \<open>Reading back\<close>

lemma append_loop_value:
  "(\<forall>c \<in> set acc. is_digit c) \<Longrightarrow> (\<forall>c \<in> set (append_loop v acc). is_digit c) \<and>
   dec_value 0 (append_loop v acc) = dec_value v acc"
proof (induction v acc rule: append_loop.induct)
  case (1 v acc)
  have d: "is_digit (char_of (48 + v mod 10)) \<and> digit_value (char_of (48 + v mod 10)) = v mod 10"
    by (rule digit_char) simp
  let ?acc = "char_of (48 + v mod 10) # acc"
  have acc: "\<forall>c \<in> set ?acc. is_digit c" using "1.prems" d by simp
  have step: "dec_value (v div 10) ?acc = dec_value v acc" using d by (simp add: dec_value_def)
  show ?case
  proof (cases "v div 10 > 0")
    case True
    from "1.IH" [OF refl True acc] step True show ?thesis by (subst (1 2) append_loop.simps) simp
  next
    case False
    then have "dec_value 0 ?acc = dec_value v acc" using d by (simp add: dec_value_def)
    with False acc show ?thesis by (subst (1 2) append_loop.simps) simp
  qed
qed

text \<open>A reader for the contents of a JSON string.\<close>

definition simple_escape :: "char \<Rightarrow> char option" where
  "simple_escape d =
     (if d = CHR 0x22 then Some (CHR 0x22) else if d = CHR 0x5C then Some (CHR 0x5C)
      else if d = CHR ''b'' then Some (char_of (8 :: nat)) else if d = CHR ''f'' then Some (char_of (12 :: nat))
      else if d = CHR ''n'' then Some (char_of (10 :: nat)) else if d = CHR ''r'' then Some (char_of (13 :: nat))
      else if d = CHR ''t'' then Some (char_of (9 :: nat)) else None)"

definition hex_value :: "char \<Rightarrow> nat option" where
  "hex_value c = (let n = (of_char c :: nat) in
     if 48 \<le> n \<and> n \<le> 57 then Some (n - 48) else if 65 \<le> n \<and> n \<le> 70 then Some (n - 55) else None)"

fun json_unescape :: "string \<Rightarrow> string option" where
  "json_unescape [] = Some []"
| "json_unescape (c # cs) =
     (if c \<noteq> CHR 0x5C then
        if c = CHR 0x22 \<or> (of_char c :: nat) < 32 then None else map_option (Cons c) (json_unescape cs)
      else case cs of
          [] \<Rightarrow> None
        | d # ds \<Rightarrow>
            if d = CHR ''u'' then
              (case ds of
                 h1 # h2 # h3 # h4 # rest \<Rightarrow>
                   (case (hex_value h1, hex_value h2, hex_value h3, hex_value h4) of
                      (Some 0, Some 0, Some x, Some y) \<Rightarrow> map_option (Cons (char_of (16 * x + y))) (json_unescape rest)
                    | _ \<Rightarrow> None)
               | _ \<Rightarrow> None)
            else case simple_escape d of None \<Rightarrow> None | Some x \<Rightarrow> map_option (Cons x) (json_unescape ds))"

lemma hex_digit_value: "n < 16 \<Longrightarrow> hex_value (hex_digit n) = Some n"
proof -
  have "\<forall>n \<in> set [0..<16]. hex_value (hex_digit n) = Some n" by code_simp
  then show "n < 16 \<Longrightarrow> hex_value (hex_digit n) = Some n" by simp
qed

lemma unescape_escape_char: "json_unescape (escape_char ch @ t) = map_option (Cons ch) (json_unescape t)"
proof -
  let ?c = "of_char ch :: nat"
  have ch: "ch = char_of ?c" by simp
  have hex: "hex_value (CHR ''0'') = Some 0" by (simp add: hex_value_def)
  have same: "?c = 34 \<Longrightarrow> ch = CHR 0x22" "?c = 92 \<Longrightarrow> ch = CHR 0x5C"
    using of_char_eq_iff [of ch "CHR 0x22", where 'a = nat] of_char_eq_iff [of ch "CHR 0x5C", where 'a = nat] by simp_all
  consider "?c = 34" | "?c = 92" | "?c = 8" | "?c = 12" | "?c = 10" | "?c = 13" | "?c = 9"
    | (ctl) "?c \<le> 31" "?c \<notin> {34, 92, 8, 12, 10, 13, 9}" | (plain) "?c > 31" "?c \<noteq> 34" "?c \<noteq> 92" by fastforce
  then show ?thesis
  proof cases
    case ctl
    have "?c div 16 mod 16 < 16" "?c mod 16 < 16" "16 * (?c div 16 mod 16) + ?c mod 16 = ?c" using ctl(1) by simp_all
    then show ?thesis using ctl hex hex_digit_value by (auto simp: escape_char_def Let_def)
  next
    case plain
    then have "ch \<noteq> CHR 0x5C" "ch \<noteq> CHR 0x22" by auto
    with plain show ?thesis by (simp add: escape_char_def Let_def)
  qed (auto simp: escape_char_def simple_escape_def Let_def dest: same arg_cong [of _ _ "char_of :: nat \<Rightarrow> char"])
qed

lemma json_unescape_escape: "json_unescape (json_escape s) = Some s"
  by (induction s) (simp_all add: unescape_escape_char)

section \<open>The transmit buffer\<close>

definition MAX_REQUEST_SYMBOLS :: nat where "MAX_REQUEST_SYMBOLS = 2048"

definition TX_BUFFER_CAPACITY :: nat where "TX_BUFFER_CAPACITY = 262144"

definition request_shape_ok :: "symbol list \<Rightarrow> bool" where
  "request_shape_ok ss \<longleftrightarrow> length ss \<le> MAX_REQUEST_SYMBOLS \<and> (\<forall>s \<in> set ss. length s \<le> 16)"

lemma symbols_size_bound: "request_shape_ok ss \<Longrightarrow> symbols_size ss \<le> 202752"
proof -
  assume r: "request_shape_ok ss"
  then have "symbols_size ss \<le> sum_list (map (\<lambda>_. 99) ss)"
    unfolding symbols_size_def by (intro sum_list_mono) (auto simp: request_shape_ok_def)
  also have "\<dots> \<le> 99 * 2048" using r by (simp add: request_shape_ok_def MAX_REQUEST_SYMBOLS_def sum_list_triv)
  finally show ?thesis by simp
qed

lemma requests_fit_tx_buffer:
  assumes "request_shape_ok ss"
  shows "trade_subscribe_max ss b r \<le> TX_BUFFER_CAPACITY" and "trade_unsubscribe_max ss r \<le> TX_BUFFER_CAPACITY"
    and "book_subscribe_max ss d b r \<le> TX_BUFFER_CAPACITY" and "book_unsubscribe_max ss d r \<le> TX_BUFFER_CAPACITY"
  using symbols_size_bound [OF assms]
  by (simp_all add: trade_subscribe_max_def trade_unsubscribe_max_def book_subscribe_max_def book_unsubscribe_max_def
      TX_BUFFER_CAPACITY_def prefix_lengths quoted_def quote_def) (auto simp: symbols_size_def)

section \<open>Requests that pass the assertions\<close>

text \<open>
  A request writes its JSON when its depth is one of the channel's, its id is not 0 and it has at least one symbol, each with
  a printable character. The last condition gives a trade subscription without a
  snapshot the byte that its bound is short of.
\<close>

definition printable_name :: "symbol \<Rightarrow> bool" where
  "printable_name s \<longleftrightarrow> (\<exists>c \<in> set s. (of_char c :: nat) > 31)"

definition params_ok :: "sub_params \<Rightarrow> bool" where
  "params_ok p = (case p of TradeParams _ \<Rightarrow> True | BookParams d _ \<Rightarrow> validate_depth d)"

definition unsub_params_ok :: "unsub_params \<Rightarrow> bool" where
  "unsub_params_ok u = (case u of TradeUnsub \<Rightarrow> True | BookUnsub d \<Rightarrow> validate_depth d)"

definition request_ok :: "sub_request \<Rightarrow> bool" where
  "request_ok req \<longleftrightarrow> params_ok (req_params req) \<and> (\<forall>s \<in> set (req_symbols req). printable_name s)"

lemma json_escape_shorter: "printable_name s \<Longrightarrow> length (json_escape s) < 6 * length s"
proof (induction s)
  case (Cons c s)
  have e: "length (escape_char c) \<le> (if (of_char c :: nat) > 31 then 2 else 6)" by (simp add: escape_char_def Let_def)
  show ?case
  proof (cases "(of_char c :: nat) > 31")
    case True
    then show ?thesis using e json_escape_length [of s] by simp
  next
    case False
    then have "printable_name s" using Cons.prems by (auto simp: printable_name_def)
    then show ?thesis using Cons.IH e False by simp
  qed
qed (simp add: printable_name_def)

lemma symbols_json_shorter:
  "ss \<noteq> [] \<Longrightarrow> \<forall>s \<in> set ss. printable_name s \<Longrightarrow> length (symbols_json ss) + 2 \<le> symbols_size ss"
proof (induction ss rule: symbols_json.induct)
  case (2 s)
  then show ?case using json_escape_shorter [of s] by (simp add: symbols_size_def quoted_def quote_def)
next
  case (3 s s' ss)
  then show ?case using json_escape_length [of s] by (simp add: symbols_size_def quoted_def quote_def)
qed simp

lemma validate_symbols_printable: "ss \<noteq> [] \<Longrightarrow> \<forall>s \<in> set ss. printable_name s \<Longrightarrow> validate_symbols ss"
  by (auto simp: validate_symbols_def printable_name_def)

lemma trade_subscribe_fits:
  assumes "ss \<noteq> []" and "\<forall>s \<in> set ss. printable_name s"
  shows "length (trade_subscribe_json ss b r) \<le> trade_subscribe_max ss b r"
  using symbols_json_shorter [OF assms] field_lengths(1) [of r] field_lengths(2) [of b] assms(1)
  by (auto simp: trade_subscribe_json_def trade_subscribe_max_def prefix_lengths quoted_def quote_def split: if_splits)

lemma other_requests_fit:
  "length (trade_unsubscribe_json ss r) \<le> trade_unsubscribe_max ss r"
  "length (book_subscribe_json ss d b r) \<le> book_subscribe_max ss d b r"
  "length (book_unsubscribe_json ss d r) \<le> book_unsubscribe_max ss d r"
  "length (ping_json r) \<le> ping_max"
  using field_lengths(1) [of r] field_lengths(2) [of b] field_lengths(3) [of d] symbols_json_le [of ss]
  by (simp_all add: trade_unsubscribe_json_def trade_unsubscribe_max_def book_subscribe_json_def book_subscribe_max_def
      book_unsubscribe_json_def book_unsubscribe_max_def ping_json_def ping_max_def prefix_lengths quoted_def quote_def
      split: if_splits)

lemma sub_write_ok:
  assumes "request_ok req" and "req_symbols req \<noteq> []" and "req_req_id req = Some r" and "r \<noteq> 0"
  shows "sub_write req = Some (sub_write_json req)" and "length (sub_write_json req) \<le> sub_max_json_size req"
  using assms trade_subscribe_fits [OF assms(2)] validate_symbols_printable [OF assms(2)] other_requests_fit(2)
  by (auto simp: request_ok_def params_ok_def sub_write_def sub_write_json_def sub_max_json_size_def trade_subscribe_write_def
      book_subscribe_write_def validate_req_id_def Let_def split: sub_params.splits)

lemma unsub_write_ok:
  assumes "unsub_params_ok u" and "ss \<noteq> []" and "\<forall>s \<in> set ss. printable_name s" and "r \<noteq> 0"
  obtains json where "unsub_write u r ss = Some json" and "length json \<le> unsub_max_json_size u r ss"
  using assms validate_symbols_printable [OF assms(2,3)] other_requests_fit(1,3)
  by (cases u) (auto simp: unsub_params_ok_def unsub_write_def unsub_max_json_size_def trade_unsubscribe_write_def
      book_unsubscribe_write_def validate_req_id_def)

lemma ping_write_ok: "r \<noteq> 0 \<Longrightarrow> ping_write (Some r) = Some (ping_json (Some r))"
  using other_requests_fit(4) by (simp add: ping_write_def validate_req_id_def)

section \<open>Properties\<close>

text \<open>Every request writer stays within the size that its \<^verbatim>\<open>max_json_size()\<close> tells the
  caller to provide, whatever the symbols, the optional fields and the request id, with one exception: a trade
  subscription with \<^verbatim>\<open>snapshot = false\<close> may need one byte more, because its bound counts the letters of
  \<^verbatim>\<open>true\<close>, and a symbol of control characters with a 20-digit request id does need it.\<close>

theorem json_writers_fit:
  "length (trade_subscribe_json ss b r) \<le> trade_subscribe_max ss b r + (if b = Some False then 1 else 0) \<and>
   length (trade_unsubscribe_json ss r) \<le> trade_unsubscribe_max ss r \<and>
   length (book_subscribe_json ss d b r) \<le> book_subscribe_max ss d b r \<and>
   length (book_unsubscribe_json ss d r) \<le> book_unsubscribe_max ss d r \<and>
   length (ping_json r) \<le> ping_max \<and>
   length (trade_subscribe_json [[CHR 0x01]] (Some False) (Some (- 1))) =
     trade_subscribe_max [[CHR 0x01]] (Some False) (Some (- 1)) + 1"
proof -
  note F = field_lengths(1) [of r] field_lengths(2) [of b] field_lengths(3) [of d] symbols_json_length [of ss] symbols_json_le [of ss]
  have t: "length (snapshot_field b) \<le> (if b = None then 0 else if b = Some False then 17 else 16)"
    by (auto simp: snapshot_field_def quoted_def quote_def split: option.split)
  have e: "ss \<noteq> [] \<Longrightarrow> 1 \<le> symbols_size ss" by (cases ss) (simp_all add: symbols_size_def)
  have 1: "length (trade_subscribe_json ss b r) \<le> trade_subscribe_max ss b r + (if b = Some False then 1 else 0)"
    using F(1,4,5) t e
    by (auto simp: trade_subscribe_json_def trade_subscribe_max_def prefix_lengths quoted_def quote_def split: if_splits)
  have 2: "length (trade_unsubscribe_json ss r) \<le> trade_unsubscribe_max ss r"
    using F(1,5) by (simp add: trade_unsubscribe_json_def trade_unsubscribe_max_def prefix_lengths split: if_splits)
  have 3: "length (book_subscribe_json ss d b r) \<le> book_subscribe_max ss d b r"
    using F(1,2,3,5) by (simp add: book_subscribe_json_def book_subscribe_max_def prefix_lengths split: if_splits)
  have 4: "length (book_unsubscribe_json ss d r) \<le> book_unsubscribe_max ss d r"
    using F(1,3,5) by (simp add: book_unsubscribe_json_def book_unsubscribe_max_def prefix_lengths split: if_splits)
  have 5: "length (ping_json r) \<le> ping_max"
    using F(1) by (simp add: ping_json_def ping_max_def quoted_def quote_def split: if_splits)
  have "length (json_append (- 1)) = 20" by (simp add: json_append_def append_loop.simps unsigned_minus_1_eq_mask mask_eq_exp_minus_1)
  then have 6: "length (trade_subscribe_json [[CHR 0x01]] (Some False) (Some (- 1))) =
     trade_subscribe_max [[CHR 0x01]] (Some False) (Some (- 1)) + 1"
    by (simp add: trade_subscribe_json_def trade_subscribe_max_def snapshot_field_def req_id_field_def quoted_def quote_def
        symbols_size_def escape_char_def)
  show ?thesis using 1 2 3 4 5 6 by blast
qed

text \<open>What the number and string writers produce reads back as what was written: the digits of a
  request id denote it, and unescaping an escaped string gives the string, for all 256
  characters; in particular no two different strings have the same encoding.\<close>

theorem json_roundtrip:
  "json_unescape (json_escape s) = Some s \<and> dec_value 0 (json_append v) = unat v \<and> (\<forall>c. c \<in> set (json_append v) \<longrightarrow> is_digit c)"
  using json_unescape_escape [of s] append_loop_value [of "[]" "unat v"] by (simp add: json_append_def dec_value_def)

theorem json_roundtrip_witness:
  "json_unescape (json_escape [CHR 0x22, CHR ''a'', CHR 0x0A]) = Some [CHR 0x22, CHR ''a'', CHR 0x0A] \<and>
   json_escape [CHR 0x22, CHR ''a'', CHR 0x0A] = [CHR 0x5C, CHR 0x22, CHR ''a'', CHR 0x5C, CHR ''n''] \<and>
   is_digit (hd (json_append 42))"
proof -
  have "json_append 42 = ''42''" by (simp add: json_append_def append_loop.simps char_of_def bit_0 bit_Suc)
  with json_roundtrip [of "[CHR 0x22, CHR ''a'', CHR 0x0A]" 42] show ?thesis by (simp add: escape_char_def)
qed

end
