(* ===== verification/Request_Scheduler.thy ===== *)
theory Request_Scheduler
  imports Prelude Bounded_Queue
begin

text \<open>
  \<^verbatim>\<open>request::Scheduler\<close> (request/scheduler.hpp) and the batching policy
  (policy/protocol/batching.hpp): serialised batches wait in a local ring of fixed buffers and
  leave it one per emission interval. The ring is the bounded list that
  \<open>Local_Queue\<close> proves it implements. \<open>sch_overrun\<close> records a serialisation that
  was larger than the slot it was written into.
\<close>

datatype batching_mode = Immediate | Batch | Paced

record batching_policy =
  bat_mode :: batching_mode
  bat_size :: nat
  bat_interval :: nat

definition batching_ok :: "batching_policy \<Rightarrow> bool" where
  "batching_ok b \<longleftrightarrow> (case bat_mode b of
      Immediate \<Rightarrow> bat_size b = 0 \<and> bat_interval b = 0
    | Batch \<Rightarrow> bat_size b > 0 \<and> bat_interval b = 0
    | Paced \<Rightarrow> bat_size b > 0 \<and> bat_interval b > 0)"

definition TX_BATCH_QUEUE_CAPACITY :: nat where "TX_BATCH_QUEUE_CAPACITY = 256"
definition TX_BATCH_BUFFER_CAPACITY :: nat where "TX_BATCH_BUFFER_CAPACITY = 1024"

record scheduler =
  sch_poll_counter :: nat
  sch_queue :: "string list"
  sch_overrun :: bool

definition Scheduler_init :: scheduler where
  "Scheduler_init = \<lparr>sch_poll_counter = 0, sch_queue = [], sch_overrun = False\<rparr>"

definition sched_poll :: "scheduler \<Rightarrow> scheduler" where
  "sched_poll s = s\<lparr>sch_poll_counter := sch_poll_counter s + 1\<rparr>"

definition sched_idle :: "scheduler \<Rightarrow> bool" where
  "sched_idle s \<longleftrightarrow> sch_queue s = []"

definition sched_should_send :: "batching_policy \<Rightarrow> scheduler \<Rightarrow> scheduler \<times> bool" where
  "sched_should_send b s =
     (if bat_mode b = Paced then
        if sch_poll_counter s < bat_interval b then (s, False)
        else (s\<lparr>sch_poll_counter := 0\<rparr>, True)
      else (s, False))"

text \<open>The slot is written before its size is tested; \<open>json\<close> is what the request's writer returns,
  \<open>None\<close> for a failed assertion, and so is the result.\<close>

definition sched_enqueue :: "string option \<Rightarrow> scheduler \<Rightarrow> (scheduler \<times> bool) option" where
  "sched_enqueue json s =
     (if length (sch_queue s) \<ge> TX_BATCH_QUEUE_CAPACITY - 1 then Some (s, False)
      else case json of
          None \<Rightarrow> None
        | Some bytes \<Rightarrow>
            if length bytes > TX_BATCH_BUFFER_CAPACITY then Some (s\<lparr>sch_overrun := True\<rparr>, False)
            else Some (s\<lparr>sch_queue := sch_queue s @ [bytes]\<rparr>, True))"

definition sched_peek :: "scheduler \<Rightarrow> string option" where
  "sched_peek s = (case sch_queue s of [] \<Rightarrow> None | m # _ \<Rightarrow> Some m)"

definition sched_release :: "scheduler \<Rightarrow> scheduler" where
  "sched_release s = s\<lparr>sch_queue := tl (sch_queue s)\<rparr>"

section \<open>Pacing\<close>

text \<open>The scheduling part of one \<^verbatim>\<open>Session::poll()\<close>: the batch that is due, if any, leaves the queue.\<close>

definition paced_step :: "batching_policy \<Rightarrow> scheduler \<Rightarrow> scheduler \<times> string option" where
  "paced_step b s =
     (let s1 = sched_poll s in
      if sched_idle s1 then (s1, None)
      else let (s2, due) = sched_should_send b s1 in
        if \<not> due then (s2, None)
        else case sched_peek s2 of None \<Rightarrow> (s2, None) | Some m \<Rightarrow> (sched_release s2, Some m))"

fun paced_run :: "batching_policy \<Rightarrow> nat \<Rightarrow> scheduler \<Rightarrow> string list" where
  "paced_run b 0 s = []"
| "paced_run b (Suc n) s = (case paced_step b s of (s', out) \<Rightarrow> (case out of None \<Rightarrow> [] | Some m \<Rightarrow> [m]) @ paced_run b n s')"

lemma paced_step_idle: "sch_queue s = [] \<Longrightarrow> snd (paced_step b s) = None \<and> sch_queue (fst (paced_step b s)) = []"
  by (simp add: paced_step_def sched_idle_def sched_poll_def Let_def)

lemma paced_run_idle: "sch_queue s = [] \<Longrightarrow> paced_run b n s = []"
proof (induction n arbitrary: s)
  case (Suc n)
  then show ?case using paced_step_idle [of s b] by (auto split: prod.splits)
qed simp

lemma paced_step_wait:
  assumes "bat_mode b = Paced" and "sch_poll_counter s + 1 < bat_interval b"
  shows "paced_step b s = (s\<lparr>sch_poll_counter := sch_poll_counter s + 1\<rparr>, None)"
  using assms by (simp add: paced_step_def sched_poll_def sched_should_send_def Let_def)

lemma paced_step_due:
  assumes "bat_mode b = Paced" and "bat_interval b \<le> sch_poll_counter s + 1" and "sch_queue s = m # ms"
  shows "paced_step b s = (s\<lparr>sch_poll_counter := 0, sch_queue := ms\<rparr>, Some m)"
  using assms
  by (simp add: paced_step_def sched_poll_def sched_should_send_def sched_idle_def sched_peek_def sched_release_def Let_def)

lemma paced_run_wait:
  "bat_mode b = Paced \<Longrightarrow> sch_poll_counter s + k < bat_interval b \<Longrightarrow>
   paced_run b (k + n) s = paced_run b n (s\<lparr>sch_poll_counter := sch_poll_counter s + k\<rparr>)"
proof (induction k arbitrary: s)
  case (Suc k)
  then show ?case by (simp add: paced_step_wait)
qed simp

lemma paced_run_queue:
  assumes b: "bat_mode b = Paced" "0 < bat_interval b" and "sch_poll_counter s = 0"
  shows "paced_run b (length (sch_queue s) * bat_interval b) s = sch_queue s"
  using assms(3)
proof (induction "sch_queue s" arbitrary: s)
  case Nil
  then show ?case by simp
next
  case (Cons m ms)
  obtain i where i: "bat_interval b = Suc i" using b(2) by (cases "bat_interval b") auto
  let ?s = "s\<lparr>sch_poll_counter := i\<rparr>"
  have "length (sch_queue s) * bat_interval b = i + Suc (length ms * bat_interval b)"
    using Cons.hyps(2) [symmetric] i by simp
  then have "paced_run b (length (sch_queue s) * bat_interval b) s = paced_run b (Suc (length ms * bat_interval b)) ?s"
    using paced_run_wait [OF b(1), of s i "Suc (length ms * bat_interval b)"] Cons.prems i by simp
  also have "\<dots> = m # paced_run b (length ms * bat_interval b) (?s\<lparr>sch_poll_counter := 0, sch_queue := ms\<rparr>)"
    using paced_step_due [OF b(1), of ?s m ms] Cons.hyps(2) i by simp
  also have "\<dots> = m # ms" using Cons.hyps(1) [of "?s\<lparr>sch_poll_counter := 0, sch_queue := ms\<rparr>"] by simp
  finally show ?case using Cons.hyps(2) by simp
qed

section \<open>Properties\<close>

text \<open>A paced scheduler emits its queued batches in order, one every \<^verbatim>\<open>emit_interval\<close>
  polls: after that many polls for each queued batch all of them have been emitted, each exactly once.\<close>

theorem paced_batches_drain:
  assumes "batching_ok b" and "bat_mode b = Paced" and "sch_poll_counter s = 0"
  shows "paced_run b (length (sch_queue s) * bat_interval b) s = sch_queue s"
  using assms by (intro paced_run_queue) (simp_all add: batching_ok_def)

theorem paced_batches_drain_witness:
  "paced_run \<lparr>bat_mode = Paced, bat_size = 1, bat_interval = 3\<rparr> 6
     (Scheduler_init\<lparr>sch_queue := [''a'', ''b'']\<rparr>) = [''a'', ''b'']"
  using paced_batches_drain [of "\<lparr>bat_mode = Paced, bat_size = 1, bat_interval = 3\<rparr>" "Scheduler_init\<lparr>sch_queue := [''a'', ''b'']\<rparr>"]
  by (simp add: batching_ok_def Scheduler_init_def)

end
