(* ===== verification/Session.thy ===== *)
theory Session
  imports Subscription_Controller Replay Connection_Run Ws_Engine Kraken_Json Request_Scheduler
begin

text \<open>
  \<^verbatim>\<open>protocol::Session\<close> (protocol/session.hpp): subscriptions, their replay after a reconnection and
  the poll loop over the connection. The message handler is the template argument
  \<^verbatim>\<open>ProtocolModel::message_handler\<close>: for every message it returns the calls it makes on the session's
  context and its result. The outcome of the \<open>n\<close>-th send comes from the environment \<open>senv\<close>; one
  reading of the clock \<open>now\<close> serves one call. \<open>None\<close> is the trap of a debug build: a call that
  reaches \<^verbatim>\<open>LCR_UNREACHABLE\<close> in the subscription manager or fails an assertion of a request writer or of the send path. The ghost fields record the number of sends
  attempted and the payloads sent.
\<close>

section \<open>State\<close>

record session_policy =
  sp_progress :: progress_policy
  sp_limit_hard :: bool
  sp_max_per_channel :: nat
  sp_max_global :: nat
  sp_replay :: bool
  sp_batching :: batching_policy
  sp_proactive :: bool
  sp_bp_mode :: backpressure_mode
  sp_escalation :: u32
  sp_conn :: conn_policy

record session =
  s_req_id_seq :: sequence
  s_conn :: connection
  s_sched :: scheduler
  s_ctl :: controller
  s_db :: database
  s_overload :: consecutive_state_counter
  s_sends :: nat
  s_sent :: "string list"

type_synonym send_env = "nat \<Rightarrow> conn_env"

definition Session_init :: "u64 \<Rightarrow> int \<Rightarrow> session" where
  "Session_init now conn_now = \<lparr>s_req_id_seq = sequence_init PROTOCOL_BASE, s_conn = Connection_init conn_now,
     s_sched = Scheduler_init, s_ctl = Controller_init now, s_db = Database_init,
     s_overload = \<lparr>csc_active = False, csc_consecutive = 0\<rparr>, s_sends = 0, s_sent = []\<rparr>"

section \<open>Sending\<close>

definition session_transmit :: "send_env \<Rightarrow> string \<Rightarrow> session \<Rightarrow> session \<times> bool" where
  "session_transmit senv json s =
     (let (c, ok) = conn_send (senv (s_sends s)) (s_conn s) in
      (s\<lparr>s_conn := c, s_sends := s_sends s + 1, s_sent := (if ok then s_sent s @ [json] else s_sent s)\<rparr>, ok))"

definition send_dynamic_request :: "send_env \<Rightarrow> nat \<Rightarrow> string option \<Rightarrow> session \<Rightarrow> (session \<times> bool) option" where
  "send_dynamic_request senv required json s =
     (if required > TX_BUFFER_CAPACITY then Some (s, False)
      else case json of
          None \<Rightarrow> None
        | Some msg \<Rightarrow> if length msg \<le> required then Some (session_transmit senv msg s) else None)"

definition send_static_request ::
  "send_env \<Rightarrow> nat \<Rightarrow> (req_id \<Rightarrow> string option) \<Rightarrow> req_id option \<Rightarrow> session \<Rightarrow> (session \<times> bool) option" where
  "send_static_request senv required json r s =
     (let (seq, n) = (case r of Some n \<Rightarrow> (s_req_id_seq s, n) | None \<Rightarrow> sequence_next (s_req_id_seq s)) in
      case json n of
        None \<Rightarrow> None
      | Some msg \<Rightarrow> if length msg \<le> required then Some (session_transmit senv msg (s\<lparr>s_req_id_seq := seq\<rparr>)) else None)"

text \<open>
  \<^verbatim>\<open>emit_request_\<close>: a request is its size bound and its writer as functions of its
  symbols. The batching concept excludes a batch size of zero, for which the loop would not end.
\<close>

definition emit_batch ::
  "send_env \<Rightarrow> batching_policy \<Rightarrow> nat \<Rightarrow> string option \<Rightarrow> session \<Rightarrow> (session \<times> bool) option" where
  "emit_batch senv bp required json s =
     (if bat_mode bp = Batch then send_dynamic_request senv required json s
      else map_option (\<lambda>(q, ok). (s\<lparr>s_sched := q\<rparr>, ok)) (sched_enqueue json (s_sched s)))"

function emit_batches ::
  "send_env \<Rightarrow> batching_policy \<Rightarrow> (symbol list \<Rightarrow> nat) \<Rightarrow> (symbol list \<Rightarrow> string option) \<Rightarrow> symbol list \<Rightarrow> session \<Rightarrow>
   (session \<times> bool) option" where
  "emit_batches senv bp mx wj symbols s =
     (if symbols = [] \<or> bat_size bp = 0 then Some (s, True)
      else
        let batch = take (bat_size bp) symbols in
        case emit_batch senv bp (mx batch) (wj batch) s of
          None \<Rightarrow> None
        | Some (s1, ok) \<Rightarrow>
            if \<not> ok then Some (s1, False) else emit_batches senv bp mx wj (drop (bat_size bp) symbols) s1)"
  by auto
termination by (relation "measure (\<lambda>(_, _, _, _, symbols, _). length symbols)") auto

declare emit_batches.simps [simp del]

definition emit_request ::
  "send_env \<Rightarrow> batching_policy \<Rightarrow> (symbol list \<Rightarrow> nat) \<Rightarrow> (symbol list \<Rightarrow> string option) \<Rightarrow> symbol list \<Rightarrow> session \<Rightarrow>
   (session \<times> bool) option" where
  "emit_request senv bp mx wj symbols s =
     (if bat_mode bp = Immediate then send_dynamic_request senv (mx symbols) (wj symbols) s
      else emit_batches senv bp mx wj symbols s)"

abbreviation emit_subscription :: "send_env \<Rightarrow> session_policy \<Rightarrow> sub_request \<Rightarrow> session \<Rightarrow> (session \<times> bool) option" where
  "emit_subscription senv pol req s \<equiv> emit_request senv (sp_batching pol)
     (\<lambda>ss. sub_max_json_size (req\<lparr>req_symbols := ss\<rparr>)) (\<lambda>ss. sub_write (req\<lparr>req_symbols := ss\<rparr>)) (req_symbols req) s"

section \<open>Subscribing\<close>

definition hard_symbol_limit_enforcement :: "session_policy \<Rightarrow> domain \<Rightarrow> nat \<Rightarrow> session \<Rightarrow> bool" where
  "hard_symbol_limit_enforcement pol d requested s =
     (if sp_max_per_channel pol > 0 \<and>
         manager_total_symbols (manager_for d (s_ctl s)) + requested > sp_max_per_channel pol then False
      else if sp_max_global pol > 0 \<and> ctl_total_symbols (s_ctl s) + requested > sp_max_global pol then False
      else True)"

definition assign_req_id :: "req_id option \<Rightarrow> session \<Rightarrow> session \<times> req_id" where
  "assign_req_id r s = (case r of
      Some n \<Rightarrow> (s, n)
    | None \<Rightarrow> (let (seq, n) = sequence_next (s_req_id_seq s) in (s\<lparr>s_req_id_seq := seq\<rparr>, n)))"

definition session_subscribe ::
  "(symbol \<Rightarrow> symbol_id) \<Rightarrow> session_policy \<Rightarrow> u64 \<Rightarrow> send_env \<Rightarrow> domain \<Rightarrow> sub_request \<Rightarrow> session \<Rightarrow> (session \<times> req_id) option" where
  "session_subscribe intern pol now senv d req s =
     (if sp_limit_hard pol \<and> \<not> hard_symbol_limit_enforcement pol d (length (req_symbols req)) s then Some (s, INVALID_REQ_ID)
      else
        let (s1, r) = assign_req_id (req_req_id req) s in
        case ctl_register_subscription intern now d (s_ctl s1) (req_symbols req) r of
          None \<Rightarrow> None
        | Some (ctl, accepted) \<Rightarrow>
            let s2 = s1\<lparr>s_ctl := ctl\<rparr> in
            if accepted = [] then Some (s2, INVALID_REQ_ID)
            else
              let req' = req\<lparr>req_symbols := accepted, req_req_id := Some r\<rparr>;
                  s3 = (if sp_replay pol then s2\<lparr>s_db := db_add intern d (s_db s2) req'\<rparr> else s2) in
              case emit_subscription senv pol req' s3 of
                None \<Rightarrow> None
              | Some (s4, ok) \<Rightarrow> if \<not> ok then Some (s4, INVALID_REQ_ID) else Some (s4, r))"

text \<open>An unsubscription is given by its symbols, its id and the settings of its channel; the JSON is sent first.\<close>

definition session_unsubscribe ::
  "(symbol \<Rightarrow> symbol_id) \<Rightarrow> session_policy \<Rightarrow> u64 \<Rightarrow> send_env \<Rightarrow> domain \<Rightarrow> symbol list \<Rightarrow> req_id option \<Rightarrow>
   unsub_params \<Rightarrow> session \<Rightarrow> (session \<times> req_id) option" where
  "session_unsubscribe intern pol now senv d symbols rid u s =
     (let (s1, r) = assign_req_id rid s in
      case emit_request senv (sp_batching pol) (unsub_max_json_size u r) (unsub_write u r) symbols s1 of
        None \<Rightarrow> None
      | Some (s2, ok) \<Rightarrow>
          if \<not> ok then Some (s2, INVALID_REQ_ID)
          else case ctl_register_unsubscription intern now d (s_ctl s2) symbols r of
              None \<Rightarrow> None
            | Some (ctl, cancelled) \<Rightarrow>
                let s3 = s2\<lparr>s_ctl := ctl\<rparr> in
                Some (if sp_replay pol
                      then s3\<lparr>s_db := fold (\<lambda>symbol db. db_remove_symbol intern d db symbol) cancelled (s_db s3)\<rparr>
                      else s3, r))"

text \<open>The one control request of the protocol is the ping.\<close>

definition session_send :: "send_env \<Rightarrow> req_id option \<Rightarrow> session \<Rightarrow> (session \<times> bool) option" where
  "session_send senv r s = send_static_request senv ping_max (\<lambda>n. ping_write (Some n)) r s"

section \<open>Replay\<close>

definition re_subscribe ::
  "(symbol \<Rightarrow> symbol_id) \<Rightarrow> session_policy \<Rightarrow> u64 \<Rightarrow> send_env \<Rightarrow> domain \<Rightarrow> sub_request \<Rightarrow> session \<Rightarrow> session option" where
  "re_subscribe intern pol now senv d req s =
     (case ctl_register_subscription intern now d (s_ctl s) (req_symbols req) (sub_req_id req) of
        None \<Rightarrow> None
      | Some (ctl, accepted) \<Rightarrow>
          let s1 = s\<lparr>s_ctl := ctl\<rparr> in
          if accepted = [] then Some s1
          else
            let req' = req\<lparr>req_symbols := accepted\<rparr>;
                s2 = (if sp_replay pol then s1\<lparr>s_db := db_add intern d (s_db s1) req'\<rparr> else s1) in
            map_option fst (emit_subscription senv pol req' s2))"

fun re_subscribe_all ::
  "(symbol \<Rightarrow> symbol_id) \<Rightarrow> session_policy \<Rightarrow> u64 \<Rightarrow> send_env \<Rightarrow> domain \<Rightarrow> sub_request list \<Rightarrow> session \<Rightarrow> session option" where
  "re_subscribe_all intern pol now senv d [] s = Some s"
| "re_subscribe_all intern pol now senv d (req # reqs) s =
     (case re_subscribe intern pol now senv d req s of
        None \<Rightarrow> None | Some s' \<Rightarrow> re_subscribe_all intern pol now senv d reqs s')"

definition replay_domain ::
  "(symbol \<Rightarrow> symbol_id) \<Rightarrow> session_policy \<Rightarrow> u64 \<Rightarrow> send_env \<Rightarrow> domain \<Rightarrow> session \<Rightarrow> session option" where
  "replay_domain intern pol now senv d s =
     (let (db, subs) = db_take_subscriptions d (s_db s) in
      re_subscribe_all intern pol now senv d subs (s\<lparr>s_db := db\<rparr>))"

definition do_replay ::
  "(symbol \<Rightarrow> symbol_id) \<Rightarrow> session_policy \<Rightarrow> u64 \<Rightarrow> send_env \<Rightarrow> session \<Rightarrow> session option" where
  "do_replay intern pol now senv s =
     (if epoch (s_conn s) > 1
      then case replay_domain intern pol now senv TradeDomain s of
          None \<Rightarrow> None | Some s' \<Rightarrow> replay_domain intern pol now senv BookDomain s'
      else Some s)"

definition handle_connect ::
  "(symbol \<Rightarrow> symbol_id) \<Rightarrow> session_policy \<Rightarrow> u64 \<Rightarrow> send_env \<Rightarrow> session \<Rightarrow> session option" where
  "handle_connect intern pol now senv s = (if sp_replay pol then do_replay intern pol now senv s else Some s)"

definition handle_disconnect :: "u64 \<Rightarrow> session \<Rightarrow> session" where
  "handle_disconnect now s = s\<lparr>s_ctl := ctl_clear_all now (s_ctl s), s_overload := csc_reset (s_overload s)\<rparr>"

section \<open>Events\<close>

datatype ctx_call =
    CtxSubscribeAck domain req_id symbol bool
  | CtxUnsubscribeAck domain req_id symbol bool
  | CtxRejection req_id symbol

definition handle_rejection :: "(symbol \<Rightarrow> symbol_id) \<Rightarrow> session_policy \<Rightarrow> u64 \<Rightarrow> req_id \<Rightarrow> symbol \<Rightarrow> session \<Rightarrow> session" where
  "handle_rejection intern pol now r symbol s =
     (let s1 = s\<lparr>s_ctl := fst (ctl_try_process_rejection intern now (s_ctl s) r symbol)\<rparr> in
      if sp_replay pol then s1\<lparr>s_db := fst (db_try_process_rejection intern (s_db s1) r symbol)\<rparr> else s1)"

fun context_call :: "(symbol \<Rightarrow> symbol_id) \<Rightarrow> session_policy \<Rightarrow> u64 \<Rightarrow> ctx_call \<Rightarrow> session \<Rightarrow> session" where
  "context_call intern pol now (CtxSubscribeAck d r symbol success) s =
     s\<lparr>s_ctl := ctl_process_subscribe_ack intern now d (s_ctl s) r symbol success\<rparr>"
| "context_call intern pol now (CtxUnsubscribeAck d r symbol success) s =
     (let s1 = s\<lparr>s_ctl := ctl_process_unsubscribe_ack intern now d (s_ctl s) r symbol success\<rparr> in
      if sp_replay pol \<and> success then s1\<lparr>s_db := db_remove_symbol intern d (s_db s1) symbol\<rparr> else s1)"
| "context_call intern pol now (CtxRejection r symbol) s = handle_rejection intern pol now r symbol s"

fun handle_connection_signal ::
  "(symbol \<Rightarrow> symbol_id) \<Rightarrow> session_policy \<Rightarrow> u64 \<Rightarrow> send_env \<Rightarrow> signal \<Rightarrow> session \<Rightarrow> session option" where
  "handle_connection_signal intern pol now senv SigConnected s = handle_connect intern pol now senv s"
| "handle_connection_signal intern pol now senv SigDisconnected s = Some (handle_disconnect now s)"
| "handle_connection_signal intern pol now senv SigLivenessThreatened s =
     (if sp_proactive pol then map_option fst (send_static_request senv ping_max (\<lambda>n. ping_write (Some n)) (Some PING_ID) s)
      else Some s)"
| "handle_connection_signal intern pol now senv SigBackpressureDetected s =
     Some (s\<lparr>s_overload := csc_set_active (s_overload s) True\<rparr>)"
| "handle_connection_signal intern pol now senv SigBackpressureCleared s =
     Some (s\<lparr>s_overload := csc_set_active (s_overload s) False\<rparr>)"
| "handle_connection_signal intern pol now senv _ s = Some s"

section \<open>What sending changes\<close>

text \<open>
  Requests reach the connection only through \<^verbatim>\<open>send\<close>, which touches the counters of the connection and nothing
  the state machine reads; the subscription state and the replay database stay as they are.
\<close>

definition sends_to :: "connection \<Rightarrow> connection \<Rightarrow> bool" where
  "sends_to c c' \<longleftrightarrow> (\<exists>envs. c' = fold (\<lambda>env c. fst (conn_send env c)) envs c)"

definition same_books :: "session \<Rightarrow> session \<Rightarrow> bool" where
  "same_books s s' \<longleftrightarrow> s_ctl s' = s_ctl s \<and> s_db s' = s_db s \<and> s_overload s' = s_overload s \<and>
     sends_to (s_conn s) (s_conn s')"

lemma sends_to_refl [simp]: "sends_to c c"
  unfolding sends_to_def by (rule exI [of _ "[]"]) simp

lemma sends_to_send [simp]: "sends_to c (fst (conn_send env c))"
  unfolding sends_to_def by (rule exI [of _ "[env]"]) simp

lemma sends_to_trans: "sends_to c c' \<Longrightarrow> sends_to c' c'' \<Longrightarrow> sends_to c c''"
  unfolding sends_to_def by (metis fold_append o_apply)

lemma sends_to_keep:
  assumes "sends_to c c'"
  shows "signals c' = signals c" and "state c' = state c" and "epoch c' = epoch c" and "ws c' = ws c"
    and "message_ring c' = message_ring c" and "conn_ok pol c \<Longrightarrow> conn_ok pol c'"
proof -
  obtain envs where c': "c' = fold (\<lambda>env c. fst (conn_send env c)) envs c" using assms by (auto simp: sends_to_def)
  show "signals c' = signals c" "state c' = state c" "epoch c' = epoch c" "ws c' = ws c"
    "message_ring c' = message_ring c"
    unfolding c' by (induction envs arbitrary: c) (simp_all add: conn_send_def)
  show "conn_ok pol c \<Longrightarrow> conn_ok pol c'"
    unfolding c' by (induction envs arbitrary: c) (simp_all add: conn_send_ok)
qed

lemma same_books_refl [simp]: "same_books s s"
  by (simp add: same_books_def)

lemma same_books_trans: "same_books s s' \<Longrightarrow> same_books s' s'' \<Longrightarrow> same_books s s''"
  by (auto simp: same_books_def intro: sends_to_trans)

lemma same_books_sched [simp]: "same_books s (s\<lparr>s_sched := q\<rparr>)"
  by (simp add: same_books_def)

lemma same_books_seq [simp]: "same_books s (s\<lparr>s_req_id_seq := q\<rparr>)"
  by (simp add: same_books_def)

lemma transmit_books: "same_books s (fst (session_transmit senv json s))"
  using sends_to_send [of "s_conn s" "senv (s_sends s)"]
  by (simp add: session_transmit_def same_books_def case_prod_unfold Let_def)

lemma dynamic_books: "send_dynamic_request senv n json s = Some (s', ok) \<Longrightarrow> same_books s s'"
  using transmit_books by (force simp: send_dynamic_request_def split: if_splits option.splits dest: arg_cong [of _ _ fst])

lemma static_books: "send_static_request senv n json r s = Some (s', ok) \<Longrightarrow> same_books s s'"
  unfolding send_static_request_def Let_def
  by (auto split: prod.splits option.splits if_splits dest!: arg_cong [of _ _ fst]
      intro: transmit_books same_books_trans [OF same_books_seq transmit_books])

lemma emit_batch_books: "emit_batch senv bp n json s = Some (s', ok) \<Longrightarrow> same_books s s'"
  using dynamic_books by (auto simp: emit_batch_def split: if_splits)

lemma emit_batches_books: "emit_batches senv bp mx wj symbols s = Some (s', ok) \<Longrightarrow> same_books s s'"
proof (induction senv bp mx wj symbols s rule: emit_batches.induct)
  case (1 senv bp mx wj symbols s)
  let ?batch = "take (bat_size bp) symbols"
  show ?case
  proof (cases "symbols = [] \<or> bat_size bp = 0")
    case True
    then show ?thesis using "1.prems" by (subst (asm) emit_batches.simps) auto
  next
    case False
    then obtain s1 ok1 where b: "emit_batch senv bp (mx ?batch) (wj ?batch) s = Some (s1, ok1)"
      "(if \<not> ok1 then Some (s1, False) else emit_batches senv bp mx wj (drop (bat_size bp) symbols) s1) = Some (s', ok)"
      using "1.prems" by (subst (asm) emit_batches.simps) (auto simp: Let_def split: option.splits)
    have "same_books s1 s'" using "1.IH" [OF False refl b(1) refl] b(2) by (auto split: if_splits)
    then show ?thesis using emit_batch_books [OF b(1)] by (rule same_books_trans [rotated])
  qed
qed

lemma emit_books: "emit_request senv bp mx wj symbols s = Some (s', ok) \<Longrightarrow> same_books s s'"
  by (auto simp: emit_request_def split: if_splits dest: dynamic_books emit_batches_books)

text \<open>A writer that succeeds, within its bound, on every batch of the symbols.\<close>

definition writes_batches :: "(symbol list \<Rightarrow> nat) \<Rightarrow> (symbol list \<Rightarrow> string option) \<Rightarrow> symbol list \<Rightarrow> bool" where
  "writes_batches mx wj symbols \<longleftrightarrow>
     (\<forall>ss. ss \<noteq> [] \<and> set ss \<subseteq> set symbols \<longrightarrow> (\<exists>json. wj ss = Some json \<and> length json \<le> mx ss))"

lemma writes_batchesD:
  assumes "writes_batches mx wj symbols" and "ss \<noteq> []" and "set ss \<subseteq> set symbols"
  obtains json where "wj ss = Some json" and "length json \<le> mx ss"
  using assms unfolding writes_batches_def by blast

lemma emit_batches_returns: "writes_batches mx wj symbols \<Longrightarrow> emit_batches senv bp mx wj symbols s \<noteq> None"
proof (induction senv bp mx wj symbols s rule: emit_batches.induct)
  case (1 senv bp mx wj symbols s)
  let ?batch = "take (bat_size bp) symbols"
  show ?case
  proof (cases "symbols = [] \<or> bat_size bp = 0")
    case False
    then obtain json where j: "wj ?batch = Some json" "length json \<le> mx ?batch"
      using writes_batchesD [OF "1.prems", of ?batch] by (auto simp: set_take_subset)
    have rest: "writes_batches mx wj (drop (bat_size bp) symbols)"
      using "1.prems" set_drop_subset [of "bat_size bp" symbols] unfolding writes_batches_def by (meson order_trans)
    have "emit_batch senv bp (mx ?batch) (wj ?batch) s \<noteq> None"
      using j by (simp add: emit_batch_def send_dynamic_request_def sched_enqueue_def del: not_None_eq)
    then obtain s1 ok where b: "emit_batch senv bp (mx ?batch) (wj ?batch) s = Some (s1, ok)" by auto
    show ?thesis
    proof (cases ok)
      case True
      then show ?thesis using "1.IH" [OF False refl b refl _ rest] b False by (subst emit_batches.simps) (simp add: Let_def del: not_None_eq)
    next
      case no: False
      then show ?thesis using b False by (subst emit_batches.simps) (simp add: Let_def del: not_None_eq)
    qed
  qed (subst emit_batches.simps, simp del: not_None_eq)
qed

lemma emit_returns:
  assumes "writes_batches mx wj symbols" and "symbols \<noteq> []"
  obtains s' ok where "emit_request senv bp mx wj symbols s = Some (s', ok)" and "same_books s s'"
proof -
  have "emit_request senv bp mx wj symbols s \<noteq> None"
  proof (cases "bat_mode bp = Immediate")
    case True
    obtain json where "wj symbols = Some json" "length json \<le> mx symbols" using writes_batchesD [OF assms] by blast
    then show ?thesis using True by (simp add: emit_request_def send_dynamic_request_def del: not_None_eq)
  next
    case False
    then show ?thesis using emit_batches_returns [OF assms(1), of senv bp s] by (simp add: emit_request_def del: not_None_eq)
  qed
  then show thesis using that emit_books by fast
qed

lemma sub_writes_batches:
  assumes "request_ok req" and "req_req_id req = Some r" and "r \<noteq> 0"
  shows "writes_batches (\<lambda>ss. sub_max_json_size (req\<lparr>req_symbols := ss\<rparr>)) (\<lambda>ss. sub_write (req\<lparr>req_symbols := ss\<rparr>))
    (req_symbols req)"
  unfolding writes_batches_def
proof (intro allI impI)
  fix ss assume ss: "ss \<noteq> [] \<and> set ss \<subseteq> set (req_symbols req)"
  have "request_ok (req\<lparr>req_symbols := ss\<rparr>)" using assms(1) ss by (auto simp: request_ok_def)
  from sub_write_ok [OF this] show "\<exists>json. sub_write (req\<lparr>req_symbols := ss\<rparr>) = Some json \<and>
      length json \<le> sub_max_json_size (req\<lparr>req_symbols := ss\<rparr>)" using ss assms(2,3) by simp
qed

lemma unsub_writes_batches:
  "unsub_params_ok u \<Longrightarrow> \<forall>x \<in> set symbols. printable_name x \<Longrightarrow> r \<noteq> 0 \<Longrightarrow>
   writes_batches (unsub_max_json_size u r) (unsub_write u r) symbols"
  unfolding writes_batches_def by (meson subset_iff unsub_write_ok)

lemma ping_returns:
  assumes "snd (assign_req_id r s) \<noteq> 0"
  obtains s' ok where "send_static_request senv ping_max (\<lambda>n. ping_write (Some n)) r s = Some (s', ok)" and "same_books s s'"
proof -
  have "send_static_request senv ping_max (\<lambda>n. ping_write (Some n)) r s \<noteq> None"
    using assms ping_write_ok other_requests_fit(4)
    by (cases r) (simp_all add: send_static_request_def assign_req_id_def sequence_next_def)
  then show thesis using that static_books by fast
qed

section \<open>What a replay changes\<close>

lemma db_set_table_same [simp]: "db_set_table d db (db_table d db) = db"
  by (cases d) simp_all

lemma db_set_table_twice [simp]: "db_set_table d (db_set_table d db t) t' = db_set_table d db t'"
  by (cases d) simp_all

definition sub_ids :: "(symbol \<Rightarrow> symbol_id) \<Rightarrow> sub_request \<Rightarrow> symbol_id set" where
  "sub_ids intern req = intern ` set (req_symbols req)"

text \<open>The requests of the database, which pass the assertions of their writers when they are sent again.\<close>

definition stored_ok :: "sub_request \<Rightarrow> bool" where
  "stored_ok req \<longleftrightarrow> request_ok req \<and> (case req_req_id req of None \<Rightarrow> False | Some r \<Rightarrow> r \<noteq> 0)"

definition table_valid :: "sub_params replay_table \<Rightarrow> bool" where
  "table_valid t \<longleftrightarrow> (\<forall>r req. map_of (subscriptions t) r = Some req \<longrightarrow> stored_ok req)"

definition db_valid :: "database \<Rightarrow> bool" where
  "db_valid db \<longleftrightarrow> (\<forall>d. table_valid (db_table d db))"

lemma stored_ok_subset: "stored_ok req \<Longrightarrow> set ss \<subseteq> set (req_symbols req) \<Longrightarrow> stored_ok (req\<lparr>req_symbols := ss\<rparr>)"
  by (auto simp: stored_ok_def request_ok_def)

lemma table_valid_init: "table_valid Table_init"
  by (simp add: table_valid_def Table_init_def)

lemma table_valid_add:
  assumes "table_valid t" and "stored_ok req"
  shows "table_valid (fst (table_add intern t req))"
  using assms stored_ok_subset [OF assms(2)]
  by (auto simp: table_valid_def table_add_def update_conv' Let_def split: option.splits if_splits)

lemma table_valid_store:
  "table_valid t \<Longrightarrow> stored_ok req \<Longrightarrow> table_valid (table_store t r req sid)"
  by (auto simp: table_valid_def table_store_def update_conv' delete_conv' restrict_map_def split: if_splits)

lemma stored_ok_erase: "stored_ok req \<Longrightarrow> stored_ok (fst (sub_erase_symbol req x))"
  by (auto simp: sub_erase_symbol_def Let_def intro: stored_ok_subset)

lemma table_valid_erase: "table_valid t \<Longrightarrow> table_valid (table_erase_symbol intern t x)"
  using stored_ok_erase
  by (fastforce simp: table_erase_symbol_def Let_def case_prod_unfold table_valid_def [of t] intro: table_valid_store
      split: option.splits if_splits simp: table_valid_def [of "t\<lparr>symbol_owner := al\<rparr>" for al])

lemma table_valid_reject: "table_valid t \<Longrightarrow> table_valid (fst (table_try_process_rejection intern t r x))"
  using stored_ok_erase
  by (auto simp: table_try_process_rejection_def sub_try_process_rejection_def Let_def case_prod_unfold
      table_valid_def [of t] intro!: table_valid_store split: option.splits if_splits)

lemma db_valid_domains: "db_valid db \<longleftrightarrow> table_valid (trade_table db) \<and> table_valid (book_table db)"
  unfolding db_valid_def by (metis db_table.simps domain.exhaust)

lemma db_valid_set: "db_valid db \<Longrightarrow> table_valid t \<Longrightarrow> db_valid (db_set_table d db t)"
  by (cases d) (simp_all add: db_valid_domains)

lemma db_validD: "db_valid db \<Longrightarrow> table_valid (db_table d db)"
  by (simp add: db_valid_def)

lemma db_valid_init: "db_valid Database_init"
  by (simp add: db_valid_domains Database_init_def table_valid_init)

lemma db_valid_add: "db_valid db \<Longrightarrow> stored_ok req \<Longrightarrow> db_valid (db_add intern d db req)"
  by (simp add: db_add_def db_valid_set table_valid_add db_validD)

lemma db_valid_remove: "db_valid db \<Longrightarrow> db_valid (db_remove_symbol intern d db x)"
  by (simp add: db_remove_symbol_def db_valid_set table_valid_erase db_validD)

lemma db_valid_reject: "db_valid db \<Longrightarrow> db_valid (fst (db_try_process_rejection intern db r x))"
  using table_valid_reject
  by (auto simp: db_try_process_rejection_def db_valid_domains Let_def case_prod_unfold)

text \<open>A request whose symbols are all inactive is registered, stored and emitted unchanged.\<close>

lemma re_subscribe_facts:
  assumes "ctl_ok (s_ctl s)" and "sp_replay pol" and "req_symbols req \<noteq> []"
    and "\<forall>sid \<in> sub_ids intern req. ctl_state (s_ctl s) d sid = Inactive" and "stored_ok req"
  shows "\<exists>s1 s2 ok. re_subscribe intern pol now senv d req s = Some s2 \<and> emit_subscription senv pol req s1 = Some (s2, ok) \<and>
    same_books s1 s2 \<and> s_conn s1 = s_conn s \<and> s_sends s1 = s_sends s \<and> s_sent s1 = s_sent s \<and> s_overload s1 = s_overload s \<and>
    s_db s1 = db_add intern d (s_db s) req \<and> ctl_ok (s_ctl s1) \<and>
    ctl_state (s_ctl s1) = (ctl_state (s_ctl s))(d := \<lambda>sid. if sid \<in> sub_ids intern req
      then Subscribing (sub_req_id req) else ctl_state (s_ctl s) d sid)"
proof -
  have f: "filter (\<lambda>x. ctl_state (s_ctl s) d (intern x) = Inactive) (req_symbols req) = req_symbols req"
    using assms(4) by (simp add: sub_ids_def filter_id_conv)
  obtain c' where c': "ctl_register_subscription intern now d (s_ctl s) (req_symbols req) (sub_req_id req) =
      Some (c', req_symbols req)" "ctl_ok c'"
    "ctl_state c' = (ctl_state (s_ctl s))(d := \<lambda>sid. if sid \<in> intern ` set (req_symbols req)
      then on_subscribe (sub_req_id req) (ctl_state (s_ctl s) d sid) else ctl_state (s_ctl s) d sid)"
    using ctl_register_subscription_facts [OF assms(1), of intern now d "req_symbols req" "sub_req_id req", unfolded f]
    by blast
  let ?s1 = "s\<lparr>s_ctl := c', s_db := db_add intern d (s_db s) req\<rparr>"
  have "req\<lparr>req_symbols := req_symbols req\<rparr> = req" by simp
  then have re: "re_subscribe intern pol now senv d req s = map_option fst (emit_subscription senv pol req ?s1)"
    using assms(2,3) by (simp add: re_subscribe_def c'(1) Let_def)
  obtain r where "req_req_id req = Some r" "r \<noteq> 0" "request_ok req"
    using assms(5) by (auto simp: stored_ok_def split: option.splits)
  then have "writes_batches (\<lambda>ss. sub_max_json_size (req\<lparr>req_symbols := ss\<rparr>)) (\<lambda>ss. sub_write (req\<lparr>req_symbols := ss\<rparr>))
      (req_symbols req)" by (intro sub_writes_batches)
  then obtain s2 ok where s2: "emit_subscription senv pol req ?s1 = Some (s2, ok)" "same_books ?s1 s2"
    using emit_returns [OF _ assms(3)] by blast
  have "ctl_state c' = (ctl_state (s_ctl s))(d := \<lambda>sid. if sid \<in> sub_ids intern req
      then Subscribing (sub_req_id req) else ctl_state (s_ctl s) d sid)"
    using assms(4) unfolding c'(3) by (auto simp: sub_ids_def fun_eq_iff)
  then show ?thesis using c'(2) re s2 by (intro exI [of _ ?s1] exI [of _ s2] exI [of _ ok]) simp
qed

definition disjoint_ids :: "(symbol \<Rightarrow> symbol_id) \<Rightarrow> sub_request list \<Rightarrow> bool" where
  "disjoint_ids intern reqs \<longleftrightarrow> distinct (map sub_req_id reqs) \<and> (\<forall>q \<in> set reqs. \<forall>q' \<in> set reqs.
     sub_ids intern q \<inter> sub_ids intern q' \<noteq> {} \<longrightarrow> sub_req_id q = sub_req_id q')"

lemma disjoint_ids_Cons:
  assumes "disjoint_ids intern (q # reqs)"
  shows "disjoint_ids intern reqs" and "q' \<in> set reqs \<Longrightarrow> sub_ids intern q \<inter> sub_ids intern q' = {}"
proof -
  show "disjoint_ids intern reqs" using assms by (simp add: disjoint_ids_def)
  assume q': "q' \<in> set reqs"
  then have "sub_req_id q \<noteq> sub_req_id q'" using assms by (auto simp: disjoint_ids_def)
  then show "sub_ids intern q \<inter> sub_ids intern q' = {}" using assms q' by (force simp: disjoint_ids_def)
qed

lemma re_subscribe_all_facts:
  assumes "ctl_ok (s_ctl s)" and "sp_replay pol" and "disjoint_ids intern reqs"
    and "\<forall>q \<in> set reqs. req_symbols q \<noteq> [] \<and> (\<forall>sid \<in> sub_ids intern q. ctl_state (s_ctl s) d sid = Inactive)"
    and "\<forall>q \<in> set reqs. stored_ok q"
  shows "\<exists>s'. re_subscribe_all intern pol now senv d reqs s = Some s' \<and> ctl_ok (s_ctl s') \<and>
    s_db s' = db_set_table d (s_db s) (table_add_all intern reqs (db_table d (s_db s))) \<and>
    (\<forall>q \<in> set reqs. \<forall>sid \<in> sub_ids intern q. ctl_state (s_ctl s') d sid = Subscribing (sub_req_id q)) \<and>
    (\<forall>sid. (\<forall>q \<in> set reqs. sid \<notin> sub_ids intern q) \<longrightarrow> ctl_state (s_ctl s') d sid = ctl_state (s_ctl s) d sid) \<and>
    (\<forall>d'. d' \<noteq> d \<longrightarrow> ctl_state (s_ctl s') d' = ctl_state (s_ctl s) d') \<and>
    s_overload s' = s_overload s \<and> sends_to (s_conn s) (s_conn s')"
  using assms(1,3,4,5)
proof (induction reqs arbitrary: s)
  case Nil
  then show ?case by (simp add: table_add_all_def)
next
  case (Cons q reqs)
  note D = disjoint_ids_Cons [OF Cons.prems(2)]
  obtain s1 s2 ok where s1: "re_subscribe intern pol now senv d q s = Some s2"
    "s_conn s1 = s_conn s" "s_db s1 = db_add intern d (s_db s) q" "ctl_ok (s_ctl s1)" "s_overload s1 = s_overload s"
    "ctl_state (s_ctl s1) = (ctl_state (s_ctl s))(d := \<lambda>sid. if sid \<in> sub_ids intern q
      then Subscribing (sub_req_id q) else ctl_state (s_ctl s) d sid)" and same: "same_books s1 s2"
    using re_subscribe_facts [OF Cons.prems(1) assms(2), of q intern d now senv] Cons.prems(3,4) by auto
  have keep: "s_ctl s2 = s_ctl s1" "s_db s2 = s_db s1" "s_overload s2 = s_overload s1" "sends_to (s_conn s1) (s_conn s2)"
    using same by (simp_all add: same_books_def)
  have "\<forall>q' \<in> set reqs. req_symbols q' \<noteq> [] \<and> (\<forall>sid \<in> sub_ids intern q'. ctl_state (s_ctl s2) d sid = Inactive)"
    using Cons.prems(3) D(2) by (fastforce simp: keep s1(6))
  then obtain s' where s': "re_subscribe_all intern pol now senv d reqs s2 = Some s'" "ctl_ok (s_ctl s')"
    "s_db s' = db_set_table d (s_db s2) (table_add_all intern reqs (db_table d (s_db s2)))"
    "\<forall>q \<in> set reqs. \<forall>sid \<in> sub_ids intern q. ctl_state (s_ctl s') d sid = Subscribing (sub_req_id q)"
    "\<forall>sid. (\<forall>q \<in> set reqs. sid \<notin> sub_ids intern q) \<longrightarrow> ctl_state (s_ctl s') d sid = ctl_state (s_ctl s2) d sid"
    "\<forall>d'. d' \<noteq> d \<longrightarrow> ctl_state (s_ctl s') d' = ctl_state (s_ctl s2) d'"
    "s_overload s' = s_overload s2" "sends_to (s_conn s2) (s_conn s')"
    using Cons.IH [of s2] D(1) s1(4) keep(1) Cons.prems(4) by auto
  have all: "re_subscribe_all intern pol now senv d (q # reqs) s = Some s'" by (simp add: s1(1) s'(1))
  have db: "s_db s' = db_set_table d (s_db s) (table_add_all intern (q # reqs) (db_table d (s_db s)))"
    by (simp add: s'(3) keep(2) s1(3) db_add_def table_add_all_def)
  have mine: "ctl_state (s_ctl s') d sid = Subscribing (sub_req_id q)" if "sid \<in> sub_ids intern q" for sid
  proof -
    have "\<forall>q' \<in> set reqs. sid \<notin> sub_ids intern q'" using D(2) that by blast
    then show ?thesis using s'(5) that by (simp add: keep(1) s1(6))
  qed
  show ?case
    using all s'(2,4,5,6,7) db mine sends_to_trans [OF keep(4) s'(8)]
    by (intro exI [of _ s']) (auto simp: keep s1)
qed

text \<open>The requests of a table in its invariant.\<close>

lemma table_requests:
  assumes "table_ok K intern t"
  shows "disjoint_ids intern (map snd (subscriptions t))"
    and "\<forall>q \<in> set (map snd (subscriptions t)). req_symbols q \<noteq> []"
    and "table_owner t sid = Some r \<longleftrightarrow> (\<exists>q \<in> set (map snd (subscriptions t)). sub_req_id q = r \<and> sid \<in> sub_ids intern q)"
proof -
  note entry = map_of_eq_Some_iff [OF table_okD(1) [OF assms], symmetric]
  have id: "sub_req_id q = r" if "(r, q) \<in> set (subscriptions t)" for r q
    using table_okD(3) [OF assms] that unfolding entry by (simp add: sub_req_id_def)
  show owner: "table_owner t sid = Some r \<longleftrightarrow>
      (\<exists>q \<in> set (map snd (subscriptions t)). sub_req_id q = r \<and> sid \<in> sub_ids intern q)" for sid r
  proof
    assume "table_owner t sid = Some r"
    then obtain q where q: "(r, q) \<in> set (subscriptions t)" "sid \<in> sub_ids intern q"
      using table_okD(6) [OF assms, of sid r] unfolding sub_ids_def by (auto dest: map_of_SomeD)
    then show "\<exists>q \<in> set (map snd (subscriptions t)). sub_req_id q = r \<and> sid \<in> sub_ids intern q"
      using id [OF q(1)] by force
  next
    assume "\<exists>q \<in> set (map snd (subscriptions t)). sub_req_id q = r \<and> sid \<in> sub_ids intern q"
    then obtain r' q where q: "(r', q) \<in> set (subscriptions t)" "sub_req_id q = r" "sid \<in> sub_ids intern q" by force
    then have "map_of (subscriptions t) r = Some q" using id [OF q(1)] unfolding entry by simp
    then show "table_owner t sid = Some r"
      using q(3) table_okD(6) [OF assms, of sid r] unfolding sub_ids_def by blast
  qed
  have "map sub_req_id (map snd (subscriptions t)) = map fst (subscriptions t)"
    using id by (auto simp: case_prod_unfold)
  then have "distinct (map sub_req_id (map snd (subscriptions t)))" using table_okD(1) [OF assms] by argo
  moreover have "sub_req_id q = sub_req_id q'" if "q \<in> set (map snd (subscriptions t))"
    "q' \<in> set (map snd (subscriptions t))" "sub_ids intern q \<inter> sub_ids intern q' \<noteq> {}" for q q'
    using that owner by (metis disjoint_iff option.inject)
  ultimately show "disjoint_ids intern (map snd (subscriptions t))" unfolding disjoint_ids_def by blast
  have "req_symbols q \<noteq> []" if "(r, q) \<in> set (subscriptions t)" for r q
    using table_okD(4) [OF assms] that unfolding entry .
  then show "\<forall>q \<in> set (map snd (subscriptions t)). req_symbols q \<noteq> []" by auto
qed

lemma replay_domain_facts:
  assumes "ctl_ok (s_ctl s)" and "db_ok K intern (s_db s)" and "sp_replay pol"
    and "\<forall>sid. ctl_state (s_ctl s) d sid = Inactive" and "table_valid (db_table d (s_db s))"
  shows "\<exists>s'. replay_domain intern pol now senv d s = Some s' \<and> ctl_ok (s_ctl s') \<and> db_ok K intern (s_db s') \<and>
    map_of (subscriptions (db_table d (s_db s'))) = map_of (subscriptions (db_table d (s_db s))) \<and>
    table_owner (db_table d (s_db s')) = table_owner (db_table d (s_db s)) \<and>
    (\<forall>d'. d' \<noteq> d \<longrightarrow> db_table d' (s_db s') = db_table d' (s_db s) \<and> ctl_state (s_ctl s') d' = ctl_state (s_ctl s) d') \<and>
    (\<forall>sid. ctl_state (s_ctl s') d sid =
       (case table_owner (db_table d (s_db s)) sid of None \<Rightarrow> Inactive | Some r \<Rightarrow> Subscribing r)) \<and>
    s_overload s' = s_overload s \<and> sends_to (s_conn s) (s_conn s')"
proof -
  let ?t = "db_table d (s_db s)"
  have ok: "table_ok K intern ?t" using assms(2) by (simp add: db_ok_def)
  let ?s = "s\<lparr>s_db := db_set_table d (s_db s) (fst (table_take_subscriptions ?t))\<rparr>"
  let ?reqs = "map snd (subscriptions ?t)"
  have eq: "replay_domain intern pol now senv d s = re_subscribe_all intern pol now senv d ?reqs ?s"
    by (simp add: replay_domain_def db_take_subscriptions_def table_take_subscriptions_def)
  have valid: "\<forall>q \<in> set ?reqs. stored_ok q"
    using assms(5) map_of_eq_Some_iff [OF table_okD(1) [OF ok]] by (fastforce simp: table_valid_def)
  note R = table_requests [OF ok] and T = table_replay [OF ok]
  obtain s' where s': "re_subscribe_all intern pol now senv d ?reqs ?s = Some s'" "ctl_ok (s_ctl s')"
    "s_db s' = db_set_table d (s_db ?s) (table_add_all intern ?reqs (db_table d (s_db ?s)))"
    "\<forall>q \<in> set ?reqs. \<forall>sid \<in> sub_ids intern q. ctl_state (s_ctl s') d sid = Subscribing (sub_req_id q)"
    "\<forall>sid. (\<forall>q \<in> set ?reqs. sid \<notin> sub_ids intern q) \<longrightarrow> ctl_state (s_ctl s') d sid = ctl_state (s_ctl s) d sid"
    "\<forall>d'. d' \<noteq> d \<longrightarrow> ctl_state (s_ctl s') d' = ctl_state (s_ctl s) d'"
    "s_overload s' = s_overload s" "sends_to (s_conn s) (s_conn s')"
    using re_subscribe_all_facts [of ?s pol intern ?reqs d now senv] assms(1,3,4) R(1,2) valid by auto
  have db: "s_db s' = db_set_table d (s_db s)
      (table_add_all intern (snd (table_take_subscriptions ?t)) (fst (table_take_subscriptions ?t)))"
    by (simp add: s'(3)) (simp add: table_take_subscriptions_def)
  have st: "ctl_state (s_ctl s') d sid = (case table_owner ?t sid of None \<Rightarrow> Inactive | Some r \<Rightarrow> Subscribing r)" for sid
  proof (cases "table_owner ?t sid")
    case None
    then have "\<forall>q \<in> set ?reqs. sid \<notin> sub_ids intern q" using R(3) by (metis option.distinct(1))
    then show ?thesis using s'(5) assms(4) None by simp
  next
    case (Some r)
    then obtain q where "q \<in> set ?reqs" "sub_req_id q = r" "sid \<in> sub_ids intern q" using R(3) by blast
    then show ?thesis using s'(4) Some by (metis option.simps(5))
  qed
  have "db_ok K intern (s_db s')" using assms(2) T(1) by (simp add: db_ok_def db)
  then show ?thesis
    unfolding eq using s'(1,2,6,7,8) st T(2,3) by (intro exI [of _ s']) (simp add: db)
qed

lemma do_replay_facts:
  assumes "ctl_ok (s_ctl s)" and "db_ok K intern (s_db s)" and "sp_replay pol" and "epoch (s_conn s) > 1"
    and "\<forall>d sid. ctl_state (s_ctl s) d sid = Inactive" and "db_valid (s_db s)"
  shows "\<exists>s'. do_replay intern pol now senv s = Some s' \<and> ctl_ok (s_ctl s') \<and> db_ok K intern (s_db s') \<and>
    (\<forall>d. map_of (subscriptions (db_table d (s_db s'))) = map_of (subscriptions (db_table d (s_db s))) \<and>
      table_owner (db_table d (s_db s')) = table_owner (db_table d (s_db s)) \<and>
      (\<forall>sid. ctl_state (s_ctl s') d sid =
         (case table_owner (db_table d (s_db s)) sid of None \<Rightarrow> Inactive | Some r \<Rightarrow> Subscribing r))) \<and>
    s_overload s' = s_overload s \<and> sends_to (s_conn s) (s_conn s')"
proof -
  obtain s1 where s1: "replay_domain intern pol now senv TradeDomain s = Some s1" "ctl_ok (s_ctl s1)" "db_ok K intern (s_db s1)"
    "map_of (subscriptions (db_table TradeDomain (s_db s1))) = map_of (subscriptions (db_table TradeDomain (s_db s)))"
    "table_owner (db_table TradeDomain (s_db s1)) = table_owner (db_table TradeDomain (s_db s))"
    "\<forall>d'. d' \<noteq> TradeDomain \<longrightarrow> db_table d' (s_db s1) = db_table d' (s_db s) \<and> ctl_state (s_ctl s1) d' = ctl_state (s_ctl s) d'"
    "\<forall>sid. ctl_state (s_ctl s1) TradeDomain sid =
       (case table_owner (db_table TradeDomain (s_db s)) sid of None \<Rightarrow> Inactive | Some r \<Rightarrow> Subscribing r)"
    "s_overload s1 = s_overload s" "sends_to (s_conn s) (s_conn s1)"
    using replay_domain_facts [OF assms(1-3), of TradeDomain now senv] assms(5) db_validD [OF assms(6)] by blast
  have idle: "\<forall>sid. ctl_state (s_ctl s1) BookDomain sid = Inactive" using s1(6) assms(5) by simp
  have valid: "table_valid (db_table BookDomain (s_db s1))" using s1(6) db_validD [OF assms(6)] by (metis domain.distinct(2))
  obtain s2 where s2: "replay_domain intern pol now senv BookDomain s1 = Some s2" "ctl_ok (s_ctl s2)" "db_ok K intern (s_db s2)"
    "map_of (subscriptions (db_table BookDomain (s_db s2))) = map_of (subscriptions (db_table BookDomain (s_db s1)))"
    "table_owner (db_table BookDomain (s_db s2)) = table_owner (db_table BookDomain (s_db s1))"
    "\<forall>d'. d' \<noteq> BookDomain \<longrightarrow> db_table d' (s_db s2) = db_table d' (s_db s1) \<and> ctl_state (s_ctl s2) d' = ctl_state (s_ctl s1) d'"
    "\<forall>sid. ctl_state (s_ctl s2) BookDomain sid =
       (case table_owner (db_table BookDomain (s_db s1)) sid of None \<Rightarrow> Inactive | Some r \<Rightarrow> Subscribing r)"
    "s_overload s2 = s_overload s1" "sends_to (s_conn s1) (s_conn s2)"
    using replay_domain_facts [OF s1(2,3) assms(3) idle valid, of now senv] by blast
  have eq: "do_replay intern pol now senv s = Some s2" using assms(4) by (simp add: do_replay_def s1(1) s2(1))
  have t: "db_table TradeDomain (s_db s2) = db_table TradeDomain (s_db s1)"
    "ctl_state (s_ctl s2) TradeDomain = ctl_state (s_ctl s1) TradeDomain" using s2(6) by blast+
  have b: "db_table BookDomain (s_db s1) = db_table BookDomain (s_db s)" using s1(6) by blast
  have each: "map_of (subscriptions (db_table d (s_db s2))) = map_of (subscriptions (db_table d (s_db s))) \<and>
      table_owner (db_table d (s_db s2)) = table_owner (db_table d (s_db s)) \<and>
      (\<forall>sid. ctl_state (s_ctl s2) d sid =
         (case table_owner (db_table d (s_db s)) sid of None \<Rightarrow> Inactive | Some r \<Rightarrow> Subscribing r))" for d
    using s1(4,5,7) s2(4,5,7) by (cases d) (simp_all only: t b simp_thms)
  then show ?thesis
    using eq s2(2,3) s1(8) s2(8) sends_to_trans [OF s1(9) s2(9)] by (intro exI [of _ s2]) simp
qed

end
