(* ===== verification/Session_Poll.thy ===== *)
theory Session_Poll
  imports Session
begin

text \<open>
  \<^verbatim>\<open>Session::poll\<close> and the queries of the session (protocol/session.hpp). The message handler and the data
  plane it fills are the parameter \<open>handler\<close> over a state of any type: for a message it returns its
  new state, the calls it makes on the session's context and its result.
\<close>

section \<open>Polling\<close>

datatype message_result =
  Ignored | InvalidJson | InvalidSchema | InvalidValue | Parsed | Delivered | Backpressure

type_synonym 'h message_handler = "'h \<Rightarrow> string \<Rightarrow> 'h \<times> ctx_call list \<times> message_result"

definition MAX_MESSAGES_PER_POLL :: nat where "MAX_MESSAGES_PER_POLL = 128"

lemma same_books_signals: "same_books s s' \<Longrightarrow> signals (s_conn s') = signals (s_conn s)"
  by (simp add: same_books_def sends_to_keep(1))

lemma re_subscribe_signals:
  "re_subscribe intern pol now senv d req s = Some s' \<Longrightarrow> signals (s_conn s') = signals (s_conn s)"
  using same_books_signals [OF emit_books]
  by (fastforce simp: re_subscribe_def Let_def split: option.splits if_splits)

lemma re_subscribe_all_signals:
  "re_subscribe_all intern pol now senv d reqs s = Some s' \<Longrightarrow> signals (s_conn s') = signals (s_conn s)"
  by (induction reqs arbitrary: s) (auto dest: re_subscribe_signals split: option.splits)

lemma handle_signal_signals:
  assumes "handle_connection_signal intern pol now senv sig s = Some s'"
  shows "signals (s_conn s') = signals (s_conn s)"
proof (cases sig)
  case SigConnected
  then show ?thesis using assms re_subscribe_all_signals
    by (fastforce simp: handle_connect_def do_replay_def replay_domain_def Let_def
        split: if_splits option.splits prod.splits)
next
  case SigLivenessThreatened
  then show ?thesis using assms same_books_signals [OF static_books] by (auto split: if_splits)
qed (use assms in \<open>auto simp: handle_disconnect_def\<close>)

lemma poll_signal_less: "poll_signal c = (c', Some sig) \<Longrightarrow> length (signals c') < length (signals c)"
  by (cases "signals c") (auto simp: poll_signal_def)

function drain_signals ::
  "(symbol \<Rightarrow> symbol_id) \<Rightarrow> session_policy \<Rightarrow> u64 \<Rightarrow> send_env \<Rightarrow> session \<Rightarrow> session option" where
  "drain_signals intern pol now senv s =
     (case poll_signal (s_conn s) of
        (c, None) \<Rightarrow> Some (s\<lparr>s_conn := c\<rparr>)
      | (c, Some sig) \<Rightarrow>
          (case handle_connection_signal intern pol now senv sig (s\<lparr>s_conn := c\<rparr>) of
             None \<Rightarrow> None
           | Some s' \<Rightarrow> drain_signals intern pol now senv s'))"
  by auto
termination
  by (relation "measure (\<lambda>(_, _, _, _, s). length (signals (s_conn s)))")
     (auto dest!: handle_signal_signals poll_signal_less [OF sym])

declare drain_signals.simps [simp del]

text \<open>At most \<open>n\<close> messages; the slot of a message is released whatever its handler returned.\<close>

fun process_messages ::
  "(symbol \<Rightarrow> symbol_id) \<Rightarrow> session_policy \<Rightarrow> u64 \<Rightarrow> int \<Rightarrow> 'h message_handler \<Rightarrow> nat \<Rightarrow> session \<Rightarrow> 'h \<Rightarrow> session \<times> 'h" where
  "process_messages intern pol now rx_now handler 0 s h = (s, h)"
| "process_messages intern pol now rx_now handler (Suc n) s h =
     (case peek_message rx_now (s_conn s) of
        (c, None) \<Rightarrow> (s\<lparr>s_conn := c\<rparr>, h)
      | (c, Some msg) \<Rightarrow>
          (case handler h msg of (h', calls, r) \<Rightarrow>
             let s1 = fold (context_call intern pol now) calls (s\<lparr>s_conn := c\<rparr>);
                 s2 = s1\<lparr>s_conn := release_message (s_conn s1)\<rparr> in
             if r = Backpressure then (s2, h')
             else process_messages intern pol now rx_now handler n s2 h'))"

definition paced_emission :: "session_policy \<Rightarrow> send_env \<Rightarrow> session \<Rightarrow> session" where
  "paced_emission pol senv s =
     (if bat_mode (sp_batching pol) = Paced then
        case paced_step (sp_batching pol) (s_sched s) of
          (q, None) \<Rightarrow> s\<lparr>s_sched := q\<rparr>
        | (q, Some msg) \<Rightarrow> (fst (session_transmit senv msg s))\<lparr>s_sched := q\<rparr>
      else s)"

definition enforce_backpressure_policy :: "session_policy \<Rightarrow> session \<Rightarrow> session" where
  "enforce_backpressure_policy pol s =
     (let s1 = s\<lparr>s_overload := csc_next_frame (s_overload s)\<rparr> in
      if csc_active (s_overload s1) \<and> sp_bp_mode pol \<noteq> ZeroTolerance \<and> csc_count (s_overload s1) \<ge> sp_escalation pol
      then s1\<lparr>s_conn := conn_close (s_conn s1), s_overload := csc_reset (s_overload s1)\<rparr>
      else s1)"

definition session_poll ::
  "(symbol \<Rightarrow> symbol_id) \<Rightarrow> session_policy \<Rightarrow> u64 \<Rightarrow> conn_env \<Rightarrow> send_env \<Rightarrow> int \<Rightarrow> 'h message_handler \<Rightarrow>
   session \<Rightarrow> 'h \<Rightarrow> (session \<times> 'h \<times> u64) option" where
  "session_poll intern pol now env senv rx_now handler s h =
     (case drain_signals intern pol now senv (s\<lparr>s_conn := conn_poll (sp_conn pol) env (s_conn s)\<rparr>) of
        None \<Rightarrow> None
      | Some s2 \<Rightarrow>
          (case process_messages intern pol now rx_now handler MAX_MESSAGES_PER_POLL s2 h of (s3, h') \<Rightarrow>
             let s5 = enforce_backpressure_policy pol (paced_emission pol senv s3) in
             Some (s5, h', epoch (s_conn s5))))"

section \<open>Connecting and queries\<close>

definition session_connect :: "session_policy \<Rightarrow> conn_env \<Rightarrow> string \<Rightarrow> session \<Rightarrow> session \<times> bool" where
  "session_connect pol env url s =
     (case conn_open (sp_conn pol) env url (s_conn s) of (c, e) \<Rightarrow> (s\<lparr>s_conn := c\<rparr>, e = NoError))"

definition session_close :: "session \<Rightarrow> session" where
  "session_close s = s\<lparr>s_conn := conn_close (s_conn s)\<rparr>"

text \<open>\<open>plane_empty\<close> is \<^verbatim>\<open>data_plane_.empty()\<close>.\<close>

definition session_is_quiescent :: "int \<Rightarrow> bool \<Rightarrow> session \<Rightarrow> bool" where
  "session_is_quiescent conn_now plane_empty s \<longleftrightarrow>
     conn_is_idle conn_now (s_conn s) \<and> ctl_is_quiescent (s_ctl s) \<and> plane_empty"

definition session_is_idle :: "session_policy \<Rightarrow> int \<Rightarrow> u64 \<Rightarrow> bool \<Rightarrow> session \<Rightarrow> bool" where
  "session_is_idle pol conn_now now plane_empty s \<longleftrightarrow>
     (if session_is_quiescent conn_now plane_empty s then True
      else if \<not> pp_enabled (sp_progress pol) then False
      else ctl_is_idle (sp_progress pol) now (s_ctl s))"

definition session_is_stalled :: "session_policy \<Rightarrow> int \<Rightarrow> u64 \<Rightarrow> bool \<Rightarrow> session \<Rightarrow> bool" where
  "session_is_stalled pol conn_now now plane_empty s \<longleftrightarrow>
     \<not> session_is_quiescent conn_now plane_empty s \<and> session_is_idle pol conn_now now plane_empty s"

end
