(* ===== verification/Session_Run.thy ===== *)
theory Session_Run
  imports Session_Poll
begin

text \<open>
  Runs of a session and the properties of \<^verbatim>\<open>protocol::Session\<close>: the invariant that composes those of the
  connection, the subscription controller and the replay database, the restoration of the subscriptions
  after a reconnect, the escalation of backpressure, and what happens to a request that is never sent or is
  refused.
\<close>

section \<open>Invariant\<close>

definition session_ok :: "symbol set \<Rightarrow> (symbol \<Rightarrow> symbol_id) \<Rightarrow> session_policy \<Rightarrow> session \<Rightarrow> bool" where
  "session_ok K intern pol s \<longleftrightarrow>
     ctl_ok (s_ctl s) \<and> db_ok K intern (s_db s) \<and> db_valid (s_db s) \<and> conn_ok (sp_conn pol) (s_conn s)"

text \<open>The id of a request, its own or the next of the sequence, is not 0: the sequence has not wrapped around.\<close>

definition id_ok :: "req_id option \<Rightarrow> session \<Rightarrow> bool" where
  "id_ok r s \<longleftrightarrow> snd (assign_req_id r s) \<noteq> 0"

definition unsub_ok :: "symbol list \<Rightarrow> unsub_params \<Rightarrow> bool" where
  "unsub_ok symbols u \<longleftrightarrow> unsub_params_ok u \<and> symbols \<noteq> [] \<and> (\<forall>x \<in> set symbols. printable_name x)"

fun ctx_symbol :: "ctx_call \<Rightarrow> symbol" where
  "ctx_symbol (CtxSubscribeAck d r x b) = x"
| "ctx_symbol (CtxUnsubscribeAck d r x b) = x"
| "ctx_symbol (CtxRejection r x) = x"

text \<open>The names that the handler passes on have been interned.\<close>

definition handler_knows :: "symbol set \<Rightarrow> 'h message_handler \<Rightarrow> bool" where
  "handler_knows K handler \<longleftrightarrow> (\<forall>h m. ctx_symbol ` set (fst (snd (handler h m))) \<subseteq> K)"

lemma session_okD:
  assumes "session_ok K intern pol s"
  shows "ctl_ok (s_ctl s)" and "db_ok K intern (s_db s)" and "conn_ok (sp_conn pol) (s_conn s)" and "db_valid (s_db s)"
  using assms by (simp_all add: session_ok_def)

lemma session_ok_init: "session_ok K intern pol (Session_init now conn_now)"
  by (simp add: session_ok_def Session_init_def ctl_ok_init db_ok_init conn_ok_init db_valid_init)

lemma session_ok_books: "same_books s s' \<Longrightarrow> session_ok K intern pol s \<Longrightarrow> session_ok K intern pol s'"
  by (auto simp: same_books_def session_ok_def sends_to_keep(6))

lemma session_ok_fields [simp]:
  "session_ok K intern pol (s\<lparr>s_req_id_seq := q\<rparr>) = session_ok K intern pol s"
  "session_ok K intern pol (s\<lparr>s_sched := q'\<rparr>) = session_ok K intern pol s"
  "session_ok K intern pol (s\<lparr>s_overload := o'\<rparr>) = session_ok K intern pol s"
  by (simp_all add: session_ok_def)

lemma session_ok_conn:
  "session_ok K intern pol s \<Longrightarrow> conn_ok (sp_conn pol) c \<Longrightarrow> session_ok K intern pol (s\<lparr>s_conn := c\<rparr>)"
  by (simp add: session_ok_def)

lemma session_ok_ctl: "session_ok K intern pol s \<Longrightarrow> ctl_ok c \<Longrightarrow> session_ok K intern pol (s\<lparr>s_ctl := c\<rparr>)"
  by (simp add: session_ok_def)

lemma session_ok_db: "session_ok K intern pol s \<Longrightarrow> db_ok K intern db \<Longrightarrow> db_valid db \<Longrightarrow> session_ok K intern pol (s\<lparr>s_db := db\<rparr>)"
  by (simp add: session_ok_def)

lemmas session_ok_updates = session_ok_conn session_ok_ctl session_ok_db

lemma register_ok:
  assumes "session_ok K intern pol s"
  obtains c accepted where "ctl_register_subscription intern now d (s_ctl s) symbols r = Some (c, accepted)"
    and "ctl_ok c" and "set accepted \<subseteq> set symbols"
  using ctl_register_subscription_facts [OF session_okD(1) [OF assms], of intern now d symbols r] that
  by fastforce

lemma assign_req_id_fields:
  "s_ctl (fst (assign_req_id r s)) = s_ctl s" "s_db (fst (assign_req_id r s)) = s_db s"
  "s_conn (fst (assign_req_id r s)) = s_conn s" "s_sent (fst (assign_req_id r s)) = s_sent s"
  "s_sends (fst (assign_req_id r s)) = s_sends s" "s_sched (fst (assign_req_id r s)) = s_sched s"
  "session_ok K intern pol (fst (assign_req_id r s)) = session_ok K intern pol s"
  by (simp_all add: assign_req_id_def sequence_next_def session_ok_def split: option.split)

lemma subscribe_ok:
  assumes "session_ok K intern pol s" and "set (req_symbols req) \<subseteq> K" and "request_ok req" and "id_ok (req_req_id req) s"
  shows "\<exists>s' r. session_subscribe intern pol now senv d req s = Some (s', r) \<and> session_ok K intern pol s'"
proof (cases "sp_limit_hard pol \<and> \<not> hard_symbol_limit_enforcement pol d (length (req_symbols req)) s")
  case False
  obtain s1 r where a: "assign_req_id (req_req_id req) s = (s1, r)" by fastforce
  have ok1: "session_ok K intern pol s1"
    using assign_req_id_fields(7) [of K intern pol "req_req_id req" s] assms(1) by (simp add: a)
  obtain c accepted where c: "ctl_register_subscription intern now d (s_ctl s1) (req_symbols req) r = Some (c, accepted)"
    "ctl_ok c" "set accepted \<subseteq> set (req_symbols req)" using register_ok [OF ok1] by blast
  have ok2: "session_ok K intern pol (s1\<lparr>s_ctl := c\<rparr>)" using c(2) ok1 by (simp add: session_ok_def)
  show ?thesis
  proof (cases "accepted = []")
    case True
    then show ?thesis using False ok2 by (auto simp: session_subscribe_def a c(1) Let_def)
  next
    case some: False
    let ?req = "req\<lparr>req_symbols := accepted, req_req_id := Some r\<rparr>"
    let ?s3 = "if sp_replay pol then s1\<lparr>s_ctl := c, s_db := db_add intern d (s_db s1) ?req\<rparr> else s1\<lparr>s_ctl := c\<rparr>"
    have valid: "request_ok ?req" "r \<noteq> 0" "stored_ok ?req"
      using assms(3,4) c(3) by (auto simp: request_ok_def stored_ok_def id_ok_def a)
    have ok3: "session_ok K intern pol ?s3"
      using c assms(2) ok1 valid(3) by (auto simp: session_ok_def db_ok_add db_valid_add)
    obtain s4 ok where e: "emit_subscription senv pol ?req ?s3 = Some (s4, ok)" "same_books ?s3 s4"
      by (rule emit_returns [OF sub_writes_batches [OF valid(1) _ valid(2)], of senv "sp_batching pol" ?s3]) (use some in simp_all)
    then have "session_ok K intern pol s4" using session_ok_books ok3 by blast
    with e(1) show ?thesis
      using False some by (cases "sp_replay pol") (auto simp: session_subscribe_def a c(1) Let_def)
  qed
qed (use assms(1) in \<open>simp add: session_subscribe_def\<close>)

lemma remove_all_ok:
  assumes "inj_on intern K" and "set xs \<subseteq> K" and "db_ok K intern db" and "db_valid db"
  shows "db_ok K intern (fold (\<lambda>x db. db_remove_symbol intern d db x) xs db)"
    and "db_valid (fold (\<lambda>x db. db_remove_symbol intern d db x) xs db)"
  using assms(2-4)
  by (induction xs arbitrary: db) (simp_all add: db_ok_remove_symbol db_valid_remove interned_def assms(1))

lemma unsubscribe_ok:
  assumes "session_ok K intern pol s" and "set symbols \<subseteq> K" and "inj_on intern K" and "unsub_ok symbols u" and "id_ok rid s"
  shows "\<exists>s' r. session_unsubscribe intern pol now senv d symbols rid u s = Some (s', r) \<and> session_ok K intern pol s'"
proof -
  obtain s1 r where a: "assign_req_id rid s = (s1, r)" by fastforce
  have ok1: "session_ok K intern pol s1"
    using assign_req_id_fields(7) [of K intern pol rid s] assms(1) by (simp add: a)
  have "writes_batches (unsub_max_json_size u r) (unsub_write u r) symbols" "symbols \<noteq> []"
    using assms(4,5) by (auto simp: unsub_ok_def id_ok_def a intro: unsub_writes_batches)
  then obtain s2 ok where e: "emit_request senv (sp_batching pol) (unsub_max_json_size u r) (unsub_write u r) symbols s1 = Some (s2, ok)"
    and same: "same_books s1 s2" using emit_returns by blast
  have ok2: "session_ok K intern pol s2" using session_ok_books [OF same ok1] .
  obtain c cancelled where c: "ctl_register_unsubscription intern now d (s_ctl s2) symbols r = Some (c, cancelled)"
    "ctl_ok c" "set cancelled \<subseteq> set symbols"
    using ctl_register_unsubscription_facts [OF session_okD(1) [OF ok2], of intern now d symbols r] by blast
  have "session_ok K intern pol (s2\<lparr>s_ctl := c, s_db := fold (\<lambda>x db. db_remove_symbol intern d db x) cancelled (s_db s2)\<rparr>)"
    using ok2 c(2) remove_all_ok [OF assms(3), of cancelled "s_db s2" d] c(3) assms(2) by (auto simp: session_ok_def)
  moreover have "session_ok K intern pol (s2\<lparr>s_ctl := c\<rparr>)" using ok2 c(2) by (simp add: session_ok_def)
  ultimately show ?thesis
    using ok2 by (auto simp: session_unsubscribe_def a e c(1) Let_def)
qed

text \<open>The assertions of the writer: an unsubscription of no symbol, of an empty name, at a depth that does not exist or
  with id 0 traps when it is sent at once.\<close>

lemma unsubscribe_traps:
  assumes "bat_mode (sp_batching pol) = Immediate" and "snd (assign_req_id rid s) = r"
    and "unsub_max_json_size u r symbols \<le> TX_BUFFER_CAPACITY"
    and "symbols = [] \<or> [] \<in> set symbols \<or> \<not> unsub_params_ok u \<or> r = 0"
  shows "session_unsubscribe intern pol now senv d symbols rid u s = None"
proof -
  have "unsub_write u r symbols = None"
    using assms(4) by (cases u) (auto simp: unsub_write_def trade_unsubscribe_write_def book_unsubscribe_write_def
        unsub_params_ok_def validate_symbols_def validate_req_id_def)
  then show ?thesis
    using assms(1-3) by (simp add: session_unsubscribe_def case_prod_unfold emit_request_def send_dynamic_request_def)
qed

section \<open>Handlers keep the invariant\<close>

lemma re_subscribe_ok:
  assumes "session_ok K intern pol s" and "set (req_symbols req) \<subseteq> K" and "stored_ok req"
  shows "\<exists>s'. re_subscribe intern pol now senv d req s = Some s' \<and> session_ok K intern pol s'"
proof -
  obtain c accepted where c: "ctl_register_subscription intern now d (s_ctl s) (req_symbols req) (sub_req_id req) =
      Some (c, accepted)" "ctl_ok c" "set accepted \<subseteq> set (req_symbols req)" using register_ok [OF assms(1)] by blast
  have ok1: "session_ok K intern pol (s\<lparr>s_ctl := c\<rparr>)" using c(2) assms(1) by (simp add: session_ok_def)
  show ?thesis
  proof (cases "accepted = []")
    case True
    then show ?thesis using ok1 by (simp add: re_subscribe_def c(1) Let_def)
  next
    case some: False
    let ?req = "req\<lparr>req_symbols := accepted\<rparr>"
    let ?s2 = "if sp_replay pol then s\<lparr>s_ctl := c, s_db := db_add intern d (s_db s) ?req\<rparr> else s\<lparr>s_ctl := c\<rparr>"
    have valid: "stored_ok ?req" using stored_ok_subset [OF assms(3) c(3)] .
    then obtain r where r: "request_ok ?req" "req_req_id ?req = Some r" "r \<noteq> 0"
      by (auto simp: stored_ok_def split: option.splits)
    have ok2: "session_ok K intern pol ?s2"
      using c assms(1,2) valid by (auto simp: session_ok_def db_ok_add db_valid_add)
    obtain s' ok where e: "emit_subscription senv pol ?req ?s2 = Some (s', ok)" "same_books ?s2 s'"
      by (rule emit_returns [OF sub_writes_batches [OF r], of senv "sp_batching pol" ?s2]) (use some in simp_all)
    then have "session_ok K intern pol s'" using session_ok_books ok2 by blast
    with e(1) show ?thesis
      using some by (cases "sp_replay pol") (simp_all add: re_subscribe_def c(1) Let_def)
  qed
qed

lemma re_subscribe_all_ok:
  assumes "session_ok K intern pol s" and "\<forall>req \<in> set reqs. set (req_symbols req) \<subseteq> K \<and> stored_ok req"
  shows "\<exists>s'. re_subscribe_all intern pol now senv d reqs s = Some s' \<and> session_ok K intern pol s'"
  using assms
proof (induction reqs arbitrary: s)
  case (Cons req reqs)
  then obtain s1 where "re_subscribe intern pol now senv d req s = Some s1" "session_ok K intern pol s1"
    using re_subscribe_ok [of K intern pol s req now senv d] by auto
  with Cons show ?case by simp
qed simp

lemma replay_domain_ok:
  assumes "session_ok K intern pol s"
  shows "\<exists>s'. replay_domain intern pol now senv d s = Some s' \<and> session_ok K intern pol s'"
proof -
  let ?t = "db_table d (s_db s)"
  have ok: "table_ok K intern ?t" using session_okD(2) [OF assms] by (simp add: db_ok_def)
  have t: "fst (table_take_subscriptions ?t) = Table_init"
    by (simp add: table_take_subscriptions_def table_clear_def Table_init_def)
  have "session_ok K intern pol (s\<lparr>s_db := db_set_table d (s_db s) Table_init\<rparr>)"
    using assms table_ok_init by (auto simp: session_ok_def db_ok_def db_valid_set table_valid_init)
  moreover have "set (req_symbols q) \<subseteq> K \<and> stored_ok q" if "(r, q) \<in> set (subscriptions ?t)" for r q
    using table_okD(5) [OF ok, of r q] db_validD [OF session_okD(4) [OF assms], of d]
      map_of_eq_Some_iff [OF table_okD(1) [OF ok], of r q] that by (simp add: table_valid_def)
  then have "\<forall>q \<in> set (snd (table_take_subscriptions ?t)). set (req_symbols q) \<subseteq> K \<and> stored_ok q"
    by (fastforce simp: table_take_subscriptions_def)
  ultimately show ?thesis
    unfolding replay_domain_def db_take_subscriptions_def using t re_subscribe_all_ok
    by (simp add: case_prod_unfold Let_def)
qed

lemma handle_signal_ok:
  assumes "session_ok K intern pol s"
  shows "\<exists>s'. handle_connection_signal intern pol now senv sig s = Some s' \<and> session_ok K intern pol s'"
proof (cases sig)
  case SigConnected
  obtain s1 where "replay_domain intern pol now senv TradeDomain s = Some s1" "session_ok K intern pol s1"
    using replay_domain_ok [OF assms] by blast
  then show ?thesis
    using SigConnected assms replay_domain_ok [of K intern pol s1 now senv BookDomain]
    by (auto simp: handle_connect_def do_replay_def)
next
  case SigDisconnected
  then show ?thesis using assms ctl_clear_facts(1) by (simp add: handle_disconnect_def session_ok_def)
next
  case SigLivenessThreatened
  have "snd (assign_req_id (Some PING_ID) s) \<noteq> 0" by (simp add: assign_req_id_def PING_ID_def)
  then obtain s' ok where "send_static_request senv ping_max (\<lambda>n. ping_write (Some n)) (Some PING_ID) s = Some (s', ok)"
    "same_books s s'" using ping_returns by blast
  then show ?thesis using SigLivenessThreatened assms session_ok_books by auto
qed (use assms in simp_all)

lemma drain_signals_ok:
  "session_ok K intern pol s \<Longrightarrow> \<exists>s'. drain_signals intern pol now senv s = Some s' \<and> session_ok K intern pol s'"
proof (induction intern pol now senv s rule: drain_signals.induct)
  case (1 intern pol now senv s)
  obtain c sigo where p: "poll_signal (s_conn s) = (c, sigo)" by fastforce
  have ok: "session_ok K intern pol (s\<lparr>s_conn := c\<rparr>)"
    using "1.prems" poll_signal_ok [of "sp_conn pol" "s_conn s"] by (simp add: p session_ok_def)
  show ?case
  proof (cases sigo)
    case None
    then show ?thesis using ok by (subst drain_signals.simps) (simp add: p)
  next
    case (Some sig)
    obtain s' where s': "handle_connection_signal intern pol now senv sig (s\<lparr>s_conn := c\<rparr>) = Some s'"
      "session_ok K intern pol s'" using handle_signal_ok [OF ok] by blast
    have "\<exists>s''. drain_signals intern pol now senv s' = Some s'' \<and> session_ok K intern pol s''"
      by (rule "1.IH" [OF p [symmetric] Some s'])
    then show ?thesis by (subst drain_signals.simps) (simp add: p Some s'(1))
  qed
qed

lemma context_call_ok:
  assumes "session_ok K intern pol s" and "ctx_symbol call \<in> K" and "inj_on intern K"
  shows "session_ok K intern pol (context_call intern pol now call s)"
proof -
  have k: "interned K intern (ctx_symbol call)" using assms(2,3) by (simp add: interned_def)
  show ?thesis
    using assms(1) k
    by (cases call)
       (auto simp: session_ok_def ctl_subscribe_ack_facts ctl_unsubscribe_ack_facts ctl_rejection_facts
         db_ok_remove_symbol db_rejection_facts db_valid_remove db_valid_reject handle_rejection_def Let_def)
qed

lemma context_calls_ok:
  "session_ok K intern pol s \<Longrightarrow> ctx_symbol ` set calls \<subseteq> K \<Longrightarrow> inj_on intern K \<Longrightarrow>
   session_ok K intern pol (fold (context_call intern pol now) calls s)"
  by (induction calls arbitrary: s) (simp_all add: context_call_ok)

lemma process_messages_ok:
  assumes "handler_knows K handler" and "inj_on intern K"
  shows "session_ok K intern pol s \<Longrightarrow>
    session_ok K intern pol (fst (process_messages intern pol now rx_now handler n s h))"
proof (induction n arbitrary: s h)
  case (Suc n)
  obtain c mo where p: "peek_message rx_now (s_conn s) = (c, mo)" by fastforce
  have ok: "session_ok K intern pol (s\<lparr>s_conn := c\<rparr>)"
    using Suc.prems peek_message_ok [of "sp_conn pol" "s_conn s" rx_now] by (simp add: p session_ok_def)
  show ?case
  proof (cases mo)
    case None
    then show ?thesis using ok by (simp add: p)
  next
    case (Some msg)
    obtain h' calls r where h: "handler h msg = (h', calls, r)" by (metis prod.exhaust)
    have "ctx_symbol ` set calls \<subseteq> K" using assms(1) h unfolding handler_knows_def by (metis fst_conv snd_conv)
    then have "session_ok K intern pol (fold (context_call intern pol now) calls (s\<lparr>s_conn := c\<rparr>))"
      by (rule context_calls_ok [OF ok _ assms(2)])
    then show ?thesis
      using Suc.IH by (simp add: p Some h Let_def session_ok_def release_message_ok)
  qed
qed simp

lemma poll_tail_ok:
  assumes "session_ok K intern pol s"
  shows "session_ok K intern pol (enforce_backpressure_policy pol (paced_emission pol senv s))"
proof -
  have "session_ok K intern pol (paced_emission pol senv s)"
    using assms session_ok_books [OF transmit_books assms]
    by (auto simp: paced_emission_def split: prod.split option.split)
  then show ?thesis
    by (auto simp: enforce_backpressure_policy_def Let_def session_ok_def conn_close_ok)
qed

lemma session_poll_ok:
  assumes "session_ok K intern pol s" and "env_ok env" and "policy_ok (sp_conn pol)"
    and "handler_knows K handler" and "inj_on intern K"
  shows "\<exists>s' h' e. session_poll intern pol now env senv rx_now handler s h = Some (s', h', e) \<and> session_ok K intern pol s'"
proof -
  have "session_ok K intern pol (s\<lparr>s_conn := conn_poll (sp_conn pol) env (s_conn s)\<rparr>)"
    using assms(1-3) by (simp add: session_ok_def conn_poll_ok)
  then obtain s2 where s2: "drain_signals intern pol now senv (s\<lparr>s_conn := conn_poll (sp_conn pol) env (s_conn s)\<rparr>) = Some s2"
    "session_ok K intern pol s2" using drain_signals_ok by blast
  obtain s3 h' where m: "process_messages intern pol now rx_now handler MAX_MESSAGES_PER_POLL s2 h = (s3, h')" by fastforce
  have "session_ok K intern pol s3"
    using process_messages_ok [OF assms(4,5) s2(2), of now rx_now MAX_MESSAGES_PER_POLL h] by (simp add: m)
  then show ?thesis using poll_tail_ok by (simp add: session_poll_def s2(1) m Let_def)
qed

section \<open>Runs\<close>

inductive session_run ::
  "symbol set \<Rightarrow> (symbol \<Rightarrow> symbol_id) \<Rightarrow> session_policy \<Rightarrow> 'h message_handler \<Rightarrow> session \<Rightarrow> 'h \<Rightarrow> bool"
  for K intern pol handler where
  srun_init: "session_run K intern pol handler (Session_init now conn_now) h"
| srun_connect: "session_run K intern pol handler s h \<Longrightarrow> env_ok env \<Longrightarrow>
    session_run K intern pol handler (fst (session_connect pol env url s)) h"
| srun_close: "session_run K intern pol handler s h \<Longrightarrow> session_run K intern pol handler (session_close s) h"
| srun_subscribe: "session_run K intern pol handler s h \<Longrightarrow> set (req_symbols req) \<subseteq> K \<Longrightarrow> request_ok req \<Longrightarrow>
    id_ok (req_req_id req) s \<Longrightarrow>
    session_subscribe intern pol now senv d req s = Some (s', r) \<Longrightarrow> session_run K intern pol handler s' h"
| srun_unsubscribe: "session_run K intern pol handler s h \<Longrightarrow> set symbols \<subseteq> K \<Longrightarrow> unsub_ok symbols u \<Longrightarrow> id_ok rid s \<Longrightarrow>
    session_unsubscribe intern pol now senv d symbols rid u s = Some (s', r) \<Longrightarrow> session_run K intern pol handler s' h"
| srun_send: "session_run K intern pol handler s h \<Longrightarrow> session_send senv rid s = Some (s', ok) \<Longrightarrow>
    session_run K intern pol handler s' h"
| srun_poll: "session_run K intern pol handler s h \<Longrightarrow> env_ok env \<Longrightarrow>
    session_poll intern pol now env senv rx_now handler s h = Some (s', h', e) \<Longrightarrow> session_run K intern pol handler s' h'"
| srun_receive: "session_run K intern pol handler s h \<Longrightarrow>
    session_run K intern pol handler (s\<lparr>s_conn := ws_receive ev (s_conn s)\<rparr>) h"
| srun_deliver: "session_run K intern pol handler s h \<Longrightarrow>
    session_run K intern pol handler (s\<lparr>s_conn := ws_deliver m (s_conn s)\<rparr>) h"

lemma session_run_ok:
  assumes "session_run K intern pol handler s h" and "policy_ok (sp_conn pol)" and "handler_knows K handler"
    and "inj_on intern K"
  shows "session_ok K intern pol s"
  using assms(1)
proof induction
  case (srun_subscribe s h req now senv d s' r)
  then show ?case using subscribe_ok [of K intern pol s req now senv d] by auto
next
  case (srun_unsubscribe s h symbols u rid now senv d s' r)
  then show ?case using unsubscribe_ok [of K intern pol s symbols u rid now senv d] assms(4) by auto
next
  case (srun_poll s h env now senv rx_now s' h' e)
  then show ?case using session_poll_ok [of K intern pol s env handler now senv rx_now h] assms(2-4) by auto
next
  case (srun_send s h senv rid s' ok)
  then show ?case using session_ok_books [OF static_books] by (simp add: session_send_def)
next
  case (srun_connect s h env url)
  then show ?case using conn_open_ok [of "sp_conn pol" "s_conn s" env url]
    by (simp add: session_connect_def session_ok_def case_prod_unfold)
next
  case (srun_init now conn_now h)
  show ?case by (rule session_ok_init)
qed (simp_all add: session_close_def session_ok_def conn_close_ok ws_receive_ok ws_deliver_ok)

section \<open>Draining\<close>

lemma drain_signals_Nil: "signals (s_conn s) = [] \<Longrightarrow> drain_signals intern pol now senv s = Some s"
  by (subst drain_signals.simps) (simp add: poll_signal_def)

lemma drain_signals_Cons:
  assumes "signals (s_conn s) = sig # sigs"
  shows "drain_signals intern pol now senv s =
    (case handle_connection_signal intern pol now senv sig (s\<lparr>s_conn := (s_conn s)\<lparr>signals := sigs\<rparr>\<rparr>) of
       None \<Rightarrow> None | Some s' \<Rightarrow> drain_signals intern pol now senv s')"
  by (subst drain_signals.simps) (simp add: poll_signal_def assms)

definition retry_signals :: "signal list \<Rightarrow> bool" where
  "retry_signals sigs \<longleftrightarrow> set sigs \<subseteq> {SigRetryImmediate, SigRetryScheduled}"

lemma drain_retry_signals:
  assumes "retry_signals mid" and "signals (s_conn s) = mid @ sigs"
  shows "drain_signals intern pol now senv s =
    drain_signals intern pol now senv (s\<lparr>s_conn := (s_conn s)\<lparr>signals := sigs\<rparr>\<rparr>)"
  using assms
proof (induction mid arbitrary: s)
  case (Cons sig mid)
  then have "sig = SigRetryImmediate \<or> sig = SigRetryScheduled" "retry_signals mid" by (auto simp: retry_signals_def)
  then show ?case
    using Cons.IH [of "s\<lparr>s_conn := (s_conn s)\<lparr>signals := mid @ sigs\<rparr>\<rparr>"] Cons.prems(2)
    by (auto simp: drain_signals_Cons)
qed auto

text \<open>The signals of a lost and regained connection are handled in one drain.\<close>

lemma drain_reconnect:
  assumes "signals (s_conn s) = SigDisconnected # mid @ [SigConnected]" and "retry_signals mid"
  shows "drain_signals intern pol now senv s =
    handle_connect intern pol now senv (handle_disconnect now (s\<lparr>s_conn := (s_conn s)\<lparr>signals := []\<rparr>\<rparr>))"
proof -
  let ?s = "\<lambda>sigs. handle_disconnect now (s\<lparr>s_conn := (s_conn s)\<lparr>signals := sigs\<rparr>\<rparr>)"
  have c: "s_conn (?s sigs) = (s_conn s)\<lparr>signals := sigs\<rparr>" for sigs by (simp add: handle_disconnect_def)
  have u: "(?s sigs)\<lparr>s_conn := (s_conn s)\<lparr>signals := sigs'\<rparr>\<rparr> = ?s sigs'" for sigs sigs'
    by (simp add: handle_disconnect_def)
  have "drain_signals intern pol now senv s = drain_signals intern pol now senv (?s (mid @ [SigConnected]))"
    using drain_signals_Cons [OF assms(1)] by simp
  also have "\<dots> = drain_signals intern pol now senv (?s [SigConnected])"
    using drain_retry_signals [OF assms(2), of "?s (mid @ [SigConnected])" "[SigConnected]"] by (simp add: c u)
  also have "\<dots> = (case handle_connect intern pol now senv (?s []) of
      None \<Rightarrow> None | Some s' \<Rightarrow> drain_signals intern pol now senv s')"
    using drain_signals_Cons [of "?s [SigConnected]" SigConnected "[]"] by (simp add: c u)
  also have "\<dots> = handle_connect intern pol now senv (?s [])"
  proof (cases "handle_connect intern pol now senv (?s [])")
    case (Some s')
    then have "signals (s_conn s') = []"
      using handle_signal_signals [of intern pol now senv SigConnected "?s []" s'] by (simp add: c)
    then show ?thesis using Some by (simp add: drain_signals_Nil)
  qed simp
  finally show ?thesis .
qed

section \<open>Polls of a reconnection\<close>

text \<open>The drains of consecutive polls: in each of them the connection is what its own poll made of it. Nothing else
  happens to the session in between.\<close>

fun drains ::
  "(symbol \<Rightarrow> symbol_id) \<Rightarrow> session_policy \<Rightarrow> (u64 \<times> send_env \<times> connection) list \<Rightarrow> session \<Rightarrow> session option" where
  "drains intern pol [] s = Some s"
| "drains intern pol ((now, senv, c) # polls) s =
     (case drain_signals intern pol now senv (s\<lparr>s_conn := c\<rparr>) of
        None \<Rightarrow> None | Some s' \<Rightarrow> drains intern pol polls s')"

definition replayed :: "session \<Rightarrow> session \<Rightarrow> bool" where
  "replayed s s' \<longleftrightarrow>
     (\<forall>d. map_of (subscriptions (db_table d (s_db s'))) = map_of (subscriptions (db_table d (s_db s))) \<and>
      table_owner (db_table d (s_db s')) = table_owner (db_table d (s_db s)) \<and>
      (\<forall>sid. ctl_state (s_ctl s') d sid =
         (case table_owner (db_table d (s_db s)) sid of None \<Rightarrow> Inactive | Some r \<Rightarrow> Subscribing r)))"

lemma replayed_books: "s_db t = s_db s \<Longrightarrow> s_db t' = s_db s' \<Longrightarrow> s_ctl t' = s_ctl s' \<Longrightarrow> replayed t t' = replayed s s'"
  by (simp add: replayed_def)

lemma drains_quiet:
  assumes "concat (map (\<lambda>(now, senv, c). signals c) polls) = []" and "session_ok K intern pol s"
    and "\<forall>(now, senv, c) \<in> set polls. conn_ok (sp_conn pol) c"
  shows "\<exists>s'. drains intern pol polls s = Some s' \<and> session_ok K intern pol s' \<and> s_db s' = s_db s \<and> s_ctl s' = s_ctl s"
  using assms
proof (induction intern pol polls s rule: drains.induct)
  case (2 intern pol now senv c polls s)
  have d: "drain_signals intern pol now senv (s\<lparr>s_conn := c\<rparr>) = Some (s\<lparr>s_conn := c\<rparr>)"
    using "2.prems"(1) by (intro drain_signals_Nil) simp
  have "session_ok K intern pol (s\<lparr>s_conn := c\<rparr>)" using "2.prems"(2,3) by (simp add: session_ok_def)
  then show ?case using "2.IH" [OF d] "2.prems"(1,3) d by auto
qed simp

lemma replay_all:
  assumes "session_ok K intern pol s" and "sp_replay pol" and "epoch (s_conn s) > 1" and "\<forall>d sid. ctl_state (s_ctl s) d sid = Inactive"
  shows "\<exists>s'. handle_connect intern pol now senv s = Some s' \<and> session_ok K intern pol s' \<and> replayed s s'"
proof -
  obtain s' where s': "do_replay intern pol now senv s = Some s'" "ctl_ok (s_ctl s')" "db_ok K intern (s_db s')" "replayed s s'"
    "sends_to (s_conn s) (s_conn s')"
    using do_replay_facts [OF session_okD(1,2) [OF assms(1)] assms(2-4) session_okD(4) [OF assms(1)], of now senv]
    unfolding replayed_def by blast
  have "db_valid (s_db s')"
    using session_okD(4) [OF assms(1)] s'(4) by (simp add: db_valid_def table_valid_def replayed_def)
  then have "session_ok K intern pol s'"
    using s'(2,3) sends_to_keep(6) [OF s'(5) session_okD(3) [OF assms(1)]] by (simp add: session_ok_def)
  then show ?thesis using s' assms(2) by (auto simp: handle_connect_def)
qed

lemma drains_down:
  assumes "concat (map (\<lambda>(now, senv, c). signals c) polls) = mid @ [SigConnected]" and "retry_signals mid"
    and "session_ok K intern pol s" and "\<forall>(now, senv, c) \<in> set polls. conn_ok (sp_conn pol) c" and "sp_replay pol"
    and "\<forall>(now, senv, c) \<in> set polls. SigConnected \<in> set (signals c) \<longrightarrow> epoch c > 1"
    and "\<forall>d sid. ctl_state (s_ctl s) d sid = Inactive"
  shows "\<exists>s'. drains intern pol polls s = Some s' \<and> session_ok K intern pol s' \<and> replayed s s'"
  using assms
proof (induction intern pol polls s arbitrary: mid rule: drains.induct)
  case (2 intern pol now senv c polls s)
  note prems = "2.prems"
  have ok: "session_ok K intern pol (s\<lparr>s_conn := c'\<rparr>)" if "c' = c\<lparr>signals := []\<rparr>" for c'
    using prems(3,4) that by (simp add: session_ok_def conn_ok_def)
  let ?s = "s\<lparr>s_conn := c\<lparr>signals := []\<rparr>\<rparr>"
  let ?rest = "concat (map (\<lambda>(now, senv, c). signals c) polls)"
  show ?case
  proof (cases "?rest = []")
    case True
    then have c: "signals c = mid @ [SigConnected]" using prems(1) by (simp only: list.map concat.simps prod.case append_Nil2)
    obtain s1 where s1: "handle_connect intern pol now senv ?s = Some s1" "session_ok K intern pol s1" "replayed ?s s1"
      using replay_all [OF ok [OF refl] prems(5), of now senv] prems(6,7) c by auto
    have "signals (s_conn s1) = []" using handle_signal_signals [of intern pol now senv SigConnected ?s s1] s1(1) by simp
    then have "drain_signals intern pol now senv (s\<lparr>s_conn := c\<rparr>) = Some s1"
      using drain_retry_signals [OF prems(2), of "s\<lparr>s_conn := c\<rparr>" "[SigConnected]" intern pol now senv] c s1(1)
        drain_signals_Cons [of "s\<lparr>s_conn := c\<lparr>signals := [SigConnected]\<rparr>\<rparr>" SigConnected "[]" intern pol now senv]
      by (simp add: drain_signals_Nil)
    moreover obtain s' where "drains intern pol polls s1 = Some s'" "session_ok K intern pol s'" "s_db s' = s_db s1" "s_ctl s' = s_ctl s1"
      using drains_quiet [OF True s1(2)] prems(4) by auto
    moreover have "replayed s s'" using s1(3) calculation(4,5) by (simp add: replayed_def)
    ultimately show ?thesis by auto
  next
    case False
    then obtain mid' x where x: "?rest = mid' @ [x]" by (metis rev_exhaust)
    then have "(signals c @ mid') @ [x] = mid @ [SigConnected]" using prems(1) by simp
    then have m: "?rest = mid' @ [SigConnected]" "mid = signals c @ mid'" using x by (auto simp only: append1_eq_conv)
    have r: "retry_signals (signals c)" "retry_signals mid'" using prems(2) m(2) by (auto simp: retry_signals_def)
    have d: "drain_signals intern pol now senv (s\<lparr>s_conn := c\<rparr>) = Some ?s"
      using drain_retry_signals [OF r(1), of "s\<lparr>s_conn := c\<rparr>" "[]" intern pol now senv] by (simp add: drain_signals_Nil)
    have "\<exists>s'. drains intern pol polls ?s = Some s' \<and> session_ok K intern pol s' \<and> replayed ?s s'"
      using "2.IH" [OF d m(1) r(2) ok [OF refl]] prems(4-7) by auto
    then show ?thesis using d by (auto simp: replayed_def)
  qed
qed simp

lemma drains_lost:
  assumes "session_ok K intern pol s" and "sp_replay pol" and "\<forall>(now, senv, c) \<in> set polls. conn_ok (sp_conn pol) c"
    and "concat (map (\<lambda>(now, senv, c). signals c) polls) = SigDisconnected # mid @ [SigConnected]" and "retry_signals mid"
    and "\<forall>(now, senv, c) \<in> set polls. SigConnected \<in> set (signals c) \<longrightarrow> epoch c > 1"
  shows "\<exists>s'. drains intern pol polls s = Some s' \<and> session_ok K intern pol s' \<and> replayed s s'"
  using assms
proof (induction intern pol polls s rule: drains.induct)
  case (2 intern pol now senv c polls s)
  note prems = "2.prems"
  show ?case
  proof (cases "signals c")
    case Nil
    have d: "drain_signals intern pol now senv (s\<lparr>s_conn := c\<rparr>) = Some (s\<lparr>s_conn := c\<rparr>)"
      using Nil by (intro drain_signals_Nil) simp
    have "session_ok K intern pol (s\<lparr>s_conn := c\<rparr>)" using prems(1,3) by (simp add: session_ok_def)
    then have "\<exists>s'. drains intern pol polls (s\<lparr>s_conn := c\<rparr>) = Some s' \<and> session_ok K intern pol s' \<and> replayed (s\<lparr>s_conn := c\<rparr>) s'"
      using "2.IH" [OF d] prems(2-6) Nil by auto
    then show ?thesis using d by (auto simp: replayed_def)
  next
    case (Cons sig sigs)
    let ?c = "c\<lparr>signals := sigs\<rparr>" and ?s = "handle_disconnect now s"
    have sig: "sig = SigDisconnected" "sigs @ concat (map (\<lambda>(now, senv, c). signals c) polls) = mid @ [SigConnected]"
      using prems(4) Cons by simp_all
    have u: "handle_disconnect now (s\<lparr>s_conn := ?c\<rparr>) = ?s\<lparr>s_conn := ?c\<rparr>" by (simp add: handle_disconnect_def)
    have d: "drain_signals intern pol now senv (s\<lparr>s_conn := c\<rparr>) = drain_signals intern pol now senv (?s\<lparr>s_conn := ?c\<rparr>)"
      using drain_signals_Cons [of "s\<lparr>s_conn := c\<rparr>" sig sigs intern pol now senv] Cons sig(1) u by simp
    have f: "session_ok K intern pol ?s" "\<forall>d sid. ctl_state (s_ctl ?s) d sid = Inactive" "s_db ?s = s_db s"
      using prems(1) by (simp_all add: handle_disconnect_def ctl_clear_facts session_ok_def)
    have "conn_ok (sp_conn pol) ?c" using prems(3) Cons by (auto simp: conn_ok_def)
    then have "\<exists>s'. drains intern pol ((now, senv, ?c) # polls) ?s = Some s' \<and> session_ok K intern pol s' \<and> replayed ?s s'"
      using drains_down [of "(now, senv, ?c) # polls" mid K intern pol ?s] sig(2) prems(2,3,5,6) f(1,2) Cons by auto
    then show ?thesis using d f(3) by (simp add: replayed_def)
  qed
qed simp

section \<open>What a replay sends\<close>

text \<open>A connection on which every send succeeds.\<close>

definition sending :: "send_env \<Rightarrow> session \<Rightarrow> bool" where
  "sending senv s \<longleftrightarrow> state (s_conn s) = Connected \<and> ws (s_conn s) \<noteq> None \<and> (\<forall>n. env_send (senv n))"

lemma transmit_sending:
  assumes "sending senv s"
  shows "sending senv (fst (session_transmit senv json s))"
    and "s_sent (fst (session_transmit senv json s)) = s_sent s @ [json]"
  using assms by (simp_all add: sending_def session_transmit_def conn_send_def)

lemma sub_max_fits: "request_shape_ok (req_symbols req) \<Longrightarrow> sub_max_json_size req \<le> TX_BUFFER_CAPACITY"
  using requests_fit_tx_buffer [of "req_symbols req"] by (simp add: sub_max_json_size_def split: sub_params.split)

lemma emit_immediate:
  assumes "bat_mode (sp_batching pol) = Immediate" and "request_shape_ok (req_symbols req)" and "stored_ok req"
    and "req_symbols req \<noteq> []"
  shows "emit_subscription senv pol req s = Some (session_transmit senv (sub_write_json req) s)"
proof -
  obtain r where "request_ok req" "req_req_id req = Some r" "r \<noteq> 0"
    using assms(3) by (auto simp: stored_ok_def split: option.splits)
  note w = sub_write_ok [OF this(1) assms(4) this(2,3)]
  have "req\<lparr>req_symbols := req_symbols req\<rparr> = req" by simp
  then show ?thesis using assms(1) w sub_max_fits [OF assms(2)] by (simp add: emit_request_def send_dynamic_request_def)
qed

lemma re_subscribe_all_sent:
  assumes "ctl_ok (s_ctl s)" and "sp_replay pol" and "bat_mode (sp_batching pol) = Immediate"
    and "sending senv s" and "disjoint_ids intern reqs"
    and "\<forall>q \<in> set reqs. req_symbols q \<noteq> [] \<and> request_shape_ok (req_symbols q) \<and> stored_ok q \<and>
      (\<forall>sid \<in> sub_ids intern q. ctl_state (s_ctl s) d sid = Inactive)"
    and "re_subscribe_all intern pol now senv d reqs s = Some s'"
  shows "s_sent s' = s_sent s @ map sub_write_json reqs \<and> sending senv s'"
  using assms(1,4-7)
proof (induction reqs arbitrary: s)
  case (Cons q reqs)
  note D = disjoint_ids_Cons [OF Cons.prems(3)]
  obtain s1 s2 ok where s1: "re_subscribe intern pol now senv d q s = Some s2"
    "s_conn s1 = s_conn s" "s_sent s1 = s_sent s" "ctl_ok (s_ctl s1)"
    "ctl_state (s_ctl s1) = (ctl_state (s_ctl s))(d := \<lambda>sid. if sid \<in> sub_ids intern q
      then Subscribing (sub_req_id q) else ctl_state (s_ctl s) d sid)"
    and emit: "emit_subscription senv pol q s1 = Some (s2, ok)"
    using re_subscribe_facts [OF Cons.prems(1) assms(2), of q intern d now senv] Cons.prems(4) by auto
  have e: "s2 = fst (session_transmit senv (sub_write_json q) s1)"
    using emit_immediate [OF assms(3), of q senv s1] Cons.prems(4) emit by (auto dest: arg_cong [of _ _ fst])
  have "sending senv s1" using Cons.prems(2) s1(2) by (simp add: sending_def)
  note T = transmit_sending [OF this, of "sub_write_json q", folded e]
  have ctl: "s_ctl s2 = s_ctl s1" using transmit_books [of s1 senv "sub_write_json q"] by (simp add: same_books_def e)
  have "\<forall>q' \<in> set reqs. req_symbols q' \<noteq> [] \<and> request_shape_ok (req_symbols q') \<and> stored_ok q' \<and>
      (\<forall>sid \<in> sub_ids intern q'. ctl_state (s_ctl s2) d sid = Inactive)"
    using Cons.prems(4) D(2) unfolding ctl s1(5) by fastforce
  then have "s_sent s' = s_sent s2 @ map sub_write_json reqs \<and> sending senv s'"
    using Cons.IH [of s2] D(1) s1(4) T(1) Cons.prems(5) s1(1) by (simp add: ctl)
  then show ?case using T(2) s1(3) by simp
qed simp

lemma replay_domain_sent:
  assumes "ctl_ok (s_ctl s)" and "db_ok K intern (s_db s)" and "sp_replay pol" and "bat_mode (sp_batching pol) = Immediate"
    and "sending senv s" and "\<forall>sid. ctl_state (s_ctl s) d sid = Inactive"
    and "\<forall>(r, q) \<in> set (subscriptions (db_table d (s_db s))). request_shape_ok (req_symbols q)"
    and "table_valid (db_table d (s_db s))" and "replay_domain intern pol now senv d s = Some s'"
  shows "s_sent s' = s_sent s @ map (sub_write_json \<circ> snd) (subscriptions (db_table d (s_db s))) \<and> sending senv s'"
proof -
  let ?t = "db_table d (s_db s)"
  have ok: "table_ok K intern ?t" using assms(2) by (simp add: db_ok_def)
  let ?s = "s\<lparr>s_db := db_set_table d (s_db s) (fst (table_take_subscriptions ?t))\<rparr>"
  have "re_subscribe_all intern pol now senv d (map snd (subscriptions ?t)) ?s = Some s'"
    using assms(9) by (simp add: replay_domain_def db_take_subscriptions_def table_take_subscriptions_def)
  moreover have "sending senv ?s" using assms(5) by (simp add: sending_def)
  moreover have "\<forall>q \<in> set (map snd (subscriptions ?t)). request_shape_ok (req_symbols q) \<and> stored_ok q"
    using assms(7,8) map_of_eq_Some_iff [OF table_okD(1) [OF ok]] by (fastforce simp: table_valid_def)
  ultimately show ?thesis
    using re_subscribe_all_sent [of ?s pol senv intern "map snd (subscriptions ?t)" d now s'] assms(1,3,4,6)
      table_requests(1,2) [OF ok] by simp
qed

section \<open>Properties\<close>


definition silent_handler :: "unit message_handler" where
  "silent_handler h m = (h, [], Ignored)"

definition demo_session_policy :: session_policy where
  "demo_session_policy = \<lparr>sp_progress = progress_strict, sp_limit_hard = False, sp_max_per_channel = 0, sp_max_global = 0,
     sp_replay = True, sp_batching = \<lparr>bat_mode = Immediate, bat_size = 0, bat_interval = 0\<rparr>, sp_proactive = False,
     sp_bp_mode = StrictMode, sp_escalation = 3, sp_conn = demo_policy 3\<rparr>"

definition demo_req :: sub_request where
  "demo_req = \<lparr>req_symbols = [''A'', ''BB''], req_req_id = None, req_params = TradeParams None\<rparr>"

abbreviation demo_names :: "symbol set" where "demo_names \<equiv> {''A'', ''BB'', ''CCC''}"

lemma demo_session_policy_ok: "policy_ok (sp_conn demo_session_policy)"
  by (simp add: demo_session_policy_def demo_policy_ok)

lemma silent_handler_knows: "handler_knows K silent_handler"
  by (simp add: handler_knows_def silent_handler_def)

lemma demo_req_ok: "request_ok demo_req" "id_ok None (Session_init 0 0)"
  by (simp_all add: demo_req_def request_ok_def params_ok_def printable_name_def id_ok_def assign_req_id_def Session_init_def
      sequence_next_def sequence_init_def PROTOCOL_BASE_def)



definition demo_conn :: connection where
  "demo_conn = (demo_open 3 NoError)\<lparr>epoch := 2, signals := [SigDisconnected, SigRetryImmediate, SigConnected]\<rparr>"

definition demo_session :: session where
  "demo_session = (Session_init 0 0)\<lparr>s_conn := demo_conn, s_db := \<lparr>trade_table = demo_table, book_table = Table_init\<rparr>\<rparr>"

lemma demo_table_valid: "table_valid demo_table"
  by (simp add: table_valid_def demo_table_def stored_ok_def request_ok_def params_ok_def printable_name_def)

lemma demo_session_ok: "session_ok demo_names name_length demo_session_policy demo_session"
proof -
  have "conn_ok (demo_policy 3) (demo_open 3 NoError)" by (rule conn_run_ok [OF demo_open_run demo_policy_ok])
  then have "conn_ok (demo_policy 3) demo_conn"
    by (simp add: demo_conn_def conn_ok_def SIGNAL_RING_CAPACITY_def)
  then show ?thesis
    by (simp add: session_ok_def demo_session_def demo_session_policy_def Session_init_def ctl_ok_init db_ok_domains
        demo_table_ok table_ok_init db_valid_domains table_valid_init demo_table_valid)
qed

lemma demo_session_facts:
  "sp_replay demo_session_policy" "epoch (s_conn demo_session) > 1"
  "signals (s_conn demo_session) = SigDisconnected # [SigRetryImmediate] @ [SigConnected]" "retry_signals [SigRetryImmediate]"
  by (simp_all add: demo_session_def demo_session_policy_def demo_conn_def retry_signals_def)

text \<open>The connection is lost at one poll and regained at the next but one.\<close>

definition demo_polls :: "(u64 \<times> send_env \<times> connection) list" where
  "demo_polls = [(5, \<lambda>n. demo_env NoError 9, demo_conn\<lparr>signals := [SigDisconnected, SigRetryImmediate]\<rparr>),
     (6, \<lambda>n. demo_env NoError 9, demo_conn\<lparr>signals := [SigRetryScheduled]\<rparr>),
     (7, \<lambda>n. demo_env NoError 9, demo_conn\<lparr>signals := [SigConnected]\<rparr>)]"


definition demo_pending :: session where
  "demo_pending = demo_session\<lparr>s_ctl := fst (the (ctl_register_subscription name_length 1 TradeDomain (Controller_init 0)
     [''A'', ''BB''] 10))\<rparr>"

lemma demo_pending_ok:
  "session_ok demo_names name_length demo_session_policy demo_pending"
  "ctl_state (s_ctl demo_pending) TradeDomain (name_length ''BB'') = Subscribing 10"
  "ctl_state (s_ctl demo_pending) TradeDomain (name_length ''A'') = Subscribing 10"
proof -
  obtain c where "ctl_register_subscription name_length 1 TradeDomain (Controller_init 0) [''A'', ''BB''] 10 =
      Some (c, [''A'', ''BB''])" "ctl_ok c" "ctl_state c TradeDomain (name_length ''BB'') = Subscribing 10"
    "ctl_state c TradeDomain (name_length ''A'') = Subscribing 10"
    using ctl_register_subscription_facts [OF ctl_ok_init, of name_length 1 TradeDomain 0 "[''A'', ''BB'']" 10]
    by (auto simp: ctl_state_init)
  then show "session_ok demo_names name_length demo_session_policy demo_pending"
    "ctl_state (s_ctl demo_pending) TradeDomain (name_length ''BB'') = Subscribing 10"
    "ctl_state (s_ctl demo_pending) TradeDomain (name_length ''A'') = Subscribing 10"
    using demo_session_ok by (simp_all add: demo_pending_def session_ok_def)
qed

text \<open>The replay forgets what was subscribed again while the connection was down. The subscriptions are taken out of the database and
  made again one by one; one whose symbols are no longer inactive, because a call between the Disconnected and the
  Connected signal left them pending, is filtered to nothing and not stored again: the database is empty afterwards, nothing is
  sent, and no later reconnect restores the symbols.\<close>

theorem replay_forgets_pending:
  assumes "ctl_ok (s_ctl s)" and "subscriptions (db_table d (s_db s)) = [(r, q)]"
    and "\<forall>sid \<in> sub_ids intern q. ctl_state (s_ctl s) d sid \<noteq> Inactive"
  shows "\<exists>s'. replay_domain intern pol now senv d s = Some s' \<and> subscriptions (db_table d (s_db s')) = [] \<and> s_sent s' = s_sent s"
proof -
  have none: "filter (\<lambda>x. ctl_state (s_ctl s) d (intern x) = Inactive) (req_symbols q) = []"
    using assms(3) by (simp add: filter_empty_conv sub_ids_def)
  obtain c where "ctl_register_subscription intern now d (s_ctl s) (req_symbols q) (sub_req_id q) = Some (c, [])"
    using ctl_register_subscription_facts [OF assms(1), of intern now d "req_symbols q" "sub_req_id q", unfolded none] by blast
  then show ?thesis
    using assms(2) by (simp add: replay_domain_def db_take_subscriptions_def table_take_subscriptions_def table_clear_def
        re_subscribe_def Let_def)
qed

theorem replay_forgets_pending_witness:
  "\<exists>s'. replay_domain name_length demo_session_policy 7 (\<lambda>n. demo_env NoError 9) TradeDomain demo_pending = Some s' \<and>
     subscriptions (trade_table (s_db s')) = []"
proof -
  have "subscriptions (db_table TradeDomain (s_db demo_pending)) = [(10, \<lparr>req_symbols = [''A'', ''BB''], req_req_id = Some 10,
     req_params = TradeParams None\<rparr>)]" by (simp add: demo_pending_def demo_session_def demo_table_def)
  from replay_forgets_pending [OF session_okD(1) [OF demo_pending_ok(1)] this, of name_length demo_session_policy 7
      "\<lambda>n. demo_env NoError 9"] show ?thesis
    using demo_pending_ok(2,3) by (auto simp: sub_ids_def)
qed

text \<open>On a connection that accepts every send, with the immediate batching policy, the replay after a reconnect
  writes exactly one message for each request of the replay database, its JSON with all its remaining symbols
  and its original request id, and nothing else.\<close>

theorem replay_sends_each_request_once:
  assumes "session_ok K intern pol s" and "sp_replay pol" and "epoch (s_conn s) > 1"
    and "signals (s_conn s) = SigDisconnected # mid @ [SigConnected]" and "retry_signals mid"
    and "bat_mode (sp_batching pol) = Immediate" and "sending senv s"
    and "\<forall>d. \<forall>(r, q) \<in> set (subscriptions (db_table d (s_db s))). request_shape_ok (req_symbols q)"
  shows "\<exists>s'. drain_signals intern pol now senv s = Some s' \<and>
    s_sent s' = s_sent s @ map (sub_write_json \<circ> snd) (subscriptions (trade_table (s_db s)))
      @ map (sub_write_json \<circ> snd) (subscriptions (book_table (s_db s)))"
proof -
  let ?s = "handle_disconnect now (s\<lparr>s_conn := (s_conn s)\<lparr>signals := []\<rparr>\<rparr>)"
  have f: "s_db ?s = s_db s" "ctl_ok (s_ctl ?s)" "\<And>d sid. ctl_state (s_ctl ?s) d sid = Inactive"
    "epoch (s_conn ?s) > 1" "s_sent ?s = s_sent s" "sending senv ?s"
    using assms(3,7) by (simp_all add: handle_disconnect_def ctl_clear_facts sending_def)
  have db: "db_ok K intern (s_db ?s)" using session_okD(2) [OF assms(1)] by (simp only: f(1))
  have v: "table_valid (db_table d (s_db ?s))" for d using db_validD [OF session_okD(4) [OF assms(1)]] by (simp only: f(1))
  obtain s1 where s1: "replay_domain intern pol now senv TradeDomain ?s = Some s1" "ctl_ok (s_ctl s1)"
    "db_ok K intern (s_db s1)" "db_table BookDomain (s_db s1) = db_table BookDomain (s_db ?s)"
    "\<forall>sid. ctl_state (s_ctl s1) BookDomain sid = Inactive"
    using replay_domain_facts [OF f(2) db assms(2), of TradeDomain now senv] f(3) v by (metis domain.distinct(1))
  have v1: "table_valid (db_table BookDomain (s_db s1))" using v by (simp only: s1(4))
  obtain s2 where s2: "replay_domain intern pol now senv BookDomain s1 = Some s2"
    using replay_domain_facts [OF s1(2,3) assms(2) s1(5) v1, of now senv] by blast
  have t: "s_sent s1 = s_sent s @ map (sub_write_json \<circ> snd) (subscriptions (trade_table (s_db s))) \<and> sending senv s1"
    using replay_domain_sent [OF f(2) db assms(2,6) f(6), of TradeDomain now s1] f(1,3,5) assms(8) s1(1) v
    by (metis db_table.simps(1))
  have b: "s_sent s2 = s_sent s1 @ map (sub_write_json \<circ> snd) (subscriptions (book_table (s_db s)))"
    using replay_domain_sent [OF s1(2,3) assms(2,6) _ s1(5), of senv now s2] f(1) assms(8) s1(4) s2 t v1
    by (metis db_table.simps(2))
  have "drain_signals intern pol now senv s = Some s2"
    using drain_reconnect [OF assms(4,5), of intern pol now senv] s1(1) s2 assms(2) f(4)
    by (simp add: handle_connect_def do_replay_def)
  then show ?thesis using t b by simp
qed

lemma demo_session_sending: "sending (\<lambda>n. demo_env NoError 9) demo_session"
proof -
  have "state (demo_open 3 NoError) = Connected" "ws (demo_open 3 NoError) \<noteq> None" by code_simp+
  then show ?thesis by (simp add: sending_def demo_session_def demo_conn_def demo_env_def)
qed

theorem replay_sends_each_request_once_witness:
  "\<exists>s'. drain_signals name_length demo_session_policy 5 (\<lambda>n. demo_env NoError 9) demo_session = Some s' \<and>
     s_sent s' = [trade_subscribe_json [''A'', ''BB''] None (Some 10)]"
proof -
  have shape: "\<forall>d. \<forall>(r, q) \<in> set (subscriptions (db_table d (s_db demo_session))). request_shape_ok (req_symbols q)"
  proof
    fix d show "\<forall>(r, q) \<in> set (subscriptions (db_table d (s_db demo_session))). request_shape_ok (req_symbols q)"
      by (cases d) (simp_all add: demo_session_def demo_table_def Table_init_def request_shape_ok_def MAX_REQUEST_SYMBOLS_def)
  qed
  have "bat_mode (sp_batching demo_session_policy) = Immediate" by (simp add: demo_session_policy_def)
  from replay_sends_each_request_once [OF demo_session_ok demo_session_facts this demo_session_sending shape, of 5]
  show ?thesis by (simp add: demo_session_def demo_table_def Table_init_def Session_init_def sub_write_json_def)
qed

text \<open>C35: a subscription that cannot be sent because the session is not connected is not undone. The call returns
  the invalid id and writes nothing, yet its symbols are left waiting for an acknowledgement: connecting for the first
  time sends nothing, and subscribing to them again on any connection is filtered out, writes nothing and returns the
  invalid id.\<close>

theorem failed_subscribe_blocks_symbols:
  assumes "session_ok K intern pol s" and "state (s_conn s) \<noteq> Connected" and "\<not> sp_limit_hard pol"
    and "bat_mode (sp_batching pol) = Immediate" and "req_symbols req \<noteq> []" and "req_req_id req = None"
    and "\<forall>x \<in> set (req_symbols req). ctl_state (s_ctl s) d (intern x) = Inactive"
    and "request_ok req" and "id_ok None s"
  shows "\<exists>s1 r. session_subscribe intern pol now senv d req s = Some (s1, INVALID_REQ_ID) \<and> s_sent s1 = s_sent s \<and>
    (\<forall>x \<in> set (req_symbols req). ctl_state (s_ctl s1) d (intern x) = Subscribing r) \<and>
    (\<forall>c now' senv'. epoch c \<le> 1 \<longrightarrow>
       handle_connection_signal intern pol now' senv' SigConnected (s1\<lparr>s_conn := c\<rparr>) = Some (s1\<lparr>s_conn := c\<rparr>)) \<and>
    (\<forall>c now' senv'. \<exists>s2. session_subscribe intern pol now' senv' d req (s1\<lparr>s_conn := c\<rparr>) = Some (s2, INVALID_REQ_ID) \<and>
       s_sent s2 = s_sent s)"
proof -
  obtain s0 r where a: "assign_req_id (req_req_id req) s = (s0, r)" by fastforce
  note A = assign_req_id_fields(1-6) [where r = "req_req_id req" and s = s, unfolded a fst_conv]
  have all: "filter (\<lambda>x. ctl_state (s_ctl s0) d (intern x) = Inactive) (req_symbols req) = req_symbols req"
    using assms(7) by (simp add: A(1) filter_id_conv)
  have ok: "ctl_ok (s_ctl s0)" using session_okD(1) [OF assms(1)] by (simp add: A(1))
  obtain c where c: "ctl_register_subscription intern now d (s_ctl s0) (req_symbols req) r = Some (c, req_symbols req)"
    "ctl_ok c" "\<forall>x \<in> set (req_symbols req). ctl_state c d (intern x) = Subscribing r"
    using ctl_register_subscription_facts [OF ok, of intern now d "req_symbols req" r, unfolded all] assms(7)
    by (auto simp: A(1))
  let ?req = "req\<lparr>req_req_id := Some r\<rparr>"
  let ?s3 = "if sp_replay pol then s0\<lparr>s_ctl := c, s_db := db_add intern d (s_db s0) ?req\<rparr> else s0\<lparr>s_ctl := c\<rparr>"
  have valid: "request_ok ?req" "r \<noteq> 0" using assms(6,8,9) a by (simp_all add: request_ok_def id_ok_def)
  obtain s1 ok where e: "emit_subscription senv pol ?req ?s3 = Some (s1, ok)"
    by (rule emit_returns [OF sub_writes_batches [OF valid(1) _ valid(2)], of senv "sp_batching pol" ?s3]) (use assms(5) in simp_all)
  then have "\<not> ok" "s_sent s1 = s_sent s" "s_ctl s1 = c"
    using assms(2,4) by (auto simp: emit_request_def send_dynamic_request_def session_transmit_def conn_send_def A
        split: if_splits option.splits)
  then have s1: "session_subscribe intern pol now senv d req s = Some (s1, INVALID_REQ_ID)"
    "s_sent s1 = s_sent s" "s_ctl s1 = c"
    using assms(3,5) e by (cases "sp_replay pol"; simp add: session_subscribe_def a c(1) Let_def)+
  have again: "\<exists>s2. session_subscribe intern pol now' senv' d req (s1\<lparr>s_conn := c'\<rparr>) = Some (s2, INVALID_REQ_ID) \<and>
      s_sent s2 = s_sent s" for c' now' senv'
  proof -
    obtain s4 r4 where b: "assign_req_id (req_req_id req) (s1\<lparr>s_conn := c'\<rparr>) = (s4, r4)" by fastforce
    note B = assign_req_id_fields(1-6) [where r = "req_req_id req" and s = "s1\<lparr>s_conn := c'\<rparr>", unfolded b fst_conv]
    have ctl: "s_ctl s4 = c" and sent: "s_sent s4 = s_sent s" using B(1,4) s1(2,3) by simp_all
    have none: "filter (\<lambda>x. ctl_state c d (intern x) = Inactive) (req_symbols req) = []"
      using c(3) by (simp add: filter_empty_conv)
    obtain c2 where "ctl_register_subscription intern now' d c (req_symbols req) r4 = Some (c2, [])"
      using ctl_register_subscription_facts [OF c(2), of intern now' d "req_symbols req" r4, unfolded none] by blast
    then show ?thesis using assms(3) sent by (simp add: session_subscribe_def b ctl Let_def)
  qed
  show ?thesis
    using s1 c(3) again
    by (intro exI [of _ s1] exI [of _ r]) (auto simp: handle_connect_def do_replay_def not_le [symmetric])
qed

theorem failed_subscribe_blocks_symbols_witness:
  "\<exists>s1. session_subscribe name_length demo_session_policy 5 (\<lambda>n. demo_env NoError 9) TradeDomain demo_req
      (Session_init 0 0) = Some (s1, INVALID_REQ_ID) \<and>
    (\<exists>s2. session_subscribe name_length demo_session_policy 6 (\<lambda>n. demo_env NoError 9) TradeDomain demo_req
      (s1\<lparr>s_conn := demo_open 3 NoError\<rparr>) = Some (s2, INVALID_REQ_ID) \<and> s_sent s2 = [])"
proof -
  have "\<forall>x \<in> set (req_symbols demo_req). ctl_state (s_ctl (Session_init 0 0)) TradeDomain (name_length x) = Inactive"
    by (simp add: demo_req_def Session_init_def ctl_state_init)
  from failed_subscribe_blocks_symbols [OF session_ok_init, where pol = demo_session_policy and req = demo_req and
      d = TradeDomain and intern = name_length and now = 5 and senv = "\<lambda>n. demo_env NoError 9", OF _ _ _ _ _ this demo_req_ok]
  show ?thesis by (fastforce simp: Session_init_def Connection_init_def demo_session_policy_def demo_req_def)
qed

text \<open>What a refusal does to the replay. A rejection notice for a pending subscription takes the symbol out of the
  subscription state and out of the replay database. A negative acknowledgement takes it out of the subscription state
  only: the database still owns it, so the refused subscription is made again at the next reconnect, although it was
  never acknowledged.\<close>

theorem refusal_and_replay:
  assumes "session_ok K intern pol s" and "sp_replay pol" and "x \<in> K" and "inj_on intern K"
    and "ctl_state (s_ctl s) TradeDomain (intern x) = Subscribing r"
    and "table_owner (trade_table (s_db s)) (intern x) = Some r"
    and "epoch (s_conn s) > 1" and "signals (s_conn s) = SigDisconnected # mid @ [SigConnected]" and "retry_signals mid"
  shows "ctl_state (s_ctl (context_call intern pol now (CtxRejection r x) s)) TradeDomain (intern x) = Inactive \<and>
    table_owner (trade_table (s_db (context_call intern pol now (CtxRejection r x) s))) (intern x) = None \<and>
    ctl_state (s_ctl (context_call intern pol now (CtxSubscribeAck TradeDomain r x False) s)) TradeDomain (intern x) = Inactive \<and>
    (\<exists>s'. drain_signals intern pol now senv (context_call intern pol now (CtxSubscribeAck TradeDomain r x False) s) = Some s' \<and>
       ctl_state (s_ctl s') TradeDomain (intern x) = Subscribing r)"
proof -
  have k: "interned K intern x" using assms(3,4) by (simp add: interned_def)
  have t: "table_ok K intern (trade_table (s_db s))" using session_okD(2) [OF assms(1)] by (simp add: db_ok_domains)
  have "snd (table_try_process_rejection intern (trade_table (s_db s)) r x)"
    using table.reject_hit [OF t k] assms(6) by simp
  then have db: "trade_table (fst (db_try_process_rejection intern (s_db s) r x)) =
      fst (table_try_process_rejection intern (trade_table (s_db s)) r x)"
    by (simp add: db_try_process_rejection_def case_prod_unfold Let_def)
  have 1: "ctl_state (s_ctl (context_call intern pol now (CtxRejection r x) s)) TradeDomain (intern x) = Inactive"
    "table_owner (trade_table (s_db (context_call intern pol now (CtxRejection r x) s))) (intern x) = None"
    using ctl_rejection_facts(2) [OF session_okD(1) [OF assms(1)], of intern now r x TradeDomain "intern x"]
      table.owner_reject [OF t k, of r] assms(2,5,6) db
    by (simp_all add: handle_rejection_def Let_def)
  let ?s = "context_call intern pol now (CtxSubscribeAck TradeDomain r x False) s"
  have 2: "ctl_state (s_ctl ?s) TradeDomain (intern x) = Inactive"
    using ctl_subscribe_ack_facts(2) [OF session_okD(1) [OF assms(1)], of intern now TradeDomain r x False] assms(5) by simp
  have ok: "session_ok K intern pol ?s" by (rule context_call_ok [OF assms(1) _ assms(4)]) (simp add: assms(3))
  have f: "s_conn ?s = s_conn s" "s_db ?s = s_db s" by simp_all
  let ?d = "handle_disconnect now (?s\<lparr>s_conn := (s_conn ?s)\<lparr>signals := []\<rparr>\<rparr>)"
  have g: "ctl_ok (s_ctl ?d)" "db_ok K intern (s_db ?d)" "epoch (s_conn ?d) > 1"
    "\<forall>d sid. ctl_state (s_ctl ?d) d sid = Inactive" "s_db ?d = s_db s"
    using session_okD(2) [OF assms(1)] assms(7) by (simp_all add: handle_disconnect_def ctl_clear_facts)
  have v: "db_valid (s_db ?d)" using session_okD(4) [OF assms(1)] by (simp only: g(5))
  obtain s' where s': "do_replay intern pol now senv ?d = Some s'"
    "\<forall>sid. ctl_state (s_ctl s') TradeDomain sid =
       (case table_owner (db_table TradeDomain (s_db ?d)) sid of None \<Rightarrow> Inactive | Some r \<Rightarrow> Subscribing r)"
    using do_replay_facts [OF g(1,2) assms(2) g(3,4) v, of now senv] by blast
  have "drain_signals intern pol now senv ?s = Some s'"
    using drain_reconnect [of ?s mid intern pol now senv] s'(1) assms(2,8,9) f(1) by (simp add: handle_connect_def)
  moreover have "ctl_state (s_ctl s') TradeDomain (intern x) = Subscribing r"
    using s'(2) assms(6) unfolding g(5) by simp
  ultimately show ?thesis using 1 2 by blast
qed

theorem refusal_and_replay_witness:
  "\<exists>s'. drain_signals name_length demo_session_policy 5 (\<lambda>n. demo_env NoError 9)
      (context_call name_length demo_session_policy 5 (CtxSubscribeAck TradeDomain 10 ''BB'' False) demo_pending) = Some s' \<and>
    ctl_state (s_ctl s') TradeDomain (name_length ''BB'') = Subscribing 10"
proof -
  have k: "''BB'' \<in> demo_names" by simp
  have o: "table_owner (trade_table (s_db demo_pending)) (name_length ''BB'') = Some 10"
    by (simp add: demo_pending_def demo_session_def demo_table_def table_owner_def name_length_def)
  have c: "epoch (s_conn demo_pending) > 1" "signals (s_conn demo_pending) = SigDisconnected # [SigRetryImmediate] @ [SigConnected]"
    using demo_session_facts(2,3) by (simp_all add: demo_pending_def)
  show ?thesis
    using refusal_and_replay [OF demo_pending_ok(1) demo_session_facts(1) k name_length_inj demo_pending_ok(2) o c
        demo_session_facts(4), of 5 "\<lambda>n. demo_env NoError 9"] by blast
qed

lemma enforce_counts:
  assumes "s_overload s = \<lparr>csc_active = True, csc_consecutive = 0\<rparr>" and "n < unat (sp_escalation pol)"
    and "sp_bp_mode pol \<noteq> ZeroTolerance"
  shows "(enforce_backpressure_policy pol ^^ n) s = s\<lparr>s_overload := \<lparr>csc_active = True, csc_consecutive = of_nat n\<rparr>\<rparr>"
  using assms(2)
proof (induction n)
  case 0
  then show ?case using assms(1) by simp
next
  case (Suc n)
  have "unat (sp_escalation pol) < 2 ^ 32" using unsigned_less [of "sp_escalation pol"] by simp
  then have "Suc n < 2 ^ 32" using Suc.prems by simp
  then have "unat (of_nat (Suc n) :: u32) = Suc n"
    by (simp add: unsigned_of_nat take_bit_nat_eq_self del: of_nat_Suc)
  then have "\<not> sp_escalation pol \<le> (of_nat (Suc n) :: u32)" using Suc.prems by (simp add: word_le_nat_alt del: of_nat_Suc)
  moreover have "(of_nat n + 1 :: u32) = of_nat (Suc n)" by simp
  ultimately show ?case
    using Suc assms(3)
    by (simp add: enforce_backpressure_policy_def csc_next_frame_def csc_count_def Let_def del: of_nat_Suc)
qed

text \<open>C36: once the transport has signalled backpressure, the session tolerates exactly the configured number of consecutive
  polls: before that many polls nothing but the counter changes, and the poll that reaches the escalation
  threshold closes the connection and clears the overload state. Under zero tolerance the session never closes it.\<close>

theorem backpressure_escalates_at_threshold:
  assumes "s_overload s = \<lparr>csc_active = True, csc_consecutive = 0\<rparr>" and "sp_escalation pol > 0"
    and "n < unat (sp_escalation pol)" and "sp_bp_mode pol \<noteq> ZeroTolerance"
  shows "(enforce_backpressure_policy pol ^^ n) s = s\<lparr>s_overload := \<lparr>csc_active = True, csc_consecutive = of_nat n\<rparr>\<rparr> \<and>
    (enforce_backpressure_policy pol ^^ unat (sp_escalation pol)) s =
      s\<lparr>s_conn := conn_close (s_conn s), s_overload := \<lparr>csc_active = False, csc_consecutive = 0\<rparr>\<rparr> \<and>
    s_conn (enforce_backpressure_policy (pol\<lparr>sp_bp_mode := ZeroTolerance\<rparr>) s) = s_conn s"
proof -
  obtain k where k: "unat (sp_escalation pol) = Suc k"
    using assms(2) by (metis not0_implies_Suc unat_0_iff word_gt_0)
  have "(enforce_backpressure_policy pol ^^ k) s = s\<lparr>s_overload := \<lparr>csc_active = True, csc_consecutive = of_nat k\<rparr>\<rparr>"
    using enforce_counts [OF assms(1) _ assms(4), of k] k by simp
  moreover have "of_nat k + 1 = sp_escalation pol"
  proof -
    have "(of_nat (Suc k) :: u32) = of_nat (unat (sp_escalation pol))" using k by simp
    then show ?thesis by (simp add: add.commute)
  qed
  ultimately have "(enforce_backpressure_policy pol ^^ unat (sp_escalation pol)) s =
      s\<lparr>s_conn := conn_close (s_conn s), s_overload := \<lparr>csc_active = False, csc_consecutive = 0\<rparr>\<rparr>"
    using assms(4) k
    by (simp add: enforce_backpressure_policy_def csc_next_frame_def csc_count_def csc_reset_def Let_def)
  then show ?thesis
    using enforce_counts [OF assms(1,3,4)] by (simp add: enforce_backpressure_policy_def Let_def)
qed

theorem backpressure_escalates_at_threshold_witness:
  "state (s_conn ((enforce_backpressure_policy demo_session_policy ^^ 3)
     (demo_session\<lparr>s_overload := \<lparr>csc_active = True, csc_consecutive = 0\<rparr>\<rparr>))) = Disconnecting"
proof -
  have "state (demo_open 3 NoError) = Connected" "ws (demo_open 3 NoError) \<noteq> None" by code_simp+
  then have "state (conn_close (s_conn demo_session)) = Disconnecting"
    by (auto simp: demo_session_def demo_conn_def conn_close_def transition_close_def ws_close_eq split: option.split)
  then show ?thesis
    using backpressure_escalates_at_threshold [of "demo_session\<lparr>s_overload := \<lparr>csc_active = True, csc_consecutive = 0\<rparr>\<rparr>"
        demo_session_policy 0]
    by (simp add: demo_session_policy_def)
qed

end
