(* ===== verification/Bitmap.thy ===== *)
theory Bitmap
  imports Prelude
begin

unbundle bit_operations_syntax

text \<open>
  The bitmaps of the price levels and partitions of the matching engine (partitions.hpp, price_level_store.hpp): a
  vector of 64-bit words, one bit for each level. \<^verbatim>\<open>__builtin_ctzll\<close> and \<^verbatim>\<open>__builtin_clzll\<close> count the
  zeros below the lowest and above the highest bit of a word that is not zero. A bitmap denotes the set of
  the positions of its ones; the scans are compared with the least and the greatest element of that set.
\<close>

section \<open>Words\<close>

definition BITS_PER_WORD :: nat where "BITS_PER_WORD = 64"

definition ctzll :: "u64 \<Rightarrow> nat" where
  "ctzll w = length (takeWhile (\<lambda>n. \<not> bit w n) [0..<64])"

definition clzll :: "u64 \<Rightarrow> nat" where
  "clzll w = length (takeWhile (\<lambda>n. \<not> bit w n) (rev [0..<64]))"

section \<open>Operations\<close>

definition bm_init :: "nat \<Rightarrow> u64 list" where
  "bm_init n = replicate ((n + BITS_PER_WORD - 1) div BITS_PER_WORD) 0"

definition bm_set :: "nat \<Rightarrow> u64 list \<Rightarrow> u64 list" where
  "bm_set off ws = ws[off div BITS_PER_WORD := (ws ! (off div BITS_PER_WORD)) OR push_bit (off mod BITS_PER_WORD) 1]"

definition bm_clear :: "nat \<Rightarrow> u64 list \<Rightarrow> u64 list" where
  "bm_clear off ws = ws[off div BITS_PER_WORD := (ws ! (off div BITS_PER_WORD)) AND NOT (push_bit (off mod BITS_PER_WORD) 1)]"

definition bm_test :: "nat \<Rightarrow> u64 list \<Rightarrow> bool" where
  "bm_test off ws \<longleftrightarrow> (ws ! (off div BITS_PER_WORD)) AND push_bit (off mod BITS_PER_WORD) 1 \<noteq> 0"

fun bm_empty :: "u64 list \<Rightarrow> bool" where
  "bm_empty [] = True"
| "bm_empty (w # ws) = (if w \<noteq> 0 then False else bm_empty ws)"

text \<open>The scans of \<^verbatim>\<open>recompute_best\<close>: down from the last word for bids, up from the first for asks.\<close>

fun bm_scan_down :: "nat \<Rightarrow> u64 list \<Rightarrow> nat option" where
  "bm_scan_down 0 ws = None"
| "bm_scan_down (Suc w) ws =
     (if ws ! w \<noteq> 0 then Some (w * BITS_PER_WORD + (63 - clzll (ws ! w))) else bm_scan_down w ws)"

fun bm_scan_up :: "nat \<Rightarrow> u64 list \<Rightarrow> nat option" where
  "bm_scan_up w [] = None"
| "bm_scan_up w (x # xs) =
     (if x \<noteq> 0 then Some (w * BITS_PER_WORD + ctzll x) else bm_scan_up (Suc w) xs)"

text \<open>\<^verbatim>\<open>while (mask) { bit = ctz(mask); ...; mask &= mask - 1; }\<close>: the bits that the loop visits.\<close>

fun mask_bits :: "nat \<Rightarrow> u64 \<Rightarrow> nat list" where
  "mask_bits 0 w = []"
| "mask_bits (Suc fuel) w = (if w = 0 then [] else ctzll w # mask_bits fuel (w AND (w - 1)))"

fun bm_bits :: "nat \<Rightarrow> u64 list \<Rightarrow> nat list" where
  "bm_bits w [] = []"
| "bm_bits w (x # xs) = map (\<lambda>b. w * BITS_PER_WORD + b) (mask_bits 64 x) @ bm_bits (Suc w) xs"

section \<open>The set of a bitmap\<close>

definition bm_bit :: "u64 list \<Rightarrow> nat \<Rightarrow> bool" where
  "bm_bit ws n \<longleftrightarrow> n div 64 < length ws \<and> bit (ws ! (n div 64)) (n mod 64)"

abbreviation bm_ones :: "u64 list \<Rightarrow> nat set" where
  "bm_ones ws \<equiv> {n. bm_bit ws n}"

lemma bits_per_word [simp]: "BITS_PER_WORD = 64"
  by (simp add: BITS_PER_WORD_def)

lemma word_zero_iff: "(w :: u64) = 0 \<longleftrightarrow> (\<forall>n < 64. \<not> bit w n)"
  by (auto simp: bit_eq_iff)

lemma bm_set_length [simp]: "length (bm_set off ws) = length ws"
  by (simp add: bm_set_def)

lemma bm_clear_length [simp]: "length (bm_clear off ws) = length ws"
  by (simp add: bm_clear_def)

lemma div_mod_64: "(n :: nat) div 64 = m div 64 \<Longrightarrow> n mod 64 = m mod 64 \<Longrightarrow> n = m"
  by (metis div_mult_mod_eq)

lemma bit_two_power: "bit (2 ^ m :: u64) n \<longleftrightarrow> n < 64 \<and> m = n"
  by (auto simp: bit_exp_iff)

lemma bm_bit_set: "off div 64 < length ws \<Longrightarrow> bm_bit (bm_set off ws) n \<longleftrightarrow> n = off \<or> bm_bit ws n"
  by (auto simp: bm_bit_def bm_set_def nth_list_update bit_or_iff bit_two_power dest: div_mod_64)

lemma bm_bit_clear: "bm_bit (bm_clear off ws) n \<longleftrightarrow> n \<noteq> off \<and> bm_bit ws n"
  by (cases "off div 64 < length ws")
     (auto simp: bm_bit_def bm_clear_def nth_list_update bit_and_iff bit_not_iff bit_two_power dest: div_mod_64)

lemma and_push_bit_zero: "n < 64 \<Longrightarrow> (w :: u64) AND push_bit n 1 = 0 \<longleftrightarrow> \<not> bit w n"
  unfolding word_zero_iff by (auto simp: bit_and_iff bit_two_power)

lemma bm_test_bit: "off div 64 < length ws \<Longrightarrow> bm_test off ws = bm_bit ws off"
  using and_push_bit_zero [of "off mod 64" "ws ! (off div 64)"] by (simp add: bm_test_def bm_bit_def)

lemma bm_bit_init [simp]: "\<not> bm_bit (bm_init n) m"
  by (simp add: bm_bit_def bm_init_def)

lemma bm_bit_Cons: "bm_bit (w # ws) n \<longleftrightarrow> (if n < 64 then bit w n else bm_bit ws (n - 64))"
proof (cases "n < 64")
  case False
  then obtain m where "n = 64 + m" using le_Suc_ex not_less by blast
  then show ?thesis by (simp add: bm_bit_def div_add1_eq)
qed (simp add: bm_bit_def)

lemma bm_empty_iff: "bm_empty ws \<longleftrightarrow> (\<forall>n. \<not> bm_bit ws n)"
proof (induction ws)
  case (Cons w ws)
  have "(\<forall>n. \<not> bm_bit (w # ws) n) \<longleftrightarrow> w = 0 \<and> (\<forall>n. \<not> bm_bit ws n)"
  proof
    assume a: "\<forall>n. \<not> bm_bit (w # ws) n"
    then have "\<forall>n < 64. \<not> bit w n" by (metis bm_bit_Cons)
    moreover have "\<not> bm_bit ws n" for n using a [rule_format, of "n + 64"] by (simp add: bm_bit_Cons)
    ultimately show "w = 0 \<and> (\<forall>n. \<not> bm_bit ws n)" by (simp add: word_zero_iff)
  qed (auto simp: bm_bit_Cons)
  with Cons show ?case by simp
qed (simp add: bm_bit_def)

section \<open>Scanning\<close>

lemma takeWhile_upt:
  assumes "P m" and "\<forall>i < m. \<not> P i" and "m < n"
  shows "length (takeWhile (\<lambda>i. \<not> P i) [0..<n]) = m"
proof -
  have "[0..<n] = [0..<m] @ m # [Suc m..<n]"
    using assms(3) by (metis append_Cons append_Nil less_imp_le_nat upt_add_eq_append upt_conv_Cons le_add_diff_inverse zero_le)
  then show ?thesis using assms(1,2) by (simp add: takeWhile_tail takeWhile_eq_all_conv [THEN iffD2])
qed

lemma word_two_power: "k < LENGTH('a) \<Longrightarrow> unat (2 ^ k :: 'a :: len word) = 2 ^ k"
  by (simp add: unsigned_of_nat [of "2 ^ k", simplified] take_bit_nat_eq_self)

lemma ctzll_least:
  assumes "bit w m" and "\<forall>i < m. \<not> bit w i"
  shows "ctzll w = m"
proof -
  have "m < 64" using assms(1) bit_imp_le_length [of w m] by simp
  then show ?thesis using takeWhile_upt [of "bit w" m 64] assms by (simp add: ctzll_def)
qed

lemma clzll_greatest:
  assumes "bit w m" and "\<forall>i. m < i \<longrightarrow> \<not> bit w i"
  shows "63 - clzll w = m"
proof -
  have m: "m < 64" using assms(1) bit_imp_le_length [of w m] by simp
  have "rev [0..<64] = rev [Suc m..<64] @ m # rev [0..<m]"
  proof -
    have "[0..<64] = [0..<m] @ m # [Suc m..<64]"
      using m by (metis append_Cons append_Nil less_imp_le_nat upt_add_eq_append upt_conv_Cons le_add_diff_inverse zero_le)
    then show ?thesis by simp
  qed
  then have "takeWhile (\<lambda>n. \<not> bit w n) (rev [0..<64]) = rev [Suc m..<64]"
    using assms by (simp add: takeWhile_tail takeWhile_eq_all_conv [THEN iffD2])
  then show ?thesis using m by (simp add: clzll_def)
qed

lemma word_bounds:
  assumes "(w :: u64) \<noteq> 0"
  shows "bit w (ctzll w)" and "bit w i \<Longrightarrow> ctzll w \<le> i" and "bit w (63 - clzll w)" and "bit w i \<Longrightarrow> i \<le> 63 - clzll w"
    and "ctzll w < 64" and "63 - clzll w < 64"
proof -
  have ne: "{n. bit w n} \<noteq> {}" using assms by (auto simp: word_zero_iff)
  have fin: "finite {n. bit w n}"
    by (rule finite_subset [of _ "{..<64}"]) (auto dest: bit_imp_le_length)
  let ?l = "Min {n. bit w n}" and ?g = "Max {n. bit w n}"
  have l: "ctzll w = ?l"
    by (rule ctzll_least) (use Min_in [OF fin ne] Min_le [OF fin] in \<open>auto simp: not_less [symmetric]\<close>)
  have g: "63 - clzll w = ?g"
    by (rule clzll_greatest) (use Max_in [OF fin ne] Max_ge [OF fin] in \<open>auto simp: not_less [symmetric]\<close>)
  show "bit w (ctzll w)" "bit w (63 - clzll w)" unfolding l g using Min_in [OF fin ne] Max_in [OF fin ne] by auto
  show "bit w i \<Longrightarrow> ctzll w \<le> i" "bit w i \<Longrightarrow> i \<le> 63 - clzll w"
    unfolding l g using Min_le [OF fin] Max_ge [OF fin] by auto
  show "ctzll w < 64" using \<open>bit w (ctzll w)\<close> bit_imp_le_length by fastforce
  show "63 - clzll w < 64" by simp
qed

lemma bm_scan_down_facts:
  assumes "n \<le> length ws"
  shows "(case bm_scan_down n ws of None \<Rightarrow> \<forall>i. bm_bit ws i \<longrightarrow> n * 64 \<le> i
    | Some m \<Rightarrow> bm_bit ws m \<and> (\<forall>i. bm_bit ws i \<longrightarrow> i < n * 64 \<longrightarrow> i \<le> m))"
  using assms
proof (induction n)
  case (Suc n)
  show ?case
  proof (cases "ws ! n = 0")
    case True
    have gap: "\<not> bm_bit ws i" if "n * 64 \<le> i" "i < Suc n * 64" for i
    proof -
      have "i div 64 = n" using that by simp
      then show ?thesis using True by (simp add: bm_bit_def)
    qed
    show ?thesis using Suc True gap by (auto split: option.splits) (metis not_less add.commute mult_Suc)+
  next
    case False
    let ?b = "63 - clzll (ws ! n)"
    have b: "?b < 64" "bit (ws ! n) ?b" using word_bounds [OF False] by auto
    have "bm_bit ws (n * 64 + ?b)" using b Suc.prems by (simp add: bm_bit_def)
    moreover have "i \<le> n * 64 + ?b" if "bm_bit ws i" "i < Suc n * 64" for i
    proof (cases "i < n * 64")
      case False
      then have "i div 64 = n" using that(2) by simp
      then have "bit (ws ! n) (i mod 64)" using that(1) by (auto simp: bm_bit_def)
      then have "i mod 64 \<le> ?b" by (rule word_bounds(4) [OF \<open>ws ! n \<noteq> 0\<close>])
      then show ?thesis using \<open>i div 64 = n\<close> by (metis add_left_mono div_mult_mod_eq)
    qed simp
    ultimately show ?thesis using False by simp
  qed
qed simp

lemma bm_scan_up_facts:
  "(case bm_scan_up k ws of None \<Rightarrow> \<forall>i. \<not> bm_bit ws i
    | Some m \<Rightarrow> k * 64 \<le> m \<and> bm_bit ws (m - k * 64) \<and> (\<forall>i. bm_bit ws i \<longrightarrow> m \<le> k * 64 + i))"
proof (induction k ws rule: bm_scan_up.induct)
  case (2 k w ws)
  show ?case
  proof (cases "w = 0")
    case True
    have shift: "bm_bit (0 # ws) i \<longleftrightarrow> 64 \<le> i \<and> bm_bit ws (i - 64)" for i by (simp add: bm_bit_Cons)
    show ?thesis
    proof (cases "bm_scan_up (Suc k) ws")
      case None
      then show ?thesis using "2.IH" True by (simp add: shift)
    next
      case (Some m)
      then have m: "Suc k * 64 \<le> m" "bm_bit ws (m - Suc k * 64)" "\<forall>i. bm_bit ws i \<longrightarrow> m \<le> Suc k * 64 + i"
        using "2.IH" True by simp_all
      have "m \<le> k * 64 + i" if "64 \<le> i" "bm_bit ws (i - 64)" for i
        using m(3) [rule_format, OF that(2)] that(1) by simp
      then show ?thesis using m(1,2) True Some by (simp add: shift diff_diff_left add.commute)
    qed
  next
    case False
    have b: "ctzll w < 64" "bit w (ctzll w)" using word_bounds [OF False] by auto
    have "ctzll w \<le> i" if "bm_bit (w # ws) i" for i
      using that word_bounds(2) [OF False, of i] b(1) by (auto simp: bm_bit_Cons split: if_splits)
    then show ?thesis using False b by (simp add: bm_bit_Cons)
  qed
qed (simp add: bm_bit_def)

section \<open>Iterating\<close>

lemma clear_lowest:
  assumes "(w :: u64) \<noteq> 0"
  shows "bit (w AND (w - 1)) n \<longleftrightarrow> bit w n \<and> n \<noteq> ctzll w"
proof -
  let ?k = "ctzll w"
  note B = word_bounds(1,2,5) [OF assms]
  define v where "v = w AND NOT (2 ^ ?k)"
  have v: "bit v n \<longleftrightarrow> bit w n \<and> n \<noteq> ?k" for n
    using bit_imp_le_length [of w n] by (auto simp: v_def bit_and_iff bit_not_iff bit_two_power)
  have "w = v OR 2 ^ ?k" using B by (intro bit_word_eqI) (auto simp: bit_or_iff v bit_two_power)
  also have "\<dots> = v + 2 ^ ?k" by (rule disjunctive_add_eq_or [symmetric]) (auto simp: word_zero_iff bit_and_iff v bit_two_power)
  finally have "w - 1 = v + mask ?k" by (simp add: mask_eq_exp_minus_1)
  also have "\<dots> = v OR mask ?k"
    using B(2) by (intro disjunctive_add_eq_or) (fastforce simp: word_zero_iff bit_and_iff v bit_mask_iff)
  finally have "bit (w - 1) n \<longleftrightarrow> bit v n \<or> n < 64 \<and> n < ?k" by (simp add: bit_or_iff bit_mask_iff)
  then show ?thesis using B(2) [of n] by (auto simp: bit_and_iff v)
qed

lemma finite_word_bits [simp]: "finite {n. bit (w :: u64) n}"
  by (rule finite_subset [of _ "{..<64}"]) (auto dest: bit_imp_le_length)

lemma mask_bits_facts:
  assumes "card {n. bit w n} \<le> fuel"
  shows "set (mask_bits fuel w) = {n. bit w n}" and "sorted_wrt (<) (mask_bits fuel w)"
proof -
  have "set (mask_bits fuel w) = {n. bit w n} \<and> sorted_wrt (<) (mask_bits fuel w)"
    using assms
  proof (induction fuel arbitrary: w)
    case 0
    then show ?case by simp
  next
    case (Suc fuel)
    show ?case
    proof (cases "w = 0")
      case False
      let ?v = "w AND (w - 1)"
      have v: "{n. bit ?v n} = {n. bit w n} - {ctzll w}" using clear_lowest [OF False] by auto
      have "card {n. bit ?v n} \<le> fuel"
        using Suc.prems word_bounds(1) [OF False] unfolding v by (simp add: card_Diff_singleton)
      note IH = Suc.IH [OF this]
      have "ctzll w < n" if "n \<in> set (mask_bits fuel ?v)" for n
        using that IH v word_bounds(2) [OF False, of n] by fastforce
      then show ?thesis using False IH v word_bounds(1) [OF False] by auto
    qed simp
  qed
  then show "set (mask_bits fuel w) = {n. bit w n}" "sorted_wrt (<) (mask_bits fuel w)" by simp_all
qed

lemma word_bits_card: "card {n. bit (w :: u64) n} \<le> 64"
proof -
  have "{n. bit w n} \<subseteq> {..<64}" by (auto dest: bit_imp_le_length)
  from card_mono [OF _ this] show ?thesis by simp
qed

lemma bm_bits_facts:
  "set (bm_bits k ws) = (\<lambda>n. k * 64 + n) ` bm_ones ws" "sorted_wrt (<) (bm_bits k ws)"
proof -
  have "set (bm_bits k ws) = (\<lambda>n. k * 64 + n) ` bm_ones ws \<and> sorted_wrt (<) (bm_bits k ws)"
  proof (induction k ws rule: bm_bits.induct)
    case (2 k w ws)
    note M = mask_bits_facts [OF word_bits_card, of w]
    have lt: "n < 64" if "bit w n" for n using that bit_imp_le_length by fastforce
    have "bm_ones (w # ws) = {n. bit w n} \<union> (\<lambda>n. 64 + n) ` bm_ones ws"
    proof (rule set_eqI)
      fix n show "n \<in> bm_ones (w # ws) \<longleftrightarrow> n \<in> {n. bit w n} \<union> (\<lambda>n. 64 + n) ` bm_ones ws"
        using lt by (cases "n < 64") (auto simp: bm_bit_Cons image_iff intro: exI [of _ "n - 64"])
    qed
    then have "set (bm_bits k (w # ws)) = (\<lambda>n. k * 64 + n) ` bm_ones (w # ws)"
      using "2.IH" by (auto simp: M(1) image_Un image_image add.assoc [symmetric] add.commute)
    moreover have "sorted_wrt (<) (map (\<lambda>b. k * 64 + b) (mask_bits 64 w))"
      using M(2) by (simp add: sorted_wrt_map)
    ultimately show ?case using "2.IH" lt by (auto simp: sorted_wrt_append M(1)) fastforce
  qed (simp add: bm_bit_def)
  then show "set (bm_bits k ws) = (\<lambda>n. k * 64 + n) ` bm_ones ws" "sorted_wrt (<) (bm_bits k ws)" by simp_all
qed

lemma finite_ones [simp]: "finite (bm_ones ws)"
  by (rule finite_subset [of _ "{..<length ws * 64}"]) (auto simp: bm_bit_def div_less_iff_less_mult)

section \<open>Properties\<close>

text \<open>C28: the bit tricks of the matching engine compute what they are meant to: the scans with \<^verbatim>\<open>clz\<close> and \<^verbatim>\<open>ctz\<close>
  return the greatest and the least active position and nothing exactly for an empty bitmap, and the loop that
  clears the lowest bit with \<^verbatim>\<open>mask & (mask - 1)\<close> visits every active position once, in ascending order; setting
  and clearing a position changes that position only.\<close>

theorem bitmap_scans_are_min_max:
  "bm_scan_down (length ws) ws = (if bm_ones ws = {} then None else Some (Max (bm_ones ws))) \<and>
   bm_scan_up 0 ws = (if bm_ones ws = {} then None else Some (Min (bm_ones ws))) \<and>
   bm_bits 0 ws = sorted_list_of_set (bm_ones ws) \<and> bm_empty ws = (bm_ones ws = {}) \<and>
   (off div 64 < length ws \<longrightarrow> bm_test off ws = (off \<in> bm_ones ws) \<and> bm_ones (bm_set off ws) = insert off (bm_ones ws)) \<and>
   bm_ones (bm_clear off ws) = bm_ones ws - {off}"
proof -
  have lt: "i < length ws * 64" if "bm_bit ws i" for i using that by (auto simp: bm_bit_def div_less_iff_less_mult)
  have down: "bm_scan_down (length ws) ws = (if bm_ones ws = {} then None else Some (Max (bm_ones ws)))"
  proof (cases "bm_scan_down (length ws) ws")
    case None
    then show ?thesis using bm_scan_down_facts [of "length ws" ws] lt by fastforce
  next
    case (Some m)
    then have "bm_bit ws m" "\<forall>i. bm_bit ws i \<longrightarrow> i \<le> m" using bm_scan_down_facts [of "length ws" ws] lt by auto
    then show ?thesis using Some by (auto intro!: Max_eqI [symmetric])
  qed
  have up: "bm_scan_up 0 ws = (if bm_ones ws = {} then None else Some (Min (bm_ones ws)))"
    using bm_scan_up_facts [where k = 0 and ws = ws] by (auto split: option.splits intro!: Min_eqI [symmetric])
  have bits: "bm_bits 0 ws = sorted_list_of_set (bm_ones ws)"
    using bm_bits_facts [where k = 0 and ws = ws]
    by (intro sorted_distinct_set_unique) (auto simp: strict_sorted_iff)
  show ?thesis
    using down up bits bm_empty_iff [of ws] by (auto simp: bm_test_bit bm_bit_set bm_bit_clear)
qed

theorem bitmap_scans_are_min_max_witness:
  "bm_scan_down 2 (bm_set 70 (bm_set 3 (bm_init 128))) = Some 70 \<and> bm_test 70 (bm_set 70 (bm_set 3 (bm_init 128)))"
proof -
  have l: "length (bm_set 70 (bm_set 3 (bm_init 128))) = 2" "length (bm_set 3 (bm_init 128)) = 2" "length (bm_init 128) = 2"
    by (simp_all add: bm_init_def)
  have "bm_ones (bm_set 3 (bm_init 128)) = {3}"
    using bitmap_scans_are_min_max [of "bm_init 128" 3] l(3) by simp
  then have "bm_ones (bm_set 70 (bm_set 3 (bm_init 128))) = {70, 3}"
    using bitmap_scans_are_min_max [of "bm_set 3 (bm_init 128)" 70] l(2) by simp
  then show ?thesis using bitmap_scans_are_min_max [of "bm_set 70 (bm_set 3 (bm_init 128))" 70] l(1) by simp
qed

end
