(* ===== verification/Flash_Types.thy ===== *)
theory Flash_Types
  imports Prelude
begin

text \<open>
  Types of the Flashstrike matching engine (flashstrike/types.hpp, constants.hpp) and the order record
  (matching_engine/order_pool.hpp). \<^verbatim>\<open>Price\<close> and \<^verbatim>\<open>Quantity\<close> are 64-bit signed ticks, here integers. \<^verbatim>\<open>OrderIdx\<close> is an
  index into the order pool with \<^verbatim>\<open>INVALID_INDEX\<close> (-1) as its null value, here an optional natural number.
\<close>

datatype side = BID | ASK
datatype order_type = LIMIT | MARKET
datatype time_in_force = GTC | IOC | FOK

datatype operation_status =
    SUCCESS | FULL_FILL | PARTIAL_FILL | NO_MATCH | NOT_FOUND | UNCHANGED | INVALID_ORDER
  | BOOK_FULL | BAD_ALLOC | IDMAP_FULL | REJECTED

type_synonym order_id = u32
type_synonym order_idx = "nat option"
type_synonym price = int
type_synonym quantity = int

definition INVALID_PRICE :: price where "INVALID_PRICE = - 1"

fun opp_side :: "side \<Rightarrow> side" where
  "opp_side BID = ASK"
| "opp_side ASK = BID"

record order =
  o_prev :: order_idx
  o_next :: order_idx
  o_next_free :: order_idx
  o_id :: order_id
  o_type :: order_type
  o_tif :: time_in_force
  o_price :: price
  o_qty :: quantity
  o_filled :: quantity
  o_side :: side

text \<open>\<^verbatim>\<open>PriceComparator\<close>: what is better, worse or crossing depends on the side.\<close>

fun is_better :: "side \<Rightarrow> price \<Rightarrow> price \<Rightarrow> bool" where
  "is_better BID a b = (a > b)"
| "is_better ASK a b = (a < b)"

fun is_worse :: "side \<Rightarrow> price \<Rightarrow> price \<Rightarrow> bool" where
  "is_worse BID a b = (a < b)"
| "is_worse ASK a b = (a > b)"

fun crosses :: "side \<Rightarrow> price \<Rightarrow> price \<Rightarrow> bool" where
  "crosses BID incoming resting = (incoming \<ge> resting)"
| "crosses ASK incoming resting = (incoming \<le> resting)"

lemma all_sides: "(\<forall>sd. P sd) \<longleftrightarrow> P BID \<and> P ASK"
  by (metis side.exhaust)

lemma opp_side_neq [simp]: "opp_side sd \<noteq> sd" "sd \<noteq> opp_side sd" "opp_side (opp_side sd) = sd"
  by (cases sd; simp)+

lemma option_ext: "(\<And>u. a = Some u \<longleftrightarrow> b = Some u) \<Longrightarrow> a = b"
  by (metis not_None_eq)

end
