(* ===== verification/Order_Pool.thy ===== *)
theory Order_Pool
  imports Flash_Types
begin

text \<open>
  \<^verbatim>\<open>OrderPool\<close> (matching_engine/order_pool.hpp): a fixed array of orders whose free slots form an intrusive
  singly linked list. The array is a function from indices, defined below \<open>op_capacity\<close>.
\<close>

record order_pool =
  op_orders :: "nat \<Rightarrow> order"
  op_capacity :: nat
  op_free_head :: order_idx
  op_used :: nat

definition blank_order :: order where
  "blank_order = \<lparr>o_prev = Some 0, o_next = Some 0, o_next_free = Some 0, o_id = 0, o_type = LIMIT, o_tif = GTC,
     o_price = 0, o_qty = 0, o_filled = 0, o_side = BID\<rparr>"

definition OrderPool_init :: "nat \<Rightarrow> order_pool" where
  "OrderPool_init max_orders = \<lparr>op_orders = (\<lambda>i. blank_order\<lparr>o_next_free := if i < max_orders - 1 then Some (i + 1) else None\<rparr>),
     op_capacity = max_orders, op_free_head = Some 0, op_used = 0\<rparr>"

definition upd_order :: "nat \<Rightarrow> (order \<Rightarrow> order) \<Rightarrow> order_pool \<Rightarrow> order_pool" where
  "upd_order i f p = p\<lparr>op_orders := (op_orders p)(i := f (op_orders p i))\<rparr>"

definition op_allocate :: "order_pool \<Rightarrow> order_pool \<times> order_idx" where
  "op_allocate p =
     (case op_free_head p of
        None \<Rightarrow> (p, None)
      | Some i \<Rightarrow>
          ((upd_order i (\<lambda>o'. o'\<lparr>o_next_free := None, o_prev := None, o_next := None, o_qty := 0\<rparr>) p)
             \<lparr>op_free_head := o_next_free (op_orders p i), op_used := op_used p + 1\<rparr>, Some i))"

definition op_release :: "nat \<Rightarrow> order_pool \<Rightarrow> order_pool" where
  "op_release i p = (upd_order i (\<lambda>o'. o'\<lparr>o_next_free := op_free_head p\<rparr>) p)\<lparr>op_free_head := Some i, op_used := op_used p - 1\<rparr>"

definition op_free_slots :: "order_pool \<Rightarrow> nat" where
  "op_free_slots p = op_capacity p - op_used p"

section \<open>Invariant\<close>

text \<open>The free list as a path through the \<^verbatim>\<open>next_free\<close> links.\<close>

fun free_path :: "(nat \<Rightarrow> order) \<Rightarrow> order_idx \<Rightarrow> nat list \<Rightarrow> bool" where
  "free_path os h [] \<longleftrightarrow> h = None"
| "free_path os h (x # xs) \<longleftrightarrow> h = Some x \<and> free_path os (o_next_free (os x)) xs"

definition pool_ok :: "nat list \<Rightarrow> order_pool \<Rightarrow> bool" where
  "pool_ok fs p \<longleftrightarrow> free_path (op_orders p) (op_free_head p) fs \<and> distinct fs \<and> set fs \<subseteq> {..<op_capacity p} \<and>
     op_used p + length fs = op_capacity p"

lemma free_path_upd: "x \<notin> set fs \<Longrightarrow> free_path (os(x := o')) h fs = free_path os h fs"
  by (induction fs arbitrary: h) auto

lemma free_path_keep:
  "(\<forall>x \<in> set fs. o_next_free (os' x) = o_next_free (os x)) \<Longrightarrow> free_path os' h fs = free_path os h fs"
  by (induction fs arbitrary: h) auto

lemma upd_order_simps [simp]:
  "op_orders (upd_order i f p) = (op_orders p)(i := f (op_orders p i))"
  "op_capacity (upd_order i f p) = op_capacity p" "op_free_head (upd_order i f p) = op_free_head p"
  "op_used (upd_order i f p) = op_used p"
  by (simp_all add: upd_order_def)

lemma init_path: "k < n \<Longrightarrow> free_path (op_orders (OrderPool_init n)) (Some k) [k..<n]"
proof (induction "n - k" arbitrary: k)
  case (Suc m)
  show ?case
  proof (cases "Suc k < n")
    case True
    then have "free_path (op_orders (OrderPool_init n)) (Some (Suc k)) [Suc k..<n]" using Suc by simp
    then show ?thesis using True Suc.prems by (simp add: upt_conv_Cons OrderPool_init_def)
  next
    case False
    then have "[k..<n] = [k]" using Suc.prems by (simp add: upt_conv_Cons)
    then show ?thesis using False by (simp add: OrderPool_init_def)
  qed
qed simp

lemma pool_ok_init: "0 < n \<Longrightarrow> pool_ok [0..<n] (OrderPool_init n)"
  using init_path [of 0 n] by (auto simp: pool_ok_def OrderPool_init_def)

lemma pool_ok_upd:
  "pool_ok fs p \<Longrightarrow> (\<And>o'. o_next_free (f o') = o_next_free o') \<Longrightarrow> pool_ok fs (upd_order i f p)"
  by (simp add: pool_ok_def free_path_keep [of fs "(op_orders p)(i := f (op_orders p i))" "op_orders p"])

lemma allocate_facts:
  assumes "pool_ok fs p"
  shows "fs = [] \<Longrightarrow> op_allocate p = (p, None)"
    and "fs = i # fs' \<Longrightarrow> snd (op_allocate p) = Some i \<and> pool_ok fs' (fst (op_allocate p)) \<and>
      op_capacity (fst (op_allocate p)) = op_capacity p \<and>
      op_orders (fst (op_allocate p)) = (op_orders p)(i := (op_orders p i)
        \<lparr>o_next_free := None, o_prev := None, o_next := None, o_qty := 0\<rparr>)"
  using assms by (auto simp: pool_ok_def op_allocate_def free_path_upd split: option.split)

lemma release_facts:
  assumes "pool_ok fs p" and "i < op_capacity p" and "i \<notin> set fs"
  shows "pool_ok (i # fs) (op_release i p)" and "op_capacity (op_release i p) = op_capacity p"
    and "op_orders (op_release i p) = (op_orders p)(i := (op_orders p i)\<lparr>o_next_free := op_free_head p\<rparr>)"
proof -
  have "card (insert i (set fs)) \<le> op_capacity p"
    using card_mono [of "{..<op_capacity p}" "insert i (set fs)"] assms by (auto simp: pool_ok_def)
  then have "0 < op_used p" using assms(1,3) by (simp add: pool_ok_def distinct_card)
  then show "pool_ok (i # fs) (op_release i p)"
    using assms by (simp add: pool_ok_def op_release_def free_path_upd)
qed (simp_all add: op_release_def)

end
