(* ===== verification/Order_Id_Map.thy ===== *)
theory Order_Id_Map
  imports Flash_Types
begin

unbundle bit_operations_syntax

text \<open>
  \<^verbatim>\<open>OrderIdMap\<close> (matching_engine/order_id_map.hpp): an open-addressing hash table from order ids to pool
  indices, with linear probing and tombstones. The scaling of the requested capacity by the float
  factor 2.0 is exact below \<open>2 ^ 24\<close> orders.
\<close>

section \<open>Operations\<close>

record id_entry =
  ie_key :: order_id
  ie_val :: order_idx

record order_id_map =
  im_table :: "id_entry list"
  im_size :: u64

definition EMPTY_KEY :: order_id where "EMPTY_KEY = 0"
definition TOMBSTONE_KEY :: order_id where "TOMBSTONE_KEY = - 1"

fun round_up_pow2 :: "nat \<Rightarrow> nat \<Rightarrow> nat \<Rightarrow> nat" where
  "round_up_pow2 0 c capacity = c"
| "round_up_pow2 (Suc fuel) c capacity = (if c < capacity then round_up_pow2 fuel (2 * c) capacity else c)"

definition OrderIdMap_init :: "nat \<Rightarrow> order_id_map" where
  "OrderIdMap_init capacity =
     \<lparr>im_table = replicate (round_up_pow2 (max 16 (2 * capacity)) 1 (max 16 (2 * capacity))) \<lparr>ie_key = EMPTY_KEY, ie_val = None\<rparr>,
      im_size = 0\<rparr>"

definition hash_orderId :: "order_id \<Rightarrow> u32" where
  "hash_orderId ordid = ordid * 2654435761"

definition im_capacity :: "order_id_map \<Rightarrow> nat" where
  "im_capacity m = length (im_table m)"

text \<open>The slots that the loop variable \<open>i\<close> runs through.\<close>

definition probe_seq :: "nat \<Rightarrow> order_id \<Rightarrow> nat list" where
  "probe_seq cap ordid = (let h = unat (hash_orderId ordid AND of_nat (cap - 1)) in map (\<lambda>i. (h + i) AND (cap - 1)) [0..<cap])"

fun find_probe :: "id_entry list \<Rightarrow> order_id \<Rightarrow> nat list \<Rightarrow> order_idx" where
  "find_probe tbl ordid [] = None"
| "find_probe tbl ordid (idx # rest) =
     (if ie_key (tbl ! idx) = EMPTY_KEY then None
      else if ie_key (tbl ! idx) = ordid then ie_val (tbl ! idx)
      else find_probe tbl ordid rest)"

definition id_find :: "order_id_map \<Rightarrow> order_id \<Rightarrow> order_idx" where
  "id_find m ordid = find_probe (im_table m) ordid (probe_seq (im_capacity m) ordid)"

definition id_contains :: "order_id_map \<Rightarrow> order_id \<Rightarrow> bool" where
  "id_contains m ordid \<longleftrightarrow> id_find m ordid \<noteq> None"

fun insert_probe :: "id_entry list \<Rightarrow> nat list \<Rightarrow> nat option" where
  "insert_probe tbl [] = None"
| "insert_probe tbl (idx # rest) =
     (if ie_key (tbl ! idx) = EMPTY_KEY \<or> ie_key (tbl ! idx) = TOMBSTONE_KEY then Some idx else insert_probe tbl rest)"

definition id_insert :: "order_id_map \<Rightarrow> order_id \<Rightarrow> nat \<Rightarrow> order_id_map \<times> bool" where
  "id_insert m ordid order_idx =
     (case insert_probe (im_table m) (probe_seq (im_capacity m) ordid) of
        Some idx \<Rightarrow> (\<lparr>im_table = (im_table m)[idx := \<lparr>ie_key = ordid, ie_val = Some order_idx\<rparr>], im_size = im_size m + 1\<rparr>, True)
      | None \<Rightarrow> (m, False))"

fun remove_probe :: "id_entry list \<Rightarrow> order_id \<Rightarrow> nat list \<Rightarrow> nat option" where
  "remove_probe tbl ordid [] = None"
| "remove_probe tbl ordid (idx # rest) =
     (if ie_key (tbl ! idx) = EMPTY_KEY then None
      else if ie_key (tbl ! idx) = ordid then Some idx
      else remove_probe tbl ordid rest)"

definition id_remove :: "order_id_map \<Rightarrow> order_id \<Rightarrow> order_id_map \<times> bool" where
  "id_remove m ordid =
     (case remove_probe (im_table m) ordid (probe_seq (im_capacity m) ordid) of
        Some idx \<Rightarrow> (\<lparr>im_table = (im_table m)[idx := \<lparr>ie_key = TOMBSTONE_KEY, ie_val = None\<rparr>], im_size = im_size m - 1\<rparr>, True)
      | None \<Rightarrow> (m, False))"

definition id_clear :: "order_id_map \<Rightarrow> order_id_map" where
  "id_clear m = \<lparr>im_table = map (\<lambda>e. \<lparr>ie_key = EMPTY_KEY, ie_val = None\<rparr>) (im_table m), im_size = 0\<rparr>"

section \<open>Probing\<close>

lemma and_mask_mod: "(n :: nat) AND (2 ^ k - 1) = n mod 2 ^ k"
  by (metis mask_eq_exp_minus_1 take_bit_eq_mask take_bit_eq_mod)

lemma and_word_mask: "unat ((w :: u32) AND of_nat (2 ^ k - 1)) = unat w mod 2 ^ k"
proof -
  have "(of_nat (2 ^ k - 1) :: u32) = mask k" by (simp add: of_nat_diff mask_eq_exp_minus_1)
  then have "unat (w AND of_nat (2 ^ k - 1)) = unat (take_bit k w)" by (simp only: take_bit_eq_mask)
  also have "\<dots> = take_bit k (unat w)" by (rule unsigned_take_bit_eq)
  finally show ?thesis by (simp only: take_bit_eq_mod)
qed

lemma probe_seq_mod:
  assumes "k \<le> 31"
  shows "probe_seq (2 ^ k) ordid = map (\<lambda>i. (unat (hash_orderId ordid) + i) mod 2 ^ k) [0..<2 ^ k]"
  unfolding probe_seq_def and_mask_mod and_word_mask Let_def by (simp add: mod_add_left_eq)

lemma mod_add_cancel:
  assumes "(h + i) mod c = (h + j) mod (c :: nat)" and "i < c" and "j < c"
  shows "i = j"
proof -
  have "(int h + int i) mod int c = (int h + int j) mod int c" using assms(1) by (metis of_nat_add of_nat_mod)
  from mod_diff_cong [OF this refl, of "int h"] have "int i mod int c = int j mod int c" by simp
  then show ?thesis using assms(2,3) by simp
qed

lemma probe_seq_facts:
  assumes "k \<le> 31"
  shows "distinct (probe_seq (2 ^ k) ordid)" and "set (probe_seq (2 ^ k) ordid) = {..<2 ^ k}"
    and "length (probe_seq (2 ^ k) ordid) = 2 ^ k"
proof -
  let ?f = "\<lambda>i. (unat (hash_orderId ordid) + i) mod 2 ^ k"
  have inj: "inj_on ?f {0..<2 ^ k}" by (auto simp: inj_on_def dest: mod_add_cancel)
  then show "distinct (probe_seq (2 ^ k) ordid)" by (simp add: probe_seq_mod [OF assms] distinct_map)
  have "card (?f ` {0..<2 ^ k}) = card {..<2 ^ k :: nat}" using card_image [OF inj] by simp
  moreover have "?f ` {0..<2 ^ k} \<subseteq> {..<2 ^ k}" by auto
  ultimately have "?f ` {0..<2 ^ k} = {..<2 ^ k}" by (metis card_subset_eq finite_lessThan)
  then show "set (probe_seq (2 ^ k) ordid) = {..<2 ^ k}" by (simp add: probe_seq_mod [OF assms])
qed (simp add: probe_seq_mod [OF assms])

section \<open>Invariant\<close>

definition valid_id :: "order_id \<Rightarrow> bool" where
  "valid_id k \<longleftrightarrow> k \<noteq> EMPTY_KEY \<and> k \<noteq> TOMBSTONE_KEY"

definition live_at :: "id_entry list \<Rightarrow> nat \<Rightarrow> order_id \<Rightarrow> bool" where
  "live_at tbl j k \<longleftrightarrow> j < length tbl \<and> ie_key (tbl ! j) = k \<and> valid_id k"

definition live_slots :: "id_entry list \<Rightarrow> nat set" where
  "live_slots tbl = {j. \<exists>k. live_at tbl j k}"

text \<open>
  Keys are unique, every live slot holds an index, and no empty slot precedes a key in its probe sequence.
\<close>

definition id_ok :: "order_id_map \<Rightarrow> bool" where
  "id_ok m \<longleftrightarrow> (\<exists>n \<le> 31. im_capacity m = 2 ^ n) \<and>
     (\<forall>j j' k. live_at (im_table m) j k \<longrightarrow> live_at (im_table m) j' k \<longrightarrow> j = j') \<and>
     (\<forall>j k. live_at (im_table m) j k \<longrightarrow> ie_val (im_table m ! j) \<noteq> None) \<and>
     (\<forall>i k. i < im_capacity m \<longrightarrow> live_at (im_table m) (probe_seq (im_capacity m) k ! i) k \<longrightarrow>
        (\<forall>i' < i. ie_key (im_table m ! (probe_seq (im_capacity m) k ! i')) \<noteq> EMPTY_KEY))"

definition id_map :: "order_id_map \<Rightarrow> order_id \<Rightarrow> nat option" where
  "id_map m k = (if valid_id k then id_find m k else None)"

lemma find_probe_skip:
  "\<forall>j \<in> set xs. ie_key (tbl ! j) \<noteq> EMPTY_KEY \<and> ie_key (tbl ! j) \<noteq> k \<Longrightarrow>
   find_probe tbl k (xs @ ys) = find_probe tbl k ys \<and> remove_probe tbl k (xs @ ys) = remove_probe tbl k ys"
  by (induction xs) auto

lemma find_probe_absent:
  "\<forall>j \<in> set xs. ie_key (tbl ! j) \<noteq> k \<Longrightarrow> find_probe tbl k xs = None \<and> remove_probe tbl k xs = None"
  by (induction xs) auto

lemma insert_probe_facts:
  "(case insert_probe tbl xs of
      None \<Rightarrow> \<forall>j \<in> set xs. valid_id (ie_key (tbl ! j))
    | Some j \<Rightarrow> \<exists>i < length xs. xs ! i = j \<and> \<not> valid_id (ie_key (tbl ! j)) \<and> (\<forall>i' < i. valid_id (ie_key (tbl ! (xs ! i')))))"
proof (induction xs)
  case (Cons x xs)
  show ?case
  proof (cases "valid_id (ie_key (tbl ! x))")
    case True
    show ?thesis
    proof (cases "insert_probe tbl xs")
      case None
      then show ?thesis using Cons True by (simp add: valid_id_def)
    next
      case (Some j)
      then obtain i where "i < length xs" "xs ! i = j" "\<not> valid_id (ie_key (tbl ! j))"
        "\<forall>i' < i. valid_id (ie_key (tbl ! (xs ! i')))" using Cons by auto
      then have "Suc i < length (x # xs) \<and> (x # xs) ! Suc i = j \<and> \<not> valid_id (ie_key (tbl ! j)) \<and>
          (\<forall>i' < Suc i. valid_id (ie_key (tbl ! ((x # xs) ! i'))))"
        using True by (auto simp: nth_Cons split: nat.split)
      moreover have "insert_probe tbl (x # xs) = Some j" using True Some by (simp add: valid_id_def)
      ultimately show ?thesis by (simp only: option.case) blast
    qed
  qed (auto simp: valid_id_def)
qed simp

lemma id_okD:
  assumes "id_ok m"
  shows "\<exists>n \<le> 31. im_capacity m = 2 ^ n"
    and "live_at (im_table m) j k \<Longrightarrow> live_at (im_table m) j' k \<Longrightarrow> j = j'"
    and "live_at (im_table m) j k \<Longrightarrow> ie_val (im_table m ! j) \<noteq> None"
    and "i < im_capacity m \<Longrightarrow> live_at (im_table m) (probe_seq (im_capacity m) k ! i) k \<Longrightarrow> i' < i \<Longrightarrow>
      ie_key (im_table m ! (probe_seq (im_capacity m) k ! i')) \<noteq> EMPTY_KEY"
  using assms unfolding id_ok_def by blast+

lemma probe_seq_ok:
  assumes "id_ok m"
  shows "distinct (probe_seq (im_capacity m) k)" and "set (probe_seq (im_capacity m) k) = {..<im_capacity m}"
    and "length (probe_seq (im_capacity m) k) = im_capacity m"
  using id_okD(1) [OF assms] probe_seq_facts by metis+

lemma probe_index:
  assumes "id_ok m" and "j < im_capacity m"
  obtains i where "i < im_capacity m" and "probe_seq (im_capacity m) k ! i = j"
  using assms probe_seq_ok(2,3) [OF assms(1), of k] by (metis in_set_conv_nth lessThan_iff)

text \<open>Both loops stop at the slot of the key, if there is one.\<close>

lemma probes_find:
  assumes ok: "id_ok m" and live: "live_at (im_table m) j k"
  shows "find_probe (im_table m) k (probe_seq (im_capacity m) k) = ie_val (im_table m ! j)"
    and "remove_probe (im_table m) k (probe_seq (im_capacity m) k) = Some j"
proof -
  let ?ps = "probe_seq (im_capacity m) k"
  have jc: "j < im_capacity m" using live by (simp add: live_at_def im_capacity_def)
  obtain i where i: "i < im_capacity m" "?ps ! i = j" using probe_index [OF ok jc] .
  have len: "length ?ps = im_capacity m" and dist: "distinct ?ps" using probe_seq_ok [OF ok] by auto
  have split: "?ps = take i ?ps @ j # drop (Suc i) ?ps" using i len by (metis id_take_nth_drop)
  have skip: "\<forall>x \<in> set (take i ?ps). ie_key (im_table m ! x) \<noteq> EMPTY_KEY \<and> ie_key (im_table m ! x) \<noteq> k"
  proof
    fix x assume "x \<in> set (take i ?ps)"
    then obtain i' where i': "i' < i" "x = ?ps ! i'" "i' < length ?ps" by (auto simp: in_set_conv_nth)
    have "x \<noteq> j" using i' i dist len by (metis nth_eq_iff_index_eq less_irrefl)
    moreover have "x < length (im_table m)"
      using i' probe_seq_ok(2) [OF ok, of k] nth_mem [OF i'(3)] by (auto simp: im_capacity_def)
    ultimately have "ie_key (im_table m ! x) \<noteq> k"
      using id_okD(2) [OF ok, of x k j] live by (auto simp: live_at_def)
    then show "ie_key (im_table m ! x) \<noteq> EMPTY_KEY \<and> ie_key (im_table m ! x) \<noteq> k"
      using id_okD(4) [OF ok i(1), of k i'] live i i' by simp
  qed
  have key: "ie_key (im_table m ! j) = k" "k \<noteq> EMPTY_KEY" using live by (auto simp: live_at_def valid_id_def)
  show "find_probe (im_table m) k ?ps = ie_val (im_table m ! j)"
    by (subst split) (simp add: find_probe_skip [OF skip] key)
  show "remove_probe (im_table m) k ?ps = Some j"
    by (subst split) (simp add: find_probe_skip [OF skip] key)
qed

lemma probes_absent:
  assumes ok: "id_ok m" and "valid_id k" and "\<nexists>j. live_at (im_table m) j k"
  shows "find_probe (im_table m) k (probe_seq (im_capacity m) k) = None"
    and "remove_probe (im_table m) k (probe_seq (im_capacity m) k) = None"
proof -
  have "\<forall>j \<in> set (probe_seq (im_capacity m) k). ie_key (im_table m ! j) \<noteq> k"
    unfolding probe_seq_ok(2) [OF ok] using assms(2,3) by (auto simp: live_at_def im_capacity_def)
  then show "find_probe (im_table m) k (probe_seq (im_capacity m) k) = None"
    "remove_probe (im_table m) k (probe_seq (im_capacity m) k) = None" using find_probe_absent by blast+
qed

lemma id_map_iff:
  assumes "id_ok m"
  shows "id_map m k = Some v \<longleftrightarrow> (\<exists>j. live_at (im_table m) j k \<and> ie_val (im_table m ! j) = Some v)"
proof (cases "\<exists>j. live_at (im_table m) j k")
  case True
  then obtain j where j: "live_at (im_table m) j k" by blast
  then have "id_map m k = ie_val (im_table m ! j)"
    using probes_find(1) [OF assms j] by (simp add: id_map_def id_find_def live_at_def)
  then show ?thesis using j id_okD(2) [OF assms] by metis
next
  case False
  then show ?thesis using probes_absent(1) [OF assms, of k] by (auto simp: id_map_def id_find_def)
qed

lemma id_map_None: "id_ok m \<Longrightarrow> id_map m k = None \<longleftrightarrow> (\<nexists>j. live_at (im_table m) j k)"
  using id_map_iff [of m k] id_okD(3) [of m _ k] by (metis not_None_eq)

lemma live_update:
  assumes "j < length tbl"
  shows "live_at (tbl[j := \<lparr>ie_key = k, ie_val = v\<rparr>]) i k' \<longleftrightarrow>
    (if i = j then k' = k \<and> valid_id k else live_at tbl i k')"
  using assms by (auto simp: live_at_def)

lemma id_insert_facts:
  assumes ok: "id_ok m" and k: "valid_id k" and new: "id_map m k = None"
  shows "snd (id_insert m k v) \<longleftrightarrow> live_slots (im_table m) \<noteq> {..<im_capacity m}"
    and "id_ok (fst (id_insert m k v))"
    and "snd (id_insert m k v) \<Longrightarrow> id_map (fst (id_insert m k v)) = (id_map m)(k \<mapsto> v)"
    and "\<not> snd (id_insert m k v) \<Longrightarrow> fst (id_insert m k v) = m"
    and "im_capacity (fst (id_insert m k v)) = im_capacity m"
proof -
  let ?ps = "probe_seq (im_capacity m) k"
  note P = probe_seq_ok [OF ok, of k]
  have sub: "live_slots (im_table m) \<subseteq> {..<im_capacity m}" by (auto simp: live_slots_def live_at_def im_capacity_def)
  have liv: "j \<in> live_slots (im_table m) \<longleftrightarrow> j < im_capacity m \<and> valid_id (ie_key (im_table m ! j))" for j
    by (auto simp: live_slots_def live_at_def im_capacity_def)
  show cap: "im_capacity (fst (id_insert m k v)) = im_capacity m"
    by (auto simp: id_insert_def im_capacity_def split: option.split)
  consider (full) "insert_probe (im_table m) ?ps = None" "\<forall>j \<in> set ?ps. valid_id (ie_key (im_table m ! j))"
    | (slot) j i where "insert_probe (im_table m) ?ps = Some j" "i < length ?ps" "?ps ! i = j"
      "\<not> valid_id (ie_key (im_table m ! j))" "\<forall>i' < i. valid_id (ie_key (im_table m ! (?ps ! i')))"
    using insert_probe_facts [where tbl = "im_table m" and xs = ?ps] by (auto split: option.splits)
  then have "(snd (id_insert m k v) \<longleftrightarrow> live_slots (im_table m) \<noteq> {..<im_capacity m}) \<and>
    id_ok (fst (id_insert m k v)) \<and>
    (snd (id_insert m k v) \<longrightarrow> id_map (fst (id_insert m k v)) = (id_map m)(k \<mapsto> v)) \<and>
    (\<not> snd (id_insert m k v) \<longrightarrow> fst (id_insert m k v) = m)"
  proof cases
    case full
    then have "live_slots (im_table m) = {..<im_capacity m}" using P(2) liv sub by auto
    then show ?thesis using full ok by (simp add: id_insert_def)
  next
    case slot
    let ?t = "(im_table m)[j := \<lparr>ie_key = k, ie_val = Some v\<rparr>]"
    let ?m = "fst (id_insert m k v)"
    have m': "im_table ?m = ?t" "snd (id_insert m k v)" using slot(1) by (simp_all add: id_insert_def)
    have j: "j < length (im_table m)" using slot(2,3) P(2) nth_mem [OF slot(2)] by (auto simp: im_capacity_def)
    have live: "live_at ?t i k' \<longleftrightarrow> (if i = j then k' = k else live_at (im_table m) i k')" for i k'
      using live_update [OF j, of k "Some v" i k'] k by simp
    have absent: "\<nexists>i. live_at (im_table m) i k" using new by (simp add: id_map_None [OF ok])
    have nolive: "\<not> live_at (im_table m) j k'" for k' using slot(4) by (auto simp: live_at_def)
    have ok': "id_ok ?m"
      unfolding id_ok_def cap m'(1)
    proof (intro conjI allI impI)
      show "\<exists>n \<le> 31. im_capacity m = 2 ^ n" by (rule id_okD(1) [OF ok])
      show "i = i'" if "live_at ?t i k'" "live_at ?t i' k'" for i i' k'
        using that id_okD(2) [OF ok, of i k' i'] absent by (auto simp: live split: if_splits)
      show "ie_val (?t ! i) \<noteq> None" if "live_at ?t i k'" for i k'
        using that id_okD(3) [OF ok, of i k'] j by (auto simp: live nth_list_update split: if_splits)
      show "ie_key (?t ! (probe_seq (im_capacity m) k' ! i'')) \<noteq> EMPTY_KEY"
        if a: "i' < im_capacity m" "live_at ?t (probe_seq (im_capacity m) k' ! i') k'" "i'' < i'" for i' k' i''
      proof (cases "probe_seq (im_capacity m) k' ! i'' = j")
        case True
        then show ?thesis using j k by (simp add: valid_id_def)
      next
        case other: False
        show ?thesis
        proof (cases "probe_seq (im_capacity m) k' ! i' = j")
          case True
          then have [simp]: "k' = k" using a(2) by (simp add: live)
          have "i' = i" using True slot(2,3) P(1,3) a(1) by (metis \<open>k' = k\<close> nth_eq_iff_index_eq)
          then have "valid_id (ie_key (im_table m ! (?ps ! i'')))" using slot(5) a(3) by simp
          then show ?thesis using other by (simp add: valid_id_def)
        next
          case False
          then show ?thesis using a other id_okD(4) [OF ok a(1), of k' i''] by (simp add: live)
        qed
      qed
    qed
    have "id_map ?m k' = ((id_map m)(k \<mapsto> v)) k'" for k'
    proof -
      have "id_map ?m k' = Some u \<longleftrightarrow> ((id_map m)(k \<mapsto> v)) k' = Some u" for u
      proof (cases "k' = k")
        case True
        then show ?thesis using absent j by (auto simp: id_map_iff [OF ok'] m'(1) live)
      next
        case False
        then have "id_map ?m k' = Some u \<longleftrightarrow> id_map m k' = Some u"
          unfolding id_map_iff [OF ok'] id_map_iff [OF ok] m'(1) live using nolive by (metis nth_list_update_neq)
        then show ?thesis using False by simp
      qed
      then show ?thesis by (rule option_ext)
    qed
    moreover have "live_slots (im_table m) \<noteq> {..<im_capacity m}"
      using liv [of j] slot(4) j by (auto simp: im_capacity_def)
    ultimately show ?thesis using ok' m'(2) by auto
  qed
  then show "snd (id_insert m k v) \<longleftrightarrow> live_slots (im_table m) \<noteq> {..<im_capacity m}" "id_ok (fst (id_insert m k v))"
    "snd (id_insert m k v) \<Longrightarrow> id_map (fst (id_insert m k v)) = (id_map m)(k \<mapsto> v)"
    "\<not> snd (id_insert m k v) \<Longrightarrow> fst (id_insert m k v) = m" by simp_all
qed

lemma id_remove_facts:
  assumes ok: "id_ok m" and k: "valid_id k"
  shows "snd (id_remove m k) \<longleftrightarrow> id_map m k \<noteq> None" and "id_ok (fst (id_remove m k))"
    and "id_map (fst (id_remove m k)) = (id_map m)(k := None)"
    and "im_capacity (fst (id_remove m k)) = im_capacity m"
    and "id_map m k = None \<Longrightarrow> fst (id_remove m k) = m"
proof -
  show cap: "im_capacity (fst (id_remove m k)) = im_capacity m"
    by (auto simp: id_remove_def im_capacity_def split: option.split)
  have "(snd (id_remove m k) \<longleftrightarrow> id_map m k \<noteq> None) \<and> id_ok (fst (id_remove m k)) \<and>
    id_map (fst (id_remove m k)) = (id_map m)(k := None) \<and> (id_map m k = None \<longrightarrow> fst (id_remove m k) = m)"
  proof (cases "\<exists>j. live_at (im_table m) j k")
    case False
    then have none: "id_map m k = None" by (simp add: id_map_None [OF ok])
    moreover have "id_remove m k = (m, False)" using probes_absent(2) [OF ok k False] by (simp add: id_remove_def)
    ultimately show ?thesis using ok by (simp add: fun_upd_idem)
  next
    case True
    then obtain j where j: "live_at (im_table m) j k" by blast
    let ?t = "(im_table m)[j := \<lparr>ie_key = TOMBSTONE_KEY, ie_val = None\<rparr>]"
    let ?m = "fst (id_remove m k)"
    have m': "im_table ?m = ?t" "snd (id_remove m k)" using probes_find(2) [OF ok j] by (simp_all add: id_remove_def)
    have jl: "j < length (im_table m)" using j by (simp add: live_at_def)
    have live: "live_at ?t i k' \<longleftrightarrow> i \<noteq> j \<and> live_at (im_table m) i k'" for i k'
      using live_update [OF jl, of TOMBSTONE_KEY None i k'] by (simp add: valid_id_def)
    have ok': "id_ok ?m"
      unfolding id_ok_def cap m'(1)
    proof (intro conjI allI impI)
      show "\<exists>n \<le> 31. im_capacity m = 2 ^ n" by (rule id_okD(1) [OF ok])
      show "i = i'" if "live_at ?t i k'" "live_at ?t i' k'" for i i' k'
        using that id_okD(2) [OF ok, of i k' i'] by (simp add: live)
      show "ie_val (?t ! i) \<noteq> None" if "live_at ?t i k'" for i k'
        using that id_okD(3) [OF ok, of i k'] by (simp add: live)
      show "ie_key (?t ! (probe_seq (im_capacity m) k' ! i'')) \<noteq> EMPTY_KEY"
        if a: "i' < im_capacity m" "live_at ?t (probe_seq (im_capacity m) k' ! i') k'" "i'' < i'" for i' k' i''
      proof -
        have "ie_key (im_table m ! (probe_seq (im_capacity m) k' ! i'')) \<noteq> EMPTY_KEY"
          using id_okD(4) [OF ok a(1), of k' i''] a(2,3) by (simp add: live)
        then show ?thesis using jl by (simp add: nth_list_update EMPTY_KEY_def TOMBSTONE_KEY_def)
      qed
    qed
    have "id_map ?m k' = Some u \<longleftrightarrow> ((id_map m)(k := None)) k' = Some u" for k' u
    proof (cases "k' = k")
      case True
      have "\<nexists>i. live_at (im_table ?m) i k" unfolding m'(1) live using id_okD(2) [OF ok _ j] by blast
      then have "id_map ?m k = None" using id_map_None [OF ok'] by blast
      then show ?thesis using True by simp
    next
      case False
      then have "\<not> live_at (im_table m) j k'" using j by (simp add: live_at_def)
      then have "id_map ?m k' = Some u \<longleftrightarrow> id_map m k' = Some u"
        unfolding id_map_iff [OF ok'] id_map_iff [OF ok] m'(1) live by (metis nth_list_update_neq)
      then show ?thesis using False by simp
    qed
    then have "id_map ?m = (id_map m)(k := None)" by (intro ext option_ext)
    moreover have "id_map m k \<noteq> None" using j by (auto simp: id_map_None [OF ok])
    ultimately show ?thesis using ok' m'(2) by auto
  qed
  then show "snd (id_remove m k) \<longleftrightarrow> id_map m k \<noteq> None" "id_ok (fst (id_remove m k))"
    "id_map (fst (id_remove m k)) = (id_map m)(k := None)" "id_map m k = None \<Longrightarrow> fst (id_remove m k) = m" by simp_all
qed

lemma round_up_pow2_power:
  "k \<le> 31 \<Longrightarrow> capacity \<le> 2 ^ 31 \<Longrightarrow> \<exists>n \<le> 31. round_up_pow2 fuel (2 ^ k) capacity = 2 ^ n"
proof (induction fuel arbitrary: k)
  case (Suc fuel)
  show ?case
  proof (cases "2 ^ k < capacity")
    case True
    then have "(2 :: nat) ^ k < 2 ^ 31" using Suc.prems(2) by (rule less_le_trans)
    then have "k < 31" by (rule power_less_imp_less_exp [rotated]) simp
    then show ?thesis using Suc.IH [of "Suc k"] Suc.prems(2) True by simp
  qed (use Suc.prems in auto)
qed auto

lemma round_up_pow2_ge: "capacity \<le> c * 2 ^ fuel \<Longrightarrow> capacity \<le> round_up_pow2 fuel c capacity"
  by (induction fuel arbitrary: c) (simp_all add: mult.assoc mult.left_commute mult.commute)

lemma id_ok_init:
  assumes "n \<le> 2 ^ 30"
  shows "id_ok (OrderIdMap_init n)" and "id_map (OrderIdMap_init n) = (\<lambda>_. None)"
    and "2 * n \<le> im_capacity (OrderIdMap_init n)"
proof -
  let ?c = "max 16 (2 * n)"
  have dead: "\<not> live_at (im_table (OrderIdMap_init n)) j k" for j k
    by (auto simp: live_at_def OrderIdMap_init_def valid_id_def)
  have "?c \<le> 2 ^ 31" using assms by simp
  then obtain e where e: "e \<le> 31" "round_up_pow2 ?c 1 ?c = 2 ^ e" using round_up_pow2_power [of 0 ?c ?c] by auto
  have cap: "im_capacity (OrderIdMap_init n) = round_up_pow2 ?c 1 ?c" by (simp add: im_capacity_def OrderIdMap_init_def)
  show ok: "id_ok (OrderIdMap_init n)" unfolding id_ok_def cap using dead e by auto
  show "id_map (OrderIdMap_init n) = (\<lambda>_. None)" using dead by (auto simp: id_map_None [OF ok])
  have "?c \<le> 1 * 2 ^ ?c" unfolding mult_1 by (rule less_imp_le [OF less_exp])
  from round_up_pow2_ge [OF this] show "2 * n \<le> im_capacity (OrderIdMap_init n)" unfolding cap by simp
qed

lemma live_card:
  assumes "id_ok m"
  shows "finite (dom (id_map m))" and "card (live_slots (im_table m)) = card (dom (id_map m))"
proof -
  let ?f = "\<lambda>j. ie_key (im_table m ! j)"
  have key: "live_at (im_table m) j k \<Longrightarrow> ?f j = k" for j k by (simp add: live_at_def)
  have inj: "inj_on ?f (live_slots (im_table m))"
  proof (rule inj_onI)
    fix i j assume "i \<in> live_slots (im_table m)" "j \<in> live_slots (im_table m)" and eq: "?f i = ?f j"
    then obtain k k' where l: "live_at (im_table m) i k" "live_at (im_table m) j k'" by (auto simp: live_slots_def)
    then have "k = k'" using eq by (simp add: live_at_def)
    then show "i = j" using id_okD(2) [OF assms l(1), of j] l(2) by blast
  qed
  have img: "?f ` live_slots (im_table m) = dom (id_map m)"
    unfolding dom_def id_map_None [OF assms] live_slots_def using key by force
  have "finite (live_slots (im_table m))"
    by (rule finite_subset [of _ "{..<im_capacity m}"]) (auto simp: live_slots_def live_at_def im_capacity_def)
  then show "finite (dom (id_map m))" unfolding img [symmetric] by (rule finite_imageI)
  show "card (live_slots (im_table m)) = card (dom (id_map m))" using card_image [OF inj] by (simp add: img)
qed

lemma id_insert_room:
  assumes "id_ok m" and "valid_id k" and "id_map m k = None" and "card (dom (id_map m)) < im_capacity m"
  shows "snd (id_insert m k v)"
  using id_insert_facts(1) [OF assms(1-3)] live_card(2) [OF assms(1)] assms(4) by force

text \<open>The id that marks an empty slot can be inserted but is never found.\<close>

lemma empty_key_never_found: "id_find m EMPTY_KEY = None" "id_remove m EMPTY_KEY = (m, False)"
proof -
  have "find_probe tbl EMPTY_KEY ps = None \<and> remove_probe tbl EMPTY_KEY ps = None" for tbl ps by (induction ps) auto
  then show "id_find m EMPTY_KEY = None" "id_remove m EMPTY_KEY = (m, False)" by (simp_all add: id_find_def id_remove_def)
qed

section \<open>The contract the order book relies on\<close>

text \<open>An index from ids to slots: a finite map with room for a bounded number of entries.\<close>

locale id_index =
  fixes ok :: "'m \<Rightarrow> bool"
    and valid :: "'k \<Rightarrow> bool"
    and content :: "'m \<Rightarrow> 'k \<Rightarrow> nat option"
    and find :: "'m \<Rightarrow> 'k \<Rightarrow> nat option"
    and add :: "'m \<Rightarrow> 'k \<Rightarrow> nat \<Rightarrow> 'm \<times> bool"
    and del :: "'m \<Rightarrow> 'k \<Rightarrow> 'm \<times> bool"
  assumes find_content: "ok m \<Longrightarrow> valid k \<Longrightarrow> find m k = content m k"
    and content_valid: "\<not> valid k \<Longrightarrow> content m k = None"
    and add_ok: "ok m \<Longrightarrow> valid k \<Longrightarrow> content m k = None \<Longrightarrow> ok (fst (add m k v))"
    and add_content: "ok m \<Longrightarrow> valid k \<Longrightarrow> content m k = None \<Longrightarrow>
      content (fst (add m k v)) = (if snd (add m k v) then (content m)(k \<mapsto> v) else content m)"
    and del_ok: "ok m \<Longrightarrow> valid k \<Longrightarrow> ok (fst (del m k))"
    and del_content: "ok m \<Longrightarrow> valid k \<Longrightarrow> content (fst (del m k)) = (content m)(k := None)"
    and del_found: "ok m \<Longrightarrow> valid k \<Longrightarrow> snd (del m k) \<longleftrightarrow> content m k \<noteq> None"
begin

lemma find_added: "ok m \<Longrightarrow> valid k \<Longrightarrow> content m k = None \<Longrightarrow> snd (add m k v) \<Longrightarrow> find (fst (add m k v)) k = Some v"
  by (simp add: find_content add_ok add_content)

lemma find_deleted: "ok m \<Longrightarrow> valid k \<Longrightarrow> find (fst (del m k)) k = None"
  by (simp add: find_content del_ok del_content)

lemma add_del: "ok m \<Longrightarrow> valid k \<Longrightarrow> content m k = None \<Longrightarrow> snd (add m k v) \<Longrightarrow> content (fst (del (fst (add m k v)) k)) = content m"
  by (auto simp: add_ok add_content del_content fun_upd_idem)

end

interpretation ids: id_index id_ok valid_id id_map id_find id_insert id_remove
  by unfold_locales
     (auto simp: id_insert_facts id_remove_facts id_map_def [of _ "k :: order_id" for k] dest: id_insert_facts(3,4))

section \<open>Properties\<close>

text \<open>C25: the hash table implements a finite map on the ids other than the two reserved ones: a lookup returns what was
  last inserted and not removed, through any collisions, tombstones and wrap-around of the probe sequence; inserting a
  new id fails exactly when every slot holds a live entry; removing answers whether the id was there.\<close>

theorem order_id_map_refines_map:
  assumes "id_ok m" and "valid_id k"
  shows "id_find m k = id_map m k \<and> id_ok (fst (id_remove m k)) \<and> id_map (fst (id_remove m k)) = (id_map m)(k := None) \<and>
    (snd (id_remove m k) \<longleftrightarrow> id_map m k \<noteq> None) \<and>
    (id_map m k = None \<longrightarrow> id_ok (fst (id_insert m k v)) \<and>
       id_map (fst (id_insert m k v)) = (if snd (id_insert m k v) then (id_map m)(k \<mapsto> v) else id_map m) \<and>
       (snd (id_insert m k v) \<longleftrightarrow> live_slots (im_table m) \<noteq> {..<im_capacity m}))"
  using ids.find_content [OF assms] ids.del_ok [OF assms] ids.del_content [OF assms] ids.del_found [OF assms]
    ids.add_ok [OF assms] ids.add_content [OF assms] id_insert_facts(1) [OF assms]
  by (auto simp: fun_eq_iff)

theorem order_id_map_refines_map_witness:
  "id_find (fst (id_remove (fst (id_insert (fst (id_insert (OrderIdMap_init 4) 7 3)) 23 4)) 7)) 23 = Some 4"
proof -
  have n: "(4 :: nat) \<le> 2 ^ 30" by simp
  have v: "valid_id 7" "valid_id 23" by (simp_all add: valid_id_def EMPTY_KEY_def TOMBSTONE_KEY_def)
  let ?m0 = "OrderIdMap_init 4"
  let ?m1 = "fst (id_insert ?m0 7 3)"
  let ?m2 = "fst (id_insert ?m1 23 4)"
  have s1: "snd (id_insert ?m0 7 3)" using id_ok_init [OF n] v(1) by (intro id_insert_room) auto
  note A = order_id_map_refines_map [OF id_ok_init(1) [OF n] v(1), of 3]
  have 1: "id_ok ?m1" "id_map ?m1 = [7 \<mapsto> 3]" using A s1 by (simp_all add: id_ok_init(2) [OF n])
  have "im_capacity ?m1 \<ge> 2" using id_insert_facts(5) [OF id_ok_init(1) [OF n] v(1), of 3] id_ok_init(2,3) [OF n] by simp
  then have s2: "snd (id_insert ?m1 23 4)" using 1 v(2) by (intro id_insert_room) simp_all
  note B = order_id_map_refines_map [OF 1(1) v(2), of 4]
  have 2: "id_ok ?m2" "id_map ?m2 = [7 \<mapsto> 3, 23 \<mapsto> 4]" using B s2 by (simp_all add: 1(2))
  have 3: "id_ok (fst (id_remove ?m2 7))" "id_map (fst (id_remove ?m2 7)) 23 = Some 4"
    using order_id_map_refines_map [OF 2(1) v(1)] by (simp_all add: 2(2))
  show ?thesis using order_id_map_refines_map [OF 3(1) v(2)] 3(2) by simp
qed

end
