(* ===== verification/Order_Book.thy ===== *)
theory Order_Book
  imports Bitmap Order_Pool Order_Id_Map
begin

text \<open>
  Price levels, partitions and the partition pool (matching_engine/partitions.hpp), the price level store of a
  side (price_level_store.hpp) and the order book (order_book.hpp). A store holds references to the
  pools of its book, so its operations act on the book and a side. A pointer to a partition is its index in the
  partition pool. \<open>None\<close> is the result of a call that dereferences a null partition or indexes
  the partition table out of range, which the source only asserts against.
\<close>

section \<open>Price levels and partitions\<close>

record price_level =
  pl_price :: price
  pl_head :: order_idx
  pl_tail :: order_idx
  pl_qty :: quantity
  pl_active :: bool

record partition_t =
  pt_levels :: "nat \<Rightarrow> price_level"
  pt_bitmap :: "u64 list"
  pt_best :: price
  pt_has_best :: bool

definition Partition_init :: "nat \<Rightarrow> partition_t" where
  "Partition_init partition_size =
     \<lparr>pt_levels = (\<lambda>_. \<lparr>pl_price = 0, pl_head = Some 0, pl_tail = Some 0, pl_qty = 0, pl_active = False\<rparr>),
      pt_bitmap = bm_init partition_size, pt_best = INVALID_PRICE, pt_has_best = False\<rparr>"

definition initialize_for_partid :: "nat \<Rightarrow> nat \<Rightarrow> partition_t \<Rightarrow> partition_t" where
  "initialize_for_partid levels_size partid p =
     p\<lparr>pt_best := INVALID_PRICE, pt_has_best := False, pt_bitmap := map (\<lambda>_. 0) (pt_bitmap p),
       pt_levels := (\<lambda>i. \<lparr>pl_price = int (partid * levels_size + i), pl_head = None, pl_tail = None, pl_qty = 0, pl_active = False\<rparr>)\<rparr>"

definition try_update_best :: "side \<Rightarrow> price \<Rightarrow> partition_t \<Rightarrow> partition_t" where
  "try_update_best sd price p =
     (if \<not> pt_has_best p then p\<lparr>pt_best := price, pt_has_best := True\<rparr>
      else if is_better sd price (pt_best p) then p\<lparr>pt_best := price\<rparr> else p)"

definition recompute_best :: "side \<Rightarrow> partition_t \<Rightarrow> partition_t" where
  "recompute_best sd p =
     (case (if sd = BID then bm_scan_down (length (pt_bitmap p)) (pt_bitmap p) else bm_scan_up 0 (pt_bitmap p)) of
        Some pl_idx \<Rightarrow> p\<lparr>pt_best := pl_price (pt_levels p pl_idx), pt_has_best := True\<rparr>
      | None \<Rightarrow> p\<lparr>pt_best := INVALID_PRICE, pt_has_best := False\<rparr>)"

section \<open>Partition pool\<close>

record partition_pool =
  pp_parts :: "nat \<Rightarrow> partition_t"
  pp_free :: "nat list"
  pp_count :: nat
  pp_size :: nat

definition PartitionPool_init :: "nat \<Rightarrow> nat \<Rightarrow> partition_pool" where
  "PartitionPool_init num_partitions partition_size =
     \<lparr>pp_parts = (\<lambda>_. Partition_init partition_size), pp_free = rev [0..<num_partitions],
      pp_count = num_partitions, pp_size = partition_size\<rparr>"

definition pp_allocate :: "nat \<Rightarrow> partition_pool \<Rightarrow> (partition_pool \<times> nat) option" where
  "pp_allocate partid pp =
     (case pp_free pp of
        [] \<Rightarrow> None
      | part_idx # rest \<Rightarrow>
          Some (pp\<lparr>pp_free := rest, pp_parts := (pp_parts pp)(part_idx :=
            initialize_for_partid (pp_size pp) partid (pp_parts pp part_idx))\<rparr>, part_idx))"

definition pp_release :: "nat \<Rightarrow> partition_pool \<Rightarrow> partition_pool" where
  "pp_release part_idx pp = pp\<lparr>pp_free := part_idx # pp_free pp\<rparr>"

section \<open>Stores and the book\<close>

record price_level_store =
  st_num_partitions :: nat
  st_partition_bits :: nat
  st_active :: "nat \<Rightarrow> nat option"
  st_bitmap :: "u64 list"
  st_best :: price
  st_has_best :: bool

record order_book =
  bk_pool :: order_pool
  bk_ids :: order_id_map
  bk_parts :: partition_pool
  bk_bids :: price_level_store
  bk_asks :: price_level_store

definition PriceLevelStore_init :: "nat \<Rightarrow> nat \<Rightarrow> price_level_store" where
  "PriceLevelStore_init num_partitions partition_bits = \<lparr>st_num_partitions = num_partitions,
     st_partition_bits = partition_bits, st_active = (\<lambda>_. None), st_bitmap = bm_init num_partitions,
     st_best = INVALID_PRICE, st_has_best = False\<rparr>"

definition OrderBook_init :: "nat \<Rightarrow> nat \<Rightarrow> nat \<Rightarrow> nat \<Rightarrow> order_book" where
  "OrderBook_init max_orders num_partitions partition_size partition_bits =
     \<lparr>bk_pool = OrderPool_init max_orders, bk_ids = OrderIdMap_init max_orders,
      bk_parts = PartitionPool_init num_partitions partition_size,
      bk_bids = PriceLevelStore_init num_partitions partition_bits,
      bk_asks = PriceLevelStore_init num_partitions partition_bits\<rparr>"

fun get_store :: "side \<Rightarrow> order_book \<Rightarrow> price_level_store" where
  "get_store BID bk = bk_bids bk"
| "get_store ASK bk = bk_asks bk"

fun set_store :: "side \<Rightarrow> price_level_store \<Rightarrow> order_book \<Rightarrow> order_book" where
  "set_store BID st bk = bk\<lparr>bk_bids := st\<rparr>"
| "set_store ASK st bk = bk\<lparr>bk_asks := st\<rparr>"

abbreviation ord :: "order_book \<Rightarrow> nat \<Rightarrow> order" where
  "ord bk \<equiv> op_orders (bk_pool bk)"

abbreviation part :: "order_book \<Rightarrow> nat \<Rightarrow> partition_t" where
  "part bk \<equiv> pp_parts (bk_parts bk)"

definition upd_ord :: "nat \<Rightarrow> (order \<Rightarrow> order) \<Rightarrow> order_book \<Rightarrow> order_book" where
  "upd_ord i f bk = bk\<lparr>bk_pool := upd_order i f (bk_pool bk)\<rparr>"

definition upd_part :: "nat \<Rightarrow> (partition_t \<Rightarrow> partition_t) \<Rightarrow> order_book \<Rightarrow> order_book" where
  "upd_part pi f bk = bk\<lparr>bk_parts := (bk_parts bk)\<lparr>pp_parts := (pp_parts (bk_parts bk))(pi := f (part bk pi))\<rparr>\<rparr>"

definition upd_level :: "nat \<Rightarrow> nat \<Rightarrow> (price_level \<Rightarrow> price_level) \<Rightarrow> order_book \<Rightarrow> order_book" where
  "upd_level pi off f = upd_part pi (\<lambda>p. p\<lparr>pt_levels := (pt_levels p)(off := f (pt_levels p off))\<rparr>)"

definition partition_id :: "nat \<Rightarrow> price \<Rightarrow> nat" where
  "partition_id bits price = unat (word_of_int (price div 2 ^ bits) :: u32)"

definition offset_in_partition :: "nat \<Rightarrow> price \<Rightarrow> nat" where
  "offset_in_partition bits price = nat (price mod 2 ^ bits)"

abbreviation pid :: "side \<Rightarrow> order_book \<Rightarrow> price \<Rightarrow> nat" where
  "pid sd bk price \<equiv> partition_id (st_partition_bits (get_store sd bk)) price"

abbreviation off :: "side \<Rightarrow> order_book \<Rightarrow> price \<Rightarrow> nat" where
  "off sd bk price \<equiv> offset_in_partition (st_partition_bits (get_store sd bk)) price"

section \<open>Price level store\<close>

definition get_partition :: "side \<Rightarrow> nat \<Rightarrow> order_book \<Rightarrow> nat option" where
  "get_partition sd partid bk =
     (if partid < st_num_partitions (get_store sd bk) then st_active (get_store sd bk) partid else None)"

definition get_or_create_partition :: "side \<Rightarrow> nat \<Rightarrow> order_book \<Rightarrow> (order_book \<times> nat) option" where
  "get_or_create_partition sd partid bk =
     (let st = get_store sd bk in
      if \<not> partid < st_num_partitions st then None
      else case st_active st partid of
          Some pi \<Rightarrow> Some (bk, pi)
        | None \<Rightarrow>
            (case pp_allocate partid (bk_parts bk) of
               None \<Rightarrow> None
             | Some (pp, pi) \<Rightarrow>
                 Some (set_store sd (st\<lparr>st_active := (st_active st)(partid := Some pi), st_bitmap := bm_set partid (st_bitmap st)\<rparr>)
                         (bk\<lparr>bk_parts := pp\<rparr>), pi)))"

definition get_best_price_level :: "side \<Rightarrow> order_book \<Rightarrow> (nat \<times> nat) option" where
  "get_best_price_level sd bk =
     (if \<not> st_has_best (get_store sd bk) then None
      else case get_partition sd (pid sd bk (st_best (get_store sd bk))) bk of
          None \<Rightarrow> None
        | Some pi \<Rightarrow> Some (pi, off sd bk (st_best (get_store sd bk))))"

abbreviation level :: "order_book \<Rightarrow> nat \<times> nat \<Rightarrow> price_level" where
  "level bk l \<equiv> pt_levels (part bk (fst l)) (snd l)"

definition link_order :: "side \<Rightarrow> nat \<Rightarrow> nat \<Rightarrow> order_book \<Rightarrow> order_book" where
  "link_order sd i pi bk =
     (let pl_idx = off sd bk (o_price (ord bk i));
          tl = pl_tail (level bk (pi, pl_idx));
          bk1 = upd_ord i (\<lambda>o'. o'\<lparr>o_prev := tl, o_next := None\<rparr>) bk;
          bk2 = (case tl of None \<Rightarrow> bk1 | Some t \<Rightarrow> upd_ord t (\<lambda>o'. o'\<lparr>o_next := Some i\<rparr>) bk1);
          bk3 = upd_level pi pl_idx (\<lambda>pl. pl\<lparr>pl_tail := Some i, pl_head := (if pl_head pl = None then Some i else pl_head pl),
                  pl_qty := pl_qty pl + o_qty (ord bk2 i)\<rparr>) bk2 in
      if \<not> pl_active (level bk3 (pi, pl_idx))
      then upd_part pi (\<lambda>p. p\<lparr>pt_bitmap := bm_set pl_idx (pt_bitmap p)\<rparr>) (upd_level pi pl_idx (\<lambda>pl. pl\<lparr>pl_active := True\<rparr>) bk3)
      else bk3)"

definition unlink_order :: "side \<Rightarrow> nat \<Rightarrow> nat \<Rightarrow> order_book \<Rightarrow> order_book" where
  "unlink_order sd i pi bk =
     (let pl_idx = off sd bk (o_price (ord bk i));
          bk1 = (case o_prev (ord bk i) of None \<Rightarrow> bk | Some q \<Rightarrow> upd_ord q (\<lambda>o'. o'\<lparr>o_next := o_next (ord bk i)\<rparr>) bk);
          bk2 = (case o_next (ord bk1 i) of None \<Rightarrow> bk1 | Some q \<Rightarrow> upd_ord q (\<lambda>o'. o'\<lparr>o_prev := o_prev (ord bk1 i)\<rparr>) bk1);
          bk3 = upd_level pi pl_idx (\<lambda>pl. pl
                  \<lparr>pl_head := (if pl_head pl = Some i then o_next (ord bk2 i) else pl_head pl),
                   pl_tail := (if pl_tail pl = Some i then o_prev (ord bk2 i) else pl_tail pl),
                   pl_qty := pl_qty pl + - o_qty (ord bk2 i)\<rparr>) bk2 in
      if pl_head (level bk3 (pi, pl_idx)) = None
      then upd_part pi (\<lambda>p. p\<lparr>pt_bitmap := bm_clear pl_idx (pt_bitmap p)\<rparr>) (upd_level pi pl_idx (\<lambda>pl. pl\<lparr>pl_active := False\<rparr>) bk3)
      else bk3)"

definition try_update_global_best :: "side \<Rightarrow> price \<Rightarrow> order_book \<Rightarrow> order_book" where
  "try_update_global_best sd price bk =
     (let st = get_store sd bk in
      if \<not> st_has_best st then set_store sd (st\<lparr>st_best := price, st_has_best := True\<rparr>) bk
      else if is_better sd price (st_best st) then set_store sd (st\<lparr>st_best := price\<rparr>) bk else bk)"

definition best_of_partitions :: "side \<Rightarrow> order_book \<Rightarrow> price" where
  "best_of_partitions sd bk =
     fold (\<lambda>partid new_best.
         case st_active (get_store sd bk) partid of
           None \<Rightarrow> new_best
         | Some pi \<Rightarrow> if new_best = INVALID_PRICE \<or> is_better sd (pt_best (part bk pi)) new_best
                      then pt_best (part bk pi) else new_best)
       (bm_bits 0 (st_bitmap (get_store sd bk))) INVALID_PRICE"

definition recompute_global_best :: "side \<Rightarrow> order_book \<Rightarrow> order_book" where
  "recompute_global_best sd bk =
     (let new_best = best_of_partitions sd bk in
      set_store sd ((get_store sd bk)\<lparr>st_best := new_best, st_has_best := (new_best \<noteq> INVALID_PRICE)\<rparr>) bk)"

definition pls_insert_order :: "side \<Rightarrow> nat \<Rightarrow> order_book \<Rightarrow> order_book option" where
  "pls_insert_order sd i bk =
     (case get_or_create_partition sd (pid sd bk (o_price (ord bk i))) bk of
        None \<Rightarrow> None
      | Some (bk1, pi) \<Rightarrow>
          Some (upd_part pi (try_update_best sd (o_price (ord bk i)))
                 (try_update_global_best sd (o_price (ord bk i)) (link_order sd i pi bk1))))"

text \<open>The emptied partition is neither released nor is its best price recomputed: that code is commented out.\<close>

definition unlink_order_and_update_partition :: "side \<Rightarrow> nat \<Rightarrow> nat \<Rightarrow> order_book \<Rightarrow> order_book \<times> bool" where
  "unlink_order_and_update_partition sd i pi bk =
     (let bk1 = unlink_order sd i pi bk; pl = level bk1 (pi, off sd bk (o_price (ord bk i))) in
      if \<not> pl_active pl then
        if bm_empty (pt_bitmap (part bk1 pi)) then (bk1, True)
        else if pt_best (part bk1 pi) = o_price (ord bk1 i) then (upd_part pi (recompute_best sd) bk1, True)
        else (bk1, False)
      else (bk1, False))"

definition pls_remove_order :: "side \<Rightarrow> nat \<Rightarrow> order_book \<Rightarrow> order_book option" where
  "pls_remove_order sd i bk =
     (case get_partition sd (pid sd bk (o_price (ord bk i))) bk of
        None \<Rightarrow> None
      | Some pi \<Rightarrow>
          (case unlink_order_and_update_partition sd i pi bk of (bk1, partition_best_changed) \<Rightarrow>
             let st = get_store sd bk1 in
             Some (if st_has_best st \<and> st_best st = o_price (ord bk1 i) \<and> partition_best_changed
                   then recompute_global_best sd bk1 else bk1)))"

abbreviation set_price :: "nat \<Rightarrow> price \<Rightarrow> order_book \<Rightarrow> order_book" where
  "set_price i p \<equiv> upd_ord i (\<lambda>o'. o'\<lparr>o_price := p\<rparr>)"

definition try_to_reprice_order_by_flashstrike :: "side \<Rightarrow> nat \<Rightarrow> price \<Rightarrow> order_book \<Rightarrow> (order_book \<times> bool) option" where
  "try_to_reprice_order_by_flashstrike sd i new_price bk =
     (let price = o_price (ord bk i); old_pid = pid sd bk price; new_pid = pid sd bk new_price in
      case get_partition sd old_pid bk of
        None \<Rightarrow> None
      | Some pi \<Rightarrow>
          if old_pid = new_pid then
            if price \<noteq> st_best (get_store sd bk) then
              if is_worse sd new_price (pt_best (part bk pi))
              then Some (link_order sd i pi (set_price i new_price (unlink_order sd i pi bk)), True)
              else Some (bk, False)
            else if is_better sd new_price price \<and>
                new_price \<ge> pl_price (pt_levels (part bk pi) 0) \<and>
                new_price \<le> pl_price (pt_levels (part bk pi) (pp_size (bk_parts bk) - 1))
              then (let bk1 = link_order sd i pi (set_price i new_price (unlink_order sd i pi bk)) in
                    Some (set_store sd ((get_store sd bk1)\<lparr>st_best := new_price\<rparr>) bk1, True))
              else Some (bk, False)
          else if price \<noteq> pt_best (part bk pi) then
            (case get_or_create_partition sd new_pid bk of
               None \<Rightarrow> None
             | Some (bk1, new_pi) \<Rightarrow>
                 Some (try_update_global_best sd new_price (upd_part new_pi (try_update_best sd new_price)
                   (link_order sd i new_pi (set_price i new_price (unlink_order sd i pi bk1)))), True))
          else Some (bk, False))"

definition pls_reprice_order :: "side \<Rightarrow> nat \<Rightarrow> price \<Rightarrow> order_book \<Rightarrow> order_book option" where
  "pls_reprice_order sd i new_price bk =
     (case try_to_reprice_order_by_flashstrike sd i new_price bk of
        None \<Rightarrow> None
      | Some (bk1, applied) \<Rightarrow>
          if applied then Some bk1
          else (case pls_remove_order sd i bk1 of
                  None \<Rightarrow> None
                | Some bk2 \<Rightarrow> pls_insert_order sd i (set_price i new_price bk2)))"

definition pls_resize_order :: "side \<Rightarrow> nat \<Rightarrow> quantity \<Rightarrow> order_book \<Rightarrow> order_book option" where
  "pls_resize_order sd i new_qty bk =
     (case get_partition sd (pid sd bk (o_price (ord bk i))) bk of
        None \<Rightarrow> None
      | Some pi \<Rightarrow>
          Some (upd_ord i (\<lambda>o'. o'\<lparr>o_qty := new_qty\<rparr>)
            (upd_level pi (off sd bk (o_price (ord bk i))) (\<lambda>pl. pl\<lparr>pl_qty := pl_qty pl + (new_qty - o_qty (ord bk i))\<rparr>) bk)))"

section \<open>Order book\<close>

definition book_insert_order ::
  "side \<Rightarrow> order_id \<Rightarrow> price \<Rightarrow> quantity \<Rightarrow> quantity \<Rightarrow> order_book \<Rightarrow> (order_book \<times> operation_status \<times> order_idx) option" where
  "book_insert_order sd orderid price qty filled bk =
     (case op_allocate (bk_pool bk) of
        (_, None) \<Rightarrow> Some (bk, BAD_ALLOC, None)
      | (pool, Some i) \<Rightarrow>
          (case id_insert (bk_ids bk) orderid i of (ids, inserted) \<Rightarrow>
             if \<not> inserted then Some (bk\<lparr>bk_pool := op_release i pool, bk_ids := ids\<rparr>, IDMAP_FULL, None)
             else
               (case pls_insert_order sd i (upd_ord i (\<lambda>o'. o'\<lparr>o_id := orderid, o_type := LIMIT, o_tif := GTC, o_side := sd,
                        o_price := price, o_qty := qty, o_filled := filled\<rparr>) (bk\<lparr>bk_pool := pool, bk_ids := ids\<rparr>)) of
                  None \<Rightarrow> None
                | Some bk' \<Rightarrow> Some (bk', SUCCESS, Some i))))"

definition book_reprice_order :: "order_id \<Rightarrow> price \<Rightarrow> order_book \<Rightarrow> (order_book \<times> operation_status \<times> order_idx) option" where
  "book_reprice_order orderid new_price bk =
     (if new_price = 0 then Some (bk, REJECTED, None)
      else case id_find (bk_ids bk) orderid of
          None \<Rightarrow> Some (bk, NOT_FOUND, None)
        | Some i \<Rightarrow>
            if o_price (ord bk i) = new_price then Some (bk, UNCHANGED, Some i)
            else (case pls_reprice_order (o_side (ord bk i)) i new_price bk of
                    None \<Rightarrow> None | Some bk' \<Rightarrow> Some (bk', SUCCESS, Some i)))"

definition book_resize_order :: "order_id \<Rightarrow> quantity \<Rightarrow> order_book \<Rightarrow> (order_book \<times> operation_status) option" where
  "book_resize_order orderid new_qty bk =
     (if new_qty = 0 then Some (bk, REJECTED)
      else case id_find (bk_ids bk) orderid of
          None \<Rightarrow> Some (bk, NOT_FOUND)
        | Some i \<Rightarrow>
            if o_qty (ord bk i) = new_qty then Some (bk, UNCHANGED)
            else (case pls_resize_order (o_side (ord bk i)) i new_qty bk of
                    None \<Rightarrow> None | Some bk' \<Rightarrow> Some (bk', SUCCESS)))"

definition book_remove_order :: "order_id \<Rightarrow> order_book \<Rightarrow> (order_book \<times> operation_status) option" where
  "book_remove_order orderid bk =
     (case id_find (bk_ids bk) orderid of
        None \<Rightarrow> Some (bk, NOT_FOUND)
      | Some i \<Rightarrow>
          (case pls_remove_order (o_side (ord bk i)) i bk of
             None \<Rightarrow> None
           | Some bk1 \<Rightarrow>
               Some (bk1\<lparr>bk_ids := fst (id_remove (bk_ids bk1) orderid), bk_pool := op_release i (bk_pool bk1)\<rparr>, SUCCESS)))"

end
