(* ===== verification/Book_Levels.thy ===== *)
theory Book_Levels
  imports Order_Book
begin

text \<open>
  The order book as a family of first-in first-out queues: \<open>L sd p\<close> lists the pool indices of the orders that rest on side
  \<open>sd\<close> at price \<open>p\<close>, oldest first. This theory relates the doubly linked lists of the price levels, the partitions and
  the bitmaps to it, for the steps that the operations of the book are composed of.
\<close>

section \<open>Doubly linked segments\<close>

text \<open>\<open>lseg os p h xs t n\<close>: following the links of \<open>os\<close> from \<open>h\<close> runs through \<open>xs\<close>, ends at \<open>t\<close>, and continues with \<open>n\<close>; the
  first element links back to \<open>p\<close>.\<close>

fun lseg :: "(nat \<Rightarrow> order) \<Rightarrow> order_idx \<Rightarrow> order_idx \<Rightarrow> nat list \<Rightarrow> order_idx \<Rightarrow> order_idx \<Rightarrow> bool" where
  "lseg os p h [] t n \<longleftrightarrow> h = n \<and> t = p"
| "lseg os p h (x # xs) t n \<longleftrightarrow> h = Some x \<and> o_prev (os x) = p \<and> lseg os (Some x) (o_next (os x)) xs t n"

lemma lseg_append: "lseg os p h (xs @ ys) t n \<longleftrightarrow> (\<exists>q m. lseg os p h xs q m \<and> lseg os q m ys t n)"
  by (induction xs arbitrary: p h) auto

lemma lseg_frame:
  "\<forall>x \<in> set xs. o_prev (os' x) = o_prev (os x) \<and> o_next (os' x) = o_next (os x) \<Longrightarrow>
   lseg os' p h xs t n = lseg os p h xs t n"
  by (induction xs arbitrary: p h) auto

lemma lseg_head: "lseg os p h xs t n \<Longrightarrow> h = (case xs of [] \<Rightarrow> n | x # _ \<Rightarrow> Some x)"
  by (cases xs) auto

lemma lseg_tail: "lseg os p h xs t n \<Longrightarrow> t = (if xs = [] then p else Some (last xs))"
  by (induction xs arbitrary: p h) (auto split: if_splits)

lemma lseg_set_next:
  assumes "lseg os p h xs t n" and "distinct xs" and "xs \<noteq> []"
  shows "lseg (os(last xs := (os (last xs))\<lparr>o_next := n'\<rparr>)) p h xs t n'"
  using assms
proof (induction xs arbitrary: p h)
  case (Cons x xs)
  then show ?case by (cases xs) (auto split: if_splits)
qed simp

lemma lseg_set_prev:
  assumes "lseg os p h (x # xs) t n" and "x \<notin> set xs"
  shows "lseg (os(x := (os x)\<lparr>o_prev := p'\<rparr>)) p' h (x # xs) t n"
  using assms lseg_frame [of xs "os(x := (os x)\<lparr>o_prev := p'\<rparr>)" os] by auto

text \<open>Appending at the tail, the way \<^verbatim>\<open>link_order_\<close> does.\<close>

definition linked :: "nat \<Rightarrow> order_idx \<Rightarrow> (nat \<Rightarrow> order) \<Rightarrow> nat \<Rightarrow> order" where
  "linked i tli os =
     (let os1 = os(i := (os i)\<lparr>o_prev := tli, o_next := None\<rparr>) in
      case tli of None \<Rightarrow> os1 | Some t \<Rightarrow> os1(t := (os1 t)\<lparr>o_next := Some i\<rparr>))"

lemma lseg_linked:
  assumes seg: "lseg os None h xs tli None" and "distinct xs" and "i \<notin> set xs"
  shows "lseg (linked i tli os) None (if h = None then Some i else h) (xs @ [i]) (Some i) None"
proof (cases "xs = []")
  case True
  then show ?thesis using seg by (simp add: linked_def)
next
  case False
  let ?os1 = "os(i := (os i)\<lparr>o_prev := tli, o_next := None\<rparr>)" and ?l = "last xs"
  have tli: "tli = Some ?l" using lseg_tail [OF seg] False by simp
  have li: "?l \<noteq> i" using False assms(3) last_in_set by metis
  have seg1: "lseg ?os1 None h xs tli None" using seg assms(3) lseg_frame [of xs ?os1 os] by auto
  have "h \<noteq> None" using lseg_head [OF seg] False by (auto split: list.splits)
  then show ?thesis
    using lseg_set_next [OF seg1 assms(2) False, of "Some i"] tli li by (auto simp: linked_def lseg_append)
qed

text \<open>Cutting one element out, the way \<^verbatim>\<open>unlink_order_\<close> does.\<close>

definition unlinked :: "nat \<Rightarrow> (nat \<Rightarrow> order) \<Rightarrow> nat \<Rightarrow> order" where
  "unlinked i os =
     (let os1 = (case o_prev (os i) of None \<Rightarrow> os | Some q \<Rightarrow> os(q := (os q)\<lparr>o_next := o_next (os i)\<rparr>)) in
      case o_next (os1 i) of None \<Rightarrow> os1 | Some q \<Rightarrow> os1(q := (os1 q)\<lparr>o_prev := o_prev (os1 i)\<rparr>))"

lemma lseg_unlinked:
  assumes seg: "lseg os None h (xs @ i # ys) tli None" and dist: "distinct (xs @ i # ys)"
  shows "lseg (unlinked i os) None (if h = Some i then o_next (unlinked i os i) else h) (xs @ ys)
      (if tli = Some i then o_prev (unlinked i os i) else tli) None"
    and "o_prev (unlinked i os i) = o_prev (os i)" and "o_next (unlinked i os i) = o_next (os i)"
proof -
  have seg_xs: "lseg os None h xs (o_prev (os i)) (Some i)" and
    seg_ys: "lseg os (Some i) (o_next (os i)) ys tli None" using seg by (auto simp: lseg_append)
  let ?os1 = "case o_prev (os i) of None \<Rightarrow> os | Some q \<Rightarrow> os(q := (os q)\<lparr>o_next := o_next (os i)\<rparr>)"
  have prev: "o_prev (os i) = (if xs = [] then None else Some (last xs))" using lseg_tail [OF seg_xs] .
  have nxt: "o_next (os i) = (case ys of [] \<Rightarrow> None | y # _ \<Rightarrow> Some y)" using lseg_head [OF seg_ys] .
  have lx: "last xs \<noteq> i \<and> last xs \<notin> set ys" if "xs \<noteq> []" using last_in_set [OF that] dist by auto
  have i1: "?os1 i = os i" using prev lx by (auto split: if_splits)
  have xs1: "lseg ?os1 None h xs (o_prev (os i)) (o_next (os i))" if "xs \<noteq> []"
    using lseg_set_next [OF seg_xs _ that, of "o_next (os i)"] dist prev that by auto
  have ys1: "lseg ?os1 (Some i) (o_next (os i)) ys tli None"
    using seg_ys lx prev lseg_frame [of ys ?os1 os] by (auto split: if_splits)
  show keep: "o_prev (unlinked i os i) = o_prev (os i)" "o_next (unlinked i os i) = o_next (os i)"
    using i1 nxt dist by (auto simp: unlinked_def Let_def split: list.splits option.splits)
  have split: "lseg (unlinked i os) None h' (xs @ ys) t' None \<longleftrightarrow>
      (\<exists>q m. lseg (unlinked i os) None h' xs q m \<and> lseg (unlinked i os) q m ys t' None)" for h' t' by (rule lseg_append)
  show "lseg (unlinked i os) None (if h = Some i then o_next (unlinked i os i) else h) (xs @ ys)
      (if tli = Some i then o_prev (unlinked i os i) else tli) None"
  proof (cases ys)
    case Nil
    then have un: "unlinked i os = ?os1" using i1 nxt by (simp add: unlinked_def)
    have "tli = Some i" using seg_ys Nil by simp
    moreover have "h = Some i \<longleftrightarrow> xs = []"
      using lseg_head [OF seg_xs] dist by (auto split: list.splits)
    ultimately show ?thesis using xs1 prev nxt Nil keep un by (cases "xs = []") simp_all
  next
    case (Cons y ys')
    have un: "unlinked i os = ?os1(y := (?os1 y)\<lparr>o_prev := o_prev (os i)\<rparr>)"
      using i1 nxt Cons by (simp add: unlinked_def Let_def)
    have y: "lseg (unlinked i os) (o_prev (os i)) (o_next (os i)) ys tli None"
      unfolding un Cons using ys1 dist Cons by (intro lseg_set_prev) auto
    have tli: "tli \<noteq> Some i" using lseg_tail [OF seg_ys] Cons dist by auto
    show ?thesis
    proof (cases "xs = []")
      case True
      then have "h = Some i" "o_prev (os i) = None" using seg_xs by auto
      then show ?thesis using y tli True keep by simp
    next
      case False
      have "lseg (unlinked i os) None h xs (o_prev (os i)) (o_next (os i))"
        unfolding un using xs1 [OF False] dist Cons
        by (subst lseg_frame [where os = ?os1]) auto
      moreover have "h \<noteq> Some i" using lseg_head [OF seg_xs] False dist by (auto split: list.splits)
      ultimately show ?thesis using y tli by (auto simp: lseg_append)
    qed
  qed
qed

lemma linked_keeps:
  "g (linked i tli os x) = g (os x)" if "\<And>o' v. g (o'\<lparr>o_prev := v\<rparr>) = g o'" "\<And>o' v. g (o'\<lparr>o_next := v\<rparr>) = g o'"
proof -
  have "g ((o' :: order)\<lparr>o_prev := u, o_next := v\<rparr>) = g o'" for o' u v using that by simp
  then show ?thesis using that by (auto simp: linked_def Let_def split: option.split)
qed

lemma unlinked_keeps:
  "g (unlinked i os x) = g (os x)" if "\<And>o' v. g (o'\<lparr>o_prev := v\<rparr>) = g o'" "\<And>o' v. g (o'\<lparr>o_next := v\<rparr>) = g o'"
  using that by (auto simp: unlinked_def Let_def split: option.split)

lemma linked_elsewhere:
  "x \<noteq> i \<Longrightarrow> tli \<noteq> Some x \<Longrightarrow> linked i tli os x = os x"
  by (auto simp: linked_def Let_def split: option.split)

lemma unlinked_elsewhere:
  "o_prev (os i) \<noteq> Some x \<Longrightarrow> o_next (os i) \<noteq> Some x \<Longrightarrow> unlinked i os x = os x"
  by (auto simp: unlinked_def Let_def split: option.split)

section \<open>Accessors\<close>

lemma upd_ord_simps [simp]:
  "ord (upd_ord i f bk) = (ord bk)(i := f (ord bk i))"
  "bk_ids (upd_ord i f bk) = bk_ids bk" "bk_parts (upd_ord i f bk) = bk_parts bk"
  "get_store sd (upd_ord i f bk) = get_store sd bk"
  "op_capacity (bk_pool (upd_ord i f bk)) = op_capacity (bk_pool bk)"
  by (simp_all add: upd_ord_def) (cases sd; simp)

lemma upd_part_simps [simp]:
  "part (upd_part pi f bk) = (part bk)(pi := f (part bk pi))"
  "bk_ids (upd_part pi f bk) = bk_ids bk" "bk_pool (upd_part pi f bk) = bk_pool bk"
  "get_store sd (upd_part pi f bk) = get_store sd bk"
  "pp_free (bk_parts (upd_part pi f bk)) = pp_free (bk_parts bk)"
  "pp_size (bk_parts (upd_part pi f bk)) = pp_size (bk_parts bk)"
  "pp_count (bk_parts (upd_part pi f bk)) = pp_count (bk_parts bk)"
  by (simp_all add: upd_part_def) (cases sd; simp)

lemma set_store_simps [simp]:
  "get_store sd' (set_store sd st bk) = (if sd' = sd then st else get_store sd' bk)"
  "bk_ids (set_store sd st bk) = bk_ids bk" "bk_pool (set_store sd st bk) = bk_pool bk"
  "bk_parts (set_store sd st bk) = bk_parts bk"
  by ((cases sd; cases sd'; simp), (cases sd; simp)+)

lemma book_update_simps [simp]:
  "get_store sd (bk\<lparr>bk_pool := p\<rparr>) = get_store sd bk" "get_store sd (bk\<lparr>bk_ids := m\<rparr>) = get_store sd bk"
  "get_store sd (bk\<lparr>bk_parts := pp\<rparr>) = get_store sd bk"
  by (cases sd; simp)+

lemma set_store_get [simp]: "set_store sd (get_store sd bk) bk = bk"
  by (cases sd) simp_all

lemma link_order_eqs:
  fixes sd i pi bk
  defines "pl_idx \<equiv> off sd bk (o_price (ord bk i))"
  defines "pl \<equiv> level bk (pi, pl_idx)"
  shows "ord (link_order sd i pi bk) = linked i (pl_tail pl) (ord bk)"
    and "bk_ids (link_order sd i pi bk) = bk_ids bk" and "get_store sd' (link_order sd i pi bk) = get_store sd' bk"
    and "part (link_order sd i pi bk) = (part bk)(pi := (part bk pi)
      \<lparr>pt_levels := (pt_levels (part bk pi))(pl_idx := pl\<lparr>pl_tail := Some i,
         pl_head := (if pl_head pl = None then Some i else pl_head pl), pl_qty := pl_qty pl + o_qty (ord bk i), pl_active := True\<rparr>),
       pt_bitmap := (if pl_active pl then pt_bitmap (part bk pi) else bm_set pl_idx (pt_bitmap (part bk pi)))\<rparr>)"
    and "pp_free (bk_parts (link_order sd i pi bk)) = pp_free (bk_parts bk)"
    and "pp_size (bk_parts (link_order sd i pi bk)) = pp_size (bk_parts bk)"
    and "pp_count (bk_parts (link_order sd i pi bk)) = pp_count (bk_parts bk)"
    and "op_capacity (bk_pool (link_order sd i pi bk)) = op_capacity (bk_pool bk)"
    and "pool_ok fs (bk_pool bk) \<Longrightarrow> pool_ok fs (bk_pool (link_order sd i pi bk))"
proof -
  let ?os = "linked i (pl_tail pl) (ord bk)"
  have qty: "o_qty (?os i) = o_qty (ord bk i)" by (rule linked_keeps) simp_all
  define bk2 where "bk2 = (case pl_tail pl of None \<Rightarrow> upd_ord i (\<lambda>o'. o'\<lparr>o_prev := pl_tail pl, o_next := None\<rparr>) bk
    | Some t \<Rightarrow> upd_ord t (\<lambda>o'. o'\<lparr>o_next := Some i\<rparr>) (upd_ord i (\<lambda>o'. o'\<lparr>o_prev := pl_tail pl, o_next := None\<rparr>) bk))"
  have 2: "ord bk2 = ?os" "bk_ids bk2 = bk_ids bk" "get_store sd' bk2 = get_store sd' bk" "bk_parts bk2 = bk_parts bk"
    "op_capacity (bk_pool bk2) = op_capacity (bk_pool bk)" for sd'
    by (auto simp: bk2_def linked_def Let_def split: option.split)
  have pool2: "pool_ok fs (bk_pool bk) \<Longrightarrow> pool_ok fs (bk_pool bk2)"
    by (auto simp: bk2_def upd_ord_def intro!: pool_ok_upd split: option.split)
  have eq: "link_order sd i pi bk =
     (let bk3 = upd_level pi pl_idx (\<lambda>pl. pl\<lparr>pl_tail := Some i, pl_head := (if pl_head pl = None then Some i else pl_head pl),
                  pl_qty := pl_qty pl + o_qty (ord bk2 i)\<rparr>) bk2 in
      if \<not> pl_active (level bk3 (pi, pl_idx))
      then upd_part pi (\<lambda>p. p\<lparr>pt_bitmap := bm_set pl_idx (pt_bitmap p)\<rparr>) (upd_level pi pl_idx (\<lambda>pl. pl\<lparr>pl_active := True\<rparr>) bk3)
      else bk3)"
    unfolding link_order_def Let_def pl_idx_def pl_def bk2_def by (rule refl)
  show "ord (link_order sd i pi bk) = ?os" "bk_ids (link_order sd i pi bk) = bk_ids bk"
    "get_store sd' (link_order sd i pi bk) = get_store sd' bk"
    "pp_free (bk_parts (link_order sd i pi bk)) = pp_free (bk_parts bk)"
    "pp_size (bk_parts (link_order sd i pi bk)) = pp_size (bk_parts bk)"
    "pp_count (bk_parts (link_order sd i pi bk)) = pp_count (bk_parts bk)"
    "op_capacity (bk_pool (link_order sd i pi bk)) = op_capacity (bk_pool bk)"
    "pool_ok fs (bk_pool bk) \<Longrightarrow> pool_ok fs (bk_pool (link_order sd i pi bk))"
    by (simp_all add: eq Let_def upd_level_def 2 pool2)
  show "part (link_order sd i pi bk) = (part bk)(pi := (part bk pi)
      \<lparr>pt_levels := (pt_levels (part bk pi))(pl_idx := pl\<lparr>pl_tail := Some i,
         pl_head := (if pl_head pl = None then Some i else pl_head pl), pl_qty := pl_qty pl + o_qty (ord bk i), pl_active := True\<rparr>),
       pt_bitmap := (if pl_active pl then pt_bitmap (part bk pi) else bm_set pl_idx (pt_bitmap (part bk pi)))\<rparr>)"
    using qty [unfolded pl_def] by (cases "level bk (pi, pl_idx)") (simp add: eq Let_def upd_level_def 2 pl_def)
qed

lemma unlink_order_eqs:
  fixes sd i pi bk
  defines "pl_idx \<equiv> off sd bk (o_price (ord bk i))"
  defines "pl \<equiv> level bk (pi, pl_idx)"
  defines "os \<equiv> unlinked i (ord bk)"
  defines "hd' \<equiv> (if pl_head pl = Some i then o_next (os i) else pl_head pl)"
  shows "ord (unlink_order sd i pi bk) = os"
    and "bk_ids (unlink_order sd i pi bk) = bk_ids bk" and "get_store sd' (unlink_order sd i pi bk) = get_store sd' bk"
    and "part (unlink_order sd i pi bk) = (part bk)(pi := (part bk pi)
      \<lparr>pt_levels := (pt_levels (part bk pi))(pl_idx := pl\<lparr>pl_head := hd',
         pl_tail := (if pl_tail pl = Some i then o_prev (os i) else pl_tail pl), pl_qty := pl_qty pl - o_qty (ord bk i),
         pl_active := (hd' \<noteq> None \<and> pl_active pl)\<rparr>),
       pt_bitmap := (if hd' = None then bm_clear pl_idx (pt_bitmap (part bk pi)) else pt_bitmap (part bk pi))\<rparr>)"
    and "pp_free (bk_parts (unlink_order sd i pi bk)) = pp_free (bk_parts bk)"
    and "pp_size (bk_parts (unlink_order sd i pi bk)) = pp_size (bk_parts bk)"
    and "pp_count (bk_parts (unlink_order sd i pi bk)) = pp_count (bk_parts bk)"
    and "op_capacity (bk_pool (unlink_order sd i pi bk)) = op_capacity (bk_pool bk)"
    and "pool_ok fs (bk_pool bk) \<Longrightarrow> pool_ok fs (bk_pool (unlink_order sd i pi bk))"
proof -
  have qty: "o_qty (os i) = o_qty (ord bk i)" unfolding os_def by (rule unlinked_keeps) simp_all
  define bk1 where "bk1 = (case o_prev (ord bk i) of None \<Rightarrow> bk | Some q \<Rightarrow> upd_ord q (\<lambda>o'. o'\<lparr>o_next := o_next (ord bk i)\<rparr>) bk)"
  define bk2 where "bk2 = (case o_next (ord bk1 i) of None \<Rightarrow> bk1 | Some q \<Rightarrow> upd_ord q (\<lambda>o'. o'\<lparr>o_prev := o_prev (ord bk1 i)\<rparr>) bk1)"
  have 2: "ord bk2 = os" "bk_ids bk2 = bk_ids bk" "get_store sd' bk2 = get_store sd' bk" "bk_parts bk2 = bk_parts bk"
    "op_capacity (bk_pool bk2) = op_capacity (bk_pool bk)" for sd'
    by (auto simp: bk2_def bk1_def os_def unlinked_def Let_def split: option.split)
  have pool2: "pool_ok fs (bk_pool bk) \<Longrightarrow> pool_ok fs (bk_pool bk2)"
    by (auto simp: bk2_def bk1_def upd_ord_def intro!: pool_ok_upd split: option.split)
  have eq: "unlink_order sd i pi bk =
     (let bk3 = upd_level pi pl_idx (\<lambda>pl. pl
                  \<lparr>pl_head := (if pl_head pl = Some i then o_next (ord bk2 i) else pl_head pl),
                   pl_tail := (if pl_tail pl = Some i then o_prev (ord bk2 i) else pl_tail pl),
                   pl_qty := pl_qty pl + - o_qty (ord bk2 i)\<rparr>) bk2 in
      if pl_head (level bk3 (pi, pl_idx)) = None
      then upd_part pi (\<lambda>p. p\<lparr>pt_bitmap := bm_clear pl_idx (pt_bitmap p)\<rparr>) (upd_level pi pl_idx (\<lambda>pl. pl\<lparr>pl_active := False\<rparr>) bk3)
      else bk3)"
    unfolding unlink_order_def Let_def pl_idx_def bk1_def bk2_def by (rule refl)
  show "ord (unlink_order sd i pi bk) = os" "bk_ids (unlink_order sd i pi bk) = bk_ids bk"
    "get_store sd' (unlink_order sd i pi bk) = get_store sd' bk"
    "pp_free (bk_parts (unlink_order sd i pi bk)) = pp_free (bk_parts bk)"
    "pp_size (bk_parts (unlink_order sd i pi bk)) = pp_size (bk_parts bk)"
    "pp_count (bk_parts (unlink_order sd i pi bk)) = pp_count (bk_parts bk)"
    "op_capacity (bk_pool (unlink_order sd i pi bk)) = op_capacity (bk_pool bk)"
    "pool_ok fs (bk_pool bk) \<Longrightarrow> pool_ok fs (bk_pool (unlink_order sd i pi bk))"
    by (simp_all add: eq Let_def upd_level_def 2 pool2)
  show "part (unlink_order sd i pi bk) = (part bk)(pi := (part bk pi)
      \<lparr>pt_levels := (pt_levels (part bk pi))(pl_idx := pl\<lparr>pl_head := hd',
         pl_tail := (if pl_tail pl = Some i then o_prev (os i) else pl_tail pl), pl_qty := pl_qty pl - o_qty (ord bk i),
         pl_active := (hd' \<noteq> None \<and> pl_active pl)\<rparr>),
       pt_bitmap := (if hd' = None then bm_clear pl_idx (pt_bitmap (part bk pi)) else pt_bitmap (part bk pi))\<rparr>)"
    using qty by (cases "level bk (pi, pl_idx)") (simp add: eq Let_def upd_level_def 2 pl_def hd'_def)
qed

section \<open>Prices, partitions and levels\<close>

definition price_ok :: "nat \<Rightarrow> nat \<Rightarrow> price \<Rightarrow> bool" where
  "price_ok np pb p \<longleftrightarrow> 0 \<le> p \<and> p < int np * 2 ^ pb"

lemma partition_id_facts:
  assumes "price_ok np pb p" and "np \<le> 2 ^ 32"
  shows "partition_id pb p < np" and "p = int (partition_id pb p * 2 ^ pb + offset_in_partition pb p)"
    and "offset_in_partition pb p < 2 ^ pb"
proof -
  have "0 \<le> p mod 2 ^ pb" by simp
  then have "p div 2 ^ pb * 2 ^ pb \<le> p" using div_mult_mod_eq [of p "2 ^ pb"] by linarith
  then have "p div 2 ^ pb * 2 ^ pb < int np * 2 ^ pb" 
    using assms(1) unfolding price_ok_def by linarith
  then have p: "0 \<le> p div 2 ^ pb" "p div 2 ^ pb < int np"
    using assms(1) by (auto simp: price_ok_def pos_imp_zdiv_nonneg_iff)
  have "int np \<le> 2 ^ 32" using assms(2) by (metis of_nat_le_iff of_nat_numeral of_nat_power)
  then have "uint (word_of_int (p div 2 ^ pb) :: u32) = p div 2 ^ pb"
    using p by (simp add: uint_word_of_int)
  then have e: "int (partition_id pb p) = p div 2 ^ pb" by (simp add: partition_id_def)
  have o: "int (offset_in_partition pb p) = p mod 2 ^ pb" by (simp add: offset_in_partition_def)
  show "partition_id pb p < np" using e p(2) by linarith
  show "p = int (partition_id pb p * 2 ^ pb + offset_in_partition pb p)"
    unfolding of_nat_add of_nat_mult of_nat_power of_nat_numeral e o by (rule div_mult_mod_eq [symmetric])
  have "p mod 2 ^ pb < 2 ^ pb" by simp
  then have "int (offset_in_partition pb p) < int (2 ^ pb)" unfolding o by simp
  then show "offset_in_partition pb p < 2 ^ pb" using of_nat_less_iff by blast
qed

lemma partition_id_of:
  assumes "k < np" and "n < 2 ^ pb" and "np \<le> 2 ^ 32"
  shows "price_ok np pb (int (k * 2 ^ pb + n))" and "partition_id pb (int (k * 2 ^ pb + n)) = k"
    and "offset_in_partition pb (int (k * 2 ^ pb + n)) = n"
proof -
  have "(k + 1) * 2 ^ pb \<le> np * 2 ^ pb" using assms(1) by (intro mult_le_mono1) simp
  then have "k * 2 ^ pb + n < np * 2 ^ pb" using assms(2) by simp
  then have "int (k * 2 ^ pb + n) < int (np * 2 ^ pb)" by (simp only: of_nat_less_iff)
  then show ok: "price_ok np pb (int (k * 2 ^ pb + n))" by (simp add: price_ok_def)
  have "(k * 2 ^ pb + n) mod 2 ^ pb = n" using assms(2) by simp
  then have dm: "int (k * 2 ^ pb + n) mod 2 ^ pb = int n" by (metis of_nat_mod of_nat_power of_nat_numeral)
  then show off: "offset_in_partition pb (int (k * 2 ^ pb + n)) = n" unfolding offset_in_partition_def by simp
  have "int (partition_id pb (int (k * 2 ^ pb + n))) * 2 ^ pb + int n = int (k * 2 ^ pb + n)"
    using partition_id_facts(2) [OF ok assms(3)] unfolding off by simp
  then show "partition_id pb (int (k * 2 ^ pb + n)) = k" by simp
qed

abbreviation act :: "side \<Rightarrow> order_book \<Rightarrow> nat \<Rightarrow> nat option" where
  "act sd bk \<equiv> st_active (get_store sd bk)"

text \<open>The level of a price, if its partition exists.\<close>

definition lvl :: "side \<Rightarrow> order_book \<Rightarrow> price \<Rightarrow> price_level option" where
  "lvl sd bk p = (case act sd bk (pid sd bk p) of None \<Rightarrow> None | Some pi \<Rightarrow> Some (level bk (pi, off sd bk p)))"

text \<open>No partition is used twice or both used and free, and every level of a used partition carries its price.\<close>

definition parts_ok :: "nat \<Rightarrow> nat \<Rightarrow> order_book \<Rightarrow> bool" where
  "parts_ok np pb bk \<longleftrightarrow> np \<le> 2 ^ 32 \<and> pp_size (bk_parts bk) = 2 ^ pb \<and> distinct (pp_free (bk_parts bk)) \<and>
     (\<forall>sd. st_num_partitions (get_store sd bk) = np \<and> st_partition_bits (get_store sd bk) = pb \<and>
        length (st_bitmap (get_store sd bk)) = (np + 63) div 64) \<and>
     (\<forall>sd k. bm_bit (st_bitmap (get_store sd bk)) k \<longleftrightarrow> act sd bk k \<noteq> None) \<and>
     (\<forall>sd k pi. act sd bk k = Some pi \<longrightarrow> k < np \<and> pi \<notin> set (pp_free (bk_parts bk))) \<and>
     (\<forall>sd k sd' k' pi. act sd bk k = Some pi \<longrightarrow> act sd' bk k' = Some pi \<longrightarrow> sd = sd' \<and> k = k') \<and>
     (\<forall>pi. length (pt_bitmap (part bk pi)) = (2 ^ pb + 63) div 64) \<and>
     (\<forall>sd k pi n. act sd bk k = Some pi \<longrightarrow> n < 2 ^ pb \<longrightarrow> pl_price (pt_levels (part bk pi) n) = int (k * 2 ^ pb + n))"

lemma parts_okD:
  assumes "parts_ok np pb bk"
  shows "np \<le> 2 ^ 32" and "pp_size (bk_parts bk) = 2 ^ pb" and "st_num_partitions (get_store sd bk) = np"
    and "st_partition_bits (get_store sd bk) = pb" and "act sd bk k = Some pi \<Longrightarrow> k < np"
    and "act sd bk k = Some pi \<Longrightarrow> pi \<notin> set (pp_free (bk_parts bk))"
    and "act sd bk k = Some pi \<Longrightarrow> act sd' bk k' = Some pi \<Longrightarrow> sd = sd' \<and> k = k'"
    and "length (pt_bitmap (part bk pi)) = (2 ^ pb + 63) div 64"
    and "act sd bk k = Some pi \<Longrightarrow> n < 2 ^ pb \<Longrightarrow> pl_price (pt_levels (part bk pi) n) = int (k * 2 ^ pb + n)"
    and "bm_bit (st_bitmap (get_store sd bk)) k \<longleftrightarrow> act sd bk k \<noteq> None"
    and "length (st_bitmap (get_store sd bk)) = (np + 63) div 64"
    and "distinct (pp_free (bk_parts bk))"
  using assms unfolding parts_ok_def by blast+

lemma word_index: "n < m \<Longrightarrow> n div 64 < (m + 63) div (64 :: nat)"
  by linarith

text \<open>Changing one level of a used partition.\<close>

definition level_update :: "nat \<Rightarrow> nat \<Rightarrow> price_level \<Rightarrow> u64 list \<Rightarrow> order_book \<Rightarrow> order_book \<Rightarrow> bool" where
  "level_update pi n pl' bm' bk bk' \<longleftrightarrow>
     part bk' = (part bk)(pi := (part bk pi)\<lparr>pt_levels := (pt_levels (part bk pi))(n := pl'), pt_bitmap := bm'\<rparr>) \<and>
     (\<forall>sd. get_store sd bk' = get_store sd bk) \<and> pp_free (bk_parts bk') = pp_free (bk_parts bk) \<and>
     pp_size (bk_parts bk') = pp_size (bk_parts bk) \<and> pl_price pl' = pl_price (level bk (pi, n)) \<and>
     length bm' = length (pt_bitmap (part bk pi))"

lemma level_update_parts_ok:
  assumes "parts_ok np pb bk" and "level_update pi n pl' bm' bk bk'"
  shows "parts_ok np pb bk'"
  using assms unfolding parts_ok_def level_update_def by (auto split: if_splits)

lemma level_update_lvl:
  assumes ok: "parts_ok np pb bk" and up: "level_update pi (offset_in_partition pb p) pl' bm' bk bk'"
    and p: "price_ok np pb p" "price_ok np pb p'" and a: "act sd bk (partition_id pb p) = Some pi"
  shows "lvl sd' bk' p' = (if sd' = sd \<and> p' = p then Some pl' else lvl sd' bk p')"
proof -
  note D = parts_okD [OF ok] and F = partition_id_facts [OF _ parts_okD(1) [OF ok]]
  have store: "get_store sd' bk' = get_store sd' bk" using up by (simp add: level_update_def)
  show ?thesis
  proof (cases "act sd' bk (partition_id pb p') = Some pi")
    case True
    then have e: "sd' = sd" "partition_id pb p' = partition_id pb p" using D(7) [OF True a] by auto
    have "offset_in_partition pb p' = offset_in_partition pb p \<longleftrightarrow> p' = p"
      using F(2) [OF p(1)] F(2) [OF p(2)] e(2) by auto
    then show ?thesis using up True e by (auto simp: lvl_def store level_update_def D(4))
  next
    case False
    then have "\<not> (sd' = sd \<and> p' = p)" using a by auto
    then show ?thesis using up False by (auto simp: lvl_def store level_update_def D(4) split: option.split)
  qed
qed

lemma lvl_price:
  assumes "parts_ok np pb bk" and "price_ok np pb p" and "lvl sd bk p = Some pl"
  shows "pl_price pl = p"
  using parts_okD(9) [OF assms(1), of sd "partition_id pb p" _ "offset_in_partition pb p"]
    partition_id_facts [OF assms(2) parts_okD(1) [OF assms(1)]] assms(3)
  by (auto simp: lvl_def parts_okD(4) [OF assms(1)] split: option.splits)

end
