(* ===== verification/Book_Refinement.thy ===== *)
theory Book_Refinement
  imports Book_Levels
begin

text \<open>
  The refinement relation between the order book and its queues, and its preservation by the steps of the book: reserving a
  slot for an order, linking it into the queue of its price, unlinking it, giving the slot back, creating a partition, and
  changing cached best prices or quantities. \<open>F\<close> holds the slots that are reserved but in no queue.
\<close>

type_synonym queues = "side \<Rightarrow> price \<Rightarrow> nat list"

definition resting :: "queues \<Rightarrow> nat \<Rightarrow> bool" where
  "resting L i \<longleftrightarrow> (\<exists>sd p. i \<in> set (L sd p))"

definition put :: "side \<Rightarrow> price \<Rightarrow> nat list \<Rightarrow> queues \<Rightarrow> queues" where
  "put sd p xs L = L(sd := (L sd)(p := xs))"

lemma put_apply [simp]: "put sd p xs L sd' p' = (if sd' = sd \<and> p' = p then xs else L sd' p')"
  by (simp add: put_def)

definition pool_rel :: "nat set \<Rightarrow> queues \<Rightarrow> order_book \<Rightarrow> bool" where
  "pool_rel F L bk \<longleftrightarrow> (\<exists>fs. pool_ok fs (bk_pool bk) \<and>
     (\<forall>i. i < op_capacity (bk_pool bk) \<and> i \<notin> set fs \<longleftrightarrow> i \<in> F \<or> resting L i))"

definition place_rel :: "nat \<Rightarrow> nat \<Rightarrow> nat set \<Rightarrow> queues \<Rightarrow> order_book \<Rightarrow> bool" where
  "place_rel np pb F L bk \<longleftrightarrow> (\<forall>sd p. distinct (L sd p)) \<and>
     (\<forall>sd p i. i \<in> set (L sd p) \<longrightarrow> price_ok np pb p \<and> act sd bk (partition_id pb p) \<noteq> None \<and>
        o_side (ord bk i) = sd \<and> o_price (ord bk i) = p \<and> i \<notin> F)"

definition level_rel :: "(nat \<Rightarrow> order) \<Rightarrow> nat list \<Rightarrow> price_level \<Rightarrow> bool" where
  "level_rel os xs pl \<longleftrightarrow> lseg os None (pl_head pl) xs (pl_tail pl) None \<and> (pl_active pl \<longleftrightarrow> xs \<noteq> [])"

definition levels_rel :: "nat \<Rightarrow> nat \<Rightarrow> queues \<Rightarrow> order_book \<Rightarrow> bool" where
  "levels_rel np pb L bk \<longleftrightarrow>
     (\<forall>sd p pl. price_ok np pb p \<longrightarrow> lvl sd bk p = Some pl \<longrightarrow> level_rel (ord bk) (L sd p) pl) \<and>
     (\<forall>sd k pi n. act sd bk k = Some pi \<longrightarrow>
        (bm_bit (pt_bitmap (part bk pi)) n \<longleftrightarrow> n < 2 ^ pb \<and> L sd (int (k * 2 ^ pb + n)) \<noteq> []))"

definition id_rel :: "nat set \<Rightarrow> queues \<Rightarrow> order_book \<Rightarrow> bool" where
  "id_rel F L bk \<longleftrightarrow> id_ok (bk_ids bk) \<and> op_capacity (bk_pool bk) < im_capacity (bk_ids bk) \<and>
     (\<forall>i. i \<in> F \<or> resting L i \<longrightarrow> valid_id (o_id (ord bk i))) \<and>
     (\<forall>k i. id_map (bk_ids bk) k = Some i \<longleftrightarrow> (i \<in> F \<or> resting L i) \<and> o_id (ord bk i) = k)"

definition book_rel :: "nat \<Rightarrow> nat \<Rightarrow> nat set \<Rightarrow> queues \<Rightarrow> order_book \<Rightarrow> bool" where
  "book_rel np pb F L bk \<longleftrightarrow> parts_ok np pb bk \<and> pool_rel F L bk \<and> place_rel np pb F L bk \<and> levels_rel np pb L bk \<and> id_rel F L bk"

text \<open>The total quantity of every level is the sum over its orders, up to an amount \<open>d\<close> that is still to be booked.\<close>

definition queue_qty :: "order_book \<Rightarrow> nat list \<Rightarrow> quantity" where
  "queue_qty bk xs = sum_list (map (\<lambda>i. o_qty (ord bk i)) xs)"

definition totals_rel :: "nat \<Rightarrow> nat \<Rightarrow> queues \<Rightarrow> (side \<Rightarrow> price \<Rightarrow> quantity) \<Rightarrow> order_book \<Rightarrow> bool" where
  "totals_rel np pb L d bk \<longleftrightarrow>
     (\<forall>sd p pl. price_ok np pb p \<longrightarrow> lvl sd bk p = Some pl \<longrightarrow> pl_qty pl = queue_qty bk (L sd p) + d sd p)"

lemma place_relD:
  assumes "place_rel np pb F L bk"
  shows "distinct (L sd p)" and "i \<in> set (L sd p) \<Longrightarrow> price_ok np pb p"
    and "i \<in> set (L sd p) \<Longrightarrow> act sd bk (partition_id pb p) \<noteq> None"
    and "i \<in> set (L sd p) \<Longrightarrow> o_side (ord bk i) = sd" and "i \<in> set (L sd p) \<Longrightarrow> o_price (ord bk i) = p"
    and "i \<in> set (L sd p) \<Longrightarrow> i \<notin> F"
  using assms unfolding place_rel_def by blast+

lemma queues_disjoint:
  "place_rel np pb F L bk \<Longrightarrow> i \<in> set (L sd p) \<Longrightarrow> i \<in> set (L sd' p') \<Longrightarrow> sd' = sd \<and> p' = p"
  using place_relD(4,5) by metis

lemma book_relD:
  assumes "book_rel np pb F L bk"
  shows "parts_ok np pb bk" and "pool_rel F L bk" and "place_rel np pb F L bk" and "levels_rel np pb L bk" and "id_rel F L bk"
  using assms by (simp_all add: book_rel_def)

lemma level_of:
  assumes rel: "book_rel np pb F L bk" and a: "act sd bk (partition_id pb p) = Some pi" and "price_ok np pb p"
  shows "lvl sd bk p = Some (level bk (pi, offset_in_partition pb p))"
    and "level_rel (ord bk) (L sd p) (level bk (pi, offset_in_partition pb p))"
proof -
  show 1: "lvl sd bk p = Some (level bk (pi, offset_in_partition pb p))"
    using a by (simp add: lvl_def parts_okD(4) [OF book_relD(1) [OF rel]])
  show "level_rel (ord bk) (L sd p) (level bk (pi, offset_in_partition pb p))"
    using book_relD(4) [OF rel] 1 assms(3) by (simp add: levels_rel_def)
qed

section \<open>Changing one level\<close>

lemma levels_rel_update:
  assumes ok: "parts_ok np pb bk" and lev: "levels_rel np pb L bk" and p: "price_ok np pb p"
    and a: "act sd bk (partition_id pb p) = Some pi" and up: "level_update pi (offset_in_partition pb p) pl' bm' bk bk'"
    and new: "level_rel (ord bk') zs pl'"
    and bits: "\<And>n. bm_bit bm' n \<longleftrightarrow> (if n = offset_in_partition pb p then zs \<noteq> [] else bm_bit (pt_bitmap (part bk pi)) n)"
    and frame: "\<And>sd' p' x. (sd', p') \<noteq> (sd, p) \<Longrightarrow> x \<in> set (L sd' p') \<Longrightarrow>
      o_prev (ord bk' x) = o_prev (ord bk x) \<and> o_next (ord bk' x) = o_next (ord bk x)"
  shows "levels_rel np pb (put sd p zs L) bk'"
  unfolding levels_rel_def
proof (intro conjI allI impI)
  note F = partition_id_facts [OF p parts_okD(1) [OF ok]]
  fix sd' p' pl assume q: "price_ok np pb p'" and l: "lvl sd' bk' p' = Some pl"
  show "level_rel (ord bk') (put sd p zs L sd' p') pl"
  proof (cases "sd' = sd \<and> p' = p")
    case True
    then show ?thesis using new l level_update_lvl [OF ok up p q a, of sd'] by simp
  next
    case False
    then have "lvl sd' bk p' = Some pl" using l level_update_lvl [OF ok up p q a, of sd'] by (auto split: if_splits)
    then have old: "level_rel (ord bk) (L sd' p') pl" using lev q by (simp add: levels_rel_def)
    have "lseg (ord bk') q h (L sd' p') t n = lseg (ord bk) q h (L sd' p') t n" for q h t n
      using frame False by (intro lseg_frame) blast
    then show ?thesis using old False by (auto simp: level_rel_def)
  qed
next
  note F = partition_id_facts [OF p parts_okD(1) [OF ok]]
  fix sd' k pi' n assume a': "act sd' bk' k = Some pi'"
  have a2: "act sd' bk k = Some pi'" using a' up by (simp add: level_update_def)
  have old: "bm_bit (pt_bitmap (part bk pi')) n \<longleftrightarrow> n < 2 ^ pb \<and> L sd' (int (k * 2 ^ pb + n)) \<noteq> []"
    using lev a2 by (simp add: levels_rel_def)
  show "bm_bit (pt_bitmap (part bk' pi')) n \<longleftrightarrow> n < 2 ^ pb \<and> put sd p zs L sd' (int (k * 2 ^ pb + n)) \<noteq> []"
  proof (cases "pi' = pi")
    case True
    then have e: "sd' = sd" "k = partition_id pb p" using parts_okD(7) [OF ok a2] a by auto
    have "n < 2 ^ pb \<Longrightarrow> int (k * 2 ^ pb + n) = p \<longleftrightarrow> n = offset_in_partition pb p"
      using F(2) e(2) by (metis add_left_cancel of_nat_eq_iff)
    then show ?thesis using up True e(1) old bits [of n] F(3) by (auto simp: level_update_def)
  next
    case False
    then have "\<not> (sd' = sd \<and> k = partition_id pb p)" using a a2 by auto
    then have "n < 2 ^ pb \<Longrightarrow> \<not> (sd' = sd \<and> int (k * 2 ^ pb + n) = p)"
      using partition_id_of(2) [OF parts_okD(5) [OF ok a2] _ parts_okD(1) [OF ok]] by metis
    then show ?thesis using up False old by (auto simp: level_update_def)
  qed
qed

lemma totals_rel_update:
  assumes ok: "parts_ok np pb bk" and tot: "totals_rel np pb L d bk" and p: "price_ok np pb p"
    and a: "act sd bk (partition_id pb p) = Some pi" and up: "level_update pi (offset_in_partition pb p) pl' bm' bk bk'"
    and new: "pl_qty pl' = queue_qty bk' zs + d' sd p"
    and frame: "\<And>sd' p' x. (sd', p') \<noteq> (sd, p) \<Longrightarrow> x \<in> set (L sd' p') \<Longrightarrow> o_qty (ord bk' x) = o_qty (ord bk x)"
    and d: "\<And>sd' p'. (sd', p') \<noteq> (sd, p) \<Longrightarrow> d' sd' p' = d sd' p'"
  shows "totals_rel np pb (put sd p zs L) d' bk'"
  unfolding totals_rel_def
proof (intro allI impI)
  fix sd' p' pl assume q: "price_ok np pb p'" and l: "lvl sd' bk' p' = Some pl"
  show "pl_qty pl = queue_qty bk' (put sd p zs L sd' p') + d' sd' p'"
  proof (cases "sd' = sd \<and> p' = p")
    case True
    then show ?thesis using new l level_update_lvl [OF ok up p q a, of sd'] by simp
  next
    case False
    then have "lvl sd' bk p' = Some pl" using l level_update_lvl [OF ok up p q a, of sd'] by (auto split: if_splits)
    moreover have "queue_qty bk' (L sd' p') = queue_qty bk (L sd' p')"
      unfolding queue_qty_def using frame False by (intro arg_cong [of _ _ sum_list] map_cong) auto
    ultimately show ?thesis using tot q d [of sd' p'] False by (auto simp: totals_rel_def)
  qed
qed

section \<open>Linking and unlinking\<close>

lemma linked_fields:
  "o_side (linked i t os x) = o_side (os x)" "o_price (linked i t os x) = o_price (os x)" "o_id (linked i t os x) = o_id (os x)"
  "o_qty (linked i t os x) = o_qty (os x)" "o_filled (linked i t os x) = o_filled (os x)"
  by (rule linked_keeps; simp)+

lemma unlinked_fields:
  "o_side (unlinked i os x) = o_side (os x)" "o_price (unlinked i os x) = o_price (os x)" "o_id (unlinked i os x) = o_id (os x)"
  "o_qty (unlinked i os x) = o_qty (os x)" "o_filled (unlinked i os x) = o_filled (os x)"
  by (rule unlinked_keeps; simp)+

lemma link_level_update:
  fixes pi bk i p
  assumes "parts_ok np pb bk" and "o_price (ord bk i) = p"
  defines "pl \<equiv> level bk (pi, offset_in_partition pb p)"
  shows "level_update pi (offset_in_partition pb p)
      (pl\<lparr>pl_tail := Some i, pl_head := (if pl_head pl = None then Some i else pl_head pl),
          pl_qty := pl_qty pl + o_qty (ord bk i), pl_active := True\<rparr>)
      (if pl_active pl then pt_bitmap (part bk pi) else bm_set (offset_in_partition pb p) (pt_bitmap (part bk pi)))
      bk (link_order sd i pi bk)"
  unfolding level_update_def using assms(2) parts_okD(4) [OF assms(1), of sd] by (simp add: link_order_eqs pl_def)

lemma link_rel:
  assumes rel: "book_rel np pb F L bk" and i: "i \<in> F" and sd: "o_side (ord bk i) = sd" and p: "o_price (ord bk i) = p"
    and ok: "price_ok np pb p" and a: "act sd bk (partition_id pb p) = Some pi"
  shows "book_rel np pb (F - {i}) (put sd p (L sd p @ [i]) L) (link_order sd i pi bk)"
    and "totals_rel np pb L d bk \<Longrightarrow> totals_rel np pb (put sd p (L sd p @ [i]) L) d (link_order sd i pi bk)"
proof -
  note R = book_relD [OF rel]
  let ?bk = "link_order sd i pi bk" and ?L = "put sd p (L sd p @ [i]) L" and ?n = "offset_in_partition pb p"
  let ?pl = "level bk (pi, ?n)"
  note E = link_order_eqs [where sd = sd and i = i and pi = pi and bk = bk, unfolded p parts_okD(4) [OF R(1)]]
  note up = link_level_update [OF R(1) p, of pi sd]
  have fresh: "x \<noteq> i" if "x \<in> set (L sd' p')" for x sd' p' using place_relD(6) [OF R(3) that] i by blast
  then have out: "i \<notin> set (L sd p)" by blast
  have seg: "lseg (ord bk) None (pl_head ?pl) (L sd p) (pl_tail ?pl) None" and active: "pl_active ?pl \<longleftrightarrow> L sd p \<noteq> []"
    using level_of(2) [OF rel a ok] by (simp_all add: level_rel_def)
  have ti: "x \<noteq> i \<and> pl_tail ?pl \<noteq> Some x" if "(sd', p') \<noteq> (sd, p)" "x \<in> set (L sd' p')" for sd' p' x
  proof -
    have "pl_tail ?pl = Some x \<Longrightarrow> x \<in> set (L sd p)" using lseg_tail [OF seg] by (auto split: if_splits)
    then show ?thesis using queues_disjoint [OF R(3) that(2)] that fresh by blast
  qed
  have bit: "bm_bit (pt_bitmap (part bk pi)) ?n" if "L sd p \<noteq> []"
    using R(4) a that partition_id_facts [OF ok parts_okD(1) [OF R(1)]] by (simp add: levels_rel_def)
  have room: "?n div 64 < length (pt_bitmap (part bk pi))"
    using word_index [OF partition_id_facts(3) [OF ok parts_okD(1) [OF R(1)]]] by (simp add: parts_okD(8) [OF R(1)])
  have rest: "resting ?L x \<longleftrightarrow> x = i \<or> resting L x" for x unfolding resting_def by (fastforce split: if_splits)
  have "levels_rel np pb ?L ?bk"
  proof (rule levels_rel_update [OF R(1,4) ok a up])
    show "level_rel (ord ?bk) (L sd p @ [i]) (?pl\<lparr>pl_tail := Some i, pl_head := (if pl_head ?pl = None then Some i else pl_head ?pl),
          pl_qty := pl_qty ?pl + o_qty (ord bk i), pl_active := True\<rparr>)"
      using lseg_linked [OF seg place_relD(1) [OF R(3)] out] by (simp add: level_rel_def E(1))
    show "bm_bit (if pl_active ?pl then pt_bitmap (part bk pi) else bm_set ?n (pt_bitmap (part bk pi))) n \<longleftrightarrow>
        (if n = ?n then L sd p @ [i] \<noteq> [] else bm_bit (pt_bitmap (part bk pi)) n)" for n
      using bit room active by (auto simp: bm_bit_set)
    show "o_prev (ord ?bk x) = o_prev (ord bk x) \<and> o_next (ord ?bk x) = o_next (ord bk x)"
      if "(sd', p') \<noteq> (sd, p)" "x \<in> set (L sd' p')" for sd' p' x
      using ti [OF that] by (simp add: E(1) linked_elsewhere)
  qed
  moreover have "pool_rel (F - {i}) ?L ?bk" using R(2) i E(8,9) by (auto simp: pool_rel_def rest)
  moreover have "place_rel np pb (F - {i}) ?L ?bk"
    using R(3) sd p ok a fresh unfolding place_rel_def by (auto simp: E(1,3) linked_fields)
  moreover have "id_rel (F - {i}) ?L ?bk" using R(5) i by (auto simp: id_rel_def E(1,2,8) rest linked_fields)
  ultimately show "book_rel np pb (F - {i}) ?L ?bk" using level_update_parts_ok [OF R(1) up] by (simp add: book_rel_def)
  assume tot: "totals_rel np pb L d bk"
  then have "pl_qty ?pl = queue_qty bk (L sd p) + d sd p" using level_of(1) [OF rel a ok] ok by (simp add: totals_rel_def)
  then show "totals_rel np pb ?L d ?bk"
    by (intro totals_rel_update [OF R(1) tot ok a up]) (auto simp: queue_qty_def E(1) linked_fields)
qed

lemma unlink_level_update:
  fixes pi bk i p
  assumes "parts_ok np pb bk" and "o_price (ord bk i) = p"
  defines "pl \<equiv> level bk (pi, offset_in_partition pb p)"
  defines "h \<equiv> (if pl_head pl = Some i then o_next (unlinked i (ord bk) i) else pl_head pl)"
  shows "level_update pi (offset_in_partition pb p)
      (pl\<lparr>pl_head := h, pl_tail := (if pl_tail pl = Some i then o_prev (unlinked i (ord bk) i) else pl_tail pl),
          pl_qty := pl_qty pl - o_qty (ord bk i), pl_active := (h \<noteq> None \<and> pl_active pl)\<rparr>)
      (if h = None then bm_clear (offset_in_partition pb p) (pt_bitmap (part bk pi)) else pt_bitmap (part bk pi))
      bk (unlink_order sd i pi bk)"
  unfolding level_update_def using assms(2) parts_okD(4) [OF assms(1), of sd] by (simp add: unlink_order_eqs pl_def h_def)

lemma unlink_rel:
  assumes rel: "book_rel np pb F L bk" and i: "i \<in> set (L sd p)" and a: "act sd bk (partition_id pb p) = Some pi"
  shows "book_rel np pb (insert i F) (put sd p (remove1 i (L sd p)) L) (unlink_order sd i pi bk)"
    and "totals_rel np pb L d bk \<Longrightarrow> totals_rel np pb (put sd p (remove1 i (L sd p)) L) d (unlink_order sd i pi bk)"
proof -
  note R = book_relD [OF rel]
  have p: "o_price (ord bk i) = p" and sd: "o_side (ord bk i) = sd" and ok: "price_ok np pb p"
    using place_relD(2,4,5) [OF R(3) i] by auto
  let ?zs = "remove1 i (L sd p)"
  let ?bk = "unlink_order sd i pi bk" and ?L = "put sd p ?zs L" and ?n = "offset_in_partition pb p"
  let ?pl = "level bk (pi, ?n)"
  note E = unlink_order_eqs [where sd = sd and i = i and pi = pi and bk = bk, unfolded p parts_okD(4) [OF R(1)]]
  note up = unlink_level_update [OF R(1) p, of pi sd]
  obtain xs ys where xy: "L sd p = xs @ i # ys" using i by (meson split_list)
  have dist: "distinct (xs @ i # ys)" using place_relD(1) [OF R(3), of sd p] xy by simp
  then have zs: "?zs = xs @ ys" by (simp add: xy remove1_append)
  have seg: "lseg (ord bk) None (pl_head ?pl) (xs @ i # ys) (pl_tail ?pl) None" and active: "pl_active ?pl"
    using level_of(2) [OF rel a ok] xy by (simp_all add: level_rel_def)
  note U = lseg_unlinked [OF seg dist]
  let ?h = "if pl_head ?pl = Some i then o_next (unlinked i (ord bk) i) else pl_head ?pl"
  have h: "?h = None \<longleftrightarrow> ?zs = []" using lseg_head [OF U(1)] unfolding zs by (auto split: list.splits)
  have near: "x \<in> set (L sd p)" if "o_prev (ord bk i) = Some x \<or> o_next (ord bk i) = Some x" for x
  proof -
    have "lseg (ord bk) None (pl_head ?pl) xs (o_prev (ord bk i)) (Some i)" "lseg (ord bk) (Some i) (o_next (ord bk i)) ys (pl_tail ?pl) None"
      using seg by (auto simp: lseg_append)
    from lseg_tail [OF this(1)] lseg_head [OF this(2)] show ?thesis
      using that unfolding xy by (auto split: if_splits list.splits)
  qed
  have mem: "x \<in> set (?L sd' p') \<longleftrightarrow> x \<in> set (L sd' p') \<and> x \<noteq> i" for x sd' p'
    using dist unfolding zs by (auto simp: xy dest: queues_disjoint [OF R(3) i])
  have rest: "resting L x \<longleftrightarrow> x = i \<or> resting ?L x" and out: "\<not> resting ?L i" for x
    unfolding resting_def mem using i by auto
  have "levels_rel np pb ?L ?bk"
  proof (rule levels_rel_update [OF R(1,4) ok a up])
    show "level_rel (ord ?bk) ?zs (?pl\<lparr>pl_head := ?h, pl_tail := (if pl_tail ?pl = Some i then o_prev (unlinked i (ord bk) i) else pl_tail ?pl),
          pl_qty := pl_qty ?pl - o_qty (ord bk i), pl_active := (?h \<noteq> None \<and> pl_active ?pl)\<rparr>)"
      using U(1) h active zs unfolding level_rel_def E(1) by simp
    show "bm_bit (if ?h = None then bm_clear ?n (pt_bitmap (part bk pi)) else pt_bitmap (part bk pi)) n \<longleftrightarrow>
        (if n = ?n then ?zs \<noteq> [] else bm_bit (pt_bitmap (part bk pi)) n)" for n
    proof -
      have "bm_bit (pt_bitmap (part bk pi)) ?n"
        using R(4) a xy partition_id_facts [OF ok parts_okD(1) [OF R(1)]] by (simp add: levels_rel_def)
      then show ?thesis unfolding h by (auto simp: bm_bit_clear)
    qed
    show "o_prev (ord ?bk x) = o_prev (ord bk x) \<and> o_next (ord ?bk x) = o_next (ord bk x)"
      if "(sd', p') \<noteq> (sd, p)" "x \<in> set (L sd' p')" for sd' p' x
    proof -
      have "x \<notin> set (L sd p)" using queues_disjoint [OF R(3) that(2)] that(1) by blast
      then have "unlinked i (ord bk) x = ord bk x" using near [of x] by (intro unlinked_elsewhere) blast+
      then show ?thesis by (simp add: E(1))
    qed
  qed
  moreover have "pool_rel (insert i F) ?L ?bk" using R(2) E(8,9) rest by (auto simp: pool_rel_def)
  moreover have "place_rel np pb (insert i F) ?L ?bk"
  proof -
    have "distinct (?L sd' p')" for sd' p' using place_relD(1) [OF R(3)] by simp
    then show ?thesis using place_relD(2-) [OF R(3)] unfolding place_rel_def E(1,3) unlinked_fields mem by blast
  qed
  moreover have "id_rel (insert i F) ?L ?bk"
    using R(5) rest unfolding id_rel_def by (auto simp: E(1,2,8) unlinked_fields)
  ultimately show "book_rel np pb (insert i F) ?L ?bk" using level_update_parts_ok [OF R(1) up] by (simp add: book_rel_def)
  assume tot: "totals_rel np pb L d bk"
  then have "pl_qty ?pl = queue_qty bk (L sd p) + d sd p" using level_of(1) [OF rel a ok] ok by (simp add: totals_rel_def)
  then show "totals_rel np pb ?L d ?bk"
    by (intro totals_rel_update [OF R(1) tot ok a up]) (auto simp: zs [unfolded xy] xy queue_qty_def E(1) unlinked_fields)
qed

section \<open>Cached best prices, fields of orders\<close>

text \<open>Two books that differ only in the cached best prices hold the same queues.\<close>

definition same_queues :: "order_book \<Rightarrow> order_book \<Rightarrow> bool" where
  "same_queues bk bk' \<longleftrightarrow> bk_pool bk' = bk_pool bk \<and> bk_ids bk' = bk_ids bk \<and>
     pp_free (bk_parts bk') = pp_free (bk_parts bk) \<and> pp_size (bk_parts bk') = pp_size (bk_parts bk) \<and>
     (\<forall>pi. pt_levels (part bk' pi) = pt_levels (part bk pi) \<and> pt_bitmap (part bk' pi) = pt_bitmap (part bk pi)) \<and>
     (\<forall>sd. st_num_partitions (get_store sd bk') = st_num_partitions (get_store sd bk) \<and>
        st_partition_bits (get_store sd bk') = st_partition_bits (get_store sd bk) \<and>
        act sd bk' = act sd bk \<and> st_bitmap (get_store sd bk') = st_bitmap (get_store sd bk))"

lemma same_queues_rel:
  assumes "same_queues bk bk'"
  shows "book_rel np pb F L bk' = book_rel np pb F L bk" and "totals_rel np pb L d bk' = totals_rel np pb L d bk"
    and "lvl sd bk' p = lvl sd bk p"
proof -
  have S: "bk_pool bk' = bk_pool bk" "bk_ids bk' = bk_ids bk" "pp_free (bk_parts bk') = pp_free (bk_parts bk)"
    "pp_size (bk_parts bk') = pp_size (bk_parts bk)" "pt_levels (part bk' pi) = pt_levels (part bk pi)"
    "pt_bitmap (part bk' pi) = pt_bitmap (part bk pi)" "st_num_partitions (get_store sd bk') = st_num_partitions (get_store sd bk)"
    "st_partition_bits (get_store sd bk') = st_partition_bits (get_store sd bk)" "act sd bk' = act sd bk"
    "st_bitmap (get_store sd bk') = st_bitmap (get_store sd bk)" for pi sd
    using assms by (simp_all add: same_queues_def)
  show l: "lvl sd bk' p = lvl sd bk p" for sd p by (simp add: lvl_def S split: option.split)
  show "book_rel np pb F L bk' = book_rel np pb F L bk"
    unfolding book_rel_def parts_ok_def pool_rel_def place_rel_def levels_rel_def id_rel_def S l ..
  show "totals_rel np pb L d bk' = totals_rel np pb L d bk" unfolding totals_rel_def queue_qty_def S l ..
qed

lemma same_queues_trans: "same_queues a b \<Longrightarrow> same_queues b c \<Longrightarrow> same_queues a c"
  by (simp add: same_queues_def)

lemma same_queues_best [simp]:
  "same_queues bk bk"
  "same_queues bk (try_update_global_best sd p bk)" "same_queues bk (recompute_global_best sd bk)"
  "same_queues bk (upd_part pi (try_update_best sd p) bk)" "same_queues bk (upd_part pi (recompute_best sd) bk)"
  "same_queues bk (set_store sd ((get_store sd bk)\<lparr>st_best := p\<rparr>) bk)"
  by (simp_all add: same_queues_def try_update_global_best_def recompute_global_best_def try_update_best_def
      recompute_best_def Let_def split: option.split)

lemma ord_update_rel:
  assumes rel: "book_rel np pb F L bk"
    and f: "\<And>o'. o_prev (f o') = o_prev o' \<and> o_next (f o') = o_next o' \<and> o_next_free (f o') = o_next_free o' \<and> o_id (f o') = o_id o'"
    and sp: "i \<in> F \<or> (\<forall>o'. o_price (f o') = o_price o' \<and> o_side (f o') = o_side o')"
  shows "book_rel np pb F L (upd_ord i f bk)"
proof -
  note R = book_relD [OF rel]
  let ?bk = "upd_ord i f bk"
  have l: "lvl sd ?bk p = lvl sd bk p" for sd p by (simp add: lvl_def split: option.split)
  have "parts_ok np pb ?bk" using R(1) by (simp add: parts_ok_def)
  moreover have "pool_rel F L ?bk" using R(2) f pool_ok_upd [of _ "bk_pool bk" f i] by (auto simp: pool_rel_def upd_ord_def)
  moreover have "place_rel np pb F L ?bk" using R(3) sp by (auto simp: place_rel_def)
  moreover have "levels_rel np pb L ?bk"
  proof -
    have "lseg (ord ?bk) q h xs t n = lseg (ord bk) q h xs t n" for q h xs t n using f by (intro lseg_frame) simp
    then show ?thesis using R(4) by (simp add: levels_rel_def l level_rel_def)
  qed
  moreover have "id_rel F L ?bk"
  proof -
    have "o_id (ord ?bk x) = o_id (ord bk x)" for x using f by simp
    then show ?thesis using R(5) unfolding id_rel_def by simp
  qed
  ultimately show ?thesis by (simp add: book_rel_def)
qed

section \<open>Creating a partition\<close>

lemma get_or_create_None:
  assumes "parts_ok np pb bk"
  shows "get_or_create_partition sd k bk = None \<longleftrightarrow> np \<le> k \<or> act sd bk k = None \<and> pp_free (bk_parts bk) = []"
  using parts_okD(3) [OF assms, of sd] parts_okD(5) [OF assms, of sd k]
  by (auto simp: get_or_create_partition_def pp_allocate_def Let_def split: option.split list.split)

lemma get_or_create_old:
  assumes "parts_ok np pb bk" and "act sd bk k = Some pi"
  shows "get_or_create_partition sd k bk = Some (bk, pi)"
  using parts_okD(3) [OF assms(1), of sd] parts_okD(5) [OF assms] assms(2) by (simp add: get_or_create_partition_def)

lemma get_or_create_keeps:
  assumes "get_or_create_partition sd k bk = Some (bk', pi)"
  shows "bk_pool bk' = bk_pool bk" and "bk_ids bk' = bk_ids bk" and "act sd bk' k = Some pi"
    and "sd' \<noteq> sd \<or> k' \<noteq> k \<Longrightarrow> act sd' bk' k' = act sd' bk k'"
    and "st_best (get_store sd' bk') = st_best (get_store sd' bk)" and "st_has_best (get_store sd' bk') = st_has_best (get_store sd' bk)"
  using assms by (auto simp: get_or_create_partition_def Let_def split: if_splits option.splits)

lemma get_or_create_rel:
  assumes rel: "book_rel np pb F L bk" and g: "get_or_create_partition sd k bk = Some (bk', pi)"
  shows "book_rel np pb F L bk'" and "totals_rel np pb L (\<lambda>_ _. 0) bk \<Longrightarrow> totals_rel np pb L (\<lambda>_ _. 0) bk'"
proof -
  note R = book_relD [OF rel] and K = get_or_create_keeps [OF g]
  note P = parts_okD [OF R(1)]
  have "book_rel np pb F L bk' \<and> (totals_rel np pb L (\<lambda>_ _. 0) bk \<longrightarrow> totals_rel np pb L (\<lambda>_ _. 0) bk')"
  proof (cases "act sd bk k")
    case (Some pi')
    then show ?thesis using g rel get_or_create_old [OF R(1) Some] by simp
  next
    case None
    let ?st = "get_store sd bk" and ?p0 = "initialize_for_partid (2 ^ pb) k (part bk pi)"
    from g None obtain rest where k: "k < np" and free: "pp_free (bk_parts bk) = pi # rest" and
      bk': "bk' = set_store sd (?st\<lparr>st_active := (act sd bk)(k := Some pi), st_bitmap := bm_set k (st_bitmap ?st)\<rparr>)
        (bk\<lparr>bk_parts := (bk_parts bk)\<lparr>pp_free := rest, pp_parts := (part bk)(pi := ?p0)\<rparr>\<rparr>)"
      by (auto simp: get_or_create_partition_def pp_allocate_def Let_def P(2,3) split: if_splits option.splits list.splits)
    have store: "get_store sd' bk' = (if sd' = sd then ?st\<lparr>st_active := (act sd bk)(k := Some pi), st_bitmap := bm_set k (st_bitmap ?st)\<rparr>
        else get_store sd' bk)" for sd' by (simp add: bk')
    have parts: "part bk' = (part bk)(pi := ?p0)" "pp_free (bk_parts bk') = rest" "pp_size (bk_parts bk') = 2 ^ pb"
      by (simp_all add: bk' P(2))
    have unused: "act sd' bk k' \<noteq> Some pi" for sd' k' using P(6) [of sd' k' pi] free by auto
    have act': "act sd' bk' k' = (if sd' = sd \<and> k' = k then Some pi else act sd' bk k')" for sd' k' by (simp add: store)
    have lv: "lvl sd' bk' p = (if sd' = sd \<and> partition_id pb p = k then Some (pt_levels ?p0 (offset_in_partition pb p)) else lvl sd' bk p)"
      for sd' p
      using unused by (auto simp: lvl_def act' parts store P(4) split: option.split)
    have empty: "L sd p = []" if "partition_id pb p = k" for p
      using place_relD(3) [OF R(3), of _ sd p] that None by (cases "L sd p") auto
    have "parts_ok np pb bk'"
      unfolding parts_ok_def
    proof (intro conjI allI impI)
      show "np \<le> 2 ^ 32" "pp_size (bk_parts bk') = 2 ^ pb" "distinct (pp_free (bk_parts bk'))"
        using P(1,12) free by (simp_all add: parts)
      fix sd' show "st_num_partitions (get_store sd' bk') = np" "st_partition_bits (get_store sd' bk') = pb"
        "length (st_bitmap (get_store sd' bk')) = (np + 63) div 64" by (simp_all add: store P(3,4,11))
      fix k' show "bm_bit (st_bitmap (get_store sd' bk')) k' \<longleftrightarrow> act sd' bk' k' \<noteq> None"
        using word_index [OF k] by (auto simp: store P(10,11) bm_bit_set)
      fix pi' show "k' < np" "pi' \<notin> set (pp_free (bk_parts bk'))" if "act sd' bk' k' = Some pi'"
        using that k P(5) [of sd' k' pi'] P(6) [of sd' k' pi'] P(12) free by (auto simp: act' parts split: if_splits)
      fix sd'' k'' assume a: "act sd' bk' k' = Some pi'" "act sd'' bk' k'' = Some pi'"
      show "sd' = sd''" "k' = k''"
        using a unused P(7) [of sd' k' pi' sd'' k''] by (auto simp: act' split: if_splits)
    next
      fix pi' show "length (pt_bitmap (part bk' pi')) = (2 ^ pb + 63) div 64"
        by (simp add: parts initialize_for_partid_def P(8))
      fix sd' k' and n :: nat assume "act sd' bk' k' = Some pi'" "n < 2 ^ pb"
      then show "pl_price (pt_levels (part bk' pi') n) = int (k' * 2 ^ pb + n)"
        using P(9) [of sd' k' pi' n] unused by (auto simp: act' parts initialize_for_partid_def split: if_splits)
    qed
    moreover have "place_rel np pb F L bk'" using R(3) unfolding place_rel_def K(1) act' by (metis option.distinct(1))
    moreover have "levels_rel np pb L bk'"
      unfolding levels_rel_def
    proof (intro conjI allI impI)
      fix sd' p pl assume "price_ok np pb p" "lvl sd' bk' p = Some pl"
      then show "level_rel (ord bk') (L sd' p) pl"
        using R(4) empty by (auto simp: lv levels_rel_def level_rel_def K(1) initialize_for_partid_def split: if_splits)
    next
      fix sd' k' pi' n assume a: "act sd' bk' k' = Some pi'"
      have z: "\<not> bm_bit (map (\<lambda>_. 0) ws) n" for ws :: "u64 list" by (simp add: bm_bit_def)
      show "bm_bit (pt_bitmap (part bk' pi')) n \<longleftrightarrow> n < 2 ^ pb \<and> L sd' (int (k' * 2 ^ pb + n)) \<noteq> []"
      proof (cases "sd' = sd \<and> k' = k")
        case True
        then have "n < 2 ^ pb \<Longrightarrow> L sd' (int (k' * 2 ^ pb + n)) = []" using empty partition_id_of(2) [OF k _ P(1)] by simp
        then show ?thesis using True a z by (auto simp: act' parts initialize_for_partid_def)
      next
        case False
        then show ?thesis using a unused R(4) by (auto simp: act' parts levels_rel_def)
      qed
    qed
    ultimately have "book_rel np pb F L bk'" using R(2,5) by (simp add: book_rel_def pool_rel_def id_rel_def K)
    moreover have "totals_rel np pb L (\<lambda>_ _. 0) bk'" if "totals_rel np pb L (\<lambda>_ _. 0) bk"
      using that empty by (auto simp: totals_rel_def lv queue_qty_def K(1) initialize_for_partid_def)
    ultimately show ?thesis by blast
  qed
  then show "book_rel np pb F L bk'" "totals_rel np pb L (\<lambda>_ _. 0) bk \<Longrightarrow> totals_rel np pb L (\<lambda>_ _. 0) bk'" by auto
qed

section \<open>Reserving and giving back a slot\<close>

lemma id_room:
  assumes "book_rel np pb F L bk"
  shows "card (dom (id_map (bk_ids bk))) < im_capacity (bk_ids bk)"
proof -
  note R = book_relD [OF assms]
  let ?m = "id_map (bk_ids bk)" and ?c = "op_capacity (bk_pool bk)"
  have m: "?m k = Some i \<Longrightarrow> i < ?c \<and> o_id (ord bk i) = k" for k i
    using R(2,5) unfolding pool_rel_def id_rel_def by blast
  have "inj_on (\<lambda>k. the (?m k)) (dom ?m)" using m by (intro inj_onI) (metis domD option.sel)
  moreover have "(\<lambda>k. the (?m k)) ` dom ?m \<subseteq> {..<?c}" using m by auto
  ultimately have "card (dom ?m) \<le> card {..<?c}" by (rule card_inj_on_le) simp
  then show ?thesis using R(5) by (simp add: id_rel_def)
qed

text \<open>Reserving a slot, entering the id and filling in the order.\<close>

lemma reserve_rel:
  assumes rel: "book_rel np pb F L bk" and k: "valid_id k" and new: "id_map (bk_ids bk) k = None"
    and al: "op_allocate (bk_pool bk) = (pool, Some i)"
    and f: "\<And>o'. o_id (f o') = k \<and> o_next_free (f o') = o_next_free o'"
  defines "bk' \<equiv> upd_ord i f (bk\<lparr>bk_pool := pool, bk_ids := fst (id_insert (bk_ids bk) k i)\<rparr>)"
  shows "snd (id_insert (bk_ids bk) k i)" and "book_rel np pb (insert i F) L bk'" and "i \<notin> F" and "\<not> resting L i"
    and "totals_rel np pb L d bk \<Longrightarrow> totals_rel np pb L d bk'"
proof -
  note R = book_relD [OF rel]
  have ids: "id_ok (bk_ids bk)" using R(5) by (simp add: id_rel_def)
  show ins: "snd (id_insert (bk_ids bk) k i)" using id_insert_room [OF ids k new id_room [OF rel]] .
  note I = id_insert_facts [OF ids k new, of i]
  obtain fs where fs: "pool_ok fs (bk_pool bk)" "\<And>i. i < op_capacity (bk_pool bk) \<and> i \<notin> set fs \<longleftrightarrow> i \<in> F \<or> resting L i"
    using R(2) by (auto simp: pool_rel_def)
  obtain fs' where fs': "fs = i # fs'" using allocate_facts [OF fs(1)] al by (cases fs) auto
  note A = allocate_facts(2) [OF fs(1) fs', unfolded al, simplified]
  show free: "i \<notin> F" "\<not> resting L i" using fs(2) [of i] fs' by auto
  have not: "x \<noteq> i" if "x \<in> set (L sd p)" for x sd p using free that by (auto simp: resting_def)
  have os: "x \<noteq> i \<Longrightarrow> ord bk' x = ord bk x" for x using A by (simp add: bk'_def)
  have oid: "o_id (ord bk' i) = k" using f by (simp add: bk'_def)
  have store: "get_store sd bk' = get_store sd bk" and parts: "bk_parts bk' = bk_parts bk" for sd
    by (simp_all add: bk'_def)
  have l: "lvl sd bk' p = lvl sd bk p" for sd p by (simp add: lvl_def store parts split: option.split)
  have cap: "op_capacity (bk_pool bk') = op_capacity (bk_pool bk)" using A by (simp add: bk'_def)
  have ifr: "i < op_capacity (bk_pool bk)" "i \<notin> set fs'" using fs(1) fs' by (auto simp: pool_ok_def)
  have "pool_ok fs' (bk_pool bk')" using A f by (auto simp: bk'_def upd_ord_def intro: pool_ok_upd)
  moreover have "i' < op_capacity (bk_pool bk) \<and> i' \<notin> set fs' \<longleftrightarrow> i' \<in> insert i F \<or> resting L i'" for i'
    using fs(2) [of i'] ifr fs' by auto
  ultimately have "pool_rel (insert i F) L bk'" unfolding pool_rel_def cap by blast
  moreover have "parts_ok np pb bk'" using R(1) by (simp add: parts_ok_def store parts)
  moreover have "place_rel np pb (insert i F) L bk'" using R(3) not os by (simp add: place_rel_def store)
  moreover have "levels_rel np pb L bk'"
  proof -
    have "lseg (ord bk') q h (L sd p) t n = lseg (ord bk) q h (L sd p) t n" for q h t n sd p
      using os not by (intro lseg_frame) metis
    then show ?thesis using R(4) by (simp add: levels_rel_def level_rel_def l store parts)
  qed
  moreover have "id_rel (insert i F) L bk'"
  proof -
    have "bk_ids bk' = fst (id_insert (bk_ids bk) k i)" by (simp add: bk'_def)
    moreover have "(x \<in> F \<or> resting L x) \<Longrightarrow> x \<noteq> i \<and> o_id (ord bk' x) = o_id (ord bk x)" for x using free os by metis
    moreover have "(x \<in> F \<or> resting L x) \<Longrightarrow> o_id (ord bk x) \<noteq> k" for x using R(5) new unfolding id_rel_def by (metis option.distinct(1))
    ultimately show ?thesis using R(5) I(2) I(3) [OF ins] I(5) oid k unfolding id_rel_def cap by auto
  qed
  ultimately show "book_rel np pb (insert i F) L bk'" by (simp add: book_rel_def)
  have "queue_qty bk' (L sd p) = queue_qty bk (L sd p)" for sd p
    unfolding queue_qty_def using os not by (intro arg_cong [of _ _ sum_list] map_cong refl) metis
  then show "totals_rel np pb L d bk \<Longrightarrow> totals_rel np pb L d bk'" by (simp add: totals_rel_def l)
qed

lemma give_back_rel:
  assumes rel: "book_rel np pb (insert i F) L bk" and i: "i \<notin> F" "\<not> resting L i" and k: "o_id (ord bk i) = k"
  defines "bk' \<equiv> bk\<lparr>bk_ids := fst (id_remove (bk_ids bk) k), bk_pool := op_release i (bk_pool bk)\<rparr>"
  shows "book_rel np pb F L bk'" and "totals_rel np pb L d bk \<Longrightarrow> totals_rel np pb L d bk'"
    and "o_qty (ord bk' x) = o_qty (ord bk x)" and "o_filled (ord bk' x) = o_filled (ord bk x)" and "o_id (ord bk' x) = o_id (ord bk x)"
proof -
  note R = book_relD [OF rel]
  have ids: "id_ok (bk_ids bk)" and vk: "valid_id k" using R(5) k by (auto simp: id_rel_def)
  note I = id_remove_facts [OF ids vk]
  obtain fs where fs: "pool_ok fs (bk_pool bk)" "\<And>x. x < op_capacity (bk_pool bk) \<and> x \<notin> set fs \<longleftrightarrow> x \<in> insert i F \<or> resting L x"
    using R(2) by (auto simp: pool_rel_def)
  have ic: "i < op_capacity (bk_pool bk)" "i \<notin> set fs" using fs(2) [of i] by auto
  note A = release_facts [OF fs(1) ic]
  have os: "ord bk' = (ord bk)(i := (ord bk i)\<lparr>o_next_free := op_free_head (bk_pool bk)\<rparr>)" using A(3) by (simp add: bk'_def)
  then have keep: "o_prev (ord bk' x) = o_prev (ord bk x)" "o_next (ord bk' x) = o_next (ord bk x)" "o_id (ord bk' x) = o_id (ord bk x)"
    "o_price (ord bk' x) = o_price (ord bk x)" "o_side (ord bk' x) = o_side (ord bk x)" "o_qty (ord bk' x) = o_qty (ord bk x)"
    "o_filled (ord bk' x) = o_filled (ord bk x)" for x by simp_all
  show "o_qty (ord bk' x) = o_qty (ord bk x)" "o_filled (ord bk' x) = o_filled (ord bk x)" "o_id (ord bk' x) = o_id (ord bk x)"
    by (rule keep)+
  have store: "get_store sd bk' = get_store sd bk" and parts: "bk_parts bk' = bk_parts bk" for sd by (simp_all add: bk'_def)
  have l: "lvl sd bk' p = lvl sd bk p" for sd p by (simp add: lvl_def store parts split: option.split)
  have cap: "op_capacity (bk_pool bk') = op_capacity (bk_pool bk)" using A(2) by (simp add: bk'_def)
  have "x < op_capacity (bk_pool bk) \<and> x \<notin> set (i # fs) \<longleftrightarrow> x \<in> F \<or> resting L x" for x
    using fs(2) [of x] i by auto
  then have "pool_rel F L bk'" using A(1) unfolding pool_rel_def cap by (intro exI [of _ "i # fs"]) (simp add: bk'_def)
  moreover have "parts_ok np pb bk'" using R(1) by (simp add: parts_ok_def store parts)
  moreover have "place_rel np pb F L bk'" using R(3) by (simp add: place_rel_def store keep)
  moreover have "levels_rel np pb L bk'"
  proof -
    have "lseg (ord bk') q h xs t n = lseg (ord bk) q h xs t n" for q h xs t n by (intro lseg_frame) (simp add: keep)
    then show ?thesis using R(4) by (simp add: levels_rel_def level_rel_def l store parts)
  qed
  moreover have "id_rel F L bk'"
  proof -
    have "bk_ids bk' = fst (id_remove (bk_ids bk) k)" by (simp add: bk'_def)
    moreover have "(x \<in> insert i F \<or> resting L x) \<Longrightarrow> o_id (ord bk x) = k \<Longrightarrow> x = i" for x
      using R(5) k unfolding id_rel_def by (metis insertI1 option.inject)
    ultimately show ?thesis using R(5) I(2,3,4) i k unfolding id_rel_def cap by (auto simp: keep)
  qed
  ultimately show "book_rel np pb F L bk'" by (simp add: book_rel_def)
  show "totals_rel np pb L d bk \<Longrightarrow> totals_rel np pb L d bk'" by (simp add: totals_rel_def l queue_qty_def keep)
qed

end
