(* ===== verification/Book_Ops.thy ===== *)
theory Book_Ops
  imports Book_Refinement
begin

text \<open>
  The operations of the price level store and of the order book on the queues of resting orders, and the refinement of the
  abstract book: for each side and price a list of entries (id, remaining quantity, filled quantity), oldest first.
\<close>

section \<open>Price level store\<close>

definition order_data :: "order \<Rightarrow> order_id \<times> side \<times> quantity \<times> quantity" where
  "order_data o' = (o_id o', o_side o', o_qty o', o_filled o')"

definition same_data :: "order_book \<Rightarrow> order_book \<Rightarrow> bool" where
  "same_data bk bk' \<longleftrightarrow> (\<forall>x. order_data (ord bk' x) = order_data (ord bk x))"

lemma same_data_simps:
  assumes "same_data bk bk'"
  shows "o_id (ord bk' x) = o_id (ord bk x)" and "o_side (ord bk' x) = o_side (ord bk x)" and "o_qty (ord bk' x) = o_qty (ord bk x)"
    and "o_filled (ord bk' x) = o_filled (ord bk x)"
  using assms by (simp_all add: same_data_def order_data_def)

lemma same_data_trans: "same_data a b \<Longrightarrow> same_data b c \<Longrightarrow> same_data a c"
  by (simp add: same_data_def)

lemma same_data_steps [simp]:
  "same_data bk bk" "same_data bk (link_order sd i pi bk)" "same_data bk (unlink_order sd i pi bk)" "same_data bk (set_price i p bk)"
  by (simp_all add: same_data_def order_data_def link_order_eqs unlink_order_eqs linked_fields unlinked_fields)

lemma same_queues_data: "same_queues bk bk' \<Longrightarrow> same_data bk bk'"
  by (simp add: same_data_def same_queues_def)

lemma pls_insert_rel:
  assumes rel: "book_rel np pb F L bk" and i: "i \<in> F" and sd: "o_side (ord bk i) = sd" and p: "o_price (ord bk i) = p"
    and ok: "price_ok np pb p"
  shows "pls_insert_order sd i bk = None \<longleftrightarrow> act sd bk (partition_id pb p) = None \<and> pp_free (bk_parts bk) = []"
    and "pls_insert_order sd i bk = Some bk' \<Longrightarrow> book_rel np pb (F - {i}) (put sd p (L sd p @ [i]) L) bk' \<and>
      (totals_rel np pb L (\<lambda>_ _. 0) bk \<longrightarrow> totals_rel np pb (put sd p (L sd p @ [i]) L) (\<lambda>_ _. 0) bk') \<and> same_data bk bk'"
proof -
  note R = book_relD [OF rel]
  have pid: "pid sd bk p = partition_id pb p" by (simp add: parts_okD(4) [OF R(1)])
  have lt: "partition_id pb p < np" using partition_id_facts(1) [OF ok parts_okD(1) [OF R(1)]] .
  show "pls_insert_order sd i bk = None \<longleftrightarrow> act sd bk (partition_id pb p) = None \<and> pp_free (bk_parts bk) = []"
    using get_or_create_None [OF R(1), of sd "partition_id pb p"] lt by (auto simp: pls_insert_order_def p pid split: option.splits)
  assume ins: "pls_insert_order sd i bk = Some bk'"
  then obtain bk1 pi where g: "get_or_create_partition sd (partition_id pb p) bk = Some (bk1, pi)"
    and bk': "bk' = upd_part pi (try_update_best sd p) (try_update_global_best sd p (link_order sd i pi bk1))"
    by (auto simp: pls_insert_order_def p pid split: option.splits)
  note G = get_or_create_rel [OF rel g] and K = get_or_create_keeps [OF g]
  have same: "same_queues (link_order sd i pi bk1) bk'" unfolding bk' by (rule same_queues_trans) (rule same_queues_best)+
  note S = same_queues_rel [OF same]
  note A = link_rel [OF G(1) i _ _ ok K(3), unfolded K(1), OF sd p]
  have "same_data bk bk1" by (simp add: same_data_def K(1))
  then have "same_data bk bk'"
    using same_data_trans same_data_steps(2) same_queues_data [OF same] by blast
  then show "book_rel np pb (F - {i}) (put sd p (L sd p @ [i]) L) bk' \<and>
      (totals_rel np pb L (\<lambda>_ _. 0) bk \<longrightarrow> totals_rel np pb (put sd p (L sd p @ [i]) L) (\<lambda>_ _. 0) bk') \<and> same_data bk bk'"
    using A(1) A(2) [OF G(2)] unfolding S by blast
qed

lemma pls_remove_rel:
  assumes rel: "book_rel np pb F L bk" and i: "i \<in> set (L sd p)"
  obtains bk' where "pls_remove_order sd i bk = Some bk'"
    and "book_rel np pb (insert i F) (put sd p (remove1 i (L sd p)) L) bk'" and "same_data bk bk'"
    and "\<And>d. totals_rel np pb L d bk \<Longrightarrow> totals_rel np pb (put sd p (remove1 i (L sd p)) L) d bk'"
proof -
  note R = book_relD [OF rel]
  have p: "o_price (ord bk i) = p" and ok: "price_ok np pb p" using place_relD(2,5) [OF R(3) i] by auto
  obtain pi where a: "act sd bk (partition_id pb p) = Some pi" using place_relD(3) [OF R(3) i] by auto
  have gp: "get_partition sd (pid sd bk p) bk = Some pi"
    using a parts_okD(3,4) [OF R(1)] partition_id_facts(1) [OF ok parts_okD(1) [OF R(1)]] by (simp add: get_partition_def)
  obtain bk1 changed where u: "unlink_order_and_update_partition sd i pi bk = (bk1, changed)" by fastforce
  have s1: "same_queues (unlink_order sd i pi bk) bk1"
    using u by (auto simp: unlink_order_and_update_partition_def Let_def split: if_splits)
  let ?b = "st_has_best (get_store sd bk1) \<and> st_best (get_store sd bk1) = o_price (ord bk1 i) \<and> changed"
  let ?bk = "if ?b then recompute_global_best sd bk1 else bk1"
  have same: "same_queues (unlink_order sd i pi bk) ?bk" using s1 same_queues_trans [OF s1 same_queues_best(3)] by simp
  note S = same_queues_rel [OF same] and A = unlink_rel [OF rel i a]
  show ?thesis
  proof (rule that)
    show "pls_remove_order sd i bk = Some ?bk" by (simp add: pls_remove_order_def p gp u Let_def)
    show "book_rel np pb (insert i F) (put sd p (remove1 i (L sd p)) L) ?bk" using A(1) unfolding S(1) .
    show "same_data bk ?bk" using same_data_trans [OF same_data_steps(3) same_queues_data [OF same]] .
    show "totals_rel np pb L d bk \<Longrightarrow> totals_rel np pb (put sd p (remove1 i (L sd p)) L) d ?bk" for d
      using A(2) unfolding S(2) .
  qed
qed

section \<open>Moving an order to another price\<close>

definition moved :: "side \<Rightarrow> nat \<Rightarrow> price \<Rightarrow> price \<Rightarrow> queues \<Rightarrow> queues" where
  "moved sd i p q L = put sd q (L sd q @ [i]) (put sd p (remove1 i (L sd p)) L)"

lemma set_price_totals: "totals_rel np pb L d (set_price i q bk) = totals_rel np pb L d bk"
proof -
  have "lvl sd (set_price i q bk) p = lvl sd bk p" for sd p by (simp add: lvl_def split: option.split)
  moreover have "o_qty (ord (set_price i q bk) x) = o_qty (ord bk x)" for x by simp
  ultimately show ?thesis unfolding totals_rel_def queue_qty_def by (simp only:)
qed

lemma set_price_rel:
  "book_rel np pb F L bk \<Longrightarrow> i \<in> F \<Longrightarrow> book_rel np pb F L (set_price i q bk)"
  by (rule ord_update_rel) auto

text \<open>Unlink, change the price, link: the common part of all ways to reprice.\<close>

lemma relink_rel:
  assumes rel: "book_rel np pb F L bk" and i: "i \<in> set (L sd p)" and q: "price_ok np pb q" "q \<noteq> p"
    and a: "act sd bk (partition_id pb p) = Some pi" and b: "act sd bk (partition_id pb q) = Some pj"
  defines "bk' \<equiv> link_order sd i pj (set_price i q (unlink_order sd i pi bk))"
  shows "book_rel np pb F (moved sd i p q L) bk'" and "same_data bk bk'"
    and "totals_rel np pb L d bk \<Longrightarrow> totals_rel np pb (moved sd i p q L) d bk'"
proof -
  note R = book_relD [OF rel]
  let ?L = "put sd p (remove1 i (L sd p)) L" and ?bk1 = "unlink_order sd i pi bk"
  note U = unlink_rel [OF rel i a]
  have sp: "book_rel np pb (insert i F) ?L (set_price i q ?bk1)" using set_price_rel [OF U(1)] by simp
  have side: "o_side (ord (set_price i q ?bk1) i) = sd"
    using place_relD(4) [OF R(3) i] by (simp add: unlink_order_eqs unlinked_fields)
  have b': "act sd (set_price i q ?bk1) (partition_id pb q) = Some pj" using b by (simp add: unlink_order_eqs)
  note K = link_rel [OF sp _ side _ q(1) b', simplified]
  have F: "F - {i} = F" using place_relD(6) [OF R(3) i] by simp
  show "book_rel np pb F (moved sd i p q L) bk'" using K(1) q(2) unfolding moved_def bk'_def F by simp
  show "totals_rel np pb L d bk \<Longrightarrow> totals_rel np pb (moved sd i p q L) d bk'"
    using K(2) [of d] U(2) [of d] q(2) unfolding moved_def bk'_def set_price_totals by simp
  show "same_data bk bk'" 
    unfolding bk'_def by (rule same_data_trans [OF same_data_steps(3) same_data_trans [OF same_data_steps(4) same_data_steps(2)]])
qed

lemma pls_remove_keeps:
  assumes "pls_remove_order sd i bk = Some bk'"
  shows "act sd' bk' = act sd' bk" and "pp_free (bk_parts bk') = pp_free (bk_parts bk)"
proof -
  from assms obtain pi bk1 c where u: "unlink_order_and_update_partition sd i pi bk = (bk1, c)"
    and bk': "bk' = bk1 \<or> bk' = recompute_global_best sd bk1"
    by (auto simp: pls_remove_order_def Let_def split: option.splits prod.splits if_splits)
  have "same_queues (unlink_order sd i pi bk) bk1"
    using u by (auto simp: unlink_order_and_update_partition_def Let_def split: if_splits)
  then have "same_queues (unlink_order sd i pi bk) bk'" using bk' same_queues_trans same_queues_best(3) by blast
  then show "act sd' bk' = act sd' bk" "pp_free (bk_parts bk') = pp_free (bk_parts bk)"
    by (simp_all add: same_queues_def unlink_order_eqs)
qed

text \<open>What the three shortcuts do when they apply.\<close>

lemma flashstrike_cases:
  assumes rel: "book_rel np pb F L bk" and i: "i \<in> set (L sd p)" and a: "act sd bk (partition_id pb p) = Some pi"
    and q: "price_ok np pb q"
  shows "(case try_to_reprice_order_by_flashstrike sd i q bk of
      None \<Rightarrow> act sd bk (partition_id pb q) = None \<and> pp_free (bk_parts bk) = []
    | Some (bk', False) \<Rightarrow> bk' = bk
    | Some (bk', True) \<Rightarrow> \<exists>bk1 pj. get_or_create_partition sd (partition_id pb q) bk = Some (bk1, pj) \<and>
        same_queues (link_order sd i pj (set_price i q (unlink_order sd i pi bk1))) bk')"
proof -
  note R = book_relD [OF rel]
  have p: "o_price (ord bk i) = p" and ok: "price_ok np pb p" using place_relD(2,5) [OF R(3) i] by auto
  note P = parts_okD [OF R(1)] and lt = partition_id_facts(1) [OF _ parts_okD(1) [OF R(1)]]
  have gp: "get_partition sd (partition_id pb p) bk = Some pi" using a P(3) lt [OF ok] by (simp add: get_partition_def)
  show ?thesis
  proof (cases "partition_id pb p = partition_id pb q")
    case True
    have "get_or_create_partition sd (partition_id pb q) bk = Some (bk, pi)" using get_or_create_old [OF R(1)] a True by simp
    moreover have "same_queues b (set_store sd ((get_store sd b)\<lparr>st_best := q\<rparr>) b)" "same_queues b b" for b by simp_all
    ultimately show ?thesis
      using True gp by (simp add: try_to_reprice_order_by_flashstrike_def p P(4) Let_def)
  next
    case False
    note B = same_queues_trans [OF same_queues_best(4,2)]
    show ?thesis
    proof (cases "p \<noteq> pt_best (part bk pi)")
      case True
      show ?thesis
      proof (cases "get_or_create_partition sd (partition_id pb q) bk")
        case None
        then have "act sd bk (partition_id pb q) = None \<and> pp_free (bk_parts bk) = []"
          using get_or_create_None [OF R(1), of sd] lt [OF q] by auto
        then show ?thesis using None True False gp by (simp add: try_to_reprice_order_by_flashstrike_def p P(4) Let_def)
      next
        case (Some r)
        then obtain bk1 pj where r: "r = (bk1, pj)" by force
        show ?thesis using Some r True False gp B by (simp add: try_to_reprice_order_by_flashstrike_def p P(4) Let_def)
      qed
    next
      case c: False
      then show ?thesis using False gp by (simp add: try_to_reprice_order_by_flashstrike_def p P(4) Let_def)
    qed
  qed
qed

lemma relink_created_rel:
  assumes rel: "book_rel np pb F L bk" and i: "i \<in> set (L sd p)" and a: "act sd bk (partition_id pb p) = Some pi"
    and q: "price_ok np pb q" "q \<noteq> p" and g: "get_or_create_partition sd (partition_id pb q) bk = Some (bk1, pj)"
    and same: "same_queues (link_order sd i pj (set_price i q (unlink_order sd i pi bk1))) bk'"
  shows "book_rel np pb F (moved sd i p q L) bk' \<and>
    (totals_rel np pb L (\<lambda>_ _. 0) bk \<longrightarrow> totals_rel np pb (moved sd i p q L) (\<lambda>_ _. 0) bk') \<and> same_data bk bk'"
proof -
  note G = get_or_create_rel [OF rel g] and K = get_or_create_keeps [OF g] and S = same_queues_rel [OF same]
  have a1: "act sd bk1 (partition_id pb p) = Some pi"
  proof (cases "partition_id pb q = partition_id pb p")
    case True
    then show ?thesis using g a get_or_create_old [OF book_relD(1) [OF rel] a] K(3) by simp
  qed (use a K(4) [of sd "partition_id pb p"] in auto)
  note M = relink_rel [OF G(1) i q a1 K(3)]
  have "same_data bk bk1" by (simp add: same_data_def K(1))
  then have "same_data bk bk'" using same_data_trans [OF same_data_trans [OF _ M(2)] same_queues_data [OF same]] by blast
  then show ?thesis using M(1) M(3) G(2) unfolding S by blast
qed

lemma pls_reprice_rel:
  assumes rel: "book_rel np pb F L bk" and i: "i \<in> set (L sd p)" and q: "price_ok np pb q" "q \<noteq> p"
  shows "pls_reprice_order sd i q bk = None \<longleftrightarrow> act sd bk (partition_id pb q) = None \<and> pp_free (bk_parts bk) = []"
    and "pls_reprice_order sd i q bk = Some bk' \<Longrightarrow> book_rel np pb F (moved sd i p q L) bk' \<and>
      (totals_rel np pb L (\<lambda>_ _. 0) bk \<longrightarrow> totals_rel np pb (moved sd i p q L) (\<lambda>_ _. 0) bk') \<and> same_data bk bk'"
proof -
  note R = book_relD [OF rel]
  let ?none = "act sd bk (partition_id pb q) = None \<and> pp_free (bk_parts bk) = []"
  let ?good = "\<lambda>bk'. book_rel np pb F (moved sd i p q L) bk' \<and>
      (totals_rel np pb L (\<lambda>_ _. 0) bk \<longrightarrow> totals_rel np pb (moved sd i p q L) (\<lambda>_ _. 0) bk') \<and> same_data bk bk'"
  obtain pi where a: "act sd bk (partition_id pb p) = Some pi" using place_relD(3) [OF R(3) i] by auto
  note C = flashstrike_cases [OF rel i a q(1)]
  have "(case pls_reprice_order sd i q bk of None \<Rightarrow> ?none | Some bk' \<Rightarrow> \<not> ?none \<and> ?good bk')"
  proof (cases "try_to_reprice_order_by_flashstrike sd i q bk")
    case None
    then show ?thesis using C by (simp add: pls_reprice_order_def)
  next
    case (Some r)
    obtain bk1 applied where r: "r = (bk1, applied)" by force
    show ?thesis
    proof (cases applied)
      case True
      then obtain bk2 pj where g: "get_or_create_partition sd (partition_id pb q) bk = Some (bk2, pj)"
        and same: "same_queues (link_order sd i pj (set_price i q (unlink_order sd i pi bk2))) bk1"
        using C Some r by auto
      have "\<not> ?none" using get_or_create_None [OF R(1), of sd "partition_id pb q"] g by auto
      then show ?thesis using relink_created_rel [OF rel i a q g same] Some r True by (simp add: pls_reprice_order_def)
    next
      case False
      then have bk1: "bk1 = bk" using C Some r by simp
      let ?L = "put sd p (remove1 i (L sd p)) L"
      obtain bk2 where rem: "pls_remove_order sd i bk = Some bk2" and rel2: "book_rel np pb (insert i F) ?L bk2"
        and data: "same_data bk bk2" and tot: "\<And>d. totals_rel np pb L d bk \<Longrightarrow> totals_rel np pb ?L d bk2"
        using pls_remove_rel [OF rel i] by metis
      let ?bk3 = "set_price i q bk2"
      have rel3: "book_rel np pb (insert i F) ?L ?bk3" using set_price_rel [OF rel2] by simp
      have sd3: "o_side (ord ?bk3 i) = sd" using place_relD(4) [OF R(3) i] same_data_simps(2) [OF data] by simp
      note I = pls_insert_rel [OF rel3 _ sd3 _ q(1), simplified]
      have F: "F - {i} = F" using place_relD(6) [OF R(3) i] by simp
      have eq: "pls_reprice_order sd i q bk = pls_insert_order sd i ?bk3"
        using Some r False bk1 rem by (simp add: pls_reprice_order_def)
      show ?thesis
      proof (cases "pls_insert_order sd i ?bk3")
        case None
        then show ?thesis using eq I(1) pls_remove_keeps [OF rem] by simp
      next
        case (Some bk')
        have "same_data bk bk'" using same_data_trans [OF data same_data_trans [OF same_data_steps(4)]] I(2) [OF Some] by blast
        then show ?thesis
          using eq Some I(1) I(2) [OF Some] pls_remove_keeps [OF rem] tot q(2) F by (simp add: set_price_totals moved_def)
      qed
    qed
  qed
  then show "pls_reprice_order sd i q bk = None \<longleftrightarrow> ?none" "pls_reprice_order sd i q bk = Some bk' \<Longrightarrow> ?good bk'"
    by (auto split: option.splits)
qed

section \<open>Quantities\<close>

definition dadd :: "side \<Rightarrow> price \<Rightarrow> quantity \<Rightarrow> (side \<Rightarrow> price \<Rightarrow> quantity) \<Rightarrow> side \<Rightarrow> price \<Rightarrow> quantity" where
  "dadd sd p x d = d(sd := (d sd)(p := d sd p + x))"

lemma dadd_apply [simp]: "dadd sd p x d sd' p' = (if sd' = sd \<and> p' = p then d sd p + x else d sd' p')"
  by (simp add: dadd_def)

lemma dadd_cancel [simp]: "dadd sd p x (dadd sd p y d) = dadd sd p (y + x) d" "dadd sd p 0 d = d"
  by (simp_all add: dadd_def add.assoc)

lemma put_same [simp]: "put sd p (L sd p) L = L"
  by (simp add: put_def)

lemma level_qty_update:
  assumes "parts_ok np pb bk" and "n = offset_in_partition pb p"
  shows "level_update pi n ((level bk (pi, n))\<lparr>pl_qty := x\<rparr>) (pt_bitmap (part bk pi)) bk
    (upd_level pi n (\<lambda>pl. pl\<lparr>pl_qty := x\<rparr>) bk)"
  by (simp add: level_update_def upd_level_def)

lemma level_qty_rel:
  fixes x :: quantity
  assumes rel: "book_rel np pb F L bk" and a: "act sd bk (partition_id pb p) = Some pi" and ok: "price_ok np pb p"
  defines "bk' \<equiv> upd_level pi (offset_in_partition pb p) (\<lambda>pl. pl\<lparr>pl_qty := pl_qty pl + x\<rparr>) bk"
  shows "book_rel np pb F L bk'" and "totals_rel np pb L d bk \<Longrightarrow> totals_rel np pb L (dadd sd p x d) bk'"
    and "bk_pool bk' = bk_pool bk" and "act sd' bk' = act sd' bk"
proof -
  note R = book_relD [OF rel]
  let ?n = "offset_in_partition pb p"
  let ?pl = "level bk (pi, ?n)"
  have eq: "bk' = upd_level pi ?n (\<lambda>pl. pl\<lparr>pl_qty := pl_qty ?pl + x\<rparr>) bk" by (simp add: bk'_def upd_level_def upd_part_def)
  note up = level_qty_update [OF R(1) refl, of pi p "pl_qty ?pl + x", folded eq]
  show pool: "bk_pool bk' = bk_pool bk" and act: "act sd' bk' = act sd' bk" for sd' by (simp_all add: bk'_def upd_level_def)
  have "levels_rel np pb (put sd p (L sd p) L) bk'"
  proof (rule levels_rel_update [OF R(1,4) ok a up])
    show "level_rel (ord bk') (L sd p) (?pl\<lparr>pl_qty := pl_qty ?pl + x\<rparr>)"
      using level_of(2) [OF rel a ok] by (simp add: level_rel_def pool)
    show "bm_bit (pt_bitmap (part bk pi)) n \<longleftrightarrow> (if n = ?n then L sd p \<noteq> [] else bm_bit (pt_bitmap (part bk pi)) n)" for n
      using R(4) a partition_id_facts [OF ok parts_okD(1) [OF R(1)]] by (simp add: levels_rel_def)
  qed (simp add: pool)
  then have "levels_rel np pb L bk'" by simp
  moreover have "bk_ids bk' = bk_ids bk" by (simp add: bk'_def upd_level_def)
  ultimately show "book_rel np pb F L bk'"
    using R level_update_parts_ok [OF R(1) up] by (simp add: book_rel_def pool_rel_def place_rel_def id_rel_def pool act)
  assume tot: "totals_rel np pb L d bk"
  then have "pl_qty ?pl = queue_qty bk (L sd p) + d sd p" using level_of(1) [OF rel a ok] ok by (simp add: totals_rel_def)
  then have "totals_rel np pb (put sd p (L sd p) L) (dadd sd p x d) bk'"
    by (intro totals_rel_update [OF R(1) tot ok a up]) (auto simp: queue_qty_def pool)
  then show "totals_rel np pb L (dadd sd p x d) bk'" by simp
qed

lemma order_qty_totals:
  assumes rel: "book_rel np pb F L bk" and i: "i \<in> set (L sd p)" and tot: "totals_rel np pb L d bk"
  shows "totals_rel np pb L (dadd sd p (o_qty (ord bk i) - o_qty (f (ord bk i))) d) (upd_ord i f bk)"
proof -
  note R = book_relD [OF rel]
  let ?bk = "upd_ord i f bk"
  have l: "lvl sd ?bk p = lvl sd bk p" for sd p by (simp add: lvl_def split: option.split)
  obtain xs ys where xy: "L sd p = xs @ i # ys" using i by (meson split_list)
  then have "i \<notin> set xs" "i \<notin> set ys" using place_relD(1) [OF R(3), of sd p] by auto
  then have "queue_qty ?bk xs = queue_qty bk xs" "queue_qty ?bk ys = queue_qty bk ys"
    unfolding queue_qty_def by (auto intro!: arg_cong [of _ _ sum_list])
  then have here: "queue_qty ?bk (L sd p) = queue_qty bk (L sd p) + (o_qty (f (ord bk i)) - o_qty (ord bk i))"
    by (simp add: xy queue_qty_def)
  have there: "queue_qty ?bk (L sd' p') = queue_qty bk (L sd' p')" if "(sd', p') \<noteq> (sd, p)" for sd' p'
  proof -
    have "i \<notin> set (L sd' p')" using queues_disjoint [OF R(3) i] that by blast
    then show ?thesis unfolding queue_qty_def by (auto intro!: arg_cong [of _ _ sum_list])
  qed
  show ?thesis
    unfolding totals_rel_def l
  proof (intro allI impI)
    fix sd' p' pl assume "price_ok np pb p'" "lvl sd' bk p' = Some pl"
    then have "pl_qty pl = queue_qty bk (L sd' p') + d sd' p'" using tot by (simp add: totals_rel_def)
    then show "pl_qty pl = queue_qty ?bk (L sd' p') + dadd sd p (o_qty (ord bk i) - o_qty (f (ord bk i))) d sd' p'"
      using here there [of sd' p'] by (cases "sd' = sd \<and> p' = p") auto
  qed
qed

lemma pls_resize_rel:
  assumes rel: "book_rel np pb F L bk" and i: "i \<in> set (L sd p)"
  obtains bk' where "pls_resize_order sd i q bk = Some bk'" and "book_rel np pb F L bk'"
    and "ord bk' = (ord bk)(i := (ord bk i)\<lparr>o_qty := q\<rparr>)"
    and "\<And>d. totals_rel np pb L d bk \<Longrightarrow> totals_rel np pb L d bk'"
proof -
  note R = book_relD [OF rel]
  have p: "o_price (ord bk i) = p" and ok: "price_ok np pb p" using place_relD(2,5) [OF R(3) i] by auto
  obtain pi where a: "act sd bk (partition_id pb p) = Some pi" using place_relD(3) [OF R(3) i] by auto
  note P = parts_okD [OF R(1)]
  have gp: "get_partition sd (partition_id pb p) bk = Some pi"
    using a P(3) partition_id_facts(1) [OF ok P(1)] by (simp add: get_partition_def)
  let ?bk1 = "upd_level pi (offset_in_partition pb p) (\<lambda>pl. pl\<lparr>pl_qty := pl_qty pl + (q - o_qty (ord bk i))\<rparr>) bk"
  let ?bk = "upd_ord i (\<lambda>o'. o'\<lparr>o_qty := q\<rparr>) ?bk1"
  note V = level_qty_rel [OF rel a ok, where x = "q - o_qty (ord bk i)"]
  show ?thesis
  proof (rule that)
    show "pls_resize_order sd i q bk = Some ?bk" by (simp add: pls_resize_order_def p P(4) gp)
    show "book_rel np pb F L ?bk" by (rule ord_update_rel [OF V(1)]) auto
    show "ord ?bk = (ord bk)(i := (ord bk i)\<lparr>o_qty := q\<rparr>)" by (simp add: V(3))
    show "totals_rel np pb L d ?bk" if "totals_rel np pb L d bk" for d
      using order_qty_totals [OF V(1) i V(2) [OF that], of "\<lambda>o'. o'\<lparr>o_qty := q\<rparr>"] by (simp add: V(3))
  qed
qed

section \<open>The abstract book\<close>

type_synonym entry = "order_id \<times> quantity \<times> quantity"
type_synonym abook = "side \<Rightarrow> price \<Rightarrow> entry list"

definition spec_insert :: "side \<Rightarrow> price \<Rightarrow> entry \<Rightarrow> abook \<Rightarrow> abook" where
  "spec_insert sd p e B = B(sd := (B sd)(p := B sd p @ [e]))"

definition spec_remove :: "order_id \<Rightarrow> abook \<Rightarrow> abook" where
  "spec_remove k B = (\<lambda>sd p. filter (\<lambda>e. fst e \<noteq> k) (B sd p))"

definition spec_resize :: "order_id \<Rightarrow> quantity \<Rightarrow> abook \<Rightarrow> abook" where
  "spec_resize k q B = (\<lambda>sd p. map (\<lambda>e. if fst e = k then (k, q, snd (snd e)) else e) (B sd p))"

text \<open>An order that changes its price loses its place and joins the tail of the new queue.\<close>

definition spec_reprice :: "side \<Rightarrow> price \<Rightarrow> entry \<Rightarrow> abook \<Rightarrow> abook" where
  "spec_reprice sd q e B = spec_insert sd q e (spec_remove (fst e) B)"

definition entry_of :: "order_book \<Rightarrow> nat \<Rightarrow> entry" where
  "entry_of bk i = (o_id (ord bk i), o_qty (ord bk i), o_filled (ord bk i))"

definition view :: "queues \<Rightarrow> order_book \<Rightarrow> abook" where
  "view L bk = (\<lambda>sd p. map (entry_of bk) (L sd p))"

text \<open>The concrete book represents the abstract one, for \<open>np\<close> partitions of \<open>2 ^ pb\<close> prices.\<close>

definition represents :: "nat \<Rightarrow> nat \<Rightarrow> abook \<Rightarrow> order_book \<Rightarrow> bool" where
  "represents np pb B bk \<longleftrightarrow> (\<exists>L. book_rel np pb {} L bk \<and> totals_rel np pb L (\<lambda>_ _. 0) bk \<and> B = view L bk)"

definition has_id :: "abook \<Rightarrow> order_id \<Rightarrow> bool" where
  "has_id B k \<longleftrightarrow> (\<exists>sd p. k \<in> fst ` set (B sd p))"

lemma view_data: "same_data bk bk' \<Longrightarrow> view L bk' = view L bk"
  by (simp add: view_def entry_of_def same_data_simps cong: map_cong)

lemma id_of_index:
  assumes rel: "book_rel np pb F L bk" and "i \<in> set (L sd p)" and "x \<in> set (L sd' p')"
  shows "o_id (ord bk x) = o_id (ord bk i) \<longleftrightarrow> x = i"
  using book_relD(5) [OF rel] assms(2,3) unfolding id_rel_def resting_def by (metis option.inject)

lemma find_index:
  assumes rel: "book_rel np pb {} L bk" and k: "valid_id k"
  shows "id_find (bk_ids bk) k = Some i \<longleftrightarrow> resting L i \<and> o_id (ord bk i) = k"
    and "id_find (bk_ids bk) k = None \<longleftrightarrow> \<not> has_id (view L bk) k"
proof -
  have ids: "id_ok (bk_ids bk)" and m: "\<And>k i. id_map (bk_ids bk) k = Some i \<longleftrightarrow> resting L i \<and> o_id (ord bk i) = k"
    using book_relD(5) [OF rel] by (simp_all add: id_rel_def)
  have f: "id_find (bk_ids bk) k = id_map (bk_ids bk) k" using k by (simp add: id_map_def)
  show "id_find (bk_ids bk) k = Some i \<longleftrightarrow> resting L i \<and> o_id (ord bk i) = k" unfolding f m ..
  have "has_id (view L bk) k \<longleftrightarrow> (\<exists>i. resting L i \<and> o_id (ord bk i) = k)"
    by (simp add: has_id_def view_def entry_of_def resting_def image_image image_iff) blast
  then show "id_find (bk_ids bk) k = None \<longleftrightarrow> \<not> has_id (view L bk) k" unfolding f using m by (metis not_None_eq)
qed

lemma view_remove:
  assumes rel: "book_rel np pb F L bk" and i: "i \<in> set (L sd p)" and k: "o_id (ord bk i) = k"
  shows "view (put sd p (remove1 i (L sd p)) L) bk = spec_remove k (view L bk)"
proof (intro ext)
  fix sd' p'
  note R = book_relD [OF rel]
  have e: "fst (entry_of bk x) = k \<longleftrightarrow> x = i" if "x \<in> set (L sd' p')" for x
    using id_of_index [OF rel i that] k by (simp add: entry_of_def)
  have "filter (\<lambda>e. fst e \<noteq> k) (map (entry_of bk) (L sd' p')) = map (entry_of bk) (filter (\<lambda>x. x \<noteq> i) (L sd' p'))"
    using e by (auto simp: filter_map intro!: arg_cong [of _ _ "map (entry_of bk)"] filter_cong)
  moreover have "filter (\<lambda>x. x \<noteq> i) (L sd' p') = (if sd' = sd \<and> p' = p then remove1 i (L sd p) else L sd' p')"
  proof (cases "sd' = sd \<and> p' = p")
    case True
    then show ?thesis
      using distinct_remove1_removeAll [OF place_relD(1) [OF R(3), of sd p], of i] by (auto simp: removeAll_filter_not_eq intro: filter_cong)
  next
    case False
    then have "i \<notin> set (L sd' p')" using queues_disjoint [OF R(3) i] by blast
    then show ?thesis using False by (auto intro: filter_True)
  qed
  ultimately show "view (put sd p (remove1 i (L sd p)) L) bk sd' p' = spec_remove k (view L bk) sd' p'"
    by (simp add: view_def spec_remove_def)
qed

lemma view_append: "view (put sd p (L sd p @ [i]) L) bk = spec_insert sd p (entry_of bk i) (view L bk)"
  by (auto simp: view_def spec_insert_def fun_eq_iff)

lemma view_moved:
  assumes "book_rel np pb F L bk" and "i \<in> set (L sd p)" and "q \<noteq> p"
  shows "view (moved sd i p q L) bk = spec_reprice sd q (entry_of bk i) (view L bk)"
proof -
  let ?L = "put sd p (remove1 i (L sd p)) L"
  have "L sd q = ?L sd q" using assms(3) by simp
  then show ?thesis
    unfolding moved_def spec_reprice_def using view_append [of sd q ?L i bk] view_remove [OF assms(1,2) refl]
    by (simp add: entry_of_def)
qed

section \<open>Order book\<close>

lemma represents_init:
  assumes "0 < n" and "n \<le> 2 ^ 30" and "np \<le> 2 ^ 32"
  shows "represents np pb (\<lambda>_ _. []) (OrderBook_init n np (2 ^ pb) pb)"
proof -
  let ?bk = "OrderBook_init n np (2 ^ pb) pb" and ?L = "\<lambda>_ _. [] :: nat list"
  have st: "get_store sd ?bk = PriceLevelStore_init np pb" for sd by (cases sd) (simp_all add: OrderBook_init_def)
  have no: "lvl sd ?bk p = None" for sd p by (simp add: lvl_def st PriceLevelStore_init_def)
  have "parts_ok np pb ?bk"
    using assms(3) unfolding parts_ok_def st
    by (simp add: OrderBook_init_def PartitionPool_init_def Partition_init_def bm_init_def PriceLevelStore_init_def bm_bit_def
        add.commute [of _ 63])
  moreover have "pool_rel {} ?L ?bk"
    using pool_ok_init [OF assms(1)] unfolding pool_rel_def
    by (intro exI [of _ "[0..<n]"]) (simp add: OrderBook_init_def resting_def OrderPool_init_def)
  moreover have "id_rel {} ?L ?bk"
    using id_ok_init [OF assms(2)] assms(1) by (simp add: id_rel_def OrderBook_init_def resting_def OrderPool_init_def)
  moreover have "levels_rel np pb ?L ?bk" unfolding levels_rel_def no st by (simp add: PriceLevelStore_init_def)
  ultimately have "book_rel np pb {} ?L ?bk" by (simp add: book_rel_def place_rel_def)
  moreover have "totals_rel np pb ?L (\<lambda>_ _. 0) ?bk" unfolding totals_rel_def no by simp
  ultimately show ?thesis unfolding represents_def view_def by (intro exI [of _ ?L]) simp
qed

lemma book_insert_rel:
  assumes rel: "book_rel np pb {} L bk" and tot: "totals_rel np pb L (\<lambda>_ _. 0) bk" and k: "valid_id k" "\<not> has_id (view L bk) k"
    and ok: "price_ok np pb p"
  shows "(case book_insert_order sd k p q f bk of
      None \<Rightarrow> op_free_head (bk_pool bk) \<noteq> None \<and> act sd bk (partition_id pb p) = None \<and> pp_free (bk_parts bk) = []
    | Some (bk', st, None) \<Rightarrow> st = BAD_ALLOC \<and> bk' = bk \<and> op_free_head (bk_pool bk) = None
    | Some (bk', st, Some i) \<Rightarrow> st = SUCCESS \<and> op_free_head (bk_pool bk) = Some i \<and>
        book_rel np pb {} (put sd p (L sd p @ [i]) L) bk' \<and> totals_rel np pb (put sd p (L sd p @ [i]) L) (\<lambda>_ _. 0) bk' \<and>
        view (put sd p (L sd p @ [i]) L) bk' = spec_insert sd p (k, q, f) (view L bk))"
proof -
  note R = book_relD [OF rel]
  have new: "id_map (bk_ids bk) k = None" using find_index(2) [OF rel k(1)] k by (simp add: id_map_def)
  show ?thesis
  proof (cases "op_free_head (bk_pool bk)")
    case None
    then show ?thesis by (simp add: book_insert_order_def op_allocate_def)
  next
    case (Some i)
    then obtain pool where al: "op_allocate (bk_pool bk) = (pool, Some i)" by (simp add: op_allocate_def)
    let ?f = "\<lambda>o'. o'\<lparr>o_id := k, o_type := LIMIT, o_tif := GTC, o_side := sd, o_price := p, o_qty := q, o_filled := f\<rparr>"
    let ?bk = "upd_ord i ?f (bk\<lparr>bk_pool := pool, bk_ids := fst (id_insert (bk_ids bk) k i)\<rparr>)"
    have f: "o_id (?f o') = k \<and> o_next_free (?f o') = o_next_free o'" for o' by simp
    note A = reserve_rel [OF rel k(1) new al f]
    have eq: "book_insert_order sd k p q f bk = (case pls_insert_order sd i ?bk of None \<Rightarrow> None | Some bk' \<Rightarrow> Some (bk', SUCCESS, Some i))"
      using A(1) al by (auto simp: book_insert_order_def split: prod.splits option.splits)
    note I = pls_insert_rel [OF A(2), of i sd p, simplified, OF ok]
    have acts: "act sd ?bk = act sd bk" "pp_free (bk_parts ?bk) = pp_free (bk_parts bk)" by simp_all
    have v: "view L ?bk = view L bk"
    proof -
      have "entry_of ?bk x = entry_of bk x" if "x \<in> set (L sd' p')" for x sd' p'
      proof -
        have "x \<noteq> i" using A(4) that by (auto simp: resting_def)
        then show ?thesis using al Some by (auto simp: entry_of_def op_allocate_def split: option.splits)
      qed
      then show ?thesis by (auto simp: view_def fun_eq_iff)
    qed
    show ?thesis
    proof (cases "pls_insert_order sd i ?bk")
      case None
      then show ?thesis using eq I(1) Some acts by simp
    next
      case (Some bk')
      have "view (put sd p (L sd p @ [i]) L) bk' = view (put sd p (L sd p @ [i]) L) ?bk"
        using I(2) [OF Some] by (intro view_data) simp
      moreover have "entry_of ?bk i = (k, q, f)" by (simp add: entry_of_def)
      ultimately have "view (put sd p (L sd p @ [i]) L) bk' = spec_insert sd p (k, q, f) (view L bk)"
        using view_append [of sd p L i ?bk] v by simp
      then show ?thesis using eq Some I(2) [OF Some] A(5) [OF tot] \<open>op_free_head (bk_pool bk) = Some i\<close> by simp
    qed
  qed
qed

lemma book_remove_rel:
  assumes rel: "book_rel np pb {} L bk" and i: "i \<in> set (L sd p)" and k: "o_id (ord bk i) = k"
  obtains bk' where "book_remove_order k bk = Some (bk', SUCCESS)" and "book_rel np pb {} (put sd p (remove1 i (L sd p)) L) bk'"
    and "same_data bk bk'" and "\<And>d. totals_rel np pb L d bk \<Longrightarrow> totals_rel np pb (put sd p (remove1 i (L sd p)) L) d bk'"
proof -
  note R = book_relD [OF rel]
  let ?L = "put sd p (remove1 i (L sd p)) L"
  have r: "resting L i" using i by (auto simp: resting_def)
  then have vk: "valid_id k" using R(5) k by (auto simp: id_rel_def)
  have find: "id_find (bk_ids bk) k = Some i" using find_index(1) [OF rel vk] r k by simp
  have sd: "o_side (ord bk i) = sd" using place_relD(4) [OF R(3) i] .
  obtain bk1 where rem: "pls_remove_order sd i bk = Some bk1" and rel1: "book_rel np pb {i} ?L bk1"
    and data: "same_data bk bk1" and tot: "\<And>d. totals_rel np pb L d bk \<Longrightarrow> totals_rel np pb ?L d bk1"
    using pls_remove_rel [OF rel i] by metis
  have out: "\<not> resting ?L i" unfolding resting_def using place_relD(6) [OF book_relD(3) [OF rel1]] by blast
  have k1: "o_id (ord bk1 i) = k" using same_data_simps(1) [OF data] k by simp
  note G = give_back_rel [OF rel1 _ out k1, simplified]
  let ?bk = "bk1\<lparr>bk_ids := fst (id_remove (bk_ids bk1) k), bk_pool := op_release i (bk_pool bk1)\<rparr>"
  have "same_data bk1 ?bk" by (simp add: same_data_def order_data_def op_release_def)
  then have "same_data bk ?bk" by (rule same_data_trans [OF data])
  moreover have "book_remove_order k bk = Some (?bk, SUCCESS)" by (simp add: book_remove_order_def find sd rem)
  ultimately show ?thesis using that [of ?bk] G(1,2) tot by simp
qed

lemma free_head_iff: "pool_ok fs p \<Longrightarrow> op_free_head p = None \<longleftrightarrow> op_free_slots p = 0"
  by (cases fs) (auto simp: pool_ok_def op_free_slots_def)

lemma insert_spec:
  assumes "represents np pb B bk" and "valid_id k" and "\<not> has_id B k" and "price_ok np pb p"
  shows "(case book_insert_order sd k p q f bk of
      None \<Rightarrow> act sd bk (partition_id pb p) = None \<and> pp_free (bk_parts bk) = []
    | Some (bk', st, None) \<Rightarrow> st = BAD_ALLOC \<and> bk' = bk \<and> op_free_slots (bk_pool bk) = 0
    | Some (bk', st, Some i) \<Rightarrow> st = SUCCESS \<and> represents np pb (spec_insert sd p (k, q, f) B) bk')"
proof -
  obtain L where L: "book_rel np pb {} L bk" "totals_rel np pb L (\<lambda>_ _. 0) bk" "B = view L bk"
    using assms(1) by (auto simp: represents_def)
  obtain fs where "pool_ok fs (bk_pool bk)" using book_relD(2) [OF L(1)] by (auto simp: pool_rel_def)
  note H = free_head_iff [OF this]
  note I = book_insert_rel [OF L(1,2) assms(2) _ assms(4), of sd q f, folded L(3), OF assms(3)]
  show ?thesis
  proof (cases "book_insert_order sd k p q f bk")
    case None
    then show ?thesis using I by simp
  next
    case (Some r)
    obtain bk' st io where r: "r = (bk', st, io)" by (cases r) auto
    show ?thesis
    proof (cases io)
      case None
      then show ?thesis using I H Some r by simp
    next
      case (Some i)
      then have "st = SUCCESS" "book_rel np pb {} (put sd p (L sd p @ [i]) L) bk'"
        "totals_rel np pb (put sd p (L sd p @ [i]) L) (\<lambda>_ _. 0) bk'"
        "spec_insert sd p (k, q, f) B = view (put sd p (L sd p @ [i]) L) bk'"
        using I \<open>book_insert_order sd k p q f bk = Some r\<close> r by simp_all
      then show ?thesis
        using \<open>book_insert_order sd k p q f bk = Some r\<close> r Some unfolding represents_def by auto
    qed
  qed
qed

lemma remove_spec:
  assumes "represents np pb B bk" and "valid_id k"
  shows "(case book_remove_order k bk of None \<Rightarrow> False
    | Some (bk', st) \<Rightarrow> if has_id B k then st = SUCCESS \<and> represents np pb (spec_remove k B) bk' else st = NOT_FOUND \<and> bk' = bk)"
proof -
  obtain L where L: "book_rel np pb {} L bk" "totals_rel np pb L (\<lambda>_ _. 0) bk" "B = view L bk"
    using assms(1) by (auto simp: represents_def)
  note X = find_index [OF L(1) assms(2)]
  show ?thesis
  proof (cases "has_id B k")
    case False
    then show ?thesis using X(2) L(3) by (simp add: book_remove_order_def)
  next
    case True
    then obtain i where "resting L i" and k: "o_id (ord bk i) = k" using X L(3) by (metis not_None_eq)
    then obtain sd p where i: "i \<in> set (L sd p)" by (auto simp: resting_def)
    from book_remove_rel [OF L(1) i k] obtain bk' where B: "book_remove_order k bk = Some (bk', SUCCESS)"
      "book_rel np pb {} (put sd p (remove1 i (L sd p)) L) bk'" "same_data bk bk'"
      "totals_rel np pb (put sd p (remove1 i (L sd p)) L) (\<lambda>_ _. 0) bk'" using L(2) by metis
    have "spec_remove k B = view (put sd p (remove1 i (L sd p)) L) bk'"
      using view_remove [OF L(1) i k] view_data [OF B(3)] L(3) by simp
    then show ?thesis using True B unfolding represents_def by auto
  qed
qed

lemma resize_spec:
  assumes "represents np pb B bk" and "valid_id k"
  shows "(case book_resize_order k q bk of None \<Rightarrow> False
    | Some (bk', st) \<Rightarrow> if q = 0 then st = REJECTED \<and> bk' = bk else if \<not> has_id B k then st = NOT_FOUND \<and> bk' = bk
        else st = (if spec_resize k q B = B then UNCHANGED else SUCCESS) \<and> represents np pb (spec_resize k q B) bk')"
proof -
  obtain L where L: "book_rel np pb {} L bk" "totals_rel np pb L (\<lambda>_ _. 0) bk" "B = view L bk"
    using assms(1) by (auto simp: represents_def)
  note X = find_index [OF L(1) assms(2)]
  show ?thesis
  proof (cases "q = 0 \<or> \<not> has_id B k")
    case True
    then show ?thesis using X(2) L(3) by (auto simp: book_resize_order_def)
  next
    case False
    then obtain i where ri: "resting L i" and k: "o_id (ord bk i) = k" and find: "id_find (bk_ids bk) k = Some i"
      using X L(3) by (metis not_None_eq)
    then obtain sd p where i: "i \<in> set (L sd p)" by (auto simp: resting_def)
    have sd: "o_side (ord bk i) = sd" using place_relD(4) [OF book_relD(3) [OF L(1)] i] .
    from pls_resize_rel [OF L(1) i, of q] obtain bk' where R: "pls_resize_order sd i q bk = Some bk'" "book_rel np pb {} L bk'"
      "ord bk' = (ord bk)(i := (ord bk i)\<lparr>o_qty := q\<rparr>)" "totals_rel np pb L (\<lambda>_ _. 0) bk'" using L(2) by metis
    have e: "entry_of bk' x = (if fst (entry_of bk x) = k then (k, q, snd (snd (entry_of bk x))) else entry_of bk x)"
      if "x \<in> set (L sd' p')" for x sd' p'
      using id_of_index [OF L(1) i that] k by (auto simp: entry_of_def R(3))
    then have v: "view L bk' = spec_resize k q B" unfolding L(3) view_def spec_resize_def by (auto simp: fun_eq_iff)
    have "spec_resize k q B = B \<longleftrightarrow> o_qty (ord bk i) = q"
    proof
      assume "spec_resize k q B = B"
      then have "map (entry_of bk') (L sd p) = map (entry_of bk) (L sd p)" using v L(3) by (metis view_def)
      then have "entry_of bk' i = entry_of bk i" using i by (simp add: map_eq_conv)
      then show "o_qty (ord bk i) = q" by (simp add: entry_of_def R(3))
    next
      assume "o_qty (ord bk i) = q"
      then have "ord bk' = ord bk" by (auto simp: R(3))
      then have "view L bk' = view L bk" unfolding view_def entry_of_def by presburger
      then show "spec_resize k q B = B" using v L(3) by simp
    qed
    moreover have "book_resize_order k q bk = (if o_qty (ord bk i) = q then Some (bk, UNCHANGED) else Some (bk', SUCCESS))"
      using False find sd R(1) by (simp add: book_resize_order_def)
    moreover have "represents np pb (spec_resize k q B) bk'" using R(2,4) v unfolding represents_def by auto
    ultimately show ?thesis using False assms(1) by auto
  qed
qed

lemma reprice_spec:
  assumes "represents np pb B bk" and "valid_id k" and "price_ok np pb q"
  shows "(case book_reprice_order k q bk of
      None \<Rightarrow> pp_free (bk_parts bk) = [] \<and> (\<exists>sd. act sd bk (partition_id pb q) = None)
    | Some (bk', st, _) \<Rightarrow> if q = 0 then st = REJECTED \<and> bk' = bk else if \<not> has_id B k then st = NOT_FOUND \<and> bk' = bk
        else \<exists>sd p. \<exists>e \<in> set (B sd p). fst e = k \<and>
          (if p = q then st = UNCHANGED \<and> bk' = bk else st = SUCCESS \<and> represents np pb (spec_reprice sd q e B) bk'))"
proof -
  obtain L where L: "book_rel np pb {} L bk" "totals_rel np pb L (\<lambda>_ _. 0) bk" "B = view L bk"
    using assms(1) by (auto simp: represents_def)
  note X = find_index [OF L(1) assms(2)]
  show ?thesis
  proof (cases "q = 0 \<or> \<not> has_id B k")
    case True
    then show ?thesis using X(2) L(3) by (auto simp: book_reprice_order_def)
  next
    case False
    then obtain i where ri: "resting L i" and k: "o_id (ord bk i) = k" and find: "id_find (bk_ids bk) k = Some i"
      using X L(3) by (metis not_None_eq)
    then obtain sd p where i: "i \<in> set (L sd p)" by (auto simp: resting_def)
    have sd: "o_side (ord bk i) = sd" "o_price (ord bk i) = p" using place_relD(4,5) [OF book_relD(3) [OF L(1)] i] by auto
    have e: "entry_of bk i \<in> set (B sd p)" "fst (entry_of bk i) = k" using i k by (simp_all add: L(3) view_def) (simp add: entry_of_def)
    show ?thesis
    proof (cases "q = p")
      case True
      then have "book_reprice_order k q bk = Some (bk, UNCHANGED, Some i)" using False find sd by (simp add: book_reprice_order_def)
      then show ?thesis using False True e by auto
    next
      case qp: False
      note R = pls_reprice_rel [OF L(1) i assms(3) qp]
      have eq: "book_reprice_order k q bk = (case pls_reprice_order sd i q bk of None \<Rightarrow> None | Some bk' \<Rightarrow> Some (bk', SUCCESS, Some i))"
        using False find sd qp by (simp add: book_reprice_order_def)
      show ?thesis
      proof (cases "pls_reprice_order sd i q bk")
        case None
        then show ?thesis using eq R(1) by auto
      next
        case (Some bk')
        note M = R(2) [OF Some]
        have "view (moved sd i p q L) bk' = spec_reprice sd q (entry_of bk i) B"
          using view_moved [OF L(1) i qp] view_data M L(3) by metis
        then have "represents np pb (spec_reprice sd q (entry_of bk i) B) bk'"
          unfolding represents_def using M L(2) by (intro exI [of _ "moved sd i p q L"]) simp
        then have "\<exists>sd p. \<exists>e \<in> set (B sd p). fst e = k \<and> (if p = q then SUCCESS = UNCHANGED \<and> bk' = bk
            else SUCCESS = SUCCESS \<and> represents np pb (spec_reprice sd q e B) bk')"
          using e qp by (intro exI [of _ sd] exI [of _ p] bexI [of _ "entry_of bk i"]) simp_all
        then show ?thesis using eq Some False by simp
      qed
    qed
  qed
qed

text \<open>A book with one ask, for witnesses.\<close>

definition one_ask :: order_book where
  "one_ask = (case book_insert_order ASK 7 5 10 0 (OrderBook_init 4 2 8 3) of None \<Rightarrow> OrderBook_init 4 2 8 3 | Some (bk, _) \<Rightarrow> bk)"

lemma seven_valid: "valid_id 7" "\<not> has_id (\<lambda>_ _. []) 7"
  by (simp_all add: valid_id_def EMPTY_KEY_def TOMBSTONE_KEY_def has_id_def)

lemma sample_price: "price_ok 2 3 5"
  by (simp add: price_ok_def)

lemma init_free:
  "pp_free (bk_parts (OrderBook_init 4 2 8 3)) \<noteq> []" "op_free_slots (bk_pool (OrderBook_init 4 2 8 3)) \<noteq> 0"
  "op_free_head (bk_pool (OrderBook_init 4 2 8 3)) = Some 0"
  by (simp_all add: OrderBook_init_def PartitionPool_init_def OrderPool_init_def op_free_slots_def)

lemma one_ask_inserted: "\<exists>i. book_insert_order ASK 7 5 10 0 (OrderBook_init 4 2 8 3) = Some (one_ask, SUCCESS, Some i)"
proof -
  have "represents 2 3 (\<lambda>_ _. []) (OrderBook_init 4 2 8 3)" using represents_init [of 4 2 3] by simp
  from insert_spec [OF this seven_valid sample_price, of ASK 10 0] init_free show ?thesis
    unfolding one_ask_def by (auto split: option.splits prod.splits)
qed

lemma one_ask_represents: "represents 2 3 (spec_insert ASK 5 (7, 10, 0) (\<lambda>_ _. [])) one_ask"
proof -
  have "represents 2 3 (\<lambda>_ _. []) (OrderBook_init 4 2 8 3)" using represents_init [of 4 2 3] by simp
  from insert_spec [OF this seven_valid sample_price, of ASK 10 0] one_ask_inserted show ?thesis by auto
qed

section \<open>Properties\<close>

text \<open>C6: the order book of the matching engine, with its order pool, hash table, partitions, bitmaps and intrusive lists,
  behaves as a family of first-in first-out queues, one for each side and price. Inserting an order with a fresh id appends
  it to the queue of its price; removing deletes exactly that order; resizing changes its quantity in place; repricing,
  whichever of the shortcuts applies, moves it to the tail of the queue of the new price. The status reports what happened,
  a full id table is never the outcome, an insertion is refused only when no order slot is free, and the only way
  to dereference a null partition is a price whose partition does not exist when all partitions are in use.\<close>

theorem order_book_refines_queues:
  assumes "represents np pb B bk" and "valid_id k" and "price_ok np pb p"
  shows "(\<not> has_id B k \<longrightarrow>
     (case book_insert_order sd k p q f bk of
        None \<Rightarrow> act sd bk (partition_id pb p) = None \<and> pp_free (bk_parts bk) = []
      | Some (bk', st, None) \<Rightarrow> st = BAD_ALLOC \<and> bk' = bk \<and> op_free_slots (bk_pool bk) = 0
      | Some (bk', st, Some i) \<Rightarrow> st = SUCCESS \<and> represents np pb (spec_insert sd p (k, q, f) B) bk')) \<and>
    (case book_remove_order k bk of None \<Rightarrow> False
      | Some (bk', st) \<Rightarrow> if has_id B k then st = SUCCESS \<and> represents np pb (spec_remove k B) bk' else st = NOT_FOUND \<and> bk' = bk) \<and>
    (case book_resize_order k q bk of None \<Rightarrow> False
      | Some (bk', st) \<Rightarrow> if q = 0 then st = REJECTED \<and> bk' = bk else if \<not> has_id B k then st = NOT_FOUND \<and> bk' = bk
          else st = (if spec_resize k q B = B then UNCHANGED else SUCCESS) \<and> represents np pb (spec_resize k q B) bk') \<and>
    (case book_reprice_order k p bk of
        None \<Rightarrow> pp_free (bk_parts bk) = [] \<and> (\<exists>sd. act sd bk (partition_id pb p) = None)
      | Some (bk', st, _) \<Rightarrow> if p = 0 then st = REJECTED \<and> bk' = bk else if \<not> has_id B k then st = NOT_FOUND \<and> bk' = bk
          else \<exists>sd p0. \<exists>e \<in> set (B sd p0). fst e = k \<and>
            (if p0 = p then st = UNCHANGED \<and> bk' = bk else st = SUCCESS \<and> represents np pb (spec_reprice sd p e B) bk'))"
  using insert_spec [OF assms(1,2) _ assms(3)] remove_spec [OF assms(1,2)] resize_spec [OF assms(1,2)] reprice_spec [OF assms]
  by blast

theorem order_book_refines_queues_witness:
  "\<exists>bk'. book_insert_order BID 7 5 10 0 (OrderBook_init 4 2 (2 ^ 3) 3) = Some (bk', SUCCESS, Some 0) \<and>
     represents 2 3 (spec_insert BID 5 (7, 10, 0) (\<lambda>_ _. [])) bk'"
proof -
  let ?bk = "OrderBook_init 4 2 (2 ^ 3) 3"
  have r: "represents 2 3 (\<lambda>_ _. []) ?bk" by (rule represents_init) simp_all
  have v: "valid_id 7" by (simp add: valid_id_def EMPTY_KEY_def TOMBSTONE_KEY_def)
  have p: "price_ok 2 3 5" by (simp add: price_ok_def)
  have h: "\<not> has_id (\<lambda>_ _. []) 7" by (simp add: has_id_def)
  have free: "pp_free (bk_parts ?bk) \<noteq> []" "op_free_slots (bk_pool ?bk) \<noteq> 0" "op_free_head (bk_pool ?bk) = Some 0"
    by (simp_all add: OrderBook_init_def PartitionPool_init_def OrderPool_init_def op_free_slots_def)
  have idx: "book_insert_order BID 7 5 10 0 ?bk = Some (bk', st, Some i) \<Longrightarrow> i = 0" for bk' st i
    using free(3) by (auto simp: book_insert_order_def op_allocate_def split: option.splits prod.splits if_splits)
  note T = order_book_refines_queues [OF r v p, of BID 10 0]
  show ?thesis
  proof (cases "book_insert_order BID 7 5 10 0 ?bk")
    case None
    then show ?thesis using T h free(1) by simp
  next
    case (Some x)
    obtain bk' st io where x: "x = (bk', st, io)" by (cases x) auto
    show ?thesis
    proof (cases io)
      case None
      then show ?thesis using T h free(2) Some x by simp
    next
      case (Some i)
      then show ?thesis using T h idx [of bk' st i] \<open>book_insert_order BID 7 5 10 0 ?bk = Some x\<close> x by simp
    qed
  qed
qed

end
