(* ===== verification/Best_Price.thy ===== *)
theory Best_Price
  imports Book_Ops
begin

text \<open>
  The cached best prices of the partitions and of each side (try_update_best, recompute_best, recompute_global_best_). They are exact as long as every
  partition in use holds an order; a partition that becomes empty keeps its last best price.
\<close>

section \<open>Comparing prices\<close>

lemma better_order:
  "\<not> is_better sd p p" "is_better sd a b \<Longrightarrow> is_better sd b c \<Longrightarrow> is_better sd a c" "a \<noteq> b \<Longrightarrow> is_better sd a b \<or> is_better sd b a"
  "is_better sd a b \<Longrightarrow> \<not> is_better sd b a"
  by (cases sd; auto)+

lemma not_better_trans: "\<not> is_better sd a b \<Longrightarrow> \<not> is_better sd b c \<Longrightarrow> \<not> is_better sd a c"
  by (cases sd) auto

lemma not_better_antisym: "\<not> is_better sd a b \<Longrightarrow> \<not> is_better sd b a \<Longrightarrow> a = b"
  by (cases sd) auto

text \<open>A set of prices and its best element.\<close>

definition is_best :: "side \<Rightarrow> price set \<Rightarrow> price \<Rightarrow> bool" where
  "is_best sd P b \<longleftrightarrow> b \<in> P \<and> (\<forall>p \<in> P. \<not> is_better sd p b)"

lemma is_best_unique: "is_best sd P a \<Longrightarrow> is_best sd P b \<Longrightarrow> a = b"
  unfolding is_best_def using not_better_antisym by blast

lemma is_best_insert: "is_best sd P b \<Longrightarrow> is_best sd (insert p P) (if is_better sd p b then p else b)"
  by (cases sd) (auto simp: is_best_def)

lemma is_best_add: "is_best sd P b \<Longrightarrow> y \<in> P \<Longrightarrow> \<not> is_better sd z y \<Longrightarrow> is_best sd (insert z P) b"
  by (cases sd) (fastforce simp: is_best_def)+

section \<open>Recomputing\<close>

definition keep_best :: "side \<Rightarrow> price \<Rightarrow> price \<Rightarrow> price" where
  "keep_best sd b acc = (if acc = INVALID_PRICE \<or> is_better sd b acc then b else acc)"

lemma fold_keep_best:
  assumes "INVALID_PRICE \<notin> set xs"
  shows "fold (keep_best sd) xs acc = acc \<and> xs = [] \<or>
    (if acc = INVALID_PRICE then is_best sd (set xs) (fold (keep_best sd) xs acc)
     else is_best sd (insert acc (set xs)) (fold (keep_best sd) xs acc))"
  using assms
proof (induction xs arbitrary: acc)
  case (Cons x xs)
  let ?a = "keep_best sd x acc"
  have a: "?a \<noteq> INVALID_PRICE" using Cons.prems by (auto simp: keep_best_def)
  have IH: "is_best sd (insert ?a (set xs)) (fold (keep_best sd) xs ?a)"
    using Cons.IH [of ?a] Cons.prems a better_order(1) by (cases xs) (auto simp: is_best_def)
  consider "acc = INVALID_PRICE" | "acc \<noteq> INVALID_PRICE" "is_better sd x acc" | "acc \<noteq> INVALID_PRICE" "\<not> is_better sd x acc" by blast
  then show ?case
  proof cases
    case 1
    then have "?a = x" by (simp add: keep_best_def)
    then show ?thesis using IH 1 by simp
  next
    case 2
    then have "?a = x" by (simp add: keep_best_def)
    then show ?thesis using is_best_add [OF IH, of x acc] 2 better_order(4) [OF 2(2)] by simp
  next
    case 3
    then have "?a = acc" by (simp add: keep_best_def)
    then show ?thesis using is_best_add [OF IH, of acc x] 3 by (simp add: insert_commute)
  qed
qed simp

text \<open>The best prices of the partitions in use.\<close>

definition part_bests :: "side \<Rightarrow> order_book \<Rightarrow> price set" where
  "part_bests sd bk = {pt_best (part bk pi) | k pi. act sd bk k = Some pi}"

lemma best_of_partitions_best:
  assumes ok: "parts_ok np pb bk" and valid: "INVALID_PRICE \<notin> part_bests sd bk"
  shows "if part_bests sd bk = {} then best_of_partitions sd bk = INVALID_PRICE else is_best sd (part_bests sd bk) (best_of_partitions sd bk)"
proof -
  let ?bits = "bm_bits 0 (st_bitmap (get_store sd bk))"
  let ?f = "\<lambda>k. pt_best (part bk (the (act sd bk k)))"
  have bits: "set ?bits = {k. act sd bk k \<noteq> None}" using bm_bits_facts(1) [of 0] parts_okD(10) [OF ok, of sd] by auto
  have "fold (\<lambda>partid new_best. case act sd bk partid of None \<Rightarrow> new_best
         | Some pi \<Rightarrow> if new_best = INVALID_PRICE \<or> is_better sd (pt_best (part bk pi)) new_best then pt_best (part bk pi) else new_best) ks acc =
       fold (keep_best sd) (map ?f ks) acc" if "set ks \<subseteq> {k. act sd bk k \<noteq> None}" for ks acc
    using that by (induction ks arbitrary: acc) (auto simp: keep_best_def)
  then have eq: "best_of_partitions sd bk = fold (keep_best sd) (map ?f ?bits) INVALID_PRICE"
    unfolding best_of_partitions_def using bits by simp
  have set: "set (map ?f ?bits) = part_bests sd bk" unfolding part_bests_def set_map bits by force
  then show ?thesis using fold_keep_best [of "map ?f ?bits" sd INVALID_PRICE] valid unfolding eq by auto
qed

text \<open>The scan of the bitmap of a partition finds its best queue.\<close>

definition part_prices :: "nat \<Rightarrow> (side \<Rightarrow> price \<Rightarrow> 'a list) \<Rightarrow> side \<Rightarrow> nat \<Rightarrow> price set" where
  "part_prices pb L sd k = {int (k * 2 ^ pb + n) | n. n < 2 ^ pb \<and> L sd (int (k * 2 ^ pb + n)) \<noteq> []}"

lemma recompute_best_exact:
  assumes rel: "book_rel np pb F L bk" and a: "act sd bk k = Some pi" and ne: "part_prices pb L sd k \<noteq> {}"
  shows "pt_has_best (recompute_best sd (part bk pi))" and "is_best sd (part_prices pb L sd k) (pt_best (recompute_best sd (part bk pi)))"
proof -
  note R = book_relD [OF rel]
  let ?bm = "pt_bitmap (part bk pi)"
  have bit: "bm_bit ?bm n \<longleftrightarrow> n < 2 ^ pb \<and> L sd (int (k * 2 ^ pb + n)) \<noteq> []" for n using R(4) a by (simp add: levels_rel_def)
  have price: "bm_bit ?bm n \<Longrightarrow> pl_price (pt_levels (part bk pi) n) = int (k * 2 ^ pb + n)" for n
    using parts_okD(9) [OF R(1) a] bit by simp
  have scan: "\<exists>m. (if sd = BID then bm_scan_down (length ?bm) ?bm else bm_scan_up 0 ?bm) = Some m \<and> bm_bit ?bm m \<and>
      (\<forall>n. bm_bit ?bm n \<longrightarrow> (if sd = BID then n \<le> m else m \<le> n))"
  proof -
    obtain n where n: "bm_bit ?bm n" using ne bit by (auto simp: part_prices_def)
    have lt: "bm_bit ?bm i \<Longrightarrow> i < length ?bm * 64" for i by (auto simp: bm_bit_def div_less_iff_less_mult)
    show ?thesis
    proof (cases sd)
      case BID
      then show ?thesis using bm_scan_down_facts [of "length ?bm" ?bm] n lt by (auto split: option.splits) force+
    next
      case ASK
      then show ?thesis using bm_scan_up_facts [where k = 0 and ws = ?bm] n by (auto split: option.splits)
    qed
  qed
  then obtain m where m: "(if sd = BID then bm_scan_down (length ?bm) ?bm else bm_scan_up 0 ?bm) = Some m" "bm_bit ?bm m"
    "\<forall>n. bm_bit ?bm n \<longrightarrow> (if sd = BID then n \<le> m else m \<le> n)" by blast
  have eq: "recompute_best sd (part bk pi) = (part bk pi)\<lparr>pt_best := int (k * 2 ^ pb + m), pt_has_best := True\<rparr>"
    unfolding recompute_best_def m(1) option.case price [OF m(2)] ..
  show "pt_has_best (recompute_best sd (part bk pi))" by (simp add: eq)
  show "is_best sd (part_prices pb L sd k) (pt_best (recompute_best sd (part bk pi)))"
    unfolding is_best_def
  proof (intro conjI ballI)
    show "pt_best (recompute_best sd (part bk pi)) \<in> part_prices pb L sd k" using m(2) bit [of m] by (auto simp: part_prices_def eq)
    fix p assume "p \<in> part_prices pb L sd k"
    then obtain n where n: "p = int (k * 2 ^ pb + n)" "bm_bit ?bm n" using bit by (auto simp: part_prices_def)
    have "if sd = BID then n \<le> m else m \<le> n" using m(3) n(2) by blast
    then show "\<not> is_better sd p (pt_best (recompute_best sd (part bk pi)))" unfolding n(1) eq by (cases sd) simp_all
  qed
qed

section \<open>Exact best prices\<close>

definition all_prices :: "(side \<Rightarrow> price \<Rightarrow> 'a list) \<Rightarrow> side \<Rightarrow> price set" where
  "all_prices L sd = {p. L sd p \<noteq> []}"

text \<open>On a side: every partition in use holds an order, its cached price is its best one, and so is that of the side. Of the queues only
  matters which are empty.\<close>

definition side_exact :: "nat \<Rightarrow> (side \<Rightarrow> price \<Rightarrow> 'a list) \<Rightarrow> order_book \<Rightarrow> side \<Rightarrow> bool" where
  "side_exact pb L bk sd \<longleftrightarrow>
     (\<forall>k pi. act sd bk k = Some pi \<longrightarrow> pt_has_best (part bk pi) \<and> is_best sd (part_prices pb L sd k) (pt_best (part bk pi))) \<and>
     (st_has_best (get_store sd bk) \<longleftrightarrow> all_prices L sd \<noteq> {}) \<and>
     (all_prices L sd \<noteq> {} \<longrightarrow> is_best sd (all_prices L sd) (st_best (get_store sd bk)))"

definition best_exact :: "nat \<Rightarrow> (side \<Rightarrow> price \<Rightarrow> 'a list) \<Rightarrow> order_book \<Rightarrow> bool" where
  "best_exact pb L bk \<longleftrightarrow> (\<forall>sd. side_exact pb L bk sd)"

lemma best_exactD: "best_exact pb L bk \<Longrightarrow> side_exact pb L bk sd"
  by (simp add: best_exact_def)

lemma side_exactD:
  assumes "side_exact pb L bk sd"
  shows "act sd bk k = Some pi \<Longrightarrow> pt_has_best (part bk pi)" and "act sd bk k = Some pi \<Longrightarrow> is_best sd (part_prices pb L sd k) (pt_best (part bk pi))"
    and "st_has_best (get_store sd bk) \<longleftrightarrow> all_prices L sd \<noteq> {}" and "all_prices L sd \<noteq> {} \<Longrightarrow> is_best sd (all_prices L sd) (st_best (get_store sd bk))"
  using assms by (auto simp: side_exact_def)

lemma part_prices_put:
  assumes "price_ok np pb p" and "np \<le> 2 ^ 32" and "k < np"
  shows "part_prices pb (put sd p xs L) sd' k = (if sd' = sd \<and> k = partition_id pb p
    then if xs = [] then part_prices pb L sd k - {p} else insert p (part_prices pb L sd k) else part_prices pb L sd' k)"
proof -
  note F = partition_id_facts [OF assms(1,2)]
  have eqp: "int (k * 2 ^ pb + n) = p \<longleftrightarrow> k = partition_id pb p \<and> n = offset_in_partition pb p" if "n < 2 ^ pb" for n
    using partition_id_of [OF assms(3) that assms(2)] F(2) by auto
  show ?thesis
  proof (rule set_eqI)
    fix x
    show "x \<in> part_prices pb (put sd p xs L) sd' k \<longleftrightarrow> x \<in> (if sd' = sd \<and> k = partition_id pb p
      then if xs = [] then part_prices pb L sd k - {p} else insert p (part_prices pb L sd k) else part_prices pb L sd' k)"
    proof (cases "\<exists>n < 2 ^ pb. x = int (k * 2 ^ pb + n)")
      case True
      then obtain n where n: "n < 2 ^ pb" "x = int (k * 2 ^ pb + n)" by blast
      have mem: "x \<in> part_prices pb M s k \<longleftrightarrow> M s x \<noteq> []" for M s using n by (auto simp: part_prices_def)
      show ?thesis
        using eqp [OF n(1)] mem [of L sd] mem [of L sd'] mem [of "put sd p xs L" sd'] unfolding n(2) [symmetric] by (auto split: if_splits)
    next
      case False
      then have "x \<notin> part_prices pb M s k" for M s by (auto simp: part_prices_def)
      moreover have "x \<noteq> p" if "k = partition_id pb p" using False F(2,3) that by blast
      ultimately show ?thesis by auto
    qed
  qed
qed

lemma all_prices_put: "all_prices (put sd p xs L) sd' =
  (if sd' = sd then if xs = [] then all_prices L sd - {p} else insert p (all_prices L sd) else all_prices L sd')"
  by (auto simp: all_prices_def)

lemma part_prices_unused:
  assumes rel: "book_rel np pb F L bk" and "act sd bk k = None" and "k < np"
  shows "part_prices pb L sd k = {}"
proof -
  note R = book_relD [OF rel]
  have "L sd (int (k * 2 ^ pb + n)) = []" if "n < 2 ^ pb" for n
  proof (rule ccontr)
    assume "L sd (int (k * 2 ^ pb + n)) \<noteq> []"
    then obtain x where "x \<in> set (L sd (int (k * 2 ^ pb + n)))" by (meson list.set_sel(1))
    then show False
      using place_relD(3) [OF R(3)] partition_id_of(2) [OF assms(3) that parts_okD(1) [OF R(1)]] assms(2) by metis
  qed
  then show ?thesis by (auto simp: part_prices_def)
qed

text \<open>Linking and unlinking do not touch the cached prices.\<close>

lemma link_bests:
  "pt_best (part (link_order sd i pi bk) pj) = pt_best (part bk pj)" "pt_has_best (part (link_order sd i pi bk) pj) = pt_has_best (part bk pj)"
  "pt_best (part (unlink_order sd i pi bk) pj) = pt_best (part bk pj)" "pt_has_best (part (unlink_order sd i pi bk) pj) = pt_has_best (part bk pj)"
  by (simp_all add: link_order_eqs unlink_order_eqs)

lemma get_or_create_bests:
  assumes ok: "parts_ok np pb bk" and g: "get_or_create_partition sd k bk = Some (bk', pi)"
  shows "act sd' bk k' = Some pj \<Longrightarrow> part bk' pj = part bk pj"
    and "act sd bk k = None \<Longrightarrow> \<not> pt_has_best (part bk' pi)" and "act sd bk k \<noteq> None \<Longrightarrow> bk' = bk"
proof -
  show "act sd bk k \<noteq> None \<Longrightarrow> bk' = bk" using g get_or_create_old [OF ok] by auto
  show "act sd bk k = None \<Longrightarrow> \<not> pt_has_best (part bk' pi)"
    using g by (auto simp: get_or_create_partition_def pp_allocate_def Let_def initialize_for_partid_def split: if_splits option.splits list.splits)
  show "part bk' pj = part bk pj" if "act sd' bk k' = Some pj"
    using g that parts_okD(6) [OF ok that]
    by (auto simp: get_or_create_partition_def pp_allocate_def Let_def split: if_splits option.splits list.splits)
qed

lemma pls_insert_side:
  assumes rel: "book_rel np pb F L bk" and ex: "side_exact pb L bk s" and i: "i \<in> F" and sd: "o_side (ord bk i) = sd"
    and p: "o_price (ord bk i) = p" and ok: "price_ok np pb p" and ins: "pls_insert_order sd i bk = Some bk'"
  shows "side_exact pb (put sd p (L sd p @ [i]) L) bk' s"
proof -
  note R = book_relD [OF rel] and P = parts_okD [OF book_relD(1) [OF rel]]
  let ?k = "partition_id pb p" and ?L = "put sd p (L sd p @ [i]) L"
  obtain bk1 pi where g: "get_or_create_partition sd ?k bk = Some (bk1, pi)"
    and bk': "bk' = upd_part pi (try_update_best sd p) (try_update_global_best sd p (link_order sd i pi bk1))"
    using ins by (auto simp: pls_insert_order_def p P(4) split: option.splits)
  note K = get_or_create_keeps [OF g] and G = get_or_create_bests [OF R(1) g]
  note R1 = book_relD [OF get_or_create_rel(1) [OF rel g]]
  have a': "act s bk' = act s bk1" for s by (simp add: bk' try_update_global_best_def Let_def link_order_eqs)
  have kept: "pt_best (part bk' pj) = pt_best (part bk1 pj)" "pt_has_best (part bk' pj) = pt_has_best (part bk1 pj)" if "pj \<noteq> pi" for pj
    using that by (simp_all add: bk' try_update_global_best_def Let_def link_bests)
  have own: "pt_best (part bk' pi) = (if pt_has_best (part bk1 pi) \<and> \<not> is_better sd p (pt_best (part bk1 pi)) then pt_best (part bk1 pi) else p)"
    "pt_has_best (part bk' pi)"
    by (auto simp: bk' try_update_global_best_def Let_def link_bests try_update_best_def)
  note exD = side_exactD [OF ex]
  have parts: "pt_has_best (part bk' pj) \<and> is_best s (part_prices pb ?L s k) (pt_best (part bk' pj))" if a: "act s bk' k = Some pj" for k pj
  proof -
    have a1: "act s bk1 k = Some pj" using a by (simp add: a')
    have kn: "k < np" using parts_okD(5) [OF R1(1) a1] .
    note pp = part_prices_put [OF ok P(1) kn, of sd "L sd p @ [i]" L s]
    show ?thesis
    proof (cases "s = sd \<and> k = ?k")
      case True
      then have pj: "pj = pi" using a1 K(3) by simp
      show ?thesis
      proof (cases "act sd bk ?k")
        case None
        then have "part_prices pb L sd ?k = {}" using part_prices_unused [OF rel] kn True by simp
        then show ?thesis using own G(2) [OF None] True pj pp better_order(1) by (simp add: is_best_def)
      next
        case (Some px)
        then have "bk1 = bk" and "px = pi" using G(3) K(3) by auto
        then have "pt_has_best (part bk pi)" "is_best sd (part_prices pb L sd ?k) (pt_best (part bk pi))" using exD(1,2) Some True by auto
        then show ?thesis using own is_best_insert [of sd "part_prices pb L sd ?k" "pt_best (part bk pi)" p] True pj pp \<open>bk1 = bk\<close>
          by (simp split: if_splits)
      qed
    next
      case False
      then have old: "act s bk k = Some pj" using a1 K(4) [of s k] by auto
      have "pj \<noteq> pi" using parts_okD(7) [OF R1(1) a1] K(3) False by blast
      then show ?thesis using exD(1,2) [OF old] kept G(1) [OF old] pp False by auto
    qed
  qed
  have store: "st_has_best (get_store s bk') \<and> is_best s (all_prices ?L s) (st_best (get_store s bk'))" if "all_prices ?L s \<noteq> {}"
  proof (cases "s = sd")
    case True
    have b: "st_has_best (get_store sd bk')" "st_best (get_store sd bk') = (if st_has_best (get_store sd bk) \<and> \<not> is_better sd p (st_best (get_store sd bk))
        then st_best (get_store sd bk) else p)"
      using K(5,6) [of sd] by (auto simp: bk' try_update_global_best_def Let_def link_order_eqs)
    show ?thesis
    proof (cases "all_prices L sd = {}")
      case e: True
      then have "\<not> st_has_best (get_store sd bk)" using exD(3) True by simp
      then show ?thesis using b True e all_prices_put [of sd p "L sd p @ [i]" L sd] better_order(1) by (simp add: is_best_def)
    next
      case False
      then have "st_has_best (get_store sd bk)" "is_best sd (all_prices L sd) (st_best (get_store sd bk))" using exD(3,4) True by auto
      then show ?thesis using b True is_best_insert [of sd "all_prices L sd" "st_best (get_store sd bk)" p]
        all_prices_put [of sd p "L sd p @ [i]" L sd] by (simp split: if_splits)
    qed
  next
    case False
    then have "get_store s bk' = get_store s bk1" by (simp add: bk' try_update_global_best_def Let_def link_order_eqs)
    then show ?thesis using False that exD(3,4) K(5,6) [of s] all_prices_put [of sd p "L sd p @ [i]" L s] by auto
  qed
  have "st_has_best (get_store s bk') \<longleftrightarrow> all_prices ?L s \<noteq> {}"
  proof (cases "s = sd")
    case True
    then show ?thesis using store all_prices_put [of sd p "L sd p @ [i]" L sd] by auto
  next
    case False
    then have "get_store s bk' = get_store s bk1" by (simp add: bk' try_update_global_best_def Let_def link_order_eqs)
    then show ?thesis using False exD(3) K(6) [of s] all_prices_put [of sd p "L sd p @ [i]" L s] by auto
  qed
  then show ?thesis unfolding side_exact_def using parts store by blast
qed

lemma pls_insert_best:
  assumes "book_rel np pb F L bk" and "best_exact pb L bk" and "i \<in> F" and "o_side (ord bk i) = sd"
    and "o_price (ord bk i) = p" and "price_ok np pb p" and "pls_insert_order sd i bk = Some bk'"
  shows "best_exact pb (put sd p (L sd p @ [i]) L) bk'"
  using pls_insert_side [OF assms(1) _ assms(3-7)] assms(2) by (simp add: best_exact_def)

lemma is_best_remove: "is_best sd P b \<Longrightarrow> b \<noteq> p \<Longrightarrow> is_best sd (P - {p}) b"
  by (simp add: is_best_def)

lemma is_best_subset: "is_best sd P b \<Longrightarrow> b \<in> Q \<Longrightarrow> Q \<subseteq> P \<Longrightarrow> is_best sd Q b"
  by (auto simp: is_best_def)

lemma price_in_part:
  assumes "price_ok np pb p" and "np \<le> 2 ^ 32" and "L sd p \<noteq> []"
  shows "p \<in> part_prices pb L sd (partition_id pb p)"
  using partition_id_facts(2,3) [OF assms(1,2)] assms(3) by (auto simp: part_prices_def)

lemma all_prices_parts:
  assumes rel: "book_rel np pb F L bk"
  shows "all_prices L sd = (\<Union>k \<in> {k. act sd bk k \<noteq> None}. part_prices pb L sd k)"
proof (rule set_eqI)
  note R = book_relD [OF rel] and P = parts_okD [OF book_relD(1) [OF rel]]
  fix p
  show "p \<in> all_prices L sd \<longleftrightarrow> p \<in> (\<Union>k \<in> {k. act sd bk k \<noteq> None}. part_prices pb L sd k)"
  proof
    assume ne: "p \<in> all_prices L sd"
    then obtain x where "x \<in> set (L sd p)" unfolding all_prices_def by (meson list.set_sel(1) mem_Collect_eq)
    from place_relD(2,3) [OF R(3) this] have ok: "price_ok np pb p" and a: "act sd bk (partition_id pb p) \<noteq> None" by auto
    have "p \<in> part_prices pb L sd (partition_id pb p)"
      using price_in_part [OF ok P(1)] ne by (simp add: all_prices_def)
    then show "p \<in> (\<Union>k \<in> {k. act sd bk k \<noteq> None}. part_prices pb L sd k)" using a by blast
  qed (auto simp: part_prices_def all_prices_def)
qed

text \<open>Exact partitions give an exact recomputed best price of the side.\<close>

lemma recompute_global_exact:
  assumes rel: "book_rel np pb F L bk" and ne: "all_prices L sd \<noteq> {}"
    and parts: "\<And>k pi. act sd bk k = Some pi \<Longrightarrow> is_best sd (part_prices pb L sd k) (pt_best (part bk pi))"
  shows "is_best sd (all_prices L sd) (best_of_partitions sd bk)"
proof -
  have in_all: "b \<in> all_prices L sd" if "b \<in> part_bests sd bk" for b
    using that parts all_prices_parts [OF rel, of sd] by (fastforce simp: part_bests_def is_best_def)
  have "0 \<le> b" if "b \<in> part_bests sd bk" for b
    using that parts by (fastforce simp: part_bests_def is_best_def part_prices_def)
  then have "INVALID_PRICE \<notin> part_bests sd bk" by (force simp: INVALID_PRICE_def)
  moreover have "part_bests sd bk \<noteq> {}" using ne all_prices_parts [OF rel, of sd] by (fastforce simp: part_bests_def)
  ultimately have b: "is_best sd (part_bests sd bk) (best_of_partitions sd bk)"
    using best_of_partitions_best [OF book_relD(1) [OF rel], of sd] by simp
  have "\<not> is_better sd p (best_of_partitions sd bk)" if pin: "p \<in> all_prices L sd" for p
  proof -
    obtain k pi where k: "act sd bk k = Some pi" "p \<in> part_prices pb L sd k" 
      using pin unfolding all_prices_parts [OF rel, of sd] by auto
    then have "\<not> is_better sd p (pt_best (part bk pi))" using parts by (auto simp: is_best_def)
    moreover have "pt_best (part bk pi) \<in> part_bests sd bk" using k(1) by (auto simp: part_bests_def)
    ultimately show ?thesis using b not_better_trans by (auto simp: is_best_def)
  qed
  then show ?thesis using b in_all by (auto simp: is_best_def)
qed

text \<open>Whatever is removed, the book before the cached prices are updated.\<close>

lemma unlink_facts:
  assumes rel: "book_rel np pb F L bk" and i: "i \<in> set (L sd p)" and a: "act sd bk (partition_id pb p) = Some pi"
  defines "L' \<equiv> put sd p (remove1 i (L sd p)) L" and "bk0 \<equiv> unlink_order sd i pi bk"
  shows "pls_remove_order sd i bk = Some
     (let bk1 = (if L' sd p = [] \<and> part_prices pb L' sd (partition_id pb p) \<noteq> {} \<and> pt_best (part bk pi) = p then upd_part pi (recompute_best sd) bk0 else bk0);
          changed = (L' sd p = [] \<and> (part_prices pb L' sd (partition_id pb p) = {} \<or> pt_best (part bk pi) = p)) in
      if st_has_best (get_store sd bk) \<and> st_best (get_store sd bk) = p \<and> changed then recompute_global_best sd bk1 else bk1)"
proof -
  note R = book_relD [OF rel] and P = parts_okD [OF book_relD(1) [OF rel]]
  have p: "o_price (ord bk i) = p" and ok: "price_ok np pb p" using place_relD(2,5) [OF R(3) i] by auto
  have rel0: "book_rel np pb (insert i F) L' bk0" unfolding L'_def bk0_def by (rule unlink_rel(1) [OF rel i a])
  note R0 = book_relD [OF rel0]
  have a0: "act sd bk0 (partition_id pb p) = Some pi" using a by (simp add: bk0_def unlink_order_eqs)
  have gp: "get_partition sd (partition_id pb p) bk = Some pi"
    using a P(3) partition_id_facts(1) [OF ok P(1)] by (simp add: get_partition_def)
  have active: "pl_active (level bk0 (pi, offset_in_partition pb p)) \<longleftrightarrow> L' sd p \<noteq> []"
    using level_of(2) [OF rel0 a0 ok] by (simp add: level_rel_def)
  have empty: "bm_empty (pt_bitmap (part bk0 pi)) \<longleftrightarrow> part_prices pb L' sd (partition_id pb p) = {}"
    using R0(4) a0 by (auto simp: bm_empty_iff levels_rel_def part_prices_def)
  have p0: "o_price (ord bk0 i) = p" using p by (simp add: bk0_def unlink_order_eqs unlinked_fields)
  have b0: "pt_best (part bk0 pi) = pt_best (part bk pi)" by (simp add: bk0_def link_bests)
  have u: "unlink_order_and_update_partition sd i pi bk =
      (if L' sd p = [] then if part_prices pb L' sd (partition_id pb p) = {} then (bk0, True)
         else if pt_best (part bk pi) = p then (upd_part pi (recompute_best sd) bk0, True) else (bk0, False) else (bk0, False))"
    unfolding unlink_order_and_update_partition_def Let_def p P(4) bk0_def [symmetric] active empty p0 b0 by simp
  have st: "get_store sd bk0 = get_store sd bk" by (simp add: bk0_def unlink_order_eqs)
  show ?thesis unfolding pls_remove_order_def p P(4) gp option.case u by (simp add: Let_def p0 st)
qed

lemma unlink_parts_exact:
  assumes rel: "book_rel np pb F L bk" and ex: "side_exact pb L bk s" and i: "i \<in> set (L sd p)"
    and a: "act sd bk (partition_id pb p) = Some pi"
  defines "L' \<equiv> put sd p (remove1 i (L sd p)) L"
  assumes s: "act s bk k = Some pj" and other: "(s, k) \<noteq> (sd, partition_id pb p) \<or> L' sd p \<noteq> [] \<or> pt_best (part bk pi) \<noteq> p"
  shows "pt_has_best (part bk pj)" and "is_best s (part_prices pb L' s k) (pt_best (part bk pj))"
proof -
  note R = book_relD [OF rel] and P = parts_okD [OF book_relD(1) [OF rel]]
  have ok: "price_ok np pb p" using place_relD(2) [OF R(3) i] .
  have old: "pt_has_best (part bk pj)" "is_best s (part_prices pb L s k) (pt_best (part bk pj))" using side_exactD(1,2) [OF ex s] .
  show "pt_has_best (part bk pj)" by (rule old)
  have pin: "p \<in> part_prices pb L sd (partition_id pb p)"
    using price_in_part [OF ok P(1), of L sd] i by (cases "L sd p") simp_all
  note pp = part_prices_put [OF ok P(1) P(5) [OF s], of sd "remove1 i (L sd p)" L s, folded L'_def]
  have Lp: "L' sd p = remove1 i (L sd p)" by (simp add: L'_def)
  show "is_best s (part_prices pb L' s k) (pt_best (part bk pj))"
  proof (cases "s = sd \<and> k = partition_id pb p")
    case True
    then have pj: "pj = pi" using s a by simp
    show ?thesis
    proof (cases "L' sd p = []")
      case e: True
      then show ?thesis using pp True pj other old(2) is_best_remove Lp by auto
    next
      case False
      then show ?thesis using pp True old(2) pin Lp by (simp add: insert_absorb)
    qed
  next
    case False
    then show ?thesis using pp old(2) by auto
  qed
qed

text \<open>Removing an order that is not the last of its partition.\<close>

lemma pls_remove_side:
  assumes rel: "book_rel np pb F L bk" and ex: "side_exact pb L bk s" and i: "i \<in> set (L sd p)"
    and rm: "pls_remove_order sd i bk = Some bk'"
  defines "L' \<equiv> put sd p (remove1 i (L sd p)) L"
  assumes ne: "part_prices pb L' sd (partition_id pb p) \<noteq> {}"
  shows "side_exact pb L' bk' s"
proof -
  note R = book_relD [OF rel] and P = parts_okD [OF book_relD(1) [OF rel]]
  have ok: "price_ok np pb p" using place_relD(2) [OF R(3) i] .
  obtain pi where a: "act sd bk (partition_id pb p) = Some pi" using place_relD(3) [OF R(3) i] by auto
  let ?bk0 = "unlink_order sd i pi bk"
  let ?re = "L' sd p = [] \<and> pt_best (part bk pi) = p"
  define bk1 where "bk1 = (if ?re then upd_part pi (recompute_best sd) ?bk0 else ?bk0)"
  have rel0: "book_rel np pb (insert i F) L' ?bk0" unfolding L'_def by (rule unlink_rel(1) [OF rel i a])
  have a0: "act s ?bk0 = act s bk" and st0: "get_store s ?bk0 = get_store s bk" for s by (simp_all add: unlink_order_eqs)
  have a1: "act s bk1 = act s bk" and st1: "get_store s bk1 = get_store s bk" for s by (auto simp: bk1_def st0)
  have same1: "same_queues ?bk0 bk1" by (simp add: bk1_def)
  have rel1: "book_rel np pb (insert i F) L' bk1" using rel0 same_queues_rel(1) [OF same1] by simp
  have bk': "bk' = (if st_has_best (get_store sd bk) \<and> st_best (get_store sd bk) = p \<and> ?re then recompute_global_best sd bk1 else bk1)"
    using unlink_facts [OF rel i a] rm ne unfolding L'_def [symmetric] by (simp add: Let_def bk1_def)
  have part': "part bk' = part bk1" "act s bk' = act s bk" for s
    by (simp_all add: bk' recompute_global_best_def Let_def a1)
  have parts: "pt_has_best (part bk1 pj) \<and> is_best s (part_prices pb L' s k) (pt_best (part bk1 pj))" if s: "act s bk k = Some pj" for k pj
  proof (cases "(s, k) = (sd, partition_id pb p) \<and> ?re")
    case True
    then have "pj = pi" using s a by simp
    then show ?thesis
      using recompute_best_exact [OF rel0, of sd "partition_id pb p" pi] a True ne by (simp add: a0 bk1_def)
  next
    case False
    have "pt_best (part bk1 pj) = pt_best (part bk pj) \<and> pt_has_best (part bk1 pj) = pt_has_best (part bk pj)"
    proof (cases "pj = pi")
      case True
      then have "(s, k) = (sd, partition_id pb p)" using P(7) [OF s] a by blast
      then show ?thesis using False by (auto simp: bk1_def link_bests)
    qed (simp add: bk1_def link_bests)
    then show ?thesis using unlink_parts_exact [OF rel ex i a s, folded L'_def] False by auto
  qed
  have pall: "all_prices L' s = (if s = sd then if L' sd p = [] then all_prices L sd - {p} else insert p (all_prices L sd) else all_prices L s)" for s
    unfolding L'_def using all_prices_put by simp
  have pin: "insert p (all_prices L sd) = all_prices L sd" using i by (auto simp: all_prices_def)
  have ne': "all_prices L' sd \<noteq> {}" using ne all_prices_parts [OF rel1, of sd] a a1 by fastforce
  have global: "st_has_best (get_store sd bk') \<and> is_best sd (all_prices L' sd) (st_best (get_store sd bk'))" if mine: "s = sd"
  proof -
    have exsd: "side_exact pb L bk sd" using ex mine by simp
    have old: "st_has_best (get_store sd bk)" "is_best sd (all_prices L sd) (st_best (get_store sd bk))"
      using side_exactD(3,4) [OF exsd] pin by auto
    show ?thesis
  proof (cases "st_best (get_store sd bk) = p \<and> L' sd p = []")
    case True
    have "p \<in> part_prices pb L sd (partition_id pb p)" using price_in_part [OF ok P(1), of L sd] i by (cases "L sd p") simp_all
    moreover have "part_prices pb L sd (partition_id pb p) \<subseteq> all_prices L sd" by (auto simp: part_prices_def all_prices_def)
    ultimately have "is_best sd (part_prices pb L sd (partition_id pb p)) p" using is_best_subset old(2) True by blast
    then have re: "?re" using side_exactD(2) [OF exsd a] is_best_unique True by metis
    have g: "is_best sd (all_prices L' sd) (best_of_partitions sd bk1)"
      using recompute_global_exact [OF rel1 ne'] parts a1 mine by simp
    then have "0 \<le> best_of_partitions sd bk1" unfolding is_best_def all_prices_parts [OF rel1, of sd] by (auto simp: part_prices_def)
    then have "best_of_partitions sd bk1 \<noteq> INVALID_PRICE" by (simp add: INVALID_PRICE_def)
    then show ?thesis using bk' re True old(1) g by (simp add: recompute_global_best_def Let_def)
  next
    case False
    then have "bk' = bk1" using bk' by auto
    then show ?thesis using old False pall [of sd] pin is_best_remove [OF old(2)] by (auto simp: st1)
  qed
  qed
  have rest: "(st_has_best (get_store s bk') \<longleftrightarrow> all_prices L' s \<noteq> {}) \<and> (all_prices L' s \<noteq> {} \<longrightarrow> is_best s (all_prices L' s) (st_best (get_store s bk')))"
  proof (cases "s = sd")
    case True
    then show ?thesis using global ne' by simp
  next
    case False
    then have "get_store s bk' = get_store s bk" by (simp add: bk' recompute_global_best_def Let_def st1)
    then show ?thesis using False side_exactD(3,4) [OF ex] pall [of s] by simp
  qed
  show ?thesis unfolding side_exact_def part' using parts rest by blast
qed

lemma pls_remove_best:
  assumes "book_rel np pb F L bk" and "best_exact pb L bk" and "i \<in> set (L sd p)" and "pls_remove_order sd i bk = Some bk'"
    and "part_prices pb (put sd p (remove1 i (L sd p)) L) sd (partition_id pb p) \<noteq> {}"
  shows "best_exact pb (put sd p (remove1 i (L sd p)) L) bk'"
  using pls_remove_side [OF assms(1) _ assms(3-5)] assms(2) by (simp add: best_exact_def)

text \<open>Removing the last order of a partition leaves the cached prices as they are.\<close>

lemma pls_remove_last:
  assumes rel: "book_rel np pb F L bk" and ex: "side_exact pb L bk sd" and i: "i \<in> set (L sd p)"
    and rm: "pls_remove_order sd i bk = Some bk'"
    and last: "part_prices pb (put sd p (remove1 i (L sd p)) L) sd (partition_id pb p) = {}"
  shows "st_best (get_store sd bk') = st_best (get_store sd bk)" and "st_has_best (get_store sd bk')"
proof -
  note R = book_relD [OF rel] and P = parts_okD [OF book_relD(1) [OF rel]]
  let ?L' = "put sd p (remove1 i (L sd p)) L"
  obtain pi where a: "act sd bk (partition_id pb p) = Some pi" using place_relD(3) [OF R(3) i] by auto
  let ?bk0 = "unlink_order sd i pi bk"
  have "p \<in> all_prices L sd" using i by (auto simp: all_prices_def)
  then have old: "st_has_best (get_store sd bk)" "is_best sd (all_prices L sd) (st_best (get_store sd bk))"
    using side_exactD(3,4) [OF ex] by auto
  have "?L' sd p = []" using last price_in_part [OF place_relD(2) [OF R(3) i] P(1), of ?L' sd] by auto
  then have bk': "bk' = (if st_best (get_store sd bk) = p then recompute_global_best sd ?bk0 else ?bk0)"
    using unlink_facts [OF rel i a] rm last old(1) by (simp add: Let_def)
  have bests: "part_bests sd ?bk0 = part_bests sd bk" by (simp add: part_bests_def link_bests unlink_order_eqs(3))
  have "best_of_partitions sd ?bk0 = best_of_partitions sd bk"
    unfolding best_of_partitions_def unlink_order_eqs(3) link_bests ..
  moreover have "is_best sd (all_prices L sd) (best_of_partitions sd bk)"
    using recompute_global_exact [OF rel, of sd] old(2) side_exactD(2) [OF ex] by (auto simp: is_best_def)
  ultimately have g: "best_of_partitions sd ?bk0 = st_best (get_store sd bk)" using is_best_unique old(2) by metis
  have "0 \<le> st_best (get_store sd bk)" using old(2) unfolding is_best_def all_prices_parts [OF rel, of sd] by (auto simp: part_prices_def)
  then show "st_best (get_store sd bk') = st_best (get_store sd bk)" "st_has_best (get_store sd bk')"
    using bk' g old(1) by (auto simp: recompute_global_best_def Let_def unlink_order_eqs(3) INVALID_PRICE_def)
qed

section \<open>The best price of the book\<close>

definition book_exact :: "nat \<Rightarrow> nat \<Rightarrow> abook \<Rightarrow> order_book \<Rightarrow> bool" where
  "book_exact np pb B bk \<longleftrightarrow> (\<exists>L. book_rel np pb {} L bk \<and> totals_rel np pb L (\<lambda>_ _. 0) bk \<and> best_exact pb L bk \<and> B = view L bk)"

lemma best_exact_frame:
  "bk_parts bk' = bk_parts bk \<Longrightarrow> (\<And>sd. get_store sd bk' = get_store sd bk) \<Longrightarrow> best_exact pb L bk' = best_exact pb L bk"
  by (simp add: best_exact_def side_exact_def)

lemma view_prices: "{p. view L bk sd p \<noteq> []} = all_prices L sd"
  by (simp add: view_def all_prices_def)

lemma part_prices_view: "part_prices pb (view L bk) sd k = part_prices pb L sd k"
  by (simp add: part_prices_def view_def)

lemma all_prices_view: "all_prices (view L bk) sd = all_prices L sd"
  by (simp add: all_prices_def view_def)

lemma side_exact_view: "side_exact pb (view L bk) bk' sd = side_exact pb L bk' sd"
  by (simp add: side_exact_def part_prices_view all_prices_view)

lemma insert_exact:
  assumes B: "book_exact np pb B bk" and k: "valid_id k" "\<not> has_id B k" and p: "price_ok np pb p"
    and ins: "book_insert_order sd k p q f bk = Some (bk', st, Some i)"
  shows "book_exact np pb (spec_insert sd p (k, q, f) B) bk'"
proof -
  obtain L where L: "book_rel np pb {} L bk" "totals_rel np pb L (\<lambda>_ _. 0) bk" "best_exact pb L bk" "B = view L bk"
    using B by (auto simp: book_exact_def)
  have new: "id_map (bk_ids bk) k = None" using find_index(2) [OF L(1) k(1)] k L(4) by (simp add: id_map_def)
  let ?f = "\<lambda>o'. o'\<lparr>o_id := k, o_type := LIMIT, o_tif := GTC, o_side := sd, o_price := p, o_qty := q, o_filled := f\<rparr>"
  obtain pool where al: "op_allocate (bk_pool bk) = (pool, Some i)"
    using ins by (auto simp: book_insert_order_def split: prod.splits option.splits if_splits)
  let ?bk = "upd_ord i ?f (bk\<lparr>bk_pool := pool, bk_ids := fst (id_insert (bk_ids bk) k i)\<rparr>)"
  have f: "o_id (?f o') = k \<and> o_next_free (?f o') = o_next_free o'" for o' by simp
  note A = reserve_rel [OF L(1) k(1) new al f]
  have pi: "pls_insert_order sd i ?bk = Some bk'"
    using ins A(1) al by (auto simp: book_insert_order_def split: prod.splits option.splits if_splits)
  have "best_exact pb L ?bk" using L(3) by (subst best_exact_frame [of _ bk]) simp_all
  from pls_insert_best [OF A(2) this _ _ _ p pi] have ex: "best_exact pb (put sd p (L sd p @ [i]) L) bk'" by simp
  show ?thesis
    using book_insert_rel [OF L(1,2) k(1) _ p, of sd q f] k(2) ins ex unfolding book_exact_def L(4)
    by (intro exI [of _ "put sd p (L sd p @ [i]) L"]) auto
qed

lemma remove_exact:
  assumes B: "book_exact np pb B bk" and e: "e \<in> set (B sd p)" and k: "valid_id (fst e)"
    and rest: "\<exists>n < 2 ^ pb. spec_remove (fst e) B sd (int (partition_id pb p * 2 ^ pb + n)) \<noteq> []"
  shows "\<exists>bk'. book_remove_order (fst e) bk = Some (bk', SUCCESS) \<and> book_exact np pb (spec_remove (fst e) B) bk'"
proof -
  obtain L where L: "book_rel np pb {} L bk" "totals_rel np pb L (\<lambda>_ _. 0) bk" "best_exact pb L bk" "B = view L bk"
    using B by (auto simp: book_exact_def)
  obtain i where i: "i \<in> set (L sd p)" "entry_of bk i = e" using e L(4) by (auto simp: view_def)
  let ?k = "fst e" and ?L = "put sd p (remove1 i (L sd p)) L"
  have kid: "o_id (ord bk i) = ?k" using i(2) by (auto simp: entry_of_def)
  have sd: "o_side (ord bk i) = sd" using place_relD(4) [OF book_relD(3) [OF L(1)] i(1)] .
  have find: "id_find (bk_ids bk) ?k = Some i" using find_index(1) [OF L(1) k] i(1) kid by (auto simp: resting_def)
  obtain bk1 where rm: "pls_remove_order sd i bk = Some bk1" using pls_remove_rel [OF L(1) i(1)] by metis
  obtain bk' where bk': "book_remove_order ?k bk = Some (bk', SUCCESS)" "book_rel np pb {} ?L bk'" "same_data bk bk'"
    "\<And>d. totals_rel np pb L d bk \<Longrightarrow> totals_rel np pb ?L d bk'" using book_remove_rel [OF L(1) i(1) kid] by metis
  have v: "view ?L bk' = spec_remove ?k B" using view_remove [OF L(1) i(1) kid] view_data [OF bk'(3)] L(4) by simp
  have "part_prices pb ?L sd (partition_id pb p) \<noteq> {}"
    using rest unfolding v [symmetric] by (auto simp: part_prices_def view_def)
  from pls_remove_best [OF L(1,3) i(1) rm this] have "best_exact pb ?L bk1" .
  then have "best_exact pb ?L bk'"
    using bk'(1) rm find sd by (subst best_exact_frame [of _ bk1]) (auto simp: book_remove_order_def)
  then show ?thesis using bk' L(2) v unfolding book_exact_def by auto
qed

lemma best_level_side:
  assumes rel: "book_rel np pb F L bk" and ex: "side_exact pb L bk sd"
  shows "(case get_best_price_level sd bk of None \<Rightarrow> all_prices L sd = {}
    | Some l \<Rightarrow> is_best sd (all_prices L sd) (pl_price (level bk l)) \<and> pl_head (level bk l) \<noteq> None)"
proof -
  note R = book_relD [OF rel] and P = parts_okD [OF book_relD(1) [OF rel]]
  let ?b = "st_best (get_store sd bk)"
  show ?thesis
  proof (cases "all_prices L sd = {}")
    case True
    then have "\<not> st_has_best (get_store sd bk)" using side_exactD(3) [OF ex] by auto
    then show ?thesis using True by (simp add: get_best_price_level_def)
  next
    case False
    then have b: "st_has_best (get_store sd bk)" "is_best sd (all_prices L sd) ?b" using side_exactD(3,4) [OF ex] by auto
    then have ne: "L sd ?b \<noteq> []" by (simp add: is_best_def all_prices_def)
    then obtain x where x: "x \<in> set (L sd ?b)" by (meson list.set_sel(1))
    from place_relD(2,3) [OF R(3) x] obtain pi where ok: "price_ok np pb ?b" and a: "act sd bk (partition_id pb ?b) = Some pi" by auto
    have gp: "get_best_price_level sd bk = Some (pi, offset_in_partition pb ?b)"
      using b(1) a partition_id_facts(1) [OF ok P(1)] by (simp add: get_best_price_level_def get_partition_def P(3,4))
    note lv = level_of [OF rel a ok]
    have "pl_price (level bk (pi, offset_in_partition pb ?b)) = ?b" using lvl_price [OF R(1) ok lv(1)] .
    moreover have "pl_head (level bk (pi, offset_in_partition pb ?b)) \<noteq> None"
      using lv(2) ne by (cases "L sd ?b") (auto simp: level_rel_def)
    ultimately show ?thesis using gp b(2) by simp
  qed
qed

lemma best_level_exact:
  assumes "book_exact np pb B bk"
  shows "(case get_best_price_level sd bk of None \<Rightarrow> {p. B sd p \<noteq> []} = {}
    | Some l \<Rightarrow> is_best sd {p. B sd p \<noteq> []} (pl_price (level bk l)) \<and> pl_head (level bk l) \<noteq> None)"
proof -
  obtain L where L: "book_rel np pb {} L bk" "best_exact pb L bk" "B = view L bk" using assms by (auto simp: book_exact_def)
  show ?thesis using best_level_side [OF L(1) best_exactD [OF L(2)], of sd] unfolding L(3) view_prices .
qed

lemma book_exact_init:
  assumes "0 < n" and "n \<le> 2 ^ 30" and "np \<le> 2 ^ 32"
  shows "book_exact np pb (\<lambda>_ _. []) (OrderBook_init n np (2 ^ pb) pb)"
proof -
  let ?bk = "OrderBook_init n np (2 ^ pb) pb"
  obtain L where L: "book_rel np pb {} L ?bk" "totals_rel np pb L (\<lambda>_ _. 0) ?bk" "(\<lambda>_ _. []) = view L ?bk"
    using represents_init [OF assms, of pb] by (auto simp: represents_def)
  have st: "get_store sd ?bk = PriceLevelStore_init np pb" for sd by (cases sd) (simp_all add: OrderBook_init_def)
  have "L sd p = []" for sd p using fun_cong [OF fun_cong [OF L(3)], of sd p] by (simp add: view_def)
  then have "best_exact pb L ?bk" unfolding best_exact_def side_exact_def st by (simp add: PriceLevelStore_init_def all_prices_def)
  then show ?thesis using L unfolding book_exact_def by blast
qed

lemma remove_last_stale:
  assumes B: "book_exact np pb B bk" and e: "e \<in> set (B sd p)" and k: "valid_id (fst e)" and best: "is_best sd {p. B sd p \<noteq> []} p"
    and last: "\<forall>n < 2 ^ pb. spec_remove (fst e) B sd (int (partition_id pb p * 2 ^ pb + n)) = []"
  shows "\<exists>bk' l. book_remove_order (fst e) bk = Some (bk', SUCCESS) \<and> represents np pb (spec_remove (fst e) B) bk' \<and>
    st_has_best (get_store sd bk') \<and> st_best (get_store sd bk') = p \<and> get_best_price_level sd bk' = Some l \<and> pl_head (level bk' l) = None"
proof -
  obtain L where L: "book_rel np pb {} L bk" "totals_rel np pb L (\<lambda>_ _. 0) bk" "best_exact pb L bk" "B = view L bk"
    using B by (auto simp: book_exact_def)
  obtain i where i: "i \<in> set (L sd p)" "entry_of bk i = e" using e L(4) by (auto simp: view_def)
  let ?k = "fst e" and ?L = "put sd p (remove1 i (L sd p)) L"
  note R = book_relD [OF L(1)]
  have kid: "o_id (ord bk i) = ?k" using i(2) by (auto simp: entry_of_def)
  have sd: "o_side (ord bk i) = sd" using place_relD(4) [OF R(3) i(1)] .
  have ok: "price_ok np pb p" using place_relD(2) [OF R(3) i(1)] .
  have find: "id_find (bk_ids bk) ?k = Some i" using find_index(1) [OF L(1) k] i(1) kid by (auto simp: resting_def)
  obtain bk1 where rm: "pls_remove_order sd i bk = Some bk1" using pls_remove_rel [OF L(1) i(1)] by metis
  obtain bk' where bk': "book_remove_order ?k bk = Some (bk', SUCCESS)" "book_rel np pb {} ?L bk'" "same_data bk bk'"
    "\<And>d. totals_rel np pb L d bk \<Longrightarrow> totals_rel np pb ?L d bk'" using book_remove_rel [OF L(1) i(1) kid] by metis
  note R' = book_relD [OF bk'(2)] and P' = parts_okD [OF book_relD(1) [OF bk'(2)]]
  have eq: "bk' = bk1\<lparr>bk_ids := fst (id_remove (bk_ids bk1) ?k), bk_pool := op_release i (bk_pool bk1)\<rparr>"
    using bk'(1) rm find sd by (simp add: book_remove_order_def)
  have v: "view ?L bk' = spec_remove ?k B" using view_remove [OF L(1) i(1) kid] view_data [OF bk'(3)] L(4) by simp
  have "spec_remove ?k B sd (int (partition_id pb p * 2 ^ pb + n)) = [] \<longleftrightarrow> ?L sd (int (partition_id pb p * 2 ^ pb + n)) = []" for n
    unfolding v [symmetric] by (simp add: view_def)
  then have none: "part_prices pb ?L sd (partition_id pb p) = {}" using last by (auto simp: part_prices_def)
  note S = pls_remove_last [OF L(1) best_exactD [OF L(3)] i(1) rm none]
  have "p \<in> all_prices L sd" using i(1) by (auto simp: all_prices_def)
  then have "is_best sd (all_prices L sd) (st_best (get_store sd bk))" using side_exactD(4) [OF best_exactD [OF L(3)]] by auto
  then have sb: "st_best (get_store sd bk) = p" using best is_best_unique by (metis L(4) view_prices)
  have best': "st_has_best (get_store sd bk')" "st_best (get_store sd bk') = p" using S sb by (simp_all add: eq)
  obtain pi where a: "act sd bk' (partition_id pb p) = Some pi"
    using place_relD(3) [OF R(3) i(1)] pls_remove_keeps(1) [OF rm, of sd] by (auto simp: eq)
  have gb: "get_best_price_level sd bk' = Some (pi, offset_in_partition pb p)"
    using best' a partition_id_facts(1) [OF ok P'(1)] by (simp add: get_best_price_level_def get_partition_def P'(3,4))
  have "?L sd p = []" using none price_in_part [OF ok P'(1), of ?L sd] by auto
  then have "pl_head (level bk' (pi, offset_in_partition pb p)) = None"
    using level_of(2) [OF bk'(2) a ok] by (simp add: level_rel_def)
  then show ?thesis using bk'(1,2) bk'(4) [OF L(2)] v best' gb unfolding represents_def by auto
qed

section \<open>The other side\<close>

text \<open>What an operation on one side leaves alone on the other: the side itself and the cached prices of its partitions.\<close>

definition side_kept :: "side \<Rightarrow> order_book \<Rightarrow> order_book \<Rightarrow> bool" where
  "side_kept s bk bk' \<longleftrightarrow> get_store s bk' = get_store s bk \<and>
     (\<forall>k pj. act s bk k = Some pj \<longrightarrow>
        pt_best (part bk' pj) = pt_best (part bk pj) \<and> pt_has_best (part bk' pj) = pt_has_best (part bk pj))"

lemma side_kept_refl [simp]: "side_kept s bk bk"
  by (simp add: side_kept_def)

lemma side_kept_trans: "side_kept s bk bk1 \<Longrightarrow> side_kept s bk1 bk2 \<Longrightarrow> side_kept s bk bk2"
  by (simp add: side_kept_def)

lemma side_kept_exact:
  "side_kept s bk bk' \<Longrightarrow> part_prices pb L' s = part_prices pb L s \<Longrightarrow> all_prices L' s = all_prices L s \<Longrightarrow>
   side_exact pb L bk s \<Longrightarrow> side_exact pb L' bk' s"
  by (auto simp: side_kept_def side_exact_def)

lemma get_set_store: "s \<noteq> sd \<Longrightarrow> get_store s (set_store sd st bk) = get_store s bk"
  by (cases s; cases sd) simp_all

lemma side_kept_steps:
  "side_kept s bk (link_order sd i pi bk)" "side_kept s bk (unlink_order sd i pi bk)" "side_kept s bk (set_price i q bk)"
  "s \<noteq> sd \<Longrightarrow> side_kept s bk (set_store sd st bk)" "s \<noteq> sd \<Longrightarrow> side_kept s bk (try_update_global_best sd q bk)"
  "s \<noteq> sd \<Longrightarrow> side_kept s bk (recompute_global_best sd bk)"
  by (auto simp: side_kept_def link_bests link_order_eqs unlink_order_eqs try_update_global_best_def recompute_global_best_def Let_def get_set_store)

lemma side_kept_part: "\<forall>k. act s bk k \<noteq> Some pi \<Longrightarrow> side_kept s bk (upd_part pi f bk)"
  by (auto simp: side_kept_def)

lemma side_kept_act: "side_kept s bk bk' \<Longrightarrow> act s bk' = act s bk"
  by (simp add: side_kept_def)

lemma create_kept:
  assumes "parts_ok np pb bk" and "get_or_create_partition sd k bk = Some (bk', pi)" and "s \<noteq> sd"
  shows "side_kept s bk bk'"
proof -
  have "get_store s bk' = get_store s bk"
    using assms(2,3) by (auto simp: get_or_create_partition_def Let_def get_set_store split: if_splits option.splits)
  then show ?thesis using get_or_create_bests(1) [OF assms(1,2)] by (simp add: side_kept_def)
qed

lemma insert_kept:
  assumes rel: "book_rel np pb F L bk" and ins: "pls_insert_order sd i bk = Some bk'" and s: "s \<noteq> sd"
  shows "side_kept s bk bk'"
proof -
  let ?p = "o_price (ord bk i)"
  obtain k bk1 pi where g: "get_or_create_partition sd k bk = Some (bk1, pi)"
    and bk': "bk' = upd_part pi (try_update_best sd ?p) (try_update_global_best sd ?p (link_order sd i pi bk1))"
    using ins by (auto simp: pls_insert_order_def split: option.splits)
  let ?bk2 = "try_update_global_best sd ?p (link_order sd i pi bk1)"
  have k2: "side_kept s bk1 ?bk2" by (rule side_kept_trans [OF side_kept_steps(1) side_kept_steps(5) [OF s]])
  have "act s bk1 k' \<noteq> Some pi" for k'
    using parts_okD(7) [OF book_relD(1) [OF get_or_create_rel(1) [OF rel g]], of sd k pi s k'] get_or_create_keeps(3) [OF g] s by auto
  then have "side_kept s ?bk2 bk'" unfolding bk' using side_kept_act [OF k2] by (intro side_kept_part) simp
  then show ?thesis using side_kept_trans [OF create_kept [OF book_relD(1) [OF rel] g s] side_kept_trans [OF k2]] by blast
qed

lemma remove_kept:
  assumes rel: "book_rel np pb F L bk" and i: "i \<in> set (L sd p)" and rm: "pls_remove_order sd i bk = Some bk'" and s: "s \<noteq> sd"
  shows "side_kept s bk bk'"
proof -
  obtain pi where a: "act sd bk (partition_id pb p) = Some pi" using place_relD(3) [OF book_relD(3) [OF rel] i] by auto
  let ?bk0 = "unlink_order sd i pi bk"
  have "act s ?bk0 k \<noteq> Some pi" for k
    using parts_okD(7) [OF book_relD(1) [OF rel] a, of s k] s by (auto simp: unlink_order_eqs)
  then have up: "side_kept s bk (upd_part pi (recompute_best sd) ?bk0)"
    by (intro side_kept_trans [OF side_kept_steps(2) side_kept_part]) simp
  have "bk' \<in> {?bk0, upd_part pi (recompute_best sd) ?bk0, recompute_global_best sd ?bk0,
      recompute_global_best sd (upd_part pi (recompute_best sd) ?bk0)}"
    using unlink_facts [OF rel i a] rm by (auto simp: Let_def split: if_splits)
  then show ?thesis
    using up side_kept_steps(2) [of s bk sd i pi] side_kept_trans [OF up side_kept_steps(6) [OF s]]
      side_kept_trans [OF side_kept_steps(2) side_kept_steps(6) [OF s]] by blast
qed

lemma relink_kept: "side_kept s bk (link_order sd i pj (set_price i q (unlink_order sd i pi bk)))"
  by (intro side_kept_trans [OF side_kept_steps(2) side_kept_trans [OF side_kept_steps(3) side_kept_steps(1)]])

lemma flashstrike_kept:
  assumes rel: "book_rel np pb F L bk" and fl: "try_to_reprice_order_by_flashstrike sd i q bk = Some (bk', b)" and s: "s \<noteq> sd"
  shows "side_kept s bk bk'"
proof -
  consider "bk' = bk" | pi where "bk' = link_order sd i pi (set_price i q (unlink_order sd i pi bk))"
    | pi st where "bk' = set_store sd st (link_order sd i pi (set_price i q (unlink_order sd i pi bk)))"
    | k bk1 pi pj where "get_or_create_partition sd k bk = Some (bk1, pj)"
        "bk' = try_update_global_best sd q (upd_part pj (try_update_best sd q) (link_order sd i pj (set_price i q (unlink_order sd i pi bk1))))"
    using fl by (auto simp: try_to_reprice_order_by_flashstrike_def Let_def split: option.splits if_splits)
  then show ?thesis
  proof cases
    case (4 k bk1 pi pj)
    let ?bk2 = "link_order sd i pj (set_price i q (unlink_order sd i pi bk1))"
    have "act s ?bk2 k' \<noteq> Some pj" for k'
      using parts_okD(7) [OF book_relD(1) [OF get_or_create_rel(1) [OF rel 4(1)]], of sd k pj s k'] get_or_create_keeps(3) [OF 4(1)] s
        side_kept_act [OF relink_kept [of s bk1 sd i pj q pi]] by auto
    then have "side_kept s ?bk2 bk'"
      unfolding 4(2) by (intro side_kept_trans [OF side_kept_part side_kept_steps(5) [OF s]]) simp
    then show ?thesis
      using side_kept_trans [OF create_kept [OF book_relD(1) [OF rel] 4(1) s] side_kept_trans [OF relink_kept]] by blast
  qed (use s in \<open>auto intro: relink_kept side_kept_trans [OF relink_kept side_kept_steps(4)]\<close>)
qed

text \<open>Changing a price on one side keeps the other.\<close>

lemma reprice_kept:
  assumes rel: "book_rel np pb F L bk" and i: "i \<in> set (L sd p)" and re: "pls_reprice_order sd i q bk = Some bk'" and s: "s \<noteq> sd"
  shows "side_kept s bk bk'"
proof -
  obtain bk1 b where fl: "try_to_reprice_order_by_flashstrike sd i q bk = Some (bk1, b)"
    using re by (auto simp: pls_reprice_order_def split: option.splits)
  show ?thesis
  proof (cases b)
    case True
    then show ?thesis using fl re flashstrike_kept [OF rel fl s] by (simp add: pls_reprice_order_def)
  next
    case False
    then have bk1: "bk1 = bk"
      using fl by (auto simp: try_to_reprice_order_by_flashstrike_def Let_def split: option.splits if_splits)
    obtain bk2 where rm: "pls_remove_order sd i bk = Some bk2"
      and rel2: "book_rel np pb (insert i F) (put sd p (remove1 i (L sd p)) L) bk2" using pls_remove_rel [OF rel i] by metis
    have rel3: "book_rel np pb (insert i F) (put sd p (remove1 i (L sd p)) L) (set_price i q bk2)" using set_price_rel [OF rel2] by simp
    have "pls_insert_order sd i (set_price i q bk2) = Some bk'" using re fl False bk1 rm by (simp add: pls_reprice_order_def)
    from insert_kept [OF rel3 this s] show ?thesis
      using side_kept_trans [OF remove_kept [OF rel i rm s] side_kept_trans [OF side_kept_steps(3)]] by blast
  qed
qed

section \<open>Properties\<close>

text \<open>Books that were built from the empty one by insertions and by removals that leave an order in the partition of the removed one.\<close>

inductive gentle_run :: "nat \<Rightarrow> nat \<Rightarrow> abook \<Rightarrow> order_book \<Rightarrow> bool"
  for np pb where
  gr_init: "0 < n \<Longrightarrow> n \<le> 2 ^ 30 \<Longrightarrow> np \<le> 2 ^ 32 \<Longrightarrow> gentle_run np pb (\<lambda>_ _. []) (OrderBook_init n np (2 ^ pb) pb)"
| gr_insert: "gentle_run np pb B bk \<Longrightarrow> valid_id k \<Longrightarrow> \<not> has_id B k \<Longrightarrow> price_ok np pb p \<Longrightarrow>
    book_insert_order sd k p q f bk = Some (bk', st, Some i) \<Longrightarrow> gentle_run np pb (spec_insert sd p (k, q, f) B) bk'"
| gr_remove: "gentle_run np pb B bk \<Longrightarrow> e \<in> set (B sd p) \<Longrightarrow> valid_id (fst e) \<Longrightarrow>
    \<exists>n < 2 ^ pb. spec_remove (fst e) B sd (int (partition_id pb p * 2 ^ pb + n)) \<noteq> [] \<Longrightarrow>
    book_remove_order (fst e) bk = Some (bk', st) \<Longrightarrow> gentle_run np pb (spec_remove (fst e) B) bk'"

lemma gentle_run_exact: "gentle_run np pb B bk \<Longrightarrow> book_exact np pb B bk"
proof (induction rule: gentle_run.induct)
  case (gr_remove B bk e sd p bk' st)
  then show ?case using remove_exact [of np pb B bk e sd p] by auto
qed (auto intro: book_exact_init insert_exact)


lemma gentle_one_ask: "gentle_run 2 3 (spec_insert ASK 5 (7, 10, 0) (\<lambda>_ _. [])) one_ask"
proof -
  have "gentle_run 2 3 (\<lambda>_ _. []) (OrderBook_init 4 2 8 3)" using gr_init [of 4 2 3] by simp
  then show ?thesis using gr_insert [OF _ seven_valid sample_price] one_ask_inserted by blast
qed


end
