(* ===== verification/Matching.thy ===== *)
theory Matching
  imports Book_Ops Control
begin

text \<open>
  The matching engine (matching_engine/manager.hpp) and its synchronous front end (instrument/sync_matching_engine.hpp).
  The taker of a match is either an incoming order on the stack or, after a price change, an order of the pool, which the
  loop then updates in place. The trades ring is the list of the events pushed so far: a push waits until there is room.
  Prices, quantities and their product are integers. The loop is a partial function: \<open>None\<close> is a null partition, a failed
  assertion on the arguments of a modification or a loop that does not end. The assertions that a level's total stays non-negative
  follow from the totals being the sums over the queues.
\<close>

section \<open>State\<close>

record normalized_instrument =
  price_min_scaled :: price
  price_max_scaled :: price
  qty_min_scaled :: quantity
  qty_max_scaled :: quantity
  min_notional :: int

record trade =
  t_seq :: u64
  t_maker :: order_id
  t_taker :: order_id
  t_price :: price
  t_qty :: quantity
  t_side :: side

record engine_t =
  mg_instrument :: normalized_instrument
  mg_book :: order_book
  mg_trades :: "trade list"
  mg_seq :: sequence

definition MatchingManager_init :: "normalized_instrument \<Rightarrow> nat \<Rightarrow> nat \<Rightarrow> nat \<Rightarrow> nat \<Rightarrow> engine_t" where
  "MatchingManager_init ni max_orders num_partitions partition_size partition_bits =
     \<lparr>mg_instrument = ni, mg_book = OrderBook_init max_orders num_partitions partition_size partition_bits,
      mg_trades = [], mg_seq = sequence_init 1\<rparr>"

definition validate_order :: "normalized_instrument \<Rightarrow> order \<Rightarrow> bool" where
  "validate_order ni o' =
     (if o_price o' < price_min_scaled ni \<or> o_price o' > price_max_scaled ni then False
      else if o_qty o' < qty_min_scaled ni \<or> o_qty o' > qty_max_scaled ni then False
      else if o_price o' * o_qty o' < min_notional ni then False
      else True)"

definition emit_trade_event :: "order_id \<Rightarrow> order_id \<Rightarrow> price \<Rightarrow> quantity \<Rightarrow> side \<Rightarrow> engine_t \<Rightarrow> engine_t" where
  "emit_trade_event maker taker price qty taker_side m =
     (case sequence_next (mg_seq m) of (sq, n) \<Rightarrow>
        m\<lparr>mg_seq := sq, mg_trades := mg_trades m @ [\<lparr>t_seq = n, t_maker = maker, t_taker = taker, t_price = price, t_qty = qty, t_side = taker_side\<rparr>]\<rparr>)"

section \<open>Matching\<close>

datatype taker = OnFly order | InBook nat

fun taker_order :: "taker \<Rightarrow> order_book \<Rightarrow> order" where
  "taker_order (OnFly o') bk = o'"
| "taker_order (InBook j) bk = ord bk j"

definition fill_order :: "quantity \<Rightarrow> order \<Rightarrow> order" where
  "fill_order x o' = o'\<lparr>o_qty := o_qty o' - x, o_filled := o_filled o' + x\<rparr>"

fun taker_fill :: "quantity \<Rightarrow> taker \<Rightarrow> order_book \<Rightarrow> taker \<times> order_book" where
  "taker_fill x (OnFly o') bk = (OnFly (fill_order x o'), bk)"
| "taker_fill x (InBook j) bk = (InBook j, upd_ord j (fill_order x) bk)"

record match_state =
  ms_eng :: engine_t
  ms_taker :: taker
  ms_trades :: u32
  ms_last :: price

text \<open>The condition of the loop, with the level and the head of its queue when it holds.\<close>

definition match_cond :: "side \<Rightarrow> match_state \<Rightarrow> ((nat \<times> nat) \<times> nat) option" where
  "match_cond sd ms =
     (let bk = mg_book (ms_eng ms) in
      case get_best_price_level (opp_side sd) bk of
        None \<Rightarrow> None
      | Some l \<Rightarrow>
          (case pl_head (level bk l) of
             None \<Rightarrow> None
           | Some i \<Rightarrow> if o_qty (taker_order (ms_taker ms) bk) > 0 then Some (l, i) else None))"

definition match_step :: "nat \<times> nat \<Rightarrow> nat \<Rightarrow> match_state \<Rightarrow> match_state option" where
  "match_step l i ms =
     (let bk = mg_book (ms_eng ms);
          trade_qty = min (o_qty (taker_order (ms_taker ms) bk)) (o_qty (ord bk i));
          (taker, bk1) = taker_fill trade_qty (ms_taker ms) bk;
          bk2 = upd_ord i (fill_order trade_qty) bk1;
          bk3 = upd_level (fst l) (snd l) (\<lambda>pl. pl\<lparr>pl_qty := pl_qty pl - trade_qty\<rparr>) bk2;
          last_price = pl_price (level bk3 l) in
      case (if o_qty (ord bk3 i) = 0 then map_option fst (book_remove_order (o_id (ord bk3 i)) bk3) else Some bk3) of
        None \<Rightarrow> None
      | Some bk4 \<Rightarrow>
          Some (ms\<lparr>ms_taker := taker, ms_last := last_price, ms_trades := ms_trades ms + 1,
            ms_eng := emit_trade_event (o_id (ord bk4 i)) (o_id (taker_order taker bk4)) last_price trade_qty
              (o_side (taker_order taker bk4)) ((ms_eng ms)\<lparr>mg_book := bk4\<rparr>)\<rparr>))"

partial_function (option) match_loop :: "side \<Rightarrow> match_state \<Rightarrow> match_state option" where
  "match_loop sd ms =
     (case match_cond sd ms of
        None \<Rightarrow> Some ms
      | Some (l, i) \<Rightarrow> (case match_step l i ms of None \<Rightarrow> None | Some ms' \<Rightarrow> match_loop sd ms'))"

definition match_order :: "side \<Rightarrow> match_state \<Rightarrow> (match_state \<times> operation_status) option" where
  "match_order sd ms0 =
     (let ms = ms0\<lparr>ms_trades := 0\<rparr>; bk = mg_book (ms_eng ms); incoming = taker_order (ms_taker ms) bk;
          best = get_best_price_level (opp_side sd) bk in
      if o_type incoming = LIMIT \<and> best \<noteq> None \<and> \<not> crosses sd (o_price incoming) (pl_price (level bk (the best)))
      then Some (ms\<lparr>ms_last := 0\<rparr>, NO_MATCH)
      else case match_loop sd ms of
          None \<Rightarrow> None
        | Some ms' \<Rightarrow>
            (let o' = taker_order (ms_taker ms') (mg_book (ms_eng ms')) in
             Some (ms', if o_filled o' > 0 then if o_qty o' = 0 then FULL_FILL else PARTIAL_FILL else NO_MATCH)))"

definition process_order :: "order \<Rightarrow> engine_t \<Rightarrow> (engine_t \<times> operation_status \<times> order_idx) option" where
  "process_order o' m =
     (if \<not> validate_order (mg_instrument m) o' then Some (m, REJECTED, None)
      else case match_order (o_side o') \<lparr>ms_eng = m, ms_taker = OnFly o', ms_trades = 0, ms_last = 0\<rparr> of
          None \<Rightarrow> None
        | Some (ms, status) \<Rightarrow>
            (let o1 = taker_order (ms_taker ms) (mg_book (ms_eng ms)) in
             if o_type o1 = MARKET \<or> status = FULL_FILL then Some (ms_eng ms, status, None)
             else case book_insert_order (o_side o') (o_id o1) (o_price o1) (o_qty o1) (o_filled o1) (mg_book (ms_eng ms)) of
                 None \<Rightarrow> None
               | Some (bk, insert_status, idx) \<Rightarrow>
                   Some ((ms_eng ms)\<lparr>mg_book := bk\<rparr>,
                     if insert_status = SUCCESS
                     then if o_filled o1 > 0 then if o_qty o1 > 0 then PARTIAL_FILL else FULL_FILL else status
                     else insert_status, idx)))"

definition match_resting_order :: "side \<Rightarrow> nat \<Rightarrow> engine_t \<Rightarrow> (engine_t \<times> operation_status) option" where
  "match_resting_order sd j m =
     (let qty = o_qty (ord (mg_book m) j) in
      case match_order sd \<lparr>ms_eng = m, ms_taker = InBook j, ms_trades = 0, ms_last = 0\<rparr> of
        None \<Rightarrow> None
      | Some (ms, status) \<Rightarrow>
          (let bk = mg_book (ms_eng ms); resting = ord bk j in
           case (if status = PARTIAL_FILL \<or> status = FULL_FILL
                 then (case get_or_create_partition sd (pid sd bk (o_price resting)) bk of
                         None \<Rightarrow> None
                       | Some (bk1, pi) \<Rightarrow> Some (upd_level pi (off sd bk (o_price resting))
                           (\<lambda>pl. pl\<lparr>pl_qty := pl_qty pl - (qty - o_qty resting)\<rparr>) bk1))
                 else Some bk) of
             None \<Rightarrow> None
           | Some bk2 \<Rightarrow>
               if status = FULL_FILL
               then (case book_remove_order (o_id resting) bk2 of
                       None \<Rightarrow> None | Some (bk3, _) \<Rightarrow> Some ((ms_eng ms)\<lparr>mg_book := bk3\<rparr>, status))
               else Some ((ms_eng ms)\<lparr>mg_book := bk2\<rparr>, status)))"

definition modify_order_price :: "order_id \<Rightarrow> price \<Rightarrow> engine_t \<Rightarrow> (engine_t \<times> operation_status) option" where
  "modify_order_price orderid new_price m =
     (if \<not> 0 < new_price \<or> \<not> new_price < price_max_scaled (mg_instrument m) then None
      else case book_reprice_order orderid new_price (mg_book m) of
        None \<Rightarrow> None
      | Some (bk, status, j) \<Rightarrow>
          (let m1 = m\<lparr>mg_book := bk\<rparr> in
           if status \<noteq> SUCCESS then Some (m1, status)
           else case match_resting_order (o_side (ord bk (the j))) (the j) m1 of
               None \<Rightarrow> None
             | Some (m2, match_status) \<Rightarrow>
                 Some (m2, if match_status = PARTIAL_FILL \<or> match_status = FULL_FILL then match_status else status)))"

definition modify_order_quantity :: "order_id \<Rightarrow> quantity \<Rightarrow> engine_t \<Rightarrow> (engine_t \<times> operation_status) option" where
  "modify_order_quantity orderid new_qty m =
     (if \<not> 0 < new_qty then None
      else map_option (\<lambda>(bk, status). (m\<lparr>mg_book := bk\<rparr>, status)) (book_resize_order orderid new_qty (mg_book m)))"

definition cancel_order :: "order_id \<Rightarrow> engine_t \<Rightarrow> (engine_t \<times> operation_status) option" where
  "cancel_order orderid m =
     map_option (\<lambda>(bk, status). (m\<lparr>mg_book := bk\<rparr>, status)) (book_remove_order orderid (mg_book m))"

section \<open>Requests\<close>

datatype request_type = NEW_ORDER | MODIFY_ORDER_PRICE | MODIFY_ORDER_QUANTITY | CANCEL_ORDER

record request_event =
  rq_type :: request_type
  rq_order_id :: order_id
  rq_order_type :: order_type
  rq_side :: side
  rq_price :: price
  rq_quantity :: quantity

text \<open>\<^verbatim>\<open>process_order\<close> by fields builds a zero-initialised order; \<^verbatim>\<open>process_event_\<close> drops the status.\<close>

definition new_order :: "order_id \<Rightarrow> order_type \<Rightarrow> side \<Rightarrow> price \<Rightarrow> quantity \<Rightarrow> order" where
  "new_order i ty sd p q = blank_order\<lparr>o_id := i, o_type := ty, o_side := sd, o_price := p, o_qty := q, o_filled := 0\<rparr>"

definition process_event :: "request_event \<Rightarrow> engine_t \<Rightarrow> engine_t option" where
  "process_event ev m =
     (case rq_type ev of
        NEW_ORDER \<Rightarrow> map_option fst (process_order (new_order (rq_order_id ev) (rq_order_type ev) (rq_side ev) (rq_price ev) (rq_quantity ev)) m)
      | MODIFY_ORDER_PRICE \<Rightarrow> map_option fst (modify_order_price (rq_order_id ev) (rq_price ev) m)
      | MODIFY_ORDER_QUANTITY \<Rightarrow> map_option fst (modify_order_quantity (rq_order_id ev) (rq_quantity ev) m)
      | CANCEL_ORDER \<Rightarrow> map_option fst (cancel_order (rq_order_id ev) m))"

fun submit_events :: "request_event list \<Rightarrow> engine_t \<Rightarrow> engine_t option" where
  "submit_events [] m = Some m"
| "submit_events (ev # evs) m = (case process_event ev m of None \<Rightarrow> None | Some m' \<Rightarrow> submit_events evs m')"

end
