(* ===== verification/Matching_Run.thy ===== *)
theory Matching_Run
  imports Matching Best_Price
begin

text \<open>
  Properties of the matching engine: the matching loop ends, conserves quantity, and fills the orders of every price in the order of
  their arrival; the effect of a whole request on the abstract book.
\<close>

section \<open>Filling the head of a queue\<close>

text \<open>A trade takes from the oldest order at its price, at most what that order still has, and removes the order when nothing
  is left of it.\<close>

fun take_head :: "trade \<Rightarrow> (price \<Rightarrow> entry list) \<Rightarrow> (price \<Rightarrow> entry list) option" where
  "take_head t Q =
     (case Q (t_price t) of
        [] \<Rightarrow> None
      | (k, q, f) # rest \<Rightarrow>
          if k = t_maker t \<and> 0 < t_qty t \<and> t_qty t \<le> q
          then Some (Q(t_price t := if t_qty t = q then rest else (k, q - t_qty t, f + t_qty t) # rest))
          else None)"

fun fifo_fills :: "trade list \<Rightarrow> (price \<Rightarrow> entry list) \<Rightarrow> (price \<Rightarrow> entry list) option" where
  "fifo_fills [] Q = Some Q"
| "fifo_fills (t # ts) Q = (case take_head t Q of None \<Rightarrow> None | Some Q' \<Rightarrow> fifo_fills ts Q')"

text \<open>Trades for a taker that wants \<open>r\<close>: each is at the best price among the resting orders of the side at that time, for as much as the taker
  still wants and the oldest order there has.\<close>

fun best_fills :: "side \<Rightarrow> quantity \<Rightarrow> trade list \<Rightarrow> (price \<Rightarrow> entry list) \<Rightarrow> bool" where
  "best_fills sd r [] Q \<longleftrightarrow> True"
| "best_fills sd r (t # ts) Q \<longleftrightarrow>
     is_best sd {p. Q p \<noteq> []} (t_price t) \<and> t_qty t = min r (fst (snd (hd (Q (t_price t))))) \<and>
     (case take_head t Q of None \<Rightarrow> False | Some Q' \<Rightarrow> best_fills sd (r - t_qty t) ts Q')"

text \<open>No order rests in the partition of a price.\<close>

definition partition_empty :: "nat \<Rightarrow> (price \<Rightarrow> entry list) \<Rightarrow> price \<Rightarrow> bool" where
  "partition_empty pb Q p \<longleftrightarrow> (\<forall>n < 2 ^ pb. Q (int (partition_id pb p * 2 ^ pb + n)) = [])"

text \<open>Why matching stops with a rest \<open>r\<close>: nothing is wanted, nothing is left on the side, or the last trade emptied its partition.\<close>

definition matching_stops :: "nat \<Rightarrow> quantity \<Rightarrow> trade list \<Rightarrow> (price \<Rightarrow> entry list) \<Rightarrow> bool" where
  "matching_stops pb r ts Q \<longleftrightarrow> r = 0 \<or> (\<forall>p. Q p = []) \<or> ts \<noteq> [] \<and> partition_empty pb Q (t_price (last ts))"

text \<open>There is no best level on a side of the book, or its queue is empty.\<close>

definition no_best_head :: "side \<Rightarrow> order_book \<Rightarrow> bool" where
  "no_best_head sd bk \<longleftrightarrow> (case get_best_price_level sd bk of None \<Rightarrow> True | Some l \<Rightarrow> pl_head (level bk l) = None)"

text \<open>A limit order that does not reach the best price of the other side.\<close>

definition out_of_reach :: "side \<Rightarrow> order \<Rightarrow> order_book \<Rightarrow> bool" where
  "out_of_reach sd o' bk \<longleftrightarrow> o_type o' = LIMIT \<and>
     (case get_best_price_level (opp_side sd) bk of None \<Rightarrow> False | Some l \<Rightarrow> \<not> crosses sd (o_price o') (pl_price (level bk l)))"

definition traded :: "trade list \<Rightarrow> quantity" where
  "traded ts = sum_list (map t_qty ts)"

lemma traded_simps [simp]: "traded [] = 0" "traded (t # ts) = t_qty t + traded ts" "traded (xs @ ys) = traded xs + traded ys"
  by (simp_all add: traded_def)

section \<open>One step\<close>

definition positive :: "side \<Rightarrow> queues \<Rightarrow> order_book \<Rightarrow> bool" where
  "positive sd L bk \<longleftrightarrow> (\<forall>p. \<forall>i \<in> set (L sd p). 0 < o_qty (ord bk i) \<and> 0 \<le> o_filled (ord bk i))"

fun taker_placed :: "side \<Rightarrow> queues \<Rightarrow> taker \<Rightarrow> bool" where
  "taker_placed sd L (OnFly o') \<longleftrightarrow> True"
| "taker_placed sd L (InBook j) \<longleftrightarrow> (\<exists>p. j \<in> set (L sd p))"

abbreviation ms_book :: "match_state \<Rightarrow> order_book" where
  "ms_book ms \<equiv> mg_book (ms_eng ms)"

abbreviation ms_order :: "match_state \<Rightarrow> order" where
  "ms_order ms \<equiv> taker_order (ms_taker ms) (ms_book ms)"

definition match_inv :: "side \<Rightarrow> nat \<Rightarrow> nat \<Rightarrow> queues \<Rightarrow> match_state \<Rightarrow> bool" where
  "match_inv sd np pb L ms \<longleftrightarrow> book_rel np pb {} L (ms_book ms) \<and> positive (opp_side sd) L (ms_book ms) \<and>
     taker_placed sd L (ms_taker ms)"

lemma match_cond_facts:
  assumes inv: "match_inv sd np pb L ms" and c: "match_cond sd ms = Some (l, i)"
  obtains pi p xs where "l = (pi, offset_in_partition pb p)" and "price_ok np pb p"
    and "act (opp_side sd) (ms_book ms) (partition_id pb p) = Some pi" and "L (opp_side sd) p = i # xs"
    and "0 < o_qty (ms_order ms)" and "pl_price (level (ms_book ms) l) = p"
    and "price_ok np pb (st_best (get_store (opp_side sd) (ms_book ms))) \<Longrightarrow> st_best (get_store (opp_side sd) (ms_book ms)) = p"
proof -
  let ?bk = "ms_book ms" and ?op = "opp_side sd"
  have rel: "book_rel np pb {} L ?bk" using inv by (simp add: match_inv_def)
  note R = book_relD [OF rel] and P = parts_okD [OF book_relD(1) [OF rel]]
  let ?best = "st_best (get_store ?op ?bk)"
  let ?k = "partition_id pb ?best" and ?n = "offset_in_partition pb ?best"
  from c obtain pi where l: "l = (pi, ?n)" and a: "act ?op ?bk ?k = Some pi" and h: "pl_head (level ?bk l) = Some i"
    and q: "0 < o_qty (ms_order ms)"
    by (auto simp: match_cond_def Let_def get_best_price_level_def get_partition_def P(3,4) split: option.splits if_splits)
  have n: "?n < 2 ^ pb"
  proof -
    have "?best mod 2 ^ pb < 2 ^ pb" by simp
    then have "int ?n < int (2 ^ pb)" unfolding offset_in_partition_def by simp
    then show ?thesis using of_nat_less_iff by blast
  qed
  define p where "p = int (?k * 2 ^ pb + ?n)"
  note D = partition_id_of [OF P(5) [OF a] n P(1), folded p_def]
  have lv: "level_rel (ord ?bk) (L ?op p) (level ?bk (pi, ?n))" using level_of(2) [OF rel, of ?op p pi] a D by simp
  then obtain xs where xs: "L ?op p = i # xs" using h l by (cases "L ?op p") (auto simp: level_rel_def)
  have pr: "pl_price (level ?bk l) = p" using P(9) [OF a n] l by (simp add: p_def)
  have "price_ok np pb ?best \<Longrightarrow> ?best = p" using partition_id_facts(2) [of np pb ?best] P(1) by (simp add: p_def)
  then show ?thesis using that [of pi p xs] l D a xs q pr by simp
qed

lemma taker_fill_facts:
  assumes rel: "book_rel np pb {} L bk" and pl: "taker_placed sd L t" and e: "taker_fill x t bk = (t', bk')"
  shows "book_rel np pb {} L bk'" and "taker_placed sd L t'" and "taker_order t' bk' = fill_order x (taker_order t bk)"
    and "i \<in> set (L (opp_side sd) p) \<Longrightarrow> ord bk' i = ord bk i" and "i \<in> set (L (opp_side sd) p) \<Longrightarrow> t \<noteq> InBook i"
    and "bk_parts bk' = bk_parts bk" and "get_store s bk' = get_store s bk"
    and "t' = InBook j \<longleftrightarrow> t = InBook j"
proof -
  have neq: "t \<noteq> InBook i" if "i \<in> set (L (opp_side sd) p)" for i p
    using that pl queues_disjoint [OF book_relD(3) [OF rel] that, of sd] by auto
  then show "i \<in> set (L (opp_side sd) p) \<Longrightarrow> t \<noteq> InBook i" .
  show "book_rel np pb {} L bk'"
    using e rel by (cases t) (auto simp: fill_order_def intro!: ord_update_rel)
  show "taker_placed sd L t'" "taker_order t' bk' = fill_order x (taker_order t bk)"
    "bk_parts bk' = bk_parts bk" "get_store s bk' = get_store s bk" "t' = InBook j \<longleftrightarrow> t = InBook j"
    using e pl by (cases t; auto)+
  show "i \<in> set (L (opp_side sd) p) \<Longrightarrow> ord bk' i = ord bk i" using e neq [of i p] by (cases t) (auto split: if_splits)
qed

text \<open>What a fill of the taker adds to the difference between the total of its level and the sum of its queue.\<close>

fun taker_due :: "side \<Rightarrow> match_state \<Rightarrow> quantity \<Rightarrow> (side \<Rightarrow> price \<Rightarrow> quantity) \<Rightarrow> side \<Rightarrow> price \<Rightarrow> quantity" where
  "taker_due sd ms x d = (case ms_taker ms of OnFly _ \<Rightarrow> d | InBook j \<Rightarrow> dadd sd (o_price (ord (ms_book ms) j)) x d)"

lemma fill_fields [simp]:
  "o_id (fill_order x o') = o_id o'" "o_side (fill_order x o') = o_side o'" "o_price (fill_order x o') = o_price o'"
  "o_qty (fill_order x o') = o_qty o' - x" "o_filled (fill_order x o') = o_filled o' + x" "o_prev (fill_order x o') = o_prev o'"
  "o_next (fill_order x o') = o_next o'" "o_next_free (fill_order x o') = o_next_free o'" "o_type (fill_order x o') = o_type o'"
  by (simp_all add: fill_order_def)

definition taker_filled :: "quantity \<Rightarrow> taker \<Rightarrow> taker" where
  "taker_filled x t = (case t of OnFly o' \<Rightarrow> OnFly (fill_order x o') | InBook j \<Rightarrow> InBook j)"

lemma taker_fill_totals:
  assumes rel: "book_rel np pb {} L bk" and pl: "taker_placed sd L t" and e: "taker_fill x t bk = (t', bk')"
    and tot: "totals_rel np pb L d bk"
  shows "totals_rel np pb L (case t of OnFly _ \<Rightarrow> d | InBook j \<Rightarrow> dadd sd (o_price (ord bk j)) x d) bk'"
proof (cases t)
  case (InBook j)
  then obtain p where j: "j \<in> set (L sd p)" using pl by auto
  then have "o_price (ord bk j) = p" using place_relD(5) [OF book_relD(3) [OF rel]] by blast
  then show ?thesis using order_qty_totals [OF rel j tot, of "fill_order x"] e InBook by auto
qed (use e tot in auto)

text \<open>The book after a fill of the head order of a queue, before that order is removed.\<close>

lemma fill_head_rel:
  fixes x :: quantity
  assumes rel: "book_rel np pb {} L bk" and i: "i \<in> set (L sd p)" and a: "act sd bk (partition_id pb p) = Some pi"
  defines "bk' \<equiv> upd_level pi (offset_in_partition pb p) (\<lambda>pl. pl\<lparr>pl_qty := pl_qty pl - x\<rparr>) (upd_ord i (fill_order x) bk)"
  shows "book_rel np pb {} L bk'" and "ord bk' = (ord bk)(i := fill_order x (ord bk i))"
    and "totals_rel np pb L d bk \<Longrightarrow> totals_rel np pb L d bk'"
    and "pl_price (level bk' l) = pl_price (level bk l)"
proof -
  note R = book_relD [OF rel]
  have ok: "price_ok np pb p" using place_relD(2) [OF R(3) i] .
  let ?bk1 = "upd_ord i (fill_order x) bk"
  have rel1: "book_rel np pb {} L ?bk1" by (rule ord_update_rel [OF rel]) auto
  have a1: "act sd ?bk1 (partition_id pb p) = Some pi" using a by simp
  have eq: "bk' = upd_level pi (offset_in_partition pb p) (\<lambda>pl. pl\<lparr>pl_qty := pl_qty pl + (- x)\<rparr>) ?bk1"
    by (simp add: bk'_def)
  note V = level_qty_rel [OF rel1 a1 ok, where x = "- x", folded eq]
  show "book_rel np pb {} L bk'" by (rule V(1))
  show "ord bk' = (ord bk)(i := fill_order x (ord bk i))" by (simp add: V(3))
  show "totals_rel np pb L d bk'" if "totals_rel np pb L d bk"
    using V(2) [OF order_qty_totals [OF rel i that, of "fill_order x"]] by simp
  show "pl_price (level bk' l) = pl_price (level bk l)" by (cases l) (simp add: bk'_def upd_level_def)
qed

text \<open>Matching creates no partitions.\<close>

definition same_parts :: "order_book \<Rightarrow> order_book \<Rightarrow> bool" where
  "same_parts bk bk' \<longleftrightarrow> (\<forall>sd. act sd bk' = act sd bk) \<and> pp_free (bk_parts bk') = pp_free (bk_parts bk)"

lemma book_remove_parts: "book_remove_order k bk = Some (bk', st) \<Longrightarrow> same_parts bk bk'"
  by (auto simp: book_remove_order_def same_parts_def dest: pls_remove_keeps split: option.splits)

lemma book_remove_ex:
  assumes "book_rel np pb {} L bk" and "i \<in> set (L sd p)" and "o_id (ord bk i) = k"
  shows "\<exists>bk'. book_remove_order k bk = Some (bk', SUCCESS) \<and> book_rel np pb {} (put sd p (remove1 i (L sd p)) L) bk' \<and>
    same_data bk bk' \<and> (\<forall>d. totals_rel np pb L d bk \<longrightarrow> totals_rel np pb (put sd p (remove1 i (L sd p)) L) d bk')"
  by (rule book_remove_rel [OF assms]) blast

text \<open>Removing an order of a side whose cached prices are exact: they stay so, or the partition is empty; then a best price in it stays cached and its queue
  has no head.\<close>

lemma remove_side_exact:
  assumes rel: "book_rel np pb {} L bk" and i: "i \<in> set (L sd p)" and ex: "side_exact pb L bk sd"
    and rm: "book_remove_order (o_id (ord bk i)) bk = Some (bk', st)"
  defines "L' \<equiv> put sd p (remove1 i (L sd p)) L"
  shows "side_exact pb L' bk' sd \<or> part_prices pb L' sd (partition_id pb p) = {} \<and> (st_best (get_store sd bk) = p \<longrightarrow> no_best_head sd bk')"
proof -
  let ?k = "o_id (ord bk i)"
  note R = book_relD [OF rel]
  have r: "resting L i" using i by (auto simp: resting_def)
  then have "valid_id ?k" using R(5) by (auto simp: id_rel_def)
  then have find: "id_find (bk_ids bk) ?k = Some i" using find_index(1) [OF rel] r by simp
  have side: "o_side (ord bk i) = sd" and ok: "price_ok np pb p" using place_relD(2,4) [OF R(3) i] by auto
  obtain bk1 where rm1: "pls_remove_order sd i bk = Some bk1" using pls_remove_rel [OF rel i] by metis
  then have bk': "bk' = bk1\<lparr>bk_ids := fst (id_remove (bk_ids bk1) ?k), bk_pool := op_release i (bk_pool bk1)\<rparr>"
    using rm find side by (simp add: book_remove_order_def)
  have same: "side_exact pb L' bk' sd = side_exact pb L' bk1 sd" by (simp add: bk' side_exact_def)
  show ?thesis
  proof (cases "part_prices pb L' sd (partition_id pb p) = {}")
    case False
    then show ?thesis using pls_remove_side [OF rel ex i rm1] same by (simp add: L'_def)
  next
    case True
    have "no_best_head sd bk'" if best: "st_best (get_store sd bk) = p"
    proof -
      note S = pls_remove_last [OF rel ex i rm1 True [unfolded L'_def]]
      have rel': "book_rel np pb {} L' bk'" using book_remove_rel [OF rel i refl] rm unfolding L'_def by (metis fst_conv option.inject)
      note P' = parts_okD [OF book_relD(1) [OF rel']]
      obtain pi where a: "act sd bk' (partition_id pb p) = Some pi"
        using place_relD(3) [OF R(3) i] pls_remove_keeps(1) [OF rm1, of sd] by (auto simp: bk')
      have b': "st_has_best (get_store sd bk')" "st_best (get_store sd bk') = p" using S best by (simp_all add: bk')
      have gb: "get_best_price_level sd bk' = Some (pi, offset_in_partition pb p)"
        using b' a partition_id_facts(1) [OF ok P'(1)] by (simp add: get_best_price_level_def get_partition_def P'(3,4))
      have "L' sd p = []" using True price_in_part [OF ok P'(1), of L' sd] by auto
      then have "pl_head (level bk' (pi, offset_in_partition pb p)) = None"
        using level_of(2) [OF rel' a ok] by (simp add: level_rel_def)
      then show ?thesis using gb by (simp add: no_best_head_def)
    qed
    then show ?thesis using True by blast
  qed
qed

lemma match_step_facts:
  assumes inv: "match_inv sd np pb L ms" and c: "match_cond sd ms = Some (l, i)"
  obtains ms' L' t where "match_step l i ms = Some ms'" and "match_inv sd np pb L' ms'" and "L' sd = L sd"
    and "0 < t_qty t" and "t_qty t \<le> o_qty (ms_order ms)" and "order_data (ms_order ms') = order_data (fill_order (t_qty t) (ms_order ms))"
    and "mg_trades (ms_eng ms') = mg_trades (ms_eng ms) @ [t]"
    and "take_head t (view L (ms_book ms) (opp_side sd)) = Some (view L' (ms_book ms') (opp_side sd))"
    and "\<And>d. totals_rel np pb L d (ms_book ms) \<Longrightarrow> totals_rel np pb L' (taker_due sd ms (t_qty t) d) (ms_book ms')"
    and "ms_taker ms' = taker_filled (t_qty t) (ms_taker ms)"
    and "\<And>x p. x \<in> set (L sd p) \<Longrightarrow> ms_taker ms \<noteq> InBook x \<Longrightarrow> order_data (ord (ms_book ms') x) = order_data (ord (ms_book ms) x)"
    and "mg_instrument (ms_eng ms') = mg_instrument (ms_eng ms)" and "same_parts (ms_book ms) (ms_book ms')"
    and "t_qty t = min (o_qty (ms_order ms)) (fst (snd (hd (view L (ms_book ms) (opp_side sd) (t_price t)))))"
    and "side_exact pb L (ms_book ms) (opp_side sd) \<Longrightarrow> is_best (opp_side sd) (all_prices L (opp_side sd)) (t_price t)"
    and "side_exact pb L (ms_book ms) (opp_side sd) \<Longrightarrow> side_exact pb L' (ms_book ms') (opp_side sd) \<or>
      part_prices pb L' (opp_side sd) (partition_id pb (t_price t)) = {} \<and> match_cond sd ms' = None"
proof -
  let ?bk = "ms_book ms" and ?op = "opp_side sd"
  have rel: "book_rel np pb {} L ?bk" and pos: "positive ?op L ?bk" and pl: "taker_placed sd L (ms_taker ms)"
    using inv by (simp_all add: match_inv_def)
  obtain pi p xs where l: "l = (pi, offset_in_partition pb p)" and ok: "price_ok np pb p"
    and a: "act ?op ?bk (partition_id pb p) = Some pi" and q: "L ?op p = i # xs" and tq: "0 < o_qty (ms_order ms)"
    and pr: "pl_price (level ?bk l) = p"
    and sb: "price_ok np pb (st_best (get_store ?op ?bk)) \<Longrightarrow> st_best (get_store ?op ?bk) = p" by (rule match_cond_facts [OF inv c]) blast
  have i: "i \<in> set (L ?op p)" using q by simp
  have iq: "0 < o_qty (ord ?bk i)" using pos i by (auto simp: positive_def)
  define x where "x = min (o_qty (ms_order ms)) (o_qty (ord ?bk i))"
  have x: "0 < x" "x \<le> o_qty (ord ?bk i)" "x \<le> o_qty (ms_order ms)" using tq iq by (simp_all add: x_def)
  obtain t' bk1 where tf: "taker_fill x (ms_taker ms) ?bk = (t', bk1)" by fastforce
  note T = taker_fill_facts [OF rel pl tf]
  have a1: "act ?op bk1 (partition_id pb p) = Some pi" using a T(7) by simp
  let ?bk3 = "upd_level pi (offset_in_partition pb p) (\<lambda>pl. pl\<lparr>pl_qty := pl_qty pl - x\<rparr>) (upd_ord i (fill_order x) bk1)"
  note H = fill_head_rel [OF T(1) i a1, where x = x]
  have o3: "ord ?bk3 i = fill_order x (ord ?bk i)" using H(2) T(4) [OF i] by simp
  have elsewhere: "order_data (ord ?bk3 y) = order_data (ord ?bk y)" if "y \<noteq> i" "ms_taker ms \<noteq> InBook y" for y
    using tf that by (cases "ms_taker ms") (auto simp: H(2) order_data_def)
  have taker3: "taker_order t' ?bk3 = fill_order x (ms_order ms)"
  proof (cases t')
    case (InBook j)
    then have "j \<noteq> i" using T(5) [OF i] T(8) by auto
    then show ?thesis using T(3) InBook by (simp add: H(2))
  qed (use T(3) in simp)
  have price3: "pl_price (level ?bk3 l) = p" using pr H(4) T(6) by simp
  let ?L' = "if o_qty (ord ?bk i) = x then put ?op p xs L else L"
  have step: "\<exists>bk4. (if o_qty (ord ?bk3 i) = 0 then map_option fst (book_remove_order (o_id (ord ?bk3 i)) ?bk3) else Some ?bk3) = Some bk4 \<and>
      book_rel np pb {} ?L' bk4 \<and> same_data ?bk3 bk4 \<and> (\<forall>d. totals_rel np pb L d ?bk3 \<longrightarrow> totals_rel np pb ?L' d bk4) \<and>
      (side_exact pb L ?bk3 ?op \<longrightarrow> side_exact pb ?L' bk4 ?op \<or> part_prices pb ?L' ?op (partition_id pb p) = {} \<and>
        (st_best (get_store ?op ?bk) = p \<longrightarrow> no_best_head ?op bk4))"
  proof (cases "o_qty (ord ?bk i) = x")
    case True
    from book_remove_ex [OF H(1) i refl] obtain bk4 where b4: "book_remove_order (o_id (ord ?bk3 i)) ?bk3 = Some (bk4, SUCCESS)"
        "book_rel np pb {} (put ?op p xs L) bk4" "same_data ?bk3 bk4"
        "\<forall>d. totals_rel np pb L d ?bk3 \<longrightarrow> totals_rel np pb (put ?op p xs L) d bk4" using q by auto
    have st3: "get_store ?op ?bk3 = get_store ?op ?bk" using T(7) [of ?op] by (cases ?op) (simp_all add: upd_level_def)
    have "side_exact pb (put ?op p xs L) bk4 ?op \<or> part_prices pb (put ?op p xs L) ?op (partition_id pb p) = {} \<and>
        (st_best (get_store ?op ?bk) = p \<longrightarrow> no_best_head ?op bk4)" if "side_exact pb L ?bk3 ?op"
      using remove_side_exact [OF H(1) i that b4(1)] q st3 by simp
    then show ?thesis using True o3 b4 by auto
  next
    case False
    then show ?thesis using o3 H(1) by simp
  qed
  then obtain bk4 where b4: "(if o_qty (ord ?bk3 i) = 0 then map_option fst (book_remove_order (o_id (ord ?bk3 i)) ?bk3) else Some ?bk3) = Some bk4"
    and rel4: "book_rel np pb {} ?L' bk4" and data: "same_data ?bk3 bk4"
    and tot4: "\<And>d. totals_rel np pb L d ?bk3 \<Longrightarrow> totals_rel np pb ?L' d bk4"
    and ex4: "side_exact pb L ?bk3 ?op \<longrightarrow> side_exact pb ?L' bk4 ?op \<or> part_prices pb ?L' ?op (partition_id pb p) = {} \<and>
        (st_best (get_store ?op ?bk) = p \<longrightarrow> no_best_head ?op bk4)" by blast
  note S = same_data_simps [OF data]
  have taker4: "order_data (taker_order t' bk4) = order_data (fill_order x (ms_order ms))"
    using taker3 data by (cases t') (auto simp: same_data_def)
  have t': "t' = taker_filled x (ms_taker ms)"
    using tf unfolding taker_filled_def by (cases "ms_taker ms") (simp_all add: eq_commute [of _ t'])
  define t where "t = \<lparr>t_seq = next_seq (mg_seq (ms_eng ms)), t_maker = o_id (ord ?bk i), t_taker = o_id (ms_order ms), t_price = p, t_qty = x,
    t_side = o_side (ms_order ms)\<rparr>"
  define ms' where "ms' = ms\<lparr>ms_taker := t', ms_last := p, ms_trades := ms_trades ms + 1,
    ms_eng := emit_trade_event (o_id (ord bk4 i)) (o_id (taker_order t' bk4)) p x (o_side (taker_order t' bk4)) ((ms_eng ms)\<lparr>mg_book := bk4\<rparr>)\<rparr>"
  have step: "match_step l i ms = Some ms'"
    unfolding match_step_def Let_def x_def [symmetric] tf prod.case l fst_conv snd_conv b4 option.case ms'_def
    using price3 l by simp
  have book': "ms_book ms' = bk4" by (simp add: ms'_def emit_trade_event_def sequence_next_def)
  have tk: "ms_taker ms' = t'" by (simp add: ms'_def)
  have trades: "mg_trades (ms_eng ms') = mg_trades (ms_eng ms) @ [t]"
    using taker4 S(1) [of i] o3 by (simp add: ms'_def emit_trade_event_def sequence_next_def t_def order_data_def)
  have Lsd: "?L' sd = L sd" by (simp add: put_def)
  have ent: "entry_of bk4 y = (if y = i then (o_id (ord ?bk i), o_qty (ord ?bk i) - x, o_filled (ord ?bk i) + x) else entry_of ?bk y)"
    if "y \<in> set (L ?op p')" for y p'
    using elsewhere [of y] T(5) [OF that] o3 by (auto simp: entry_of_def S order_data_def)
  have view': "view ?L' bk4 ?op = (view L ?bk ?op)(p := if x = o_qty (ord ?bk i) then map (entry_of ?bk) xs
      else (o_id (ord ?bk i), o_qty (ord ?bk i) - x, o_filled (ord ?bk i) + x) # map (entry_of ?bk) xs)"
  proof
    fix p'
    have "i \<notin> set xs" using place_relD(1) [OF book_relD(3) [OF rel], of ?op p] q by simp
    then have here: "map (entry_of bk4) xs = map (entry_of ?bk) xs" using ent [of _ p] q by auto
    have there: "map (entry_of bk4) (L ?op p') = map (entry_of ?bk) (L ?op p')" if "p' \<noteq> p"
    proof -
      have "i \<notin> set (L ?op p')" using queues_disjoint [OF book_relD(3) [OF rel] i] that by blast
      then show ?thesis using ent [of _ p'] by auto
    qed
    show "view ?L' bk4 ?op p' = ((view L ?bk ?op)(p := if x = o_qty (ord ?bk i) then map (entry_of ?bk) xs
      else (o_id (ord ?bk i), o_qty (ord ?bk i) - x, o_filled (ord ?bk i) + x) # map (entry_of ?bk) xs)) p'"
      using here there ent [of i p] q by (auto simp: view_def)
  qed
  have take: "take_head t (view L ?bk ?op) = Some (view ?L' bk4 ?op)"
    using x q unfolding view' by (simp add: t_def view_def entry_of_def)
  have "positive ?op ?L' bk4"
    unfolding positive_def
  proof (intro allI ballI)
    fix p' y assume y: "y \<in> set (?L' ?op p')"
    then have yL: "y \<in> set (L ?op p')" using q by (auto split: if_splits)
    show "0 < o_qty (ord bk4 y) \<and> 0 \<le> o_filled (ord bk4 y)"
    proof (cases "y = i")
      case True
      have "o_qty (ord ?bk i) \<noteq> x"
      proof
        assume "o_qty (ord ?bk i) = x"
        then have "i \<in> set (put ?op p xs L ?op p')" using y True by simp
        then show False
          using place_relD(1) [OF book_relD(3) [OF rel], of ?op p] queues_disjoint [OF book_relD(3) [OF rel] i, of ?op p'] q
          by (auto split: if_splits)
      qed
      then show ?thesis using ent [OF yL] True x(1,2) pos i by (simp add: entry_of_def positive_def)
    next
      case False
      then show ?thesis using ent [OF yL] pos yL by (simp add: entry_of_def positive_def)
    qed
  qed
  moreover have "taker_placed sd ?L' t'" using T(2) Lsd by (cases t') simp_all
  ultimately have inv': "match_inv sd np pb ?L' ms'" using rel4 by (simp add: match_inv_def book' tk)
  have tot': "totals_rel np pb ?L' (taker_due sd ms x d) bk4" if "totals_rel np pb L d ?bk" for d
    using tot4 [OF H(3) [OF taker_fill_totals [OF rel pl tf that]]] by (cases "ms_taker ms") simp_all
  have data': "order_data (ord bk4 y) = order_data (ord ?bk y)" if "y \<in> set (L sd p')" "ms_taker ms \<noteq> InBook y" for y p'
  proof -
    have "y \<noteq> i" using queues_disjoint [OF book_relD(3) [OF rel] i, of sd p'] that(1) by auto
    then show ?thesis using elsewhere [OF _ that(2)] data by (simp add: same_data_def)
  qed
  have tx: "t_qty t = x" by (simp add: t_def)
  have parts: "same_parts ?bk bk4"
  proof -
    have "same_parts ?bk ?bk3" using T(6,7) by (simp add: same_parts_def upd_level_def)
    moreover have "same_parts ?bk3 bk4"
      using b4 book_remove_parts by (auto simp: same_parts_def split: if_splits)
    ultimately show ?thesis by (simp add: same_parts_def)
  qed
  have ins: "mg_instrument (ms_eng ms') = mg_instrument (ms_eng ms)" by (simp add: ms'_def emit_trade_event_def sequence_next_def)
  have min: "x = min (o_qty (ms_order ms)) (fst (snd (hd (view L ?bk ?op (t_price t)))))"
    using q by (simp add: x_def t_def view_def entry_of_def)
  have mine: "p \<in> all_prices L ?op" using i by (auto simp: all_prices_def)
  have best: "st_best (get_store ?op ?bk) = p \<and> is_best ?op (all_prices L ?op) (t_price t)" if "side_exact pb L ?bk ?op"
  proof -
    have b: "is_best ?op (all_prices L ?op) (st_best (get_store ?op ?bk))" using side_exactD(4) [OF that] mine by auto
    then obtain y where "y \<in> set (L ?op (st_best (get_store ?op ?bk)))"
      unfolding is_best_def all_prices_def by (meson list.set_sel(1) mem_Collect_eq)
    then have "price_ok np pb (st_best (get_store ?op ?bk))" using place_relD(2) [OF book_relD(3) [OF rel]] by blast
    then show ?thesis using sb b by (simp add: t_def)
  qed
  have exact: "side_exact pb ?L' bk4 ?op \<or> part_prices pb ?L' ?op (partition_id pb (t_price t)) = {} \<and> match_cond sd ms' = None"
    if e: "side_exact pb L ?bk ?op"
  proof -
    have "side_kept ?op ?bk ?bk3" using T(6,7) by (simp add: side_kept_def upd_level_def)
    then have "side_exact pb L ?bk3 ?op" using side_kept_exact [OF _ refl refl e] by blast
    then have "side_exact pb ?L' bk4 ?op \<or> part_prices pb ?L' ?op (partition_id pb p) = {} \<and> no_best_head ?op bk4" using ex4 best [OF e] by blast
    then show ?thesis
      by (auto simp: t_def match_cond_def book' no_best_head_def split: option.splits)
  qed
  show ?thesis
    by (rule that [where t = t, OF step inv' Lsd]; (unfold book' tk tx)?)
       (fact x(1) x(3) taker4 trades take tot' t' data' ins parts min conjunct2 [OF best] exact)+
qed

section \<open>The loop\<close>

lemma fill_order_add [simp]: "fill_order y (fill_order x o') = fill_order (x + y) o'" "fill_order 0 o' = o'"
  by (simp_all add: fill_order_def)

lemma taker_filled_add [simp]: "taker_filled y (taker_filled x t) = taker_filled (x + y) t" "taker_filled 0 t = t"
  "taker_filled x t = InBook j \<longleftrightarrow> t = InBook j"
  by (cases t; simp add: taker_filled_def)+

lemma order_data_fill: "order_data a = order_data b \<Longrightarrow> order_data (fill_order x a) = order_data (fill_order x b)"
  by (simp add: order_data_def)

lemma taker_due_add:
  assumes "match_inv sd np pb L ms" and "match_inv sd np pb L' ms'" and "L' sd = L sd" and "ms_taker ms' = taker_filled x (ms_taker ms)"
  shows "taker_due sd ms' y (taker_due sd ms x d) = taker_due sd ms (x + y) d"
proof (cases "ms_taker ms")
  case (InBook j)
  then have j': "ms_taker ms' = InBook j" using assms(4) by (simp add: taker_filled_def)
  obtain p where p: "j \<in> set (L sd p)" using assms(1) InBook by (auto simp: match_inv_def)
  have "o_price (ord (ms_book ms) j) = p" using assms(1) p place_relD(5) book_relD(3) unfolding match_inv_def by metis
  moreover have "o_price (ord (ms_book ms') j) = p"
    using assms(2,3) p place_relD(5) book_relD(3) unfolding match_inv_def by metis
  ultimately show ?thesis using InBook j' by simp
qed (use assms(4) in \<open>simp add: taker_filled_def\<close>)

text \<open>With exact cached prices the loop stops only when nothing is wanted or left; a trade that empties its partition stops it too.\<close>

lemma match_cond_stops:
  assumes inv: "match_inv sd np pb L ms" and ex: "side_exact pb L (ms_book ms) (opp_side sd)" and c: "match_cond sd ms = None"
    and q: "0 \<le> o_qty (ms_order ms)"
  shows "matching_stops pb (o_qty (ms_order ms)) [] (view L (ms_book ms) (opp_side sd))"
proof -
  have rel: "book_rel np pb {} L (ms_book ms)" using inv by (simp add: match_inv_def)
  have "o_qty (ms_order ms) = 0 \<or> all_prices L (opp_side sd) = {}"
    using best_level_side [OF rel ex] c q by (auto simp: match_cond_def split: option.splits if_splits)
  then show ?thesis by (auto simp: matching_stops_def all_prices_def view_def)
qed

lemma matching_stops_Cons: "matching_stops pb r ts Q \<Longrightarrow> matching_stops pb r (t # ts) Q"
  by (auto simp: matching_stops_def)

lemma part_prices_empty: "part_prices pb L sd (partition_id pb p) = {} \<Longrightarrow> partition_empty pb (view L bk sd) p"
  by (auto simp: part_prices_def partition_empty_def view_def)

text \<open>The loop ends; its trades take from the heads of the queues of the other side and add up to what the taker was filled.\<close>

lemma match_loop_facts:
  assumes "match_inv sd np pb L ms"
  shows "\<exists>ms' L' ts. match_loop sd ms = Some ms' \<and> match_inv sd np pb L' ms' \<and> L' sd = L sd \<and> match_cond sd ms' = None \<and>
    mg_trades (ms_eng ms') = mg_trades (ms_eng ms) @ ts \<and> fifo_fills ts (view L (ms_book ms) (opp_side sd)) = Some (view L' (ms_book ms') (opp_side sd)) \<and>
    ms_taker ms' = taker_filled (traded ts) (ms_taker ms) \<and>
    order_data (ms_order ms') = order_data (fill_order (traded ts) (ms_order ms)) \<and>
    0 \<le> traded ts \<and> (0 \<le> o_qty (ms_order ms) \<longrightarrow> traded ts \<le> o_qty (ms_order ms)) \<and>
    (\<forall>d. totals_rel np pb L d (ms_book ms) \<longrightarrow> totals_rel np pb L' (taker_due sd ms (traded ts) d) (ms_book ms')) \<and>
    (\<forall>x p. x \<in> set (L sd p) \<longrightarrow> ms_taker ms \<noteq> InBook x \<longrightarrow> order_data (ord (ms_book ms') x) = order_data (ord (ms_book ms) x)) \<and>
    mg_instrument (ms_eng ms') = mg_instrument (ms_eng ms) \<and> same_parts (ms_book ms) (ms_book ms') \<and>
    (side_exact pb L (ms_book ms) (opp_side sd) \<longrightarrow> 0 \<le> o_qty (ms_order ms) \<longrightarrow>
      best_fills (opp_side sd) (o_qty (ms_order ms)) ts (view L (ms_book ms) (opp_side sd)) \<and>
      matching_stops pb (o_qty (ms_order ms) - traded ts) ts (view L' (ms_book ms') (opp_side sd)))"
  using assms
proof (induction "nat (o_qty (ms_order ms))" arbitrary: ms L rule: less_induct)
  case less
  note inv = less.prems
  show ?case
  proof (cases "match_cond sd ms")
    case None
    have "taker_due sd ms 0 d = d" for d by (cases "ms_taker ms") (simp_all add: dadd_def)
    then show ?thesis using None inv match_cond_stops [OF inv _ None]
      by (intro exI [of _ ms] exI [of _ L] exI [of _ "[]"]) (simp add: match_loop.simps [of sd ms] same_parts_def)
  next
    case (Some r)
    obtain l i where r: "r = (l, i)" by (rule prod.exhaust)
    with Some have c: "match_cond sd ms = Some (l, i)" by simp
    obtain ms1 L1 t where s: "match_step l i ms = Some ms1" and inv1: "match_inv sd np pb L1 ms1" and L1: "L1 sd = L sd"
      and q: "0 < t_qty t" "t_qty t \<le> o_qty (ms_order ms)"
      and o1: "order_data (ms_order ms1) = order_data (fill_order (t_qty t) (ms_order ms))"
      and tr: "mg_trades (ms_eng ms1) = mg_trades (ms_eng ms) @ [t]"
      and th: "take_head t (view L (ms_book ms) (opp_side sd)) = Some (view L1 (ms_book ms1) (opp_side sd))"
      and tot: "\<And>d. totals_rel np pb L d (ms_book ms) \<Longrightarrow> totals_rel np pb L1 (taker_due sd ms (t_qty t) d) (ms_book ms1)"
      and tk: "ms_taker ms1 = taker_filled (t_qty t) (ms_taker ms)"
      and od: "\<And>x p. x \<in> set (L sd p) \<Longrightarrow> ms_taker ms \<noteq> InBook x \<Longrightarrow> order_data (ord (ms_book ms1) x) = order_data (ord (ms_book ms) x)"
      and ins: "mg_instrument (ms_eng ms1) = mg_instrument (ms_eng ms)" and sp: "same_parts (ms_book ms) (ms_book ms1)"
      and tmin: "t_qty t = min (o_qty (ms_order ms)) (fst (snd (hd (view L (ms_book ms) (opp_side sd) (t_price t)))))"
      and tb: "side_exact pb L (ms_book ms) (opp_side sd) \<longrightarrow> is_best (opp_side sd) (all_prices L (opp_side sd)) (t_price t)"
      and te: "side_exact pb L (ms_book ms) (opp_side sd) \<longrightarrow> side_exact pb L1 (ms_book ms1) (opp_side sd) \<or>
        part_prices pb L1 (opp_side sd) (partition_id pb (t_price t)) = {} \<and> match_cond sd ms1 = None"
      by (rule match_step_facts [OF inv c]) blast
    have oq: "o_qty (ms_order ms1) = o_qty (ms_order ms) - t_qty t" using o1 by (simp add: order_data_def)
    then have "nat (o_qty (ms_order ms1)) < nat (o_qty (ms_order ms))" using q by simp
    from less.hyps [OF this inv1] obtain ms2 L2 ts where I:
      "match_loop sd ms1 = Some ms2" "match_inv sd np pb L2 ms2" "L2 sd = L1 sd" "match_cond sd ms2 = None"
      "mg_trades (ms_eng ms2) = mg_trades (ms_eng ms1) @ ts" "fifo_fills ts (view L1 (ms_book ms1) (opp_side sd)) = Some (view L2 (ms_book ms2) (opp_side sd))"
      "ms_taker ms2 = taker_filled (traded ts) (ms_taker ms1)" "order_data (ms_order ms2) = order_data (fill_order (traded ts) (ms_order ms1))"
      "0 \<le> traded ts" "0 \<le> o_qty (ms_order ms1) \<longrightarrow> traded ts \<le> o_qty (ms_order ms1)"
      "\<forall>d. totals_rel np pb L1 d (ms_book ms1) \<longrightarrow> totals_rel np pb L2 (taker_due sd ms1 (traded ts) d) (ms_book ms2)"
      "\<forall>x p. x \<in> set (L1 sd p) \<longrightarrow> ms_taker ms1 \<noteq> InBook x \<longrightarrow> order_data (ord (ms_book ms2) x) = order_data (ord (ms_book ms1) x)"
      "mg_instrument (ms_eng ms2) = mg_instrument (ms_eng ms1)" "same_parts (ms_book ms1) (ms_book ms2)"
      "side_exact pb L1 (ms_book ms1) (opp_side sd) \<longrightarrow> 0 \<le> o_qty (ms_order ms1) \<longrightarrow>
        best_fills (opp_side sd) (o_qty (ms_order ms1)) ts (view L1 (ms_book ms1) (opp_side sd)) \<and>
        matching_stops pb (o_qty (ms_order ms1) - traded ts) ts (view L2 (ms_book ms2) (opp_side sd))" by blast
    have sp2: "same_parts (ms_book ms) (ms_book ms2)" using sp I(14) by (simp add: same_parts_def)
    have loop: "match_loop sd ms = Some ms2" using s I(1) c by (simp add: match_loop.simps [of sd ms])
    have t2: "totals_rel np pb L2 (taker_due sd ms (traded (t # ts)) d) (ms_book ms2)" if "totals_rel np pb L d (ms_book ms)" for d
      using I(11) tot [OF that] taker_due_add [OF inv inv1 L1 tk, of "traded ts" d] by (metis traded_simps(2))
    have od2: "order_data (ms_order ms2) = order_data (fill_order (traded (t # ts)) (ms_order ms))"
      using I(8) order_data_fill [OF o1, of "traded ts"] by simp
    have ff: "fifo_fills (t # ts) (view L (ms_book ms) (opp_side sd)) = Some (view L2 (ms_book ms2) (opp_side sd))"
      using th I(6) by (simp only: fifo_fills.simps option.case)
    have od3: "order_data (ord (ms_book ms2) x) = order_data (ord (ms_book ms) x)" if "x \<in> set (L sd p)" "ms_taker ms \<noteq> InBook x" for x p
    proof -
      have "ms_taker ms1 \<noteq> InBook x" using that(2) tk by simp
      then show ?thesis using od [OF that] I(12) that(1) L1 by metis
    qed
    have rest: "best_fills (opp_side sd) (o_qty (ms_order ms1)) ts (view L1 (ms_book ms1) (opp_side sd)) \<and>
        matching_stops pb (o_qty (ms_order ms1) - traded ts) (t # ts) (view L2 (ms_book ms2) (opp_side sd))"
      if ex: "side_exact pb L (ms_book ms) (opp_side sd)"
    proof (cases "side_exact pb L1 (ms_book ms1) (opp_side sd)")
      case True
      then show ?thesis using I(15) q oq matching_stops_Cons by simp
    next
      case False
      then have e: "part_prices pb L1 (opp_side sd) (partition_id pb (t_price t)) = {}" "match_cond sd ms1 = None" using te ex by blast+
      then have "ms2 = ms1" using I(1) by (simp add: match_loop.simps [of sd ms1])
      then have "ts = []" using I(5) by simp
      moreover have "view L2 (ms_book ms2) (opp_side sd) = view L1 (ms_book ms1) (opp_side sd)" using I(6) \<open>ts = []\<close> by simp
      ultimately show ?thesis using part_prices_empty [OF e(1)] by (simp add: matching_stops_def)
    qed
    have bf: "best_fills (opp_side sd) (o_qty (ms_order ms)) (t # ts) (view L (ms_book ms) (opp_side sd)) \<and>
        matching_stops pb (o_qty (ms_order ms) - traded (t # ts)) (t # ts) (view L2 (ms_book ms2) (opp_side sd))"
      if ex: "side_exact pb L (ms_book ms) (opp_side sd)"
      using rest [OF ex] tb ex tmin th oq
      by (simp add: view_prices diff_diff_eq [symmetric] del: take_head.simps)
    show ?thesis
      using loop I(2,3,4,5,7,9,10,13) L1 tr tk ins q oq t2 od2 ff od3 sp2 bf
      by (intro exI [of _ ms2] exI [of _ L2] exI [of _ "t # ts"]) (simp del: fifo_fills.simps best_fills.simps)
  qed
qed

section \<open>Processing an order\<close>

definition engine_rel :: "nat \<Rightarrow> nat \<Rightarrow> abook \<Rightarrow> engine_t \<Rightarrow> bool" where
  "engine_rel np pb B m \<longleftrightarrow> represents np pb B (mg_book m) \<and> (\<forall>sd p. \<forall>e \<in> set (B sd p). 0 < fst (snd e) \<and> 0 \<le> snd (snd e))"

lemma engine_relE:
  assumes "engine_rel np pb B m"
  obtains L where "book_rel np pb {} L (mg_book m)" and "totals_rel np pb L (\<lambda>_ _. 0) (mg_book m)" and "B = view L (mg_book m)"
    and "\<And>sd. positive sd L (mg_book m)"
  using assms unfolding engine_rel_def represents_def positive_def view_def by (force simp: entry_of_def)

lemma engine_relI:
  assumes "book_rel np pb {} L (mg_book m)" and "totals_rel np pb L (\<lambda>_ _. 0) (mg_book m)" and "\<And>sd. positive sd L (mg_book m)"
  shows "engine_rel np pb (view L (mg_book m)) m"
  using assms unfolding engine_rel_def represents_def positive_def view_def by (force simp: entry_of_def)

lemma take_head_ids:
  assumes "take_head t Q = Some Q'"
  shows "fst ` set (Q' p) \<subseteq> fst ` set (Q p)"
proof (cases "p = t_price t")
  case True
  then have "\<exists>k q f rest. Q p = (k, q, f) # rest \<and> (Q' p = rest \<or> (\<exists>a b. Q' p = (k, a, b) # rest))"
    using assms by (auto split: list.splits if_splits)
  then show ?thesis by (elim exE conjE disjE) (simp_all add: subset_insertI)
next
  case False
  then have "Q' p = Q p" using assms by (auto split: list.splits if_splits)
  then show ?thesis by simp
qed

lemma fifo_fills_ids: "fifo_fills ts Q = Some Q' \<Longrightarrow> fst ` set (Q' p) \<subseteq> fst ` set (Q p)"
proof (induction ts arbitrary: Q)
  case (Cons t ts)
  then obtain Q1 where "take_head t Q = Some Q1" "fifo_fills ts Q1 = Some Q'" by (auto split: option.splits simp del: take_head.simps)
  then show ?case using Cons.IH take_head_ids by blast
qed simp

abbreviation on_side :: "side \<Rightarrow> (price \<Rightarrow> entry list) \<Rightarrow> abook \<Rightarrow> abook" where
  "on_side sd Q B \<equiv> B(sd := Q)"

lemma spec_insert_all:
  "\<forall>sd p. \<forall>e \<in> set (B sd p). P e \<Longrightarrow> P x \<Longrightarrow> \<forall>sd p. \<forall>e \<in> set (spec_insert s q x B sd p). P e"
  by (auto simp: spec_insert_def)

text \<open>A taker on side \<open>sd\<close> was matched to the end: an order that does not reach the other side takes nothing. Otherwise it is filled, or the level the book
  has as its best one on the other side holds no order. If the cached prices of that side were exact, every trade was at the best price there at its
  time, with its oldest order, for as much as both allow, and a rest means that the side is empty or that the last trade emptied its partition.\<close>

definition matched_to_the_end :: "side \<Rightarrow> order \<Rightarrow> nat \<Rightarrow> abook \<Rightarrow> engine_t \<Rightarrow> trade list \<Rightarrow> (price \<Rightarrow> entry list) \<Rightarrow> engine_t \<Rightarrow> bool" where
  "matched_to_the_end sd o' pb B m ts Q m' \<longleftrightarrow>
     (if out_of_reach sd o' (mg_book m) then ts = []
      else (traded ts = o_qty o' \<or> no_best_head (opp_side sd) (mg_book m')) \<and>
        (side_exact pb B (mg_book m) (opp_side sd) \<longrightarrow>
           best_fills (opp_side sd) (o_qty o') ts (B (opp_side sd)) \<and> matching_stops pb (o_qty o' - traded ts) ts Q))"

lemma out_of_reach_iff: "out_of_reach sd o' bk \<longleftrightarrow> o_type o' = LIMIT \<and> get_best_price_level (opp_side sd) bk \<noteq> None \<and>
    \<not> crosses sd (o_price o') (pl_price (level bk (the (get_best_price_level (opp_side sd) bk))))"
  by (auto simp: out_of_reach_def split: option.split)

lemma match_cond_None: "match_cond sd ms = None \<Longrightarrow> 0 < o_qty (ms_order ms) \<Longrightarrow> no_best_head (opp_side sd) (ms_book ms)"
  by (auto simp: match_cond_def no_best_head_def Let_def split: option.splits if_splits)

text \<open>The matching phase of an incoming order.\<close>

lemma match_order_on_fly:
  assumes eng: "engine_rel np pb B m" and q: "0 < o_qty o'" and f: "o_filled o' = 0"
  defines "sd \<equiv> o_side o'"
  shows "\<exists>ms st ts Q. match_order sd \<lparr>ms_eng = m, ms_taker = OnFly o', ms_trades = 0, ms_last = 0\<rparr> = Some (ms, st) \<and>
    fifo_fills ts (B (opp_side sd)) = Some Q \<and> 0 \<le> traded ts \<and> traded ts \<le> o_qty o' \<and>
    mg_trades (ms_eng ms) = mg_trades m @ ts \<and> engine_rel np pb (on_side (opp_side sd) Q B) (ms_eng ms) \<and>
    ms_taker ms = OnFly (fill_order (traded ts) o') \<and>
    st = (if traded ts = 0 then NO_MATCH else if traded ts = o_qty o' then FULL_FILL else PARTIAL_FILL) \<and>
    same_parts (mg_book m) (mg_book (ms_eng ms)) \<and> mg_instrument (ms_eng ms) = mg_instrument m \<and>
    matched_to_the_end sd o' pb B m ts Q (ms_eng ms)"
proof -
  let ?ms = "\<lparr>ms_eng = m, ms_taker = OnFly o', ms_trades = 0, ms_last = 0\<rparr>" and ?op = "opp_side sd"
  obtain L where L: "book_rel np pb {} L (mg_book m)" "totals_rel np pb L (\<lambda>_ _. 0) (mg_book m)" "B = view L (mg_book m)"
    "\<And>sd. positive sd L (mg_book m)" using engine_relE [OF eng] by metis
  have inv: "match_inv sd np pb L ?ms" using L(1,4) by (simp add: match_inv_def)
  let ?best = "get_best_price_level ?op (mg_book m)"
  note reach = out_of_reach_iff [of sd o' "mg_book m"]
  show ?thesis
  proof (cases "o_type o' = LIMIT \<and> ?best \<noteq> None \<and> \<not> crosses sd (o_price o') (pl_price (level (mg_book m) (the ?best)))")
    case True
    then have "match_order sd ?ms = Some (?ms, NO_MATCH)" by (simp add: match_order_def Let_def)
    moreover have "matched_to_the_end sd o' pb B m [] (B ?op) m" using True reach by (simp add: matched_to_the_end_def)
    ultimately show ?thesis using eng q
      by (intro exI [of _ ?ms] exI [of _ NO_MATCH] exI [of _ "[]"] exI [of _ "B ?op"]) (simp add: same_parts_def)
  next
    case False
    obtain ms L' ts where I:
      "match_loop sd ?ms = Some ms" "match_inv sd np pb L' ms" "L' sd = L sd" "mg_trades (ms_eng ms) = mg_trades m @ ts"
      "fifo_fills ts (B ?op) = Some (view L' (ms_book ms) ?op)" "ms_taker ms = OnFly (fill_order (traded ts) o')"
      "0 \<le> traded ts" "traded ts \<le> o_qty o'"
      "\<forall>d. totals_rel np pb L d (mg_book m) \<longrightarrow> totals_rel np pb L' d (ms_book ms)"
      "\<forall>x. (\<exists>p. x \<in> set (L sd p)) \<longrightarrow> order_data (ord (ms_book ms) x) = order_data (ord (mg_book m) x)"
      "mg_instrument (ms_eng ms) = mg_instrument m" "same_parts (mg_book m) (ms_book ms)" "match_cond sd ms = None"
      "side_exact pb L (mg_book m) ?op \<longrightarrow>
        best_fills ?op (o_qty o') ts (view L (mg_book m) ?op) \<and> matching_stops pb (o_qty o' - traded ts) ts (view L' (ms_book ms) ?op)"
      using match_loop_facts [OF inv] q L(3) by (simp add: taker_filled_def less_imp_le) blast
    let ?st = "if traded ts = 0 then NO_MATCH else if traded ts = o_qty o' then FULL_FILL else PARTIAL_FILL"
    have mo: "match_order sd ?ms = Some (ms, ?st)"
      using False I(1,6,7) f unfolding match_order_def Let_def by (subst if_not_P) (simp, simp)
    have own: "entry_of (ms_book ms) x = entry_of (mg_book m) x" "o_qty (ord (ms_book ms) x) = o_qty (ord (mg_book m) x)"
      "o_filled (ord (ms_book ms) x) = o_filled (ord (mg_book m) x)"
      if "x \<in> set (L sd p)" for x p using I(10) that by (auto simp: entry_of_def order_data_def)
    have other: "s = sd \<or> s = ?op" for s by (cases s; cases sd) auto
    have "view L' (ms_book ms) s = (on_side ?op (view L' (ms_book ms) ?op) B) s" for s
      using other [of s] own I(3) L(3) by (auto simp: view_def fun_eq_iff)
    then have v: "view L' (ms_book ms) = on_side ?op (view L' (ms_book ms) ?op) B" by blast
    have "positive s L' (ms_book ms)" for s
      using other [of s] own I(2,3) L(4) [of sd] by (auto simp: positive_def match_inv_def)
    then have "engine_rel np pb (on_side ?op (view L' (ms_book ms) ?op) B) (ms_eng ms)"
      using engine_relI [of np pb L' "ms_eng ms"] I(2,9) L(2) v by (simp add: match_inv_def)
    moreover have "matched_to_the_end sd o' pb B m ts (view L' (ms_book ms) ?op) (ms_eng ms)"
    proof -
      have "traded ts = o_qty o' \<or> no_best_head ?op (ms_book ms)" using match_cond_None [OF I(13)] I(6,8) by (cases "traded ts = o_qty o'") auto
      moreover have "\<not> out_of_reach sd o' (mg_book m)" using False reach by blast
      ultimately show ?thesis using I(14) unfolding matched_to_the_end_def L(3) side_exact_view by simp
    qed
    ultimately show ?thesis using mo I by (intro exI [of _ ms] exI [of _ ?st] exI [of _ ts] exI [of _ "view L' (ms_book ms) ?op"]) simp
  qed
qed

lemma process_order_spec:
  assumes eng: "engine_rel np pb B m" and id: "valid_id (o_id o')" "\<not> has_id B (o_id o')" and p: "price_ok np pb (o_price o')"
    and q: "0 < o_qty o'" and f: "o_filled o' = 0"
    and room: "act (o_side o') (mg_book m) (partition_id pb (o_price o')) \<noteq> None \<or> pp_free (bk_parts (mg_book m)) \<noteq> []"
  shows "\<exists>m' st idx. process_order o' m = Some (m', st, idx) \<and>
    (if \<not> validate_order (mg_instrument m) o' then st = REJECTED \<and> m' = m
     else \<exists>ms st0 ts Q. match_order (o_side o') \<lparr>ms_eng = m, ms_taker = OnFly o', ms_trades = 0, ms_last = 0\<rparr> = Some (ms, st0) \<and>
       matched_to_the_end (o_side o') o' pb B m ts Q (ms_eng ms) \<and>
       fifo_fills ts (B (opp_side (o_side o'))) = Some Q \<and> 0 \<le> traded ts \<and> traded ts \<le> o_qty o' \<and> mg_trades m' = mg_trades m @ ts \<and>
       (let B' = on_side (opp_side (o_side o')) Q B; rest = o_qty o' - traded ts;
            st' = (if traded ts = 0 then NO_MATCH else if rest = 0 then FULL_FILL else PARTIAL_FILL) in
        if rest = 0 \<or> o_type o' = MARKET then engine_rel np pb B' m' \<and> st = st' \<and> idx = None
        else engine_rel np pb (spec_insert (o_side o') (o_price o') (o_id o', rest, traded ts) B') m' \<and> st = st' \<and> idx \<noteq> None \<or>
          engine_rel np pb B' m' \<and> st = BAD_ALLOC \<and> idx = None \<and> op_free_slots (bk_pool (mg_book m')) = 0))"
proof (cases "validate_order (mg_instrument m) o'")
  case False
  then show ?thesis by (simp add: process_order_def)
next
  case val: True
  let ?sd = "o_side o'"
  from match_order_on_fly [OF eng q f] obtain ms st ts Q where M:
    "match_order ?sd \<lparr>ms_eng = m, ms_taker = OnFly o', ms_trades = 0, ms_last = 0\<rparr> = Some (ms, st)"
    "fifo_fills ts (B (opp_side ?sd)) = Some Q" "0 \<le> traded ts" "traded ts \<le> o_qty o'" "mg_trades (ms_eng ms) = mg_trades m @ ts"
    "engine_rel np pb (on_side (opp_side ?sd) Q B) (ms_eng ms)" "ms_taker ms = OnFly (fill_order (traded ts) o')"
    "st = (if traded ts = 0 then NO_MATCH else if traded ts = o_qty o' then FULL_FILL else PARTIAL_FILL)"
    "same_parts (mg_book m) (mg_book (ms_eng ms))" "matched_to_the_end ?sd o' pb B m ts Q (ms_eng ms)" by blast
  let ?B = "on_side (opp_side ?sd) Q B" and ?rest = "o_qty o' - traded ts"
  show ?thesis
  proof (cases "?rest = 0 \<or> o_type o' = MARKET")
    case True
    then have "o_type o' = MARKET \<or> st = FULL_FILL" using M(8) q by auto
    then have "process_order o' m = Some (ms_eng ms, st, None)" using val M(1,7) by (simp add: process_order_def)
    then show ?thesis using True M(1-6,8,10) val
      by (intro exI [of _ "ms_eng ms"] exI [of _ st] exI [of _ None] conjI, simp, simp add: Let_def)
  next
    case False
    then have type: "o_type o' \<noteq> MARKET" and st: "st \<noteq> FULL_FILL" "0 < ?rest"
      and st': "st = (if traded ts = 0 then NO_MATCH else PARTIAL_FILL)" using M(4,8) by auto
    have rep: "represents np pb ?B (mg_book (ms_eng ms))" using M(6) by (simp add: engine_rel_def)
    have new: "\<not> has_id ?B (o_id o')" 
      using id(2) subsetD [OF fifo_fills_ids [OF M(2)]] unfolding has_id_def by (metis fun_upd_apply)
    have free: "act ?sd (mg_book (ms_eng ms)) (partition_id pb (o_price o')) \<noteq> None \<or> pp_free (bk_parts (mg_book (ms_eng ms))) \<noteq> []"
      using room M(9) by (simp add: same_parts_def)
    note I = insert_spec [OF rep id(1) new p, of ?sd ?rest "traded ts"]
    have eq: "process_order o' m = (case book_insert_order ?sd (o_id o') (o_price o') ?rest (traded ts) (mg_book (ms_eng ms)) of None \<Rightarrow> None
      | Some (bk, ist, idx) \<Rightarrow> Some ((ms_eng ms)\<lparr>mg_book := bk\<rparr>, if ist = SUCCESS then st else ist, idx))"
      using val M(1,7) type st st' f by (auto simp: process_order_def split: option.splits)
    obtain bk ist idx where ins: "book_insert_order ?sd (o_id o') (o_price o') ?rest (traded ts) (mg_book (ms_eng ms)) = Some (bk, ist, idx)"
      using I free by (auto split: option.splits)
    let ?m = "(ms_eng ms)\<lparr>mg_book := bk\<rparr>"
    have pos: "\<forall>sd p. \<forall>e \<in> set (?B sd p). 0 < fst (snd e) \<and> 0 \<le> snd (snd e)" using M(6) by (simp add: engine_rel_def)
    have "(engine_rel np pb (spec_insert ?sd (o_price o') (o_id o', ?rest, traded ts) ?B) ?m \<and> ist = SUCCESS \<and> idx \<noteq> None) \<or>
        (engine_rel np pb ?B ?m \<and> ist = BAD_ALLOC \<and> idx = None \<and> op_free_slots (bk_pool bk) = 0)"
    proof (cases idx)
      case None
      then show ?thesis using I ins M(6) by (auto simp: engine_rel_def)
    next
      case (Some i)
      then have "represents np pb (spec_insert ?sd (o_price o') (o_id o', ?rest, traded ts) ?B) bk" "ist = SUCCESS" using I ins by simp_all
      moreover have "\<forall>sd p. \<forall>e \<in> set (spec_insert ?sd (o_price o') (o_id o', ?rest, traded ts) ?B sd p). 0 < fst (snd e) \<and> 0 \<le> snd (snd e)"
        by (rule spec_insert_all [OF pos]) (use st(2) M(3) in simp)
      ultimately show ?thesis using Some by (simp add: engine_rel_def)
    qed
    then show ?thesis using eq ins M(1-5,10) st' False val by (auto simp: Let_def)
  qed
qed

text \<open>C7: processing an order never fails and always ends. An order that is not valid is rejected and changes nothing. A limit order that does not reach the best
  level of the other side trades nothing; every other accepted order is matched until it is filled or the level that the book has as its best one is
  empty. If the cached best prices of the other side are exact, this means: each trade is at the best price among the orders resting there at that time, with the oldest
  order of that price, for the smaller of what the taker still wants and that order has; and a rest remains only if that side is then empty or the last
  trade emptied its price partition (after which the cached best price is stale). In every case the trades take from the heads of the queues, their quantities add up to what
  the order was filled, and the level totals stay equal to the sums over their queues. What remains of a limit order joins the tail of the queue of its own
  price; what remains of a market order is dropped. The status tells whether all, some or none of the quantity was traded, or that no slot was free, in which
  case the rest of the order is lost although its trades stand.\<close>

theorem process_order_conserves_and_fills_fifo:
  assumes eng: "engine_rel np pb B m" and id: "valid_id (o_id o')" "\<not> has_id B (o_id o')" and p: "price_ok np pb (o_price o')"
    and q: "0 < o_qty o'" and f: "o_filled o' = 0"
    and room: "act (o_side o') (mg_book m) (partition_id pb (o_price o')) \<noteq> None \<or> pp_free (bk_parts (mg_book m)) \<noteq> []"
  shows "\<exists>m' st idx. process_order o' m = Some (m', st, idx) \<and>
    (if \<not> validate_order (mg_instrument m) o' then st = REJECTED \<and> m' = m
     else \<exists>ms st0 ts Q. match_order (o_side o') \<lparr>ms_eng = m, ms_taker = OnFly o', ms_trades = 0, ms_last = 0\<rparr> = Some (ms, st0) \<and>
       matched_to_the_end (o_side o') o' pb B m ts Q (ms_eng ms) \<and>
       fifo_fills ts (B (opp_side (o_side o'))) = Some Q \<and> 0 \<le> traded ts \<and> traded ts \<le> o_qty o' \<and> mg_trades m' = mg_trades m @ ts \<and>
       (let B' = on_side (opp_side (o_side o')) Q B; rest = o_qty o' - traded ts;
            st' = (if traded ts = 0 then NO_MATCH else if rest = 0 then FULL_FILL else PARTIAL_FILL) in
        if rest = 0 \<or> o_type o' = MARKET then engine_rel np pb B' m' \<and> st = st' \<and> idx = None
        else engine_rel np pb (spec_insert (o_side o') (o_price o') (o_id o', rest, traded ts) B') m' \<and> st = st' \<and> idx \<noteq> None \<or>
          engine_rel np pb B' m' \<and> st = BAD_ALLOC \<and> idx = None \<and> op_free_slots (bk_pool (mg_book m')) = 0))"
  using assms by (rule process_order_spec)

definition sample_instrument :: normalized_instrument where
  "sample_instrument = \<lparr>price_min_scaled = 1, price_max_scaled = 16, qty_min_scaled = 1, qty_max_scaled = 100, min_notional = 1\<rparr>"

lemma engine_rel_init:
  "0 < n \<Longrightarrow> n \<le> 2 ^ 30 \<Longrightarrow> np \<le> 2 ^ 32 \<Longrightarrow> engine_rel np pb (\<lambda>_ _. []) (MatchingManager_init ni n np (2 ^ pb) pb)"
  using represents_init [of n np pb] by (simp add: engine_rel_def MatchingManager_init_def)

definition one_ask_engine :: engine_t where
  "one_ask_engine = (MatchingManager_init sample_instrument 4 2 8 3)\<lparr>mg_book := one_ask\<rparr>"

lemma one_ask_best:
  "map_option (\<lambda>l. (l, pl_price (level one_ask l))) (get_best_price_level ASK one_ask) = Some ((1, 5), 5)"
  by code_simp

lemma one_ask_rel: "engine_rel 2 3 (spec_insert ASK 5 (7, 10, 0) (\<lambda>_ _. [])) one_ask_engine"
  using one_ask_represents by (simp add: engine_rel_def one_ask_engine_def spec_insert_def)

lemma one_ask_exact: "side_exact 3 (spec_insert ASK 5 (7, 10, 0) (\<lambda>_ _. [])) (mg_book one_ask_engine) sd"
proof -
  obtain L where "best_exact 3 L one_ask" "spec_insert ASK 5 (7, 10, 0) (\<lambda>_ _. []) = view L one_ask"
    using gentle_run_exact [OF gentle_one_ask] by (auto simp: book_exact_def)
  then show ?thesis by (simp add: one_ask_engine_def side_exact_view best_exactD)
qed

lemma one_ask_reach: "crosses BID (o_price o') 5 \<Longrightarrow> \<not> out_of_reach BID o' (mg_book one_ask_engine)"
  using one_ask_best by (auto simp: out_of_reach_def one_ask_engine_def split: option.splits)

text \<open>Against ten at the price 5, a taker of less is filled by one trade.\<close>

lemma best_fills_one:
  fixes Q0 :: "price \<Rightarrow> entry list"
  assumes Q0: "Q0 = (\<lambda>_. [])(5 := [(7, 10, 0)])" and bf: "best_fills ASK r ts Q0" and st: "matching_stops 3 (r - traded ts) ts Q"
    and ff: "fifo_fills ts Q0 = Some Q" and r: "0 < r" "r < 10"
  shows "map (\<lambda>t. (t_maker t, t_price t, t_qty t)) ts = [(7, 5, r)]"
proof (cases ts)
  case Nil
  then have "Q 5 \<noteq> []" "r = 0 \<or> (\<forall>p. Q p = [])" using st ff by (auto simp: matching_stops_def Q0)
  then show ?thesis using r by blast
next
  case (Cons t us)
  obtain Q1 where th: "take_head t Q0 = Some Q1" and bf1: "best_fills ASK (r - t_qty t) us Q1"
    using bf Cons by (auto split: option.splits simp del: take_head.simps)
  have "is_best ASK {p. Q0 p \<noteq> []} (t_price t)" and q: "t_qty t = min r (fst (snd (hd (Q0 (t_price t)))))" using bf Cons by auto
  then have p: "t_price t = 5" by (auto simp: is_best_def Q0 split: if_splits)
  then have tq: "t_qty t = r" using q r by (simp add: Q0)
  have tm: "t_maker t = 7" and Q1: "Q1 5 = [(7, 10 - r, r)]" using th p tq r by (auto simp: Q0 split: if_splits)
  have "us = []"
  proof (cases us)
    case (Cons u vs)
    then obtain Q2 where "take_head u Q1 = Some Q2" and "t_qty u = min 0 (fst (snd (hd (Q1 (t_price u)))))"
      using bf1 tq by (auto split: option.splits simp del: take_head.simps)
    then have "0 < t_qty u" "t_qty u \<le> 0" by (auto split: list.splits if_splits)
    then show ?thesis by simp
  qed simp
  then show ?thesis using Cons p tq tm by simp
qed

theorem process_order_conserves_and_fills_fifo_witness:
  "\<exists>m' ts. process_order (new_order 9 LIMIT BID 6 4) one_ask_engine = Some (m', FULL_FILL, None) \<and> mg_trades m' = mg_trades one_ask_engine @ ts \<and>
    map (\<lambda>t. (t_maker t, t_price t, t_qty t)) ts = [(7, 5, 4)]"
proof -
  let ?m = one_ask_engine and ?o = "new_order 9 LIMIT BID 6 4" and ?B = "spec_insert ASK 5 (7, 10, 0) (\<lambda>_ _. [])"
  have o: "valid_id (o_id ?o)" "\<not> has_id ?B (o_id ?o)" "price_ok 2 3 (o_price ?o)" "0 < o_qty ?o" "o_filled ?o = 0"
    by (auto simp: new_order_def valid_id_def EMPTY_KEY_def TOMBSTONE_KEY_def has_id_def price_ok_def spec_insert_def)
  have "pp_free (bk_parts one_ask) \<noteq> []" by code_simp
  then have room: "act (o_side ?o) (mg_book ?m) (partition_id 3 (o_price ?o)) \<noteq> None \<or> pp_free (bk_parts (mg_book ?m)) \<noteq> []"
    by (simp add: one_ask_engine_def)
  have v: "validate_order (mg_instrument ?m) ?o"
    by (simp add: validate_order_def one_ask_engine_def MatchingManager_init_def sample_instrument_def new_order_def)
  have oo: "o_side ?o = BID" "o_qty ?o = 4" "crosses BID (o_price ?o) 5" by (simp_all add: new_order_def)
  note reach = one_ask_reach [OF oo(3)]
  have nv: "(\<not> validate_order (mg_instrument ?m) ?o) = False" using v by simp
  note processed = process_order_conserves_and_fills_fifo [OF one_ask_rel o room]
  then obtain m' st idx ts Q and ms :: match_state where R: "process_order ?o ?m = Some (m', st, idx)" "mg_trades m' = mg_trades ?m @ ts"
    "matched_to_the_end (o_side ?o) ?o 3 ?B ?m ts Q (ms_eng ms)" "fifo_fills ts (?B (opp_side (o_side ?o))) = Some Q"
    unfolding nv if_False by blast
  have one: "map (\<lambda>t. (t_maker t, t_price t, t_qty t)) ts = [(7, 5, 4)]"
  proof (rule best_fills_one)
    show "?B ASK = (\<lambda>_. [])(5 := [(7, 10, 0)])" by (auto simp: spec_insert_def)
    show "best_fills ASK 4 ts (?B ASK)" "matching_stops 3 (4 - traded ts) ts Q"
      using R(3) reach one_ask_exact [of ASK] by (simp_all add: matched_to_the_end_def oo)
    show "fifo_fills ts (?B ASK) = Some Q" using R(4) by (simp add: oo)
  qed simp_all
  then have four: "traded ts = 4" by (cases ts) auto
  have "st = FULL_FILL \<and> idx = None" using processed R(1,2) v four oo(2) by (auto simp: Let_def)
  then show ?thesis using R one by simp
qed

section \<open>The limit of an order\<close>

text \<open>The loop looks at neither the type nor the limit price of an order on the stack.\<close>

fun retype :: "order_type \<Rightarrow> price \<Rightarrow> taker \<Rightarrow> taker" where
  "retype ty p (OnFly o') = OnFly (o'\<lparr>o_type := ty, o_price := p\<rparr>)"
| "retype ty p (InBook j) = InBook j"

abbreviation retyped :: "order_type \<Rightarrow> price \<Rightarrow> match_state \<Rightarrow> match_state" where
  "retyped ty p ms \<equiv> ms\<lparr>ms_taker := retype ty p (ms_taker ms)\<rparr>"

lemma retype_order:
  "o_qty (taker_order (retype ty p t) bk) = o_qty (taker_order t bk)" "o_id (taker_order (retype ty p t) bk) = o_id (taker_order t bk)"
  "o_side (taker_order (retype ty p t) bk) = o_side (taker_order t bk)" "o_filled (taker_order (retype ty p t) bk) = o_filled (taker_order t bk)"
  by (cases t; simp)+

lemma retype_cond: "match_cond sd (retyped ty p ms) = match_cond sd ms"
  by (simp add: match_cond_def Let_def retype_order split: option.split)

lemma retype_fill: "taker_fill x (retype ty p t) bk = (retype ty p (fst (taker_fill x t bk)), snd (taker_fill x t bk))"
  by (cases t) (simp_all add: fill_order_def)

lemma retype_step: "match_step l i (retyped ty p ms) = map_option (retyped ty p) (match_step l i ms)"
  by (simp add: match_step_def Let_def case_prod_unfold retype_order retype_fill split: option.split)

lemma retype_loop:
  assumes "match_inv sd np pb L ms"
  shows "match_loop sd (retyped ty p ms) = map_option (retyped ty p) (match_loop sd ms)"
  using assms
proof (induction "nat (o_qty (ms_order ms))" arbitrary: ms L rule: less_induct)
  case less
  show ?case
  proof (cases "match_cond sd ms")
    case None
    then show ?thesis by (simp add: match_loop.simps [of sd ms] match_loop.simps [of sd "retyped ty p ms"] retype_cond)
  next
    case (Some r)
    obtain l i where r: "r = (l, i)" by (rule prod.exhaust)
    with Some have c: "match_cond sd ms = Some (l, i)" by simp
    obtain ms1 L1 and t :: trade where s: "match_step l i ms = Some ms1" "match_inv sd np pb L1 ms1" "0 < t_qty t" "t_qty t \<le> o_qty (ms_order ms)"
      "order_data (ms_order ms1) = order_data (fill_order (t_qty t) (ms_order ms))"
      by (rule match_step_facts [OF less.prems c]) blast
    then have "nat (o_qty (ms_order ms1)) < nat (o_qty (ms_order ms))" by (simp add: order_data_def)
    from less.hyps [OF this s(2)] show ?thesis
      using c s(1) by (simp add: match_loop.simps [of sd ms] match_loop.simps [of sd "retyped ty p ms"] retype_cond retype_step)
  qed
qed

text \<open>C30: once the limit of an order reaches the best price of the other side, the limit no longer matters: the order is matched against the
  book exactly as a market order of the same quantity, so it can trade at prices worse than its limit.\<close>

theorem limit_price_not_enforced:
  assumes eng: "engine_rel np pb B m" and best: "get_best_price_level (opp_side (o_side o')) (mg_book m) = Some l"
    and cross: "crosses (o_side o') (o_price o') (pl_price (level (mg_book m) l))"
  shows "match_order (o_side o') \<lparr>ms_eng = m, ms_taker = OnFly (o'\<lparr>o_type := LIMIT\<rparr>), ms_trades = 0, ms_last = 0\<rparr> =
    map_option (\<lambda>(ms, st). (retyped LIMIT (o_price o') ms, st))
      (match_order (o_side o') \<lparr>ms_eng = m, ms_taker = OnFly (o'\<lparr>o_type := MARKET\<rparr>), ms_trades = 0, ms_last = 0\<rparr>)"
proof -
  let ?ms = "\<lparr>ms_eng = m, ms_taker = OnFly (o'\<lparr>o_type := MARKET\<rparr>), ms_trades = 0, ms_last = 0\<rparr>"
  let ?lim = "\<lparr>ms_eng = m, ms_taker = OnFly (o'\<lparr>o_type := LIMIT\<rparr>), ms_trades = 0, ms_last = 0\<rparr>"
  obtain L where L: "book_rel np pb {} L (mg_book m)" "\<And>sd. positive sd L (mg_book m)" using engine_relE [OF eng] by metis
  have inv: "match_inv (o_side o') np pb L ?ms" using L by (simp add: match_inv_def)
  have lim: "?lim = retyped LIMIT (o_price o') ?ms" by simp
  have loop: "match_loop (o_side o') ?lim = map_option (retyped LIMIT (o_price o')) (match_loop (o_side o') ?ms)"
    unfolding lim by (rule retype_loop [OF inv])
  show ?thesis
    using best cross loop by (simp add: match_order_def Let_def retype_order split: option.split)
qed

theorem limit_price_not_enforced_witness:
  "\<exists>l. match_order BID \<lparr>ms_eng = one_ask_engine, ms_taker = OnFly (new_order 9 LIMIT BID 6 4), ms_trades = 0, ms_last = 0\<rparr> =
    map_option (\<lambda>(ms, st). (retyped LIMIT 6 ms, st))
      (match_order BID \<lparr>ms_eng = one_ask_engine, ms_taker = OnFly (new_order 9 MARKET BID 6 4), ms_trades = 0, ms_last = 0\<rparr>) \<and>
    get_best_price_level ASK (mg_book one_ask_engine) = Some l"
proof -
  let ?o = "new_order 9 LIMIT BID 6 4"
  have bk: "mg_book one_ask_engine = one_ask" by (simp add: one_ask_engine_def)
  obtain l where l: "get_best_price_level ASK one_ask = Some l" "pl_price (level one_ask l) = 5" using one_ask_best by auto
  have o: "o_side ?o = BID" "?o\<lparr>o_type := LIMIT\<rparr> = ?o" "?o\<lparr>o_type := MARKET\<rparr> = new_order 9 MARKET BID 6 4" "o_price ?o = 6"
    by (simp_all add: new_order_def)
  have best: "get_best_price_level (opp_side (o_side ?o)) (mg_book one_ask_engine) = Some l" using l(1) by (simp add: o bk)
  have cross: "crosses (o_side ?o) (o_price ?o) (pl_price (level (mg_book one_ask_engine) l))" using l(2) by (simp add: o bk)
  show ?thesis using limit_price_not_enforced [OF one_ask_rel best cross] l(1) unfolding o bk by blast
qed

end
