(* ===== verification/Matching_Modify.thy ===== *)
theory Matching_Modify
  imports Matching_Run
begin

text \<open>
  Changing the price of a resting order (modify_order_price, match_resting_order_): the order moves to the tail of its new queue and is
  then matched as the taker, in place in the order pool; the total of its own level is corrected afterwards.
\<close>

definition spec_fill :: "order_id \<Rightarrow> quantity \<Rightarrow> abook \<Rightarrow> abook" where
  "spec_fill k x B = (\<lambda>sd p. map (\<lambda>(k', q, f). if k' = k then (k, q - x, f + x) else (k', q, f)) (B sd p))"

text \<open>What the match did to the book: the other side was filled from the heads of its queues, the order was reduced or removed.\<close>

definition matched_book :: "side \<Rightarrow> (price \<Rightarrow> entry list) \<Rightarrow> order_id \<Rightarrow> quantity \<Rightarrow> bool \<Rightarrow> abook \<Rightarrow> abook" where
  "matched_book sd Q k x full B = (if full then spec_remove k else spec_fill k x) (on_side (opp_side sd) Q B)"

lemma side_cases: "s = sd \<or> s = opp_side sd"
  by (cases s; cases sd) auto

text \<open>The match of a resting order up to the correction of its level.\<close>

lemma match_order_in_book:
  assumes L: "book_rel np pb {} L (mg_book m)" "totals_rel np pb L (\<lambda>_ _. 0) (mg_book m)" "\<And>s. positive s L (mg_book m)"
    and j: "j \<in> set (L sd p)"
  shows "\<exists>ms st L' ts. match_order sd \<lparr>ms_eng = m, ms_taker = InBook j, ms_trades = 0, ms_last = 0\<rparr> = Some (ms, st) \<and>
    book_rel np pb {} L' (ms_book ms) \<and> totals_rel np pb L' (dadd sd p (traded ts) (\<lambda>_ _. 0)) (ms_book ms) \<and> L' sd = L sd \<and>
    positive (opp_side sd) L' (ms_book ms) \<and> fifo_fills ts (view L (mg_book m) (opp_side sd)) = Some (view L' (ms_book ms) (opp_side sd)) \<and>
    0 \<le> traded ts \<and> traded ts \<le> o_qty (ord (mg_book m) j) \<and> mg_trades (ms_eng ms) = mg_trades m @ ts \<and>
    order_data (ord (ms_book ms) j) = order_data (fill_order (traded ts) (ord (mg_book m) j)) \<and>
    (\<forall>x q. x \<in> set (L sd q) \<longrightarrow> x \<noteq> j \<longrightarrow> order_data (ord (ms_book ms) x) = order_data (ord (mg_book m) x)) \<and>
    (if traded ts = o_qty (ord (mg_book m) j) then st = FULL_FILL else if 0 < traded ts then st = PARTIAL_FILL
     else st = NO_MATCH \<or> st = PARTIAL_FILL \<and> 0 < o_filled (ord (mg_book m) j)) \<and>
    matched_to_the_end sd (ord (mg_book m) j) pb (view L (mg_book m)) m ts (view L' (ms_book ms) (opp_side sd)) (ms_eng ms)"
proof -
  let ?ms = "\<lparr>ms_eng = m, ms_taker = InBook j, ms_trades = 0, ms_last = 0\<rparr>" and ?op = "opp_side sd" and ?o = "ord (mg_book m) j"
  have inv: "match_inv sd np pb L ?ms" using L j by (auto simp: match_inv_def)
  have pr: "o_price ?o = p" using place_relD(5) [OF book_relD(3) [OF L(1)] j] .
  have pos: "0 < o_qty ?o" "0 \<le> o_filled ?o" using L(3) [of sd] j by (auto simp: positive_def)
  let ?best = "get_best_price_level ?op (mg_book m)"
  note reach = out_of_reach_iff [of sd ?o "mg_book m"]
  show ?thesis
  proof (cases "o_type ?o = LIMIT \<and> ?best \<noteq> None \<and> \<not> crosses sd (o_price ?o) (pl_price (level (mg_book m) (the ?best)))")
    case True
    then have "match_order sd ?ms = Some (?ms, NO_MATCH)" by (simp add: match_order_def Let_def)
    moreover have "dadd sd p 0 (\<lambda>_ _. 0) = (\<lambda>_ _. 0)" by simp
    moreover have "matched_to_the_end sd ?o pb (view L (mg_book m)) m [] Q m" for Q using True reach by (simp add: matched_to_the_end_def)
    ultimately show ?thesis using L pos
      by (intro exI [of _ ?ms] exI [of _ NO_MATCH] exI [of _ L] exI [of _ "[]"]) simp
  next
    case False
    obtain ms L' ts where I:
      "match_loop sd ?ms = Some ms" "match_inv sd np pb L' ms" "L' sd = L sd" "mg_trades (ms_eng ms) = mg_trades m @ ts"
      "fifo_fills ts (view L (mg_book m) ?op) = Some (view L' (ms_book ms) ?op)" "ms_taker ms = InBook j"
      "order_data (ms_order ms) = order_data (fill_order (traded ts) ?o)"
      "0 \<le> traded ts" "traded ts \<le> o_qty ?o"
      "\<forall>d. totals_rel np pb L d (mg_book m) \<longrightarrow> totals_rel np pb L' (dadd sd p (traded ts) d) (ms_book ms)"
      "\<forall>x. (\<exists>q. x \<in> set (L sd q)) \<longrightarrow> j \<noteq> x \<longrightarrow> order_data (ord (ms_book ms) x) = order_data (ord (mg_book m) x)"
      "match_cond sd ms = None" "side_exact pb L (mg_book m) ?op \<longrightarrow>
        best_fills ?op (o_qty ?o) ts (view L (mg_book m) ?op) \<and> matching_stops pb (o_qty ?o - traded ts) ts (view L' (ms_book ms) ?op)"
      using match_loop_facts [OF inv] pos by (simp add: taker_filled_def less_imp_le pr) (metis taker_order.simps(2))
    have oj: "order_data (ord (ms_book ms) j) = order_data (fill_order (traded ts) ?o)" using I(6,7) by simp
    define st where "st = (if 0 < o_filled (ord (ms_book ms) j) then if o_qty (ord (ms_book ms) j) = 0 then FULL_FILL else PARTIAL_FILL else NO_MATCH)"
    have mo: "match_order sd ?ms = Some (ms, st)"
      using False I(1,6) unfolding match_order_def Let_def st_def by (subst if_not_P) (simp, simp)
    have d: "o_qty (ord (ms_book ms) j) = o_qty ?o - traded ts" "o_filled (ord (ms_book ms) j) = o_filled ?o + traded ts"
      using oj by (simp_all add: order_data_def)
    have "if traded ts = o_qty ?o then st = FULL_FILL else if 0 < traded ts then st = PARTIAL_FILL
     else st = NO_MATCH \<or> st = PARTIAL_FILL \<and> 0 < o_filled ?o" unfolding st_def d using pos I(8) by auto
    moreover have "matched_to_the_end sd ?o pb (view L (mg_book m)) m ts (view L' (ms_book ms) ?op) (ms_eng ms)"
    proof -
      have "traded ts = o_qty ?o \<or> no_best_head ?op (ms_book ms)" using match_cond_None [OF I(12)] I(6,9) d(1) by (cases "traded ts = o_qty ?o") auto
      moreover have "\<not> out_of_reach sd ?o (mg_book m)" using False reach by blast
      ultimately show ?thesis using I(13) unfolding matched_to_the_end_def side_exact_view by simp
    qed
    ultimately show ?thesis using mo I oj L(2) by (intro exI [of _ ms] exI [of _ st] exI [of _ L'] exI [of _ ts]) (auto simp: match_inv_def)
  qed
qed

lemma entry_fill:
  "order_data (ord bk' j) = order_data (fill_order x (ord bk j)) \<Longrightarrow>
   entry_of bk' j = (o_id (ord bk j), o_qty (ord bk j) - x, o_filled (ord bk j) + x)"
  by (simp add: entry_of_def order_data_def)

lemma view_filled:
  assumes rel: "book_rel np pb {} L' bk'" and j: "j \<in> set (L sd p)" and L': "L' sd = L sd"
    and oj: "order_data (ord bk' j) = order_data (fill_order x (ord bk j))"
    and others: "\<forall>y q. y \<in> set (L sd q) \<longrightarrow> y \<noteq> j \<longrightarrow> order_data (ord bk' y) = order_data (ord bk y)"
  shows "view L' bk' = spec_fill (o_id (ord bk j)) x (on_side (opp_side sd) (view L' bk' (opp_side sd)) (view L bk))"
proof (intro ext)
  fix s q
  let ?k = "o_id (ord bk j)" and ?g = "\<lambda>(k', q, f). if k' = o_id (ord bk j) then (o_id (ord bk j), q - x, f + x) else (k', q, f)"
  have kj: "o_id (ord bk' j) = ?k" using oj by (simp add: order_data_def)
  have jL': "j \<in> set (L' sd p)" using j L' by simp
  consider "s = sd" | "s = opp_side sd" using side_cases by blast
  then show "view L' bk' s q = spec_fill ?k x (on_side (opp_side sd) (view L' bk' (opp_side sd)) (view L bk)) s q"
  proof cases
    case 1
    have "entry_of bk' y = ?g (entry_of bk y)" if y: "y \<in> set (L sd q)" for y
    proof (cases "y = j")
      case True
      then show ?thesis using entry_fill [OF oj] by (simp add: entry_of_def)
    next
      case False
      then have "order_data (ord bk' y) = order_data (ord bk y)" using others y by blast
      moreover have "o_id (ord bk' y) \<noteq> ?k" using id_of_index [OF rel jL', of y sd q] y L' False kj by simp
      ultimately show ?thesis by (simp add: entry_of_def order_data_def)
    qed
    then show ?thesis using 1 L' by (simp add: view_def spec_fill_def)
  next
    case 2
    have "?g e = e" if e: "e \<in> set (view L' bk' s q)" for e
    proof -
      obtain y where y: "y \<in> set (L' s q)" "e = entry_of bk' y" using e by (auto simp: view_def)
      have "y \<noteq> j" using queues_disjoint [OF book_relD(3) [OF rel] jL', of s q] y(1) 2 by auto
      then have "o_id (ord bk' y) \<noteq> ?k" using id_of_index [OF rel jL' y(1)] kj by simp
      then show ?thesis using y(2) by (simp add: entry_of_def)
    qed
    then show ?thesis using 2 by (simp add: spec_fill_def map_idI)
  qed
qed

lemma match_resting_facts:
  assumes L: "book_rel np pb {} L (mg_book m)" "totals_rel np pb L (\<lambda>_ _. 0) (mg_book m)" "\<And>s. positive s L (mg_book m)"
    and j: "j \<in> set (L sd p)"
  defines "q \<equiv> o_qty (ord (mg_book m) j)" and "k \<equiv> o_id (ord (mg_book m) j)" and "f \<equiv> o_filled (ord (mg_book m) j)"
  shows "\<exists>m' st ts Q ms st0. match_resting_order sd j m = Some (m', st) \<and>
    match_order sd \<lparr>ms_eng = m, ms_taker = InBook j, ms_trades = 0, ms_last = 0\<rparr> = Some (ms, st0) \<and>
    matched_to_the_end sd (ord (mg_book m) j) pb (view L (mg_book m)) m ts Q (ms_eng ms) \<and> fifo_fills ts (view L (mg_book m) (opp_side sd)) = Some Q \<and>
    0 \<le> traded ts \<and> traded ts \<le> q \<and> mg_trades m' = mg_trades m @ ts \<and>
    engine_rel np pb (matched_book sd Q k (traded ts) (traded ts = q) (view L (mg_book m))) m' \<and>
    (if traded ts = q then st = FULL_FILL else if 0 < traded ts then st = PARTIAL_FILL else st = NO_MATCH \<or> st = PARTIAL_FILL \<and> 0 < f)"
proof -
  from match_order_in_book [OF L j] obtain ms st L' ts where M:
    "match_order sd \<lparr>ms_eng = m, ms_taker = InBook j, ms_trades = 0, ms_last = 0\<rparr> = Some (ms, st)"
    "book_rel np pb {} L' (ms_book ms)" "totals_rel np pb L' (dadd sd p (traded ts) (\<lambda>_ _. 0)) (ms_book ms)" "L' sd = L sd"
    "positive (opp_side sd) L' (ms_book ms)" "fifo_fills ts (view L (mg_book m) (opp_side sd)) = Some (view L' (ms_book ms) (opp_side sd))"
    "0 \<le> traded ts" "traded ts \<le> q" "mg_trades (ms_eng ms) = mg_trades m @ ts"
    "order_data (ord (ms_book ms) j) = order_data (fill_order (traded ts) (ord (mg_book m) j))"
    "\<forall>x q. x \<in> set (L sd q) \<longrightarrow> x \<noteq> j \<longrightarrow> order_data (ord (ms_book ms) x) = order_data (ord (mg_book m) x)"
    "if traded ts = q then st = FULL_FILL else if 0 < traded ts then st = PARTIAL_FILL else st = NO_MATCH \<or> st = PARTIAL_FILL \<and> 0 < f"
    "matched_to_the_end sd (ord (mg_book m) j) pb (view L (mg_book m)) m ts (view L' (ms_book ms) (opp_side sd)) (ms_eng ms)"
    unfolding q_def f_def by blast
  let ?bk = "ms_book ms" and ?Q = "view L' (ms_book ms) (opp_side sd)"
  have j': "j \<in> set (L' sd p)" using j M(4) by simp
  note R = book_relD [OF M(2)] and P = parts_okD [OF book_relD(1) [OF M(2)]]
  have pr: "o_price (ord ?bk j) = p" and ok: "price_ok np pb p" using place_relD(2,5) [OF R(3) j'] by auto
  obtain pi where a: "act sd ?bk (partition_id pb p) = Some pi" using place_relD(3) [OF R(3) j'] by auto
  have D: "o_qty (ord ?bk j) = q - traded ts" "o_id (ord ?bk j) = k" "o_filled (ord ?bk j) = f + traded ts"
    using M(10) by (simp_all add: order_data_def q_def k_def f_def)
  have q0: "0 < q" "0 \<le> f" using L(3) [of sd] j by (auto simp: positive_def q_def f_def)
  let ?bk2 = "upd_level pi (offset_in_partition pb p) (\<lambda>pl. pl\<lparr>pl_qty := pl_qty pl + (- traded ts)\<rparr>) ?bk"
  note V = level_qty_rel [OF M(2) a ok, where x = "- traded ts"]
  define bk2 where "bk2 = (if st = PARTIAL_FILL \<or> st = FULL_FILL then ?bk2 else ?bk)"
  have zero: "traded ts = 0" if "\<not> (st = PARTIAL_FILL \<or> st = FULL_FILL)" using M(7,12) that by (auto split: if_splits)
  have rel2: "book_rel np pb {} L' bk2" "totals_rel np pb L' (\<lambda>_ _. 0) bk2" "ord bk2 = ord ?bk"
    using V(1,2,3) M(2,3) V(2) [OF M(3)] zero by (auto simp: bk2_def)
  have eq: "match_resting_order sd j m = (if st = FULL_FILL
      then (case book_remove_order k bk2 of None \<Rightarrow> None | Some (bk3, _) \<Rightarrow> Some ((ms_eng ms)\<lparr>mg_book := bk3\<rparr>, st))
      else Some ((ms_eng ms)\<lparr>mg_book := bk2\<rparr>, st))"
    using M(1) pr get_or_create_old [OF R(1) a] D unfolding match_resting_order_def bk2_def q_def [symmetric]
    by (simp add: P(4) Let_def)
  have data2: "same_data ?bk bk2" by (simp add: same_data_def rel2(3))
  have v: "view L' bk2 = spec_fill k (traded ts) (on_side (opp_side sd) ?Q (view L (mg_book m)))"
    using view_filled [where L = L and sd = sd and bk = "mg_book m", OF M(2) j M(4,10,11)] view_data [OF data2, of L'] by (simp add: k_def)
  have own: "0 < o_qty (ord ?bk x) \<and> 0 \<le> o_filled (ord ?bk x)" if "x \<in> set (L sd r)" "x \<noteq> j" for x r
    using M(11) that L(3) [of sd] by (auto simp: positive_def order_data_def)
  have pos: "0 < o_qty (ord ?bk x) \<and> 0 \<le> o_filled (ord ?bk x)" if "x \<in> set (L' s r)" "x \<noteq> j" for s x r
    using side_cases [of s sd] that M(4,5) own by (auto simp: positive_def)
  show ?thesis
  proof (cases "traded ts = q")
    case True
    then have st: "st = FULL_FILL" using M(12) by simp
    have "o_id (ord bk2 j) = k" using D(2) rel2(3) by simp
    from book_remove_ex [OF rel2(1) j' this] obtain bk3 where rm: "book_remove_order k bk2 = Some (bk3, SUCCESS)" "book_rel np pb {} (put sd p (remove1 j (L' sd p)) L') bk3"
      "same_data bk2 bk3" "totals_rel np pb (put sd p (remove1 j (L' sd p)) L') (\<lambda>_ _. 0) bk3"
      using rel2(2) by blast
    let ?m = "(ms_eng ms)\<lparr>mg_book := bk3\<rparr>" and ?L = "put sd p (remove1 j (L' sd p)) L'"
    have sub: "x \<in> set (L' s r) \<and> x \<noteq> j" if "x \<in> set (?L s r)" for s x r
      using that place_relD(1) [OF R(3)] queues_disjoint [OF R(3) j'] by (auto split: if_splits)
    have "positive s ?L bk3" for s
      unfolding positive_def same_data_simps [OF rm(3)] rel2(3) using sub pos by blast
    then have "engine_rel np pb (view ?L bk3) ?m" using engine_relI [of np pb ?L ?m] rm(2,4) by simp
    moreover have "view ?L bk3 = spec_remove k (view L' bk2)"
      using view_remove [OF rel2(1) j', of k] D(2) rel2(3) view_data [OF rm(3)] by simp
    moreover have "spec_remove k (spec_fill k x B) = spec_remove k B" for x B
    proof -
      have "filter (\<lambda>e. fst e \<noteq> k) (map (\<lambda>(k', q, f). if k' = k then (k, q - x, f + x) else (k', q, f)) es) = filter (\<lambda>e. fst e \<noteq> k) es"
        for es :: "entry list" by (induction es) (auto split: if_splits)
      then show ?thesis by (simp add: spec_remove_def spec_fill_def)
    qed
    ultimately have "engine_rel np pb (matched_book sd ?Q k (traded ts) True (view L (mg_book m))) ?m"
      by (simp add: v matched_book_def)
    then show ?thesis using eq st rm(1) M(1,6-9,13) True
      by (intro exI [of _ ?m] exI [of _ st] exI [of _ ts] exI [of _ ?Q] exI [of _ ms]) simp
  next
    case False
    then have st: "st \<noteq> FULL_FILL" using M(12) by (auto split: if_splits)
    let ?m = "(ms_eng ms)\<lparr>mg_book := bk2\<rparr>"
    have "positive s L' bk2" for s
      unfolding positive_def using pos rel2(3) D(1,3) False M(7,8) q0 by (metis add_nonneg_nonneg diff_gt_0_iff_gt order_le_neq_trans)
    then have "engine_rel np pb (view L' bk2) ?m" using engine_relI [of np pb L' ?m] rel2 by simp
    then have "engine_rel np pb (matched_book sd ?Q k (traded ts) False (view L (mg_book m))) ?m" by (simp add: v matched_book_def)
    then show ?thesis using eq st M(1,6-9,12,13) False
      by (intro exI [of _ ?m] exI [of _ st] exI [of _ ts] exI [of _ ?Q] exI [of _ ms]) simp
  qed
qed

lemma spec_remove_all: "\<forall>sd p. \<forall>e \<in> set (B sd p). P e \<Longrightarrow> \<forall>sd p. \<forall>e \<in> set (spec_remove k B sd p). P e"
  unfolding spec_remove_def by simp blast

lemma side_exact_cong: "L s = L' s \<Longrightarrow> side_exact pb L bk s = side_exact pb L' bk s"
  by (simp add: side_exact_def part_prices_def all_prices_def)

lemma matched_cong:
  "B (opp_side sd) = B' (opp_side sd) \<Longrightarrow> matched_to_the_end sd o' pb B m ts Q m' = matched_to_the_end sd o' pb B' m ts Q m'"
  by (simp add: matched_to_the_end_def side_exact_cong [of B "opp_side sd" B'])

lemma modify_price_spec:
  assumes eng: "engine_rel np pb B m" and k: "valid_id k" and e: "(k, q, f) \<in> set (B sd p0)"
    and p: "price_ok np pb p" "p \<noteq> p0" and range: "0 < p" "p < price_max_scaled (mg_instrument m)"
    and room: "act sd (mg_book m) (partition_id pb p) \<noteq> None \<or> pp_free (bk_parts (mg_book m)) \<noteq> []"
  shows "\<exists>bk j ms st0 m' st ts Q. book_reprice_order k p (mg_book m) = Some (bk, SUCCESS, Some j) \<and>
    represents np pb (spec_reprice sd p (k, q, f) B) bk \<and> o_price (ord bk j) = p \<and>
    match_order sd \<lparr>ms_eng = m\<lparr>mg_book := bk\<rparr>, ms_taker = InBook j, ms_trades = 0, ms_last = 0\<rparr> = Some (ms, st0) \<and>
    matched_to_the_end sd (ord bk j) pb B (m\<lparr>mg_book := bk\<rparr>) ts Q (ms_eng ms) \<and> o_qty (ord bk j) = q \<and>
    (side_exact pb B (mg_book m) (opp_side sd) \<longrightarrow> side_exact pb B bk (opp_side sd)) \<and>
    modify_order_price k p m = Some (m', st) \<and> fifo_fills ts (B (opp_side sd)) = Some Q \<and>
    0 \<le> traded ts \<and> traded ts \<le> q \<and> mg_trades m' = mg_trades m @ ts \<and>
    engine_rel np pb (matched_book sd Q k (traded ts) (traded ts = q) (spec_reprice sd p (k, q, f) B)) m' \<and>
    (if traded ts = q then st = FULL_FILL else if 0 < traded ts then st = PARTIAL_FILL else st = SUCCESS \<or> st = PARTIAL_FILL \<and> 0 < f)"
proof -
  obtain L where L: "book_rel np pb {} L (mg_book m)" "totals_rel np pb L (\<lambda>_ _. 0) (mg_book m)" "B = view L (mg_book m)"
    "\<And>sd. positive sd L (mg_book m)" using engine_relE [OF eng] by metis
  obtain j where j: "j \<in> set (L sd p0)" "entry_of (mg_book m) j = (k, q, f)" using e L(3) by (auto simp: view_def)
  then have D: "o_id (ord (mg_book m) j) = k" "o_qty (ord (mg_book m) j) = q" "o_filled (ord (mg_book m) j) = f" by (auto simp: entry_of_def)
  have find: "id_find (bk_ids (mg_book m)) k = Some j"
    using find_index(1) [OF L(1) k, of j] j(1) D(1) by (auto simp: resting_def)
  have pr: "o_price (ord (mg_book m) j) = p0" "o_side (ord (mg_book m) j) = sd"
    using place_relD(4,5) [OF book_relD(3) [OF L(1)] j(1)] by auto
  obtain bk where bk: "pls_reprice_order sd j p (mg_book m) = Some bk"
    using pls_reprice_rel(1) [OF L(1) j(1) p(1,2)] room by auto
  note M = pls_reprice_rel(2) [OF L(1) j(1) p(1,2) bk]
  have rp: "book_reprice_order k p (mg_book m) = Some (bk, SUCCESS, Some j)"
    using find pr p range bk by (simp add: book_reprice_order_def)
  let ?L = "moved sd j p0 p L" and ?m = "m\<lparr>mg_book := bk\<rparr>"
  have data: "same_data (mg_book m) bk" using M by simp
  have D': "o_id (ord bk j) = k" "o_qty (ord bk j) = q" "o_filled (ord bk j) = f" "o_side (ord bk j) = sd"
    using same_data_simps [OF data] D pr by simp_all
  have v: "view ?L bk = spec_reprice sd p (k, q, f) B"
    using view_moved [OF L(1) j(1) p(2)] view_data [OF data] j(2) L(3) by simp
  have "\<forall>s r. \<forall>e \<in> set (B s r). 0 < fst (snd e) \<and> 0 \<le> snd (snd e)" using eng by (simp add: engine_rel_def)
  moreover from this e have "0 < fst (snd (k, q, f)) \<and> 0 \<le> snd (snd (k, q, f))" by blast
  ultimately have all: "\<forall>s r. \<forall>e \<in> set (view ?L bk s r). 0 < fst (snd e) \<and> 0 \<le> snd (snd e)"
    unfolding v spec_reprice_def by (intro spec_insert_all spec_remove_all)
  have pos: "positive s ?L (mg_book ?m)" for s
    using all by (force simp: positive_def view_def entry_of_def)
  have jm: "j \<in> set (?L sd p)" by (simp add: moved_def)
  have "entry_of bk = entry_of (mg_book m)" by (rule ext) (simp add: entry_of_def same_data_simps [OF data])
  then have opp: "view ?L bk (opp_side sd) = B (opp_side sd)" by (simp add: L(3) view_def moved_def)
  have rel': "book_rel np pb {} ?L (mg_book ?m)" "totals_rel np pb ?L (\<lambda>_ _. 0) (mg_book ?m)" using M L(2) by simp_all
  have sm: "mg_book ?m = bk" "mg_trades ?m = mg_trades m" and opp': "spec_reprice sd p (k, q, f) B (opp_side sd) = B (opp_side sd)"
    using opp v by simp_all
  have moved': "represents np pb (spec_reprice sd p (k, q, f) B) bk" using rel' v by (auto simp: represents_def)
  have pj: "o_price (ord bk j) = p" using place_relD(5) [OF book_relD(3) [OF rel'(1)] jm] by simp
  have kept: "side_exact pb B bk (opp_side sd)" if "side_exact pb B (mg_book m) (opp_side sd)"
  proof -
    have "side_kept (opp_side sd) (mg_book m) bk" by (rule reprice_kept [OF L(1) j(1) bk]) (cases sd; simp)
    from side_kept_exact [OF this refl refl that] show ?thesis .
  qed
  from match_resting_facts [where m = ?m, OF rel' pos jm, unfolded sm D', unfolded v, unfolded opp'] obtain m' st ts Q ms st0 where R:
    "match_resting_order sd j ?m = Some (m', st)" "fifo_fills ts (B (opp_side sd)) = Some Q" "0 \<le> traded ts" "traded ts \<le> q"
    "mg_trades m' = mg_trades m @ ts" "engine_rel np pb (matched_book sd Q k (traded ts) (traded ts = q) (spec_reprice sd p (k, q, f) B)) m'"
    "if traded ts = q then st = FULL_FILL else if 0 < traded ts then st = PARTIAL_FILL else st = NO_MATCH \<or> st = PARTIAL_FILL \<and> 0 < f"
    "match_order sd \<lparr>ms_eng = ?m, ms_taker = InBook j, ms_trades = 0, ms_last = 0\<rparr> = Some (ms, st0)"
    "matched_to_the_end sd (ord bk j) pb (spec_reprice sd p (k, q, f) B) ?m ts Q (ms_eng ms)"
    by blast
  have mt: "matched_to_the_end sd (ord bk j) pb B ?m ts Q (ms_eng ms)" using R(9) matched_cong [of "spec_reprice sd p (k, q, f) B" sd B] opp' by simp
  have mod: "modify_order_price k p m = Some (m', if st = PARTIAL_FILL \<or> st = FULL_FILL then st else SUCCESS)"
    using rp R(1) D'(4) range by (simp add: modify_order_price_def Let_def)
  have st: "if traded ts = q then (if st = PARTIAL_FILL \<or> st = FULL_FILL then st else SUCCESS) = FULL_FILL
    else if 0 < traded ts then (if st = PARTIAL_FILL \<or> st = FULL_FILL then st else SUCCESS) = PARTIAL_FILL
    else (if st = PARTIAL_FILL \<or> st = FULL_FILL then st else SUCCESS) = SUCCESS \<or>
      (if st = PARTIAL_FILL \<or> st = FULL_FILL then st else SUCCESS) = PARTIAL_FILL \<and> 0 < f" using R(7) by (auto split: if_splits)
  show ?thesis by (intro exI conjI impI; (rule rp moved' pj R mt D' mod st)?) (erule kept)
qed

text \<open>C26: changing the price of a resting order, to a price in the range the code asserts, moves it to the tail of the queue of the new price and then matches it as a taker against
  the other side, to the end: when the new price does not reach the best level of the other side nothing is traded; otherwise the order is filled or the level that the book has as
  its best one there is empty. If the cached best prices of the other side are exact, each trade is at the best price there, with the oldest order of that price, for the smaller of
  both quantities, and a rest remains only if that side is then empty or the last trade emptied its partition. The quantities of the trades add
  up to what the order was filled, and the order ends up reduced by that or removed; the totals of all levels are right again afterwards. The status tells a full or partial fill, or
  success when nothing was traded, except that an order that had been filled partly before can be reported as a partial fill although nothing was traded now.\<close>

theorem modify_price_moves_and_matches:
  assumes eng: "engine_rel np pb B m" and k: "valid_id k" and e: "(k, q, f) \<in> set (B sd p0)"
    and p: "price_ok np pb p" "p \<noteq> p0" and range: "0 < p" "p < price_max_scaled (mg_instrument m)"
    and room: "act sd (mg_book m) (partition_id pb p) \<noteq> None \<or> pp_free (bk_parts (mg_book m)) \<noteq> []"
  shows "\<exists>bk j ms st0 m' st ts Q. book_reprice_order k p (mg_book m) = Some (bk, SUCCESS, Some j) \<and>
    represents np pb (spec_reprice sd p (k, q, f) B) bk \<and> o_price (ord bk j) = p \<and>
    match_order sd \<lparr>ms_eng = m\<lparr>mg_book := bk\<rparr>, ms_taker = InBook j, ms_trades = 0, ms_last = 0\<rparr> = Some (ms, st0) \<and>
    matched_to_the_end sd (ord bk j) pb B (m\<lparr>mg_book := bk\<rparr>) ts Q (ms_eng ms) \<and> o_qty (ord bk j) = q \<and>
    (side_exact pb B (mg_book m) (opp_side sd) \<longrightarrow> side_exact pb B bk (opp_side sd)) \<and>
    modify_order_price k p m = Some (m', st) \<and> fifo_fills ts (B (opp_side sd)) = Some Q \<and>
    0 \<le> traded ts \<and> traded ts \<le> q \<and> mg_trades m' = mg_trades m @ ts \<and>
    engine_rel np pb (matched_book sd Q k (traded ts) (traded ts = q) (spec_reprice sd p (k, q, f) B)) m' \<and>
    (if traded ts = q then st = FULL_FILL else if 0 < traded ts then st = PARTIAL_FILL else st = SUCCESS \<or> st = PARTIAL_FILL \<and> 0 < f)"
  using assms by (rule modify_price_spec)

lemma best_level_represented:
  assumes "represents np pb B bk" and "side_exact pb B bk sd"
  shows "(case get_best_price_level sd bk of None \<Rightarrow> {p. B sd p \<noteq> []} = {}
    | Some l \<Rightarrow> is_best sd {p. B sd p \<noteq> []} (pl_price (level bk l)) \<and> pl_head (level bk l) \<noteq> None)"
proof -
  obtain L where L: "book_rel np pb {} L bk" "B = view L bk" using assms(1) by (auto simp: represents_def)
  have "side_exact pb L bk sd" using assms(2) by (simp add: L(2) side_exact_view)
  from best_level_side [OF L(1) this] show ?thesis unfolding L(2) view_prices .
qed

text \<open>A bid at the price 3 is raised to 6 and takes from the ask at 5.\<close>

theorem modify_price_moves_and_matches_witness:
  "\<exists>bk i m' ts. book_insert_order BID 9 3 4 0 one_ask = Some (bk, SUCCESS, Some i) \<and>
    modify_order_price 9 6 (one_ask_engine\<lparr>mg_book := bk\<rparr>) = Some (m', FULL_FILL) \<and>
    mg_trades m' = mg_trades one_ask_engine @ ts \<and> map (\<lambda>t. (t_maker t, t_price t, t_qty t)) ts = [(7, 5, 4)]"
proof -
  let ?A = "spec_insert ASK 5 (7, 10, 0) (\<lambda>_ _. [])" and ?e = "(9, 4, 0) :: entry"
  let ?B = "spec_insert BID 3 ?e ?A"
  have v: "valid_id (9 :: order_id)" "\<not> has_id ?A 9" "price_ok 2 3 3"
    by (auto simp: valid_id_def EMPTY_KEY_def TOMBSTONE_KEY_def has_id_def spec_insert_def price_ok_def)
  have "pp_free (bk_parts one_ask) \<noteq> []" "op_free_slots (bk_pool one_ask) = 3" by code_simp+
  then obtain bk i where i: "book_insert_order BID 9 3 4 0 one_ask = Some (bk, SUCCESS, Some i)"
    using insert_spec [OF one_ask_represents v, of BID 4 0] by (auto split: option.splits)
  let ?m = "one_ask_engine\<lparr>mg_book := bk\<rparr>"
  have "book_exact 2 3 ?B bk" using gentle_run_exact [OF gr_insert [OF gentle_one_ask v i]] .
  then obtain L where L: "book_rel 2 3 {} L bk" "totals_rel 2 3 L (\<lambda>_ _. 0) bk" "best_exact 3 L bk" "?B = view L bk"
    by (auto simp: book_exact_def)
  have "represents 2 3 ?B bk" using L by (auto simp: represents_def)
  then have eng: "engine_rel 2 3 ?B ?m" by (auto simp: engine_rel_def spec_insert_def split: if_splits)
  have ex: "side_exact 3 ?B (mg_book ?m) (opp_side BID)" using best_exactD [OF L(3)] by (simp add: L(4) side_exact_view)
  have e: "(9, 4, 0) \<in> set (?B BID 3)" by (simp add: spec_insert_def)
  have p: "price_ok 2 3 6" "(6 :: price) \<noteq> 3" "0 < (6 :: price)" "6 < price_max_scaled (mg_instrument ?m)"
    by (simp_all add: price_ok_def one_ask_engine_def MatchingManager_init_def sample_instrument_def)
  obtain y where "y \<in> set (L BID 3)" using e L(4) by (auto simp: view_def)
  then have "act BID bk (partition_id 3 3) \<noteq> None" by (rule place_relD(3) [OF book_relD(3) [OF L(1)]])
  then have room: "act BID (mg_book ?m) (partition_id 3 6) \<noteq> None \<or> pp_free (bk_parts (mg_book ?m)) \<noteq> []"
    by (simp add: partition_id_def)
  from modify_price_moves_and_matches [OF eng v(1) e p room] obtain bk2 j m' st ts Q and ms :: match_state where R:
    "represents 2 3 (spec_reprice BID 6 (9, 4, 0) ?B) bk2" "o_price (ord bk2 j) = 6" "o_qty (ord bk2 j) = 4"
    "matched_to_the_end BID (ord bk2 j) 3 ?B (?m\<lparr>mg_book := bk2\<rparr>) ts Q (ms_eng ms)" "side_exact 3 ?B bk2 ASK"
    "modify_order_price 9 6 ?m = Some (m', st)" "fifo_fills ts (?B ASK) = Some Q" "mg_trades m' = mg_trades ?m @ ts"
    "traded ts = 4 \<longrightarrow> st = FULL_FILL" using ex unfolding opp_side.simps by metis
  have ask: "?B ASK = (\<lambda>_. [])(5 := [(7, 10, 0)])" by (auto simp: spec_insert_def)
  have ask': "spec_reprice BID 6 (9, 4, 0) ?B ASK = ?B ASK" by (auto simp: spec_reprice_def spec_remove_def spec_insert_def)
  have "side_exact 3 (spec_reprice BID 6 (9, 4, 0) ?B) bk2 ASK" using R(5) side_exact_cong [of "spec_reprice BID 6 (9, 4, 0) ?B" ASK ?B, OF ask'] by blast
  from best_level_represented [OF R(1) this] have "\<not> out_of_reach BID (ord bk2 j) bk2"
    unfolding ask' ask using R(2) by (auto simp: out_of_reach_def is_best_def split: option.splits if_splits)
  then have "best_fills ASK 4 ts (?B ASK) \<and> matching_stops 3 (4 - traded ts) ts Q"
    using R(3,4,5) by (simp add: matched_to_the_end_def)
  then have one: "map (\<lambda>t. (t_maker t, t_price t, t_qty t)) ts = [(7, 5, 4)]"
    using best_fills_one [OF ask _ _ R(7)] by simp
  then have "traded ts = 4" by (cases ts) auto
  then show ?thesis using R(6,8,9) one i by auto
qed

end
