(* ===== verification/Partition_Plan.thy ===== *)
theory Partition_Plan
  imports Bitmap Book_Levels
begin

unbundle bit_operations_syntax

text \<open>
  Rounding to powers of two (lcr/numbers.hpp) and the partition plan of an instrument (matching_engine/conf/partition_plan.hpp).
  The conversions of the instrument's floating point units (\<^verbatim>\<open>lcr::normalize_tick_size\<close> and the scaled maximum price) are
  arguments: the plan starts from the scaled integers. The assertions of \<^verbatim>\<open>compute\<close> are hypotheses of the theorems.
\<close>

section \<open>Powers of two\<close>

definition round_up_to_power_of_two_32 :: "u32 \<Rightarrow> u32" where
  "round_up_to_power_of_two_32 n =
     (if n \<le> 1 then 1
      else let n = n - 1; n = n OR drop_bit 1 n; n = n OR drop_bit 2 n; n = n OR drop_bit 4 n;
               n = n OR drop_bit 8 n; n = n OR drop_bit 16 n in n + 1)"

definition round_up_to_power_of_two_64 :: "u64 \<Rightarrow> u64" where
  "round_up_to_power_of_two_64 n =
     (if n \<le> 1 then 1
      else let n = n - 1; n = n OR drop_bit 1 n; n = n OR drop_bit 2 n; n = n OR drop_bit 4 n;
               n = n OR drop_bit 8 n; n = n OR drop_bit 16 n; n = n OR drop_bit 32 n in n + 1)"

section \<open>The plan\<close>

record partition_plan =
  partition_bits :: nat
  num_partitions :: u32
  partition_size :: u64
  num_ticks :: u64

definition plan_compute :: "price \<Rightarrow> price \<Rightarrow> u32 \<Rightarrow> partition_plan" where
  "plan_compute price_max_scaled price_tick_size target_num_partitions =
     (let ticks = round_up_to_power_of_two_64 (word_of_int (price_max_scaled div price_tick_size));
          np = round_up_to_power_of_two_32 target_num_partitions;
          size = ticks div ucast np in
      \<lparr>partition_bits = ctzll size, num_partitions = np, partition_size = size, num_ticks = ticks\<rparr>)"

text \<open>\<^verbatim>\<open>Instrument::normalize\<close> ends by replacing the maximum price by the rounded number of ticks times the tick size.\<close>

definition normalized_price_max :: "u64 \<Rightarrow> price \<Rightarrow> price" where
  "normalized_price_max ticks price_tick_size = sint (ticks * word_of_int price_tick_size)"

section \<open>Bit smearing\<close>

text \<open>\<open>smeared k x y\<close>: a bit of \<open>y\<close> is set when one of the \<open>k\<close> bits of \<open>x\<close> from that position on is.\<close>

definition smeared :: "nat \<Rightarrow> 'a :: len word \<Rightarrow> 'a word \<Rightarrow> bool" where
  "smeared k x y \<longleftrightarrow> (\<forall>i. bit y i \<longleftrightarrow> (\<exists>j < k. bit x (i + j)))"

lemma smeared_start: "smeared 1 x x"
  by (simp add: smeared_def)

lemma smeared_step:
  assumes "smeared k x y" and "k' = 2 * k"
  shows "smeared k' x (y OR drop_bit k y)"
proof -
  have "(\<exists>j < k. bit x (i + j)) \<or> (\<exists>j < k. bit x (k + i + j)) \<longleftrightarrow> (\<exists>j < k'. bit x (i + j))" for i
  proof (intro iffI; (elim disjE exE conjE)?)
    fix j assume "j < k'" and b: "bit x (i + j)"
    then have "j < k \<or> j - k < k \<and> k + i + (j - k) = i + j" using assms(2) by auto
    then show "(\<exists>j < k. bit x (i + j)) \<or> (\<exists>j < k. bit x (k + i + j))" using b by metis
  next
    fix j assume "j < k" "bit x (k + i + j)"
    then show "\<exists>j < k'. bit x (i + j)" using assms(2) by (intro exI [of _ "k + j"]) (simp add: add_ac)
  qed (use assms(2) in force)
  then show ?thesis using assms(1) by (simp add: smeared_def bit_or_iff bit_drop_bit_eq)
qed

lemma smeared_mask:
  fixes x y :: "'a :: len word"
  assumes "smeared LENGTH('a) x y" and "2 ^ m \<le> unat x" and "unat x < 2 ^ Suc m"
  shows "y = mask (Suc m)"
proof (rule bit_word_eqI)
  fix i assume "i < LENGTH('a)"
  have ml: "m < LENGTH('a)"
    using le_less_trans [OF assms(2) unsigned_less [of x]] by simp
  have top: "bit x m"
  proof -
    have "unat x div 2 ^ m = 1" using assms(2,3) by (simp add: div_nat_eqI)
    then have "bit (unat x) m" by (simp add: bit_iff_odd)
    then show ?thesis by (simp add: bit_unsigned_iff)
  qed
  have above: "\<not> bit x j" if "Suc m \<le> j" for j
  proof -
    have "unat x < 2 ^ j" using assms(3) that by (meson less_le_trans one_le_numeral power_increasing)
    then have "\<not> bit (unat x) j" by (simp add: bit_iff_odd)
    then show ?thesis using bit_imp_le_length by (auto simp: bit_unsigned_iff)
  qed
  show "bit y i = bit (mask (Suc m) :: 'a word) i"
  proof (cases "i \<le> m")
    case True
    then have "m - i < LENGTH('a) \<and> bit x (i + (m - i))" using top ml by simp
    then have "bit y i" using assms(1) unfolding smeared_def by blast
    then show ?thesis using True \<open>i < LENGTH('a)\<close> by (simp add: bit_mask_iff)
  next
    case False
    then have "\<not> bit y i" using assms(1) above unfolding smeared_def by (metis not_less_eq_eq trans_le_add1)
    then show ?thesis using False by (simp add: bit_mask_iff)
  qed
qed

lemma smear_32: "smeared 32 x (let n = x; n = n OR drop_bit 1 n; n = n OR drop_bit 2 n; n = n OR drop_bit 4 n;
    n = n OR drop_bit 8 n in n OR drop_bit 16 n)"
  unfolding Let_def by (rule smeared_step, rule smeared_step, rule smeared_step, rule smeared_step, rule smeared_step, rule smeared_start) simp_all

lemma smear_64: "smeared 64 x (let n = x; n = n OR drop_bit 1 n; n = n OR drop_bit 2 n; n = n OR drop_bit 4 n;
    n = n OR drop_bit 8 n; n = n OR drop_bit 16 n in n OR drop_bit 32 n)"
  unfolding Let_def by (rule smeared_step [OF smear_32 [unfolded Let_def]]) simp

lemma smeared_power:
  fixes n y :: "'a :: len word"
  assumes "smeared LENGTH('a) (n - 1) y" and "1 < n" and "unat n \<le> 2 ^ (LENGTH('a) - 1)"
  shows "\<exists>k < LENGTH('a). unat (y + 1) = 2 ^ k \<and> unat n \<le> 2 ^ k \<and> 2 ^ k < 2 * unat n"
proof -
  have n: "1 < unat n" using assms(2) by (simp add: word_less_nat_alt)
  have n1: "unat (n - 1) = unat n - 1" using unat_sub [of 1 n] assms(2) by simp
  obtain m where m: "2 ^ m \<le> unat (n - 1)" "unat (n - 1) < 2 ^ Suc m"
    using ex_power_ivl1 [of 2 "unat (n - 1)"] n n1 by (auto simp: Suc_le_eq)
  have "(2 :: nat) ^ m < 2 ^ (LENGTH('a) - 1)" using m(1) n n1 assms(3) by linarith
  then have "m < LENGTH('a) - 1" by simp
  then have k: "Suc m < LENGTH('a)" by simp
  have "y + 1 = (2 :: 'a word) ^ Suc m" using smeared_mask [OF assms(1) m] by (simp add: mask_eq_exp_minus_1)
  then have "unat (y + 1) = 2 ^ Suc m" using word_two_power [OF k] by simp
  moreover have "unat n \<le> 2 ^ Suc m" "2 ^ Suc m < 2 * unat n" using m n n1 by simp_all
  ultimately show ?thesis using k by blast
qed

lemma round_up_smeared:
  "\<not> n \<le> 1 \<Longrightarrow> smeared LENGTH(32) (n - 1) (round_up_to_power_of_two_32 n - 1)"
  "\<not> n' \<le> 1 \<Longrightarrow> smeared LENGTH(64) (n' - 1) (round_up_to_power_of_two_64 n' - 1)"
  using smear_32 [of "n - 1"] smear_64 [of "n' - 1"]
  by (simp_all add: round_up_to_power_of_two_32_def round_up_to_power_of_two_64_def Let_def)

lemma round_up_32_facts:
  assumes "0 < n" and "unat n \<le> 2 ^ 31"
  shows "\<exists>k < 32. unat (round_up_to_power_of_two_32 n) = 2 ^ k \<and> unat n \<le> 2 ^ k \<and> 2 ^ k < 2 * unat n"
proof (cases "n \<le> 1")
  case True
  then have "n = 1" using assms(1) by (simp add: word_le_nat_alt word_less_nat_alt word_unat_eq_iff)
  then show ?thesis by (intro exI [of _ 0]) (simp add: round_up_to_power_of_two_32_def)
next
  case False
  from smeared_power [OF round_up_smeared(1) [OF False]] False assms(2) show ?thesis by simp
qed

lemma round_up_64_facts:
  assumes "0 < n" and "unat n \<le> 2 ^ 63"
  shows "\<exists>k < 64. unat (round_up_to_power_of_two_64 n) = 2 ^ k \<and> unat n \<le> 2 ^ k \<and> 2 ^ k < 2 * unat n"
proof (cases "n \<le> 1")
  case True
  then have "n = 1" using assms(1) by (simp add: word_le_nat_alt word_less_nat_alt word_unat_eq_iff)
  then show ?thesis by (intro exI [of _ 0]) (simp add: round_up_to_power_of_two_64_def)
next
  case False
  from smeared_power [OF round_up_smeared(2) [OF False]] False assms(2) show ?thesis by simp
qed

definition least_power_above :: "nat \<Rightarrow> nat \<Rightarrow> bool" where
  "least_power_above n p \<longleftrightarrow> p \<in> range ((^) 2) \<and> n \<le> p \<and> (\<forall>k. n \<le> 2 ^ k \<longrightarrow> p \<le> 2 ^ k)"

lemma least_power_aboveI:
  assumes "p = 2 ^ k" and "n \<le> 2 ^ k" and "2 ^ k < 2 * n"
  shows "least_power_above n p"
  unfolding least_power_above_def
proof (intro conjI allI impI)
  fix j assume j: "n \<le> (2 :: nat) ^ j"
  show "p \<le> 2 ^ j"
  proof (rule ccontr)
    assume "\<not> p \<le> 2 ^ j"
    then have "j < k" using assms(1) by simp
    then have "(2 :: nat) ^ Suc j \<le> 2 ^ k" by (intro power_increasing) simp_all
    then show False using assms j by simp
  qed
qed (use assms in auto)

lemma smeared_wraps:
  fixes n :: "'a :: len word"
  assumes "smeared LENGTH('a) (n - 1) (y - 1)" and "2 ^ (LENGTH('a) - 1) < unat n"
  shows "y = 0"
proof -
  obtain l where l: "LENGTH('a) = Suc l" using gr0_conv_Suc [of "LENGTH('a)"] by auto
  have "1 < n" using assms(2) by (simp add: word_less_nat_alt) (metis One_nat_def one_le_numeral one_le_power order_le_less_trans)
  then have n1: "unat (n - 1) = unat n - 1" using unat_sub [of 1 n] by simp
  have unat_less: "unat n < 2 ^ LENGTH('a)" by (rule unsigned_less)
  have "y - 1 = mask (Suc l)"
    by (rule smeared_mask [OF assms(1)]) (use assms(2) unat_less l n1 in simp_all)
  then have "y - 1 = - 1" using l by (metis mask_full)
  then show ?thesis by simp
qed

lemma ctzll_power: "k < 64 \<Longrightarrow> ctzll (2 ^ k) = k"
  by (rule ctzll_least) (auto simp: bit_two_power)

lemma plan_facts:
  assumes "0 < price_tick_size" and "price_tick_size < price_max" and "price_max div price_tick_size \<le> 2 ^ 63"
    and "0 < target" and "unat target \<le> 2 ^ 31"
    and pl: "pl = plan_compute price_max price_tick_size target" and "ucast (num_partitions pl) \<le> num_ticks pl"
  shows "\<exists>k j. j \<le> k \<and> k < 64 \<and> j < 32 \<and> unat (num_ticks pl) = 2 ^ k \<and> unat (num_partitions pl) = 2 ^ j \<and> unat target \<le> 2 ^ j \<and> 2 ^ j < 2 * unat target \<and>
    partition_bits pl = k - j \<and> unat (partition_size pl) = 2 ^ (k - j) \<and> price_max div price_tick_size \<le> 2 ^ k \<and> 2 ^ k < 2 * (price_max div price_tick_size)"
proof -
  let ?t = "price_max div price_tick_size"
  have t: "0 < ?t" using assms(1,2) by (simp add: pos_imp_zdiv_pos_iff)
  have u: "unat (word_of_int ?t :: u64) = nat ?t" 
    using t assms(3) by (simp add: unsigned_of_int take_bit_int_eq_self)
  then have pos: "(0 :: u64) < word_of_int ?t" and le: "unat (word_of_int ?t :: u64) \<le> 2 ^ 63" using t assms(3) by (simp_all add: word_less_nat_alt nat_le_iff)
  obtain k where k: "k < 64" "unat (num_ticks pl) = 2 ^ k" "nat ?t \<le> 2 ^ k" "2 ^ k < 2 * nat ?t"
    using round_up_64_facts [OF pos le] pl u by (auto simp: plan_compute_def Let_def)
  obtain j where j: "j < 32" "unat (num_partitions pl) = 2 ^ j" "unat target \<le> 2 ^ j" "2 ^ j < 2 * unat target"
    using round_up_32_facts [OF assms(4,5)] pl by (auto simp: plan_compute_def Let_def)
  have "(2 :: nat) ^ j < 2 ^ 64" using j(1) by (intro power_strict_increasing) simp_all
  then have uc: "unat (ucast (num_partitions pl) :: u64) = 2 ^ j" using j(1,2) by (simp add: unsigned_ucast_eq take_bit_nat_eq_self)
  then have "(2 :: nat) ^ j \<le> 2 ^ k" using assms(7) k(2) by (simp add: word_le_nat_alt)
  then have jk: "j \<le> k" by simp
  have size: "unat (partition_size pl) = 2 ^ (k - j)"
    using uc k(2) jk pl by (simp add: plan_compute_def Let_def unat_div_distrib power_diff)
  have kj: "k - j < LENGTH(64)" using k(1) by simp
  then have "partition_size pl = 2 ^ (k - j)" using size word_two_power [OF kj] by (simp add: word_unat_eq_iff)
  then have "partition_bits pl = k - j" using pl ctzll_power [of "k - j"] kj by (simp add: plan_compute_def Let_def)
  moreover have "?t \<le> 2 ^ k" using k(3) t by (simp add: nat_le_iff)
  moreover have "int (2 ^ k) < int (2 * nat ?t)" using k(4) by (simp only: of_nat_less_iff)
  then have "2 ^ k < 2 * ?t" using t by simp
  ultimately show ?thesis using jk k j size by blast
qed

section \<open>Properties\<close>

text \<open>The branchless rounding, which smears the bits of \<open>n - 1\<close> to the right by doubling distances and adds one, returns the least power of two that is not below \<open>n\<close>,
  in 32 and in 64 bits, for every positive \<open>n\<close> up to the greatest power of two of the width; above it the sum wraps around to 0.\<close>

theorem round_up_is_least_power:
  "(0 < n \<longrightarrow> unat n \<le> 2 ^ 31 \<longrightarrow> least_power_above (unat n) (unat (round_up_to_power_of_two_32 n))) \<and>
   (0 < n' \<longrightarrow> unat n' \<le> 2 ^ 63 \<longrightarrow> least_power_above (unat n') (unat (round_up_to_power_of_two_64 n'))) \<and>
   (2 ^ 31 < unat n \<longrightarrow> round_up_to_power_of_two_32 n = 0) \<and> (2 ^ 63 < unat n' \<longrightarrow> round_up_to_power_of_two_64 n' = 0)"
proof (intro conjI impI)
  show "least_power_above (unat n) (unat (round_up_to_power_of_two_32 n))" if "0 < n" "unat n \<le> 2 ^ 31"
    using round_up_32_facts [OF that] least_power_aboveI by blast
  show "least_power_above (unat n') (unat (round_up_to_power_of_two_64 n'))" if "0 < n'" "unat n' \<le> 2 ^ 63"
    using round_up_64_facts [OF that] least_power_aboveI by blast
  show "round_up_to_power_of_two_32 n = 0" if "2 ^ 31 < unat n"
    by (rule smeared_wraps [OF round_up_smeared(1)]) (use that in \<open>simp_all add: word_le_nat_alt\<close>)
  show "round_up_to_power_of_two_64 n' = 0" if "2 ^ 63 < unat n'"
    by (rule smeared_wraps [OF round_up_smeared(2)]) (use that in \<open>simp_all add: word_le_nat_alt\<close>)
qed

theorem round_up_is_least_power_witness:
  "least_power_above 5 (unat (round_up_to_power_of_two_32 5)) \<and> round_up_to_power_of_two_64 0xFFFFFFFFFFFFFFFF = 0"
  using round_up_is_least_power [of 5 "0xFFFFFFFFFFFFFFFF"] by simp

text \<open>C29: the partition plan of an instrument is a partition of the price range into equal blocks. The number of ticks, the number of partitions and the size of
  a partition are powers of two, the first is the product of the other two, and the partition bits are the logarithm of the size. The number of partitions is
  at least the wanted one and less than twice it, every whole tick below the instrument's maximum price is covered, and less than half of the range is rounding. On every
  price of the range the shift and the mask that the stores use give a partition of the plan and an offset inside it, and no two prices the same pair.\<close>

theorem partition_plan_tiles_prices:
  assumes "0 < price_tick_size" and "price_tick_size < price_max" and "price_max div price_tick_size \<le> 2 ^ 63"
    and "0 < target" and "unat target \<le> 2 ^ 31"
    and pl: "pl = plan_compute price_max price_tick_size target" and "ucast (num_partitions pl) \<le> num_ticks pl"
  shows "unat (num_partitions pl) * unat (partition_size pl) = unat (num_ticks pl) \<and>
    unat (partition_size pl) = 2 ^ partition_bits pl \<and>
    unat target \<le> unat (num_partitions pl) \<and> unat (num_partitions pl) < 2 * unat target \<and>
    price_max div price_tick_size \<le> uint (num_ticks pl) \<and> uint (num_ticks pl) < 2 * (price_max div price_tick_size) \<and>
    bij_betw (\<lambda>p. (partition_id (partition_bits pl) p, offset_in_partition (partition_bits pl) p)) {0..<uint (num_ticks pl)}
      ({..<unat (num_partitions pl)} \<times> {..<unat (partition_size pl)})"
proof -
  obtain k j where f: "j \<le> k" "k < 64" "j < 32" "unat (num_ticks pl) = 2 ^ k" "unat (num_partitions pl) = 2 ^ j" "unat target \<le> 2 ^ j" "2 ^ j < 2 * unat target"
    "partition_bits pl = k - j" "unat (partition_size pl) = 2 ^ (k - j)" "price_max div price_tick_size \<le> 2 ^ k" "2 ^ k < 2 * (price_max div price_tick_size)"
    using plan_facts [OF assms] by blast
  let ?pb = "k - j" and ?np = "(2 :: nat) ^ j"
  have tk: "uint (num_ticks pl) = 2 ^ k" using f(4) by (metis of_nat_numeral of_nat_power uint_nat)
  have np: "int ?np * 2 ^ ?pb = 2 ^ k" "?np * 2 ^ ?pb = 2 ^ k" using f(1) by (simp_all flip: power_add)
  have np32: "?np \<le> 2 ^ 32" using f(3) by (intro power_increasing) simp_all
  have ok: "price_ok ?np ?pb p \<longleftrightarrow> p \<in> {0..<2 ^ k}" for p by (simp add: price_ok_def np(1) del: of_nat_power)
  have "bij_betw (\<lambda>p. (partition_id (partition_bits pl) p, offset_in_partition (partition_bits pl) p)) {0..<uint (num_ticks pl)}
      ({..<unat (num_partitions pl)} \<times> {..<unat (partition_size pl)})"
    unfolding tk f(5,8,9)
  proof (rule bij_betw_byWitness [where f' = "\<lambda>(a, b). int (a * 2 ^ ?pb + b)"])
    show "\<forall>p \<in> {0..<2 ^ k}. (case (partition_id ?pb p, offset_in_partition ?pb p) of (a, b) \<Rightarrow> int (a * 2 ^ ?pb + b)) = p"
      using partition_id_facts(2) [OF _ np32] ok by auto
    show "(\<lambda>p. (partition_id ?pb p, offset_in_partition ?pb p)) ` {0..<2 ^ k} \<subseteq> {..<?np} \<times> {..<2 ^ ?pb}"
      using partition_id_facts(1,3) [OF _ np32] ok by auto
    show "(\<lambda>(a, b). int (a * 2 ^ ?pb + b)) ` ({..<?np} \<times> {..<2 ^ ?pb}) \<subseteq> {0..<2 ^ k}"
    proof (rule image_subsetI)
      fix x assume "x \<in> {..<?np} \<times> {..<(2 :: nat) ^ ?pb}"
      then show "(case x of (a, b) \<Rightarrow> int (a * 2 ^ ?pb + b)) \<in> {0..<2 ^ k}"
        using partition_id_of(1) [OF _ _ np32, of "fst x" "snd x" ?pb] ok by (cases x) simp
    qed
  qed (use partition_id_of(2,3) [OF _ _ np32] in auto)
  then show ?thesis using f np(2) tk by simp
qed

lemma sample_plan: "plan_compute 100 5 3 = \<lparr>partition_bits = 3, num_partitions = 4, partition_size = 8, num_ticks = 32\<rparr>"
  by code_simp

theorem partition_plan_tiles_prices_witness:
  "let pl = plan_compute 100 5 3 in unat (num_partitions pl) * unat (partition_size pl) = unat (num_ticks pl) \<and>
     unat (partition_size pl) = 2 ^ partition_bits pl"
  using partition_plan_tiles_prices [of 5 100 3 "plan_compute 100 5 3"] by (simp add: sample_plan)

end
