(* ===== verification/Matching_Faults.thy ===== *)
theory Matching_Faults
  imports Best_Price Matching_Modify Partition_Plan
begin

text \<open>
  Situations in which the matching engine does not do what it is meant to: a stale best price hides the book, an order with the id that marks empty slots
  makes the matching loop run forever, and the largest price that is accepted has no partition.
\<close>

section \<open>Stale best prices\<close>

text \<open>C31: when the order that holds the best price of a side is the only one of its partition and is cancelled or filled, the emptied partition is kept
  with its best price, so the side still reports that price although nothing rests there. In that state no incoming order of the other side matches
  anything, whatever its price and whatever other orders rest in other partitions.\<close>

theorem emptied_partition_hides_the_book:
  assumes "book_exact np pb B bk" and "e \<in> set (B sd p)" and "valid_id (fst e)" and "is_best sd {p. B sd p \<noteq> []} p"
    and "\<forall>n < 2 ^ pb. spec_remove (fst e) B sd (int (partition_id pb p * 2 ^ pb + n)) = []"
  shows "\<exists>bk'. book_remove_order (fst e) bk = Some (bk', SUCCESS) \<and> represents np pb (spec_remove (fst e) B) bk' \<and>
    st_has_best (get_store sd bk') \<and> st_best (get_store sd bk') = p \<and>
    (\<forall>ms. mg_book (ms_eng ms) = bk' \<longrightarrow> match_loop (opp_side sd) ms = Some ms)"
proof -
  obtain bk' l where s: "book_remove_order (fst e) bk = Some (bk', SUCCESS)" "represents np pb (spec_remove (fst e) B) bk'"
    "st_has_best (get_store sd bk')" "st_best (get_store sd bk') = p" "get_best_price_level sd bk' = Some l" "pl_head (level bk' l) = None"
    using remove_last_stale [OF assms] by metis
  then have "match_loop (opp_side sd) ms = Some ms" if "mg_book (ms_eng ms) = bk'" for ms
    using that by (simp add: match_loop.simps [of "opp_side sd" ms] match_cond_def)
  then show ?thesis using s by blast
qed

theorem emptied_partition_hides_the_book_witness:
  "\<exists>bk'. book_remove_order 7 one_ask = Some (bk', SUCCESS) \<and> st_has_best (get_store ASK bk') \<and> st_best (get_store ASK bk') = 5"
proof -
  let ?B = "spec_insert ASK 5 (7, 10, 0) (\<lambda>_ _. [])"
  have i: "book_exact 2 3 (\<lambda>_ _. []) (OrderBook_init 4 2 8 3)" using book_exact_init [of 4 2 3] by simp
  obtain j where j: "book_insert_order ASK 7 5 10 0 (OrderBook_init 4 2 8 3) = Some (one_ask, SUCCESS, Some j)" using one_ask_inserted by blast
  have b: "book_exact 2 3 ?B one_ask" by (rule insert_exact [OF i seven_valid sample_price j])
  have e: "(7, 10, 0) \<in> set (?B ASK 5)" "valid_id (fst (7, 10 :: quantity, 0 :: quantity))" using seven_valid by (simp_all add: spec_insert_def)
  have "{p. ?B ASK p \<noteq> []} = {5}" by (auto simp: spec_insert_def)
  then have m: "is_best ASK {p. ?B ASK p \<noteq> []} 5" by (simp add: is_best_def)
  have l: "\<forall>n < 2 ^ 3. spec_remove (fst (7, 10 :: quantity, 0 :: quantity)) ?B ASK (int (partition_id 3 5 * 2 ^ 3 + n)) = []"
    by (simp add: spec_remove_def spec_insert_def)
  show ?thesis using emptied_partition_hides_the_book [OF b e m l] by auto
qed

section \<open>The id of the empty slots\<close>

lemma remove_zero: "book_remove_order EMPTY_KEY bk = Some (bk, NOT_FOUND)"
  by (simp add: book_remove_order_def empty_key_never_found)

text \<open>The head of the best queue has the reserved id and nothing left.\<close>

definition stuck :: "side \<Rightarrow> match_state \<Rightarrow> bool" where
  "stuck sd ms \<longleftrightarrow> (\<exists>l i o'. ms_taker ms = OnFly o' \<and> match_cond sd ms = Some (l, i) \<and> o_id (ord (ms_book ms) i) = EMPTY_KEY \<and>
     o_qty (ord (ms_book ms) i) = 0)"

lemma fill_zero_book:
  "upd_ord i (fill_order 0) bk = bk" "upd_level pi n (\<lambda>pl. pl\<lparr>pl_qty := pl_qty pl - 0\<rparr>) bk = bk"
  by (simp_all add: upd_ord_def upd_order_def fill_order_def upd_level_def upd_part_def)

lemma stuck_step:
  assumes "stuck sd ms" and "match_cond sd ms = Some (l, i)"
  shows "\<exists>ms'. match_step l i ms = Some ms' \<and> stuck sd ms'"
proof -
  obtain o' where o: "ms_taker ms = OnFly o'" and z: "o_id (ord (ms_book ms) i) = EMPTY_KEY" "o_qty (ord (ms_book ms) i) = 0"
    using assms by (auto simp: stuck_def)
  have q: "0 < o_qty o'" using assms(2) o by (auto simp: match_cond_def Let_def split: option.splits if_splits)
  have f: "fill_order 0 o' = o'" by (simp add: fill_order_def)
  define ms' where "ms' = ms\<lparr>ms_last := pl_price (level (ms_book ms) l), ms_trades := ms_trades ms + 1,
    ms_eng := emit_trade_event EMPTY_KEY (o_id o') (pl_price (level (ms_book ms) l)) 0 (o_side o') (ms_eng ms)\<rparr>"
  have step: "match_step l i ms = Some ms'"
    using q z o by (simp add: match_step_def Let_def f fill_zero_book [simplified] remove_zero ms'_def)
  have bk: "ms_book ms' = ms_book ms" and tk: "ms_taker ms' = ms_taker ms"
    by (simp_all add: ms'_def emit_trade_event_def sequence_next_def)
  have "match_cond sd ms' = match_cond sd ms" unfolding match_cond_def bk tk ..
  then have "stuck sd ms'" using assms(1) unfolding stuck_def bk tk by simp
  with step show ?thesis by blast
qed

lemma stuck_diverges: "match_loop sd ms = Some y \<Longrightarrow> \<not> stuck sd ms"
proof (rule match_loop.raw_induct [where P = "\<lambda>sd ms y. \<not> stuck sd ms"])
  fix f sd ms y
  assume IH: "\<And>sd ms y. f sd ms = Some y \<Longrightarrow> \<not> stuck sd ms"
    and eq: "(case match_cond sd ms of None \<Rightarrow> Some ms | Some (l, i) \<Rightarrow> (case match_step l i ms of None \<Rightarrow> None | Some ms' \<Rightarrow> f sd ms')) = Some y"
  show "\<not> stuck sd ms"
  proof
    assume st: "stuck sd ms"
    then obtain l i where c: "match_cond sd ms = Some (l, i)" by (auto simp: stuck_def)
    obtain ms' where "match_step l i ms = Some ms'" "stuck sd ms'" using stuck_step [OF st c] by blast
    then show False using IH eq c by auto
  qed
qed

text \<open>An order whose id is 0, the key of an empty slot of the id table, can be inserted but never found again. When it is the head of the best queue and a larger
  order arrives, it is filled but not removed, and the matching loop goes on forever, emitting trades of quantity zero.\<close>

theorem zero_id_order_loops_forever:
  assumes "match_cond sd ms = Some (l, i)" and "ms_taker ms = OnFly o'" and "o_id (ord (ms_book ms) i) = 0"
    and "0 \<le> o_qty (ord (ms_book ms) i)" and "o_qty (ord (ms_book ms) i) < o_qty o'"
  shows "match_loop sd ms = None"
proof -
  let ?bk = "ms_book ms" and ?x = "o_qty (ord (ms_book ms) i)"
  let ?bk3 = "upd_level (fst l) (snd l) (\<lambda>pl. pl\<lparr>pl_qty := pl_qty pl - ?x\<rparr>) (upd_ord i (fill_order ?x) ?bk)"
  define ms' where "ms' = ms\<lparr>ms_taker := OnFly (fill_order ?x o'), ms_last := pl_price (level ?bk3 l), ms_trades := ms_trades ms + 1,
    ms_eng := emit_trade_event 0 (o_id o') (pl_price (level ?bk3 l)) ?x (o_side o') ((ms_eng ms)\<lparr>mg_book := ?bk3\<rparr>)\<rparr>"
  have rz: "book_remove_order 0 bk = Some (bk, NOT_FOUND)" for bk using remove_zero by (simp add: EMPTY_KEY_def)
  have o3: "ord ?bk3 = (ord ?bk)(i := fill_order ?x (ord ?bk i))" by (simp add: upd_level_def)
  have step: "match_step l i ms = Some ms'"
    using assms by (simp add: match_step_def Let_def o3 rz ms'_def)
  have book': "ms_book ms' = ?bk3" and tk: "ms_taker ms' = OnFly (fill_order ?x o')"
    by (simp_all add: ms'_def emit_trade_event_def sequence_next_def)
  have best: "get_best_price_level s ?bk3 = get_best_price_level s ?bk" for s
    by (simp add: get_best_price_level_def get_partition_def upd_level_def split: option.split)
  have hd: "pl_head (level ?bk3 l') = pl_head (level ?bk l')" for l' by (cases l') (simp add: upd_level_def)
  have "match_cond sd ms' = Some (l, i)"
    using assms(1,2,5) unfolding match_cond_def Let_def book' best hd tk by (auto split: option.splits if_splits)
  then have "stuck sd ms'" using assms(3) by (auto simp: stuck_def tk book' o3 EMPTY_KEY_def)
  then have "match_loop sd ms' = None" using stuck_diverges [of sd ms'] by (cases "match_loop sd ms'") auto
  then show ?thesis using assms(1) step by (simp add: match_loop.simps [of sd ms])
qed

definition zero_ask :: order_book where
  "zero_ask = (case book_insert_order ASK 0 5 10 0 (OrderBook_init 4 2 8 3) of None \<Rightarrow> OrderBook_init 4 2 8 3 | Some (bk, _) \<Rightarrow> bk)"

definition zero_ask_start :: match_state where
  "zero_ask_start = \<lparr>ms_eng = (MatchingManager_init sample_instrument 4 2 8 3)\<lparr>mg_book := zero_ask\<rparr>, ms_taker = OnFly (new_order 9 LIMIT BID 6 40),
     ms_trades = 0, ms_last = 0\<rparr>"

lemma zero_ask_cond:
  "(case match_cond BID zero_ask_start of None \<Rightarrow> False | Some (l, i) \<Rightarrow> l = (1, 5) \<and> i = 0)"
  "o_id (ord (ms_book zero_ask_start) 0) = 0" "o_qty (ord (ms_book zero_ask_start) 0) = 10"
  by code_simp+

theorem zero_id_order_loops_forever_witness:
  "\<exists>i. match_cond BID zero_ask_start = Some ((1, 5), i) \<and> match_loop BID zero_ask_start = None"
proof -
  have c: "match_cond BID zero_ask_start = Some ((1, 5), 0)" using zero_ask_cond(1) by (auto split: option.splits prod.splits)
  have "ms_taker zero_ask_start = OnFly (new_order 9 LIMIT BID 6 40)" by (simp add: zero_ask_start_def)
  from zero_id_order_loops_forever [OF c this] zero_ask_cond(2,3) c show ?thesis by (simp add: new_order_def)
qed

section \<open>The end of the price range\<close>

lemma normalized_price_max_exact:
  assumes "0 \<le> t" and "uint ticks * t < 2 ^ 63"
  shows "normalized_price_max ticks t = uint ticks * t"
proof -
  have e: "ticks * word_of_int t = word_of_int (uint ticks * t)" by simp
  have "0 \<le> uint ticks * t" using assms(1) by simp
  then have "signed_take_bit 63 (uint ticks * t) = uint ticks * t"
    by (intro signed_take_bit_int_eq_self) (use assms(2) in linarith)+
  then show ?thesis unfolding normalized_price_max_def e signed_of_int by simp
qed

lemma match_order_empty [unfolded MatchingManager_init_def new_order_def]:
  "match_order sd \<lparr>ms_eng = MatchingManager_init ni n np ps pb, ms_taker = OnFly (new_order i ty sd p q), ms_trades = 0, ms_last = 0\<rparr> =
     Some (\<lparr>ms_eng = MatchingManager_init ni n np ps pb, ms_taker = OnFly (new_order i ty sd p q), ms_trades = 0, ms_last = 0\<rparr>, NO_MATCH)"
proof -
  have "get_best_price_level sd' (mg_book (MatchingManager_init ni n np ps pb)) = None" for sd'
    by (cases sd') (simp_all add: get_best_price_level_def MatchingManager_init_def OrderBook_init_def PriceLevelStore_init_def)
  then show ?thesis by (simp add: match_order_def match_loop.simps match_cond_def Let_def new_order_def)
qed

lemma insert_out_of_range:
  assumes "0 < n" and "n \<le> 2 ^ 30" and "np \<le> 2 ^ 32" and "valid_id i" and "np \<le> partition_id pb p"
  shows "book_insert_order sd i p q f (OrderBook_init n np (2 ^ pb) pb) = None"
proof -
  let ?bk = "OrderBook_init n np (2 ^ pb) pb"
  have np: "st_num_partitions (get_store sd ?bk) = np" "st_partition_bits (get_store sd ?bk) = pb"
    by (cases sd; simp add: OrderBook_init_def PriceLevelStore_init_def)+
  obtain pool where al: "op_allocate (bk_pool ?bk) = (pool, Some 0)"
    using assms(1) by (simp add: OrderBook_init_def op_allocate_def OrderPool_init_def)
  have "snd (id_insert (bk_ids ?bk) i 0)"
    using id_ok_init [OF assms(2)] assms(1,4) by (intro id_insert_room) (simp_all add: OrderBook_init_def)
  then obtain ids where "id_insert (bk_ids ?bk) i 0 = (ids, True)" by (cases "id_insert (bk_ids ?bk) i 0") auto
  moreover have "get_store sd (upd_ord j g (?bk\<lparr>bk_pool := a, bk_ids := b\<rparr>)) = get_store sd ?bk" for j g a b
    by (cases sd) (simp_all add: upd_ord_def)
  ultimately show ?thesis using al assms(5) np
    by (simp add: book_insert_order_def pls_insert_order_def get_or_create_partition_def Let_def)
qed

text \<open>The maximum price of the normalized instrument is the rounded number of ticks times the tick size, and the validation of an order accepts every price up to and including it, but the
  partitions end before the number of ticks. An order at that price passes the validation and, on an empty book, is linked into a partition beyond the end of the partition table.\<close>

theorem boundary_price_out_of_range:
  assumes "0 < price_tick_size" and "price_tick_size < price_max" and "price_max div price_tick_size \<le> 2 ^ 63"
    and "0 < target" and "unat target \<le> 2 ^ 31"
    and pl: "pl = plan_compute price_max price_tick_size target" and "ucast (num_partitions pl) \<le> num_ticks pl"
    and "uint (num_ticks pl) * price_tick_size < 2 ^ 63"
    and ni: "price_min_scaled ni = price_tick_size" "price_max_scaled ni = normalized_price_max (num_ticks pl) price_tick_size"
    and q: "qty_min_scaled ni \<le> q" "q \<le> qty_max_scaled ni" "min_notional ni \<le> uint (num_ticks pl) * q" and "price_tick_size \<le> uint (num_ticks pl)"
    and "0 < n" and "n \<le> 2 ^ 30" and "valid_id i"
  shows "validate_order ni (new_order i LIMIT sd (uint (num_ticks pl)) q) \<and>
    process_order (new_order i LIMIT sd (uint (num_ticks pl)) q)
      (MatchingManager_init ni n (unat (num_partitions pl)) (unat (partition_size pl)) (partition_bits pl)) = None"
proof -
  obtain k j where f: "j \<le> k" "k < 64" "j < 32" "unat (num_ticks pl) = 2 ^ k" "unat (num_partitions pl) = 2 ^ j" "partition_bits pl = k - j" "unat (partition_size pl) = 2 ^ (k - j)"
    using plan_facts [OF assms(1-7)] by blast
  have tk: "uint (num_ticks pl) = 2 ^ k" using f(4) by (metis of_nat_numeral of_nat_power uint_nat)
  have "(2 :: int) ^ k div 2 ^ (k - j) = 2 ^ j" using f(1) by (simp flip: power_diff)
  moreover have "(2 :: nat) ^ j < 2 ^ 32" "(2 :: int) ^ j < 2 ^ 32" using f(3) by (simp_all only: power_strict_increasing_iff one_less_numeral_iff semiring_norm)
  ultimately have pid: "partition_id (k - j) (2 ^ k) = 2 ^ j"
    unfolding partition_id_def using f(3) by (simp add: word_two_power)
  have "normalized_price_max (num_ticks pl) price_tick_size = uint (num_ticks pl) * price_tick_size"
    using normalized_price_max_exact assms(1,8) by simp
  then have v: "validate_order ni (new_order i LIMIT sd (2 ^ k) q)"
    using assms(1,14) q ni tk by (simp add: validate_order_def new_order_def)
  have "book_insert_order sd i (2 ^ k) q 0 (OrderBook_init n (2 ^ j) (2 ^ (k - j)) (k - j)) = None"
    by (rule insert_out_of_range) (use assms pid \<open>(2 :: nat) ^ j < 2 ^ 32\<close> in simp_all)
  then have "process_order (new_order i LIMIT sd (2 ^ k) q) (MatchingManager_init ni n (2 ^ j) (2 ^ (k - j)) (k - j)) = None"
    using v match_order_empty by (simp add: process_order_def MatchingManager_init_def new_order_def Let_def)
  then show ?thesis unfolding tk f(5-7) using v by simp
qed

theorem boundary_price_out_of_range_witness:
  "\<exists>ni. validate_order ni (new_order 7 LIMIT BID 32 1) \<and> process_order (new_order 7 LIMIT BID 32 1) (MatchingManager_init ni 4 4 8 3) = None"
proof -
  let ?ni = "\<lparr>price_min_scaled = 5, price_max_scaled = normalized_price_max 32 5, qty_min_scaled = 1, qty_max_scaled = 10, min_notional = 1\<rparr>"
  have "valid_id 7" by (rule seven_valid)
  then have "validate_order ?ni (new_order 7 LIMIT BID 32 1) \<and> process_order (new_order 7 LIMIT BID 32 1) (MatchingManager_init ?ni 4 4 8 3) = None"
    using boundary_price_out_of_range [of 5 100 3 "plan_compute 100 5 3" ?ni 1 4 7 BID] by (simp add: sample_plan)
  then show ?thesis by blast
qed

end
