(* ===== verification/Wal_Format.thy ===== *)
theory Wal_Format
  imports Prelude
begin

text \<open>
  The format of the write-ahead log of Flashstrike (wal/segment/header.hpp, block_header.hpp, block.hpp, event/request.hpp,
  lcr/endian.hpp, wal/utils.hpp). A segment file is a list of bytes: a header of 64 bytes followed by blocks of a header of 64 bytes and
  256 events of 64 bytes. The structures are written with \<^verbatim>\<open>memcpy\<close>; all numbers are little-endian, which is what the conversions of
  lcr/endian.hpp produce for the headers and the layout of the target for the events. \<^verbatim>\<open>XXH64\<close> is a library function: it is
  the parameter \<open>xxh\<close>, a function of the bytes and the seed.
\<close>

section \<open>Bytes\<close>

type_synonym byte = "8 word"
type_synonym hash = "byte list \<Rightarrow> u64 \<Rightarrow> u64"

fun le_bytes :: "nat \<Rightarrow> nat \<Rightarrow> byte list" where
  "le_bytes 0 k = []"
| "le_bytes (Suc n) k = of_nat k # le_bytes n (k div 256)"

fun le_nat :: "byte list \<Rightarrow> nat" where
  "le_nat [] = 0"
| "le_nat (b # bs) = unat b + 256 * le_nat bs"

definition to_le16 :: "u16 \<Rightarrow> byte list" where "to_le16 x = le_bytes 2 (unat x)"
definition to_le32 :: "u32 \<Rightarrow> byte list" where "to_le32 x = le_bytes 4 (unat x)"
definition to_le64 :: "u64 \<Rightarrow> byte list" where "to_le64 x = le_bytes 8 (unat x)"

definition from_le16 :: "byte list \<Rightarrow> u16" where "from_le16 bs = of_nat (le_nat bs)"
definition from_le32 :: "byte list \<Rightarrow> u32" where "from_le32 bs = of_nat (le_nat bs)"
definition from_le64 :: "byte list \<Rightarrow> u64" where "from_le64 bs = of_nat (le_nat bs)"

abbreviation field :: "nat \<Rightarrow> nat \<Rightarrow> byte list \<Rightarrow> byte list" where
  "field offset n bs \<equiv> take n (drop offset bs)"

section \<open>Constants and status codes\<close>

definition WAL_BLOCK_EVENTS :: nat where "WAL_BLOCK_EVENTS = 256"
definition MIN_BLOCKS :: nat where "MIN_BLOCKS = 16"
definition MAX_BLOCKS :: nat where "MAX_BLOCKS = 512 * 1024"
definition WAL_MAGIC :: u16 where "WAL_MAGIC = 0x4653"
definition WAL_VERSION :: byte where "WAL_VERSION = 1"
definition INVALID_EVENT_ID :: u64 where "INVALID_EVENT_ID = 0"

definition EVENT_SIZE :: nat where "EVENT_SIZE = 64"
definition HEADER_SIZE :: nat where "HEADER_SIZE = 64"
definition BLOCK_SIZE :: nat where "BLOCK_SIZE = 64 + WAL_BLOCK_EVENTS * EVENT_SIZE"

datatype wal_status =
    OK | DIRECTORY_NOT_FOUND | SEGMENT_NOT_FOUND | ITEM_NOT_FOUND | OPEN_FAILED | CLOSE_FAILED | FILE_ALREADY_EXISTS
  | FILE_NOT_DELETED | WRITE_FAILED | WRITE_HEADER_FAILED | READ_FAILED | READ_HEADER_FAILED | FSYNC_FAILED | MSYNC_FAILED
  | ROTATE_FAILED | HEADER_CHECKSUM_MISMATCH | BLOCK_CHECKSUM_MISMATCH | CHAINED_CHECKSUM_MISMATCH | SEGMENT_CORRUPTED
  | SEGMENT_POSSIBLY_CORRUPTED

section \<open>Events\<close>

record wal_event =
  ev_event_id :: u64
  ev_timestamp :: u64
  ev_price :: u64
  ev_quantity :: u64
  ev_user_id :: u32
  ev_order_id :: u32
  ev_type :: byte
  ev_order_type :: byte
  ev_side :: byte
  ev_pad :: "byte list"

definition event_bytes :: "wal_event \<Rightarrow> byte list" where
  "event_bytes ev = to_le64 (ev_event_id ev) @ to_le64 (ev_timestamp ev) @ to_le64 (ev_price ev) @ to_le64 (ev_quantity ev) @
     to_le32 (ev_user_id ev) @ to_le32 (ev_order_id ev) @ [ev_type ev, ev_order_type ev, ev_side ev] @ ev_pad ev"

definition event_of_bytes :: "byte list \<Rightarrow> wal_event" where
  "event_of_bytes bs = \<lparr>ev_event_id = from_le64 (field 0 8 bs), ev_timestamp = from_le64 (field 8 8 bs), ev_price = from_le64 (field 16 8 bs),
     ev_quantity = from_le64 (field 24 8 bs), ev_user_id = from_le32 (field 32 4 bs), ev_order_id = from_le32 (field 36 4 bs),
     ev_type = bs ! 40, ev_order_type = bs ! 41, ev_side = bs ! 42, ev_pad = field 43 21 bs\<rparr>"

definition event_reset :: wal_event where
  "event_reset = \<lparr>ev_event_id = 0, ev_timestamp = 0, ev_price = 0, ev_quantity = 0, ev_user_id = 0, ev_order_id = 0,
     ev_type = 0, ev_order_type = 0, ev_side = 0, ev_pad = replicate 21 0\<rparr>"

section \<open>Segment header\<close>

record segment_header =
  sh_magic :: u16
  sh_version :: byte
  sh_header_size :: byte
  sh_segment_index :: u32
  sh_block_count :: u32
  sh_event_count :: u32
  sh_first_event_id :: u64
  sh_last_event_id :: u64
  sh_created_ts_ns :: u64
  sh_closed_ts_ns :: u64
  sh_checksum :: u64
  sh_last_chained_checksum :: u64

definition header_reset :: segment_header where
  "header_reset = \<lparr>sh_magic = 0, sh_version = 0, sh_header_size = 0, sh_segment_index = 0, sh_block_count = 0, sh_event_count = 0,
     sh_first_event_id = 0, sh_last_event_id = 0, sh_created_ts_ns = 0, sh_closed_ts_ns = 0, sh_checksum = 0, sh_last_chained_checksum = 0\<rparr>"

definition header_serialize :: "segment_header \<Rightarrow> byte list" where
  "header_serialize h = to_le16 (sh_magic h) @ [sh_version h, sh_header_size h] @ to_le32 (sh_segment_index h) @ to_le32 (sh_block_count h) @
     to_le32 (sh_event_count h) @ to_le64 (sh_first_event_id h) @ to_le64 (sh_last_event_id h) @ to_le64 (sh_created_ts_ns h) @
     to_le64 (sh_closed_ts_ns h) @ to_le64 (sh_checksum h) @ to_le64 (sh_last_chained_checksum h)"

definition header_deserialize :: "byte list \<Rightarrow> segment_header" where
  "header_deserialize bs = \<lparr>sh_magic = from_le16 (field 0 2 bs), sh_version = bs ! 2, sh_header_size = bs ! 3,
     sh_segment_index = from_le32 (field 4 4 bs), sh_block_count = from_le32 (field 8 4 bs), sh_event_count = from_le32 (field 12 4 bs),
     sh_first_event_id = from_le64 (field 16 8 bs), sh_last_event_id = from_le64 (field 24 8 bs), sh_created_ts_ns = from_le64 (field 32 8 bs),
     sh_closed_ts_ns = from_le64 (field 40 8 bs), sh_checksum = from_le64 (field 48 8 bs), sh_last_chained_checksum = from_le64 (field 56 8 bs)\<rparr>"

text \<open>The checksum of a header: the bytes before the checksum field, then the bytes after it with the first hash as the seed.\<close>

definition header_compute_checksum :: "hash \<Rightarrow> segment_header \<Rightarrow> u64" where
  "header_compute_checksum xxh h =
     (let bytes = header_serialize h; hash1 = xxh (take 48 bytes) 0 in xxh (drop (48 + 8) bytes) hash1)"

definition header_validate_data :: "segment_header \<Rightarrow> bool" where
  "header_validate_data h = (if sh_magic h \<noteq> WAL_MAGIC then False else if sh_version h \<noteq> WAL_VERSION then False
     else if unat (sh_header_size h) \<noteq> HEADER_SIZE then False else True)"

definition header_validate_checksum :: "hash \<Rightarrow> segment_header \<Rightarrow> wal_status" where
  "header_validate_checksum xxh h = (if sh_checksum h \<noteq> header_compute_checksum xxh h then HEADER_CHECKSUM_MISMATCH else OK)"

definition header_verify :: "hash \<Rightarrow> segment_header \<Rightarrow> wal_status" where
  "header_verify xxh h = (case header_validate_checksum xxh h of
       OK \<Rightarrow> if \<not> header_validate_data h then SEGMENT_POSSIBLY_CORRUPTED else OK
     | status \<Rightarrow> status)"

definition header_finalize :: "hash \<Rightarrow> u64 \<Rightarrow> u64 \<Rightarrow> segment_header \<Rightarrow> segment_header" where
  "header_finalize xxh now chained h =
     (let h1 = h\<lparr>sh_closed_ts_ns := now, sh_last_chained_checksum := chained\<rparr> in h1\<lparr>sh_checksum := header_compute_checksum xxh h1\<rparr>)"

definition header_segment_size :: "segment_header \<Rightarrow> u32" where
  "header_segment_size h = of_nat (HEADER_SIZE + unat (sh_block_count h) * BLOCK_SIZE)"

section \<open>Blocks\<close>

record block_header =
  bh_first_event_id :: u64
  bh_last_event_id :: u64
  bh_block_checksum :: u64
  bh_chained_checksum :: u64
  bh_checksum :: u64
  bh_block_index :: u32
  bh_event_count :: u16
  bh_pad :: "byte list"

record wal_block =
  bl_header :: block_header
  bl_events :: "wal_event list"

definition block_header_bytes :: "block_header \<Rightarrow> byte list" where
  "block_header_bytes h = to_le64 (bh_first_event_id h) @ to_le64 (bh_last_event_id h) @ to_le64 (bh_block_checksum h) @
     to_le64 (bh_chained_checksum h) @ to_le64 (bh_checksum h) @ to_le32 (bh_block_index h) @ to_le16 (bh_event_count h) @ bh_pad h"

definition block_header_of_bytes :: "byte list \<Rightarrow> block_header" where
  "block_header_of_bytes bs = \<lparr>bh_first_event_id = from_le64 (field 0 8 bs), bh_last_event_id = from_le64 (field 8 8 bs),
     bh_block_checksum = from_le64 (field 16 8 bs), bh_chained_checksum = from_le64 (field 24 8 bs), bh_checksum = from_le64 (field 32 8 bs),
     bh_block_index = from_le32 (field 40 4 bs), bh_event_count = from_le16 (field 44 2 bs), bh_pad = field 46 18 bs\<rparr>"

definition block_header_compute_checksum :: "hash \<Rightarrow> block_header \<Rightarrow> u64" where
  "block_header_compute_checksum xxh h =
     (let bytes = block_header_bytes h; h1 = xxh (take 32 bytes) 0 in xxh (drop (32 + 8) bytes) h1)"

definition block_header_finalize :: "hash \<Rightarrow> u32 \<Rightarrow> u64 \<Rightarrow> u64 \<Rightarrow> block_header \<Rightarrow> block_header" where
  "block_header_finalize xxh block_index block_checksum chained_checksum h =
     (let h1 = h\<lparr>bh_block_index := block_index, bh_block_checksum := block_checksum, bh_chained_checksum := chained_checksum\<rparr> in
      h1\<lparr>bh_checksum := block_header_compute_checksum xxh h1\<rparr>)"

definition block_header_validate_data :: "block_header \<Rightarrow> bool" where
  "block_header_validate_data h =
     (if bh_event_count h = 0 \<or> unat (bh_event_count h) > WAL_BLOCK_EVENTS then False
      else if bh_first_event_id h = 0 \<or> bh_last_event_id h = 0 then False
      else if bh_first_event_id h > bh_last_event_id h then False
      else if unat (bh_block_index h) > MAX_BLOCKS then False
      else True)"

definition block_header_validate_checksum :: "hash \<Rightarrow> block_header \<Rightarrow> bool" where
  "block_header_validate_checksum xxh h \<longleftrightarrow> bh_checksum h = block_header_compute_checksum xxh h"

definition block_header_reset :: block_header where
  "block_header_reset = \<lparr>bh_first_event_id = 0, bh_last_event_id = 0, bh_block_checksum = 0, bh_chained_checksum = 0, bh_checksum = 0,
     bh_block_index = 0, bh_event_count = 0, bh_pad = replicate 18 0\<rparr>"

definition wal_block_reset :: wal_block where
  "wal_block_reset = \<lparr>bl_header = block_header_reset, bl_events = replicate WAL_BLOCK_EVENTS event_reset\<rparr>"

abbreviation block_count_of :: "wal_block \<Rightarrow> nat" where
  "block_count_of b \<equiv> unat (bh_event_count (bl_header b))"

definition compute_block_checksum :: "hash \<Rightarrow> wal_event list \<Rightarrow> nat \<Rightarrow> u64" where
  "compute_block_checksum xxh evs count = xxh (concat (map event_bytes (take count evs))) 0"

definition compute_chained_checksum :: "hash \<Rightarrow> wal_event list \<Rightarrow> nat \<Rightarrow> u64 \<Rightarrow> u64" where
  "compute_chained_checksum xxh evs count prev_chain = xxh (concat (map event_bytes (take count evs))) prev_chain"

definition block_finalize :: "hash \<Rightarrow> u32 \<Rightarrow> u64 \<Rightarrow> wal_block \<Rightarrow> wal_block" where
  "block_finalize xxh block_index prev_chained b =
     b\<lparr>bl_header := block_header_finalize xxh block_index
        (compute_block_checksum xxh (bl_events b) (block_count_of b))
        (compute_chained_checksum xxh (bl_events b) (block_count_of b) prev_chained) (bl_header b)\<rparr>"

fun ids_increase :: "wal_event list \<Rightarrow> bool" where
  "ids_increase (a # b # evs) = (if ev_event_id b \<le> ev_event_id a then False else ids_increase (b # evs))"
| "ids_increase _ = True"

definition block_validate_data :: "wal_block \<Rightarrow> bool" where
  "block_validate_data b =
     (if \<not> block_header_validate_data (bl_header b) then False
      else if bh_first_event_id (bl_header b) > bh_last_event_id (bl_header b) then False
      else ids_increase (take (block_count_of b) (bl_events b)))"

definition block_validate_checksums :: "hash \<Rightarrow> u64 \<Rightarrow> wal_block \<Rightarrow> wal_status" where
  "block_validate_checksums xxh prev_chained b =
     (if compute_block_checksum xxh (bl_events b) (block_count_of b) \<noteq> bh_block_checksum (bl_header b) then BLOCK_CHECKSUM_MISMATCH
      else if compute_chained_checksum xxh (bl_events b) (block_count_of b) prev_chained \<noteq> bh_chained_checksum (bl_header b)
      then CHAINED_CHECKSUM_MISMATCH else OK)"

definition block_verify :: "hash \<Rightarrow> u64 \<Rightarrow> wal_block \<Rightarrow> wal_status" where
  "block_verify xxh prev_chained b =
     (if \<not> block_validate_data b then SEGMENT_POSSIBLY_CORRUPTED else block_validate_checksums xxh prev_chained b)"

definition block_serialize :: "wal_block \<Rightarrow> byte list" where
  "block_serialize b = block_header_bytes (bl_header b) @ concat (map event_bytes (bl_events b))"

fun events_of_bytes :: "nat \<Rightarrow> byte list \<Rightarrow> wal_event list" where
  "events_of_bytes 0 bs = []"
| "events_of_bytes (Suc n) bs = event_of_bytes (take EVENT_SIZE bs) # events_of_bytes n (drop EVENT_SIZE bs)"

definition block_deserialize :: "byte list \<Rightarrow> wal_block" where
  "block_deserialize bs = \<lparr>bl_header = block_header_of_bytes (take 64 bs), bl_events = events_of_bytes WAL_BLOCK_EVENTS (drop 64 bs)\<rparr>"

section \<open>Round trips\<close>

named_theorems wal_sizes \<open>lengths of the encodings\<close>

lemma le_bytes_length [simp, wal_sizes]: "length (le_bytes n k) = n"
  by (induction n arbitrary: k) simp_all

lemma le_nat_bound: "le_nat bs < 256 ^ length bs"
proof (induction bs)
  case (Cons b bs)
  have "unat b < 256" using unsigned_less [of b, where 'a = nat] by simp
  then show ?case using Cons by simp
qed simp

lemma le_nat_bytes: "le_nat (le_bytes n k) = k mod 256 ^ n"
proof (induction n arbitrary: k)
  case (Suc n)
  have "unat (of_nat k :: byte) = k mod 256" by (simp add: unat_of_nat)
  then show ?case using Suc by (simp add: mod_mult2_eq)
qed simp

lemma le_bytes_nat: "le_bytes (length bs) (le_nat bs) = bs"
proof (induction bs)
  case (Cons b bs)
  have b: "unat b < 256" using unsigned_less [of b, where 'a = nat] by simp
  have overflow: "(256 :: byte) = 0" by code_simp
  have "(of_nat (unat b + 256 * le_nat bs) :: byte) = b"
    unfolding of_nat_add of_nat_mult of_nat_numeral overflow by simp
  then show ?case using Cons b by simp
qed simp

lemma from_to_le [simp]: "from_le16 (to_le16 a) = a" "from_le32 (to_le32 b) = b" "from_le64 (to_le64 c) = c"
  using unsigned_less [of a, where 'a = nat] unsigned_less [of b, where 'a = nat] unsigned_less [of c, where 'a = nat]
  by (simp_all add: from_le16_def to_le16_def from_le32_def to_le32_def from_le64_def to_le64_def le_nat_bytes)

lemma to_le_length [simp, wal_sizes]: "length (to_le16 a) = 2" "length (to_le32 b) = 4" "length (to_le64 c) = 8"
  by (simp_all add: to_le16_def to_le32_def to_le64_def)

definition event_wf :: "wal_event \<Rightarrow> bool" where
  "event_wf ev \<longleftrightarrow> length (ev_pad ev) = 21"

definition block_wf :: "wal_block \<Rightarrow> bool" where
  "block_wf b \<longleftrightarrow> length (bh_pad (bl_header b)) = 18 \<and> length (bl_events b) = WAL_BLOCK_EVENTS \<and> (\<forall>ev \<in> set (bl_events b). event_wf ev)"

lemma event_bytes_length [wal_sizes]: "event_wf ev \<Longrightarrow> length (event_bytes ev) = EVENT_SIZE"
  by (simp add: event_bytes_def event_wf_def EVENT_SIZE_def)

lemma header_serialize_length [simp, wal_sizes]: "length (header_serialize h) = HEADER_SIZE"
  by (simp add: header_serialize_def HEADER_SIZE_def)

lemma event_roundtrip: "event_wf ev \<Longrightarrow> event_of_bytes (event_bytes ev) = ev"
  by (simp add: event_of_bytes_def event_bytes_def event_wf_def nth_append)

lemma header_roundtrip: "header_deserialize (header_serialize h) = h"
  by (simp add: header_deserialize_def header_serialize_def nth_append)

lemma block_header_roundtrip:
  "length (bh_pad h) = 18 \<Longrightarrow> block_header_of_bytes (block_header_bytes h) = h \<and> length (block_header_bytes h) = 64"
  by (simp add: block_header_of_bytes_def block_header_bytes_def)

lemma events_bytes_length: "\<forall>ev \<in> set evs. event_wf ev \<Longrightarrow> length (concat (map event_bytes evs)) = length evs * EVENT_SIZE"
  by (induction evs) (simp_all add: event_bytes_length)

lemma events_roundtrip: "\<forall>ev \<in> set evs. event_wf ev \<Longrightarrow> events_of_bytes (length evs) (concat (map event_bytes evs)) = evs"
  by (induction evs) (simp_all add: event_bytes_length event_roundtrip)

lemma block_roundtrip: "block_wf b \<Longrightarrow> block_deserialize (block_serialize b) = b"
  using events_roundtrip [of "bl_events b"] block_header_roundtrip [of "bl_header b"]
  by (simp add: block_deserialize_def block_serialize_def block_wf_def)

lemma block_serialize_length: "block_wf b \<Longrightarrow> length (block_serialize b) = BLOCK_SIZE"
  using events_bytes_length [of "bl_events b"] block_header_roundtrip [of "bl_header b"]
  by (simp add: block_serialize_def block_wf_def BLOCK_SIZE_def)

end
