(* ===== verification/Segment_Writer.thy ===== *)
theory Segment_Writer
  imports Wal_Format
begin

text \<open>
  The segment writer of the recorder (wal/recorder/segment_writer.hpp) and the integrity check of a segment (wal/utils.hpp). The mapped file is
  the list of bytes of \<open>sw_file\<close>, which the mapping and the file descriptor share. The results of the system calls are the fields of \<open>seg_io\<close>, an argument of
  the operations that call them, and the clock is the argument \<open>now\<close>. \<open>None\<close> is a write outside the mapping or outside the block.
\<close>

section \<open>State\<close>

record seg_io =
  io_exists :: bool
  io_open :: bool
  io_fstat :: bool
  io_ftruncate :: bool
  io_mmap :: bool
  io_pwrite :: bool
  io_fdatasync :: bool
  io_msync :: bool
  io_munmap :: bool
  io_close :: bool

datatype mapped = Unmapped | Map_Failed | Mapped

record segment_writer =
  sw_fd :: bool
  sw_map :: mapped
  sw_file :: "byte list"
  sw_unlinked :: bool
  sw_num_blocks :: nat
  sw_segment_size :: nat
  sw_bytes_written :: nat
  sw_header :: segment_header
  sw_block :: wal_block
  sw_block_index :: u32
  sw_prev_chained :: u64

definition clamp_blocks :: "nat \<Rightarrow> nat" where
  "clamp_blocks n = max MIN_BLOCKS (min n MAX_BLOCKS)"

definition SegmentWriter_init :: "nat \<Rightarrow> byte list \<Rightarrow> segment_writer" where
  "SegmentWriter_init num_blocks contents =
     \<lparr>sw_fd = False, sw_map = Unmapped, sw_file = contents, sw_unlinked = False, sw_num_blocks = clamp_blocks num_blocks,
      sw_segment_size = HEADER_SIZE + clamp_blocks num_blocks * BLOCK_SIZE, sw_bytes_written = 0, sw_header = header_reset,
      sw_block = wal_block_reset, sw_block_index = 0, sw_prev_chained = 0\<rparr>"

definition write_at :: "nat \<Rightarrow> byte list \<Rightarrow> byte list \<Rightarrow> byte list" where
  "write_at offset bs contents = take offset contents @ bs @ drop (offset + length bs) contents"

section \<open>Integrity of a segment\<close>

fun verify_blocks :: "hash \<Rightarrow> byte list \<Rightarrow> nat \<Rightarrow> nat \<Rightarrow> nat \<Rightarrow> u64 \<Rightarrow> wal_status \<times> u64" where
  "verify_blocks xxh contents valid_data_size 0 offset prev_chained = (OK, prev_chained)"
| "verify_blocks xxh contents valid_data_size (Suc n) offset prev_chained =
     (if offset + BLOCK_SIZE > valid_data_size then (SEGMENT_CORRUPTED, prev_chained)
      else let blk = block_deserialize (field offset BLOCK_SIZE contents) in
           case block_verify xxh prev_chained blk of
             OK \<Rightarrow> verify_blocks xxh contents valid_data_size n (offset + BLOCK_SIZE) (bh_chained_checksum (bl_header blk))
           | status \<Rightarrow> (status, prev_chained))"

definition verify_full_segment_integrity :: "hash \<Rightarrow> byte list \<Rightarrow> nat \<Rightarrow> segment_header \<times> wal_status" where
  "verify_full_segment_integrity xxh contents valid_data_size =
     (let h = header_deserialize contents in
      (h, case header_verify xxh h of
            OK \<Rightarrow> (case verify_blocks xxh contents valid_data_size (unat (sh_block_count h)) HEADER_SIZE 0 of
                     (OK, prev_chained) \<Rightarrow> if prev_chained \<noteq> sh_last_chained_checksum h then SEGMENT_CORRUPTED else OK
                   | (status, _) \<Rightarrow> status)
          | status \<Rightarrow> status))"

text \<open>\<^verbatim>\<open>read_segment_header\<close>: the header of a file, read and verified without its blocks.\<close>

definition read_segment_header :: "hash \<Rightarrow> byte list \<Rightarrow> segment_header \<times> wal_status" where
  "read_segment_header xxh contents =
     (if length contents < HEADER_SIZE then (header_reset, OPEN_FAILED)
      else let h = header_deserialize contents in (h, header_verify xxh h))"

section \<open>Appending\<close>

definition write_block :: "hash \<Rightarrow> segment_writer \<Rightarrow> (segment_writer \<times> wal_status) option" where
  "write_block xxh w =
     (let b = block_finalize xxh (sw_block_index w) (sw_prev_chained w) (sw_block w) in
      if sw_bytes_written w + BLOCK_SIZE > length (sw_file w) then None
      else Some (w\<lparr>sw_file := write_at (sw_bytes_written w) (block_serialize b) (sw_file w),
                   sw_bytes_written := sw_bytes_written w + BLOCK_SIZE,
                   sw_prev_chained := bh_chained_checksum (bl_header b),
                   sw_block_index := sw_block_index w + 1,
                   sw_header := (sw_header w)\<lparr>sh_block_count := sw_block_index w + 1\<rparr>,
                   sw_block := wal_block_reset\<rparr>, OK))"

definition append_to_block :: "wal_event \<Rightarrow> wal_block \<Rightarrow> wal_block" where
  "append_to_block ev b =
     (let h = bl_header b;
          h1 = (if bh_event_count h = 0 then h\<lparr>bh_first_event_id := ev_event_id ev\<rparr> else h) in
      b\<lparr>bl_header := h1\<lparr>bh_last_event_id := ev_event_id ev, bh_event_count := bh_event_count h + 1\<rparr>,
        bl_events := (bl_events b)[unat (bh_event_count h) := ev]\<rparr>)"

definition append_to_header :: "wal_event \<Rightarrow> segment_header \<Rightarrow> segment_header" where
  "append_to_header ev h =
     (let h1 = (if sh_first_event_id h = INVALID_EVENT_ID then h\<lparr>sh_first_event_id := ev_event_id ev\<rparr> else h) in
      h1\<lparr>sh_last_event_id := ev_event_id ev, sh_event_count := sh_event_count h + 1\<rparr>)"

definition sw_append :: "hash \<Rightarrow> wal_event \<Rightarrow> segment_writer \<Rightarrow> (segment_writer \<times> wal_status) option" where
  "sw_append xxh ev w =
     (if block_count_of (sw_block w) \<ge> WAL_BLOCK_EVENTS then None
      else let w1 = w\<lparr>sw_block := append_to_block ev (sw_block w), sw_header := append_to_header ev (sw_header w)\<rparr> in
           if block_count_of (sw_block w1) = WAL_BLOCK_EVENTS then write_block xxh w1 else Some (w1, OK))"

definition flush_partial :: "hash \<Rightarrow> segment_writer \<Rightarrow> (segment_writer \<times> wal_status) option" where
  "flush_partial xxh w = (if block_count_of (sw_block w) > 0 then write_block xxh w else Some (w, OK))"

definition sw_flush :: "seg_io \<Rightarrow> bool \<Rightarrow> wal_status" where
  "sw_flush io hard = (if hard then if \<not> io_fdatasync io then FSYNC_FAILED else OK else if \<not> io_msync io then MSYNC_FAILED else OK)"

definition segment_is_full :: "segment_writer \<Rightarrow> bool" where
  "segment_is_full w \<longleftrightarrow> sw_bytes_written w \<ge> sw_segment_size w"

section \<open>Opening and closing\<close>

definition initial_header :: "u32 \<Rightarrow> u64 \<Rightarrow> segment_header" where
  "initial_header segment_index now = header_reset\<lparr>sh_magic := WAL_MAGIC, sh_version := WAL_VERSION, sh_header_size := of_nat HEADER_SIZE,
     sh_segment_index := segment_index, sh_first_event_id := INVALID_EVENT_ID, sh_last_event_id := INVALID_EVENT_ID, sh_created_ts_ns := now\<rparr>"

definition open_new_segment :: "seg_io \<Rightarrow> u64 \<Rightarrow> u32 \<Rightarrow> segment_writer \<Rightarrow> segment_writer \<times> wal_status" where
  "open_new_segment io now segment_index w =
     (if io_exists io then (w, FILE_ALREADY_EXISTS)
      else if \<not> io_open io then (w, OPEN_FAILED)
      else let w1 = w\<lparr>sw_fd := True, sw_file := []\<rparr> in
        if \<not> io_ftruncate io then (w1, OPEN_FAILED)
        else let w2 = w1\<lparr>sw_file := replicate (sw_segment_size w) 0\<rparr> in
          if \<not> io_mmap io then (w2\<lparr>sw_map := Map_Failed\<rparr>, OPEN_FAILED)
          else let h = initial_header segment_index now in
            (w2\<lparr>sw_map := Mapped, sw_header := h, sw_file := write_at 0 (header_serialize h) (sw_file w2), sw_bytes_written := HEADER_SIZE\<rparr>, OK))"

fun restore_scan :: "byte list \<Rightarrow> nat \<Rightarrow> nat \<Rightarrow> nat \<Rightarrow> u32 \<Rightarrow> u64 \<Rightarrow> wal_block option \<Rightarrow> nat \<times> u32 \<times> u64 \<times> wal_block option" where
  "restore_scan contents segment_size 0 bytes_written block_index prev_chained blk = (bytes_written, block_index, prev_chained, blk)"
| "restore_scan contents segment_size (Suc n) bytes_written block_index prev_chained blk =
     (if bytes_written + BLOCK_SIZE > segment_size then (bytes_written, block_index, prev_chained, blk)
      else let b = block_deserialize (field bytes_written BLOCK_SIZE contents) in
           if block_count_of b < WAL_BLOCK_EVENTS then (bytes_written, block_index, prev_chained, Some b)
           else restore_scan contents segment_size n (bytes_written + BLOCK_SIZE) (block_index + 1) (bh_chained_checksum (bl_header b)) (Some b))"

definition restore_append_position :: "segment_writer \<Rightarrow> segment_writer" where
  "restore_append_position w =
     (case restore_scan (sw_file w) (sw_segment_size w) (unat (sh_block_count (sw_header w))) HEADER_SIZE 0 0 None of
        (bytes_written, block_index, prev_chained, blk) \<Rightarrow>
          w\<lparr>sw_block_index := block_index, sw_prev_chained := prev_chained, sw_bytes_written := bytes_written,
            sw_block := (case blk of None \<Rightarrow> sw_block w | Some b \<Rightarrow> if block_count_of b < WAL_BLOCK_EVENTS then b else sw_block w)\<rparr>)"

definition open_existing_segment :: "hash \<Rightarrow> seg_io \<Rightarrow> segment_writer \<Rightarrow> segment_writer \<times> wal_status" where
  "open_existing_segment xxh io w =
     (if \<not> io_open io then (w, OPEN_FAILED)
      else if \<not> io_fstat io then (w, OPEN_FAILED)
      else if length (sw_file w) < HEADER_SIZE then (w, OPEN_FAILED)
      else let w1 = w\<lparr>sw_segment_size := length (sw_file w)\<rparr> in
        if \<not> io_mmap io then (w1\<lparr>sw_map := Map_Failed\<rparr>, OPEN_FAILED)
        else case verify_full_segment_integrity xxh (sw_file w) (length (sw_file w)) of
            (h, OK) \<Rightarrow> (restore_append_position (w1\<lparr>sw_fd := True, sw_map := Mapped, sw_header := h\<rparr>), OK)
          | (h, status) \<Rightarrow> (w1\<lparr>sw_fd := True, sw_map := Mapped, sw_header := h\<rparr>, status))"

definition finalize_segment_header :: "hash \<Rightarrow> seg_io \<Rightarrow> u64 \<Rightarrow> segment_writer \<Rightarrow> segment_writer \<times> wal_status" where
  "finalize_segment_header xxh io now w =
     (if \<not> sw_fd w then (w, OPEN_FAILED)
      else let w1 = w\<lparr>sw_header := header_finalize xxh now (sw_prev_chained w) (sw_header w)\<rparr> in
        if \<not> io_pwrite io then (w1, WRITE_FAILED)
        else (w1\<lparr>sw_file := write_at 0 (header_serialize (sw_header w1)) (sw_file w1)\<rparr>, OK))"

definition close_segment :: "hash \<Rightarrow> seg_io \<Rightarrow> u64 \<Rightarrow> bool \<Rightarrow> segment_writer \<Rightarrow> (segment_writer \<times> wal_status) option" where
  "close_segment xxh io now sync w =
     (case flush_partial xxh w of
        None \<Rightarrow> None
      | Some (w1, _) \<Rightarrow>
          (case finalize_segment_header xxh io now w1 of (w2, status) \<Rightarrow>
             Some (if sync \<and> status = OK \<and> \<not> io_fdatasync io then (w2\<lparr>sw_fd := False\<rparr>, FSYNC_FAILED)
                   else if \<not> io_munmap io then (w2\<lparr>sw_fd := False, sw_map := Unmapped\<rparr>, CLOSE_FAILED)
                   else if \<not> io_close io then (w2\<lparr>sw_map := Unmapped\<rparr>, CLOSE_FAILED)
                   else (w2\<lparr>sw_map := Unmapped, sw_fd := False\<rparr>, status))))"

text \<open>The destructor: a segment with events is closed, an empty one is removed.\<close>

definition force_close_or_remove_if_needed :: "hash \<Rightarrow> seg_io \<Rightarrow> u64 \<Rightarrow> segment_writer \<Rightarrow> (segment_writer \<times> bool) option" where
  "force_close_or_remove_if_needed xxh io now w =
     (if sw_fd w \<and> sw_map w \<noteq> Unmapped then
        if sh_last_event_id (sw_header w) \<noteq> INVALID_EVENT_ID \<and> sw_bytes_written w > 0
        then map_option (\<lambda>(w', status). (w', status = OK)) (close_segment xxh io now True w)
        else Some (w\<lparr>sw_fd := False, sw_map := Unmapped, sw_unlinked := True\<rparr>, True)
      else Some (w, False))"

text \<open>\<^verbatim>\<open>touch()\<close> writes a zero to the first byte of every page.\<close>

definition touch :: "nat \<Rightarrow> segment_writer \<Rightarrow> segment_writer" where
  "touch page_size w = w\<lparr>sw_file := map (\<lambda>(i, b). if i mod page_size = 0 then 0 else b) (enumerate 0 (sw_file w))\<rparr>"

end
