(* ===== verification/Segment_Reader.thy ===== *)
theory Segment_Reader
  imports Segment_Writer
begin

text \<open>
  The segment reader of the recovery (wal/recovery/segment_reader.hpp): opening with the full integrity check, sequential reads, the block
  index and the seek. The file is the list of its bytes; opening and mapping it either succeed or fail, as the argument \<open>io\<close> says.
\<close>

section \<open>State\<close>

type_synonym block_index_entry = "u64 \<times> u64 \<times> nat"

record segment_reader =
  sr_fd :: bool
  sr_map :: mapped
  sr_file :: "byte list"
  sr_segment_size :: nat
  sr_valid_data_size :: nat
  sr_block_offset :: nat
  sr_event_index :: nat
  sr_header :: segment_header
  sr_block :: wal_block
  sr_index :: "block_index_entry list"
  sr_index_built :: bool
  sr_segment_valid :: bool

definition SegmentReader_init :: "byte list \<Rightarrow> segment_header \<Rightarrow> wal_block \<Rightarrow> segment_reader" where
  "SegmentReader_init contents h0 b0 =
     \<lparr>sr_fd = False, sr_map = Unmapped, sr_file = contents, sr_segment_size = 0, sr_valid_data_size = 0, sr_block_offset = 0, sr_event_index = 0,
      sr_header = h0, sr_block = b0, sr_index = [], sr_index_built = False, sr_segment_valid = False\<rparr>"

section \<open>Operations\<close>

definition read_block_at_offset :: "nat \<Rightarrow> segment_reader \<Rightarrow> segment_reader \<times> wal_status" where
  "read_block_at_offset offset r =
     (if sr_map r = Unmapped then (r, READ_FAILED)
      else if offset + BLOCK_SIZE > sr_valid_data_size r then (r, READ_FAILED)
      else (r\<lparr>sr_block := block_deserialize (field offset BLOCK_SIZE (sr_file r)), sr_block_offset := offset, sr_event_index := 0\<rparr>, OK))"

definition sr_open_file :: "seg_io \<Rightarrow> segment_reader \<Rightarrow> segment_reader \<times> wal_status" where
  "sr_open_file io r =
     (if \<not> io_open io then (r, OPEN_FAILED)
      else let r1 = r\<lparr>sr_fd := True\<rparr> in
        if \<not> io_fstat io then (r1, OPEN_FAILED)
        else let r2 = r1\<lparr>sr_segment_size := length (sr_file r)\<rparr> in
          if length (sr_file r) < HEADER_SIZE then (r2, OPEN_FAILED)
          else if \<not> io_mmap io then (r2\<lparr>sr_map := Map_Failed\<rparr>, OPEN_FAILED)
          else (r2\<lparr>sr_map := Mapped\<rparr>, OK))"

definition open_segment :: "hash \<Rightarrow> seg_io \<Rightarrow> segment_reader \<Rightarrow> segment_reader \<times> wal_status" where
  "open_segment xxh io r =
     (case sr_open_file io r of
        (r1, OK) \<Rightarrow>
          (case verify_full_segment_integrity xxh (sr_file r1) (sr_segment_size r1) of (h, status) \<Rightarrow>
             let r2 = r1\<lparr>sr_header := h, sr_segment_valid := (status = OK)\<rparr> in
             if status \<noteq> OK then (r2, status)
             else if unat (header_segment_size h) > sr_segment_size r2
             then (r2\<lparr>sr_valid_data_size := sr_segment_size r2\<rparr>, SEGMENT_POSSIBLY_CORRUPTED)
             else read_block_at_offset HEADER_SIZE (r2\<lparr>sr_valid_data_size := unat (header_segment_size h)\<rparr>))
      | (r1, status) \<Rightarrow> (r1, status))"

definition sr_close_segment :: "seg_io \<Rightarrow> segment_reader \<Rightarrow> segment_reader \<times> wal_status" where
  "sr_close_segment io r =
     (let r1 = r\<lparr>sr_index := [], sr_index_built := False\<rparr> in
      if \<not> io_munmap io then (r1\<lparr>sr_fd := False, sr_map := Unmapped\<rparr>, CLOSE_FAILED)
      else if \<not> io_close io then (r1\<lparr>sr_map := Unmapped\<rparr>, CLOSE_FAILED)
      else (r1\<lparr>sr_map := Unmapped, sr_fd := False, sr_segment_size := 0, sr_block_offset := 0, sr_event_index := 0\<rparr>, OK))"

definition sr_next :: "segment_reader \<Rightarrow> segment_reader \<times> wal_event option" where
  "sr_next r =
     (case (if sr_event_index r \<ge> block_count_of (sr_block r)
            then read_block_at_offset (sr_block_offset r + BLOCK_SIZE) (r\<lparr>sr_block_offset := sr_block_offset r + BLOCK_SIZE\<rparr>)
            else (r, OK)) of
        (r1, OK) \<Rightarrow> (r1\<lparr>sr_event_index := sr_event_index r1 + 1\<rparr>, Some (bl_events (sr_block r1) ! sr_event_index r1))
      | (r1, _) \<Rightarrow> (r1, None))"

function build_index_loop :: "byte list \<Rightarrow> nat \<Rightarrow> nat \<Rightarrow> block_index_entry list" where
  "build_index_loop contents valid_data_size offset =
     (if offset + BLOCK_SIZE \<le> valid_data_size
      then let h = bl_header (block_deserialize (field offset BLOCK_SIZE contents)) in
        (bh_first_event_id h, bh_last_event_id h, offset) # build_index_loop contents valid_data_size (offset + BLOCK_SIZE)
      else [])"
  by pat_completeness auto
termination by (relation "measure (\<lambda>(_, v, i). v - i)") (auto simp: BLOCK_SIZE_def)

declare build_index_loop.simps [simp del]

definition build_index :: "segment_reader \<Rightarrow> segment_reader" where
  "build_index r = (if \<not> sr_index_built r
     then r\<lparr>sr_index := build_index_loop (sr_file r) (sr_valid_data_size r) HEADER_SIZE, sr_index_built := True\<rparr> else r)"

function index_search :: "block_index_entry list \<Rightarrow> u64 \<Rightarrow> nat \<Rightarrow> nat \<Rightarrow> nat \<Rightarrow> nat" where
  "index_search idx event_id left right pos =
     (if left \<le> right
      then let mid = left + (right - left) div 2; first = fst (idx ! mid); last = fst (snd (idx ! mid)) in
        if event_id \<ge> first \<and> event_id \<le> last then mid
        else if event_id < first then if mid = 0 then 0 else index_search idx event_id left (mid - 1) pos
        else index_search idx event_id (mid + 1) right mid
      else pos)"
  by pat_completeness auto
termination by (relation "measure (\<lambda>(_, _, left, right, _). Suc right - left)") auto

declare index_search.simps [simp del]

text \<open>The linear scan of the block: the first event whose id is not below the wanted one.\<close>

fun scan_events :: "wal_event list \<Rightarrow> u64 \<Rightarrow> nat \<Rightarrow> nat option" where
  "scan_events [] event_id i = None"
| "scan_events (ev # evs) event_id i = (if ev_event_id ev \<ge> event_id then Some i else scan_events evs event_id (Suc i))"

definition sr_seek :: "u64 \<Rightarrow> segment_reader \<Rightarrow> segment_reader \<times> bool" where
  "sr_seek event_id r0 =
     (let r = build_index r0 in
      if sr_index r = [] then (r, False)
      else let pos = index_search (sr_index r) event_id 0 (length (sr_index r) - 1) 0;
               offset = snd (snd (sr_index r ! pos)) in
        case read_block_at_offset offset (r\<lparr>sr_block_offset := offset\<rparr>) of
          (r1, OK) \<Rightarrow>
            (case scan_events (take (block_count_of (sr_block r1)) (bl_events (sr_block r1))) event_id 0 of
               Some i \<Rightarrow> (r1\<lparr>sr_event_index := i\<rparr>, True)
             | None \<Rightarrow>
                 if pos + 1 < length (sr_index r1)
                 then let offset' = snd (snd (sr_index r1 ! (pos + 1))) in
                   (case read_block_at_offset offset' (r1\<lparr>sr_event_index := 0, sr_block_offset := offset'\<rparr>) of
                      (r2, OK) \<Rightarrow> (r2\<lparr>sr_event_index := 0\<rparr>, True)
                    | (r2, _) \<Rightarrow> (r2, False))
                 else (r1\<lparr>sr_event_index := block_count_of (sr_block r1) - 1\<rparr>, True))
        | (r1, _) \<Rightarrow> (r1, False))"

end
