(* ===== verification/Wal_Names.thy ===== *)
theory Wal_Names
  imports Segment_Reader "HOL-Library.Char_ord" "HOL-Library.List_Lexorder" "HOL-Library.AList"
begin

text \<open>
  The names of the segment files (wal/utils.hpp) and the WAL directory: a list of the regular files, each with its name and its contents, in the
  order of the directory. All names share the path of the directory, which is left out. \<^verbatim>\<open>std::string\<close> compares lexicographically by unsigned bytes,
  as the order on \<^typ>\<open>string\<close> does.
\<close>

section \<open>File names\<close>

fun name_digits :: "nat \<Rightarrow> nat \<Rightarrow> string" where
  "name_digits 0 v = []"
| "name_digits (Suc width) v = name_digits width (v div 10) @ [char_of (48 + v mod 10)]"

definition compose_segment_filename :: "string \<Rightarrow> nat \<Rightarrow> nat \<Rightarrow> string" where
  "compose_segment_filename prefix segment_index width =
     (if prefix \<noteq> [] then prefix @ ''.'' else []) @ name_digits width segment_index @ ''.wal''"

abbreviation segment_name :: "nat \<Rightarrow> string" where
  "segment_name i \<equiv> compose_segment_filename ''FS'' i 8"

text \<open>\<^verbatim>\<open>std::filesystem::path::extension\<close> of a file name: from the last dot, unless that is the first character.\<close>

definition path_extension :: "string \<Rightarrow> string" where
  "path_extension name = (let r = takeWhile (\<lambda>c. c \<noteq> CHR ''.'') (rev name) in if length r + 1 < length name then CHR ''.'' # rev r else [])"

lemma name_digits_length [simp]: "length (name_digits width v) = width"
  by (induction width arbitrary: v) simp_all

lemma append_less_same_length:
  assumes "length xs = length ys"
  shows "xs @ [x] < ys @ [y] \<longleftrightarrow> xs < ys \<or> xs = ys \<and> x < (y :: char)"
  using assms by (induction xs ys rule: list_induct2) auto

lemma digit_less: "a < 10 \<Longrightarrow> b < 10 \<Longrightarrow> (char_of (48 + a) :: char) < char_of (48 + b) \<longleftrightarrow> a < (b :: nat)"
  by (simp add: less_char_def)

lemma name_digits_less: "i < j \<Longrightarrow> j < 10 ^ width \<Longrightarrow> name_digits width i < name_digits width j"
proof (induction width arbitrary: i j)
  case (Suc width)
  have b: "i div 10 \<le> j div 10" "j div 10 < 10 ^ width" using Suc.prems by (auto intro: div_le_mono simp: less_mult_imp_div_less mult.commute)
  show ?case
  proof (cases "i div 10 = j div 10")
    case True
    have "i mod 10 < j mod 10" using Suc.prems(1) True by (metis div_mult_mod_eq add_less_cancel_left)
    then show ?thesis using True digit_less [of "i mod 10" "j mod 10"] by (simp add: append_less_same_length)
  next
    case False
    then have "name_digits width (i div 10) < name_digits width (j div 10)" using Suc.IH b by simp
    then show ?thesis by (simp add: append_less_same_length)
  qed
qed simp

lemma append_right_less: "length xs = length ys \<Longrightarrow> xs < ys \<Longrightarrow> xs @ zs < ys @ (zs :: char list)"
  by (induction xs ys rule: list_induct2) auto

lemma segment_name_less: "i < j \<Longrightarrow> j < 10 ^ 8 \<Longrightarrow> segment_name i < segment_name j"
  using append_right_less [OF _ name_digits_less [of i j 8]] by (simp add: compose_segment_filename_def)

lemma segment_name_inject: "i < 10 ^ 8 \<Longrightarrow> j < 10 ^ 8 \<Longrightarrow> segment_name i = segment_name j \<longleftrightarrow> i = j"
  using segment_name_less [of i j] segment_name_less [of j i] by (cases i j rule: linorder_cases) auto

lemma segment_name_extension [simp]: "path_extension (segment_name i) = ''.wal''"
  by (simp add: path_extension_def compose_segment_filename_def Let_def)

section \<open>The directory\<close>

type_synonym wal_dir = "(string \<times> byte list) list"

abbreviation put_file :: "string \<Rightarrow> byte list \<Rightarrow> wal_dir \<Rightarrow> wal_dir" where
  "put_file name contents d \<equiv> AList.update name contents d"

abbreviation remove_file :: "string \<Rightarrow> wal_dir \<Rightarrow> wal_dir" where
  "remove_file name d \<equiv> AList.delete name d"

definition wal_names :: "wal_dir \<Rightarrow> string list" where
  "wal_names d = sort (filter (\<lambda>name. path_extension name = ''.wal'') (map fst d))"

definition lz4_names :: "wal_dir \<Rightarrow> string list" where
  "lz4_names d = sort (filter (\<lambda>name. path_extension name = ''.lz4'') (map fst d))"

end
