(* ===== verification/Wal_Meta.thy ===== *)
theory Wal_Meta
  imports Wal_Names
begin

unbundle bit_operations_syntax

text \<open>
  The metadata of the recorder (wal/recorder/meta.hpp) and the thread that flushes it (wal/recorder/worker/meta_coordinator.hpp). The file
  \<^verbatim>\<open>wal_meta.dat\<close> holds two raw words in the byte order of a little endian host. The outcome of the system calls is the argument of type \<open>meta_io\<close>.
\<close>

section \<open>MetaStore\<close>

record meta_state =
  ms_last_segment_index :: u32
  ms_last_offset :: u32
  ms_last_event_id :: u64

definition MetaState_init :: meta_state where
  "MetaState_init = \<lparr>ms_last_segment_index = 0, ms_last_offset = 0, ms_last_event_id = INVALID_EVENT_ID\<rparr>"

record meta_store =
  mt_dirty :: bool
  mt_state :: u64
  mt_last_event_id :: u64
  mt_file :: "byte list option"

definition MetaStore_init :: "byte list option \<Rightarrow> meta_store" where
  "MetaStore_init file = \<lparr>mt_dirty = False, mt_state = 0, mt_last_event_id = 0, mt_file = file\<rparr>"

definition pack_state :: "u32 \<Rightarrow> u32 \<Rightarrow> u64" where
  "pack_state segment_index offset = push_bit 32 (ucast segment_index) OR ucast offset"

definition meta_update :: "meta_state \<Rightarrow> meta_store \<Rightarrow> meta_store" where
  "meta_update ms s = s\<lparr>mt_state := pack_state (ms_last_segment_index ms) (ms_last_offset ms), mt_last_event_id := ms_last_event_id ms, mt_dirty := True\<rparr>"

definition get_state :: "meta_store \<Rightarrow> meta_state" where
  "get_state s = \<lparr>ms_last_segment_index = ucast (drop_bit 32 (mt_state s)), ms_last_offset = ucast (mt_state s AND 0xFFFFFFFF),
     ms_last_event_id = mt_last_event_id s\<rparr>"

record meta_io =
  mo_open :: bool
  mo_write_state :: bool
  mo_write_event :: bool
  mo_fdatasync :: bool
  mo_rename :: bool

definition flush_to_disk :: "meta_io \<Rightarrow> meta_store \<Rightarrow> meta_store \<times> bool" where
  "flush_to_disk io s =
     (if \<not> mt_dirty s then (s, True)
      else let s1 = s\<lparr>mt_dirty := False\<rparr> in
        if mo_open io \<and> mo_write_state io \<and> mo_write_event io \<and> mo_fdatasync io \<and> mo_rename io
        then (s1\<lparr>mt_file := Some (to_le64 (mt_state s) @ to_le64 (mt_last_event_id s))\<rparr>, True)
        else (s1, False))"

definition meta_load :: "bool \<Rightarrow> meta_store \<Rightarrow> meta_store \<times> bool" where
  "meta_load opened s =
     (case mt_file s of
        None \<Rightarrow> (s, False)
      | Some bs \<Rightarrow> if \<not> opened \<or> length bs < 16 then (s, False)
          else (s\<lparr>mt_state := from_le64 (field 0 8 bs), mt_last_event_id := from_le64 (field 8 8 bs)\<rparr>, True))"

section \<open>Packing\<close>

lemma pack_high: "ucast (drop_bit 32 (pack_state i p)) = i"
  by (rule bit_word_eqI) (auto simp: pack_state_def bit_simps dest: bit_imp_le_length)

lemma pack_low: "ucast (pack_state i p AND 0xFFFFFFFF) = p"
proof -
  have m: "(0xFFFFFFFF :: u64) = mask 32" by (simp add: mask_eq_exp_minus_1)
  show ?thesis unfolding m by (rule bit_word_eqI) (auto simp: pack_state_def bit_simps)
qed

lemma get_update [simp]: "get_state (meta_update ms s) = ms"
  by (simp add: get_state_def meta_update_def pack_high pack_low)

lemma get_state_cong: "mt_state s = mt_state t \<Longrightarrow> mt_last_event_id s = mt_last_event_id t \<Longrightarrow> get_state s = get_state t"
  by (simp add: get_state_def)

definition meta_image :: "meta_store \<Rightarrow> byte list" where
  "meta_image s = to_le64 (mt_state s) @ to_le64 (mt_last_event_id s)"

lemma load_image:
  assumes "mt_file t = Some (meta_image s)"
  shows "\<exists>t'. meta_load True t = (t', True) \<and> get_state t' = get_state s"
  using assms by (auto simp: meta_load_def meta_image_def get_state_def)

section \<open>The two threads\<close>

text \<open>
  \<^verbatim>\<open>update\<close> is three atomic stores; the flush loop tests and clears the dirty flag, loads the two words and replaces the file. With \<open>faults\<close> the
  replacement may fail.
\<close>

datatype updater = U_Idle | U_Event meta_state | U_Dirty meta_state
datatype flusher = F_Idle | F_Load | F_Event u64 | F_Write u64 u64

record meta_threads =
  th_store :: meta_store
  th_updater :: updater
  th_flusher :: flusher

inductive meta_step :: "bool \<Rightarrow> meta_threads \<Rightarrow> meta_threads \<Rightarrow> bool" for faults :: bool where
  upd_state: "th_updater s = U_Idle \<Longrightarrow>
    meta_step faults s (s\<lparr>th_store := (th_store s)\<lparr>mt_state := pack_state (ms_last_segment_index ms) (ms_last_offset ms)\<rparr>, th_updater := U_Event ms\<rparr>)"
| upd_event: "th_updater s = U_Event ms \<Longrightarrow>
    meta_step faults s (s\<lparr>th_store := (th_store s)\<lparr>mt_last_event_id := ms_last_event_id ms\<rparr>, th_updater := U_Dirty ms\<rparr>)"
| upd_dirty: "th_updater s = U_Dirty ms \<Longrightarrow> meta_step faults s (s\<lparr>th_store := (th_store s)\<lparr>mt_dirty := True\<rparr>, th_updater := U_Idle\<rparr>)"
| fl_exchange: "th_flusher s = F_Idle \<Longrightarrow> mt_dirty (th_store s) \<Longrightarrow>
    meta_step faults s (s\<lparr>th_store := (th_store s)\<lparr>mt_dirty := False\<rparr>, th_flusher := F_Load\<rparr>)"
| fl_load: "th_flusher s = F_Load \<Longrightarrow> meta_step faults s (s\<lparr>th_flusher := F_Event (mt_state (th_store s))\<rparr>)"
| fl_event: "th_flusher s = F_Event p \<Longrightarrow> meta_step faults s (s\<lparr>th_flusher := F_Write p (mt_last_event_id (th_store s))\<rparr>)"
| fl_write: "th_flusher s = F_Write p e \<Longrightarrow>
    meta_step faults s (s\<lparr>th_store := (th_store s)\<lparr>mt_file := Some (to_le64 p @ to_le64 e)\<rparr>, th_flusher := F_Idle\<rparr>)"
| fl_fail: "th_flusher s = F_Write p e \<Longrightarrow> faults \<Longrightarrow> meta_step faults s (s\<lparr>th_flusher := F_Idle\<rparr>)"

definition meta_threads_init :: "meta_store \<Rightarrow> meta_threads" where
  "meta_threads_init store = \<lparr>th_store = store, th_updater = U_Idle, th_flusher = F_Idle\<rparr>"

definition meta_quiet :: "meta_threads \<Rightarrow> bool" where
  "meta_quiet s \<longleftrightarrow> th_updater s = U_Idle \<and> th_flusher s = F_Idle \<and> \<not> mt_dirty (th_store s)"

definition meta_inv :: "meta_threads \<Rightarrow> bool" where
  "meta_inv s \<longleftrightarrow> mt_dirty (th_store s) \<or> th_updater s \<noteq> U_Idle \<or>
     (case th_flusher s of
        F_Idle \<Rightarrow> mt_file (th_store s) = Some (meta_image (th_store s))
      | F_Load \<Rightarrow> True
      | F_Event p \<Rightarrow> p = mt_state (th_store s)
      | F_Write p e \<Rightarrow> p = mt_state (th_store s) \<and> e = mt_last_event_id (th_store s))"

lemma meta_step_inv:
  assumes "meta_step False s s'" and "meta_inv s"
  shows "meta_inv s'"
  using assms
proof (cases rule: meta_step.cases)
  case (upd_state ms) then show ?thesis by (simp add: meta_inv_def)
next
  case (upd_event ms) then show ?thesis by (simp add: meta_inv_def)
next
  case (upd_dirty ms) then show ?thesis by (simp add: meta_inv_def)
next
  case fl_exchange then show ?thesis by (simp add: meta_inv_def)
next
  case fl_load then show ?thesis by (simp add: meta_inv_def)
next
  case (fl_event p) then show ?thesis using assms(2) by (simp add: meta_inv_def)
next
  case (fl_write p e) then show ?thesis using assms(2) by (auto simp: meta_inv_def meta_image_def)
qed simp

lemma meta_run_inv: "(meta_step False)\<^sup>*\<^sup>* s s' \<Longrightarrow> meta_inv s \<Longrightarrow> meta_inv s'"
  by (induction rule: rtranclp_induct) (auto intro: meta_step_inv)

text \<open>The dirty-flag protocol of the metadata loses no update. The thread that updates the two words and the thread that flushes them run in any
  interleaving of their atomic accesses; whenever both are idle, the flag is clear and no write has failed, the file on disk holds the current
  state, so a restart loads exactly the last segment index, offset and event id that were stored.\<close>

theorem meta_file_settles:
  assumes "(meta_step False)\<^sup>*\<^sup>* (meta_threads_init store) s" and "mt_dirty store \<or> mt_file store = Some (meta_image store)" and "meta_quiet s"
  shows "\<exists>t'. meta_load True (MetaStore_init (mt_file (th_store s))) = (t', True) \<and> get_state t' = get_state (th_store s)"
proof -
  have "meta_inv (meta_threads_init store)" using assms(2) by (auto simp: meta_inv_def meta_threads_init_def)
  then have "meta_inv s" using meta_run_inv [OF assms(1)] by blast
  then have "mt_file (th_store s) = Some (meta_image (th_store s))" using assms(3) by (simp add: meta_inv_def meta_quiet_def)
  then show ?thesis by (intro load_image) (simp add: MetaStore_init_def)
qed

definition meta_sample :: meta_threads where
  "meta_sample = (let store = meta_update \<lparr>ms_last_segment_index = 2, ms_last_offset = 64, ms_last_event_id = 9\<rparr> (MetaStore_init None) in
     meta_threads_init (store\<lparr>mt_dirty := False, mt_file := Some (meta_image store)\<rparr>))"

lemma meta_sample_run:
  "(meta_step False)\<^sup>*\<^sup>* (meta_threads_init (meta_update \<lparr>ms_last_segment_index = 2, ms_last_offset = 64, ms_last_event_id = 9\<rparr> (MetaStore_init None))) meta_sample"
proof -
  let ?s = "meta_threads_init (meta_update \<lparr>ms_last_segment_index = 2, ms_last_offset = 64, ms_last_event_id = 9\<rparr> (MetaStore_init None))"
  let ?t = "?s\<lparr>th_store := (th_store ?s)\<lparr>mt_dirty := False\<rparr>\<rparr>"
  have p: "mt_state (th_store ?t) = pack_state 2 64" "mt_last_event_id (th_store ?t) = 9" by (simp_all add: meta_update_def meta_threads_init_def)
  have 1: "meta_step False ?s (?t\<lparr>th_flusher := F_Load\<rparr>)" using meta_step.fl_exchange [of ?s] by (simp add: meta_update_def meta_threads_init_def)
  have 2: "meta_step False (?t\<lparr>th_flusher := F_Load\<rparr>) (?t\<lparr>th_flusher := F_Event (pack_state 2 64)\<rparr>)"
    using meta_step.fl_load [of "?t\<lparr>th_flusher := F_Load\<rparr>" False] p(1) by simp
  have 3: "meta_step False (?t\<lparr>th_flusher := F_Event (pack_state 2 64)\<rparr>) (?t\<lparr>th_flusher := F_Write (pack_state 2 64) 9\<rparr>)"
    using meta_step.fl_event [of "?t\<lparr>th_flusher := F_Event (pack_state 2 64)\<rparr>" "pack_state 2 64" False] p(2) by simp
  have 4: "meta_step False (?t\<lparr>th_flusher := F_Write (pack_state 2 64) 9\<rparr>) meta_sample"
    using meta_step.fl_write [of "?t\<lparr>th_flusher := F_Write (pack_state 2 64) 9\<rparr>" "pack_state 2 64" 9 False]
    by (simp add: meta_sample_def meta_update_def meta_threads_init_def MetaStore_init_def meta_image_def Let_def)
  show ?thesis by (rule converse_rtranclp_into_rtranclp [OF 1 converse_rtranclp_into_rtranclp [OF 2 converse_rtranclp_into_rtranclp [OF 3 r_into_rtranclp [of "meta_step False", OF 4]]]])
qed

theorem meta_file_settles_witness:
  "\<exists>t'. meta_load True (MetaStore_init (mt_file (th_store meta_sample))) = (t', True) \<and>
    get_state t' = \<lparr>ms_last_segment_index = 2, ms_last_offset = 64, ms_last_event_id = 9\<rparr>"
proof -
  have "meta_quiet meta_sample" by (simp add: meta_quiet_def meta_sample_def meta_threads_init_def Let_def)
  moreover have "get_state (th_store meta_sample) = \<lparr>ms_last_segment_index = 2, ms_last_offset = 64, ms_last_event_id = 9\<rparr>"
    by (simp add: meta_sample_def meta_threads_init_def Let_def meta_update_def get_state_def pack_high pack_low)
  ultimately show ?thesis using meta_file_settles [OF meta_sample_run] by (simp add: meta_update_def)
qed

end
