(* ===== verification/Wal_Segment.thy ===== *)
theory Wal_Segment
  imports Segment_Reader
begin

text \<open>
  The contents of a segment as a list of chunks of events, one for each block: what the writer leaves in the file, that the
  integrity check accepts it, and what the reader returns from it.
\<close>

section \<open>Blocks of chunks\<close>

definition fill :: "wal_event list \<Rightarrow> wal_block" where
  "fill evs = \<lparr>bl_header = (if evs = [] then block_header_reset
       else block_header_reset\<lparr>bh_first_event_id := ev_event_id (hd evs), bh_last_event_id := ev_event_id (last evs), bh_event_count := of_nat (length evs)\<rparr>),
     bl_events = evs @ replicate (WAL_BLOCK_EVENTS - length evs) event_reset\<rparr>"

abbreviation chunk_bytes :: "wal_event list \<Rightarrow> byte list" where
  "chunk_bytes evs \<equiv> concat (map event_bytes evs)"

fun seal :: "hash \<Rightarrow> u32 \<Rightarrow> u64 \<Rightarrow> wal_event list list \<Rightarrow> wal_block list" where
  "seal xxh i p [] = []"
| "seal xxh i p (c # cs) = block_finalize xxh i p (fill c) # seal xxh (i + 1) (xxh (chunk_bytes c) p) cs"

fun chain :: "hash \<Rightarrow> u64 \<Rightarrow> wal_event list list \<Rightarrow> u64" where
  "chain xxh p [] = p"
| "chain xxh p (c # cs) = chain xxh (xxh (chunk_bytes c) p) cs"

definition chunk_ok :: "wal_event list \<Rightarrow> bool" where
  "chunk_ok c \<longleftrightarrow> c \<noteq> [] \<and> length c \<le> WAL_BLOCK_EVENTS \<and> (\<forall>ev \<in> set c. event_wf ev)"

lemma block_events_bounds: "0 < WAL_BLOCK_EVENTS" "WAL_BLOCK_EVENTS < 2 ^ 16" "0 < BLOCK_SIZE" "HEADER_SIZE < 2 ^ 8"
  by (simp_all add: WAL_BLOCK_EVENTS_def BLOCK_SIZE_def HEADER_SIZE_def)

lemma count_word: "n \<le> WAL_BLOCK_EVENTS \<Longrightarrow> unat (of_nat n :: u16) = n"
  using block_events_bounds(2) by (simp add: unat_of_nat)

lemma fill_count: "length evs \<le> WAL_BLOCK_EVENTS \<Longrightarrow> block_count_of (fill evs) = length evs"
  by (simp add: fill_def block_header_reset_def count_word)

lemma fill_events [simp]: "take (length evs) (bl_events (fill evs)) = evs"
  by (simp add: fill_def)

lemma fill_wf: "length evs \<le> WAL_BLOCK_EVENTS \<Longrightarrow> \<forall>ev \<in> set evs. event_wf ev \<Longrightarrow> block_wf (fill evs)"
  by (auto simp: block_wf_def fill_def block_header_reset_def event_wf_def event_reset_def)

lemma fill_reset: "fill [] = wal_block_reset"
  by (simp add: fill_def wal_block_reset_def)

lemma finalize_simps [simp]:
  "bl_events (block_finalize xxh i p b) = bl_events b"
  "bh_event_count (bl_header (block_finalize xxh i p b)) = bh_event_count (bl_header b)"
  "bh_first_event_id (bl_header (block_finalize xxh i p b)) = bh_first_event_id (bl_header b)"
  "bh_last_event_id (bl_header (block_finalize xxh i p b)) = bh_last_event_id (bl_header b)"
  "bh_block_index (bl_header (block_finalize xxh i p b)) = i"
  "block_wf (block_finalize xxh i p b) = block_wf b"
  by (simp_all add: block_finalize_def block_header_finalize_def Let_def block_wf_def)

lemma finalize_checksums:
  assumes "length c \<le> WAL_BLOCK_EVENTS"
  shows "bh_chained_checksum (bl_header (block_finalize xxh i p (fill c))) = xxh (chunk_bytes c) p"
    and "bh_block_checksum (bl_header (block_finalize xxh i p (fill c))) = xxh (chunk_bytes c) 0"
  using fill_count [OF assms]
  by (simp_all add: block_finalize_def block_header_finalize_def Let_def compute_chained_checksum_def compute_block_checksum_def)

lemma seal_length [simp]: "length (seal xxh i p cs) = length cs"
  by (induction cs arbitrary: i p) simp_all

lemma seal_append: "seal xxh i p (cs @ [c]) = seal xxh i p cs @ [block_finalize xxh (i + of_nat (length cs)) (chain xxh p cs) (fill c)]"
  by (induction cs arbitrary: i p) (simp_all add: algebra_simps)

lemma chain_append: "chain xxh p (cs @ [c]) = xxh (chunk_bytes c) (chain xxh p cs)"
  by (induction cs arbitrary: p) simp_all

lemma seal_wf: "\<forall>c \<in> set cs. chunk_ok c \<Longrightarrow> \<forall>b \<in> set (seal xxh i p cs). block_wf b"
  by (induction cs arbitrary: i p) (auto simp: chunk_ok_def fill_wf)

lemma blocks_length: "\<forall>b \<in> set bs. block_wf b \<Longrightarrow> length (concat (map block_serialize bs)) = length bs * BLOCK_SIZE"
  by (induction bs) (simp_all add: block_serialize_length)

lemma seal_nth:
  "k < length cs \<Longrightarrow> seal xxh i p cs ! k = block_finalize xxh (i + of_nat k) (chain xxh p (take k cs)) (fill (cs ! k))"
proof (induction cs arbitrary: i p k)
  case (Cons c cs)
  then show ?case by (cases k) (simp_all add: algebra_simps)
qed simp

text \<open>The blocks of the file from an offset on.\<close>

definition holds_blocks :: "byte list \<Rightarrow> nat \<Rightarrow> wal_block list \<Rightarrow> bool" where
  "holds_blocks contents offset bs \<longleftrightarrow> (\<exists>rest. drop offset contents = concat (map block_serialize bs) @ rest)"

lemma holds_block_at:
  assumes "holds_blocks contents offset bs" and "k < length bs" and "\<forall>b \<in> set bs. block_wf b"
  shows "block_deserialize (field (offset + k * BLOCK_SIZE) BLOCK_SIZE contents) = bs ! k"
proof -
  obtain rest where r: "drop offset contents = concat (map block_serialize bs) @ rest" using assms(1) by (auto simp: holds_blocks_def)
  have "drop (offset + k * BLOCK_SIZE) contents = drop (k * BLOCK_SIZE) (drop offset contents)" by (simp add: add.commute)
  also have "\<dots> = drop (k * BLOCK_SIZE) (concat (map block_serialize (take k bs @ bs ! k # drop (Suc k) bs)) @ rest)"
    using r assms(2) by (simp add: id_take_nth_drop [symmetric])
  also have "\<dots> = block_serialize (bs ! k) @ concat (map block_serialize (drop (Suc k) bs)) @ rest"
  proof -
    have "\<forall>b \<in> set (take k bs). block_wf b" using assms(3) by (auto dest: in_set_takeD)
    then have "length (concat (map block_serialize (take k bs))) = k * BLOCK_SIZE" using blocks_length [of "take k bs"] assms(2) by simp
    then show ?thesis by simp
  qed
  finally have d: "drop (offset + k * BLOCK_SIZE) contents = block_serialize (bs ! k) @ concat (map block_serialize (drop (Suc k) bs)) @ rest" .
  have wf: "block_wf (bs ! k)" using assms(2,3) by simp
  show ?thesis unfolding d using block_serialize_length [OF wf] block_roundtrip [OF wf] by simp
qed

lemma holds_blocks_Cons:
  assumes "holds_blocks contents offset (b # bs)" and "block_wf b"
  shows "block_deserialize (field offset BLOCK_SIZE contents) = b" and "holds_blocks contents (offset + BLOCK_SIZE) bs"
proof -
  obtain rest where r: "drop offset contents = block_serialize b @ concat (map block_serialize bs) @ rest" using assms(1) by (auto simp: holds_blocks_def)
  show "block_deserialize (field offset BLOCK_SIZE contents) = b"
    unfolding r using block_serialize_length [OF assms(2)] block_roundtrip [OF assms(2)] by simp
  have "drop (offset + BLOCK_SIZE) contents = drop BLOCK_SIZE (drop offset contents)" by (simp add: add.commute)
  then show "holds_blocks contents (offset + BLOCK_SIZE) bs"
    unfolding r using block_serialize_length [OF assms(2)] by (auto simp: holds_blocks_def)
qed

section \<open>The integrity check\<close>

abbreviation ids :: "wal_event list \<Rightarrow> u64 list" where
  "ids evs \<equiv> map ev_event_id evs"

lemma ids_increase_iff: "ids_increase evs \<longleftrightarrow> sorted_wrt (<) (ids evs)"
  by (induction evs rule: ids_increase.induct) (auto simp: not_le intro: less_trans)

definition chunk_valid :: "wal_event list \<Rightarrow> bool" where
  "chunk_valid c \<longleftrightarrow> chunk_ok c \<and> ids_increase c \<and> ev_event_id (hd c) \<noteq> 0"

lemma chunk_hd_last:
  assumes "chunk_valid c"
  shows "ev_event_id (hd c) \<le> ev_event_id (last c)" and "ev_event_id (last c) \<noteq> 0" and "ev_event_id (hd c) \<noteq> 0"
proof -
  have c: "c \<noteq> []" and s: "sorted_wrt (<) (ids c)" and h: "ev_event_id (hd c) \<noteq> 0"
    using assms by (simp_all add: chunk_valid_def chunk_ok_def ids_increase_iff)
  show le: "ev_event_id (hd c) \<le> ev_event_id (last c)"
    using s c by (cases c) (auto simp: last_in_set less_imp_le)
  show "ev_event_id (hd c) \<noteq> 0" by (rule h)
  show "ev_event_id (last c) \<noteq> 0" using le h by (metis word_le_0_iff)
qed

lemma sealed_block_verifies:
  assumes "chunk_valid c" and "unat i \<le> MAX_BLOCKS"
  shows "block_verify xxh p (block_finalize xxh i p (fill c)) = OK"
proof -
  have c: "c \<noteq> []" "length c \<le> WAL_BLOCK_EVENTS" "ids_increase c" using assms(1) by (simp_all add: chunk_valid_def chunk_ok_def)
  let ?b = "block_finalize xxh i p (fill c)"
  have cnt: "block_count_of ?b = length c" using fill_count [OF c(2)] by simp
  then have "bh_event_count (bl_header (fill c)) \<noteq> 0" using c(1) by auto
  then have "block_header_validate_data (bl_header ?b)"
    using c cnt chunk_hd_last [OF assms(1)] assms(2)
    by (simp add: block_header_validate_data_def fill_def block_header_reset_def not_less)
  then have "block_validate_data ?b"
    using cnt c chunk_hd_last(1) [OF assms(1)] by (simp add: block_validate_data_def fill_def block_header_reset_def not_less)
  moreover have "block_validate_checksums xxh p ?b = OK"
    using cnt finalize_checksums [OF c(2)]
    by (simp add: block_validate_checksums_def compute_block_checksum_def compute_chained_checksum_def)
  ultimately show ?thesis by (simp add: block_verify_def)
qed

lemma sealed_blocks_verify:
  assumes "holds_blocks contents offset (seal xxh i p cs)" and "\<forall>c \<in> set cs. chunk_valid c"
    and "unat i + length cs \<le> MAX_BLOCKS" and "offset + length cs * BLOCK_SIZE \<le> limit"
  shows "verify_blocks xxh contents limit (length cs) offset p = (OK, chain xxh p cs)"
  using assms
proof (induction cs arbitrary: offset i p)
  case (Cons c cs)
  let ?b = "block_finalize xxh i p (fill c)"
  have c: "chunk_valid c" "length c \<le> WAL_BLOCK_EVENTS" using Cons.prems(2) by (simp_all add: chunk_valid_def chunk_ok_def)
  have wf: "block_wf ?b" using c by (simp add: chunk_valid_def chunk_ok_def fill_wf)
  note h = holds_blocks_Cons [OF Cons.prems(1) [unfolded seal.simps] wf]
  have "block_verify xxh p ?b = OK" by (rule sealed_block_verifies [OF c(1)]) (use Cons.prems(3) in simp)
  moreover have "unat (i + 1) + length cs \<le> MAX_BLOCKS"
  proof -
    have "unat (i + 1) \<le> unat i + 1" by (simp add: unat_word_ariths mod_less_eq_dividend [of "unat i + 1"] order_trans [OF _ mod_less_eq_dividend])
    then show ?thesis using Cons.prems(3) by simp
  qed
  ultimately show ?case
    using Cons.IH [OF h(2)] Cons.prems(2,4) h(1) finalize_checksums(1) [OF c(2)] by (simp add: Let_def)
qed simp

lemma checksum_ignores_itself: "header_compute_checksum xxh (h\<lparr>sh_checksum := c\<rparr>) = header_compute_checksum xxh h"
  by (simp add: header_compute_checksum_def header_serialize_def Let_def)

lemma finalized_header_verifies:
  assumes "header_validate_data h"
  shows "header_verify xxh (header_finalize xxh now chained h) = OK"
  using assms
  by (simp add: header_verify_def header_validate_checksum_def header_finalize_def Let_def checksum_ignores_itself header_validate_data_def
    split: if_splits)

definition segment_image :: "hash \<Rightarrow> segment_header \<Rightarrow> wal_event list list \<Rightarrow> byte list \<Rightarrow> bool" where
  "segment_image xxh h cs contents \<longleftrightarrow> take HEADER_SIZE contents = header_serialize h \<and> holds_blocks contents HEADER_SIZE (seal xxh 0 0 cs) \<and>
     HEADER_SIZE + length cs * BLOCK_SIZE \<le> length contents"

lemma deserialize_take: "HEADER_SIZE \<le> length contents \<Longrightarrow> header_deserialize contents = header_deserialize (take HEADER_SIZE contents)"
  by (simp add: header_deserialize_def HEADER_SIZE_def drop_take min_def)

lemma image_header:
  assumes "segment_image xxh h cs contents"
  shows "header_deserialize contents = h"
  using assms deserialize_take [of contents] header_roundtrip [of h] by (simp add: segment_image_def)

lemma image_verifies:
  assumes "segment_image xxh (header_finalize xxh now (chain xxh 0 cs) h) cs contents" and "header_validate_data h"
    and "sh_block_count h = of_nat (length cs)" and "\<forall>c \<in> set cs. chunk_valid c" and "length cs \<le> MAX_BLOCKS"
  shows "verify_full_segment_integrity xxh contents (length contents) = (header_finalize xxh now (chain xxh 0 cs) h, OK)"
proof -
  let ?h = "header_finalize xxh now (chain xxh 0 cs) h"
  have "length cs < 2 ^ 32" using assms(5) by (simp add: MAX_BLOCKS_def)
  then have n: "unat (sh_block_count ?h) = length cs" using assms(3) by (simp add: header_finalize_def Let_def unat_of_nat)
  have "verify_blocks xxh contents (length contents) (length cs) HEADER_SIZE 0 = (OK, chain xxh 0 cs)"
    by (rule sealed_blocks_verify [where i = 0]) (use assms(1,4,5) in \<open>simp_all add: segment_image_def\<close>)
  moreover have "sh_last_chained_checksum ?h = chain xxh 0 cs" by (simp add: header_finalize_def Let_def)
  ultimately show ?thesis
    using image_header [OF assms(1)] finalized_header_verifies [OF assms(2)] n by (simp add: verify_full_segment_integrity_def Let_def)
qed

end
