(* ===== verification/Wal_Write.thy ===== *)
theory Wal_Write
  imports Wal_Segment
begin

text \<open>
  What a writer leaves in its segment: the invariant of the writer while events are appended, and the image that closing it completes.
\<close>

section \<open>Blocks written so far\<close>

definition written :: "hash \<Rightarrow> wal_event list list \<Rightarrow> segment_writer \<Rightarrow> bool" where
  "written xxh cs w \<longleftrightarrow> holds_blocks (sw_file w) HEADER_SIZE (seal xxh 0 0 cs) \<and> (\<forall>c \<in> set cs. chunk_ok c) \<and>
     length (sw_file w) = HEADER_SIZE + sw_num_blocks w * BLOCK_SIZE \<and> sw_segment_size w = length (sw_file w) \<and>
     sw_bytes_written w = HEADER_SIZE + length cs * BLOCK_SIZE \<and> sw_block_index w = of_nat (length cs) \<and> sw_prev_chained w = chain xxh 0 cs \<and>
     sw_fd w \<and> sw_map w = Mapped"

lemma write_at_length: "offset + length bs \<le> length contents \<Longrightarrow> length (write_at offset bs contents) = length contents"
  by (simp add: write_at_def)

lemma holds_blocks_write:
  assumes "holds_blocks contents offset bs" and "\<forall>b \<in> set bs. block_wf b" and "offset + length bs * BLOCK_SIZE \<le> length contents"
  shows "holds_blocks (write_at (offset + length bs * BLOCK_SIZE) (block_serialize b) contents) offset (bs @ [b])"
proof -
  obtain rest where r: "drop offset contents = concat (map block_serialize bs) @ rest" using assms(1) by (auto simp: holds_blocks_def)
  have l: "length (concat (map block_serialize bs)) = length bs * BLOCK_SIZE" using blocks_length assms(2) by blast
  let ?k = "offset + length bs * BLOCK_SIZE"
  have "drop offset (take ?k contents) = take (length bs * BLOCK_SIZE) (drop offset contents)" by (simp add: drop_take)
  also have "\<dots> = concat (map block_serialize bs)" unfolding r using l by simp
  finally have "drop offset (write_at ?k (block_serialize b) contents) = concat (map block_serialize bs) @ block_serialize b @ drop (?k + length (block_serialize b)) contents"
    using assms(3) by (simp add: write_at_def)
  then show ?thesis by (auto simp: holds_blocks_def)
qed

text \<open>Finalizing a block overwrites its index and its checksums, so a block that was finalized before and read back can be filled on.\<close>

definition unsealed :: "wal_block \<Rightarrow> wal_block" where
  "unsealed b = b\<lparr>bl_header := (bl_header b)\<lparr>bh_block_checksum := 0, bh_chained_checksum := 0, bh_checksum := 0, bh_block_index := 0\<rparr>\<rparr>"

lemma block_finalize_unsealed: "block_finalize xxh i p (unsealed b) = block_finalize xxh i p b"
  by (simp add: block_finalize_def block_header_finalize_def unsealed_def Let_def block_header_compute_checksum_def block_header_bytes_def)

lemma unsealed_append: "unsealed (append_to_block ev b) = append_to_block ev (unsealed b)"
  by (simp add: unsealed_def append_to_block_def Let_def)

lemma unsealed_fill: "unsealed (fill c) = fill c" "unsealed (block_finalize xxh i p (fill c)) = fill c"
  by (simp_all add: unsealed_def fill_def block_header_reset_def block_finalize_def block_header_finalize_def Let_def)

lemma unsealed_count: "bh_event_count (bl_header (unsealed b)) = bh_event_count (bl_header b)"
  by (simp add: unsealed_def)

lemma write_block_written:
  assumes "written xxh cs w" and "unsealed (sw_block w) = fill c" and "chunk_ok c" and "length cs < sw_num_blocks w"
  shows "\<exists>w'. write_block xxh w = Some (w', OK) \<and> written xxh (cs @ [c]) w' \<and> sw_block w' = wal_block_reset \<and>
    sw_header w' = (sw_header w)\<lparr>sh_block_count := of_nat (Suc (length cs))\<rparr> \<and> sw_num_blocks w' = sw_num_blocks w \<and>
    take HEADER_SIZE (sw_file w') = take HEADER_SIZE (sw_file w)"
proof -
  let ?b = "block_finalize xxh (sw_block_index w) (sw_prev_chained w) (fill c)"
  have W: "holds_blocks (sw_file w) HEADER_SIZE (seal xxh 0 0 cs)" "\<forall>c \<in> set cs. chunk_ok c" 
    "length (sw_file w) = HEADER_SIZE + sw_num_blocks w * BLOCK_SIZE" "sw_segment_size w = length (sw_file w)"
    "sw_bytes_written w = HEADER_SIZE + length cs * BLOCK_SIZE" "sw_block_index w = of_nat (length cs)" "sw_prev_chained w = chain xxh 0 cs"
    "sw_fd w" "sw_map w = Mapped" using assms(1) by (simp_all add: written_def)
  have c: "length c \<le> WAL_BLOCK_EVENTS" "block_wf ?b" using assms(3) by (simp_all add: chunk_ok_def fill_wf)
  have "Suc (length cs) * BLOCK_SIZE \<le> sw_num_blocks w * BLOCK_SIZE" using assms(4) by (intro mult_le_mono1) simp
  then have room: "sw_bytes_written w + BLOCK_SIZE \<le> length (sw_file w)" using W(3,5) by simp
  have len: "length (block_serialize ?b) = BLOCK_SIZE" using block_serialize_length [OF c(2)] .
  have hb: "holds_blocks (write_at (sw_bytes_written w) (block_serialize ?b) (sw_file w)) HEADER_SIZE (seal xxh 0 0 (cs @ [c]))"
    using holds_blocks_write [OF W(1) seal_wf [OF W(2)], of ?b] room W(5-7) by (simp add: seal_append)
  have hd: "take HEADER_SIZE (write_at (sw_bytes_written w) (block_serialize ?b) (sw_file w)) = take HEADER_SIZE (sw_file w)"
    using W(5) room by (simp add: write_at_def min_def)
  have "written xxh (cs @ [c]) (w\<lparr>sw_file := write_at (sw_bytes_written w) (block_serialize ?b) (sw_file w),
      sw_bytes_written := sw_bytes_written w + BLOCK_SIZE, sw_prev_chained := bh_chained_checksum (bl_header ?b),
      sw_block_index := sw_block_index w + 1, sw_header := h', sw_block := wal_block_reset\<rparr>)" for h'
    using hb W assms(3) finalize_checksums(1) [OF c(1)] write_at_length [of "sw_bytes_written w" "block_serialize ?b" "sw_file w"] room len
    by (simp add: written_def chain_append)
  moreover have "block_finalize xxh (sw_block_index w) (sw_prev_chained w) (sw_block w) = ?b"
    using assms(2) block_finalize_unsealed by metis
  ultimately show ?thesis using room hd W(6) by (simp add: write_block_def Let_def)
qed

section \<open>The invariant of the writer\<close>

definition header_for :: "u32 \<Rightarrow> u64 \<Rightarrow> nat \<Rightarrow> wal_event list \<Rightarrow> segment_header" where
  "header_for idx now k evs = (initial_header idx now)\<lparr>sh_block_count := of_nat k, sh_event_count := of_nat (length evs),
     sh_first_event_id := (if evs = [] then INVALID_EVENT_ID else ev_event_id (hd evs)),
     sh_last_event_id := (if evs = [] then INVALID_EVENT_ID else ev_event_id (last evs))\<rparr>"

text \<open>The fields of the header that closing the segment overwrites.\<close>

definition unclosed :: "segment_header \<Rightarrow> segment_header" where
  "unclosed h = h\<lparr>sh_closed_ts_ns := 0, sh_checksum := 0, sh_last_chained_checksum := 0\<rparr>"

lemma finalize_unclosed: "header_finalize xxh now c (unclosed h) = header_finalize xxh now c h"
  by (simp add: header_finalize_def unclosed_def Let_def header_compute_checksum_def header_serialize_def)

lemma unclosed_simps [simp]:
  "unclosed (header_for idx now k evs) = header_for idx now k evs" "unclosed (header_finalize xxh now c h) = unclosed h"
  "unclosed (h\<lparr>sh_block_count := n\<rparr>) = (unclosed h)\<lparr>sh_block_count := n\<rparr>" "unclosed (append_to_header ev h) = append_to_header ev (unclosed h)"
  by (simp_all add: unclosed_def header_for_def initial_header_def header_reset_def header_finalize_def append_to_header_def Let_def)

definition events_ok :: "wal_event list \<Rightarrow> bool" where
  "events_ok evs \<longleftrightarrow> (\<forall>ev \<in> set evs. event_wf ev \<and> ev_event_id ev \<noteq> INVALID_EVENT_ID)"

definition writer_inv :: "hash \<Rightarrow> u32 \<Rightarrow> u64 \<Rightarrow> wal_event list list \<Rightarrow> wal_event list \<Rightarrow> segment_writer \<Rightarrow> bool" where
  "writer_inv xxh idx now cs cur w \<longleftrightarrow> written xxh cs w \<and> unsealed (sw_block w) = fill cur \<and> length cur < WAL_BLOCK_EVENTS \<and>
     (\<forall>c \<in> set cs. length c = WAL_BLOCK_EVENTS) \<and> events_ok (concat cs @ cur) \<and>
     (\<exists>k. unclosed (sw_header w) = header_for idx now k (concat cs @ cur) \<and> (cur = [] \<longrightarrow> k = length cs))"

lemma append_fill:
  assumes "length cur < WAL_BLOCK_EVENTS"
  shows "append_to_block ev (fill cur) = fill (cur @ [ev])"
proof -
  obtain m where m: "WAL_BLOCK_EVENTS - length cur = Suc m" using assms by (metis Suc_diff_Suc)
  then have "WAL_BLOCK_EVENTS - length (cur @ [ev]) = m" by simp
  moreover have "unat (of_nat (length cur) :: u16) = length cur" using assms by (simp add: count_word)
  moreover have "(of_nat (length cur) :: u16) = 0 \<longleftrightarrow> cur = []" using calculation(2) by (metis length_0_conv unsigned_eq_0_iff)
  moreover have "(cur @ replicate (WAL_BLOCK_EVENTS - length cur) event_reset)[length cur := ev] = (cur @ [ev]) @ replicate m event_reset"
    unfolding m by simp
  ultimately show ?thesis by (auto simp: append_to_block_def fill_def block_header_reset_def Let_def)
qed

lemma append_header:
  assumes "events_ok evs"
  shows "append_to_header ev (header_for idx now k evs) = header_for idx now k (evs @ [ev])"
  using assms by (cases evs) (auto simp: append_to_header_def header_for_def events_ok_def initial_header_def Let_def)

lemma append_inv:
  assumes "writer_inv xxh idx now cs cur w" and "event_wf ev" and "ev_event_id ev \<noteq> INVALID_EVENT_ID" and "length cs < sw_num_blocks w"
  shows "\<exists>w'. sw_append xxh ev w = Some (w', OK) \<and> sw_num_blocks w' = sw_num_blocks w \<and>
    take HEADER_SIZE (sw_file w') = take HEADER_SIZE (sw_file w) \<and>
    (if Suc (length cur) = WAL_BLOCK_EVENTS then writer_inv xxh idx now (cs @ [cur @ [ev]]) [] w' else writer_inv xxh idx now cs (cur @ [ev]) w')"
proof -
  obtain k where I: "written xxh cs w" "unsealed (sw_block w) = fill cur" "length cur < WAL_BLOCK_EVENTS" "\<forall>c \<in> set cs. length c = WAL_BLOCK_EVENTS"
    "unclosed (sw_header w) = header_for idx now k (concat cs @ cur)" "events_ok (concat cs @ cur)"
    using assms(1) by (auto simp: writer_inv_def)
  let ?w1 = "w\<lparr>sw_block := append_to_block ev (sw_block w), sw_header := append_to_header ev (sw_header w)\<rparr>"
  have evs: "events_ok (concat cs @ cur @ [ev])" using I(6) assms(2,3) by (auto simp: events_ok_def)
  have W1: "written xxh cs ?w1" using I(1) by (simp add: written_def)
  have B1: "unsealed (sw_block ?w1) = fill (cur @ [ev])" using I(2,3) append_fill by (simp add: unsealed_append)
  have H1: "unclosed (sw_header ?w1) = header_for idx now k (concat cs @ cur @ [ev])" using I(5) append_header [OF I(6)] by simp
  have cnt: "block_count_of (sw_block w) = length cur" "block_count_of (sw_block ?w1) = Suc (length cur)"
    using I(2,3) B1 fill_count [of cur] fill_count [of "cur @ [ev]"] unsealed_count by (metis less_imp_le_nat, metis Suc_leI length_append_singleton)
  have step: "sw_append xxh ev w = (if Suc (length cur) = WAL_BLOCK_EVENTS then write_block xxh ?w1 else Some (?w1, OK))"
    using I(3) cnt by (simp add: sw_append_def Let_def)
  show ?thesis
  proof (cases "Suc (length cur) = WAL_BLOCK_EVENTS")
    case True
    have "chunk_ok (cur @ [ev])" using True evs by (auto simp: chunk_ok_def events_ok_def)
    then obtain w' where w': "write_block xxh ?w1 = Some (w', OK)" "written xxh (cs @ [cur @ [ev]]) w'" "sw_block w' = wal_block_reset"
      "sw_header w' = (sw_header ?w1)\<lparr>sh_block_count := of_nat (Suc (length cs))\<rparr>" "sw_num_blocks w' = sw_num_blocks w"
      "take HEADER_SIZE (sw_file w') = take HEADER_SIZE (sw_file w)"
      using write_block_written [OF W1 B1] assms(4) by auto
    have "unclosed (sw_header w') = header_for idx now (Suc (length cs)) (concat cs @ cur @ [ev])"
      unfolding w'(4) unclosed_simps(3) H1 by (simp add: header_for_def)
    then have "writer_inv xxh idx now (cs @ [cur @ [ev]]) [] w'"
      using w' I evs True block_events_bounds(1) unsealed_fill(1) [of "[]"] by (simp add: writer_inv_def fill_reset)
    then show ?thesis using step True w' by simp
  next
    case False
    then have "writer_inv xxh idx now cs (cur @ [ev]) ?w1" using W1 B1 H1 I evs by (auto simp: writer_inv_def)
    then show ?thesis using step False by simp
  qed
qed

section \<open>Whole segments\<close>

fun sw_append_all :: "hash \<Rightarrow> wal_event list \<Rightarrow> segment_writer \<Rightarrow> segment_writer option" where
  "sw_append_all xxh [] w = Some w"
| "sw_append_all xxh (ev # evs) w = (case sw_append xxh ev w of None \<Rightarrow> None | Some (w', _) \<Rightarrow> sw_append_all xxh evs w')"

abbreviation io_ok :: "seg_io \<Rightarrow> bool" where
  "io_ok io \<equiv> \<not> io_exists io \<and> io_open io \<and> io_fstat io \<and> io_ftruncate io \<and> io_mmap io \<and> io_pwrite io \<and> io_fdatasync io \<and>
     io_munmap io \<and> io_close io"

lemma concat_full_length: "\<forall>c \<in> set cs. length c = n \<Longrightarrow> length (concat cs) = length cs * n"
  by (induction cs) simp_all

lemma inv_room:
  assumes "writer_inv xxh idx now cs cur w" and "length (concat cs @ cur) < sw_num_blocks w * WAL_BLOCK_EVENTS"
  shows "length cs < sw_num_blocks w"
proof -
  have "length cs * WAL_BLOCK_EVENTS < sw_num_blocks w * WAL_BLOCK_EVENTS"
    using assms concat_full_length [of cs WAL_BLOCK_EVENTS] unfolding writer_inv_def length_append by linarith
  then show ?thesis by simp
qed

lemma append_all_inv:
  assumes "writer_inv xxh idx now cs cur w" and "events_ok evs" and "length (concat cs @ cur @ evs) \<le> sw_num_blocks w * WAL_BLOCK_EVENTS"
  shows "\<exists>w' cs' cur'. sw_append_all xxh evs w = Some w' \<and> writer_inv xxh idx now cs' cur' w' \<and> concat cs' @ cur' = concat cs @ cur @ evs \<and>
    sw_num_blocks w' = sw_num_blocks w \<and> take HEADER_SIZE (sw_file w') = take HEADER_SIZE (sw_file w)"
  using assms
proof (induction evs arbitrary: cs cur w)
  case (Cons ev evs)
  have ev: "event_wf ev" "ev_event_id ev \<noteq> INVALID_EVENT_ID" "events_ok evs" using Cons.prems(2) by (simp_all add: events_ok_def)
  have "length cs < sw_num_blocks w" using Cons.prems(3) by (intro inv_room [OF Cons.prems(1)]) simp
  from append_inv [OF Cons.prems(1) ev(1,2) this] obtain w1 where w1: "sw_append xxh ev w = Some (w1, OK)" "sw_num_blocks w1 = sw_num_blocks w"
    "take HEADER_SIZE (sw_file w1) = take HEADER_SIZE (sw_file w)"
    and inv: "if Suc (length cur) = WAL_BLOCK_EVENTS then writer_inv xxh idx now (cs @ [cur @ [ev]]) [] w1 else writer_inv xxh idx now cs (cur @ [ev]) w1"
    by blast
  obtain cs1 cur1 where c1: "writer_inv xxh idx now cs1 cur1 w1" "concat cs1 @ cur1 = concat cs @ cur @ [ev]"
    using inv by (cases "Suc (length cur) = WAL_BLOCK_EVENTS") auto
  then have all: "concat cs1 @ cur1 @ evs = concat cs @ cur @ ev # evs" by (metis append.assoc append_Cons append_Nil)
  have "length (concat cs1 @ cur1 @ evs) \<le> sw_num_blocks w1 * WAL_BLOCK_EVENTS" using Cons.prems(3) w1(2) unfolding all by simp
  from Cons.IH [OF c1(1) ev(3) this] w1 all show ?case by auto
qed auto

lemma open_new_inv:
  assumes "io_ok io"
  shows "\<exists>w. open_new_segment io now idx (SegmentWriter_init n contents) = (w, OK) \<and> writer_inv xxh idx now [] [] w \<and> sw_num_blocks w = clamp_blocks n \<and>
    take HEADER_SIZE (sw_file w) = header_serialize (initial_header idx now)"
proof -
  have 1: "header_for idx now 0 [] = initial_header idx now" by (simp add: header_for_def initial_header_def header_reset_def)
  have 2: "length (write_at 0 (header_serialize h) (replicate (HEADER_SIZE + k) 0)) = HEADER_SIZE + k" for h k
    by (simp add: write_at_def)
  show ?thesis using assms block_events_bounds(1)
    by (simp add: open_new_segment_def SegmentWriter_init_def Let_def writer_inv_def written_def holds_blocks_def events_ok_def fill_reset 1 [symmetric] 2
      write_at_def unsealed_fill(1) [of "[]", unfolded fill_reset])
qed

definition last_chunk :: "wal_event list \<Rightarrow> wal_event list list" where
  "last_chunk cur = (if cur = [] then [] else [cur])"

lemma flush_written:
  assumes "writer_inv xxh idx now cs cur w" and "cur \<noteq> [] \<Longrightarrow> length cs < sw_num_blocks w"
  shows "\<exists>w'. flush_partial xxh w = Some (w', OK) \<and> written xxh (cs @ last_chunk cur) w' \<and> sw_num_blocks w' = sw_num_blocks w \<and>
    unclosed (sw_header w') = header_for idx now (length (cs @ last_chunk cur)) (concat cs @ cur)"
proof -
  obtain k where I: "written xxh cs w" "unsealed (sw_block w) = fill cur" "length cur < WAL_BLOCK_EVENTS" "events_ok (concat cs @ cur)"
    "unclosed (sw_header w) = header_for idx now k (concat cs @ cur)" "cur = [] \<longrightarrow> k = length cs" using assms(1) by (auto simp: writer_inv_def)
  have cnt: "block_count_of (sw_block w) = length cur" using fill_count [of cur] I(2,3) unsealed_count by (metis less_imp_le_nat)
  show ?thesis
  proof (cases "cur = []")
    case True
    then show ?thesis using I cnt by (simp add: flush_partial_def last_chunk_def)
  next
    case False
    have "chunk_ok cur" using False I by (auto simp: chunk_ok_def events_ok_def)
    from write_block_written [OF I(1,2) this] assms(2) False obtain w' where w': "write_block xxh w = Some (w', OK)" "written xxh (cs @ [cur]) w'"
      "sw_header w' = (sw_header w)\<lparr>sh_block_count := of_nat (Suc (length cs))\<rparr>" "sw_num_blocks w' = sw_num_blocks w" by blast
    have "unclosed (sw_header w') = header_for idx now (Suc (length cs)) (concat cs @ cur)"
      unfolding w'(3) unclosed_simps(3) I(5) by (simp add: header_for_def)
    then show ?thesis using w' cnt False by (simp add: flush_partial_def last_chunk_def)
  qed
qed

lemma close_image:
  assumes "writer_inv xxh idx now cs cur w" and "cur \<noteq> [] \<Longrightarrow> length cs < sw_num_blocks w" and "io_ok io"
  shows "\<exists>w'. close_segment xxh io now' sync w = Some (w', OK) \<and> sw_fd w' = False \<and> length (sw_file w') = HEADER_SIZE + sw_num_blocks w * BLOCK_SIZE \<and>
    segment_image xxh (header_finalize xxh now' (chain xxh 0 (cs @ last_chunk cur)) (header_for idx now (length (cs @ last_chunk cur)) (concat cs @ cur)))
      (cs @ last_chunk cur) (sw_file w')"
proof -
  let ?cs = "cs @ last_chunk cur"
  let ?h = "header_finalize xxh now' (chain xxh 0 ?cs) (header_for idx now (length ?cs) (concat cs @ cur))"
  obtain w1 where w1: "flush_partial xxh w = Some (w1, OK)" "written xxh ?cs w1" "sw_num_blocks w1 = sw_num_blocks w"
    "unclosed (sw_header w1) = header_for idx now (length ?cs) (concat cs @ cur)" using flush_written [OF assms(1,2)] by blast
  have h: "header_finalize xxh now' (chain xxh 0 ?cs) (sw_header w1) = ?h" using w1(4) finalize_unclosed by metis
  have W: "holds_blocks (sw_file w1) HEADER_SIZE (seal xxh 0 0 ?cs)" "length (sw_file w1) = HEADER_SIZE + sw_num_blocks w1 * BLOCK_SIZE"
    "sw_prev_chained w1 = chain xxh 0 ?cs" "sw_fd w1" "\<forall>c \<in> set ?cs. chunk_ok c" using w1(2) by (simp_all add: written_def)
  obtain rest where "drop HEADER_SIZE (sw_file w1) = concat (map block_serialize (seal xxh 0 0 ?cs)) @ rest" using W(1) by (auto simp: holds_blocks_def)
  then have "length (concat (map block_serialize (seal xxh 0 0 ?cs))) \<le> sw_num_blocks w1 * BLOCK_SIZE"
    using W(2) by (metis add_diff_cancel_left' le_add1 length_append length_drop)
  then have fits: "length ?cs * BLOCK_SIZE \<le> sw_num_blocks w1 * BLOCK_SIZE" using blocks_length [OF seal_wf [OF W(5)]] by simp
  have img: "segment_image xxh ?h ?cs (write_at 0 (header_serialize ?h) (sw_file w1))"
    using W fits by (simp add: segment_image_def write_at_def holds_blocks_def)
  have "close_segment xxh io now' sync w = Some (w1\<lparr>sw_header := ?h, sw_file := write_at 0 (header_serialize ?h) (sw_file w1), sw_map := Unmapped, sw_fd := False\<rparr>, OK)"
    using assms(3) w1(1) W(3,4) by (simp add: close_segment_def finalize_segment_header_def Let_def h)
  then show ?thesis using img W(2) w1(3) by (simp add: write_at_def)
qed

section \<open>Reopening a closed segment\<close>

lemma restore_scan_blocks:
  assumes "holds_blocks contents offset (seal xxh i p (cs @ last_chunk cur))" and "\<forall>c \<in> set cs. chunk_ok c \<and> length c = WAL_BLOCK_EVENTS"
    and "\<forall>ev \<in> set cur. event_wf ev" and "length cur < WAL_BLOCK_EVENTS" and "offset + length (cs @ last_chunk cur) * BLOCK_SIZE \<le> limit"
    and "\<forall>b. blk = Some b \<longrightarrow> block_count_of b = WAL_BLOCK_EVENTS"
  shows "\<exists>blk'. restore_scan contents limit (length (cs @ last_chunk cur)) offset i p blk =
      (offset + length cs * BLOCK_SIZE, i + of_nat (length cs), chain xxh p cs, blk') \<and>
    (if cur = [] then \<forall>b. blk' = Some b \<longrightarrow> block_count_of b = WAL_BLOCK_EVENTS
     else blk' = Some (block_finalize xxh (i + of_nat (length cs)) (chain xxh p cs) (fill cur)))"
  using assms
proof (induction cs arbitrary: offset i p blk)
  case Nil
  show ?case
  proof (cases "cur = []")
    case True
    then show ?thesis using Nil.prems by (simp add: last_chunk_def)
  next
    case False
    let ?b = "block_finalize xxh i p (fill cur)"
    have wf: "block_wf ?b" using Nil.prems(3,4) by (simp add: fill_wf)
    have d: "block_deserialize (field offset BLOCK_SIZE contents) = ?b"
      using holds_blocks_Cons(1) [OF _ wf, of contents offset "[]"] Nil.prems(1) False by (simp add: last_chunk_def)
    have "block_count_of ?b = length cur" using fill_count [of cur] Nil.prems(4) by simp
    then show ?thesis using d Nil.prems(4,5) False by (simp add: last_chunk_def Let_def)
  qed
next
  case (Cons c cs)
  let ?b = "block_finalize xxh i p (fill c)"
  have c: "chunk_ok c" "length c = WAL_BLOCK_EVENTS" using Cons.prems(2) by simp_all
  have wf: "block_wf ?b" using c by (simp add: chunk_ok_def fill_wf)
  note h = holds_blocks_Cons [OF Cons.prems(1) [unfolded append_Cons seal.simps] wf]
  have cnt: "block_count_of ?b = WAL_BLOCK_EVENTS" using fill_count [of c] c by simp
  have ch: "bh_chained_checksum (bl_header ?b) = xxh (chunk_bytes c) p" using finalize_checksums(1) [of c] c by simp
  have fit: "offset + BLOCK_SIZE \<le> limit" using Cons.prems(5) by simp
  have IH: "\<exists>blk'. restore_scan contents limit (length (cs @ last_chunk cur)) (offset + BLOCK_SIZE) (i + 1) (xxh (chunk_bytes c) p) (Some ?b) =
      (offset + BLOCK_SIZE + length cs * BLOCK_SIZE, i + 1 + of_nat (length cs), chain xxh (xxh (chunk_bytes c) p) cs, blk') \<and>
    (if cur = [] then \<forall>b. blk' = Some b \<longrightarrow> block_count_of b = WAL_BLOCK_EVENTS
     else blk' = Some (block_finalize xxh (i + 1 + of_nat (length cs)) (chain xxh (xxh (chunk_bytes c) p) cs) (fill cur)))"
    by (rule Cons.IH) (use Cons.prems h(2) cnt in simp_all)
  have step: "restore_scan contents limit (length ((c # cs) @ last_chunk cur)) offset i p blk =
      restore_scan contents limit (length (cs @ last_chunk cur)) (offset + BLOCK_SIZE) (i + 1) (xxh (chunk_bytes c) p) (Some ?b)"
    using fit h(1) cnt ch by (simp add: Let_def)
  have e: "offset + BLOCK_SIZE + length cs * BLOCK_SIZE = offset + length (c # cs) * BLOCK_SIZE" "i + 1 + of_nat (length cs) = i + of_nat (length (c # cs))"
    by simp_all
  show ?case using IH unfolding step e chain.simps .
qed

lemma open_existing_inv:
  assumes img: "segment_image xxh (header_finalize xxh now' (chain xxh 0 (cs @ last_chunk cur)) (header_for idx now (length (cs @ last_chunk cur)) (concat cs @ cur)))
      (cs @ last_chunk cur) contents"
    and full: "\<forall>c \<in> set cs. length c = WAL_BLOCK_EVENTS" and cur: "length cur < WAL_BLOCK_EVENTS" and evs: "events_ok (concat cs @ cur)"
    and valid: "\<forall>c \<in> set (cs @ last_chunk cur). chunk_valid c" and len: "length contents = HEADER_SIZE + clamp_blocks n * BLOCK_SIZE"
    and io: "io_open io" "io_fstat io" "io_mmap io"
  shows "\<exists>w. open_existing_segment xxh io (SegmentWriter_init n contents) = (w, OK) \<and> writer_inv xxh idx now cs cur w \<and> sw_num_blocks w = clamp_blocks n"
proof -
  let ?cs = "cs @ last_chunk cur" and ?g = "header_for idx now (length (cs @ last_chunk cur)) (concat cs @ cur)"
  let ?h = "header_finalize xxh now' (chain xxh 0 ?cs) ?g"
  have "length ?cs * BLOCK_SIZE \<le> clamp_blocks n * BLOCK_SIZE" using img len by (simp add: segment_image_def)
  then have "length ?cs \<le> clamp_blocks n" using block_events_bounds(3) by simp
  then have cb: "length ?cs \<le> MAX_BLOCKS" by (simp add: clamp_blocks_def MIN_BLOCKS_def MAX_BLOCKS_def)
  have hv: "header_validate_data ?g"
    by (simp add: header_validate_data_def header_for_def initial_header_def HEADER_SIZE_def)
  have v: "verify_full_segment_integrity xxh contents (length contents) = (?h, OK)"
    by (rule image_verifies [OF img hv]) (use valid cb in \<open>simp_all add: header_for_def\<close>)
  have bc: "sh_block_count ?h = of_nat (length ?cs)" by (simp add: header_finalize_def header_for_def Let_def)
  have n: "unat (sh_block_count ?h) = length ?cs" unfolding bc unat_of_nat using cb by (simp add: MAX_BLOCKS_def)
  obtain blk where R: "restore_scan contents (length contents) (length ?cs) HEADER_SIZE 0 0 None =
      (HEADER_SIZE + length cs * BLOCK_SIZE, 0 + of_nat (length cs), chain xxh 0 cs, blk)"
    and B: "if cur = [] then \<forall>b. blk = Some b \<longrightarrow> block_count_of b = WAL_BLOCK_EVENTS
      else blk = Some (block_finalize xxh (0 + of_nat (length cs)) (chain xxh 0 cs) (fill cur))"
    using restore_scan_blocks [of contents HEADER_SIZE xxh 0 0 cs cur "length contents" None] img full cur evs valid
    by (auto simp: segment_image_def chunk_valid_def events_ok_def)
  define w where "w = restore_append_position ((SegmentWriter_init n contents)\<lparr>sw_segment_size := length contents, sw_fd := True, sw_map := Mapped, sw_header := ?h\<rparr>)"
  have w: "w = (SegmentWriter_init n contents)\<lparr>sw_segment_size := length contents, sw_fd := True, sw_map := Mapped, sw_header := ?h,
      sw_block_index := of_nat (length cs), sw_prev_chained := chain xxh 0 cs, sw_bytes_written := HEADER_SIZE + length cs * BLOCK_SIZE,
      sw_block := (if cur = [] then wal_block_reset else block_finalize xxh (of_nat (length cs)) (chain xxh 0 cs) (fill cur))\<rparr>"
  proof (cases "cur = []")
    case True
    then show ?thesis using R n B by (cases blk) (simp_all add: w_def restore_append_position_def SegmentWriter_init_def)
  next
    case False
    then show ?thesis using B R n cur fill_count [of cur] by (simp add: w_def restore_append_position_def SegmentWriter_init_def)
  qed
  have "holds_blocks contents HEADER_SIZE (seal xxh 0 0 cs)"
    using img by (cases "cur = []") (auto simp: segment_image_def last_chunk_def seal_append holds_blocks_def)
  then have "written xxh cs w" using valid len by (simp add: w written_def SegmentWriter_init_def chunk_valid_def)
  moreover have "unsealed (sw_block w) = fill cur"
    using unsealed_fill(1) [of "[]"] by (simp add: w fill_reset unsealed_fill)
  moreover have "unclosed (sw_header w) = ?g" by (simp add: w)
  ultimately have "writer_inv xxh idx now cs cur w" using full cur evs by (auto simp: writer_inv_def last_chunk_def)
  moreover have "open_existing_segment xxh io (SegmentWriter_init n contents) = (w, OK)"
    using io len v by (simp add: open_existing_segment_def SegmentWriter_init_def Let_def w_def)
  moreover have "sw_num_blocks w = clamp_blocks n" by (simp add: w SegmentWriter_init_def)
  ultimately show ?thesis by blast
qed

end
