(* ===== verification/Wal_Recorder.thy ===== *)
theory Wal_Recorder
  imports Wal_Meta Wal_Write Bounded_Queue
begin

text \<open>
  The recorder of the log (wal/recorder/manager.hpp) with its background workers: the preparer that opens segments ahead of time
  (worker/segment_preparer.hpp), the maintainer that closes and removes them (worker/segment_maintainer.hpp) and the metadata coordinator. The rings between the
  threads are bounded lists; an operation that would wait for one of them is \<open>None\<close>, as is a write outside a mapping. The directory holds the current contents of all
  files, also of the mapped ones. The results of the system calls, by file, and the clock are in the argument of type \<open>wal_env\<close>.
\<close>

section \<open>State\<close>

record wal_env =
  we_io :: "string \<Rightarrow> seg_io"
  we_now :: u64
  we_remove :: "string \<Rightarrow> bool"
  we_page_size :: nat
  we_meta_open :: bool
  we_meta :: meta_io

type_synonym named_writer = "string \<times> segment_writer"

datatype rotation = Appending | Planned | Handed_Over

record recorder =
  rc_num_blocks :: nat
  rc_dir :: wal_dir
  rc_wals :: "string list"
  rc_lz4s :: "string list"
  rc_writer :: "named_writer option"
  rc_rotation :: rotation
  rc_meta_state :: meta_state
  rc_meta :: meta_store
  rc_wal_files :: "string list"
  rc_lz4_files :: "string list"
  rc_persist :: "named_writer list"
  rc_freeze :: "string list"
  rc_free :: "string list"
  rc_prepared :: "named_writer list"
  rc_next_index :: nat
  rc_running :: bool

text \<open>The usable capacities of the rings are one less than their sizes in wal/constants.hpp.\<close>

definition PERSIST_CAPACITY :: nat where "PERSIST_CAPACITY = 127"
definition HOT_CAPACITY :: nat where "HOT_CAPACITY = 127"
definition COLD_CAPACITY :: nat where "COLD_CAPACITY = 511"
definition PREPARE_CAPACITY :: nat where "PREPARE_CAPACITY = 3"

definition RecorderManager_init :: "nat \<Rightarrow> wal_dir \<Rightarrow> byte list option \<Rightarrow> recorder" where
  "RecorderManager_init num_blocks d meta_file =
     \<lparr>rc_num_blocks = clamp_blocks num_blocks, rc_dir = d, rc_wals = [], rc_lz4s = [], rc_writer = None, rc_rotation = Appending, rc_meta_state = MetaState_init,
      rc_meta = MetaStore_init meta_file, rc_wal_files = [], rc_lz4_files = [], rc_persist = [], rc_freeze = [], rc_free = [], rc_prepared = [],
      rc_next_index = 0, rc_running = False\<rparr>"

section \<open>Files\<close>

text \<open>Opening a new segment file, and the destructor of a writer, with their effect on the directory.\<close>

definition open_new_file :: "wal_env \<Rightarrow> nat \<Rightarrow> nat \<Rightarrow> wal_dir \<Rightarrow> segment_writer \<times> wal_status \<times> wal_dir" where
  "open_new_file env num_blocks segment_index d =
     (let name = segment_name segment_index in
      case open_new_segment ((we_io env name)\<lparr>io_exists := name \<in> set (map fst d)\<rparr>) (we_now env) (of_nat segment_index) (SegmentWriter_init num_blocks []) of
        (w, status) \<Rightarrow> (w, status, if sw_fd w then put_file name (sw_file w) d else d))"

definition release_writer :: "hash \<Rightarrow> wal_env \<Rightarrow> named_writer \<Rightarrow> wal_dir \<Rightarrow> wal_dir option" where
  "release_writer xxh env nw d =
     (case nw of (name, w) \<Rightarrow>
        if sw_fd w \<and> sw_map w \<noteq> Unmapped
        then (case force_close_or_remove_if_needed xxh (we_io env name) (we_now env) w of
                None \<Rightarrow> None
              | Some (w', _) \<Rightarrow> Some (if sw_unlinked w' then remove_file name d else put_file name (sw_file w') d))
        else Some d)"

section \<open>Start\<close>

definition pop_last_scanned_segment :: "wal_env \<Rightarrow> string \<Rightarrow> wal_dir \<Rightarrow> wal_dir" where
  "pop_last_scanned_segment env name d = (if we_remove env name then remove_file name d else d)"

text \<open>The two backward loops work on the reversed list of the scanned files, whose head is the newest.\<close>

fun recover_from_headers :: "hash \<Rightarrow> wal_env \<Rightarrow> string list \<Rightarrow> wal_dir \<Rightarrow> meta_state \<Rightarrow> bool \<times> meta_state \<times> string list \<times> wal_dir" where
  "recover_from_headers xxh env [] d ms = (False, ms, [], d)"
| "recover_from_headers xxh env (name # rest) d ms =
     (case (case map_of d name of None \<Rightarrow> (header_reset, OPEN_FAILED) | Some contents \<Rightarrow> read_segment_header xxh contents) of
        (h, OK) \<Rightarrow> (True, \<lparr>ms_last_segment_index = sh_segment_index h, ms_last_offset = header_segment_size h, ms_last_event_id = sh_last_event_id h\<rparr>, name # rest, d)
      | _ \<Rightarrow> recover_from_headers xxh env rest (pop_last_scanned_segment env name d) ms)"

definition recover_last_state_when_meta_is_missing :: "hash \<Rightarrow> wal_env \<Rightarrow> recorder \<Rightarrow> recorder \<times> bool" where
  "recover_last_state_when_meta_is_missing xxh env r =
     (case recover_from_headers xxh env (rev (rc_wals r)) (rc_dir r) (rc_meta_state r) of
        (found, ms, wals, d) \<Rightarrow> (r\<lparr>rc_meta_state := ms, rc_wals := rev wals, rc_dir := d\<rparr>, found))"

definition recover_last_state :: "hash \<Rightarrow> wal_env \<Rightarrow> recorder \<Rightarrow> recorder \<times> bool" where
  "recover_last_state xxh env r =
     (case meta_load (we_meta_open env) (rc_meta r) of
        (store, loaded) \<Rightarrow>
          if loaded then
            (let r1 = r\<lparr>rc_meta := store, rc_meta_state := get_state store\<rparr> in
             if rc_wals r1 = [] \<or> last (rc_wals r1) = segment_name (unat (ms_last_segment_index (rc_meta_state r1))) then (r1, True)
             else recover_last_state_when_meta_is_missing xxh env r1)
          else recover_last_state_when_meta_is_missing xxh env (r\<lparr>rc_meta := store\<rparr>))"

definition prepare_first_segment_from_scratch :: "hash \<Rightarrow> wal_env \<Rightarrow> recorder \<Rightarrow> (recorder \<times> wal_status) option" where
  "prepare_first_segment_from_scratch xxh env r =
     (case open_new_file env (rc_num_blocks r) 0 (rc_dir r) of
        (w, status, d) \<Rightarrow>
          if status \<noteq> OK
          then map_option (\<lambda>d'. (r\<lparr>rc_meta_state := MetaState_init, rc_writer := None, rc_dir := d'\<rparr>, status)) (release_writer xxh env (segment_name 0, w) d)
          else Some (r\<lparr>rc_meta_state := MetaState_init, rc_writer := Some (segment_name 0, w), rc_dir := d, rc_meta := meta_update MetaState_init (rc_meta r)\<rparr>, OK))"

definition open_existing_file :: "hash \<Rightarrow> wal_env \<Rightarrow> nat \<Rightarrow> string \<Rightarrow> wal_dir \<Rightarrow> segment_writer \<times> wal_status" where
  "open_existing_file xxh env num_blocks name d =
     (case map_of d name of
        None \<Rightarrow> (SegmentWriter_init num_blocks [], OPEN_FAILED)
      | Some contents \<Rightarrow> open_existing_segment xxh (we_io env name) (SegmentWriter_init num_blocks contents))"

fun open_last_scanned :: "hash \<Rightarrow> wal_env \<Rightarrow> nat \<Rightarrow> string list \<Rightarrow> wal_dir \<Rightarrow> (named_writer option \<times> string list \<times> wal_dir) option" where
  "open_last_scanned xxh env num_blocks [] d = Some (None, [], d)"
| "open_last_scanned xxh env num_blocks (name # rest) d =
     (case open_existing_file xxh env num_blocks name d of
        (w, OK) \<Rightarrow> Some (Some (name, w), name # rest, d)
      | (w, _) \<Rightarrow>
          (case release_writer xxh env (name, w) (pop_last_scanned_segment env name d) of
             None \<Rightarrow> None
           | Some d' \<Rightarrow> open_last_scanned xxh env num_blocks rest d'))"

definition writer_meta :: "segment_writer \<Rightarrow> meta_state" where
  "writer_meta w = \<lparr>ms_last_segment_index = sh_segment_index (sw_header w), ms_last_offset = of_nat (sw_bytes_written w), ms_last_event_id = sh_last_event_id (sw_header w)\<rparr>"

definition prepare_first_segment_from_scanned :: "hash \<Rightarrow> wal_env \<Rightarrow> recorder \<Rightarrow> (recorder \<times> wal_status) option" where
  "prepare_first_segment_from_scanned xxh env r =
     (case open_last_scanned xxh env (rc_num_blocks r) (rev (rc_wals r)) (rc_dir r) of
        None \<Rightarrow> None
      | Some (None, wals, d) \<Rightarrow> Some (r\<lparr>rc_wals := rev wals, rc_dir := d, rc_writer := None\<rparr>, SEGMENT_NOT_FOUND)
      | Some (Some (name, w), wals, d) \<Rightarrow>
          Some (r\<lparr>rc_wals := rev wals, rc_dir := d, rc_writer := Some (name, w), rc_meta_state := writer_meta w, rc_meta := meta_update (writer_meta w) (rc_meta r)\<rparr>, OK))"

definition restore_or_create_active_segment :: "hash \<Rightarrow> wal_env \<Rightarrow> recorder \<Rightarrow> (recorder \<times> wal_status) option" where
  "restore_or_create_active_segment xxh env r =
     (case recover_last_state xxh env r of
        (r1, True) \<Rightarrow>
          (case prepare_first_segment_from_scanned xxh env r1 of
             None \<Rightarrow> None
           | Some (r2, status) \<Rightarrow> if status \<noteq> OK then prepare_first_segment_from_scratch xxh env r2 else Some (r2, status))
      | (r1, False) \<Rightarrow> prepare_first_segment_from_scratch xxh env r1)"

definition scan_segments :: "recorder \<Rightarrow> recorder" where
  "scan_segments r = r\<lparr>rc_wals := wal_names (rc_dir r), rc_lz4s := lz4_names (rc_dir r)\<rparr>"

fun push_all :: "nat \<Rightarrow> 'a list \<Rightarrow> 'a list \<Rightarrow> 'a list" where
  "push_all cap q [] = q"
| "push_all cap q (x # xs) = push_all cap (fst (bq_push cap q x)) xs"

definition recorder_initialize :: "hash \<Rightarrow> wal_env \<Rightarrow> bool \<Rightarrow> recorder \<Rightarrow> (recorder \<times> wal_status) option" where
  "recorder_initialize xxh env dir_ok r =
     (if \<not> dir_ok then Some (r, DIRECTORY_NOT_FOUND)
      else case restore_or_create_active_segment xxh env (scan_segments r) of
        None \<Rightarrow> None
      | Some (r1, status) \<Rightarrow>
          Some (if status \<noteq> OK then (r1, status)
                else (r1\<lparr>rc_wal_files := push_all HOT_CAPACITY (rc_wal_files r1) (rc_wals r1), rc_wals := [],
                         rc_lz4_files := push_all COLD_CAPACITY (rc_lz4_files r1) (rc_lz4s r1), rc_lz4s := [],
                         rc_next_index := unat (ms_last_segment_index (rc_meta_state r1) + 1), rc_running := True\<rparr>, OK)))"

section \<open>Appending and rotation\<close>

definition plan_rotation :: "recorder \<Rightarrow> recorder option" where
  "plan_rotation r =
     (case rc_writer r of
        None \<Rightarrow> None
      | Some (name, w) \<Rightarrow>
          if length (rc_wal_files r) \<ge> HOT_CAPACITY
          then (if length (rc_free r) < COLD_CAPACITY
                then Some (r\<lparr>rc_free := rc_free r @ [hd (rc_wal_files r)], rc_wal_files := tl (rc_wal_files r) @ [name], rc_rotation := Planned\<rparr>)
                else None)
          else Some (r\<lparr>rc_wal_files := rc_wal_files r @ [name], rc_rotation := Planned\<rparr>))"

definition persist_current_segment :: "recorder \<Rightarrow> recorder option" where
  "persist_current_segment r =
     (case rc_writer r of
        None \<Rightarrow> None
      | Some nw \<Rightarrow> if length (rc_persist r) < PERSIST_CAPACITY
          then Some (r\<lparr>rc_persist := rc_persist r @ [nw], rc_writer := None, rc_rotation := Handed_Over\<rparr>) else None)"

text \<open>\<^verbatim>\<open>get_next_segment\<close> waits while the preparer runs and has no segment ready.\<close>

definition prepare_next_segment :: "recorder \<Rightarrow> (recorder \<times> wal_status) option" where
  "prepare_next_segment r =
     (if \<not> rc_running r then Some (r\<lparr>rc_writer := None\<rparr>, SEGMENT_NOT_FOUND)
      else case rc_prepared r of
        [] \<Rightarrow> None
      | (name, w) # rest \<Rightarrow>
          (let ms = (rc_meta_state r)\<lparr>ms_last_segment_index := sh_segment_index (sw_header w)\<rparr> in
           Some (r\<lparr>rc_prepared := rest, rc_writer := Some (name, w), rc_meta_state := ms, rc_meta := meta_update ms (rc_meta r), rc_rotation := Appending\<rparr>, OK)))"

definition rotate_segment :: "recorder \<Rightarrow> (recorder \<times> wal_status) option" where
  "rotate_segment r = Option.bind (Option.bind (plan_rotation r) persist_current_segment) prepare_next_segment"

definition append_to_writer :: "hash \<Rightarrow> wal_event \<Rightarrow> recorder \<Rightarrow> (recorder \<times> wal_status) option" where
  "append_to_writer xxh ev r =
     (case rc_writer r of
        None \<Rightarrow> None
      | Some (name, w) \<Rightarrow>
          (case sw_append xxh ev w of
             None \<Rightarrow> None
           | Some (w', status) \<Rightarrow>
               Some (r\<lparr>rc_writer := Some (name, w'), rc_dir := put_file name (sw_file w') (rc_dir r),
                       rc_meta_state := (rc_meta_state r)\<lparr>ms_last_event_id := ev_event_id ev, ms_last_offset := of_nat (sw_bytes_written w')\<rparr>\<rparr>, status)))"

definition recorder_append :: "hash \<Rightarrow> wal_event \<Rightarrow> recorder \<Rightarrow> (recorder \<times> wal_status) option" where
  "recorder_append xxh ev r =
     (case rc_writer r of
        None \<Rightarrow> None
      | Some (name, w) \<Rightarrow>
          if segment_is_full w
          then (case rotate_segment r of
                  None \<Rightarrow> None
                | Some (r1, status) \<Rightarrow> if status \<noteq> OK then Some (r1, status) else append_to_writer xxh ev r1)
          else append_to_writer xxh ev r)"

section \<open>Workers\<close>

text \<open>One round of the preparer: the index is used up also when the file cannot be created.\<close>

definition prepare_one :: "hash \<Rightarrow> wal_env \<Rightarrow> recorder \<Rightarrow> recorder option" where
  "prepare_one xxh env r =
     (if rc_running r \<and> length (rc_prepared r) < PREPARE_CAPACITY
      then let r1 = r\<lparr>rc_next_index := rc_next_index r + 1\<rparr>; name = segment_name (rc_next_index r) in
        case open_new_file env (rc_num_blocks r) (rc_next_index r) (rc_dir r) of
          (w, status, d) \<Rightarrow>
            if status = OK
            then let w' = touch (we_page_size env) w in Some (r1\<lparr>rc_prepared := rc_prepared r @ [(name, w')], rc_dir := put_file name (sw_file w') d\<rparr>)
            else map_option (\<lambda>d'. r1\<lparr>rc_dir := d'\<rparr>) (release_writer xxh env (name, w) d)
      else Some r)"

fun release_all :: "hash \<Rightarrow> wal_env \<Rightarrow> named_writer list \<Rightarrow> wal_dir \<Rightarrow> wal_dir option" where
  "release_all xxh env [] d = Some d"
| "release_all xxh env (nw # nws) d = Option.bind (release_writer xxh env nw d) (release_all xxh env nws)"

definition stop_preparer :: "hash \<Rightarrow> wal_env \<Rightarrow> recorder \<Rightarrow> recorder option" where
  "stop_preparer xxh env r = map_option (\<lambda>d. r\<lparr>rc_running := False, rc_prepared := [], rc_dir := d\<rparr>) (release_all xxh env (rc_prepared r) (rc_dir r))"

definition persist_next_segment :: "hash \<Rightarrow> wal_env \<Rightarrow> recorder \<Rightarrow> recorder option" where
  "persist_next_segment xxh env r =
     (case rc_persist r of
        [] \<Rightarrow> Some r
      | (name, w) # rest \<Rightarrow>
          (case close_segment xxh (we_io env name) (we_now env) True w of
             None \<Rightarrow> None
           | Some (w', status) \<Rightarrow> Some (r\<lparr>rc_persist := rest, rc_dir := put_file name (sw_file w') (rc_dir r)\<rparr>)))"

text \<open>Freezing compresses a file with LZ4, the argument \<open>compress\<close>; the original is removed also when that fails. Nothing is ever pushed to this ring.\<close>

definition freeze_next_segment :: "(byte list \<Rightarrow> byte list option) \<Rightarrow> wal_env \<Rightarrow> recorder \<Rightarrow> recorder" where
  "freeze_next_segment compress env r =
     (case rc_freeze r of
        [] \<Rightarrow> r
      | name # rest \<Rightarrow>
          (let d = (case Option.bind (map_of (rc_dir r) name) compress of None \<Rightarrow> rc_dir r | Some c \<Rightarrow> put_file (name @ ''.lz4'') c (rc_dir r)) in
           r\<lparr>rc_freeze := rest, rc_dir := (if we_remove env name then remove_file name d else d)\<rparr>))"

definition free_next_segment :: "wal_env \<Rightarrow> recorder \<Rightarrow> recorder" where
  "free_next_segment env r =
     (case rc_free r of
        [] \<Rightarrow> r
      | name # rest \<Rightarrow> r\<lparr>rc_free := rest, rc_dir := (if we_remove env name then remove_file name (rc_dir r) else rc_dir r)\<rparr>)"

fun persist_all :: "hash \<Rightarrow> wal_env \<Rightarrow> nat \<Rightarrow> recorder \<Rightarrow> recorder option" where
  "persist_all xxh env 0 r = Some r"
| "persist_all xxh env (Suc n) r = Option.bind (persist_next_segment xxh env r) (persist_all xxh env n)"

definition maintainer_round :: "hash \<Rightarrow> (byte list \<Rightarrow> byte list option) \<Rightarrow> wal_env \<Rightarrow> recorder \<Rightarrow> recorder option" where
  "maintainer_round xxh compress env r = map_option (\<lambda>r1. free_next_segment env (freeze_next_segment compress env r1)) (persist_next_segment xxh env r)"

definition meta_flush_round :: "wal_env \<Rightarrow> recorder \<Rightarrow> recorder" where
  "meta_flush_round env r = r\<lparr>rc_meta := fst (flush_to_disk (we_meta env) (rc_meta r))\<rparr>"

definition recorder_shutdown :: "hash \<Rightarrow> wal_env \<Rightarrow> recorder \<Rightarrow> recorder option" where
  "recorder_shutdown xxh env r =
     Option.bind (persist_current_segment r) (\<lambda>r1.
     Option.bind (persist_all xxh env (length (rc_persist r1)) r1) (\<lambda>r2.
       stop_preparer xxh env (meta_flush_round env (r2\<lparr>rc_meta := meta_update (rc_meta_state r2) (rc_meta r2)\<rparr>))))"

section \<open>Runs\<close>

text \<open>
  The threads of the recorder in any order. The rotation of a full segment takes three steps of the appending thread, each of which may wait for a ring. The runs considered
  here stay within the retention limit and below 10\^8 segments, where the file names begin to repeat.
\<close>

inductive rc_step :: "hash \<Rightarrow> (wal_env \<Rightarrow> bool) \<Rightarrow> recorder \<Rightarrow> wal_event list \<Rightarrow> recorder \<Rightarrow> bool" for xxh :: hash and env_ok :: "wal_env \<Rightarrow> bool" where
  rc_append: "rc_rotation r = Appending \<Longrightarrow> rc_writer r = Some (name, w) \<Longrightarrow> \<not> segment_is_full w \<Longrightarrow> append_to_writer xxh ev r = Some (r', OK) \<Longrightarrow> rc_step xxh env_ok r [ev] r'"
| rc_plan: "rc_rotation r = Appending \<Longrightarrow> rc_writer r = Some (name, w) \<Longrightarrow> segment_is_full w \<Longrightarrow> length (rc_wal_files r) < HOT_CAPACITY \<Longrightarrow>
    plan_rotation r = Some r' \<Longrightarrow> rc_step xxh env_ok r [] r'"
| rc_hand_over: "rc_rotation r = Planned \<Longrightarrow> persist_current_segment r = Some r' \<Longrightarrow> rc_step xxh env_ok r [] r'"
| rc_next: "rc_rotation r = Handed_Over \<Longrightarrow> prepare_next_segment r = Some (r', OK) \<Longrightarrow> rc_step xxh env_ok r [] r'"
| rc_prepare: "env_ok env \<Longrightarrow> rc_next_index r < 10 ^ 8 - 1 \<Longrightarrow> prepare_one xxh env r = Some r' \<Longrightarrow> rc_step xxh env_ok r [] r'"
| rc_maintain: "env_ok env \<Longrightarrow> maintainer_round xxh compress env r = Some r' \<Longrightarrow> rc_step xxh env_ok r [] r'"
| rc_flush: "rc_step xxh env_ok r [] (meta_flush_round env r)"

inductive rc_run :: "hash \<Rightarrow> (wal_env \<Rightarrow> bool) \<Rightarrow> recorder \<Rightarrow> wal_event list \<Rightarrow> recorder \<Rightarrow> bool" for xxh :: hash and env_ok :: "wal_env \<Rightarrow> bool" where
  rc_run_refl: "rc_run xxh env_ok r [] r"
| rc_run_step: "rc_run xxh env_ok r evs r' \<Longrightarrow> rc_step xxh env_ok r' evs' r'' \<Longrightarrow> rc_run xxh env_ok r (evs @ evs') r''"

end
