(* ===== verification/Wal_Read.thy ===== *)
theory Wal_Read
  imports Wal_Segment
begin

text \<open>
  What a reader returns from a segment: its position as a chunk and an index, the events that are still to come, sequential reads and the seek by
  binary search over the block index.
\<close>

section \<open>Positions\<close>

definition reading :: "hash \<Rightarrow> wal_event list list \<Rightarrow> nat \<Rightarrow> nat \<Rightarrow> segment_reader \<Rightarrow> bool" where
  "reading xxh cs k i r \<longleftrightarrow> sr_map r = Mapped \<and> holds_blocks (sr_file r) HEADER_SIZE (seal xxh 0 0 cs) \<and> (\<forall>c \<in> set cs. chunk_ok c) \<and>
     sr_valid_data_size r = HEADER_SIZE + length cs * BLOCK_SIZE \<and> k < length cs \<and> sr_block r = seal xxh 0 0 cs ! k \<and>
     sr_block_offset r = HEADER_SIZE + k * BLOCK_SIZE \<and> sr_event_index r = i \<and> i \<le> length (cs ! k)"

definition remaining :: "wal_event list list \<Rightarrow> nat \<Rightarrow> nat \<Rightarrow> wal_event list" where
  "remaining cs k i = drop i (cs ! k) @ concat (drop (Suc k) cs)"

definition before :: "wal_event list list \<Rightarrow> nat \<Rightarrow> nat \<Rightarrow> wal_event list" where
  "before cs k i = concat (take k cs) @ take i (cs ! k)"

lemma before_remaining: "k < length cs \<Longrightarrow> before cs k i @ remaining cs k i = concat cs"
  by (simp add: before_def remaining_def)
    (metis append.assoc append_take_drop_id concat.simps(2) concat_append id_take_nth_drop)

lemma sealed_chunk:
  assumes "k < length cs" and "\<forall>c \<in> set cs. chunk_ok c"
  shows "block_count_of (seal xxh 0 0 cs ! k) = length (cs ! k)"
    and "take (length (cs ! k)) (bl_events (seal xxh 0 0 cs ! k)) = cs ! k"
    and "i < length (cs ! k) \<Longrightarrow> bl_events (seal xxh 0 0 cs ! k) ! i = cs ! k ! i"
    and "bh_first_event_id (bl_header (seal xxh 0 0 cs ! k)) = ev_event_id (hd (cs ! k))"
    and "bh_last_event_id (bl_header (seal xxh 0 0 cs ! k)) = ev_event_id (last (cs ! k))"
    and "cs ! k \<noteq> []"
proof -
  have c: "chunk_ok (cs ! k)" using assms by simp
  then have l: "length (cs ! k) \<le> WAL_BLOCK_EVENTS" by (simp add: chunk_ok_def)
  show "block_count_of (seal xxh 0 0 cs ! k) = length (cs ! k)" using fill_count [OF l] assms(1) by (simp add: seal_nth)
  show "take (length (cs ! k)) (bl_events (seal xxh 0 0 cs ! k)) = cs ! k" using assms(1) by (simp add: seal_nth)
  show "i < length (cs ! k) \<Longrightarrow> bl_events (seal xxh 0 0 cs ! k) ! i = cs ! k ! i" using assms(1) by (simp add: seal_nth fill_def nth_append)
  show "cs ! k \<noteq> []" using c by (simp add: chunk_ok_def)
  then show "bh_first_event_id (bl_header (seal xxh 0 0 cs ! k)) = ev_event_id (hd (cs ! k))"
    "bh_last_event_id (bl_header (seal xxh 0 0 cs ! k)) = ev_event_id (last (cs ! k))"
    using assms(1) by (simp_all add: seal_nth fill_def)
qed

section \<open>Sequential reads\<close>

text \<open>What a reader keeps of the segment while it moves.\<close>

definition on_segment :: "hash \<Rightarrow> wal_event list list \<Rightarrow> segment_reader \<Rightarrow> bool" where
  "on_segment xxh cs r \<longleftrightarrow> sr_map r = Mapped \<and> holds_blocks (sr_file r) HEADER_SIZE (seal xxh 0 0 cs) \<and> (\<forall>c \<in> set cs. chunk_ok c) \<and>
     sr_valid_data_size r = HEADER_SIZE + length cs * BLOCK_SIZE"

lemma reading_segment: "reading xxh cs k i r \<Longrightarrow> on_segment xxh cs r"
  by (simp add: reading_def on_segment_def)

lemma read_block:
  assumes "on_segment xxh cs r"
  shows "k < length cs \<Longrightarrow> \<exists>r'. read_block_at_offset (HEADER_SIZE + k * BLOCK_SIZE) (r\<lparr>sr_event_index := j, sr_block_offset := n\<rparr>) = (r', OK) \<and>
      reading xxh cs k 0 r' \<and> sr_index r' = sr_index r \<and> sr_index_built r' = sr_index_built r"
    and "length cs \<le> k \<Longrightarrow> snd (read_block_at_offset (HEADER_SIZE + k * BLOCK_SIZE) r) = READ_FAILED"
proof -
  note R = assms [unfolded on_segment_def]
  show "\<exists>r'. read_block_at_offset (HEADER_SIZE + k * BLOCK_SIZE) (r\<lparr>sr_event_index := j, sr_block_offset := n\<rparr>) = (r', OK) \<and>
      reading xxh cs k 0 r' \<and> sr_index r' = sr_index r \<and> sr_index_built r' = sr_index_built r" if k: "k < length cs"
  proof -
    have "Suc k * BLOCK_SIZE \<le> length cs * BLOCK_SIZE" using k by (intro mult_le_mono1) simp
    moreover have "block_deserialize (field (HEADER_SIZE + k * BLOCK_SIZE) BLOCK_SIZE (sr_file r)) = seal xxh 0 0 cs ! k"
      using R k by (intro holds_block_at seal_wf) simp_all
    ultimately show ?thesis using R k by (simp add: read_block_at_offset_def reading_def)
  qed
  show "snd (read_block_at_offset (HEADER_SIZE + k * BLOCK_SIZE) r) = READ_FAILED" if "length cs \<le> k"
  proof -
    have "length cs * BLOCK_SIZE \<le> k * BLOCK_SIZE" using that by (rule mult_le_mono1)
    then have "\<not> HEADER_SIZE + k * BLOCK_SIZE + BLOCK_SIZE \<le> sr_valid_data_size r" using R block_events_bounds(3) by linarith
    then show ?thesis using R by (simp add: read_block_at_offset_def)
  qed
qed

lemma next_reads:
  assumes "reading xxh cs k i r"
  shows "remaining cs k i = [] \<Longrightarrow> snd (sr_next r) = None"
    and "remaining cs k i = ev # rest \<Longrightarrow> \<exists>r' k' i'. sr_next r = (r', Some ev) \<and> reading xxh cs k' i' r' \<and> remaining cs k' i' = rest"
proof -
  note R = assms [unfolded reading_def]
  have seg: "on_segment xxh cs r" using assms by (rule reading_segment)
  have k: "k < length cs" and ok: "\<forall>c \<in> set cs. chunk_ok c" using R by simp_all
  note S = sealed_chunk [OF k ok]
  define off where "off = HEADER_SIZE + Suc k * BLOCK_SIZE"
  have off: "sr_block_offset r + BLOCK_SIZE = off" using R by (simp add: off_def)
  have same: "r = r\<lparr>sr_event_index := i\<rparr>" using R by simp
  show "snd (sr_next r) = None" if e: "remaining cs k i = []"
  proof -
    have i: "length (cs ! k) \<le> i" and "concat (drop (Suc k) cs) = []" using e by (simp_all add: remaining_def)
    then have "drop (Suc k) cs = []"
      using sealed_chunk(6) [OF _ ok] by (cases "Suc k < length cs") (auto simp: Cons_nth_drop_Suc [symmetric])
    then have "length cs \<le> Suc k" by simp
    from read_block(2) [OF _ this, of xxh "r\<lparr>sr_block_offset := off\<rparr>"] seg
    have "snd (read_block_at_offset off (r\<lparr>sr_block_offset := off\<rparr>)) = READ_FAILED" unfolding off_def on_segment_def by simp
    then obtain r1 where "read_block_at_offset off (r\<lparr>sr_block_offset := off\<rparr>) = (r1, READ_FAILED)" by (metis prod.collapse)
    then show ?thesis using i R S(1) unfolding sr_next_def off by simp
  qed
  show "\<exists>r' k' i'. sr_next r = (r', Some ev) \<and> reading xxh cs k' i' r' \<and> remaining cs k' i' = rest" if e: "remaining cs k i = ev # rest"
  proof (cases "i < length (cs ! k)")
    case True
    then have "ev = cs ! k ! i" "rest = remaining cs k (Suc i)"
      using e by (simp_all add: remaining_def Cons_nth_drop_Suc [symmetric])
    moreover have "sr_next r = (r\<lparr>sr_event_index := Suc i\<rparr>, Some (cs ! k ! i))" using True R S by (simp add: sr_next_def)
    moreover have "reading xxh cs k (Suc i) (r\<lparr>sr_event_index := Suc i\<rparr>)" using True R by (simp add: reading_def)
    ultimately show ?thesis by blast
  next
    case False
    then have i: "length (cs ! k) \<le> i" and d: "concat (drop (Suc k) cs) = ev # rest" using e by (simp_all add: remaining_def)
    then have k': "Suc k < length cs" by (cases "Suc k < length cs") simp_all
    obtain r1 where r1: "read_block_at_offset off (r\<lparr>sr_event_index := i, sr_block_offset := off\<rparr>) = (r1, OK)" "reading xxh cs (Suc k) 0 r1"
      using read_block(1) [OF seg k', of off i] unfolding off_def by blast
    have r1': "read_block_at_offset off (r\<lparr>sr_block_offset := off\<rparr>) = (r1, OK)" using r1(1) same by (metis (no_types, lifting))
    note S' = sealed_chunk [OF k' ok]
    have "cs ! Suc k = ev # tl (cs ! Suc k)" and "rest = remaining cs (Suc k) 1"
      using d S'(6) k' by (auto simp: Cons_nth_drop_Suc [symmetric] remaining_def neq_Nil_conv)
    then have ev: "ev = cs ! Suc k ! 0" "rest = remaining cs (Suc k) 1" by (metis nth_Cons_0, simp)
    have "sr_next r = (r1\<lparr>sr_event_index := 1\<rparr>, Some (cs ! Suc k ! 0))"
      using i R S(1) r1' r1(2) S'(3) [of 0] S'(6) unfolding sr_next_def off by (simp add: reading_def)
    moreover have "reading xxh cs (Suc k) 1 (r1\<lparr>sr_event_index := 1\<rparr>)" using r1(2) S'(6) by (simp add: reading_def Suc_le_eq)
    ultimately show ?thesis using ev by blast
  qed
qed

fun drain :: "nat \<Rightarrow> segment_reader \<Rightarrow> wal_event list" where
  "drain 0 r = []"
| "drain (Suc n) r = (case sr_next r of (r', Some ev) \<Rightarrow> ev # drain n r' | (_, None) \<Rightarrow> [])"

lemma drain_reads: "reading xxh cs k i r \<Longrightarrow> drain n r = take n (remaining cs k i)"
proof (induction n arbitrary: k i r)
  case (Suc n)
  show ?case
  proof (cases "remaining cs k i")
    case Nil
    then show ?thesis using next_reads(1) [OF Suc.prems] by (cases "sr_next r") simp
  next
    case (Cons ev rest)
    then show ?thesis using next_reads(2) [OF Suc.prems Cons] Suc.IH by auto
  qed
qed simp

section \<open>Opening\<close>

lemma open_reads:
  assumes "segment_image xxh (header_finalize xxh now (chain xxh 0 cs) h) cs contents" and "header_validate_data h"
    and "sh_block_count h = of_nat (length cs)" and "\<forall>c \<in> set cs. chunk_valid c" and "length cs \<le> MAX_BLOCKS"
    and "HEADER_SIZE + length cs * BLOCK_SIZE < 2 ^ 32" and "cs \<noteq> []" and "io_open io" "io_fstat io" "io_mmap io"
  shows "\<exists>r. open_segment xxh io (SegmentReader_init contents h0 b0) = (r, OK) \<and> reading xxh cs 0 0 r \<and> sr_index_built r = False"
proof -
  let ?h = "header_finalize xxh now (chain xxh 0 cs) h"
  note v = image_verifies [OF assms(1-5)]
  have len: "HEADER_SIZE \<le> length contents" "HEADER_SIZE + length cs * BLOCK_SIZE \<le> length contents" "holds_blocks contents HEADER_SIZE (seal xxh 0 0 cs)"
    using assms(1) by (simp_all add: segment_image_def)
  have ok: "\<forall>c \<in> set cs. chunk_ok c" using assms(4) by (simp add: chunk_valid_def)
  have "length cs < 2 ^ 32" using assms(5) by (simp add: MAX_BLOCKS_def)
  then have cnt: "unat (sh_block_count ?h) = length cs" using assms(3) by (simp add: header_finalize_def Let_def unat_of_nat)
  have n: "unat (header_segment_size ?h) = HEADER_SIZE + length cs * BLOCK_SIZE"
    unfolding header_segment_size_def cnt unat_of_nat using assms(6) by simp
  let ?r = "\<lparr>sr_fd = True, sr_map = Mapped, sr_file = contents, sr_segment_size = length contents, sr_valid_data_size = HEADER_SIZE + length cs * BLOCK_SIZE,
    sr_block_offset = 0, sr_event_index = 0, sr_header = ?h, sr_block = b0, sr_index = [], sr_index_built = False, sr_segment_valid = True\<rparr>"
  have "on_segment xxh cs ?r" using ok len by (simp add: on_segment_def)
  from read_block(1) [OF this, of 0 0 0] assms(7) obtain r where r: "read_block_at_offset HEADER_SIZE ?r = (r, OK)" "reading xxh cs 0 0 r" "sr_index_built r = False"
    by auto
  have "open_segment xxh io (SegmentReader_init contents h0 b0) = read_block_at_offset HEADER_SIZE ?r"
    using assms(8-10) len(1,2) v n by (simp add: open_segment_def sr_open_file_def SegmentReader_init_def Let_def)
  then show ?thesis using r by simp
qed

section \<open>Seeking\<close>

lemma build_index_blocks:
  assumes "on_segment xxh cs r" and "k \<le> length cs"
  shows "build_index_loop (sr_file r) (sr_valid_data_size r) (HEADER_SIZE + k * BLOCK_SIZE) =
    map (\<lambda>k. (ev_event_id (hd (cs ! k)), ev_event_id (last (cs ! k)), HEADER_SIZE + k * BLOCK_SIZE)) [k..<length cs]"
  using assms(2)
proof (induction "length cs - k" arbitrary: k)
  case 0
  then have "k = length cs" by simp
  then show ?case using assms(1) block_events_bounds(3) by (subst build_index_loop.simps) (simp add: on_segment_def)
next
  case (Suc n)
  then have k: "k < length cs" by simp
  have fit: "HEADER_SIZE + k * BLOCK_SIZE + BLOCK_SIZE \<le> sr_valid_data_size r"
  proof -
    have "Suc k * BLOCK_SIZE \<le> length cs * BLOCK_SIZE" using k by (intro mult_le_mono1) simp
    then show ?thesis using assms(1) by (simp add: on_segment_def)
  qed
  have "block_deserialize (field (HEADER_SIZE + k * BLOCK_SIZE) BLOCK_SIZE (sr_file r)) = seal xxh 0 0 cs ! k"
    using assms(1) k by (intro holds_block_at seal_wf) (simp_all add: on_segment_def)
  moreover have "build_index_loop (sr_file r) (sr_valid_data_size r) (HEADER_SIZE + k * BLOCK_SIZE + BLOCK_SIZE) =
    map (\<lambda>k. (ev_event_id (hd (cs ! k)), ev_event_id (last (cs ! k)), HEADER_SIZE + k * BLOCK_SIZE)) [Suc k..<length cs]"
    using Suc.hyps(1) [of "Suc k"] Suc.hyps(2) k by (simp add: add_ac)
  ultimately show ?case
    using fit sealed_chunk(4,5) [OF k] assms(1) k upt_conv_Cons [OF k] by (subst build_index_loop.simps) (simp add: Let_def on_segment_def)
qed

text \<open>The blocks of the index are disjoint intervals in increasing order; the search ends at the block that holds the id or at the last one that lies before it.\<close>

definition disjoint_blocks :: "block_index_entry list \<Rightarrow> bool" where
  "disjoint_blocks idx \<longleftrightarrow> (\<forall>k < length idx. fst (idx ! k) \<le> fst (snd (idx ! k))) \<and>
     (\<forall>j k. j < k \<longrightarrow> k < length idx \<longrightarrow> fst (snd (idx ! j)) < fst (idx ! k))"

definition candidate :: "block_index_entry list \<Rightarrow> u64 \<Rightarrow> nat \<Rightarrow> bool" where
  "candidate idx event_id pos \<longleftrightarrow> pos < length idx \<and> (\<forall>k < pos. fst (snd (idx ! k)) < event_id) \<and>
     (event_id \<le> fst (snd (idx ! pos)) \<or> fst (snd (idx ! pos)) < event_id \<and> (\<forall>k. pos < k \<longrightarrow> k < length idx \<longrightarrow> event_id < fst (idx ! k)))"

lemma index_search_candidate:
  assumes "disjoint_blocks idx" and "right < length idx" and "left \<le> Suc right"
    and "\<forall>k < left. fst (snd (idx ! k)) < event_id" and "\<forall>k. right < k \<longrightarrow> k < length idx \<longrightarrow> event_id < fst (idx ! k)"
    and "pos = left - 1"
  shows "candidate idx event_id (index_search idx event_id left right pos)"
  using assms
proof (induction idx event_id left right pos rule: index_search.induct)
  case (1 idx event_id left right pos)
  show ?case
  proof (cases "left \<le> right")
    case False
    then have "left = Suc right" using 1(5) by simp
    then have "pos = right" "pos < length idx" using 1(4,8) by simp_all
    then show ?thesis using False 1(6,7) \<open>left = Suc right\<close> by (subst index_search.simps) (simp add: candidate_def)
  next
    case True
    define mid where "mid = left + (right - left) div 2"
    have eq: "index_search idx event_id left right pos =
        (if fst (idx ! mid) \<le> event_id \<and> event_id \<le> fst (snd (idx ! mid)) then mid
         else if event_id < fst (idx ! mid) then if mid = 0 then 0 else index_search idx event_id left (mid - 1) pos
         else index_search idx event_id (mid + 1) right mid)"
      unfolding index_search.simps [of idx event_id left right pos] Let_def mid_def [symmetric] if_P [OF True] ..
    note IH = 1(1,2) [OF True, of mid "fst (idx ! mid)" "fst (snd (idx ! mid))"]
    have mid: "left \<le> mid" "mid \<le> right" "mid < length idx" using True 1(4) by (simp_all add: mid_def)
    have low: "fst (snd (idx ! k)) < event_id" if "k < mid" "fst (idx ! mid) \<le> event_id" for k
      using 1(3) that mid unfolding disjoint_blocks_def by (meson less_le_trans)
    have high: "event_id < fst (idx ! k)" if "mid < k" "k < length idx" "event_id < fst (idx ! mid)" for k
      using 1(3) that mid unfolding disjoint_blocks_def by (meson le_less_trans less_trans)
    consider (hit) "fst (idx ! mid) \<le> event_id" "event_id \<le> fst (snd (idx ! mid))" | (left) "event_id < fst (idx ! mid)"
      | (right) "fst (idx ! mid) \<le> event_id" "fst (snd (idx ! mid)) < event_id" by fastforce
    then show ?thesis
    proof cases
      case hit
      then show ?thesis using True low mid unfolding eq by (simp add: candidate_def)
    next
      case left
      have ends: "event_id \<le> fst (snd (idx ! mid))" using left 1(3) mid unfolding disjoint_blocks_def by (meson less_imp_le less_le_trans)
      show ?thesis
      proof (cases "mid = 0")
        case True
        then show ?thesis using left mid ends unfolding eq by (simp add: candidate_def not_le)
      next
        case False
        have "event_id < fst (idx ! k)" if "mid - 1 < k" "k < length idx" for k
          using high [OF _ that(2)] left that(1) False by (cases "k = mid") simp_all
        then have "candidate idx event_id (index_search idx event_id left (mid - 1) pos)"
          by (intro IH(1)) (use left False 1(3-8) mid in \<open>auto simp: not_le mid_def\<close>)
        then show ?thesis using left False unfolding eq by (auto simp: not_le)
      qed
    next
      case right
      have "\<forall>k < mid + 1. fst (snd (idx ! k)) < event_id" using low right by (metis Suc_eq_plus1 less_Suc_eq)
      then have "candidate idx event_id (index_search idx event_id (mid + 1) right mid)"
        by (intro IH(2)) (use right 1(3-8) mid in \<open>auto simp: not_le mid_def\<close>)
      moreover have "\<not> event_id \<le> fst (snd (idx ! mid))" "\<not> event_id < fst (idx ! mid)" using right by simp_all
      ultimately show ?thesis unfolding eq by simp
    qed
  qed
qed

lemma scan_events_facts:
  "scan_events evs event_id n = Some m \<Longrightarrow> \<exists>i < length evs. m = n + i \<and> event_id \<le> ev_event_id (evs ! i) \<and> (\<forall>ev \<in> set (take i evs). ev_event_id ev < event_id)"
  "scan_events evs event_id n = None \<Longrightarrow> ev \<in> set evs \<Longrightarrow> ev_event_id ev < event_id"
proof (induction evs arbitrary: n)
  case (Cons a evs)
  {
    case 1
    show ?case
    proof (cases "event_id \<le> ev_event_id a")
      case True
      then show ?thesis using 1 by (intro exI [of _ 0]) simp
    next
      case False
      then obtain i where "i < length evs" "m = Suc n + i" "event_id \<le> ev_event_id (evs ! i)" "\<forall>ev \<in> set (take i evs). ev_event_id ev < event_id"
        using 1 Cons.IH(1) [of "Suc n"] by auto
      then show ?thesis using False by (intro exI [of _ "Suc i"]) (simp add: not_le)
    qed
  next
    case 2
    then show ?case using Cons.IH(2) by (auto simp: not_le split: if_splits)
  }
qed simp_all

lemma dropWhile_split: "\<forall>x \<in> set xs. P x \<Longrightarrow> ys \<noteq> [] \<Longrightarrow> \<not> P (hd ys) \<Longrightarrow> dropWhile P (xs @ ys) = ys"
  by (cases ys) (simp_all add: dropWhile_append2 [of xs P])

lemma concat_order:
  assumes "sorted_wrt (<) (ids (concat cs))"
  shows "j < k \<Longrightarrow> k < length cs \<Longrightarrow> a \<in> set (cs ! j) \<Longrightarrow> b \<in> set (cs ! k) \<Longrightarrow> ev_event_id a < ev_event_id b"
    and "k < length cs \<Longrightarrow> sorted_wrt (<) (ids (cs ! k))"
proof -
  have split: "concat cs = concat (take k cs) @ cs ! k @ concat (drop (Suc k) cs)" if "k < length cs"
    using that by (metis concat.simps(2) concat_append id_take_nth_drop)
  show "sorted_wrt (<) (ids (cs ! k))" if "k < length cs"
    using assms split [OF that] by (simp add: sorted_wrt_append)
  show "ev_event_id a < ev_event_id b" if j: "j < k" and k: "k < length cs" and a: "a \<in> set (cs ! j)" and b: "b \<in> set (cs ! k)"
  proof -
    have "cs ! j \<in> set (take k cs)" using j k by (metis in_set_conv_nth length_take min.absorb4 nth_take)
    then have "a \<in> set (concat (take k cs))" using a by auto
    then show ?thesis using assms split [OF k] b by (auto simp: sorted_wrt_append)
  qed
qed

lemma sorted_hd_last:
  assumes "sorted_wrt (<) (ids c)" and "ev \<in> set c"
  shows "ev_event_id (hd c) \<le> ev_event_id ev" and "ev_event_id ev \<le> ev_event_id (last c)"
proof -
  obtain a d where c: "c = a # d" using assms(2) by (cases c) auto
  show "ev_event_id (hd c) \<le> ev_event_id ev" using assms c by (auto simp: less_imp_le)
  obtain b z where c': "c = b @ [z]" using c by (metis rev_exhaust list.distinct(1))
  show "ev_event_id ev \<le> ev_event_id (last c)" using assms c' by (auto simp: sorted_wrt_append less_imp_le)
qed

lemma segment_index_disjoint:
  assumes "sorted_wrt (<) (ids (concat cs))" and "\<forall>c \<in> set cs. chunk_ok c"
  shows "disjoint_blocks (map (\<lambda>k. (ev_event_id (hd (cs ! k)), ev_event_id (last (cs ! k)), HEADER_SIZE + k * BLOCK_SIZE)) [0..<length cs])"
proof -
  have ne: "cs ! k \<noteq> []" if "k < length cs" for k using assms(2) that by (simp add: chunk_ok_def)
  have "ev_event_id (hd (cs ! k)) \<le> ev_event_id (last (cs ! k))" if "k < length cs" for k
    using sorted_hd_last(1) [OF concat_order(2) [OF assms(1) that]] ne [OF that] by simp
  moreover have "ev_event_id (last (cs ! j)) < ev_event_id (hd (cs ! k))" if "j < k" "k < length cs" for j k
    using concat_order(1) [OF assms(1) that] ne [of j] ne [of k] that by simp
  ultimately show ?thesis by (simp add: disjoint_blocks_def)
qed

text \<open>The seek: the events that follow are those from the wanted id on, or the last event when there are none.\<close>

lemma seek_reads:
  assumes seg: "on_segment xxh cs r" and ne: "cs \<noteq> []" and srt: "sorted_wrt (<) (ids (concat cs))" and nb: "\<not> sr_index_built r"
    and rest: "rest = dropWhile (\<lambda>ev. ev_event_id ev < event_id) (concat cs)"
  shows "\<exists>r' k i. sr_seek event_id r = (r', True) \<and> reading xxh cs k i r' \<and> remaining cs k i = (if rest = [] then [last (concat cs)] else rest)"
proof -
  let ?idx = "map (\<lambda>k. (ev_event_id (hd (cs ! k)), ev_event_id (last (cs ! k)), HEADER_SIZE + k * BLOCK_SIZE)) [0..<length cs]"
  let ?r = "build_index r"
  let ?pos = "index_search ?idx event_id 0 (length ?idx - 1) 0"
  have ok: "\<forall>c \<in> set cs. chunk_ok c" using seg by (simp add: on_segment_def)
  have idx: "sr_index ?r = ?idx" "on_segment xxh cs ?r"
    using build_index_blocks [OF seg, of 0] nb seg by (simp_all add: build_index_def on_segment_def)
  have cand: "candidate ?idx event_id ?pos"
    by (rule index_search_candidate) (use segment_index_disjoint [OF srt ok] ne in auto)
  define p where "p = ?pos"
  have p: "p < length cs" and early: "\<And>k. k < p \<Longrightarrow> ev_event_id (last (cs ! k)) < event_id"
    and inside: "event_id \<le> ev_event_id (last (cs ! p)) \<or>
      ev_event_id (last (cs ! p)) < event_id \<and> (\<forall>k. p < k \<longrightarrow> k < length cs \<longrightarrow> event_id < ev_event_id (hd (cs ! k)))"
    using cand unfolding p_def [symmetric] by (auto simp: candidate_def)
  have pre: "ev_event_id ev < event_id" if e: "ev \<in> set (concat (take p cs))" for ev
  proof -
    from e obtain c where "c \<in> set (take p cs)" "ev \<in> set c" by auto
    then obtain k where k: "k < p" "k < length cs" "ev \<in> set (cs ! k)" using p by (auto simp: in_set_conv_nth [of c])
    show ?thesis using sorted_hd_last(2) [OF concat_order(2) [OF srt k(2)] k(3)] early [OF k(1)] by simp
  qed
  obtain r1 where r1: "read_block_at_offset (HEADER_SIZE + p * BLOCK_SIZE) (?r\<lparr>sr_event_index := sr_event_index ?r, sr_block_offset := HEADER_SIZE + p * BLOCK_SIZE\<rparr>) = (r1, OK)"
    "reading xxh cs p 0 r1" "sr_index r1 = ?idx"
    using read_block(1) [OF idx(2) p] idx(1) by metis
  have r1': "read_block_at_offset (HEADER_SIZE + p * BLOCK_SIZE) (?r\<lparr>sr_block_offset := HEADER_SIZE + p * BLOCK_SIZE\<rparr>) = (r1, OK)" using r1(1) by simp
  have blk: "take (length (cs ! p)) (bl_events (sr_block r1)) = cs ! p" "block_count_of (sr_block r1) = length (cs ! p)"
    using r1(2) sealed_chunk(1,2) [OF p ok] by (simp_all add: reading_def)
  have seek: "sr_seek event_id r = (case scan_events (cs ! p) event_id 0 of
      Some i \<Rightarrow> (r1\<lparr>sr_event_index := i\<rparr>, True)
    | None \<Rightarrow> if p + 1 < length cs
        then (case read_block_at_offset (HEADER_SIZE + (p + 1) * BLOCK_SIZE) (r1\<lparr>sr_event_index := 0, sr_block_offset := HEADER_SIZE + (p + 1) * BLOCK_SIZE\<rparr>) of
            (r2, OK) \<Rightarrow> (r2\<lparr>sr_event_index := 0\<rparr>, True) | (r2, _) \<Rightarrow> (r2, False))
        else (r1\<lparr>sr_event_index := length (cs ! p) - 1\<rparr>, True))"
    using ne p unfolding sr_seek_def Let_def idx(1) p_def [symmetric] by (simp add: r1' blk r1(3) del: mult_Suc split: option.split)
  have split: "before cs k i @ remaining cs k i = concat cs" if "k < length cs" for k i using before_remaining [OF that] .
  show ?thesis
  proof (cases "scan_events (cs ! p) event_id 0")
    case (Some i)
    then obtain i: "i < length (cs ! p)" "event_id \<le> ev_event_id (cs ! p ! i)" "\<forall>ev \<in> set (take i (cs ! p)). ev_event_id ev < event_id"
      using scan_events_facts(1) [OF Some] by auto
    have rem: "remaining cs p i = cs ! p ! i # drop (Suc i) (cs ! p) @ concat (drop (Suc p) cs)"
      using i(1) by (simp add: remaining_def Cons_nth_drop_Suc [symmetric])
    have "dropWhile (\<lambda>ev. ev_event_id ev < event_id) (before cs p i @ remaining cs p i) = remaining cs p i"
      by (rule dropWhile_split) (use pre i rem in \<open>auto simp: before_def not_less\<close>)
    then have "rest = remaining cs p i" using rest split [OF p] by simp
    moreover have "reading xxh cs p i (r1\<lparr>sr_event_index := i\<rparr>)" using r1(2) i(1) by (simp add: reading_def)
    ultimately show ?thesis using seek Some rem by auto
  next
    case None
    note none = scan_events_facts(2) [OF None]
    show ?thesis
    proof (cases "p + 1 < length cs")
      case True
      obtain r2 where r2: "read_block_at_offset (HEADER_SIZE + (p + 1) * BLOCK_SIZE) (r1\<lparr>sr_event_index := 0, sr_block_offset := HEADER_SIZE + (p + 1) * BLOCK_SIZE\<rparr>) = (r2, OK)"
        "reading xxh cs (p + 1) 0 r2" using read_block(1) [OF reading_segment [OF r1(2)] True] by metis
      have hd: "cs ! (p + 1) \<noteq> []" using True ok by (simp add: chunk_ok_def)
      have "last (cs ! p) \<in> set (cs ! p)" using p ok by (simp add: chunk_ok_def)
      then have "event_id < ev_event_id (hd (cs ! (p + 1)))" using inside none True by (metis less_add_one not_less)
      moreover have rem: "remaining cs (p + 1) 0 = cs ! (p + 1) @ concat (drop (p + 2) cs)" by (simp add: remaining_def)
      moreover have "before cs (p + 1) 0 = concat (take p cs) @ cs ! p" using p by (simp add: before_def take_Suc_conv_app_nth)
      ultimately have "dropWhile (\<lambda>ev. ev_event_id ev < event_id) (before cs (p + 1) 0 @ remaining cs (p + 1) 0) = remaining cs (p + 1) 0"
        using pre none hd by (intro dropWhile_split) auto
      then have "rest = remaining cs (p + 1) 0" using rest split [OF True] by simp
      moreover have "reading xxh cs (p + 1) 0 (r2\<lparr>sr_event_index := 0\<rparr>)" using r2(2) by (simp add: reading_def)
      ultimately show ?thesis using seek None True r2(1) rem hd by auto
    next
      case False
      then have n: "Suc p = length cs" using p by simp
      have ne: "cs ! p \<noteq> []" using p ok by (simp add: chunk_ok_def)
      have all: "concat cs = concat (take p cs) @ cs ! p" using split [OF p, of 0] n by (simp add: before_def remaining_def)
      then have "rest = []" using rest pre none by (auto simp: dropWhile_eq_Nil_conv)
      moreover have "remaining cs p (length (cs ! p) - 1) = [last (concat cs)]"
      proof -
        obtain b z where "cs ! p = b @ [z]" using ne by (metis rev_exhaust)
        then show ?thesis using n all by (simp add: remaining_def)
      qed
      moreover have "reading xxh cs p (length (cs ! p) - 1) (r1\<lparr>sr_event_index := length (cs ! p) - 1\<rparr>)" using r1(2) by (simp add: reading_def)
      ultimately show ?thesis using seek None False by auto
    qed
  qed
qed

end
