(* ===== verification/Wal_Log.thy ===== *)
theory Wal_Log
  imports Wal_Write Wal_Read
begin

text \<open>
  One segment from the writer to the reader: recording, reopening after a restart, reading back, seeking, and what the integrity check
  does and does not notice.
\<close>

section \<open>Compositions of the operations\<close>

definition record_segment :: "hash \<Rightarrow> seg_io \<Rightarrow> u64 \<Rightarrow> u64 \<Rightarrow> u32 \<Rightarrow> nat \<Rightarrow> wal_event list \<Rightarrow> byte list option" where
  "record_segment xxh io t t' idx n evs =
     (case open_new_segment io t idx (SegmentWriter_init n []) of
        (w, OK) \<Rightarrow> (case sw_append_all xxh evs w of
            None \<Rightarrow> None
          | Some w1 \<Rightarrow> (case close_segment xxh io t' True w1 of Some (w2, OK) \<Rightarrow> Some (sw_file w2) | _ \<Rightarrow> None))
      | _ \<Rightarrow> None)"

definition resume_segment :: "hash \<Rightarrow> seg_io \<Rightarrow> u64 \<Rightarrow> nat \<Rightarrow> byte list \<Rightarrow> wal_event list \<Rightarrow> byte list option" where
  "resume_segment xxh io t' n contents evs =
     (case open_existing_segment xxh io (SegmentWriter_init n contents) of
        (w, OK) \<Rightarrow> (case sw_append_all xxh evs w of
            None \<Rightarrow> None
          | Some w1 \<Rightarrow> (case close_segment xxh io t' True w1 of Some (w2, OK) \<Rightarrow> Some (sw_file w2) | _ \<Rightarrow> None))
      | _ \<Rightarrow> None)"

definition read_segment :: "hash \<Rightarrow> seg_io \<Rightarrow> byte list \<Rightarrow> nat \<Rightarrow> wal_event list option" where
  "read_segment xxh io contents m =
     (case open_segment xxh io (SegmentReader_init contents header_reset wal_block_reset) of (r, OK) \<Rightarrow> Some (drain m r) | _ \<Rightarrow> None)"

definition seek_segment :: "hash \<Rightarrow> seg_io \<Rightarrow> byte list \<Rightarrow> u64 \<Rightarrow> nat \<Rightarrow> wal_event list option" where
  "seek_segment xxh io contents event_id m =
     (case open_segment xxh io (SegmentReader_init contents header_reset wal_block_reset) of
        (r, OK) \<Rightarrow> (case sr_seek event_id r of (r', True) \<Rightarrow> Some (drain m r') | _ \<Rightarrow> None)
      | _ \<Rightarrow> None)"

definition log_ok :: "wal_event list \<Rightarrow> bool" where
  "log_ok evs \<longleftrightarrow> events_ok evs \<and> ids_increase evs"

section \<open>Finished segments\<close>

definition finished :: "hash \<Rightarrow> u32 \<Rightarrow> nat \<Rightarrow> wal_event list \<Rightarrow> byte list \<Rightarrow> bool" where
  "finished xxh idx n evs contents \<longleftrightarrow> length contents = HEADER_SIZE + clamp_blocks n * BLOCK_SIZE \<and>
     (\<exists>now now' cs cur. segment_image xxh (header_finalize xxh now' (chain xxh 0 (cs @ last_chunk cur))
          (header_for idx now (length (cs @ last_chunk cur)) (concat cs @ cur))) (cs @ last_chunk cur) contents \<and>
        concat cs @ cur = evs \<and> (\<forall>c \<in> set cs. length c = WAL_BLOCK_EVENTS) \<and> length cur < WAL_BLOCK_EVENTS \<and>
        (\<forall>c \<in> set (cs @ last_chunk cur). chunk_valid c))"

lemma chunks_valid:
  assumes "log_ok (concat cs)" and "\<forall>c \<in> set cs. chunk_ok c"
  shows "\<forall>c \<in> set cs. chunk_valid c"
proof
  fix c assume c: "c \<in> set cs"
  then obtain k where k: "k < length cs" "c = cs ! k" by (metis in_set_conv_nth)
  have ne: "c \<noteq> []" using assms(2) c by (simp add: chunk_ok_def)
  then have "hd c \<in> set c" by simp
  then have "hd c \<in> set (concat cs)" using c by auto
  then have "ev_event_id (hd c) \<noteq> 0" using assms(1) unfolding log_ok_def events_ok_def INVALID_EVENT_ID_def by blast
  moreover have "ids_increase c" using concat_order(2) [OF _ k(1)] assms(1) k(2) by (simp add: log_ok_def ids_increase_iff)
  ultimately show "chunk_valid c" using assms(2) c by (simp add: chunk_valid_def)
qed

lemma close_finished:
  assumes inv: "writer_inv xxh idx now cs cur w" and log: "log_ok evs" "concat cs @ cur = evs" and room: "length evs \<le> sw_num_blocks w * WAL_BLOCK_EVENTS"
    and n: "sw_num_blocks w = clamp_blocks n" and io: "io_ok io"
  shows "\<exists>w'. close_segment xxh io t True w = Some (w', OK) \<and> finished xxh idx n evs (sw_file w')"
proof -
  let ?cs = "cs @ last_chunk cur"
  have I: "\<forall>c \<in> set cs. length c = WAL_BLOCK_EVENTS" "length cur < WAL_BLOCK_EVENTS" "written xxh cs w" using inv by (simp_all add: writer_inv_def)
  have "length cs < sw_num_blocks w" if "cur \<noteq> []"
  proof -
    have "length cs * WAL_BLOCK_EVENTS < length evs" using that log(2) concat_full_length [OF I(1)] by (metis add.right_neutral length_append length_greater_0_conv nat_add_left_cancel_less)
    then have "length cs * WAL_BLOCK_EVENTS < sw_num_blocks w * WAL_BLOCK_EVENTS" using room by (rule less_le_trans)
    then show ?thesis by simp
  qed
  from close_image [OF inv this io] obtain w' where w': "close_segment xxh io t True w = Some (w', OK)"
    "length (sw_file w') = HEADER_SIZE + sw_num_blocks w * BLOCK_SIZE"
    "segment_image xxh (header_finalize xxh t (chain xxh 0 ?cs) (header_for idx now (length ?cs) (concat cs @ cur))) ?cs (sw_file w')" by blast
  have "\<forall>c \<in> set ?cs. chunk_ok c"
    using I log by (auto simp: written_def last_chunk_def chunk_ok_def log_ok_def events_ok_def)
  then have "\<forall>c \<in> set ?cs. chunk_valid c" using chunks_valid [of ?cs] log by (auto simp: last_chunk_def)
  then have "finished xxh idx n evs (sw_file w')"
    unfolding finished_def using w'(2,3) I(1,2) log(2) by (intro conjI exI [of _ now] exI [of _ t] exI [of _ cs] exI [of _ cur]) (simp_all add: n)
  then show ?thesis using w'(1) by blast
qed

lemma record_finished:
  assumes "io_ok io" and "log_ok evs" and "length evs \<le> clamp_blocks n * WAL_BLOCK_EVENTS"
  shows "\<exists>c. record_segment xxh io t t' idx n evs = Some c \<and> finished xxh idx n evs c"
proof -
  obtain w where w: "open_new_segment io t idx (SegmentWriter_init n []) = (w, OK)" "writer_inv xxh idx t [] [] w" "sw_num_blocks w = clamp_blocks n"
    using open_new_inv [OF assms(1)] by blast
  obtain w1 cs cur where w1: "sw_append_all xxh evs w = Some w1" "writer_inv xxh idx t cs cur w1" "concat cs @ cur = evs" "sw_num_blocks w1 = clamp_blocks n"
    using append_all_inv [OF w(2), of evs] assms w(3) by (auto simp: log_ok_def)
  from close_finished [OF w1(2) assms(2) w1(3) _ w1(4) assms(1)] assms(3) w1(4) obtain w2 where
    "close_segment xxh io t' True w1 = Some (w2, OK)" "finished xxh idx n evs (sw_file w2)" by auto
  then show ?thesis using w(1) w1(1) by (simp add: record_segment_def)
qed

lemma resume_finished:
  assumes "finished xxh idx n evs c" and "io_ok io" and "log_ok (evs @ evs')" and "length (evs @ evs') \<le> clamp_blocks n * WAL_BLOCK_EVENTS"
  shows "\<exists>c'. resume_segment xxh io t n c evs' = Some c' \<and> finished xxh idx n (evs @ evs') c'"
proof -
  obtain now now' cs cur where F: "length c = HEADER_SIZE + clamp_blocks n * BLOCK_SIZE"
    "segment_image xxh (header_finalize xxh now' (chain xxh 0 (cs @ last_chunk cur)) (header_for idx now (length (cs @ last_chunk cur)) (concat cs @ cur))) (cs @ last_chunk cur) c"
    "concat cs @ cur = evs" "\<forall>c \<in> set cs. length c = WAL_BLOCK_EVENTS" "length cur < WAL_BLOCK_EVENTS" "\<forall>c \<in> set (cs @ last_chunk cur). chunk_valid c"
    using assms(1) unfolding finished_def by blast
  have "events_ok (concat cs @ cur)" using assms(3) F(3) by (simp add: log_ok_def events_ok_def)
  from open_existing_inv [OF F(2,4,5) this F(6,1)] assms(2) obtain w where w: "open_existing_segment xxh io (SegmentWriter_init n c) = (w, OK)"
    "writer_inv xxh idx now cs cur w" "sw_num_blocks w = clamp_blocks n" by blast
  have "events_ok evs'" using assms(3) by (simp add: log_ok_def events_ok_def)
  from append_all_inv [OF w(2) this] assms(4) F(3) w(3) obtain w1 cs1 cur1 where w1: "sw_append_all xxh evs' w = Some w1" "writer_inv xxh idx now cs1 cur1 w1"
    "concat cs1 @ cur1 = evs @ evs'" "sw_num_blocks w1 = clamp_blocks n" by (auto simp: append_assoc [symmetric] simp del: append_assoc)
  from close_finished [OF w1(2) assms(3) w1(3) _ w1(4) assms(2)] assms(4) w1(4) obtain w2 where
    "close_segment xxh io t True w1 = Some (w2, OK)" "finished xxh idx n (evs @ evs') (sw_file w2)" by auto
  then show ?thesis using w(1) w1(1) by (simp add: resume_segment_def)
qed

abbreviation small_segment :: "nat \<Rightarrow> bool" where
  "small_segment n \<equiv> HEADER_SIZE + clamp_blocks n * BLOCK_SIZE < 2 ^ 32"

lemma open_finished:
  assumes "finished xxh idx n evs c" and "io_ok io" and "evs \<noteq> []" and "small_segment n"
  shows "\<exists>r cs. open_segment xxh io (SegmentReader_init c h b) = (r, OK) \<and> reading xxh cs 0 0 r \<and> concat cs = evs \<and> \<not> sr_index_built r"
proof -
  obtain now now' cs cur where F: "length c = HEADER_SIZE + clamp_blocks n * BLOCK_SIZE"
    "segment_image xxh (header_finalize xxh now' (chain xxh 0 (cs @ last_chunk cur)) (header_for idx now (length (cs @ last_chunk cur)) (concat cs @ cur))) (cs @ last_chunk cur) c"
    "concat cs @ cur = evs" "\<forall>c \<in> set (cs @ last_chunk cur). chunk_valid c"
    using assms(1) unfolding finished_def by blast
  let ?cs = "cs @ last_chunk cur" and ?g = "header_for idx now (length (cs @ last_chunk cur)) (concat cs @ cur)"
  have all: "concat ?cs = evs" using F(3) by (auto simp: last_chunk_def)
  have len: "length ?cs * BLOCK_SIZE \<le> clamp_blocks n * BLOCK_SIZE" using F(1,2) by (simp add: segment_image_def)
  then have "length ?cs \<le> clamp_blocks n" using block_events_bounds(3) by simp
  then have mx: "length ?cs \<le> MAX_BLOCKS" by (simp add: clamp_blocks_def MIN_BLOCKS_def MAX_BLOCKS_def)
  have sz: "HEADER_SIZE + length ?cs * BLOCK_SIZE < 2 ^ 32" using len assms(4) by linarith
  have ne: "?cs \<noteq> []" using all assms(3) by auto
  have hv: "header_validate_data ?g" by (simp add: header_validate_data_def header_for_def initial_header_def HEADER_SIZE_def)
  have "\<exists>r. open_segment xxh io (SegmentReader_init c h b) = (r, OK) \<and> reading xxh ?cs 0 0 r \<and> sr_index_built r = False"
    by (rule open_reads [OF F(2) hv _ F(4) mx]) (use assms(2) sz ne in \<open>simp_all add: header_for_def\<close>)
  then show ?thesis using all by blast
qed

section \<open>Unfinished segments\<close>

lemma unfinished_header:
  assumes "io_ok io" and "events_ok evs" and "length evs \<le> clamp_blocks n * WAL_BLOCK_EVENTS"
  shows "\<exists>w w1. open_new_segment io t idx (SegmentWriter_init n []) = (w, OK) \<and> sw_append_all xxh evs w = Some w1 \<and>
    HEADER_SIZE \<le> length (sw_file w1) \<and> header_deserialize (sw_file w1) = initial_header idx t"
proof -
  obtain w where w: "open_new_segment io t idx (SegmentWriter_init n []) = (w, OK)" "writer_inv xxh idx t [] [] w" "sw_num_blocks w = clamp_blocks n"
    "take HEADER_SIZE (sw_file w) = header_serialize (initial_header idx t)"
    using open_new_inv [OF assms(1)] by blast
  obtain w1 cs cur where w1: "sw_append_all xxh evs w = Some w1" "writer_inv xxh idx t cs cur w1" "take HEADER_SIZE (sw_file w1) = take HEADER_SIZE (sw_file w)"
    using append_all_inv [OF w(2), of evs] assms w(3) by auto
  have len: "HEADER_SIZE \<le> length (sw_file w1)" using w1(2) by (simp add: writer_inv_def written_def)
  have "header_deserialize (sw_file w1) = initial_header idx t"
    using deserialize_take [OF len] w1(3) w(4) header_roundtrip [of "initial_header idx t"] by simp
  then show ?thesis using w(1) w1(1) len by blast
qed

lemma dropWhile_ids:
  assumes "sorted_wrt (<) (ids evs)"
  shows "dropWhile (\<lambda>ev. ev_event_id ev < event_id) evs = filter (\<lambda>ev. event_id \<le> ev_event_id ev) evs"
  using assms
proof (induction evs)
  case (Cons a evs)
  show ?case
  proof (cases "ev_event_id a < event_id")
    case False
    then have "\<forall>ev \<in> set (a # evs). event_id \<le> ev_event_id ev" using Cons.prems by (force simp: not_less)
    then show ?thesis using False by (simp add: filter_id_conv [THEN iffD2])
  qed (use Cons in \<open>simp add: not_le\<close>)
qed simp

section \<open>Properties\<close>

definition sample_event :: "nat \<Rightarrow> wal_event" where
  "sample_event i = event_reset\<lparr>ev_event_id := of_nat i\<rparr>"

definition good_io :: seg_io where
  "good_io = \<lparr>io_exists = False, io_open = True, io_fstat = True, io_ftruncate = True, io_mmap = True, io_pwrite = True, io_fdatasync = True,
     io_msync = True, io_munmap = True, io_close = True\<rparr>"

lemma sample_log: "log_ok [sample_event 3, sample_event 5]" "log_ok [sample_event 3]" "log_ok ([sample_event 3] @ [sample_event 5])" "io_ok good_io" "small_segment 16"
  by (simp_all add: log_ok_def events_ok_def sample_event_def event_wf_def event_reset_def INVALID_EVENT_ID_def good_io_def
    clamp_blocks_def MIN_BLOCKS_def MAX_BLOCKS_def HEADER_SIZE_def BLOCK_SIZE_def WAL_BLOCK_EVENTS_def EVENT_SIZE_def)

lemma sample_room: "length [a, b] \<le> clamp_blocks 16 * WAL_BLOCK_EVENTS" "length [a] \<le> clamp_blocks 16 * WAL_BLOCK_EVENTS"
  by (simp_all add: clamp_blocks_def MIN_BLOCKS_def MAX_BLOCKS_def WAL_BLOCK_EVENTS_def)

text \<open>C8: what is recorded in a segment is read back. Events with increasing ids that fit into a segment are appended to a new segment file, which is
  closed; the file is opened again by a later run of the recorder, which finds its append position, completes the partly filled last block and appends more events before closing it again. The
  result passes the integrity check of the reader, whatever the hash function, and sequential reads return exactly the events of both runs, in order, and then end.\<close>

theorem wal_segment_roundtrip:
  assumes "io_ok io" and "log_ok (evs @ evs')" and "length (evs @ evs') \<le> clamp_blocks n * WAL_BLOCK_EVENTS" and "evs @ evs' \<noteq> []" and "small_segment n"
  shows "\<exists>c c'. record_segment xxh io t1 t2 idx n evs = Some c \<and> resume_segment xxh io t3 n c evs' = Some c' \<and>
    read_segment xxh io c' m = Some (take m (evs @ evs'))"
proof -
  have "log_ok evs" "length evs \<le> clamp_blocks n * WAL_BLOCK_EVENTS"
    using assms(2,3) by (simp_all add: log_ok_def events_ok_def ids_increase_iff sorted_wrt_append)
  then obtain c where c: "record_segment xxh io t1 t2 idx n evs = Some c" "finished xxh idx n evs c" using record_finished [OF assms(1)] by blast
  obtain c' where c': "resume_segment xxh io t3 n c evs' = Some c'" "finished xxh idx n (evs @ evs') c'"
    using resume_finished [OF c(2) assms(1-3)] by blast
  obtain r cs where r: "open_segment xxh io (SegmentReader_init c' header_reset wal_block_reset) = (r, OK)" "reading xxh cs 0 0 r" "concat cs = evs @ evs'"
    using open_finished [OF c'(2) assms(1,4,5)] by blast
  have "cs \<noteq> []" using r(3) assms(4) by auto
  then have "remaining cs 0 0 = evs @ evs'" using r(3) by (cases cs) (simp_all add: remaining_def)
  then show ?thesis using c(1) c'(1) r(1) drain_reads [OF r(2)] by (auto simp: read_segment_def)
qed

theorem wal_segment_roundtrip_witness:
  "\<exists>c c'. record_segment (\<lambda>bs seed. seed) good_io 1 2 0 16 [sample_event 3] = Some c \<and> resume_segment (\<lambda>bs seed. seed) good_io 3 16 c [sample_event 5] = Some c' \<and>
    read_segment (\<lambda>bs seed. seed) good_io c' 3 = Some [sample_event 3, sample_event 5]"
  using wal_segment_roundtrip [OF sample_log(4,3), of 16 "\<lambda>bs seed. seed" 1 2 0 3 3] sample_log(5) sample_room by simp

text \<open>Seeking in a recorded segment by binary search over its blocks lands on the first event whose id is not below the wanted one, also when that id is in none of the blocks, and the reads that
  follow return that event and all later ones. When every id is below the wanted one, the seek still reports success and lands on the last event.\<close>

theorem wal_seek_lands_on_successor:
  assumes "io_ok io" and "log_ok evs" and "length evs \<le> clamp_blocks n * WAL_BLOCK_EVENTS" and "evs \<noteq> []" and "small_segment n"
  shows "\<exists>c. record_segment xxh io t1 t2 idx n evs = Some c \<and>
    seek_segment xxh io c event_id m = Some (take m
      (if \<forall>ev \<in> set evs. ev_event_id ev < event_id then [last evs] else filter (\<lambda>ev. event_id \<le> ev_event_id ev) evs))"
proof -
  obtain c where c: "record_segment xxh io t1 t2 idx n evs = Some c" "finished xxh idx n evs c" using record_finished [OF assms(1-3)] by blast
  obtain r cs where r: "open_segment xxh io (SegmentReader_init c header_reset wal_block_reset) = (r, OK)" "reading xxh cs 0 0 r" "concat cs = evs" "\<not> sr_index_built r"
    using open_finished [OF c(2) assms(1,4,5)] by blast
  have "cs \<noteq> []" using r(3) assms(4) by auto
  moreover have srt: "sorted_wrt (<) (ids evs)" using assms(2) by (simp add: log_ok_def ids_increase_iff)
  ultimately obtain r' k i where s: "sr_seek event_id r = (r', True)" "reading xxh cs k i r'"
    "remaining cs k i = (if dropWhile (\<lambda>ev. ev_event_id ev < event_id) evs = [] then [last evs] else dropWhile (\<lambda>ev. ev_event_id ev < event_id) evs)"
    using seek_reads [OF reading_segment [OF r(2)] _ _ r(4) refl, of event_id] r(3) by auto
  have "dropWhile (\<lambda>ev. ev_event_id ev < event_id) evs = filter (\<lambda>ev. event_id \<le> ev_event_id ev) evs" using srt by (rule dropWhile_ids)
  then have "remaining cs k i = (if \<forall>ev \<in> set evs. ev_event_id ev < event_id then [last evs] else filter (\<lambda>ev. event_id \<le> ev_event_id ev) evs)"
    using s(3) by (simp add: filter_empty_conv not_le)
  then show ?thesis using c(1) r(1) s(1) drain_reads [OF s(2)] by (simp add: seek_segment_def)
qed

theorem wal_seek_lands_on_successor_witness:
  "\<exists>c. record_segment (\<lambda>bs seed. seed) good_io 1 2 0 16 [sample_event 3, sample_event 5] = Some c \<and>
    seek_segment (\<lambda>bs seed. seed) good_io c 4 9 = Some [sample_event 5]"
  using wal_seek_lands_on_successor [OF sample_log(4,1), of 16 "\<lambda>bs seed. seed" 1 2 0 4 9] sample_log(5) sample_room
  by (simp add: sample_event_def)

text \<open>A segment that was not closed is not recoverable. The header in the file is only completed by closing the segment; until then it carries no checksum, so, unless
  the hash of the initial header happens to be zero, both the header check and the integrity check refuse a file whose writer was cut off, however many events its blocks hold.\<close>

theorem unclosed_segment_rejected:
  assumes "io_ok io" and "events_ok evs" and "length evs \<le> clamp_blocks n * WAL_BLOCK_EVENTS"
    and "header_compute_checksum xxh (initial_header idx t) \<noteq> 0"
  shows "\<exists>w w1. open_new_segment io t idx (SegmentWriter_init n []) = (w, OK) \<and> sw_append_all xxh evs w = Some w1 \<and>
    snd (read_segment_header xxh (sw_file w1)) = HEADER_CHECKSUM_MISMATCH \<and>
    (\<forall>len. snd (verify_full_segment_integrity xxh (sw_file w1) len) = HEADER_CHECKSUM_MISMATCH) \<and>
    read_segment xxh io (sw_file w1) m = None"
proof -
  obtain w w1 where w: "open_new_segment io t idx (SegmentWriter_init n []) = (w, OK)" "sw_append_all xxh evs w = Some w1"
    "HEADER_SIZE \<le> length (sw_file w1)" "header_deserialize (sw_file w1) = initial_header idx t"
    using unfinished_header [OF assms(1-3)] by blast
  have "sh_checksum (initial_header idx t) = 0" by (simp add: initial_header_def header_reset_def)
  then have h: "header_verify xxh (header_deserialize (sw_file w1)) = HEADER_CHECKSUM_MISMATCH"
    using assms(4) w(4) by (simp add: header_verify_def header_validate_checksum_def)
  then have "read_segment xxh io (sw_file w1) m = None"
    using assms(1) w(3) by (simp add: read_segment_def open_segment_def sr_open_file_def SegmentReader_init_def verify_full_segment_integrity_def Let_def)
  moreover have "snd (read_segment_header xxh (sw_file w1)) = HEADER_CHECKSUM_MISMATCH" using h w(3) by (simp add: read_segment_header_def Let_def)
  moreover have "snd (verify_full_segment_integrity xxh (sw_file w1) len) = HEADER_CHECKSUM_MISMATCH" for len
    using h by (simp add: verify_full_segment_integrity_def Let_def)
  ultimately show ?thesis using w(1,2) by blast
qed

theorem unclosed_segment_rejected_witness:
  "\<exists>w w1. open_new_segment good_io 1 0 (SegmentWriter_init 16 []) = (w, OK) \<and> sw_append_all (\<lambda>bs seed. seed + 1) [sample_event 3, sample_event 5] w = Some w1 \<and>
    read_segment (\<lambda>bs seed. seed + 1) good_io (sw_file w1) 2 = None"
proof -
  have "events_ok [sample_event 3, sample_event 5]" using sample_log(1) by (simp add: log_ok_def)
  moreover have "header_compute_checksum (\<lambda>bs seed. seed + 1) (initial_header 0 1) \<noteq> 0" by (simp add: header_compute_checksum_def Let_def)
  ultimately show ?thesis using unclosed_segment_rejected [OF sample_log(4) _ sample_room(1), of "sample_event 3" "sample_event 5" "\<lambda>bs seed. seed + 1" 0 1 2] by blast
qed

end
