(* ===== verification/Wal_Recorder_Run.thy ===== *)
theory Wal_Recorder_Run
  imports Wal_Recorder Wal_Log
begin

text \<open>
  What the recorder keeps: the invariant of its threads, the directory that a shutdown leaves, and a restart on it. A segment is a pair of its index and its events.
\<close>

section \<open>Segments and the directory\<close>

type_synonym segment = "nat \<times> wal_event list"

definition env_good :: "wal_env \<Rightarrow> bool" where
  "env_good env \<longleftrightarrow> (\<forall>name. io_ok (we_io env name))"

definition max_index :: nat where "max_index = 10 ^ 8"

definition on_disk :: "hash \<Rightarrow> nat \<Rightarrow> wal_dir \<Rightarrow> segment \<Rightarrow> bool" where
  "on_disk xxh n d s \<longleftrightarrow> (\<exists>c. map_of d (segment_name (fst s)) = Some c \<and> finished xxh (of_nat (fst s)) n (snd s) c)"

definition held_by :: "hash \<Rightarrow> nat \<Rightarrow> segment \<Rightarrow> named_writer \<Rightarrow> bool" where
  "held_by xxh n s nw \<longleftrightarrow> fst nw = segment_name (fst s) \<and> sw_num_blocks (snd nw) = clamp_blocks n \<and> length (snd s) \<le> clamp_blocks n * WAL_BLOCK_EVENTS \<and>
     (\<exists>now cs cur. writer_inv xxh (of_nat (fst s)) now cs cur (snd nw) \<and> concat cs @ cur = snd s)"

abbreviation log_of :: "segment list \<Rightarrow> wal_event list" where
  "log_of segs \<equiv> concat (map snd segs)"

abbreviation names_are :: "wal_dir \<Rightarrow> nat list \<Rightarrow> bool" where
  "names_are d is \<equiv> set (map fst d) = segment_name ` set is \<and> distinct (map fst d)"

definition clean_log :: "hash \<Rightarrow> nat \<Rightarrow> segment list \<Rightarrow> wal_dir \<Rightarrow> bool" where
  "clean_log xxh n segs d \<longleftrightarrow> sorted_wrt (<) (map fst segs) \<and> (\<forall>s \<in> set segs. fst s < max_index \<and> on_disk xxh n d s) \<and> names_are d (map fst segs) \<and>
     log_ok (log_of segs)"

definition active_ok :: "hash \<Rightarrow> nat \<Rightarrow> segment list \<Rightarrow> named_writer option \<Rightarrow> rotation \<Rightarrow> bool" where
  "active_ok xxh n actv nw rot \<longleftrightarrow>
     (case nw of None \<Rightarrow> actv = [] \<and> rot = Handed_Over | Some nw \<Rightarrow> rot \<noteq> Handed_Over \<and> (\<exists>s. actv = [s] \<and> held_by xxh n s nw))"

definition rec_inv :: "hash \<Rightarrow> nat \<Rightarrow> segment list \<Rightarrow> segment list \<Rightarrow> segment list \<Rightarrow> nat list \<Rightarrow> recorder \<Rightarrow> bool" where
  "rec_inv xxh n closed pend actv preps r \<longleftrightarrow>
     rc_num_blocks r = clamp_blocks n \<and> rc_running r \<and> rc_free r = [] \<and> rc_freeze r = [] \<and>
     (\<forall>s \<in> set closed. on_disk xxh n (rc_dir r) s) \<and> list_all2 (held_by xxh n) pend (rc_persist r) \<and>
     active_ok xxh n actv (rc_writer r) (rc_rotation r) \<and>
     list_all2 (\<lambda>i. held_by xxh n (i, [])) preps (rc_prepared r) \<and>
     sorted_wrt (<) (map fst (closed @ pend @ actv) @ preps) \<and> (\<forall>i \<in> set (map fst (closed @ pend @ actv) @ preps). i < rc_next_index r) \<and>
     rc_next_index r \<le> max_index \<and> names_are (rc_dir r) (map fst (closed @ pend @ actv) @ preps) \<and> log_ok (log_of (closed @ pend @ actv))"

lemma clamp_idem [simp]: "clamp_blocks (clamp_blocks n) = clamp_blocks n"
  by (simp add: clamp_blocks_def MIN_BLOCKS_def MAX_BLOCKS_def)

lemma name_neq: "i < max_index \<Longrightarrow> j < max_index \<Longrightarrow> i \<noteq> j \<Longrightarrow> segment_name i \<noteq> segment_name j"
  using segment_name_inject [of i j] by (simp add: max_index_def)

lemma on_disk_put: "on_disk xxh n d s \<Longrightarrow> fst s < max_index \<Longrightarrow> i < max_index \<Longrightarrow> fst s \<noteq> i \<Longrightarrow> on_disk xxh n (put_file (segment_name i) c d) s"
  using name_neq [of "fst s" i] by (simp add: on_disk_def update_conv)

lemma on_disk_remove: "on_disk xxh n d s \<Longrightarrow> fst s < max_index \<Longrightarrow> i < max_index \<Longrightarrow> fst s \<noteq> i \<Longrightarrow> on_disk xxh n (remove_file (segment_name i) d) s"
  using name_neq [of "fst s" i] by (simp add: on_disk_def delete_conv')

lemma names_put: "names_are d is \<Longrightarrow> names_are (put_file (segment_name i) c d) (is @ [i])"
  by (simp add: dom_update distinct_update)

lemma names_put_same: "names_are d is \<Longrightarrow> i \<in> set is \<Longrightarrow> names_are (put_file (segment_name i) c d) is"
  by (auto simp: dom_update distinct_update)

lemma log_prefix: "log_ok (a @ b) \<Longrightarrow> log_ok a"
  by (simp add: log_ok_def events_ok_def ids_increase_iff sorted_wrt_append)

section \<open>Writers\<close>

lemma not_full_room:
  assumes "writer_inv xxh idx now cs cur w" and "\<not> segment_is_full w"
  shows "length cs < sw_num_blocks w"
proof -
  have "HEADER_SIZE + length cs * BLOCK_SIZE < HEADER_SIZE + sw_num_blocks w * BLOCK_SIZE"
    using assms by (simp add: writer_inv_def written_def segment_is_full_def)
  then show ?thesis by simp
qed

lemma held_append:
  assumes "held_by xxh n s (name, w)" and "\<not> segment_is_full w" and "event_wf ev" and "ev_event_id ev \<noteq> INVALID_EVENT_ID"
  shows "\<exists>w'. sw_append xxh ev w = Some (w', OK) \<and> held_by xxh n (fst s, snd s @ [ev]) (name, w')"
proof -
  obtain now cs cur where H: "name = segment_name (fst s)" "sw_num_blocks w = clamp_blocks n" "writer_inv xxh (of_nat (fst s)) now cs cur w" "concat cs @ cur = snd s"
    using assms(1) by (auto simp: held_by_def)
  have room: "length cs < sw_num_blocks w" using not_full_room [OF H(3) assms(2)] .
  from append_inv [OF H(3) assms(3,4) room] obtain w' where w': "sw_append xxh ev w = Some (w', OK)" "sw_num_blocks w' = sw_num_blocks w"
    and inv: "if Suc (length cur) = WAL_BLOCK_EVENTS then writer_inv xxh (of_nat (fst s)) now (cs @ [cur @ [ev]]) [] w'
      else writer_inv xxh (of_nat (fst s)) now cs (cur @ [ev]) w'" by blast
  have I: "\<forall>c \<in> set cs. length c = WAL_BLOCK_EVENTS" "length cur < WAL_BLOCK_EVENTS" using H(3) by (simp_all add: writer_inv_def)
  have "length (snd s @ [ev]) \<le> Suc (length cs) * WAL_BLOCK_EVENTS"
    using concat_full_length [OF I(1)] I(2) H(4) [symmetric] by simp
  also have "\<dots> \<le> clamp_blocks n * WAL_BLOCK_EVENTS" using room H(2) by (intro mult_le_mono1) simp
  finally have "length (snd s @ [ev]) \<le> clamp_blocks n * WAL_BLOCK_EVENTS" .
  moreover have "\<exists>cs' cur'. writer_inv xxh (of_nat (fst s)) now cs' cur' w' \<and> concat cs' @ cur' = snd s @ [ev]"
  proof (cases "Suc (length cur) = WAL_BLOCK_EVENTS")
    case True
    then have "writer_inv xxh (of_nat (fst s)) now (cs @ [cur @ [ev]]) [] w'" using inv by simp
    moreover have "concat (cs @ [cur @ [ev]]) @ [] = snd s @ [ev]" using H(4) by simp
    ultimately show ?thesis by blast
  next
    case False
    then have "writer_inv xxh (of_nat (fst s)) now cs (cur @ [ev]) w'" using inv by simp
    moreover have "concat cs @ cur @ [ev] = snd s @ [ev]" using H(4) by simp
    ultimately show ?thesis by blast
  qed
  ultimately have "held_by xxh n (fst s, snd s @ [ev]) (name, w')" using H(1,2) w'(2) by (auto simp: held_by_def)
  then show ?thesis using w'(1) by blast
qed

lemma finished_clamp: "finished xxh idx (clamp_blocks n) = finished xxh idx n"
  by (simp add: finished_def fun_eq_iff)

lemma held_close:
  assumes "held_by xxh n s (name, w)" and "log_ok (snd s)" and "io_ok io"
  shows "\<exists>w'. close_segment xxh io t True w = Some (w', OK) \<and> finished xxh (of_nat (fst s)) n (snd s) (sw_file w')"
proof -
  obtain now cs cur where H: "sw_num_blocks w = clamp_blocks n" "writer_inv xxh (of_nat (fst s)) now cs cur w" "concat cs @ cur = snd s"
    "length (snd s) \<le> clamp_blocks n * WAL_BLOCK_EVENTS" using assms(1) by (auto simp: held_by_def)
  show ?thesis using close_finished [OF H(2) assms(2) H(3) _ H(1) assms(3)] H(1,4) by simp
qed

lemma touch_length [simp]: "length (sw_file (touch p w)) = length (sw_file w)"
  by (simp add: touch_def)

lemma touch_inv:
  assumes "writer_inv xxh idx now [] [] w"
  shows "writer_inv xxh idx now [] [] (touch p w)"
  using assms by (simp add: writer_inv_def written_def touch_def holds_blocks_def)

lemma prepare_held:
  assumes "env_good env" and "segment_name i \<notin> set (map fst d)"
  shows "\<exists>w. open_new_file env (clamp_blocks n) i d = (w, OK, put_file (segment_name i) (sw_file w) d) \<and>
    held_by xxh n (i, []) (segment_name i, w) \<and> held_by xxh n (i, []) (segment_name i, touch p w)"
proof -
  let ?io = "(we_io env (segment_name i))\<lparr>io_exists := segment_name i \<in> set (map fst d)\<rparr>"
  have "io_ok ?io" using assms by (simp add: env_good_def)
  from open_new_inv [OF this, of "we_now env" "of_nat i" "clamp_blocks n" "[]" xxh] obtain w where
    w: "open_new_segment ?io (we_now env) (of_nat i) (SegmentWriter_init (clamp_blocks n) []) = (w, OK)" "writer_inv xxh (of_nat i) (we_now env) [] [] w"
      "sw_num_blocks w = clamp_blocks n" by auto
  have "sw_fd w" using w(2) by (simp add: writer_inv_def written_def)
  then have "open_new_file env (clamp_blocks n) i d = (w, OK, put_file (segment_name i) (sw_file w) d)" using w(1) by (simp add: open_new_file_def Let_def)
  moreover have "held_by xxh n (i, []) (segment_name i, v)" if "writer_inv xxh (of_nat i) (we_now env) [] [] v" "sw_num_blocks v = clamp_blocks n" for v
    using that by (auto simp: held_by_def intro!: exI [of _ "[]"])
  moreover have "sw_num_blocks (touch p w) = clamp_blocks n" using w(3) by (simp add: touch_def)
  ultimately show ?thesis using w(2,3) touch_inv [OF w(2)] by blast
qed

lemma fresh_not_full:
  assumes "held_by xxh n (i, []) (name, w)"
  shows "\<not> segment_is_full w"
proof -
  obtain now cs cur where i: "writer_inv xxh (of_nat i) now cs cur w" "concat cs @ cur = []" "sw_num_blocks w = clamp_blocks n" using assms by (auto simp: held_by_def)
  have "cs = []"
  proof (rule ccontr)
    assume "cs \<noteq> []"
    then obtain c where "c \<in> set cs" by (cases cs) auto
    then have "length c = WAL_BLOCK_EVENTS" "c = []" using i(1,2) by (auto simp: writer_inv_def)
    then show False using block_events_bounds(1) by simp
  qed
  moreover have "0 < clamp_blocks n" by (simp add: clamp_blocks_def MIN_BLOCKS_def)
  ultimately show ?thesis using i(1,3) block_events_bounds(3) by (simp add: writer_inv_def written_def segment_is_full_def)
qed

lemma release_empty:
  assumes "held_by xxh n (i, []) (name, w)"
  shows "release_writer xxh env (name, w) d = Some (remove_file name d)"
proof -
  obtain now cs cur where w: "writer_inv xxh (of_nat i) now cs cur w" "concat cs @ cur = []" using assms by (auto simp: held_by_def)
  obtain k where k: "unclosed (sw_header w) = header_for (of_nat i) now k []" using w by (auto simp: writer_inv_def)
  have "sh_last_event_id (sw_header w) = sh_last_event_id (unclosed (sw_header w))" by (simp add: unclosed_def)
  then have "sh_last_event_id (sw_header w) = INVALID_EVENT_ID" unfolding k by (simp add: header_for_def)
  moreover have "sw_fd w" "sw_map w = Mapped" using w(1) by (simp_all add: writer_inv_def written_def)
  ultimately show ?thesis by (simp add: release_writer_def force_close_or_remove_if_needed_def)
qed

section \<open>Steps\<close>

lemma rec_inv_writer:
  assumes "rec_inv xxh n closed pend actv preps r" and "rc_writer r = Some nw"
  obtains s where "actv = [s]" "held_by xxh n s nw" "rc_rotation r \<noteq> Handed_Over"
  using assms by (auto simp: rec_inv_def active_ok_def)

lemma active_some: "active_ok xxh n [s] (Some nw) rot \<longleftrightarrow> rot \<noteq> Handed_Over \<and> held_by xxh n s nw"
  by (auto simp: active_ok_def)

lemma index_bound: "rec_inv xxh n closed pend actv preps r \<Longrightarrow> i \<in> set (map fst (closed @ pend @ actv) @ preps) \<Longrightarrow> i < max_index"
  unfolding rec_inv_def by (meson less_le_trans)

lemma step_append:
  assumes inv: "rec_inv xxh n closed pend actv preps r" and w: "rc_writer r = Some (name, w)" and nf: "\<not> segment_is_full w"
    and app: "append_to_writer xxh ev r = Some (r', status)" and ok: "log_ok (log_of (closed @ pend @ actv) @ [ev])"
  shows "\<exists>s. actv = [s] \<and> rec_inv xxh n closed pend [(fst s, snd s @ [ev])] preps r'"
proof -
  obtain s where s: "actv = [s]" "held_by xxh n s (name, w)" "rc_rotation r \<noteq> Handed_Over" using rec_inv_writer [OF inv w] .
  have ev: "event_wf ev" "ev_event_id ev \<noteq> INVALID_EVENT_ID" using ok by (simp_all add: log_ok_def events_ok_def)
  obtain w' where w': "sw_append xxh ev w = Some (w', OK)" "held_by xxh n (fst s, snd s @ [ev]) (name, w')" using held_append [OF s(2) nf ev] by blast
  have nm: "name = segment_name (fst s)" using s(2) by (simp add: held_by_def)
  have srt: "sorted_wrt (<) (map fst (closed @ pend @ [s]) @ preps)" using inv s(1) by (simp add: rec_inv_def)
  have "on_disk xxh n (put_file name (sw_file w') (rc_dir r)) t" if "t \<in> set closed" for t
  proof -
    have "fst t < fst s" using srt that by (auto simp: sorted_wrt_append)
    moreover have "fst t < max_index" "fst s < max_index" using index_bound [OF inv] that s(1) by auto
    ultimately show ?thesis using inv that unfolding nm by (intro on_disk_put) (auto simp: rec_inv_def)
  qed
  moreover have "names_are (put_file name (sw_file w') (rc_dir r)) (map fst (closed @ pend @ [s]) @ preps)"
    unfolding nm by (rule names_put_same) (use inv s(1) in \<open>auto simp: rec_inv_def\<close>)
  moreover have "r' = r\<lparr>rc_writer := Some (name, w'), rc_dir := put_file name (sw_file w') (rc_dir r),
      rc_meta_state := (rc_meta_state r)\<lparr>ms_last_event_id := ev_event_id ev, ms_last_offset := of_nat (sw_bytes_written w')\<rparr>\<rparr>"
    using app w w'(1) by (simp add: append_to_writer_def)
  ultimately have "rec_inv xxh n closed pend [(fst s, snd s @ [ev])] preps r'"
    using inv s w'(2) ok by (simp add: rec_inv_def active_some)
  then show ?thesis using s(1) by blast
qed

lemma step_plan:
  assumes inv: "rec_inv xxh n closed pend actv preps r" and "length (rc_wal_files r) < HOT_CAPACITY" and plan: "plan_rotation r = Some r'"
  shows "rec_inv xxh n closed pend actv preps r'"
proof -
  obtain nw where w: "rc_writer r = Some nw" using plan by (auto simp: plan_rotation_def split: option.splits)
  then obtain s where s: "actv = [s]" "held_by xxh n s nw" using rec_inv_writer [OF inv] by blast
  have "r' = r\<lparr>rc_wal_files := rc_wal_files r @ [fst nw], rc_rotation := Planned\<rparr>" using assms(2) plan w by (cases nw) (simp add: plan_rotation_def)
  then show ?thesis using inv s w by (simp add: rec_inv_def active_some)
qed

lemma step_hand_over:
  assumes inv: "rec_inv xxh n closed pend actv preps r" and hand: "persist_current_segment r = Some r'"
  shows "rec_inv xxh n closed (pend @ actv) [] preps r'"
proof -
  obtain nw where w: "rc_writer r = Some nw" using hand by (auto simp: persist_current_segment_def split: option.splits)
  then obtain s where s: "actv = [s]" "held_by xxh n s nw" using rec_inv_writer [OF inv] by blast
  have "r' = r\<lparr>rc_persist := rc_persist r @ [nw], rc_writer := None, rc_rotation := Handed_Over\<rparr>"
    using hand w by (simp add: persist_current_segment_def split: if_splits)
  then show ?thesis using inv s by (simp add: rec_inv_def active_ok_def list_all2_appendI)
qed

lemma step_next:
  assumes inv: "rec_inv xxh n closed pend actv preps r" and "rc_rotation r = Handed_Over" and nxt: "prepare_next_segment r = Some (r', OK)"
  shows "\<exists>i rest. preps = i # rest \<and> actv = [] \<and> rec_inv xxh n closed pend [(i, [])] rest r'"
proof -
  have a: "actv = []" using assms(1,2) by (auto simp: rec_inv_def active_ok_def split: option.splits)
  obtain nw q where p: "rc_prepared r = nw # q" using nxt by (auto simp: prepare_next_segment_def split: if_splits list.splits)
  obtain i rest where i: "preps = i # rest" "held_by xxh n (i, []) nw" "list_all2 (\<lambda>i. held_by xxh n (i, [])) rest q"
    using inv p by (auto simp: rec_inv_def list_all2_Cons2)
  obtain ms where "r' = r\<lparr>rc_prepared := q, rc_writer := Some nw, rc_meta_state := ms, rc_meta := meta_update ms (rc_meta r), rc_rotation := Appending\<rparr>"
    using nxt p by (cases nw) (auto simp: prepare_next_segment_def Let_def split: if_splits)
  then have "rec_inv xxh n closed pend [(i, [])] rest r'" using inv i(2,3) unfolding i(1) a by (simp add: rec_inv_def active_some)
  then show ?thesis using i(1) a by blast
qed

lemma step_prepare:
  assumes inv: "rec_inv xxh n closed pend actv preps r" and env: "env_good env" and idx: "rc_next_index r < 10 ^ 8 - 1" and prep: "prepare_one xxh env r = Some r'"
  shows "\<exists>preps'. rec_inv xxh n closed pend actv preps' r'"
proof (cases "length (rc_prepared r) < PREPARE_CAPACITY")
  case False
  then show ?thesis using inv prep by (auto simp: prepare_one_def)
next
  case True
  let ?i = "rc_next_index r" and ?is = "map fst (closed @ pend @ actv) @ preps"
  have bnd: "?i < max_index" using idx by (simp add: max_index_def)
  have lt: "\<forall>i \<in> set ?is. i < ?i" using inv by (simp add: rec_inv_def)
  have fresh: "segment_name ?i \<notin> set (map fst (rc_dir r))"
  proof
    assume "segment_name ?i \<in> set (map fst (rc_dir r))"
    then obtain j where "j \<in> set ?is" "segment_name ?i = segment_name j" using inv unfolding rec_inv_def by blast
    then show False using name_neq [OF bnd, of j] lt by (metis less_trans bnd nat_neq_iff)
  qed
  obtain w where w: "open_new_file env (clamp_blocks n) ?i (rc_dir r) = (w, OK, put_file (segment_name ?i) (sw_file w) (rc_dir r))"
    "held_by xxh n (?i, []) (segment_name ?i, touch (we_page_size env) w)" using prepare_held [OF env fresh] by blast
  have r': "r' = r\<lparr>rc_next_index := ?i + 1, rc_prepared := rc_prepared r @ [(segment_name ?i, touch (we_page_size env) w)],
      rc_dir := put_file (segment_name ?i) (sw_file (touch (we_page_size env) w)) (put_file (segment_name ?i) (sw_file w) (rc_dir r))\<rparr>"
    using prep True inv w(1) by (simp add: prepare_one_def rec_inv_def Let_def)
  have "on_disk xxh n (rc_dir r') t" if "t \<in> set closed" for t
  proof -
    have "fst t \<in> set ?is" using that by simp
    then have "fst t < ?i" "fst t < max_index" using lt index_bound [OF inv] by blast+
    moreover have "on_disk xxh n (rc_dir r) t" using inv that by (simp add: rec_inv_def)
    ultimately show ?thesis unfolding r' using bnd by (simp add: on_disk_put)
  qed
  moreover have "names_are (rc_dir r') (?is @ [?i])" unfolding r' using inv by (simp add: rec_inv_def dom_update distinct_update)
  moreover have "list_all2 (\<lambda>i. held_by xxh n (i, [])) (preps @ [?i]) (rc_prepared r')"
    unfolding r' using inv w(2) by (simp add: rec_inv_def list_all2_appendI)
  ultimately have "rec_inv xxh n closed pend actv (preps @ [?i]) r'"
    using inv lt bnd unfolding rec_inv_def r' by (simp add: sorted_wrt_append less_Suc_eq ball_Un)
  then show ?thesis by blast
qed

lemma step_persist:
  assumes inv: "rec_inv xxh n closed pend actv preps r" and env: "env_good env"
  shows "\<exists>r' closed' pend'. persist_next_segment xxh env r = Some r' \<and> rec_inv xxh n closed' pend' actv preps r' \<and> closed' @ pend' = closed @ pend \<and>
    length pend' = length pend - 1 \<and> r' = r\<lparr>rc_persist := rc_persist r', rc_dir := rc_dir r'\<rparr>"
proof (cases "rc_persist r")
  case Nil
  then have "persist_next_segment xxh env r = Some r" by (simp add: persist_next_segment_def)
  moreover have "length pend = length pend - 1" using inv Nil by (simp add: rec_inv_def)
  moreover have "r = r\<lparr>rc_persist := rc_persist r, rc_dir := rc_dir r\<rparr>" by simp
  ultimately show ?thesis using inv by blast
next
  case (Cons nw q)
  obtain name w where nw: "nw = (name, w)" by (cases nw)
  obtain s rest where s: "pend = s # rest" "held_by xxh n s (name, w)" "list_all2 (held_by xxh n) rest q"
    using inv Cons nw by (auto simp: rec_inv_def list_all2_Cons2)
  have nm: "name = segment_name (fst s)" using s(2) by (simp add: held_by_def)
  have "log_ok ((log_of closed @ snd s) @ log_of (rest @ actv))" using inv s(1) by (simp add: rec_inv_def)
  then have "log_ok (snd s)" by (auto simp: log_ok_def events_ok_def ids_increase_iff sorted_wrt_append)
  then obtain w' where w': "close_segment xxh (we_io env name) (we_now env) True w = Some (w', OK)" "finished xxh (of_nat (fst s)) n (snd s) (sw_file w')"
    using held_close [OF s(2)] env unfolding env_good_def by blast
  let ?r = "r\<lparr>rc_persist := q, rc_dir := put_file name (sw_file w') (rc_dir r)\<rparr>"
  have srt: "sorted_wrt (<) (map fst (closed @ (s # rest) @ actv) @ preps)" using inv s(1) by (simp add: rec_inv_def)
  have "on_disk xxh n (put_file name (sw_file w') (rc_dir r)) t" if "t \<in> set closed" for t
  proof -
    have "fst t < fst s" using srt that by (auto simp: sorted_wrt_append)
    moreover have "fst t < max_index" "fst s < max_index" using index_bound [OF inv] that s(1) by auto
    ultimately show ?thesis using inv that unfolding nm by (intro on_disk_put) (auto simp: rec_inv_def)
  qed
  moreover have "on_disk xxh n (put_file name (sw_file w') (rc_dir r)) s" using w'(2) nm by (simp add: on_disk_def update_conv')
  moreover have "names_are (put_file name (sw_file w') (rc_dir r)) (map fst (closed @ pend @ actv) @ preps)"
    unfolding nm by (rule names_put_same) (use inv s(1) in \<open>auto simp: rec_inv_def\<close>)
  ultimately have "rec_inv xxh n (closed @ [s]) rest actv preps ?r" using inv s by (simp add: rec_inv_def)
  moreover have "persist_next_segment xxh env r = Some ?r" using Cons nw w'(1) by (simp add: persist_next_segment_def)
  ultimately show ?thesis using s(1) by (intro exI [of _ ?r] exI [of _ "closed @ [s]"] exI [of _ rest]) simp
qed

lemma step_maintain:
  assumes inv: "rec_inv xxh n closed pend actv preps r" and env: "env_good env"
  shows "\<exists>r' closed' pend'. maintainer_round xxh compress env r = Some r' \<and> rec_inv xxh n closed' pend' actv preps r' \<and> closed' @ pend' = closed @ pend"
proof -
  obtain r' closed' pend' where r': "persist_next_segment xxh env r = Some r'" "rec_inv xxh n closed' pend' actv preps r'" "closed' @ pend' = closed @ pend"
    using step_persist [OF inv env] by blast
  have "maintainer_round xxh compress env r = Some r'"
    using r'(1,2) by (simp add: maintainer_round_def freeze_next_segment_def free_next_segment_def rec_inv_def)
  then show ?thesis using r' by blast
qed

lemma rec_step_inv:
  assumes "rc_step xxh env_good r evs r'" and inv: "rec_inv xxh n closed pend actv preps r" and ok: "log_ok (log_of (closed @ pend @ actv) @ evs)"
  shows "\<exists>closed' pend' actv' preps'. rec_inv xxh n closed' pend' actv' preps' r' \<and> log_of (closed' @ pend' @ actv') = log_of (closed @ pend @ actv) @ evs"
  using assms(1)
proof (cases rule: rc_step.cases)
  case (rc_append name w ev)
  from step_append [OF inv rc_append(3-5)] ok rc_append(1) obtain s where s: "actv = [s]" "rec_inv xxh n closed pend [(fst s, snd s @ [ev])] preps r'" by auto
  then have "log_of (closed @ pend @ [(fst s, snd s @ [ev])]) = log_of (closed @ pend @ actv) @ evs" using rc_append(1) by simp
  then show ?thesis using s(2) by blast
next
  case (rc_plan name w)
  from step_plan [OF inv rc_plan(5,6)] rc_plan(1) show ?thesis by force
next
  case rc_hand_over
  from step_hand_over [OF inv rc_hand_over(3)] rc_hand_over(1) show ?thesis by force
next
  case rc_next
  from step_next [OF inv rc_next(2,3)] obtain i rest where i: "actv = []" "rec_inv xxh n closed pend [(i, [])] rest r'" by blast
  then have "log_of (closed @ pend @ [(i, [])]) = log_of (closed @ pend @ actv) @ evs" using rc_next(1) by simp
  then show ?thesis using i(2) by blast
next
  case (rc_prepare env)
  from step_prepare [OF inv rc_prepare(2-4)] rc_prepare(1) show ?thesis by force
next
  case (rc_maintain env compress)
  from step_maintain [OF inv rc_maintain(2), of compress] rc_maintain(3) obtain closed' pend' where
    m: "rec_inv xxh n closed' pend' actv preps r'" "closed' @ pend' = closed @ pend" by auto
  then have "log_of (closed' @ pend' @ actv) = log_of (closed @ pend @ actv) @ evs" using rc_maintain(1) by (metis append.assoc append_Nil2)
  then show ?thesis using m(1) by blast
next
  case (rc_flush env)
  have "rec_inv xxh n closed pend actv preps r'" using inv rc_flush(2) by (simp add: rec_inv_def meta_flush_round_def)
  then show ?thesis using rc_flush(1) by force
qed

lemma rec_run_inv:
  assumes "rc_run xxh env_good r evs r'" and "rec_inv xxh n closed pend actv preps r" and "log_ok (log_of (closed @ pend @ actv) @ evs)"
  shows "\<exists>closed' pend' actv' preps'. rec_inv xxh n closed' pend' actv' preps' r' \<and> log_of (closed' @ pend' @ actv') = log_of (closed @ pend @ actv) @ evs"
  using assms
proof (induction rule: rc_run.induct)
  case (rc_run_refl r)
  then show ?case by force
next
  case (rc_run_step r evs r' evs' r'')
  have "log_ok (log_of (closed @ pend @ actv) @ evs)" using rc_run_step.prems(2) log_prefix [of "log_of (closed @ pend @ actv) @ evs" evs'] by simp
  from rc_run_step.IH [OF rc_run_step.prems(1) this] obtain closed' pend' actv' preps' where
    i: "rec_inv xxh n closed' pend' actv' preps' r'" "log_of (closed' @ pend' @ actv') = log_of (closed @ pend @ actv) @ evs" by blast
  have "log_ok (log_of (closed' @ pend' @ actv') @ evs')" using rc_run_step.prems(2) unfolding i(2) by simp
  from rec_step_inv [OF rc_run_step.hyps(2) i(1) this] show ?case unfolding i(2) by simp
qed

text \<open>A call of \<open>append\<close> that does not have to wait is such a run, with the three steps of a rotation before the append when the segment is full.\<close>

lemma recorder_append_run:
  assumes inv: "rec_inv xxh n closed pend actv preps r" and rot: "rc_rotation r = Appending" and room: "length (rc_wal_files r) < HOT_CAPACITY"
    and app: "recorder_append xxh ev r = Some (r', OK)"
  shows "rc_run xxh env_good r [ev] r'"
proof -
  obtain name w where w: "rc_writer r = Some (name, w)" using app by (auto simp: recorder_append_def split: option.splits)
  show ?thesis
  proof (cases "segment_is_full w")
    case False
    then have "append_to_writer xxh ev r = Some (r', OK)" using app w by (simp add: recorder_append_def)
    from rc_run.rc_run_step [OF rc_run.rc_run_refl rc_step.rc_append [OF rot w False this]] show ?thesis by simp
  next
    case True
    then obtain r3 where r3: "rotate_segment r = Some (r3, OK)" "append_to_writer xxh ev r3 = Some (r', OK)"
      using app w by (cases "rotate_segment r") (auto simp: recorder_append_def split: if_splits prod.splits)
    then obtain r1 r2 where r12: "plan_rotation r = Some r1" "persist_current_segment r1 = Some r2" "prepare_next_segment r2 = Some (r3, OK)"
      by (auto simp: rotate_segment_def bind_eq_Some_conv)
    have rots: "rc_rotation r1 = Planned" "rc_rotation r2 = Handed_Over" "rc_rotation r3 = Appending"
    proof -
      show "rc_rotation r1 = Planned" using r12(1) w by (auto simp: plan_rotation_def split: if_splits)
      show "rc_rotation r2 = Handed_Over" using r12(2) by (cases "rc_writer r1") (auto simp: persist_current_segment_def split: if_splits)
      show "rc_rotation r3 = Appending" using r12(3) by (cases "rc_prepared r2") (auto simp: prepare_next_segment_def Let_def split: if_splits)
    qed
    have i2: "rec_inv xxh n closed (pend @ actv) [] preps r2" by (rule step_hand_over [OF step_plan [OF inv room r12(1)] r12(2)])
    obtain i rest where i3: "rec_inv xxh n closed (pend @ actv) [(i, [])] rest r3" using step_next [OF i2 rots(2) r12(3)] by blast
    obtain nm v where v: "rc_writer r3 = Some (nm, v)" using r3(2) by (auto simp: append_to_writer_def split: option.splits)
    obtain s where "[(i, [])] = [s]" "held_by xxh n s (nm, v)" using rec_inv_writer [OF i3 v] by metis
    then have nf: "\<not> segment_is_full v" using fresh_not_full [of xxh n i nm v] by simp
    have "rc_run xxh env_good r ((([] @ []) @ []) @ []) r3"
      by (rule rc_run.rc_run_step [OF rc_run.rc_run_step [OF rc_run.rc_run_step [OF rc_run.rc_run_refl rc_step.rc_plan [OF rot w True room r12(1)]]
        rc_step.rc_hand_over [OF rots(1) r12(2)]] rc_step.rc_next [OF rots(2) r12(3)]])
    from rc_run.rc_run_step [OF this rc_step.rc_append [OF rots(3) v nf r3(2)]] show ?thesis by simp
  qed
qed

section \<open>Shutdown\<close>

lemma persist_all_inv:
  assumes "rec_inv xxh n closed pend actv preps r" and "env_good env" and "length pend \<le> k"
  shows "\<exists>r'. persist_all xxh env k r = Some r' \<and> rec_inv xxh n (closed @ pend) [] actv preps r'"
  using assms
proof (induction k arbitrary: closed pend r)
  case (Suc k)
  obtain r1 closed1 pend1 where r1: "persist_next_segment xxh env r = Some r1" "rec_inv xxh n closed1 pend1 actv preps r1" "closed1 @ pend1 = closed @ pend"
    "length pend1 = length pend - 1" using step_persist [OF Suc.prems(1,2)] by blast
  have "length pend1 \<le> k" using r1(4) Suc.prems(3) by simp
  from Suc.IH [OF r1(2) Suc.prems(2) this] r1(3) obtain r' where "persist_all xxh env k r1 = Some r'" "rec_inv xxh n (closed @ pend) [] actv preps r'" by auto
  then show ?case using r1(1) by auto
qed simp

lemma release_prepared:
  assumes "list_all2 (\<lambda>i. held_by xxh n (i, [])) is nws"
  shows "release_all xxh env nws d = Some (fold (\<lambda>i. remove_file (segment_name i)) is d)"
  using assms
proof (induction "is" nws arbitrary: d rule: list_all2_induct)
  case (Cons i "is" nw nws)
  obtain name w where nw: "nw = (name, w)" by (cases nw)
  then have "name = segment_name i" using Cons.hyps(1) by (simp add: held_by_def)
  then show ?case using release_empty [of xxh n i name w] Cons nw by simp
qed simp

lemma fold_remove_names: "map fst (fold (\<lambda>i. remove_file (segment_name i)) is d) = filter (\<lambda>name. name \<notin> segment_name ` set is) (map fst d)"
  by (induction "is" arbitrary: d) (auto simp: delete_keys removeAll_filter_not_eq intro: filter_cong)

lemma fold_remove_names_are:
  assumes "names_are d (js @ is)" and "\<forall>i \<in> set (js @ is). i < max_index" and "\<forall>j \<in> set js. \<forall>i \<in> set is. j \<noteq> i"
  shows "names_are (fold (\<lambda>i. remove_file (segment_name i)) is d) js"
proof -
  define A where "A = segment_name ` set js"
  define B where "B = segment_name ` set is"
  have "x \<notin> B" if x: "x \<in> A" for x
  proof
    assume "x \<in> B"
    then obtain i where i: "x = segment_name i" "i \<in> set is" unfolding B_def by (rule imageE)
    obtain j where j: "x = segment_name j" "j \<in> set js" using x unfolding A_def by (rule imageE)
    have "j < max_index" "i < max_index" "j \<noteq> i" using assms(2,3) i(2) j(2) by auto
    then show False using name_neq [of j i] i(1) j(1) by metis
  qed
  moreover have "set (map fst d) = A \<union> B" using assms(1) by (simp add: A_def B_def image_Un)
  ultimately have "{x \<in> set (map fst d). x \<notin> B} = A" by blast
  then show ?thesis using assms(1) unfolding fold_remove_names set_filter A_def B_def by simp
qed

lemma fold_remove_on_disk:
  assumes "on_disk xxh n d s" and "fst s < max_index" and "\<forall>i \<in> set is. i < max_index \<and> i \<noteq> fst s"
  shows "on_disk xxh n (fold (\<lambda>i. remove_file (segment_name i)) is d) s"
  using assms by (induction "is" arbitrary: d) (simp_all add: on_disk_remove)

lemma shutdown_clean:
  assumes inv: "rec_inv xxh n closed pend actv preps r" and env: "env_good env" and w: "rc_writer r = Some nw" and room: "length (rc_persist r) < PERSIST_CAPACITY"
  shows "\<exists>r'. recorder_shutdown xxh env r = Some r' \<and> clean_log xxh n (closed @ pend @ actv) (rc_dir r')"
proof -
  obtain r1 where r1: "persist_current_segment r = Some r1" using w room by (simp add: persist_current_segment_def)
  have i1: "rec_inv xxh n closed (pend @ actv) [] preps r1" using step_hand_over [OF inv r1] .
  have "list_all2 (held_by xxh n) (pend @ actv) (rc_persist r1)" using i1 by (simp add: rec_inv_def)
  then have len: "length (pend @ actv) \<le> length (rc_persist r1)" using list_all2_lengthD by fastforce
  obtain r2 where r2: "persist_all xxh env (length (rc_persist r1)) r1 = Some r2" "rec_inv xxh n (closed @ pend @ actv) [] [] preps r2"
    using persist_all_inv [OF i1 env len] by auto
  define r3 where "r3 = meta_flush_round env (r2\<lparr>rc_meta := meta_update (rc_meta_state r2) (rc_meta r2)\<rparr>)"
  have i3: "rec_inv xxh n (closed @ pend @ actv) [] [] preps r3" using r2(2) by (simp add: rec_inv_def r3_def meta_flush_round_def)
  let ?d = "fold (\<lambda>i. remove_file (segment_name i)) preps (rc_dir r3)" and ?segs = "closed @ pend @ actv"
  have I: "list_all2 (\<lambda>i. held_by xxh n (i, [])) preps (rc_prepared r3)" "sorted_wrt (<) (map fst ?segs @ preps)" "names_are (rc_dir r3) (map fst ?segs @ preps)"
    "\<forall>s \<in> set ?segs. on_disk xxh n (rc_dir r3) s" "log_ok (log_of ?segs)" using i3 by (simp_all add: rec_inv_def)
  have bnd: "\<forall>i \<in> set (map fst ?segs @ preps). i < max_index" using index_bound [OF i3] by simp
  have dis: "i \<noteq> j" if "i \<in> set (map fst ?segs)" "j \<in> set preps" for i j using I(2) that unfolding sorted_wrt_append by (metis less_irrefl)
  have "stop_preparer xxh env r3 = Some (r3\<lparr>rc_running := False, rc_prepared := [], rc_dir := ?d\<rparr>)"
    using release_prepared [OF I(1)] by (simp add: stop_preparer_def)
  then have sd: "recorder_shutdown xxh env r = Some (r3\<lparr>rc_running := False, rc_prepared := [], rc_dir := ?d\<rparr>)"
    using r1 r2(1) by (simp add: recorder_shutdown_def r3_def)
  have "\<forall>j \<in> set (map fst ?segs). \<forall>i \<in> set preps. j \<noteq> i" by (intro ballI dis)
  then have "names_are ?d (map fst ?segs)" by (rule fold_remove_names_are [OF I(3) bnd])
  moreover have "on_disk xxh n ?d s" if s: "s \<in> set ?segs" for s
  proof (rule fold_remove_on_disk)
    show "on_disk xxh n (rc_dir r3) s" using I(4) s by blast
    have m: "fst s \<in> set (map fst ?segs)" using s by (simp only: set_map image_eqI)
    show "fst s < max_index" using bnd m by (metis Un_iff set_append)
    show "\<forall>i \<in> set preps. i < max_index \<and> i \<noteq> fst s"
    proof (intro ballI conjI)
      fix i assume i: "i \<in> set preps"
      show "i < max_index" using bnd i by (metis Un_iff set_append)
      show "i \<noteq> fst s" using dis [OF m i] by blast
    qed
  qed
  moreover have "\<forall>s \<in> set ?segs. fst s < max_index" using bnd by auto
  moreover have "sorted_wrt (<) (map fst ?segs)" using I(2) unfolding sorted_wrt_append by blast
  ultimately have "clean_log xxh n ?segs ?d" using I(5) by (simp add: clean_log_def)
  then show ?thesis using sd by auto
qed

section \<open>Start\<close>

lemma names_increase: "sorted_wrt (<) is \<Longrightarrow> \<forall>i \<in> set is. i < max_index \<Longrightarrow> sorted_wrt (<) (map segment_name is)"
  by (auto simp: sorted_wrt_map max_index_def intro: sorted_wrt_mono_rel [OF segment_name_less])

lemma names_sorted:
  assumes "names_are d is" and "sorted_wrt (<) is" and "\<forall>i \<in> set is. i < max_index"
  shows "wal_names d = map segment_name is"
proof (rule sorted_distinct_set_unique)
  have "\<forall>name \<in> set (map fst d). path_extension name = ''.wal''" using assms(1) by auto
  then have f: "filter (\<lambda>name. path_extension name = ''.wal'') (map fst d) = map fst d" by (rule filter_True)
  show "sorted (wal_names d)" by (simp add: wal_names_def)
  show "distinct (wal_names d)" "set (wal_names d) = set (map segment_name is)" unfolding wal_names_def f using assms(1) by simp_all
  have "sorted_wrt (<) (map segment_name is)" using assms(2,3) by (rule names_increase)
  then show "sorted (map segment_name is)" "distinct (map segment_name is)" by (auto simp: strict_sorted_iff)
qed

lemma integrity_header:
  assumes "verify_full_segment_integrity xxh c len = (h, OK)" and "HEADER_SIZE \<le> length c"
  shows "read_segment_header xxh c = (h, OK)"
  using assms by (auto simp: verify_full_segment_integrity_def read_segment_header_def Let_def split: wal_status.splits prod.splits if_splits)

lemma finished_reopens:
  assumes "finished xxh (of_nat i) n evs c" and "log_ok evs" and "io_ok io"
  shows "\<exists>w. open_existing_segment xxh io (SegmentWriter_init (clamp_blocks n) c) = (w, OK) \<and> held_by xxh n (i, evs) (segment_name i, w) \<and>
    sh_segment_index (sw_header w) = of_nat i \<and> snd (read_segment_header xxh c) = OK"
proof -
  obtain now now' cs cur where F: "length c = HEADER_SIZE + clamp_blocks n * BLOCK_SIZE"
    "segment_image xxh (header_finalize xxh now' (chain xxh 0 (cs @ last_chunk cur)) (header_for (of_nat i) now (length (cs @ last_chunk cur)) (concat cs @ cur))) (cs @ last_chunk cur) c"
    "concat cs @ cur = evs" "\<forall>c \<in> set cs. length c = WAL_BLOCK_EVENTS" "length cur < WAL_BLOCK_EVENTS" "\<forall>c \<in> set (cs @ last_chunk cur). chunk_valid c"
    using assms(1) unfolding finished_def by blast
  have ev: "events_ok (concat cs @ cur)" using assms(2) F(3) by (simp add: log_ok_def)
  obtain w where w: "open_existing_segment xxh io (SegmentWriter_init (clamp_blocks n) c) = (w, OK)" "writer_inv xxh (of_nat i) now cs cur w"
    "sw_num_blocks w = clamp_blocks n" using open_existing_inv [OF F(2,4,5) ev F(6), of "clamp_blocks n" io] F(1) assms(3) by auto
  obtain k where k: "unclosed (sw_header w) = header_for (of_nat i) now k (concat cs @ cur)" using w(2) by (auto simp: writer_inv_def)
  have "sh_segment_index (sw_header w) = sh_segment_index (unclosed (sw_header w))" by (simp add: unclosed_def)
  then have idx: "sh_segment_index (sw_header w) = of_nat i" unfolding k by (simp add: header_for_def initial_header_def)
  have "length (cs @ last_chunk cur) * BLOCK_SIZE \<le> clamp_blocks n * BLOCK_SIZE" using F(1,2) by (simp add: segment_image_def)
  then have nb: "length (cs @ last_chunk cur) \<le> clamp_blocks n" using block_events_bounds(3) by simp
  have "length evs \<le> length (cs @ last_chunk cur) * WAL_BLOCK_EVENTS"
    using concat_full_length [OF F(4)] F(3) [symmetric] F(5) by (simp add: last_chunk_def)
  also have "\<dots> \<le> clamp_blocks n * WAL_BLOCK_EVENTS" using nb by (rule mult_le_mono1)
  finally have "held_by xxh n (i, evs) (segment_name i, w)" using w(2,3) F(3) by (auto simp: held_by_def)
  moreover have "snd (read_segment_header xxh c) = OK"
  proof -
    have "snd (verify_full_segment_integrity xxh c (length c)) = OK"
      using w(1) assms(3) F(1) by (auto simp: open_existing_segment_def SegmentWriter_init_def Let_def split: prod.splits wal_status.splits)
    then obtain h where "verify_full_segment_integrity xxh c (length c) = (h, OK)" by (metis prod.collapse)
    then show ?thesis using integrity_header [of xxh c "length c" h] F(1) by simp
  qed
  ultimately show ?thesis using w(1) idx by blast
qed

abbreviation started :: "string list \<Rightarrow> string list \<Rightarrow> nat \<Rightarrow> recorder \<Rightarrow> recorder" where
  "started hot cold i r \<equiv> r\<lparr>rc_wal_files := hot, rc_wals := [], rc_lz4_files := cold, rc_lz4s := [], rc_next_index := i, rc_running := True\<rparr>"

lemma scratch_inv:
  assumes r: "rc_num_blocks r = clamp_blocks n" "rc_dir r = []" "rc_free r = []" "rc_freeze r = []" "rc_persist r = []" "rc_prepared r = []" "rc_rotation r = Appending"
    and env: "env_good env"
  shows "\<exists>r'. prepare_first_segment_from_scratch xxh env r = Some (r', OK) \<and> rc_meta_state r' = MetaState_init \<and> rc_rotation r' = Appending \<and>
    (\<forall>hot cold. rec_inv xxh n [] [] [(0, [])] [] (started hot cold 1 r'))"
proof -
  have "segment_name 0 \<notin> set (map fst (rc_dir r))" using r(2) by simp
  from prepare_held [OF env this] obtain w where w: "open_new_file env (clamp_blocks n) 0 (rc_dir r) = (w, OK, put_file (segment_name 0) (sw_file w) (rc_dir r))"
    "held_by xxh n (0, []) (segment_name 0, w)" by blast
  let ?r = "r\<lparr>rc_meta_state := MetaState_init, rc_writer := Some (segment_name 0, w), rc_dir := put_file (segment_name 0) (sw_file w) (rc_dir r),
    rc_meta := meta_update MetaState_init (rc_meta r)\<rparr>"
  have "prepare_first_segment_from_scratch xxh env r = Some (?r, OK)" using r(1) w(1) by (simp add: prepare_first_segment_from_scratch_def)
  moreover have "log_ok []" by (simp add: log_ok_def events_ok_def)
  then have "rec_inv xxh n [] [] [(0, [])] [] (started hot cold 1 ?r)" for hot cold
    using r w(2) by (simp add: rec_inv_def active_some max_index_def)
  ultimately show ?thesis using r(7) by (intro exI [of _ ?r]) simp
qed

lemma reopen_inv:
  assumes cl: "clean_log xxh n (segs @ [(i, evs)]) d" and env: "env_good env" and small: "i + 1 < max_index"
    and r: "rc_num_blocks r = clamp_blocks n" "rc_dir r = d" "rc_wals r = map segment_name (map fst segs @ [i])"
      "rc_free r = []" "rc_freeze r = []" "rc_persist r = []" "rc_prepared r = []" "rc_rotation r = Appending"
  shows "\<exists>r'. prepare_first_segment_from_scanned xxh env r = Some (r', OK) \<and> unat (ms_last_segment_index (rc_meta_state r') + 1) = i + 1 \<and>
    (\<forall>hot cold. rec_inv xxh n segs [] [(i, evs)] [] (started hot cold (i + 1) r'))"
proof -
  have C: "on_disk xxh n d (i, evs)" "log_ok (log_of segs @ evs)" "sorted_wrt (<) (map fst segs @ [i])" "names_are d (map fst segs @ [i])"
    "\<forall>s \<in> set segs. on_disk xxh n d s" using cl by (simp_all add: clean_log_def)
  have lo: "log_ok evs" using C(2) by (auto simp: log_ok_def events_ok_def ids_increase_iff sorted_wrt_append)
  obtain c where c: "map_of d (segment_name i) = Some c" "finished xxh (of_nat i) n evs c" using C(1) by (auto simp: on_disk_def)
  have "io_ok (we_io env (segment_name i))" using env by (simp add: env_good_def)
  from finished_reopens [OF c(2) lo this] obtain w where
    w: "open_existing_segment xxh (we_io env (segment_name i)) (SegmentWriter_init (clamp_blocks n) c) = (w, OK)" "held_by xxh n (i, evs) (segment_name i, w)"
      "sh_segment_index (sw_header w) = of_nat i" by blast
  let ?r = "r\<lparr>rc_wals := rc_wals r, rc_dir := d, rc_writer := Some (segment_name i, w), rc_meta_state := writer_meta w, rc_meta := meta_update (writer_meta w) (rc_meta r)\<rparr>"
  have "prepare_first_segment_from_scanned xxh env r = Some (?r, OK)"
    using r(1-3) c(1) w(1) by (simp add: prepare_first_segment_from_scanned_def open_existing_file_def)
  moreover have "unat (ms_last_segment_index (writer_meta w) + 1) = i + 1"
  proof -
    have "unat (of_nat (i + 1) :: u32) = i + 1" unfolding unat_of_nat using small by (intro mod_less) (simp add: max_index_def)
    moreover have "ms_last_segment_index (writer_meta w) + 1 = of_nat (i + 1)" using w(3) by (simp add: writer_meta_def)
    ultimately show ?thesis by (simp only:)
  qed
  moreover have "rec_inv xxh n segs [] [(i, evs)] [] (started hot cold (i + 1) ?r)" for hot cold
  proof -
    have "\<forall>j \<in> set (map fst segs @ [i]). j < i + 1" using C(3) by (auto simp: sorted_wrt_append)
    then show ?thesis using r(1,4-8) C(2-5) w(2) small by (simp add: rec_inv_def active_some)
  qed
  ultimately show ?thesis by (intro exI [of _ ?r]) simp
qed

lemma recover_empty:
  assumes "rc_wals r = []"
  shows "\<exists>ms store b. recover_last_state xxh env r = (r\<lparr>rc_meta_state := ms, rc_meta := store\<rparr>, b)"
proof -
  obtain store b where l: "meta_load (we_meta_open env) (rc_meta r) = (store, b)" by (cases "meta_load (we_meta_open env) (rc_meta r)")
  have "recover_last_state_when_meta_is_missing xxh env (r\<lparr>rc_meta := store\<rparr>) = (r\<lparr>rc_meta_state := rc_meta_state r, rc_meta := store\<rparr>, False)"
    using assms by (cases r) (simp add: recover_last_state_when_meta_is_missing_def)
  then show ?thesis using l assms by (cases b; cases r) (auto simp: recover_last_state_def Let_def)
qed

lemma recover_valid:
  assumes "rc_wals r = ws @ [name]" and "map_of (rc_dir r) name = Some c" and "read_segment_header xxh c = (h, OK)"
  shows "\<exists>ms store. recover_last_state xxh env r = (r\<lparr>rc_meta_state := ms, rc_meta := store\<rparr>, True)"
proof -
  obtain store b where l: "meta_load (we_meta_open env) (rc_meta r) = (store, b)" by (cases "meta_load (we_meta_open env) (rc_meta r)")
  have m: "\<exists>ms'. recover_last_state_when_meta_is_missing xxh env (r\<lparr>rc_meta := store, rc_meta_state := ms\<rparr>) = (r\<lparr>rc_meta_state := ms', rc_meta := store\<rparr>, True)" for ms
    using assms by (cases r) (simp add: recover_last_state_when_meta_is_missing_def)
  show ?thesis
  proof (cases b)
    case True
    then show ?thesis using l m [of "get_state store"] by (cases r) (auto simp: recover_last_state_def Let_def)
  next
    case False
    then have "recover_last_state xxh env r = recover_last_state_when_meta_is_missing xxh env (r\<lparr>rc_meta := store, rc_meta_state := rc_meta_state r\<rparr>)"
      using l by (cases r) (simp add: recover_last_state_def)
    then show ?thesis using m by metis
  qed
qed

lemma initialize_empty:
  assumes env: "env_good env"
  shows "\<exists>r. recorder_initialize xxh env True (RecorderManager_init n [] meta) = Some (r, OK) \<and> rec_inv xxh n [] [] [(0, [])] [] r \<and> rc_rotation r = Appending"
proof -
  let ?r = "scan_segments (RecorderManager_init n [] meta)"
  have w: "rc_wals ?r = []" by (simp add: scan_segments_def RecorderManager_init_def wal_names_def)
  obtain ms store b where rec: "recover_last_state xxh env ?r = (?r\<lparr>rc_meta_state := ms, rc_meta := store\<rparr>, b)" using recover_empty [OF w] by blast
  define r1 where "r1 = ?r\<lparr>rc_meta_state := ms, rc_meta := store, rc_writer := None\<rparr>"
  have "\<exists>r'. prepare_first_segment_from_scratch xxh env r1 = Some (r', OK) \<and> rc_meta_state r' = MetaState_init \<and> rc_rotation r' = Appending \<and>
      (\<forall>hot cold. rec_inv xxh n [] [] [(0, [])] [] (started hot cold 1 r'))"
    by (rule scratch_inv) (simp_all add: r1_def scan_segments_def RecorderManager_init_def env)
  then obtain r' where r': "prepare_first_segment_from_scratch xxh env r1 = Some (r', OK)" "rc_meta_state r' = MetaState_init"
    "\<And>hot cold. rec_inv xxh n [] [] [(0, [])] [] (started hot cold 1 r')" "rc_rotation r' = Appending" by blast
  have "?r\<lparr>rc_meta_state := ms, rc_meta := store\<rparr> = r1" by (simp add: r1_def scan_segments_def RecorderManager_init_def)
  moreover have "prepare_first_segment_from_scanned xxh env r1 = Some (r1, SEGMENT_NOT_FOUND)"
    by (simp add: prepare_first_segment_from_scanned_def r1_def scan_segments_def RecorderManager_init_def wal_names_def)
  ultimately have "restore_or_create_active_segment xxh env ?r = Some (r', OK)"
    using rec r'(1) by (cases b) (simp_all add: restore_or_create_active_segment_def)
  then show ?thesis using r'(2-4) by (auto simp: recorder_initialize_def MetaState_init_def)
qed

lemma initialize_clean:
  assumes cl: "clean_log xxh n (segs @ [(i, evs)]) d" and env: "env_good env" and small: "i + 1 < max_index"
  shows "\<exists>r. recorder_initialize xxh env True (RecorderManager_init n d meta) = Some (r, OK) \<and> rec_inv xxh n segs [] [(i, evs)] [] r"
proof -
  let ?r = "scan_segments (RecorderManager_init n d meta)" and ?is = "map fst segs @ [i]"
  have "names_are d ?is" "sorted_wrt (<) ?is" "\<forall>i \<in> set ?is. i < max_index" using cl by (auto simp: clean_log_def)
  then have wn: "wal_names d = map segment_name ?is" by (rule names_sorted)
  obtain c where c: "map_of d (segment_name i) = Some c" "finished xxh (of_nat i) n evs c" using cl by (auto simp: clean_log_def on_disk_def)
  have "log_ok evs" using cl by (auto simp: clean_log_def log_ok_def events_ok_def ids_increase_iff sorted_wrt_append)
  then have "snd (read_segment_header xxh c) = OK" using finished_reopens [OF c(2)] env unfolding env_good_def by blast
  then obtain h where h: "read_segment_header xxh c = (h, OK)" by (metis prod.collapse)
  have "rc_wals ?r = map segment_name (map fst segs) @ [segment_name i]" "map_of (rc_dir ?r) (segment_name i) = Some c"
    using wn c(1) by (simp_all add: scan_segments_def RecorderManager_init_def)
  from recover_valid [OF this h] obtain ms store where rec: "recover_last_state xxh env ?r = (?r\<lparr>rc_meta_state := ms, rc_meta := store\<rparr>, True)" by blast
  define r1 where "r1 = ?r\<lparr>rc_meta_state := ms, rc_meta := store\<rparr>"
  have "\<exists>r'. prepare_first_segment_from_scanned xxh env r1 = Some (r', OK) \<and> unat (ms_last_segment_index (rc_meta_state r') + 1) = i + 1 \<and>
      (\<forall>hot cold. rec_inv xxh n segs [] [(i, evs)] [] (started hot cold (i + 1) r'))"
    by (rule reopen_inv [OF cl env small]) (use wn in \<open>simp_all add: r1_def scan_segments_def RecorderManager_init_def\<close>)
  then obtain r' where r': "prepare_first_segment_from_scanned xxh env r1 = Some (r', OK)" "unat (ms_last_segment_index (rc_meta_state r') + 1) = i + 1"
    "\<And>hot cold. rec_inv xxh n segs [] [(i, evs)] [] (started hot cold (i + 1) r')" by blast
  have "restore_or_create_active_segment xxh env ?r = Some (r', OK)" using rec r'(1) by (simp add: restore_or_create_active_segment_def r1_def)
  then show ?thesis using r'(2,3) by (auto simp: recorder_initialize_def)
qed

lemma initialize_inv:
  assumes "clean_log xxh n segs d" and "env_good env" and "\<forall>s \<in> set segs. fst s + 1 < max_index"
  shows "\<exists>r closed actv. recorder_initialize xxh env True (RecorderManager_init n d meta) = Some (r, OK) \<and> rec_inv xxh n closed [] actv [] r \<and>
    log_of (closed @ actv) = log_of segs"
proof (cases segs rule: rev_cases)
  case Nil
  then have "d = []" using assms(1) by (simp add: clean_log_def)
  then obtain r where "recorder_initialize xxh env True (RecorderManager_init n d meta) = Some (r, OK)" "rec_inv xxh n [] [] [(0, [])] [] r"
    using initialize_empty [OF assms(2)] by blast
  moreover have "log_of ([] @ [(0, [])]) = log_of segs" using Nil by simp
  ultimately show ?thesis by blast
next
  case (snoc segs' s)
  obtain i evs where s: "s = (i, evs)" by (cases s)
  have "i + 1 < max_index" using assms(3) snoc s by simp
  from initialize_clean [OF assms(1) [unfolded snoc s] assms(2) this] obtain r where
    "recorder_initialize xxh env True (RecorderManager_init n d meta) = Some (r, OK)" "rec_inv xxh n segs' [] [(i, evs)] [] r" by blast
  then show ?thesis using snoc s by blast
qed

section \<open>Properties\<close>

lemma recorder_log_kept:
  assumes "clean_log xxh n segs d" and "env_good env" and "env_good env'" and "\<forall>s \<in> set segs. fst s + 1 < max_index"
  shows "\<exists>r0. recorder_initialize xxh env True (RecorderManager_init n d meta) = Some (r0, OK) \<and>
    (\<forall>evs r. rc_run xxh env_good r0 evs r \<longrightarrow> rc_rotation r = Appending \<longrightarrow> length (rc_persist r) < PERSIST_CAPACITY \<longrightarrow> log_ok (log_of segs @ evs) \<longrightarrow>
      (\<exists>r' segs'. recorder_shutdown xxh env' r = Some r' \<and> clean_log xxh n segs' (rc_dir r') \<and> log_of segs' = log_of segs @ evs))"
proof -
  obtain r0 closed actv where r0: "recorder_initialize xxh env True (RecorderManager_init n d meta) = Some (r0, OK)" "rec_inv xxh n closed [] actv [] r0"
    "log_of (closed @ actv) = log_of segs" using initialize_inv [OF assms(1,2,4)] by blast
  have "\<exists>r' segs'. recorder_shutdown xxh env' r = Some r' \<and> clean_log xxh n segs' (rc_dir r') \<and> log_of segs' = log_of segs @ evs"
    if run: "rc_run xxh env_good r0 evs r" and rot: "rc_rotation r = Appending" and room: "length (rc_persist r) < PERSIST_CAPACITY" and ok: "log_ok (log_of segs @ evs)" for evs r
  proof -
    have e: "log_of (closed @ [] @ actv) @ evs = log_of segs @ evs" using r0(3) by simp
    obtain closed' pend' actv' preps' where i: "rec_inv xxh n closed' pend' actv' preps' r" "log_of (closed' @ pend' @ actv') = log_of segs @ evs"
      using rec_run_inv [OF run r0(2)] ok unfolding e by blast
    then obtain nw where "rc_writer r = Some nw" using rot by (cases "rc_writer r") (auto simp: rec_inv_def active_ok_def)
    from shutdown_clean [OF i(1) assms(3) this room] i(2) show ?thesis by blast
  qed
  then show ?thesis using r0(1) by blast
qed


definition good_env :: wal_env where
  "good_env = \<lparr>we_io = \<lambda>name. good_io, we_now = 1, we_remove = \<lambda>name. True, we_page_size = 4096, we_meta_open = True,
     we_meta = \<lparr>mo_open = True, mo_write_state = True, mo_write_event = True, mo_fdatasync = True, mo_rename = True\<rparr>\<rparr>"

lemma good_env [simp]: "env_good good_env"
  by (simp add: env_good_def good_env_def good_io_def)

lemma empty_log: "clean_log xxh n [] []"
  by (simp add: clean_log_def log_ok_def events_ok_def)

lemma first_append:
  assumes inv: "rec_inv xxh n [] [] [(0, [])] [] r" and rot: "rc_rotation r = Appending" and ok: "log_ok [ev]"
  shows "\<exists>r'. rc_run xxh env_good r [ev] r' \<and> rc_rotation r' = Appending \<and> rc_persist r' = []"
proof -
  obtain name w where w: "rc_writer r = Some (name, w)" using inv by (auto simp: rec_inv_def active_ok_def split: option.splits)
  then have held: "held_by xxh n (0, []) (name, w)" using rec_inv_writer [OF inv w] by blast
  note nf = fresh_not_full [OF held]
  have "event_wf ev" "ev_event_id ev \<noteq> INVALID_EVENT_ID" using ok by (simp_all add: log_ok_def events_ok_def)
  then obtain w' where w': "sw_append xxh ev w = Some (w', OK)" using held_append [OF held nf] by blast
  then obtain r' where r': "append_to_writer xxh ev r = Some (r', OK)" "rc_rotation r' = rc_rotation r" "rc_persist r' = rc_persist r"
    using w by (simp add: append_to_writer_def)
  have "rc_run xxh env_good r ([] @ [ev]) r'" by (rule rc_run.rc_run_step [OF rc_run.rc_run_refl rc_step.rc_append [OF rot w nf r'(1)]])
  moreover have "rc_persist r = []" using inv by (simp add: rec_inv_def)
  ultimately show ?thesis using r'(2,3) rot by auto
qed


end
