(* ===== verification/Wal_Crash.thy ===== *)
theory Wal_Crash
  imports Wal_Recorder_Run
begin

text \<open>
  The recorder started on a directory that a crash left: besides the closed segments it holds files whose header does not pass the check, because their writer never
  closed them (\<open>Wal_Log.unclosed_segment_rejected\<close>).
\<close>

section \<open>Directories with unclosed segments\<close>

definition bad_header :: "hash \<Rightarrow> wal_dir \<Rightarrow> nat \<Rightarrow> bool" where
  "bad_header xxh d j \<longleftrightarrow> (\<exists>c. map_of d (segment_name j) = Some c \<and> snd (read_segment_header xxh c) \<noteq> OK)"

definition crashed_log :: "hash \<Rightarrow> nat \<Rightarrow> segment list \<Rightarrow> nat list \<Rightarrow> wal_dir \<Rightarrow> bool" where
  "crashed_log xxh n segs js d \<longleftrightarrow> sorted_wrt (<) (map fst segs @ js) \<and> (\<forall>i \<in> set (map fst segs @ js). i < max_index) \<and> names_are d (map fst segs @ js) \<and>
     (\<forall>s \<in> set segs. on_disk xxh n d s) \<and> (\<forall>j \<in> set js. bad_header xxh d j) \<and> log_ok (log_of segs)"

abbreviation remove_segments :: "nat list \<Rightarrow> wal_dir \<Rightarrow> wal_dir" where
  "remove_segments js d \<equiv> fold (\<lambda>i. remove_file (segment_name i)) js d"

lemma crashed_snoc:
  assumes "crashed_log xxh n segs (js @ [j]) d"
  shows "crashed_log xxh n segs js (remove_file (segment_name j) d)" and "bad_header xxh d j"
proof -
  have C: "sorted_wrt (<) (map fst segs @ js @ [j])" "\<forall>i \<in> set (map fst segs @ js @ [j]). i < max_index" "names_are d ((map fst segs @ js) @ [j])"
    "\<forall>s \<in> set segs. on_disk xxh n d s" "\<forall>i \<in> set (js @ [j]). bad_header xxh d i" "log_ok (log_of segs)" using assms by (simp_all add: crashed_log_def)
  show "bad_header xxh d j" using C(5) by simp
  have neq: "\<forall>i \<in> set (map fst segs @ js). \<forall>k \<in> set [j]. i \<noteq> k" using C(1) by (auto simp: sorted_wrt_append)
  have "names_are (remove_segments [j] d) (map fst segs @ js)" by (rule fold_remove_names_are [OF C(3) _ neq]) (use C(2) in simp)
  then have nm: "names_are (remove_file (segment_name j) d) (map fst segs @ js)" by simp
  have "on_disk xxh n (remove_file (segment_name j) d) s" if s: "s \<in> set segs" for s
  proof (rule on_disk_remove)
    show "on_disk xxh n d s" "fst s < max_index" "j < max_index" "fst s \<noteq> j" using C(2,4) neq s by auto
  qed
  moreover have "bad_header xxh (remove_file (segment_name j) d) i" if i: "i \<in> set js" for i
  proof -
    have "i < max_index" "j < max_index" "i \<noteq> j" using C(2) neq i by auto
    then have "segment_name i \<noteq> segment_name j" by (rule name_neq)
    then show ?thesis using C(5) i by (simp add: bad_header_def)
  qed
  moreover have "sorted_wrt (<) (map fst segs @ js)" using C(1) by (auto simp: sorted_wrt_append)
  ultimately show "crashed_log xxh n segs js (remove_file (segment_name j) d)" using C(2,6) nm by (simp add: crashed_log_def)
qed

lemma crashed_clean:
  assumes "crashed_log xxh n segs js d"
  shows "clean_log xxh n segs (remove_segments (rev js) d)"
  using assms
proof (induction js arbitrary: d rule: rev_induct)
  case Nil
  then show ?case by (auto simp: crashed_log_def clean_log_def)
next
  case (snoc j js)
  then show ?case using crashed_snoc(1) by simp
qed

section \<open>The two scans\<close>

lemma headers_pop:
  assumes "crashed_log xxh n segs js d" and "\<forall>name. we_remove env name"
  shows "recover_from_headers xxh env (rev (map segment_name (is @ js))) d ms = recover_from_headers xxh env (rev (map segment_name is)) (remove_segments (rev js) d) ms"
  using assms(1)
proof (induction js arbitrary: d rule: rev_induct)
  case (snoc j js)
  obtain c where c: "map_of d (segment_name j) = Some c" "snd (read_segment_header xxh c) \<noteq> OK" using crashed_snoc(2) [OF snoc.prems] by (auto simp: bad_header_def)
  obtain h st where h: "read_segment_header xxh c = (h, st)" "st \<noteq> OK" using c(2) by (cases "read_segment_header xxh c") simp
  have "recover_from_headers xxh env (rev (map segment_name (is @ js @ [j]))) d ms =
      recover_from_headers xxh env (rev (map segment_name (is @ js))) (remove_file (segment_name j) d) ms"
    using c(1) h assms(2) by (cases st) (simp_all add: pop_last_scanned_segment_def)
  also have "\<dots> = recover_from_headers xxh env (rev (map segment_name is)) (remove_segments (rev js) (remove_file (segment_name j) d)) ms"
    by (rule snoc.IH [OF crashed_snoc(1) [OF snoc.prems]])
  finally show ?case by simp
qed simp

lemma bad_open:
  assumes c: "map_of d name = Some c" "snd (read_segment_header xxh c) \<noteq> OK" and rm: "we_remove env name"
  shows "open_last_scanned xxh env n (name # rest) d = open_last_scanned xxh env n rest (remove_file name d)"
proof -
  have bad: "snd (verify_full_segment_integrity xxh c len) \<noteq> OK" if "HEADER_SIZE \<le> length c" for len
    using integrity_header [of xxh c len "fst (verify_full_segment_integrity xxh c len)"] c(2) that by (metis prod.collapse snd_conv)
  obtain w st where o: "open_existing_file xxh env n name d = (w, st)" by (cases "open_existing_file xxh env n name d")
  then have w: "open_existing_segment xxh (we_io env name) (SegmentWriter_init n c) = (w, st)" using c(1) by (simp add: open_existing_file_def)
  obtain h st' where v: "verify_full_segment_integrity xxh c (length c) = (h, st')" by (cases "verify_full_segment_integrity xxh c (length c)")
  have "st \<noteq> OK \<and> sw_bytes_written w = 0" using w v bad [of "length c"]
    by (auto simp: open_existing_segment_def SegmentWriter_init_def Let_def split: if_splits wal_status.splits)
  moreover have "release_writer xxh env (name, w) (remove_file name d) = Some (remove_file name d)"
    using calculation by (simp add: release_writer_def force_close_or_remove_if_needed_def delete_idem)
  ultimately show ?thesis using o rm by (cases st) (simp_all add: pop_last_scanned_segment_def)
qed

lemma scanned_pop:
  assumes "crashed_log xxh n segs js d" and "\<forall>name. we_remove env name"
  shows "open_last_scanned xxh env m (rev (map segment_name (is @ js))) d = open_last_scanned xxh env m (rev (map segment_name is)) (remove_segments (rev js) d)"
  using assms(1)
proof (induction js arbitrary: d rule: rev_induct)
  case (snoc j js)
  obtain c where c: "map_of d (segment_name j) = Some c" "snd (read_segment_header xxh c) \<noteq> OK" using crashed_snoc(2) [OF snoc.prems] by (auto simp: bad_header_def)
  have "open_last_scanned xxh env m (rev (map segment_name (is @ js @ [j]))) d =
      open_last_scanned xxh env m (rev (map segment_name (is @ js))) (remove_file (segment_name j) d)"
    using bad_open [OF c] assms(2) by simp
  also have "\<dots> = open_last_scanned xxh env m (rev (map segment_name is)) (remove_segments (rev js) (remove_file (segment_name j) d))"
    by (rule snoc.IH [OF crashed_snoc(1) [OF snoc.prems]])
  finally show ?case by simp
qed simp

section \<open>The start after a crash\<close>

abbreviation scanned :: "segment list \<Rightarrow> nat list \<Rightarrow> wal_dir \<Rightarrow> meta_state \<Rightarrow> meta_store \<Rightarrow> recorder \<Rightarrow> recorder" where
  "scanned segs js d ms store r \<equiv> r\<lparr>rc_meta_state := ms, rc_meta := store, rc_wals := map segment_name (map fst segs @ js), rc_dir := d\<rparr>"

lemma valid_header:
  assumes "clean_log xxh n segs d" and "segs \<noteq> []"
  shows "\<exists>h c. map_of d (segment_name (fst (last segs))) = Some c \<and> read_segment_header xxh c = (h, OK)"
proof -
  obtain segs' i evs where s: "segs = segs' @ [(i, evs)]" using assms(2) by (metis rev_exhaust surj_pair)
  obtain c where c: "map_of d (segment_name i) = Some c" "finished xxh (of_nat i) n evs c" using assms(1) s by (auto simp: clean_log_def on_disk_def)
  have "log_ok evs" using assms(1) s by (auto simp: clean_log_def log_ok_def events_ok_def ids_increase_iff sorted_wrt_append)
  then have "snd (read_segment_header xxh c) = OK" using finished_reopens [OF c(2), of good_io] sample_log(4) by blast
  then show ?thesis using c(1) s by (cases "read_segment_header xxh c") simp
qed

lemma recover_crashed:
  assumes cr: "crashed_log xxh n segs js d" and rm: "\<forall>name. we_remove env name" and r: "rc_dir r = d" "rc_wals r = map segment_name (map fst segs @ js)"
  shows "\<exists>ms store js' b. recover_last_state xxh env r = (scanned segs js' (if js' = js then d else remove_segments (rev js) d) ms store r, b) \<and>
    (segs \<noteq> [] \<longrightarrow> b) \<and> (js' = js \<or> js' = []) \<and> (\<not> b \<longrightarrow> js' = [])"
proof -
  let ?d = "remove_segments (rev js) d"
  obtain store b where l: "meta_load (we_meta_open env) (rc_meta r) = (store, b)" by (cases "meta_load (we_meta_open env) (rc_meta r)")
  have m: "\<exists>ms' b'. recover_last_state_when_meta_is_missing xxh env (r\<lparr>rc_meta := store, rc_meta_state := ms\<rparr>) = (scanned segs [] ?d ms' store r, b') \<and> (segs \<noteq> [] \<longrightarrow> b')" for ms
  proof (cases "segs = []")
    case True
    then show ?thesis using headers_pop [OF cr rm, of "[]" ms] r by (cases r) (auto simp: recover_last_state_when_meta_is_missing_def)
  next
    case False
    obtain h c where h: "map_of ?d (segment_name (fst (last segs))) = Some c" "read_segment_header xxh c = (h, OK)" using valid_header [OF crashed_clean [OF cr] False] by blast
    have nm: "rev (map segment_name (map fst segs)) = segment_name (fst (last segs)) # rev (map segment_name (map fst (butlast segs)))"
      using False by (cases segs rule: rev_cases) simp_all
    have "recover_from_headers xxh env (rev (map segment_name (map fst segs))) ?d ms =
        (True, \<lparr>ms_last_segment_index = sh_segment_index h, ms_last_offset = header_segment_size h, ms_last_event_id = sh_last_event_id h\<rparr>, rev (map segment_name (map fst segs)), ?d)"
      unfolding nm using h by simp
    then show ?thesis using headers_pop [OF cr rm, of "map fst segs" ms] r by (cases r) (auto simp: recover_last_state_when_meta_is_missing_def)
  qed
  show ?thesis
  proof (cases "b \<and> (rc_wals r = [] \<or> last (rc_wals r) = segment_name (unat (ms_last_segment_index (get_state store))))")
    case True
    then have "recover_last_state xxh env r = (scanned segs js d (get_state store) store r, True)"
      using l r by (cases r) (auto simp: recover_last_state_def Let_def)
    then have "recover_last_state xxh env r = (scanned segs js (if js = js then d else ?d) (get_state store) store r, True)" by simp
    then show ?thesis by blast
  next
    case False
    have "\<exists>ms. recover_last_state xxh env r = recover_last_state_when_meta_is_missing xxh env (r\<lparr>rc_meta := store, rc_meta_state := ms\<rparr>)"
    proof (cases b)
      case True
      then show ?thesis using l False by (cases r) (auto simp: recover_last_state_def Let_def)
    next
      case False
      then show ?thesis using l by (intro exI [of _ "rc_meta_state r"]) (cases r, simp add: recover_last_state_def)
    qed
    then obtain ms' b' where "recover_last_state xxh env r = (scanned segs [] ?d ms' store r, b')" "segs \<noteq> [] \<longrightarrow> b'" using m by metis
    moreover have "(if [] = js then d else ?d) = ?d" by auto
    ultimately have "recover_last_state xxh env r = (scanned segs [] (if [] = js then d else ?d) ms' store r, b')" by (simp only:)
    then show ?thesis using \<open>segs \<noteq> [] \<longrightarrow> b'\<close> by blast
  qed
qed

lemma scanned_pops:
  assumes "crashed_log xxh n segs js d" and "\<forall>name. we_remove env name" and "js' = js \<or> js' = []"
  shows "prepare_first_segment_from_scanned xxh env (scanned segs js' (if js' = js then d else remove_segments (rev js) d) ms store r) =
    prepare_first_segment_from_scanned xxh env (scanned segs [] (remove_segments (rev js) d) ms store r)"
  using scanned_pop [OF assms(1,2), of "rc_num_blocks r" "map fst segs"] assms(3)
  by (auto simp: prepare_first_segment_from_scanned_def split: option.splits prod.splits)

text \<open>C33: a crash costs every segment that was not closed. Started on a directory with closed segments and with files that do not pass the header check, the recorder removes all of
  the latter, whether or not the metadata names one of them, and goes on from the log of the closed segments alone.\<close>

theorem crash_drops_unclosed_segments:
  assumes cr: "crashed_log xxh n segs js d" and env: "env_good env" and rm: "\<forall>name. we_remove env name" and small: "\<forall>s \<in> set segs. fst s + 1 < max_index"
  shows "\<exists>r closed actv. recorder_initialize xxh env True (RecorderManager_init n d meta) = Some (r, OK) \<and> rec_inv xxh n closed [] actv [] r \<and>
    log_of (closed @ actv) = log_of segs \<and> set (map fst (rc_dir r)) = segment_name ` set (map fst (closed @ actv))"
proof -
  let ?r = "scan_segments (RecorderManager_init n d meta)" and ?d = "remove_segments (rev js) d"
  have cl: "clean_log xxh n segs ?d" by (rule crashed_clean [OF cr])
  have "wal_names d = map segment_name (map fst segs @ js)" by (rule names_sorted) (use cr in \<open>auto simp: crashed_log_def\<close>)
  then have w: "rc_dir ?r = d" "rc_wals ?r = map segment_name (map fst segs @ js)" by (simp_all add: scan_segments_def RecorderManager_init_def)
  obtain ms store js' b where rec: "recover_last_state xxh env ?r = (scanned segs js' (if js' = js then d else ?d) ms store ?r, b)" "segs \<noteq> [] \<longrightarrow> b" "js' = js \<or> js' = []" "\<not> b \<longrightarrow> js' = []"
    using recover_crashed [OF cr rm w] by blast
  define r1 where "r1 = scanned segs js' (if js' = js then d else ?d) ms store ?r"
  define r2 where "r2 = scanned segs [] ?d ms store ?r"
  have same: "prepare_first_segment_from_scanned xxh env r1 = prepare_first_segment_from_scanned xxh env r2" unfolding r1_def r2_def by (rule scanned_pops [OF cr rm rec(3)])
  show ?thesis
  proof (cases segs rule: rev_cases)
    case (snoc segs' s)
    obtain i evs where s: "s = (i, evs)" by (cases s)
    have "\<exists>r'. prepare_first_segment_from_scanned xxh env r2 = Some (r', OK) \<and> unat (ms_last_segment_index (rc_meta_state r') + 1) = i + 1 \<and>
        (\<forall>hot cold. rec_inv xxh n segs' [] [(i, evs)] [] (started hot cold (i + 1) r'))"
      by (rule reopen_inv [OF cl [unfolded snoc s] env]) (use small snoc s in \<open>simp_all add: r2_def scan_segments_def RecorderManager_init_def\<close>)
    then obtain r' where r': "prepare_first_segment_from_scanned xxh env r1 = Some (r', OK)" "unat (ms_last_segment_index (rc_meta_state r') + 1) = i + 1"
      "\<And>hot cold. rec_inv xxh n segs' [] [(i, evs)] [] (started hot cold (i + 1) r')" using same by auto
    have "b" using rec(2) snoc by simp
    then have "restore_or_create_active_segment xxh env ?r = Some (r', OK)" using rec(1) r'(1) by (simp add: restore_or_create_active_segment_def r1_def)
    then obtain r where r: "recorder_initialize xxh env True (RecorderManager_init n d meta) = Some (r, OK)" "rec_inv xxh n segs' [] [(i, evs)] [] r"
      using r'(2,3) by (auto simp: recorder_initialize_def)
    then have "set (map fst (rc_dir r)) = segment_name ` set (map fst (segs' @ [(i, evs)]))" by (simp add: rec_inv_def)
    then show ?thesis using r snoc s by blast
  next
    case Nil
    have e: "?d = []" using cl Nil by (simp add: clean_log_def)
    define r3 where "r3 = r2\<lparr>rc_writer := None\<rparr>"
    have "\<exists>r'. prepare_first_segment_from_scratch xxh env r3 = Some (r', OK) \<and> rc_meta_state r' = MetaState_init \<and> rc_rotation r' = Appending \<and>
        (\<forall>hot cold. rec_inv xxh n [] [] [(0, [])] [] (started hot cold 1 r'))"
      by (rule scratch_inv) (simp_all add: r3_def r2_def e scan_segments_def RecorderManager_init_def env)
    then obtain r' where r': "prepare_first_segment_from_scratch xxh env r3 = Some (r', OK)" "rc_meta_state r' = MetaState_init"
      "\<And>hot cold. rec_inv xxh n [] [] [(0, [])] [] (started hot cold 1 r')" by blast
    have "prepare_first_segment_from_scanned xxh env r2 = Some (r3, SEGMENT_NOT_FOUND)" using Nil by (simp add: prepare_first_segment_from_scanned_def r2_def r3_def)
    moreover have "r1 = r3" if "\<not> b" using rec(4) that Nil e by (auto simp: r1_def r2_def r3_def scan_segments_def RecorderManager_init_def)
    ultimately have "restore_or_create_active_segment xxh env ?r = Some (r', OK)"
      using rec(1) same r'(1) unfolding r1_def [symmetric] by (cases b) (simp_all add: restore_or_create_active_segment_def)
    then obtain r where r: "recorder_initialize xxh env True (RecorderManager_init n d meta) = Some (r, OK)" "rec_inv xxh n [] [] [(0, [])] [] r"
      using r'(2,3) by (auto simp: recorder_initialize_def MetaState_init_def)
    then have "set (map fst (rc_dir r)) = segment_name ` set (map fst ([] @ [(0, [])]))" "log_of ([] @ [(0, [])]) = log_of segs" using Nil by (simp_all add: rec_inv_def)
    then show ?thesis using r by blast
  qed
qed

theorem crash_drops_unclosed_segments_witness:
  "\<exists>r closed actv. recorder_initialize (\<lambda>bs seed. seed + 1) good_env True (RecorderManager_init 16 [(segment_name 0, header_serialize (initial_header 0 1))] None) = Some (r, OK) \<and>
    rec_inv (\<lambda>bs seed. seed + 1) 16 closed [] actv [] r \<and> log_of (closed @ actv) = [] \<and> set (map fst (rc_dir r)) = segment_name ` set (map fst (closed @ actv))"
proof -
  have "header_deserialize (header_serialize (initial_header 0 1)) = initial_header 0 1" by (rule header_roundtrip)
  then have "snd (read_segment_header (\<lambda>bs seed. seed + 1) (header_serialize (initial_header 0 1))) \<noteq> OK"
    by (simp add: read_segment_header_def Let_def header_verify_def header_validate_checksum_def header_compute_checksum_def initial_header_def header_reset_def)
  then have "crashed_log (\<lambda>bs seed. seed + 1) 16 [] [0] [(segment_name 0, header_serialize (initial_header 0 1))]"
    by (simp add: crashed_log_def bad_header_def max_index_def log_ok_def events_ok_def)
  moreover have "\<forall>name. we_remove good_env name" by (simp add: good_env_def)
  ultimately show ?thesis using crash_drops_unclosed_segments [of "\<lambda>bs seed. seed + 1" 16 "[]" "[0]" _ good_env None] good_env by simp
qed

end
