(* ===== verification/Wal_Recovery.thy ===== *)
theory Wal_Recovery
  imports Wal_Recorder_Run "HOL-Library.Multiset"
begin

text \<open>
  The replay of the log: the recovery manager (wal/recovery/manager.hpp) and the worker that opens the following segments ahead of time
  (wal/recovery/worker/segment_preloader.hpp). The two threads share two bounded rings. \<^verbatim>\<open>Manager::next\<close> spins while the ring of prepared segments is empty; that is the
  outcome \<open>Waiting\<close>. \<^verbatim>\<open>std::sort\<close> leaves the order of equal first event ids open; the model sorts stably.
\<close>

section \<open>State\<close>

record segment_info =
  si_name :: string
  si_status :: wal_status
  si_header :: segment_header

type_synonym named_reader = "string \<times> segment_reader"

record recovery =
  rv_dir :: wal_dir
  rv_segments :: "segment_info list"
  rv_reader :: "named_reader option"
  rv_index :: nat
  rv_prepared :: "named_reader list"
  rv_finished :: "named_reader list"
  rv_started :: bool
  rv_future :: "segment_info list"
  rv_next :: nat
  rv_preloading_done :: bool
  rv_stop :: bool

datatype next_outcome = Got wal_event | Ended wal_status | Waiting

text \<open>The usable capacities of the rings, one less than \<^verbatim>\<open>MAX_PRELOADED_SEGMENTS\<close> and \<^verbatim>\<open>WAL_RING_BUFFER_SIZE\<close>.\<close>

definition PRELOAD_CAPACITY :: nat where "PRELOAD_CAPACITY = 3"
definition FINISHED_CAPACITY :: nat where "FINISHED_CAPACITY = 127"

definition RecoveryManager_init :: "wal_dir \<Rightarrow> recovery" where
  "RecoveryManager_init d = \<lparr>rv_dir = d, rv_segments = [], rv_reader = None, rv_index = 0, rv_prepared = [], rv_finished = [], rv_started = False, rv_future = [],
     rv_next = 0, rv_preloading_done = False, rv_stop = False\<rparr>"

section \<open>Operations of the manager\<close>

definition segment_info_of :: "hash \<Rightarrow> string \<times> byte list \<Rightarrow> segment_info" where
  "segment_info_of xxh f = (case read_segment_header xxh (snd f) of (h, status) \<Rightarrow> \<lparr>si_name = fst f, si_status = status, si_header = h\<rparr>)"

definition recovery_initialize :: "hash \<Rightarrow> bool \<Rightarrow> recovery \<Rightarrow> recovery \<times> wal_status" where
  "recovery_initialize xxh dir_ok m =
     (if \<not> dir_ok then (m\<lparr>rv_segments := []\<rparr>, DIRECTORY_NOT_FOUND)
      else (m\<lparr>rv_segments := sort_key (\<lambda>s. sh_first_event_id (si_header s))
                (map (segment_info_of xxh) (filter (\<lambda>f. path_extension (fst f) = ''.wal'') (rv_dir m)))\<rparr>, OK))"

definition new_reader :: "wal_dir \<Rightarrow> string \<Rightarrow> segment_reader" where
  "new_reader d name = SegmentReader_init (case map_of d name of None \<Rightarrow> [] | Some c \<Rightarrow> c) header_reset wal_block_reset"

definition open_reader :: "hash \<Rightarrow> wal_env \<Rightarrow> wal_dir \<Rightarrow> named_reader \<Rightarrow> named_reader \<times> wal_status" where
  "open_reader xxh env d nr =
     (let io = we_io env (fst nr) in
      case open_segment xxh (io\<lparr>io_open := (io_open io \<and> map_of d (fst nr) \<noteq> None)\<rparr>) (snd nr) of (r, status) \<Rightarrow> ((fst nr, r), status))"

fun find_segment :: "u64 \<Rightarrow> nat \<Rightarrow> segment_info list \<Rightarrow> (nat \<times> segment_info) option" where
  "find_segment event_id i [] = None"
| "find_segment event_id i (s # segs) =
     (if si_status s = OK \<and> event_id \<le> sh_last_event_id (si_header s) then Some (i, s) else find_segment event_id (Suc i) segs)"

definition start_preloader :: "segment_info list \<Rightarrow> recovery \<Rightarrow> recovery" where
  "start_preloader future m = (if rv_started m then m else m\<lparr>rv_started := True, rv_future := future, rv_next := 0, rv_stop := False\<rparr>)"

definition resume_from_event :: "hash \<Rightarrow> wal_env \<Rightarrow> u64 \<Rightarrow> recovery \<Rightarrow> recovery \<times> wal_status" where
  "resume_from_event xxh env event_id m =
     (let m1 = (case rv_reader m of
                  Some (name, r) \<Rightarrow> m\<lparr>rv_reader := Some (name, fst (sr_close_segment (we_io env name) r))\<rparr>
                | None \<Rightarrow> (case find_segment event_id 0 (rv_segments m) of
                             None \<Rightarrow> m
                           | Some (i, s) \<Rightarrow> m\<lparr>rv_index := i, rv_reader := Some (si_name s, new_reader (rv_dir m) (si_name s))\<rparr>)) in
      case rv_reader m1 of
        None \<Rightarrow> (m1, ITEM_NOT_FOUND)
      | Some nr \<Rightarrow>
          (let future = filter (\<lambda>s. si_status s = OK) (drop (Suc (rv_index m1)) (rv_segments m1));
               m2 = (if future \<noteq> [] then start_preloader future m1 else m1) in
           case open_reader xxh env (rv_dir m2) nr of
             ((name, r), OK) \<Rightarrow>
               (case sr_seek event_id r of
                  (r', True) \<Rightarrow> (m2\<lparr>rv_reader := Some (name, r')\<rparr>, OK)
                | (r', False) \<Rightarrow> (m2\<lparr>rv_reader := Some (name, r')\<rparr>, ITEM_NOT_FOUND))
           | (_, status) \<Rightarrow> (m2\<lparr>rv_reader := None\<rparr>, status)))"

text \<open>\<^verbatim>\<open>next\<close> up to the wait for a prepared segment, and from there on.\<close>

definition next_begin :: "wal_env \<Rightarrow> recovery \<Rightarrow> recovery \<times> next_outcome" where
  "next_begin env m =
     (case rv_reader m of
        None \<Rightarrow> (m, Ended SEGMENT_NOT_FOUND)
      | Some (name, r) \<Rightarrow>
          (case sr_next r of
             (r', Some ev) \<Rightarrow> (m\<lparr>rv_reader := Some (name, r')\<rparr>, Got ev)
           | (r', None) \<Rightarrow>
               (let m1 = (if length (rv_finished m) < FINISHED_CAPACITY then m\<lparr>rv_finished := rv_finished m @ [(name, r')]\<rparr> else m)\<lparr>rv_reader := None\<rparr> in
                if rv_preloading_done m1 \<and> rv_prepared m1 = [] then (m1\<lparr>rv_stop := True\<rparr>, Ended ITEM_NOT_FOUND)
                else (m1, Waiting))))"

definition next_wait :: "recovery \<Rightarrow> recovery \<times> next_outcome" where
  "next_wait m =
     (case rv_prepared m of
        [] \<Rightarrow> (m, Waiting)
      | (name, r) # rest \<Rightarrow>
          (let m1 = m\<lparr>rv_prepared := rest, rv_index := rv_index m + 1\<rparr> in
           case sr_next r of
             (r', Some ev) \<Rightarrow> (m1\<lparr>rv_reader := Some (name, r')\<rparr>, Got ev)
           | (r', None) \<Rightarrow> (m1\<lparr>rv_reader := Some (name, r')\<rparr>, Ended SEGMENT_NOT_FOUND)))"

section \<open>The preloader\<close>

definition close_finished_reader :: "recovery \<Rightarrow> recovery" where
  "close_finished_reader m = (case rv_finished m of [] \<Rightarrow> m | _ # rest \<Rightarrow> m\<lparr>rv_finished := rest\<rparr>)"

definition preload_round :: "hash \<Rightarrow> wal_env \<Rightarrow> recovery \<Rightarrow> recovery" where
  "preload_round xxh env m =
     (if rv_stop m \<or> \<not> rv_started m then m
      else if rv_next m < length (rv_future m) \<and> length (rv_prepared m) < PRELOAD_CAPACITY
      then let s = rv_future m ! rv_next m; m1 = m\<lparr>rv_next := rv_next m + 1\<rparr> in
        if si_status s \<noteq> OK then m1
        else (case open_reader xxh env (rv_dir m) (si_name s, new_reader (rv_dir m) (si_name s)) of
                (nr, OK) \<Rightarrow> close_finished_reader (m1\<lparr>rv_prepared := rv_prepared m @ [nr]\<rparr>)
              | _ \<Rightarrow> m1)
      else close_finished_reader (if rv_next m \<ge> length (rv_future m) then m\<lparr>rv_preloading_done := True\<rparr> else m))"

section \<open>Runs\<close>

text \<open>The caller of \<open>next\<close> and the preloader, in any order: the events delivered so far, and whether the caller waits or has got a final status.\<close>

record replay =
  rp_manager :: recovery
  rp_waiting :: bool
  rp_events :: "wal_event list"
  rp_end :: "wal_status option"

definition deliver :: "recovery \<times> next_outcome \<Rightarrow> replay \<Rightarrow> replay" where
  "deliver x p =
     (case x of
        (m, Got ev) \<Rightarrow> p\<lparr>rp_manager := m, rp_waiting := False, rp_events := rp_events p @ [ev]\<rparr>
      | (m, Ended status) \<Rightarrow> p\<lparr>rp_manager := m, rp_waiting := False, rp_end := Some status\<rparr>
      | (m, Waiting) \<Rightarrow> p\<lparr>rp_manager := m, rp_waiting := True\<rparr>)"

inductive replay_step :: "hash \<Rightarrow> (wal_env \<Rightarrow> bool) \<Rightarrow> replay \<Rightarrow> replay \<Rightarrow> bool" for xxh :: hash and env_ok :: "wal_env \<Rightarrow> bool" where
  rp_next: "\<not> rp_waiting p \<Longrightarrow> rp_end p = None \<Longrightarrow> env_ok env \<Longrightarrow> replay_step xxh env_ok p (deliver (next_begin env (rp_manager p)) p)"
| rp_wait: "rp_waiting p \<Longrightarrow> replay_step xxh env_ok p (deliver (next_wait (rp_manager p)) p)"
| rp_preload: "env_ok env \<Longrightarrow> replay_step xxh env_ok p (p\<lparr>rp_manager := preload_round xxh env (rp_manager p)\<rparr>)"

definition replay_start :: "recovery \<Rightarrow> replay" where
  "replay_start m = \<lparr>rp_manager = m, rp_waiting = False, rp_events = [], rp_end = None\<rparr>"

end
