(* ===== verification/Wal_Replay.thy ===== *)
theory Wal_Replay
  imports Wal_Recovery
begin

text \<open>
  What the recovery delivers from a directory of closed segments, in every interleaving of the caller with the preloader, and where it does not end.
\<close>

section \<open>Readers and headers\<close>

definition yields :: "hash \<Rightarrow> wal_event list \<Rightarrow> named_reader \<Rightarrow> bool" where
  "yields xxh evs nr \<longleftrightarrow> (\<exists>cs k i. reading xxh cs k i (snd nr) \<and> remaining cs k i = evs)"

lemma yields_next:
  assumes "yields xxh evs (name, r)"
  shows "evs = [] \<Longrightarrow> \<exists>r'. sr_next r = (r', None)" and "evs = ev # rest \<Longrightarrow> \<exists>r'. sr_next r = (r', Some ev) \<and> yields xxh rest (name, r')"
proof -
  obtain cs k i where r: "reading xxh cs k i r" "remaining cs k i = evs" using assms by (auto simp: yields_def)
  show "\<exists>r'. sr_next r = (r', None)" if "evs = []" using next_reads(1) [OF r(1)] r(2) that by (metis prod.collapse)
  show "\<exists>r'. sr_next r = (r', Some ev) \<and> yields xxh rest (name, r')" if "evs = ev # rest"
    using next_reads(2) [OF r(1), of ev rest] r(2) that by (auto simp: yields_def)
qed

lemma open_yields:
  assumes "on_disk xxh n d s" and "snd s \<noteq> []" and "small_segment n" and "env_good env"
  shows "\<exists>r. open_reader xxh env d (segment_name (fst s), new_reader d (segment_name (fst s))) = ((segment_name (fst s), r), OK) \<and>
    yields xxh (snd s) (segment_name (fst s), r) \<and> (\<exists>cs. reading xxh cs 0 0 r \<and> concat cs = snd s \<and> \<not> sr_index_built r)"
proof -
  obtain c where c: "map_of d (segment_name (fst s)) = Some c" "finished xxh (of_nat (fst s)) n (snd s) c" using assms(1) by (auto simp: on_disk_def)
  let ?io = "we_io env (segment_name (fst s))"
  have "io_ok ?io" using assms(4) by (simp add: env_good_def)
  from open_finished [OF c(2) this assms(2,3)] obtain r cs where
    r: "open_segment xxh ?io (SegmentReader_init c header_reset wal_block_reset) = (r, OK)" "reading xxh cs 0 0 r" "concat cs = snd s" "\<not> sr_index_built r" by blast
  have "cs \<noteq> []" using r(3) assms(2) by auto
  then have "remaining cs 0 0 = snd s" using r(3) by (cases cs) (simp_all add: remaining_def)
  then have "yields xxh (snd s) (segment_name (fst s), r)" using r(2) by (auto simp: yields_def)
  moreover have "?io\<lparr>io_open := True\<rparr> = ?io" using \<open>io_ok ?io\<close> by (cases ?io) simp
  ultimately show ?thesis using r c(1) \<open>io_ok ?io\<close> by (auto simp: open_reader_def new_reader_def)
qed

lemma finished_header:
  assumes "finished xxh idx n evs c" and "evs \<noteq> []"
  shows "\<exists>h. read_segment_header xxh c = (h, OK) \<and> sh_first_event_id h = ev_event_id (hd evs) \<and> sh_last_event_id h = ev_event_id (last evs)"
proof -
  obtain now now' cs cur where F: "length c = HEADER_SIZE + clamp_blocks n * BLOCK_SIZE"
    "segment_image xxh (header_finalize xxh now' (chain xxh 0 (cs @ last_chunk cur)) (header_for idx now (length (cs @ last_chunk cur)) (concat cs @ cur))) (cs @ last_chunk cur) c"
    "concat cs @ cur = evs" "\<forall>c \<in> set (cs @ last_chunk cur). chunk_valid c" using assms(1) unfolding finished_def by blast
  let ?cs = "cs @ last_chunk cur" and ?g = "header_for idx now (length (cs @ last_chunk cur)) (concat cs @ cur)"
  have "length ?cs * BLOCK_SIZE \<le> clamp_blocks n * BLOCK_SIZE" using F(1,2) by (simp add: segment_image_def)
  then have "length ?cs \<le> clamp_blocks n" using block_events_bounds(3) by simp
  then have mx: "length ?cs \<le> MAX_BLOCKS" by (simp add: clamp_blocks_def MIN_BLOCKS_def MAX_BLOCKS_def)
  have hv: "header_validate_data ?g" by (simp add: header_validate_data_def header_for_def initial_header_def HEADER_SIZE_def)
  have "verify_full_segment_integrity xxh c (length c) = (header_finalize xxh now' (chain xxh 0 ?cs) ?g, OK)"
    by (rule image_verifies [OF F(2) hv _ F(4) mx]) (simp add: header_for_def)
  then have "read_segment_header xxh c = (header_finalize xxh now' (chain xxh 0 ?cs) ?g, OK)" using integrity_header F(1) by simp
  then show ?thesis using F(3) assms(2) by (simp add: header_finalize_def header_for_def Let_def)
qed

section \<open>The scanned segments\<close>

definition describes :: "hash \<Rightarrow> nat \<Rightarrow> wal_dir \<Rightarrow> segment \<Rightarrow> segment_info \<Rightarrow> bool" where
  "describes xxh n d s si \<longleftrightarrow> si_name si = segment_name (fst s) \<and> si_status si = OK \<and> on_disk xxh n d s \<and> snd s \<noteq> [] \<and>
     sh_first_event_id (si_header si) = ev_event_id (hd (snd s)) \<and> sh_last_event_id (si_header si) = ev_event_id (last (snd s))"

definition info_for :: "hash \<Rightarrow> wal_dir \<Rightarrow> segment \<Rightarrow> segment_info" where
  "info_for xxh d s = segment_info_of xxh (segment_name (fst s), case map_of d (segment_name (fst s)) of None \<Rightarrow> [] | Some c \<Rightarrow> c)"

lemma info_describes:
  assumes "on_disk xxh n d s" and "snd s \<noteq> []"
  shows "describes xxh n d s (info_for xxh d s)"
proof -
  obtain c where c: "map_of d (segment_name (fst s)) = Some c" "finished xxh (of_nat (fst s)) n (snd s) c" using assms(1) by (auto simp: on_disk_def)
  then show ?thesis using finished_header [OF c(2) assms(2)] assms by (auto simp: describes_def info_for_def segment_info_of_def)
qed

lemma log_first_ids:
  assumes "log_ok (log_of segs)" and "\<forall>s \<in> set segs. snd s \<noteq> []"
  shows "sorted_wrt (<) (map (\<lambda>s. ev_event_id (hd (snd s))) segs)"
  using assms
proof (induction segs)
  case (Cons s segs)
  have "sorted_wrt (<) (ids (snd s @ log_of segs))" using Cons.prems(1) by (simp add: log_ok_def ids_increase_iff)
  then have lt: "\<forall>a \<in> set (snd s). \<forall>b \<in> set (log_of segs). ev_event_id a < ev_event_id b" by (auto simp: sorted_wrt_append)
  have "log_ok (log_of segs)" using Cons.prems(1) by (auto simp: log_ok_def events_ok_def ids_increase_iff sorted_wrt_append)
  then have IH: "sorted_wrt (<) (map (\<lambda>s. ev_event_id (hd (snd s))) segs)" using Cons.IH Cons.prems(2) by simp
  have "ev_event_id (hd (snd s)) < ev_event_id (hd (snd t))" if t: "t \<in> set segs" for t
  proof -
    have "hd (snd s) \<in> set (snd s)" "hd (snd t) \<in> set (snd t)" using Cons.prems(2) t by auto
    then have "hd (snd s) \<in> set (snd s)" "hd (snd t) \<in> set (log_of segs)" using t by auto
    then show ?thesis using lt by blast
  qed
  then show ?case using IH by simp
qed simp

lemma scan_segments_of_log:
  assumes cl: "clean_log xxh n segs d" and ne: "\<forall>s \<in> set segs. snd s \<noteq> []"
  shows "fst (recovery_initialize xxh True (RecoveryManager_init d)) = (RecoveryManager_init d)\<lparr>rv_segments := map (info_for xxh d) segs\<rparr>"
proof -
  have C: "sorted_wrt (<) (map fst segs)" "\<forall>s \<in> set segs. fst s < max_index \<and> on_disk xxh n d s" "names_are d (map fst segs)" "log_ok (log_of segs)"
    using cl by (simp_all add: clean_log_def)
  let ?file = "\<lambda>s. (segment_name (fst s), case map_of d (segment_name (fst s)) of None \<Rightarrow> [] | Some c \<Rightarrow> c)"
  have desc: "describes xxh n d s (info_for xxh d s)" if "s \<in> set segs" for s using info_describes C(2) ne that by blast
  have fd: "filter (\<lambda>f. path_extension (fst f) = ''.wal'') d = d"
  proof (rule filter_True, rule ballI)
    fix f assume "f \<in> set d"
    then have "fst f \<in> segment_name ` set (map fst segs)" using C(3) by (metis image_eqI set_map)
    then show "path_extension (fst f) = ''.wal''" by (rule imageE) simp
  qed
  have sub: "set (map ?file segs) \<subseteq> set d"
  proof
    fix f assume "f \<in> set (map ?file segs)"
    then obtain s where s: "s \<in> set segs" "f = ?file s" by auto
    then obtain c where "map_of d (segment_name (fst s)) = Some c" using C(2) by (auto simp: on_disk_def)
    then show "f \<in> set d" using s(2) by (simp add: map_of_SomeD)
  qed
  have sup: "set d \<subseteq> set (map ?file segs)"
  proof
    fix f assume f: "f \<in> set d"
    then have "fst f \<in> segment_name ` set (map fst segs)" using C(3) by (metis image_eqI set_map)
    then obtain s where s: "s \<in> set segs" "fst f = segment_name (fst s)" by auto
    have "map_of d (fst f) = Some (snd f)" using C(3) f by (simp add: map_of_is_SomeI)
    then have "f = ?file s" using s(2) by (cases f) simp
    then show "f \<in> set (map ?file segs)" using s(1) by simp
  qed
  have "sorted_wrt (<) (map segment_name (map fst segs))" by (rule names_increase [OF C(1)]) (use C(2) in auto)
  then have "distinct (map segment_name (map fst segs))" by (simp only: strict_sorted_iff)
  moreover have "map segment_name (map fst segs) = map fst (map ?file segs)" by simp
  ultimately have "distinct (map fst (map ?file segs))" by (simp only:)
  then have "distinct (map ?file segs)" by (simp only: distinct_map)
  moreover have "distinct d" using C(3) by (simp add: distinct_map)
  ultimately have "mset d = mset (map ?file segs)" using sub sup set_eq_iff_mset_eq_distinct by blast
  then have "mset (map (segment_info_of xxh) d) = mset (map (segment_info_of xxh) (map ?file segs))" by (simp only: mset_map)
  also have "map (segment_info_of xxh) (map ?file segs) = map (info_for xxh d) segs" by (simp add: info_for_def)
  finally have ms: "mset (map (segment_info_of xxh) d) = mset (map (info_for xxh d) segs)" .
  let ?key = "\<lambda>s. sh_first_event_id (si_header s)"
  have k: "map ?key (map (info_for xxh d) segs) = map (\<lambda>s. ev_event_id (hd (snd s))) segs" using desc by (simp add: describes_def)
  have srt: "sorted (map ?key (map (info_for xxh d) segs))" "distinct (map ?key (map (info_for xxh d) segs))"
    unfolding k using log_first_ids [OF C(4) ne] by (simp_all add: strict_sorted_iff)
  have "inj_on ?key (set (map (info_for xxh d) segs))" using srt(2) by (simp only: distinct_map)
  then have "inj_on ?key (set (map (segment_info_of xxh) d))" using mset_eq_setD [OF ms] by simp
  then have "sort_key ?key (map (segment_info_of xxh) d) = map (info_for xxh d) segs" by (rule sort_key_inj_key_eq [OF ms _ srt(1)])
  then show ?thesis using fd by (simp add: recovery_initialize_def RecoveryManager_init_def)
qed

section \<open>Resuming\<close>

lemma find_described:
  assumes "\<forall>s \<in> set segs. describes xxh n d s (info_for xxh d s)" and "\<exists>s \<in> set segs. event_id \<le> ev_event_id (last (snd s))"
  shows "\<exists>pre s post. segs = pre @ s # post \<and> find_segment event_id k (map (info_for xxh d) segs) = Some (k + length pre, info_for xxh d s) \<and>
    event_id \<le> ev_event_id (last (snd s)) \<and> (\<forall>t \<in> set pre. ev_event_id (last (snd t)) < event_id)"
  using assms
proof (induction segs arbitrary: k)
  case (Cons s segs)
  have d: "si_status (info_for xxh d s) = OK" "sh_last_event_id (si_header (info_for xxh d s)) = ev_event_id (last (snd s))"
    using Cons.prems(1) by (simp_all add: describes_def)
  show ?case
  proof (cases "event_id \<le> ev_event_id (last (snd s))")
    case True
    then show ?thesis using d by (intro exI [of _ "[]"] exI [of _ s] exI [of _ segs]) simp
  next
    case False
    then have "\<exists>s \<in> set segs. event_id \<le> ev_event_id (last (snd s))" using Cons.prems(2) by auto
    from Cons.IH [OF _ this, of "Suc k"] Cons.prems(1) obtain pre t post where
      t: "segs = pre @ t # post" "find_segment event_id (Suc k) (map (info_for xxh d) segs) = Some (Suc k + length pre, info_for xxh d t)"
        "event_id \<le> ev_event_id (last (snd t))" "\<forall>u \<in> set pre. ev_event_id (last (snd u)) < event_id" by auto
    then show ?thesis using d False by (intro exI [of _ "s # pre"] exI [of _ t] exI [of _ post]) simp
  qed
qed simp

lemma last_id_max: "log_ok evs \<Longrightarrow> ev \<in> set evs \<Longrightarrow> ev_event_id ev \<le> ev_event_id (last evs)"
  using sorted_hd_last(2) by (simp add: log_ok_def ids_increase_iff)

lemma log_parts: "log_ok (a @ b) \<Longrightarrow> log_ok a \<and> log_ok b \<and> (\<forall>x \<in> set a. \<forall>y \<in> set b. ev_event_id x < ev_event_id y)"
  by (auto simp: log_ok_def events_ok_def ids_increase_iff sorted_wrt_append)

lemma log_filter:
  assumes "log_ok (log_of pre @ evs @ log_of post)" and "\<forall>t \<in> set pre. snd t \<noteq> [] \<and> ev_event_id (last (snd t)) < event_id" and "event_id \<le> ev_event_id (last evs)" and "evs \<noteq> []"
  shows "filter (\<lambda>ev. event_id \<le> ev_event_id ev) (log_of pre @ evs @ log_of post) = dropWhile (\<lambda>ev. ev_event_id ev < event_id) evs @ log_of post"
proof -
  have P: "log_ok (log_of pre)" "log_ok evs" "\<forall>x \<in> set evs. \<forall>y \<in> set (log_of post). ev_event_id x < ev_event_id y"
    using log_parts [OF assms(1)] log_parts [of evs "log_of post"] by blast+
  have lt: "ev_event_id ev < event_id" if ev: "ev \<in> set (log_of pre)" for ev
  proof -
    obtain t where t: "t \<in> set pre" "ev \<in> set (snd t)" using ev by auto
    obtain a b where "pre = a @ t # b" using t(1) by (metis split_list)
    then have "log_ok (log_of a @ snd t @ log_of b)" using P(1) by simp
    then have "log_ok (snd t)" using log_parts by blast
    then have "ev_event_id ev \<le> ev_event_id (last (snd t))" using t(2) by (rule last_id_max)
    also have "\<dots> < event_id" using assms(2) t(1) by blast
    finally show ?thesis .
  qed
  have 1: "filter (\<lambda>ev. event_id \<le> ev_event_id ev) (log_of pre) = []" by (rule filter_False) (use lt leD in blast)
  have "event_id \<le> ev_event_id ev" if "ev \<in> set (log_of post)" for ev using P(3) that assms(3,4) by (meson last_in_set less_imp_le order_trans)
  then have 3: "filter (\<lambda>ev. event_id \<le> ev_event_id ev) (log_of post) = log_of post" by (rule filter_True [OF ballI])
  have "sorted_wrt (<) (ids evs)" using P(2) by (simp add: log_ok_def ids_increase_iff)
  then have "dropWhile (\<lambda>ev. ev_event_id ev < event_id) evs = filter (\<lambda>ev. event_id \<le> ev_event_id ev) evs" by (rule dropWhile_ids)
  then show ?thesis using 1 3 by simp
qed

section \<open>The invariant of a replay\<close>

definition rest_ok :: "hash \<Rightarrow> nat \<Rightarrow> segment list \<Rightarrow> recovery \<Rightarrow> bool" where
  "rest_ok xxh n rest m \<longleftrightarrow> list_all2 (describes xxh n (rv_dir m)) rest (drop (rv_next m) (rv_future m)) \<and> (rest \<noteq> [] \<longrightarrow> rv_started m) \<and>
     (rv_preloading_done m \<longrightarrow> rest = [])"

definition replay_inv :: "hash \<Rightarrow> nat \<Rightarrow> wal_event list \<Rightarrow> wal_event list \<Rightarrow> wal_event list list \<Rightarrow> segment list \<Rightarrow> replay \<Rightarrow> bool" where
  "replay_inv xxh n target rd preps rest p \<longleftrightarrow> rest_ok xxh n rest (rp_manager p) \<and>
     list_all2 (yields xxh) preps (rv_prepared (rp_manager p)) \<and> (\<forall>es \<in> set preps. es \<noteq> []) \<and>
     rp_events p @ rd @ concat preps @ log_of rest = target \<and>
     (case rv_reader (rp_manager p) of None \<Rightarrow> rd = [] \<and> rp_waiting p = (rp_end p = None) | Some nr \<Rightarrow> yields xxh rd nr \<and> \<not> rp_waiting p \<and> rp_end p = None) \<and>
     (rp_end p \<noteq> None \<longrightarrow> preps = [] \<and> rest = [] \<and> rp_end p = Some ITEM_NOT_FOUND) \<and> (rp_end p = None \<longrightarrow> \<not> rv_stop (rp_manager p))"

lemma replay_events: "replay_inv xxh n target rd preps rest p \<Longrightarrow> rp_events p @ rd @ concat preps @ log_of rest = target"
  by (simp only: replay_inv_def)

lemma replay_ended: "replay_inv xxh n target rd preps rest p \<Longrightarrow> rp_end p \<noteq> None \<Longrightarrow> rp_end p = Some ITEM_NOT_FOUND \<and> rd = [] \<and> preps = [] \<and> rest = []"
  by (cases "rv_reader (rp_manager p)") (simp_all add: replay_inv_def)

lemma resume_start:
  assumes cl: "clean_log xxh n segs d" and ne: "\<forall>s \<in> set segs. snd s \<noteq> []" and some: "\<exists>ev \<in> set (log_of segs). event_id \<le> ev_event_id ev"
    and small: "small_segment n" and env: "env_good env" and m0: "m0 = fst (recovery_initialize xxh True (RecoveryManager_init d))"
  shows "\<exists>m rd rest. resume_from_event xxh env event_id m0 = (m, OK) \<and>
    replay_inv xxh n (filter (\<lambda>ev. event_id \<le> ev_event_id ev) (log_of segs)) rd [] rest (replay_start m) \<and>
    rv_preloading_done m = False \<and> (rest = [] \<longrightarrow> \<not> rv_started m) \<and> length rest < length segs"
proof -
  have M0: "m0 = (RecoveryManager_init d)\<lparr>rv_segments := map (info_for xxh d) segs\<rparr>" unfolding m0 by (rule scan_segments_of_log [OF cl ne])
  have ok: "log_ok (log_of segs)" using cl by (simp add: clean_log_def)
  have desc: "\<forall>s \<in> set segs. describes xxh n d s (info_for xxh d s)" using info_describes cl ne by (auto simp: clean_log_def)
  have "\<exists>s \<in> set segs. event_id \<le> ev_event_id (last (snd s))"
  proof -
    obtain ev s where e: "s \<in> set segs" "ev \<in> set (snd s)" "event_id \<le> ev_event_id ev" using some by auto
    obtain a b where "segs = a @ s # b" using e(1) by (metis split_list)
    then have "log_ok (log_of a @ snd s @ log_of b)" using ok by simp
    then have "log_ok (snd s)" using log_parts by blast
    from last_id_max [OF this e(2)] e(1,3) show ?thesis by (meson order_trans)
  qed
  from find_described [OF desc this, of 0] obtain pre s post where
    f: "segs = pre @ s # post" "find_segment event_id 0 (map (info_for xxh d) segs) = Some (length pre, info_for xxh d s)" "event_id \<le> ev_event_id (last (snd s))"
      "\<forall>t \<in> set pre. ev_event_id (last (snd t)) < event_id" by auto
  have ds: "describes xxh n d s (info_for xxh d s)" using desc f(1) by simp
  then have S: "on_disk xxh n d s" "snd s \<noteq> []" "si_name (info_for xxh d s) = segment_name (fst s)" by (simp_all add: describes_def)
  obtain r cs where r: "open_reader xxh env d (segment_name (fst s), new_reader d (segment_name (fst s))) = ((segment_name (fst s), r), OK)"
    "reading xxh cs 0 0 r" "concat cs = snd s" "\<not> sr_index_built r" using open_yields [OF S(1,2) small env] by blast
  have lg: "log_ok (log_of pre @ snd s @ log_of post)" using ok f(1) by simp
  then have "sorted_wrt (<) (ids (concat cs))" using log_parts r(3) by (metis log_ok_def ids_increase_iff)
  moreover have "cs \<noteq> []" using r(3) S(2) by auto
  ultimately obtain r' k i where s': "sr_seek event_id r = (r', True)" "reading xxh cs k i r'"
    "remaining cs k i = (if dropWhile (\<lambda>ev. ev_event_id ev < event_id) (snd s) = [] then [last (snd s)] else dropWhile (\<lambda>ev. ev_event_id ev < event_id) (snd s))"
    using seek_reads [OF reading_segment [OF r(2)] _ _ r(4) refl, of event_id] r(3) by auto
  let ?rd = "dropWhile (\<lambda>ev. ev_event_id ev < event_id) (snd s)"
  have "?rd \<noteq> []" using f(3) S(2) by (metis dropWhile_eq_Nil_conv last_in_set leD)
  then have "remaining cs k i = ?rd" using s'(3) by (simp only: if_False)
  then have y: "yields xxh ?rd (segment_name (fst s), r')" using s'(2) by (auto simp: yields_def)
  let ?future = "map (info_for xxh d) post"
  have fut: "filter (\<lambda>s. si_status s = OK) (drop (Suc (length pre)) (map (info_for xxh d) segs)) = ?future"
  proof -
    have "drop (Suc (length pre)) (map (info_for xxh d) segs) = ?future" using f(1) by simp
    moreover have "filter (\<lambda>s. si_status s = OK) ?future = ?future" by (rule filter_True) (use desc f(1) in \<open>auto simp: describes_def\<close>)
    ultimately show ?thesis by simp
  qed
  define m1 where "m1 = m0\<lparr>rv_index := length pre, rv_reader := Some (segment_name (fst s), new_reader d (segment_name (fst s)))\<rparr>"
  define m where "m = (if ?future \<noteq> [] then start_preloader ?future m1 else m1)\<lparr>rv_reader := Some (segment_name (fst s), r')\<rparr>"
  have "resume_from_event xxh env event_id m0 = (m, OK)"
    using f(2) S(3) fut r(1) s'(1) by (simp add: resume_from_event_def M0 m_def m1_def start_preloader_def RecoveryManager_init_def Let_def)
  moreover have "replay_inv xxh n (filter (\<lambda>ev. event_id \<le> ev_event_id ev) (log_of segs)) ?rd [] post (replay_start m)"
  proof -
    have "filter (\<lambda>ev. event_id \<le> ev_event_id ev) (log_of pre @ snd s @ log_of post) = ?rd @ log_of post"
      by (rule log_filter [OF lg _ f(3) S(2)]) (use f(1,4) ne in auto)
    moreover have "list_all2 (describes xxh n d) post ?future" using desc f(1) by (simp add: list_all2_map2 list_all2_same)
    ultimately show ?thesis using y f(1)
      by (simp add: replay_inv_def replay_start_def rest_ok_def m_def m1_def M0 start_preloader_def RecoveryManager_init_def)
  qed
  moreover have "rv_preloading_done m = False" "post = [] \<longrightarrow> \<not> rv_started m" "length post < length segs" using f(1) by (simp_all add: m_def m1_def M0 start_preloader_def RecoveryManager_init_def)
  ultimately show ?thesis by blast
qed

lemma replay_next_inv:
  assumes inv: "replay_inv xxh n target rd preps rest p" and go: "\<not> rp_waiting p" "rp_end p = None"
  shows "\<exists>rd'. replay_inv xxh n target rd' preps rest (deliver (next_begin env (rp_manager p)) p) \<and>
    (if rd = [] then rd' = [] \<and> rp_events (deliver (next_begin env (rp_manager p)) p) = rp_events p \<and> (preps \<noteq> [] \<or> rest \<noteq> [] \<longrightarrow> rp_waiting (deliver (next_begin env (rp_manager p)) p))
     else length rd' < length rd)"
proof -
  let ?m = "rp_manager p"
  obtain name r where r: "rv_reader ?m = Some (name, r)" "yields xxh rd (name, r)"
    using inv go by (cases "rv_reader ?m") (auto simp: replay_inv_def)
  have lens: "preps = [] \<longleftrightarrow> rv_prepared ?m = []" using inv by (auto simp: replay_inv_def)
  show ?thesis
  proof (cases rd)
    case (Cons ev rd')
    obtain r' where r': "sr_next r = (r', Some ev)" "yields xxh rd' (name, r')" using yields_next(2) [OF r(2) Cons] by blast
    then have "replay_inv xxh n target rd' preps rest (deliver (next_begin env ?m) p)"
      using inv go r(1) Cons by (simp add: replay_inv_def next_begin_def deliver_def rest_ok_def)
    then show ?thesis using Cons by auto
  next
    case Nil
    obtain r' where r': "sr_next r = (r', None)" using yields_next(1) [OF r(2) Nil] by blast
    show ?thesis
    proof (cases "rv_preloading_done ?m \<and> rv_prepared ?m = []")
      case True
      then have e: "preps = []" "rest = []" using inv lens by (auto simp: replay_inv_def rest_ok_def)
      have "replay_inv xxh n target [] preps rest (deliver (next_begin env ?m) p)"
        using inv go r(1) r' True e Nil by (simp add: replay_inv_def next_begin_def deliver_def rest_ok_def Let_def)
      moreover have "rp_events (deliver (next_begin env ?m) p) = rp_events p" using r(1) r' True by (simp add: next_begin_def deliver_def Let_def)
      ultimately show ?thesis using e Nil by auto
    next
      case False
      define m1 where "m1 = (if length (rv_finished ?m) < FINISHED_CAPACITY then ?m\<lparr>rv_finished := rv_finished ?m @ [(name, r')]\<rparr> else ?m)\<lparr>rv_reader := None\<rparr>"
      have m1: "rv_reader m1 = None" "rv_prepared m1 = rv_prepared ?m" "rest_ok xxh n rest m1 = rest_ok xxh n rest ?m" "rv_stop m1 = rv_stop ?m"
        by (simp_all add: m1_def rest_ok_def)
      have "next_begin env ?m = (m1, Waiting)" using False r(1) r' by (simp add: next_begin_def Let_def m1_def)
      then have d: "deliver (next_begin env ?m) p = p\<lparr>rp_manager := m1, rp_waiting := True\<rparr>" by (simp add: deliver_def)
      have "replay_inv xxh n target [] preps rest (deliver (next_begin env ?m) p)"
        unfolding d using inv go r(1) m1 Nil by (simp add: replay_inv_def)
      then show ?thesis unfolding d using Nil by auto
    qed
  qed
qed

lemma replay_wait_inv:
  assumes inv: "replay_inv xxh n target rd preps rest p" and go: "rp_waiting p"
  shows "\<exists>rd' preps'. replay_inv xxh n target rd' preps' rest (deliver (next_wait (rp_manager p)) p) \<and>
    (preps \<noteq> [] \<longrightarrow> length (rp_events p) < length (rp_events (deliver (next_wait (rp_manager p)) p)))"
proof -
  let ?m = "rp_manager p"
  have n: "rv_reader ?m = None" "rd = []" "rp_end p = None" using inv go by (auto simp: replay_inv_def split: option.splits)
  show ?thesis
  proof (cases "rv_prepared ?m")
    case Nil
    then have "deliver (next_wait ?m) p = p" using go by (simp add: next_wait_def deliver_def)
    then show ?thesis using inv Nil by (auto simp: replay_inv_def)
  next
    case (Cons nr q)
    obtain es preps' where e: "preps = es # preps'" "yields xxh es nr" "list_all2 (yields xxh) preps' q" "es \<noteq> []"
      using inv Cons by (auto simp: replay_inv_def list_all2_Cons2)
    obtain name r where nr: "nr = (name, r)" by (cases nr)
    obtain ev es' where es: "es = ev # es'" using e(4) by (cases es) auto
    obtain r' where r': "sr_next r = (r', Some ev)" "yields xxh es' (name, r')" using yields_next(2) e(2) nr es by blast
    have d: "deliver (next_wait ?m) p = p\<lparr>rp_manager := ?m\<lparr>rv_prepared := q, rv_index := rv_index ?m + 1, rv_reader := Some (name, r')\<rparr>, rp_waiting := False,
        rp_events := rp_events p @ [ev]\<rparr>" using Cons nr r'(1) by (simp add: next_wait_def deliver_def Let_def)
    have "replay_inv xxh n target es' preps' rest (deliver (next_wait ?m) p)"
      unfolding d using inv n e(1,3) es r'(2) by (simp add: replay_inv_def rest_ok_def)
    then show ?thesis unfolding d by auto
  qed
qed

lemma close_finished_reader_inv:
  "replay_inv xxh n target rd preps rest (p\<lparr>rp_manager := close_finished_reader m\<rparr>) = replay_inv xxh n target rd preps rest (p\<lparr>rp_manager := m\<rparr>)"
  by (cases "rv_finished m"; cases "rv_reader m") (simp_all add: close_finished_reader_def replay_inv_def rest_ok_def)

lemma replay_preload_inv:
  assumes inv: "replay_inv xxh n target rd preps rest p" and env: "env_good env" and small: "small_segment n"
  shows "\<exists>preps' rest'. replay_inv xxh n target rd preps' rest' (p\<lparr>rp_manager := preload_round xxh env (rp_manager p)\<rparr>) \<and>
    (preps = [] \<and> rest \<noteq> [] \<and> rp_end p = None \<longrightarrow> preps' \<noteq> [])"
proof -
  let ?m = "rp_manager p"
  have R: "list_all2 (describes xxh n (rv_dir ?m)) rest (drop (rv_next ?m) (rv_future ?m))" "rest \<noteq> [] \<longrightarrow> rv_started ?m"
    using inv by (simp_all add: replay_inv_def rest_ok_def)
  show ?thesis
  proof (cases "rv_stop ?m \<or> \<not> rv_started ?m")
    case True
    then have "preload_round xxh env ?m = ?m" by (simp add: preload_round_def)
    moreover have "rp_end p \<noteq> None \<or> rest = []" using True R(2) inv by (auto simp: replay_inv_def)
    ultimately show ?thesis using inv by auto
  next
    case run: False
    show ?thesis
    proof (cases "rv_next ?m < length (rv_future ?m) \<and> length (rv_prepared ?m) < PRELOAD_CAPACITY")
      case True
      let ?si = "rv_future ?m ! rv_next ?m"
      have "drop (rv_next ?m) (rv_future ?m) = ?si # drop (Suc (rv_next ?m)) (rv_future ?m)" using True by (simp add: Cons_nth_drop_Suc)
      then obtain s rest' where s: "rest = s # rest'" "describes xxh n (rv_dir ?m) s ?si" "list_all2 (describes xxh n (rv_dir ?m)) rest' (drop (Suc (rv_next ?m)) (rv_future ?m))"
        using R(1) by (auto simp: list_all2_Cons2)
      have S: "on_disk xxh n (rv_dir ?m) s" "snd s \<noteq> []" "si_name ?si = segment_name (fst s)" "si_status ?si = OK" using s(2) by (simp_all add: describes_def)
      obtain r where r: "open_reader xxh env (rv_dir ?m) (segment_name (fst s), new_reader (rv_dir ?m) (segment_name (fst s))) = ((segment_name (fst s), r), OK)"
        "yields xxh (snd s) (segment_name (fst s), r)" using open_yields [OF S(1,2) small env] by blast
      let ?m1 = "?m\<lparr>rv_next := rv_next ?m + 1, rv_prepared := rv_prepared ?m @ [(segment_name (fst s), r)]\<rparr>"
      have "preload_round xxh env ?m = close_finished_reader ?m1" using run True S(3,4) r(1) by (simp add: preload_round_def Let_def)
      moreover have "replay_inv xxh n target rd (preps @ [snd s]) rest' (p\<lparr>rp_manager := ?m1\<rparr>)"
        using inv s r(2) S(2) by (auto simp: replay_inv_def rest_ok_def list_all2_appendI split: option.splits)
      ultimately have "replay_inv xxh n target rd (preps @ [snd s]) rest' (p\<lparr>rp_manager := preload_round xxh env ?m\<rparr>)" by (simp add: close_finished_reader_inv)
      then show ?thesis by blast
    next
      case no: False
      let ?m1 = "if rv_next ?m \<ge> length (rv_future ?m) then ?m\<lparr>rv_preloading_done := True\<rparr> else ?m"
      have "preload_round xxh env ?m = close_finished_reader ?m1" unfolding preload_round_def if_not_P [OF run] if_not_P [OF no] ..
      moreover have "replay_inv xxh n target rd preps rest (p\<lparr>rp_manager := ?m1\<rparr>)"
        using inv R(1) by (auto simp: replay_inv_def rest_ok_def split: option.splits)
      ultimately have "replay_inv xxh n target rd preps rest (p\<lparr>rp_manager := preload_round xxh env ?m\<rparr>)" by (simp only: close_finished_reader_inv)
      moreover have "preps \<noteq> [] \<or> rest = []"
      proof (rule ccontr)
        assume "\<not> (preps \<noteq> [] \<or> rest = [])"
        then have "rv_prepared ?m = []" "drop (rv_next ?m) (rv_future ?m) \<noteq> []" using inv R(1) by (auto simp: replay_inv_def)
        then show False using no by (simp add: PRELOAD_CAPACITY_def)
      qed
      ultimately show ?thesis by blast
    qed
  qed
qed

lemma replay_step_inv:
  assumes "replay_step xxh env_good p p'" and "replay_inv xxh n target rd preps rest p" and "small_segment n"
  shows "\<exists>rd' preps' rest'. replay_inv xxh n target rd' preps' rest' p'"
  using assms(1)
proof (cases rule: replay_step.cases)
  case (rp_next env)
  then show ?thesis using replay_next_inv [OF assms(2) rp_next(2,3)] by blast
next
  case rp_wait
  then show ?thesis using replay_wait_inv [OF assms(2) rp_wait(2)] by blast
next
  case (rp_preload env)
  then show ?thesis using replay_preload_inv [OF assms(2) rp_preload(2) assms(3)] by blast
qed

lemma replay_run_inv:
  assumes "(replay_step xxh env_good)\<^sup>*\<^sup>* p p'" and "replay_inv xxh n target rd preps rest p" and "small_segment n"
  shows "\<exists>rd' preps' rest'. replay_inv xxh n target rd' preps' rest' p'"
  using assms(1)
proof (induction rule: rtranclp_induct)
  case base
  then show ?case using assms(2) by blast
next
  case (step q q')
  then show ?case using replay_step_inv [OF step.hyps(2) _ assms(3)] by blast
qed

section \<open>Progress\<close>

lemma preload_keeps: "rp_events (p\<lparr>rp_manager := m\<rparr>) = rp_events p" "rp_waiting (p\<lparr>rp_manager := m\<rparr>) = rp_waiting p" "rp_end (p\<lparr>rp_manager := m\<rparr>) = rp_end p"
  by simp_all

lemma waiting_progress:
  assumes inv: "replay_inv xxh n target rd preps rest p" and env: "env_good env" and small: "small_segment n" and w: "rp_waiting p" and more: "preps \<noteq> [] \<or> rest \<noteq> []"
  shows "\<exists>p'. (replay_step xxh env_good)\<^sup>*\<^sup>* p p' \<and> length (rp_events p) < length (rp_events p')"
proof -
  have "rp_end p = None" using inv w by (auto simp: replay_inv_def split: option.splits)
  define q where "q = (if preps = [] then p\<lparr>rp_manager := preload_round xxh env (rp_manager p)\<rparr> else p)"
  have run: "(replay_step xxh env_good)\<^sup>*\<^sup>* p q" using replay_step.rp_preload [of env_good env xxh p] env by (auto simp: q_def)
  obtain preps' rest' where q: "replay_inv xxh n target rd preps' rest' q" "preps' \<noteq> []"
    using replay_preload_inv [OF inv env small] inv more \<open>rp_end p = None\<close> by (cases "preps = []") (auto simp: q_def)
  have k: "rp_waiting q" "rp_events q = rp_events p" using w by (simp_all add: q_def)
  let ?p' = "deliver (next_wait (rp_manager q)) q"
  have "length (rp_events q) < length (rp_events ?p')" using replay_wait_inv [OF q(1) k(1)] q(2) by blast
  moreover have "replay_step xxh env_good q ?p'" by (rule replay_step.rp_wait [OF k(1)])
  ultimately show ?thesis using run k(2) by (metis rtranclp.rtrancl_into_rtrancl)
qed

lemma replay_progress:
  assumes inv: "replay_inv xxh n target rd preps rest p" and env: "env_good env" and small: "small_segment n" and more: "rp_events p \<noteq> target"
  shows "\<exists>p'. (replay_step xxh env_good)\<^sup>*\<^sup>* p p' \<and> length (rp_events p) < length (rp_events p')"
proof (cases "rp_waiting p")
  case True
  then have "rd = []" using inv by (auto simp: replay_inv_def split: option.splits)
  then have "preps \<noteq> [] \<or> rest \<noteq> []" using replay_events [OF inv] more by auto
  then show ?thesis using waiting_progress [OF inv env small True] by blast
next
  case False
  have e: "rp_end p = None" using replay_ended [OF inv] replay_events [OF inv] more by auto
  let ?q = "deliver (next_begin env (rp_manager p)) p"
  have step: "replay_step xxh env_good p ?q" by (rule replay_step.rp_next [where env_ok = env_good, OF False e env])
  obtain rd' where rd': "replay_inv xxh n target rd' preps rest ?q"
    "if rd = [] then rd' = [] \<and> rp_events ?q = rp_events p \<and> (preps \<noteq> [] \<or> rest \<noteq> [] \<longrightarrow> rp_waiting ?q) else length rd' < length rd"
    using replay_next_inv [OF inv False e] by blast
  show ?thesis
  proof (cases "rd = []")
    case True
    then have m: "preps \<noteq> [] \<or> rest \<noteq> []" using replay_events [OF inv] more by auto
    have q: "rp_events ?q = rp_events p" "rp_waiting ?q" using rd'(2) True m by simp_all
    from waiting_progress [OF rd'(1) env small q(2) m] q(1) step show ?thesis by (metis converse_rtranclp_into_rtranclp)
  next
    case False
    have "length (rp_events p @ rd) = length (rp_events ?q @ rd')" using replay_events [OF inv] replay_events [OF rd'(1)] by (metis append_assoc append_same_eq)
    then have "length (rp_events p) < length (rp_events ?q)" using rd'(2) False by simp
    then show ?thesis using step by blast
  qed
qed

section \<open>Replays without a preloader\<close>

definition no_preloader :: "recovery \<Rightarrow> bool" where
  "no_preloader m \<longleftrightarrow> \<not> rv_started m \<and> rv_prepared m = [] \<and> \<not> rv_preloading_done m"

lemma no_preloader_step:
  assumes "replay_step xxh env_ok p p'" and "no_preloader (rp_manager p)" and "rp_end p = None" and "rv_reader (rp_manager p) = None \<longrightarrow> rp_waiting p"
  shows "no_preloader (rp_manager p') \<and> rp_end p' = None \<and> (rv_reader (rp_manager p') = None \<longrightarrow> rp_waiting p') \<and> (rp_waiting p \<longrightarrow> p' = p)"
  using assms(1)
proof (cases rule: replay_step.cases)
  case (rp_next env)
  show ?thesis
  proof (cases "rv_reader (rp_manager p)")
    case (Some nr)
    obtain name r where nr: "nr = (name, r)" by (cases nr)
    obtain r' e where r': "sr_next r = (r', e)" by (cases "sr_next r")
    show ?thesis using rp_next Some nr r' assms(2,3)
      by (cases e; cases "length (rv_finished (rp_manager p)) < FINISHED_CAPACITY") (simp_all add: next_begin_def deliver_def no_preloader_def)
  qed (use rp_next assms in simp)
next
  case rp_wait
  have "deliver (next_wait (rp_manager p)) p = p" using assms(2) rp_wait(2) by (simp add: next_wait_def no_preloader_def deliver_def)
  then show ?thesis using assms rp_wait by simp
next
  case (rp_preload env)
  have "preload_round xxh env (rp_manager p) = rp_manager p" using assms(2) by (simp add: preload_round_def no_preloader_def)
  then show ?thesis using assms rp_preload by simp
qed

lemma no_preloader_run:
  assumes "(replay_step xxh env_ok)\<^sup>*\<^sup>* p p'" and "no_preloader (rp_manager p)" and "rp_end p = None" and "rv_reader (rp_manager p) = None \<longrightarrow> rp_waiting p"
  shows "no_preloader (rp_manager p') \<and> rp_end p' = None \<and> (rv_reader (rp_manager p') = None \<longrightarrow> rp_waiting p')"
  using assms
proof (induction rule: rtranclp_induct)
  case (step q q')
  have "no_preloader (rp_manager q)" "rp_end q = None" "rv_reader (rp_manager q) = None \<longrightarrow> rp_waiting q" using step.IH step.prems by simp_all
  from no_preloader_step [OF step.hyps(2) this] show ?case by simp
qed simp

lemma reaches_wait:
  assumes "replay_inv xxh n target rd [] [] p" and "no_preloader (rp_manager p)" and "rp_end p = None" and "env_good env"
  shows "\<exists>p'. (replay_step xxh env_good)\<^sup>*\<^sup>* p p' \<and> rp_waiting p'"
  using assms(1-3)
proof (induction "length rd" arbitrary: rd p rule: less_induct)
  case less
  show ?case
  proof (cases "rp_waiting p")
    case False
    let ?q = "deliver (next_begin env (rp_manager p)) p"
    have step: "replay_step xxh env_good p ?q" by (rule replay_step.rp_next [where env_ok = env_good, OF False less.prems(3) assms(4)])
    have "rv_reader (rp_manager p) \<noteq> None" using less.prems(1,3) False by (cases "rv_reader (rp_manager p)") (auto simp: replay_inv_def)
    then have q: "no_preloader (rp_manager ?q)" "rp_end ?q = None" "rv_reader (rp_manager ?q) = None \<longrightarrow> rp_waiting ?q"
      using no_preloader_step [OF step less.prems(2,3)] by auto
    obtain rd' where rd': "replay_inv xxh n target rd' [] [] ?q" "if rd = [] then rd' = [] \<and> rp_events ?q = rp_events p else length rd' < length rd"
      using replay_next_inv [OF less.prems(1) False less.prems(3), of env] by (auto split: if_splits)
    show ?thesis
    proof (cases "rd = []")
      case True
      obtain name r where r: "rv_reader (rp_manager p) = Some (name, r)" "yields xxh [] (name, r)"
        using less.prems(1,3) False True by (cases "rv_reader (rp_manager p)") (auto simp: replay_inv_def)
      then obtain r' where "sr_next r = (r', None)" using yields_next(1) by blast
      then have "rp_waiting ?q" using r(1) less.prems(2) by (simp add: next_begin_def deliver_def no_preloader_def Let_def)
      then show ?thesis using step by blast
    next
      case False
      then obtain p' where "(replay_step xxh env_good)\<^sup>*\<^sup>* ?q p'" "rp_waiting p'" using less.hyps [OF _ rd'(1) q(1,2)] rd'(2) by auto
      then show ?thesis using step by (metis converse_rtranclp_into_rtranclp)
    qed
  qed blast
qed

section \<open>Properties\<close>

text \<open>C10: recovery replays the log. From a directory of closed segments the recovery manager finds the segment of the wanted event and positions in it; in every interleaving of the calls of \<open>next\<close> with the
  preloader the delivered events are a prefix of the recorded events from the wanted id on, across all segments and in order; the end is only reported when all were delivered, and as long as some are missing the
  threads can go on to deliver the next one.\<close>

theorem recovery_replays_the_log:
  assumes "clean_log xxh n segs d" and "\<forall>s \<in> set segs. snd s \<noteq> []" and "\<exists>ev \<in> set (log_of segs). event_id \<le> ev_event_id ev" and "small_segment n" and "env_good env"
  shows "\<exists>m. resume_from_event xxh env event_id (fst (recovery_initialize xxh True (RecoveryManager_init d))) = (m, OK) \<and>
    (\<forall>p. (replay_step xxh env_good)\<^sup>*\<^sup>* (replay_start m) p \<longrightarrow>
      (\<exists>missing. rp_events p @ missing = filter (\<lambda>ev. event_id \<le> ev_event_id ev) (log_of segs) \<and>
        (if missing = [] then rp_end p \<in> {None, Some ITEM_NOT_FOUND}
         else rp_end p = None \<and> (\<exists>p'. (replay_step xxh env_good)\<^sup>*\<^sup>* p p' \<and> length (rp_events p) < length (rp_events p')))))"
proof -
  let ?t = "filter (\<lambda>ev. event_id \<le> ev_event_id ev) (log_of segs)"
  obtain m rd rest where m: "resume_from_event xxh env event_id (fst (recovery_initialize xxh True (RecoveryManager_init d))) = (m, OK)"
    "replay_inv xxh n ?t rd [] rest (replay_start m)" using resume_start [OF assms refl] by blast
  have "\<exists>missing. rp_events p @ missing = ?t \<and> (if missing = [] then rp_end p \<in> {None, Some ITEM_NOT_FOUND}
         else rp_end p = None \<and> (\<exists>p'. (replay_step xxh env_good)\<^sup>*\<^sup>* p p' \<and> length (rp_events p) < length (rp_events p')))"
    if run: "(replay_step xxh env_good)\<^sup>*\<^sup>* (replay_start m) p" for p
  proof -
    obtain rd' preps' rest' where i: "replay_inv xxh n ?t rd' preps' rest' p" using replay_run_inv [OF run m(2) assms(4)] by blast
    let ?x = "rd' @ concat preps' @ log_of rest'"
    have e: "rp_events p @ ?x = ?t" by (rule replay_events [OF i])
    have "rp_end p \<in> {None, Some ITEM_NOT_FOUND}" "?x \<noteq> [] \<Longrightarrow> rp_end p = None" using replay_ended [OF i] by (cases "rp_end p"; force)+
    moreover have "\<exists>p'. (replay_step xxh env_good)\<^sup>*\<^sup>* p p' \<and> length (rp_events p) < length (rp_events p')" if "?x \<noteq> []"
      using replay_progress [OF i assms(5,4)] e that by (metis append_self_conv)
    ultimately show ?thesis using e by (intro exI [of _ ?x]) auto
  qed
  then show ?thesis using m(1) by blast
qed

text \<open>C34: the replay of a log of one segment never ends. No preloader is started when there is no further segment, and nothing else sets the flag that \<open>next\<close> tests: in every run the end is
  never reported, and once all events were delivered the caller waits and no step of any thread changes anything any more.\<close>

theorem single_segment_replay_never_ends:
  assumes "clean_log xxh n [s] d" and "snd s \<noteq> []" and "\<exists>ev \<in> set (snd s). event_id \<le> ev_event_id ev" and "small_segment n" and "env_good env"
  shows "\<exists>m. resume_from_event xxh env event_id (fst (recovery_initialize xxh True (RecoveryManager_init d))) = (m, OK) \<and>
    (\<exists>p. (replay_step xxh env_good)\<^sup>*\<^sup>* (replay_start m) p \<and> rp_waiting p) \<and>
    (\<forall>p. (replay_step xxh env_good)\<^sup>*\<^sup>* (replay_start m) p \<longrightarrow> rp_end p = None \<and> (rp_waiting p \<longrightarrow> (\<forall>p'. replay_step xxh env_good p p' \<longrightarrow> p' = p)))"
proof -
  have "\<forall>s \<in> set [s]. snd s \<noteq> []" "\<exists>ev \<in> set (log_of [s]). event_id \<le> ev_event_id ev" using assms(2,3) by simp_all
  from resume_start [OF assms(1) this assms(4,5) refl] obtain m rd rest where
    m: "resume_from_event xxh env event_id (fst (recovery_initialize xxh True (RecoveryManager_init d))) = (m, OK)"
      "replay_inv xxh n (filter (\<lambda>ev. event_id \<le> ev_event_id ev) (log_of [s])) rd [] rest (replay_start m)" "rv_preloading_done m = False" "rest = [] \<longrightarrow> \<not> rv_started m" "length rest < length [s]"
    by blast
  then have r: "rest = []" by simp
  let ?p = "replay_start m"
  have p: "no_preloader (rp_manager ?p)" "rp_end ?p = None" "rv_reader (rp_manager ?p) = None \<longrightarrow> rp_waiting ?p"
    using m(2-4) r by (auto simp: replay_inv_def replay_start_def no_preloader_def split: option.splits)
  have "\<exists>p'. (replay_step xxh env_good)\<^sup>*\<^sup>* ?p p' \<and> rp_waiting p'" by (rule reaches_wait [OF m(2) [unfolded r] p(1,2) assms(5)])
  moreover have "rp_end p' = None \<and> (rp_waiting p' \<longrightarrow> (\<forall>p''. replay_step xxh env_good p' p'' \<longrightarrow> p'' = p'))"
    if run: "(replay_step xxh env_good)\<^sup>*\<^sup>* ?p p'" for p'
    using no_preloader_run [OF run p] no_preloader_step by blast
  ultimately show ?thesis using m(1) by blast
qed

section \<open>Witnesses\<close>

text \<open>A directory with one closed segment of two events, written by \<open>record_segment\<close>.\<close>

lemma sample_directory: "\<exists>c. clean_log (\<lambda>bs seed. seed) 16 [(0, [sample_event 3, sample_event 5])] [(segment_name 0, c)]"
proof -
  obtain c where "finished (\<lambda>bs seed. seed) 0 16 [sample_event 3, sample_event 5] c" using record_finished [OF sample_log(4,1) sample_room(1)] by blast
  then show ?thesis using sample_log(1) by (intro exI [of _ c]) (simp add: clean_log_def on_disk_def max_index_def)
qed

lemma sample_ids: "\<exists>ev \<in> set [sample_event 3, sample_event 5]. 4 \<le> ev_event_id ev" "\<not> 4 \<le> ev_event_id (sample_event 3)"
  by (simp_all add: sample_event_def event_reset_def)

theorem recovery_replays_the_log_witness:
  "\<exists>c m. resume_from_event (\<lambda>bs seed. seed) good_env 4 (fst (recovery_initialize (\<lambda>bs seed. seed) True (RecoveryManager_init [(segment_name 0, c)]))) = (m, OK) \<and>
    (\<forall>p. (replay_step (\<lambda>bs seed. seed) env_good)\<^sup>*\<^sup>* (replay_start m) p \<longrightarrow> (\<exists>missing. rp_events p @ missing = [sample_event 5]))"
proof -
  obtain c where c: "clean_log (\<lambda>bs seed. seed) 16 [(0, [sample_event 3, sample_event 5])] [(segment_name 0, c)]" using sample_directory by blast
  have f: "filter (\<lambda>ev. 4 \<le> ev_event_id ev) (log_of [(0 :: nat, [sample_event 3, sample_event 5])]) = [sample_event 5]" by (simp add: sample_event_def event_reset_def)
  have "\<forall>s \<in> set [(0 :: nat, [sample_event 3, sample_event 5])]. snd s \<noteq> []" "\<exists>ev \<in> set (log_of [(0 :: nat, [sample_event 3, sample_event 5])]). 4 \<le> ev_event_id ev" using sample_ids(1) by simp_all
  from recovery_replays_the_log [OF c this sample_log(5) good_env] show ?thesis unfolding f by blast
qed

theorem single_segment_replay_never_ends_witness:
  "\<exists>c m. resume_from_event (\<lambda>bs seed. seed) good_env 4 (fst (recovery_initialize (\<lambda>bs seed. seed) True (RecoveryManager_init [(segment_name 0, c)]))) = (m, OK) \<and>
    (\<exists>p. (replay_step (\<lambda>bs seed. seed) env_good)\<^sup>*\<^sup>* (replay_start m) p \<and> rp_waiting p) \<and>
    (\<forall>p. (replay_step (\<lambda>bs seed. seed) env_good)\<^sup>*\<^sup>* (replay_start m) p \<longrightarrow> rp_end p = None)"
proof -
  obtain c where c: "clean_log (\<lambda>bs seed. seed) 16 [(0, [sample_event 3, sample_event 5])] [(segment_name 0, c)]" using sample_directory by blast
  from single_segment_replay_never_ends [OF c _ _ sample_log(5) good_env, of 4] sample_ids(1) show ?thesis by auto
qed

end
