(* ===== verification/Timestamp.thy ===== *)
theory Timestamp
  imports Parse_Url
begin

text \<open>
  Timestamps of the exchange (wirekrak/core/timestamp.hpp): the RFC 3339 parser and the formatter. A \<^verbatim>\<open>Timestamp\<close> counts nanoseconds
  since 1970 in a signed 64-bit integer; the sums that can leave its range are reduced to it here, while C++ leaves such an overflow undefined. The calendar of \<^verbatim>\<open>std::chrono\<close> and \<^verbatim>\<open>strtol\<close> are modelled as
  far as the source uses them. A string view is a string together with the bytes that follow it in memory, because
  \<^verbatim>\<open>strtol\<close> does not stop at the end of a view.
\<close>

record string_view =
  sv_str :: string
  sv_rest :: string

section \<open>The calendar of std::chrono\<close>

definition leap_year :: "int \<Rightarrow> bool" where
  "leap_year y \<longleftrightarrow> y mod 4 = 0 \<and> (y mod 100 \<noteq> 0 \<or> y mod 400 = 0)"

definition days_before_year :: "int \<Rightarrow> int" where
  "days_before_year y = 365 * (y - 1) + (y - 1) div 4 - (y - 1) div 100 + (y - 1) div 400"

text \<open>The days of a year before its month \<open>m\<close>, counted from 1; month 13 gives the length of the year.\<close>

definition days_before_month :: "int \<Rightarrow> nat \<Rightarrow> int" where
  "days_before_month y m =
     [0, 0, 31, 59, 90, 120, 151, 181, 212, 243, 273, 304, 334, 365] ! m + (if 2 < m \<and> leap_year y then 1 else 0)"

definition days_in_month :: "int \<Rightarrow> nat \<Rightarrow> int" where
  "days_in_month y m = days_before_month y (Suc m) - days_before_month y m"

text \<open>\<^verbatim>\<open>year_month_day::ok\<close>, and the day number since 1970.\<close>

definition ymd_ok :: "int \<Rightarrow> int \<Rightarrow> int \<Rightarrow> bool" where
  "ymd_ok y m d \<longleftrightarrow> -32767 \<le> y \<and> y \<le> 32767 \<and> 1 \<le> m \<and> m \<le> 12 \<and> 1 \<le> d \<and> d \<le> days_in_month y (nat m)"

definition sys_days :: "int \<Rightarrow> int \<Rightarrow> int \<Rightarrow> int" where
  "sys_days y m d = days_before_year y - 719162 + days_before_month y (nat m) + d - 1"

text \<open>The date of a day number: the mean length of a year gives the year up to one.\<close>

definition year_of_days :: "int \<Rightarrow> int" where
  "year_of_days n =
     (let N = n + 719162; y = N * 400 div 146097 + 1 in
      if N < days_before_year y then y - 1 else if days_before_year (y + 1) \<le> N then y + 1 else y)"

definition month_of_day :: "int \<Rightarrow> int \<Rightarrow> nat" where
  "month_of_day y k = length (takeWhile (\<lambda>m. days_before_month y m \<le> k) [1..<13])"

definition civil_from_days :: "int \<Rightarrow> int \<times> int \<times> int" where
  "civil_from_days n =
     (let y = year_of_days n; k = n + 719162 - days_before_year y; m = month_of_day y k in
      (y, int m, k - days_before_month y m + 1))"

section \<open>Parsing\<close>

text \<open>
  \<^verbatim>\<open>strtol\<close> and \<^verbatim>\<open>strtoll\<close> in base ten on the memory from a pointer on: the value, clamped to 64 bits, and the number of
  characters consumed, none if there is no digit.
\<close>

definition is_space :: "char \<Rightarrow> bool" where
  "is_space c \<longleftrightarrow> c = CHR '' '' \<or> 9 \<le> (of_char c :: nat) \<and> (of_char c :: nat) \<le> 13"

definition clamp64 :: "int \<Rightarrow> int" where
  "clamp64 v = max (- (2 ^ 63)) (min (2 ^ 63 - 1) v)"

text \<open>A result of signed 64-bit arithmetic.\<close>

definition wrap64 :: "int \<Rightarrow> int" where
  "wrap64 v = (v + 2 ^ 63) mod 2 ^ 64 - 2 ^ 63"

definition strtol :: "string \<Rightarrow> int \<times> nat" where
  "strtol s =
     (let w = length (takeWhile is_space s);
          t = drop w s;
          signed = t \<noteq> [] \<and> (hd t = CHR ''+'' \<or> hd t = CHR ''-'');
          k = (if signed then 1 else 0);
          ds = takeWhile is_digit (drop k t);
          v = int (dec_value 0 ds) in
      if ds = [] then (0, 0)
      else (clamp64 (if signed \<and> hd t = CHR ''-'' then - v else v), w + k + length ds))"

text \<open>\<^verbatim>\<open>parse_int\<close> and \<^verbatim>\<open>parse_ll\<close> of a view of \<open>n\<close> characters at the start of \<open>mem\<close>. The views have at most four characters when
  \<^verbatim>\<open>parse_int\<close> is used, so that its result fits an \<^verbatim>\<open>int\<close> whenever it is accepted.\<close>

definition parse_int :: "string \<Rightarrow> nat \<Rightarrow> int option" where
  "parse_int mem n = (if n = 0 then None else case strtol mem of (v, k) \<Rightarrow> if k = n then Some v else None)"

definition parse_ll :: "string \<Rightarrow> nat \<Rightarrow> int option" where
  "parse_ll mem n = (if n = 0 then None else case strtol mem of (v, k) \<Rightarrow> if k = n then Some v else None)"

text \<open>The two loops that bring a fraction of \<open>digits\<close> digits to nanoseconds.\<close>

definition scale_fraction :: "nat \<Rightarrow> int \<Rightarrow> int" where
  "scale_fraction digits frac =
     (if digits < 9 then ((\<lambda>f. f * 10) ^^ (9 - digits)) frac
      else if 9 < digits then ((\<lambda>f. f div 10) ^^ (digits - 9)) frac
      else frac)"

text \<open>The optional fraction at position 19: its nanoseconds and the position after it.\<close>

definition parse_fraction :: "string_view \<Rightarrow> (int \<times> nat) option" where
  "parse_fraction v =
     (let s = sv_str v; mem = sv_str v @ sv_rest v in
      if s ! 19 = CHR ''.'' then
        let digits = length (takeWhile is_digit (drop 20 s)) in
        if digits = 0 then Some (0, 20)
        else case parse_ll (drop 20 mem) digits of
               None \<Rightarrow> None
             | Some frac \<Rightarrow> Some (scale_fraction digits frac, 20 + digits)
      else Some (0, 19))"

definition parse_rfc3339 :: "string_view \<Rightarrow> int option" where
  "parse_rfc3339 v =
     (let s = sv_str v; mem = sv_str v @ sv_rest v in
      if length s < 20 then None else
      case parse_int mem 4 of None \<Rightarrow> None | Some year \<Rightarrow>
      if s ! 4 \<noteq> CHR ''-'' then None else
      case parse_int (drop 5 mem) 2 of None \<Rightarrow> None | Some mon \<Rightarrow>
      if s ! 7 \<noteq> CHR ''-'' then None else
      case parse_int (drop 8 mem) 2 of None \<Rightarrow> None | Some day \<Rightarrow>
      if s ! 10 \<noteq> CHR ''T'' \<and> s ! 10 \<noteq> CHR ''t'' then None else
      case parse_int (drop 11 mem) 2 of None \<Rightarrow> None | Some hour \<Rightarrow>
      if s ! 13 \<noteq> CHR '':'' then None else
      case parse_int (drop 14 mem) 2 of None \<Rightarrow> None | Some minute \<Rightarrow>
      if s ! 16 \<noteq> CHR '':'' then None else
      case parse_int (drop 17 mem) 2 of None \<Rightarrow> None | Some sec \<Rightarrow>
      case parse_fraction v of None \<Rightarrow> None | Some (extra_ns, pos) \<Rightarrow>
      if length s \<le> pos \<or> s ! pos \<noteq> CHR ''Z'' then None else
      if \<not> ymd_ok year mon day then None else
      Some (wrap64 (wrap64 ((((sys_days year mon day * 24 + hour) * 60 + minute) * 60 + sec) * 1000000000) + extra_ns)))"

section \<open>Formatting\<close>

text \<open>\<^verbatim>\<open>printf\<close> of a natural number with zero padding.\<close>

definition pad_number :: "nat \<Rightarrow> nat \<Rightarrow> string" where
  "pad_number width n = (let ds = dec_digits n in replicate (width - length ds) (CHR ''0'') @ ds)"

text \<open>\<^verbatim>\<open>to_string\<close>. The years of 64-bit nanoseconds are positive. The day is converted to nanoseconds before it is subtracted.\<close>

definition timestamp_to_string :: "int \<Rightarrow> string" where
  "timestamp_to_string ts =
     (let d = ts div 86400000000000;
          (year, mon, day) = civil_from_days d;
          tod = wrap64 (ts - wrap64 (d * 86400000000000));
          h = tod div 3600000000000;
          m = (tod - h * 3600000000000) div 60000000000;
          s = (tod - h * 3600000000000 - m * 60000000000) div 1000000000;
          ns = tod - h * 3600000000000 - m * 60000000000 - s * 1000000000 in
      pad_number 4 (nat year) @ ''-'' @ pad_number 2 (nat mon) @ ''-'' @ pad_number 2 (nat day) @ ''T'' @
      pad_number 2 (nat h) @ '':'' @ pad_number 2 (nat m) @ '':'' @ pad_number 2 (nat s) @ ''.'' @ pad_number 9 (nat ns) @ ''Z'')"


section \<open>The calendar: dates of day numbers\<close>

lemma div_bounds: "0 < c \<Longrightarrow> c * (k div c) \<le> k \<and> k < c * (k div c) + c" for c k :: int
proof -
  assume "0 < c"
  then have "0 \<le> k mod c" "k mod c < c" by simp_all
  moreover have "c * (k div c) + k mod c = k" by simp
  ultimately show ?thesis by linarith
qed

lemma days_before_year_bounds:
  "146097 * y - 146897 < 400 * days_before_year y" "400 * days_before_year y < 146097 * y - 145697"
proof -
  define k where "k = y - 1"
  note d = div_bounds [of 4 k] div_bounds [of 100 k] div_bounds [of 400 k]
  have dby: "days_before_year y = 365 * k + k div 4 - k div 100 + k div 400" and y: "y = k + 1"
    by (simp_all add: days_before_year_def k_def)
  show "146097 * y - 146897 < 400 * days_before_year y" "400 * days_before_year y < 146097 * y - 145697"
    using d unfolding dby unfolding y by (simp_all add: algebra_simps)
qed

lemma year_of_days_spec:
  "days_before_year (year_of_days n) \<le> n + 719162 \<and> n + 719162 < days_before_year (year_of_days n + 1)"
proof -
  define N where "N = n + 719162"
  define q where "q = N * 400 div 146097"
  have q: "146097 * q \<le> N * 400" "N * 400 < 146097 * q + 146097" using div_bounds [of 146097 "N * 400"] by (simp_all add: q_def)
  have "days_before_year q \<le> N"
    using days_before_year_bounds [of q] q by linarith
  moreover have "N < days_before_year (q + 3)"
    using days_before_year_bounds(1) [of "q + 3"] q by (simp add: algebra_simps)
  ultimately show ?thesis
    unfolding year_of_days_def N_def [symmetric] q_def [symmetric] Let_def by (simp add: add.assoc)
qed

lemma div_pred: "0 < c \<Longrightarrow> y div c = (y - 1) div c + (if y mod c = 0 then 1 else 0)" for c y :: int
proof -
  assume c: "0 < c"
  have y: "y = c * (y div c) + y mod c" by simp
  show ?thesis
  proof (cases "y mod c = 0")
    case True
    have "(y - 1) div c = y div c - 1"
      using y True c by (intro int_div_pos_eq [of _ c _ "c - 1"]) (auto simp: algebra_simps)
    then show ?thesis using True by simp
  next
    case False
    have "0 \<le> y mod c" "y mod c < c" using c by simp_all
    then have "(y - 1) div c = y div c"
      using y False by (intro int_div_pos_eq [of _ c _ "y mod c - 1"]) (auto simp: algebra_simps)
    then show ?thesis using False by simp
  qed
qed

lemma leap_days: "(p400 \<Longrightarrow> p100) \<Longrightarrow> (p100 \<Longrightarrow> p4) \<Longrightarrow>
  (if p4 then 1 else 0) - (if p100 then 1 else 0) + (if p400 then 1 else 0) = (if p4 \<and> (\<not> p100 \<or> p400) then 1 else 0 :: int)"
  by (cases p4; cases p100; cases p400) simp_all

lemma year_length: "days_before_year (y + 1) = days_before_year y + days_before_month y 13"
proof -
  have d: "y div 4 = (y - 1) div 4 + (if y mod 4 = 0 then 1 else 0)" "y div 100 = (y - 1) div 100 + (if y mod 100 = 0 then 1 else 0)"
    "y div 400 = (y - 1) div 400 + (if y mod 400 = 0 then 1 else 0)" by (rule div_pred, simp)+
  have "(if y mod 4 = 0 then 1 else 0) - (if y mod 100 = 0 then 1 else 0) + (if y mod 400 = 0 then 1 else 0) = (if leap_year y then 1 else 0 :: int)"
    unfolding leap_year_def
    by (rule leap_days) (auto simp: mod_eq_0_iff_dvd intro: dvd_trans [of 100 400 y] dvd_trans [of 4 100 y])
  then have "y div 4 - y div 100 + y div 400 = (y - 1) div 4 - (y - 1) div 100 + (y - 1) div 400 + (if leap_year y then 1 else 0)"
    unfolding d by linarith
  moreover have "days_before_month y 13 = 365 + (if leap_year y then 1 else 0)" by (simp add: days_before_month_def)
  moreover have "days_before_year (y + 1) = 365 * y + y div 4 - y div 100 + y div 400" by (simp add: days_before_year_def)
  moreover have "days_before_year y = 365 * y - 365 + (y - 1) div 4 - (y - 1) div 100 + (y - 1) div 400"
    by (simp add: days_before_year_def)
  ultimately show ?thesis by linarith
qed

lemma month_of_day_spec:
  assumes "0 \<le> k" "k < days_before_month y 13"
  shows "1 \<le> month_of_day y k \<and> month_of_day y k \<le> 12 \<and> days_before_month y (month_of_day y k) \<le> k \<and>
         k < days_before_month y (Suc (month_of_day y k))"
proof -
  have up: "[1..<13] = [1, 2, 3, 4, 5, 6, 7, 8, 9, 10, 11, 12 :: nat]" by (simp add: upt_conv_Cons)
  show ?thesis using assms unfolding month_of_day_def up by (cases "leap_year y") (auto simp: days_before_month_def)
qed

lemma month_days_bound: "0 < m \<Longrightarrow> m \<le> 12 \<Longrightarrow> days_in_month y m \<le> 31"
proof -
  assume "0 < m" "m \<le> 12"
  then have "m \<in> set [1..<13]" by simp
  also have "[1..<13] = [1, 2, 3, 4, 5, 6, 7, 8, 9, 10, 11, 12 :: nat]" by (simp add: upt_conv_Cons)
  finally show ?thesis by (auto simp: days_in_month_def days_before_month_def)
qed

lemma civil_from_days_spec:
  assumes "civil_from_days n = (y, m, d)" and "-12000000 \<le> n" "n \<le> 11000000"
  shows "ymd_ok y m d \<and> sys_days y m d = n"
proof -
  define k where "k = n + 719162 - days_before_year y"
  have y: "y = year_of_days n" and m: "m = int (month_of_day y k)" and d: "d = k - days_before_month y (month_of_day y k) + 1"
    using assms(1) by (auto simp: civil_from_days_def k_def Let_def)
  have k: "0 \<le> k" "k < days_before_month y 13"
    using year_of_days_spec [of n] year_length [of y] by (auto simp: k_def y)
  have "days_before_year y \<le> n + 719162" "n + 719162 < days_before_year (y + 1)" using year_of_days_spec [of n] by (simp_all add: y)
  then have "-32767 \<le> y" "y \<le> 32767"
    using assms(2,3) days_before_year_bounds [of y] days_before_year_bounds [of "y + 1"] by (simp_all add: algebra_simps)
  then show ?thesis using month_of_day_spec [OF k]
    by (auto simp: ymd_ok_def sys_days_def days_in_month_def m d k_def)
qed

section \<open>Numerals\<close>

lemma dec_value_zeros: "dec_value 0 (replicate k (CHR ''0'') @ ds) = dec_value 0 ds"
  by (induction k) (simp_all add: dec_value_def digit_value_def)

lemma dec_value_less:
  assumes "\<forall>c \<in> set ds. is_digit c"
  shows "dec_value n ds < (n + 1) * 10 ^ length ds"
  using assms
proof (induction ds arbitrary: n)
  case (Cons c ds)
  have "dec_value n (c # ds) < (n * 10 + digit_value c + 1) * 10 ^ length ds"
    using Cons by (simp add: dec_value_def)
  also have "\<dots> \<le> ((n + 1) * 10) * 10 ^ length ds"
    using Cons.prems digit_value_le [of c] by (intro mult_right_mono) auto
  finally show ?case by (simp add: algebra_simps)
qed (simp add: dec_value_def)

lemma dec_digits_length: "n < 10 ^ w \<Longrightarrow> 0 < w \<Longrightarrow> length (dec_digits n) \<le> w"
proof (induction w arbitrary: n)
  case (Suc w)
  show ?case
  proof (cases "n < 10")
    case True
    then show ?thesis by (subst dec_digits.simps) simp
  next
    case False
    then have "0 < w" using Suc.prems by (cases w) auto
    moreover have "n div 10 < 10 ^ w" using Suc.prems(1) by (simp add: less_mult_imp_div_less)
    ultimately show ?thesis using Suc.IH False by (subst dec_digits.simps) simp
  qed
qed simp

lemma pad_number_facts:
  assumes "n < 10 ^ w" "0 < w"
  shows "length (pad_number w n) = w" "\<forall>c \<in> set (pad_number w n). is_digit c" "dec_value 0 (pad_number w n) = n"
  using dec_digits_facts [of n] dec_digits_length [OF assms] dec_value_zeros
  by (auto simp: pad_number_def Let_def is_digit_def)

lemma digit_not_space: "is_digit c \<Longrightarrow> \<not> is_space c \<and> c \<noteq> CHR ''+'' \<and> c \<noteq> CHR ''-''"
  by (auto simp: is_digit_def is_space_def)

lemma strtol_digits:
  assumes "\<forall>c \<in> set ds. is_digit c" "ds \<noteq> []" "\<not> is_digit c"
  shows "strtol (ds @ c # rest) = (clamp64 (int (dec_value 0 ds)), length ds)"
proof -
  obtain d ds' where ds: "ds = d # ds'" using assms(2) by (cases ds) auto
  have d: "\<not> is_space d" "d \<noteq> CHR ''+''" "d \<noteq> CHR ''-''" using assms(1) digit_not_space ds by auto
  have "takeWhile is_digit (ds @ c # rest) = ds" using assms(1,3) by (simp add: takeWhile_append2)
  then show ?thesis using d unfolding ds by (simp add: strtol_def Let_def)
qed

lemma parse_int_pad:
  assumes "n < 10 ^ w" "0 < w" "w \<le> 18" "\<not> is_digit c"
  shows "parse_int (pad_number w n @ c # rest) w = Some (int n)"
proof -
  note f = pad_number_facts [OF assms(1,2)]
  have "pad_number w n \<noteq> []" using f(1) assms(2) by auto
  moreover have "int n < 10 ^ 18"
    using assms(1,3) by (metis (mono_tags) less_le_trans of_nat_less_iff of_nat_numeral of_nat_power one_le_numeral power_increasing)
  ultimately show ?thesis using strtol_digits [OF f(2) _ assms(4)] f assms(2)
    by (simp add: parse_int_def clamp64_def)
qed


section \<open>Round trip\<close>

text \<open>A timestamp in its text form, given by the numbers in it.\<close>

definition rfc3339_text :: "nat \<Rightarrow> nat \<Rightarrow> nat \<Rightarrow> nat \<Rightarrow> nat \<Rightarrow> nat \<Rightarrow> nat \<Rightarrow> string" where
  "rfc3339_text y mo d h mi se ns =
     pad_number 4 y @ ''-'' @ pad_number 2 mo @ ''-'' @ pad_number 2 d @ ''T'' @
     pad_number 2 h @ '':'' @ pad_number 2 mi @ '':'' @ pad_number 2 se @ ''.'' @ pad_number 9 ns @ ''Z''"

lemma parse_fraction_digits:
  assumes "\<forall>c \<in> set F. is_digit c" "length F = 9" "length pre = 19"
  shows "parse_fraction \<lparr>sv_str = pre @ CHR ''.'' # F @ ''Z'', sv_rest = rest\<rparr> = Some (int (dec_value 0 F), 29)"
proof -
  have tw: "takeWhile is_digit (F @ ''Z'') = F" using assms(1) by (simp add: takeWhile_append2 is_digit_def)
  have "F \<noteq> []" using assms(2) by auto
  then have st: "strtol (F @ CHR ''Z'' # rest) = (clamp64 (int (dec_value 0 F)), 9)"
    using strtol_digits [OF assms(1)] assms(2) by (simp add: is_digit_def)
  have "dec_value 0 F < 10 ^ 9" using dec_value_less [OF assms(1), of 0] assms(2) by simp
  then have "clamp64 (int (dec_value 0 F)) = int (dec_value 0 F)" by (simp add: clamp64_def)
  then show ?thesis using tw st assms(2,3)
    by (simp add: parse_fraction_def parse_ll_def scale_fraction_def Let_def nth_append)
qed

lemma parse_rfc3339_text:
  assumes "y < 10 ^ 4" "mo < 10 ^ 2" "d < 10 ^ 2" "h < 10 ^ 2" "mi < 10 ^ 2" "se < 10 ^ 2" "ns < 10 ^ 9"
  shows "parse_rfc3339 \<lparr>sv_str = rfc3339_text y mo d h mi se ns, sv_rest = rest\<rparr> =
     (if ymd_ok (int y) (int mo) (int d)
      then Some (wrap64 (wrap64 ((((sys_days (int y) (int mo) (int d) * 24 + int h) * 60 + int mi) * 60 + int se) * 1000000000) + int ns)) else None)"
proof -
  define Y MO D H MI SE F where parts: "Y = pad_number 4 y" "MO = pad_number 2 mo" "D = pad_number 2 d" "H = pad_number 2 h"
    "MI = pad_number 2 mi" "SE = pad_number 2 se" "F = pad_number 9 ns"
  have len: "length Y = 4" "length MO = 2" "length D = 2" "length H = 2" "length MI = 2" "length SE = 2" "length F = 9"
    using assms pad_number_facts(1) by (simp_all add: parts)
  define pre where "pre = Y @ ''-'' @ MO @ ''-'' @ D @ ''T'' @ H @ '':'' @ MI @ '':'' @ SE"
  have s: "rfc3339_text y mo d h mi se ns = pre @ CHR ''.'' # F @ ''Z''"
    by (simp add: rfc3339_text_def pre_def parts)
  have "dec_value 0 F = ns" "\<forall>c \<in> set F. is_digit c" using pad_number_facts(2,3) [of ns 9] assms by (simp_all add: parts)
  then have fr: "parse_fraction \<lparr>sv_str = pre @ CHR ''.'' # F @ ''Z'', sv_rest = rest\<rparr> = Some (int ns, 29)"
    using parse_fraction_digits [of F pre rest] len by (simp add: pre_def)
  have "\<not> is_digit (CHR ''-'')" "\<not> is_digit (CHR ''T'')" "\<not> is_digit (CHR '':'')" "\<not> is_digit (CHR ''.'')"
    by (simp_all add: is_digit_def)
  then have num: "parse_int (Y @ CHR ''-'' # r) 4 = Some (int y)" "parse_int (MO @ CHR ''-'' # r) 2 = Some (int mo)"
    "parse_int (D @ CHR ''T'' # r) 2 = Some (int d)" "parse_int (H @ CHR '':'' # r) 2 = Some (int h)"
    "parse_int (MI @ CHR '':'' # r) 2 = Some (int mi)" "parse_int (SE @ CHR ''.'' # r) 2 = Some (int se)" for r
    using assms parse_int_pad by (simp_all add: parts)
  show ?thesis unfolding s
    unfolding pre_def by (simp add: parse_rfc3339_def Let_def len num nth_append fr [unfolded pre_def, simplified])
qed

lemma mod_div_swap: "e = c * k \<Longrightarrow> 0 < c \<Longrightarrow> 0 < k \<Longrightarrow> t mod e div c = t div c mod k" for c k t :: int
  by (simp add: zmod_zmult2_eq)

lemma wrap64_id: "- (2 ^ 63) \<le> v \<Longrightarrow> v < 2 ^ 63 \<Longrightarrow> wrap64 v = v"
  by (simp add: wrap64_def)

text \<open>The instants for which nothing overflows: those from the first whole day that 64 bits of nanoseconds hold.\<close>

definition representable :: "int \<Rightarrow> bool" where
  "representable ts \<longleftrightarrow> - 106751 * 86400000000000 \<le> ts \<and> ts < 2 ^ 63"

lemma representable_day:
  assumes "representable ts"
  shows "-106751 \<le> ts div 86400000000000" "ts div 86400000000000 \<le> 106751"
    "wrap64 (ts div 86400000000000 * 86400000000000) = ts div 86400000000000 * 86400000000000"
    "wrap64 (ts - ts div 86400000000000 * 86400000000000) = ts mod 86400000000000"
proof -
  have ts: "ts = ts div 86400000000000 * 86400000000000 + ts mod 86400000000000" by simp
  have m: "0 \<le> ts mod 86400000000000" "ts mod 86400000000000 < 86400000000000" by simp_all
  have "-9223286400000000000 \<le> ts" "ts < 9223372036854775808" using assms by (simp_all add: representable_def)
  then show d: "-106751 \<le> ts div 86400000000000" "ts div 86400000000000 \<le> 106751" using ts m by linarith+
  show "wrap64 (ts div 86400000000000 * 86400000000000) = ts div 86400000000000 * 86400000000000" by (rule wrap64_id) (use d in simp_all)
  have "ts - ts div 86400000000000 * 86400000000000 = ts mod 86400000000000" by (simp add: minus_div_mult_eq_mod)
  then show "wrap64 (ts - ts div 86400000000000 * 86400000000000) = ts mod 86400000000000" using m by (simp add: wrap64_id)
qed

lemma timestamp_to_string_text:
  assumes "civil_from_days (ts div 86400000000000) = (y, m, d)" and "representable ts"
  defines "t \<equiv> ts mod 86400000000000"
  shows "timestamp_to_string ts =
    rfc3339_text (nat y) (nat m) (nat d) (nat (t div 3600000000000)) (nat (t div 60000000000 mod 60))
      (nat (t div 1000000000 mod 60)) (nat (t mod 1000000000))"
proof -
  have t: "wrap64 (ts - wrap64 (ts div 86400000000000 * 86400000000000)) = t" using representable_day(3,4) [OF assms(2)] by (simp add: t_def)
  have h: "t - t div 3600000000000 * 3600000000000 = t mod 3600000000000" by (simp add: minus_div_mult_eq_mod)
  have dv: "t mod 3600000000000 div 60000000000 = t div 60000000000 mod 60" "t mod 60000000000 div 1000000000 = t div 1000000000 mod 60"
    by (rule mod_div_swap; simp)+
  have mi: "t mod 3600000000000 - t div 60000000000 mod 60 * 60000000000 = t mod 60000000000"
    unfolding dv(1) [symmetric] by (simp add: minus_div_mult_eq_mod mod_mod_cancel)
  have se: "t mod 60000000000 - t div 1000000000 mod 60 * 1000000000 = t mod 1000000000"
    unfolding dv(2) [symmetric] by (simp add: minus_div_mult_eq_mod mod_mod_cancel)
  show ?thesis by (simp only: timestamp_to_string_def rfc3339_text_def Let_def assms(1) prod.case t h mi se dv)
qed


lemma day_fields:
  fixes t :: int
  assumes "0 \<le> t" "t < 86400000000000"
  shows "0 \<le> t div 3600000000000" "t div 3600000000000 < 24"
    "(((t div 3600000000000) * 60 + t div 60000000000 mod 60) * 60 + t div 1000000000 mod 60) * 1000000000 + t mod 1000000000 = t"
proof -
  define s where "s = t div 1000000000"
  have a: "t div 60000000000 = s div 60" and b: "t div 3600000000000 = s div 60 div 60"
    unfolding s_def by (simp_all flip: zdiv_zmult2_eq)
  show "(((t div 3600000000000) * 60 + t div 60000000000 mod 60) * 60 + t div 1000000000 mod 60) * 1000000000 + t mod 1000000000 = t"
    unfolding a b s_def [symmetric] by (simp only: div_mult_mod_eq) (simp only: s_def div_mult_mod_eq)
  show "0 \<le> t div 3600000000000" "t div 3600000000000 < 24" using assms div_bounds [of 3600000000000 t] by linarith+
qed

lemma year_of_days_range:
  assumes "-106752 \<le> n" "n \<le> 106752"
  shows "0 \<le> year_of_days n \<and> year_of_days n < 10000"
  using assms year_of_days_spec [of n] days_before_year_bounds [of "year_of_days n"]
    days_before_year_bounds [of "year_of_days n + 1"] by (simp add: algebra_simps)



text \<open>
  What the parser lets through: the fields of the time of day are not bounded, and what follows the \<^verbatim>\<open>Z\<close> is not read. From the twentieth digit
  on a fraction saturates before it is scaled, so that .1234567890 1234567890 becomes 92233720 ns.
\<close>

lemma scale_fraction_eq: "scale_fraction n f = (if n < 9 then f * 10 ^ (9 - n) else f div 10 ^ (n - 9))"
proof -
  have "((\<lambda>f. f * 10) ^^ k) g = g * 10 ^ k" "((\<lambda>f. f div 10) ^^ k) g = g div 10 ^ k" for k and g :: int
    by (induction k arbitrary: g) (simp_all add: zdiv_zmult2_eq [symmetric] mult.commute)
  then show ?thesis by (simp add: scale_fraction_def)
qed

lemmas timestamp_eval = parse_rfc3339_def parse_int_def parse_ll_def parse_fraction_def strtol_def is_space_def is_digit_def
  dec_value_def digit_value_def clamp64_def wrap64_def Let_def

lemma parse_fraction_saturates:
  "parse_fraction \<lparr>sv_str = ''1970-01-01T00:00:00.12345678901234567890Z'', sv_rest = []\<rparr> = Some (92233720, 40)"
  "parse_fraction \<lparr>sv_str = ''1970-01-01T00:00:00.1234567890123456789Z'', sv_rest = []\<rparr> = Some (123456789, 39)"
  by (simp_all add: timestamp_eval scale_fraction_eq)

lemma parse_rfc3339_lax:
  "parse_rfc3339 \<lparr>sv_str = ''1970-01-01T99:99:99Z and more'', sv_rest = []\<rparr> = Some 362439000000000"
proof -
  have "ymd_ok 1970 1 1" "sys_days 1970 1 1 = 0"
    by (simp_all add: ymd_ok_def sys_days_def days_in_month_def days_before_month_def days_before_year_def leap_year_def)
  then show ?thesis by (simp add: timestamp_eval)
qed

end
