(* ===== verification/Kraken_Enums.thy ===== *)
theory Kraken_Enums
  imports Timestamp Prelude
begin

text \<open>
  The enumerations of the Kraken protocol (protocol/kraken/enums) and the packing of characters into words (lcr/bit/pack.hpp). Each enumeration
  has a strict conversion from strings and a fast one that compares packed words; the parser uses the fast ones.
\<close>

unbundle bit_operations_syntax

section \<open>Packing\<close>

text \<open>\<^verbatim>\<open>pack4\<close> of a string view does not look at its size: it reads four bytes from the pointer on, beyond the end of a shorter view.
  Bytes beyond the known memory count as zero.\<close>

definition sv_byte :: "string_view \<Rightarrow> nat \<Rightarrow> char" where
  "sv_byte v i = (let mem = sv_str v @ sv_rest v in if i < length mem then mem ! i else CHR 0x00)"

definition char_word :: "char \<Rightarrow> 'a::len word" where
  "char_word c = of_nat (of_char c)"

definition pack4 :: "string_view \<Rightarrow> u32" where
  "pack4 v = char_word (sv_byte v 0) OR push_bit 8 (char_word (sv_byte v 1)) OR
     push_bit 16 (char_word (sv_byte v 2)) OR push_bit 24 (char_word (sv_byte v 3))"

text \<open>\<^verbatim>\<open>pack8\<close> of a string view pads a shorter view with zeros.\<close>

definition pack8_byte :: "string \<Rightarrow> nat \<Rightarrow> u64" where
  "pack8_byte s i = (if i < length s then push_bit (8 * i) (char_word (s ! i)) else 0)"

definition pack8 :: "string_view \<Rightarrow> u64" where
  "pack8 v = (let s = sv_str v in
     pack8_byte s 0 OR pack8_byte s 1 OR pack8_byte s 2 OR pack8_byte s 3 OR
     pack8_byte s 4 OR pack8_byte s 5 OR pack8_byte s 6 OR pack8_byte s 7)"

text \<open>A string literal as a view: it is followed by its terminating zero.\<close>

definition literal :: "string \<Rightarrow> string_view" where
  "literal s = \<lparr>sv_str = s, sv_rest = [CHR 0x00]\<rparr>"

section \<open>Method\<close>

datatype kraken_method = MethodSubscribe | MethodUnsubscribe | MethodPing | MethodPong | MethodUnknown

fun method_to_string :: "kraken_method \<Rightarrow> string" where
  "method_to_string MethodSubscribe = ''subscribe''"
| "method_to_string MethodUnsubscribe = ''unsubscribe''"
| "method_to_string MethodPing = ''ping''"
| "method_to_string MethodPong = ''pong''"
| "method_to_string MethodUnknown = ''unknown''"

definition to_method_enum :: "string \<Rightarrow> kraken_method" where
  "to_method_enum s =
     (if length s = 4 then
        if s ! 1 = CHR ''i'' \<and> s = ''ping'' then MethodPing
        else if s ! 1 = CHR ''o'' \<and> s = ''pong'' then MethodPong else MethodUnknown
      else if length s = 9 then if s ! 0 = CHR ''s'' \<and> s = ''subscribe'' then MethodSubscribe else MethodUnknown
      else if length s = 11 then if s ! 0 = CHR ''u'' \<and> s = ''unsubscribe'' then MethodUnsubscribe else MethodUnknown
      else MethodUnknown)"

definition to_method_enum_fast :: "string_view \<Rightarrow> kraken_method" where
  "to_method_enum_fast s =
     (let k = pack4 s in
      if k = pack4 (literal ''subs'') then MethodSubscribe
      else if k = pack4 (literal ''unsu'') then MethodUnsubscribe
      else if k = pack4 (literal ''ping'') then MethodPing
      else if k = pack4 (literal ''pong'') then MethodPong
      else MethodUnknown)"

section \<open>Channel\<close>

datatype channel = ChannelTrade | ChannelTicker | ChannelBook | ChannelHeartbeat | ChannelStatus | ChannelUnknown

fun channel_to_string :: "channel \<Rightarrow> string" where
  "channel_to_string ChannelTrade = ''trade''"
| "channel_to_string ChannelTicker = ''ticker''"
| "channel_to_string ChannelBook = ''book''"
| "channel_to_string ChannelHeartbeat = ''heartbeat''"
| "channel_to_string ChannelStatus = ''status''"
| "channel_to_string ChannelUnknown = ''unknown''"

definition to_channel_enum :: "string \<Rightarrow> channel" where
  "to_channel_enum s =
     (if length s = 4 then if s ! 0 = CHR ''b'' \<and> s = ''book'' then ChannelBook else ChannelUnknown
      else if length s = 5 then if s ! 0 = CHR ''t'' \<and> s = ''trade'' then ChannelTrade else ChannelUnknown
      else if length s = 6 then
        if s ! 0 = CHR ''t'' \<and> s = ''ticker'' then ChannelTicker
        else if s ! 0 = CHR ''s'' \<and> s = ''status'' then ChannelStatus else ChannelUnknown
      else if length s = 9 then if s ! 0 = CHR ''h'' \<and> s = ''heartbeat'' then ChannelHeartbeat else ChannelUnknown
      else ChannelUnknown)"

definition to_channel_enum_fast :: "string_view \<Rightarrow> channel" where
  "to_channel_enum_fast s =
     (let k = pack4 s in
      if k = pack4 (literal ''trad'') then ChannelTrade
      else if k = pack4 (literal ''tick'') then ChannelTicker
      else if k = pack4 (literal ''book'') then ChannelBook
      else if k = pack4 (literal ''hear'') then ChannelHeartbeat
      else if k = pack4 (literal ''stat'') then ChannelStatus
      else ChannelUnknown)"

section \<open>Side, order type, payload type, system state\<close>

datatype trade_side = SideBuy | SideSell | SideUnknown

fun side_to_string :: "trade_side \<Rightarrow> string" where
  "side_to_string SideBuy = ''buy''"
| "side_to_string SideSell = ''sell''"
| "side_to_string SideUnknown = ''unknown''"

definition to_side_enum :: "string \<Rightarrow> trade_side" where
  "to_side_enum s =
     (if length s = 3 then if s ! 0 = CHR ''b'' \<and> s = ''buy'' then SideBuy else SideUnknown
      else if length s = 4 then if s ! 0 = CHR ''s'' \<and> s = ''sell'' then SideSell else SideUnknown
      else SideUnknown)"

definition to_side_enum_fast :: "string_view \<Rightarrow> trade_side" where
  "to_side_enum_fast s =
     (let k = pack4 s in
      if k = pack4 (literal ''buy'') then SideBuy
      else if k = pack4 (literal ''sell'') then SideSell
      else SideUnknown)"

datatype kraken_order_type = OrderLimit | OrderMarket | OrderUnknown

fun order_type_to_string :: "kraken_order_type \<Rightarrow> string" where
  "order_type_to_string OrderLimit = ''limit''"
| "order_type_to_string OrderMarket = ''market''"
| "order_type_to_string OrderUnknown = ''unknown''"

definition to_order_type_enum :: "string \<Rightarrow> kraken_order_type" where
  "to_order_type_enum s =
     (if length s = 5 then if s ! 0 = CHR ''l'' \<and> s = ''limit'' then OrderLimit else OrderUnknown
      else if length s = 6 then if s ! 0 = CHR ''m'' \<and> s = ''market'' then OrderMarket else OrderUnknown
      else OrderUnknown)"

definition to_order_type_enum_fast :: "string_view \<Rightarrow> kraken_order_type" where
  "to_order_type_enum_fast s =
     (let k = pack4 s in
      if k = pack4 (literal ''limi'') then OrderLimit
      else if k = pack4 (literal ''mark'') then OrderMarket
      else OrderUnknown)"

datatype payload_type = PayloadSnapshot | PayloadUpdate | PayloadUnknown

fun payload_type_to_string :: "payload_type \<Rightarrow> string" where
  "payload_type_to_string PayloadSnapshot = ''snapshot''"
| "payload_type_to_string PayloadUpdate = ''update''"
| "payload_type_to_string PayloadUnknown = ''unknown''"

definition to_payload_type_enum :: "string \<Rightarrow> payload_type" where
  "to_payload_type_enum s =
     (if length s = 6 then if s = ''update'' then PayloadUpdate else PayloadUnknown
      else if length s = 8 then if s = ''snapshot'' then PayloadSnapshot else PayloadUnknown
      else PayloadUnknown)"

definition to_payload_type_enum_fast :: "string_view \<Rightarrow> payload_type" where
  "to_payload_type_enum_fast s =
     (let k = pack8 s in
      if k = pack8 (literal ''update'') then PayloadUpdate
      else if k = pack8 (literal ''snapshot'') then PayloadSnapshot
      else PayloadUnknown)"

datatype system_state = SystemOnline | SystemCancelOnly | SystemMaintenance | SystemPostOnly | SystemUnknown

fun system_state_to_string :: "system_state \<Rightarrow> string" where
  "system_state_to_string SystemOnline = ''online''"
| "system_state_to_string SystemCancelOnly = ''cancel_only''"
| "system_state_to_string SystemMaintenance = ''maintenance''"
| "system_state_to_string SystemPostOnly = ''post_only''"
| "system_state_to_string SystemUnknown = ''unknown''"

definition to_system_state_enum :: "string \<Rightarrow> system_state" where
  "to_system_state_enum s =
     (if length s = 6 then if s ! 0 = CHR ''o'' \<and> s = ''online'' then SystemOnline else SystemUnknown
      else if length s = 9 then if s ! 0 = CHR ''p'' \<and> s = ''post_only'' then SystemPostOnly else SystemUnknown
      else if length s = 11 then if s ! 0 = CHR ''c'' \<and> s = ''cancel_only'' then SystemCancelOnly else SystemUnknown
      else if length s = 11 + 1 then if s ! 0 = CHR ''m'' \<and> s = ''maintenance'' then SystemMaintenance else SystemUnknown
      else SystemUnknown)"

definition to_system_state_enum_fast :: "string_view \<Rightarrow> system_state" where
  "to_system_state_enum_fast s =
     (let k = pack4 s in
      if k = pack4 (literal ''onli'') then SystemOnline
      else if k = pack4 (literal ''canc'') then SystemCancelOnly
      else if k = pack4 (literal ''main'') then SystemMaintenance
      else if k = pack4 (literal ''post'') then SystemPostOnly
      else SystemUnknown)"

section \<open>Packed words are their bytes\<close>

fun pack_bytes :: "string \<Rightarrow> 'a::len word" where
  "pack_bytes [] = 0"
| "pack_bytes (c # cs) = char_word c OR push_bit 8 (pack_bytes cs)"

lemma bit_char_word: "bit (char_word c :: 'a::len word) n \<longleftrightarrow> n < LENGTH('a) \<and> n < 8 \<and> bit (of_char c :: nat) n"
proof -
  have "bit (of_char c :: nat) n \<longrightarrow> n < 8"
    using bit_take_bit_iff [of 8 "of_char c :: nat" n] by (auto simp: take_bit_nat_eq_self)
  then show ?thesis by (auto simp: char_word_def bit_of_nat_iff)
qed

lemma bit_pack_bytes:
  "i < length cs \<Longrightarrow> n < 8 \<Longrightarrow> 8 * i + n < LENGTH('a) \<Longrightarrow> bit (pack_bytes cs :: 'a::len word) (8 * i + n) = bit (of_char (cs ! i) :: nat) n"
proof (induction cs arbitrary: i)
  case (Cons c cs)
  then show ?case by (cases i) (auto simp: bit_or_iff bit_push_bit_iff bit_char_word)
qed simp

lemma list4_cases:
  obtains "s = []" | x where "s = [x]" | x y where "s = [x, y]" | x y z where "s = [x, y, z]" | x y z w u where "s = x # y # z # w # u"
  by (metis neq_Nil_conv)

lemma pack_bytes_inj:
  assumes "(pack_bytes cs :: 'a::len word) = pack_bytes ds" "length cs = length ds" "8 * length cs \<le> LENGTH('a)"
  shows "cs = ds"
proof (rule nth_equalityI [OF assms(2)])
  fix i assume i: "i < length cs"
  have "bit (of_char (cs ! i) :: nat) n = bit (of_char (ds ! i) :: nat) n" for n
  proof (cases "n < 8")
    case True
    then have "8 * i + n < LENGTH('a)" using i assms(3) by linarith
    then show ?thesis using bit_pack_bytes [OF i True] bit_pack_bytes [of i ds n] True i assms(1,2) by metis
  next
    case False
    then show ?thesis using bit_take_bit_iff [of 8 "of_char (cs ! i) :: nat" n] bit_take_bit_iff [of 8 "of_char (ds ! i) :: nat" n]
      by (simp add: take_bit_nat_eq_self)
  qed
  then have "(of_char (cs ! i) :: nat) = of_char (ds ! i)" by (rule bit_eqI)
  then show "cs ! i = ds ! i" by simp
qed

lemma pack4_bytes: "pack4 v = pack_bytes [sv_byte v 0, sv_byte v 1, sv_byte v 2, sv_byte v 3]"
  by (simp add: pack4_def push_bit_or)

definition padded_byte :: "string \<Rightarrow> nat \<Rightarrow> char" where
  "padded_byte s i = (if i < length s then s ! i else CHR 0x00)"

lemma pack8_bytes:
  "pack8 v = pack_bytes (map (padded_byte (sv_str v)) [0, 1, 2, 3, 4, 5, 6, 7])"
proof -
  have "pack8_byte s i = push_bit (8 * i) (char_word (padded_byte s i))" for s i
    by (simp add: pack8_byte_def padded_byte_def char_word_def)
  then show ?thesis by (simp add: pack8_def Let_def push_bit_or)
qed

section \<open>What the fast conversions accept\<close>

text \<open>The string buffer of a parsed document ends each string with a zero byte.\<close>

definition null_terminated :: "string_view \<Rightarrow> bool" where
  "null_terminated v \<longleftrightarrow> sv_rest v \<noteq> [] \<and> hd (sv_rest v) = CHR 0x00"

lemma pack4_eq:
  "pack4 v = pack4 w \<longleftrightarrow> [sv_byte v 0, sv_byte v 1, sv_byte v 2, sv_byte v 3] = [sv_byte w 0, sv_byte w 1, sv_byte w 2, sv_byte w 3]"
proof
  assume "pack4 v = pack4 w"
  then show "[sv_byte v 0, sv_byte v 1, sv_byte v 2, sv_byte v 3] = [sv_byte w 0, sv_byte w 1, sv_byte w 2, sv_byte w 3]"
    unfolding pack4_bytes by (rule pack_bytes_inj) simp_all
qed (simp add: pack4_bytes)

lemma pack4_tag:
  assumes "null_terminated v" and t: "length t = 4" "CHR 0x00 \<notin> set t"
  shows "pack4 v = pack4 (literal t) \<longleftrightarrow> starts_with (sv_str v) t"
proof -
  obtain r where r: "sv_rest v = CHR 0x00 # r" using assms(1) by (cases "sv_rest v") (auto simp: null_terminated_def)
  obtain a b c d where t4: "t = [a, b, c, d]" using t(1) by (auto simp: numeral_eq_Suc length_Suc_conv)
  show ?thesis
    using t(2) unfolding t4 starts_with_def pack4_eq
    by (cases "sv_str v" rule: list4_cases) (auto simp: sv_byte_def literal_def r)
qed

lemma pack4_tag3:
  assumes "null_terminated v" and t: "length t = 3" "CHR 0x00 \<notin> set t"
  shows "pack4 v = pack4 (literal t) \<longleftrightarrow> sv_str v = t \<or> starts_with (sv_str v) (t @ [CHR 0x00])"
proof -
  obtain r where r: "sv_rest v = CHR 0x00 # r" using assms(1) by (cases "sv_rest v") (auto simp: null_terminated_def)
  obtain a b c where t3: "t = [a, b, c]" using t(1) by (auto simp: numeral_eq_Suc length_Suc_conv)
  show ?thesis
    using t(2) unfolding t3 starts_with_def pack4_eq
    by (cases "sv_str v" rule: list4_cases) (auto simp: sv_byte_def literal_def r)
qed

lemma pack8_eq:
  "pack8 v = pack8 w \<longleftrightarrow>
     map (padded_byte (sv_str v)) [0, 1, 2, 3, 4, 5, 6, 7] = map (padded_byte (sv_str w)) [0, 1, 2, 3, 4, 5, 6, 7]"
proof
  assume "pack8 v = pack8 w"
  then show "map (padded_byte (sv_str v)) [0, 1, 2, 3, 4, 5, 6, 7] = map (padded_byte (sv_str w)) [0, 1, 2, 3, 4, 5, 6, 7]"
    unfolding pack8_bytes by (rule pack_bytes_inj) simp_all
qed (simp only: pack8_bytes)

lemma padded_bytes: "map (padded_byte s) [0, 1, 2, 3, 4, 5, 6, 7] = take 8 (s @ replicate 8 (CHR 0x00))"
proof -
  have "[0, 1, 2, 3, 4, 5, 6, 7] = [0..<8]" by (simp add: upt_conv_Cons)
  then show ?thesis by (auto intro!: nth_equalityI simp: padded_byte_def nth_append)
qed

lemma fast_payload_type:
  "to_payload_type_enum_fast v = PayloadSnapshot \<longleftrightarrow> take 8 (sv_str v @ replicate 8 (CHR 0x00)) = ''snapshot''"
  "to_payload_type_enum_fast v = PayloadUpdate \<longleftrightarrow> take 8 (sv_str v @ replicate 8 (CHR 0x00)) = ''update'' @ [CHR 0x00, CHR 0x00]"
proof -
  have tag: "take 8 (sv_str (literal ''update'') @ replicate 8 (CHR 0x00)) = ''update'' @ [CHR 0x00, CHR 0x00]"
    "take 8 (sv_str (literal ''snapshot'') @ replicate 8 (CHR 0x00)) = ''snapshot''"
    by (simp_all add: literal_def numeral_eq_Suc)
  show "to_payload_type_enum_fast v = PayloadSnapshot \<longleftrightarrow> take 8 (sv_str v @ replicate 8 (CHR 0x00)) = ''snapshot''"
    "to_payload_type_enum_fast v = PayloadUpdate \<longleftrightarrow> take 8 (sv_str v @ replicate 8 (CHR 0x00)) = ''update'' @ [CHR 0x00, CHR 0x00]"
    unfolding to_payload_type_enum_fast_def Let_def pack8_eq padded_bytes tag by auto
qed

text \<open>The first entry of a table whose tag a string starts with.\<close>

fun read_prefix :: "(string \<times> 'a) list \<Rightarrow> 'a \<Rightarrow> string \<Rightarrow> 'a" where
  "read_prefix [] d s = d"
| "read_prefix ((t, x) # ts) d s = (if starts_with s t then x else read_prefix ts d s)"

text \<open>The conversions that the parser uses look at no more than the first four bytes of a name, eight for the payload type. They accept exactly the
  names with one of their tags as a prefix, so that \<^verbatim>\<open>tradition\<close> is the trade channel; the bytes that \<^verbatim>\<open>pack4\<close> reads behind the end of a
  shorter name never matter; and every name that the strict conversion knows they convert alike.\<close>

theorem fast_enums_read_prefixes:
  assumes "null_terminated v"
  shows "to_method_enum_fast v = read_prefix
      [(''subs'', MethodSubscribe), (''unsu'', MethodUnsubscribe), (''ping'', MethodPing), (''pong'', MethodPong)] MethodUnknown (sv_str v) \<and>
    to_channel_enum_fast v = read_prefix
      [(''trad'', ChannelTrade), (''tick'', ChannelTicker), (''book'', ChannelBook), (''hear'', ChannelHeartbeat), (''stat'', ChannelStatus)]
      ChannelUnknown (sv_str v) \<and>
    to_order_type_enum_fast v = read_prefix [(''limi'', OrderLimit), (''mark'', OrderMarket)] OrderUnknown (sv_str v) \<and>
    to_system_state_enum_fast v = read_prefix
      [(''onli'', SystemOnline), (''canc'', SystemCancelOnly), (''main'', SystemMaintenance), (''post'', SystemPostOnly)] SystemUnknown (sv_str v) \<and>
    to_side_enum_fast v = (if sv_str v = ''buy'' then SideBuy else read_prefix [(''buy'' @ [CHR 0x00], SideBuy), (''sell'', SideSell)] SideUnknown (sv_str v)) \<and>
    (to_payload_type_enum_fast v = PayloadSnapshot \<longleftrightarrow> take 8 (sv_str v @ replicate 8 (CHR 0x00)) = ''snapshot'') \<and>
    (to_payload_type_enum_fast v = PayloadUpdate \<longleftrightarrow> take 8 (sv_str v @ replicate 8 (CHR 0x00)) = ''update'' @ [CHR 0x00, CHR 0x00])"
  using assms
  by (simp add: to_method_enum_fast_def to_channel_enum_fast_def to_order_type_enum_fast_def to_system_state_enum_fast_def to_side_enum_fast_def
      pack4_tag pack4_tag3 fast_payload_type Let_def)

theorem fast_enums_read_prefixes_witness:
  "null_terminated (literal ''tradition'') \<and> to_channel_enum_fast (literal ''tradition'') = ChannelTrade \<and>
   to_channel_enum ''tradition'' = ChannelUnknown"
  using fast_enums_read_prefixes [of "literal ''tradition''"]
  by (simp add: null_terminated_def literal_def starts_with_def to_channel_enum_def)

text \<open>On the names that the strict conversions know the fast ones agree. The strict conversion of the system state compares \<^verbatim>\<open>maintenance\<close> with strings of
  twelve characters and never returns it.\<close>

lemma fast_extends_strict:
  assumes "null_terminated v"
  shows "to_method_enum (sv_str v) \<noteq> MethodUnknown \<Longrightarrow> to_method_enum_fast v = to_method_enum (sv_str v)"
    and "to_channel_enum (sv_str v) \<noteq> ChannelUnknown \<Longrightarrow> to_channel_enum_fast v = to_channel_enum (sv_str v)"
    and "to_side_enum (sv_str v) \<noteq> SideUnknown \<Longrightarrow> to_side_enum_fast v = to_side_enum (sv_str v)"
    and "to_order_type_enum (sv_str v) \<noteq> OrderUnknown \<Longrightarrow> to_order_type_enum_fast v = to_order_type_enum (sv_str v)"
    and "to_system_state_enum (sv_str v) \<noteq> SystemUnknown \<Longrightarrow> to_system_state_enum_fast v = to_system_state_enum (sv_str v)"
    and "to_payload_type_enum (sv_str v) \<noteq> PayloadUnknown \<Longrightarrow> to_payload_type_enum_fast v = to_payload_type_enum (sv_str v)"
  using assms
  by (auto simp: to_method_enum_fast_def to_method_enum_def to_channel_enum_fast_def to_channel_enum_def to_side_enum_fast_def to_side_enum_def
      to_order_type_enum_fast_def to_order_type_enum_def to_system_state_enum_fast_def to_system_state_enum_def to_payload_type_enum_def
      pack4_tag pack4_tag3 fast_payload_type Let_def starts_with_def numeral_2_eq_2 split: if_splits)

lemma maintenance_never_strict: "to_system_state_enum s \<noteq> SystemMaintenance"
  by (auto simp: to_system_state_enum_def)

end
