(* ===== verification/Kraken_Parser.thy ===== *)
theory Kraken_Parser
  imports Kraken_Enums Symbol_Intern Session_Poll
begin

text \<open>
  The parsers of the messages of the exchange (protocol/kraken/parser/dom) and the structures they fill (protocol/kraken/schema). The JSON parser
  is not part of the repository: a document is an element of any type \<open>'e\<close>, read through the accessors of the record \<open>dom\<close>, and a double is a value of any type
  \<open>'d\<close>, which the parsers only carry. A parser either fills its structure (\<open>POk\<close>, the result \<^verbatim>\<open>Parsed\<close>), returns another result (\<open>PFail\<close>), or
  ends the process (\<open>PAbort\<close>): on a failed assertion of the debug build, or on an exception inside a \<^verbatim>\<open>noexcept\<close> function.
\<close>

section \<open>Documents and results\<close>

record ('e, 'd) dom =
  dom_parse :: "string \<Rightarrow> 'e option"
  dom_is_object :: "'e \<Rightarrow> bool"
  dom_field :: "'e \<Rightarrow> string \<Rightarrow> 'e option"
  dom_bool :: "'e \<Rightarrow> bool option"
  dom_uint64 :: "'e \<Rightarrow> u64 option"
  dom_double :: "'e \<Rightarrow> 'd option"
  dom_string :: "'e \<Rightarrow> string_view option"
  dom_array :: "'e \<Rightarrow> 'e list option"

datatype 'a parsed = PAbort | PFail message_result | POk 'a

fun bindp :: "'a parsed \<Rightarrow> ('a \<Rightarrow> 'b parsed) \<Rightarrow> 'b parsed" where
  "bindp PAbort f = PAbort"
| "bindp (PFail r) f = PFail r"
| "bindp (POk x) f = f x"

text \<open>A field of a required type: missing or of another type, the schema is violated.\<close>

fun required :: "'a option \<Rightarrow> 'a parsed" where
  "required None = PFail InvalidSchema"
| "required (Some x) = POk x"

section \<open>Helpers\<close>

definition require_object :: "('e, 'd) dom \<Rightarrow> 'e \<Rightarrow> unit parsed" where
  "require_object D root = (if dom_is_object D root then POk () else PFail InvalidSchema)"

definition parse_object_required :: "('e, 'd) dom \<Rightarrow> 'e \<Rightarrow> string \<Rightarrow> 'e parsed" where
  "parse_object_required D parent key =
     bindp (require_object D parent) (\<lambda>_.
     bindp (required (dom_field D parent key)) (\<lambda>out.
     bindp (require_object D out) (\<lambda>_. POk out)))"

definition parse_object_optional :: "('e, 'd) dom \<Rightarrow> 'e \<Rightarrow> string \<Rightarrow> 'e option parsed" where
  "parse_object_optional D parent key =
     bindp (require_object D parent) (\<lambda>_.
     case dom_field D parent key of
       None \<Rightarrow> POk None
     | Some out \<Rightarrow> bindp (require_object D out) (\<lambda>_. POk (Some out)))"

definition parse_array_required :: "('e, 'd) dom \<Rightarrow> 'e \<Rightarrow> string \<Rightarrow> 'e list parsed" where
  "parse_array_required D parent key =
     bindp (require_object D parent) (\<lambda>_.
     bindp (required (dom_field D parent key)) (\<lambda>field. required (dom_array D field)))"

definition parse_array_optional :: "('e, 'd) dom \<Rightarrow> 'e \<Rightarrow> string \<Rightarrow> 'e list option parsed" where
  "parse_array_optional D parent key =
     bindp (require_object D parent) (\<lambda>_.
     case dom_field D parent key of
       None \<Rightarrow> POk None
     | Some field \<Rightarrow> bindp (required (dom_array D field)) (\<lambda>arr. POk (Some arr)))"

definition parse_string_equals_required :: "('e, 'd) dom \<Rightarrow> 'e \<Rightarrow> string \<Rightarrow> string \<Rightarrow> bool" where
  "parse_string_equals_required D obj key expected \<longleftrightarrow>
     dom_is_object D obj \<and>
     (case dom_field D obj key of
        None \<Rightarrow> False
      | Some field \<Rightarrow> (case dom_string D field of None \<Rightarrow> False | Some sv \<Rightarrow> sv_str sv = expected))"

definition parse_bool_required :: "('e, 'd) dom \<Rightarrow> 'e \<Rightarrow> string \<Rightarrow> bool parsed" where
  "parse_bool_required D obj key =
     bindp (require_object D obj) (\<lambda>_.
     bindp (required (dom_field D obj key)) (\<lambda>field. required (dom_bool D field)))"

definition parse_uint64_required :: "('e, 'd) dom \<Rightarrow> 'e \<Rightarrow> string \<Rightarrow> u64 parsed" where
  "parse_uint64_required D obj key =
     bindp (require_object D obj) (\<lambda>_.
     bindp (required (dom_field D obj key)) (\<lambda>field. required (dom_uint64 D field)))"

definition parse_double_required :: "('e, 'd) dom \<Rightarrow> 'e \<Rightarrow> string \<Rightarrow> 'd parsed" where
  "parse_double_required D obj key =
     bindp (require_object D obj) (\<lambda>_.
     bindp (required (dom_field D obj key)) (\<lambda>field. required (dom_double D field)))"

definition parse_string_required :: "('e, 'd) dom \<Rightarrow> 'e \<Rightarrow> string \<Rightarrow> string_view parsed" where
  "parse_string_required D obj key =
     bindp (require_object D obj) (\<lambda>_.
     bindp (required (dom_field D obj key)) (\<lambda>field. required (dom_string D field)))"

text \<open>An optional string: the presence flag and the view are an option.\<close>

definition parse_string_optional :: "('e, 'd) dom \<Rightarrow> 'e \<Rightarrow> string \<Rightarrow> string_view option parsed" where
  "parse_string_optional D obj key =
     bindp (require_object D obj) (\<lambda>_.
     case dom_field D obj key of
       None \<Rightarrow> POk None
     | Some field \<Rightarrow> bindp (required (dom_string D field)) (\<lambda>sv. POk (Some sv)))"

definition parse_text_optional :: "('e, 'd) dom \<Rightarrow> 'e \<Rightarrow> string \<Rightarrow> string option parsed" where
  "parse_text_optional D obj key = bindp (parse_string_optional D obj key) (\<lambda>sv. POk (map_option sv_str sv))"

definition parse_bool_optional :: "('e, 'd) dom \<Rightarrow> 'e \<Rightarrow> string \<Rightarrow> bool option parsed" where
  "parse_bool_optional D obj key =
     bindp (require_object D obj) (\<lambda>_.
     case dom_field D obj key of
       None \<Rightarrow> POk None
     | Some field \<Rightarrow> bindp (required (dom_bool D field)) (\<lambda>tmp. POk (Some tmp)))"

definition parse_uint64_optional :: "('e, 'd) dom \<Rightarrow> 'e \<Rightarrow> string \<Rightarrow> u64 option parsed" where
  "parse_uint64_optional D obj key =
     bindp (require_object D obj) (\<lambda>_.
     case dom_field D obj key of
       None \<Rightarrow> POk None
     | Some field \<Rightarrow> bindp (required (dom_uint64 D field)) (\<lambda>tmp. POk (Some tmp)))"

definition parse_double_optional :: "('e, 'd) dom \<Rightarrow> 'e \<Rightarrow> string \<Rightarrow> 'd option parsed" where
  "parse_double_optional D obj key =
     bindp (require_object D obj) (\<lambda>_.
     case dom_field D obj key of
       None \<Rightarrow> POk None
     | Some field \<Rightarrow> bindp (required (dom_double D field)) (\<lambda>tmp. POk (Some tmp)))"

fun parse_string_elements :: "('e, 'd) dom \<Rightarrow> 'e list \<Rightarrow> string list parsed" where
  "parse_string_elements D [] = POk []"
| "parse_string_elements D (v # vs) =
     bindp (required (dom_string D v)) (\<lambda>sv. bindp (parse_string_elements D vs) (\<lambda>out. POk (sv_str sv # out)))"

text \<open>An absent list leaves the output empty.\<close>

definition parse_string_list_optional :: "('e, 'd) dom \<Rightarrow> 'e \<Rightarrow> string \<Rightarrow> (string list \<times> bool) parsed" where
  "parse_string_list_optional D obj key =
     bindp (require_object D obj) (\<lambda>_.
     case dom_field D obj key of
       None \<Rightarrow> POk ([], False)
     | Some field \<Rightarrow>
         bindp (required (dom_array D field)) (\<lambda>arr.
         bindp (parse_string_elements D arr) (\<lambda>out. POk (out, True))))"

section \<open>Adapters\<close>

text \<open>The implicit conversion of an element to an object throws on other elements.\<close>

definition object_of :: "('e, 'd) dom \<Rightarrow> 'e \<Rightarrow> 'e parsed" where
  "object_of D e = (if dom_is_object D e then POk e else PAbort)"

text \<open>The construction of a \<^verbatim>\<open>Symbol\<close> asserts that the name fits.\<close>

definition make_symbol :: "string_view \<Rightarrow> symbol parsed" where
  "make_symbol sv = (if length (sv_str sv) \<le> MAX_SYMBOL_LENGTH then POk (sv_str sv) else PAbort)"

definition parse_method_required :: "('e, 'd) dom \<Rightarrow> 'e \<Rightarrow> kraken_method parsed" where
  "parse_method_required D root =
     bindp (parse_string_required D root ''method'') (\<lambda>sv.
     let out = to_method_enum_fast sv in if out = MethodUnknown then PFail InvalidValue else POk out)"

definition parse_channel_required :: "('e, 'd) dom \<Rightarrow> 'e \<Rightarrow> channel parsed" where
  "parse_channel_required D root =
     bindp (parse_string_required D root ''channel'') (\<lambda>sv.
     let out = to_channel_enum_fast sv in if out = ChannelUnknown then PFail InvalidValue else POk out)"

definition parse_symbol_required :: "('e, 'd) dom \<Rightarrow> 'e \<Rightarrow> string \<Rightarrow> symbol parsed" where
  "parse_symbol_required D obj key =
     bindp (parse_string_required D obj key) (\<lambda>sv.
     if sv_str sv = [] then PFail InvalidValue else make_symbol sv)"

definition parse_symbol_optional :: "('e, 'd) dom \<Rightarrow> 'e \<Rightarrow> string \<Rightarrow> symbol option parsed" where
  "parse_symbol_optional D obj key =
     bindp (parse_string_optional D obj key) (\<lambda>present.
     case present of
       None \<Rightarrow> POk None
     | Some sv \<Rightarrow> if sv_str sv = [] then PFail InvalidValue else bindp (make_symbol sv) (\<lambda>s. POk (Some s)))"

definition parse_side_required :: "('e, 'd) dom \<Rightarrow> 'e \<Rightarrow> string \<Rightarrow> trade_side parsed" where
  "parse_side_required D obj key =
     bindp (parse_string_required D obj key) (\<lambda>sv.
     if sv_str sv = [] then PFail InvalidValue
     else let out = to_side_enum_fast sv in if out = SideUnknown then PFail InvalidValue else POk out)"

definition parse_order_type_optional :: "('e, 'd) dom \<Rightarrow> 'e \<Rightarrow> string \<Rightarrow> kraken_order_type option parsed" where
  "parse_order_type_optional D obj key =
     bindp (parse_string_optional D obj key) (\<lambda>present.
     case present of
       None \<Rightarrow> POk None
     | Some sv \<Rightarrow> let t = to_order_type_enum_fast sv in if t = OrderUnknown then PFail InvalidValue else POk (Some t))"

definition parse_payload_type_required :: "('e, 'd) dom \<Rightarrow> 'e \<Rightarrow> string \<Rightarrow> payload_type parsed" where
  "parse_payload_type_required D obj key =
     bindp (parse_string_required D obj key) (\<lambda>sv.
     if sv_str sv = [] then PFail InvalidValue
     else let out = to_payload_type_enum_fast sv in if out = PayloadUnknown then PFail InvalidValue else POk out)"

definition parse_system_state_required :: "('e, 'd) dom \<Rightarrow> 'e \<Rightarrow> string \<Rightarrow> system_state parsed" where
  "parse_system_state_required D obj key =
     bindp (parse_string_required D obj key) (\<lambda>sv.
     if sv_str sv = [] then PFail InvalidValue
     else let out = to_system_state_enum_fast sv in if out = SystemUnknown then PFail InvalidValue else POk out)"

definition parse_timestamp_required :: "('e, 'd) dom \<Rightarrow> 'e \<Rightarrow> string \<Rightarrow> int parsed" where
  "parse_timestamp_required D obj key =
     bindp (parse_string_required D obj key) (\<lambda>sv.
     if sv_str sv = [] then PFail InvalidValue
     else case parse_rfc3339 sv of None \<Rightarrow> PFail InvalidValue | Some out \<Rightarrow> POk out)"

definition parse_timestamp_optional :: "('e, 'd) dom \<Rightarrow> 'e \<Rightarrow> string \<Rightarrow> int option parsed" where
  "parse_timestamp_optional D obj key =
     bindp (parse_string_optional D obj key) (\<lambda>present.
     case present of
       None \<Rightarrow> POk None
     | Some sv \<Rightarrow> (case parse_rfc3339 sv of None \<Rightarrow> PFail InvalidValue | Some ts \<Rightarrow> POk (Some ts)))"

section \<open>Trades and books\<close>

record 'd kraken_trade =
  kt_trade_id :: u64
  kt_symbol :: symbol
  kt_price :: 'd
  kt_qty :: 'd
  kt_side :: trade_side
  kt_timestamp :: int
  kt_ord_type :: "kraken_order_type option"

record 'd trade_response =
  tr_type :: payload_type
  tr_trades :: "'d kraken_trade list"

definition parse_trade_object :: "('e, 'd) dom \<Rightarrow> 'e \<Rightarrow> 'd kraken_trade parsed" where
  "parse_trade_object D obj =
     (if \<not> dom_is_object D obj then PFail InvalidSchema else
     bindp (parse_symbol_required D obj ''symbol'') (\<lambda>symbol.
     bindp (parse_side_required D obj ''side'') (\<lambda>side.
     bindp (parse_double_required D obj ''qty'') (\<lambda>qty.
     bindp (parse_double_required D obj ''price'') (\<lambda>price.
     bindp (parse_uint64_required D obj ''trade_id'') (\<lambda>trade_id.
     bindp (parse_timestamp_required D obj ''timestamp'') (\<lambda>timestamp.
     bindp (parse_order_type_optional D obj ''ord_type'') (\<lambda>ord_type.
     POk \<lparr>kt_trade_id = trade_id, kt_symbol = symbol, kt_price = price, kt_qty = qty, kt_side = side,
       kt_timestamp = timestamp, kt_ord_type = ord_type\<rparr>))))))))"

fun parse_trade_objects :: "('e, 'd) dom \<Rightarrow> 'e list \<Rightarrow> 'd kraken_trade list parsed" where
  "parse_trade_objects D [] = POk []"
| "parse_trade_objects D (elem # elems) =
     bindp (parse_trade_object D elem) (\<lambda>trade. bindp (parse_trade_objects D elems) (\<lambda>trades. POk (trade # trades)))"

definition parse_trade_response :: "('e, 'd) dom \<Rightarrow> 'e \<Rightarrow> 'd trade_response parsed" where
  "parse_trade_response D root =
     bindp (require_object D root) (\<lambda>_.
     bindp (parse_payload_type_required D root ''type'') (\<lambda>type.
     bindp (parse_array_required D root ''data'') (\<lambda>data.
     if data = [] then PFail Ignored else
     bindp (parse_trade_objects D data) (\<lambda>trades. POk \<lparr>tr_type = type, tr_trades = trades\<rparr>))))"

record 'd kraken_level =
  lv_price :: 'd
  lv_qty :: 'd

record 'd kraken_book =
  kb_symbol :: symbol
  kb_asks :: "'d kraken_level list"
  kb_bids :: "'d kraken_level list"
  kb_checksum :: u32
  kb_timestamp :: "int option"

record 'd book_response =
  br_type :: payload_type
  br_book :: "'d kraken_book"

text \<open>Price and quantity of a level are both read before either is tested.\<close>

fun parse_levels :: "('e, 'd) dom \<Rightarrow> 'e list \<Rightarrow> 'd kraken_level list parsed" where
  "parse_levels D [] = POk []"
| "parse_levels D (lvl # lvls) =
     (if \<not> dom_is_object D lvl then PFail InvalidSchema
      else case (parse_double_required D lvl ''price'', parse_double_required D lvl ''qty'') of
             (POk price, POk qty) \<Rightarrow> bindp (parse_levels D lvls) (\<lambda>out. POk (\<lparr>lv_price = price, lv_qty = qty\<rparr> # out))
           | _ \<Rightarrow> PFail InvalidSchema)"

definition parse_side_levels_common :: "('e, 'd) dom \<Rightarrow> 'e \<Rightarrow> string \<Rightarrow> ('d kraken_level list \<times> bool) parsed" where
  "parse_side_levels_common D book key =
     (case dom_field D book key of
        None \<Rightarrow> POk ([], False)
      | Some levels \<Rightarrow>
          (case dom_array D levels of
             None \<Rightarrow> PFail InvalidSchema
           | Some arr \<Rightarrow> bindp (parse_levels D arr) (\<lambda>out. POk (out, True))))"

definition parse_book :: "('e, 'd) dom \<Rightarrow> 'e \<Rightarrow> 'd kraken_book parsed" where
  "parse_book D root =
     bindp (parse_array_required D root ''data'') (\<lambda>data.
     if length data \<noteq> 1 then PFail InvalidSchema else
     let book = data ! 0 in
     if \<not> dom_is_object D book then PFail InvalidSchema else
     bindp (parse_symbol_required D book ''symbol'') (\<lambda>symbol.
     bindp (parse_side_levels_common D book ''asks'') (\<lambda>(asks, has_asks).
     bindp (parse_side_levels_common D book ''bids'') (\<lambda>(bids, has_bids).
     if \<not> has_asks \<and> \<not> has_bids then PFail InvalidSchema else
     bindp (parse_uint64_required D book ''checksum'') (\<lambda>checksum.
     bindp (parse_timestamp_optional D book ''timestamp'') (\<lambda>timestamp.
     POk \<lparr>kb_symbol = symbol, kb_asks = asks, kb_bids = bids, kb_checksum = ucast checksum, kb_timestamp = timestamp\<rparr>))))))"

definition parse_book_response :: "('e, 'd) dom \<Rightarrow> 'e \<Rightarrow> 'd book_response parsed" where
  "parse_book_response D root =
     bindp (require_object D root) (\<lambda>_.
     bindp (parse_payload_type_required D root ''type'') (\<lambda>type.
     bindp (parse_book D root) (\<lambda>book. POk \<lparr>br_type = type, br_book = book\<rparr>)))"

section \<open>Acknowledgements and control messages\<close>

text \<open>
  The four acknowledgement structures as one record: those for unsubscribing have no snapshot and no warnings, those of the trade channel no depth; such
  fields keep their initial values. \<open>sub\<close> tells the structures for subscribing, in which the template finds the fields \<^verbatim>\<open>snapshot\<close> and \<^verbatim>\<open>warnings\<close>.
\<close>

record ack =
  ack_success :: bool
  ack_symbol :: symbol
  ack_snapshot :: "bool option"
  ack_depth :: u32
  ack_warnings :: "string list"
  ack_error :: "string option"
  ack_time_in :: "int option"
  ack_time_out :: "int option"
  ack_req_id :: "req_id option"

definition ack_init :: ack where
  "ack_init = \<lparr>ack_success = False, ack_symbol = [], ack_snapshot = None, ack_depth = 0, ack_warnings = [], ack_error = None,
     ack_time_in = None, ack_time_out = None, ack_req_id = None\<rparr>"

definition parse_ack_tail :: "('e, 'd) dom \<Rightarrow> 'e \<Rightarrow> ack \<Rightarrow> ack parsed" where
  "parse_ack_tail D root out =
     bindp (parse_uint64_optional D root ''req_id'') (\<lambda>req_id.
     bindp (parse_timestamp_optional D root ''time_in'') (\<lambda>time_in.
     bindp (parse_timestamp_optional D root ''time_out'') (\<lambda>time_out.
     POk (out\<lparr>ack_req_id := req_id, ack_time_in := time_in, ack_time_out := time_out\<rparr>))))"

definition parse_sub_fields :: "('e, 'd) dom \<Rightarrow> bool \<Rightarrow> 'e \<Rightarrow> ack \<Rightarrow> ack parsed" where
  "parse_sub_fields D sub result out =
     (if sub then
        bindp (parse_bool_optional D result ''snapshot'') (\<lambda>snapshot.
        bindp (parse_string_list_optional D result ''warnings'') (\<lambda>(warnings, presence).
        POk (out\<lparr>ack_snapshot := snapshot, ack_warnings := warnings\<rparr>)))
      else POk out)"

definition trade_parse_ack_common :: "('e, 'd) dom \<Rightarrow> bool \<Rightarrow> 'e \<Rightarrow> ack parsed" where
  "trade_parse_ack_common D sub root =
     bindp (require_object D root) (\<lambda>_.
     bindp (parse_bool_required D root ''success'') (\<lambda>success.
     bindp
       (if success then
          bindp (parse_object_required D root ''result'') (\<lambda>result.
          bindp (parse_symbol_required D result ''symbol'') (\<lambda>symbol.
          bindp (parse_sub_fields D sub result (ack_init\<lparr>ack_success := True, ack_symbol := symbol\<rparr>)) (\<lambda>out.
          if dom_field D root ''error'' \<noteq> None then PFail InvalidSchema else POk out)))
        else
          bindp (parse_string_required D root ''error'') (\<lambda>sv.
          if dom_field D root ''result'' \<noteq> None then PFail InvalidSchema else POk (ack_init\<lparr>ack_error := Some (sv_str sv)\<rparr>)))
       (\<lambda>out. parse_ack_tail D root out)))"

definition book_parse_ack_common :: "('e, 'd) dom \<Rightarrow> bool \<Rightarrow> 'e \<Rightarrow> ack parsed" where
  "book_parse_ack_common D sub root =
     bindp (require_object D root) (\<lambda>_.
     bindp (parse_bool_required D root ''success'') (\<lambda>success.
     bindp
       (if success then
          bindp (parse_object_required D root ''result'') (\<lambda>result.
          bindp (parse_symbol_required D result ''symbol'') (\<lambda>symbol.
          bindp (parse_uint64_required D result ''depth'') (\<lambda>depth.
          bindp (parse_sub_fields D sub result (ack_init\<lparr>ack_success := True, ack_symbol := symbol, ack_depth := ucast depth\<rparr>)) (\<lambda>out.
          if dom_field D root ''error'' \<noteq> None then PFail InvalidSchema else POk out))))
        else
          bindp (parse_string_required D root ''error'') (\<lambda>err. POk (ack_init\<lparr>ack_error := Some (sv_str err)\<rparr>)))
       (\<lambda>out. parse_ack_tail D root out)))"

record notice =
  no_error :: string
  no_req_id :: "req_id option"
  no_symbol :: "symbol option"
  no_time_in :: "int option"
  no_time_out :: "int option"

definition parse_rejection_notice :: "('e, 'd) dom \<Rightarrow> 'e \<Rightarrow> notice parsed" where
  "parse_rejection_notice D root =
     bindp (require_object D root) (\<lambda>_.
     bindp (parse_string_required D root ''error'') (\<lambda>sv.
     bindp (parse_uint64_optional D root ''req_id'') (\<lambda>req_id.
     bindp (parse_symbol_optional D root ''symbol'') (\<lambda>symbol.
     bindp (parse_timestamp_optional D root ''time_in'') (\<lambda>time_in.
     bindp (parse_timestamp_optional D root ''time_out'') (\<lambda>time_out.
     POk \<lparr>no_error = sv_str sv, no_req_id = req_id, no_symbol = symbol, no_time_in = time_in, no_time_out = time_out\<rparr>))))))"

record pong =
  po_success :: "bool option"
  po_req_id :: "req_id option"
  po_warnings :: "string list"
  po_time_in :: "int option"
  po_time_out :: "int option"
  po_error :: "string option"

definition parse_pong :: "('e, 'd) dom \<Rightarrow> 'e \<Rightarrow> pong parsed" where
  "parse_pong D root =
     bindp (require_object D root) (\<lambda>_.
     bindp (parse_uint64_optional D root ''req_id'') (\<lambda>req_id.
     bindp (parse_timestamp_optional D root ''time_in'') (\<lambda>time_in.
     bindp (parse_timestamp_optional D root ''time_out'') (\<lambda>time_out.
     bindp (parse_bool_optional D root ''success'') (\<lambda>success.
     bindp
       (case success of
          None \<Rightarrow> POk ([], None)
        | Some True \<Rightarrow>
            bindp (parse_object_required D root ''result'') (\<lambda>result.
            bindp (parse_string_list_optional D result ''warnings'') (\<lambda>(warnings, presence). POk (warnings, None)))
        | Some False \<Rightarrow> bindp (parse_string_required D root ''error'') (\<lambda>sv. POk ([], Some (sv_str sv))))
       (\<lambda>(warnings, err).
     POk \<lparr>po_success = success, po_req_id = req_id, po_warnings = warnings, po_time_in = time_in, po_time_out = time_out, po_error = err\<rparr>))))))"

record status_update =
  su_system :: system_state
  su_api_version :: string
  su_connection_id :: "u64 option"
  su_version :: "string option"

definition parse_status_update :: "('e, 'd) dom \<Rightarrow> 'e \<Rightarrow> status_update parsed" where
  "parse_status_update D root =
     bindp (require_object D root) (\<lambda>_.
     bindp (parse_array_required D root ''data'') (\<lambda>data.
     if data = [] then PFail InvalidSchema else
     bindp (object_of D (hd data)) (\<lambda>obj.
     bindp (parse_system_state_required D obj ''system'') (\<lambda>system.
     bindp (parse_string_required D obj ''api_version'') (\<lambda>api_sv.
     bindp (parse_uint64_optional D obj ''connection_id'') (\<lambda>connection_id.
     bindp (parse_text_optional D obj ''version'') (\<lambda>version.
     POk \<lparr>su_system = system, su_api_version = sv_str api_sv, su_connection_id = connection_id, su_version = version\<rparr>)))))))"

end
