(* ===== verification/Lite_Dispatch.thy ===== *)
theory Lite_Dispatch
  imports Kraken_Parser
begin

text \<open>
  The parts of the Lite client that turn messages into calls of user code: the partitioner of trade responses
  (protocol/kraken/response/partitioner.hpp), the dispatcher of a channel (lite/channel/dispatcher.hpp) and the values of the
  public interface (lite/domain, lite/enums.hpp, lite/error.hpp). A callback is a value of any type \<open>'c\<close>: calling it is an entry of the list of calls.
\<close>

section \<open>Values of the public interface\<close>

datatype lite_side = LiteBuy | LiteSell

datatype lite_tag = LiteSnapshot | LiteUpdate

datatype error_code = ErrTransport | ErrProtocol | ErrRejected | ErrDisconnected

record lite_error =
  le_code :: error_code
  le_message :: string

record 'd lite_trade =
  lt_trade_id :: u64
  lt_symbol :: string
  lt_price :: 'd
  lt_quantity :: 'd
  lt_taker_side :: lite_side
  lt_timestamp_ns :: u64
  lt_order_type :: "string option"
  lt_tag :: lite_tag

record 'd lite_level =
  ll_symbol :: string
  ll_book_side :: lite_side
  ll_price :: 'd
  ll_quantity :: 'd
  ll_timestamp_ns :: "u64 option"
  ll_tag :: lite_tag

fun lite_side_to_string :: "lite_side \<Rightarrow> string" where
  "lite_side_to_string LiteBuy = ''Buy''"
| "lite_side_to_string LiteSell = ''Sell''"

fun lite_tag_to_string :: "lite_tag \<Rightarrow> string" where
  "lite_tag_to_string LiteSnapshot = ''Snapshot''"
| "lite_tag_to_string LiteUpdate = ''Update''"

definition is_buy :: "'d lite_trade \<Rightarrow> bool" where "is_buy t \<longleftrightarrow> lt_taker_side t = LiteBuy"

definition is_sell :: "'d lite_trade \<Rightarrow> bool" where "is_sell t \<longleftrightarrow> lt_taker_side t = LiteSell"

definition is_bid :: "'d lite_level \<Rightarrow> bool" where "is_bid l \<longleftrightarrow> ll_book_side l = LiteBuy"

definition is_ask :: "'d lite_level \<Rightarrow> bool" where "is_ask l \<longleftrightarrow> ll_book_side l = LiteSell"

text \<open>A \<^verbatim>\<open>std::string\<close> that is made from \<^verbatim>\<open>c_str()\<close> ends at the first null byte.\<close>

definition c_str :: "symbol \<Rightarrow> string" where
  "c_str s = takeWhile (\<lambda>c. c \<noteq> CHR 0x00) s"

definition lite_tag_of :: "payload_type \<Rightarrow> lite_tag" where
  "lite_tag_of ty = (if ty = PayloadSnapshot then LiteSnapshot else LiteUpdate)"

text \<open>The bodies of the lambdas \<^verbatim>\<open>emit_trades\<close> and \<^verbatim>\<open>emit_book_levels\<close>: the values that the user callback gets, in order.\<close>

definition to_lite_trade :: "payload_type \<Rightarrow> 'd kraken_trade \<Rightarrow> 'd lite_trade" where
  "to_lite_trade ty t = \<lparr>lt_trade_id = kt_trade_id t, lt_symbol = c_str (kt_symbol t), lt_price = kt_price t, lt_quantity = kt_qty t,
     lt_taker_side = (if kt_side t = SideBuy then LiteBuy else LiteSell), lt_timestamp_ns = of_int (kt_timestamp t),
     lt_order_type = map_option order_type_to_string (kt_ord_type t), lt_tag = lite_tag_of ty\<rparr>"

definition to_lite_level :: "'d book_response \<Rightarrow> lite_side \<Rightarrow> 'd kraken_level \<Rightarrow> 'd lite_level" where
  "to_lite_level r side l = \<lparr>ll_symbol = c_str (kb_symbol (br_book r)), ll_book_side = side, ll_price = lv_price l, ll_quantity = lv_qty l,
     ll_timestamp_ns = map_option of_int (kb_timestamp (br_book r)), ll_tag = lite_tag_of (br_type r)\<rparr>"

definition emit_book_levels :: "'d book_response \<Rightarrow> 'd lite_level list" where
  "emit_book_levels r = map (to_lite_level r LiteSell) (kb_asks (br_book r)) @ map (to_lite_level r LiteBuy) (kb_bids (br_book r))"

section \<open>The partitioner\<close>

record 'd response_view =
  rv_symbol :: symbol
  rv_type :: payload_type
  rv_trades :: "'d kraken_trade list"

type_synonym 'd buckets = "(symbol \<times> 'd kraken_trade list) list"

text \<open>\<^verbatim>\<open>map[key].push_back(x)\<close>\<close>

definition push_at :: "'k \<Rightarrow> 'v \<Rightarrow> ('k \<times> 'v list) list \<Rightarrow> ('k \<times> 'v list) list" where
  "push_at k x al = AList.update k ((case map_of al k of None \<Rightarrow> [] | Some xs \<Rightarrow> xs) @ [x]) al"

text \<open>The buckets are cleared and kept: the views have one entry for every symbol that was ever seen.\<close>

definition classify :: "'d trade_response \<Rightarrow> 'd buckets \<Rightarrow> 'd buckets \<times> 'd response_view list" where
  "classify r bs =
     (let bs' = fold (\<lambda>t. push_at (kt_symbol t) t) (tr_trades r) (map (\<lambda>(s, _). (s, [])) bs) in
      (bs', map (\<lambda>(s, ts). \<lparr>rv_symbol = s, rv_type = tr_type r, rv_trades = ts\<rparr>) bs'))"

section \<open>The dispatcher\<close>

type_synonym 'c dispatcher = "(symbol_id \<times> 'c list) list"

definition dispatcher_add :: "(symbol \<Rightarrow> symbol_id) \<Rightarrow> symbol list \<Rightarrow> 'c \<Rightarrow> 'c dispatcher \<Rightarrow> 'c dispatcher" where
  "dispatcher_add intern symbols cb d = fold (\<lambda>s. push_at (intern s) cb) symbols d"

text \<open>The callbacks that \<^verbatim>\<open>dispatch\<close> executes for a message with this symbol, in order.\<close>

definition dispatcher_dispatch :: "(symbol \<Rightarrow> symbol_id) \<Rightarrow> symbol \<Rightarrow> 'c dispatcher \<Rightarrow> 'c list" where
  "dispatcher_dispatch intern s d = (case map_of d (intern s) of None \<Rightarrow> [] | Some cbs \<Rightarrow> cbs)"

definition dispatcher_remove :: "(symbol \<Rightarrow> symbol_id) \<Rightarrow> symbol \<Rightarrow> 'c dispatcher \<Rightarrow> 'c dispatcher" where
  "dispatcher_remove intern s d = (case map_of d (intern s) of None \<Rightarrow> d | Some _ \<Rightarrow> AList.delete (intern s) d)"

definition dispatcher_remove_all :: "(symbol \<Rightarrow> symbol_id) \<Rightarrow> symbol list \<Rightarrow> 'c dispatcher \<Rightarrow> 'c dispatcher" where
  "dispatcher_remove_all intern symbols d = fold (\<lambda>s. AList.delete (intern s)) symbols d"

definition dispatcher_is_idle :: "'c dispatcher \<Rightarrow> bool" where "dispatcher_is_idle d \<longleftrightarrow> d = []"

definition dispatcher_clear :: "'c dispatcher \<Rightarrow> 'c dispatcher" where "dispatcher_clear d = []"

section \<open>What the partitioner does\<close>

lemma map_of_push_at: "map_of (push_at k x al) k' =
    (if k' = k then Some ((case map_of al k of None \<Rightarrow> [] | Some xs \<Rightarrow> xs) @ [x]) else map_of al k')"
  by (simp add: push_at_def map_of_update_if)

lemma distinct_push_at: "distinct (map fst al) \<Longrightarrow> distinct (map fst (push_at k x al))"
  by (simp add: push_at_def distinct_update)

lemma distinct_push_all: "distinct (map fst al) \<Longrightarrow> distinct (map fst (fold (\<lambda>x. push_at (f x) (g x)) xs al))"
  by (induction xs arbitrary: al) (simp_all add: distinct_push_at)

text \<open>The entry of a key after any number of pushes.\<close>

lemma map_of_push_all:
  "map_of (fold (\<lambda>x. push_at (f x) (g x)) xs al) k =
     (if \<exists>x \<in> set xs. f x = k then Some ((case map_of al k of None \<Rightarrow> [] | Some ys \<Rightarrow> ys) @ map g (filter (\<lambda>x. f x = k) xs))
      else map_of al k)"
  by (induction xs arbitrary: al) (auto simp: map_of_push_at)

lemma map_of_cleared: "map_of (map (\<lambda>(s, _). (s, [])) bs) k = (if k \<in> fst ` set bs then Some [] else None)"
  by (induction bs) (auto split: prod.splits)

definition buckets_ok :: "'d buckets \<Rightarrow> bool" where "buckets_ok bs \<longleftrightarrow> distinct (map fst bs)"

lemma classify_ok: "buckets_ok bs \<Longrightarrow> classify r bs = (bs', vs) \<Longrightarrow> buckets_ok bs'"
  by (auto simp: buckets_ok_def classify_def Let_def distinct_push_all comp_def case_prod_unfold)

text \<open>The view of a symbol has exactly the trades of the response with that symbol, in their order.\<close>

lemma classify_views:
  assumes "buckets_ok bs" "classify r bs = (bs', vs)"
  shows "distinct (map rv_symbol vs)"
    "v \<in> set vs \<longleftrightarrow> v = \<lparr>rv_symbol = rv_symbol v, rv_type = tr_type r, rv_trades = filter (\<lambda>t. kt_symbol t = rv_symbol v) (tr_trades r)\<rparr> \<and>
       rv_symbol v \<in> fst ` set bs \<union> kt_symbol ` set (tr_trades r)"
proof -
  have ok: "distinct (map fst bs')" using classify_ok [OF assms] by (simp add: buckets_ok_def)
  have vs: "vs = map (\<lambda>(s, ts). \<lparr>rv_symbol = s, rv_type = tr_type r, rv_trades = ts\<rparr>) bs'"
    using assms(2) by (auto simp: classify_def Let_def)
  show "distinct (map rv_symbol vs)" using ok by (simp add: vs comp_def case_prod_unfold)
  have bs': "bs' = fold (\<lambda>t. push_at (kt_symbol t) t) (tr_trades r) (map (\<lambda>(s, _). (s, [])) bs)"
    using assms(2) by (simp add: classify_def Let_def)
  have m: "map_of bs' s = (if s \<in> fst ` set bs \<union> kt_symbol ` set (tr_trades r) then Some (filter (\<lambda>t. kt_symbol t = s) (tr_trades r)) else None)" for s
  proof (cases "s \<in> kt_symbol ` set (tr_trades r)")
    case True
    then have "\<exists>t \<in> set (tr_trades r). kt_symbol t = s" by auto
    then show ?thesis using True by (simp add: bs' map_of_push_all [where g = "\<lambda>t. t", simplified] map_of_cleared)
  next
    case False
    then have "\<not> (\<exists>t \<in> set (tr_trades r). kt_symbol t = s)" "filter (\<lambda>t. kt_symbol t = s) (tr_trades r) = []"
      by (auto simp: filter_empty_conv)
    then show ?thesis using False by (simp add: bs' map_of_push_all [where g = "\<lambda>t. t", simplified] map_of_cleared)
  qed
  have "v \<in> set vs \<longleftrightarrow> (\<exists>s ts. map_of bs' s = Some ts \<and> v = \<lparr>rv_symbol = s, rv_type = tr_type r, rv_trades = ts\<rparr>)"
    using ok by (auto simp: vs image_iff split: prod.splits)
  then show "v \<in> set vs \<longleftrightarrow> v = \<lparr>rv_symbol = rv_symbol v, rv_type = tr_type r, rv_trades = filter (\<lambda>t. kt_symbol t = rv_symbol v) (tr_trades r)\<rparr> \<and>
       rv_symbol v \<in> fst ` set bs \<union> kt_symbol ` set (tr_trades r)"
    unfolding m by (cases v) (auto split: if_splits)
qed

section \<open>What the dispatcher does\<close>

text \<open>
  The contract of a table of routes: the callbacks of an id are those that were added since the id was last removed, and the table is idle
  exactly when no id has a callback.
\<close>

locale route_table =
  fixes inv :: "'s \<Rightarrow> bool"
    and routes :: "'s \<Rightarrow> symbol_id \<Rightarrow> 'c list"
    and add :: "(symbol \<Rightarrow> symbol_id) \<Rightarrow> symbol list \<Rightarrow> 'c \<Rightarrow> 's \<Rightarrow> 's"
    and remove :: "(symbol \<Rightarrow> symbol_id) \<Rightarrow> symbol list \<Rightarrow> 's \<Rightarrow> 's"
    and idle :: "'s \<Rightarrow> bool"
  assumes add_inv: "inv s \<Longrightarrow> inv (add intern symbols cb s)"
    and remove_inv: "inv s \<Longrightarrow> inv (remove intern symbols s)"
    and routes_add: "inv s \<Longrightarrow> routes (add intern symbols cb s) i = routes s i @ replicate (count_list (map intern symbols) i) cb"
    and routes_remove: "inv s \<Longrightarrow> routes (remove intern symbols s) i = (if i \<in> intern ` set symbols then [] else routes s i)"
    and idle_iff: "inv s \<Longrightarrow> idle s \<longleftrightarrow> (\<forall>i. routes s i = [])"
begin

lemma remove_then_idle: "inv s \<Longrightarrow> (\<And>i. routes s i \<noteq> [] \<Longrightarrow> i \<in> intern ` set symbols) \<Longrightarrow> idle (remove intern symbols s)"
  using remove_inv [of s intern symbols] by (auto simp: idle_iff routes_remove)

lemma add_not_idle: "inv s \<Longrightarrow> symbols \<noteq> [] \<Longrightarrow> \<not> idle (add intern symbols cb s)"
  using add_inv [of s intern symbols cb] by (cases symbols) (auto simp: idle_iff routes_add intro!: exI [of _ "intern (hd symbols)"])

lemma add_remove: "inv s \<Longrightarrow> routes (remove intern symbols (add intern symbols cb s)) = routes (remove intern symbols s)"
  using add_inv [of s intern symbols cb] by (auto simp: fun_eq_iff routes_remove routes_add count_list_0_iff)

end

definition dispatcher_ok :: "'c dispatcher \<Rightarrow> bool" where
  "dispatcher_ok d \<longleftrightarrow> distinct (map fst d) \<and> (\<forall>(i, cbs) \<in> set d. cbs \<noteq> [])"

definition callbacks :: "'c dispatcher \<Rightarrow> symbol_id \<Rightarrow> 'c list" where
  "callbacks d i = (case map_of d i of None \<Rightarrow> [] | Some cbs \<Rightarrow> cbs)"

lemma dispatcher_ok_iff: "dispatcher_ok d \<longleftrightarrow> distinct (map fst d) \<and> (\<forall>i. map_of d i \<noteq> Some [])"
  by (auto simp: dispatcher_ok_def)

lemma map_of_remove_all:
  "map_of (dispatcher_remove_all intern symbols d) i = (if i \<in> intern ` set symbols then None else map_of d i)"
  by (induction symbols arbitrary: d) (auto simp: dispatcher_remove_all_def map_of_delete_if)

lemma distinct_remove_all: "distinct (map fst d) \<Longrightarrow> distinct (map fst (dispatcher_remove_all intern symbols d))"
  by (induction symbols arbitrary: d) (auto simp: dispatcher_remove_all_def distinct_delete)

lemma count_list_map_filter: "count_list (map f xs) y = length (filter (\<lambda>x. f x = y) xs)"
  by (induction xs) auto

lemma map_of_add:
  "map_of (dispatcher_add intern symbols cb d) i =
     (if i \<in> intern ` set symbols then Some (callbacks d i @ replicate (count_list (map intern symbols) i) cb) else map_of d i)"
proof -
  have "map (\<lambda>_. cb) ys = replicate (length ys) cb" for ys :: "symbol list" by (induction ys) auto
  then show ?thesis
    by (auto simp: dispatcher_add_def callbacks_def map_of_push_all [where g = "\<lambda>_. cb"] count_list_map_filter)
qed

lemma dispatcher_remove_one: "dispatcher_remove intern s d = dispatcher_remove_all intern [s] d"
  by (auto simp: dispatcher_remove_def dispatcher_remove_all_def delete_idem split: option.splits
      simp: map_of_eq_None_iff)

interpretation disp: route_table dispatcher_ok callbacks dispatcher_add dispatcher_remove_all dispatcher_is_idle
proof
  fix d :: "'a dispatcher" and intern :: "symbol \<Rightarrow> symbol_id" and symbols :: "symbol list" and cb i
  assume ok: "dispatcher_ok d"
  show "dispatcher_ok (dispatcher_add intern symbols cb d)"
    using ok distinct_push_all [of d "intern" "\<lambda>_. cb" symbols] by (auto simp: dispatcher_ok_iff map_of_add dispatcher_add_def [symmetric] count_list_map_filter filter_empty_conv)
  show "dispatcher_ok (dispatcher_remove_all intern symbols d)"
    using ok by (auto simp: dispatcher_ok_iff map_of_remove_all distinct_remove_all)
  show "callbacks (dispatcher_add intern symbols cb d) i = callbacks d i @ replicate (count_list (map intern symbols) i) cb"
    by (auto simp: callbacks_def [of "dispatcher_add intern symbols cb d"] map_of_add) (auto simp: callbacks_def count_list_0_iff split: option.splits)
  show "callbacks (dispatcher_remove_all intern symbols d) i = (if i \<in> intern ` set symbols then [] else callbacks d i)"
    by (simp add: callbacks_def map_of_remove_all)
  have "callbacks d j = [] \<longleftrightarrow> map_of d j = None" for j
    using ok by (cases "map_of d j") (auto simp: callbacks_def dispatcher_ok_iff)
  then show "dispatcher_is_idle d \<longleftrightarrow> (\<forall>i. callbacks d i = [])"
    using map_of_empty_iff [of d] by (simp only: dispatcher_is_idle_def)
qed

end
