(* ===== verification/Kraken_Router.thy ===== *)
theory Kraken_Router
  imports Kraken_Parser Spsc_Queue
begin

text \<open>
  The data plane (protocol/data), the router of the messages (protocol/kraken/parser/router.hpp) and the message handler (protocol/kraken/message_handler.hpp)
  that the session is instantiated with. A message that is routed changes the data plane, makes calls on the context of the session, in the
  order of the list, and has a result; \<open>None\<close> is the end of the process.
\<close>

section \<open>The data plane\<close>

text \<open>\<^verbatim>\<open>MessageBus\<close> has one queue for each type of message and \<^verbatim>\<open>StateStore\<close> one slot for each type of state.\<close>

definition DEFAULT_RING_CAPACITY :: u64 where "DEFAULT_RING_CAPACITY = 1024"

record 'd data_plane =
  dp_trades :: "'d trade_response spsc_core"
  dp_books :: "'d book_response spsc_core"
  dp_rejections :: "notice spsc_core"
  dp_pong :: "pong option"
  dp_status :: "status_update option"

definition bus_push :: "'a spsc_core \<Rightarrow> 'a \<Rightarrow> 'a spsc_core \<times> bool" where
  "bus_push q msg = spsc_push DEFAULT_RING_CAPACITY q msg"

definition bus_pop :: "'a spsc_core \<Rightarrow> 'a spsc_core \<times> 'a option" where
  "bus_pop q = spsc_pop DEFAULT_RING_CAPACITY q"

text \<open>The loops of \<^verbatim>\<open>drain\<close> and \<^verbatim>\<open>drain_n\<close>: the messages in the order in which the callback gets them. The value \<open>None\<close> is a loop that does not end.\<close>

partial_function (option) bus_drain :: "'a spsc_core \<Rightarrow> ('a list \<times> 'a spsc_core) option" where
  "bus_drain q =
     (case bus_pop q of (q', r) \<Rightarrow>
        (case r of
           None \<Rightarrow> Some ([], q')
         | Some msg \<Rightarrow> Option.bind (bus_drain q') (\<lambda>(msgs, q''). Some (msg # msgs, q''))))"

fun bus_drain_n :: "nat \<Rightarrow> 'a spsc_core \<Rightarrow> 'a list \<times> 'a spsc_core" where
  "bus_drain_n 0 q = ([], q)"
| "bus_drain_n (Suc n) q =
     (case bus_pop q of
        (q', None) \<Rightarrow> ([], q')
      | (q', Some msg) \<Rightarrow> (case bus_drain_n n q' of (msgs, q'') \<Rightarrow> (msg # msgs, q'')))"

definition bus_clear :: "'a spsc_core \<Rightarrow> 'a spsc_core option" where
  "bus_clear q = map_option snd (bus_drain q)"

definition bus_empty :: "'d data_plane \<Rightarrow> bool" where
  "bus_empty dp \<longleftrightarrow> spsc_empty (dp_trades dp) \<and> spsc_empty (dp_books dp) \<and> spsc_empty (dp_rejections dp)"

definition push_trade :: "'d data_plane \<Rightarrow> 'd trade_response \<Rightarrow> 'd data_plane \<times> bool" where
  "push_trade dp msg = (case bus_push (dp_trades dp) msg of (q, ok) \<Rightarrow> (dp\<lparr>dp_trades := q\<rparr>, ok))"

definition push_book :: "'d data_plane \<Rightarrow> 'd book_response \<Rightarrow> 'd data_plane \<times> bool" where
  "push_book dp msg = (case bus_push (dp_books dp) msg of (q, ok) \<Rightarrow> (dp\<lparr>dp_books := q\<rparr>, ok))"

definition push_rejection :: "'d data_plane \<Rightarrow> notice \<Rightarrow> 'd data_plane \<times> bool" where
  "push_rejection dp msg = (case bus_push (dp_rejections dp) msg of (q, ok) \<Rightarrow> (dp\<lparr>dp_rejections := q\<rparr>, ok))"

definition set_pong :: "pong \<Rightarrow> 'd data_plane \<Rightarrow> 'd data_plane" where
  "set_pong p dp = dp\<lparr>dp_pong := Some p\<rparr>"

definition set_status :: "status_update \<Rightarrow> 'd data_plane \<Rightarrow> 'd data_plane" where
  "set_status u dp = dp\<lparr>dp_status := Some u\<rparr>"

definition states_clear_all :: "'d data_plane \<Rightarrow> 'd data_plane" where
  "states_clear_all dp = dp\<lparr>dp_pong := None, dp_status := None\<rparr>"

section \<open>Routing\<close>

type_synonym 'd routed = "('d data_plane \<times> ctx_call list \<times> message_result) option"

text \<open>A parsed message that goes to a queue of the data plane.\<close>

fun deliver :: "'d data_plane \<times> bool \<Rightarrow> ctx_call list \<Rightarrow> 'd routed" where
  "deliver (dp, ok) calls = Some (dp, calls, if ok then Delivered else Backpressure)"

definition route_rejection :: "('e, 'd) dom \<Rightarrow> 'e \<Rightarrow> 'd data_plane \<Rightarrow> 'd routed" where
  "route_rejection D root dp =
     (case parse_rejection_notice D root of
        PAbort \<Rightarrow> None
      | PFail r \<Rightarrow> Some (dp, [], r)
      | POk resp \<Rightarrow>
          deliver (push_rejection dp resp)
            (case (no_req_id resp, no_symbol resp) of
               (Some req_id, Some symbol) \<Rightarrow> [CtxRejection req_id symbol]
             | _ \<Rightarrow> []))"

text \<open>The acknowledgement goes to the manager of its channel; \<^verbatim>\<open>req_id.value()\<close> asserts that there is one.\<close>

definition route_ack :: "(req_id \<Rightarrow> symbol \<Rightarrow> bool \<Rightarrow> ctx_call) \<Rightarrow> ack parsed \<Rightarrow> 'd data_plane \<Rightarrow> 'd routed" where
  "route_ack call result dp =
     (case result of
        PAbort \<Rightarrow> None
      | PFail r \<Rightarrow> Some (dp, [], r)
      | POk resp \<Rightarrow>
          (case ack_req_id resp of
             None \<Rightarrow> None
           | Some req_id \<Rightarrow> Some (dp, [call req_id (ack_symbol resp) (ack_success resp)], Delivered)))"

definition parse_subscribe_ack :: "('e, 'd) dom \<Rightarrow> channel \<Rightarrow> 'e \<Rightarrow> 'd data_plane \<Rightarrow> 'd routed" where
  "parse_subscribe_ack D channel root dp =
     (case channel of
        ChannelTrade \<Rightarrow> route_ack (CtxSubscribeAck TradeDomain) (trade_parse_ack_common D True root) dp
      | ChannelBook \<Rightarrow> route_ack (CtxSubscribeAck BookDomain) (book_parse_ack_common D True root) dp
      | _ \<Rightarrow> route_rejection D root dp)"

definition parse_unsubscribe_ack :: "('e, 'd) dom \<Rightarrow> channel \<Rightarrow> 'e \<Rightarrow> 'd data_plane \<Rightarrow> 'd routed" where
  "parse_unsubscribe_ack D channel root dp =
     (case channel of
        ChannelTrade \<Rightarrow> route_ack (CtxUnsubscribeAck TradeDomain) (trade_parse_ack_common D False root) dp
      | ChannelBook \<Rightarrow> route_ack (CtxUnsubscribeAck BookDomain) (book_parse_ack_common D False root) dp
      | _ \<Rightarrow> route_rejection D root dp)"

definition route_pong :: "('e, 'd) dom \<Rightarrow> 'e \<Rightarrow> 'd data_plane \<Rightarrow> 'd routed" where
  "route_pong D root dp =
     (case parse_pong D root of
        PAbort \<Rightarrow> None
      | PFail r \<Rightarrow> Some (dp, [], r)
      | POk resp \<Rightarrow> Some (set_pong resp dp, [], Delivered))"

definition route_status :: "('e, 'd) dom \<Rightarrow> 'e \<Rightarrow> 'd data_plane \<Rightarrow> 'd routed" where
  "route_status D root dp =
     (case parse_status_update D root of
        PAbort \<Rightarrow> None
      | PFail r \<Rightarrow> Some (dp, [], r)
      | POk resp \<Rightarrow> Some (set_status resp dp, [], Delivered))"

definition route_trade :: "('e, 'd) dom \<Rightarrow> 'e \<Rightarrow> 'd data_plane \<Rightarrow> 'd routed" where
  "route_trade D root dp =
     (case parse_trade_response D root of
        PAbort \<Rightarrow> None
      | PFail r \<Rightarrow> Some (dp, [], r)
      | POk response \<Rightarrow> deliver (push_trade dp response) [])"

definition route_book :: "('e, 'd) dom \<Rightarrow> 'e \<Rightarrow> 'd data_plane \<Rightarrow> 'd routed" where
  "route_book D root dp =
     (case parse_book_response D root of
        PAbort \<Rightarrow> None
      | PFail r \<Rightarrow> Some (dp, [], r)
      | POk response \<Rightarrow> deliver (push_book dp response) [])"

text \<open>The channel of an acknowledgement is that of its result object; a missing result or an unknown channel is a rejection.\<close>

definition ack_channel :: "('e, 'd) dom \<Rightarrow> 'e \<Rightarrow> channel" where
  "ack_channel D root =
     (case parse_object_required D root ''result'' of
        POk result \<Rightarrow> (case parse_channel_required D result of POk channel \<Rightarrow> channel | _ \<Rightarrow> ChannelUnknown)
      | _ \<Rightarrow> ChannelUnknown)"

definition parse_method_message :: "('e, 'd) dom \<Rightarrow> kraken_method \<Rightarrow> 'e \<Rightarrow> 'd data_plane \<Rightarrow> 'd routed" where
  "parse_method_message D method root dp =
     (case method of
        MethodPong \<Rightarrow> route_pong D root dp
      | MethodSubscribe \<Rightarrow> parse_subscribe_ack D (ack_channel D root) root dp
      | MethodUnsubscribe \<Rightarrow> parse_unsubscribe_ack D (ack_channel D root) root dp
      | _ \<Rightarrow> Some (dp, [], Ignored))"

definition parse_channel_message :: "('e, 'd) dom \<Rightarrow> channel \<Rightarrow> 'e \<Rightarrow> 'd data_plane \<Rightarrow> 'd routed" where
  "parse_channel_message D channel root dp =
     (case channel of
        ChannelTrade \<Rightarrow> route_trade D root dp
      | ChannelTicker \<Rightarrow> Some (dp, [], Ignored)
      | ChannelBook \<Rightarrow> route_book D root dp
      | ChannelHeartbeat \<Rightarrow> Some (dp, [], Delivered)
      | ChannelStatus \<Rightarrow> route_status D root dp
      | ChannelUnknown \<Rightarrow> Some (dp, [], Ignored))"

definition parse_and_route :: "('e, 'd) dom \<Rightarrow> string \<Rightarrow> 'd data_plane \<Rightarrow> 'd routed" where
  "parse_and_route D raw_msg dp =
     (case dom_parse D raw_msg of
        None \<Rightarrow> Some (dp, [], InvalidSchema)
      | Some root \<Rightarrow>
          (case parse_method_required D root of
             POk method \<Rightarrow> parse_method_message D method root dp
           | _ \<Rightarrow>
               (case parse_channel_required D root of
                  POk channel \<Rightarrow> parse_channel_message D channel root dp
                | _ \<Rightarrow> Some (dp, [], Ignored))))"

definition kraken_on_message :: "('e, 'd) dom \<Rightarrow> string \<Rightarrow> 'd data_plane \<Rightarrow> 'd routed" where
  "kraken_on_message D msg dp = (if msg = [] then Some (dp, [], Ignored) else parse_and_route D msg dp)"

text \<open>The handler of the session. Its state is the data plane; once the process has ended it is \<open>None\<close> and nothing happens any more.\<close>

definition kraken_handler :: "('e, 'd) dom \<Rightarrow> 'd data_plane option message_handler" where
  "kraken_handler D h msg =
     (case h of
        None \<Rightarrow> (None, [], Ignored)
      | Some dp \<Rightarrow>
          (case kraken_on_message D msg dp of
             None \<Rightarrow> (None, [], Ignored)
           | Some (dp', calls, r) \<Rightarrow> (Some dp', calls, r)))"


section \<open>A sample exchange\<close>

text \<open>Documents as trees, with natural numbers for doubles, and an exchange that is given by the documents of its messages.\<close>

datatype doc = DBool bool | DNum u64 | DStr string | DArr "doc list" | DObj "(string \<times> doc) list"

definition sample_dom :: "(string \<times> doc) list \<Rightarrow> (doc, nat) dom" where
  "sample_dom docs =
     \<lparr>dom_parse = map_of docs,
      dom_is_object = (\<lambda>e. case e of DObj fs \<Rightarrow> True | _ \<Rightarrow> False),
      dom_field = (\<lambda>e key. case e of DObj fs \<Rightarrow> map_of fs key | _ \<Rightarrow> None),
      dom_bool = (\<lambda>e. case e of DBool b \<Rightarrow> Some b | _ \<Rightarrow> None),
      dom_uint64 = (\<lambda>e. case e of DNum n \<Rightarrow> Some n | _ \<Rightarrow> None),
      dom_double = (\<lambda>e. case e of DNum n \<Rightarrow> Some (unat n) | _ \<Rightarrow> None),
      dom_string = (\<lambda>e. case e of DStr s \<Rightarrow> Some (literal s) | _ \<Rightarrow> None),
      dom_array = (\<lambda>e. case e of DArr es \<Rightarrow> Some es | _ \<Rightarrow> None)\<rparr>"

definition sample_ack_doc :: "(string \<times> doc) list \<Rightarrow> doc" where
  "sample_ack_doc extra = DObj ([(''method'', DStr ''subscribe''), (''success'', DBool True),
     (''result'', DObj [(''channel'', DStr ''trade''), (''symbol'', DStr ''BTC/USD'')])] @ extra)"

definition sample_trade_doc :: doc where
  "sample_trade_doc = DObj [(''channel'', DStr ''trade''), (''type'', DStr ''update''), (''data'', DArr [DObj
     [(''symbol'', DStr ''BTC/USD''), (''side'', DStr ''buy''), (''qty'', DNum 2), (''price'', DNum 7), (''trade_id'', DNum 9),
      (''timestamp'', DStr ''1970-01-01T00:00:01Z''), (''ord_type'', DStr ''limit'')]])]"

definition sample_reject_doc :: doc where
  "sample_reject_doc = DObj [(''method'', DStr ''subscribe''), (''success'', DBool False), (''error'', DStr ''Already subscribed''),
     (''symbol'', DStr ''BTC/USD''), (''req_id'', DNum 6)]"

definition sample_exchange :: "(doc, nat) dom" where
  "sample_exchange = sample_dom [(''ack'', sample_ack_doc [(''req_id'', DNum 5)]), (''ack without id'', sample_ack_doc []),
     (''trade'', sample_trade_doc), (''reject'', sample_reject_doc)]"

definition sample_response :: "nat trade_response" where
  "sample_response = \<lparr>tr_type = PayloadUpdate, tr_trades = [\<lparr>kt_trade_id = 9, kt_symbol = ''BTC/USD'', kt_price = 7, kt_qty = 2,
     kt_side = SideBuy, kt_timestamp = 1000000000, kt_ord_type = Some OrderLimit\<rparr>]\<rparr>"

definition sample_plane :: "nat data_plane" where
  "sample_plane =
     \<lparr>dp_trades = spsc_init (replicate 1024 sample_response), dp_books = spsc_init (replicate 1024 \<lparr>br_type = PayloadUpdate, br_book =
        \<lparr>kb_symbol = [], kb_asks = [], kb_bids = [], kb_checksum = 0, kb_timestamp = None\<rparr>\<rparr>),
      dp_rejections = spsc_init (replicate 1024 \<lparr>no_error = [], no_req_id = None, no_symbol = None, no_time_in = None, no_time_out = None\<rparr>),
      dp_pong = None, dp_status = None\<rparr>"

definition sample_notice :: notice where
  "sample_notice = \<lparr>no_error = ''Already subscribed'', no_req_id = Some 6, no_symbol = Some ''BTC/USD'', no_time_in = None, no_time_out = None\<rparr>"

lemma literal_terminated [simp]: "null_terminated (literal s)"
  by (simp add: null_terminated_def literal_def)

lemma literal_str [simp]: "sv_str (literal s) = s"
  by (simp add: literal_def)

lemmas parser_eval = parse_string_required_def parse_bool_required_def parse_uint64_required_def parse_double_required_def
  parse_array_required_def parse_object_required_def parse_string_optional_def parse_bool_optional_def parse_uint64_optional_def
  parse_string_list_optional_def parse_method_required_def parse_channel_required_def parse_symbol_required_def
  parse_symbol_optional_def parse_side_required_def parse_order_type_optional_def parse_payload_type_required_def
  parse_timestamp_required_def parse_timestamp_optional_def require_object_def make_symbol_def MAX_SYMBOL_LENGTH_def
  to_method_enum_fast_def to_channel_enum_fast_def to_side_enum_fast_def to_order_type_enum_fast_def
  pack4_tag pack4_tag3 starts_with_def

lemma sample_timestamp: "parse_rfc3339 (literal ''1970-01-01T00:00:01Z'') = Some 1000000000"
proof -
  have "ymd_ok 1970 1 1" "sys_days 1970 1 1 = 0"
    by (simp_all add: ymd_ok_def sys_days_def days_in_month_def days_before_month_def days_before_year_def leap_year_def)
  then show ?thesis by (simp add: timestamp_eval literal_def)
qed

lemma sample_payload: "to_payload_type_enum_fast (literal ''update'') = PayloadUpdate"
  by (simp add: fast_payload_type numeral_2_eq_2)

lemma sample_messages:
  "kraken_on_message sample_exchange ''ack without id'' dp = None"
  "kraken_on_message sample_exchange ''ack'' dp = Some (dp, [CtxSubscribeAck TradeDomain 5 ''BTC/USD'' True], Delivered)"
  "kraken_on_message sample_exchange ''trade'' dp = deliver (push_trade dp sample_response) []"
  "kraken_on_message sample_exchange ''reject'' dp = deliver (push_rejection dp sample_notice) [CtxRejection 6 ''BTC/USD'']"
  by (simp_all add: kraken_on_message_def parse_and_route_def sample_exchange_def sample_dom_def sample_ack_doc_def sample_trade_doc_def
      sample_reject_doc_def parser_eval parse_method_message_def parse_channel_message_def ack_channel_def parse_subscribe_ack_def
      trade_parse_ack_common_def parse_sub_fields_def parse_ack_tail_def ack_init_def route_ack_def route_trade_def route_rejection_def
      parse_rejection_notice_def parse_trade_response_def parse_trade_object_def sample_timestamp sample_payload sample_response_def sample_notice_def Let_def)

end
