(* ===== verification/Kraken_Handler.thy ===== *)
theory Kraken_Handler
  imports Kraken_Router Session_Run
begin

text \<open>
  What the message handler does with any message of the exchange: when it ends the process, what it puts into the data plane and which calls it makes on the
  session; and the session run with it.
\<close>

section \<open>Results of parsers\<close>

lemma bindp_abort: "bindp p f = PAbort \<longleftrightarrow> p = PAbort \<or> (\<exists>x. p = POk x \<and> f x = PAbort)"
  by (cases p) auto

lemma bindp_ok: "bindp p f = POk y \<longleftrightarrow> (\<exists>x. p = POk x \<and> f x = POk y)"
  by (cases p) auto

lemma required_iff [simp]: "required x \<noteq> PAbort" "PAbort \<noteq> required x" "required x = POk y \<longleftrightarrow> x = Some y"
  by (cases x; simp)+

lemma require_object_iff [simp]: "require_object D e \<noteq> PAbort" "require_object D e = POk u \<longleftrightarrow> dom_is_object D e"
  by (simp_all add: require_object_def)

text \<open>A field of an object, read by one of the accessors.\<close>

definition has_field :: "('e, 'd) dom \<Rightarrow> 'e \<Rightarrow> string \<Rightarrow> ('e \<Rightarrow> 'x option) \<Rightarrow> 'x \<Rightarrow> bool" where
  "has_field D e key get x \<longleftrightarrow> dom_is_object D e \<and> (\<exists>f. dom_field D e key = Some f \<and> get f = Some x)"

lemma has_field_unique: "has_field D e key get x \<Longrightarrow> has_field D e key get y \<Longrightarrow> x = y"
  by (auto simp: has_field_def)

lemma helpers_never_abort [simp]:
  "parse_object_required D e k \<noteq> PAbort" "parse_array_required D e k \<noteq> PAbort" "parse_bool_required D e k \<noteq> PAbort"
  "parse_uint64_required D e k \<noteq> PAbort" "parse_double_required D e k \<noteq> PAbort" "parse_string_required D e k \<noteq> PAbort"
  "parse_string_optional D e k \<noteq> PAbort" "parse_bool_optional D e k \<noteq> PAbort" "parse_uint64_optional D e k \<noteq> PAbort"
  "parse_text_optional D e k \<noteq> PAbort" "parse_string_list_optional D e k \<noteq> PAbort" "parse_string_elements D es \<noteq> PAbort"
proof -
  show els: "parse_string_elements D es \<noteq> PAbort" for es by (induction es) (auto simp: bindp_abort)
  show "parse_string_list_optional D e k \<noteq> PAbort"
    using els by (auto simp: parse_string_list_optional_def bindp_abort split: option.splits)
qed (auto simp: parse_object_required_def parse_array_required_def parse_bool_required_def parse_uint64_required_def parse_double_required_def
    parse_string_required_def parse_string_optional_def parse_bool_optional_def parse_uint64_optional_def parse_text_optional_def bindp_abort
    split: option.splits)

lemma adapters_never_abort [simp]:
  "parse_method_required D e \<noteq> PAbort" "parse_channel_required D e \<noteq> PAbort" "parse_side_required D e k \<noteq> PAbort"
  "parse_order_type_optional D e k \<noteq> PAbort" "parse_payload_type_required D e k \<noteq> PAbort" "parse_system_state_required D e k \<noteq> PAbort"
  "parse_timestamp_required D e k \<noteq> PAbort" "parse_timestamp_optional D e k \<noteq> PAbort"
  by (auto simp: parse_method_required_def parse_channel_required_def parse_side_required_def parse_order_type_optional_def
      parse_payload_type_required_def parse_system_state_required_def parse_timestamp_required_def parse_timestamp_optional_def
      bindp_abort Let_def split: option.splits if_splits)

lemma helpers_ok:
  "parse_string_required D e k = POk sv \<longleftrightarrow> has_field D e k (dom_string D) sv"
  "parse_bool_required D e k = POk b \<longleftrightarrow> has_field D e k (dom_bool D) b"
  "parse_uint64_required D e k = POk n \<longleftrightarrow> has_field D e k (dom_uint64 D) n"
  "parse_double_required D e k = POk x \<longleftrightarrow> has_field D e k (dom_double D) x"
  "parse_array_required D e k = POk es \<longleftrightarrow> has_field D e k (dom_array D) es"
  "parse_object_required D e k = POk o1 \<longleftrightarrow> has_field D e k Some o1 \<and> dom_is_object D o1"
  by (auto simp: has_field_def parse_string_required_def parse_bool_required_def parse_uint64_required_def parse_double_required_def
      parse_array_required_def parse_object_required_def bindp_ok)

lemma uint64_optional_some: "parse_uint64_optional D e k = POk (Some n) \<longleftrightarrow> has_field D e k (dom_uint64 D) n"
  by (auto simp: parse_uint64_optional_def has_field_def bindp_ok split: option.splits)

lemma string_optional_some: "parse_string_optional D e k = POk (Some v) \<longleftrightarrow> has_field D e k (dom_string D) v"
  by (auto simp: parse_string_optional_def has_field_def bindp_ok split: option.splits)

section \<open>Names that are too long\<close>

definition long_name :: "('e, 'd) dom \<Rightarrow> 'e \<Rightarrow> bool" where
  "long_name D e \<longleftrightarrow> (\<exists>v. has_field D e ''symbol'' (dom_string D) v \<and> MAX_SYMBOL_LENGTH < length (sv_str v))"

lemma symbol_required_abort: "parse_symbol_required D e ''symbol'' = PAbort \<longleftrightarrow> long_name D e"
  by (cases "parse_string_required D e ''symbol''")
    (auto simp: parse_symbol_required_def make_symbol_def long_name_def MAX_SYMBOL_LENGTH_def simp flip: helpers_ok(1))

lemma symbol_required_ok:
  "parse_symbol_required D e k = POk s \<longleftrightarrow>
     (\<exists>v. has_field D e k (dom_string D) v \<and> sv_str v = s \<and> s \<noteq> [] \<and> length s \<le> MAX_SYMBOL_LENGTH)"
  by (auto simp: parse_symbol_required_def bindp_ok make_symbol_def helpers_ok split: if_splits)

lemma symbol_optional_abort: "parse_symbol_optional D e ''symbol'' = PAbort \<longleftrightarrow> long_name D e"
proof (cases "parse_string_optional D e ''symbol''")
  case (POk present)
  then show ?thesis
    by (cases present) (auto simp: parse_symbol_optional_def make_symbol_def long_name_def MAX_SYMBOL_LENGTH_def simp flip: string_optional_some)
qed (auto simp: parse_symbol_optional_def long_name_def simp flip: string_optional_some)

lemma symbol_optional_ok:
  "parse_symbol_optional D e k = POk (Some s) \<longleftrightarrow>
     (\<exists>v. has_field D e k (dom_string D) v \<and> sv_str v = s \<and> s \<noteq> [] \<and> length s \<le> MAX_SYMBOL_LENGTH)"
  by (auto simp: parse_symbol_optional_def bindp_ok make_symbol_def string_optional_some split: if_splits option.splits)


section \<open>When a message ends the process\<close>

text \<open>An acknowledgement is complete when it names its request.\<close>

definition names_request :: "('e, 'd) dom \<Rightarrow> 'e \<Rightarrow> bool" where
  "names_request D root \<longleftrightarrow> (\<exists>r. has_field D root ''req_id'' (dom_uint64 D) r)"

text \<open>The messages on which the process may end. With the method of a subscription or an unsubscription: an acknowledgement for a known channel whose
  result has a name that is too long or that does not name its request, and a message for no known channel with a name that is too long. Without a
  known method: a trade or book message with a name that is too long in its data, and a status message whose first entry is not an object.\<close>

definition fatal_method :: "('e, 'd) dom \<Rightarrow> 'e \<Rightarrow> bool" where
  "fatal_method D root \<longleftrightarrow>
     parse_method_required D root \<in> {POk MethodSubscribe, POk MethodUnsubscribe} \<and>
     (if ack_channel D root \<in> {ChannelTrade, ChannelBook}
      then (\<exists>result. has_field D root ''result'' Some result \<and> long_name D result) \<or> \<not> names_request D root
      else long_name D root)"

definition long_data :: "('e, 'd) dom \<Rightarrow> 'e \<Rightarrow> bool" where
  "long_data D root \<longleftrightarrow> (\<exists>es. has_field D root ''data'' (dom_array D) es \<and> (\<exists>e \<in> set es. long_name D e))"

definition bad_status :: "('e, 'd) dom \<Rightarrow> 'e \<Rightarrow> bool" where
  "bad_status D root \<longleftrightarrow> (\<exists>es. has_field D root ''data'' (dom_array D) es \<and> es \<noteq> [] \<and> \<not> dom_is_object D (hd es))"

definition fatal_channel :: "('e, 'd) dom \<Rightarrow> 'e \<Rightarrow> bool" where
  "fatal_channel D root \<longleftrightarrow>
     (\<forall>m. parse_method_required D root \<noteq> POk m) \<and>
     (parse_channel_required D root \<in> {POk ChannelTrade, POk ChannelBook} \<and> long_data D root \<or>
      parse_channel_required D root = POk ChannelStatus \<and> bad_status D root)"

definition fatal_message :: "('e, 'd) dom \<Rightarrow> 'e \<Rightarrow> bool" where
  "fatal_message D root \<longleftrightarrow> fatal_method D root \<or> fatal_channel D root"

lemma trade_objects_abort: "parse_trade_objects D es = PAbort \<Longrightarrow> \<exists>e \<in> set es. long_name D e"
  by (induction es) (auto simp: bindp_abort parse_trade_object_def symbol_required_abort split: if_splits)

lemma trade_response_abort: "parse_trade_response D root = PAbort \<Longrightarrow> long_data D root"
  by (auto simp: parse_trade_response_def bindp_abort helpers_ok long_data_def dest!: trade_objects_abort split: if_splits)

lemma levels_never_abort: "parse_levels D es \<noteq> PAbort"
  by (induction es) (auto simp: bindp_abort split: parsed.splits)

lemma side_levels_never_abort: "parse_side_levels_common D e k \<noteq> PAbort"
  using levels_never_abort by (auto simp: parse_side_levels_common_def bindp_abort split: option.splits)

lemma book_response_abort: "parse_book_response D root = PAbort \<Longrightarrow> long_data D root"
proof -
  assume "parse_book_response D root = PAbort"
  then have "parse_book D root = PAbort" by (auto simp: parse_book_response_def bindp_abort)
  then obtain es where "has_field D root ''data'' (dom_array D) es" "length es = 1" "long_name D (es ! 0)"
    by (auto simp: parse_book_def bindp_abort helpers_ok symbol_required_abort side_levels_never_abort Let_def split: if_splits prod.splits)
  then show ?thesis unfolding long_data_def by (metis nth_mem zero_less_one)
qed

lemma status_abort: "parse_status_update D root = PAbort \<Longrightarrow> bad_status D root"
  by (auto simp: parse_status_update_def bindp_abort object_of_def helpers_ok bad_status_def split: if_splits)

lemma pong_never_aborts: "parse_pong D root \<noteq> PAbort"
  by (auto simp: parse_pong_def bindp_abort split: option.splits bool.splits prod.splits)

lemma rejection_abort: "parse_rejection_notice D root = PAbort \<Longrightarrow> long_name D root"
  by (auto simp: parse_rejection_notice_def bindp_abort symbol_optional_abort)

lemma sub_fields_never_abort: "parse_sub_fields D sub result out \<noteq> PAbort"
  by (auto simp: parse_sub_fields_def bindp_abort split: prod.splits)

lemma ack_tail_never_aborts: "parse_ack_tail D root out \<noteq> PAbort"
  by (auto simp: parse_ack_tail_def bindp_abort)

lemma ack_abort:
  "trade_parse_ack_common D sub root = PAbort \<or> book_parse_ack_common D sub root = PAbort \<Longrightarrow>
     \<exists>result. has_field D root ''result'' Some result \<and> long_name D result"
  by (auto simp: trade_parse_ack_common_def book_parse_ack_common_def bindp_abort symbol_required_abort helpers_ok
      sub_fields_never_abort ack_tail_never_aborts split: if_splits)

lemma ack_tail_ok: "parse_ack_tail D root out = POk a \<Longrightarrow>
  (\<forall>r. ack_req_id a = Some r \<longleftrightarrow> has_field D root ''req_id'' (dom_uint64 D) r) \<and>
  ack_success a = ack_success out \<and> ack_symbol a = ack_symbol out"
  by (auto simp: parse_ack_tail_def bindp_ok simp flip: uint64_optional_some)

lemma sub_fields_ok: "parse_sub_fields D sub result out = POk a \<Longrightarrow> ack_success a = ack_success out \<and> ack_symbol a = ack_symbol out"
  by (auto simp: parse_sub_fields_def bindp_ok split: if_splits prod.splits)

definition result_symbol :: "('e, 'd) dom \<Rightarrow> 'e \<Rightarrow> symbol \<Rightarrow> bool" where
  "result_symbol D root s \<longleftrightarrow>
     (\<exists>result v. has_field D root ''result'' Some result \<and> has_field D result ''symbol'' (dom_string D) v \<and> sv_str v = s)"

lemma result_symbolI: "has_field D root ''result'' Some result \<Longrightarrow> has_field D result ''symbol'' (dom_string D) v \<Longrightarrow> result_symbol D root (sv_str v)"
  by (auto simp: result_symbol_def)

text \<open>What an accepted acknowledgement says: its request, whether it succeeded, and its symbol, which only a success names.\<close>

lemma ack_ok:
  assumes "trade_parse_ack_common D sub root = POk a \<or> book_parse_ack_common D sub root = POk a"
  shows "(\<forall>r. ack_req_id a = Some r \<longleftrightarrow> has_field D root ''req_id'' (dom_uint64 D) r) \<and>
    has_field D root ''success'' (dom_bool D) (ack_success a) \<and>
    (if ack_success a then length (ack_symbol a) \<le> MAX_SYMBOL_LENGTH \<and> result_symbol D root (ack_symbol a) else ack_symbol a = [])"
  using assms
  by (auto simp: trade_parse_ack_common_def book_parse_ack_common_def bindp_ok symbol_required_ok helpers_ok ack_init_def
      intro: result_symbolI dest!: ack_tail_ok sub_fields_ok split: if_splits)

lemma method_required_field: "parse_method_required D root = POk m \<Longrightarrow> \<exists>sv. has_field D root ''method'' (dom_string D) sv \<and> to_method_enum_fast sv = m"
  by (auto simp: parse_method_required_def bindp_ok helpers_ok Let_def split: if_splits)

lemma route_ack_none:
  assumes "route_ack call p dp = None" "p = trade_parse_ack_common D sub root \<or> p = book_parse_ack_common D sub root"
  shows "(\<exists>result. has_field D root ''result'' Some result \<and> long_name D result) \<or> \<not> names_request D root"
proof (cases p)
  case PAbort
  then show ?thesis using assms(2) ack_abort [of D sub root] by metis
next
  case (POk a)
  then have "ack_req_id a = None" using assms(1) by (simp add: route_ack_def split: option.splits)
  moreover have "\<forall>r. ack_req_id a = Some r \<longleftrightarrow> has_field D root ''req_id'' (dom_uint64 D) r"
    using ack_ok [of D sub root a] POk assms(2) by metis
  ultimately show ?thesis by (simp add: names_request_def)
qed (use assms in \<open>simp add: route_ack_def\<close>)

lemma deliver_some [simp]: "deliver p calls \<noteq> None"
  by (cases p) simp

lemma route_rejection_none: "route_rejection D root dp = None \<Longrightarrow> long_name D root"
  by (auto simp: route_rejection_def dest: rejection_abort split: parsed.splits)

lemma subscribe_ack_none:
  assumes "parse_subscribe_ack D c root dp = None \<or> parse_unsubscribe_ack D c root dp = None"
  shows "if c \<in> {ChannelTrade, ChannelBook}
    then (\<exists>result. has_field D root ''result'' Some result \<and> long_name D result) \<or> \<not> names_request D root else long_name D root"
  using assms
  by (cases c) (auto simp: parse_subscribe_ack_def parse_unsubscribe_ack_def
      dest: route_ack_none [OF _ disjI1 [OF refl]] route_ack_none [OF _ disjI2 [OF refl]] route_rejection_none)

lemma method_message_none:
  assumes "parse_method_message D m root dp = None" "parse_method_required D root = POk m"
  shows "fatal_message D root"
proof -
  have m: "m \<in> {MethodSubscribe, MethodUnsubscribe}"
    using assms(1) pong_never_aborts [of D root] by (cases m) (auto simp: parse_method_message_def route_pong_def split: parsed.splits)
  then have "parse_subscribe_ack D (ack_channel D root) root dp = None \<or> parse_unsubscribe_ack D (ack_channel D root) root dp = None"
    using assms(1) by (auto simp: parse_method_message_def)
  from subscribe_ack_none [OF this] show ?thesis
    using m assms(2) unfolding fatal_message_def fatal_method_def by auto
qed

lemma channel_message_none:
  assumes "parse_channel_message D c root dp = None"
  shows "c \<in> {ChannelTrade, ChannelBook} \<and> long_data D root \<or> c = ChannelStatus \<and> bad_status D root"
  using assms
  by (cases c) (auto simp: parse_channel_message_def route_trade_def route_book_def route_status_def
      dest: trade_response_abort book_response_abort status_abort split: parsed.splits)

lemma on_message_none:
  assumes "kraken_on_message D msg dp = None"
  shows "\<exists>root. dom_parse D msg = Some root \<and> fatal_message D root"
proof -
  obtain root where root: "dom_parse D msg = Some root" "msg \<noteq> []"
    using assms by (auto simp: kraken_on_message_def parse_and_route_def split: if_splits option.splits)
  have "fatal_message D root"
  proof (cases "parse_method_required D root")
    case (POk m)
    then show ?thesis using assms root by (intro method_message_none [OF _ POk]) (simp add: kraken_on_message_def parse_and_route_def)
  next
    case (PFail r)
    then obtain c where c: "parse_channel_required D root = POk c" "parse_channel_message D c root dp = None"
      using assms root by (auto simp: kraken_on_message_def parse_and_route_def split: parsed.splits)
    then show ?thesis using channel_message_none [OF c(2)] PFail by (auto simp: fatal_message_def fatal_channel_def)
  qed simp
  then show ?thesis using root(1) by blast
qed

text \<open>C19: the handler ends the process only on a message of one of these kinds: an acknowledgement of a subscription or an unsubscription, for a known channel,
  without its request id or with a name of more than sixteen characters in its result; a subscription or unsubscription message for no known channel with such a
  name; a trade or book message with such a name in its data; a status message whose first entry is not an object. Every other input, a pong without a request id
  or one that is not JSON or not of the protocol too, is handled and reported by a result. The calls that the handler then makes on the
  session are not part of it: they intern the symbol, and a full symbol table traps.\<close>

theorem handler_aborts_only_on:
  assumes "kraken_on_message D msg dp = None"
  shows "\<exists>root. dom_parse D msg = Some root \<and> fatal_message D root"
  using on_message_none [OF assms] .

theorem handler_aborts_only_on_witness:
  "kraken_on_message sample_exchange ''ack without id'' sample_plane = None \<and>
   dom_parse sample_exchange ''ack without id'' = Some (sample_ack_doc []) \<and> fatal_message sample_exchange (sample_ack_doc [])"
  using handler_aborts_only_on [OF sample_messages(1) [of sample_plane]] sample_messages(1) [of sample_plane]
  by (auto simp: sample_exchange_def sample_dom_def)

section \<open>The calls on the session\<close>

fun domain_channel :: "domain \<Rightarrow> channel" where
  "domain_channel TradeDomain = ChannelTrade"
| "domain_channel BookDomain = ChannelBook"

definition acknowledges :: "('e, 'd) dom \<Rightarrow> 'e \<Rightarrow> req_id \<Rightarrow> symbol \<Rightarrow> bool \<Rightarrow> bool" where
  "acknowledges D root r s ok \<longleftrightarrow>
     has_field D root ''req_id'' (dom_uint64 D) r \<and> has_field D root ''success'' (dom_bool D) ok \<and>
     (if ok then length s \<le> MAX_SYMBOL_LENGTH \<and> result_symbol D root s else s = [])"

definition rejects :: "('e, 'd) dom \<Rightarrow> 'e \<Rightarrow> req_id \<Rightarrow> symbol \<Rightarrow> bool" where
  "rejects D root r s \<longleftrightarrow>
     has_field D root ''req_id'' (dom_uint64 D) r \<and> length s \<le> MAX_SYMBOL_LENGTH \<and>
     (\<exists>v. has_field D root ''symbol'' (dom_string D) v \<and> sv_str v = s) \<and> (\<exists>v. has_field D root ''error'' (dom_string D) v)"

text \<open>The call that a message stands for: an acknowledgement by its method and by the channel of its result, a rejection by the lack of such a channel.\<close>

fun says :: "('e, 'd) dom \<Rightarrow> 'e \<Rightarrow> ctx_call \<Rightarrow> bool" where
  "says D root (CtxSubscribeAck d r s ok) \<longleftrightarrow>
     parse_method_required D root = POk MethodSubscribe \<and> ack_channel D root = domain_channel d \<and> acknowledges D root r s ok"
| "says D root (CtxUnsubscribeAck d r s ok) \<longleftrightarrow>
     parse_method_required D root = POk MethodUnsubscribe \<and> ack_channel D root = domain_channel d \<and> acknowledges D root r s ok"
| "says D root (CtxRejection r s) \<longleftrightarrow>
     parse_method_required D root \<in> {POk MethodSubscribe, POk MethodUnsubscribe} \<and> ack_channel D root \<notin> {ChannelTrade, ChannelBook} \<and> rejects D root r s"

lemma route_ack_some:
  assumes "route_ack call p dp = Some (dp', calls, res)" "p = trade_parse_ack_common D sub root \<or> p = book_parse_ack_common D sub root"
  shows "dp' = dp \<and> (calls = [] \<or> (\<exists>r s ok. calls = [call r s ok] \<and> acknowledges D root r s ok))"
proof (cases p)
  case (POk a)
  then obtain r where r: "ack_req_id a = Some r" "dp' = dp" "calls = [call r (ack_symbol a) (ack_success a)]" "res = Delivered"
    using assms(1) by (auto simp: route_ack_def split: option.splits)
  moreover have "acknowledges D root r (ack_symbol a) (ack_success a)"
    using ack_ok [of D sub root a] POk assms(2) r(1) unfolding acknowledges_def by metis
  ultimately show ?thesis by blast
qed (use assms in \<open>auto simp: route_ack_def\<close>)


lemma rejection_ok:
  assumes "parse_rejection_notice D root = POk n"
  shows "(\<exists>v. has_field D root ''error'' (dom_string D) v \<and> no_error n = sv_str v) \<and>
    (\<forall>r. no_req_id n = Some r \<longrightarrow> has_field D root ''req_id'' (dom_uint64 D) r) \<and>
    (\<forall>s. no_symbol n = Some s \<longrightarrow>
       s \<noteq> [] \<and> length s \<le> MAX_SYMBOL_LENGTH \<and> (\<exists>v. has_field D root ''symbol'' (dom_string D) v \<and> sv_str v = s))"
  using assms
  by (auto simp: parse_rejection_notice_def bindp_ok helpers_ok symbol_optional_ok simp flip: uint64_optional_some)

lemma route_rejection_calls:
  assumes "route_rejection D root dp = Some (dp', calls, res)"
  shows "calls = [] \<or> (\<exists>r s. calls = [CtxRejection r s] \<and> rejects D root r s)"
proof (cases "parse_rejection_notice D root")
  case (POk n)
  then have "calls = (case (no_req_id n, no_symbol n) of (Some r, Some s) \<Rightarrow> [CtxRejection r s] | _ \<Rightarrow> [])"
    using assms by (cases "push_rejection dp n") (auto simp: route_rejection_def)
  then show ?thesis using rejection_ok [OF POk] by (auto simp: rejects_def split: option.splits)
qed (use assms in \<open>simp_all add: route_rejection_def\<close>)

lemma subscribe_ack_calls:
  assumes "parse_subscribe_ack D c root dp = Some (dp', calls, res)"
  shows "calls = [] \<or> (\<exists>r s ok. calls = [CtxSubscribeAck TradeDomain r s ok] \<and> c = ChannelTrade \<and> acknowledges D root r s ok) \<or>
    (\<exists>r s ok. calls = [CtxSubscribeAck BookDomain r s ok] \<and> c = ChannelBook \<and> acknowledges D root r s ok) \<or>
    (\<exists>r s. calls = [CtxRejection r s] \<and> c \<notin> {ChannelTrade, ChannelBook} \<and> rejects D root r s)"
  using assms
  by (cases c) (auto simp: parse_subscribe_ack_def dest: route_ack_some [OF _ disjI1 [OF refl]] route_ack_some [OF _ disjI2 [OF refl]] route_rejection_calls)

lemma unsubscribe_ack_calls:
  assumes "parse_unsubscribe_ack D c root dp = Some (dp', calls, res)"
  shows "calls = [] \<or> (\<exists>r s ok. calls = [CtxUnsubscribeAck TradeDomain r s ok] \<and> c = ChannelTrade \<and> acknowledges D root r s ok) \<or>
    (\<exists>r s ok. calls = [CtxUnsubscribeAck BookDomain r s ok] \<and> c = ChannelBook \<and> acknowledges D root r s ok) \<or>
    (\<exists>r s. calls = [CtxRejection r s] \<and> c \<notin> {ChannelTrade, ChannelBook} \<and> rejects D root r s)"
  using assms
  by (cases c) (auto simp: parse_unsubscribe_ack_def dest: route_ack_some [OF _ disjI1 [OF refl]] route_ack_some [OF _ disjI2 [OF refl]] route_rejection_calls)

lemma channel_message_calls: "parse_channel_message D c root dp = Some (dp', calls, res) \<Longrightarrow> calls = []"
  by (cases c; cases "parse_trade_response D root"; cases "parse_book_response D root"; cases "parse_status_update D root")
    (auto simp: parse_channel_message_def route_trade_def route_book_def route_status_def elim!: deliver.elims)

lemma method_message_calls:
  assumes "parse_method_message D m root dp = Some (dp', calls, res)" "parse_method_required D root = POk m"
  shows "calls = [] \<or> (\<exists>c. calls = [c] \<and> says D root c)"
proof (cases m)
  case MethodSubscribe
  then show ?thesis using assms subscribe_ack_calls [of D "ack_channel D root" root dp dp' calls res]
    by (auto simp: parse_method_message_def)
next
  case MethodUnsubscribe
  then show ?thesis using assms unsubscribe_ack_calls [of D "ack_channel D root" root dp dp' calls res]
    by (auto simp: parse_method_message_def)
next
  case MethodPong
  then show ?thesis using assms by (auto simp: parse_method_message_def route_pong_def split: parsed.splits)
qed (use assms in \<open>simp_all add: parse_method_message_def\<close>)

lemma on_message_cases:
  assumes "kraken_on_message D msg dp = Some out"
  obtains (other) r where "out = (dp, [], r)"
  | (by_method) root m where "dom_parse D msg = Some root" "parse_method_required D root = POk m" "parse_method_message D m root dp = Some out"
  | (by_channel) root c where "dom_parse D msg = Some root" "parse_channel_required D root = POk c" "parse_channel_message D c root dp = Some out"
proof (cases "dom_parse D msg")
  case None
  then show thesis using assms that(1) by (auto simp: kraken_on_message_def parse_and_route_def split: if_splits)
next
  case root: (Some root)
  show thesis
  proof (cases "msg = []")
    case True
    then show thesis using assms by (intro that(1) [of Ignored]) (simp add: kraken_on_message_def)
  next
    case False
    show thesis
    proof (cases "\<exists>m. parse_method_required D root = POk m")
      case True
      then obtain m where m: "parse_method_required D root = POk m" by blast
      then show thesis using assms False root by (intro that(2)) (simp_all add: kraken_on_message_def parse_and_route_def)
    next
      case no_method: False
      then have r: "(case parse_channel_required D root of POk c \<Rightarrow> parse_channel_message D c root dp | _ \<Rightarrow> Some (dp, [], Ignored)) = Some out"
        using assms False root
        by (cases "parse_method_required D root") (simp_all add: kraken_on_message_def parse_and_route_def)
      show thesis
      proof (cases "\<exists>c. parse_channel_required D root = POk c")
        case True
        then show thesis using r root that(3) by auto
      next
        case False
        then show thesis using r by (cases "parse_channel_required D root") (auto intro: that(1))
      qed
    qed
  qed
qed

lemma handler_calls:
  assumes "kraken_on_message D msg dp = Some (dp', calls, res)"
  shows "calls = [] \<or> (\<exists>root c. dom_parse D msg = Some root \<and> calls = [c] \<and> says D root c)"
  using assms
proof (cases rule: on_message_cases)
  case (by_method top m)
  then show ?thesis using method_message_calls [OF by_method(3,2)] by auto
qed (auto dest: channel_message_calls)

text \<open>C18: what reaches the subscription managers is what the exchange said. A message makes at most one call on the session; an acknowledgement goes to the
  channel that its result names, with the request id and the outcome of the message and, when it succeeded, with the symbol of its result; a rejection carries the
  request id and the symbol of a message that has an error and no known channel. No other message makes a call.\<close>

theorem handler_calls_are_said:
  assumes "kraken_on_message D msg dp = Some (dp', calls, res)"
  shows "calls = [] \<or> (\<exists>root c. dom_parse D msg = Some root \<and> calls = [c] \<and> says D root c)"
  using handler_calls [OF assms] .

theorem handler_calls_are_said_witness:
  "kraken_on_message sample_exchange ''ack'' sample_plane = Some (sample_plane, [CtxSubscribeAck TradeDomain 5 ''BTC/USD'' True], Delivered) \<and>
   says sample_exchange (sample_ack_doc [(''req_id'', DNum 5)]) (CtxSubscribeAck TradeDomain 5 ''BTC/USD'' True)"
  using handler_calls_are_said [OF sample_messages(2) [of sample_plane]] sample_messages(2) [of sample_plane]
  by (auto simp: sample_exchange_def sample_dom_def)

section \<open>The session with this handler\<close>

text \<open>The names that the exchange uses in acknowledgements and rejections. A refused request is acknowledged with the empty name.\<close>

definition exchange_names :: "symbol set \<Rightarrow> ('e, 'd) dom \<Rightarrow> bool" where
  "exchange_names K D \<longleftrightarrow> [] \<in> K \<and>
     (\<forall>msg root s. dom_parse D msg = Some root \<longrightarrow>
        result_symbol D root s \<or> (\<exists>v. has_field D root ''symbol'' (dom_string D) v \<and> sv_str v = s) \<longrightarrow> s \<in> K)"

lemma says_symbol: "says D root c \<Longrightarrow> dom_parse D msg = Some root \<Longrightarrow> exchange_names K D \<Longrightarrow> ctx_symbol c \<in> K"
  by (cases c) (auto simp: acknowledges_def rejects_def exchange_names_def split: if_splits)

lemma kraken_handler_knows:
  assumes "exchange_names K D"
  shows "handler_knows K (kraken_handler D)"
proof -
  have "ctx_symbol ` set (fst (snd (kraken_handler D h m))) \<subseteq> K" for h m
  proof (cases "\<exists>dp dp' calls res. h = Some dp \<and> kraken_on_message D m dp = Some (dp', calls, res)")
    case True
    then obtain dp dp' calls res where d: "h = Some dp" "kraken_on_message D m dp = Some (dp', calls, res)" by blast
    then have "set calls \<subseteq> {c. \<exists>root. dom_parse D m = Some root \<and> says D root c}" using handler_calls [OF d(2)] by auto
    then show ?thesis using says_symbol [OF _ _ assms] d by (auto simp: kraken_handler_def)
  next
    case False
    then show ?thesis by (auto simp: kraken_handler_def split: option.splits)
  qed
  then show ?thesis by (simp add: handler_knows_def)
qed

end
