(* ===== verification/Kraken_Plane.thy ===== *)
theory Kraken_Plane
  imports Kraken_Handler
begin

text \<open>
  What the handler puts into the data plane: the message that an input carries, the queues as bounded lists, and the well-formedness of what is queued.
\<close>

section \<open>The queues\<close>

abbreviation queued :: "'a spsc_core \<Rightarrow> 'a list" where
  "queued q \<equiv> spsc_contents DEFAULT_RING_CAPACITY q"

definition queue_ok :: "'a spsc_core \<Rightarrow> bool" where
  "queue_ok q \<longleftrightarrow> spsc_ok DEFAULT_RING_CAPACITY q"

definition QUEUE_ROOM :: nat where "QUEUE_ROOM = 1023"

lemma room [simp]: "unat (spsc_capacity DEFAULT_RING_CAPACITY) = QUEUE_ROOM"
  by (simp add: spsc_capacity_def DEFAULT_RING_CAPACITY_def QUEUE_ROOM_def)

lemma bus_push_spec:
  assumes "queue_ok q" "bus_push q x = (q', ok)"
  shows "queue_ok q'" "(queued q', ok) = bq_push QUEUE_ROOM (queued q) x"
  using spsc.enq_inv [of DEFAULT_RING_CAPACITY q x] spsc.enq_spec [of DEFAULT_RING_CAPACITY q x] assms
  by (simp_all add: queue_ok_def bus_push_def)

lemma bus_pop_spec:
  assumes "queue_ok q" "bus_pop q = (q', r)"
  shows "queue_ok q'" "(queued q', r) = bq_pop (queued q)"
  using spsc.deq_inv [of DEFAULT_RING_CAPACITY q] spsc.deq_spec [of DEFAULT_RING_CAPACITY q] assms
  by (simp_all add: queue_ok_def bus_pop_def)

text \<open>Draining ends, delivers what was queued, in order, and leaves an empty queue.\<close>

lemma bus_drain_spec: "queue_ok q \<Longrightarrow> \<exists>q'. bus_drain q = Some (queued q, q') \<and> queue_ok q' \<and> queued q' = []"
proof (induction "queued q" arbitrary: q)
  case Nil
  obtain q' r where p: "bus_pop q = (q', r)" by fastforce
  then have "r = None" "queue_ok q'" "queued q' = []" using bus_pop_spec [OF Nil(2) p] by (simp_all flip: Nil(1))
  then show ?case using p by (subst bus_drain.simps) (simp flip: Nil(1))
next
  case (Cons x xs)
  obtain q' r where p: "bus_pop q = (q', r)" by fastforce
  then have r: "r = Some x" "queue_ok q'" "queued q' = xs" using bus_pop_spec [OF Cons(3) p] by (simp_all flip: Cons(2))
  then obtain q'' where "bus_drain q' = Some (xs, q'')" "queue_ok q''" "queued q'' = []" using Cons(1) [of q'] by auto
  then show ?case using p r(1) by (subst bus_drain.simps) (simp flip: Cons(2))
qed

lemma bus_drain_n_spec:
  "queue_ok q \<Longrightarrow> bus_drain_n n q = (ms, q') \<Longrightarrow> queue_ok q' \<and> ms = take n (queued q) \<and> queued q' = drop n (queued q)"
proof (induction n arbitrary: q ms)
  case (Suc n)
  obtain q1 r where p: "bus_pop q = (q1, r)" by fastforce
  note spec = bus_pop_spec [OF Suc.prems(1) p]
  show ?case
  proof (cases "queued q")
    case Nil
    then show ?thesis using Suc.prems(2) p spec by simp
  next
    case (Cons x xs)
    obtain ms1 where d: "bus_drain_n n q1 = (ms1, q')" "ms = x # ms1"
      using Suc.prems(2) p spec Cons by (auto split: prod.splits)
    then show ?thesis using Suc.IH [OF spec(1) d(1)] spec(2) Cons by simp
  qed
qed simp

section \<open>The message that an input carries\<close>

definition root_of :: "('e, 'd) dom \<Rightarrow> string \<Rightarrow> 'e option" where
  "root_of D msg = (if msg = [] then None else dom_parse D msg)"

text \<open>A data message of a channel has no method that is known.\<close>

definition data_root :: "('e, 'd) dom \<Rightarrow> channel \<Rightarrow> string \<Rightarrow> 'e option" where
  "data_root D c msg =
     (case root_of D msg of
        None \<Rightarrow> None
      | Some root \<Rightarrow>
          (case parse_method_required D root of
             POk m \<Rightarrow> None
           | _ \<Rightarrow> if parse_channel_required D root = POk c then Some root else None))"

fun parsed_value :: "'a parsed \<Rightarrow> 'a option" where
  "parsed_value (POk x) = Some x"
| "parsed_value _ = None"

definition trade_of :: "('e, 'd) dom \<Rightarrow> string \<Rightarrow> 'd trade_response option" where
  "trade_of D msg = Option.bind (data_root D ChannelTrade msg) (\<lambda>root. parsed_value (parse_trade_response D root))"

definition book_of :: "('e, 'd) dom \<Rightarrow> string \<Rightarrow> 'd book_response option" where
  "book_of D msg = Option.bind (data_root D ChannelBook msg) (\<lambda>root. parsed_value (parse_book_response D root))"

definition notice_of :: "('e, 'd) dom \<Rightarrow> string \<Rightarrow> notice option" where
  "notice_of D msg =
     (case root_of D msg of
        None \<Rightarrow> None
      | Some root \<Rightarrow>
          if parse_method_required D root \<in> {POk MethodSubscribe, POk MethodUnsubscribe} \<and> ack_channel D root \<notin> {ChannelTrade, ChannelBook}
          then parsed_value (parse_rejection_notice D root) else None)"

text \<open>A queue that is offered a message, and whether it has to refuse it.\<close>

definition offer :: "'a option \<Rightarrow> 'a list \<Rightarrow> 'a list" where
  "offer x q = (case x of None \<Rightarrow> q | Some m \<Rightarrow> fst (bq_push QUEUE_ROOM q m))"

definition refuses :: "'a option \<Rightarrow> 'a list \<Rightarrow> bool" where
  "refuses x q \<longleftrightarrow> x \<noteq> None \<and> QUEUE_ROOM \<le> length q"

definition plane_queues_ok :: "'d data_plane \<Rightarrow> bool" where
  "plane_queues_ok dp \<longleftrightarrow> queue_ok (dp_trades dp) \<and> queue_ok (dp_books dp) \<and> queue_ok (dp_rejections dp)"

definition plane_offered :: "'d trade_response option \<Rightarrow> 'd book_response option \<Rightarrow> notice option \<Rightarrow> 'd data_plane \<Rightarrow> 'd data_plane \<Rightarrow> bool" where
  "plane_offered t b n dp dp' \<longleftrightarrow> plane_queues_ok dp' \<and>
     queued (dp_trades dp') = offer t (queued (dp_trades dp)) \<and>
     queued (dp_books dp') = offer b (queued (dp_books dp)) \<and>
     queued (dp_rejections dp') = offer n (queued (dp_rejections dp))"

lemma plane_offered_none: "plane_queues_ok dp \<Longrightarrow> plane_offered None None None dp dp"
  by (simp add: plane_offered_def offer_def)

lemma push_offered:
  assumes "plane_queues_ok dp"
  shows "push_trade dp t = (dp', ok) \<Longrightarrow> plane_offered (Some t) None None dp dp' \<and> ok = (\<not> refuses (Some t) (queued (dp_trades dp)))"
    and "push_book dp b = (dp', ok) \<Longrightarrow> plane_offered None (Some b) None dp dp' \<and> ok = (\<not> refuses (Some b) (queued (dp_books dp)))"
    and "push_rejection dp n = (dp', ok) \<Longrightarrow> plane_offered None None (Some n) dp dp' \<and> ok = (\<not> refuses (Some n) (queued (dp_rejections dp)))"
  using assms
  by (auto simp: push_trade_def push_book_def push_rejection_def plane_offered_def plane_queues_ok_def offer_def refuses_def
      dest: bus_push_spec split: prod.splits if_splits)


section \<open>Failures of parsers are not results of a delivery\<close>

definition plain :: "'a parsed \<Rightarrow> bool" where
  "plain p \<longleftrightarrow> p \<noteq> PFail Delivered \<and> p \<noteq> PFail Backpressure"

lemma plain_simps [simp]: "plain (POk x)" "plain PAbort" "plain (PFail InvalidSchema)" "plain (PFail InvalidValue)" "plain (PFail Ignored)"
  "plain (require_object D e)"
  by (simp_all add: plain_def require_object_def)

lemma plain_required [simp]: "plain (required y)"
  by (cases y) simp_all

lemma plain_bind [simp]: "plain (bindp p f) \<longleftrightarrow> plain p \<and> (\<forall>x. p = POk x \<longrightarrow> plain (f x))"
  by (cases p) (auto simp: plain_def)

lemma helpers_plain [simp]:
  "plain (parse_object_required D e k)" "plain (parse_array_required D e k)" "plain (parse_bool_required D e k)"
  "plain (parse_uint64_required D e k)" "plain (parse_double_required D e k)" "plain (parse_string_required D e k)"
  "plain (parse_string_optional D e k)" "plain (parse_bool_optional D e k)" "plain (parse_uint64_optional D e k)"
  "plain (parse_text_optional D e k)" "plain (parse_string_elements D es)" "plain (parse_string_list_optional D e k)"
proof -
  show els: "plain (parse_string_elements D es)" for es by (induction es) auto
  then show "plain (parse_string_list_optional D e k)" by (auto simp: parse_string_list_optional_def split: option.splits)
qed (auto simp: parse_object_required_def parse_array_required_def parse_bool_required_def parse_uint64_required_def parse_double_required_def
    parse_string_required_def parse_string_optional_def parse_bool_optional_def parse_uint64_optional_def parse_text_optional_def split: option.splits)

lemma adapters_plain [simp]:
  "plain (parse_side_required D e k)" "plain (parse_order_type_optional D e k)" "plain (parse_payload_type_required D e k)"
  "plain (parse_system_state_required D e k)" "plain (parse_timestamp_required D e k)" "plain (parse_timestamp_optional D e k)"
  "plain (parse_symbol_required D e k)" "plain (parse_symbol_optional D e k)"
  by (auto simp: parse_side_required_def parse_order_type_optional_def parse_payload_type_required_def parse_system_state_required_def
      parse_timestamp_required_def parse_timestamp_optional_def parse_symbol_required_def parse_symbol_optional_def make_symbol_def Let_def
      split: option.splits)

lemma data_parsers_plain:
  "plain (parse_trade_response D root)" "plain (parse_book_response D root)" "plain (parse_status_update D root)"
proof -
  have "plain (parse_trade_objects D es)" for es by (induction es) (auto simp: parse_trade_object_def)
  then show "plain (parse_trade_response D root)" by (auto simp: parse_trade_response_def)
  have "plain (parse_levels D es)" for es by (induction es) (auto split: parsed.splits)
  then have "plain (parse_side_levels_common D e k)" for e k by (auto simp: parse_side_levels_common_def split: option.splits)
  then show "plain (parse_book_response D root)" by (auto simp: parse_book_response_def parse_book_def Let_def split: prod.splits)
  show "plain (parse_status_update D root)" by (auto simp: parse_status_update_def object_of_def)
qed

lemma control_parsers_plain:
  "plain (trade_parse_ack_common D sub root)" "plain (book_parse_ack_common D sub root)" "plain (parse_rejection_notice D root)" "plain (parse_pong D root)"
proof -
  have "plain (parse_ack_tail D root out)" "plain (parse_sub_fields D sub result out)" for out result
    by (auto simp: parse_ack_tail_def parse_sub_fields_def split: prod.splits)
  then show "plain (trade_parse_ack_common D sub root)" "plain (book_parse_ack_common D sub root)"
    by (auto simp: trade_parse_ack_common_def book_parse_ack_common_def)
  show "plain (parse_rejection_notice D root)" by (auto simp: parse_rejection_notice_def)
  show "plain (parse_pong D root)" by (auto simp: parse_pong_def split: option.splits bool.splits prod.splits)
qed

section \<open>Routing offers the message\<close>

definition offered :: "'d trade_response option \<Rightarrow> 'd book_response option \<Rightarrow> notice option \<Rightarrow> 'd data_plane \<Rightarrow> 'd routed \<Rightarrow> bool" where
  "offered t b n dp out \<longleftrightarrow>
     (case out of
        None \<Rightarrow> True
      | Some (dp', calls, res) \<Rightarrow> plane_offered t b n dp dp' \<and>
          (res = Backpressure \<longleftrightarrow>
             refuses t (queued (dp_trades dp)) \<or> refuses b (queued (dp_books dp)) \<or> refuses n (queued (dp_rejections dp))))"

lemma offered_idle: "plane_queues_ok dp \<Longrightarrow> r \<noteq> Backpressure \<Longrightarrow> offered None None None dp (Some (dp, calls, r))"
  by (simp add: offered_def plane_offered_none refuses_def)

lemma route_data_offered:
  assumes "plane_queues_ok dp"
  shows "offered (parsed_value (parse_trade_response D root)) None None dp (route_trade D root dp)"
    and "offered None (parsed_value (parse_book_response D root)) None dp (route_book D root dp)"
    and "offered None None (parsed_value (parse_rejection_notice D root)) dp (route_rejection D root dp)"
proof -
  show "offered (parsed_value (parse_trade_response D root)) None None dp (route_trade D root dp)"
  proof (cases "parse_trade_response D root")
    case (POk t)
    obtain dp' ok where p: "push_trade dp t = (dp', ok)" by fastforce
    show ?thesis using push_offered(1) [OF assms p] by (simp add: route_trade_def POk p offered_def refuses_def)
  qed (use assms data_parsers_plain(1) [of D root] in \<open>auto simp: plain_def route_trade_def offered_def plane_offered_none refuses_def\<close>)
  show "offered None (parsed_value (parse_book_response D root)) None dp (route_book D root dp)"
  proof (cases "parse_book_response D root")
    case (POk b)
    obtain dp' ok where p: "push_book dp b = (dp', ok)" by fastforce
    show ?thesis using push_offered(2) [OF assms p] by (simp add: route_book_def POk p offered_def refuses_def)
  qed (use assms data_parsers_plain(2) [of D root] in \<open>auto simp: plain_def route_book_def offered_def plane_offered_none refuses_def\<close>)
  show "offered None None (parsed_value (parse_rejection_notice D root)) dp (route_rejection D root dp)"
  proof (cases "parse_rejection_notice D root")
    case (POk n)
    obtain dp' ok where p: "push_rejection dp n = (dp', ok)" by fastforce
    show ?thesis using push_offered(3) [OF assms p] by (simp add: route_rejection_def POk p offered_def refuses_def)
  qed (use assms control_parsers_plain(3) [of D root] in \<open>auto simp: plain_def route_rejection_def offered_def plane_offered_none refuses_def\<close>)
qed


lemma route_other_offered:
  assumes "plane_queues_ok dp"
  shows "offered None None None dp (route_pong D root dp)" "offered None None None dp (route_status D root dp)"
    "offered None None None dp (route_ack call (trade_parse_ack_common D sub root) dp)"
    "offered None None None dp (route_ack call (book_parse_ack_common D sub root) dp)"
proof -
  have set: "plane_offered None None None dp (set_pong p dp)" "plane_offered None None None dp (set_status u dp)" for p u
    using assms by (simp_all add: plane_offered_def plane_queues_ok_def offer_def set_pong_def set_status_def)
  note p = data_parsers_plain(3) [of D root] control_parsers_plain(1,2) [of D sub root] control_parsers_plain(4) [of D root]
  show "offered None None None dp (route_pong D root dp)"
    using assms p(4) set by (auto simp: plain_def route_pong_def offered_def refuses_def plane_offered_none split: parsed.splits)
  show "offered None None None dp (route_status D root dp)"
    using assms p(1) set by (auto simp: plain_def route_status_def offered_def refuses_def plane_offered_none split: parsed.splits)
  show "offered None None None dp (route_ack call (trade_parse_ack_common D sub root) dp)"
    using assms p(2) by (auto simp: plain_def route_ack_def offered_def refuses_def plane_offered_none split: parsed.splits option.splits)
  show "offered None None None dp (route_ack call (book_parse_ack_common D sub root) dp)"
    using assms p(3) by (auto simp: plain_def route_ack_def offered_def refuses_def plane_offered_none split: parsed.splits option.splits)
qed

lemma method_message_offered:
  assumes "plane_queues_ok dp" "parse_method_required D root = POk m"
  shows "offered None None
    (if m \<in> {MethodSubscribe, MethodUnsubscribe} \<and> ack_channel D root \<notin> {ChannelTrade, ChannelBook} then parsed_value (parse_rejection_notice D root) else None)
    dp (parse_method_message D m root dp)"
  using route_other_offered [OF assms(1)] route_data_offered(3) [OF assms(1)] offered_idle [OF assms(1), of Ignored]
  by (cases m; cases "ack_channel D root")
    (simp_all add: parse_method_message_def parse_subscribe_ack_def parse_unsubscribe_ack_def)

lemma channel_message_offered:
  assumes "plane_queues_ok dp"
  shows "offered (if c = ChannelTrade then parsed_value (parse_trade_response D root) else None)
    (if c = ChannelBook then parsed_value (parse_book_response D root) else None) None dp (parse_channel_message D c root dp)"
  using route_other_offered(2) [OF assms] route_data_offered [OF assms] offered_idle [OF assms]
  by (cases c) (simp_all add: parse_channel_message_def)

lemma root_offered:
  assumes ok: "plane_queues_ok dp" and root: "root_of D msg = Some root"
  shows "offered (trade_of D msg) (book_of D msg) (notice_of D msg) dp (kraken_on_message D msg dp)"
proof (cases "\<exists>m. parse_method_required D root = POk m")
  case True
  then obtain m where m: "parse_method_required D root = POk m" by blast
  have "kraken_on_message D msg dp = parse_method_message D m root dp"
    using root m by (auto simp: kraken_on_message_def parse_and_route_def root_of_def split: if_splits)
  moreover have "trade_of D msg = None" "book_of D msg = None"
    using root m by (simp_all add: trade_of_def book_of_def data_root_def)
  moreover have "notice_of D msg = (if m \<in> {MethodSubscribe, MethodUnsubscribe} \<and> ack_channel D root \<notin> {ChannelTrade, ChannelBook}
      then parsed_value (parse_rejection_notice D root) else None)"
    using root m by (simp add: notice_of_def)
  ultimately show ?thesis using method_message_offered [OF ok m] by simp
next
  case False
  have n: "notice_of D msg = None" using root False by (auto simp: notice_of_def)
  have data: "data_root D c msg = (if parse_channel_required D root = POk c then Some root else None)" for c
    using root False by (cases "parse_method_required D root") (auto simp: data_root_def)
  have msg: "kraken_on_message D msg dp =
      (case parse_channel_required D root of POk c \<Rightarrow> parse_channel_message D c root dp | _ \<Rightarrow> Some (dp, [], Ignored))"
    using root False by (cases "parse_method_required D root") (auto simp: kraken_on_message_def parse_and_route_def root_of_def split: if_splits)
  show ?thesis
  proof (cases "\<exists>c. parse_channel_required D root = POk c")
    case True
    then obtain c where c: "parse_channel_required D root = POk c" by blast
    show ?thesis using channel_message_offered [OF ok, of c D root] by (cases c) (simp_all add: msg c trade_of_def book_of_def data n)
  next
    case False
    then show ?thesis using offered_idle [OF ok, of Ignored "[]"]
      by (cases "parse_channel_required D root") (simp_all add: msg trade_of_def book_of_def data n)
  qed
qed

lemma handler_effect:
  assumes "plane_queues_ok dp" and "kraken_on_message D msg dp = Some (dp', calls, res)"
  shows "plane_queues_ok dp' \<and>
    queued (dp_trades dp') = offer (trade_of D msg) (queued (dp_trades dp)) \<and>
    queued (dp_books dp') = offer (book_of D msg) (queued (dp_books dp)) \<and>
    queued (dp_rejections dp') = offer (notice_of D msg) (queued (dp_rejections dp)) \<and>
    (res = Backpressure \<longleftrightarrow> refuses (trade_of D msg) (queued (dp_trades dp)) \<or>
       refuses (book_of D msg) (queued (dp_books dp)) \<or> refuses (notice_of D msg) (queued (dp_rejections dp)))"
proof (cases "root_of D msg")
  case None
  then have "trade_of D msg = None" "book_of D msg = None" "notice_of D msg = None" "dp' = dp" "res \<noteq> Backpressure"
    using assms(2) by (auto simp: trade_of_def book_of_def notice_of_def data_root_def kraken_on_message_def parse_and_route_def root_of_def split: if_splits)
  then show ?thesis using assms(1) by (simp add: offer_def refuses_def)
next
  case (Some root)
  then show ?thesis using root_offered [OF assms(1) Some] assms(2) by (auto simp: offered_def plane_offered_def)
qed


text \<open>C17: the data plane receives exactly what the exchange sent. Whatever the input, each queue of the data plane is offered the trade, the book or the rejection
  that the input carries, and nothing else: it is appended if there is room for it. The result is \<^verbatim>\<open>Backpressure\<close> exactly when the message was
  refused by a full queue, and then it is lost.\<close>

theorem handler_queues_messages:
  assumes "plane_queues_ok dp" and "kraken_on_message D msg dp = Some (dp', calls, res)"
  shows "plane_queues_ok dp' \<and>
    queued (dp_trades dp') = offer (trade_of D msg) (queued (dp_trades dp)) \<and>
    queued (dp_books dp') = offer (book_of D msg) (queued (dp_books dp)) \<and>
    queued (dp_rejections dp') = offer (notice_of D msg) (queued (dp_rejections dp)) \<and>
    (res = Backpressure \<longleftrightarrow> refuses (trade_of D msg) (queued (dp_trades dp)) \<or>
       refuses (book_of D msg) (queued (dp_books dp)) \<or> refuses (notice_of D msg) (queued (dp_rejections dp)))"
  using handler_effect [OF assms] .

lemma queue_ok_init: "length buf = 1024 \<Longrightarrow> queue_ok (spsc_init buf) \<and> queued (spsc_init buf) = []"
proof -
  assume "length buf = 1024"
  moreover have "cap_ok DEFAULT_RING_CAPACITY"
    by (auto simp: cap_ok_def DEFAULT_RING_CAPACITY_def intro!: exI [of _ 10])
  ultimately have ok: "queue_ok (spsc_init buf)"
    by (simp add: queue_ok_def spsc_ok_init DEFAULT_RING_CAPACITY_def)
  have "spsc_empty (spsc_init buf)" by (simp add: spsc_empty_def spsc_init_def)
  then show ?thesis using ok spsc.empty_iff [of DEFAULT_RING_CAPACITY "spsc_init buf"] by (simp add: queue_ok_def)
qed

lemma sample_plane_queues: "plane_queues_ok sample_plane" "queued (dp_trades sample_plane) = []" "queued (dp_books sample_plane) = []"
  "queued (dp_rejections sample_plane) = []"
  by (simp_all add: plane_queues_ok_def sample_plane_def queue_ok_init)

theorem handler_queues_messages_witness:
  "\<exists>dp' calls res. kraken_on_message sample_exchange ''trade'' sample_plane = Some (dp', calls, res) \<and>
     trade_of sample_exchange ''trade'' = Some sample_response \<and> queued (dp_trades dp') = [sample_response] \<and> res \<noteq> Backpressure"
proof -
  obtain dp' ok where p: "push_trade sample_plane sample_response = (dp', ok)" by fastforce
  then have m: "kraken_on_message sample_exchange ''trade'' sample_plane = Some (dp', [], if ok then Delivered else Backpressure)"
    using sample_messages(3) [of sample_plane] by simp
  have "offer (Some sample_response) (queued (dp_trades sample_plane)) = queued (dp_trades dp')" "ok"
    using push_offered(1) [OF sample_plane_queues(1) p] by (simp_all add: plane_offered_def refuses_def sample_plane_queues QUEUE_ROOM_def)
  moreover have t: "trade_of sample_exchange ''trade'' = Some sample_response"
    by (simp add: trade_of_def data_root_def root_of_def sample_exchange_def sample_dom_def sample_trade_doc_def parser_eval
        parse_trade_response_def parse_trade_object_def sample_timestamp sample_payload sample_response_def Let_def)
  ultimately show ?thesis
    using handler_queues_messages [OF sample_plane_queues(1) m] m by (simp add: offer_def sample_plane_queues QUEUE_ROOM_def)
qed

section \<open>Every queued message is well formed\<close>

definition name_ok :: "symbol \<Rightarrow> bool" where
  "name_ok s \<longleftrightarrow> s \<noteq> [] \<and> length s \<le> MAX_SYMBOL_LENGTH"

definition trade_ok :: "'d trade_response \<Rightarrow> bool" where
  "trade_ok r \<longleftrightarrow> tr_type r \<noteq> PayloadUnknown \<and> tr_trades r \<noteq> [] \<and>
     (\<forall>t \<in> set (tr_trades r). name_ok (kt_symbol t) \<and> kt_side t \<noteq> SideUnknown \<and> kt_ord_type t \<noteq> Some OrderUnknown)"

definition book_ok :: "'d book_response \<Rightarrow> bool" where
  "book_ok r \<longleftrightarrow> br_type r \<noteq> PayloadUnknown \<and> name_ok (kb_symbol (br_book r))"

definition notice_ok :: "notice \<Rightarrow> bool" where
  "notice_ok n \<longleftrightarrow> (\<forall>s. no_symbol n = Some s \<longrightarrow> name_ok s)"

definition plane_messages_ok :: "'d data_plane \<Rightarrow> bool" where
  "plane_messages_ok dp \<longleftrightarrow> plane_queues_ok dp \<and> (\<forall>r \<in> set (queued (dp_trades dp)). trade_ok r) \<and>
     (\<forall>r \<in> set (queued (dp_books dp)). book_ok r) \<and> (\<forall>n \<in> set (queued (dp_rejections dp)). notice_ok n)"

lemma adapters_known:
  "parse_side_required D e k = POk side \<Longrightarrow> side \<noteq> SideUnknown"
  "parse_payload_type_required D e k = POk ty \<Longrightarrow> ty \<noteq> PayloadUnknown"
  "parse_order_type_optional D e k = POk ot \<Longrightarrow> ot \<noteq> Some OrderUnknown"
  by (auto simp: parse_side_required_def parse_payload_type_required_def parse_order_type_optional_def bindp_ok Let_def
      split: if_splits option.splits)

lemma trade_objects_ok:
  "parse_trade_objects D es = POk ts \<Longrightarrow> length ts = length es \<and>
     (\<forall>t \<in> set ts. name_ok (kt_symbol t) \<and> kt_side t \<noteq> SideUnknown \<and> kt_ord_type t \<noteq> Some OrderUnknown)"
proof (induction es arbitrary: ts)
  case (Cons e es)
  then obtain t ts' where t: "parse_trade_object D e = POk t" "parse_trade_objects D es = POk ts'" "ts = t # ts'" by (auto simp: bindp_ok)
  have "name_ok (kt_symbol t) \<and> kt_side t \<noteq> SideUnknown \<and> kt_ord_type t \<noteq> Some OrderUnknown"
    using t(1) by (auto simp: parse_trade_object_def bindp_ok symbol_required_ok name_ok_def dest: adapters_known split: if_splits)
  then show ?case using Cons.IH [OF t(2)] t(3) by simp
qed simp

lemma messages_ok:
  "trade_of D msg = Some r \<Longrightarrow> trade_ok r" "book_of D msg = Some b \<Longrightarrow> book_ok b" "notice_of D msg = Some n \<Longrightarrow> notice_ok n"
proof -
  assume "trade_of D msg = Some r"
  then obtain root where "parse_trade_response D root = POk r"
    by (auto simp: trade_of_def bind_eq_Some_conv elim!: parsed_value.elims)
  then show "trade_ok r"
    by (auto simp: parse_trade_response_def bindp_ok trade_ok_def dest!: trade_objects_ok dest: adapters_known split: if_splits)
next
  assume "book_of D msg = Some b"
  then obtain root where "parse_book_response D root = POk b"
    by (auto simp: book_of_def bind_eq_Some_conv elim!: parsed_value.elims)
  then show "book_ok b"
    by (auto simp: parse_book_response_def parse_book_def bindp_ok book_ok_def symbol_required_ok name_ok_def Let_def
        dest: adapters_known split: if_splits prod.splits)
next
  assume "notice_of D msg = Some n"
  then obtain root where "parse_rejection_notice D root = POk n"
    by (auto simp: notice_of_def elim!: parsed_value.elims split: option.splits if_splits)
  then show "notice_ok n" using rejection_ok by (fastforce simp: notice_ok_def name_ok_def)
qed

lemma set_offer: "(\<forall>x \<in> set q. P x) \<Longrightarrow> (\<And>x. m = Some x \<Longrightarrow> P x) \<Longrightarrow> \<forall>x \<in> set (offer m q). P x"
  by (cases m) (auto simp: offer_def)

lemma handler_messages_ok:
  assumes "plane_messages_ok dp" and "kraken_on_message D msg dp = Some (dp', calls, res)"
  shows "plane_messages_ok dp'"
proof -
  have ok: "plane_queues_ok dp" and t: "\<forall>r \<in> set (queued (dp_trades dp)). trade_ok r" and b: "\<forall>r \<in> set (queued (dp_books dp)). book_ok r"
    and n: "\<forall>n \<in> set (queued (dp_rejections dp)). notice_ok n" using assms(1) by (simp_all add: plane_messages_ok_def)
  note e = handler_effect [OF ok assms(2)]
  show ?thesis
    using e set_offer [OF t messages_ok(1) [of D msg]] set_offer [OF b messages_ok(2) [of D msg]] set_offer [OF n messages_ok(3) [of D msg]]
    by (simp add: plane_messages_ok_def)
qed

end
