(* ===== verification/Lite_Client.thy ===== *)
theory Lite_Client
  imports Lite_Dispatch Kraken_Plane Session_Run
begin

text \<open>
  The Lite client (src/lite/kraken/client.cpp): the session with its Kraken handler, the partitioner and the two dispatchers. An operation
  returns the new client and the calls it makes into user code, in order; \<open>None\<close> is the end of the process, on a failed assertion or
  in the handler. User code is not modelled: a callback returns and does not call the client.
\<close>

section \<open>State and operations\<close>

record ('c, 'd) lite_client =
  lc_session :: session
  lc_plane :: "'d data_plane"
  lc_buckets :: "'d buckets"
  lc_trades :: "'c dispatcher"
  lc_books :: "'c dispatcher"
  lc_error_cb :: "'c option"

datatype ('c, 'd) user_call =
    TradeCall 'c "'d lite_trade"
  | BookCall 'c "'d lite_level"
  | ErrorCall 'c lite_error

text \<open>The queues of a new data plane are empty; what their slots hold is never read.\<close>

definition Lite_init :: "u64 \<Rightarrow> int \<Rightarrow> 'd data_plane \<Rightarrow> ('c, 'd) lite_client" where
  "Lite_init now conn_now dp = \<lparr>lc_session = Session_init now conn_now, lc_plane = dp, lc_buckets = [], lc_trades = [], lc_books = [],
     lc_error_cb = None\<rparr>"

definition client_connect :: "session_policy \<Rightarrow> conn_env \<Rightarrow> string \<Rightarrow> ('c, 'd) lite_client \<Rightarrow> ('c, 'd) lite_client \<times> bool" where
  "client_connect pol env endpoint c =
     (case session_connect pol env endpoint (lc_session c) of (s, ok) \<Rightarrow> (c\<lparr>lc_session := s\<rparr>, ok))"

definition client_on_error :: "'c option \<Rightarrow> ('c, 'd) lite_client \<Rightarrow> ('c, 'd) lite_client" where
  "client_on_error cb c = c\<lparr>lc_error_cb := cb\<rparr>"

text \<open>The debug build asserts that there is room in the vector and that each name fits a \<^verbatim>\<open>Symbol\<close>.\<close>

definition to_request_symbols :: "string list \<Rightarrow> symbol list option" where
  "to_request_symbols src =
     (if length src \<le> MAX_REQUEST_SYMBOLS \<and> (\<forall>s \<in> set src. length s \<le> MAX_SYMBOL_LENGTH) then Some src else None)"

definition subscribe_trades ::
  "(symbol \<Rightarrow> symbol_id) \<Rightarrow> session_policy \<Rightarrow> u64 \<Rightarrow> send_env \<Rightarrow> string list \<Rightarrow> 'c \<Rightarrow> bool \<Rightarrow> ('c, 'd) lite_client \<Rightarrow> ('c, 'd) lite_client option" where
  "subscribe_trades intern pol now senv symbols cb snapshot c =
     (case to_request_symbols symbols of
        None \<Rightarrow> None
      | Some symbols_for_core \<Rightarrow>
          (case session_subscribe intern pol now senv TradeDomain
              \<lparr>req_symbols = symbols_for_core, req_req_id = None, req_params = TradeParams (Some snapshot)\<rparr> (lc_session c) of
             None \<Rightarrow> None
           | Some (s, _) \<Rightarrow> Some (c\<lparr>lc_session := s, lc_trades := dispatcher_add intern symbols cb (lc_trades c)\<rparr>)))"

definition unsubscribe_trades ::
  "(symbol \<Rightarrow> symbol_id) \<Rightarrow> session_policy \<Rightarrow> u64 \<Rightarrow> send_env \<Rightarrow> string list \<Rightarrow> ('c, 'd) lite_client \<Rightarrow> ('c, 'd) lite_client option" where
  "unsubscribe_trades intern pol now senv symbols c =
     (case to_request_symbols symbols of
        None \<Rightarrow> None
      | Some symbols_for_core \<Rightarrow>
          (case session_unsubscribe intern pol now senv TradeDomain symbols_for_core None TradeUnsub (lc_session c) of
             None \<Rightarrow> None
           | Some (s, _) \<Rightarrow> Some (c\<lparr>lc_session := s, lc_trades := dispatcher_remove_all intern symbols (lc_trades c)\<rparr>)))"

definition subscribe_book ::
  "(symbol \<Rightarrow> symbol_id) \<Rightarrow> session_policy \<Rightarrow> u64 \<Rightarrow> send_env \<Rightarrow> string list \<Rightarrow> 'c \<Rightarrow> bool \<Rightarrow> ('c, 'd) lite_client \<Rightarrow> ('c, 'd) lite_client option" where
  "subscribe_book intern pol now senv symbols cb snapshot c =
     (case to_request_symbols symbols of
        None \<Rightarrow> None
      | Some symbols_for_core \<Rightarrow>
          (case session_subscribe intern pol now senv BookDomain
              \<lparr>req_symbols = symbols_for_core, req_req_id = None, req_params = BookParams None (Some snapshot)\<rparr> (lc_session c) of
             None \<Rightarrow> None
           | Some (s, _) \<Rightarrow> Some (c\<lparr>lc_session := s, lc_books := dispatcher_add intern symbols cb (lc_books c)\<rparr>)))"

definition unsubscribe_book ::
  "(symbol \<Rightarrow> symbol_id) \<Rightarrow> session_policy \<Rightarrow> u64 \<Rightarrow> send_env \<Rightarrow> string list \<Rightarrow> ('c, 'd) lite_client \<Rightarrow> ('c, 'd) lite_client option" where
  "unsubscribe_book intern pol now senv symbols c =
     (case to_request_symbols symbols of
        None \<Rightarrow> None
      | Some symbols_for_core \<Rightarrow>
          (case session_unsubscribe intern pol now senv BookDomain symbols_for_core None (BookUnsub None) (lc_session c) of
             None \<Rightarrow> None
           | Some (s, _) \<Rightarrow> Some (c\<lparr>lc_session := s, lc_books := dispatcher_remove_all intern symbols (lc_books c)\<rparr>)))"

text \<open>The callbacks of the three drains of \<^verbatim>\<open>poll\<close>.\<close>

definition client_rejection :: "(symbol \<Rightarrow> symbol_id) \<Rightarrow> notice \<Rightarrow> ('c, 'd) lite_client \<Rightarrow> ('c, 'd) lite_client \<times> ('c, 'd) user_call list" where
  "client_rejection intern n c =
     (let c1 = (case no_symbol n of
                  None \<Rightarrow> c
                | Some s \<Rightarrow> c\<lparr>lc_trades := dispatcher_remove intern (c_str s) (lc_trades c),
                              lc_books := dispatcher_remove intern (c_str s) (lc_books c)\<rparr>) in
      (c1, case lc_error_cb c1 of
             None \<Rightarrow> []
           | Some cb \<Rightarrow> [ErrorCall cb \<lparr>le_code = ErrRejected, le_message = no_error n\<rparr>]))"

definition dispatch_view :: "(symbol \<Rightarrow> symbol_id) \<Rightarrow> 'c dispatcher \<Rightarrow> 'd response_view \<Rightarrow> ('c, 'd) user_call list" where
  "dispatch_view intern d v =
     concat (map (\<lambda>cb. map (\<lambda>t. TradeCall cb (to_lite_trade (rv_type v) t)) (rv_trades v)) (dispatcher_dispatch intern (rv_symbol v) d))"

definition client_trade :: "(symbol \<Rightarrow> symbol_id) \<Rightarrow> 'd trade_response \<Rightarrow> ('c, 'd) lite_client \<Rightarrow> ('c, 'd) lite_client \<times> ('c, 'd) user_call list" where
  "client_trade intern r c =
     (case classify r (lc_buckets c) of (bs, views) \<Rightarrow>
        (c\<lparr>lc_buckets := bs\<rparr>, concat (map (dispatch_view intern (lc_trades c)) views)))"

definition client_book :: "(symbol \<Rightarrow> symbol_id) \<Rightarrow> 'd book_response \<Rightarrow> ('c, 'd) lite_client \<Rightarrow> ('c, 'd) lite_client \<times> ('c, 'd) user_call list" where
  "client_book intern r c =
     (c, concat (map (\<lambda>cb. map (BookCall cb) (emit_book_levels r)) (dispatcher_dispatch intern (kb_symbol (br_book r)) (lc_books c))))"

fun for_each :: "('m \<Rightarrow> 's \<Rightarrow> 's \<times> 'o list) \<Rightarrow> 'm list \<Rightarrow> 's \<Rightarrow> 's \<times> 'o list" where
  "for_each f [] s = (s, [])"
| "for_each f (m # ms) s = (case f m s of (s1, os) \<Rightarrow> (case for_each f ms s1 of (s2, os') \<Rightarrow> (s2, os @ os')))"

text \<open>The part of \<^verbatim>\<open>poll\<close> after the poll of the session.\<close>

definition client_dispatch :: "(symbol \<Rightarrow> symbol_id) \<Rightarrow> ('c, 'd) lite_client \<Rightarrow> (('c, 'd) lite_client \<times> ('c, 'd) user_call list) option" where
  "client_dispatch intern c =
     Option.bind (bus_drain (dp_rejections (lc_plane c))) (\<lambda>(ns, qn).
     let (c1, es) = for_each (client_rejection intern) ns (c\<lparr>lc_plane := (lc_plane c)\<lparr>dp_rejections := qn\<rparr>\<rparr>) in
     Option.bind (bus_drain (dp_trades (lc_plane c1))) (\<lambda>(rs, qt).
     let (c2, ts) = for_each (client_trade intern) rs (c1\<lparr>lc_plane := (lc_plane c1)\<lparr>dp_trades := qt\<rparr>\<rparr>) in
     Option.bind (bus_drain (dp_books (lc_plane c2))) (\<lambda>(bs, qb).
     let (c3, ls) = for_each (client_book intern) bs (c2\<lparr>lc_plane := (lc_plane c2)\<lparr>dp_books := qb\<rparr>\<rparr>) in
     Some (c3, es @ ts @ ls))))"

definition client_poll ::
  "(symbol \<Rightarrow> symbol_id) \<Rightarrow> session_policy \<Rightarrow> u64 \<Rightarrow> conn_env \<Rightarrow> send_env \<Rightarrow> int \<Rightarrow> ('e, 'd) dom \<Rightarrow> ('c, 'd) lite_client \<Rightarrow>
   (('c, 'd) lite_client \<times> ('c, 'd) user_call list) option" where
  "client_poll intern pol now env senv rx_now D c =
     (case session_poll intern pol now env senv rx_now (kraken_handler D) (lc_session c) (Some (lc_plane c)) of
        Some (s, Some dp, _) \<Rightarrow> client_dispatch intern (c\<lparr>lc_session := s, lc_plane := dp\<rparr>)
      | _ \<Rightarrow> None)"

definition client_is_idle :: "session_policy \<Rightarrow> int \<Rightarrow> u64 \<Rightarrow> ('c, 'd) lite_client \<Rightarrow> bool" where
  "client_is_idle pol conn_now now c \<longleftrightarrow>
     session_is_idle pol conn_now now (bus_empty (lc_plane c)) (lc_session c) \<and>
     dispatcher_is_idle (lc_trades c) \<and> dispatcher_is_idle (lc_books c)"

text \<open>\<^verbatim>\<open>run_until_idle\<close> over the environments of its polls: the calls and whether it returned.\<close>

fun run_until_idle ::
  "(symbol \<Rightarrow> symbol_id) \<Rightarrow> session_policy \<Rightarrow> ('e, 'd) dom \<Rightarrow> (u64 \<times> conn_env \<times> send_env \<times> int \<times> int) list \<Rightarrow> ('c, 'd) lite_client \<Rightarrow>
   (('c, 'd) lite_client \<times> ('c, 'd) user_call list \<times> bool) option" where
  "run_until_idle intern pol D [] c = Some (c, [], False)"
| "run_until_idle intern pol D ((now, env, senv, rx_now, conn_now) # rest) c =
     (case client_poll intern pol now env senv rx_now D c of
        None \<Rightarrow> None
      | Some (c1, calls) \<Rightarrow>
          if client_is_idle pol conn_now now c1 then Some (c1, calls, True)
          else map_option (\<lambda>(c2, calls', r). (c2, calls @ calls', r)) (run_until_idle intern pol D rest c1))"

section \<open>What a poll delivers\<close>

definition client_ok :: "('c, 'd) lite_client \<Rightarrow> bool" where
  "client_ok c \<longleftrightarrow> plane_queues_ok (lc_plane c) \<and> buckets_ok (lc_buckets c) \<and> dispatcher_ok (lc_trades c) \<and> dispatcher_ok (lc_books c)"

definition plain_name :: "symbol \<Rightarrow> bool" where "plain_name s \<longleftrightarrow> CHR 0x00 \<notin> set s"

lemma c_str_plain [simp]: "plain_name s \<Longrightarrow> c_str s = s"
  by (auto simp: c_str_def plain_name_def)

definition rejected_names :: "notice list \<Rightarrow> string list" where
  "rejected_names ns = map c_str (List.map_filter no_symbol ns)"

definition error_calls :: "'c option \<Rightarrow> notice \<Rightarrow> ('c, 'd) user_call list" where
  "error_calls cb n = (case cb of None \<Rightarrow> [] | Some f \<Rightarrow> [ErrorCall f \<lparr>le_code = ErrRejected, le_message = no_error n\<rparr>])"

definition trade_calls :: "'c list \<Rightarrow> symbol \<Rightarrow> 'd trade_response \<Rightarrow> ('c, 'd) user_call list" where
  "trade_calls cbs s r =
     concat (map (\<lambda>cb. map (\<lambda>t. TradeCall cb (to_lite_trade (tr_type r) t)) (filter (\<lambda>t. kt_symbol t = s) (tr_trades r))) cbs)"

definition book_calls :: "'c list \<Rightarrow> symbol \<Rightarrow> 'd book_response \<Rightarrow> ('c, 'd) user_call list" where
  "book_calls cbs s r = (if kb_symbol (br_book r) = s then concat (map (\<lambda>cb. map (BookCall cb) (emit_book_levels r)) cbs) else [])"

text \<open>The calls that concern a symbol on a channel.\<close>

fun concerns :: "domain \<Rightarrow> symbol \<Rightarrow> ('c, 'd) user_call \<Rightarrow> bool" where
  "concerns d s (TradeCall cb t) \<longleftrightarrow> d = TradeDomain \<and> lt_symbol t = s"
| "concerns d s (BookCall cb l) \<longleftrightarrow> d = BookDomain \<and> ll_symbol l = s"
| "concerns d s (ErrorCall cb e) \<longleftrightarrow> False"

fun is_error :: "('c, 'd) user_call \<Rightarrow> bool" where
  "is_error (ErrorCall cb e) = True"
| "is_error _ = False"

lemma remove_all_Cons: "dispatcher_remove_all intern (s # ss) d = dispatcher_remove_all intern ss (dispatcher_remove intern s d)"
  unfolding dispatcher_remove_one by (simp add: dispatcher_remove_all_def)

lemma for_each_rejections:
  "for_each (client_rejection intern) ns c =
     (c\<lparr>lc_trades := dispatcher_remove_all intern (rejected_names ns) (lc_trades c),
        lc_books := dispatcher_remove_all intern (rejected_names ns) (lc_books c)\<rparr>, concat (map (error_calls (lc_error_cb c)) ns))"
proof (induction ns arbitrary: c)
  case (Cons n ns)
  then show ?case
    by (cases "no_symbol n") (simp_all add: client_rejection_def rejected_names_def List.map_filter_simps remove_all_Cons error_calls_def)
qed (simp add: rejected_names_def dispatcher_remove_all_def List.map_filter_simps)

lemma dispatch_is_callbacks: "dispatcher_dispatch intern s d = callbacks d (intern s)"
  by (simp add: dispatcher_dispatch_def callbacks_def)

lemma filter_concat_map: "filter P (concat (map f xs)) = concat (map (\<lambda>x. filter P (f x)) xs)"
  by (induction xs) simp_all

lemma concat_map_single:
  "distinct (map k xs) \<Longrightarrow> concat (map (\<lambda>x. if k x = a then ys else []) xs) = (if a \<in> k ` set xs then ys else [])"
  by (induction xs) auto

text \<open>The calls of one response for one symbol: the other views do not concern it, also those that are left over from earlier responses.\<close>

lemma client_trade_calls:
  assumes "buckets_ok (lc_buckets c)" "\<forall>t \<in> set (tr_trades r). plain_name (kt_symbol t)" "client_trade intern r c = (c', calls)"
  shows "\<exists>bs. c' = c\<lparr>lc_buckets := bs\<rparr> \<and> buckets_ok bs"
    "filter (concerns TradeDomain s) calls = trade_calls (callbacks (lc_trades c) (intern s)) s r"
    "filter (concerns BookDomain s) calls = []" "filter is_error calls = []"
proof -
  obtain bs vs where p: "classify r (lc_buckets c) = (bs, vs)" by fastforce
  then have c': "c' = c\<lparr>lc_buckets := bs\<rparr>" and calls: "calls = concat (map (dispatch_view intern (lc_trades c)) vs)"
    using assms(3) by (simp_all add: client_trade_def)
  show "\<exists>bs. c' = c\<lparr>lc_buckets := bs\<rparr> \<and> buckets_ok bs" using c' classify_ok [OF assms(1) p] by blast
  show "filter (concerns BookDomain s) calls = []" "filter is_error calls = []"
    by (auto simp: calls dispatch_view_def filter_empty_conv)
  note V = classify_views [OF assms(1) p]
  let ?cbs = "callbacks (lc_trades c) (intern s)"
  have one: "filter (concerns TradeDomain s) (dispatch_view intern (lc_trades c) v) = (if rv_symbol v = s then trade_calls ?cbs s r else [])"
    if "v \<in> set vs" for v
  proof -
    have v: "rv_type v = tr_type r" "rv_trades v = filter (\<lambda>t. kt_symbol t = rv_symbol v) (tr_trades r)"
      using V(2) [of v] that by (metis response_view.select_convs(2,3))+
    have n: "lt_symbol (to_lite_trade ty t) = rv_symbol v" if "t \<in> set (rv_trades v)" for t ty
      using that assms(2) by (auto simp: v(2) to_lite_trade_def)
    show ?thesis
    proof (cases "rv_symbol v = s")
      case True
      then have "filter (concerns TradeDomain s) (dispatch_view intern (lc_trades c) v) = dispatch_view intern (lc_trades c) v"
        using n by (auto simp: dispatch_view_def filter_id_conv)
      then show ?thesis using True by (simp add: dispatch_view_def trade_calls_def v dispatch_is_callbacks)
    next
      case False
      then show ?thesis using n by (auto simp: dispatch_view_def filter_empty_conv)
    qed
  qed
  have "filter (concerns TradeDomain s) calls = concat (map (\<lambda>v. if rv_symbol v = s then trade_calls ?cbs s r else []) vs)"
    unfolding calls filter_concat_map using one by (intro arg_cong [where f = concat] map_cong refl)
  also have "\<dots> = (if s \<in> rv_symbol ` set vs then trade_calls ?cbs s r else [])" by (rule concat_map_single [OF V(1)])
  also have "\<dots> = trade_calls ?cbs s r"
  proof (cases "s \<in> rv_symbol ` set vs")
    case False
    let ?v = "\<lparr>rv_symbol = s, rv_type = tr_type r, rv_trades = filter (\<lambda>t. kt_symbol t = s) (tr_trades r)\<rparr>"
    have "?v \<notin> set vs" using False by (metis image_eqI response_view.select_convs(1))
    then have "s \<notin> kt_symbol ` set (tr_trades r)" using V(2) [of ?v] by simp
    then have "filter (\<lambda>t. kt_symbol t = s) (tr_trades r) = []" by (auto simp: filter_empty_conv)
    then show ?thesis by (simp add: trade_calls_def)
  qed simp
  finally show "filter (concerns TradeDomain s) calls = trade_calls ?cbs s r" .
qed

lemma for_each_trades:
  "buckets_ok (lc_buckets c) \<Longrightarrow> \<forall>r \<in> set rs. \<forall>t \<in> set (tr_trades r). plain_name (kt_symbol t) \<Longrightarrow>
   for_each (client_trade intern) rs c = (c', calls) \<Longrightarrow>
   (\<exists>bs. c' = c\<lparr>lc_buckets := bs\<rparr> \<and> buckets_ok bs) \<and>
   filter (concerns TradeDomain s) calls = concat (map (trade_calls (callbacks (lc_trades c) (intern s)) s) rs) \<and>
   filter (concerns BookDomain s) calls = [] \<and> filter is_error calls = []"
proof (induction rs arbitrary: c calls)
  case (Cons r rs)
  obtain c1 k1 where 1: "client_trade intern r c = (c1, k1)" by fastforce
  obtain k2 where 2: "for_each (client_trade intern) rs c1 = (c', k2)" "calls = k1 @ k2"
    using Cons.prems(3) 1 by (auto split: prod.splits)
  have plain: "\<forall>t \<in> set (tr_trades r). plain_name (kt_symbol t)" using Cons.prems(2) by simp
  note T = client_trade_calls(2,3) [OF Cons.prems(1) plain 1, of s] client_trade_calls(1,4) [OF Cons.prems(1) plain 1]
  obtain bs where bs: "c1 = c\<lparr>lc_buckets := bs\<rparr>" "buckets_ok bs" using T(3) by blast
  have "buckets_ok (lc_buckets c1)" "\<forall>r \<in> set rs. \<forall>t \<in> set (tr_trades r). plain_name (kt_symbol t)" using Cons.prems(2) bs by simp_all
  from Cons.IH [OF this 2(1)] show ?case using T(1,2,4) by (auto simp: 2(2) bs(1))
qed (auto intro!: exI [of _ "lc_buckets c'"])

lemma for_each_books:
  "\<forall>r \<in> set rs. plain_name (kb_symbol (br_book r)) \<Longrightarrow> for_each (client_book intern) rs c = (c', calls) \<Longrightarrow>
   c' = c \<and> filter (concerns BookDomain s) calls = concat (map (book_calls (callbacks (lc_books c) (intern s)) s) rs) \<and>
   filter (concerns TradeDomain s) calls = [] \<and> filter is_error calls = []"
proof (induction rs arbitrary: calls)
  case (Cons r rs)
  have b: "client_book intern r c = (c, snd (client_book intern r c))" by (simp add: client_book_def)
  then obtain k2 where 2: "for_each (client_book intern) rs c = (c', k2)" "calls = snd (client_book intern r c) @ k2"
    using Cons.prems(2) by (subst (asm) for_each.simps, subst (asm) (2) b) (auto split: prod.splits)
  have n: "ll_symbol l = kb_symbol (br_book r)" if "l \<in> set (emit_book_levels r)" for l
    using that Cons.prems(1) by (auto simp: emit_book_levels_def to_lite_level_def)
  have "filter (concerns BookDomain s) (snd (client_book intern r c)) = book_calls (callbacks (lc_books c) (intern s)) s r"
    using n by (auto simp: client_book_def book_calls_def dispatch_is_callbacks filter_id_conv filter_empty_conv)
  moreover have "filter (concerns TradeDomain s) (snd (client_book intern r c)) = []" "filter is_error (snd (client_book intern r c)) = []"
    by (auto simp: client_book_def filter_empty_conv)
  ultimately show ?case using Cons.IH [OF _ 2(1)] Cons.prems(1) by (simp add: 2(2))
qed simp

definition plane_names_plain :: "'d data_plane \<Rightarrow> bool" where
  "plane_names_plain dp \<longleftrightarrow> (\<forall>r \<in> set (queued (dp_trades dp)). \<forall>t \<in> set (tr_trades r). plain_name (kt_symbol t)) \<and>
     (\<forall>r \<in> set (queued (dp_books dp)). plain_name (kb_symbol (br_book r)))"

text \<open>What one round of dispatching does: the contract that the polls rest on.\<close>

definition delivered :: "(symbol \<Rightarrow> symbol_id) \<Rightarrow> ('c, 'd) lite_client \<Rightarrow> ('c, 'd) lite_client \<Rightarrow> ('c, 'd) user_call list \<Rightarrow> bool" where
  "delivered intern c c' calls \<longleftrightarrow>
     filter is_error calls = concat (map (error_calls (lc_error_cb c)) (queued (dp_rejections (lc_plane c)))) \<and>
     (\<forall>s. filter (concerns TradeDomain s) calls =
          concat (map (trade_calls (callbacks (lc_trades c') (intern s)) s) (queued (dp_trades (lc_plane c)))) \<and>
        filter (concerns BookDomain s) calls =
          concat (map (book_calls (callbacks (lc_books c') (intern s)) s) (queued (dp_books (lc_plane c)))))"

lemma client_dispatch_facts:
  assumes "client_ok c" "plane_names_plain (lc_plane c)"
  shows "\<exists>c' calls. client_dispatch intern c = Some (c', calls) \<and> client_ok c' \<and> bus_empty (lc_plane c') \<and> delivered intern c c' calls \<and>
    lc_session c' = lc_session c \<and> lc_error_cb c' = lc_error_cb c \<and>
    lc_trades c' = dispatcher_remove_all intern (rejected_names (queued (dp_rejections (lc_plane c)))) (lc_trades c) \<and>
    lc_books c' = dispatcher_remove_all intern (rejected_names (queued (dp_rejections (lc_plane c)))) (lc_books c)"
proof -
  let ?dp = "lc_plane c"
  have q: "queue_ok (dp_rejections ?dp)" "queue_ok (dp_trades ?dp)" "queue_ok (dp_books ?dp)"
    using assms(1) by (simp_all add: client_ok_def plane_queues_ok_def)
  obtain qn where n: "bus_drain (dp_rejections ?dp) = Some (queued (dp_rejections ?dp), qn)" "queue_ok qn" "queued qn = []"
    using bus_drain_spec [OF q(1)] by blast
  obtain qt where t: "bus_drain (dp_trades ?dp) = Some (queued (dp_trades ?dp), qt)" "queue_ok qt" "queued qt = []"
    using bus_drain_spec [OF q(2)] by blast
  obtain qb where b: "bus_drain (dp_books ?dp) = Some (queued (dp_books ?dp), qb)" "queue_ok qb" "queued qb = []"
    using bus_drain_spec [OF q(3)] by blast
  let ?gone = "rejected_names (queued (dp_rejections ?dp))"
  let ?c1 = "c\<lparr>lc_trades := dispatcher_remove_all intern ?gone (lc_trades c), lc_books := dispatcher_remove_all intern ?gone (lc_books c),
    lc_plane := ?dp\<lparr>dp_rejections := qn, dp_trades := qt\<rparr>\<rparr>"
  obtain c2 ts where r: "for_each (client_trade intern) (queued (dp_trades ?dp)) ?c1 = (c2, ts)" by fastforce
  have "buckets_ok (lc_buckets ?c1)" "\<forall>r \<in> set (queued (dp_trades ?dp)). \<forall>t \<in> set (tr_trades r). plain_name (kt_symbol t)"
    using assms by (simp_all add: client_ok_def plane_names_plain_def)
  note T = for_each_trades [OF this r]
  obtain bs where c2: "c2 = ?c1\<lparr>lc_buckets := bs\<rparr>" "buckets_ok bs" using T by blast
  let ?c3 = "c2\<lparr>lc_plane := (lc_plane c2)\<lparr>dp_books := qb\<rparr>\<rparr>"
  obtain c3 ls where l: "for_each (client_book intern) (queued (dp_books ?dp)) ?c3 = (c3, ls)" by fastforce
  have "\<forall>r \<in> set (queued (dp_books ?dp)). plain_name (kb_symbol (br_book r))" using assms(2) by (simp add: plane_names_plain_def)
  note B = for_each_books [OF this l]
  have c3: "c3 = ?c3" using B by blast
  let ?es = "concat (map (error_calls (lc_error_cb c)) (queued (dp_rejections ?dp)))"
  have eq: "client_dispatch intern c = Some (?c3, ?es @ ts @ ls)"
    using r l by (simp add: client_dispatch_def n(1) t(1) for_each_rejections c2(1) b(1) c3 Let_def)
  have e: "filter is_error ?es = ?es" "filter (concerns d s) ?es = []" for d s
    by (auto simp: error_calls_def filter_id_conv filter_empty_conv split: option.splits)
  have "delivered intern c ?c3 (?es @ ts @ ls)"
    using T B by (auto simp: delivered_def e c2(1))
  moreover have "client_ok ?c3"
    using assms(1) c2(2) n(2) t(2) b(2) by (simp add: client_ok_def plane_queues_ok_def c2(1) disp.remove_inv)
  moreover have "bus_empty (lc_plane ?c3)"
    using n t b by (simp add: bus_empty_def c2(1) queue_ok_def spsc.empty_iff [of DEFAULT_RING_CAPACITY])
  ultimately show ?thesis using eq by (intro exI [of _ ?c3] exI [of _ "?es @ ts @ ls"]) (simp add: c2(1))
qed

section \<open>The client over its session\<close>

text \<open>What every message keeps of the state of the handler, a poll keeps.\<close>

lemma process_messages_handler:
  assumes "\<And>h m. P h \<Longrightarrow> P (fst (handler h m))"
  shows "P h \<Longrightarrow> P (snd (process_messages intern pol now rx_now handler n s h))"
proof (induction n arbitrary: s h)
  case (Suc n)
  obtain c mo where p: "peek_message rx_now (s_conn s) = (c, mo)" by fastforce
  show ?case
  proof (cases mo)
    case (Some msg)
    obtain h' calls r where h: "handler h msg = (h', calls, r)" by (metis prod.exhaust)
    then have "P h'" using assms [OF Suc.prems, of msg] by simp
    then show ?thesis using Suc.IH by (simp add: p Some h Let_def)
  qed (use Suc.prems p in simp)
qed simp

lemma session_poll_handler:
  assumes "\<And>h m. P h \<Longrightarrow> P (fst (handler h m))" "P h" "session_poll intern pol now env senv rx_now handler s h = Some (s', h', e)"
  shows "P h'"
proof -
  obtain s2 s3 where "process_messages intern pol now rx_now handler MAX_MESSAGES_PER_POLL s2 h = (s3, h')"
    using assms(3) by (auto simp: session_poll_def Let_def split: option.splits prod.splits)
  then show ?thesis using process_messages_handler [of P handler, OF assms(1,2)] by (metis snd_conv)
qed

text \<open>An exchange is sound for a set of names when it only sends names of the set and no message on which the process ends.\<close>

definition sound_exchange :: "symbol set \<Rightarrow> ('e, 'd) dom \<Rightarrow> bool" where
  "sound_exchange K D \<longleftrightarrow> exchange_names K D \<and> (\<forall>msg root. dom_parse D msg = Some root \<longrightarrow> \<not> fatal_message D root) \<and>
     (\<forall>msg r t. trade_of D msg = Some r \<longrightarrow> t \<in> set (tr_trades r) \<longrightarrow> kt_symbol t \<in> K) \<and>
     (\<forall>msg r. book_of D msg = Some r \<longrightarrow> kb_symbol (br_book r) \<in> K) \<and>
     (\<forall>msg n s. notice_of D msg = Some n \<longrightarrow> no_symbol n = Some s \<longrightarrow> s \<in> K)"

definition plane_knows :: "symbol set \<Rightarrow> 'd data_plane \<Rightarrow> bool" where
  "plane_knows K dp \<longleftrightarrow> plane_queues_ok dp \<and> (\<forall>r \<in> set (queued (dp_trades dp)). kt_symbol ` set (tr_trades r) \<subseteq> K) \<and>
     (\<forall>r \<in> set (queued (dp_books dp)). kb_symbol (br_book r) \<in> K) \<and>
     (\<forall>n \<in> set (queued (dp_rejections dp)). \<forall>s. no_symbol n = Some s \<longrightarrow> s \<in> K)"

lemma handler_plane_knows:
  assumes "sound_exchange K D" "\<exists>dp. h = Some dp \<and> plane_knows K dp"
  shows "\<exists>dp. fst (kraken_handler D h m) = Some dp \<and> plane_knows K dp"
proof -
  obtain dp where dp: "h = Some dp" "plane_knows K dp" using assms(2) by blast
  have "kraken_on_message D m dp \<noteq> None" using on_message_none [of D m dp] assms(1) unfolding sound_exchange_def by blast
  then obtain dp' calls r where m: "kraken_on_message D m dp = Some (dp', calls, r)" by (metis option.exhaust prod_cases3)
  have "plane_queues_ok dp" using dp(2) by (simp add: plane_knows_def)
  note e = handler_effect [OF this m]
  have t: "\<forall>r \<in> set (offer (trade_of D m) (queued (dp_trades dp))). kt_symbol ` set (tr_trades r) \<subseteq> K"
    using assms(1) dp(2) by (intro set_offer) (auto simp: plane_knows_def sound_exchange_def)
  have b: "\<forall>r \<in> set (offer (book_of D m) (queued (dp_books dp))). kb_symbol (br_book r) \<in> K"
    using assms(1) dp(2) by (intro set_offer) (auto simp: plane_knows_def sound_exchange_def)
  have n: "\<forall>n \<in> set (offer (notice_of D m) (queued (dp_rejections dp))). \<forall>s. no_symbol n = Some s \<longrightarrow> s \<in> K"
    using assms(1) dp(2) by (intro set_offer) (auto simp: plane_knows_def sound_exchange_def)
  show ?thesis using e t b n by (simp add: kraken_handler_def dp(1) m plane_knows_def)
qed

definition lite_ok :: "symbol set \<Rightarrow> (symbol \<Rightarrow> symbol_id) \<Rightarrow> session_policy \<Rightarrow> ('c, 'd) lite_client \<Rightarrow> bool" where
  "lite_ok K intern pol c \<longleftrightarrow> client_ok c \<and> plane_knows K (lc_plane c) \<and> session_ok K intern pol (lc_session c)"

lemma session_poll_plane:
  assumes "lite_ok K intern pol c" "sound_exchange K D" "env_ok env" "policy_ok (sp_conn pol)" "inj_on intern K"
  obtains s dp e where "session_poll intern pol now env senv rx_now (kraken_handler D) (lc_session c) (Some (lc_plane c)) = Some (s, Some dp, e)"
    "session_ok K intern pol s" "plane_knows K dp"
proof -
  have s: "session_ok K intern pol (lc_session c)" "plane_knows K (lc_plane c)" using assms(1) by (simp_all add: lite_ok_def)
  have k: "handler_knows K (kraken_handler D)" using assms(2) by (simp add: sound_exchange_def kraken_handler_knows)
  obtain s' h' e where p: "session_poll intern pol now env senv rx_now (kraken_handler D) (lc_session c) (Some (lc_plane c)) = Some (s', h', e)"
    "session_ok K intern pol s'" using session_poll_ok [OF s(1) assms(3,4) k assms(5)] by blast
  have "\<exists>dp. h' = Some dp \<and> plane_knows K dp"
    by (rule session_poll_handler [where P = "\<lambda>h. \<exists>dp. h = Some dp \<and> plane_knows K dp", OF handler_plane_knows [OF assms(2)] _ p(1)])
      (use s(2) in simp_all)
  then show thesis using p that by blast
qed

section \<open>The messages of a poll\<close>

text \<open>A poll that starts with empty queues has room for every message it handles, so none is refused: the queues of the data plane
  are then filled by the messages that the connection held, up to the limit of a poll, in their order.\<close>

lemma bus_empty_iff:
  "plane_queues_ok dp \<Longrightarrow> bus_empty dp \<longleftrightarrow> queued (dp_trades dp) = [] \<and> queued (dp_books dp) = [] \<and> queued (dp_rejections dp) = []"
  by (simp add: bus_empty_def plane_queues_ok_def queue_ok_def spsc.empty_iff [of DEFAULT_RING_CAPACITY])

lemma offer_room: "length q < QUEUE_ROOM \<Longrightarrow> offer x q = q @ (case x of None \<Rightarrow> [] | Some m \<Rightarrow> [m])"
  by (cases x) (simp_all add: offer_def)

lemma context_calls_conn: "s_conn (fold (context_call intern pol now) calls s) = s_conn s"
proof (induction calls arbitrary: s)
  case (Cons call calls)
  have "s_conn (context_call intern pol now call s) = s_conn s" by (cases call) (simp_all add: handle_rejection_def Let_def)
  then show ?case using Cons by simp
qed simp

definition plane_room :: "nat \<Rightarrow> 'd data_plane \<Rightarrow> bool" where
  "plane_room n dp \<longleftrightarrow> length (queued (dp_trades dp)) + n \<le> QUEUE_ROOM \<and> length (queued (dp_books dp)) + n \<le> QUEUE_ROOM \<and>
     length (queued (dp_rejections dp)) + n \<le> QUEUE_ROOM"

definition filled_from :: "('e, 'd) dom \<Rightarrow> string list \<Rightarrow> 'd data_plane \<Rightarrow> 'd data_plane \<Rightarrow> bool" where
  "filled_from D msgs dp dp' \<longleftrightarrow> queued (dp_trades dp') = queued (dp_trades dp) @ List.map_filter (trade_of D) msgs \<and>
     queued (dp_books dp') = queued (dp_books dp) @ List.map_filter (book_of D) msgs \<and>
     queued (dp_rejections dp') = queued (dp_rejections dp) @ List.map_filter (notice_of D) msgs"

lemma handler_fills:
  assumes "sound_exchange K D" "plane_knows K dp" "plane_room (Suc n) dp"
  obtains dp' calls r where "kraken_handler D (Some dp) m = (Some dp', calls, r)" "r \<noteq> Backpressure" "plane_knows K dp'" "plane_room n dp'"
    "filled_from D [m] dp dp'"
proof -
  have "kraken_on_message D m dp \<noteq> None" using on_message_none [of D m dp] assms(1) unfolding sound_exchange_def by blast
  then obtain dp' calls r where m: "kraken_on_message D m dp = Some (dp', calls, r)" by (metis option.exhaust prod_cases3)
  have h: "kraken_handler D (Some dp) m = (Some dp', calls, r)" by (simp add: kraken_handler_def m)
  have k: "plane_knows K dp'" using handler_plane_knows [OF assms(1), of "Some dp" m] assms(2) h by auto
  have "plane_queues_ok dp" using assms(2) by (simp add: plane_knows_def)
  note e = handler_effect [OF this m]
  have f: "filled_from D [m] dp dp'"
    using e assms(3) by (auto simp: filled_from_def plane_room_def offer_room List.map_filter_simps split: option.splits)
  have "plane_room n dp'"
    using f assms(3) by (auto simp: filled_from_def plane_room_def List.map_filter_simps split: option.splits)
  moreover have "r \<noteq> Backpressure" using e assms(3) by (auto simp: refuses_def plane_room_def)
  ultimately show thesis using h k f that by blast
qed

lemma filled_trans: "filled_from D [m] dp dp1 \<Longrightarrow> filled_from D ms dp1 dp2 \<Longrightarrow> filled_from D (m # ms) dp dp2"
  by (auto simp: filled_from_def List.map_filter_simps split: option.splits)

lemma process_messages_fill:
  assumes "sound_exchange K D"
  shows "plane_knows K dp \<Longrightarrow> plane_room n dp \<Longrightarrow>
    \<exists>s' dp'. process_messages intern pol now rx_now (kraken_handler D) n s (Some dp) = (s', Some dp') \<and>
      filled_from D (take n (message_ring (s_conn s))) dp dp' \<and> message_ring (s_conn s') = drop n (message_ring (s_conn s))"
proof (induction n arbitrary: s dp)
  case 0
  then show ?case by (simp add: filled_from_def List.map_filter_simps)
next
  case (Suc n)
  show ?case
  proof (cases "message_ring (s_conn s)")
    case Nil
    then show ?thesis by (simp add: peek_message_def filled_from_def List.map_filter_simps)
  next
    case (Cons m ms)
    obtain dp1 calls r where h: "kraken_handler D (Some dp) m = (Some dp1, calls, r)" "r \<noteq> Backpressure" "plane_knows K dp1" "plane_room n dp1"
      "filled_from D [m] dp dp1" using handler_fills [OF assms Suc.prems] .
    define s1 where "s1 = (let t = fold (context_call intern pol now) calls
        (s\<lparr>s_conn := (s_conn s)\<lparr>rx_messages := rx_messages (s_conn s) + 1, last_message_ts := rx_now\<rparr>\<rparr>) in
      t\<lparr>s_conn := release_message (s_conn t)\<rparr>)"
    have ring: "message_ring (s_conn s1) = ms" by (simp add: s1_def Let_def context_calls_conn release_message_def Cons)
    obtain s' dp' where i: "process_messages intern pol now rx_now (kraken_handler D) n s1 (Some dp1) = (s', Some dp')"
      "filled_from D (take n ms) dp1 dp'" "message_ring (s_conn s') = drop n ms" using Suc.IH [OF h(3,4), of s1] ring by auto
    have "process_messages intern pol now rx_now (kraken_handler D) (Suc n) s (Some dp) = (s', Some dp')"
      using i(1) h(1,2) by (simp add: peek_message_def Cons s1_def Let_def)
    then show ?thesis using i(2,3) filled_trans [OF h(5) i(2)] Cons by simp
  qed
qed

lemma same_books_ring: "same_books s s' \<Longrightarrow> message_ring (s_conn s') = message_ring (s_conn s)"
  by (simp add: same_books_def sends_to_keep(5))

lemma re_subscribe_ring: "re_subscribe intern pol now senv d req s = Some s' \<Longrightarrow> message_ring (s_conn s') = message_ring (s_conn s)"
  using same_books_ring [OF emit_books] by (fastforce simp: re_subscribe_def Let_def split: option.splits if_splits)

lemma re_subscribe_all_ring: "re_subscribe_all intern pol now senv d reqs s = Some s' \<Longrightarrow> message_ring (s_conn s') = message_ring (s_conn s)"
  by (induction reqs arbitrary: s) (auto dest: re_subscribe_ring split: option.splits)

lemma handle_signal_ring:
  assumes "handle_connection_signal intern pol now senv sig s = Some s'"
  shows "message_ring (s_conn s') = message_ring (s_conn s)"
proof (cases sig)
  case SigConnected
  then show ?thesis using assms re_subscribe_all_ring
    by (fastforce simp: handle_connect_def do_replay_def replay_domain_def Let_def split: if_splits option.splits prod.splits)
next
  case SigLivenessThreatened
  then show ?thesis using assms same_books_ring [OF static_books] by (auto split: if_splits)
qed (use assms in \<open>auto simp: handle_disconnect_def\<close>)

lemma drain_signals_ring:
  "drain_signals intern pol now senv s = Some s' \<Longrightarrow> message_ring (s_conn s') = message_ring (s_conn s)"
proof (induction intern pol now senv s rule: drain_signals.induct)
  case (1 intern pol now senv s)
  obtain c sigo where p: "poll_signal (s_conn s) = (c, sigo)" by fastforce
  have r: "message_ring c = message_ring (s_conn s)" using p by (auto simp: poll_signal_def split: prod.splits)
  show ?case
  proof (cases sigo)
    case None
    then show ?thesis using "1.prems" r by (subst (asm) drain_signals.simps) (auto simp: p)
  next
    case (Some sig)
    then obtain s1 where s1: "handle_connection_signal intern pol now senv sig (s\<lparr>s_conn := c\<rparr>) = Some s1"
      "drain_signals intern pol now senv s1 = Some s'"
      using "1.prems" by (subst (asm) drain_signals.simps) (auto simp: p split: option.splits)
    then show ?thesis using "1.IH" [OF p [symmetric] Some s1(1) s1(2)] handle_signal_ring [OF s1(1)] r by simp
  qed
qed

lemma conn_close_ring: "message_ring (conn_close c) = message_ring c"
  by (simp add: conn_close_def transition_close_def ws_close_eq destroy_eq split: conn_state.splits option.splits)

lemma poll_tail_ring: "message_ring (s_conn (enforce_backpressure_policy pol (paced_emission pol senv s))) = message_ring (s_conn s)"
proof -
  have "message_ring (s_conn (paced_emission pol senv s)) = message_ring (s_conn s)"
    using same_books_ring [OF transmit_books] by (auto simp: paced_emission_def split: prod.splits option.splits)
  then show ?thesis by (auto simp: enforce_backpressure_policy_def Let_def conn_close_ring)
qed

lemma session_poll_fills:
  assumes "sound_exchange K D" "plane_knows K dp" "bus_empty dp"
    "session_poll intern pol now env senv rx_now (kraken_handler D) s (Some dp) = Some (s', Some dp', e)"
  defines "ring \<equiv> message_ring (conn_poll (sp_conn pol) env (s_conn s))"
  shows "filled_from D (take MAX_MESSAGES_PER_POLL ring) dp dp'" and "message_ring (s_conn s') = drop MAX_MESSAGES_PER_POLL ring"
proof -
  obtain s2 where d: "drain_signals intern pol now senv (s\<lparr>s_conn := conn_poll (sp_conn pol) env (s_conn s)\<rparr>) = Some s2"
    using assms(4) by (auto simp: session_poll_def split: option.splits)
  have ring: "message_ring (s_conn s2) = ring" using drain_signals_ring [OF d] by (simp add: ring_def)
  have "plane_room MAX_MESSAGES_PER_POLL dp"
    using assms(2,3) by (simp add: plane_room_def plane_knows_def bus_empty_iff MAX_MESSAGES_PER_POLL_def QUEUE_ROOM_def)
  then obtain s3 dp3 where "process_messages intern pol now rx_now (kraken_handler D) MAX_MESSAGES_PER_POLL s2 (Some dp) = (s3, Some dp3)"
    "filled_from D (take MAX_MESSAGES_PER_POLL ring) dp dp3" "message_ring (s_conn s3) = drop MAX_MESSAGES_PER_POLL ring"
    using process_messages_fill [OF assms(1,2), of MAX_MESSAGES_PER_POLL intern pol now rx_now s2] ring by auto
  then show "filled_from D (take MAX_MESSAGES_PER_POLL ring) dp dp'" "message_ring (s_conn s') = drop MAX_MESSAGES_PER_POLL ring"
    using assms(4) d by (auto simp: session_poll_def Let_def poll_tail_ring)
qed

section \<open>Routing\<close>

text \<open>The callbacks of the names of a channel: what the user sees of the routing.\<close>

fun lite_table :: "domain \<Rightarrow> ('c, 'd) lite_client \<Rightarrow> 'c dispatcher" where
  "lite_table TradeDomain c = lc_trades c"
| "lite_table BookDomain c = lc_books c"

definition lite_routes :: "(symbol \<Rightarrow> symbol_id) \<Rightarrow> ('c, 'd) lite_client \<Rightarrow> domain \<Rightarrow> symbol \<Rightarrow> 'c list" where
  "lite_routes intern c d s = callbacks (lite_table d c) (intern s)"

definition add_routes :: "domain \<Rightarrow> string list \<Rightarrow> 'c \<Rightarrow> (domain \<Rightarrow> symbol \<Rightarrow> 'c list) \<Rightarrow> domain \<Rightarrow> symbol \<Rightarrow> 'c list" where
  "add_routes d symbols cb R = R(d := \<lambda>s. R d s @ replicate (count_list symbols s) cb)"

definition drop_routes :: "domain \<Rightarrow> string list \<Rightarrow> (domain \<Rightarrow> symbol \<Rightarrow> 'c list) \<Rightarrow> domain \<Rightarrow> symbol \<Rightarrow> 'c list" where
  "drop_routes d symbols R = R(d := \<lambda>s. if s \<in> set symbols then [] else R d s)"

definition drop_rejected :: "notice list \<Rightarrow> (domain \<Rightarrow> symbol \<Rightarrow> 'c list) \<Rightarrow> domain \<Rightarrow> symbol \<Rightarrow> 'c list" where
  "drop_rejected ns R = drop_routes BookDomain (rejected_names ns) (drop_routes TradeDomain (rejected_names ns) R)"

text \<open>What the assertions of the send path ask of a call: printable names, and that the sequence of request ids has not wrapped around to 0.\<close>

definition call_ok :: "string list \<Rightarrow> ('c, 'd) lite_client \<Rightarrow> bool" where
  "call_ok symbols c \<longleftrightarrow> (\<forall>x \<in> set symbols. printable_name x) \<and> id_ok None (lc_session c)"

inductive lite_run ::
  "symbol set \<Rightarrow> (symbol \<Rightarrow> symbol_id) \<Rightarrow> session_policy \<Rightarrow> ('e, 'd) dom \<Rightarrow> ('c, 'd) lite_client \<Rightarrow> (domain \<Rightarrow> symbol \<Rightarrow> 'c list) \<Rightarrow> bool"
  for K intern pol D where
  lrun_init: "plane_queues_ok dp \<Longrightarrow> queued (dp_trades dp) = [] \<Longrightarrow> queued (dp_books dp) = [] \<Longrightarrow> queued (dp_rejections dp) = [] \<Longrightarrow>
    lite_run K intern pol D (Lite_init now conn_now dp) (\<lambda>d s. [])"
| lrun_connect: "lite_run K intern pol D c R \<Longrightarrow> env_ok env \<Longrightarrow> lite_run K intern pol D (fst (client_connect pol env url c)) R"
| lrun_on_error: "lite_run K intern pol D c R \<Longrightarrow> lite_run K intern pol D (client_on_error cb c) R"
| lrun_subscribe_trades: "lite_run K intern pol D c R \<Longrightarrow> set symbols \<subseteq> K \<Longrightarrow> call_ok symbols c \<Longrightarrow>
    subscribe_trades intern pol now senv symbols cb snapshot c = Some c' \<Longrightarrow> lite_run K intern pol D c' (add_routes TradeDomain symbols cb R)"
| lrun_unsubscribe_trades: "lite_run K intern pol D c R \<Longrightarrow> set symbols \<subseteq> K \<Longrightarrow> symbols \<noteq> [] \<Longrightarrow> call_ok symbols c \<Longrightarrow>
    unsubscribe_trades intern pol now senv symbols c = Some c' \<Longrightarrow> lite_run K intern pol D c' (drop_routes TradeDomain symbols R)"
| lrun_subscribe_book: "lite_run K intern pol D c R \<Longrightarrow> set symbols \<subseteq> K \<Longrightarrow> call_ok symbols c \<Longrightarrow>
    subscribe_book intern pol now senv symbols cb snapshot c = Some c' \<Longrightarrow> lite_run K intern pol D c' (add_routes BookDomain symbols cb R)"
| lrun_unsubscribe_book: "lite_run K intern pol D c R \<Longrightarrow> set symbols \<subseteq> K \<Longrightarrow> symbols \<noteq> [] \<Longrightarrow> call_ok symbols c \<Longrightarrow>
    unsubscribe_book intern pol now senv symbols c = Some c' \<Longrightarrow> lite_run K intern pol D c' (drop_routes BookDomain symbols R)"
| lrun_poll: "lite_run K intern pol D c R \<Longrightarrow> env_ok env \<Longrightarrow>
    session_poll intern pol now env senv rx_now (kraken_handler D) (lc_session c) (Some (lc_plane c)) = Some (s, Some dp, e) \<Longrightarrow>
    client_poll intern pol now env senv rx_now D c = Some (c', calls) \<Longrightarrow>
    lite_run K intern pol D c' (drop_rejected (queued (dp_rejections dp)) R)"
| lrun_receive: "lite_run K intern pol D c R \<Longrightarrow>
    lite_run K intern pol D (c\<lparr>lc_session := (lc_session c)\<lparr>s_conn := ws_receive ev (s_conn (lc_session c))\<rparr>\<rparr>) R"
| lrun_deliver: "lite_run K intern pol D c R \<Longrightarrow>
    lite_run K intern pol D (c\<lparr>lc_session := (lc_session c)\<lparr>s_conn := ws_deliver m (s_conn (lc_session c))\<rparr>\<rparr>) R"

definition lite_refines :: "symbol set \<Rightarrow> (symbol \<Rightarrow> symbol_id) \<Rightarrow> session_policy \<Rightarrow> ('c, 'd) lite_client \<Rightarrow> (domain \<Rightarrow> symbol \<Rightarrow> 'c list) \<Rightarrow> bool" where
  "lite_refines K intern pol c R \<longleftrightarrow> lite_ok K intern pol c \<and> (\<forall>d. \<forall>s \<in> K. lite_routes intern c d s = R d s) \<and>
     (\<forall>d i. callbacks (lite_table d c) i \<noteq> [] \<longrightarrow> i \<in> intern ` K)"

lemma count_intern: "inj_on intern K \<Longrightarrow> set symbols \<subseteq> K \<Longrightarrow> s \<in> K \<Longrightarrow> count_list (map intern symbols) (intern s) = count_list symbols s"
  by (induction symbols) (auto dest: inj_onD)

lemma mem_intern: "inj_on intern K \<Longrightarrow> set symbols \<subseteq> K \<Longrightarrow> s \<in> K \<Longrightarrow> intern s \<in> intern ` set symbols \<longleftrightarrow> s \<in> set symbols"
  by (auto dest: inj_onD)

text \<open>An operation that leaves the tables of routes alone.\<close>

lemma refines_session:
  assumes "lite_refines K intern pol c R" "session_ok K intern pol s"
  shows "lite_refines K intern pol (c\<lparr>lc_session := s\<rparr>) R"
proof -
  have "lite_table d (c\<lparr>lc_session := s\<rparr>) = lite_table d c" for d by (cases d) simp_all
  then show ?thesis using assms by (simp add: lite_refines_def lite_ok_def client_ok_def lite_routes_def)
qed

lemma refines_add:
  assumes "lite_refines K intern pol c R" "inj_on intern K" "set symbols \<subseteq> K" "lite_ok K intern pol c'"
    "lite_table d c' = dispatcher_add intern symbols cb (lite_table d c)" "\<And>d'. d' \<noteq> d \<Longrightarrow> lite_table d' c' = lite_table d' c"
  shows "lite_refines K intern pol c' (add_routes d symbols cb R)"
proof -
  have ok: "dispatcher_ok (lite_table d c)" using assms(1) by (cases d) (simp_all add: lite_refines_def lite_ok_def client_ok_def)
  have "lite_routes intern c' d' s = add_routes d symbols cb R d' s" if "s \<in> K" for d' s
    using assms(1,6) that count_intern [OF assms(2,3) that]
    by (cases "d' = d") (simp_all add: lite_routes_def lite_refines_def add_routes_def assms(5) disp.routes_add [OF ok])
  moreover have "i \<in> intern ` K" if "callbacks (lite_table d' c') i \<noteq> []" for d' i
  proof (cases "d' = d")
    case True
    then have "callbacks (lite_table d c) i \<noteq> [] \<or> i \<in> intern ` set symbols"
      using that by (auto simp: assms(5) disp.routes_add [OF ok] count_list_0_iff)
    then show ?thesis using assms(1,3) by (auto simp: lite_refines_def)
  next
    case False
    then show ?thesis using that assms(1,6) by (simp add: lite_refines_def)
  qed
  ultimately show ?thesis using assms(4) by (simp add: lite_refines_def)
qed

lemma refines_drop:
  assumes "lite_refines K intern pol c R" "inj_on intern K" "set symbols \<subseteq> K" "lite_ok K intern pol c'"
    "lite_table d c' = dispatcher_remove_all intern symbols (lite_table d c)" "\<And>d'. d' \<noteq> d \<Longrightarrow> lite_table d' c' = lite_table d' c"
  shows "lite_refines K intern pol c' (drop_routes d symbols R)"
proof -
  have ok: "dispatcher_ok (lite_table d c)" using assms(1) by (cases d) (simp_all add: lite_refines_def lite_ok_def client_ok_def)
  have "lite_routes intern c' d' s = drop_routes d symbols R d' s" if "s \<in> K" for d' s
    using assms(1,6) that mem_intern [OF assms(2,3) that]
    by (cases "d' = d") (simp_all add: lite_routes_def lite_refines_def drop_routes_def assms(5) disp.routes_remove [OF ok])
  moreover have "i \<in> intern ` K" if "callbacks (lite_table d' c') i \<noteq> []" for d' i
    using that assms(1,6) by (cases "d' = d") (auto simp: lite_refines_def assms(5) disp.routes_remove [OF ok] split: if_splits)
  ultimately show ?thesis using assms(4) by (simp add: lite_refines_def)
qed

lemma subscribe_facts:
  assumes "lite_ok K intern pol c" "set symbols \<subseteq> K" "to_request_symbols symbols \<noteq> None" "call_ok symbols c"
  shows "\<exists>c'. subscribe_trades intern pol now senv symbols cb snapshot c = Some c' \<and> lite_ok K intern pol c' \<and>
      lc_trades c' = dispatcher_add intern symbols cb (lc_trades c) \<and> lc_books c' = lc_books c"
    and "\<exists>c'. subscribe_book intern pol now senv symbols cb snapshot c = Some c' \<and> lite_ok K intern pol c' \<and>
      lc_books c' = dispatcher_add intern symbols cb (lc_books c) \<and> lc_trades c' = lc_trades c"
proof -
  have r: "to_request_symbols symbols = Some symbols" using assms(3) by (simp add: to_request_symbols_def split: if_splits)
  have s: "session_ok K intern pol (lc_session c)" using assms(1) by (simp add: lite_ok_def)
  let ?t = "\<lparr>req_symbols = symbols, req_req_id = None, req_params = TradeParams (Some snapshot)\<rparr>"
  let ?b = "\<lparr>req_symbols = symbols, req_req_id = None, req_params = BookParams None (Some snapshot)\<rparr>"
  have ok: "request_ok ?t" "request_ok ?b" "id_ok None (lc_session c)"
    using assms(4) by (simp_all add: call_ok_def request_ok_def params_ok_def validate_depth_def)
  show "\<exists>c'. subscribe_trades intern pol now senv symbols cb snapshot c = Some c' \<and> lite_ok K intern pol c' \<and>
      lc_trades c' = dispatcher_add intern symbols cb (lc_trades c) \<and> lc_books c' = lc_books c"
    using subscribe_ok [OF s, of ?t now senv TradeDomain] assms(1,2) ok
    by (auto simp: subscribe_trades_def r lite_ok_def client_ok_def disp.add_inv)
  show "\<exists>c'. subscribe_book intern pol now senv symbols cb snapshot c = Some c' \<and> lite_ok K intern pol c' \<and>
      lc_books c' = dispatcher_add intern symbols cb (lc_books c) \<and> lc_trades c' = lc_trades c"
    using subscribe_ok [OF s, of ?b now senv BookDomain] assms(1,2) ok
    by (auto simp: subscribe_book_def r lite_ok_def client_ok_def disp.add_inv)
qed

lemma unsubscribe_facts:
  assumes "lite_ok K intern pol c" "set symbols \<subseteq> K" "to_request_symbols symbols \<noteq> None" "inj_on intern K" "symbols \<noteq> []" "call_ok symbols c"
  shows "\<exists>c'. unsubscribe_trades intern pol now senv symbols c = Some c' \<and> lite_ok K intern pol c' \<and>
      lc_trades c' = dispatcher_remove_all intern symbols (lc_trades c) \<and> lc_books c' = lc_books c"
    and "\<exists>c'. unsubscribe_book intern pol now senv symbols c = Some c' \<and> lite_ok K intern pol c' \<and>
      lc_books c' = dispatcher_remove_all intern symbols (lc_books c) \<and> lc_trades c' = lc_trades c"
proof -
  have r: "to_request_symbols symbols = Some symbols" using assms(3) by (simp add: to_request_symbols_def split: if_splits)
  have s: "session_ok K intern pol (lc_session c)" using assms(1) by (simp add: lite_ok_def)
  have ok: "unsub_ok symbols TradeUnsub" "unsub_ok symbols (BookUnsub None)" "id_ok None (lc_session c)"
    using assms(5,6) by (simp_all add: call_ok_def unsub_ok_def unsub_params_ok_def validate_depth_def)
  show "\<exists>c'. unsubscribe_trades intern pol now senv symbols c = Some c' \<and> lite_ok K intern pol c' \<and>
      lc_trades c' = dispatcher_remove_all intern symbols (lc_trades c) \<and> lc_books c' = lc_books c"
    using unsubscribe_ok [OF s assms(2,4) ok(1,3), of now senv TradeDomain] assms(1)
    by (auto simp: unsubscribe_trades_def r lite_ok_def client_ok_def disp.remove_inv)
  show "\<exists>c'. unsubscribe_book intern pol now senv symbols c = Some c' \<and> lite_ok K intern pol c' \<and>
      lc_books c' = dispatcher_remove_all intern symbols (lc_books c) \<and> lc_trades c' = lc_trades c"
    using unsubscribe_ok [OF s assms(2,4) ok(2,3), of now senv BookDomain] assms(1)
    by (auto simp: unsubscribe_book_def r lite_ok_def client_ok_def disp.remove_inv)
qed

definition plain_names :: "symbol set \<Rightarrow> bool" where "plain_names K \<longleftrightarrow> (\<forall>s \<in> K. plain_name s)"

lemma rejected_known:
  assumes "plane_knows K dp" "plain_names K"
  shows "set (rejected_names (queued (dp_rejections dp))) \<subseteq> K"
proof
  fix s assume "s \<in> set (rejected_names (queued (dp_rejections dp)))"
  then obtain n x where "n \<in> set (queued (dp_rejections dp))" "no_symbol n = Some x" "s = c_str x"
    by (auto simp: rejected_names_def List.map_filter_def)
  then show "s \<in> K" using assms by (auto simp: plane_knows_def plain_names_def)
qed

lemma client_poll_facts:
  assumes "lite_ok K intern pol c" "sound_exchange K D" "env_ok env" "policy_ok (sp_conn pol)" "inj_on intern K" "plain_names K"
  obtains s dp e c' calls where
    "session_poll intern pol now env senv rx_now (kraken_handler D) (lc_session c) (Some (lc_plane c)) = Some (s, Some dp, e)"
    "client_poll intern pol now env senv rx_now D c = Some (c', calls)" "lite_ok K intern pol c'" "lc_session c' = s" "bus_empty (lc_plane c')"
    "delivered intern (c\<lparr>lc_session := s, lc_plane := dp\<rparr>) c' calls" "plane_knows K dp"
    "lc_trades c' = dispatcher_remove_all intern (rejected_names (queued (dp_rejections dp))) (lc_trades c)"
    "lc_books c' = dispatcher_remove_all intern (rejected_names (queued (dp_rejections dp))) (lc_books c)"
proof -
  obtain s dp e where p: "session_poll intern pol now env senv rx_now (kraken_handler D) (lc_session c) (Some (lc_plane c)) = Some (s, Some dp, e)"
    "session_ok K intern pol s" "plane_knows K dp" using session_poll_plane [OF assms(1-5)] .
  let ?c = "c\<lparr>lc_session := s, lc_plane := dp\<rparr>"
  have "client_ok ?c" "plane_names_plain (lc_plane ?c)"
    using assms(1,6) p(3) by (auto simp: lite_ok_def client_ok_def plane_knows_def plane_names_plain_def plain_names_def)
  then obtain c' calls where c': "client_dispatch intern ?c = Some (c', calls)" "client_ok c'" "bus_empty (lc_plane c')"
    "delivered intern ?c c' calls" "lc_session c' = s"
    "lc_trades c' = dispatcher_remove_all intern (rejected_names (queued (dp_rejections dp))) (lc_trades c)"
    "lc_books c' = dispatcher_remove_all intern (rejected_names (queued (dp_rejections dp))) (lc_books c)"
    using client_dispatch_facts [of ?c intern] by auto
  have "plane_queues_ok (lc_plane c')" using c'(2) by (simp add: client_ok_def)
  then have "plane_knows K (lc_plane c')" using c'(3) by (simp add: plane_knows_def bus_empty_iff)
  then have "lite_ok K intern pol c'" using c'(2,5) p(2) by (simp add: lite_ok_def)
  then show thesis using p c' by (intro that) (simp_all add: client_poll_def)
qed

lemma poll_refines:
  assumes "lite_refines K intern pol c R" "sound_exchange K D" "env_ok env" "policy_ok (sp_conn pol)" "inj_on intern K" "plain_names K"
    "session_poll intern pol now env senv rx_now (kraken_handler D) (lc_session c) (Some (lc_plane c)) = Some (s, Some dp, e)"
    "client_poll intern pol now env senv rx_now D c = Some (c', calls)"
  shows "lite_refines K intern pol c' (drop_rejected (queued (dp_rejections dp)) R)"
proof -
  have ok: "lite_ok K intern pol c" using assms(1) by (simp add: lite_refines_def)
  have f: "lite_ok K intern pol c'" "plane_knows K dp"
    "lc_trades c' = dispatcher_remove_all intern (rejected_names (queued (dp_rejections dp))) (lc_trades c)"
    "lc_books c' = dispatcher_remove_all intern (rejected_names (queued (dp_rejections dp))) (lc_books c)"
    by (rule client_poll_facts [OF ok assms(2-6), of now senv rx_now], use assms(7,8) in simp)+
  let ?gone = "rejected_names (queued (dp_rejections dp))"
  let ?c1 = "c\<lparr>lc_trades := dispatcher_remove_all intern ?gone (lc_trades c)\<rparr>"
  note k = rejected_known [OF f(2) assms(6)]
  have ok1: "lite_ok K intern pol ?c1" using ok by (simp add: lite_ok_def client_ok_def disp.remove_inv)
  have t: "d' \<noteq> TradeDomain \<Longrightarrow> lite_table d' ?c1 = lite_table d' c" "d' \<noteq> BookDomain \<Longrightarrow> lite_table d' c' = lite_table d' ?c1" for d'
    by (cases d'; simp add: f(3))+
  have "lite_refines K intern pol ?c1 (drop_routes TradeDomain ?gone R)"
    using t(1) by (intro refines_drop [OF assms(1,5) k ok1]) simp_all
  from refines_drop [OF this assms(5) k f(1), of BookDomain] show ?thesis
    using t(2) by (simp add: drop_rejected_def f(4))
qed

lemma lite_table_init [simp]: "lite_table d (Lite_init now conn_now dp) = []"
  by (cases d) (simp_all add: Lite_init_def)

lemma lite_run_refines:
  assumes "lite_run K intern pol D c R" "policy_ok (sp_conn pol)" "sound_exchange K D" "inj_on intern K" "plain_names K"
  shows "lite_refines K intern pol c R"
  using assms(1)
proof induction
  case (lrun_init dp now conn_now)
  then have "lite_ok K intern pol (Lite_init now conn_now dp)"
    by (simp add: lite_ok_def client_ok_def Lite_init_def buckets_ok_def dispatcher_ok_def plane_knows_def session_ok_init)
  then show ?case by (simp add: lite_refines_def lite_routes_def callbacks_def)
next
  case (lrun_connect c R env url)
  have "session_ok K intern pol (fst (session_connect pol env url (lc_session c)))"
    using lrun_connect conn_open_ok [of "sp_conn pol" "s_conn (lc_session c)" env url]
    by (simp add: session_connect_def session_ok_def case_prod_unfold lite_refines_def lite_ok_def)
  from refines_session [OF lrun_connect.IH this] show ?case by (simp add: client_connect_def case_prod_unfold)
next
  case (lrun_on_error c R cb)
  have "lite_table d (client_on_error cb c) = lite_table d c" for d by (cases d) (simp_all add: client_on_error_def)
  then show ?case using lrun_on_error by (simp add: lite_refines_def lite_ok_def client_ok_def lite_routes_def) (simp add: client_on_error_def)
next
  case (lrun_subscribe_trades c R symbols now senv cb snapshot c')
  have "to_request_symbols symbols \<noteq> None" using lrun_subscribe_trades(4) by (auto simp: subscribe_trades_def split: option.splits)
  then have f: "lite_ok K intern pol c'" "lc_trades c' = dispatcher_add intern symbols cb (lc_trades c)" "lc_books c' = lc_books c"
    using subscribe_facts(1) [of K intern pol c symbols now senv cb snapshot] lrun_subscribe_trades by (auto simp: lite_refines_def)
  show ?case by (rule refines_add [OF lrun_subscribe_trades.IH assms(4) lrun_subscribe_trades(2) f(1)]) (simp add: f(2), case_tac d', simp_all add: f(3))
next
  case (lrun_subscribe_book c R symbols now senv cb snapshot c')
  have "to_request_symbols symbols \<noteq> None" using lrun_subscribe_book(4) by (auto simp: subscribe_book_def split: option.splits)
  then have f: "lite_ok K intern pol c'" "lc_books c' = dispatcher_add intern symbols cb (lc_books c)" "lc_trades c' = lc_trades c"
    using subscribe_facts(2) [of K intern pol c symbols now senv cb snapshot] lrun_subscribe_book by (auto simp: lite_refines_def)
  show ?case by (rule refines_add [OF lrun_subscribe_book.IH assms(4) lrun_subscribe_book(2) f(1)]) (simp add: f(2), case_tac d', simp_all add: f(3))
next
  case (lrun_unsubscribe_trades c R symbols now senv c')
  have "to_request_symbols symbols \<noteq> None" using lrun_unsubscribe_trades(5) by (auto simp: unsubscribe_trades_def split: option.splits)
  then have f: "lite_ok K intern pol c'" "lc_trades c' = dispatcher_remove_all intern symbols (lc_trades c)" "lc_books c' = lc_books c"
    using unsubscribe_facts(1) [of K intern pol c symbols now senv] lrun_unsubscribe_trades assms(4) by (auto simp: lite_refines_def)
  show ?case by (rule refines_drop [OF lrun_unsubscribe_trades.IH assms(4) lrun_unsubscribe_trades(2) f(1)]) (simp add: f(2), case_tac d', simp_all add: f(3))
next
  case (lrun_unsubscribe_book c R symbols now senv c')
  have "to_request_symbols symbols \<noteq> None" using lrun_unsubscribe_book(5) by (auto simp: unsubscribe_book_def split: option.splits)
  then have f: "lite_ok K intern pol c'" "lc_books c' = dispatcher_remove_all intern symbols (lc_books c)" "lc_trades c' = lc_trades c"
    using unsubscribe_facts(2) [of K intern pol c symbols now senv] lrun_unsubscribe_book assms(4) by (auto simp: lite_refines_def)
  show ?case by (rule refines_drop [OF lrun_unsubscribe_book.IH assms(4) lrun_unsubscribe_book(2) f(1)]) (simp add: f(2), case_tac d', simp_all add: f(3))
next
  case (lrun_poll c R env now senv rx_now s dp e c' calls)
  then show ?case using poll_refines assms by metis
next
  case (lrun_receive c R ev)
  then show ?case by (intro refines_session) (simp_all add: lite_refines_def lite_ok_def session_ok_def ws_receive_ok)
next
  case (lrun_deliver c R m)
  then show ?case by (intro refines_session) (simp_all add: lite_refines_def lite_ok_def session_ok_def ws_deliver_ok)
qed

text \<open>Between its operations the client's data plane is empty.\<close>

lemma lite_run_empty:
  assumes "lite_run K intern pol D c R" "policy_ok (sp_conn pol)" "sound_exchange K D" "inj_on intern K" "plain_names K"
  shows "bus_empty (lc_plane c)"
  using assms(1)
proof induction
  case (lrun_init dp now conn_now)
  then show ?case by (simp add: Lite_init_def bus_empty_iff)
next
  case (lrun_poll c R env now senv rx_now s dp e c' calls)
  have "lite_ok K intern pol c" using lite_run_refines [OF lrun_poll(1) assms(2-5)] by (simp add: lite_refines_def)
  then show ?case by (rule client_poll_facts [OF _ assms(3) lrun_poll(2) assms(2,4,5), of c now senv rx_now]) (use lrun_poll(4) in simp)
qed (auto simp: client_connect_def client_on_error_def subscribe_trades_def unsubscribe_trades_def subscribe_book_def unsubscribe_book_def
    split: prod.splits option.splits)

section \<open>A sample client\<close>

definition lite_exchange :: "(doc, nat) dom" where
  "lite_exchange = sample_dom [(''trade'', sample_trade_doc)]"

definition lite_names :: "symbol set" where "lite_names = {[], ''BTC/USD''}"

definition lite_intern :: "symbol \<Rightarrow> symbol_id" where "lite_intern s = (if s = [] then 0 else 1)"

definition lite_sample :: "(nat, nat) lite_client" where
  "lite_sample = \<lparr>lc_session = (Session_init 0 0)\<lparr>s_conn := (Connection_init 0)\<lparr>message_ring := [''trade'']\<rparr>\<rparr>, lc_plane = sample_plane,
     lc_buckets = [], lc_trades = [(1, [7])], lc_books = [], lc_error_cb = None\<rparr>"

definition lite_sample_routes :: "domain \<Rightarrow> symbol \<Rightarrow> nat list" where
  "lite_sample_routes d s = (if d = TradeDomain \<and> s = ''BTC/USD'' then [7] else [])"

lemma lite_trade_of: "trade_of lite_exchange m = (if m = ''trade'' then Some sample_response else None)"
  by (simp add: trade_of_def data_root_def root_of_def lite_exchange_def sample_dom_def sample_trade_doc_def parser_eval
      parse_trade_response_def parse_trade_object_def sample_timestamp sample_payload sample_response_def Let_def)

lemma lite_other_messages: "book_of lite_exchange m = None" "notice_of lite_exchange m = None"
  by (simp_all add: book_of_def notice_of_def data_root_def root_of_def lite_exchange_def sample_dom_def sample_trade_doc_def parser_eval)

lemma lite_not_fatal: "dom_parse lite_exchange m = Some root \<Longrightarrow> \<not> fatal_message lite_exchange root"
  by (auto simp: lite_exchange_def sample_dom_def sample_trade_doc_def fatal_message_def fatal_method_def fatal_channel_def long_data_def
      bad_status_def long_name_def has_field_def MAX_SYMBOL_LENGTH_def parser_eval split: if_splits)

lemma lite_exchange_sound: "sound_exchange lite_names lite_exchange"
proof -
  have "exchange_names lite_names lite_exchange"
    by (auto simp: exchange_names_def lite_names_def lite_exchange_def sample_dom_def sample_trade_doc_def result_symbol_def has_field_def split: if_splits)
  then show ?thesis
    using lite_not_fatal by (auto simp: sound_exchange_def lite_trade_of lite_other_messages sample_response_def lite_names_def split: if_splits)
qed

lemma lite_sample_plane: "plane_knows K sample_plane"
  using sample_plane_queues by (simp add: plane_knows_def)

lemma lite_sample_refines: "lite_refines lite_names lite_intern demo_session_policy lite_sample lite_sample_routes"
proof -
  have "lite_table d lite_sample = (case d of TradeDomain \<Rightarrow> [(1, [7])] | BookDomain \<Rightarrow> [])" for d
    by (cases d) (simp_all add: lite_sample_def)
  then have "\<forall>d. \<forall>s \<in> lite_names. lite_routes lite_intern lite_sample d s = lite_sample_routes d s"
    "\<forall>d i. callbacks (lite_table d lite_sample) i \<noteq> [] \<longrightarrow> i \<in> lite_intern ` lite_names"
    by (auto simp: lite_routes_def lite_sample_routes_def lite_names_def lite_intern_def callbacks_def split: domain.splits)
  moreover have "session_ok lite_names lite_intern demo_session_policy (lc_session lite_sample)"
    using session_ok_init [of lite_names lite_intern demo_session_policy 0 0]
    by (simp add: lite_sample_def session_ok_def Session_init_def conn_ok_def)
  moreover have "client_ok lite_sample"
    using sample_plane_queues by (simp add: client_ok_def lite_sample_def buckets_ok_def dispatcher_ok_def)
  ultimately show ?thesis using lite_sample_plane [of lite_names] by (simp add: lite_refines_def lite_ok_def lite_sample_def)
qed

section \<open>The properties\<close>



text \<open>C15: a poll of the Lite client delivers what the exchange sent, to those who asked for it. The messages of a poll are those that the connection
  holds after its own poll, 128 at most; the others stay for the next poll. The rejections among them come first: the error callback gets every one of them, and
  the names they carry lose their callbacks on both channels, whichever channel was refused. Then, for every known name, the calls that concern it are, for each
  trade response in the order of arrival, each remaining callback with each trade of that name in its order, and for each book of that name each
  remaining callback with its asks and then its bids. The data plane, empty before as it is between the operations of a client, is empty afterwards. The exchange sends
  known names and nothing on which the handler ends the process.\<close>

theorem lite_poll_delivers:
  assumes "lite_refines K intern pol c R" "bus_empty (lc_plane c)" "policy_ok (sp_conn pol)" "sound_exchange K D" "inj_on intern K" "plain_names K" "env_ok env"
    "ring = message_ring (conn_poll (sp_conn pol) env (s_conn (lc_session c)))" "msgs = take MAX_MESSAGES_PER_POLL ring"
  shows "\<exists>c' calls. client_poll intern pol now env senv rx_now D c = Some (c', calls) \<and> bus_empty (lc_plane c') \<and>
    message_ring (s_conn (lc_session c')) = drop MAX_MESSAGES_PER_POLL ring \<and>
    filter is_error calls = concat (map (error_calls (lc_error_cb c)) (List.map_filter (notice_of D) msgs)) \<and>
    (\<forall>x \<in> K. filter (concerns TradeDomain x) calls =
        concat (map (trade_calls (drop_rejected (List.map_filter (notice_of D) msgs) R TradeDomain x) x) (List.map_filter (trade_of D) msgs)) \<and>
      filter (concerns BookDomain x) calls =
        concat (map (book_calls (drop_rejected (List.map_filter (notice_of D) msgs) R BookDomain x) x) (List.map_filter (book_of D) msgs)))"
proof -
  have ok: "lite_ok K intern pol c" using assms(1) by (simp add: lite_refines_def)
  obtain s dp e c' calls where p: "session_poll intern pol now env senv rx_now (kraken_handler D) (lc_session c) (Some (lc_plane c)) = Some (s, Some dp, e)"
    and f: "client_poll intern pol now env senv rx_now D c = Some (c', calls)" "lc_session c' = s" "bus_empty (lc_plane c')"
    "delivered intern (c\<lparr>lc_session := s, lc_plane := dp\<rparr>) c' calls"
    using client_poll_facts [OF ok assms(4,7,3,5,6), of now senv rx_now] by metis
  have k: "plane_knows K (lc_plane c)" using ok by (simp add: lite_ok_def)
  have "queued (dp_trades (lc_plane c)) = []" "queued (dp_books (lc_plane c)) = []" "queued (dp_rejections (lc_plane c)) = []"
    using assms(2) k by (simp_all add: plane_knows_def bus_empty_iff)
  then have q: "queued (dp_trades dp) = List.map_filter (trade_of D) msgs" "queued (dp_books dp) = List.map_filter (book_of D) msgs"
    "queued (dp_rejections dp) = List.map_filter (notice_of D) msgs" "message_ring (s_conn s) = drop MAX_MESSAGES_PER_POLL ring"
    using session_poll_fills [OF assms(4) k assms(2) p] by (simp_all add: assms(8,9) filled_from_def)
  have "lite_refines K intern pol c' (drop_rejected (queued (dp_rejections dp)) R)"
    by (rule poll_refines [OF assms(1,4,7,3,5,6) p f(1)])
  then have "callbacks (lite_table d c') (intern x) = drop_rejected (queued (dp_rejections dp)) R d x" if "x \<in> K" for d x
    using that by (simp add: lite_refines_def lite_routes_def)
  from this [of _ TradeDomain] this [of _ BookDomain] show ?thesis using f q by (simp add: delivered_def)
qed

theorem lite_poll_delivers_witness:
  "\<exists>c' calls. client_poll lite_intern demo_session_policy 5 (demo_env NoError 9) (\<lambda>n. demo_env NoError 9) 9 lite_exchange lite_sample = Some (c', calls) \<and>
     filter (concerns TradeDomain ''BTC/USD'') calls = [TradeCall 7 (to_lite_trade PayloadUpdate (hd (tr_trades sample_response)))]"
proof -
  have inj: "inj_on lite_intern lite_names" and plain: "plain_names lite_names"
    by (simp_all add: lite_names_def lite_intern_def plain_names_def plain_name_def)
  have empty: "bus_empty (lc_plane lite_sample)" using sample_plane_queues by (simp add: lite_sample_def bus_empty_iff)
  have env: "env_ok (demo_env NoError 9)" by (simp add: demo_env_ok)
  have ring: "[''trade''] = message_ring (conn_poll (sp_conn demo_session_policy) (demo_env NoError 9) (s_conn (lc_session lite_sample)))"
    by (simp add: lite_sample_def conn_poll_def Connection_init_def)
  have take: "[''trade''] = take MAX_MESSAGES_PER_POLL [''trade'']" by (simp add: MAX_MESSAGES_PER_POLL_def)
  from lite_poll_delivers [OF lite_sample_refines empty demo_session_policy_ok lite_exchange_sound inj plain env ring take, of 5 "\<lambda>n. demo_env NoError 9" 9]
  show ?thesis
    by (auto simp: lite_names_def drop_rejected_def drop_routes_def rejected_names_def List.map_filter_simps lite_sample_routes_def trade_calls_def sample_response_def
        lite_trade_of lite_other_messages)
qed

end
