(* ===== verification/Spmc_Ring.thy ===== *)
theory Spmc_Ring
  imports Spsc_Queue
begin

unbundle bit_operations_syntax

text \<open>
  The rings with one producer and several consumers: \<^verbatim>\<open>spmc_task_ring\<close>, where every element goes to one consumer, and \<^verbatim>\<open>spmc_fanout_ring\<close>, where it goes to
  all of them. The operations are first shown to be those of a queue; then the task ring is split into its shared-memory actions and run with any number of consumers.
\<close>

section \<open>The task ring\<close>

record 'a task_ring =
  tk_buffer :: "'a list"
  tk_head :: u64
  tk_tail :: u64

definition task_init :: "'a list \<Rightarrow> 'a task_ring" where
  "task_init buf = \<lparr>tk_buffer = buf, tk_head = 0, tk_tail = 0\<rparr>"

definition task_push :: "u64 \<Rightarrow> 'a task_ring \<Rightarrow> 'a \<Rightarrow> 'a task_ring \<times> bool" where
  "task_push cap q item =
     (let head = tk_head q; next_head = ring_next cap head in
      if next_head = tk_tail q then (q, False)
      else (q\<lparr>tk_buffer := (tk_buffer q)[unat head := item], tk_head := next_head\<rparr>, True))"

text \<open>Without interference the exchange of the tail succeeds, at the latest after it failed spuriously.\<close>

definition task_pop :: "u64 \<Rightarrow> 'a task_ring \<Rightarrow> 'a task_ring \<times> 'a option" where
  "task_pop cap q =
     (let tail = tk_tail q in
      if tail = tk_head q then (q, None)
      else (q\<lparr>tk_tail := ring_next cap tail\<rparr>, Some (tk_buffer q ! unat tail)))"

definition task_empty :: "'a task_ring \<Rightarrow> bool" where "task_empty q \<longleftrightarrow> tk_head q = tk_tail q"

definition task_full :: "u64 \<Rightarrow> 'a task_ring \<Rightarrow> bool" where "task_full cap q \<longleftrightarrow> ring_next cap (tk_head q) = tk_tail q"

definition task_size :: "u64 \<Rightarrow> 'a task_ring \<Rightarrow> u64" where
  "task_size cap q = (if tk_head q \<ge> tk_tail q then tk_head q - tk_tail q else cap - (tk_tail q - tk_head q))"

definition task_ok :: "u64 \<Rightarrow> 'a task_ring \<Rightarrow> bool" where
  "task_ok cap q \<longleftrightarrow> cap_ok cap \<and> length (tk_buffer q) = unat cap \<and> tk_head q < cap \<and> tk_tail q < cap"

definition task_contents :: "u64 \<Rightarrow> 'a task_ring \<Rightarrow> 'a list" where
  "task_contents cap q = ring_seq cap (tk_buffer q) (tk_tail q) (tk_head q)"

lemma task_okD:
  assumes "task_ok cap q"
  shows "cap_ok cap" "length (tk_buffer q) = unat cap" "tk_head q < cap" "tk_tail q < cap"
  using assms by (simp_all add: task_ok_def)

lemma task_ok_init: "cap_ok cap \<Longrightarrow> length buf = unat cap \<Longrightarrow> task_ok cap (task_init buf)"
  using cap_ok_ge2 [of cap] by (simp add: task_ok_def task_init_def word_less_nat_alt)

interpretation task: fifo_queue "task_ok cap" "task_contents cap" "unat cap - 1" "task_push cap" "task_pop cap" task_empty "task_full cap" for cap
proof unfold_locales
  fix q :: "'a task_ring" and x assume ok: "task_ok cap q"
  note d = task_okD [OF ok]
  show "length (task_contents cap q) \<le> unat cap - 1" using span_less [OF d(3,4)] by (simp add: task_contents_def)
  show "task_ok cap (fst (task_push cap q x))" using d by (auto simp: task_push_def task_ok_def ring_next_less Let_def)
  show "task_ok cap (fst (task_pop cap q))" using d by (auto simp: task_pop_def task_ok_def ring_next_less Let_def)
  show "(task_contents cap (fst (task_push cap q x)), snd (task_push cap q x)) = bq_push (unat cap - 1) (task_contents cap q) x"
    using d span_full_iff [OF d(1,3,4)] span_less [OF d(3,4)]
    by (auto simp: task_push_def task_contents_def Let_def ring_seq_write)
  show "(task_contents cap (fst (task_pop cap q)), snd (task_pop cap q)) = bq_pop (task_contents cap q)"
  proof (cases "tk_head q = tk_tail q")
    case True
    then show ?thesis by (simp add: task_pop_def task_contents_def ring_seq_def)
  next
    case False
    then show ?thesis
      using ring_seq_read [OF d(1,3,4) False, of "tk_buffer q"] not_sym [OF False] by (simp add: task_pop_def task_contents_def Let_def)
  qed
  show "task_empty q \<longleftrightarrow> task_contents cap q = []"
    by (simp add: task_empty_def task_contents_def ring_seq_empty [OF d(3,4)])
  show "task_full cap q \<longleftrightarrow> length (task_contents cap q) = unat cap - 1"
    using span_full_iff [OF d(1,3,4)] by (simp add: task_full_def task_contents_def)
qed

lemma task_size_exact: "task_ok cap q \<Longrightarrow> unat (task_size cap q) = length (task_contents cap q)"
  by (auto simp: task_ok_def task_size_def task_contents_def span_def circ_def word_le_nat_alt word_less_nat_alt unat_sub_if')

section \<open>The task ring with threads\<close>

text \<open>
  The actions of the producer: the test against the tail, the write of the slot, the store of the head. Those of a consumer: the load of the tail, the test against the
  head, the exchange of the tail, which may fail spuriously, and the read of the slot. Only then is the slot read: after the claim the slot is free for the producer.
\<close>

datatype 'a task_ppc = TPIdle | TPWrite 'a | TPStore 'a

datatype task_cpc = TCIdle | TCLoaded u64 | TCChecked u64 | TCClaimed u64

record 'a task_system =
  tring :: "'a task_ring"
  tppc :: "'a task_ppc"
  tcpc :: "nat \<Rightarrow> task_cpc"
  tpushed :: "'a list"
  tpopped :: "(nat \<times> 'a) list"

definition task_system_init :: "'a list \<Rightarrow> 'a task_system" where
  "task_system_init buf = \<lparr>tring = task_init buf, tppc = TPIdle, tcpc = (\<lambda>_. TCIdle), tpushed = [], tpopped = []\<rparr>"

fun task_producer :: "u64 \<Rightarrow> 'a \<Rightarrow> 'a task_system \<Rightarrow> 'a task_system" where
  "task_producer cap x s =
     (case tppc s of
        TPIdle \<Rightarrow> s\<lparr>tppc := if ring_next cap (tk_head (tring s)) = tk_tail (tring s) then TPIdle else TPWrite x\<rparr>
      | TPWrite y \<Rightarrow>
          s\<lparr>tring := (tring s)\<lparr>tk_buffer := (tk_buffer (tring s))[unat (tk_head (tring s)) := y]\<rparr>, tppc := TPStore y\<rparr>
      | TPStore y \<Rightarrow>
          s\<lparr>tring := (tring s)\<lparr>tk_head := ring_next cap (tk_head (tring s))\<rparr>, tppc := TPIdle, tpushed := tpushed s @ [y]\<rparr>)"

fun task_consumer :: "u64 \<Rightarrow> bool \<Rightarrow> nat \<Rightarrow> 'a task_system \<Rightarrow> 'a task_system" where
  "task_consumer cap spurious k s =
     (case tcpc s k of
        TCIdle \<Rightarrow> s\<lparr>tcpc := (tcpc s)(k := TCLoaded (tk_tail (tring s)))\<rparr>
      | TCLoaded t \<Rightarrow> s\<lparr>tcpc := (tcpc s)(k := if t = tk_head (tring s) then TCIdle else TCChecked t)\<rparr>
      | TCChecked t \<Rightarrow>
          if tk_tail (tring s) = t \<and> \<not> spurious
          then s\<lparr>tring := (tring s)\<lparr>tk_tail := ring_next cap t\<rparr>, tcpc := (tcpc s)(k := TCClaimed t)\<rparr>
          else s\<lparr>tcpc := (tcpc s)(k := TCLoaded (tk_tail (tring s)))\<rparr>
      | TCClaimed t \<Rightarrow> s\<lparr>tcpc := (tcpc s)(k := TCIdle), tpopped := tpopped s @ [(k, tk_buffer (tring s) ! unat t)]\<rparr>)"

text \<open>The runs in which the consumers of a set take part.\<close>

inductive task_reachable :: "nat set \<Rightarrow> u64 \<Rightarrow> 'a list \<Rightarrow> 'a task_system \<Rightarrow> bool" for N cap buf where
  task_start: "task_reachable N cap buf (task_system_init buf)"
| task_produce: "task_reachable N cap buf s \<Longrightarrow> task_reachable N cap buf (task_producer cap x s)"
| task_consume: "task_reachable N cap buf s \<Longrightarrow> k \<in> N \<Longrightarrow> task_reachable N cap buf (task_consumer cap spurious k s)"

text \<open>The invariant with one consumer. The slot it has claimed is the one that the ring leaves free.\<close>

definition claimed :: "'a task_system \<Rightarrow> 'a list" where
  "claimed s = (case tcpc s 0 of TCClaimed t \<Rightarrow> [tk_buffer (tring s) ! unat t] | _ \<Rightarrow> [])"

definition task_system_ok :: "u64 \<Rightarrow> 'a task_system \<Rightarrow> bool" where
  "task_system_ok cap s \<longleftrightarrow> task_ok cap (tring s) \<and>
     tpushed s = map snd (tpopped s) @ claimed s @ task_contents cap (tring s) \<and>
     (case tppc s of TPIdle \<Rightarrow> True
        | TPWrite y \<Rightarrow> ring_next cap (tk_head (tring s)) \<noteq> tk_tail (tring s)
        | TPStore y \<Rightarrow> ring_next cap (tk_head (tring s)) \<noteq> tk_tail (tring s) \<and> tk_buffer (tring s) ! unat (tk_head (tring s)) = y) \<and>
     (case tcpc s 0 of TCIdle \<Rightarrow> True
        | TCLoaded t \<Rightarrow> t = tk_tail (tring s)
        | TCChecked t \<Rightarrow> t = tk_tail (tring s) \<and> tk_head (tring s) \<noteq> t
        | TCClaimed t \<Rightarrow> t < cap \<and> ring_next cap t = tk_tail (tring s))"

lemma ring_next_inj: "cap_ok cap \<Longrightarrow> a < cap \<Longrightarrow> b < cap \<Longrightarrow> ring_next cap a = ring_next cap b \<longleftrightarrow> a = b"
  by (auto simp: word_unat_eq_iff unat_ring_next word_less_nat_alt split: if_splits)

lemma ring_seq_other_slot:
  assumes "cap_ok cap" "h < cap" "t < cap" "length buf = unat cap" "ring_next cap h \<noteq> t"
  shows "ring_seq cap (buf[unat h := x]) t h = ring_seq cap buf t h"
proof -
  have "butlast (ring_seq cap b t (ring_next cap h)) = ring_seq cap b t h" for b :: "'a list"
    by (simp add: ring_seq_def span_next_head [OF assms(1,2,3,5)])
  then show ?thesis using ring_seq_write [OF assms(1-5), of x] by (metis butlast_snoc)
qed

lemma task_producer_ok:
  assumes "task_system_ok cap s" shows "task_system_ok cap (task_producer cap x s)"
proof -
  have ok: "task_ok cap (tring s)" using assms by (simp add: task_system_ok_def)
  note d = task_okD [OF ok]
  show ?thesis
  proof (cases "tppc s")
    case TPIdle
    then show ?thesis using assms by (auto simp: task_system_ok_def claimed_def split: task_cpc.splits)
  next
    case (TPWrite y)
    have n: "ring_next cap (tk_head (tring s)) \<noteq> tk_tail (tring s)" using assms TPWrite by (simp add: task_system_ok_def)
    have other: "unat t \<noteq> unat (tk_head (tring s))" if "tcpc s 0 = TCClaimed t" for t
      using assms that n by (auto simp: task_system_ok_def word_unat_eq_iff [symmetric])
    have "task_contents cap ((tring s)\<lparr>tk_buffer := (tk_buffer (tring s))[unat (tk_head (tring s)) := y]\<rparr>) = task_contents cap (tring s)"
      using ring_seq_other_slot [OF d(1,3,4,2) n] by (simp add: task_contents_def)
    moreover have "unat (tk_head (tring s)) < length (tk_buffer (tring s))" using d(2,3) by (simp add: word_less_nat_alt)
    ultimately show ?thesis
      using assms TPWrite n other d by (auto simp: task_system_ok_def task_ok_def claimed_def split: task_cpc.splits)
  next
    case (TPStore y)
    have n: "ring_next cap (tk_head (tring s)) \<noteq> tk_tail (tring s)" "tk_buffer (tring s) ! unat (tk_head (tring s)) = y"
      using assms TPStore by (simp_all add: task_system_ok_def)
    have "(tk_buffer (tring s))[unat (tk_head (tring s)) := y] = tk_buffer (tring s)" using n(2) by (metis list_update_id)
    then have "task_contents cap ((tring s)\<lparr>tk_head := ring_next cap (tk_head (tring s))\<rparr>) = task_contents cap (tring s) @ [y]"
      using ring_seq_write [OF d(1,3,4,2) n(1), of y] by (simp add: task_contents_def)
    then show ?thesis
      using assms TPStore n d ring_next_less [OF d(1)] by (auto simp: task_system_ok_def task_ok_def claimed_def split: task_cpc.splits)
  qed
qed

lemma task_consumer_ok:
  assumes "task_system_ok cap s" shows "task_system_ok cap (task_consumer cap spurious 0 s)"
proof -
  have ok: "task_ok cap (tring s)" using assms by (simp add: task_system_ok_def)
  note d = task_okD [OF ok]
  show ?thesis
  proof (cases "tcpc s 0")
    case (TCChecked t)
    then have t: "t = tk_tail (tring s)" "tk_head (tring s) \<noteq> tk_tail (tring s)" using assms by (auto simp: task_system_ok_def)
    have "task_contents cap (tring s) = tk_buffer (tring s) ! unat t # task_contents cap ((tring s)\<lparr>tk_tail := ring_next cap t\<rparr>)"
      using ring_seq_read [OF d(1,3,4) t(2), of "tk_buffer (tring s)"] by (simp add: task_contents_def t(1))
    moreover have "ring_next cap (tk_head (tring s)) \<noteq> ring_next cap t" using t ring_next_inj [OF d(1,3,4)] by simp
    ultimately show ?thesis
      using assms TCChecked t d ring_next_less [OF d(1)]
      by (auto simp: task_system_ok_def task_ok_def claimed_def split: task_ppc.splits)
  qed (use assms in \<open>auto simp: task_system_ok_def claimed_def split: task_ppc.splits\<close>)
qed

lemma task_reachable_ok:
  assumes "task_reachable {0} cap buf s" "cap_ok cap" "length buf = unat cap"
  shows "task_system_ok cap s"
  using assms(1)
proof induction
  case task_start
  show ?case using task_ok_init [OF assms(2,3)]
    by (simp add: task_system_ok_def task_system_init_def claimed_def task_contents_def task_init_def ring_seq_def)
next
  case (task_consume s k spurious)
  then show ?case using task_consumer_ok [of cap s spurious] by (simp only: singleton_iff)
qed (rule task_producer_ok)

section \<open>Properties of the task ring\<close>

text \<open>C20: with one consumer thread, in every interleaving with the producer and whatever exchanges fail spuriously, the tasks returned, the one that is claimed and those in the
  ring are together the tasks published, in order: every task is consumed exactly once. The claimed slot is not written before it was read.\<close>

theorem task_ring_single_consumer:
  assumes "task_reachable {0} cap buf s" "cap_ok cap" "length buf = unat cap"
  shows "tpushed s = map snd (tpopped s) @ claimed s @ task_contents cap (tring s) \<and>
    length (task_contents cap (tring s)) < unat cap \<and>
    (\<forall>t y. tcpc s 0 = TCClaimed t \<and> tppc s = TPWrite y \<longrightarrow> tk_head (tring s) \<noteq> t)"
proof -
  have ok: "task_system_ok cap s" by (rule task_reachable_ok [OF assms])
  then have "task_ok cap (tring s)" by (simp add: task_system_ok_def)
  from task_okD [OF this] have "length (task_contents cap (tring s)) < unat cap" by (simp add: task_contents_def span_less)
  then show ?thesis using ok by (auto simp: task_system_ok_def)
qed

definition sample_task_run :: "nat task_system" where
  "sample_task_run = (task_consumer 2 False 0 \<circ> task_consumer 2 False 0 \<circ> task_consumer 2 True 0 \<circ> task_consumer 2 False 0 \<circ> task_consumer 2 False 0 \<circ>
     task_producer 2 0 \<circ> task_producer 2 0 \<circ> task_producer 2 8) (task_system_init [0, 0])"

lemma cap_ok_2: "cap_ok 2"
  by (auto simp: cap_ok_def intro!: exI [of _ 1])

theorem task_ring_single_consumer_witness:
  "tpushed sample_task_run = [8] \<and> claimed sample_task_run = [8] \<and> tpopped sample_task_run = []"
proof -
  have r: "task_reachable {0} 2 [0, 0] sample_task_run"
    unfolding sample_task_run_def o_apply by (intro task_start task_produce task_consume) simp_all
  have "length [0 :: nat, 0] = unat (2 :: u64)" by simp
  from task_ring_single_consumer [OF r cap_ok_2 this]
  have "tpushed sample_task_run = map snd (tpopped sample_task_run) @ claimed sample_task_run @ task_contents 2 (tring sample_task_run)" by blast
  moreover have "tpushed sample_task_run = [8]" "tpopped sample_task_run = []" "task_contents 2 (tring sample_task_run) = []" by code_simp+
  ultimately show ?thesis by simp
qed

text \<open>C21: with two consumers a task can be lost and another one executed twice. One consumer claims the slot of the first task and is delayed; the other takes the second
  task, so that the producer may write the first slot again; the delayed consumer then reads the third task, which is still in the ring and is returned once more.\<close>

theorem task_ring_two_consumers_lose:
  "\<exists>s. task_reachable {0, 1} 2 [0, 0 :: nat] s \<and> tpushed s = [1, 2, 3] \<and> tpopped s = [(0, 3), (1, 2), (0, 3)]"
proof -
  let ?p = "\<lambda>x. task_producer 2 x \<circ> task_producer 2 x \<circ> task_producer 2 x"
  let ?c = "\<lambda>k. task_consumer 2 False k"
  let ?s = "(?c 0 \<circ> ?c 0 \<circ> ?c 0 \<circ> ?c 0 \<circ> ?c 1 \<circ> ?c 0 \<circ> ?p 3 \<circ> ?c 1 \<circ> ?c 1 \<circ> ?c 1 \<circ> ?p 2 \<circ> ?c 0 \<circ> ?c 0 \<circ> ?c 0 \<circ> ?p 1) (task_system_init [0, 0 :: nat])"
  have "task_reachable {0, 1} 2 [0, 0] ?s"
    unfolding o_apply by (intro task_start task_produce task_consume) simp_all
  moreover have "tpushed ?s = [1, 2, 3]" "tpopped ?s = [(0, 3), (1, 2), (0, 3)]"
    by (simp_all add: task_system_init_def task_init_def ring_next_def)
  ultimately show ?thesis by blast
qed

end
