(* ===== verification/Fanout_Ring.thy ===== *)
theory Fanout_Ring
  imports Bounded_Queue
begin

unbundle bit_operations_syntax

text \<open>
  The ring that hands every element to each of its consumers (lockfree/spmc_fanout_ring.hpp). Head and tails count without a mask; a slot is addressed by
  the masked count. What an object is after it was moved from is the argument \<open>moved\<close>, the identity for the trivially copyable types. \<open>None\<close> is an
  access behind the end of the array of tails.
\<close>

section \<open>State and operations\<close>

record 'a fanout =
  fo_buffer :: "'a list"
  fo_head :: u64
  fo_tails :: "u64 list"
  fo_count :: u64

definition fanout_init :: "'a list \<Rightarrow> nat \<Rightarrow> 'a fanout" where
  "fanout_init buf max_consumers = \<lparr>fo_buffer = buf, fo_head = 0, fo_tails = replicate max_consumers 0, fo_count = 0\<rparr>"

definition SIZE_MAX :: u64 where "SIZE_MAX = - 1"

definition register_consumer :: "'a fanout \<Rightarrow> 'a fanout \<times> u64" where
  "register_consumer q =
     (let i = fo_count q; q1 = q\<lparr>fo_count := fo_count q + 1\<rparr> in
      if unat i \<ge> length (fo_tails q) then (q1, SIZE_MAX)
      else (q1\<lparr>fo_tails := (fo_tails q1)[unat i := fo_head q1]\<rparr>, i))"

fun min_tail_loop :: "u64 list \<Rightarrow> nat list \<Rightarrow> u64 \<Rightarrow> u64 option" where
  "min_tail_loop tails [] m = Some m"
| "min_tail_loop tails (i # is) m =
     (if i < length tails then min_tail_loop tails is (if tails ! i < m then tails ! i else m) else None)"

definition min_consumer_tail :: "'a fanout \<Rightarrow> u64 option" where
  "min_consumer_tail q =
     map_option (\<lambda>m. if m = SIZE_MAX then fo_head q else m) (min_tail_loop (fo_tails q) [0..<unat (fo_count q)] SIZE_MAX)"

definition fanout_slot :: "u64 \<Rightarrow> u64 \<Rightarrow> nat" where "fanout_slot cap i = unat (i AND (cap - 1))"

definition fanout_push :: "u64 \<Rightarrow> 'a fanout \<Rightarrow> 'a \<Rightarrow> ('a fanout \<times> bool) option" where
  "fanout_push cap q item =
     (case min_consumer_tail q of
        None \<Rightarrow> None
      | Some min_tail \<Rightarrow>
          if fo_head q - min_tail \<ge> cap then Some (q, False)
          else Some (q\<lparr>fo_buffer := (fo_buffer q)[fanout_slot cap (fo_head q) := item], fo_head := fo_head q + 1\<rparr>, True))"

definition fanout_pop :: "u64 \<Rightarrow> ('a \<Rightarrow> 'a) \<Rightarrow> u64 \<Rightarrow> 'a fanout \<Rightarrow> ('a fanout \<times> 'a option) option" where
  "fanout_pop cap moved consumer_id q =
     (if consumer_id \<ge> fo_count q then Some (q, None)
      else if unat consumer_id \<ge> length (fo_tails q) then None
      else
        let t = fo_tails q ! unat consumer_id; slot = fanout_slot cap t; item = fo_buffer q ! slot in
        if t = fo_head q then Some (q, None)
        else Some (q\<lparr>fo_buffer := (fo_buffer q)[slot := moved item], fo_tails := (fo_tails q)[unat consumer_id := t + 1]\<rparr>, Some item))"

section \<open>Streams\<close>

text \<open>The ring against the list of all elements that were pushed: every consumer is at most the capacity behind, and the last elements are in their slots.\<close>

definition fanout_ok :: "u64 \<Rightarrow> 'a fanout \<Rightarrow> 'a list \<Rightarrow> bool" where
  "fanout_ok cap q log \<longleftrightarrow> cap_ok cap \<and> length (fo_buffer q) = unat cap \<and> unat (fo_head q) = length log \<and> length log < 2 ^ 64 - 1 \<and>
     unat (fo_count q) \<le> length (fo_tails q) \<and>
     (\<forall>i < unat (fo_count q). unat (fo_tails q ! i) \<le> length log \<and> length log \<le> unat (fo_tails q ! i) + unat cap) \<and>
     (\<forall>i < length log. length log \<le> i + unat cap \<longrightarrow> fo_buffer q ! (i mod unat cap) = log ! i)"

definition pending :: "'a fanout \<Rightarrow> 'a list \<Rightarrow> u64 \<Rightarrow> 'a list" where
  "pending q log c = drop (unat (fo_tails q ! unat c)) log"

lemma fanout_okD:
  assumes "fanout_ok cap q log"
  shows "cap_ok cap" "length (fo_buffer q) = unat cap" "unat (fo_head q) = length log" "length log < 2 ^ 64 - 1" "unat (fo_count q) \<le> length (fo_tails q)"
    "i < unat (fo_count q) \<Longrightarrow> unat (fo_tails q ! i) \<le> length log \<and> length log \<le> unat (fo_tails q ! i) + unat cap"
    "i < length log \<Longrightarrow> length log \<le> i + unat cap \<Longrightarrow> fo_buffer q ! (i mod unat cap) = log ! i"
  using assms by (simp_all add: fanout_ok_def)

lemma fanout_slot_mod: "cap_ok cap \<Longrightarrow> fanout_slot cap i = unat i mod unat cap"
  by (simp add: fanout_slot_def unat_masked)

lemma fanout_ok_init: "cap_ok cap \<Longrightarrow> length buf = unat cap \<Longrightarrow> fanout_ok cap (fanout_init buf n) []"
  by (simp add: fanout_ok_def fanout_init_def)

lemma unat_SIZE_MAX: "unat SIZE_MAX = 2 ^ 64 - 1"
  by (simp add: SIZE_MAX_def unsigned_minus_1_eq_mask mask_eq_exp_minus_1)

lemma min_tail_loop_spec:
  "\<forall>i \<in> set is. i < length tails \<Longrightarrow> \<exists>r. min_tail_loop tails is m = Some r \<and> (r = m \<or> (\<exists>i \<in> set is. r = tails ! i)) \<and> r \<le> m \<and> (\<forall>i \<in> set is. r \<le> tails ! i)"
proof (induction "is" arbitrary: m)
  case (Cons i js)
  obtain r where r: "min_tail_loop tails js (if tails ! i < m then tails ! i else m) = Some r"
    "r = (if tails ! i < m then tails ! i else m) \<or> (\<exists>i \<in> set js. r = tails ! i)" "r \<le> (if tails ! i < m then tails ! i else m)" "\<forall>i \<in> set js. r \<le> tails ! i"
    using Cons.IH [of "if tails ! i < m then tails ! i else m"] Cons.prems by auto
  then show ?case using Cons.prems by (auto split: if_splits intro: exI [of _ r])
qed simp

text \<open>The test for room looks at the slowest consumer.\<close>

lemma min_consumer_tail_spec:
  assumes "fanout_ok cap q log"
  shows "\<exists>m. min_consumer_tail q = Some m \<and> unat (fo_head q - m) \<le> unat cap \<and>
    (fo_head q - m \<ge> cap \<longleftrightarrow> (\<exists>i < unat (fo_count q). length log = unat (fo_tails q ! i) + unat cap))"
proof -
  note d = fanout_okD [OF assms]
  obtain r where r: "min_tail_loop (fo_tails q) [0..<unat (fo_count q)] SIZE_MAX = Some r"
    "r = SIZE_MAX \<or> (\<exists>i < unat (fo_count q). r = fo_tails q ! i)" "\<forall>i < unat (fo_count q). r \<le> fo_tails q ! i"
    using min_tail_loop_spec [of "[0..<unat (fo_count q)]" "fo_tails q" SIZE_MAX] d(5) by force
  show ?thesis
  proof (cases "r = SIZE_MAX")
    case True
    have "unat (fo_count q) = 0"
    proof (rule ccontr)
      assume "unat (fo_count q) \<noteq> 0"
      then have "SIZE_MAX \<le> fo_tails q ! 0" "unat (fo_tails q ! 0) \<le> length log" using r(3) True d(6) [of 0] by auto
      then show False using d(4) by (simp add: word_le_nat_alt unat_SIZE_MAX)
    qed
    moreover have "0 < cap" using cap_ok_ge2 [OF d(1)] by (simp add: word_less_nat_alt)
    ultimately show ?thesis using r(1) True by (simp add: min_consumer_tail_def)
  next
    case False
    then obtain i where i: "i < unat (fo_count q)" "r = fo_tails q ! i" using r(2) by blast
    note t = d(6) [OF i(1)]
    have u: "unat (fo_head q - r) = length log - unat r" using t d(3) i(2) by (simp add: unat_sub_if')
    have "length log = unat r + unat cap" if "j < unat (fo_count q)" "length log = unat (fo_tails q ! j) + unat cap" for j
    proof -
      have "unat r \<le> unat (fo_tails q ! j)" using r(3) that(1) by (simp add: word_le_nat_alt)
      then show ?thesis using t i(2) that(2) by simp
    qed
    then have "length log = unat r + unat cap \<longleftrightarrow> (\<exists>i < unat (fo_count q). length log = unat (fo_tails q ! i) + unat cap)"
      using i by blast
    moreover have "cap \<le> fo_head q - r \<longleftrightarrow> length log = unat r + unat cap" using u t i(2) by (auto simp: word_le_nat_alt)
    ultimately show ?thesis using r(1) False u t i(2) by (auto simp: min_consumer_tail_def)
  qed
qed

lemma slot_distinct:
  assumes "(i :: nat) < n" "n < i + c"
  shows "i mod c \<noteq> n mod c"
proof
  assume "i mod c = n mod c"
  then have "c dvd n - i" using assms(1) by (simp add: mod_eq_dvd_iff_nat [symmetric])
  moreover have "0 < n - i" "n - i < c" using assms by simp_all
  ultimately show False using nat_dvd_not_less by blast
qed

lemma fanout_push_facts:
  assumes "fanout_ok cap q log" "length log + 1 < 2 ^ 64 - 1"
  shows "\<exists>q' ok. fanout_push cap q x = Some (q', ok) \<and> fanout_ok cap q' (if ok then log @ [x] else log) \<and>
    (ok \<longleftrightarrow> (\<forall>i < unat (fo_count q). length log < unat (fo_tails q ! i) + unat cap)) \<and> fo_tails q' = fo_tails q \<and> fo_count q' = fo_count q"
proof -
  note d = fanout_okD [OF assms(1)]
  obtain m where m: "min_consumer_tail q = Some m" "unat (fo_head q - m) \<le> unat cap"
    "fo_head q - m \<ge> cap \<longleftrightarrow> (\<exists>i < unat (fo_count q). length log = unat (fo_tails q ! i) + unat cap)"
    using min_consumer_tail_spec [OF assms(1)] by blast
  show ?thesis
  proof (cases "fo_head q - m \<ge> cap")
    case True
    then show ?thesis using m assms(1) by (fastforce simp: fanout_push_def)
  next
    case False
    let ?q = "q\<lparr>fo_buffer := (fo_buffer q)[fanout_slot cap (fo_head q) := x], fo_head := fo_head q + 1\<rparr>"
    have room: "length log < unat (fo_tails q ! i) + unat cap" if "i < unat (fo_count q)" for i
      using False m(3) that d(6) [OF that] by (metis le_neq_implies_less)
    have h: "unat (fo_head q + 1) = length log + 1" using d(3) assms(2) by (simp add: unat_word_ariths)
    have slot: "fanout_slot cap (fo_head q) = length log mod unat cap" using fanout_slot_mod [OF d(1)] d(3) by simp
    have pos: "0 < unat cap" using cap_ok_ge2 [OF d(1)] by simp
    have "fo_buffer ?q ! (i mod unat cap) = (log @ [x]) ! i" if "i < length (log @ [x])" "length (log @ [x]) \<le> i + unat cap" for i
    proof (cases "i = length log")
      case True
      then show ?thesis using slot d(2) pos by simp
    next
      case False
      then have i: "i < length log" using that(1) by simp
      then have "i mod unat cap \<noteq> length log mod unat cap" using slot_distinct [of i "length log" "unat cap"] that(2) by simp
      then show ?thesis using slot d(7) [OF i] that(2) i by (simp add: nth_append)
    qed
    then have "fanout_ok cap ?q (log @ [x])"
      using d(1-5) h assms(2) room d(6) by (fastforce simp: fanout_ok_def)
    then show ?thesis using False m(1) room by (intro exI [of _ ?q] exI [of _ True]) (simp add: fanout_push_def)
  qed
qed

lemma fanout_pop_facts:
  assumes "fanout_ok cap q log" "c < fo_count q" "moved = (\<lambda>x. x)"
  shows "\<exists>q' r. fanout_pop cap moved c q = Some (q', r) \<and> fanout_ok cap q' log \<and> fo_count q' = fo_count q \<and>
    r = (case pending q log c of [] \<Rightarrow> None | x # _ \<Rightarrow> Some x) \<and> pending q' log c = tl (pending q log c) \<and>
    (\<forall>c'. c' \<noteq> c \<longrightarrow> pending q' log c' = pending q log c')"
proof -
  note d = fanout_okD [OF assms(1)]
  have c: "unat c < unat (fo_count q)" "\<not> fo_count q \<le> c" using assms(2) by (simp_all add: not_le word_less_nat_alt)
  note t = d(6) [OF c(1)]
  let ?t = "fo_tails q ! unat c"
  show ?thesis
  proof (cases "?t = fo_head q")
    case True
    then have "pending q log c = []" using d(3) by (simp add: pending_def)
    then show ?thesis using True c d(5) assms(1) by (simp add: fanout_pop_def Let_def)
  next
    case False
    then have lt: "unat ?t < length log" using t d(3) by (metis le_neq_implies_less word_unat_eq_iff)
    let ?q = "q\<lparr>fo_tails := (fo_tails q)[unat c := ?t + 1]\<rparr>"
    have u: "unat (?t + 1) = unat ?t + 1" using lt d(4) by (simp add: unat_word_ariths)
    have item: "fo_buffer q ! fanout_slot cap ?t = log ! unat ?t"
      using d(7) [OF lt] t by (simp add: fanout_slot_mod [OF d(1)])
    have "(fo_buffer q)[fanout_slot cap ?t := log ! unat ?t] = fo_buffer q" using item by (metis list_update_id)
    then have "q\<lparr>fo_buffer := (fo_buffer q)[fanout_slot cap ?t := log ! unat ?t], fo_tails := (fo_tails q)[unat c := ?t + 1]\<rparr> = ?q" by (cases q) simp
    then have eq: "fanout_pop cap moved c q = Some (?q, Some (log ! unat ?t))"
      using False c d(5) item by (simp add: fanout_pop_def assms(3) Let_def)
    have p: "pending q log c = log ! unat ?t # drop (Suc (unat ?t)) log" using lt by (simp add: pending_def Cons_nth_drop_Suc)
    have "unat (fo_tails ?q ! i) \<le> length log \<and> length log \<le> unat (fo_tails ?q ! i) + unat cap" if "i < unat (fo_count q)" for i
      using d(5) d(6) [OF that] that u lt t by (cases "i = unat c") simp_all
    then have "fanout_ok cap ?q log" using assms(1) by (simp add: fanout_ok_def)
    moreover have "pending ?q log c = drop (Suc (unat ?t)) log" using c d(5) u by (simp add: pending_def)
    moreover have "pending ?q log c' = pending q log c'" if "c' \<noteq> c" for c' using that by (simp add: pending_def word_unat_eq_iff)
    ultimately show ?thesis using eq p by simp
  qed
qed

lemma register_facts:
  assumes "fanout_ok cap q log" "unat (fo_count q) < length (fo_tails q)" "length (fo_tails q) < 2 ^ 64"
  shows "\<exists>q'. register_consumer q = (q', fo_count q) \<and> fanout_ok cap q' log \<and> pending q' log (fo_count q) = [] \<and> fo_count q' = fo_count q + 1 \<and>
    (\<forall>c < fo_count q. pending q' log c = pending q log c)"
proof -
  note d = fanout_okD [OF assms(1)]
  let ?q = "q\<lparr>fo_count := fo_count q + 1, fo_tails := (fo_tails q)[unat (fo_count q) := fo_head q]\<rparr>"
  have u: "unat (fo_count q + 1) = unat (fo_count q) + 1" using assms(2,3) by (simp add: unat_word_ariths)
  have "unat (fo_tails ?q ! i) \<le> length log \<and> length log \<le> unat (fo_tails ?q ! i) + unat cap" if "i < unat (fo_count ?q)" for i
    using that assms(2) d(3) d(6) [of i] u by (cases "i = unat (fo_count q)") simp_all
  then have "fanout_ok cap ?q log" using assms(1,2) u by (simp add: fanout_ok_def)
  moreover have "register_consumer q = (?q, fo_count q)" using assms(2) by (simp add: register_consumer_def Let_def)
  ultimately show ?thesis using assms(2) d(3) by (intro exI [of _ ?q]) (auto simp: pending_def word_less_nat_alt)
qed

section \<open>Properties\<close>

text \<open>The ring gives each registered consumer the stream of all elements pushed after its registration, in order and at its own pace, for elements that are not
  changed by a move. A push succeeds exactly when no consumer is a whole capacity behind, and then appends to every stream; a pop takes the next
  element of its own stream and leaves the others alone; a new consumer starts with an empty stream.\<close>

theorem fanout_ring_streams:
  assumes "fanout_ok cap q log" "length log + 1 < 2 ^ 64 - 1" "length (fo_tails q) < 2 ^ 64"
  shows "(\<exists>q' ok. fanout_push cap q x = Some (q', ok) \<and> fanout_ok cap q' (if ok then log @ [x] else log) \<and>
      (ok \<longleftrightarrow> (\<forall>c < fo_count q. length (pending q log c) < unat cap)) \<and>
      (ok \<longrightarrow> (\<forall>c < fo_count q. pending q' (log @ [x]) c = pending q log c @ [x]))) \<and>
    (c < fo_count q \<longrightarrow> (\<exists>q' r. fanout_pop cap (\<lambda>x. x) c q = Some (q', r) \<and> fanout_ok cap q' log \<and>
      r = (case pending q log c of [] \<Rightarrow> None | x # _ \<Rightarrow> Some x) \<and> pending q' log c = tl (pending q log c) \<and>
      (\<forall>c'. c' \<noteq> c \<longrightarrow> pending q' log c' = pending q log c'))) \<and>
    (unat (fo_count q) < length (fo_tails q) \<longrightarrow> (\<exists>q'. register_consumer q = (q', fo_count q) \<and> fanout_ok cap q' log \<and>
      pending q' log (fo_count q) = [] \<and> (\<forall>c < fo_count q. pending q' log c = pending q log c)))"
proof -
  note d = fanout_okD [OF assms(1)]
  obtain q' ok where p: "fanout_push cap q x = Some (q', ok)" "fanout_ok cap q' (if ok then log @ [x] else log)"
    "ok \<longleftrightarrow> (\<forall>i < unat (fo_count q). length log < unat (fo_tails q ! i) + unat cap)" "fo_tails q' = fo_tails q"
    using fanout_push_facts [OF assms(1,2), of x] by blast
  have each: "(\<forall>i < unat (fo_count q). P i) \<longleftrightarrow> (\<forall>c < fo_count q. P (unat c))" for P
  proof (intro iffI allI impI)
    fix i assume a: "\<forall>c < fo_count q. P (unat c)" "i < unat (fo_count q)"
    have "unat (fo_count q) < 2 ^ 64" by (rule order_less_le_trans [OF unsigned_less]) simp
    then have "i < 2 ^ 64" using a(2) by simp
    then have "unat (of_nat i :: u64) = i" by (simp add: unsigned_of_nat take_bit_nat_eq_self)
    then show "P i" using a by (metis word_less_nat_alt)
  qed (simp add: word_less_nat_alt)
  have le: "unat (fo_tails q ! unat c) \<le> length log" if "c < fo_count q" for c using d(6) that by (simp add: word_less_nat_alt)
  have "ok \<longleftrightarrow> (\<forall>c < fo_count q. length (pending q log c) < unat cap)"
    unfolding p(3) each pending_def using le cap_ok_ge2 [OF d(1)] by (auto simp: less_diff_conv2 add.commute)
  moreover have "pending q' (log @ [x]) c = pending q log c @ [x]" if "c < fo_count q" for c
    using le [OF that] by (simp add: pending_def p(4))
  ultimately show ?thesis
    using p(1,2) fanout_pop_facts [OF assms(1), of c "\<lambda>x. x"] register_facts [OF assms(1) _ assms(3)] by blast
qed

definition sample_fanout :: "nat fanout" where
  "sample_fanout = fst (register_consumer (fst (register_consumer (fanout_init [0, 0] 2))))"

lemma sample_fanout_eq: "sample_fanout = \<lparr>fo_buffer = [0, 0], fo_head = 0, fo_tails = [0, 0], fo_count = 2\<rparr>"
  by (simp add: sample_fanout_def register_consumer_def fanout_init_def Let_def numeral_2_eq_2)

lemma sample_fanout_ok: "fanout_ok 2 sample_fanout []"
proof -
  have "cap_ok 2" by (auto simp: cap_ok_def intro!: exI [of _ 1])
  then show ?thesis by (simp add: fanout_ok_def sample_fanout_eq less_2_cases_iff)
qed

theorem fanout_ring_streams_witness:
  "\<exists>q'. fanout_push 2 sample_fanout 5 = Some (q', True) \<and> pending q' [5] 0 = [5] \<and> pending q' [5] 1 = [5]"
proof -
  have c: "fo_count sample_fanout = 2" "fo_tails sample_fanout = [0, 0]"
    by (simp_all add: sample_fanout_eq)
  then obtain q' ok where p: "fanout_push 2 sample_fanout 5 = Some (q', ok)" "ok \<longleftrightarrow> (\<forall>c < 2. length (pending sample_fanout [] c) < unat (2 :: u64))"
    "ok \<longrightarrow> (\<forall>c < 2. pending q' ([] @ [5]) c = pending sample_fanout [] c @ [5])"
    using fanout_ring_streams [OF sample_fanout_ok, of 5 0] by auto
  have "pending sample_fanout [] c = []" for c by (simp add: pending_def)
  then have "ok" "pending q' [5] c = [5]" if "c < 2" for c using p(2,3) that by simp_all
  from this(1) [of 0] this(2) [of 0] this(2) [of 1] show ?thesis using p(1) by simp
qed

text \<open>A pop moves the element out of the shared slot: the next consumer gets what is left of it.\<close>

lemma fanout_pop_moves_out:
  "\<exists>q1 q2 q3. fanout_push 2 sample_fanout 5 = Some (q1, True) \<and> fanout_pop 2 (\<lambda>_. 0) 0 q1 = Some (q2, Some 5) \<and>
     fanout_pop 2 (\<lambda>_. 0) 1 q2 = Some (q3, Some 0)"
  by (simp add: sample_fanout_eq Let_def fanout_push_def fanout_pop_def min_consumer_tail_def fanout_slot_def SIZE_MAX_def upt_rec word_le_nat_alt)

text \<open>A registration that fails has counted the consumer all the same: the next push reads a tail behind the end of the array.\<close>

lemma failed_registration_breaks_push:
  assumes "unat (fo_count q) = length (fo_tails q)" "length (fo_tails q) < 2 ^ 64 - 1"
  shows "snd (register_consumer q) = SIZE_MAX \<and> fanout_push cap (fst (register_consumer q)) x = None"
proof -
  have "unat (fo_count q + 1) = Suc (length (fo_tails q))" using assms by (simp add: unat_word_ariths)
  moreover have "min_tail_loop tails (is @ [length tails]) m = None" for tails "is" m by (induction "is" arbitrary: m) simp_all
  ultimately show ?thesis using assms(1) by (simp add: register_consumer_def Let_def fanout_push_def min_consumer_tail_def)
qed

end
