(* ===== verification/Last_Value.thy ===== *)
theory Last_Value
  imports Prelude
begin

text \<open>
  The slots that keep the last value of a single writer (lockfree/slot/last_value.hpp, lockfree/slot/last_value_snapshot.hpp). A value is the list of its words. The
  sequential operations come first; then writer and reader are split into their shared-memory actions, the copy of a value being one action for
  each word.
\<close>

section \<open>The plain slot\<close>

record 'w value_slot =
  slot_value :: "'w list"
  slot_epoch :: u64

definition slot_store :: "'w list \<Rightarrow> 'w value_slot \<Rightarrow> 'w value_slot" where
  "slot_store v s = s\<lparr>slot_value := v, slot_epoch := slot_epoch s + 1\<rparr>"

text \<open>The value and the new epoch of the reader, if there was an update.\<close>

definition load_if_updated :: "u64 \<Rightarrow> 'w value_slot \<Rightarrow> ('w list \<times> u64) option" where
  "load_if_updated last_epoch s =
     (if slot_epoch s = last_epoch then None else Some (slot_value s, slot_epoch s))"

lemma load_after_store: "load_if_updated (slot_epoch s) (slot_store v s) = Some (v, slot_epoch s + 1)"
  by (simp add: load_if_updated_def slot_store_def)

lemma load_twice: "load_if_updated e s = Some (v, e') \<Longrightarrow> load_if_updated e' s = None"
  by (auto simp: load_if_updated_def split: if_splits)

section \<open>The double-buffered slot\<close>

record 'w snapshot_slot =
  snap_buffers :: "'w list list"
  snap_active :: nat
  snap_epoch :: u64

definition snap_publish :: "'w list \<Rightarrow> 'w snapshot_slot \<Rightarrow> 'w snapshot_slot" where
  "snap_publish v s =
     (let next_index = 1 - snap_active s in
      s\<lparr>snap_buffers := (snap_buffers s)[next_index := v], snap_active := next_index, snap_epoch := snap_epoch s + 1\<rparr>)"

definition snap_load_if_updated :: "u64 \<Rightarrow> 'w snapshot_slot \<Rightarrow> ('w list \<times> u64) option" where
  "snap_load_if_updated last_epoch s =
     (if snap_epoch s = last_epoch then None else Some (snap_buffers s ! snap_active s, snap_epoch s))"

lemma snap_load_after_publish:
  "length (snap_buffers s) = 2 \<Longrightarrow> snap_active s \<le> 1 \<Longrightarrow> snap_load_if_updated (snap_epoch s) (snap_publish v s) = Some (v, snap_epoch s + 1)"
  by (simp add: snap_load_if_updated_def snap_publish_def Let_def)

section \<open>Writer and reader as threads\<close>

text \<open>
  The double-buffered slot with threads; the plain slot is the case where the writer never changes the index. The writer copies a value into the buffer
  \<open>target\<close>, stores the index and then counts the epoch. The reader loads the epoch, loads the index and copies the words of that buffer.
\<close>

datatype 'w writer_pc = WriterIdle | WriterCopy "'w list" nat | WriterIndex | WriterEpoch

datatype 'w reader_pc = ReaderIdle | ReaderIndex u64 | ReaderCopy u64 nat "'w list"

record 'w slot_system =
  ss_slot :: "'w snapshot_slot"
  ss_writer :: "'w writer_pc"
  ss_reader :: "'w reader_pc"
  ss_last :: u64
  ss_stored :: "'w list list"
  ss_loaded :: "'w list list"

definition slot_system_init :: "nat \<Rightarrow> 'w \<Rightarrow> 'w slot_system" where
  "slot_system_init n w = \<lparr>ss_slot = \<lparr>snap_buffers = [replicate n w, replicate n w], snap_active = 0, snap_epoch = 0\<rparr>,
     ss_writer = WriterIdle, ss_reader = ReaderIdle, ss_last = 0, ss_stored = [], ss_loaded = []\<rparr>"

text \<open>With \<open>double\<close> the writer alternates between the buffers, without it always writes the active one.\<close>

definition write_target :: "bool \<Rightarrow> 'w snapshot_slot \<Rightarrow> nat" where
  "write_target double s = (if double then 1 - snap_active s else snap_active s)"

fun writer_action :: "bool \<Rightarrow> 'w list \<Rightarrow> 'w slot_system \<Rightarrow> 'w slot_system" where
  "writer_action double v s =
     (case ss_writer s of
        WriterIdle \<Rightarrow> s\<lparr>ss_writer := WriterCopy v 0, ss_stored := ss_stored s @ [v]\<rparr>
      | WriterCopy w i \<Rightarrow>
          if i < length w
          then let b = write_target double (ss_slot s) in
               s\<lparr>ss_slot := (ss_slot s)\<lparr>snap_buffers := (snap_buffers (ss_slot s))[b := (snap_buffers (ss_slot s) ! b)[i := w ! i]]\<rparr>,
                 ss_writer := WriterCopy w (i + 1)\<rparr>
          else s\<lparr>ss_writer := WriterIndex\<rparr>
      | WriterIndex \<Rightarrow> s\<lparr>ss_slot := (ss_slot s)\<lparr>snap_active := write_target double (ss_slot s)\<rparr>, ss_writer := WriterEpoch\<rparr>
      | WriterEpoch \<Rightarrow> s\<lparr>ss_slot := (ss_slot s)\<lparr>snap_epoch := snap_epoch (ss_slot s) + 1\<rparr>, ss_writer := WriterIdle\<rparr>)"

fun reader_action :: "'w slot_system \<Rightarrow> 'w slot_system" where
  "reader_action s =
     (case ss_reader s of
        ReaderIdle \<Rightarrow>
          s\<lparr>ss_reader := if snap_epoch (ss_slot s) = ss_last s then ReaderIdle else ReaderIndex (snap_epoch (ss_slot s))\<rparr>
      | ReaderIndex e \<Rightarrow> s\<lparr>ss_reader := ReaderCopy e (snap_active (ss_slot s)) []\<rparr>
      | ReaderCopy e b out \<Rightarrow>
          if length out < length (snap_buffers (ss_slot s) ! b)
          then s\<lparr>ss_reader := ReaderCopy e b (out @ [snap_buffers (ss_slot s) ! b ! length out])\<rparr>
          else s\<lparr>ss_reader := ReaderIdle, ss_last := e, ss_loaded := ss_loaded s @ [out]\<rparr>)"

inductive slot_reachable :: "bool \<Rightarrow> nat \<Rightarrow> 'w \<Rightarrow> 'w slot_system \<Rightarrow> bool" for double n w where
  slot_start: "slot_reachable double n w (slot_system_init n w)"
| slot_write: "slot_reachable double n w s \<Longrightarrow> length v = n \<Longrightarrow> slot_reachable double n w (writer_action double v s)"
| slot_read: "slot_reachable double n w s \<Longrightarrow> slot_reachable double n w (reader_action s)"

text \<open>
  The plain slot is torn by a store between two words of a load, the double-buffered one by two stores. The second store of the latter writes the buffer
  that the reader is copying.
\<close>

lemma plain_slot_torn:
  "\<exists>s. slot_reachable False 2 (0 :: nat) s \<and> ss_stored s = [[1, 1], [2, 2]] \<and> ss_loaded s = [[1, 2]]"
proof -
  let ?w = "writer_action False" and ?r = reader_action
  let ?store = "\<lambda>v. ?w v \<circ> ?w v \<circ> ?w v \<circ> ?w v \<circ> ?w v \<circ> ?w v"
  let ?s = "(?r \<circ> ?r \<circ> ?store [2, 2] \<circ> ?r \<circ> ?r \<circ> ?r \<circ> ?store [1, 1]) (slot_system_init 2 (0 :: nat))"
  have "slot_reachable False 2 0 ?s" unfolding o_apply by (intro slot_start slot_write slot_read) simp_all
  moreover have "ss_stored ?s = [[1, 1], [2, 2]]" "ss_loaded ?s = [[1, 2]]"
    by (simp_all add: slot_system_init_def write_target_def numeral_2_eq_2 Let_def)
  ultimately show ?thesis by blast
qed

lemma snapshot_slot_torn:
  "\<exists>s. slot_reachable True 2 (0 :: nat) s \<and> ss_stored s = [[1, 1], [2, 2], [3, 3]] \<and> ss_loaded s = [[1, 3]]"
proof -
  let ?w = "writer_action True" and ?r = reader_action
  let ?store = "\<lambda>v. ?w v \<circ> ?w v \<circ> ?w v \<circ> ?w v \<circ> ?w v \<circ> ?w v"
  let ?s = "(?r \<circ> ?r \<circ> ?store [3, 3] \<circ> ?store [2, 2] \<circ> ?r \<circ> ?r \<circ> ?r \<circ> ?store [1, 1]) (slot_system_init 2 (0 :: nat))"
  have "slot_reachable True 2 0 ?s" unfolding o_apply by (intro slot_start slot_write slot_read) simp_all
  moreover have "ss_stored ?s = [[1, 1], [2, 2], [3, 3]]" "ss_loaded ?s = [[1, 3]]"
    by (simp_all add: slot_system_init_def write_target_def numeral_2_eq_2 Let_def)
  ultimately show ?thesis by blast
qed

end
