(* ===== verification/Local_Containers.thy ===== *)
theory Local_Containers
  imports Prelude
begin

text \<open>
  The containers of fixed capacity: \<^verbatim>\<open>lcr::local::vector\<close> and \<^verbatim>\<open>lcr::local::string\<close>. A container is its storage and its size, an iterator an index. \<open>None\<close> is a failed assertion of the
  debug build; the release build would access the storage out of bounds.
\<close>

section \<open>The vector\<close>

record 'a lvec =
  lv_storage :: "'a list"
  lv_size :: nat

definition vec_full :: "'a lvec \<Rightarrow> bool" where "vec_full v \<longleftrightarrow> lv_size v = length (lv_storage v)"

definition vec_empty :: "'a lvec \<Rightarrow> bool" where "vec_empty v \<longleftrightarrow> lv_size v = 0"

definition vec_at :: "nat \<Rightarrow> 'a lvec \<Rightarrow> 'a option" where
  "vec_at i v = (if i < lv_size v then Some (lv_storage v ! i) else None)"

definition vec_front :: "'a lvec \<Rightarrow> 'a option" where
  "vec_front v = (if lv_size v > 0 then Some (lv_storage v ! 0) else None)"

definition vec_back :: "'a lvec \<Rightarrow> 'a option" where
  "vec_back v = (if lv_size v > 0 then Some (lv_storage v ! (lv_size v - 1)) else None)"

definition emplace_back :: "'a \<Rightarrow> 'a lvec \<Rightarrow> 'a lvec option" where
  "emplace_back x v =
     (if lv_size v < length (lv_storage v)
      then Some (v\<lparr>lv_storage := (lv_storage v)[lv_size v := x], lv_size := lv_size v + 1\<rparr>) else None)"

definition pop_back :: "'a lvec \<Rightarrow> 'a lvec option" where
  "pop_back v = (if lv_size v > 0 then Some (v\<lparr>lv_size := lv_size v - 1\<rparr>) else None)"

definition vec_clear :: "'a lvec \<Rightarrow> 'a lvec" where "vec_clear v = v\<lparr>lv_size := 0\<rparr>"

text \<open>The loops of the constructors, of the assignments and of \<^verbatim>\<open>emplace_back\<close> over a list.\<close>

fun emplace_all :: "'a list \<Rightarrow> 'a lvec \<Rightarrow> 'a lvec option" where
  "emplace_all [] v = Some v"
| "emplace_all (x # xs) v = Option.bind (emplace_back x v) (emplace_all xs)"

definition vec_items :: "'a lvec \<Rightarrow> 'a list" where "vec_items v = take (lv_size v) (lv_storage v)"

definition vec_assign :: "'a lvec \<Rightarrow> 'a lvec \<Rightarrow> 'a lvec option" where
  "vec_assign other v = emplace_all (vec_items other) (vec_clear v)"

text \<open>A move empties the source.\<close>

definition vec_move_assign :: "'a lvec \<Rightarrow> 'a lvec \<Rightarrow> ('a lvec \<times> 'a lvec) option" where
  "vec_move_assign other v = map_option (\<lambda>v'. (v', vec_clear other)) (emplace_all (vec_items other) (vec_clear v))"

text \<open>The moves of one element to the left, from \<open>it\<close> on; \<^verbatim>\<open>memmove\<close> has the same effect.\<close>

fun move_down :: "nat \<Rightarrow> nat \<Rightarrow> nat \<Rightarrow> 'a list \<Rightarrow> 'a list" where
  "move_down dst src 0 st = st"
| "move_down dst src (Suc n) st = move_down (dst + 1) (src + 1) n (st[dst := st ! src])"

definition vec_erase :: "nat \<Rightarrow> 'a lvec \<Rightarrow> 'a lvec option" where
  "vec_erase pos v =
     (if pos < lv_size v
      then pop_back (v\<lparr>lv_storage := move_down pos (pos + 1) (lv_size v - 1 - pos) (lv_storage v)\<rparr>) else None)"

fun pop_n :: "nat \<Rightarrow> 'a lvec \<Rightarrow> 'a lvec option" where
  "pop_n 0 v = Some v"
| "pop_n (Suc n) v = Option.bind (pop_back v) (pop_n n)"

definition vec_erase_range :: "nat \<Rightarrow> nat \<Rightarrow> 'a lvec \<Rightarrow> 'a lvec option" where
  "vec_erase_range start stop v =
     (if start \<le> stop \<and> stop \<le> lv_size v
      then pop_n (stop - start) (v\<lparr>lv_storage := move_down start stop (lv_size v - stop) (lv_storage v)\<rparr>) else None)"

definition swap_erase :: "nat \<Rightarrow> 'a lvec \<Rightarrow> 'a lvec option" where
  "swap_erase pos v =
     (if pos < lv_size v
      then let last_pos = lv_size v - 1 in
           pop_back (if pos \<noteq> last_pos then v\<lparr>lv_storage := (lv_storage v)[pos := lv_storage v ! last_pos]\<rparr> else v) else None)"

section \<open>The string\<close>

record lstr =
  ls_data :: string
  ls_size :: u16

definition str_capacity :: "lstr \<Rightarrow> nat" where "str_capacity s = length (ls_data s) - 1"

definition str_init :: "nat \<Rightarrow> lstr" where
  "str_init cap = \<lparr>ls_data = replicate (cap + 1) (CHR 0x00), ls_size = 0\<rparr>"

definition str_view :: "lstr \<Rightarrow> string" where "str_view s = take (unat (ls_size s)) (ls_data s)"

definition str_c_str :: "lstr \<Rightarrow> string" where "str_c_str s = takeWhile (\<lambda>c. c \<noteq> CHR 0x00) (ls_data s)"

text \<open>\<^verbatim>\<open>memcpy\<close> to an offset\<close>

definition write_chars :: "nat \<Rightarrow> string \<Rightarrow> string \<Rightarrow> string" where
  "write_chars n s d = take n d @ s @ drop (n + length s) d"

definition terminate :: "lstr \<Rightarrow> lstr" where
  "terminate s = s\<lparr>ls_data := (ls_data s)[unat (ls_size s) := CHR 0x00]\<rparr>"

definition str_clear :: "lstr \<Rightarrow> lstr" where
  "str_clear s = s\<lparr>ls_size := 0, ls_data := (ls_data s)[0 := CHR 0x00]\<rparr>"

definition str_assign :: "string \<Rightarrow> lstr \<Rightarrow> lstr option" where
  "str_assign sv s =
     (if length sv \<le> str_capacity s
      then Some (terminate (s\<lparr>ls_size := of_nat (length sv), ls_data := write_chars 0 sv (ls_data s)\<rparr>)) else None)"

definition str_append :: "string \<Rightarrow> lstr \<Rightarrow> lstr option" where
  "str_append sv s =
     (if unat (ls_size s) + length sv \<le> str_capacity s
      then Some (terminate (s\<lparr>ls_data := write_chars (unat (ls_size s)) sv (ls_data s), ls_size := ls_size s + of_nat (length sv)\<rparr>)) else None)"

definition str_push_back :: "char \<Rightarrow> lstr \<Rightarrow> lstr option" where
  "str_push_back c s =
     (if unat (ls_size s) < str_capacity s
      then Some (terminate (s\<lparr>ls_data := (ls_data s)[unat (ls_size s) := c], ls_size := ls_size s + 1\<rparr>)) else None)"

definition str_pop_back :: "lstr \<Rightarrow> lstr option" where
  "str_pop_back s = (if ls_size s > 0 then Some (terminate (s\<lparr>ls_size := ls_size s - 1\<rparr>)) else None)"

definition str_resize :: "nat \<Rightarrow> lstr \<Rightarrow> lstr option" where
  "str_resize n s = (if n \<le> str_capacity s then Some (terminate (s\<lparr>ls_size := of_nat n\<rparr>)) else None)"

definition str_equal :: "lstr \<Rightarrow> lstr \<Rightarrow> bool" where
  "str_equal a b \<longleftrightarrow> ls_size a = ls_size b \<and> take (unat (ls_size a)) (ls_data a) = take (unat (ls_size a)) (ls_data b)"

text \<open>FNV-1a, in arithmetic modulo \<open>2 ^ 64\<close>.\<close>

definition str_hash :: "lstr \<Rightarrow> u64" where
  "str_hash s = fold (\<lambda>c h. xor h (of_nat (of_char c)) * 1099511628211) (str_view s) 14695981039346656037"

section \<open>What the vector does\<close>

definition vec_ok :: "'a lvec \<Rightarrow> bool" where "vec_ok v \<longleftrightarrow> lv_size v \<le> length (lv_storage v)"

lemma vec_itemsD:
  assumes "vec_ok v"
  shows "length (vec_items v) = lv_size v" "i < lv_size v \<Longrightarrow> vec_items v ! i = lv_storage v ! i"
  using assms by (simp_all add: vec_ok_def vec_items_def)

lemma emplace_back_facts:
  "vec_ok v \<Longrightarrow> emplace_back x v = Some v' \<Longrightarrow> vec_ok v' \<and> vec_items v' = vec_items v @ [x] \<and> length (lv_storage v') = length (lv_storage v)"
  by (auto simp: emplace_back_def vec_ok_def vec_items_def take_Suc_conv_app_nth list_update_append split: if_splits)

lemma emplace_all_facts:
  "vec_ok v \<Longrightarrow> lv_size v + length xs \<le> length (lv_storage v) \<Longrightarrow>
   \<exists>v'. emplace_all xs v = Some v' \<and> vec_ok v' \<and> vec_items v' = vec_items v @ xs \<and> length (lv_storage v') = length (lv_storage v)"
proof (induction xs arbitrary: v)
  case (Cons x xs)
  then obtain v1 where v1: "emplace_back x v = Some v1" by (auto simp: emplace_back_def)
  note f = emplace_back_facts [OF Cons.prems(1) v1]
  have "lv_size v1 = lv_size v + 1" using f vec_itemsD(1) [of v1] vec_itemsD(1) [OF Cons.prems(1)] by simp
  then show ?case using Cons.IH [of v1] f Cons.prems(2) v1 by auto
qed simp

lemma pop_back_facts: "vec_ok v \<Longrightarrow> pop_back v = Some v' \<Longrightarrow> vec_ok v' \<and> vec_items v' = butlast (vec_items v)"
  by (auto simp: pop_back_def vec_ok_def vec_items_def butlast_take split: if_splits)

lemma pop_n_facts: "n \<le> lv_size v \<Longrightarrow> pop_n n v = Some (v\<lparr>lv_size := lv_size v - n\<rparr>)"
  by (induction n arbitrary: v) (simp_all add: pop_back_def)

text \<open>Moving \<open>n\<close> elements from \<open>src\<close> down to \<open>dst\<close>.\<close>

lemma move_down_length [simp]: "length (move_down dst src n st) = length st"
  by (induction n arbitrary: dst src st) simp_all

lemma move_down_nth:
  "dst \<le> src \<Longrightarrow> src + n \<le> length st \<Longrightarrow> i < length st \<Longrightarrow>
   move_down dst src n st ! i = (if dst \<le> i \<and> i < dst + n then st ! (i + (src - dst)) else st ! i)"
proof (induction n arbitrary: dst src st)
  case (Suc n)
  show ?case
  proof (cases "dst = src")
    case True
    then have "st[dst := st ! src] = st" by simp
    then show ?thesis using Suc.IH [of "dst + 1" "src + 1" st] Suc.prems True by auto
  next
    case False
    then show ?thesis using Suc.IH [of "dst + 1" "src + 1" "st[dst := st ! src]"] Suc.prems by (auto simp: nth_list_update)
  qed
qed simp

lemma erase_range_facts:
  assumes "vec_ok v" "vec_erase_range start stop v = Some v'"
  shows "vec_ok v'" "vec_items v' = take start (vec_items v) @ drop stop (vec_items v)"
proof -
  have b: "start \<le> stop" "stop \<le> lv_size v" using assms(2) by (simp_all add: vec_erase_range_def split: if_splits)
  let ?st = "move_down start stop (lv_size v - stop) (lv_storage v)"
  have v': "v' = v\<lparr>lv_storage := ?st, lv_size := lv_size v - (stop - start)\<rparr>"
    using assms(2) b by (simp add: vec_erase_range_def pop_n_facts)
  show "vec_ok v'" using assms(1) by (simp add: v' vec_ok_def)
  show "vec_items v' = take start (vec_items v) @ drop stop (vec_items v)"
    using assms(1) b by (intro nth_equalityI) (auto simp: v' vec_ok_def vec_items_def nth_append move_down_nth add.commute)
qed

lemma erase_is_range: "pos < lv_size v \<Longrightarrow> vec_erase pos v = vec_erase_range pos (pos + 1) v"
  by (auto simp: vec_erase_def vec_erase_range_def pop_back_def)

lemma swap_erase_facts:
  assumes "vec_ok v" "swap_erase pos v = Some v'"
  shows "vec_ok v'" "vec_items v' = butlast ((vec_items v)[pos := last (vec_items v)])"
proof -
  have b: "pos < lv_size v" using assms(2) by (simp add: swap_erase_def split: if_splits)
  let ?v = "v\<lparr>lv_storage := (lv_storage v)[pos := lv_storage v ! (lv_size v - 1)]\<rparr>"
  have "lv_storage v ! (lv_size v - 1) = last (vec_items v)"
    using assms(1) b by (subst last_conv_nth) (auto simp: vec_items_def vec_ok_def)
  then have i: "vec_items ?v = (vec_items v)[pos := last (vec_items v)]" by (simp add: vec_items_def take_update_swap)
  have "pos = lv_size v - 1 \<Longrightarrow> ?v = v" by (cases v) simp
  then have "pop_back ?v = Some v'" using assms(2) b by (auto simp: swap_erase_def Let_def split: if_splits)
  from pop_back_facts [OF _ this] assms(1) i show "vec_ok v'" "vec_items v' = butlast ((vec_items v)[pos := last (vec_items v)])"
    by (simp_all add: vec_ok_def)
qed

text \<open>The local vector is a list of bounded length. An insertion succeeds exactly when there is room and appends; the three erasures fail exactly on a position outside of the
  elements and otherwise remove the element, the range, or the element with the last one in its place; copying and moving give the same elements, also into a vector that held
  others.\<close>

theorem local_vector_refines_list:
  assumes "vec_ok v" "vec_ok w"
  shows "(emplace_back x v = None \<longleftrightarrow> length (vec_items v) = length (lv_storage v)) \<and>
    (emplace_back x v = Some v' \<longrightarrow> vec_ok v' \<and> vec_items v' = vec_items v @ [x]) \<and>
    (vec_erase i v = None \<longleftrightarrow> length (vec_items v) \<le> i) \<and>
    (vec_erase i v = Some v' \<longrightarrow> vec_ok v' \<and> vec_items v' = take i (vec_items v) @ drop (Suc i) (vec_items v)) \<and>
    (vec_erase_range i j v = None \<longleftrightarrow> \<not> (i \<le> j \<and> j \<le> length (vec_items v))) \<and>
    (vec_erase_range i j v = Some v' \<longrightarrow> vec_ok v' \<and> vec_items v' = take i (vec_items v) @ drop j (vec_items v)) \<and>
    (swap_erase i v = None \<longleftrightarrow> length (vec_items v) \<le> i) \<and>
    (swap_erase i v = Some v' \<longrightarrow> vec_ok v' \<and> vec_items v' = butlast ((vec_items v)[i := last (vec_items v)])) \<and>
    (length (lv_storage w) = length (lv_storage v) \<longrightarrow>
       (\<exists>u. vec_assign w v = Some u \<and> vec_move_assign w v = Some (u, vec_clear w) \<and> vec_ok u \<and> vec_items u = vec_items w))"
proof -
  note l = vec_itemsD(1) [OF assms(1)]
  have "\<exists>u. vec_assign w v = Some u \<and> vec_move_assign w v = Some (u, vec_clear w) \<and> vec_ok u \<and> vec_items u = vec_items w"
    if "length (lv_storage w) = length (lv_storage v)"
    using emplace_all_facts [of "vec_clear v" "vec_items w"] assms(2) that vec_itemsD(1) [OF assms(2)]
    by (auto simp: vec_assign_def vec_move_assign_def vec_ok_def vec_clear_def vec_items_def)
  moreover have "emplace_back x v = None \<longleftrightarrow> length (vec_items v) = length (lv_storage v)"
    using assms(1) l by (auto simp: emplace_back_def vec_ok_def)
  moreover have "vec_erase i v = None \<longleftrightarrow> length (vec_items v) \<le> i" "swap_erase i v = None \<longleftrightarrow> length (vec_items v) \<le> i"
    "vec_erase_range i j v = None \<longleftrightarrow> \<not> (i \<le> j \<and> j \<le> length (vec_items v))"
    using l by (auto simp: vec_erase_def swap_erase_def vec_erase_range_def pop_back_def pop_n_facts Let_def)
  moreover have "vec_ok v' \<and> vec_items v' = take i (vec_items v) @ drop (Suc i) (vec_items v)" if "vec_erase i v = Some v'"
  proof -
    have "vec_erase_range i (i + 1) v = Some v'" using that erase_is_range [of i v] by (auto simp: vec_erase_def split: if_splits)
    from erase_range_facts [OF assms(1) this] show ?thesis by simp
  qed
  ultimately show ?thesis
    using emplace_back_facts [OF assms(1)] erase_range_facts [OF assms(1)] swap_erase_facts [OF assms(1)] by blast
qed

theorem local_vector_refines_list_witness:
  "\<exists>v'. vec_erase 1 \<lparr>lv_storage = [5, 6, 7, 0], lv_size = 3\<rparr> = Some v' \<and> vec_items v' = [5 :: nat, 7]"
proof -
  let ?v = "\<lparr>lv_storage = [5 :: nat, 6, 7, 0], lv_size = 3\<rparr>"
  have ok: "vec_ok ?v" "vec_items ?v = [5, 6, 7]" by (simp_all add: vec_ok_def vec_items_def)
  obtain v' where v': "vec_erase 1 ?v = Some v'" using local_vector_refines_list [OF ok(1) ok(1), of 0 ?v 1] ok(2) by (cases "vec_erase 1 ?v") auto
  with local_vector_refines_list [OF ok(1) ok(1), of 0 v' 1] ok(2) show ?thesis by auto
qed

section \<open>What the string does\<close>

definition str_ok :: "lstr \<Rightarrow> bool" where
  "str_ok s \<longleftrightarrow> 0 < length (ls_data s) \<and> length (ls_data s) \<le> 65536 \<and> unat (ls_size s) \<le> str_capacity s \<and>
     ls_data s ! unat (ls_size s) = CHR 0x00"

lemma str_ok_init: "cap < 65536 \<Longrightarrow> str_ok (str_init cap) \<and> str_view (str_init cap) = []"
  by (simp add: str_ok_def str_init_def str_view_def str_capacity_def)

lemma unat_size: "n < 65536 \<Longrightarrow> unat (of_nat n :: u16) = n"
  by (simp add: unsigned_of_nat take_bit_nat_eq_self)

lemma str_ok_less: "str_ok s \<Longrightarrow> unat (ls_size s) < length (ls_data s)"
  by (cases "ls_data s") (auto simp: str_ok_def str_capacity_def less_Suc_eq_le)

lemma terminate_ok:
  assumes "str_ok s" "length (ls_data s1) = length (ls_data s)" "unat (ls_size s1) \<le> str_capacity s" "str_view s1 = v"
  shows "str_ok (terminate s1) \<and> str_view (terminate s1) = v \<and> str_capacity (terminate s1) = str_capacity s"
proof -
  have "unat (ls_size s1) < length (ls_data s1)" using assms(1-3) by (cases "ls_data s") (auto simp: str_ok_def str_capacity_def)
  then show ?thesis using assms by (simp add: terminate_def str_ok_def str_view_def str_capacity_def)
qed

lemma c_str_view:
  assumes "str_ok s" "CHR 0x00 \<notin> set (str_view s)"
  shows "str_c_str s = str_view s"
proof -
  from id_take_nth_drop [OF str_ok_less [OF assms(1)]] have d: "ls_data s = str_view s @ CHR 0x00 # drop (Suc (unat (ls_size s))) (ls_data s)"
    using assms(1) by (simp add: str_ok_def str_view_def)
  have "takeWhile (\<lambda>c. c \<noteq> CHR 0x00) (str_view s @ CHR 0x00 # xs) = str_view s" for xs
    using assms(2) by (subst takeWhile_append2) auto
  then show ?thesis unfolding str_c_str_def by (subst d)
qed

lemma str_assign_facts:
  assumes "str_ok s" "str_assign sv s = Some s'"
  shows "str_ok s'" "str_view s' = sv" "str_capacity s' = str_capacity s"
proof -
  let ?s = "s\<lparr>ls_size := of_nat (length sv), ls_data := write_chars 0 sv (ls_data s)\<rparr>"
  have b: "length sv \<le> str_capacity s" "s' = terminate ?s" using assms(2) by (simp_all add: str_assign_def split: if_splits)
  have l: "length (ls_data ?s) = length (ls_data s)" "unat (ls_size ?s) = length sv"
    using assms(1) b(1) by (auto simp: write_chars_def str_ok_def str_capacity_def unat_size)
  have v: "str_view ?s = sv" using l(2) by (simp add: str_view_def) (simp add: write_chars_def)
  have "unat (ls_size ?s) \<le> str_capacity s" using b(1) l(2) by simp
  from terminate_ok [OF assms(1) l(1) this v] show "str_ok s'" "str_view s' = sv" "str_capacity s' = str_capacity s" unfolding b(2) by blast+
qed

lemma str_append_facts:
  assumes "str_ok s" "str_append sv s = Some s'"
  shows "str_ok s'" "str_view s' = str_view s @ sv" "str_capacity s' = str_capacity s"
proof -
  let ?n = "unat (ls_size s)"
  let ?s = "s\<lparr>ls_data := write_chars ?n sv (ls_data s), ls_size := ls_size s + of_nat (length sv)\<rparr>"
  have b: "?n + length sv \<le> str_capacity s" "s' = terminate ?s" using assms(2) by (simp_all add: str_append_def split: if_splits)
  have c: "str_capacity s < 65536" using assms(1) by (auto simp: str_ok_def str_capacity_def)
  have l: "length (ls_data ?s) = length (ls_data s)" using b(1) by (auto simp: write_chars_def str_capacity_def)
  have u: "unat (ls_size ?s) = ?n + length sv" using b(1) c by (simp add: unat_word_ariths unat_size)
  have v: "str_view ?s = str_view s @ sv"
    unfolding str_view_def u using b(1) by (simp add: write_chars_def str_capacity_def)
  have "unat (ls_size ?s) \<le> str_capacity s" using b(1) u by simp
  from terminate_ok [OF assms(1) l this v] show "str_ok s'" "str_view s' = str_view s @ sv" "str_capacity s' = str_capacity s" unfolding b(2) by blast+
qed

lemma str_push_is_append: "str_ok s \<Longrightarrow> str_push_back c s = str_append [c] s"
  by (auto simp: str_push_back_def str_append_def str_ok_def str_capacity_def write_chars_def upd_conv_take_nth_drop)

lemma str_pop_facts:
  assumes "str_ok s" "str_pop_back s = Some s'"
  shows "str_ok s'" "str_view s' = butlast (str_view s)" "str_capacity s' = str_capacity s"
proof -
  let ?s = "s\<lparr>ls_size := ls_size s - 1\<rparr>"
  have b: "0 < ls_size s" "s' = terminate ?s" using assms(2) by (simp_all add: str_pop_back_def split: if_splits)
  have "ls_size s \<noteq> 0" using b(1) by auto
  then have u: "unat (ls_size s - 1) = unat (ls_size s) - 1" "0 < unat (ls_size s)" by (simp_all add: unat_minus_one unat_gt_0)
  have l: "unat (ls_size s) < length (ls_data s)" by (rule str_ok_less [OF assms(1)])
  then have v: "str_view ?s = butlast (str_view s)" using u by (simp add: str_view_def butlast_take)
  have "unat (ls_size ?s) \<le> str_capacity s" "length (ls_data ?s) = length (ls_data s)" using assms(1) u by (auto simp: str_ok_def)
  from terminate_ok [OF assms(1) this(2,1) v] show "str_ok s'" "str_view s' = butlast (str_view s)" "str_capacity s' = str_capacity s"
    unfolding b(2) by blast+
qed

lemma str_clear_facts: "str_ok s \<Longrightarrow> str_ok (str_clear s) \<and> str_view (str_clear s) = [] \<and> str_capacity (str_clear s) = str_capacity s"
  by (simp add: str_ok_def str_clear_def str_view_def str_capacity_def)

text \<open>Growing a string by \<^verbatim>\<open>resize\<close> shows the bytes that were in the buffer, the old terminator first.\<close>

lemma str_resize_grows:
  assumes "str_ok s" "unat (ls_size s) < n" "str_resize n s = Some s'"
  shows "str_view s' = str_view s @ CHR 0x00 # drop (Suc (unat (ls_size s))) (take n (ls_data s))"
proof -
  have b: "n \<le> str_capacity s" "s' = terminate (s\<lparr>ls_size := of_nat n\<rparr>)" using assms(3) by (simp_all add: str_resize_def split: if_splits)
  have l: "n < length (ls_data s)" "n < 65536" using b(1) assms(1,2) by (auto simp: str_ok_def str_capacity_def)
  have "str_view s' = take n (ls_data s)" using l by (simp add: b(2) terminate_def str_view_def unat_size)
  moreover have "take n (ls_data s) = take (unat (ls_size s)) (take n (ls_data s)) @ take n (ls_data s) ! unat (ls_size s) # drop (Suc (unat (ls_size s))) (take n (ls_data s))"
    using l(1) assms(2) by (intro id_take_nth_drop) simp
  ultimately show ?thesis using assms(1,2) by (simp add: str_view_def str_ok_def min_def)
qed

text \<open>The local string is a byte string of bounded length with a terminator behind it. Assignment, appending and the insertion and removal of the last character succeed
  exactly when the result fits and give it; the length stays exact in sixteen bits; \<^verbatim>\<open>c_str\<close> is the content if it has no null byte;
  two strings are equal exactly when their contents are, and then have the same hash.\<close>

theorem local_string_refines_string:
  assumes "str_ok s" "str_ok t"
  shows "(str_assign sv s = None \<longleftrightarrow> str_capacity s < length sv) \<and> (str_assign sv s = Some s' \<longrightarrow> str_ok s' \<and> str_view s' = sv) \<and>
    (str_append sv s = None \<longleftrightarrow> str_capacity s < length (str_view s) + length sv) \<and>
    (str_append sv s = Some s' \<longrightarrow> str_ok s' \<and> str_view s' = str_view s @ sv) \<and>
    str_push_back c s = str_append [c] s \<and>
    (str_pop_back s = None \<longleftrightarrow> str_view s = []) \<and> (str_pop_back s = Some s' \<longrightarrow> str_ok s' \<and> str_view s' = butlast (str_view s)) \<and>
    str_ok (str_clear s) \<and> str_view (str_clear s) = [] \<and> (CHR 0x00 \<notin> set (str_view s) \<longrightarrow> str_c_str s = str_view s) \<and>
    (str_equal s t \<longleftrightarrow> str_view s = str_view t) \<and> (str_equal s t \<longrightarrow> str_hash s = str_hash t)"
proof -
  have l: "length (str_view s) = unat (ls_size s)" "length (str_view t) = unat (ls_size t)"
    using assms by (auto simp: str_view_def str_ok_def str_capacity_def)
  have "str_pop_back s = None \<longleftrightarrow> str_view s = []"
    using l(1) by (auto simp: str_pop_back_def word_less_nat_alt simp flip: length_0_conv)
  moreover have eq: "str_equal s t \<longleftrightarrow> str_view s = str_view t"
  proof
    assume "str_view s = str_view t"
    then have "ls_size s = ls_size t" using l by (simp add: word_unat_eq_iff)
    then show "str_equal s t" using \<open>str_view s = str_view t\<close> by (simp add: str_equal_def str_view_def)
  qed (auto simp: str_equal_def str_view_def)
  moreover have "str_equal s t \<longrightarrow> str_hash s = str_hash t" using eq by (simp add: str_hash_def)
  moreover have "str_assign sv s = None \<longleftrightarrow> str_capacity s < length sv" by (auto simp: str_assign_def)
  moreover have "str_append sv s = None \<longleftrightarrow> str_capacity s < length (str_view s) + length sv" using l by (auto simp: str_append_def)
  ultimately show ?thesis
    using str_assign_facts [OF assms(1)] str_append_facts [OF assms(1)] str_push_is_append [OF assms(1)] str_pop_facts [OF assms(1)]
      str_clear_facts [OF assms(1)] c_str_view [OF assms(1)] by blast
qed

theorem local_string_refines_string_witness:
  "\<exists>s'. str_assign ''BTC/USD'' (str_init 16) = Some s' \<and> str_view s' = ''BTC/USD'' \<and> str_assign ''A NAME OF 18 CHARS'' (str_init 16) = None"
proof -
  have ok: "str_ok (str_init 16)" "str_capacity (str_init 16) = 16" using str_ok_init [of 16] by (simp_all add: str_init_def str_capacity_def)
  have a: "str_assign sv (str_init 16) = None \<longleftrightarrow> 16 < length sv" for sv
    using local_string_refines_string [OF ok(1) ok(1), of sv] ok(2) by simp
  then obtain s' where s': "str_assign ''BTC/USD'' (str_init 16) = Some s'" using a [of "''BTC/USD''"] by (cases "str_assign ''BTC/USD'' (str_init 16)") auto
  have "str_view s' = ''BTC/USD''" using local_string_refines_string [OF ok(1) ok(1), of "''BTC/USD''" s'] s' by blast
  then show ?thesis using s' a [of "''A NAME OF 18 CHARS''"] by simp
qed

end
