(* ===== verification/Instrument_Engine.thy ===== *)
theory Instrument_Engine
  imports Matching_Run Wal_Recorder_Run "HOL-Library.Sublist"
begin

text \<open>
  The engine of one instrument (instrument/engine.hpp): a thread that submits requests, the matching thread, the recorder thread and the two rings between them. A step of a thread is
  one access to a ring or to the stop flag with the private work that follows it; the waiting loops are steps back to the same point. A ring is its contents, with the capacity of
  its template argument less one. The history of the accepted, processed and logged events is part of the state and nothing reads it.
\<close>

section \<open>Requests\<close>

text \<open>The fields of an event as the matching engine reads them. The switch of \<^verbatim>\<open>process_event_\<close> ignores an unknown type.\<close>

definition request_of :: "wal_event \<Rightarrow> request_event option" where
  "request_of ev =
     map_option (\<lambda>ty. \<lparr>rq_type = ty, rq_order_id = ev_order_id ev, rq_order_type = (if ev_order_type ev = 0 then LIMIT else MARKET),
         rq_side = (if ev_side ev = 0 then BID else ASK), rq_price = sint (ev_price ev), rq_quantity = sint (ev_quantity ev)\<rparr>)
       (if ev_type ev = 0 then Some NEW_ORDER else if ev_type ev = 1 then Some MODIFY_ORDER_PRICE
        else if ev_type ev = 2 then Some MODIFY_ORDER_QUANTITY else if ev_type ev = 3 then Some CANCEL_ORDER else None)"

definition engine_process :: "wal_event \<Rightarrow> engine_t \<Rightarrow> engine_t option" where
  "engine_process ev m = (case request_of ev of None \<Rightarrow> Some m | Some rq \<Rightarrow> process_event rq m)"

section \<open>State\<close>

definition RING_CAPACITY :: nat where "RING_CAPACITY = 1023"

datatype submit_pc = SIdle | SPush wal_event | STest wal_event

text \<open>The flag says that the thread is in the loop that flushes its ring.\<close>

datatype match_pc = MPop bool | MTest | MPush wal_event bool | MPushTest wal_event bool | MDone

datatype record_pc = RPop bool | RTest | RAppend wal_event bool | RDone

record instrument =
  ie_inbound :: "wal_event list"
  ie_recorder_ring :: "wal_event list"
  ie_matching :: engine_t
  ie_recorder :: recorder
  ie_stop :: bool
  ie_spc :: submit_pc
  ie_mpc :: match_pc
  ie_rpc :: record_pc
  ie_accepted :: "wal_event list"
  ie_processed :: "wal_event list"
  ie_logged :: "wal_event list"

text \<open>When the recorder cannot be initialised no thread is started.\<close>

definition instrument_initialize :: "hash \<Rightarrow> wal_env \<Rightarrow> bool \<Rightarrow> engine_t \<Rightarrow> wal_dir \<Rightarrow> byte list option \<Rightarrow> (instrument \<times> bool) option" where
  "instrument_initialize xxh env dir_ok m d meta =
     map_option (\<lambda>(r, status).
       (\<lparr>ie_inbound = [], ie_recorder_ring = [], ie_matching = m, ie_recorder = r, ie_stop = False, ie_spc = SIdle,
         ie_mpc = (if status = OK then MPop False else MDone), ie_rpc = (if status = OK then RPop False else RDone),
         ie_accepted = [], ie_processed = [], ie_logged = []\<rparr>, status = OK))
       (recorder_initialize xxh env dir_ok (RecorderManager_init 4096 d meta))"

section \<open>Threads\<close>

text \<open>\<^verbatim>\<open>submit_event\<close> accepts every event, then waits for room until the stop flag is set.\<close>

definition validate_event :: "wal_event \<Rightarrow> bool" where "validate_event ev \<longleftrightarrow> True"

definition submit_call :: "wal_event \<Rightarrow> instrument \<Rightarrow> instrument option" where
  "submit_call ev s = (if ie_spc s = SIdle then Some (if validate_event ev then s\<lparr>ie_spc := SPush ev\<rparr> else s) else None)"

fun submit_action :: "instrument \<Rightarrow> instrument option" where
  "submit_action s =
     (case ie_spc s of
        SIdle \<Rightarrow> None
      | SPush ev \<Rightarrow>
          (case bq_push RING_CAPACITY (ie_inbound s) ev of
             (q, True) \<Rightarrow> Some (s\<lparr>ie_inbound := q, ie_spc := SIdle, ie_accepted := ie_accepted s @ [ev]\<rparr>)
           | (q, False) \<Rightarrow> Some (s\<lparr>ie_spc := STest ev\<rparr>))
      | STest ev \<Rightarrow> Some (s\<lparr>ie_spc := if ie_stop s then SIdle else SPush ev\<rparr>))"

text \<open>\<open>None\<close> is a thread that has ended, or a request that the matching engine does not survive.\<close>

fun match_action :: "instrument \<Rightarrow> instrument option" where
  "match_action s =
     (case ie_mpc s of
        MPop flushing \<Rightarrow>
          (case bq_pop (ie_inbound s) of
             (q, Some ev) \<Rightarrow>
               map_option (\<lambda>m. s\<lparr>ie_inbound := q, ie_matching := m, ie_mpc := MPush ev flushing, ie_processed := ie_processed s @ [ev]\<rparr>)
                 (engine_process ev (ie_matching s))
           | (q, None) \<Rightarrow> Some (s\<lparr>ie_mpc := if flushing then MDone else MTest\<rparr>))
      | MTest \<Rightarrow> Some (s\<lparr>ie_mpc := MPop (ie_stop s)\<rparr>)
      | MPush ev flushing \<Rightarrow>
          (case bq_push RING_CAPACITY (ie_recorder_ring s) ev of
             (q, True) \<Rightarrow> Some (s\<lparr>ie_recorder_ring := q, ie_mpc := MPop flushing\<rparr>)
           | (q, False) \<Rightarrow> Some (s\<lparr>ie_mpc := MPushTest ev flushing\<rparr>))
      | MPushTest ev flushing \<Rightarrow> Some (s\<lparr>ie_mpc := if ie_stop s then MPop flushing else MPush ev flushing\<rparr>)
      | MDone \<Rightarrow> None)"

fun record_action :: "instrument \<Rightarrow> instrument option" where
  "record_action s =
     (case ie_rpc s of
        RPop flushing \<Rightarrow>
          (case bq_pop (ie_recorder_ring s) of
             (q, Some ev) \<Rightarrow> Some (s\<lparr>ie_recorder_ring := q, ie_rpc := RAppend ev flushing\<rparr>)
           | (q, None) \<Rightarrow> Some (s\<lparr>ie_rpc := if flushing then RDone else RTest\<rparr>))
      | RTest \<Rightarrow> Some (s\<lparr>ie_rpc := RPop (ie_stop s)\<rparr>)
      | RAppend ev flushing \<Rightarrow> None
      | RDone \<Rightarrow> None)"

text \<open>The call of \<^verbatim>\<open>recorder_.append\<close> runs together with the threads of the recorder, which also run on their own.\<close>

inductive ie_step :: "hash \<Rightarrow> instrument \<Rightarrow> instrument \<Rightarrow> bool" for xxh :: hash where
  ie_call: "submit_call ev s = Some s' \<Longrightarrow> ie_step xxh s s'"
| ie_submit: "submit_action s = Some s' \<Longrightarrow> ie_step xxh s s'"
| ie_match: "match_action s = Some s' \<Longrightarrow> ie_step xxh s s'"
| ie_record: "record_action s = Some s' \<Longrightarrow> ie_step xxh s s'"
| ie_append: "ie_rpc s = RAppend ev flushing \<Longrightarrow> rc_run xxh env_good (ie_recorder s) [ev] r \<Longrightarrow> rc_rotation r = Appending \<Longrightarrow>
    ie_step xxh s (s\<lparr>ie_recorder := r, ie_rpc := RPop flushing, ie_logged := ie_logged s @ [ev]\<rparr>)"
| ie_worker: "rc_run xxh env_good (ie_recorder s) [] r \<Longrightarrow> rc_rotation r = rc_rotation (ie_recorder s) \<Longrightarrow> ie_step xxh s (s\<lparr>ie_recorder := r\<rparr>)"
| ie_set_stop: "ie_step xxh s (s\<lparr>ie_stop := True\<rparr>)"

text \<open>\<^verbatim>\<open>shutdown\<close> joins both threads, the matching thread first, and shuts the recorder down.\<close>

definition instrument_shutdown :: "hash \<Rightarrow> wal_env \<Rightarrow> instrument \<Rightarrow> instrument option" where
  "instrument_shutdown xxh env s =
     (if ie_stop s \<and> ie_mpc s = MDone \<and> ie_rpc s = RDone
      then map_option (\<lambda>r. s\<lparr>ie_recorder := r\<rparr>) (recorder_shutdown xxh env (ie_recorder s)) else None)"

inductive ie_run :: "hash \<Rightarrow> instrument \<Rightarrow> instrument \<Rightarrow> bool" for xxh :: hash where
  ie_run_refl: "ie_run xxh s s"
| ie_run_step: "ie_run xxh s s' \<Longrightarrow> ie_step xxh s' s'' \<Longrightarrow> ie_run xxh s s''"

section \<open>Where the events are\<close>

fun match_held :: "match_pc \<Rightarrow> wal_event list" where
  "match_held (MPush ev flushing) = [ev]"
| "match_held (MPushTest ev flushing) = [ev]"
| "match_held pc = []"

fun record_held :: "record_pc \<Rightarrow> wal_event list" where
  "record_held (RAppend ev flushing) = [ev]"
| "record_held pc = []"

definition in_transit :: "instrument \<Rightarrow> wal_event list" where
  "in_transit s = record_held (ie_rpc s) @ ie_recorder_ring s @ match_held (ie_mpc s)"

definition ie_inv :: "hash \<Rightarrow> engine_t \<Rightarrow> recorder \<Rightarrow> instrument \<Rightarrow> bool" where
  "ie_inv xxh m r0 s \<longleftrightarrow> ie_accepted s = ie_processed s @ ie_inbound s \<and>
     submit_events (List.map_filter request_of (ie_processed s)) m = Some (ie_matching s) \<and>
     rc_run xxh env_good r0 (ie_logged s) (ie_recorder s) \<and> rc_rotation (ie_recorder s) = Appending \<and>
     (\<not> ie_stop s \<longrightarrow> ie_processed s = ie_logged s @ in_transit s) \<and> subseq (ie_logged s @ in_transit s) (ie_processed s)"

lemma rc_run_trans: "rc_run xxh ok r' evs' r'' \<Longrightarrow> rc_run xxh ok r evs r' \<Longrightarrow> rc_run xxh ok r (evs @ evs') r''"
proof (induction rule: rc_run.induct)
  case (rc_run_step r' evs1 r1 evs2 r2)
  from rc_run.rc_run_step [OF rc_run_step.IH [OF rc_run_step.prems] rc_run_step.hyps(2)] show ?case by simp
qed simp

lemma submit_events_append: "submit_events (xs @ ys) m = Option.bind (submit_events xs m) (submit_events ys)"
  by (induction xs arbitrary: m) (auto split: option.splits)

lemma processed_snoc:
  assumes "submit_events (List.map_filter request_of evs) m = Some m1" "engine_process ev m1 = Some m2"
  shows "submit_events (List.map_filter request_of (evs @ [ev])) m = Some m2"
  using assms by (auto simp: submit_events_append engine_process_def List.map_filter_def split: option.splits)

lemma subseq_drop_last: "subseq (xs @ [x]) ys \<Longrightarrow> subseq xs ys"
  by (meson prefixI prefix_imp_subseq subseq_order.order_trans)

lemma ie_match_inv:
  assumes "match_action s = Some s'" "ie_inv xxh m r0 s"
  shows "ie_inv xxh m r0 s'"
proof (cases "ie_mpc s")
  case (MPop flushing)
  show ?thesis
  proof (cases "ie_inbound s")
    case Nil
    then show ?thesis using assms MPop by (auto simp: ie_inv_def in_transit_def)
  next
    case (Cons ev q)
    then obtain m' where m': "engine_process ev (ie_matching s) = Some m'"
      "s' = s\<lparr>ie_inbound := q, ie_matching := m', ie_mpc := MPush ev flushing, ie_processed := ie_processed s @ [ev]\<rparr>"
      using assms(1) MPop by auto
    have "subseq (ie_logged s @ in_transit s @ [ev]) (ie_processed s @ [ev])" using assms(2) list_emb_append_mono [of "(=)" "ie_logged s @ in_transit s"] by (simp add: ie_inv_def)
    then show ?thesis using assms(2) MPop Cons m' processed_snoc [of "ie_processed s" m "ie_matching s" ev m'] by (auto simp: ie_inv_def in_transit_def)
  qed
next
  case (MPush ev flushing)
  then show ?thesis using assms by (auto simp: ie_inv_def in_transit_def split: if_splits)
next
  case (MPushTest ev flushing)
  have "subseq (ie_logged s @ record_held (ie_rpc s) @ ie_recorder_ring s) (ie_processed s)"
    using assms(2) MPushTest subseq_drop_last [of "ie_logged s @ record_held (ie_rpc s) @ ie_recorder_ring s" ev] by (simp add: ie_inv_def in_transit_def)
  then show ?thesis using assms MPushTest by (auto simp: ie_inv_def in_transit_def split: if_splits)
qed (use assms in \<open>auto simp: ie_inv_def in_transit_def\<close>)

lemma ie_record_inv:
  assumes "record_action s = Some s'" "ie_inv xxh m r0 s"
  shows "ie_inv xxh m r0 s'"
proof (cases "ie_rpc s")
  case (RPop flushing)
  then show ?thesis using assms by (cases "ie_recorder_ring s") (auto simp: ie_inv_def in_transit_def)
qed (use assms in \<open>auto simp: ie_inv_def in_transit_def\<close>)

lemma ie_submit_inv: "submit_action s = Some s' \<Longrightarrow> ie_inv xxh m r0 s \<Longrightarrow> ie_inv xxh m r0 s'"
  by (auto simp: ie_inv_def in_transit_def split: submit_pc.splits if_splits)

lemma ie_step_inv:
  assumes "ie_step xxh s s'" "ie_inv xxh m r0 s"
  shows "ie_inv xxh m r0 s'"
  using assms(1)
proof cases
  case (ie_call ev)
  then show ?thesis using assms(2) by (auto simp: submit_call_def ie_inv_def in_transit_def split: if_splits)
next
  case (ie_append ev flushing r)
  then show ?thesis using assms(2) rc_run_trans [OF ie_append(3)] by (auto simp: ie_inv_def in_transit_def)
next
  case (ie_worker r)
  then show ?thesis using assms(2) rc_run_trans [OF ie_worker(2)] by (auto simp: ie_inv_def in_transit_def)
next
  case ie_set_stop
  then show ?thesis using assms(2) by (simp add: ie_inv_def in_transit_def)
qed (use assms(2) ie_submit_inv ie_match_inv ie_record_inv in blast)+

lemma ie_run_inv: "ie_run xxh s s' \<Longrightarrow> ie_inv xxh m r0 s \<Longrightarrow> ie_inv xxh m r0 s'"
  by (induction rule: ie_run.induct) (auto intro: ie_step_inv)

section \<open>Starting\<close>

lemma rotation_scratch: "prepare_first_segment_from_scratch xxh env r = Some (r', st) \<Longrightarrow> rc_rotation r' = rc_rotation r"
  by (auto simp: prepare_first_segment_from_scratch_def split: prod.splits if_splits)

lemma rotation_scanned: "prepare_first_segment_from_scanned xxh env r = Some (r', st) \<Longrightarrow> rc_rotation r' = rc_rotation r"
  by (auto simp: prepare_first_segment_from_scanned_def split: option.splits prod.splits)

lemma rotation_recover: "rc_rotation (fst (recover_last_state xxh env r)) = rc_rotation r"
  by (auto simp: recover_last_state_def recover_last_state_when_meta_is_missing_def Let_def split: option.splits prod.splits if_splits)

lemma rotation_initialize:
  assumes "recorder_initialize xxh env True r = Some (r', OK)"
  shows "rc_rotation r' = rc_rotation r"
proof -
  obtain r1 where r1: "restore_or_create_active_segment xxh env (scan_segments r) = Some (r1, OK)" "rc_rotation r' = rc_rotation r1"
    using assms by (auto simp: recorder_initialize_def split: option.splits prod.splits if_splits)
  obtain r2 found where r2: "recover_last_state xxh env (scan_segments r) = (r2, found)" "rc_rotation r2 = rc_rotation r"
    using rotation_recover [of xxh env "scan_segments r"] by (cases "recover_last_state xxh env (scan_segments r)") (simp add: scan_segments_def)
  have "rc_rotation r1 = rc_rotation r2"
    using r1(1) r2(1) by (auto simp: restore_or_create_active_segment_def dest!: rotation_scanned rotation_scratch split: option.splits prod.splits bool.splits if_splits)
  then show ?thesis using r1(2) r2(2) by simp
qed

text \<open>The state in which the threads start, and what the recorder promises from there on.\<close>

definition started_state :: "engine_t \<Rightarrow> recorder \<Rightarrow> instrument" where
  "started_state m r = \<lparr>ie_inbound = [], ie_recorder_ring = [], ie_matching = m, ie_recorder = r, ie_stop = False, ie_spc = SIdle, ie_mpc = MPop False,
     ie_rpc = RPop False, ie_accepted = [], ie_processed = [], ie_logged = []\<rparr>"

lemma instrument_starts:
  assumes "clean_log xxh 4096 segs d" and "env_good env" and "env_good env'" and "\<forall>g \<in> set segs. fst g + 1 < max_index"
  obtains r0 where "instrument_initialize xxh env True m d meta = Some (started_state m r0, True)" "rc_rotation r0 = Appending" "rc_persist r0 = []"
    "\<And>evs r. rc_run xxh env_good r0 evs r \<Longrightarrow> rc_rotation r = Appending \<Longrightarrow> length (rc_persist r) < PERSIST_CAPACITY \<Longrightarrow> log_ok (log_of segs @ evs) \<Longrightarrow>
      \<exists>r' segs'. recorder_shutdown xxh env' r = Some r' \<and> clean_log xxh 4096 segs' (rc_dir r') \<and> log_of segs' = log_of segs @ evs"
proof -
  obtain r0 where r0: "recorder_initialize xxh env True (RecorderManager_init 4096 d meta) = Some (r0, OK)"
    and kept: "\<And>evs r. rc_run xxh env_good r0 evs r \<Longrightarrow> rc_rotation r = Appending \<Longrightarrow> length (rc_persist r) < PERSIST_CAPACITY \<Longrightarrow> log_ok (log_of segs @ evs) \<Longrightarrow>
      \<exists>r' segs'. recorder_shutdown xxh env' r = Some r' \<and> clean_log xxh 4096 segs' (rc_dir r') \<and> log_of segs' = log_of segs @ evs"
    using recorder_log_kept [OF assms, of meta] by blast
  from initialize_inv [OF assms(1,2,4), of meta] obtain closed actv where "rec_inv xxh 4096 closed [] actv [] r0" using r0 by auto
  then have "rc_persist r0 = []" by (simp add: rec_inv_def)
  moreover have "rc_rotation r0 = Appending" using rotation_initialize [OF r0] by (simp add: RecorderManager_init_def)
  moreover have "instrument_initialize xxh env True m d meta = Some (started_state m r0, True)" using r0 by (simp add: instrument_initialize_def started_state_def)
  ultimately show ?thesis using that kept by blast
qed

lemma started_state_inv: "rc_rotation r0 = Appending \<Longrightarrow> ie_inv xxh m r0 (started_state m r0)"
  by (simp add: ie_inv_def started_state_def in_transit_def List.map_filter_def rc_run.rc_run_refl)

section \<open>Schedules\<close>

text \<open>A schedule is the sequence of the actions; \<^verbatim>\<open>shutdown\<close> begins with setting the stop flag.\<close>

fun run_actions :: "(instrument \<Rightarrow> instrument option) list \<Rightarrow> instrument \<Rightarrow> instrument option" where
  "run_actions [] s = Some s"
| "run_actions (f # fs) s = Option.bind (f s) (run_actions fs)"

definition set_stop :: "instrument \<Rightarrow> instrument option" where "set_stop s = Some (s\<lparr>ie_stop := True\<rparr>)"

lemma run_actions_run:
  assumes "run_actions fs s1 = Some s2" "ie_run xxh s s1" "set fs \<subseteq> {submit_call ev, submit_action, match_action, record_action, set_stop}"
  shows "ie_run xxh s s2"
  using assms
proof (induction fs arbitrary: s1)
  case (Cons f fs)
  obtain s' where s': "f s1 = Some s'" "run_actions fs s' = Some s2" using Cons.prems(1) by (auto simp: bind_eq_Some_conv)
  have "ie_step xxh s1 s'"
    using Cons.prems(3) s'(1) ie_step.ie_set_stop [of xxh s1] by (auto simp: set_stop_def intro: ie_step.ie_call ie_step.ie_submit ie_step.ie_match ie_step.ie_record)
  from Cons.IH [OF s'(2) ie_run.ie_run_step [OF Cons.prems(2) this]] Cons.prems(3) show ?case by simp
qed simp

section \<open>Properties\<close>

definition sample_request :: wal_event where
  "sample_request = event_reset\<lparr>ev_event_id := 3, ev_order_id := 7, ev_price := 5, ev_quantity := 10\<rparr>"

abbreviation sample_matching :: engine_t where "sample_matching \<equiv> MatchingManager_init sample_instrument 4 2 (2 ^ 3) 3"

lemma sample_request_of: "request_of sample_request = Some \<lparr>rq_type = NEW_ORDER, rq_order_id = 7, rq_order_type = LIMIT, rq_side = BID, rq_price = 5, rq_quantity = 10\<rparr>"
  by (simp add: request_of_def sample_request_def event_reset_def)

lemma sample_processed: "\<exists>m'. engine_process sample_request sample_matching = Some m'"
proof -
  let ?o = "new_order 7 LIMIT BID 5 10"
  have e: "engine_rel 2 3 (\<lambda>_ _. []) sample_matching" by (rule engine_rel_init) simp_all
  have o: "valid_id (o_id ?o)" "\<not> has_id (\<lambda>_ _. []) (o_id ?o)" "price_ok 2 3 (o_price ?o)" "0 < o_qty ?o" "o_filled ?o = 0"
    by (simp_all add: new_order_def valid_id_def EMPTY_KEY_def TOMBSTONE_KEY_def has_id_def price_ok_def)
  have room: "act (o_side ?o) (mg_book sample_matching) (partition_id 3 (o_price ?o)) \<noteq> None \<or> pp_free (bk_parts (mg_book sample_matching)) \<noteq> []"
    by (simp add: MatchingManager_init_def OrderBook_init_def PartitionPool_init_def)
  from process_order_spec [OF e o room] obtain m' st idx where "process_order ?o sample_matching = Some (m', st, idx)" by blast
  then show ?thesis by (simp add: engine_process_def sample_request_of process_event_def)
qed



text \<open>C32: a shutdown can lose processed requests. Whatever request the matching engine processes, there is a run of the engine in which it is accepted and processed, both threads
  end, and the request stays in the ring to the recorder: the recorder thread found its ring empty and the stop flag set before the matching thread had taken the request. The shutdown then succeeds
  and the log on disk is the one from before the start.\<close>

theorem instrument_shutdown_loses_requests:
  assumes "clean_log xxh 4096 segs d" and "env_good env" and "env_good env'" and "\<forall>g \<in> set segs. fst g + 1 < max_index" and "engine_process ev m = Some m'"
  shows "\<exists>s0 s s' segs'. instrument_initialize xxh env True m d meta = Some (s0, True) \<and> ie_run xxh s0 s \<and>
    ie_accepted s = [ev] \<and> ie_processed s = [ev] \<and> ie_matching s = m' \<and> ie_recorder_ring s = [ev] \<and>
    instrument_shutdown xxh env' s = Some s' \<and> clean_log xxh 4096 segs' (rc_dir (ie_recorder s')) \<and> log_of segs' = log_of segs"
proof -
  from instrument_starts [OF assms(1-4)] obtain r0 where i: "instrument_initialize xxh env True m d meta = Some (started_state m r0, True)" and rot: "rc_rotation r0 = Appending"
    and p: "rc_persist r0 = []" and kept: "\<And>evs r. rc_run xxh env_good r0 evs r \<Longrightarrow> rc_rotation r = Appending \<Longrightarrow> length (rc_persist r) < PERSIST_CAPACITY \<Longrightarrow>
      log_ok (log_of segs @ evs) \<Longrightarrow> \<exists>r' segs'. recorder_shutdown xxh env' r = Some r' \<and> clean_log xxh 4096 segs' (rc_dir r') \<and> log_of segs' = log_of segs @ evs" by metis
  let ?fs = "[submit_call ev, submit_action, set_stop, record_action, record_action, record_action, match_action, match_action, match_action, match_action, match_action]"
  let ?s = "\<lparr>ie_inbound = [], ie_recorder_ring = [ev], ie_matching = m', ie_recorder = r0, ie_stop = True, ie_spc = SIdle,
     ie_mpc = MDone, ie_rpc = RDone, ie_accepted = [ev], ie_processed = [ev], ie_logged = []\<rparr>"
  have "run_actions ?fs (started_state m r0) = Some ?s" by (simp add: started_state_def submit_call_def validate_event_def set_stop_def RING_CAPACITY_def assms(5))
  then have run: "ie_run xxh (started_state m r0) ?s" by (rule run_actions_run [OF _ ie_run.ie_run_refl]) auto
  have "length (rc_persist r0) < PERSIST_CAPACITY" by (simp add: p PERSIST_CAPACITY_def)
  moreover have "log_ok (log_of segs @ [])" using assms(1) by (simp add: clean_log_def)
  ultimately obtain r' segs' where "recorder_shutdown xxh env' r0 = Some r'" "clean_log xxh 4096 segs' (rc_dir r')" "log_of segs' = log_of segs"
    using kept [OF rc_run.rc_run_refl rot] by auto
  then have "instrument_shutdown xxh env' ?s = Some (?s\<lparr>ie_recorder := r'\<rparr>)" by (simp add: instrument_shutdown_def)
  then show ?thesis using i run \<open>clean_log xxh 4096 segs' (rc_dir r')\<close> \<open>log_of segs' = log_of segs\<close> by force
qed

theorem instrument_shutdown_loses_requests_witness:
  "\<exists>s0 s s' segs'. instrument_initialize (\<lambda>bs seed. seed) good_env True sample_matching [] None = Some (s0, True) \<and> ie_run (\<lambda>bs seed. seed) s0 s \<and>
    ie_accepted s = [sample_request] \<and> ie_processed s = [sample_request] \<and>
    instrument_shutdown (\<lambda>bs seed. seed) good_env s = Some s' \<and> clean_log (\<lambda>bs seed. seed) 4096 segs' (rc_dir (ie_recorder s')) \<and> log_of segs' = []"
proof -
  obtain m' where m': "engine_process sample_request sample_matching = Some m'" using sample_processed by blast
  from instrument_shutdown_loses_requests [OF empty_log good_env good_env _ m', of "\<lambda>bs seed. seed" None] show ?thesis by auto
qed

end
