(* ===== verification/Metrics.thy ===== *)
theory Metrics
  imports Bitmap
begin

text \<open>
  The metrics of the library (lcr/metrics): the statistics of samples, durations, operations and sizes, the latency histogram and the burst profiler, in their single-threaded variants. Counters and
  gauges are machine words that wrap. Averages and rates in floating point, the output and the collectors are left out.
\<close>

section \<open>Statistics\<close>

record 'w sampler =
  sp_total :: u64
  sp_samples :: u64
  sp_min :: 'w
  sp_max :: 'w

definition sampler_reset :: "('a :: len) word sampler" where
  "sampler_reset = \<lparr>sp_total = 0, sp_samples = 0, sp_min = - 1, sp_max = 0\<rparr>"

definition sampler_record :: "'a word \<Rightarrow> ('a :: len) word sampler \<Rightarrow> 'a word sampler" where
  "sampler_record v s =
     (let s1 = s\<lparr>sp_total := sp_total s + ucast v, sp_samples := sp_samples s + 1\<rparr>;
          s2 = (if v < sp_min s1 then s1\<lparr>sp_min := v\<rparr> else s1)
      in if v > sp_max s2 then s2\<lparr>sp_max := v\<rparr> else s2)"

record duration =
  du_total_ns :: u64
  du_samples :: u64
  du_min_ns :: u64
  du_max_ns :: u64

definition duration_reset :: duration where
  "duration_reset = \<lparr>du_total_ns = 0, du_samples = 0, du_min_ns = - 1, du_max_ns = 0\<rparr>"

definition duration_record_duration :: "u64 \<Rightarrow> duration \<Rightarrow> duration" where
  "duration_record_duration delta s =
     (let s1 = s\<lparr>du_total_ns := du_total_ns s + delta, du_samples := du_samples s + 1\<rparr>;
          s2 = (if delta < du_min_ns s1 then s1\<lparr>du_min_ns := delta\<rparr> else s1)
      in if delta > du_max_ns s2 then s2\<lparr>du_max_ns := delta\<rparr> else s2)"

definition duration_record :: "u64 \<times> u64 \<Rightarrow> duration \<Rightarrow> duration" where
  "duration_record = (\<lambda>(start_ns, end_ns). duration_record_duration (end_ns - start_ns))"

definition duration_avg_ns :: "duration \<Rightarrow> u64" where
  "duration_avg_ns s = (if du_samples s = 0 then 0 else du_total_ns s div du_samples s)"

definition duration_jitter_ns :: "duration \<Rightarrow> u64" where
  "duration_jitter_ns s = (if du_samples s < 2 then 0 else du_max_ns s - du_min_ns s)"

record operation =
  op_total_ns :: u64
  op_samples :: u64
  op_success :: u64
  op_min_ns :: u64
  op_max_ns :: u64

definition operation_reset :: operation where
  "operation_reset = \<lparr>op_total_ns = 0, op_samples = 0, op_success = 0, op_min_ns = - 1, op_max_ns = 0\<rparr>"

definition operation_record_duration :: "u64 \<times> bool \<Rightarrow> operation \<Rightarrow> operation" where
  "operation_record_duration = (\<lambda>(delta, ok) s.
     (let s1 = s\<lparr>op_total_ns := op_total_ns s + delta, op_samples := op_samples s + 1\<rparr>;
          s2 = (if ok then s1\<lparr>op_success := op_success s1 + 1\<rparr> else s1);
          s3 = (if delta < op_min_ns s2 then s2\<lparr>op_min_ns := delta\<rparr> else s2)
      in if delta > op_max_ns s3 then s3\<lparr>op_max_ns := delta\<rparr> else s3))"

definition operation_failures :: "operation \<Rightarrow> u64" where
  "operation_failures s = op_samples s - op_success s"

record 'w size_stats =
  sz_last :: 'w
  sz_accumulated :: u64
  sz_samples :: u64
  sz_min :: 'w
  sz_max :: 'w

definition size_reset :: "('a :: len) word size_stats" where
  "size_reset = \<lparr>sz_last = 0, sz_accumulated = 0, sz_samples = 0, sz_min = - 1, sz_max = 0\<rparr>"

definition size_update_extremes :: "'a word \<Rightarrow> ('a :: len) word size_stats \<Rightarrow> 'a word size_stats" where
  "size_update_extremes v s =
     (let s1 = s\<lparr>sz_accumulated := sz_accumulated s + ucast v, sz_samples := sz_samples s + 1\<rparr>;
          s2 = (if v < sz_min s1 then s1\<lparr>sz_min := v\<rparr> else s1)
      in if v > sz_max s2 then s2\<lparr>sz_max := v\<rparr> else s2)"

definition size_set :: "'a word \<Rightarrow> ('a :: len) word size_stats \<Rightarrow> 'a word size_stats" where
  "size_set v s = size_update_extremes v (s\<lparr>sz_last := v\<rparr>)"

definition size_inc :: "'a word \<Rightarrow> ('a :: len) word size_stats \<Rightarrow> 'a word size_stats" where
  "size_inc delta s = size_update_extremes (sz_last s + delta) (s\<lparr>sz_last := sz_last s + delta\<rparr>)"

definition size_dec :: "'a word \<Rightarrow> ('a :: len) word size_stats \<Rightarrow> 'a word size_stats" where
  "size_dec delta s = size_update_extremes (sz_last s - delta) (s\<lparr>sz_last := sz_last s - delta\<rparr>)"

subsection \<open>What they have in common\<close>

text \<open>A summary of the values recorded since the last reset: their sum and number modulo \<open>2 ^ 64\<close>, the smallest and the largest.\<close>

locale summary_stats =
  fixes note_value :: "'b \<Rightarrow> 's \<Rightarrow> 's" and sample :: "'b \<Rightarrow> ('a :: len) word"
    and total :: "'s \<Rightarrow> u64" and samples :: "'s \<Rightarrow> u64" and lowest :: "'s \<Rightarrow> 'a word" and highest :: "'s \<Rightarrow> 'a word" and fresh :: 's
  assumes fresh: "total fresh = 0" "samples fresh = 0" "lowest fresh = - 1" "highest fresh = 0"
    and noted: "total (note_value x s) = total s + ucast (sample x)" "samples (note_value x s) = samples s + 1"
      "lowest (note_value x s) = min (lowest s) (sample x)" "highest (note_value x s) = max (highest s) (sample x)"
begin

lemma folded_total: "total (fold note_value xs s) = total s + of_nat (sum_list (map (\<lambda>x. unat (sample x)) xs))"
  by (induction xs arbitrary: s) (simp_all add: noted add.assoc)

lemma folded_samples: "samples (fold note_value xs s) = samples s + of_nat (length xs)"
  by (induction xs arbitrary: s) (simp_all add: noted add.assoc)

lemma folded_lowest: "xs \<noteq> [] \<Longrightarrow> lowest (fold note_value xs s) = min (lowest s) (Min (sample ` set xs))"
  by (induction xs arbitrary: s rule: list_nonempty_induct) (simp_all add: noted min.assoc)

lemma folded_highest: "xs \<noteq> [] \<Longrightarrow> highest (fold note_value xs s) = max (highest s) (Max (sample ` set xs))"
  by (induction xs arbitrary: s rule: list_nonempty_induct) (simp_all add: noted max.assoc)

lemma summary:
  assumes "xs \<noteq> []" "sum_list (map (\<lambda>x. unat (sample x)) xs) < 2 ^ 64" "length xs < 2 ^ 64"
  shows "unat (total (fold note_value xs fresh)) = sum_list (map (\<lambda>x. unat (sample x)) xs)" "unat (samples (fold note_value xs fresh)) = length xs"
    "lowest (fold note_value xs fresh) = Min (sample ` set xs)" "highest (fold note_value xs fresh) = Max (sample ` set xs)"
  using assms by (simp_all add: folded_total folded_samples folded_lowest folded_highest fresh unat_of_nat min_absorb2 max_absorb2)

end

interpretation sampler_stats: summary_stats "sampler_record :: ('a :: len) word \<Rightarrow> _" "\<lambda>v. v" sp_total sp_samples sp_min sp_max sampler_reset
  by unfold_locales (auto simp: sampler_reset_def sampler_record_def Let_def min_def max_def)

interpretation duration_stats: summary_stats duration_record_duration "\<lambda>v. v" du_total_ns du_samples du_min_ns du_max_ns duration_reset
  by unfold_locales (auto simp: duration_reset_def duration_record_duration_def Let_def min_def max_def)

interpretation operation_stats: summary_stats operation_record_duration fst op_total_ns op_samples op_min_ns op_max_ns operation_reset
  by unfold_locales (auto simp: operation_reset_def operation_record_duration_def Let_def min_def max_def split: prod.splits)

interpretation size_stats: summary_stats "size_set :: ('a :: len) word \<Rightarrow> _" "\<lambda>v. v" sz_accumulated sz_samples sz_min sz_max size_reset
  by unfold_locales (auto simp: size_reset_def size_set_def size_update_extremes_def Let_def min_def max_def)

text \<open>The successes are counted apart; failures are the difference.\<close>

lemma operation_success: "op_success (fold operation_record_duration xs s) = op_success s + of_nat (length (filter snd xs))"
  by (induction xs arbitrary: s) (auto simp: operation_record_duration_def Let_def algebra_simps split: prod.splits)

text \<open>Recorded durations below \<open>2 ^ 64\<close> in sum are summarised exactly: the integer average, the difference between the longest and the shortest, the number of failures.\<close>

theorem duration_summary_exact:
  assumes "ds \<noteq> []" and "sum_list (map unat ds) < 2 ^ 64" and "length ds < 2 ^ 64"
  shows "unat (duration_avg_ns (fold duration_record_duration ds duration_reset)) = sum_list (map unat ds) div length ds \<and>
    duration_jitter_ns (fold duration_record_duration ds duration_reset) = (if length ds < 2 then 0 else Max (set ds) - Min (set ds))"
proof -
  note f = duration_stats.summary [OF assms, simplified]
  have "du_samples (fold duration_record_duration ds duration_reset) \<noteq> 0" using f(2) assms(1) by auto
  then show ?thesis using f by (simp add: duration_avg_ns_def duration_jitter_ns_def unat_div word_less_nat_alt)
qed

theorem operation_summary_exact:
  assumes "xs \<noteq> []" and "sum_list (map (\<lambda>x. unat (fst x)) xs) < 2 ^ 64" and "length xs < 2 ^ 64"
  shows "let s = fold operation_record_duration xs operation_reset in
    unat (op_total_ns s) = sum_list (map (\<lambda>x. unat (fst x)) xs) \<and> op_min_ns s = Min (fst ` set xs) \<and> op_max_ns s = Max (fst ` set xs) \<and>
    unat (op_success s) = length (filter snd xs) \<and> unat (operation_failures s) = length (filter (\<lambda>x. \<not> snd x) xs)"
proof -
  note f = operation_stats.summary [OF assms]
  have s: "op_success (fold operation_record_duration xs operation_reset) = of_nat (length (filter snd xs))" by (simp add: operation_success operation_reset_def)
  have le: "length (filter snd xs) \<le> length xs" by (rule length_filter_le)
  then have u: "unat (of_nat (length (filter snd xs)) :: u64) = length (filter snd xs)" using le_less_trans [OF le assms(3)] by (simp add: unat_of_nat)
  have "length xs - length (filter snd xs) = length (filter (\<lambda>x. \<not> snd x) xs)" using sum_length_filter_compl [of snd xs] by simp
  then show ?thesis using f s u le by (simp add: Let_def operation_failures_def unat_sub word_le_nat_alt)
qed

text \<open>A size is set to a value or changed by a difference; both record the new value.\<close>

lemma size_inc_is_set: "size_inc delta s = size_set (sz_last s + delta) s" "size_dec delta s = size_set (sz_last s - delta) s"
  by (simp_all add: size_inc_def size_dec_def size_set_def)

section \<open>Latency histogram\<close>

definition NUM_BUCKETS :: nat where "NUM_BUCKETS = 64"

type_synonym histogram = "u64 list"

definition histogram_reset :: histogram where "histogram_reset = replicate NUM_BUCKETS 0"

definition bucket_of :: "u64 \<Rightarrow> nat" where
  "bucket_of delta = (if delta = 0 then 0 else 63 - clzll delta)"

definition histogram_record_duration :: "u64 \<Rightarrow> histogram \<Rightarrow> histogram" where
  "histogram_record_duration delta h = h[bucket_of delta := h ! bucket_of delta + 1]"

definition histogram_record :: "u64 \<Rightarrow> u64 \<Rightarrow> histogram \<Rightarrow> histogram" where
  "histogram_record start_ns end_ns = histogram_record_duration (end_ns - start_ns)"

record latency_percentiles =
  p50 :: u64
  p90 :: u64
  p99 :: u64
  p999 :: u64
  p9999 :: u64
  p99999 :: u64
  p999999 :: u64

definition zero_percentiles :: latency_percentiles where
  "zero_percentiles = \<lparr>p50 = 0, p90 = 0, p99 = 0, p999 = 0, p9999 = 0, p99999 = 0, p999999 = 0\<rparr>"

definition percentile_thresholds :: "u64 \<Rightarrow> latency_percentiles" where
  "percentile_thresholds n = \<lparr>p50 = n div 2, p90 = n * 90 div 100, p99 = n * 99 div 100, p999 = n * 999 div 1000, p9999 = n * 9999 div 10000,
     p99999 = n * 99999 div 100000, p999999 = n * 999999 div 1000000\<rparr>"

definition pct_update :: "u64 \<Rightarrow> nat \<Rightarrow> u64 \<Rightarrow> u64 \<Rightarrow> u64" where
  "pct_update cumulative i threshold field = (if field = 0 \<and> cumulative \<ge> threshold then push_bit i 1 else field)"

fun percentile_loop :: "latency_percentiles \<Rightarrow> nat \<Rightarrow> u64 list \<Rightarrow> u64 \<Rightarrow> latency_percentiles \<Rightarrow> latency_percentiles" where
  "percentile_loop t i [] cumulative r = r"
| "percentile_loop t i (b # bs) cumulative r =
     (let c = cumulative + b in
      percentile_loop t (Suc i) bs c
        \<lparr>p50 = pct_update c i (p50 t) (p50 r), p90 = pct_update c i (p90 t) (p90 r), p99 = pct_update c i (p99 t) (p99 r), p999 = pct_update c i (p999 t) (p999 r),
         p9999 = pct_update c i (p9999 t) (p9999 r), p99999 = pct_update c i (p99999 t) (p99999 r), p999999 = pct_update c i (p999999 t) (p999999 r)\<rparr>)"

definition compute_percentiles :: "histogram \<Rightarrow> latency_percentiles" where
  "compute_percentiles h =
     (let total = fold (+) h 0 in
      if total = 0 then zero_percentiles else percentile_loop (percentile_thresholds total) 0 h 0 zero_percentiles)"

subsection \<open>Buckets\<close>

lemma bucket_less [simp]: "bucket_of d < 64"
  by (auto simp: bucket_of_def intro: le_less_trans [OF diff_le_self])

lemma bucket_bounds:
  assumes "d \<noteq> 0"
  shows "2 ^ bucket_of d \<le> unat d" "unat d < 2 ^ (bucket_of d + 1)"
proof -
  have b: "bit d (bucket_of d)" "\<And>i. bit d i \<Longrightarrow> i \<le> bucket_of d" using word_bounds [OF assms] assms by (simp_all add: bucket_of_def)
  have "odd (unat d div 2 ^ bucket_of d)" using b(1) by (simp add: bit_unsigned_iff flip: bit_iff_odd)
  then have "unat d div 2 ^ bucket_of d \<noteq> 0" by (metis even_zero)
  then show "2 ^ bucket_of d \<le> unat d" by (simp add: div_eq_0_iff)
  have "take_bit (bucket_of d + 1) d = d" using b(2) by (intro bit_eqI) (fastforce simp: bit_take_bit_iff less_Suc_eq_le)
  then have "take_bit (bucket_of d + 1) (unat d) = unat d" by (metis unsigned_take_bit_eq)
  then show "unat d < 2 ^ (bucket_of d + 1)" by (metis take_bit_nat_less_exp)
qed

text \<open>The number of recorded durations up to a bucket.\<close>

definition count_upto :: "u64 list \<Rightarrow> nat \<Rightarrow> nat" where
  "count_upto ds k = length (filter (\<lambda>d. bucket_of d \<le> k) ds)"

lemma recorded_length: "length (fold histogram_record_duration ds h) = length h"
  by (induction ds arbitrary: h) (simp_all add: histogram_record_duration_def)

lemma recorded_nth: "k < length h \<Longrightarrow> length h = 64 \<Longrightarrow> fold histogram_record_duration ds h ! k = h ! k + of_nat (length (filter (\<lambda>d. bucket_of d = k) ds))"
  by (induction ds arbitrary: h) (auto simp: histogram_record_duration_def nth_list_update)

lemma count_upto_Suc: "count_upto ds (Suc k) = count_upto ds k + length (filter (\<lambda>d. bucket_of d = Suc k) ds)"
  by (induction ds) (auto simp: count_upto_def le_Suc_eq)

lemma count_upto_all: "63 \<le> k \<Longrightarrow> count_upto ds k = length ds"
proof -
  assume "63 \<le> k"
  then have "bucket_of d \<le> k" for d using bucket_less [of d] by linarith
  then show ?thesis by (simp add: count_upto_def)
qed

abbreviation recorded :: "u64 list \<Rightarrow> histogram" where "recorded ds \<equiv> fold histogram_record_duration ds histogram_reset"

lemma recorded_size [simp]: "length (recorded ds) = 64"
  by (simp add: recorded_length histogram_reset_def NUM_BUCKETS_def)

lemma recorded_bucket:
  assumes "length ds < 2 ^ 64" "k < 64"
  shows "unat (recorded ds ! k) = length (filter (\<lambda>d. bucket_of d = k) ds)"
proof -
  have "recorded ds ! k = of_nat (length (filter (\<lambda>d. bucket_of d = k) ds))"
    using recorded_nth [of k histogram_reset ds] assms(2) by (simp add: histogram_reset_def NUM_BUCKETS_def)
  moreover have "length (filter (\<lambda>d. bucket_of d = k) ds) < 2 ^ 64" using assms(1) by (rule le_less_trans [OF length_filter_le])
  ultimately show ?thesis by (simp add: unat_of_nat)
qed

lemma recorded_sum:
  assumes "length ds < 2 ^ 64"
  shows "k < 64 \<Longrightarrow> sum_list (map unat (take (Suc k) (recorded ds))) = count_upto ds k"
proof (induction k)
  case 0
  then show ?case using recorded_bucket [OF assms, of 0] by (simp add: take_Suc_conv_app_nth count_upto_def)
next
  case (Suc k)
  then show ?case using recorded_bucket [OF assms, of "Suc k"] by (simp add: take_Suc_conv_app_nth [of "Suc k"] count_upto_Suc)
qed

lemma fold_plus_word: "fold (+) ws c = c + (of_nat (sum_list (map unat ws)) :: ('a :: len) word)"
  by (induction ws arbitrary: c) (simp_all add: algebra_simps)

subsection \<open>Percentiles\<close>

text \<open>The loop as one of the fields sees it.\<close>

fun field_loop :: "u64 \<Rightarrow> nat \<Rightarrow> u64 list \<Rightarrow> u64 \<Rightarrow> u64 \<Rightarrow> u64" where
  "field_loop th i [] c f = f"
| "field_loop th i (b # bs) c f = field_loop th (Suc i) bs (c + b) (pct_update (c + b) i th f)"

lemma percentile_loop_fields:
  "p50 (percentile_loop t i bs c r) = field_loop (p50 t) i bs c (p50 r)" "p90 (percentile_loop t i bs c r) = field_loop (p90 t) i bs c (p90 r)"
  "p99 (percentile_loop t i bs c r) = field_loop (p99 t) i bs c (p99 r)" "p999 (percentile_loop t i bs c r) = field_loop (p999 t) i bs c (p999 r)"
  "p9999 (percentile_loop t i bs c r) = field_loop (p9999 t) i bs c (p9999 r)" "p99999 (percentile_loop t i bs c r) = field_loop (p99999 t) i bs c (p99999 r)"
  "p999999 (percentile_loop t i bs c r) = field_loop (p999999 t) i bs c (p999999 r)"
  by (induction t i bs c r rule: percentile_loop.induct) (simp_all add: Let_def)

lemma field_loop_found: "f \<noteq> 0 \<Longrightarrow> field_loop th i bs c f = f"
  by (induction bs arbitrary: i c) (simp_all add: pct_update_def)

lemma power_word_neq_0: "i < 64 \<Longrightarrow> (2 :: u64) ^ i \<noteq> 0"
  by simp

lemma field_loop_finds:
  assumes "unat c + sum_list (map unat bs) < 2 ^ 64" "unat th \<le> unat c + sum_list (map unat bs)" "bs \<noteq> []" "i + length bs \<le> 64"
  shows "\<exists>k < length bs. field_loop th i bs c 0 = 2 ^ (i + k) \<and> unat th \<le> unat c + sum_list (map unat (take (Suc k) bs)) \<and>
    (\<forall>j < k. unat c + sum_list (map unat (take (Suc j) bs)) < unat th)"
  using assms
proof (induction bs arbitrary: i c)
  case (Cons b bs)
  have cb: "unat (c + b) = unat c + unat b" using Cons.prems(1) by (simp add: unat_add_lem [THEN iffD1])
  show ?case
  proof (cases "th \<le> c + b")
    case True
    then have "field_loop th i (b # bs) c 0 = 2 ^ i"
      using Cons.prems(4) by (simp add: pct_update_def push_bit_eq_mult field_loop_found power_word_neq_0)
    moreover have "unat th \<le> unat c + unat b" using True cb by (simp add: word_le_nat_alt)
    ultimately show ?thesis by (intro exI [of _ 0]) simp
  next
    case False
    then have lt: "unat c + unat b < unat th" using cb by (simp add: word_le_nat_alt)
    then have "bs \<noteq> []" using Cons.prems(2) by auto
    with Cons.IH [of "c + b" "Suc i"] Cons.prems cb obtain k where k: "k < length bs" "field_loop th (Suc i) bs (c + b) 0 = 2 ^ (Suc i + k)"
      "unat th \<le> unat c + unat b + sum_list (map unat (take (Suc k) bs))" "\<forall>j < k. unat c + unat b + sum_list (map unat (take (Suc j) bs)) < unat th" by auto
    have "\<forall>j < Suc k. unat c + sum_list (map unat (take (Suc j) (b # bs))) < unat th"
    proof (intro allI impI)
      fix j assume "j < Suc k"
      then show "unat c + sum_list (map unat (take (Suc j) (b # bs))) < unat th" using lt k(4) by (cases j) (auto simp: add.assoc)
    qed
    then show ?thesis using k False by (intro exI [of _ "Suc k"]) (auto simp: pct_update_def add.assoc)
  qed
qed simp

text \<open>The first bucket up to which at least \<open>t\<close> durations were recorded.\<close>

definition rank_bucket :: "u64 list \<Rightarrow> nat \<Rightarrow> nat" where
  "rank_bucket ds t = (LEAST k. t \<le> count_upto ds k)"

lemma rank_bucket_mono: "t \<le> t' \<Longrightarrow> t' \<le> length ds \<Longrightarrow> rank_bucket ds t \<le> rank_bucket ds t'"
  unfolding rank_bucket_def by (rule Least_le) (metis (mono_tags, lifting) LeastI count_upto_all order.refl order_trans)

lemma rank_bucket_less: "t \<le> length ds \<Longrightarrow> rank_bucket ds t < 64"
  unfolding rank_bucket_def using Least_le [of "\<lambda>k. t \<le> count_upto ds k" 63] by (simp add: count_upto_all)

lemma field_rank:
  assumes "length ds < 2 ^ 64" "unat th \<le> length ds"
  shows "field_loop th 0 (recorded ds) 0 0 = 2 ^ rank_bucket ds (unat th)"
proof -
  have all: "sum_list (map unat (recorded ds)) = length ds" using recorded_sum [OF assms(1), of 63] by (simp add: count_upto_all)
  have "recorded ds \<noteq> []" using recorded_size [of ds] by fastforce
  then obtain k where k: "k < 64" "field_loop th 0 (recorded ds) 0 0 = 2 ^ k" "unat th \<le> count_upto ds k" "\<forall>j < k. count_upto ds j < unat th"
    using field_loop_finds [of 0 "recorded ds" th 0] all assms recorded_sum [OF assms(1)] by auto
  then have "rank_bucket ds (unat th) = k" unfolding rank_bucket_def by (intro Least_equality) (auto simp: not_less [symmetric])
  then show ?thesis using k(2) by simp
qed

lemma rank_power_mono: "t \<le> t' \<Longrightarrow> t' \<le> length ds \<Longrightarrow> (2 :: u64) ^ rank_bucket ds t \<le> 2 ^ rank_bucket ds t'"
  using rank_bucket_mono [of t t' ds] rank_bucket_less [of t' ds] by (simp add: word_le_nat_alt word_two_power)

lemma threshold_unat:
  fixes n :: u64
  assumes "unat n * k < 2 ^ 64" "k < 2 ^ 64" "0 < q" "q < 2 ^ 64"
  shows "unat (n * of_nat k div of_nat q) = unat n * k div q"
  using assms by (simp add: unat_div unat_mult_lem [THEN iffD1] unat_of_nat unat_word_ariths)

lemma compute_percentiles_recorded:
  assumes "ds \<noteq> []" "length ds < 2 ^ 64"
  shows "compute_percentiles (recorded ds) = percentile_loop (percentile_thresholds (of_nat (length ds))) 0 (recorded ds) 0 zero_percentiles"
proof -
  have "fold (+) (recorded ds) 0 = (of_nat (length ds) :: u64)" using recorded_sum [OF assms(2), of 63] by (simp add: fold_plus_word count_upto_all)
  moreover have "(of_nat (length ds) :: u64) \<noteq> 0" using assms by (simp add: word_unat_eq_iff unat_of_nat)
  ultimately show ?thesis by (simp add: compute_percentiles_def)
qed

lemma recorded_thresholds:
  assumes "length ds * 999999 < 2 ^ 64"
  shows "let t = percentile_thresholds (of_nat (length ds)); n = length ds in
    unat (p50 t) = n div 2 \<and> unat (p90 t) = n * 90 div 100 \<and> unat (p99 t) = n * 99 div 100 \<and> unat (p999 t) = n * 999 div 1000 \<and>
    unat (p9999 t) = n * 9999 div 10000 \<and> unat (p99999 t) = n * 99999 div 100000 \<and> unat (p999999 t) = n * 999999 div 1000000"
proof -
  have n: "unat (of_nat (length ds) :: u64) = length ds" using assms by (simp add: unat_of_nat)
  show ?thesis
    using assms n threshold_unat [of "of_nat (length ds)" 1 2] threshold_unat [of "of_nat (length ds)" 90 100] threshold_unat [of "of_nat (length ds)" 99 100]
      threshold_unat [of "of_nat (length ds)" 999 1000] threshold_unat [of "of_nat (length ds)" 9999 10000] threshold_unat [of "of_nat (length ds)" 99999 100000]
      threshold_unat [of "of_nat (length ds)" 999999 1000000] by (simp add: percentile_thresholds_def Let_def)
qed

text \<open>The percentiles of a latency histogram are the lower bounds of buckets: each is the power of two below the first bucket up to which the
  given share of the recorded durations, rounded down, was seen. They never decrease from one percentile to the next, so that the differences reported as jitter do not wrap.\<close>

theorem histogram_percentiles_are_ranks:
  assumes "ds \<noteq> []" and "length ds * 999999 < 2 ^ 64"
  shows "let r = compute_percentiles (recorded ds); n = length ds in
    p50 r = 2 ^ rank_bucket ds (n div 2) \<and> p90 r = 2 ^ rank_bucket ds (n * 90 div 100) \<and> p99 r = 2 ^ rank_bucket ds (n * 99 div 100) \<and>
    p999 r = 2 ^ rank_bucket ds (n * 999 div 1000) \<and> p9999 r = 2 ^ rank_bucket ds (n * 9999 div 10000) \<and>
    p99999 r = 2 ^ rank_bucket ds (n * 99999 div 100000) \<and> p999999 r = 2 ^ rank_bucket ds (n * 999999 div 1000000) \<and>
    p50 r \<le> p90 r \<and> p90 r \<le> p99 r \<and> p99 r \<le> p999 r \<and> p999 r \<le> p9999 r \<and> p9999 r \<le> p99999 r \<and> p99999 r \<le> p999999 r"
proof -
  have l: "length ds < 2 ^ 64" using assms(2) by simp
  note t = recorded_thresholds [OF assms(2), unfolded Let_def]
  have z: "p50 zero_percentiles = 0" "p90 zero_percentiles = 0" "p99 zero_percentiles = 0" "p999 zero_percentiles = 0" "p9999 zero_percentiles = 0" "p99999 zero_percentiles = 0"
    "p999999 zero_percentiles = 0" by (simp_all add: zero_percentiles_def)
  note f = compute_percentiles_recorded [OF assms(1) l] percentile_loop_fields z
  have "length ds div 2 \<le> length ds * 90 div 100" "length ds * 90 div 100 \<le> length ds * 99 div 100" "length ds * 99 div 100 \<le> length ds * 999 div 1000"
    "length ds * 999 div 1000 \<le> length ds * 9999 div 10000" "length ds * 9999 div 10000 \<le> length ds * 99999 div 100000"
    "length ds * 99999 div 100000 \<le> length ds * 999999 div 1000000" "length ds * 999999 div 1000000 \<le> length ds" by linarith+
  then show ?thesis unfolding Let_def f using t by (simp add: field_rank [OF l] rank_power_mono)
qed

text \<open>The share is rounded down to 0 for a single duration: whatever was recorded, every percentile is then reported as 1 ns.\<close>

lemma single_duration_percentiles:
  "let r = compute_percentiles (recorded [d]) in p50 r = 1 \<and> p90 r = 1 \<and> p99 r = 1 \<and> p999 r = 1 \<and> p9999 r = 1 \<and> p99999 r = 1 \<and> p999999 r = 1"
proof -
  have "rank_bucket [d] 0 = 0" by (simp add: rank_bucket_def)
  then show ?thesis using histogram_percentiles_are_ranks [of "[d]"] by (simp add: Let_def)
qed

section \<open>Burst profiler\<close>

definition WINDOW_NS :: u64 where "WINDOW_NS = 50000"

record burst_profiler =
  window_start_ns :: u64
  window_count :: u32
  max_events_per_window :: u32
  total_windows :: u64
  total_events :: u64

definition burst_reset :: burst_profiler where
  "burst_reset = \<lparr>window_start_ns = 0, window_count = 0, max_events_per_window = 0, total_windows = 0, total_events = 0\<rparr>"

definition burst_record :: "u64 \<Rightarrow> burst_profiler \<Rightarrow> burst_profiler" where
  "burst_record now_ns b0 =
     (let b = b0\<lparr>total_events := total_events b0 + 1\<rparr> in
      if window_start_ns b = 0 then b\<lparr>window_start_ns := now_ns, window_count := 1\<rparr>
      else if now_ns - window_start_ns b > WINDOW_NS
      then (let b1 = (if window_count b > 0 then b\<lparr>max_events_per_window := max (max_events_per_window b) (window_count b), total_windows := total_windows b + 1\<rparr> else b)
            in b1\<lparr>window_start_ns := now_ns, window_count := 1\<rparr>)
      else b\<lparr>window_count := window_count b + 1\<rparr>)"

definition max_events_observed :: "burst_profiler \<Rightarrow> u32" where
  "max_events_observed b = max (max_events_per_window b) (window_count b)"

definition total_windows_observed :: "burst_profiler \<Rightarrow> u64" where
  "total_windows_observed b = total_windows b + (if window_count b > 0 then 1 else 0)"

text \<open>The windows of a sequence of times: each begins with the first time after the window before and holds the times at most \<open>WINDOW_NS\<close> later.\<close>

function bursts :: "u64 list \<Rightarrow> u64 list list" where
  "bursts [] = []"
| "bursts (t # ts) = (t # takeWhile (\<lambda>x. x - t \<le> WINDOW_NS) ts) # bursts (dropWhile (\<lambda>x. x - t \<le> WINDOW_NS) ts)"
  by pat_completeness auto
termination by (relation "measure length") (auto simp: length_dropWhile_le le_imp_less_Suc)

lemma bursts_nonempty: "bursts ts = [] \<longleftrightarrow> ts = []"
  by (cases ts) simp_all

lemma bursts_members: "w \<in> set (bursts ts) \<Longrightarrow> w \<noteq> [] \<and> length w \<le> length ts \<and> set w \<subseteq> set ts"
proof (induction ts rule: bursts.induct)
  case (2 t ts)
  then show ?case using length_dropWhile_le [of "\<lambda>x. x - t \<le> WINDOW_NS" ts] length_takeWhile_le [of "\<lambda>x. x - t \<le> WINDOW_NS" ts]
    by (auto dest: set_takeWhileD set_dropWhileD simp: le_Suc_eq)
qed simp

lemma bursts_length: "length (bursts ts) \<le> length ts"
proof (induction ts rule: bursts.induct)
  case (2 t ts)
  then show ?case using length_dropWhile_le [of "\<lambda>x. x - t \<le> WINDOW_NS" ts] by simp
qed simp

lemma bursts_snoc:
  "ts \<noteq> [] \<Longrightarrow> bursts (ts @ [x]) =
     (if x - hd (last (bursts ts)) \<le> WINDOW_NS then butlast (bursts ts) @ [last (bursts ts) @ [x]] else bursts ts @ [[x]])"
proof (induction ts rule: bursts.induct)
  case (2 t ts)
  show ?case
  proof (cases "\<forall>y \<in> set ts. y - t \<le> WINDOW_NS")
    case True
    then have e: "dropWhile (\<lambda>x. x - t \<le> WINDOW_NS) ts = []" "takeWhile (\<lambda>x. x - t \<le> WINDOW_NS) ts = ts" by (simp_all add: takeWhile_eq_all_conv)
    show ?thesis using True by (simp add: takeWhile_append dropWhile_append e)
  next
    case False
    then have "dropWhile (\<lambda>x. x - t \<le> WINDOW_NS) ts \<noteq> []" by (auto simp: dropWhile_eq_Nil_conv)
    then show ?thesis using 2 False by (auto simp: takeWhile_append dropWhile_append bursts_nonempty)
  qed
qed simp

definition longest :: "u64 list list \<Rightarrow> nat" where "longest ws = Max (insert 0 (length ` set ws))"

lemma longest_bound: "set ws \<subseteq> set (bursts ts) \<Longrightarrow> longest ws \<le> length ts"
  unfolding longest_def using bursts_members by (intro Max.boundedI) auto

lemma longest_snoc: "longest (ws @ [w]) = max (longest ws) (length w)"
proof -
  have "insert 0 (length ` set (ws @ [w])) = insert (length w) (insert 0 (length ` set ws))" by auto
  then show ?thesis unfolding longest_def by (simp add: max.commute)
qed

lemma word_max_of_nat: "a < 2 ^ 32 \<Longrightarrow> b < 2 ^ 32 \<Longrightarrow> max (of_nat a) (of_nat b :: u32) = of_nat (max a b)"
  by (simp add: max_def word_le_nat_alt unat_of_nat)

lemma burst_state:
  assumes "ts \<noteq> []" "0 \<notin> set ts" "length ts < 2 ^ 32"
  shows "fold burst_record ts burst_reset = \<lparr>window_start_ns = hd (last (bursts ts)), window_count = of_nat (length (last (bursts ts))),
    max_events_per_window = of_nat (longest (butlast (bursts ts))), total_windows = of_nat (length (bursts ts) - 1), total_events = of_nat (length ts)\<rparr>"
  using assms
proof (induction ts rule: rev_induct)
  case (snoc x ts)
  show ?case
  proof (cases "ts = []")
    case True
    then show ?thesis by (simp add: burst_record_def burst_reset_def Let_def longest_def)
  next
    case False
    let ?w = "last (bursts ts)"
    have w: "?w \<in> set (bursts ts)" "?w \<noteq> []" "length ?w \<le> length ts" "set ?w \<subseteq> set ts"
      using bursts_members [of ?w ts] False by (simp_all add: bursts_nonempty)
    have "hd ?w \<in> set ts" using hd_in_set [OF w(2)] w(4) by blast
    then have h: "hd ?w \<noteq> 0" using snoc.prems(2) by auto
    have c: "(of_nat (length ?w) :: u32) \<noteq> 0" using w(2,3) snoc.prems(3) by (simp add: word_unat_eq_iff unat_of_nat)
    have "longest (butlast (bursts ts)) \<le> length ts" by (rule longest_bound) (auto dest: in_set_butlastD)
    then have l: "max (of_nat (longest (butlast (bursts ts)))) (of_nat (length ?w) :: u32) = of_nat (longest (bursts ts))"
      using longest_snoc [of "butlast (bursts ts)" ?w] w(3) snoc.prems(3) False by (subst word_max_of_nat) (simp_all add: bursts_nonempty)
    obtain n where n: "length (bursts ts) = Suc n" using False by (cases "length (bursts ts)") (simp_all add: bursts_nonempty)
    have IH: "fold burst_record (ts @ [x]) burst_reset = burst_record x \<lparr>window_start_ns = hd ?w, window_count = of_nat (length ?w),
        max_events_per_window = of_nat (longest (butlast (bursts ts))), total_windows = of_nat n, total_events = of_nat (length ts)\<rparr>"
      using snoc False n by simp
    show ?thesis
    proof (cases "x - hd ?w \<le> WINDOW_NS")
      case True
      then show ?thesis unfolding IH using h w(2) n False by (simp add: burst_record_def bursts_snoc Let_def not_le add.commute)
    next
      case out: False
      then show ?thesis unfolding IH using h c n False by (simp add: burst_record_def bursts_snoc Let_def word_neq_0_conv l add.commute)
    qed
  qed
qed simp

text \<open>The burst profiler counts the windows of the recorded times and the size of the largest, provided that no time is 0, the mark of a profiler without a window.\<close>

theorem burst_profiler_counts_windows:
  assumes "ts \<noteq> []" and "0 \<notin> set ts" and "length ts < 2 ^ 32"
  shows "let b = fold burst_record ts burst_reset in unat (total_events b) = length ts \<and> unat (total_windows_observed b) = length (bursts ts) \<and>
    unat (max_events_observed b) = longest (bursts ts)"
proof -
  let ?w = "last (bursts ts)"
  have w: "?w \<noteq> []" "length ?w \<le> length ts" using bursts_members [of ?w ts] assms(1) by (simp_all add: bursts_nonempty)
  have c: "(of_nat (length ?w) :: u32) \<noteq> 0" using w assms(3) by (simp add: word_unat_eq_iff unat_of_nat)
  have b: "longest (butlast (bursts ts)) \<le> length ts" "longest (bursts ts) \<le> length ts" by (auto intro!: longest_bound dest: in_set_butlastD)
  have "longest (bursts ts) = max (longest (butlast (bursts ts))) (length ?w)" using longest_snoc [of "butlast (bursts ts)" ?w] assms(1) by (simp add: bursts_nonempty)
  then have "unat (max_events_observed (fold burst_record ts burst_reset)) = longest (bursts ts)"
    using b w(2) assms by (simp add: burst_state max_events_observed_def word_max_of_nat unat_of_nat)
  moreover have "unat (total_windows_observed (fold burst_record ts burst_reset)) = length (bursts ts)"
  proof -
    obtain n where n: "length (bursts ts) = Suc n" using assms(1) by (cases "length (bursts ts)") (simp_all add: bursts_nonempty)
    have "total_windows_observed (fold burst_record ts burst_reset) = of_nat (Suc n)" using c assms n by (simp add: burst_state total_windows_observed_def word_neq_0_conv)
    then show ?thesis using n bursts_length [of ts] assms(3) by (simp only: unat_of_nat) simp
  qed
  ultimately show ?thesis using assms by (simp add: burst_state unat_of_nat Let_def)
qed

section \<open>Life cycles\<close>

record life_cycle =
  cycle_count :: u64
  did_work_total :: u64
  total_cycle_time_ns :: u64
  total_active_time_ns :: u64
  last_sleep_ms :: u32

definition life_cycle_record :: "u64 \<Rightarrow> u64 \<Rightarrow> bool \<Rightarrow> life_cycle \<Rightarrow> life_cycle" where
  "life_cycle_record cycle_ns sleep_ns did_work s =
     (let s1 = s\<lparr>cycle_count := cycle_count s + 1, total_cycle_time_ns := total_cycle_time_ns s + cycle_ns\<rparr>;
          s2 = (if did_work then s1\<lparr>total_active_time_ns := total_active_time_ns s1 + (cycle_ns - sleep_ns), did_work_total := did_work_total s1 + 1\<rparr> else s1)
      in s2\<lparr>last_sleep_ms := ucast (sleep_ns div 1000000)\<rparr>)"

definition avg_cycle_ns :: "life_cycle \<Rightarrow> u64" where
  "avg_cycle_ns s = (if cycle_count s = 0 then 0 else total_cycle_time_ns s div cycle_count s)"

definition avg_active_ns :: "life_cycle \<Rightarrow> u64" where
  "avg_active_ns s = (if cycle_count s = 0 then 0 else total_active_time_ns s div cycle_count s)"

end
