(* ===== verification/Atomic_Sampler.thy ===== *)
theory Atomic_Sampler
  imports Metrics
begin

text \<open>
  The sampler that several threads record into (lcr/metrics/atomic/stats/sampler.hpp): two atomic additions and two loops of compare-and-exchange, which may fail without reason. A step is one
  atomic access of one thread with the test that follows it.
\<close>

datatype 'w sampler_pc = ATotal | ASamples | AMinLoad | AMinCas 'w | AMaxLoad | AMaxCas 'w | ADone

definition test_min :: "('a :: len) word \<Rightarrow> 'a word \<Rightarrow> 'a word sampler_pc" where
  "test_min v prev = (if v < prev then AMinCas prev else AMaxLoad)"

definition test_max :: "('a :: len) word \<Rightarrow> 'a word \<Rightarrow> 'a word sampler_pc" where
  "test_max v prev = (if v > prev then AMaxCas prev else ADone)"

fun atomic_record_action :: "('a :: len) word \<Rightarrow> bool \<Rightarrow> 'a word sampler \<Rightarrow> 'a word sampler_pc \<Rightarrow> 'a word sampler \<times> 'a word sampler_pc" where
  "atomic_record_action v spurious s ATotal = (s\<lparr>sp_total := sp_total s + ucast v\<rparr>, ASamples)"
| "atomic_record_action v spurious s ASamples = (s\<lparr>sp_samples := sp_samples s + 1\<rparr>, AMinLoad)"
| "atomic_record_action v spurious s AMinLoad = (s, test_min v (sp_min s))"
| "atomic_record_action v spurious s (AMinCas prev) =
     (if sp_min s = prev \<and> \<not> spurious then (s\<lparr>sp_min := v\<rparr>, AMaxLoad) else (s, test_min v (sp_min s)))"
| "atomic_record_action v spurious s AMaxLoad = (s, test_max v (sp_max s))"
| "atomic_record_action v spurious s (AMaxCas prev) =
     (if sp_max s = prev \<and> \<not> spurious then (s\<lparr>sp_max := v\<rparr>, ADone) else (s, test_max v (sp_max s)))"
| "atomic_record_action v spurious s ADone = (s, ADone)"

text \<open>Thread \<open>i\<close> records the value \<open>vs ! i\<close>.\<close>

inductive as_step :: "('a :: len) word list \<Rightarrow> 'a word sampler \<times> (nat \<Rightarrow> 'a word sampler_pc) \<Rightarrow> 'a word sampler \<times> (nat \<Rightarrow> 'a word sampler_pc) \<Rightarrow> bool"
  for vs :: "('a :: len) word list" where
  as_thread: "i < length vs \<Longrightarrow> atomic_record_action (vs ! i) spurious s (pcs i) = (s', pc') \<Longrightarrow> as_step vs (s, pcs) (s', pcs(i := pc'))"

inductive_cases as_stepE: "as_step vs (s, pcs) st'"

section \<open>Invariant\<close>

definition past_total :: "'w sampler_pc \<Rightarrow> bool" where "past_total pc \<longleftrightarrow> pc \<noteq> ATotal"
definition past_samples :: "'w sampler_pc \<Rightarrow> bool" where "past_samples pc \<longleftrightarrow> pc \<noteq> ATotal \<and> pc \<noteq> ASamples"
fun past_min :: "'w sampler_pc \<Rightarrow> bool" where
  "past_min AMaxLoad = True" | "past_min (AMaxCas _) = True" | "past_min ADone = True" | "past_min _ = False"

definition added :: "('a :: len) word list \<Rightarrow> (nat \<Rightarrow> 'a word sampler_pc) \<Rightarrow> u64" where
  "added vs pcs = (\<Sum>i < length vs. if past_total (pcs i) then ucast (vs ! i) else 0)"

definition counted :: "('a :: len) word list \<Rightarrow> (nat \<Rightarrow> 'a word sampler_pc) \<Rightarrow> u64" where
  "counted vs pcs = (\<Sum>i < length vs. if past_samples (pcs i) then 1 else 0)"

lemma sum_upd:
  fixes g :: "nat \<Rightarrow> 'p \<Rightarrow> 'b :: ab_group_add"
  assumes "i < n"
  shows "(\<Sum>j < n. g j ((f(i := p)) j)) = (\<Sum>j < n. g j (f j)) - g i (f i) + g i p"
  using assms by (simp add: sum.remove [of "{..< n}" i])

lemma added_upd: "i < length vs \<Longrightarrow> added vs (pcs(i := p)) = added vs pcs - (if past_total (pcs i) then ucast (vs ! i) else 0) + (if past_total p then ucast (vs ! i) else 0)"
  unfolding added_def by (rule sum_upd [of i "length vs" "\<lambda>j p. if past_total p then ucast (vs ! j) else 0"])

lemma counted_upd: "i < length vs \<Longrightarrow> counted vs (pcs(i := p)) = counted vs pcs - (if past_samples (pcs i) then 1 else 0) + (if past_samples p then 1 else 0)"
  unfolding counted_def by (rule sum_upd [of i "length vs" "\<lambda>j p. if past_samples p then 1 else 0"])

definition sums_inv :: "('a :: len) word list \<Rightarrow> 'a word sampler \<times> (nat \<Rightarrow> 'a word sampler_pc) \<Rightarrow> bool" where
  "sums_inv vs = (\<lambda>(s, pcs). sp_total s = added vs pcs \<and> sp_samples s = counted vs pcs)"

definition min_inv :: "('a :: len) word list \<Rightarrow> 'a word sampler \<times> (nat \<Rightarrow> 'a word sampler_pc) \<Rightarrow> bool" where
  "min_inv vs = (\<lambda>(s, pcs). (sp_min s = - 1 \<or> sp_min s \<in> set vs) \<and> (\<forall>i < length vs. (past_min (pcs i) \<longrightarrow> sp_min s \<le> vs ! i) \<and> (\<forall>prev. pcs i = AMinCas prev \<longrightarrow> vs ! i < prev)))"

definition max_inv :: "('a :: len) word list \<Rightarrow> 'a word sampler \<times> (nat \<Rightarrow> 'a word sampler_pc) \<Rightarrow> bool" where
  "max_inv vs = (\<lambda>(s, pcs). (sp_max s = 0 \<or> sp_max s \<in> set vs) \<and> (\<forall>i < length vs. (pcs i = ADone \<longrightarrow> vs ! i \<le> sp_max s) \<and> (\<forall>prev. pcs i = AMaxCas prev \<longrightarrow> prev < vs ! i)))"

lemma sums_step: "as_step vs st st' \<Longrightarrow> sums_inv vs st \<Longrightarrow> sums_inv vs st'"
proof (induction rule: as_step.induct)
  case (as_thread i spurious s pcs s' pc')
  then show ?case by (cases "pcs i") (auto simp: sums_inv_def added_upd counted_upd past_total_def past_samples_def test_min_def test_max_def split: if_splits)
qed

lemma min_step: "as_step vs st st' \<Longrightarrow> min_inv vs st \<Longrightarrow> min_inv vs st'"
proof (induction rule: as_step.induct)
  case (as_thread i spurious s pcs s' pc')
  have v: "vs ! i \<in> set vs" using as_thread(1) by simp
  have inv: "sp_min s = - 1 \<or> sp_min s \<in> set vs" "\<And>j. j < length vs \<Longrightarrow> past_min (pcs j) \<Longrightarrow> sp_min s \<le> vs ! j" "\<And>j prev. j < length vs \<Longrightarrow> pcs j = AMinCas prev \<Longrightarrow> vs ! j < prev"
    using as_thread.prems by (auto simp: min_inv_def)
  consider "sp_min s' = sp_min s" "\<And>prev. pc' = AMinCas prev \<Longrightarrow> vs ! i < prev" "past_min pc' \<Longrightarrow> sp_min s \<le> vs ! i"
    | "sp_min s' = vs ! i" "vs ! i < sp_min s" "pc' = AMaxLoad"
    using as_thread(1,2) inv(2,3) [OF as_thread(1)] by (cases "pcs i") (auto simp: test_min_def test_max_def split: if_splits)
  then show ?case
  proof cases
    case 1
    then show ?thesis using inv by (auto simp: min_inv_def)
  next
    case 2
    have "vs ! i \<le> vs ! j" if "j < length vs" "past_min (pcs j)" for j using inv(2) [OF that] 2(2) by simp
    then show ?thesis using 2 v inv(3) by (auto simp: min_inv_def)
  qed
qed

lemma max_step: "as_step vs st st' \<Longrightarrow> max_inv vs st \<Longrightarrow> max_inv vs st'"
proof (induction rule: as_step.induct)
  case (as_thread i spurious s pcs s' pc')
  have v: "vs ! i \<in> set vs" using as_thread(1) by simp
  have inv: "sp_max s = 0 \<or> sp_max s \<in> set vs" "\<And>j. j < length vs \<Longrightarrow> pcs j = ADone \<Longrightarrow> vs ! j \<le> sp_max s" "\<And>j prev. j < length vs \<Longrightarrow> pcs j = AMaxCas prev \<Longrightarrow> prev < vs ! j"
    using as_thread.prems by (auto simp: max_inv_def)
  consider "sp_max s' = sp_max s" "\<And>prev. pc' = AMaxCas prev \<Longrightarrow> prev < vs ! i" "pc' = ADone \<Longrightarrow> vs ! i \<le> sp_max s"
    | "sp_max s' = vs ! i" "sp_max s < vs ! i" "pc' = ADone"
    using as_thread(1,2) inv(2,3) [OF as_thread(1)] by (cases "pcs i") (auto simp: test_min_def test_max_def split: if_splits)
  then show ?case
  proof cases
    case 1
    then show ?thesis using inv by (auto simp: max_inv_def)
  next
    case 2
    have "vs ! j \<le> vs ! i" if "j < length vs" "pcs j = ADone" for j using inv(2) [OF that] 2(2) by simp
    then show ?thesis using 2 v inv(3) by (auto simp: max_inv_def)
  qed
qed

lemma as_run_inv: "(as_step vs)\<^sup>*\<^sup>* st st' \<Longrightarrow> sums_inv vs st \<and> min_inv vs st \<and> max_inv vs st \<Longrightarrow> sums_inv vs st' \<and> min_inv vs st' \<and> max_inv vs st'"
  by (induction rule: rtranclp_induct) (auto intro: sums_step min_step max_step)

text \<open>Recording is linearizable: whatever the interleaving and the spurious failures, once all threads are done the sampler is in the state that recording the values one after
  the other leads to.\<close>

theorem atomic_sampler_linearizable:
  assumes "(as_step vs)\<^sup>*\<^sup>* (sampler_reset, \<lambda>i. ATotal) (s, pcs)" and "\<forall>i < length vs. pcs i = ADone" and "vs \<noteq> []"
  shows "s = fold sampler_record vs sampler_reset"
proof -
  have "sums_inv vs (sampler_reset, \<lambda>i. ATotal) \<and> min_inv vs (sampler_reset, \<lambda>i. ATotal) \<and> max_inv vs (sampler_reset, \<lambda>i. ATotal)"
    by (simp add: sums_inv_def min_inv_def max_inv_def sampler_reset_def added_def counted_def past_total_def past_samples_def)
  from as_run_inv [OF assms(1) this] have inv: "sums_inv vs (s, pcs)" "min_inv vs (s, pcs)" "max_inv vs (s, pcs)" by auto
  have "sp_total s = (\<Sum>i < length vs. ucast (vs ! i))" "sp_samples s = of_nat (length vs)"
    using inv(1) assms(2) by (simp_all add: sums_inv_def added_def counted_def past_total_def past_samples_def)
  moreover have "(\<Sum>i < length vs. ucast (vs ! i) :: u64) = of_nat (sum_list (map unat vs))" by (simp add: sum_list_sum_nth atLeast0LessThan)
  moreover have le: "\<And>v. v \<in> set vs \<Longrightarrow> sp_min s \<le> v" "\<And>v. v \<in> set vs \<Longrightarrow> v \<le> sp_max s"
    using inv(2,3) assms(2) by (auto simp: min_inv_def max_inv_def in_set_conv_nth)
  have "sp_min s \<in> set vs" using inv(2) le(1) assms(3) by (auto simp: min_inv_def) (metis hd_in_set word_order.extremum_uniqueI)
  then have "sp_min s = Min (set vs)" using le(1) by (intro Min_eqI [symmetric]) auto
  moreover have "sp_max s \<in> set vs" using inv(3) le(2) assms(3) by (auto simp: max_inv_def) (metis hd_in_set word_le_0_iff)
  then have "sp_max s = Max (set vs)" using le(2) by (intro Max_eqI [symmetric]) auto
  ultimately show ?thesis
    using sampler_stats.folded_total [of vs sampler_reset] sampler_stats.folded_samples [of vs sampler_reset] sampler_stats.folded_lowest [OF assms(3), of sampler_reset]
      sampler_stats.folded_highest [OF assms(3), of sampler_reset] by (intro sampler.equality) (simp_all add: sampler_stats.fresh min_absorb2 max_absorb2)
qed

end
