(* ===== verification/Spec2Isabelle.thy ===== *)
theory Spec2Isabelle
  imports Subscription_Controller Control Spsc_Ring Local_Queue Symbol_Intern Replay Connection_Run Ws_Engine Session_Run Matching_Faults Wal_Crash Wal_Replay Lite_Client Spmc_Ring Fanout_Ring Last_Value Local_Containers Instrument_Engine Atomic_Sampler
begin

text \<open>
  A verification library of Wirekrak, a client for the WebSocket market data of the Kraken exchange, and of Flashstrike, the matching engine with its
  write-ahead log under src/integrations. All paths below are relative to src/include, src/include/wirekrak/core or src/integrations/include/flashstrike.

  \<^bold>\<open>The program.\<close> The lowest layer is \<^verbatim>\<open>lcr\<close>, a library of fixed-capacity containers, lock-free queues and pools. The transport layer
  has a receive thread (\<^verbatim>\<open>websocket::Engine\<close>) that writes messages into a ring of slots backed by a block pool and events into a control ring, and a
  \<^verbatim>\<open>Connection\<close> that a user thread polls: it consumes the events, runs the connection state machine with retries and liveness, and emits signals. The
  protocol layer (\<^verbatim>\<open>Session\<close>) consumes the signals and the messages: it keeps the state of the subscriptions of each channel
  (\<^verbatim>\<open>subscription::Manager\<close>, one per channel in a \<^verbatim>\<open>Controller\<close>), the requests to replay after a reconnection (\<^verbatim>\<open>replay::Database\<close>) and the
  batches to send (\<^verbatim>\<open>request::Scheduler\<close>); requests are written by the JSON writers. Flashstrike keeps price levels in partitions with bitmaps, matches orders by
  price and time, and records every request in a log of segments that a recovery replays.

  \<^bold>\<open>Conventions.\<close> Objects are records that operations return updated; enums are datatypes; machine integers are words where wrap-around can matter
  and otherwise naturals or integers whose bound is stated. A failed assertion of the debug build, a trap and an access out of bounds are the result \<open>None\<close>.
  Threads are step relations over their accesses to shared memory, which interleave atomically. Clock readings, results of system calls and what the network
  delivers are arguments. Code that is not in the repository is an argument: the transport backend, XXH64, LZ4, the user's callbacks.

  \<^bold>\<open>Theories.\<close>
  \<^item> \<open>Prelude\<close>: word types, the lemma collections and the lemmas on lists, maps and words that the components share.
  \<^item> \<open>Control\<close>: request ids (lcr/sequence.hpp) and hysteresis and streak counters (lcr/control). Ids are unique for \<open>2^64\<close> draws.
  \<^item> \<open>Bounded_Queue\<close>: the contract of a bounded FIFO as a locale; \<open>Spsc_Queue\<close> (lcr/lockfree/spsc_core.hpp, spsc_queue.hpp), \<open>Spsc_Ring\<close>
    (spsc_ring.hpp) and \<open>Local_Queue\<close> (lcr/local) implement it; the first also in every interleaving of producer and consumer.
  \<^item> \<open>Block_Pool\<close>, \<open>Managed_Ring\<close> (lcr/memory, lcr/buffer): the lock-free free list, safe with one acquiring thread, and the ring of slots with
    promotion to pool blocks, which is a queue of messages.
  \<^item> \<open>Symbol_Intern\<close> (symbol/intern.hpp): ids of names are stable and distinct.
  \<^item> \<open>Pending_Requests\<close>, \<open>Subscription_Manager\<close>, \<open>Subscription_Controller\<close>, \<open>Replay\<close> (protocol/subscription, protocol/replay): each refines a map from
    symbols to owners or to the state of a small machine per symbol.
  \<^item> \<open>Parse_Url\<close>, \<open>Retry_Policy\<close>, \<open>Connection\<close>, \<open>Connection_Run\<close> (transport): the connection, its invariant, the alternation of its signals, and
    when it reconnects, gives up or times out.
  \<^item> \<open>Ws_Engine\<close> (transport/websocket/engine.hpp): what is read is published in order, and the close event comes once and last.
  \<^item> \<open>Kraken_Json\<close>, \<open>Request_Scheduler\<close> (lcr/json.hpp, protocol/kraken/schema, protocol/request): the request writers stay in their buffers and
    read back; pacing and batching.
  \<^item> \<open>Session\<close>, \<open>Session_Poll\<close>, \<open>Session_Run\<close> (protocol/session.hpp): the session over all of these, its invariant, and that a reconnection restores
    the subscriptions.
  \<^item> \<open>Timestamp\<close> (timestamp.hpp): RFC 3339 texts, which read back as the instants they were printed from.
  \<^item> \<open>Bitmap\<close>, \<open>Flash_Types\<close>, \<open>Order_Pool\<close>, \<open>Order_Id_Map\<close>, \<open>Order_Book\<close>, \<open>Book_Levels\<close>, \<open>Book_Ops\<close>, \<open>Book_Refinement\<close>, \<open>Best_Price\<close>
    (matching_engine): the book over shared pools, which refines one queue of orders per price; the bitmap scans and the cached best price are exact.
  \<^item> \<open>Matching\<close>, \<open>Matching_Run\<close>, \<open>Matching_Modify\<close>, \<open>Matching_Faults\<close>, \<open>Partition_Plan\<close>: matching conserves quantities and fills in time order; the
    plan of the partitions; the inputs on which the engine loops, hides the book or leaves the range.
  \<^item> \<open>Wal_Format\<close>, \<open>Segment_Writer\<close>, \<open>Segment_Reader\<close>, \<open>Wal_Segment\<close>, \<open>Wal_Write\<close>, \<open>Wal_Read\<close>, \<open>Wal_Log\<close> (wal/segment, wal/recorder/segment_writer.hpp,
    wal/recovery/segment_reader.hpp): a segment reads back what was appended, for every hash function.
  \<^item> \<open>Wal_Names\<close>, \<open>Wal_Meta\<close>, \<open>Wal_Recorder\<close>, \<open>Wal_Recorder_Run\<close>, \<open>Wal_Crash\<close>, \<open>Wal_Recovery\<close>, \<open>Wal_Replay\<close> (wal/recorder, wal/recovery): the managers
    with their worker threads keep the log over rotations and restarts and replay it; what a crash costs.

  \<^bold>\<open>Bounds.\<close> \<open>match_loop\<close> is a \<^verbatim>\<open>partial_function\<close> and its value \<open>None\<close> is a loop that does not end: the theorems on matching show that it returns
  for books that satisfy the invariant, and \<open>Matching_Faults\<close> gives a book where it does not. The loops of the receive thread and of the workers are steps, so runs
  are finite sequences of any length. Segment names are ordered up to index \<open>10^8\<close> and segments are assumed smaller than 4 GiB (\<open>small_segment\<close>), the range of
  their 32-bit offsets.

  \<^bold>\<open>Not modelled.\<close> The backends over WinHTTP and Asio (calls into the operating system); logging, metrics, telemetry and reports, which no decision
  reads; thread affinity and the clock; compile-time concepts, type lists and presets, whose effect is the choice of types made in the model; the weak memory
  model of the hardware; and the parts listed in the manifest as not modelled.
\<close>

end
